(* ===== verification/Prelude.thy ===== *)
theory Prelude imports Main "HOL-Library.Word" "HOL-Library.Monad_Syntax" begin

unbundle bit_operations_syntax

text \<open>
  Prelude: the machine types of the simulator, the three macros and the integer helpers of
  \<^verbatim>\<open>zsim/src/bithacks.h\<close>, the collections of simplification rules the component
  theories fill, and the generic facts on lists and options they share.

  Conventions of the whole development:
  \<^item> \<open>'a option\<close> is the result of an operation that can stop the simulator: \<open>None\<close> is a failed
    \<^verbatim>\<open>assert\<close>, a \<^verbatim>\<open>panic\<close> or an access through a null pointer or out of an array;
  \<^item> a counter or an address is a machine word where its wrap-around can be observed, an index
    is a \<open>nat\<close>, and an index for which the code uses -1 as "none" is an \<open>int\<close>;
  \<^item> a method that changes its object takes the object's record and returns the new one.
\<close>

type_synonym u32 = "32 word"
type_synonym u64 = "64 word"

type_synonym address = u64

named_theorems array_simps \<open>reads of updated arrays\<close>
named_theorems guard_simps \<open>unfolding of the asserts of the source\<close>

subsection \<open>Asserts and array accesses\<close>

definition assert_that :: "bool \<Rightarrow> unit option" where
  "assert_that b = (if b then Some () else None)"

definition read_at :: "'a list \<Rightarrow> nat \<Rightarrow> 'a option" where
  "read_at xs i = (if i < length xs then Some (xs ! i) else None)"

definition write_at :: "'a list \<Rightarrow> nat \<Rightarrow> 'a \<Rightarrow> 'a list option" where
  "write_at xs i v = (if i < length xs then Some (xs[i := v]) else None)"

lemma assert_that_bind [simp]:
  "(assert_that b \<bind> f = Some y) \<longleftrightarrow> b \<and> f () = Some y"
  by (simp add: assert_that_def)

lemma assert_that_True [simp]: "assert_that True = Some ()"
  by (simp add: assert_that_def)

lemma assert_that_Some [simp]: "(assert_that b = Some u) \<longleftrightarrow> b"
  by (simp add: assert_that_def)

lemma read_at_Some [simp]: "(read_at xs i = Some v) \<longleftrightarrow> i < length xs \<and> xs ! i = v"
  by (auto simp: read_at_def)

lemma read_at_in [array_simps]: "i < length xs \<Longrightarrow> read_at xs i = Some (xs ! i)"
  by (simp add: read_at_def)

lemma write_at_Some [simp]: "(write_at xs i v = Some ys) \<longleftrightarrow> i < length xs \<and> ys = xs[i := v]"
  by (auto simp: write_at_def)

lemma write_at_in [array_simps]: "i < length xs \<Longrightarrow> write_at xs i v = Some (xs[i := v])"
  by (simp add: write_at_def)

subsection \<open>bithacks.h\<close>

definition MAX2 :: "'a::linorder \<Rightarrow> 'a \<Rightarrow> 'a" where
  "MAX2 x y = (if x > y then x else y)"

definition MIN2 :: "'a::linorder \<Rightarrow> 'a \<Rightarrow> 'a" where
  "MIN2 x y = (if x < y then x else y)"

lemma MAX2_max: "MAX2 x y = max x y"
  by (auto simp: MAX2_def max_def)

lemma MIN2_min: "MIN2 x y = min x y"
  by (auto simp: MIN2_def min_def)

definition isPow2 :: "'a::len word \<Rightarrow> bool" where
  "isPow2 val \<longleftrightarrow> val \<noteq> 0 \<and> \<not> (val AND (val - 1) \<noteq> 0)"

lemma word_less_nonzero: "(a::'a::len word) < b \<Longrightarrow> b \<noteq> 0"
  by auto

lemma unat_pow2: "n < LENGTH('a) \<Longrightarrow> unat (2 ^ n :: 'a::len word) = 2 ^ n"
proof -
  assume n: "n < LENGTH('a)"
  have "unat (2 ^ n :: 'a word) = unat (of_nat (2 ^ n) :: 'a word)" by simp
  also have "\<dots> = 2 ^ n mod 2 ^ LENGTH('a)" by (simp only: unsigned_of_nat take_bit_eq_mod of_nat_id)
  also have "\<dots> = 2 ^ n" using n by (intro mod_less power_strict_increasing) auto
  finally show ?thesis .
qed

lemma unat_add_small: "unat (a::'a::len word) + unat b < 2 ^ LENGTH('a) \<Longrightarrow> unat (a + b) = unat a + unat b"
  by (simp only: unat_word_ariths mod_less)

lemma unat_mult_small: "unat (a::'a::len word) * unat b < 2 ^ LENGTH('a) \<Longrightarrow> unat (a * b) = unat a * unat b"
  by (simp only: unat_word_ariths mod_less)

lemma unat_shift_right: "unat (drop_bit n (x::'a::len word)) = unat x div 2 ^ n"
  by (subst unat_drop_bit_eq) (rule drop_bit_eq_div)

lemma unat_widen: "LENGTH('a) \<le> LENGTH('b) \<Longrightarrow> unat (ucast (w::'a::len word) :: 'b::len word) = unat w"
proof -
  assume "LENGTH('a) \<le> LENGTH('b)"
  then have "(2::nat) ^ LENGTH('a) \<le> 2 ^ LENGTH('b)" by (rule power_increasing) simp
  then have "unat w < 2 ^ LENGTH('b)" using unsigned_less [of w] by (rule less_le_trans [rotated])
  then show ?thesis by (simp only: unsigned_ucast_eq take_bit_eq_mod mod_less)
qed

subsection \<open>Lists\<close>

lemma filter_all: "(\<And>x. x \<in> set xs \<Longrightarrow> P x) \<Longrightarrow> filter P xs = xs"
  by (simp add: filter_id_conv)

lemma filter_none: "(\<And>x. x \<in> set xs \<Longrightarrow> \<not> P x) \<Longrightarrow> filter P xs = []"
  by (simp add: filter_empty_conv)

definition opt_list :: "'a option \<Rightarrow> 'a list" where
  "opt_list x = (case x of None \<Rightarrow> [] | Some y \<Rightarrow> [y])"

lemma opt_list_simps [simp]: "opt_list None = []" "opt_list (Some y) = [y]"
  by (simp_all add: opt_list_def)

subsection \<open>Refinement of runs\<close>

text \<open>An operation \<open>exec x\<close> of the code refines \<open>spec x\<close> on a simpler state where \<open>ok x\<close> holds; then a run of
  operations refines the run of their specifications.\<close>

fun run_ops :: "('x \<Rightarrow> 's \<Rightarrow> 's option) \<Rightarrow> 'x list \<Rightarrow> 's \<Rightarrow> 's option" where
  "run_ops exec [] s = Some s"
| "run_ops exec (x # xs) s = do {
     s \<leftarrow> exec x s;
     run_ops exec xs s
   }"

fun run_ok :: "('x \<Rightarrow> 'a \<Rightarrow> bool) \<Rightarrow> ('x \<Rightarrow> 'a \<Rightarrow> 'a) \<Rightarrow> 'x list \<Rightarrow> 'a \<Rightarrow> bool" where
  "run_ok ok spec [] a \<longleftrightarrow> True"
| "run_ok ok spec (x # xs) a \<longleftrightarrow> ok x a \<and> run_ok ok spec xs (spec x a)"

locale simulation =
  fixes R :: "'s \<Rightarrow> 'a \<Rightarrow> bool" and exec :: "'x \<Rightarrow> 's \<Rightarrow> 's option" and spec :: "'x \<Rightarrow> 'a \<Rightarrow> 'a" and ok :: "'x \<Rightarrow> 'a \<Rightarrow> bool"
  assumes step: "R s a \<Longrightarrow> ok x a \<Longrightarrow> \<exists>s'. exec x s = Some s' \<and> R s' (spec x a)"
begin

lemma run_refines: "R s a \<Longrightarrow> run_ok ok spec xs a \<Longrightarrow> \<exists>s'. run_ops exec xs s = Some s' \<and> R s' (fold spec xs a)"
proof (induction xs arbitrary: s a)
  case (Cons x xs)
  from Cons.prems step [of s a x] obtain t where "exec x s = Some t" "R t (spec x a)" by auto
  with Cons.IH [of t "spec x a"] Cons.prems(2) show ?case by simp
qed simp

end

subsection \<open>Runs of calls\<close>

text \<open>A run calls operations where their preconditions \<open>ok\<close> hold. With an invariant under which such a call
  fails exactly if \<open>stops\<close> holds, so it is in every run.\<close>

inductive call_run :: "('x \<Rightarrow> 's \<Rightarrow> 's option) \<Rightarrow> ('x \<Rightarrow> 's \<Rightarrow> bool) \<Rightarrow> 's \<Rightarrow> 's \<Rightarrow> bool" for exec ok where
  none: "call_run exec ok s s"
| call: "call_run exec ok s s' \<Longrightarrow> ok x s' \<Longrightarrow> exec x s' = Some s'' \<Longrightarrow> call_run exec ok s s''"

locale guarded_calls =
  fixes I :: "'s \<Rightarrow> bool" and exec :: "'x \<Rightarrow> 's \<Rightarrow> 's option" and ok :: "'x \<Rightarrow> 's \<Rightarrow> bool" and stops :: "'x \<Rightarrow> 's \<Rightarrow> bool"
  assumes returns: "I s \<Longrightarrow> ok x s \<Longrightarrow> \<not> stops x s \<Longrightarrow> \<exists>s'. exec x s = Some s' \<and> I s'"
    and fails: "I s \<Longrightarrow> ok x s \<Longrightarrow> stops x s \<Longrightarrow> exec x s = None"
begin

lemma call_run_inv: "call_run exec ok s s' \<Longrightarrow> I s \<Longrightarrow> I s'"
proof (induction rule: call_run.induct)
  case (call s s' x s'')
  then show ?case using returns [of s' x] fails [of s' x] by force
qed

lemma run_returns: "call_run exec ok s s' \<Longrightarrow> I s \<Longrightarrow> ok x s' \<Longrightarrow> exec x s' = None \<longleftrightarrow> stops x s'"
  using returns [of s' x] fails [of s' x] call_run_inv [of s s'] by fastforce

end

end
