(* ===== verification/Tree23.thy ===== *)
theory Tree23 imports Prelude begin

text \<open>
  The 2-3 tree of \<^verbatim>\<open>zsim/src/tree23.cpp\<close>, which keeps the approximable regions of the
  simulated program ordered by their base address. Definitions only; the facts about them are in
  \<^verbatim>\<open>Tree23_Shape\<close>, \<^verbatim>\<open>Tree23_Insert\<close> and \<^verbatim>\<open>Tree23_Delete\<close>.

  A node is the C struct: two keys and three links. A key is an address, with 0 for the null
  pointer, as the code tests it. The explicit stack of the C code (\<^verbatim>\<open>stack\<close> and
  \<^verbatim>\<open>path_info\<close>) is a list of pairs of a node on the path and the direction taken there
  (1 right, 0 middle, -1 left), the top of the stack first. The C code changes nodes in place; here
  the changed node is put back under its ancestors with \<open>plug\<close>. A result \<open>None\<close> stands for a
  dereference of a null link, which \<^verbatim>\<open>Tree23_Insert\<close> and \<^verbatim>\<open>Tree23_Delete\<close> prove
  impossible on the trees the operations build.
\<close>

subsection \<open>Types\<close>

datatype e_approx_t = No_approx | Approx_uint | Approx_fp

record approx_region_t =
  addr :: u64
  region_range :: u32
  addr_start :: u64
  addr_end :: u64
  approx_type :: e_approx_t

datatype tree23_node =
    LEAF_LINK u64 u64 "approx_region_t option" "approx_region_t option" "approx_region_t option"
  | INTERNAL_LINK u64 u64 tree23_node tree23_node "tree23_node option"

record tree23_t =
  root :: tree23_node
  compar :: "u64 \<Rightarrow> u64 \<Rightarrow> int"
  n_items :: int
  min_item :: u64

type_synonym tree23_stack = "(tree23_node \<times> int) list"

text \<open>The \<^verbatim>\<open>void *\<close> results: null, a region, or (where the code returns a key) an address.\<close>

datatype tree23_ret = Ret_null | Ret_item approx_region_t | Ret_key u64

definition compare :: "u64 \<Rightarrow> u64 \<Rightarrow> int" where
  "compare a b = (if a = b then 0 else if a > b then 1 else -1)"

definition tree23_alloc :: "(u64 \<Rightarrow> u64 \<Rightarrow> int) \<Rightarrow> tree23_t" where
  "tree23_alloc cmp =
     \<lparr>root = LEAF_LINK 0 0 None None None, compar = cmp, n_items = 0, min_item = 0\<rparr>"

subsection \<open>The path from the root to a leaf node\<close>

fun put_child :: "tree23_node \<Rightarrow> int \<Rightarrow> tree23_node \<Rightarrow> tree23_node" where
  "put_child (INTERNAL_LINK k1 k2 l m r) d t =
     (if d > 0 then INTERNAL_LINK k1 k2 l m (Some t)
      else if d = 0 then INTERNAL_LINK k1 k2 l t r
      else INTERNAL_LINK k1 k2 t m r)"
| "put_child (LEAF_LINK k1 k2 l m r) d t = LEAF_LINK k1 k2 l m r"

fun plug :: "tree23_stack \<Rightarrow> tree23_node \<Rightarrow> tree23_node" where
  "plug [] t = t"
| "plug ((q, d) # stack) t = plug stack (put_child q d t)"

fun descend ::
  "(u64 \<Rightarrow> u64 \<Rightarrow> int) \<Rightarrow> u64 \<Rightarrow> tree23_node \<Rightarrow> tree23_stack \<Rightarrow> (tree23_stack \<times> tree23_node) option"
where
  "descend cmp item (LEAF_LINK k1 k2 l m r) stack = Some (stack, LEAF_LINK k1 k2 l m r)"
| "descend cmp item (INTERNAL_LINK k1 k2 l m r) stack =
     (if k2 \<noteq> 0 \<and> cmp item k2 \<ge> 0 then
        (case r of None \<Rightarrow> None
         | Some r' \<Rightarrow> descend cmp item r' ((INTERNAL_LINK k1 k2 l m r, 1) # stack))
      else if cmp item k1 \<ge> 0 then descend cmp item m ((INTERNAL_LINK k1 k2 l m r, 0) # stack)
      else descend cmp item l ((INTERNAL_LINK k1 k2 l m r, -1) # stack))"

subsection \<open>tree23_insert\<close>

datatype leaf_insert =
    Already tree23_ret
  | Fits tree23_node u64
  | Splits tree23_node tree23_node u64

text \<open>
  The insertion into the leaf node \<open>p\<close>: the key exists already; the item fits (the changed node and
  the tree's minimum); or the node is split (the changed node, the new node on its right, the
  tree's minimum).
\<close>

fun insert_leaf ::
  "(u64 \<Rightarrow> u64 \<Rightarrow> int) \<Rightarrow> tree23_node \<Rightarrow> approx_region_t \<Rightarrow> u64 \<Rightarrow> leaf_insert option"
where
  "insert_leaf cmp (LEAF_LINK k1 k2 l m r) region mn =
     (let item = addr region in
      if k2 \<noteq> 0 \<and> cmp item k2 \<ge> 0 then
        if cmp item k2 = 0 then Some (Already (Ret_key k2))
        else Some (Splits (LEAF_LINK k1 0 l m None) (LEAF_LINK item 0 r (Some region) None) mn)
      else if cmp item k1 \<ge> 0 then
        if cmp item k1 = 0 then Some (Already (Ret_key k1))
        else if k2 \<noteq> 0 then
          (case r of None \<Rightarrow> None
           | Some rr \<Rightarrow> Some (Splits (LEAF_LINK k1 0 l m None)
                                (LEAF_LINK (addr rr) 0 (Some region) r None) mn))
        else Some (Fits (LEAF_LINK k1 item l m (Some region)) mn)
      else
        (case l of None \<Rightarrow> None
         | Some ll \<Rightarrow>
           if cmp item (addr ll) = 0 then Some (Already (Ret_key (addr ll)))
           else
             (let smaller = cmp item (addr ll) < 0;
                  item' = (if smaller then addr ll else item);
                  region' = (if smaller then ll else region);
                  l' = (if smaller then Some region else l);
                  mn' = (if smaller then item else mn) in
              if k2 \<noteq> 0 then
                (case r of None \<Rightarrow> None
                 | Some rr \<Rightarrow> Some (Splits (LEAF_LINK item' 0 l' (Some region') None)
                                      (LEAF_LINK (addr rr) 0 m r None) mn'))
              else
                (case m of None \<Rightarrow> None
                 | Some mm \<Rightarrow> Some (Fits (LEAF_LINK item' (addr mm) l' (Some region') m) mn')))))"
| "insert_leaf cmp (INTERNAL_LINK k1 k2 l m r) region mn = None"

text \<open>
  The loop that carries a new node \<open>x\<close> (with minimum \<open>x_min\<close>) to the parent of \<open>p\<close>; it ends when a
  parent has room for a third child, or above the root, where a new root is made.
\<close>

fun insert_up ::
  "tree23_stack \<Rightarrow> tree23_node \<Rightarrow> tree23_node \<Rightarrow> u64 \<Rightarrow> tree23_node option"
where
  "insert_up [] p x x_min = Some (INTERNAL_LINK x_min 0 p x None)"
| "insert_up ((q, d) # stack) p x x_min =
     (case put_child q d p of
        LEAF_LINK _ _ _ _ _ \<Rightarrow> None
      | INTERNAL_LINK k1 k2 l m r \<Rightarrow>
          if d > 0 then
            (case r of None \<Rightarrow> None
             | Some rr \<Rightarrow> insert_up stack (INTERNAL_LINK k1 0 l m None)
                            (INTERNAL_LINK x_min 0 rr x None) k2)
          else if d = 0 then
            if k2 \<noteq> 0 then
              (case r of None \<Rightarrow> None
               | Some rr \<Rightarrow> insert_up stack (INTERNAL_LINK k1 0 l m None)
                              (INTERNAL_LINK k2 0 x rr None) x_min)
            else Some (plug stack (INTERNAL_LINK k1 x_min l m (Some x)))
          else
            if k2 \<noteq> 0 then
              (case r of None \<Rightarrow> None
               | Some rr \<Rightarrow> insert_up stack (INTERNAL_LINK x_min 0 l x None)
                              (INTERNAL_LINK k2 0 m rr None) k1)
            else Some (plug stack (INTERNAL_LINK x_min k1 l x (Some m))))"

fun left_addr :: "tree23_node \<Rightarrow> u64 option" where
  "left_addr (LEAF_LINK k1 k2 l m r) = map_option addr l"
| "left_addr (INTERNAL_LINK k1 k2 l m r) = None"

text \<open>The special case of a tree with at most one item.\<close>

definition insert_small :: "tree23_t \<Rightarrow> approx_region_t \<Rightarrow> (tree23_t \<times> tree23_ret) option" where
  "insert_small t region =
     (case root t of
        INTERNAL_LINK _ _ _ _ _ \<Rightarrow> None
      | LEAF_LINK k1 k2 l m r \<Rightarrow>
          if n_items t = 0 then
            Some (t\<lparr>min_item := addr region, root := LEAF_LINK k1 k2 (Some region) m r,
                    n_items := n_items t + 1\<rparr>, Ret_null)
          else
            (case l of None \<Rightarrow> None
             | Some ll \<Rightarrow>
               if compar t (addr region) (addr ll) = 0 then Some (t, Ret_item ll)
               else if compar t (addr region) (addr ll) > 0 then
                 Some (t\<lparr>root := LEAF_LINK (addr region) k2 l (Some region) r,
                         n_items := n_items t + 1\<rparr>, Ret_null)
               else
                 Some (t\<lparr>root := LEAF_LINK (addr ll) k2 (Some region) (Some ll) r,
                         min_item := addr region, n_items := n_items t + 1\<rparr>, Ret_null)))"

definition tree23_insert :: "tree23_t \<Rightarrow> approx_region_t \<Rightarrow> (tree23_t \<times> tree23_ret) option" where
  "tree23_insert t region =
     (if n_items t \<le> 1 then insert_small t region
      else do {
        (stack, p) \<leftarrow> descend (compar t) (addr region) (root t) [];
        res \<leftarrow> insert_leaf (compar t) p region (min_item t);
        (case res of
           Already v \<Rightarrow> Some (t, v)
         | Fits p' mn \<Rightarrow>
             Some (t\<lparr>root := plug stack p', min_item := mn, n_items := n_items t + 1\<rparr>, Ret_null)
         | Splits p' x mn \<Rightarrow> do {
             x_min \<leftarrow> left_addr x;
             root' \<leftarrow> insert_up stack p' x x_min;
             Some (t\<lparr>root := root', min_item := mn, n_items := n_items t + 1\<rparr>, Ret_null)
           })
      })"

subsection \<open>tree23_find and tree23_find_min\<close>

fun find_leaf :: "(u64 \<Rightarrow> u64 \<Rightarrow> int) \<Rightarrow> u64 \<Rightarrow> tree23_node \<Rightarrow> approx_region_t option option" where
  "find_leaf cmp key (LEAF_LINK k1 k2 l m r) =
     (if k2 \<noteq> 0 \<and> cmp key k2 \<ge> 0 then Some r
      else if cmp key k1 \<ge> 0 then Some m
      else (case l of None \<Rightarrow> None
            | Some ll \<Rightarrow> if cmp key (addr ll) < 0 then Some None else Some l))"
| "find_leaf cmp key (INTERNAL_LINK k1 k2 l m r) = None"

definition tree23_find :: "tree23_t \<Rightarrow> u64 \<Rightarrow> approx_region_t option option" where
  "tree23_find t key =
     (if n_items t \<le> 1 then
        (case root t of
           INTERNAL_LINK _ _ _ _ _ \<Rightarrow> None
         | LEAF_LINK k1 k2 l m r \<Rightarrow>
             if n_items t = 0 then Some None
             else (case l of None \<Rightarrow> None
                   | Some ll \<Rightarrow> if compar t key (addr ll) \<ge> 0 then Some l else Some None))
      else do {
        (stack, p) \<leftarrow> descend (compar t) key (root t) [];
        find_leaf (compar t) key p
      })"

definition tree23_find_min :: "tree23_t \<Rightarrow> u64" where
  "tree23_find_min t = min_item t"


subsection \<open>tree23_delete\<close>

text \<open>
  \<^verbatim>\<open>*min_key_ptr = v\<close>: the key that names the minimum of the subtree the path ends in is the
  one of the deepest node left by its middle or right link; \<open>None\<close> when there is none, that is
  when \<^verbatim>\<open>min_key_ptr\<close> is still null.
\<close>

fun set_key :: "tree23_node \<Rightarrow> int \<Rightarrow> u64 \<Rightarrow> tree23_node" where
  "set_key (INTERNAL_LINK k1 k2 l m r) d v =
     (if d > 0 then INTERNAL_LINK k1 v l m r else INTERNAL_LINK v k2 l m r)"
| "set_key (LEAF_LINK k1 k2 l m r) d v = LEAF_LINK k1 k2 l m r"

fun set_min_key :: "tree23_stack \<Rightarrow> u64 \<Rightarrow> tree23_stack option" where
  "set_min_key [] v = None"
| "set_min_key ((q, d) # stack) v =
     (if d \<ge> 0 then Some ((set_key q d v, d) # stack)
      else map_option (\<lambda>st. (q, d) # st) (set_min_key stack v))"

text \<open>
  What happens to the leaf node \<open>p\<close>: no such item; an item is taken out and at least two remain; or
  one item is left alone and must be merged. When the left item went, the third component holds
  the new key for \<^verbatim>\<open>*min_key_ptr\<close> and the one for \<^verbatim>\<open>t->min_item\<close>.
\<close>

datatype leaf_delete =
    Absent
  | Shrunk tree23_node approx_region_t "(u64 \<times> u64) option"
  | Lone approx_region_t approx_region_t "(u64 \<times> u64) option"

fun delete_leaf :: "(u64 \<Rightarrow> u64 \<Rightarrow> int) \<Rightarrow> u64 \<Rightarrow> tree23_node \<Rightarrow> leaf_delete option" where
  "delete_leaf cmp key (LEAF_LINK k1 k2 l m r) =
     (if k2 \<noteq> 0 \<and> cmp key k2 \<ge> 0 then
        if cmp key k2 \<noteq> 0 then Some Absent
        else (case r of None \<Rightarrow> None | Some rr \<Rightarrow> Some (Shrunk (LEAF_LINK k1 0 l m None) rr None))
      else if cmp key k1 \<ge> 0 then
        if cmp key k1 \<noteq> 0 then Some Absent
        else (case (l, m) of
                (Some ll, Some mm) \<Rightarrow>
                  if k2 \<noteq> 0 then Some (Shrunk (LEAF_LINK k2 0 l r None) mm None)
                  else Some (Lone ll mm None)
              | _ \<Rightarrow> None)
      else
        (case (l, m) of
           (Some ll, Some mm) \<Rightarrow>
             if cmp key (addr ll) \<noteq> 0 then Some Absent
             else if k2 \<noteq> 0 then
               Some (Shrunk (LEAF_LINK k2 0 m r None) ll (Some (addr mm, k1)))
             else Some (Lone mm ll (Some (addr mm, k1)))
         | _ \<Rightarrow> None))"
| "delete_leaf cmp key (INTERNAL_LINK k1 k2 l m r) = None"

text \<open>
  The merge loop: node \<open>p\<close> has only the child \<open>merge_node\<close> left. It takes a child from its sibling
  \<open>q\<close>, or gives its child to \<open>q\<close> and is freed, in which case the parent may be the next node with a
  single child. Above the root the single child becomes the root.
\<close>

fun delete_up :: "tree23_stack \<Rightarrow> tree23_node \<Rightarrow> tree23_node \<Rightarrow> tree23_node option" where
  "delete_up [] p merge_node = Some merge_node"
| "delete_up ((INTERNAL_LINK k1 k2 l m r, d) # stack) (INTERNAL_LINK p1 p2 pl pm pr) merge_node =
     (if d > 0 then
        (case m of
           INTERNAL_LINK q1 q2 ql qm qr \<Rightarrow>
             if q2 \<noteq> 0 then
               (case qr of None \<Rightarrow> None
                | Some qrr \<Rightarrow>
                  Some (plug stack (INTERNAL_LINK k1 q2 l (INTERNAL_LINK q1 0 ql qm None)
                          (Some (INTERNAL_LINK k2 p2 qrr merge_node pr)))))
             else
               Some (plug stack (INTERNAL_LINK k1 0 l
                       (INTERNAL_LINK q1 k2 ql qm (Some merge_node)) None))
         | LEAF_LINK _ _ _ _ _ \<Rightarrow> None)
      else if d = 0 then
        (case l of
           INTERNAL_LINK q1 q2 ql qm qr \<Rightarrow>
             if q2 \<noteq> 0 then
               (case qr of None \<Rightarrow> None
                | Some qrr \<Rightarrow>
                  Some (plug stack (INTERNAL_LINK q2 k2 (INTERNAL_LINK q1 0 ql qm None)
                          (INTERNAL_LINK k1 p2 qrr merge_node pr) r)))
             else
               (let q' = INTERNAL_LINK q1 k1 ql qm (Some merge_node) in
                if k2 \<noteq> 0 then
                  (case r of None \<Rightarrow> None
                   | Some rr \<Rightarrow> Some (plug stack (INTERNAL_LINK k2 0 q' rr None)))
                else delete_up stack (INTERNAL_LINK k1 k2 q' m r) q')
         | LEAF_LINK _ _ _ _ _ \<Rightarrow> None)
      else
        (case m of
           INTERNAL_LINK q1 q2 ql qm qr \<Rightarrow>
             if q2 \<noteq> 0 then
               (case qr of None \<Rightarrow> None
                | Some qrr \<Rightarrow>
                  Some (plug stack (INTERNAL_LINK q1 k2 (INTERNAL_LINK k1 p2 merge_node ql pr)
                          (INTERNAL_LINK q2 0 qm qrr None) r)))
             else
               (let q' = INTERNAL_LINK k1 q1 merge_node ql (Some qm) in
                if k2 \<noteq> 0 then
                  (case r of None \<Rightarrow> None
                   | Some rr \<Rightarrow> Some (plug stack (INTERNAL_LINK k2 0 q' rr None)))
                else delete_up stack (INTERNAL_LINK k1 k2 l q' r) q')
         | LEAF_LINK _ _ _ _ _ \<Rightarrow> None))"
| "delete_up (f # stack) p merge_node = None"

text \<open>The merge at the leaf level, where \<open>merge_item\<close> is the lone item of the leaf node \<open>p\<close>.\<close>

fun merge_leaf :: "tree23_stack \<Rightarrow> tree23_node \<Rightarrow> approx_region_t \<Rightarrow> tree23_node option" where
  "merge_leaf ((INTERNAL_LINK k1 k2 l m r, d) # stack) (LEAF_LINK p1 p2 pl pm pr) merge_item =
     (if d > 0 then
        (case m of
           LEAF_LINK q1 q2 ql qm qr \<Rightarrow>
             if q2 \<noteq> 0 then
               Some (plug stack (INTERNAL_LINK k1 q2 l (LEAF_LINK q1 0 ql qm None)
                       (Some (LEAF_LINK (addr merge_item) p2 qr (Some merge_item) pr))))
             else
               Some (plug stack (INTERNAL_LINK k1 0 l
                       (LEAF_LINK q1 (addr merge_item) ql qm (Some merge_item)) None))
         | INTERNAL_LINK _ _ _ _ _ \<Rightarrow> None)
      else if d = 0 then
        (case l of
           LEAF_LINK q1 q2 ql qm qr \<Rightarrow>
             if q2 \<noteq> 0 then
               Some (plug stack (INTERNAL_LINK q2 k2 (LEAF_LINK q1 0 ql qm None)
                       (LEAF_LINK (addr merge_item) p2 qr (Some merge_item) pr) r))
             else
               (let q' = LEAF_LINK q1 (addr merge_item) ql qm (Some merge_item) in
                if k2 \<noteq> 0 then
                  (case r of None \<Rightarrow> None
                   | Some rr \<Rightarrow> Some (plug stack (INTERNAL_LINK k2 0 q' rr None)))
                else delete_up stack (INTERNAL_LINK k1 k2 q' m r) q')
         | INTERNAL_LINK _ _ _ _ _ \<Rightarrow> None)
      else
        (case m of
           LEAF_LINK q1 q2 ql qm qr \<Rightarrow>
             (case ql of None \<Rightarrow> None
              | Some qll \<Rightarrow>
                if q2 \<noteq> 0 then
                  Some (plug stack (INTERNAL_LINK q1 k2
                          (LEAF_LINK (addr qll) p2 (Some merge_item) ql pr)
                          (LEAF_LINK q2 0 qm qr None) r))
                else
                  (let q' = LEAF_LINK (addr qll) q1 (Some merge_item) ql qm in
                   if k2 \<noteq> 0 then
                     (case r of None \<Rightarrow> None
                      | Some rr \<Rightarrow> Some (plug stack (INTERNAL_LINK k2 0 q' rr None)))
                   else delete_up stack (INTERNAL_LINK k1 k2 l q' r) q'))
         | INTERNAL_LINK _ _ _ _ _ \<Rightarrow> None))"
| "merge_leaf stack p merge_item = None"

text \<open>The special case of a tree with at most two items, all in the root node.\<close>

definition delete_small :: "tree23_t \<Rightarrow> u64 \<Rightarrow> (tree23_t \<times> tree23_ret) option" where
  "delete_small t key =
     (case root t of
        INTERNAL_LINK _ _ _ _ _ \<Rightarrow> None
      | LEAF_LINK k1 k2 l m r \<Rightarrow>
          if n_items t \<le> 1 then
            if n_items t = 0 then Some (t, Ret_null)
            else
              (case l of None \<Rightarrow> None
               | Some ll \<Rightarrow>
                 if compar t key (addr ll) = 0 then
                   Some (t\<lparr>min_item := 0, root := LEAF_LINK k1 k2 None m r,
                           n_items := n_items t - 1\<rparr>, Ret_item ll)
                 else Some (t, Ret_null))
          else
            (case (l, m) of
               (Some ll, Some mm) \<Rightarrow>
                 if compar t key (addr mm) \<ge> 0 then
                   if compar t key (addr mm) = 0 then
                     Some (t\<lparr>root := LEAF_LINK 0 k2 l None r, n_items := n_items t - 1\<rparr>, Ret_item mm)
                   else Some (t, Ret_null)
                 else if compar t key (addr ll) = 0 then
                   Some (t\<lparr>min_item := k1, root := LEAF_LINK 0 k2 m None r,
                           n_items := n_items t - 1\<rparr>, Ret_item ll)
                 else Some (t, Ret_null)
             | _ \<Rightarrow> None))"

definition change_min ::
  "tree23_stack \<Rightarrow> u64 \<Rightarrow> (u64 \<times> u64) option \<Rightarrow> tree23_stack \<times> u64"
where
  "change_min stack mn chg =
     (case chg of None \<Rightarrow> (stack, mn)
      | Some (new_key, k1) \<Rightarrow>
        (case set_min_key stack new_key of Some stack' \<Rightarrow> (stack', mn) | None \<Rightarrow> (stack, k1)))"

definition tree23_delete :: "tree23_t \<Rightarrow> u64 \<Rightarrow> (tree23_t \<times> tree23_ret) option" where
  "tree23_delete t key =
     (if n_items t \<le> 2 then delete_small t key
      else do {
        (stack, p) \<leftarrow> descend (compar t) key (root t) [];
        res \<leftarrow> delete_leaf (compar t) key p;
        (case res of
           Absent \<Rightarrow> Some (t, Ret_null)
         | Shrunk p' ret chg \<Rightarrow>
             (let (stack', mn) = change_min stack (min_item t) chg in
              Some (t\<lparr>root := plug stack' p', min_item := mn, n_items := n_items t - 1\<rparr>, Ret_item ret))
         | Lone merge_item ret chg \<Rightarrow>
             (let (stack', mn) = change_min stack (min_item t) chg in
              do {
                root' \<leftarrow> merge_leaf stack' p merge_item;
                Some (t\<lparr>root := root', min_item := mn, n_items := n_items t - 1\<rparr>, Ret_item ret)
              }))
      })"

subsection \<open>tree23_delete_min\<close>

fun descend_left :: "tree23_node \<Rightarrow> tree23_node list \<Rightarrow> tree23_node list \<times> tree23_node" where
  "descend_left (LEAF_LINK k1 k2 l m r) stack = (stack, LEAF_LINK k1 k2 l m r)"
| "descend_left (INTERNAL_LINK k1 k2 l m r) stack =
     descend_left l (INTERNAL_LINK k1 k2 l m r # stack)"

fun plug_left :: "tree23_node list \<Rightarrow> tree23_node \<Rightarrow> tree23_node" where
  "plug_left [] t = t"
| "plug_left (q # stack) t = plug_left stack (put_child q (-1) t)"

fun delete_min_up :: "tree23_node list \<Rightarrow> tree23_node \<Rightarrow> tree23_node \<Rightarrow> tree23_node option" where
  "delete_min_up [] p merge_node = Some merge_node"
| "delete_min_up (INTERNAL_LINK k1 k2 l m r # stack) (INTERNAL_LINK p1 p2 pl pm pr) merge_node =
     (case m of
        INTERNAL_LINK q1 q2 ql qm qr \<Rightarrow>
          if q2 \<noteq> 0 then
            (case qr of None \<Rightarrow> None
             | Some qrr \<Rightarrow>
               Some (plug_left stack (INTERNAL_LINK q1 k2 (INTERNAL_LINK k1 p2 merge_node ql pr)
                       (INTERNAL_LINK q2 0 qm qrr None) r)))
          else
            (let q' = INTERNAL_LINK k1 q1 merge_node ql (Some qm) in
             if k2 \<noteq> 0 then
               (case r of None \<Rightarrow> None
                | Some rr \<Rightarrow> Some (plug_left stack (INTERNAL_LINK k2 0 q' rr None)))
             else delete_min_up stack (INTERNAL_LINK k1 k2 l q' r) q')
      | LEAF_LINK _ _ _ _ _ \<Rightarrow> None)"
| "delete_min_up (f # stack) p merge_node = None"

fun merge_leaf_min :: "tree23_node list \<Rightarrow> tree23_node \<Rightarrow> approx_region_t \<Rightarrow> tree23_node option" where
  "merge_leaf_min (INTERNAL_LINK k1 k2 l m r # stack) (LEAF_LINK p1 p2 pl pm pr) merge_item =
     (case m of
        LEAF_LINK q1 q2 ql qm qr \<Rightarrow>
          (case ql of None \<Rightarrow> None
           | Some qll \<Rightarrow>
             if q2 \<noteq> 0 then
               Some (plug_left stack (INTERNAL_LINK q1 k2
                       (LEAF_LINK (addr qll) p2 (Some merge_item) ql pr)
                       (LEAF_LINK q2 0 qm qr None) r))
             else
               (let q' = LEAF_LINK (addr qll) q1 (Some merge_item) ql qm in
                if k2 \<noteq> 0 then
                  (case r of None \<Rightarrow> None
                   | Some rr \<Rightarrow> Some (plug_left stack (INTERNAL_LINK k2 0 q' rr None)))
                else delete_min_up stack (INTERNAL_LINK k1 k2 l q' r) q'))
      | INTERNAL_LINK _ _ _ _ _ \<Rightarrow> None)"
| "merge_leaf_min stack p merge_item = None"

definition delete_min_small :: "tree23_t \<Rightarrow> (tree23_t \<times> tree23_ret) option" where
  "delete_min_small t =
     (case root t of
        INTERNAL_LINK _ _ _ _ _ \<Rightarrow> None
      | LEAF_LINK k1 k2 l m r \<Rightarrow>
          if n_items t = 0 then Some (t, Ret_null)
          else
            (case l of None \<Rightarrow> None
             | Some ll \<Rightarrow>
               if n_items t \<le> 1 then
                 Some (t\<lparr>min_item := 0, root := LEAF_LINK k1 k2 None m r,
                         n_items := n_items t - 1\<rparr>, Ret_item ll)
               else
                 Some (t\<lparr>min_item := k1, root := LEAF_LINK 0 k2 m None r,
                         n_items := n_items t - 1\<rparr>, Ret_item ll)))"

definition tree23_delete_min :: "tree23_t \<Rightarrow> (tree23_t \<times> tree23_ret) option" where
  "tree23_delete_min t =
     (if n_items t \<le> 2 then delete_min_small t
      else
        (case descend_left (root t) [] of
           (stack, LEAF_LINK k1 k2 l m r) \<Rightarrow>
             (case (l, m) of
                (Some ll, Some mm) \<Rightarrow>
                  if k2 \<noteq> 0 then
                    Some (t\<lparr>root := plug_left stack (LEAF_LINK k2 0 m r None),
                            min_item := k1, n_items := n_items t - 1\<rparr>, Ret_item ll)
                  else do {
                    root' \<leftarrow> merge_leaf_min stack (LEAF_LINK k1 k2 l m r) mm;
                    Some (t\<lparr>root := root', min_item := k1, n_items := n_items t - 1\<rparr>, Ret_item ll)
                  }
              | _ \<Rightarrow> None)
         | (stack, INTERNAL_LINK _ _ _ _ _) \<Rightarrow> None))"

subsection \<open>tree23_free\<close>

text \<open>
  The depth first traversal with its own stack; the result lists the items handed to
  \<^verbatim>\<open>gm_free\<close> in order, the number of nodes freed, and the largest number of entries the stack
  held.
\<close>

function free_loop :: "tree23_node list \<Rightarrow> approx_region_t list \<times> nat \<times> nat" where
  "free_loop [] = ([], 0, 0)"
| "free_loop (LEAF_LINK k1 k2 l m r # stack) =
     (let (items, nodes, depth) = free_loop stack in
      (opt_list l @ opt_list m @ opt_list r @ items, nodes + 1, max depth (length stack + 1)))"
| "free_loop (INTERNAL_LINK k1 k2 l m r # stack) =
     (let (items, nodes, depth) = free_loop (opt_list r @ m # l # stack) in
      (items, nodes + 1, max depth (length stack + 1)))"
  by pat_completeness auto
termination
proof (relation "measure (\<lambda>ts. sum_list (map (\<lambda>t. 2 * size t + 1) ts))", goal_cases)
  case 1 show ?case by simp
next
  case (2 k1 k2 l m r stack) show ?case by simp
next
  case (3 k1 k2 l m r stack) show ?case by (cases r) simp_all
qed

definition tree23_free :: "tree23_t \<Rightarrow> approx_region_t list \<times> nat \<times> nat" where
  "tree23_free t = free_loop [root t]"

end
