(* ===== verification/Tree23_Shape.thy ===== *)
theory Tree23_Shape imports Tree23 begin

text \<open>
  What the 2-3 tree means and when it is well formed. \<open>inorder\<close> reads the regions of a node from left
  to right; \<open>node_ok h\<close> says that a node has height \<open>h\<close>, two or three children everywhere, and keys
  that name the smallest address of the middle and of the right subtree, as the comment of
  \<^verbatim>\<open>tree23.h\<close> promises; \<open>path_ok\<close> says the same of the nodes on an explicit stack, whose child
  on the path is missing. \<open>tree23_wf\<close> is the invariant of the tree object.
\<close>

fun inorder :: "tree23_node \<Rightarrow> approx_region_t list" where
  "inorder (LEAF_LINK k1 k2 l m r) = opt_list l @ opt_list m @ opt_list r"
| "inorder (INTERNAL_LINK k1 k2 l m r) =
     inorder l @ inorder m @ (case r of None \<Rightarrow> [] | Some rr \<Rightarrow> inorder rr)"

fun min_key :: "tree23_node \<Rightarrow> u64" where
  "min_key (LEAF_LINK k1 k2 l m r) = (case l of None \<Rightarrow> 0 | Some ll \<Rightarrow> addr ll)"
| "min_key (INTERNAL_LINK k1 k2 l m r) = min_key l"

fun node_ok :: "nat \<Rightarrow> tree23_node \<Rightarrow> bool" where
  "node_ok h (LEAF_LINK k1 k2 l m r) \<longleftrightarrow>
     h = 0 \<and> l \<noteq> None \<and> m \<noteq> None \<and> k1 = addr (the m) \<and> k1 \<noteq> 0 \<and>
     (case r of None \<Rightarrow> k2 = 0 | Some rr \<Rightarrow> k2 = addr rr \<and> k2 \<noteq> 0)"
| "node_ok h (INTERNAL_LINK k1 k2 l m r) \<longleftrightarrow>
     (case h of 0 \<Rightarrow> False
      | Suc h' \<Rightarrow> node_ok h' l \<and> node_ok h' m \<and> k1 = min_key m \<and> k1 \<noteq> 0 \<and>
          (case r of None \<Rightarrow> k2 = 0 | Some rr \<Rightarrow> node_ok h' rr \<and> k2 = min_key rr \<and> k2 \<noteq> 0))"

definition inorder_opt :: "tree23_node option \<Rightarrow> approx_region_t list" where
  "inorder_opt r = (case r of None \<Rightarrow> [] | Some rr \<Rightarrow> inorder rr)"

definition right_ok :: "nat \<Rightarrow> u64 \<Rightarrow> tree23_node option \<Rightarrow> bool" where
  "right_ok h k2 r \<longleftrightarrow>
     (case r of None \<Rightarrow> k2 = 0 | Some rr \<Rightarrow> node_ok h rr \<and> k2 = min_key rr \<and> k2 \<noteq> 0)"

lemma inorder_opt_simps [simp]: "inorder_opt None = []" "inorder_opt (Some t) = inorder t"
  by (simp_all add: inorder_opt_def)

lemma right_ok_simps [simp]:
  "right_ok h k2 None \<longleftrightarrow> k2 = 0"
  "right_ok h k2 (Some t) \<longleftrightarrow> node_ok h t \<and> k2 = min_key t \<and> k2 \<noteq> 0"
  by (simp_all add: right_ok_def)

lemma right_ok_Some: "right_ok h k2 r \<Longrightarrow> k2 \<noteq> 0 \<Longrightarrow> \<exists>t. r = Some t \<and> node_ok h t \<and> k2 = min_key t"
  by (cases r) auto

lemma right_ok_None: "right_ok h k2 r \<Longrightarrow> k2 = 0 \<Longrightarrow> r = None"
  by (cases r) auto

lemma inorder_internal [simp]:
  "inorder (INTERNAL_LINK k1 k2 l m r) = inorder l @ inorder m @ inorder_opt r"
  by (simp add: inorder_opt_def)

lemma node_ok_internal [simp]:
  "node_ok h (INTERNAL_LINK k1 k2 l m r) \<longleftrightarrow>
     (\<exists>h'. h = Suc h' \<and> node_ok h' l \<and> node_ok h' m \<and> k1 = min_key m \<and> k1 \<noteq> 0 \<and> right_ok h' k2 r)"
  by (cases h) (auto simp: right_ok_def)

declare inorder.simps(2) [simp del] node_ok.simps(2) [simp del]

fun before :: "tree23_stack \<Rightarrow> approx_region_t list" where
  "before [] = []"
| "before ((INTERNAL_LINK k1 k2 l m r, d) # st) =
     before st @ (if d > 0 then inorder l @ inorder m else if d = 0 then inorder l else [])"
| "before ((LEAF_LINK k1 k2 l m r, d) # st) = before st"

fun after :: "tree23_stack \<Rightarrow> approx_region_t list" where
  "after [] = []"
| "after ((INTERNAL_LINK k1 k2 l m r, d) # st) =
     (if d > 0 then [] else if d = 0 then inorder_opt r else inorder m @ inorder_opt r) @ after st"
| "after ((LEAF_LINK k1 k2 l m r, d) # st) = after st"

text \<open>The key on the path that names the minimum of the subtree in the hole, if there is one.\<close>

fun hole_key :: "tree23_stack \<Rightarrow> u64 option" where
  "hole_key [] = None"
| "hole_key ((INTERNAL_LINK k1 k2 l m r, d) # st) =
     (if d > 0 then Some k2 else if d = 0 then Some k1 else hole_key st)"
| "hole_key ((LEAF_LINK k1 k2 l m r, d) # st) = hole_key st"

definition fits_hole :: "tree23_stack \<Rightarrow> u64 \<Rightarrow> bool" where
  "fits_hole st k \<longleftrightarrow> (case hole_key st of None \<Rightarrow> True | Some k' \<Rightarrow> k = k')"

lemma fits_hole_simps [simp]:
  "fits_hole [] k"
  "fits_hole ((INTERNAL_LINK k1 k2 l m r, d) # st) k \<longleftrightarrow>
     (if d > 0 then k = k2 else if d = 0 then k = k1 else fits_hole st k)"
  by (simp_all add: fits_hole_def)

fun path_ok :: "nat \<Rightarrow> tree23_stack \<Rightarrow> bool" where
  "path_ok h [] \<longleftrightarrow> True"
| "path_ok h ((INTERNAL_LINK k1 k2 l m r, d) # st) \<longleftrightarrow>
     k1 \<noteq> 0 \<and>
     (if d > 0 then d = 1 \<and> r \<noteq> None \<and> k2 \<noteq> 0 \<and> node_ok h l \<and> node_ok h m \<and> k1 = min_key m \<and> fits_hole st (min_key l)
      else if d = 0 then node_ok h l \<and> right_ok h k2 r \<and> fits_hole st (min_key l)
      else d = -1 \<and> node_ok h m \<and> k1 = min_key m \<and> right_ok h k2 r) \<and> path_ok (Suc h) st"
| "path_ok h ((LEAF_LINK k1 k2 l m r, d) # st) \<longleftrightarrow> False"

definition sorted_addr :: "approx_region_t list \<Rightarrow> bool" where
  "sorted_addr xs \<longleftrightarrow> sorted_wrt (<) (map addr xs)"

definition tree23_wf :: "tree23_t \<Rightarrow> bool" where
  "tree23_wf t \<longleftrightarrow>
     compar t = compare \<and> n_items t = int (length (inorder (root t))) \<and> sorted_addr (inorder (root t)) \<and>
     (case inorder (root t) of
        [] \<Rightarrow> root t = LEAF_LINK 0 0 None None None \<and> min_item t = 0
      | [x] \<Rightarrow> root t = LEAF_LINK 0 0 (Some x) None None \<and> min_item t = addr x
      | x # _ \<Rightarrow> (\<exists>h. node_ok h (root t)) \<and> min_item t = addr x)"

subsection \<open>Comparisons\<close>

lemma compare_iff [simp]:
  "compare a b \<ge> 0 \<longleftrightarrow> b \<le> a" "compare a b = 0 \<longleftrightarrow> a = b"
  "compare a b < 0 \<longleftrightarrow> a < b" "compare a b > 0 \<longleftrightarrow> b < a"
  by (auto simp: compare_def)

lemma sorted_addr_simps [simp]:
  "sorted_addr []"
  "sorted_addr (x # xs) \<longleftrightarrow> (\<forall>y\<in>set xs. addr x < addr y) \<and> sorted_addr xs"
  by (auto simp: sorted_addr_def)

lemma sorted_addr_append [simp]:
  "sorted_addr (xs @ ys) \<longleftrightarrow>
     sorted_addr xs \<and> sorted_addr ys \<and> (\<forall>x\<in>set xs. \<forall>y\<in>set ys. addr x < addr y)"
  by (auto simp: sorted_addr_def sorted_wrt_append)

subsection \<open>The first item of a well-formed node\<close>

lemma node_ok_hd: "node_ok h t \<Longrightarrow> \<exists>x xs. inorder t = x # xs \<and> addr x = min_key t"
  by (induction h t rule: node_ok.induct) (auto split: option.splits nat.splits)

lemma node_ok_nonempty: "node_ok h t \<Longrightarrow> inorder t \<noteq> []"
  using node_ok_hd by fastforce

lemma min_key_in: "node_ok h t \<Longrightarrow> \<exists>x\<in>set (inorder t). addr x = min_key t"
  using node_ok_hd by fastforce

lemma min_key_le: "node_ok h t \<Longrightarrow> sorted_addr (inorder t) \<Longrightarrow> x \<in> set (inorder t) \<Longrightarrow> min_key t \<le> addr x"
  using node_ok_hd [of h t] by (auto simp: less_imp_le)

lemma min_key_inorder: "node_ok h t \<Longrightarrow> inorder t = x # xs \<Longrightarrow> min_key t = addr x"
  using node_ok_hd [of h t] by auto

subsection \<open>Putting a subtree back\<close>

lemma path_ok_frame:
  "path_ok h ((q, d) # st) \<Longrightarrow> \<exists>k1 k2 l m r. q = INTERNAL_LINK k1 k2 l m r"
  by (cases q) auto

lemma put_child_ok:
  assumes "path_ok h ((q, d) # st)" and "node_ok h p" and "fits_hole ((q, d) # st) (min_key p)"
  shows "node_ok (Suc h) (put_child q d p) \<and> fits_hole st (min_key (put_child q d p)) \<and> path_ok (Suc h) st"
  using assms by (cases q) (auto split: if_splits)

lemma inorder_put_child:
  assumes "path_ok h ((q, d) # st)"
  shows "before st @ inorder (put_child q d p) @ after st =
         before ((q, d) # st) @ inorder p @ after ((q, d) # st)"
  using assms by (cases q) (auto simp: inorder_opt_def)

lemma inorder_plug:
  "path_ok h st \<Longrightarrow> inorder (plug st p) = before st @ inorder p @ after st"
proof (induction st arbitrary: h p)
  case Nil
  show ?case by simp
next
  case (Cons f st)
  obtain q d where f: "f = (q, d)" by (cases f)
  with Cons.prems have "path_ok (Suc h) st" by (cases q) auto
  from Cons.IH [OF this, of "put_child q d p"] show ?case
    using Cons.prems inorder_put_child [of h q d st p] by (simp add: f)
qed

lemma plug_ok:
  "path_ok h st \<Longrightarrow> node_ok h p \<Longrightarrow> fits_hole st (min_key p) \<Longrightarrow> node_ok (h + length st) (plug st p)"
proof (induction st arbitrary: h p)
  case Nil
  then show ?case by simp
next
  case (Cons f st)
  obtain q d where f: "f = (q, d)" by (cases f)
  from put_child_ok [of h q d st p] Cons.prems
  have "node_ok (Suc h) (put_child q d p)" "fits_hole st (min_key (put_child q d p))" "path_ok (Suc h) st"
    by (auto simp: f)
  from Cons.IH [OF this(3,1,2)] show ?case by (simp add: f)
qed

subsection \<open>The descent\<close>

text \<open>
  \<open>located h key st p\<close>: the path \<open>st\<close> leads to the subtree \<open>p\<close> of height \<open>h\<close>, everything on its left is
  below \<open>key\<close> and everything on its right above.
\<close>

definition located :: "nat \<Rightarrow> u64 \<Rightarrow> tree23_stack \<Rightarrow> tree23_node \<Rightarrow> bool" where
  "located h key st p \<longleftrightarrow>
     node_ok h p \<and> path_ok h st \<and> fits_hole st (min_key p) \<and>
     sorted_addr (before st @ inorder p @ after st) \<and>
     (\<forall>b\<in>set (before st). addr b < key) \<and> (\<forall>a\<in>set (after st). key < addr a) \<and>
     (case hole_key st of None \<Rightarrow> before st = [] | Some k \<Rightarrow> k \<le> key)"

lemma located_start: "node_ok h t \<Longrightarrow> sorted_addr (inorder t) \<Longrightarrow> located h key [] t"
  by (simp add: located_def)

lemma located_right:
  assumes "located (Suc h) key st (INTERNAL_LINK k1 k2 l m (Some r))" and "k2 \<noteq> 0" and "k2 \<le> key"
  shows "located h key ((INTERNAL_LINK k1 k2 l m (Some r), 1) # st) r"
proof -
  obtain x where x: "x \<in> set (inorder r)" "addr x = k2"
    using assms(1) min_key_in [of h r] by (auto simp: located_def)
  have "\<forall>y\<in>set (inorder l @ inorder m). addr y < addr x"
    using assms(1) x(1) by (auto simp: located_def)
  then have "\<forall>y\<in>set (inorder l @ inorder m). addr y < key"
    unfolding x(2) using assms(3) less_le_trans by blast
  with assms show ?thesis by (auto simp: located_def)
qed

lemma located_middle:
  assumes "located (Suc h) key st (INTERNAL_LINK k1 k2 l m r)" and "k1 \<le> key" and "\<not> (k2 \<noteq> 0 \<and> k2 \<le> key)"
  shows "located h key ((INTERNAL_LINK k1 k2 l m r, 0) # st) m"
proof -
  obtain x where x: "x \<in> set (inorder m)" "addr x = k1"
    using assms(1) min_key_in [of h m] by (auto simp: located_def)
  have "\<forall>y\<in>set (inorder l). addr y < addr x"
    using assms(1) x(1) by (auto simp: located_def)
  then have "\<forall>y\<in>set (inorder l). addr y < key"
    unfolding x(2) using assms(2) less_le_trans by blast
  moreover have "\<forall>y\<in>set (inorder_opt r). key < addr y"
  proof (cases r)
    case (Some rr)
    then have "node_ok h rr" "sorted_addr (inorder rr)" "key < min_key rr"
      using assms by (auto simp: located_def)
    then show ?thesis using min_key_le [of h rr] Some by fastforce
  qed simp
  ultimately show ?thesis using assms by (auto simp: located_def)
qed

lemma located_left:
  assumes "located (Suc h) key st (INTERNAL_LINK k1 k2 l m r)" and "\<not> k1 \<le> key"
  shows "located h key ((INTERNAL_LINK k1 k2 l m r, -1) # st) l"
proof -
  have m: "node_ok h m" "sorted_addr (inorder m)" "key < min_key m"
    using assms by (auto simp: located_def)
  then have "\<forall>y\<in>set (inorder m). key < addr y"
    using min_key_le [of h m] by fastforce
  moreover have "\<forall>y\<in>set (inorder_opt r). key < addr y"
  proof -
    obtain x where x: "x \<in> set (inorder m)" using min_key_in m by blast
    then have "key < addr x" using \<open>\<forall>y\<in>set (inorder m). key < addr y\<close> by blast
    moreover have "\<forall>y\<in>set (inorder_opt r). addr x < addr y"
      using assms x by (auto simp: located_def)
    ultimately show ?thesis by fastforce
  qed
  ultimately show ?thesis using assms by (auto simp: located_def split: option.splits)
qed

lemma descend_located:
  assumes "located h key st t"
  shows "\<exists>st' p. descend compare key t st = Some (st', p) \<and> located 0 key st' p \<and>
           before st' @ inorder p @ after st' = before st @ inorder t @ after st \<and>
           length st' = h + length st"
  using assms
proof (induction compare key t st arbitrary: h rule: descend.induct)
  case (1 item k1 k2 l m r stack)
  then show ?case by (auto simp: located_def)
next
  case (2 item k1 k2 l m r stack)
  from "2.prems" obtain h' where h: "h = Suc h'" by (auto simp: located_def)
  note loc = "2.prems" [unfolded h]
  consider (right) rr where "k2 \<noteq> 0" "k2 \<le> item" "r = Some rr"
    | (middle) "\<not> (k2 \<noteq> 0 \<and> k2 \<le> item)" "k1 \<le> item"
    | (left) "\<not> (k2 \<noteq> 0 \<and> k2 \<le> item)" "\<not> k1 \<le> item"
    using loc by (cases r) (auto simp: located_def)
  then show ?case
  proof cases
    case right
    with "2.hyps"(1) [of rr h'] located_right [of h' item stack k1 k2 l m rr] loc
    show ?thesis by (auto simp: h)
  next
    case middle
    with "2.hyps"(2) [of h'] located_middle [of h' item stack k1 k2 l m r] loc
    show ?thesis by (auto simp: h)
  next
    case left
    with "2.hyps"(3) [of h'] located_left [of h' item stack k1 k2 l m r] loc
    show ?thesis by (auto simp: h)
  qed
qed

subsection \<open>The five kinds of nodes on a path\<close>

lemma frame_cases [consumes 1, case_names right middle3 middle2 left3 left2]:
  assumes ok: "path_ok h ((INTERNAL_LINK k1 k2 l m r, d) # st)"
    and "\<And>rr. d = 1 \<Longrightarrow> r = Some rr \<Longrightarrow> P"
    and "\<And>rr. d = 0 \<Longrightarrow> k2 \<noteq> 0 \<Longrightarrow> r = Some rr \<Longrightarrow> P"
    and "d = 0 \<Longrightarrow> k2 = 0 \<Longrightarrow> r = None \<Longrightarrow> P"
    and "\<And>rr. d = -1 \<Longrightarrow> k2 \<noteq> 0 \<Longrightarrow> r = Some rr \<Longrightarrow> P"
    and "d = -1 \<Longrightarrow> k2 = 0 \<Longrightarrow> r = None \<Longrightarrow> P"
  shows P
proof -
  have 1: "d > 0 \<Longrightarrow> d = 1 \<and> r \<noteq> None" using ok by simp
  have 2: "\<not> d > 0 \<Longrightarrow> (d = 0 \<or> d = -1) \<and> right_ok h k2 r" using ok by (auto split: if_splits)
  show P
  proof (cases "d > 0")
    case True
    with 1 assms(2) show P by auto
  next
    case False
    with 2 assms(3-6) show P by (cases r) auto
  qed
qed

subsection \<open>Height and size; the invariant of a tree with at least two items\<close>

lemma node_ok_length: "node_ok h t \<Longrightarrow> 2 ^ Suc h \<le> length (inorder t)"
proof (induction t arbitrary: h)
  case (LEAF_LINK k1 k2 l m r)
  then show ?case by (cases r) auto
next
  case (INTERNAL_LINK k1 k2 l m r)
  then obtain h' where h: "h = Suc h'" "node_ok h' l" "node_ok h' m" by auto
  then have "2 ^ Suc h' \<le> length (inorder l)" "2 ^ Suc h' \<le> length (inorder m)"
    using INTERNAL_LINK.IH(1,2) by blast+
  then show ?case by (simp add: h)
qed

lemma node_ok_length2: "node_ok h t \<Longrightarrow> 2 \<le> length (inorder t)"
proof -
  have "(2::nat) \<le> 2 ^ Suc h" by (induction h) auto
  then show "node_ok h t \<Longrightarrow> 2 \<le> length (inorder t)" using node_ok_length by (rule order_trans)
qed

lemma tree23_wf_big:
  assumes "tree23_wf t" and "n_items t > 1"
  obtains h where "node_ok h (root t)" "min_item t = min_key (root t)" "compar t = compare"
    "sorted_addr (inorder (root t))" "n_items t = int (length (inorder (root t)))"
proof -
  obtain x y zs where "inorder (root t) = x # y # zs"
    using assms by (auto simp: tree23_wf_def split: list.splits)
  with assms(1) that show thesis by (auto simp: tree23_wf_def min_key_inorder)
qed

lemma tree23_wf_bigI:
  assumes "node_ok h (root t)" "min_item t = min_key (root t)" "compar t = compare"
    "sorted_addr (inorder (root t))" "n_items t = int (length (inorder (root t)))"
  shows "tree23_wf t"
proof -
  obtain x y zs where xyz: "inorder (root t) = x # y # zs"
    using node_ok_length2 [OF assms(1)] by (cases "inorder (root t)"; cases "tl (inorder (root t))") auto
  with assms min_key_inorder [OF assms(1) xyz] show ?thesis
    by (auto simp: tree23_wf_def)
qed

lemma tree23_wf_small:
  assumes "tree23_wf t" and "n_items t \<le> 1"
  shows "root t = LEAF_LINK 0 0 None None None \<and> min_item t = 0 \<and> n_items t = 0 \<or>
         (\<exists>x. root t = LEAF_LINK 0 0 (Some x) None None \<and> min_item t = addr x \<and> n_items t = 1)"
  using assms by (auto simp: tree23_wf_def split: list.splits)

lemma tree23_wf_compar: "tree23_wf t \<Longrightarrow> compar t = compare"
  by (simp add: tree23_wf_def)

lemma tree23_wf_alloc: "tree23_wf (tree23_alloc compare)"
  by (simp add: tree23_wf_def tree23_alloc_def)

end
