(* ===== verification/Tree23_Insert.thy ===== *)
theory Tree23_Insert imports Tree23_Shape begin

text \<open>
  Insertion into the 2-3 tree: the step at the leaf, the loop that carries a split upwards, and
  \<^verbatim>\<open>tree23_insert\<close> itself, which keeps \<open>tree23_wf\<close> and acts on the sorted list of regions as
  \<open>ins_region\<close>.
\<close>

definition ins_region :: "approx_region_t \<Rightarrow> approx_region_t list \<Rightarrow> approx_region_t list" where
  "ins_region r xs = filter (\<lambda>x. addr x < addr r) xs @ r # filter (\<lambda>x. addr r < addr x) xs"

lemma ins_region_between:
  assumes "\<forall>x\<in>set xs. addr x < addr r" and "\<forall>x\<in>set zs. addr r < addr x"
  shows "ins_region r (xs @ ys @ zs) = xs @ ins_region r ys @ zs"
proof -
  have "filter (\<lambda>x. addr x < addr r) xs = xs" "filter (\<lambda>x. addr r < addr x) xs = []"
       "filter (\<lambda>x. addr x < addr r) zs = []" "filter (\<lambda>x. addr r < addr x) zs = zs"
    using assms by (auto simp: filter_id_conv filter_empty_conv)
  then show ?thesis by (simp add: ins_region_def)
qed

lemma sorted_ins_region: "sorted_addr xs \<Longrightarrow> sorted_addr (ins_region r xs)"
  by (auto simp: ins_region_def sorted_addr_def sorted_wrt_map sorted_wrt_filter
        sorted_wrt_append)

lemma set_ins_region:
  "addr r \<notin> addr ` set xs \<Longrightarrow> set (ins_region r xs) = insert r (set xs)"
  by (auto simp: ins_region_def)

lemma length_ins_region:
  "addr r \<notin> addr ` set xs \<Longrightarrow> length (ins_region r xs) = Suc (length xs)"
proof (induction xs)
  case Nil
  show ?case by (simp add: ins_region_def)
next
  case (Cons x xs)
  then show ?case by (auto simp: ins_region_def)
qed

lemma leaf_shape:
  assumes "node_ok 0 p"
  obtains ll mm k2 r where
    "p = LEAF_LINK (addr mm) k2 (Some ll) (Some mm) r" "addr mm \<noteq> 0"
    "r = None \<and> k2 = 0 \<or> (\<exists>rr. r = Some rr \<and> k2 = addr rr \<and> k2 \<noteq> 0)"
  using assms by (cases p) (auto split: option.splits)

lemma fits_hole_min:
  assumes "located h key st p"
  shows "fits_hole st (if key < min_key p then key else min_key p)"
  using assms by (auto simp: located_def fits_hole_def split: option.splits)

lemma insert_leaf_spec:
  assumes loc: "located 0 (addr reg) st p"
  shows "\<exists>res. insert_leaf compare p reg mn = Some res \<and>
    (case res of
       Already v \<Rightarrow> addr reg \<in> addr ` set (inorder p) \<and> v = Ret_key (addr reg)
     | Fits p' mn' \<Rightarrow> addr reg \<notin> addr ` set (inorder p) \<and> node_ok 0 p' \<and>
         inorder p' = ins_region reg (inorder p) \<and> fits_hole st (min_key p') \<and>
         mn' = (if addr reg < min_key p then addr reg else mn)
     | Splits p' x mn' \<Rightarrow> addr reg \<notin> addr ` set (inorder p) \<and> node_ok 0 p' \<and> node_ok 0 x \<and>
         inorder p' @ inorder x = ins_region reg (inorder p) \<and> fits_hole st (min_key p') \<and>
         min_key x \<noteq> 0 \<and> left_addr x = Some (min_key x) \<and>
         mn' = (if addr reg < min_key p then addr reg else mn))"
proof -
  have "node_ok 0 p" using loc by (simp add: located_def)
  then obtain ll mm k2 r where p: "p = LEAF_LINK (addr mm) k2 (Some ll) (Some mm) r" "addr mm \<noteq> 0"
    and r: "r = None \<and> k2 = 0 \<or> (\<exists>rr. r = Some rr \<and> k2 = addr rr \<and> k2 \<noteq> 0)"
    by (rule leaf_shape)
  have lm: "addr ll < addr mm" using loc by (auto simp: located_def p)
  note fh = fits_hole_min [OF loc]
  show ?thesis
  proof (cases r)
    case None
    then have "k2 = 0" using r by simp
    note order = lm less_imp_le [OF lm] fh p(2) \<open>k2 = 0\<close>
    consider "addr reg < addr ll" | "addr reg = addr ll" | "addr ll < addr reg" "addr reg < addr mm"
      | "addr reg = addr mm" | "addr mm < addr reg"
      by fastforce
    then show ?thesis
    proof cases
      case 1
      then have "addr reg < addr mm" using lm by auto
      then have "\<not> addr mm \<le> addr reg" "\<not> addr ll < addr reg" "\<not> addr mm < addr reg" "addr ll \<noteq> 0"
        using 1 by (auto dest: word_less_nonzero)
      with 1 order show ?thesis by (auto simp: p(1) None Let_def ins_region_def)
    next
      case 2
      with order show ?thesis by (auto simp: p(1) None Let_def ins_region_def)
    next
      case 3
      then have "addr reg \<noteq> 0" by (auto dest: word_less_nonzero)
      with 3 order show ?thesis by (auto simp: p(1) None Let_def ins_region_def)
    next
      case 4
      with order show ?thesis by (auto simp: p(1) None Let_def ins_region_def)
    next
      case 5
      then have "addr ll < addr reg" "addr reg \<noteq> 0" using lm by (auto dest: word_less_nonzero)
      with 5 order show ?thesis by (auto simp: p(1) None Let_def ins_region_def)
    qed
  next
    case (Some rr)
    then have k2: "k2 = addr rr" "k2 \<noteq> 0" using r by auto
    have mr: "addr mm < addr rr" using loc by (auto simp: located_def p Some)
    have lr: "addr ll < addr rr" using lm mr by simp
    note order = lm mr lr less_imp_le [OF lm] less_imp_le [OF mr] less_imp_le [OF lr]
    consider "addr reg < addr ll" | "addr reg = addr ll" | "addr ll < addr reg" "addr reg < addr mm"
      | "addr reg = addr mm" | "addr mm < addr reg" "addr reg < addr rr" | "addr reg = addr rr"
      | "addr rr < addr reg"
      by fastforce
    then show ?thesis
    proof cases
      case 1
      then have "addr reg < addr mm" "addr reg < addr rr" using lm mr by auto
      with 1 order fh k2 p(2) show ?thesis
        by (auto simp: p(1) Some Let_def ins_region_def)
    next
      case 2
      then have "addr reg < addr mm" "addr reg < addr rr" using lm mr by auto
      with 2 order fh k2 p(2) show ?thesis
        by (auto simp: p(1) Some Let_def ins_region_def)
    next
      case 3
      then have "addr reg < addr rr" "addr reg \<noteq> 0" using mr by (auto dest: word_less_nonzero)
      with 3 order fh k2 p(2) show ?thesis
        by (auto simp: p(1) Some Let_def ins_region_def)
    next
      case 4
      then have "addr reg < addr rr" using mr by auto
      with 4 order fh k2 p(2) show ?thesis
        by (auto simp: p(1) Some Let_def ins_region_def)
    next
      case 5
      then have "addr ll < addr reg" "addr reg \<noteq> 0" using lm by (auto dest: word_less_nonzero)
      with 5 order fh k2 p(2) show ?thesis
        by (auto simp: p(1) Some Let_def ins_region_def)
    next
      case 6
      with order fh k2 p(2) show ?thesis
        by (auto simp: p(1) Some Let_def ins_region_def)
    next
      case 7
      then have "addr ll < addr reg" "addr mm < addr reg" "addr reg \<noteq> 0"
        using lr mr by (auto dest: word_less_nonzero)
      with 7 order fh k2 p(2) show ?thesis
        by (auto simp: p(1) Some Let_def ins_region_def)
    qed
  qed
qed

lemma insert_up_spec:
  assumes "path_ok h st" and "node_ok h p" and "node_ok h x" and "fits_hole st (min_key p)"
    and "x_min = min_key x" and "x_min \<noteq> 0"
  shows "\<exists>t'. insert_up st p x x_min = Some t' \<and> (\<exists>H. node_ok H t') \<and>
           inorder t' = before st @ inorder p @ inorder x @ after st"
  using assms
proof (induction st arbitrary: h p x x_min)
  case Nil
  then show ?case by auto
next
  case (Cons f st)
  obtain k1 k2 l m r d where f: "f = (INTERNAL_LINK k1 k2 l m r, d)"
    using Cons.prems(1) by (cases f) (metis path_ok_frame)
  note prems = Cons.prems [unfolded f]
  from prems(1) show ?case
  proof (cases rule: frame_cases)
    case (right rr)
    with prems Cons.IH [of "Suc h" "INTERNAL_LINK k1 0 l m None" "INTERNAL_LINK x_min 0 p x None" k2]
    show ?thesis by (auto simp: f)
  next
    case (middle3 rr)
    with prems Cons.IH [of "Suc h" "INTERNAL_LINK k1 0 l p None" "INTERNAL_LINK k2 0 x rr None" x_min]
    show ?thesis by (auto simp: f)
  next
    case middle2
    with prems plug_ok [of "Suc h" st "INTERNAL_LINK k1 x_min l p (Some x)"]
      inorder_plug [of "Suc h" st "INTERNAL_LINK k1 x_min l p (Some x)"]
    show ?thesis by (auto simp: f)
  next
    case (left3 rr)
    with prems Cons.IH [of "Suc h" "INTERNAL_LINK x_min 0 p x None" "INTERNAL_LINK k2 0 m rr None" k1]
    show ?thesis by (auto simp: f)
  next
    case left2
    with prems plug_ok [of "Suc h" st "INTERNAL_LINK x_min k1 p x (Some m)"]
      inorder_plug [of "Suc h" st "INTERNAL_LINK x_min k1 p x (Some m)"]
    show ?thesis by (auto simp: f)
  qed
qed

subsection \<open>tree23_insert\<close>

lemma hd_before:
  assumes "located 0 key st p" and "hole_key st \<noteq> None"
  shows "\<not> key < min_key p"
  using assms by (auto simp: located_def fits_hole_def split: option.splits)

lemma path_ok_before:
  "path_ok h st \<Longrightarrow> hole_key st \<noteq> None \<Longrightarrow> before st \<noteq> []"
proof (induction h st rule: path_ok.induct)
  case (2 h k1 k2 l m r d st)
  then show ?case using node_ok_nonempty [of h l] by (auto split: if_splits)
qed auto

text \<open>The smallest address of the tree after an insertion.\<close>

lemma min_after_insert:
  assumes loc: "located 0 (addr reg) st p" and ok: "node_ok h t" "node_ok h' t'"
    and io: "inorder t = before st @ inorder p @ after st"
    and io': "inorder t' = before st @ ins_region reg (inorder p) @ after st"
  shows "min_key t' = (if addr reg < min_key p then addr reg else min_key t)"
proof (cases "before st = []")
  case True
  obtain x xs where x: "inorder p = x # xs" "addr x = min_key p"
    using node_ok_hd [of 0 p] loc by (auto simp: located_def)
  have srt: "sorted_addr (inorder p)" using loc by (simp add: located_def)
  have t: "min_key t = min_key p" using min_key_inorder [OF ok(1)] io x True by simp
  show ?thesis
  proof (cases "addr reg < min_key p")
    case less: True
    then have "\<forall>y\<in>set (inorder p). \<not> addr y < addr reg" using x srt by auto
    then have "filter (\<lambda>y. addr y < addr reg) (inorder p) = []"
      by (simp add: filter_empty_conv)
    then have "inorder t' = reg # filter (\<lambda>y. addr reg < addr y) (inorder p) @ after st"
      using io' True by (simp add: ins_region_def)
    then show ?thesis using min_key_inorder [OF ok(2)] less by simp
  next
    case False
    then have ge: "min_key p \<le> addr reg" by simp
    show ?thesis
    proof (cases "addr x < addr reg")
      case True
      then have "\<exists>zs. inorder t' = x # zs"
        using io' \<open>before st = []\<close> x by (simp add: ins_region_def)
      then show ?thesis using min_key_inorder [OF ok(2)] False x t by auto
    next
      case eq: False
      then have "addr reg = addr x" using ge x(2) by simp
      then have "filter (\<lambda>y. addr y < addr reg) (inorder p) = []"
        using x srt by (auto simp: filter_empty_conv)
      then have "\<exists>zs. inorder t' = reg # zs"
        using io' \<open>before st = []\<close> by (simp add: ins_region_def)
      then show ?thesis using min_key_inorder [OF ok(2)] \<open>addr reg = addr x\<close> x t by auto
    qed
  qed
next
  case False
  then obtain b bs where b: "before st = b # bs" by (cases "before st") auto
  then have "min_key t' = addr b" "min_key t = addr b"
    using min_key_inorder [OF ok(2)] min_key_inorder [OF ok(1)] io io' by simp_all
  moreover have "\<not> addr reg < min_key p"
    using loc False hd_before [OF loc] by (auto simp: located_def split: option.splits)
  ultimately show ?thesis by simp
qed

lemma tree23_insert_correct:
  assumes wf: "tree23_wf t"
  shows "\<exists>t' v. tree23_insert t r = Some (t', v) \<and> tree23_wf t' \<and>
           (if addr r \<in> addr ` set (inorder (root t)) then t' = t \<and> v \<noteq> Ret_null
            else v = Ret_null \<and> inorder (root t') = ins_region r (inorder (root t)))"
proof (cases "n_items t \<le> 1")
  case True
  note small = tree23_wf_small [OF wf True] and cmp = tree23_wf_compar [OF wf]
  then consider "root t = LEAF_LINK 0 0 None None None" "n_items t = 0"
    | x where "root t = LEAF_LINK 0 0 (Some x) None None" "n_items t = 1" "min_item t = addr x"
    by auto
  then show ?thesis
  proof cases
    case 1
    with cmp show ?thesis
      by (auto simp: tree23_insert_def insert_small_def tree23_wf_def ins_region_def)
  next
    case (2 x)
    consider "addr r = addr x" | "addr x < addr r" | "addr r < addr x" by fastforce
    then show ?thesis
    proof cases
      case 1
      with 2 wf cmp show ?thesis by (simp add: tree23_insert_def insert_small_def)
    next
      case less: 2
      then have "addr r \<noteq> 0" "addr r \<noteq> addr x" "\<not> addr r < addr x"
        by (auto dest: word_less_nonzero)
      with 2 less cmp show ?thesis
        by (simp add: tree23_insert_def insert_small_def tree23_wf_def ins_region_def)
    next
      case greater: 3
      then have "addr x \<noteq> 0" "addr r \<noteq> addr x" "\<not> addr x < addr r"
        by (auto dest: word_less_nonzero)
      with 2 greater cmp show ?thesis
        by (simp add: tree23_insert_def insert_small_def tree23_wf_def ins_region_def)
    qed
  qed
next
  case False
  then obtain h where big: "node_ok h (root t)" "min_item t = min_key (root t)"
    "compar t = compare" "sorted_addr (inorder (root t))" "n_items t = int (length (inorder (root t)))"
    using tree23_wf_big [OF wf] by fastforce
  obtain st p where d: "descend compare (addr r) (root t) [] = Some (st, p)"
    and loc: "located 0 (addr r) st p"
    and io: "inorder (root t) = before st @ inorder p @ after st"
    using descend_located [OF located_start [OF big(1,4)], of "addr r"] by auto
  obtain res where res: "insert_leaf compare p r (min_item t) = Some res"
    and spec: "case res of
       Already v \<Rightarrow> addr r \<in> addr ` set (inorder p) \<and> v = Ret_key (addr r)
     | Fits p' mn' \<Rightarrow> addr r \<notin> addr ` set (inorder p) \<and> node_ok 0 p' \<and>
         inorder p' = ins_region r (inorder p) \<and> fits_hole st (min_key p') \<and>
         mn' = (if addr r < min_key p then addr r else min_item t)
     | Splits p' x mn' \<Rightarrow> addr r \<notin> addr ` set (inorder p) \<and> node_ok 0 p' \<and> node_ok 0 x \<and>
         inorder p' @ inorder x = ins_region r (inorder p) \<and> fits_hole st (min_key p') \<and>
         min_key x \<noteq> 0 \<and> left_addr x = Some (min_key x) \<and>
         mn' = (if addr r < min_key p then addr r else min_item t)"
    using insert_leaf_spec [OF loc, of "min_item t"] by auto
  have path: "path_ok 0 st" using loc by (simp add: located_def)
  have ins: "ins_region r (inorder (root t)) = before st @ ins_region r (inorder p) @ after st"
    unfolding io using loc by (intro ins_region_between) (auto simp: located_def)
  have mem: "addr r \<in> addr ` set (inorder (root t)) \<longleftrightarrow> addr r \<in> addr ` set (inorder p)"
    unfolding io using loc by (auto simp: located_def)
  have finish: "tree23_wf (t\<lparr>root := root', min_item := mn', n_items := n_items t + 1\<rparr>)"
    if "node_ok H root'" "inorder root' = ins_region r (inorder (root t))"
      "addr r \<notin> addr ` set (inorder p)" "mn' = (if addr r < min_key p then addr r else min_item t)"
    for H root' mn'
  proof (rule tree23_wf_bigI [where h = H])
    show "min_item (t\<lparr>root := root', min_item := mn', n_items := n_items t + 1\<rparr>) =
          min_key (root (t\<lparr>root := root', min_item := mn', n_items := n_items t + 1\<rparr>))"
      using min_after_insert [OF loc big(1) that(1) io] that ins big(2) by simp
  qed (use that big mem in \<open>simp_all add: sorted_ins_region length_ins_region\<close>)
  show ?thesis
  proof (cases res)
    case (Already v)
    with spec mem False d res big(3) wf show ?thesis by (simp add: tree23_insert_def)
  next
    case (Fits p' mn')
    with spec have f: "node_ok 0 p'" "inorder p' = ins_region r (inorder p)" "fits_hole st (min_key p')"
      "addr r \<notin> addr ` set (inorder p)" "mn' = (if addr r < min_key p then addr r else min_item t)"
      by auto
    have "node_ok (length st) (plug st p')" using plug_ok [OF path f(1,3)] by simp
    moreover have "inorder (plug st p') = ins_region r (inorder (root t))"
      using inorder_plug [OF path] f(2) ins by simp
    ultimately show ?thesis
      using finish [of "length st" "plug st p'" mn'] f Fits False d res big(3) mem
      by (simp add: tree23_insert_def)
  next
    case (Splits p' x mn')
    with spec have f: "node_ok 0 p'" "node_ok 0 x" "inorder p' @ inorder x = ins_region r (inorder p)"
      "fits_hole st (min_key p')" "min_key x \<noteq> 0" "left_addr x = Some (min_key x)"
      "addr r \<notin> addr ` set (inorder p)" "mn' = (if addr r < min_key p then addr r else min_item t)"
      by auto
    obtain root' H where up: "insert_up st p' x (min_key x) = Some root'" "node_ok H root'"
      "inorder root' = before st @ inorder p' @ inorder x @ after st"
      using insert_up_spec [OF path f(1,2,4) refl f(5)] by auto
    have "inorder root' = ins_region r (inorder (root t))"
      using up(3) f(3) ins by (metis append.assoc)
    then show ?thesis
      using finish [OF up(2)] up(1) f Splits False d res big(3) mem
      by (simp add: tree23_insert_def)
  qed
qed

end
