(* ===== verification/Tree23_Delete.thy ===== *)
theory Tree23_Delete imports Tree23_Insert "HOL-Library.Multiset" begin

text \<open>
  Deletion from the 2-3 tree: the step at the leaf, the update of the key that names the deleted
  minimum, the merges at the leaf level and above, and \<^verbatim>\<open>tree23_delete\<close>, which keeps
  \<open>tree23_wf\<close> and removes exactly the region with the given address; \<^verbatim>\<open>tree23_delete_min\<close>
  is the deletion of the smallest address; \<^verbatim>\<open>tree23_free\<close> hands every region to the
  allocator once.
\<close>

definition del_region :: "u64 \<Rightarrow> approx_region_t list \<Rightarrow> approx_region_t list" where
  "del_region k xs = filter (\<lambda>x. addr x \<noteq> k) xs"

lemma del_region_append [simp]: "del_region k (xs @ ys) = del_region k xs @ del_region k ys"
  by (simp add: del_region_def)

lemma del_region_absent: "k \<notin> addr ` set xs \<Longrightarrow> del_region k xs = xs"
  by (auto simp: del_region_def filter_id_conv)

lemma sorted_del_region: "sorted_addr xs \<Longrightarrow> sorted_addr (del_region k xs)"
  by (simp add: del_region_def sorted_addr_def sorted_wrt_map sorted_wrt_filter)

lemma set_del_region: "set (del_region k xs) = {x \<in> set xs. addr x \<noteq> k}"
  by (simp add: del_region_def)

lemma length_del_region:
  "sorted_addr xs \<Longrightarrow> k \<in> addr ` set xs \<Longrightarrow> Suc (length (del_region k xs)) = length xs"
proof (induction xs)
  case (Cons x xs)
  show ?case
  proof (cases "addr x = k")
    case True
    then have "k \<notin> addr ` set xs" using Cons.prems by auto
    then show ?thesis using True del_region_absent [of k xs] by (simp add: del_region_def)
  next
    case False
    with Cons show ?thesis by (auto simp: del_region_def)
  qed
qed simp

subsection \<open>The leaf\<close>

definition leaf_change :: "u64 \<Rightarrow> tree23_node \<Rightarrow> approx_region_t list \<Rightarrow> (u64 \<times> u64) option \<Rightarrow> bool" where
  "leaf_change key p rest chg \<longleftrightarrow>
     rest \<noteq> [] \<and>
     (if key = min_key p then chg = Some (addr (hd rest), addr (hd rest)) \<and> addr (hd rest) \<noteq> 0
      else chg = None \<and> addr (hd rest) = min_key p)"

lemma delete_leaf_spec:
  assumes loc: "located 0 key st p"
  shows "\<exists>res. delete_leaf compare key p = Some res \<and>
    (case res of
       Absent \<Rightarrow> key \<notin> addr ` set (inorder p)
     | Shrunk p' ret chg \<Rightarrow> addr ret = key \<and> ret \<in> set (inorder p) \<and> node_ok 0 p' \<and>
         inorder p' = del_region key (inorder p) \<and> leaf_change key p (inorder p') chg
     | Lone mi ret chg \<Rightarrow> addr ret = key \<and> ret \<in> set (inorder p) \<and>
         del_region key (inorder p) = [mi] \<and> leaf_change key p [mi] chg \<and>
         (\<exists>k1 l m. p = LEAF_LINK k1 0 l m None))"
proof -
  have "node_ok 0 p" using loc by (simp add: located_def)
  then obtain ll mm k2 r where p: "p = LEAF_LINK (addr mm) k2 (Some ll) (Some mm) r" "addr mm \<noteq> 0"
    and r: "r = None \<and> k2 = 0 \<or> (\<exists>rr. r = Some rr \<and> k2 = addr rr \<and> k2 \<noteq> 0)"
    by (rule leaf_shape)
  have lm: "addr ll < addr mm" using loc by (auto simp: located_def p)
  show ?thesis
  proof (cases r)
    case None
    then have "k2 = 0" using r by simp
    with lm p(2) None show ?thesis
      by (auto simp: p(1) del_region_def leaf_change_def not_le not_less)
  next
    case (Some rr)
    then have k2: "k2 = addr rr" "k2 \<noteq> 0" using r by auto
    have "addr mm < addr rr" "addr ll < addr rr" using loc by (auto simp: located_def p Some)
    with lm p(2) Some k2 show ?thesis
      by (auto simp: p(1) del_region_def leaf_change_def not_le not_less)
  qed
qed

lemma set_min_key_none: "path_ok h st \<Longrightarrow> hole_key st = None \<Longrightarrow> set_min_key st v = None"
  by (induction h st rule: path_ok.induct) (auto split: if_splits)

lemma set_min_key_some:
  "path_ok h st \<Longrightarrow> hole_key st = Some k \<Longrightarrow> v \<noteq> 0 \<Longrightarrow>
   \<exists>st'. set_min_key st v = Some st' \<and> path_ok h st' \<and> hole_key st' = Some v \<and>
         before st' = before st \<and> after st' = after st \<and> length st' = length st"
  by (induction h st rule: path_ok.induct) (force split: if_splits)+

lemma change_min_spec:
  assumes loc: "located 0 key st p" and chg: "leaf_change key p rest chg"
  obtains st' mn' where "change_min st mn chg = (st', mn')" "path_ok 0 st'"
    "fits_hole st' (addr (hd rest))" "before st' = before st" "after st' = after st"
    "length st' = length st"
    "mn' = (if key = min_key p \<and> hole_key st = None then addr (hd rest) else mn)"
proof (cases "key = min_key p")
  case True
  then have c: "chg = Some (addr (hd rest), addr (hd rest))" "addr (hd rest) \<noteq> 0"
    using chg by (auto simp: leaf_change_def)
  have path: "path_ok 0 st" using loc by (simp add: located_def)
  show thesis
  proof (cases "hole_key st")
    case None
    with path that [of st "addr (hd rest)"] c True set_min_key_none [OF path None]
    show thesis by (simp add: change_min_def fits_hole_def)
  next
    case (Some k)
    obtain st' where "set_min_key st (addr (hd rest)) = Some st'" "path_ok 0 st'"
      "hole_key st' = Some (addr (hd rest))" "before st' = before st" "after st' = after st"
      "length st' = length st"
      using set_min_key_some [OF path Some c(2)] by auto
    with that [of st' mn] c True Some show thesis by (simp add: change_min_def fits_hole_def)
  qed
next
  case False
  with chg loc that [of st mn] show thesis
    by (simp add: leaf_change_def change_min_def located_def)
qed

subsection \<open>The merges\<close>

lemma plug_result:
  "path_ok h st \<Longrightarrow> node_ok h t \<Longrightarrow> fits_hole st (min_key t) \<Longrightarrow>
   (\<exists>H. node_ok H (plug st t)) \<and> inorder (plug st t) = before st @ inorder t @ after st"
  using plug_ok inorder_plug by blast

lemma internal_shape:
  assumes "node_ok (Suc h) t"
  obtains k1 k2 l m r where "t = INTERNAL_LINK k1 k2 l m r" "node_ok h l" "node_ok h m"
    "k1 = min_key m" "k1 \<noteq> 0" "right_ok h k2 r"
  using assms by (cases t) (auto split: option.splits)

lemma delete_up_spec:
  assumes "path_ok (Suc h) st" and "node_ok h mn" and "fits_hole st (min_key mn)"
  shows "\<exists>t'. delete_up st (INTERNAL_LINK p1 0 pl pm None) mn = Some t' \<and> (\<exists>H. node_ok H t') \<and>
           inorder t' = before st @ inorder mn @ after st"
  using assms
proof (induction st arbitrary: h mn p1 pl pm)
  case Nil
  then show ?case by auto
next
  case (Cons f st)
  obtain k1 k2 l m r d where f: "f = (INTERNAL_LINK k1 k2 l m r, d)"
    using Cons.prems(1) by (cases f) (metis path_ok_frame)
  note prems = Cons.prems [unfolded f]
  have path: "path_ok (Suc (Suc h)) st" using prems(1) by simp
  note plugs = plug_result [OF path]
  from prems(1) show ?case
  proof (cases rule: frame_cases)
    case (right rr)
    then have "node_ok (Suc h) m" using prems(1) by simp
    then obtain q1 q2 ql qm qr where q: "m = INTERNAL_LINK q1 q2 ql qm qr" "node_ok h ql" "node_ok h qm"
      "q1 = min_key qm" "q1 \<noteq> 0" "right_ok h q2 qr" by (rule internal_shape)
    show ?thesis
    proof (cases qr)
      case None
      with q right prems plugs [of "INTERNAL_LINK k1 0 l (INTERNAL_LINK q1 k2 ql qm (Some mn)) None"]
      show ?thesis by (clarsimp simp: f)
    next
      case (Some qrr)
      with q right prems
        plugs [of "INTERNAL_LINK k1 q2 l (INTERNAL_LINK q1 0 ql qm None)
                     (Some (INTERNAL_LINK k2 0 qrr mn None))"]
      show ?thesis by (clarsimp simp: f)
    qed
  next
    case (middle3 rr)
    then have "node_ok (Suc h) l" using prems(1) by simp
    then obtain q1 q2 ql qm qr where q: "l = INTERNAL_LINK q1 q2 ql qm qr" "node_ok h ql" "node_ok h qm"
      "q1 = min_key qm" "q1 \<noteq> 0" "right_ok h q2 qr" by (rule internal_shape)
    show ?thesis
    proof (cases qr)
      case None
      with q middle3 prems plugs [of "INTERNAL_LINK k2 0 (INTERNAL_LINK q1 k1 ql qm (Some mn)) rr None"]
      show ?thesis by (clarsimp simp: f)
    next
      case (Some qrr)
      with q middle3 prems
        plugs [of "INTERNAL_LINK q2 k2 (INTERNAL_LINK q1 0 ql qm None) (INTERNAL_LINK k1 0 qrr mn None) r"]
      show ?thesis by (clarsimp simp: f)
    qed
  next
    case middle2
    then have "node_ok (Suc h) l" using prems(1) by simp
    then obtain q1 q2 ql qm qr where q: "l = INTERNAL_LINK q1 q2 ql qm qr" "node_ok h ql" "node_ok h qm"
      "q1 = min_key qm" "q1 \<noteq> 0" "right_ok h q2 qr" by (rule internal_shape)
    show ?thesis
    proof (cases qr)
      case None
      with q middle2 prems
        Cons.IH [of "Suc h" "INTERNAL_LINK q1 k1 ql qm (Some mn)" k1 "INTERNAL_LINK q1 k1 ql qm (Some mn)" m]
      show ?thesis by (clarsimp simp: f) blast
    next
      case (Some qrr)
      with q middle2 prems
        plugs [of "INTERNAL_LINK q2 k2 (INTERNAL_LINK q1 0 ql qm None) (INTERNAL_LINK k1 0 qrr mn None) r"]
      show ?thesis by (clarsimp simp: f)
    qed
  next
    case (left3 rr)
    then have "node_ok (Suc h) m" using prems(1) by simp
    then obtain q1 q2 ql qm qr where q: "m = INTERNAL_LINK q1 q2 ql qm qr" "node_ok h ql" "node_ok h qm"
      "q1 = min_key qm" "q1 \<noteq> 0" "right_ok h q2 qr" by (rule internal_shape)
    show ?thesis
    proof (cases qr)
      case None
      with q left3 prems plugs [of "INTERNAL_LINK k2 0 (INTERNAL_LINK k1 q1 mn ql (Some qm)) rr None"]
      show ?thesis by (clarsimp simp: f)
    next
      case (Some qrr)
      with q left3 prems
        plugs [of "INTERNAL_LINK q1 k2 (INTERNAL_LINK k1 0 mn ql None) (INTERNAL_LINK q2 0 qm qrr None) r"]
      show ?thesis by (clarsimp simp: f)
    qed
  next
    case left2
    then have "node_ok (Suc h) m" using prems(1) by simp
    then obtain q1 q2 ql qm qr where q: "m = INTERNAL_LINK q1 q2 ql qm qr" "node_ok h ql" "node_ok h qm"
      "q1 = min_key qm" "q1 \<noteq> 0" "right_ok h q2 qr" by (rule internal_shape)
    show ?thesis
    proof (cases qr)
      case None
      with q left2 prems
        Cons.IH [of "Suc h" "INTERNAL_LINK k1 q1 mn ql (Some qm)" k1 l "INTERNAL_LINK k1 q1 mn ql (Some qm)"]
      show ?thesis by (clarsimp simp: f) blast
    next
      case (Some qrr)
      with q left2 prems
        plugs [of "INTERNAL_LINK q1 k2 (INTERNAL_LINK k1 0 mn ql None) (INTERNAL_LINK q2 0 qm qrr None) r"]
      show ?thesis by (clarsimp simp: f)
    qed
  qed
qed

lemma merge_leaf_spec:
  assumes "path_ok 0 st" and "st \<noteq> []" and "fits_hole st (addr mi)"
  shows "\<exists>t'. merge_leaf st (LEAF_LINK p1 0 pl pm None) mi = Some t' \<and> (\<exists>H. node_ok H t') \<and>
           inorder t' = before st @ [mi] @ after st"
proof -
  obtain k1 k2 l m r d st' where f: "st = (INTERNAL_LINK k1 k2 l m r, d) # st'"
    using assms(1,2) path_ok_frame by (cases st) (auto, metis path_ok_frame)
  note prems = assms [unfolded f]
  have path: "path_ok (Suc 0) st'" using prems(1) by simp
  note plugs = plug_result [OF path] and ups = delete_up_spec [OF path]
  from prems(1) show ?thesis
  proof (cases rule: frame_cases)
    case (right rr)
    then have "node_ok 0 m" using prems(1) by simp
    then obtain ql qm q2 qr where q: "m = LEAF_LINK (addr qm) q2 (Some ql) (Some qm) qr" "addr qm \<noteq> 0"
      "qr = None \<and> q2 = 0 \<or> (\<exists>rr. qr = Some rr \<and> q2 = addr rr \<and> q2 \<noteq> 0)" by (rule leaf_shape)
    show ?thesis
    proof (cases qr)
      case None
      with q right prems
        plugs [of "INTERNAL_LINK k1 0 l (LEAF_LINK (addr qm) (addr mi) (Some ql) (Some qm) (Some mi)) None"]
      show ?thesis by (clarsimp simp: f)
    next
      case (Some qrr)
      with q right prems
        plugs [of "INTERNAL_LINK k1 q2 l (LEAF_LINK (addr qm) 0 (Some ql) (Some qm) None)
                     (Some (LEAF_LINK (addr mi) 0 qr (Some mi) None))"]
      show ?thesis by (clarsimp simp: f)
    qed
  next
    case (middle3 rr)
    then have "node_ok 0 l" using prems(1) by simp
    then obtain ql qm q2 qr where q: "l = LEAF_LINK (addr qm) q2 (Some ql) (Some qm) qr" "addr qm \<noteq> 0"
      "qr = None \<and> q2 = 0 \<or> (\<exists>rr. qr = Some rr \<and> q2 = addr rr \<and> q2 \<noteq> 0)" by (rule leaf_shape)
    show ?thesis
    proof (cases qr)
      case None
      with q middle3 prems
        plugs [of "INTERNAL_LINK k2 0 (LEAF_LINK (addr qm) (addr mi) (Some ql) (Some qm) (Some mi)) rr None"]
      show ?thesis by (clarsimp simp: f)
    next
      case (Some qrr)
      with q middle3 prems
        plugs [of "INTERNAL_LINK q2 k2 (LEAF_LINK (addr qm) 0 (Some ql) (Some qm) None)
                     (LEAF_LINK (addr mi) 0 qr (Some mi) None) r"]
      show ?thesis by (clarsimp simp: f)
    qed
  next
    case middle2
    then have "node_ok 0 l" using prems(1) by simp
    then obtain ql qm q2 qr where q: "l = LEAF_LINK (addr qm) q2 (Some ql) (Some qm) qr" "addr qm \<noteq> 0"
      "qr = None \<and> q2 = 0 \<or> (\<exists>rr. qr = Some rr \<and> q2 = addr rr \<and> q2 \<noteq> 0)" by (rule leaf_shape)
    show ?thesis
    proof (cases qr)
      case None
      with q middle2 prems
        ups [of "LEAF_LINK (addr qm) (addr mi) (Some ql) (Some qm) (Some mi)" k1
               "LEAF_LINK (addr qm) (addr mi) (Some ql) (Some qm) (Some mi)" m]
      show ?thesis by (clarsimp simp: f) blast
    next
      case (Some qrr)
      with q middle2 prems
        plugs [of "INTERNAL_LINK q2 k2 (LEAF_LINK (addr qm) 0 (Some ql) (Some qm) None)
                     (LEAF_LINK (addr mi) 0 qr (Some mi) None) r"]
      show ?thesis by (clarsimp simp: f)
    qed
  next
    case (left3 rr)
    then have "node_ok 0 m" using prems(1) by simp
    then obtain ql qm q2 qr where q: "m = LEAF_LINK (addr qm) q2 (Some ql) (Some qm) qr" "addr qm \<noteq> 0"
      "qr = None \<and> q2 = 0 \<or> (\<exists>rr. qr = Some rr \<and> q2 = addr rr \<and> q2 \<noteq> 0)" by (rule leaf_shape)
    show ?thesis
    proof (cases qr)
      case None
      with q left3 prems
        plugs [of "INTERNAL_LINK k2 0 (LEAF_LINK (addr ql) (addr qm) (Some mi) (Some ql) (Some qm)) rr None"]
      show ?thesis by (clarsimp simp: f)
    next
      case (Some qrr)
      with q left3 prems
        plugs [of "INTERNAL_LINK (addr qm) k2 (LEAF_LINK (addr ql) 0 (Some mi) (Some ql) None)
                     (LEAF_LINK q2 0 (Some qm) qr None) r"]
      show ?thesis by (clarsimp simp: f)
    qed
  next
    case left2
    then have "node_ok 0 m" using prems(1) by simp
    then obtain ql qm q2 qr where q: "m = LEAF_LINK (addr qm) q2 (Some ql) (Some qm) qr" "addr qm \<noteq> 0"
      "qr = None \<and> q2 = 0 \<or> (\<exists>rr. qr = Some rr \<and> q2 = addr rr \<and> q2 \<noteq> 0)" by (rule leaf_shape)
    show ?thesis
    proof (cases qr)
      case None
      with q left2 prems
        ups [of "LEAF_LINK (addr ql) (addr qm) (Some mi) (Some ql) (Some qm)" k1 l
               "LEAF_LINK (addr ql) (addr qm) (Some mi) (Some ql) (Some qm)"]
      show ?thesis by (clarsimp simp: f) blast
    next
      case (Some qrr)
      with q left2 prems
        plugs [of "INTERNAL_LINK (addr qm) k2 (LEAF_LINK (addr ql) 0 (Some mi) (Some ql) None)
                     (LEAF_LINK q2 0 (Some qm) qr None) r"]
      show ?thesis by (clarsimp simp: f)
    qed
  qed
qed

subsection \<open>tree23_delete\<close>

lemma del_region_between:
  assumes "\<forall>x\<in>set xs. addr x < k" and "\<forall>x\<in>set zs. k < addr x"
  shows "del_region k (xs @ ys @ zs) = xs @ del_region k ys @ zs"
proof -
  have "del_region k xs = xs" "del_region k zs = zs"
    using assms by (auto intro!: del_region_absent)
  then show ?thesis by simp
qed

lemma located_member:
  assumes "located 0 key st p"
  shows "key \<in> addr ` set (before st @ inorder p @ after st) \<longleftrightarrow> key \<in> addr ` set (inorder p)"
  using assms by (auto simp: located_def)

lemma located_before_Nil:
  "located 0 key st p \<Longrightarrow> before st = [] \<longleftrightarrow> hole_key st = None"
  using path_ok_before [of 0 st] by (auto simp: located_def split: option.splits)

text \<open>The minimum recorded by \<^verbatim>\<open>t->min_item\<close> after a deletion.\<close>

lemma min_after_delete:
  assumes loc: "located 0 key st p" and ok: "node_ok h t" "node_ok h' t'"
    and io: "inorder t = before st @ inorder p @ after st"
    and io': "inorder t' = before st @ rest @ after st"
    and chg: "leaf_change key p rest chg"
  shows "min_key t' = (if key = min_key p \<and> hole_key st = None then addr (hd rest) else min_key t)"
proof (cases "before st = []")
  case True
  then have none: "hole_key st = None" using located_before_Nil [OF loc] by simp
  obtain y ys where rest: "rest = y # ys" using chg by (cases rest) (auto simp: leaf_change_def)
  have "min_key t' = addr y" using min_key_inorder [OF ok(2)] io' True rest by simp
  moreover have "min_key t = min_key p"
    using node_ok_hd [of 0 p] loc min_key_inorder [OF ok(1)] io True by (auto simp: located_def)
  ultimately show ?thesis using chg none rest by (auto simp: leaf_change_def split: if_splits)
next
  case False
  then obtain b bs where "before st = b # bs" by (cases "before st") auto
  then show ?thesis
    using False located_before_Nil [OF loc] min_key_inorder [OF ok(1)] min_key_inorder [OF ok(2)] io io'
    by auto
qed

lemma delete_two:
  assumes wf: "tree23_wf t" and n: "n_items t = 2"
  obtains ll mm where "root t = LEAF_LINK (addr mm) 0 (Some ll) (Some mm) None"
    "addr ll < addr mm" "addr mm \<noteq> 0" "min_item t = addr ll" "compar t = compare"
proof -
  obtain h where big: "node_ok h (root t)" "min_item t = min_key (root t)" "compar t = compare"
    "sorted_addr (inorder (root t))" "n_items t = int (length (inorder (root t)))"
    using tree23_wf_big [OF wf] n by auto
  have "2 ^ Suc h \<le> (2::nat)" using node_ok_length [OF big(1)] big(5) n by linarith
  moreover have "(2::nat) < 2 ^ Suc (Suc h')" for h' by (induction h') auto
  ultimately have "h = 0" by (cases h) (auto simp: not_le [symmetric] simp del: power_Suc)
  with big(1) have "node_ok 0 (root t)" by simp
  then obtain ll mm k2 r where p: "root t = LEAF_LINK (addr mm) k2 (Some ll) (Some mm) r" "addr mm \<noteq> 0"
    "r = None \<and> k2 = 0 \<or> (\<exists>rr. r = Some rr \<and> k2 = addr rr \<and> k2 \<noteq> 0)"
    by (rule leaf_shape)
  moreover have "r = None" using big(5) n p(1) by (cases r) auto
  ultimately show thesis using that big by simp
qed

lemma delete_small_correct:
  assumes wf: "tree23_wf t" and n: "n_items t \<le> 2"
  shows "\<exists>t' v. delete_small t k = Some (t', v) \<and> tree23_wf t' \<and>
           (if k \<in> addr ` set (inorder (root t))
            then (\<exists>r\<in>set (inorder (root t)). addr r = k \<and> v = Ret_item r) \<and>
                 inorder (root t') = del_region k (inorder (root t))
            else t' = t \<and> v = Ret_null)"
proof (cases "n_items t = 2")
  case True
  with wf obtain ll mm where "root t = LEAF_LINK (addr mm) 0 (Some ll) (Some mm) None"
    "addr ll < addr mm" "addr mm \<noteq> 0" "min_item t = addr ll" "compar t = compare"
    by (rule delete_two)
  with True wf show ?thesis
    by (auto simp: delete_small_def tree23_wf_def del_region_def not_le)
next
  case False
  with n have n1: "n_items t \<le> 1" using wf by (auto simp: tree23_wf_def)
  from tree23_wf_small [OF wf n1]
  consider "root t = LEAF_LINK 0 0 None None None" "n_items t = 0"
    | x where "root t = LEAF_LINK 0 0 (Some x) None None" "n_items t = 1"
    by auto
  then show ?thesis
  proof cases
    case 1
    with wf show ?thesis by (simp add: delete_small_def)
  next
    case (2 x)
    with wf tree23_wf_compar [OF wf] show ?thesis
      by (cases "k = addr x") (simp_all add: delete_small_def del_region_def, simp add: tree23_wf_def)
  qed
qed

lemma tree23_delete_correct:
  assumes wf: "tree23_wf t"
  shows "\<exists>t' v. tree23_delete t k = Some (t', v) \<and> tree23_wf t' \<and>
           (if k \<in> addr ` set (inorder (root t))
            then (\<exists>r\<in>set (inorder (root t)). addr r = k \<and> v = Ret_item r) \<and>
                 inorder (root t') = del_region k (inorder (root t))
            else t' = t \<and> v = Ret_null)"
proof (cases "n_items t \<le> 2")
  case True
  with delete_small_correct [OF wf True] show ?thesis by (simp add: tree23_delete_def)
next
  case False
  then obtain h where big: "node_ok h (root t)" "min_item t = min_key (root t)"
    "compar t = compare" "sorted_addr (inorder (root t))" "n_items t = int (length (inorder (root t)))"
    using tree23_wf_big [OF wf] by fastforce
  obtain st p where d: "descend compare k (root t) [] = Some (st, p)"
    and loc: "located 0 k st p" and io: "inorder (root t) = before st @ inorder p @ after st"
    and len: "length st = h"
    using descend_located [OF located_start [OF big(1,4)], of k] by auto
  have path: "path_ok 0 st" using loc by (simp add: located_def)
  have del: "del_region k (inorder (root t)) = before st @ del_region k (inorder p) @ after st"
    unfolding io using loc by (intro del_region_between) (auto simp: located_def)
  have mem: "k \<in> addr ` set (inorder (root t)) \<longleftrightarrow> k \<in> addr ` set (inorder p)"
    unfolding io by (rule located_member [OF loc])
  have finish: "tree23_wf (t\<lparr>root := root', min_item := mn', n_items := n_items t - 1\<rparr>)"
    if "node_ok H root'" "inorder root' = before st @ rest @ after st" "rest = del_region k (inorder p)"
      "leaf_change k p rest chg" "k \<in> addr ` set (inorder p)"
      "mn' = (if k = min_key p \<and> hole_key st = None then addr (hd rest) else min_item t)"
    for H root' mn' rest chg
  proof (rule tree23_wf_bigI [where h = H])
    show "min_item (t\<lparr>root := root', min_item := mn', n_items := n_items t - 1\<rparr>) =
          min_key (root (t\<lparr>root := root', min_item := mn', n_items := n_items t - 1\<rparr>))"
      using min_after_delete [OF loc big(1) that(1) io that(2,4)] that(6) big(2) by simp
    show "sorted_addr (inorder (root (t\<lparr>root := root', min_item := mn', n_items := n_items t - 1\<rparr>)))"
      using that(2,3) del sorted_del_region [OF big(4), of k] by simp
    show "n_items (t\<lparr>root := root', min_item := mn', n_items := n_items t - 1\<rparr>) =
          int (length (inorder (root (t\<lparr>root := root', min_item := mn', n_items := n_items t - 1\<rparr>))))"
      using length_del_region [OF big(4), of k] that(2,3,5) del mem big(5) by simp
  qed (use that big in simp_all)
  obtain res where res: "delete_leaf compare k p = Some res"
    and spec: "case res of
       Absent \<Rightarrow> k \<notin> addr ` set (inorder p)
     | Shrunk p' ret chg \<Rightarrow> addr ret = k \<and> ret \<in> set (inorder p) \<and> node_ok 0 p' \<and>
         inorder p' = del_region k (inorder p) \<and> leaf_change k p (inorder p') chg
     | Lone mi ret chg \<Rightarrow> addr ret = k \<and> ret \<in> set (inorder p) \<and>
         del_region k (inorder p) = [mi] \<and> leaf_change k p [mi] chg \<and>
         (\<exists>k1 l m. p = LEAF_LINK k1 0 l m None)"
    using delete_leaf_spec [OF loc] by auto
  show ?thesis
  proof (cases res)
    case Absent
    with spec mem False d res big(3) wf show ?thesis by (simp add: tree23_delete_def)
  next
    case (Shrunk p' ret chg)
    with spec have f: "addr ret = k" "ret \<in> set (inorder p)" "node_ok 0 p'"
      "inorder p' = del_region k (inorder p)" "leaf_change k p (inorder p') chg" by auto
    obtain st' mn' where cm: "change_min st (min_item t) chg = (st', mn')" "path_ok 0 st'"
      "fits_hole st' (addr (hd (inorder p')))" "before st' = before st" "after st' = after st"
      "length st' = length st"
      "mn' = (if k = min_key p \<and> hole_key st = None then addr (hd (inorder p')) else min_item t)"
      by (rule change_min_spec [OF loc f(5)])
    have "fits_hole st' (min_key p')" using cm(3) node_ok_hd [OF f(3)] by auto
    from plug_result [OF cm(2) f(3) this] obtain H where
      pl: "node_ok H (plug st' p')" "inorder (plug st' p') = before st @ inorder p' @ after st"
      using cm(4,5) by auto
    have mem_p: "k \<in> addr ` set (inorder p)" using f(1,2) by blast
    show ?thesis
      using finish [OF pl f(4,5) mem_p cm(7)] f pl cm(1) Shrunk False d res big(3) mem mem_p del io
      by (auto simp: tree23_delete_def)
  next
    case (Lone mi ret chg)
    with spec obtain k1 l m where f: "addr ret = k" "ret \<in> set (inorder p)"
      "del_region k (inorder p) = [mi]" "leaf_change k p [mi] chg" "p = LEAF_LINK k1 0 l m None" by auto
    obtain st' mn' where cm: "change_min st (min_item t) chg = (st', mn')" "path_ok 0 st'"
      "fits_hole st' (addr (hd [mi]))" "before st' = before st" "after st' = after st"
      "length st' = length st"
      "mn' = (if k = min_key p \<and> hole_key st = None then addr (hd [mi]) else min_item t)"
      by (rule change_min_spec [OF loc f(4)])
    have "length (inorder p) \<le> 2" using f(5) by (cases l; cases m) auto
    moreover have "length (inorder (root t)) > 2" using False big(5) by simp
    ultimately have "st \<noteq> []" using io by auto
    then have "st' \<noteq> []" using cm(6) by auto
    then obtain t' H where ml: "merge_leaf st' p mi = Some t'" "node_ok H t'"
      "inorder t' = before st @ [mi] @ after st"
      using merge_leaf_spec [OF cm(2), of mi k1 l m] cm(3,4,5) f(5) by auto
    have mem_p: "k \<in> addr ` set (inorder p)" using f(1,2) by blast
    show ?thesis
      using finish [OF ml(2,3) f(3) [symmetric] f(4) mem_p cm(7)] f ml cm(1) Lone False d res big(3) mem mem_p del io
      by (auto simp: tree23_delete_def)
  qed
qed

subsection \<open>tree23_delete_min\<close>

definition left_stack :: "tree23_node list \<Rightarrow> tree23_stack" where
  "left_stack ss = map (\<lambda>q. (q, -1)) ss"

lemma left_stack_simps [simp]:
  "left_stack [] = []" "left_stack (q # ss) = (q, -1) # left_stack ss"
  by (simp_all add: left_stack_def)

lemma plug_left_eq: "plug_left ss t = plug (left_stack ss) t"
  by (induction ss arbitrary: t) simp_all

lemma delete_min_up_eq: "delete_min_up ss p mn = delete_up (left_stack ss) p mn"
proof (induction ss p mn rule: delete_min_up.induct)
  case (2 k1 k2 l m r stack p1 p2 pl pm pr mn)
  then show ?case
    by (auto simp: plug_left_eq Let_def split: tree23_node.splits option.splits)
qed simp_all

lemma merge_leaf_min_eq: "merge_leaf_min ss p mi = merge_leaf (left_stack ss) p mi"
  by (induction ss p mi rule: merge_leaf_min.induct)
     (auto simp: plug_left_eq delete_min_up_eq Let_def split: tree23_node.splits option.splits)

lemma set_min_key_left: "set_min_key (left_stack ss) v = None"
  by (induction ss) simp_all

lemma descend_left_eq:
  "node_ok h t \<Longrightarrow> sorted_addr (inorder t) \<Longrightarrow>
   descend compare (min_key t) t (left_stack ss) =
     Some (left_stack (fst (descend_left t ss)), snd (descend_left t ss))"
proof (induction t arbitrary: h ss)
  case (LEAF_LINK k1 k2 l m r)
  show ?case by simp
next
  case (INTERNAL_LINK k1 k2 l m r)
  then obtain h' where h: "node_ok h' l" "node_ok h' m" "k1 = min_key m" "right_ok h' k2 r" by auto
  obtain x where x: "x \<in> set (inorder l)" "addr x = min_key l" using min_key_in [OF h(1)] by blast
  obtain y where y: "y \<in> set (inorder m)" "addr y = k1" using min_key_in [OF h(2)] h(3) by blast
  have lt: "min_key l < k1" using INTERNAL_LINK.prems(2) x y by fastforce
  moreover have "\<not> (k2 \<noteq> 0 \<and> k2 \<le> min_key l)"
  proof (cases r)
    case None
    with h(4) show ?thesis by simp
  next
    case (Some rr)
    with h(4) obtain z where "z \<in> set (inorder rr)" "addr z = k2" using min_key_in by fastforce
    then have "min_key l < k2" using INTERNAL_LINK.prems(2) x Some by fastforce
    then show ?thesis by (simp add: not_le)
  qed
  ultimately show ?case
    using INTERNAL_LINK.IH(1) [OF h(1), of "INTERNAL_LINK k1 k2 l m r # ss"] INTERNAL_LINK.prems(2)
    by auto
qed

lemma delete_min_small_eq:
  assumes wf: "tree23_wf t" and n: "n_items t \<le> 2"
  shows "delete_min_small t = delete_small t (min_item t)"
proof (cases "n_items t = 2")
  case True
  with wf obtain ll mm where "root t = LEAF_LINK (addr mm) 0 (Some ll) (Some mm) None"
    "addr ll < addr mm" "addr mm \<noteq> 0" "min_item t = addr ll" "compar t = compare"
    by (rule delete_two)
  with True show ?thesis by (auto simp: delete_small_def delete_min_small_def)
next
  case False
  with n have n1: "n_items t \<le> 1" by simp
  from tree23_wf_small [OF wf n1] tree23_wf_compar [OF wf] show ?thesis
    by (auto simp: delete_small_def delete_min_small_def)
qed

lemma tree23_delete_min_eq:
  assumes wf: "tree23_wf t"
  shows "tree23_delete_min t = tree23_delete t (min_item t)"
proof (cases "n_items t \<le> 2")
  case True
  with delete_min_small_eq [OF wf] show ?thesis
    by (simp add: tree23_delete_min_def tree23_delete_def)
next
  case False
  then obtain h where big: "node_ok h (root t)" "min_item t = min_key (root t)"
    "compar t = compare" "sorted_addr (inorder (root t))"
    using tree23_wf_big [OF wf] by fastforce
  obtain ss p where dl: "descend_left (root t) [] = (ss, p)" by (cases "descend_left (root t) []")
  have d: "descend compare (min_item t) (root t) [] = Some (left_stack ss, p)"
    using descend_left_eq [OF big(1,4), of "[]"] big(2) dl by simp
  have loc: "located 0 (min_item t) (left_stack ss) p"
    using descend_located [OF located_start [OF big(1,4)], of "min_item t"] d by auto
  then have "node_ok 0 p" by (simp add: located_def)
  then obtain ll mm k2 r where p: "p = LEAF_LINK (addr mm) k2 (Some ll) (Some mm) r" "addr mm \<noteq> 0"
    and r: "r = None \<and> k2 = 0 \<or> (\<exists>rr. r = Some rr \<and> k2 = addr rr \<and> k2 \<noteq> 0)"
    by (rule leaf_shape)
  have "hole_key (left_stack ss) = None \<and> min_key p = min_key (root t)"
    using dl
  proof -
    have nb: "before (left_stack ss) = []" by (induction ss) (auto, case_tac a, auto)
    have "inorder (root t) = before (left_stack ss) @ inorder p @ after (left_stack ss)"
      using descend_located [OF located_start [OF big(1,4)], of "min_item t"] d by auto
    then have "min_key (root t) = min_key p"
      using nb min_key_inorder [OF big(1)] node_ok_hd [OF \<open>node_ok 0 p\<close>] by auto
    with nb located_before_Nil [OF loc] show ?thesis by simp
  qed
  then have key: "min_item t = addr ll" using big(2) p(1) by simp
  have lm: "addr ll < addr mm" using loc by (auto simp: located_def p)
  have lr: "\<not> (k2 \<noteq> 0 \<and> k2 \<le> addr ll)" using loc r by (auto simp: located_def p)
  show ?thesis
    using False dl d big(3) lm lr key p
    by (auto simp: tree23_delete_min_def tree23_delete_def change_min_def set_min_key_left
          plug_left_eq merge_leaf_min_eq not_le)
qed

subsection \<open>tree23_free\<close>

fun freed_items :: "tree23_node \<Rightarrow> approx_region_t list" where
  "freed_items (LEAF_LINK k1 k2 l m r) = opt_list l @ opt_list m @ opt_list r"
| "freed_items (INTERNAL_LINK k1 k2 l m r) =
     (case r of None \<Rightarrow> [] | Some rr \<Rightarrow> freed_items rr) @ freed_items m @ freed_items l"

lemma free_loop_items: "fst (free_loop ts) = concat (map freed_items ts)"
proof (induction ts rule: free_loop.induct)
  case (3 k1 k2 l m r stack)
  then show ?case by (cases r) (auto split: prod.splits)
qed (auto split: prod.splits)

lemma mset_freed_items: "mset (freed_items t) = mset (inorder t)"
proof (induction t)
  case (INTERNAL_LINK k1 k2 l m r)
  then show ?case by (cases r) auto
qed simp

lemma free_loop_depth:
  "node_ok h t \<Longrightarrow>
   snd (snd (free_loop (t # stack))) \<le> max (length stack + 2 * h + 1) (snd (snd (free_loop stack)))"
proof (induction t arbitrary: h stack)
  case (LEAF_LINK k1 k2 l m r)
  then show ?case by (auto split: prod.splits)
next
  case (INTERNAL_LINK k1 k2 l m r)
  then obtain h' where h: "h = Suc h'" "node_ok h' l" "node_ok h' m" "right_ok h' k2 r" by auto
  note l = INTERNAL_LINK.IH(1) [OF h(2), of stack]
  note m = INTERNAL_LINK.IH(2) [OF h(3), of "l # stack"]
  show ?case
  proof (cases r)
    case None
    with l m h show ?thesis by (auto split: prod.splits)
  next
    case (Some rr)
    then have "node_ok h' rr" using h(4) by simp
    from INTERNAL_LINK.IH(3) [OF _ this, of "m # l # stack"] Some l m h
    show ?thesis by (auto split: prod.splits)
  qed
qed

lemma height_bound:
  assumes "tree23_wf t" and "n_items t < 2 ^ 31" and "node_ok h (root t)"
  shows "h < 30"
proof -
  have "2 ^ Suc h \<le> length (inorder (root t))" by (rule node_ok_length [OF assms(3)])
  moreover have "length (inorder (root t)) < 2 ^ 31"
    using assms(1,2) by (auto simp: tree23_wf_def)
  ultimately have "(2::nat) ^ Suc h < 2 ^ 31" by linarith
  then have "Suc h < 31" by (rule power_less_imp_less_exp [rotated]) simp
  then show ?thesis by simp
qed

lemma tree23_free_correct:
  assumes "tree23_wf t" and "n_items t < 2 ^ 31"
  shows "mset (fst (tree23_free t)) = mset (inorder (root t)) \<and> snd (snd (tree23_free t)) < 2000"
proof
  show "mset (fst (tree23_free t)) = mset (inorder (root t))"
    by (simp add: tree23_free_def free_loop_items mset_freed_items)
  show "snd (snd (tree23_free t)) < 2000"
  proof (cases "n_items t \<le> 1")
    case True
    from tree23_wf_small [OF assms(1) True] show ?thesis by (auto simp: tree23_free_def)
  next
    case False
    then obtain h where ok: "node_ok h (root t)" using tree23_wf_big [OF assms(1)] by auto
    from free_loop_depth [OF ok, of "[]"] height_bound [OF assms ok] show ?thesis
      by (simp add: tree23_free_def)
  qed
qed

end
