(* ===== verification/Approx_Regions.thy ===== *)
theory Approx_Regions imports Tree23_Delete begin

text \<open>
  Approximable regions: the dictionary interface of \<^verbatim>\<open>zsim/src/dict_info.h\<close>, its instance
  \<^verbatim>\<open>approxInfo\<close> on the 2-3 tree, the two routines the simulated program calls
  (\<^verbatim>\<open>RegisterApproxRegion\<close> and \<^verbatim>\<open>DeregisterApproxRegion\<close> in \<^verbatim>\<open>zsim.cpp\<close>) and
  the test \<^verbatim>\<open>Cache::isApprox\<close>.

  The locale \<open>approx_dict\<close> states what these clients need of a dictionary; the clients are verified
  inside it, and its interpretation on the 2-3 tree discharges its laws.
\<close>

record 't dict_info =
  dict_insert :: "'t \<Rightarrow> approx_region_t \<Rightarrow> ('t \<times> tree23_ret) option"
  dict_delete_item :: "'t \<Rightarrow> u64 \<Rightarrow> ('t \<times> tree23_ret) option"
  dict_delete_min :: "'t \<Rightarrow> ('t \<times> tree23_ret) option"
  dict_find :: "'t \<Rightarrow> u64 \<Rightarrow> approx_region_t option option"
  dict_find_min :: "'t \<Rightarrow> u64"

definition approxInfo :: "tree23_t dict_info" where
  "approxInfo = \<lparr>dict_insert = tree23_insert, dict_delete_item = tree23_delete,
     dict_delete_min = tree23_delete_min, dict_find = tree23_find, dict_find_min = tree23_find_min\<rparr>"

subsection \<open>The clients\<close>

fun strstr :: "string \<Rightarrow> string \<Rightarrow> bool" where
  "strstr [] needle = (needle = [])"
| "strstr (c # s) needle = (take (length needle) (c # s) = needle \<or> strstr s needle)"

definition region_type :: "string \<Rightarrow> e_approx_t option" where
  "region_type dataType =
     (if strstr dataType ''float'' \<or> strstr dataType ''fptype'' then Some Approx_fp
      else if strstr dataType ''int'' then Some Approx_uint
      else None)"

definition make_region :: "nat \<Rightarrow> u32 \<Rightarrow> u64 \<Rightarrow> u32 \<Rightarrow> e_approx_t \<Rightarrow> approx_region_t" where
  "make_region lineBits lineSize baseAddr rng ty =
     \<lparr>addr = baseAddr, region_range = rng,
      addr_start = drop_bit lineBits (baseAddr - 1) * ucast lineSize + ucast lineSize,
      addr_end = drop_bit lineBits (baseAddr + ucast rng) * ucast lineSize,
      approx_type = ty\<rparr>"

definition RegisterApproxRegion ::
  "'t dict_info \<Rightarrow> nat \<Rightarrow> u32 \<Rightarrow> 't \<Rightarrow> u64 \<Rightarrow> u32 \<Rightarrow> string \<Rightarrow> 't option"
where
  "RegisterApproxRegion D lineBits lineSize tree baseAddr rng dataType = do {
     ty \<leftarrow> region_type dataType;
     (tree', _) \<leftarrow> dict_insert D tree (make_region lineBits lineSize baseAddr rng ty);
     Some tree'
   }"

definition DeregisterApproxRegion :: "'t dict_info \<Rightarrow> 't \<Rightarrow> u64 \<Rightarrow> ('t \<times> tree23_ret) option" where
  "DeregisterApproxRegion D tree baseAddr = dict_delete_item D tree baseAddr"

definition find_approx_type :: "'t dict_info \<Rightarrow> 't \<Rightarrow> u64 \<Rightarrow> e_approx_t option" where
  "find_approx_type D tree a = do {
     region \<leftarrow> dict_find D tree a;
     Some (case region of
             None \<Rightarrow> No_approx
           | Some r \<Rightarrow> if a \<ge> addr_start r \<and> a < addr_end r then approx_type r else No_approx)
   }"

definition isApprox :: "'t dict_info \<Rightarrow> nat \<Rightarrow> 't \<Rightarrow> address \<Rightarrow> bool option" where
  "isApprox D lineBits tree lineAddr = do {
     ty \<leftarrow> find_approx_type D tree (push_bit lineBits lineAddr);
     Some (ty \<noteq> No_approx)
   }"

subsection \<open>What the clients need of the dictionary\<close>

locale approx_dict =
  fixes D :: "'t dict_info"
    and regions :: "'t \<Rightarrow> u64 \<Rightarrow> approx_region_t option"
    and invar :: "'t \<Rightarrow> bool"
  assumes insert_law: "invar t \<Longrightarrow> \<exists>t' v. dict_insert D t r = Some (t', v) \<and> invar t' \<and>
      regions t' = (if regions t (addr r) = None then (regions t)(addr r \<mapsto> r) else regions t) \<and>
      (v = Ret_null \<longleftrightarrow> regions t (addr r) = None)"
    and delete_law: "invar t \<Longrightarrow> \<exists>t'. dict_delete_item D t k =
        Some (t', case regions t k of None \<Rightarrow> Ret_null | Some r \<Rightarrow> Ret_item r) \<and> invar t' \<and>
      regions t' = (regions t)(k := None)"
    and find_law: "invar t \<Longrightarrow> \<exists>v. dict_find D t k = Some v \<and>
      (case v of
         None \<Rightarrow> (\<forall>a r. regions t a = Some r \<longrightarrow> k < a)
       | Some r \<Rightarrow> regions t (addr r) = Some r \<and> addr r \<le> k \<and>
           (\<forall>a r'. regions t a = Some r' \<longrightarrow> a \<le> k \<longrightarrow> a \<le> addr r))"
    and key_law: "invar t \<Longrightarrow> regions t a = Some r \<Longrightarrow> addr r = a"
begin

text \<open>The registered regions do not overlap: each ends before the next one starts.\<close>

definition separated :: "'t \<Rightarrow> bool" where
  "separated t \<longleftrightarrow>
     (\<forall>a r b s. regions t a = Some r \<longrightarrow> regions t b = Some s \<longrightarrow> a < b \<longrightarrow> addr_end r \<le> b) \<and>
     (\<forall>a r. regions t a = Some r \<longrightarrow> a \<le> addr_start r \<and> approx_type r \<noteq> No_approx)"

lemma find_total: "invar t \<Longrightarrow> \<exists>ty. find_approx_type D t a = Some ty"
  using find_law [of t a] by (auto simp: find_approx_type_def)

lemma approx_type_sound:
  assumes "invar t" and "find_approx_type D t a = Some ty" and "ty \<noteq> No_approx"
  shows "\<exists>b r. regions t b = Some r \<and> addr_start r \<le> a \<and> a < addr_end r \<and> approx_type r = ty"
proof -
  obtain v where v: "dict_find D t a = Some v"
    "case v of None \<Rightarrow> True | Some r \<Rightarrow> regions t (addr r) = Some r"
    using find_law [OF assms(1), of a] by (auto split: option.splits)
  with assms(2,3) show ?thesis
    by (cases v) (auto simp: find_approx_type_def split: if_splits)
qed

lemma approx_type_complete:
  assumes inv: "invar t" and sep: "separated t"
    and r: "regions t b = Some r" "addr_start r \<le> a" "a < addr_end r"
  shows "find_approx_type D t a = Some (approx_type r)"
proof -
  have br: "addr r = b" by (rule key_law [OF inv r(1)])
  have ba: "b \<le> a" using sep r(1,2) unfolding separated_def by (meson order_trans)
  obtain v where v: "dict_find D t a = Some v"
    and spec: "case v of
         None \<Rightarrow> (\<forall>a' r. regions t a' = Some r \<longrightarrow> a < a')
       | Some s \<Rightarrow> regions t (addr s) = Some s \<and> addr s \<le> a \<and>
           (\<forall>a' r'. regions t a' = Some r' \<longrightarrow> a' \<le> a \<longrightarrow> a' \<le> addr s)"
    using find_law [OF inv, of a] by auto
  show ?thesis
  proof (cases v)
    case None
    with spec r(1) ba show ?thesis by (auto dest: leD)
  next
    case (Some s)
    with spec r(1) ba have s: "regions t (addr s) = Some s" "addr s \<le> a" "b \<le> addr s" by auto
    have "\<not> b < addr s"
    proof
      assume "b < addr s"
      then have "addr_end r \<le> addr s" using sep r(1) s(1) unfolding separated_def by blast
      with s(2) r(3) show False by simp
    qed
    with s(3) have "addr s = b" by simp
    with s(1) r(1) have "s = r" by simp
    with v Some r show ?thesis by (simp add: find_approx_type_def)
  qed
qed

lemma isApprox_iff:
  assumes "invar t" and "separated t"
  shows "isApprox D lb t la =
    Some (\<exists>b r. regions t b = Some r \<and> addr_start r \<le> push_bit lb la \<and> push_bit lb la < addr_end r)"
proof -
  obtain ty where ty: "find_approx_type D t (push_bit lb la) = Some ty"
    using find_total [OF assms(1)] by blast
  show ?thesis
  proof (cases "ty = No_approx")
    case True
    have "\<not> (\<exists>b r. regions t b = Some r \<and> addr_start r \<le> push_bit lb la \<and> push_bit lb la < addr_end r)"
      using approx_type_complete [OF assms] ty True assms(2) by (fastforce simp: separated_def)
    with ty True show ?thesis by (auto simp: isApprox_def)
  next
    case False
    with approx_type_sound [OF assms(1) ty False] ty show ?thesis by (auto simp: isApprox_def)
  qed
qed

lemma register_regions:
  assumes "invar t" and "region_type ty = Some e"
  shows "\<exists>t'. RegisterApproxRegion D lb ls t a n ty = Some t' \<and> invar t' \<and>
    regions t' = (if regions t a = None then (regions t)(a \<mapsto> make_region lb ls a n e) else regions t)"
  using insert_law [OF assms(1), of "make_region lb ls a n e"] assms(2)
  by (auto simp: RegisterApproxRegion_def make_region_def)

lemma deregister_regions:
  assumes "invar t"
  shows "\<exists>t' v. DeregisterApproxRegion D t a = Some (t', v) \<and> invar t' \<and>
    regions t' = (regions t)(a := None) \<and> (v = Ret_null \<longleftrightarrow> regions t a = None)"
  using delete_law [OF assms, of a]
  by (auto simp: DeregisterApproxRegion_def split: option.splits)

lemma separated_delete:
  assumes "separated t" and "regions t' = (regions t)(a := None)"
  shows "separated t'"
  using assms unfolding separated_def by (auto split: if_splits)

end

subsection \<open>The 2-3 tree is such a dictionary\<close>

definition region_map :: "tree23_t \<Rightarrow> u64 \<Rightarrow> approx_region_t option" where
  "region_map t = map_of (map (\<lambda>r. (addr r, r)) (inorder (root t)))"

lemma map_of_sorted:
  "sorted_addr xs \<Longrightarrow> map_of (map (\<lambda>r. (addr r, r)) xs) k = Some r \<longleftrightarrow> r \<in> set xs \<and> addr r = k"
  by (induction xs) auto

lemma map_of_addr_None: "map_of (map (\<lambda>r. (addr r, r)) xs) k = None \<longleftrightarrow> k \<notin> addr ` set xs"
  by (auto simp: map_of_eq_None_iff image_iff)

lemma map_eqI: "(\<And>k v. f k = Some v \<longleftrightarrow> g k = Some v) \<Longrightarrow> f = g"
  by (rule ext) (metis not_Some_eq)

lemma region_map_iff:
  "tree23_wf t \<Longrightarrow> region_map t k = Some r \<longleftrightarrow> r \<in> set (inorder (root t)) \<and> addr r = k"
  by (simp add: region_map_def map_of_sorted tree23_wf_def)

lemma region_map_None: "region_map t k = None \<longleftrightarrow> k \<notin> addr ` set (inorder (root t))"
  by (simp add: region_map_def map_of_addr_None)

lemma find_leaf_spec:
  assumes loc: "located 0 key st p"
  shows "\<exists>v. find_leaf compare key p = Some v \<and>
    (case v of
       None \<Rightarrow> (\<forall>x\<in>set (before st @ inorder p @ after st). key < addr x)
     | Some r \<Rightarrow> r \<in> set (inorder p) \<and> addr r \<le> key \<and>
         (\<forall>x\<in>set (before st @ inorder p @ after st). addr x \<le> key \<longrightarrow> addr x \<le> addr r))"
proof -
  have "node_ok 0 p" using loc by (simp add: located_def)
  then obtain ll mm k2 r where p: "p = LEAF_LINK (addr mm) k2 (Some ll) (Some mm) r" "addr mm \<noteq> 0"
    and r: "r = None \<and> k2 = 0 \<or> (\<exists>rr. r = Some rr \<and> k2 = addr rr \<and> k2 \<noteq> 0)"
    by (rule leaf_shape)
  have lm: "addr ll < addr mm" using loc by (auto simp: located_def p)
  have aft: "\<forall>a\<in>set (after st). \<not> addr a \<le> key" using loc by (auto simp: located_def not_le)
  have bef: "\<forall>b\<in>set (before st). \<forall>x\<in>set (inorder p). addr b \<le> addr x"
    using loc by (auto simp: located_def less_imp_le)
  have low: "key < addr ll \<Longrightarrow> before st = []"
    using loc by (auto simp: located_def fits_hole_def p split: option.splits)
  show ?thesis
  proof (cases r)
    case None
    with r lm p(2) aft bef low show ?thesis
      by (auto simp: p(1) not_le)
  next
    case (Some rr)
    then have k2: "k2 = addr rr" "k2 \<noteq> 0" using r by auto
    have "addr mm < addr rr" "addr ll < addr rr" using loc by (auto simp: located_def p Some)
    with lm p(2) Some k2 aft bef low show ?thesis
      by (auto simp: p(1) not_le)
  qed
qed

lemma tree23_find_correct:
  assumes wf: "tree23_wf t"
  shows "\<exists>v. tree23_find t key = Some v \<and>
    (case v of
       None \<Rightarrow> (\<forall>x\<in>set (inorder (root t)). key < addr x)
     | Some r \<Rightarrow> r \<in> set (inorder (root t)) \<and> addr r \<le> key \<and>
         (\<forall>x\<in>set (inorder (root t)). addr x \<le> key \<longrightarrow> addr x \<le> addr r))"
proof (cases "n_items t \<le> 1")
  case True
  from tree23_wf_small [OF wf True] tree23_wf_compar [OF wf] show ?thesis
    by (auto simp: tree23_find_def not_le)
next
  case False
  then obtain h where big: "node_ok h (root t)" "compar t = compare" "sorted_addr (inorder (root t))"
    using tree23_wf_big [OF wf] by fastforce
  obtain st p where d: "descend compare key (root t) [] = Some (st, p)"
    and loc: "located 0 key st p" and io: "inorder (root t) = before st @ inorder p @ after st"
    using descend_located [OF located_start [OF big(1,3)], of key] by auto
  from find_leaf_spec [OF loc] obtain v where v: "find_leaf compare key p = Some v"
    "case v of
       None \<Rightarrow> (\<forall>x\<in>set (inorder (root t)). key < addr x)
     | Some r \<Rightarrow> r \<in> set (inorder p) \<and> addr r \<le> key \<and>
         (\<forall>x\<in>set (inorder (root t)). addr x \<le> key \<longrightarrow> addr x \<le> addr r)"
    unfolding io by auto
  have "tree23_find t key = Some v" using False d v(1) big(2) by (simp add: tree23_find_def)
  moreover have "\<And>r. r \<in> set (inorder p) \<Longrightarrow> r \<in> set (inorder (root t))" unfolding io by auto
  ultimately show ?thesis using v(2) by (auto split: option.splits)
qed

lemma region_map_insert:
  assumes "tree23_wf t" "tree23_wf t'" "addr r \<notin> addr ` set (inorder (root t))"
    and "inorder (root t') = ins_region r (inorder (root t))"
  shows "region_map t' = (region_map t)(addr r \<mapsto> r)"
proof (rule map_eqI)
  fix k v
  show "region_map t' k = Some v \<longleftrightarrow> ((region_map t)(addr r \<mapsto> r)) k = Some v"
    using assms set_ins_region [OF assms(3)] by (auto simp: region_map_iff image_iff)
qed

lemma region_map_delete:
  assumes "tree23_wf t" "tree23_wf t'" "inorder (root t') = del_region k (inorder (root t))"
  shows "region_map t' = (region_map t)(k := None)"
proof (rule map_eqI)
  fix a v
  show "region_map t' a = Some v \<longleftrightarrow> ((region_map t)(k := None)) a = Some v"
    using assms by (auto simp: region_map_iff set_del_region)
qed

lemma tree23_delete_map:
  assumes wf: "tree23_wf t"
  shows "\<exists>t'. tree23_delete t k =
           Some (t', case region_map t k of None \<Rightarrow> Ret_null | Some r \<Rightarrow> Ret_item r) \<and> tree23_wf t' \<and>
         region_map t' = (region_map t)(k := None)"
proof -
  obtain t' v where tv: "tree23_delete t k = Some (t', v)" "tree23_wf t'"
    and spec: "if k \<in> addr ` set (inorder (root t))
            then (\<exists>r\<in>set (inorder (root t)). addr r = k \<and> v = Ret_item r) \<and>
                 inorder (root t') = del_region k (inorder (root t))
            else t' = t \<and> v = Ret_null"
    using tree23_delete_correct [OF wf, of k] by blast
  show ?thesis
  proof (cases "k \<in> addr ` set (inorder (root t))")
    case True
    with spec obtain r where "r \<in> set (inorder (root t))" "addr r = k" "v = Ret_item r"
      and io: "inorder (root t') = del_region k (inorder (root t))" by auto
    then have "region_map t k = Some r" "v = Ret_item r" using region_map_iff [OF wf] by auto
    with tv region_map_delete [OF wf tv(2) io] show ?thesis by simp
  next
    case False
    then have "region_map t k = None" by (simp add: region_map_None)
    with tv spec False show ?thesis by (auto simp: fun_upd_idem)
  qed
qed

interpretation tree_dict: approx_dict approxInfo region_map tree23_wf
proof (unfold_locales, goal_cases)
  case (1 t r)
  obtain t' v where "tree23_insert t r = Some (t', v)" "tree23_wf t'"
    "if addr r \<in> addr ` set (inorder (root t)) then t' = t \<and> v \<noteq> Ret_null
     else v = Ret_null \<and> inorder (root t') = ins_region r (inorder (root t))"
    using tree23_insert_correct [OF 1, of r] by blast
  with region_map_insert [OF 1, of t' r] show ?case
    by (auto simp: approxInfo_def region_map_None split: if_splits)
next
  case (2 t k)
  then show ?case using tree23_delete_map by (simp add: approxInfo_def)
next
  case (3 t k)
  from tree23_find_correct [OF this, of k] region_map_iff [OF this] show ?case
    by (auto simp: approxInfo_def split: option.splits)
next
  case (4 t a r)
  then show ?case by (simp add: region_map_iff)
qed

end
