(* ===== verification/Tree23_Contract.thy ===== *)
theory Tree23_Contract imports Approx_Regions begin

text \<open>
  The contract of \<^verbatim>\<open>zsim/src/tree23.cpp\<close>, stated against sorted lists of regions: what each
  operation does to the regions of the tree in increasing order of address, that it never fails an
  assert and never leaves its two fixed-size stacks, and that any sequence of operations from
  \<^verbatim>\<open>tree23_alloc\<close> behaves like the same sequence on a sorted list.
\<close>

definition sample_region :: "u64 \<Rightarrow> approx_region_t" where
  "sample_region a = \<lparr>addr = a, region_range = 64, addr_start = a, addr_end = a + 64, approx_type = Approx_fp\<rparr>"

definition sample_tree :: tree23_t where
  "sample_tree =
     \<lparr>root = INTERNAL_LINK 384 0
        (LEAF_LINK 192 256 (Some (sample_region 128)) (Some (sample_region 192)) (Some (sample_region 256)))
        (LEAF_LINK 512 0 (Some (sample_region 384)) (Some (sample_region 512)) None) None,
      compar = compare, n_items = 5, min_item = 128\<rparr>"

lemma sample_tree_simps:
  "inorder (root sample_tree) = map sample_region [128, 192, 256, 384, 512]"
  "n_items sample_tree = 5"
  by (simp_all add: sample_tree_def)

lemma sample_region_simps [simp]:
  "addr (sample_region a) = a" "addr_start (sample_region a) = a" "addr_end (sample_region a) = a + 64"
  "approx_type (sample_region a) = Approx_fp"
  by (simp_all add: sample_region_def)

lemma sample_tree_wf: "tree23_wf sample_tree"
proof -
  have "node_ok 1 (root sample_tree)" by (simp add: sample_tree_def)
  then show ?thesis
    by (rule tree23_wf_bigI) (simp_all add: sample_tree_def)
qed

subsection \<open>Sequences of operations\<close>

datatype tree23_op = Op_insert approx_region_t | Op_delete u64 | Op_delete_min

definition tree23_step :: "tree23_op \<Rightarrow> tree23_t \<Rightarrow> tree23_t option" where
  "tree23_step op t =
     (case op of
        Op_insert r \<Rightarrow> map_option fst (tree23_insert t r)
      | Op_delete k \<Rightarrow> map_option fst (tree23_delete t k)
      | Op_delete_min \<Rightarrow> map_option fst (tree23_delete_min t))"

fun tree23_run :: "tree23_op list \<Rightarrow> tree23_t \<Rightarrow> tree23_t option" where
  "tree23_run [] t = Some t"
| "tree23_run (op # ops) t = do { t' \<leftarrow> tree23_step op t; tree23_run ops t' }"

definition list_step :: "tree23_op \<Rightarrow> approx_region_t list \<Rightarrow> approx_region_t list" where
  "list_step op xs =
     (case op of
        Op_insert r \<Rightarrow> if addr r \<in> addr ` set xs then xs else ins_region r xs
      | Op_delete k \<Rightarrow> del_region k xs
      | Op_delete_min \<Rightarrow> tl xs)"

lemma sorted_addr_distinct:
  "sorted_addr (x # xs) \<Longrightarrow> y \<in> set xs \<Longrightarrow> addr y \<noteq> addr x"
  by (metis less_irrefl sorted_addr_simps(2))

lemma del_region_hd:
  assumes "sorted_addr (x # xs)"
  shows "del_region (addr x) (x # xs) = xs"
proof -
  have "filter (\<lambda>y. addr y \<noteq> addr x) xs = xs"
    by (rule filter_all) (rule sorted_addr_distinct [OF assms])
  then show ?thesis by (simp add: del_region_def)
qed

lemma delete_min_spec:
  assumes wf: "tree23_wf t"
  shows "\<exists>t'. tree23_delete_min t =
      Some (t', case inorder (root t) of [] \<Rightarrow> Ret_null | x # _ \<Rightarrow> Ret_item x) \<and>
    tree23_wf t' \<and> inorder (root t') = tl (inorder (root t))"
proof (cases "inorder (root t)")
  case Nil
  with wf have "root t = LEAF_LINK 0 0 None None None" "n_items t = 0"
    by (auto simp: tree23_wf_def)
  with Nil wf show ?thesis
    by (auto simp: tree23_delete_min_def delete_min_small_def)
next
  case (Cons x xs)
  with wf have m: "min_item t = addr x" and s: "sorted_addr (x # xs)"
    by (auto simp: tree23_wf_def split: list.splits)
  from tree23_delete_correct [OF wf, of "addr x"] obtain t' v r where
    d: "tree23_delete t (addr x) = Some (t', v)" "tree23_wf t'"
    "r \<in> set (inorder (root t))" "addr r = addr x" "v = Ret_item r"
    "inorder (root t') = del_region (addr x) (inorder (root t))"
    unfolding Cons by auto
  have "r = x"
  proof (rule ccontr)
    assume "r \<noteq> x"
    with d(3) Cons have "r \<in> set xs" by simp
    from sorted_addr_distinct [OF s this] d(4) show False by simp
  qed
  with d(5) have "v = Ret_item x" by simp
  then have "tree23_delete_min t = Some (t', Ret_item x)"
    by (simp only: tree23_delete_min_eq [OF wf] m d(1))
  moreover have "inorder (root t') = xs"
    by (simp only: d(6) Cons del_region_hd [OF s])
  ultimately show ?thesis using d(2) unfolding Cons by simp
qed

lemma tree23_step_refines:
  assumes wf: "tree23_wf t"
  shows "\<exists>t'. tree23_step op t = Some t' \<and> tree23_wf t' \<and>
    inorder (root t') = list_step op (inorder (root t))"
proof (cases op)
  case (Op_insert r)
  with tree23_insert_correct [OF wf, of r] show ?thesis
    by (auto simp: tree23_step_def list_step_def split: if_splits)
next
  case (Op_delete k)
  with tree23_delete_correct [OF wf, of k] show ?thesis
    by (auto simp: tree23_step_def list_step_def del_region_absent split: if_splits)
next
  case Op_delete_min
  with delete_min_spec [OF wf] show ?thesis
    by (auto simp: tree23_step_def list_step_def)
qed

lemma tree23_run_refines_from:
  "tree23_wf t \<Longrightarrow> \<exists>t'. tree23_run ops t = Some t' \<and> tree23_wf t' \<and>
     inorder (root t') = fold list_step ops (inorder (root t))"
proof (induction ops arbitrary: t)
  case (Cons op ops)
  from tree23_step_refines [OF Cons.prems, of op] obtain t' where
    "tree23_step op t = Some t'" "tree23_wf t'" "inorder (root t') = list_step op (inorder (root t))"
    by blast
  with Cons.IH [of t'] show ?case by simp
qed simp

lemma descend_path_bound:
  assumes wf: "tree23_wf t" and few: "n_items t < 2 ^ 31" and big: "n_items t > 1"
  shows "\<exists>st p. descend compare key (root t) [] = Some (st, p) \<and> length st < 30"
proof -
  obtain h where h: "node_ok h (root t)" "sorted_addr (inorder (root t))"
    using tree23_wf_big [OF wf] big by fastforce
  from descend_located [OF located_start [OF h, of key]] height_bound [OF wf few h(1)]
  show ?thesis by fastforce
qed

subsection \<open>Properties\<close>

text \<open>C4: any sequence of insertions, deletions and deletions of the minimum, started from the tree that
  \<^verbatim>\<open>tree23_alloc\<close> returns, runs without a failed assert, a null dereference or a stack that does not
  match the tree, and leaves a well-formed 2-3 tree whose regions, read from left to right, are
  those of the same sequence on a sorted list.\<close>
theorem tree23_run_refines:
  "\<exists>t. tree23_run ops (tree23_alloc compare) = Some t \<and> tree23_wf t \<and>
     inorder (root t) = fold list_step ops []"
  using tree23_run_refines_from [OF tree23_wf_alloc, of ops]
  by (simp add: tree23_alloc_def)

text \<open>Inserting into a well-formed tree keeps it well formed (all leaves at one level, every key the
  least address of the subtree at its right, \<^verbatim>\<open>n_items\<close> and \<^verbatim>\<open>min_item\<close> exact); a new address is put at its
  place in the order and NULL is returned, a known address leaves the tree as it was and
  returns something else than NULL.\<close>
theorem tree23_insert_spec:
  assumes "tree23_wf t"
  shows "\<exists>t' v. tree23_insert t r = Some (t', v) \<and> tree23_wf t' \<and>
           (if addr r \<in> addr ` set (inorder (root t)) then t' = t \<and> v \<noteq> Ret_null
            else v = Ret_null \<and> inorder (root t') = ins_region r (inorder (root t)))"
  by (rule tree23_insert_correct [OF assms])

theorem tree23_insert_spec_witness:
  "\<exists>t'. tree23_insert sample_tree (sample_region 320) = Some (t', Ret_null) \<and> tree23_wf t' \<and>
     inorder (root t') = map sample_region [128, 192, 256, 320, 384, 512]"
  using tree23_insert_spec [OF sample_tree_wf, of "sample_region 320"]
  by (simp add: sample_tree_simps ins_region_def)

text \<open>Deleting from a well-formed tree keeps it well formed; a known address is removed and its
  region returned, for an unknown one the tree is unchanged and NULL is returned.\<close>
theorem tree23_delete_spec:
  assumes "tree23_wf t"
  shows "\<exists>t' v. tree23_delete t k = Some (t', v) \<and> tree23_wf t' \<and>
           (if k \<in> addr ` set (inorder (root t))
            then (\<exists>r\<in>set (inorder (root t)). addr r = k \<and> v = Ret_item r) \<and>
                 inorder (root t') = del_region k (inorder (root t))
            else t' = t \<and> v = Ret_null)"
  by (rule tree23_delete_correct [OF assms])

theorem tree23_delete_spec_witness:
  "\<exists>t'. tree23_delete sample_tree 192 = Some (t', Ret_item (sample_region 192)) \<and> tree23_wf t' \<and>
     inorder (root t') = map sample_region [128, 256, 384, 512]"
  using tree23_delete_spec [OF sample_tree_wf, of 192]
  by (auto simp: sample_tree_simps del_region_def)

text \<open>\<^verbatim>\<open>tree23_delete_min\<close> removes and returns the region of least address, keeping the tree well
  formed, and returns NULL on the empty tree.\<close>
theorem tree23_delete_min_spec:
  assumes "tree23_wf t"
  shows "\<exists>t'. tree23_delete_min t =
      Some (t', case inorder (root t) of [] \<Rightarrow> Ret_null | x # _ \<Rightarrow> Ret_item x) \<and>
    tree23_wf t' \<and> inorder (root t') = tl (inorder (root t))"
  by (rule delete_min_spec [OF assms])

theorem tree23_delete_min_spec_witness:
  "\<exists>t'. tree23_delete_min sample_tree = Some (t', Ret_item (sample_region 128)) \<and> tree23_wf t' \<and>
     inorder (root t') = map sample_region [192, 256, 384, 512]"
  using tree23_delete_min_spec [OF sample_tree_wf] by (simp add: sample_tree_simps)

text \<open>\<^verbatim>\<open>tree23_find\<close> is a floor search: it returns the region of the greatest address that is not
  above the key, and NULL exactly when every address is above the key.\<close>
theorem tree23_find_floor:
  assumes "tree23_wf t"
  shows "\<exists>v. tree23_find t key = Some v \<and>
    (case v of
       None \<Rightarrow> (\<forall>x\<in>set (inorder (root t)). key < addr x)
     | Some r \<Rightarrow> r \<in> set (inorder (root t)) \<and> addr r \<le> key \<and>
         (\<forall>x\<in>set (inorder (root t)). addr x \<le> key \<longrightarrow> addr x \<le> addr r))"
  by (rule tree23_find_correct [OF assms])

theorem tree23_find_floor_witness:
  "tree23_find sample_tree 300 = Some (Some (sample_region 256)) \<and>
   (\<exists>v. tree23_find sample_tree 300 = Some v \<and> v \<noteq> None)"
proof
  show "tree23_find sample_tree 300 = Some (Some (sample_region 256))"
    by (simp add: sample_tree_def tree23_find_def compare_def)
  show "\<exists>v. tree23_find sample_tree 300 = Some v \<and> v \<noteq> None"
    using tree23_find_floor [OF sample_tree_wf, of 300]
    by (auto simp: sample_tree_simps split: option.splits)
qed

text \<open>\<^verbatim>\<open>tree23_free\<close> hands every region of the tree to the deallocator exactly once, and on a tree
  whose item count fits the 32-bit \<^verbatim>\<open>n_items\<close> its stack never holds more than the 2000 entries it
  has room for.\<close>
theorem tree23_free_once:
  assumes "tree23_wf t" and "n_items t < 2 ^ 31"
  shows "mset (fst (tree23_free t)) = mset (inorder (root t)) \<and> snd (snd (tree23_free t)) < 2000"
  by (rule tree23_free_correct [OF assms])

theorem tree23_free_once_witness:
  "mset (fst (tree23_free sample_tree)) = mset (map sample_region [128, 192, 256, 384, 512]) \<and>
   snd (snd (tree23_free sample_tree)) < 2000"
  using tree23_free_once [OF sample_tree_wf] by (simp add: sample_tree_simps)

text \<open>the path from the root that insertion, deletion and search push on their stack is shorter than
  the \<^verbatim>\<open>TREE23_STACK_SIZE\<close> of 1000 entries, for every tree whose item count fits the 32-bit \<^verbatim>\<open>n_items\<close>.\<close>
theorem tree23_path_fits:
  assumes "tree23_wf t" and "n_items t < 2 ^ 31" and "n_items t > 1"
  shows "\<exists>st p. descend compare key (root t) [] = Some (st, p) \<and> length st < 30"
  by (rule descend_path_bound [OF assms])

theorem tree23_path_fits_witness:
  "\<exists>st p. descend compare 300 (root sample_tree) [] = Some (st, p) \<and> length st < 30"
  using tree23_path_fits [OF sample_tree_wf, of 300] by (simp add: sample_tree_simps)

end
