(* ===== verification/Approx_Contract.thy ===== *)
theory Approx_Contract imports Tree23_Contract begin

text \<open>
  The contract of the approximable regions: which cache lines \<^verbatim>\<open>Cache::isApprox\<close> calls
  approximate after the simulated program has registered and deregistered regions. The statements
  about the dictionary are those of the locale \<open>approx_dict\<close> at the 2-3 tree.
\<close>

subsection \<open>The line arithmetic of RegisterApproxRegion\<close>

lemma unat_line_size: "lb < 32 \<Longrightarrow> unat (ucast (2 ^ lb :: u32) :: u64) = 2 ^ lb"
  by (simp only: unat_widen unat_pow2 len_num1 len_num0 len_bit0 len_bit1)

lemma floor_mult_le:
  "0 < L \<Longrightarrow> m * L < (n div L) * L \<longleftrightarrow> m * L + L \<le> (n::nat)"
proof -
  assume "0 < L"
  then have "m * L < (n div L) * L \<longleftrightarrow> Suc m \<le> n div L" by auto
  also have "\<dots> \<longleftrightarrow> Suc m * L \<le> n" using \<open>0 < L\<close> by (simp only: less_eq_div_iff_mult_less_eq)
  finally show ?thesis by (simp add: add.commute)
qed

lemma ceil_mult_le:
  assumes "0 < L" and "0 < n"
  shows "((n - 1) div L) * L + L \<le> m * L \<longleftrightarrow> (n::nat) \<le> m * L"
proof -
  have "((n - 1) div L) * L + L \<le> m * L \<longleftrightarrow> Suc ((n - 1) div L) \<le> m"
    using mult_le_cancel2 [of "Suc ((n - 1) div L)" L m] assms(1) by (simp add: add.commute)
  also have "\<dots> \<longleftrightarrow> (n - 1) div L < m" by auto
  also have "\<dots> \<longleftrightarrow> n - 1 < m * L" using assms(1) by (simp add: div_less_iff_less_mult)
  finally show ?thesis using assms(2) by linarith
qed

lemma unat_div_mult:
  assumes "lb < 32"
  shows "unat (drop_bit lb x * ucast (2 ^ lb :: u32) :: u64) = unat x div 2 ^ lb * 2 ^ lb"
proof -
  have "unat x div 2 ^ lb * 2 ^ lb \<le> unat x" by simp
  also have "\<dots> < 2 ^ 64" using unsigned_less [of x] by simp
  finally have "unat (drop_bit lb x) * unat (ucast (2 ^ lb :: u32) :: u64) < 2 ^ LENGTH(64)"
    by (simp only: unat_line_size [OF assms] unat_shift_right) simp
  then show ?thesis
    by (simp only: unat_mult_small unat_line_size [OF assms] unat_shift_right)
qed

lemma make_region_start:
  assumes lb: "lb < 32" and pos: "0 < base" and fit: "unat base + 2 ^ lb \<le> 2 ^ 64"
  shows "unat (addr_start (make_region lb (2 ^ lb) base n ty)) = (unat base - 1) div 2 ^ lb * 2 ^ lb + 2 ^ lb"
proof -
  let ?a = "drop_bit lb (base - 1) * ucast (2 ^ lb :: u32) :: u64"
  have b1: "unat (base - 1) = unat base - 1"
    using pos unat_minus_one [of base] by (simp add: word_gt_0)
  have a: "unat ?a = (unat base - 1) div 2 ^ lb * 2 ^ lb"
    by (simp only: unat_div_mult [OF lb] b1)
  have "unat ?a \<le> unat base - 1" unfolding a by simp
  moreover have "0 < unat base" using pos by (simp add: unat_gt_0)
  ultimately have "unat ?a + unat (ucast (2 ^ lb :: u32) :: u64) < 2 ^ LENGTH(64)"
    using fit by (simp add: unat_line_size [OF lb])
  from unat_add_small [OF this] show ?thesis
    by (simp add: make_region_def a unat_line_size [OF lb])
qed

lemma make_region_end:
  assumes lb: "lb < 32" and fit: "unat base + unat n < 2 ^ 64"
  shows "unat (addr_end (make_region lb (2 ^ lb) base n ty)) = (unat base + unat n) div 2 ^ lb * 2 ^ lb"
proof -
  have "unat (ucast n :: u64) = unat n" by (simp add: unat_widen)
  then have "unat (base + ucast n) = unat base + unat n" using fit by (simp add: unat_word_ariths)
  then show ?thesis by (simp add: make_region_def unat_div_mult [OF lb])
qed

lemma unat_line_address:
  assumes "lb < 32" and "unat la * 2 ^ lb < 2 ^ 64"
  shows "unat (push_bit lb la :: u64) = unat la * 2 ^ lb"
proof -
  have "push_bit lb la = la * 2 ^ lb" by (rule push_bit_eq_mult)
  with unat_mult_small [of la "2 ^ lb"] assms show ?thesis by (simp add: unat_pow2)
qed

lemma make_region_lines:
  assumes lb: "lb < 32" and pos: "0 < base" and top: "unat base + 2 ^ lb \<le> 2 ^ 64"
    and fit: "unat base + unat n < 2 ^ 64" and line: "unat la * 2 ^ lb < 2 ^ 64"
  shows "addr_start (make_region lb (2 ^ lb) base n ty) \<le> push_bit lb la \<and>
         push_bit lb la < addr_end (make_region lb (2 ^ lb) base n ty) \<longleftrightarrow>
         unat base \<le> unat la * 2 ^ lb \<and> unat la * 2 ^ lb + 2 ^ lb \<le> unat base + unat n"
proof -
  have p2: "(0::nat) < 2 ^ lb" by simp
  have "0 < unat base" using pos by (simp add: unat_gt_0)
  then show ?thesis
    unfolding word_le_nat_alt word_less_nat_alt make_region_start [OF lb pos top]
      make_region_end [OF lb fit] unat_line_address [OF lb line]
    by (simp only: ceil_mult_le [OF p2] floor_mult_le [OF p2])
qed

subsection \<open>Which lines are approximate\<close>

definition regions_disjoint :: "tree23_t \<Rightarrow> bool" where
  "regions_disjoint t \<longleftrightarrow>
     (\<forall>r\<in>set (inorder (root t)). \<forall>s\<in>set (inorder (root t)). addr r < addr s \<longrightarrow> addr_end r \<le> addr s) \<and>
     (\<forall>r\<in>set (inorder (root t)). addr r \<le> addr_start r \<and> approx_type r \<noteq> No_approx)"

lemma separated_disjoint:
  assumes "tree23_wf t"
  shows "tree_dict.separated t \<longleftrightarrow> regions_disjoint t"
proof -
  have iff: "\<And>a r. region_map t a = Some r \<longleftrightarrow> r \<in> set (inorder (root t)) \<and> addr r = a"
    by (rule region_map_iff [OF assms])
  show ?thesis unfolding tree_dict.separated_def regions_disjoint_def iff by blast
qed

lemma isApprox_disjoint:
  assumes "tree23_wf t" and "regions_disjoint t"
  shows "isApprox approxInfo lb t la =
    Some (\<exists>r\<in>set (inorder (root t)). addr_start r \<le> push_bit lb la \<and> push_bit lb la < addr_end r)"
proof -
  have iff: "\<And>a r. region_map t a = Some r \<longleftrightarrow> r \<in> set (inorder (root t)) \<and> addr r = a"
    by (rule region_map_iff [OF assms(1)])
  have "tree_dict.separated t" using assms separated_disjoint by blast
  from tree_dict.isApprox_iff [OF assms(1) this, of lb la] show ?thesis unfolding iff by auto
qed

lemma inorder_map_ext:
  assumes "tree23_wf t" "tree23_wf t'"
    and "region_map t' = (if region_map t a = None then (region_map t)(a \<mapsto> r) else region_map t)"
    and "addr r = a"
  shows "set (inorder (root t')) =
    (if a \<in> addr ` set (inorder (root t)) then set (inorder (root t)) else insert r (set (inorder (root t))))"
proof -
  have 1: "\<And>b s. s \<in> set (inorder (root t')) \<and> addr s = b \<longleftrightarrow> region_map t' b = Some s"
    using region_map_iff [OF assms(2)] by blast
  have 2: "\<And>b s. region_map t b = Some s \<longleftrightarrow> s \<in> set (inorder (root t)) \<and> addr s = b"
    by (rule region_map_iff [OF assms(1)])
  have new: "s \<in> set (inorder (root t')) \<longleftrightarrow> region_map t' (addr s) = Some s" for s
    using 1 by blast
  have old: "s \<in> set (inorder (root t)) \<longleftrightarrow> region_map t (addr s) = Some s" for s
    using 2 by blast
  show ?thesis
  proof (cases "a \<in> addr ` set (inorder (root t))")
    case True
    then have "region_map t' = region_map t" using assms(3) region_map_None [of t a] by simp
    with True new old show ?thesis by auto
  next
    case False
    then have "region_map t' = (region_map t)(a \<mapsto> r)" using assms(3) region_map_None [of t a] by simp
    then have up: "region_map t' (addr s) = (if addr s = a then Some r else region_map t (addr s))" for s
      by simp
    have "s \<in> set (inorder (root t')) \<longleftrightarrow> s = r \<or> s \<in> set (inorder (root t))" for s
    proof (cases "addr s = a")
      case True
      then have "s \<notin> set (inorder (root t))" using \<open>a \<notin> addr ` set (inorder (root t))\<close> by blast
      moreover have "s \<in> set (inorder (root t')) \<longleftrightarrow> s = r" using True by (auto simp: new up)
      ultimately show ?thesis by blast
    next
      case False
      then have "s \<noteq> r" using assms(4) by blast
      with False show ?thesis by (simp add: new old up)
    qed
    with False show ?thesis by auto
  qed
qed

lemma register_set:
  assumes wf: "tree23_wf t" and ty: "region_type dataType = Some e"
  shows "\<exists>t'. RegisterApproxRegion approxInfo lb ls t base n dataType = Some t' \<and> tree23_wf t' \<and>
    set (inorder (root t')) =
      (if base \<in> addr ` set (inorder (root t)) then set (inorder (root t))
       else insert (make_region lb ls base n e) (set (inorder (root t))))"
proof -
  obtain t' where t': "RegisterApproxRegion approxInfo lb ls t base n dataType = Some t'" "tree23_wf t'"
    "region_map t' = (if region_map t base = None then (region_map t)(base \<mapsto> make_region lb ls base n e)
       else region_map t)"
    using tree_dict.register_regions [OF assms, of lb ls base n] by blast
  have "addr (make_region lb ls base n e) = base" by (simp add: make_region_def)
  from inorder_map_ext [OF wf t'(2,3) this] t' show ?thesis by blast
qed

lemma del_ins_region:
  assumes "sorted_addr xs" and "addr r \<notin> addr ` set xs"
  shows "del_region (addr r) (ins_region r xs) = xs"
proof -
  have "filter (\<lambda>x. addr x < addr r) xs @ filter (\<lambda>x. addr r < addr x) xs = xs"
    using assms
  proof (induction xs)
    case (Cons x xs)
    then have "addr x < addr r \<or> addr r < addr x" by force
    moreover have "addr r < addr x \<Longrightarrow> filter (\<lambda>x. addr x < addr r) xs = []"
      using Cons.prems(1) by (intro filter_none) (simp, metis less_asym less_trans)
    ultimately show ?case using Cons by (auto simp: less_asym)
  qed simp
  moreover have "del_region (addr r) (filter (\<lambda>x. addr x < addr r) xs) = filter (\<lambda>x. addr x < addr r) xs"
    "del_region (addr r) (filter (\<lambda>x. addr r < addr x) xs) = filter (\<lambda>x. addr r < addr x) xs"
    by (auto intro!: del_region_absent)
  moreover have "del_region (addr r) (r # ys) = del_region (addr r) ys" for ys
    by (simp add: del_region_def)
  ultimately show ?thesis by (simp add: ins_region_def)
qed

lemma register_list:
  assumes wf: "tree23_wf t" and ty: "region_type dataType = Some e"
    and new: "base \<notin> addr ` set (inorder (root t))"
  shows "\<exists>t'. RegisterApproxRegion approxInfo lb ls t base n dataType = Some t' \<and> tree23_wf t' \<and>
    inorder (root t') = ins_region (make_region lb ls base n e) (inorder (root t))"
proof -
  have a: "addr (make_region lb ls base n e) = base" by (simp add: make_region_def)
  from tree23_insert_correct [OF wf, of "make_region lb ls base n e"] new ty show ?thesis
    unfolding a by (auto simp: RegisterApproxRegion_def approxInfo_def)
qed

lemma register_deregister_list:
  assumes wf: "tree23_wf t" and ty: "region_type dataType = Some e"
    and new: "base \<notin> addr ` set (inorder (root t))"
  shows "\<exists>t1 t2. RegisterApproxRegion approxInfo lb ls t base n dataType = Some t1 \<and>
    DeregisterApproxRegion approxInfo t1 base = Some (t2, Ret_item (make_region lb ls base n e)) \<and>
    tree23_wf t2 \<and> inorder (root t2) = inorder (root t)"
proof -
  let ?r = "make_region lb ls base n e"
  have a: "addr ?r = base" by (simp add: make_region_def)
  obtain t1 where t1: "RegisterApproxRegion approxInfo lb ls t base n dataType = Some t1" "tree23_wf t1"
    "inorder (root t1) = ins_region ?r (inorder (root t))"
    using register_list [OF assms] by blast
  have mem: "set (inorder (root t1)) = insert ?r (set (inorder (root t)))"
    unfolding t1(3) by (rule set_ins_region) (simp only: a new not_False_eq_True)
  then have known: "base \<in> addr ` set (inorder (root t1))" using a by force
  from tree23_delete_correct [OF t1(2), of base] known obtain t2 r where
    d: "tree23_delete t1 base = Some (t2, Ret_item r)" "tree23_wf t2"
    "r \<in> set (inorder (root t1))" "addr r = base"
    "inorder (root t2) = del_region base (inorder (root t1))"
    by (auto simp only: if_True)
  have "r = ?r" using d(3,4) new unfolding mem by blast
  moreover have "inorder (root t2) = inorder (root t)"
  proof -
    have "sorted_addr (inorder (root t))" using wf by (simp add: tree23_wf_def)
    from del_ins_region [OF this, of ?r] show ?thesis unfolding d(5) t1(3) a using new by blast
  qed
  ultimately show ?thesis using t1(1) d(1,2) by (auto simp: DeregisterApproxRegion_def approxInfo_def)
qed

lemma register_disjoint:
  assumes dis: "regions_disjoint t" and e: "e \<noteq> No_approx"
    and lb: "lb < 32" and pos: "0 < base" and top: "unat base + 2 ^ lb \<le> 2 ^ 64"
    and fit: "unat base + unat n < 2 ^ 64"
    and apart: "\<forall>s\<in>set (inorder (root t)). (addr s < base \<longrightarrow> addr_end s \<le> base) \<and>
                 (base \<le> addr s \<longrightarrow> unat base + unat n \<le> unat (addr s))"
    and set: "set (inorder (root t')) = insert (make_region lb (2 ^ lb) base n e) (set (inorder (root t)))"
  shows "regions_disjoint t'"
proof -
  let ?r = "make_region lb (2 ^ lb) base n e"
  have r: "addr ?r = base" "approx_type ?r = e" by (simp_all add: make_region_def)
  have end_le: "unat (addr_end ?r) \<le> unat base + unat n" by (simp add: make_region_end [OF lb fit])
  have e1: "addr_end ?r \<le> addr s" if s: "s \<in> set (inorder (root t))" "base < addr s" for s
  proof -
    have "unat base + unat n \<le> unat (addr s)" using apart s less_imp_le by blast
    with end_le show ?thesis by (simp add: word_le_nat_alt)
  qed
  have "unat base \<le> unat (addr_start ?r)"
    unfolding make_region_start [OF lb pos top]
    using div_mult_mod_eq [of "unat base - 1" "2 ^ lb"] mod_less_divisor [of "2 ^ lb" "unat base - 1"]
      zero_less_power [of "2::nat" lb] by linarith
  then have s1: "base \<le> addr_start ?r" by (simp add: word_le_nat_alt)
  show ?thesis
    unfolding regions_disjoint_def set
    using dis apart e1 s1 e by (simp add: regions_disjoint_def r)
qed

subsection \<open>Properties\<close>

text \<open>the region that \<^verbatim>\<open>RegisterApproxRegion\<close> stores for the bytes [base, base + n) covers a cache line
  exactly when the whole line lies inside those bytes: its start is rounded up and its end rounded
  down to a line boundary. Lines are of \<^verbatim>\<open>2^lineBits\<close> bytes and nothing wraps around.\<close>
theorem registered_region_lines:
  assumes "lb < 32" and "0 < base" and "unat base + 2 ^ lb \<le> 2 ^ 64"
    and "unat base + unat n < 2 ^ 64" and "unat la * 2 ^ lb < 2 ^ 64"
  shows "addr_start (make_region lb (2 ^ lb) base n ty) \<le> push_bit lb la \<and>
         push_bit lb la < addr_end (make_region lb (2 ^ lb) base n ty) \<longleftrightarrow>
         unat base \<le> unat la * 2 ^ lb \<and> unat la * 2 ^ lb + 2 ^ lb \<le> unat base + unat n"
  by (rule make_region_lines [OF assms])

theorem registered_region_lines_witness:
  "addr_start (make_region 6 64 100 200 Approx_fp) \<le> push_bit 6 (2::u64) \<and>
   push_bit 6 (2::u64) < addr_end (make_region 6 64 100 200 Approx_fp)"
  using registered_region_lines [of 6 100 200 2 Approx_fp] by simp

text \<open>C5: \<^verbatim>\<open>Cache::isApprox\<close> is exact on registered regions that do not overlap: it never fails, and a line is
  approximate exactly when it lies between the line boundaries of some registered region, although
  the tree is asked for one region only, that of the greatest base not above the line.\<close>
theorem isApprox_exact:
  assumes "tree23_wf t" and "regions_disjoint t"
  shows "isApprox approxInfo lb t la =
    Some (\<exists>r\<in>set (inorder (root t)). addr_start r \<le> push_bit lb la \<and> push_bit lb la < addr_end r)"
  by (rule isApprox_disjoint [OF assms])

lemma sample_tree_disjoint: "regions_disjoint sample_tree"
  by (simp add: regions_disjoint_def sample_tree_simps)

theorem isApprox_exact_witness:
  "isApprox approxInfo 6 sample_tree 4 = Some True \<and> isApprox approxInfo 6 sample_tree 5 = Some False"
  using isApprox_exact [OF sample_tree_wf sample_tree_disjoint, of 6 4]
    isApprox_exact [OF sample_tree_wf sample_tree_disjoint, of 6 5]
  by (simp add: sample_tree_simps)

text \<open>C6: registering bytes that are apart from every registered region, with a known element type, makes
  exactly the lines inside those bytes approximate in addition to the lines that were, and the
  regions stay apart, so the next registration can rely on it.\<close>
theorem register_marks_lines:
  assumes "tree23_wf t" and "regions_disjoint t" and "region_type dataType = Some e" and "e \<noteq> No_approx"
    and "base \<notin> addr ` set (inorder (root t))"
    and "lb < 32" and "0 < base" and "unat base + 2 ^ lb \<le> 2 ^ 64" and "unat base + unat n < 2 ^ 64"
    and "\<forall>s\<in>set (inorder (root t)). (addr s < base \<longrightarrow> addr_end s \<le> base) \<and>
                 (base \<le> addr s \<longrightarrow> unat base + unat n \<le> unat (addr s))"
    and "unat la * 2 ^ lb < 2 ^ 64"
  shows "\<exists>t' old. RegisterApproxRegion approxInfo lb (2 ^ lb) t base n dataType = Some t' \<and>
    tree23_wf t' \<and> regions_disjoint t' \<and>
    isApprox approxInfo lb t la = Some old \<and>
    isApprox approxInfo lb t' la =
      Some ((unat base \<le> unat la * 2 ^ lb \<and> unat la * 2 ^ lb + 2 ^ lb \<le> unat base + unat n) \<or> old)"
proof -
  let ?r = "make_region lb (2 ^ lb) base n e"
  obtain t' where t': "RegisterApproxRegion approxInfo lb (2 ^ lb) t base n dataType = Some t'"
    "tree23_wf t'" and "set (inorder (root t')) = (if base \<in> addr ` set (inorder (root t))
       then set (inorder (root t)) else insert ?r (set (inorder (root t))))"
    using register_set [OF assms(1,3)] by blast
  with assms(5) have set: "set (inorder (root t')) = insert ?r (set (inorder (root t)))" by simp
  have dis: "regions_disjoint t'"
    by (rule register_disjoint [OF assms(2,4,6,7,8,9,10) set])
  show ?thesis
    using t' dis by (simp add: isApprox_disjoint [OF t'(2) dis] isApprox_disjoint [OF assms(1,2)] set
      make_region_lines [OF assms(6,7,8,9,11)])
qed

theorem register_marks_lines_witness:
  "\<exists>t'. RegisterApproxRegion approxInfo 6 64 sample_tree 1000 300 ''const float*'' = Some t' \<and>
     isApprox approxInfo 6 t' 16 = Some True"
proof -
  have ty: "region_type ''const float*'' = Some Approx_fp" by (simp add: region_type_def)
  have apart: "\<forall>s\<in>set (inorder (root sample_tree)). (addr s < 1000 \<longrightarrow> addr_end s \<le> 1000) \<and>
     (1000 \<le> addr s \<longrightarrow> unat (1000::u64) + unat (300::u32) \<le> unat (addr s))"
    by (simp add: sample_tree_simps)
  from register_marks_lines [OF sample_tree_wf sample_tree_disjoint ty _ _ _ _ _ _ apart, of 6 16]
  show ?thesis by (force simp: sample_tree_simps)
qed

text \<open>C30: deregistering the base address of a region just registered returns that region for the caller
  to free and leaves the regions as they were before.\<close>
theorem register_deregister:
  assumes "tree23_wf t" and "region_type dataType = Some e" and "base \<notin> addr ` set (inorder (root t))"
  shows "\<exists>t1 t2. RegisterApproxRegion approxInfo lb ls t base n dataType = Some t1 \<and>
    DeregisterApproxRegion approxInfo t1 base = Some (t2, Ret_item (make_region lb ls base n e)) \<and>
    tree23_wf t2 \<and> inorder (root t2) = inorder (root t)"
  by (rule register_deregister_list [OF assms])

theorem register_deregister_witness:
  "\<exists>t1 t2. RegisterApproxRegion approxInfo 6 64 sample_tree 1000 300 ''int'' = Some t1 \<and>
    DeregisterApproxRegion approxInfo t1 1000 = Some (t2, Ret_item (make_region 6 64 1000 300 Approx_uint)) \<and>
    inorder (root t2) = inorder (root sample_tree)"
proof -
  have ty: "region_type ''int'' = Some Approx_uint" by (simp add: region_type_def)
  from register_deregister [OF sample_tree_wf ty, of 1000 6 64 300] show ?thesis
    by (force simp: sample_tree_simps)
qed

text \<open>C31: nested regions defeat the floor search: let a region cover a cache line, and let new bytes before the
  line be registered with no other registered region between the start of these bytes and the line, for
  instance inside the covering region. Then the line is no longer approximate, although the region that
  covers it stays registered: only the region with the greatest base not above the line is looked at.\<close>
theorem nested_regions_missed:
  assumes "tree23_wf t" and "r \<in> set (inorder (root t))" and "addr_start r \<le> push_bit lb la \<and> push_bit lb la < addr_end r"
    and "region_type dataType = Some e" and "base \<notin> addr ` set (inorder (root t))"
    and "lb < 32" and "0 < base" and "unat la * 2 ^ lb < 2 ^ 64" and "unat base + unat n \<le> unat la * 2 ^ lb"
    and "\<forall>s\<in>set (inorder (root t)). base < addr s \<longrightarrow> push_bit lb la < addr s"
  shows "\<exists>t'. RegisterApproxRegion approxInfo lb (2 ^ lb) t base n dataType = Some t' \<and> tree23_wf t' \<and>
    r \<in> set (inorder (root t')) \<and> isApprox approxInfo lb t' la = Some False"
proof -
  let ?new = "make_region lb (2 ^ lb) base n e" and ?K = "push_bit lb la"
  have new: "addr ?new = base" by (simp add: make_region_def)
  obtain t' where t': "RegisterApproxRegion approxInfo lb (2 ^ lb) t base n dataType = Some t'" "tree23_wf t'"
    "set (inorder (root t')) = insert ?new (set (inorder (root t)))"
    using register_set [OF assms(1,4), of lb "2 ^ lb" base n] assms(5) by auto
  have K: "unat ?K = unat la * 2 ^ lb" by (rule unat_line_address [OF assms(6,8)])
  then have base: "base \<le> ?K" using assms(9) by (simp add: word_le_nat_alt)
  obtain v where v: "tree23_find t' ?K = Some v" "case v of
       None \<Rightarrow> (\<forall>x\<in>set (inorder (root t')). ?K < addr x)
     | Some s \<Rightarrow> s \<in> set (inorder (root t')) \<and> addr s \<le> ?K \<and> (\<forall>x\<in>set (inorder (root t')). addr x \<le> ?K \<longrightarrow> addr x \<le> addr s)"
    using tree23_find_correct [OF t'(2), of ?K] by blast
  have "v = Some ?new"
  proof (cases v)
    case None
    with v(2) base show ?thesis by (simp add: t'(3) new) (meson leD)
  next
    case (Some s)
    with v(2) base have s: "s = ?new \<or> s \<in> set (inorder (root t))" "addr s \<le> ?K" "base \<le> addr s" by (auto simp: t'(3) new)
    have "s = ?new"
    proof (rule ccontr)
      assume "s \<noteq> ?new"
      then have m: "s \<in> set (inorder (root t))" using s(1) by blast
      with assms(5) s(3) have "base < addr s" by (metis image_eqI order_le_less)
      with assms(10) m s(2) show False by (meson leD)
    qed
    with Some show ?thesis by simp
  qed
  moreover have "\<not> ?K < addr_end ?new"
  proof -
    have "unat base + unat n < 2 ^ 64" using assms(8,9) by simp
    from make_region_end [OF assms(6) this, of e] have "unat (addr_end ?new) \<le> unat base + unat n" by simp
    with assms(9) K show ?thesis by (simp add: word_less_nat_alt)
  qed
  ultimately have "isApprox approxInfo lb t' la = Some False"
    using v(1) by (simp add: isApprox_def find_approx_type_def approxInfo_def)
  with t' assms(2) show ?thesis by blast
qed

theorem nested_regions_missed_witness:
  "\<exists>t1 t2. RegisterApproxRegion approxInfo 6 64 (tree23_alloc compare) 1024 1024 ''float'' = Some t1 \<and>
     RegisterApproxRegion approxInfo 6 64 t1 1152 64 ''float'' = Some t2 \<and>
     isApprox approxInfo 6 t1 20 = Some True \<and> isApprox approxInfo 6 t2 20 = Some False"
proof -
  let ?r = "make_region 6 64 1024 1024 Approx_fp"
  have ty: "region_type ''float'' = Some Approx_fp" by (simp add: region_type_def)
  have none: "inorder (root (tree23_alloc compare)) = []" by (simp add: tree23_alloc_def)
  obtain t1 where t1: "RegisterApproxRegion approxInfo 6 64 (tree23_alloc compare) 1024 1024 ''float'' = Some t1" "tree23_wf t1"
    "inorder (root t1) = [?r]"
    using register_list [OF tree23_wf_alloc ty, of 1024 6 64 1024] by (auto simp: none ins_region_def)
  have r: "addr_start ?r = 1024" "addr_end ?r = 2048" "addr ?r = 1024" "approx_type ?r \<noteq> No_approx" by (simp_all add: make_region_def)
  have "regions_disjoint t1" by (simp add: regions_disjoint_def t1(3) r)
  from isApprox_disjoint [OF t1(2) this, of 6 20] have "isApprox approxInfo 6 t1 20 = Some True" by (simp add: t1(3) r)
  moreover have "\<exists>t2. RegisterApproxRegion approxInfo 6 (2 ^ 6) t1 1152 64 ''float'' = Some t2 \<and> isApprox approxInfo 6 t2 20 = Some False"
    using nested_regions_missed [OF t1(2) _ _ ty, of ?r 6 20 1152 64] by (auto simp: t1(3) r)
  ultimately show ?thesis using t1(1) by auto
qed

end
