(* ===== verification/Hash_Family.thy ===== *)
theory Hash_Family imports Prelude begin

text \<open>
  Hash families of \<^verbatim>\<open>zsim/src/hash.h\<close> and \<^verbatim>\<open>hash.cpp\<close>: the H3 family and the identity. The random
  number generator that fills the H3 matrix is a parameter, a function that draws a word and
  returns the next state of the generator. A hash family is seen by its clients as the function
  \<open>hash fid val\<close>.
\<close>

type_synonym hash_fn = "u32 \<Rightarrow> u64 \<Rightarrow> u64 option"

record H3HashFamily =
  numFuncs :: u32
  resShift :: nat
  hMatrix :: "u64 list"

fun h3_word :: "('s \<Rightarrow> u32 \<times> 's) \<Rightarrow> nat \<Rightarrow> u64 \<Rightarrow> 's \<Rightarrow> u64 \<times> 's" where
  "h3_word randInt 0 val s = (val, s)"
| "h3_word randInt (Suc n) val s =
     (let (r, s') = randInt s; v = push_bit 1 val
      in h3_word randInt n (if r mod 2 = 0 then v + 1 else v) s')"

fun h3_fill :: "('s \<Rightarrow> u32 \<times> 's) \<Rightarrow> nat \<Rightarrow> 's \<Rightarrow> u64 list" where
  "h3_fill randInt 0 s = []"
| "h3_fill randInt (Suc n) s = (let (v, s') = h3_word randInt 64 0 s in v # h3_fill randInt n s')"

definition h3_resShift :: "u32 \<Rightarrow> nat option" where
  "h3_resShift outputBits =
     (if outputBits \<le> 8 then Some 3
      else if outputBits \<le> 16 then Some 2
      else if outputBits \<le> 32 then Some 1
      else if outputBits \<le> 64 then Some 0
      else None)"

definition h3_new :: "('s \<Rightarrow> u32 \<times> 's) \<Rightarrow> 's \<Rightarrow> u32 \<Rightarrow> u32 \<Rightarrow> H3HashFamily option" where
  "h3_new randInt rnd numFunctions outputBits = do {
     s \<leftarrow> h3_resShift outputBits;
     let words = (drop_bit s 64 :: u32);
     Some \<lparr>numFuncs = numFunctions, resShift = s,
           hMatrix = h3_fill randInt (unat (words * numFunctions)) rnd\<rparr>
   }"

definition rotate_left :: "nat \<Rightarrow> u64 \<Rightarrow> u64" where
  "rotate_left k r = push_bit k r OR drop_bit (64 - k) r"

definition h3_block :: "u64 list \<Rightarrow> nat \<Rightarrow> u64 \<Rightarrow> u64 \<Rightarrow> u64 option" where
  "h3_block m base val res = do {
     h0 \<leftarrow> read_at m base;
     h1 \<leftarrow> read_at m (base + 1);
     h2 \<leftarrow> read_at m (base + 2);
     h3 \<leftarrow> read_at m (base + 3);
     h4 \<leftarrow> read_at m (base + 4);
     h5 \<leftarrow> read_at m (base + 5);
     h6 \<leftarrow> read_at m (base + 6);
     h7 \<leftarrow> read_at m (base + 7);
     let res = res XOR ((val AND h0) XOR rotate_left 1 (val AND h1) XOR rotate_left 2 (val AND h2)
                 XOR rotate_left 3 (val AND h3));
     let res = res XOR (rotate_left 4 (val AND h4) XOR rotate_left 5 (val AND h5)
                 XOR rotate_left 6 (val AND h6) XOR rotate_left 7 (val AND h7));
     Some (rotate_left 8 res)
   }"

fun h3_loop :: "u64 list \<Rightarrow> u32 \<Rightarrow> u64 \<Rightarrow> u32 list \<Rightarrow> u64 \<Rightarrow> u64 option" where
  "h3_loop m start val [] res = Some res"
| "h3_loop m start val (x # xs) res = do {
     res' \<leftarrow> h3_block m (unat (start + x)) val res;
     h3_loop m start val xs res'
   }"

definition h3_fold :: "nat \<Rightarrow> u64 \<Rightarrow> u64" where
  "h3_fold s res =
     (if s = 0 then res
      else if s = 1 then drop_bit 32 res XOR res
      else if s = 2 then
        (let res = drop_bit 32 res XOR res in drop_bit 16 res XOR res)
      else
        (let res = drop_bit 32 res XOR res; res = drop_bit 16 res XOR res
         in drop_bit 8 res XOR res))"

definition h3_hash :: "H3HashFamily \<Rightarrow> hash_fn" where
  "h3_hash H fid val = do {
     assert_that (fid < numFuncs H);
     let maxBits = 64 div 2 ^ resShift H;
     res \<leftarrow> h3_loop (hMatrix H) (push_bit (6 - resShift H) fid) val
              (map (\<lambda>i. of_nat (8 * i)) [0..<maxBits div 8]) 0;
     Some (h3_fold (resShift H) res)
   }"

definition id_hash :: hash_fn where
  "id_hash fid val = Some val"

text \<open>The code the comment above \<^verbatim>\<open>H3HashFamily::hash\<close> gives for reference (64 bits of output).\<close>

fun h3_reference :: "u64 list \<Rightarrow> nat \<Rightarrow> u64 \<Rightarrow> nat \<Rightarrow> u64 \<Rightarrow> u64 option" where
  "h3_reference m base val 0 res = Some res"
| "h3_reference m base val (Suc n) res = do {
     h \<leftarrow> read_at m base;
     h3_reference m (Suc base) val n (rotate_left 1 (res XOR (val AND h)))
   }"

subsection \<open>Linearity\<close>

lemma rotate_left_xor: "k < 64 \<Longrightarrow> rotate_left k (a XOR b) = rotate_left k a XOR rotate_left k b"
  by (rule bit_eqI) (auto simp: rotate_left_def bit_simps dest: bit_imp_le_length)

lemma xor_swap: "(a XOR b) XOR (c XOR d) = (a XOR c) XOR (b XOR (d :: u64))"
  by (simp add: ac_simps)

lemma and_xor: "(a XOR b) AND c = (a AND c) XOR (b AND (c :: u64))"
  by (simp add: bit_eq_iff bit_simps) blast

lemma h3_block_xor:
  assumes "h3_block m base a r = Some x" and "h3_block m base b s = Some y"
  shows "h3_block m base (a XOR b) (r XOR s) = Some (x XOR y)"
  using assms
  by (auto simp: h3_block_def Let_def and_xor rotate_left_xor ac_simps split: bind_splits)

lemma h3_loop_xor:
  "h3_loop m st a xs r = Some x \<Longrightarrow> h3_loop m st b xs q = Some y \<Longrightarrow>
   h3_loop m st (a XOR b) xs (r XOR q) = Some (x XOR y)"
proof (induction xs arbitrary: r q)
  case (Cons z zs)
  from Cons.prems obtain r' q' where
    "h3_block m (unat (st + z)) a r = Some r'" "h3_loop m st a zs r' = Some x"
    "h3_block m (unat (st + z)) b q = Some q'" "h3_loop m st b zs q' = Some y"
    by (auto simp: bind_eq_Some_conv)
  with Cons.IH [of r' q'] h3_block_xor show ?case by simp
qed simp

lemma drop_bit_xor64: "drop_bit n (a XOR b) = drop_bit n a XOR drop_bit n (b :: u64)"
  by (rule drop_bit_xor)

lemma h3_fold_xor: "h3_fold s (a XOR b) = h3_fold s a XOR h3_fold s b"
  by (simp add: h3_fold_def Let_def ac_simps)

lemma h3_hash_xor:
  assumes "h3_hash H fid a = Some x" and "h3_hash H fid b = Some y"
  shows "h3_hash H fid (a XOR b) = Some (x XOR y)"
proof -
  let ?l = "\<lambda>v. h3_loop (hMatrix H) (push_bit (6 - resShift H) fid) v
              (map (\<lambda>i. of_nat (8 * i)) [0..<64 div 2 ^ resShift H div 8]) 0"
  obtain x' y' where "?l a = Some x'" "x = h3_fold (resShift H) x'" "?l b = Some y'"
    "y = h3_fold (resShift H) y'" and "fid < numFuncs H"
    using assms by (auto simp: h3_hash_def Let_def bind_eq_Some_conv)
  with h3_loop_xor [of "hMatrix H" "push_bit (6 - resShift H) fid" a _ 0 x' b 0 y'] show ?thesis
    by (simp add: h3_hash_def Let_def h3_fold_xor)
qed

subsection \<open>The accesses to the matrix are in bounds\<close>

definition h3_ok :: "H3HashFamily \<Rightarrow> bool" where
  "h3_ok H \<longleftrightarrow> resShift H \<le> 3 \<and> unat (numFuncs H) * 64 < 2 ^ 32 \<and>
     length (hMatrix H) = unat (numFuncs H) * 2 ^ (6 - resShift H)"

lemma length_h3_fill: "length (h3_fill randInt n s) = n"
  by (induction n arbitrary: s) (auto simp: Let_def split: prod.splits)

lemma resShift_cases: "n \<le> 3 \<Longrightarrow> n = 0 \<or> n = 1 \<or> n = 2 \<or> n = (3::nat)"
  by auto

lemma h3_new_ok:
  assumes "h3_new randInt rnd n bits = Some H" and "unat n * 64 < 2 ^ 32"
  shows "h3_ok H \<and> numFuncs H = n"
proof -
  obtain s where s: "h3_resShift bits = Some s"
    and H: "H = \<lparr>numFuncs = n, resShift = s, hMatrix = h3_fill randInt (unat (drop_bit s 64 * n)) rnd\<rparr>"
    using assms(1) by (auto simp: h3_new_def Let_def bind_eq_Some_conv)
  have le: "s \<le> 3" using s by (auto simp: h3_resShift_def split: if_splits)
  then have w: "unat (drop_bit s 64 :: u32) = 2 ^ (6 - s)"
    by (auto dest!: resShift_cases simp: unat_shift_right)
  have "2 ^ (6 - s) * unat n \<le> 64 * unat n"
    using le by (auto dest!: resShift_cases)
  also have "\<dots> < 2 ^ LENGTH(32)" using assms(2) by simp
  finally have "unat (drop_bit s 64 :: u32) * unat n < 2 ^ LENGTH(32)" unfolding w .
  from unat_mult_small [OF this] show ?thesis
    using le assms(2) by (simp add: h3_ok_def H length_h3_fill w mult.commute)
qed

lemma h3_block_total: "base + 7 < length m \<Longrightarrow> \<exists>x. h3_block m base val res = Some x"
  by (simp add: h3_block_def read_at_def Let_def)

lemma h3_loop_total:
  "\<forall>x\<in>set xs. unat (st + x) + 7 < length m \<Longrightarrow> \<exists>r. h3_loop m st val xs res = Some r"
proof (induction xs arbitrary: res)
  case (Cons x xs)
  from Cons.prems h3_block_total [of "unat (st + x)" m val res] obtain r where
    "h3_block m (unat (st + x)) val res = Some r" by auto
  with Cons show ?case by simp
qed simp

lemma h3_index:
  assumes ok: "h3_ok H" and fid: "fid < numFuncs H" and i: "i < 64 div 2 ^ resShift H div 8"
  shows "unat (push_bit (6 - resShift H) fid + of_nat (8 * i)) + 7 < length (hMatrix H)"
proof -
  let ?s = "resShift H" and ?w = "(2::nat) ^ (6 - resShift H)"
  have s: "?s \<le> 3" and n: "unat (numFuncs H) * 64 < 2 ^ 32"
    and len: "length (hMatrix H) = unat (numFuncs H) * ?w" using ok by (auto simp: h3_ok_def)
  have w: "64 div 2 ^ ?s div 8 * 8 = ?w" "?w \<le> 64" using s by (auto dest!: resShift_cases)
  then have i7: "8 * i + 7 < ?w" using i by linarith
  have lt: "Suc (unat fid) \<le> unat (numFuncs H)" using fid by (simp add: word_less_nat_alt)
  have le: "unat fid * ?w + ?w \<le> unat (numFuncs H) * ?w"
    using mult_le_mono1 [OF lt, of ?w] by simp
  also have up: "\<dots> \<le> unat (numFuncs H) * 64" using w(2) by simp
  finally have b: "unat fid * ?w + ?w < 2 ^ 32" using n by linarith
  have p: "unat (push_bit (6 - ?s) fid) = unat fid * ?w"
    using b by (simp only: push_bit_eq_mult, subst unat_mult_small) (simp_all add: unat_pow2)
  have o: "unat (of_nat (8 * i) :: u32) = 8 * i"
    using i7 w(2) by (simp only: unsigned_of_nat take_bit_eq_mod of_nat_id) simp
  have "unat (push_bit (6 - ?s) fid) + unat (of_nat (8 * i) :: u32) < 2 ^ LENGTH(32)"
    unfolding p o using b i7 by simp
  from unat_add_small [OF this] show ?thesis
    unfolding p o len using le i7 by linarith
qed

lemma h3_hash_in_bounds:
  assumes "h3_ok H"
  shows "h3_hash H fid val \<noteq> None \<longleftrightarrow> fid < numFuncs H"
proof
  assume "h3_hash H fid val \<noteq> None"
  then show "fid < numFuncs H" by (auto simp: h3_hash_def)
next
  assume fid: "fid < numFuncs H"
  have "\<forall>x\<in>set (map (\<lambda>i. of_nat (8 * i)) [0..<64 div 2 ^ resShift H div 8]).
      unat (push_bit (6 - resShift H) fid + x) + 7 < length (hMatrix H)"
    using h3_index [OF assms fid] by auto
  from h3_loop_total [OF this, of val 0] fid show "h3_hash H fid val \<noteq> None"
    by (auto simp: h3_hash_def Let_def)
qed

end
