(* ===== verification/Hash_Contract.thy ===== *)
theory Hash_Contract imports Hash_Family begin

text \<open>The properties of the H3 hash family.\<close>

subsection \<open>Properties\<close>

text \<open>An H3 hash function is linear: the hash of the exclusive or of two values is the exclusive or of
  their hashes, through the unrolled rotations and the folding of the output. This is what makes
  the family universal.\<close>
theorem h3_hash_linear:
  assumes "h3_hash H fid a = Some x" and "h3_hash H fid b = Some y"
  shows "h3_hash H fid (a XOR b) = Some (x XOR y)"
  by (rule h3_hash_xor [OF assms])

definition sample_h3 :: H3HashFamily where
  "sample_h3 = \<lparr>numFuncs = 1, resShift = 3, hMatrix = [11, 22, 33, 44, 55, 66, 77, 88]\<rparr>"

theorem h3_hash_linear_witness:
  "\<exists>x y. h3_hash sample_h3 0 5 = Some x \<and> h3_hash sample_h3 0 9 = Some y \<and>
     h3_hash sample_h3 0 (5 XOR 9) = Some (x XOR y)"
proof -
  have "h3_ok sample_h3" by (simp add: h3_ok_def sample_h3_def)
  then have "h3_hash sample_h3 0 5 \<noteq> None" "h3_hash sample_h3 0 9 \<noteq> None"
    by (simp_all only: h3_hash_in_bounds) (simp_all add: sample_h3_def)
  then obtain x y where "h3_hash sample_h3 0 5 = Some x" "h3_hash sample_h3 0 9 = Some y" by blast
  with h3_hash_linear [OF this] show ?thesis by blast
qed

text \<open>on a family the constructor built, for up to 2^26 functions, a hash is computed exactly for the
  numbers of its functions: the assert is the only way to fail, and the eight reads of every
  round stay inside the matrix.\<close>
theorem h3_hash_total:
  assumes "h3_new randInt rnd n bits = Some H" and "unat n * 64 < 2 ^ 32"
  shows "h3_hash H fid val \<noteq> None \<longleftrightarrow> fid < n"
  using h3_new_ok [OF assms] h3_hash_in_bounds by blast

theorem h3_hash_total_witness:
  "\<exists>H. h3_new (\<lambda>s. (s, s * 5 + 1)) 7 4 10 = Some H \<and> h3_hash H 3 1234 \<noteq> None \<and> h3_hash H 4 1234 = None"
proof -
  obtain H where H: "h3_new (\<lambda>s. (s, s * 5 + 1)) 7 4 10 = Some H"
    by (simp add: h3_new_def h3_resShift_def Let_def)
  from h3_hash_total [OF H, of 3 1234] h3_hash_total [OF H, of 4 1234] H show ?thesis by auto
qed

text \<open>The unrolled hash is not the loop that its comment gives for reference: on a 64-bit family whose
  only nonzero matrix row is the second one they return different values.\<close>
theorem h3_hash_not_reference:
  "h3_hash \<lparr>numFuncs = 1, resShift = 0, hMatrix = [0, 1] @ replicate 62 0\<rparr> 0 1 = Some 2 \<and>
   h3_reference ([0, 1] @ replicate 62 0) 0 1 64 0 = Some (2 ^ 63)"
  by code_simp

end
