(* ===== verification/Mem_Hierarchy.thy ===== *)
theory Mem_Hierarchy imports Prelude begin

text \<open>
  The types of \<^verbatim>\<open>zsim/src/memory_hierarchy.h\<close>: accesses, invalidations, MESI states and the requests
  that travel between the levels, with the helper functions of \<^verbatim>\<open>memory_hierarchy.cpp\<close>.

  The pointers a request carries to a variable of its sender (\<^verbatim>\<open>state\<close>, \<^verbatim>\<open>writeback\<close>) are fields with
  the value of the variable; an operation that writes through them returns the request updated.
  The locks a request carries are not modelled: operations are atomic.
\<close>

datatype AccessType = GETS | GETX | PUTS | PUTX

datatype InvType = INV | INVX | FWD

datatype MESIState = StI | StS | StE | StM

definition AccessTypeIndex :: "AccessType \<Rightarrow> nat" where
  "AccessTypeIndex t = (case t of GETS \<Rightarrow> 0 | GETX \<Rightarrow> 1 | PUTS \<Rightarrow> 2 | PUTX \<Rightarrow> 3)"

definition InvTypeIndex :: "InvType \<Rightarrow> nat" where
  "InvTypeIndex t = (case t of INV \<Rightarrow> 0 | INVX \<Rightarrow> 1 | FWD \<Rightarrow> 2)"

definition MESIStateIndex :: "MESIState \<Rightarrow> nat" where
  "MESIStateIndex s = (case s of StI \<Rightarrow> 0 | StS \<Rightarrow> 1 | StE \<Rightarrow> 2 | StM \<Rightarrow> 3)"

definition accessTypeNames :: "string list" where
  "accessTypeNames = [''GETS'', ''GETX'', ''PUTS'', ''PUTX'']"

definition invTypeNames :: "string list" where
  "invTypeNames = [''INV'', ''INVX'']"

definition mesiStateNames :: "string list" where
  "mesiStateNames = [''I'', ''S'', ''E'', ''M'']"

definition AccessTypeName :: "AccessType \<Rightarrow> string option" where
  "AccessTypeName t = read_at accessTypeNames (AccessTypeIndex t)"

definition InvTypeName :: "InvType \<Rightarrow> string option" where
  "InvTypeName t = read_at invTypeNames (InvTypeIndex t)"

definition MESIStateName :: "MESIState \<Rightarrow> string option" where
  "MESIStateName s = read_at mesiStateNames (MESIStateIndex s)"

definition IsGet :: "AccessType \<Rightarrow> bool" where
  "IsGet t \<longleftrightarrow> t = GETS \<or> t = GETX"

definition IsPut :: "AccessType \<Rightarrow> bool" where
  "IsPut t \<longleftrightarrow> t = PUTS \<or> t = PUTX"

record MemReq =
  lineAddr :: address
  req_type :: AccessType
  childId :: nat
  req_state :: MESIState
  req_cycle :: u64
  initialState :: MESIState
  srcId :: u32
  flags :: u32

datatype Flag = IFETCH | NOEXCL | NONINCLWB | PUTX_KEEPEXCL | PREFETCH

definition flag_bits :: "Flag \<Rightarrow> u32" where
  "flag_bits f = push_bit (case f of IFETCH \<Rightarrow> 1 | NOEXCL \<Rightarrow> 2 | NONINCLWB \<Rightarrow> 3
     | PUTX_KEEPEXCL \<Rightarrow> 4 | PREFETCH \<Rightarrow> 5) 1"

definition set_flag :: "Flag \<Rightarrow> MemReq \<Rightarrow> MemReq" where
  "set_flag f req = req\<lparr>flags := flags req OR flag_bits f\<rparr>"

definition is_flag :: "Flag \<Rightarrow> MemReq \<Rightarrow> bool" where
  "is_flag f req \<longleftrightarrow> flags req AND flag_bits f \<noteq> 0"

record InvReq =
  inv_lineAddr :: address
  inv_type :: InvType
  inv_writeback :: bool
  inv_cycle :: u64
  inv_srcId :: u32

lemma IsPut_iff: "IsPut t \<longleftrightarrow> \<not> IsGet t"
  by (cases t) (simp_all add: IsGet_def IsPut_def)

lemma IsGet_simps [simp]: "IsGet GETS" "IsGet GETX" "\<not> IsGet PUTS" "\<not> IsGet PUTX"
  by (simp_all add: IsGet_def)

lemma IsPut_simps [simp]: "\<not> IsPut GETS" "\<not> IsPut GETX" "IsPut PUTS" "IsPut PUTX"
  by (simp_all add: IsPut_def)

lemma set_flag_fields [simp]:
  "lineAddr (set_flag f r) = lineAddr r" "req_type (set_flag f r) = req_type r"
  "childId (set_flag f r) = childId r" "req_state (set_flag f r) = req_state r"
  "req_cycle (set_flag f r) = req_cycle r" "initialState (set_flag f r) = initialState r"
  "srcId (set_flag f r) = srcId r"
  by (simp_all add: set_flag_def)

lemma is_flag_bit: "is_flag f r \<longleftrightarrow> bit (flags r)
   (case f of IFETCH \<Rightarrow> 1 | NOEXCL \<Rightarrow> 2 | NONINCLWB \<Rightarrow> 3 | PUTX_KEEPEXCL \<Rightarrow> 4 | PREFETCH \<Rightarrow> 5)"
  by (simp add: is_flag_def flag_bits_def bit_iff_and_push_bit_not_eq_0 split: Flag.split)

lemma is_set_flag [simp]: "is_flag f (set_flag g r) \<longleftrightarrow> f = g \<or> is_flag f r"
  by (cases f; cases g) (auto simp: is_flag_bit set_flag_def flag_bits_def bit_simps)

lemma is_flag_none: "flags r = 0 \<Longrightarrow> \<not> is_flag f r"
  by (simp add: is_flag_def)

end
