(* ===== verification/Repl_Policies.thy ===== *)
theory Repl_Policies imports Mem_Hierarchy begin

text \<open>
  The replacement policies of \<^verbatim>\<open>zsim/src/repl_policies.h\<close>: the interface every cache array uses, the LRU
  family (plain and the two variants of the approximate cache), tree LRU, NRU, random, LFU and the
  profiling wrapper. An access out of a policy's array is \<open>None\<close>. What a policy asks of the coherence
  controller (\<^verbatim>\<open>numSharers\<close>, \<^verbatim>\<open>isValid\<close>) is the argument \<open>cc\<close> of \<open>rankCands\<close>.
\<close>

record cc_view =
  cc_numSharers :: "nat \<Rightarrow> u32"
  cc_isValid :: "nat \<Rightarrow> bool"

record 'p ReplPolicy =
  rp_update :: "MemReq option \<Rightarrow> nat \<Rightarrow> 'p \<Rightarrow> 'p option"
  rp_replaced :: "nat \<Rightarrow> 'p \<Rightarrow> 'p option"
  rp_rankCands :: "cc_view \<Rightarrow> MemReq option \<Rightarrow> nat list \<Rightarrow> 'p \<Rightarrow> (nat \<times> 'p) option"

text \<open>The value of \<^verbatim>\<open>(uint32_t)-1\<close> in a variable that holds a line id.\<close>

definition no_id :: nat where
  "no_id = 2 ^ 32 - 1"

subsection \<open>LRU\<close>

record lru =
  timestamp :: u64
  lru_array :: "u64 list"
  lru_numLines :: nat

definition lru_new :: "nat \<Rightarrow> lru" where
  "lru_new numLines = \<lparr>timestamp = 1, lru_array = replicate numLines 0, lru_numLines = numLines\<rparr>"

definition lru_update :: "MemReq option \<Rightarrow> nat \<Rightarrow> lru \<Rightarrow> lru option" where
  "lru_update req i p = do {
     a \<leftarrow> write_at (lru_array p) i (timestamp p);
     Some (p\<lparr>timestamp := timestamp p + 1, lru_array := a\<rparr>)
   }"

definition lru_replaced :: "nat \<Rightarrow> lru \<Rightarrow> lru option" where
  "lru_replaced i p = do {
     a \<leftarrow> write_at (lru_array p) i 0;
     Some (p\<lparr>lru_array := a\<rparr>)
   }"

definition shared_part :: "bool \<Rightarrow> cc_view \<Rightarrow> nat \<Rightarrow> lru \<Rightarrow> u64" where
  "shared_part sharersAware cc i p = (if sharersAware then ucast (cc_numSharers cc i) else 0) * timestamp p"

definition lru_score :: "bool \<Rightarrow> cc_view \<Rightarrow> lru \<Rightarrow> nat \<Rightarrow> u64 option" where
  "lru_score sharersAware cc p i = do {
     a \<leftarrow> read_at (lru_array p) i;
     Some (shared_part sharersAware cc i p + a * (if cc_isValid cc i then 1 else 0))
   }"

definition lru_dpg_d_score :: "bool \<Rightarrow> cc_view \<Rightarrow> lru \<Rightarrow> nat \<Rightarrow> u64 option" where
  "lru_dpg_d_score sharersAware cc p i = do {
     a \<leftarrow> read_at (lru_array p) i;
     Some (shared_part sharersAware cc i p + a)
   }"

definition lru_dpg_t_score :: "bool \<Rightarrow> cc_view \<Rightarrow> lru \<Rightarrow> nat \<Rightarrow> u64 option" where
  "lru_dpg_t_score sharersAware cc p i = do {
     a \<leftarrow> read_at (lru_array p) i;
     Some (shared_part sharersAware cc i p + a * (if cc_isValid cc (i + lru_numLines p) then 1 else 0))
   }"

text \<open>The loop of \<^verbatim>\<open>rank\<close>: the 64-bit score is stored in a 32-bit variable.\<close>

fun rank_loop :: "(nat \<Rightarrow> u64 option) \<Rightarrow> nat list \<Rightarrow> nat \<Rightarrow> u64 \<Rightarrow> nat option" where
  "rank_loop score [] bestCand bestScore = Some bestCand"
| "rank_loop score (c # cands) bestCand bestScore = do {
     sc \<leftarrow> score c;
     let s = (ucast (ucast sc :: u32) :: u64);
     rank_loop score cands (if s < bestScore then c else bestCand) (MIN2 s bestScore)
   }"

definition rank_by :: "(cc_view \<Rightarrow> lru \<Rightarrow> nat \<Rightarrow> u64 option) \<Rightarrow> cc_view \<Rightarrow> MemReq option \<Rightarrow> nat list \<Rightarrow> lru \<Rightarrow> (nat \<times> lru) option" where
  "rank_by score cc req cands p = do {
     c \<leftarrow> rank_loop (score cc p) cands no_id (-1);
     Some (c, p)
   }"

definition LRUReplPolicy :: "bool \<Rightarrow> lru ReplPolicy" where
  "LRUReplPolicy aware = \<lparr>rp_update = lru_update, rp_replaced = lru_replaced, rp_rankCands = rank_by (lru_score aware)\<rparr>"

definition LRUReplPolicy_DPG_d :: "bool \<Rightarrow> lru ReplPolicy" where
  "LRUReplPolicy_DPG_d aware =
     \<lparr>rp_update = lru_update, rp_replaced = lru_replaced, rp_rankCands = rank_by (lru_dpg_d_score aware)\<rparr>"

definition LRUReplPolicy_DPG_t :: "bool \<Rightarrow> lru ReplPolicy" where
  "LRUReplPolicy_DPG_t aware =
     \<lparr>rp_update = lru_update, rp_replaced = lru_replaced, rp_rankCands = rank_by (lru_dpg_t_score aware)\<rparr>"

subsection \<open>Tree LRU\<close>

text \<open>
  \<^verbatim>\<open>rankCands\<close> is inherited from the sharers-aware LRU, so \<^verbatim>\<open>recordCandidate\<close> and \<^verbatim>\<open>getBestCandidate\<close> have
  no caller; \<open>tree_best\<close> is the loop of the latter on the recorded candidates.
\<close>

record tree_lru =
  tl_base :: lru
  tl_candArray :: "nat list"
  tl_candIdx :: nat

fun max_range :: "u64 list \<Rightarrow> nat list \<Rightarrow> nat \<Rightarrow> nat \<Rightarrow> u64 \<Rightarrow> u64 option" where
  "max_range a cands i 0 t = Some t"
| "max_range a cands i (Suc n) t = do {
     c \<leftarrow> read_at cands i;
     v \<leftarrow> read_at a c;
     max_range a cands (Suc i) n (MAX2 t v)
   }"

function tree_best :: "u64 list \<Rightarrow> nat list \<Rightarrow> nat \<Rightarrow> nat \<Rightarrow> nat option" where
  "tree_best a cands start end =
     (if 1 < end - start then
        let pivot = start + (end - start) div 2 in
        (case max_range a cands start (pivot - start) 0 of
           None \<Rightarrow> None
         | Some t1 \<Rightarrow>
            (case max_range a cands pivot (end - pivot) 0 of
               None \<Rightarrow> None
             | Some t2 \<Rightarrow> if t1 > t2 then tree_best a cands pivot end else tree_best a cands start pivot))
      else read_at cands start)"
  by pat_completeness auto
termination
  by (relation "measure (\<lambda>(a, cands, start, end). end - start)") auto

declare tree_best.simps [simp del]

definition tree_getBestCandidate :: "nat \<Rightarrow> tree_lru \<Rightarrow> nat option" where
  "tree_getBestCandidate numCands p = do {
     assert_that (tl_candIdx p = numCands);
     tree_best (lru_array (tl_base p)) (tl_candArray p) 0 numCands
   }"

definition tree_recordCandidate :: "nat \<Rightarrow> tree_lru \<Rightarrow> tree_lru option" where
  "tree_recordCandidate i p = do {
     a \<leftarrow> write_at (tl_candArray p) (tl_candIdx p) i;
     Some (p\<lparr>tl_candArray := a, tl_candIdx := tl_candIdx p + 1\<rparr>)
   }"

definition tree_replaced :: "nat \<Rightarrow> tree_lru \<Rightarrow> tree_lru option" where
  "tree_replaced i p = do {
     b \<leftarrow> lru_replaced i (tl_base p);
     Some (p\<lparr>tl_base := b, tl_candIdx := 0\<rparr>)
   }"

definition TreeLRUReplPolicy :: "tree_lru ReplPolicy" where
  "TreeLRUReplPolicy = \<lparr>
     rp_update = (\<lambda>req i p. do { b \<leftarrow> lru_update req i (tl_base p); Some (p\<lparr>tl_base := b\<rparr>) }),
     rp_replaced = tree_replaced,
     rp_rankCands = (\<lambda>cc req cands p. do {
       (c, b) \<leftarrow> rank_by (lru_score True) cc req cands (tl_base p); Some (c, p\<lparr>tl_base := b\<rparr>) })\<rparr>"

subsection \<open>The legacy interface\<close>

fun record_all :: "(nat \<Rightarrow> 'p \<Rightarrow> 'p option) \<Rightarrow> nat list \<Rightarrow> 'p \<Rightarrow> 'p option" where
  "record_all recordCandidate [] p = Some p"
| "record_all recordCandidate (c # cands) p = do {
     p' \<leftarrow> recordCandidate c p;
     record_all recordCandidate cands p'
   }"

subsection \<open>NRU\<close>

record nru =
  nru_array :: "u32 list"
  nru_candArray :: "nat list"
  nru_numLines :: nat
  youngLines :: u32
  candVal :: u32
  nru_candIdx :: nat

definition nru_new :: "nat \<Rightarrow> nat \<Rightarrow> nru" where
  "nru_new numLines numCands = \<lparr>nru_array = replicate numLines 0, nru_candArray = replicate numCands 0,
     nru_numLines = numLines, youngLines = 0, candVal = 2 ^ 20, nru_candIdx = 0\<rparr>"

definition nru_update :: "MemReq option \<Rightarrow> nat \<Rightarrow> nru \<Rightarrow> nru option" where
  "nru_update req i p = do {
     v \<leftarrow> read_at (nru_array p) i;
     let young = youngLines p + (1 - drop_bit 1 v);
     let a = (nru_array p)[i := v OR 2];
     Some (if young \<ge> of_nat (nru_numLines p div 2)
           then p\<lparr>nru_array := map (drop_bit 1) a, youngLines := 0\<rparr>
           else p\<lparr>nru_array := a, youngLines := young\<rparr>)
   }"

definition nru_recordCandidate :: "nat \<Rightarrow> nru \<Rightarrow> nru option" where
  "nru_recordCandidate i p = do {
     iVal \<leftarrow> read_at (nru_array p) i;
     (if iVal < candVal p then do {
        c \<leftarrow> write_at (nru_candArray p) 0 i;
        Some (p\<lparr>nru_candArray := c, candVal := iVal, nru_candIdx := 1\<rparr>)
      } else if iVal = candVal p then do {
        c \<leftarrow> write_at (nru_candArray p) (nru_candIdx p) i;
        Some (p\<lparr>nru_candArray := c, nru_candIdx := nru_candIdx p + 1\<rparr>)
      } else Some p)
   }"

definition nru_getBestCandidate :: "nru \<Rightarrow> nat option" where
  "nru_getBestCandidate p = do {
     assert_that (nru_candIdx p > 0);
     read_at (nru_candArray p) (unat (youngLines p) mod nru_candIdx p)
   }"

definition nru_replaced :: "nat \<Rightarrow> nru \<Rightarrow> nru option" where
  "nru_replaced i p = do {
     a \<leftarrow> write_at (nru_array p) i 0;
     Some (p\<lparr>nru_array := a, candVal := 2 ^ 20, nru_candIdx := 0\<rparr>)
   }"

definition nru_rank :: "cc_view \<Rightarrow> MemReq option \<Rightarrow> nat list \<Rightarrow> nru \<Rightarrow> (nat \<times> nru) option" where
  "nru_rank cc req cands p = do {
     p' \<leftarrow> record_all nru_recordCandidate cands p;
     c \<leftarrow> nru_getBestCandidate p';
     Some (c, p')
   }"

definition NRUReplPolicy :: "nru ReplPolicy" where
  "NRUReplPolicy = \<lparr>rp_update = nru_update, rp_replaced = nru_replaced, rp_rankCands = nru_rank\<rparr>"

subsection \<open>Random replacement\<close>

text \<open>
  \<^verbatim>\<open>MTRand::randInt(n)\<close> is the parameter \<open>randInt\<close>; it returns an integer in [0, n] and the next state of
  the generator.
\<close>

record 's rand_policy =
  rand_candArray :: "nat list"
  rand_numCands :: nat
  rnd :: 's
  rand_candIdx :: nat

definition rand_new :: "nat \<Rightarrow> 's \<Rightarrow> 's rand_policy" where
  "rand_new numCands seed =
     \<lparr>rand_candArray = replicate numCands 0, rand_numCands = numCands, rnd = seed, rand_candIdx = 0\<rparr>"

definition rand_recordCandidate :: "nat \<Rightarrow> 's rand_policy \<Rightarrow> 's rand_policy option" where
  "rand_recordCandidate i p = do {
     a \<leftarrow> write_at (rand_candArray p) (rand_candIdx p) i;
     Some (p\<lparr>rand_candArray := a, rand_candIdx := rand_candIdx p + 1\<rparr>)
   }"

definition rand_getBestCandidate :: "('s \<Rightarrow> nat \<Rightarrow> nat \<times> 's) \<Rightarrow> 's rand_policy \<Rightarrow> (nat \<times> 's rand_policy) option" where
  "rand_getBestCandidate randInt p = do {
     assert_that (rand_candIdx p = rand_numCands p);
     let (idx, s) = randInt (rnd p) (rand_numCands p - 1);
     c \<leftarrow> read_at (rand_candArray p) idx;
     Some (c, p\<lparr>rnd := s\<rparr>)
   }"

definition rand_rank :: "('s \<Rightarrow> nat \<Rightarrow> nat \<times> 's) \<Rightarrow> cc_view \<Rightarrow> MemReq option \<Rightarrow> nat list \<Rightarrow>
    's rand_policy \<Rightarrow> (nat \<times> 's rand_policy) option" where
  "rand_rank randInt cc req cands p = do {
     p' \<leftarrow> record_all rand_recordCandidate cands p;
     rand_getBestCandidate randInt p'
   }"

definition RandReplPolicy :: "('s \<Rightarrow> nat \<Rightarrow> nat \<times> 's) \<Rightarrow> 's rand_policy ReplPolicy" where
  "RandReplPolicy randInt = \<lparr>rp_update = (\<lambda>req i p. Some p), rp_replaced = (\<lambda>i p. Some (p\<lparr>rand_candIdx := 0\<rparr>)),
     rp_rankCands = rand_rank randInt\<rparr>"

subsection \<open>LFU\<close>

record LFUInfo =
  lfu_ts :: u64
  lfu_acc :: u64

record Rank =
  lfuInfo :: LFUInfo
  rank_sharers :: u32
  rank_valid :: bool

record lfu =
  lfu_timestamp :: u64
  bestCandidate :: int
  lfu_array :: "LFUInfo list"
  bestRank :: Rank

definition Rank_reset :: Rank where
  "Rank_reset = \<lparr>lfuInfo = \<lparr>lfu_ts = 0, lfu_acc = 0\<rparr>, rank_sharers = 0, rank_valid = False\<rparr>"

definition lfu_new :: "nat \<Rightarrow> lfu" where
  "lfu_new numLines = \<lparr>lfu_timestamp = 1, bestCandidate = -1,
     lfu_array = replicate numLines \<lparr>lfu_ts = 0, lfu_acc = 0\<rparr>, bestRank = Rank_reset\<rparr>"

definition lessThan :: "Rank \<Rightarrow> Rank \<Rightarrow> u64 \<Rightarrow> bool" where
  "lessThan r other curTs =
     (if \<not> rank_valid r \<and> rank_valid other then True
      else if rank_valid r = rank_valid other then
        (if rank_sharers r = 0 \<and> rank_sharers other > 0 then True
         else if rank_sharers r > 0 \<and> rank_sharers other = 0 then False
         else if lfu_acc (lfuInfo r) = 0 then True
         else if lfu_acc (lfuInfo other) = 0 then False
         else (curTs - lfu_ts (lfuInfo r)) div lfu_acc (lfuInfo r) >
              (curTs - lfu_ts (lfuInfo other)) div lfu_acc (lfuInfo other))
      else False)"

definition lfu_update :: "MemReq option \<Rightarrow> nat \<Rightarrow> lfu \<Rightarrow> lfu option" where
  "lfu_update req i p = do {
     e \<leftarrow> read_at (lfu_array p) i;
     assert_that (lfu_acc e + 1 \<noteq> 0);
     let e' = \<lparr>lfu_ts = (lfu_acc e * lfu_ts e + lfu_timestamp p) div (lfu_acc e + 1), lfu_acc = lfu_acc e + 1\<rparr>;
     Some (p\<lparr>lfu_timestamp := lfu_timestamp p + 1000, lfu_array := (lfu_array p)[i := e']\<rparr>)
   }"

definition lfu_recordCandidate :: "cc_view \<Rightarrow> nat \<Rightarrow> lfu \<Rightarrow> lfu option" where
  "lfu_recordCandidate cc i p = do {
     e \<leftarrow> read_at (lfu_array p) i;
     let candRank = \<lparr>lfuInfo = e, rank_sharers = cc_numSharers cc i, rank_valid = cc_isValid cc i\<rparr>;
     Some (if bestCandidate p = -1 \<or> lessThan candRank (bestRank p) (lfu_timestamp p)
           then p\<lparr>bestCandidate := int i, bestRank := candRank\<rparr> else p)
   }"

definition lfu_getBestCandidate :: "lfu \<Rightarrow> nat option" where
  "lfu_getBestCandidate p = do {
     assert_that (bestCandidate p \<noteq> -1);
     Some (nat (bestCandidate p))
   }"

definition lfu_replaced :: "nat \<Rightarrow> lfu \<Rightarrow> lfu option" where
  "lfu_replaced i p = do {
     e \<leftarrow> read_at (lfu_array p) i;
     Some (p\<lparr>bestCandidate := -1, lfu_array := (lfu_array p)[i := e\<lparr>lfu_acc := 0\<rparr>], bestRank := Rank_reset\<rparr>)
   }"

definition lfu_rank :: "cc_view \<Rightarrow> MemReq option \<Rightarrow> nat list \<Rightarrow> lfu \<Rightarrow> (nat \<times> lfu) option" where
  "lfu_rank cc req cands p = do {
     p' \<leftarrow> record_all (lfu_recordCandidate cc) cands p;
     c \<leftarrow> lfu_getBestCandidate p';
     Some (c, p')
   }"

definition LFUReplPolicy :: "lfu ReplPolicy" where
  "LFUReplPolicy = \<lparr>rp_update = lfu_update, rp_replaced = lfu_replaced, rp_rankCands = lfu_rank\<rparr>"

subsection \<open>Profiling of access order violations\<close>

record AccTimes =
  acc_read :: u64
  acc_write :: u64

record 'p prof_viol =
  prof_base :: 'p
  accTimes :: "AccTimes list"
  profRAW :: u64
  profWAR :: u64
  profRAR :: u64
  profWAW :: u64
  profNoViolAcc :: u64
  profAAE :: u64
  profNoViolEv :: u64
  replCycle :: u64

definition prof_new :: "nat \<Rightarrow> 'p \<Rightarrow> 'p prof_viol" where
  "prof_new numLines b = \<lparr>prof_base = b, accTimes = replicate numLines \<lparr>acc_read = 0, acc_write = 0\<rparr>,
     profRAW = 0, profWAR = 0, profRAR = 0, profWAW = 0, profNoViolAcc = 0, profAAE = 0, profNoViolEv = 0,
     replCycle = 0\<rparr>"

definition prof_record :: "bool \<Rightarrow> u64 \<Rightarrow> AccTimes \<Rightarrow> 'p prof_viol \<Rightarrow> 'p prof_viol option" where
  "prof_record rd cycle t p =
     (if cycle < MAX2 (acc_read t) (acc_write t) then do {
        readViol \<leftarrow> (if cycle < MIN2 (acc_read t) (acc_write t) then Some (acc_read t < acc_write t)
                     else if cycle < acc_read t then Some True
                     else do { assert_that (cycle < acc_write t); Some False });
        Some (if rd then (if readViol then p\<lparr>profRAR := profRAR p + 1\<rparr> else p\<lparr>profRAW := profRAW p + 1\<rparr>)
              else (if readViol then p\<lparr>profWAR := profWAR p + 1\<rparr> else p\<lparr>profWAW := profWAW p + 1\<rparr>))
      } else Some (p\<lparr>profNoViolAcc := profNoViolAcc p + 1\<rparr>))"

definition prof_update :: "'p ReplPolicy \<Rightarrow> MemReq option \<Rightarrow> nat \<Rightarrow> 'p prof_viol \<Rightarrow> 'p prof_viol option" where
  "prof_update T req i p = do {
     b \<leftarrow> rp_update T req i (prof_base p);
     r \<leftarrow> req;
     assert_that (req_type r = GETS \<or> req_type r = GETX);
     let rd = (req_type r = GETS);
     t \<leftarrow> read_at (accTimes p) i;
     p \<leftarrow> prof_record rd (req_cycle r) t (p\<lparr>prof_base := b\<rparr>);
     let t' = (if rd then t\<lparr>acc_read := MAX2 (acc_read t) (req_cycle r)\<rparr>
               else t\<lparr>acc_write := MAX2 (acc_write t) (req_cycle r)\<rparr>);
     b \<leftarrow> rp_update T req i (prof_base p);
     Some (p\<lparr>prof_base := b, accTimes := (accTimes p)[i := t']\<rparr>)
   }"

definition prof_replaced :: "'p ReplPolicy \<Rightarrow> nat \<Rightarrow> 'p prof_viol \<Rightarrow> 'p prof_viol option" where
  "prof_replaced T i p = do {
     b \<leftarrow> rp_replaced T i (prof_base p);
     t \<leftarrow> read_at (accTimes p) i;
     let q = (if replCycle p < MAX2 (acc_read t) (acc_write t) then p\<lparr>profAAE := profAAE p + 1\<rparr>
              else p\<lparr>profNoViolEv := profNoViolEv p + 1\<rparr>);
     Some (q\<lparr>prof_base := b, accTimes := (accTimes p)[i := \<lparr>acc_read = 0, acc_write = 0\<rparr>]\<rparr>)
   }"

text \<open>
  \<^verbatim>\<open>rankCands\<close> is that of the base policy. The LRU policies have no \<^verbatim>\<open>startReplacement\<close>, so the
  override that would set \<^verbatim>\<open>replCycle\<close> is never called.
\<close>

definition ProfViolReplPolicy :: "'p ReplPolicy \<Rightarrow> 'p prof_viol ReplPolicy" where
  "ProfViolReplPolicy T = \<lparr>rp_update = prof_update T, rp_replaced = prof_replaced T,
     rp_rankCands = (\<lambda>cc req cands p. do {
       (c, b) \<leftarrow> rp_rankCands T cc req cands (prof_base p);
       Some (c, p\<lparr>prof_base := b\<rparr>)
     })\<rparr>"

end
