(* ===== verification/Repl_Contract.thy ===== *)
theory Repl_Contract imports Repl_Policies begin

text \<open>
  What a cache array needs of its replacement policy, as the locale \<open>replacement\<close>, its
  interpretations on the policies of \<open>Repl_Policies\<close>, and what each policy chooses.
\<close>

subsection \<open>The interface\<close>

text \<open>
  A policy is \<open>ready\<close> when a replacement may start; between \<open>rankCands\<close> and \<open>replaced\<close> only the
  weaker \<open>inv\<close> holds, which is enough for the updates that may come between. \<open>fits\<close> says which
  candidate lists its buffers have room for.
\<close>

locale replacement =
  fixes P :: "'p ReplPolicy"
    and inv :: "'p \<Rightarrow> bool"
    and ready :: "'p \<Rightarrow> bool"
    and lines :: "'p \<Rightarrow> nat"
    and fits :: "'p \<Rightarrow> nat list \<Rightarrow> bool"
  assumes ready_inv: "ready p \<Longrightarrow> inv p"
    and update_law: "inv p \<Longrightarrow> i < lines p \<Longrightarrow> \<exists>p'. rp_update P req i p = Some p' \<and> inv p' \<and>
      lines p' = lines p \<and> fits p' = fits p \<and> (ready p \<longrightarrow> ready p')"
    and replaced_law: "inv p \<Longrightarrow> i < lines p \<Longrightarrow> \<exists>p'. rp_replaced P i p = Some p' \<and> ready p' \<and>
      lines p' = lines p \<and> fits p' = fits p"
    and rank_law: "ready p \<Longrightarrow> cands \<noteq> [] \<Longrightarrow> \<forall>c\<in>set cands. c < lines p \<Longrightarrow> fits p cands \<Longrightarrow>
      \<exists>c p'. rp_rankCands P cc req cands p = Some (c, p') \<and> c \<in> set cands \<and> inv p' \<and>
        lines p' = lines p \<and> fits p' = fits p"
begin

text \<open>A complete replacement, as \<^verbatim>\<open>preinsert\<close> and \<^verbatim>\<open>postinsert\<close> run it.\<close>

lemma replacement_round:
  assumes "ready p" "cands \<noteq> []" "\<forall>c\<in>set cands. c < lines p" "fits p cands"
  shows "\<exists>c p1 p2 p3. rp_rankCands P cc req cands p = Some (c, p1) \<and> c \<in> set cands \<and>
    rp_replaced P c p1 = Some p2 \<and> rp_update P req' c p2 = Some p3 \<and>
    ready p3 \<and> lines p3 = lines p \<and> fits p3 = fits p"
proof -
  obtain c p1 where 1: "rp_rankCands P cc req cands p = Some (c, p1)" "c \<in> set cands" "inv p1"
    "lines p1 = lines p" "fits p1 = fits p"
    using rank_law [OF assms] by blast
  have c: "c < lines p" using 1(2) assms(3) by blast
  then obtain p2 where 2: "rp_replaced P c p1 = Some p2" "ready p2" "lines p2 = lines p" "fits p2 = fits p"
    using replaced_law [OF 1(3), of c] 1(4,5) by auto
  from update_law [OF ready_inv [OF 2(2)], of c req'] c 2(3)
  obtain p3 where "rp_update P req' c p2 = Some p3" "ready p3" "lines p3 = lines p2" "fits p3 = fits p2"
    using 2(2) by auto
  with 1 2 show ?thesis by metis
qed

end

locale ready_replacement = replacement +
  assumes always_ready: "inv p \<Longrightarrow> ready p"

subsection \<open>LRU\<close>

definition trunc :: "u64 \<Rightarrow> u64" where
  "trunc s = ucast (ucast s :: u32)"

lemma trunc_less: "trunc s < -1"
proof -
  have "unat (trunc s) < 2 ^ 32"
    unfolding trunc_def using unsigned_less [of "ucast s :: u32"] by (simp add: unat_widen)
  then show ?thesis by (simp add: word_less_nat_alt unsigned_minus_1_eq_mask mask_eq_exp_minus_1)
qed

lemma rank_loop_first_min:
  assumes "\<forall>c\<in>set cands. score c \<noteq> None"
  shows "\<exists>c. rank_loop score cands best bs = Some c \<and>
    (c = best \<and> (\<forall>d\<in>set cands. bs \<le> trunc (the (score d))) \<or>
     (\<exists>ys zs. cands = ys @ c # zs \<and> trunc (the (score c)) < bs \<and>
       (\<forall>d\<in>set ys. trunc (the (score c)) < trunc (the (score d))) \<and>
       (\<forall>d\<in>set zs. trunc (the (score c)) \<le> trunc (the (score d)))))"
  using assms
proof (induction cands arbitrary: best bs)
  case (Cons c cs)
  let ?t = "\<lambda>d. trunc (the (score d))"
  obtain sc where sc: "score c = Some sc" using Cons.prems by auto
  define best' bs' where "best' = (if ?t c < bs then c else best)" and "bs' = MIN2 (?t c) bs"
  have step: "rank_loop score (c # cs) best bs = rank_loop score cs best' bs'"
    by (simp add: sc best'_def bs'_def trunc_def Let_def)
  have bs': "bs' \<le> bs" "bs' \<le> ?t c" by (simp_all add: bs'_def MIN2_min)
  obtain r where r: "rank_loop score cs best' bs' = Some r" and
    cases: "r = best' \<and> (\<forall>d\<in>set cs. bs' \<le> ?t d) \<or>
     (\<exists>ys zs. cs = ys @ r # zs \<and> ?t r < bs' \<and> (\<forall>d\<in>set ys. ?t r < ?t d) \<and> (\<forall>d\<in>set zs. ?t r \<le> ?t d))"
    using Cons.IH [of best' bs'] Cons.prems by auto
  from cases have "r = best \<and> (\<forall>d\<in>set (c # cs). bs \<le> ?t d) \<or>
     (\<exists>ys zs. c # cs = ys @ r # zs \<and> ?t r < bs \<and> (\<forall>d\<in>set ys. ?t r < ?t d) \<and> (\<forall>d\<in>set zs. ?t r \<le> ?t d))"
  proof (elim disjE conjE exE)
    assume r1: "r = best'" "\<forall>d\<in>set cs. bs' \<le> ?t d"
    show ?thesis
    proof (cases "?t c < bs")
      case True
      then have "r = c" "bs' = ?t c" using r1(1) by (auto simp: best'_def bs'_def MIN2_def)
      with r1(2) True have "c # cs = [] @ r # cs \<and> ?t r < bs \<and> (\<forall>d\<in>set []. ?t r < ?t d) \<and> (\<forall>d\<in>set cs. ?t r \<le> ?t d)"
        by simp
      then show ?thesis by blast
    next
      case False
      then have "r = best" "bs' = bs" using r1(1) by (auto simp: best'_def bs'_def MIN2_def)
      with r1(2) False show ?thesis by (simp add: not_less)
    qed
  next
    fix ys zs
    assume r2: "cs = ys @ r # zs" "?t r < bs'" "\<forall>d\<in>set ys. ?t r < ?t d" "\<forall>d\<in>set zs. ?t r \<le> ?t d"
    have "?t r < ?t c" "?t r < bs" using r2(2) bs' less_le_trans by blast+
    with r2 have "c # cs = (c # ys) @ r # zs \<and> ?t r < bs \<and> (\<forall>d\<in>set (c # ys). ?t r < ?t d) \<and> (\<forall>d\<in>set zs. ?t r \<le> ?t d)"
      by simp
    then show ?thesis by blast
  qed
  with r step show ?case by metis
qed simp

lemma rank_by_first_min:
  assumes "\<forall>c\<in>set cands. score cc p c \<noteq> None" and "cands \<noteq> []"
  shows "\<exists>c ys zs. rank_by score cc req cands p = Some (c, p) \<and> cands = ys @ c # zs \<and>
    (\<forall>d\<in>set ys. trunc (the (score cc p c)) < trunc (the (score cc p d))) \<and>
    (\<forall>d\<in>set zs. trunc (the (score cc p c)) \<le> trunc (the (score cc p d)))"
proof -
  obtain c where c: "rank_loop (score cc p) cands no_id (-1) = Some c" and
    cases: "c = no_id \<and> (\<forall>d\<in>set cands. -1 \<le> trunc (the (score cc p d))) \<or>
     (\<exists>ys zs. cands = ys @ c # zs \<and> trunc (the (score cc p c)) < -1 \<and>
       (\<forall>d\<in>set ys. trunc (the (score cc p c)) < trunc (the (score cc p d))) \<and>
       (\<forall>d\<in>set zs. trunc (the (score cc p c)) \<le> trunc (the (score cc p d))))"
    using rank_loop_first_min [OF assms(1), of no_id "-1"] by blast
  have "\<not> (\<forall>d\<in>set cands. -1 \<le> trunc (the (score cc p d)))"
    using assms(2) trunc_less by (auto simp: not_le neq_Nil_conv)
  with cases c show ?thesis by (auto simp: rank_by_def)
qed

definition lru_inv :: "lru \<Rightarrow> bool" where
  "lru_inv p \<longleftrightarrow> length (lru_array p) = lru_numLines p"

lemma lru_replacement:
  assumes "\<And>cc p i. i < length (lru_array p) \<Longrightarrow> score cc p i \<noteq> None"
  shows "ready_replacement \<lparr>rp_update = lru_update, rp_replaced = lru_replaced, rp_rankCands = rank_by score\<rparr>
    lru_inv lru_inv lru_numLines (\<lambda>_ _. True)"
proof (unfold_locales, goal_cases)
  case (2 p i req)
  then show ?case by (simp add: lru_update_def lru_inv_def write_at_def)
next
  case (3 p i)
  then show ?case by (simp add: lru_replaced_def lru_inv_def write_at_def)
next
  case (4 p cands cc req)
  then have "\<forall>c\<in>set cands. score cc p c \<noteq> None" using assms by (auto simp: lru_inv_def)
  from rank_by_first_min [of cands score cc p req, OF this 4(2)] obtain c ys zs where
    "rank_by score cc req cands p = Some (c, p)" "cands = ys @ c # zs" by blast
  with 4(1) show ?case by auto
qed

interpretation lru: ready_replacement "LRUReplPolicy aware" lru_inv lru_inv lru_numLines "\<lambda>_ _. True" for aware
  unfolding LRUReplPolicy_def by (rule lru_replacement) (simp add: lru_score_def read_at_def)

interpretation lru_dpg_d: ready_replacement "LRUReplPolicy_DPG_d aware" lru_inv lru_inv lru_numLines "\<lambda>_ _. True" for aware
  unfolding LRUReplPolicy_DPG_d_def by (rule lru_replacement) (simp add: lru_dpg_d_score_def read_at_def)

interpretation lru_dpg_t: ready_replacement "LRUReplPolicy_DPG_t aware" lru_inv lru_inv lru_numLines "\<lambda>_ _. True" for aware
  unfolding LRUReplPolicy_DPG_t_def by (rule lru_replacement) (simp add: lru_dpg_t_score_def read_at_def)

subsection \<open>NRU\<close>

definition nru_inv :: "nru \<Rightarrow> bool" where
  "nru_inv p \<longleftrightarrow> length (nru_array p) = nru_numLines p \<and> (\<forall>v\<in>set (nru_array p). v < 4)"

definition nru_ready :: "nru \<Rightarrow> bool" where
  "nru_ready p \<longleftrightarrow> nru_inv p \<and> candVal p = 2 ^ 20 \<and> nru_candIdx p = 0"

definition nru_fits :: "nru \<Rightarrow> nat list \<Rightarrow> bool" where
  "nru_fits p cands \<longleftrightarrow> length cands \<le> length (nru_candArray p)"

lemma two_bits:
  fixes v :: u32
  assumes "v < 4"
  shows "v = 0 \<or> v = 1 \<or> v = 2 \<or> v = 3"
proof -
  have "unat v < 4" using assms by (simp add: word_less_nat_alt)
  then have "unat v \<in> {0, 1, 2, 3}" by auto
  moreover have "unat v = unat w \<Longrightarrow> v = w" for w by (rule unsigned_word_eqI)
  from this [of 0] this [of 1] this [of 2] this [of 3]
  have "unat v = 0 \<Longrightarrow> v = 0" "unat v = 1 \<Longrightarrow> v = 1" "unat v = 2 \<Longrightarrow> v = 2" "unat v = 3 \<Longrightarrow> v = 3"
    by simp_all
  ultimately show ?thesis by blast
qed

lemma two_bits_simps:
  "(v::u32) < 4 \<Longrightarrow> v OR 2 < 4" "(v::u32) < 4 \<Longrightarrow> drop_bit (Suc 0) v < 4" "(v::u32) < 4 \<Longrightarrow> drop_bit (Suc 0) v < 2"
  "(v::u32) < 4 \<Longrightarrow> 1 - drop_bit (Suc 0) v = (if 2 \<le> v then 0 else 1)" "(v::u32) < 4 \<Longrightarrow> 2 \<le> v OR 2"
  by (auto dest!: two_bits simp: word_le_nat_alt)

lemma nru_update_fields:
  assumes "nru_inv p" and "i < nru_numLines p"
  shows "\<exists>p'. nru_update req i p = Some p' \<and> nru_inv p' \<and> nru_numLines p' = nru_numLines p \<and>
    nru_candArray p' = nru_candArray p \<and> candVal p' = candVal p \<and> nru_candIdx p' = nru_candIdx p"
proof -
  have v: "nru_array p ! i < 4" and i: "i < length (nru_array p)"
    using assms by (auto simp: nru_inv_def)
  have "\<forall>x\<in>set ((nru_array p)[i := nru_array p ! i OR 2]). x < 4"
    using assms(1) two_bits_simps(1) [OF v] by (auto simp: nru_inv_def dest!: set_update_subset_insert [THEN subsetD])
  moreover from this have "\<forall>x\<in>set (map (drop_bit 1) ((nru_array p)[i := nru_array p ! i OR 2])). x < 4"
    by (auto simp only: set_map ball_simps One_nat_def two_bits_simps)
  ultimately show ?thesis
    using assms(1) i by (auto simp: nru_update_def read_at_def Let_def nru_inv_def simp del: set_map)
qed

text \<open>After recording the candidates \<open>ds\<close>, the buffer holds those with the least value.\<close>

definition nru_recorded :: "nat list \<Rightarrow> nru \<Rightarrow> bool" where
  "nru_recorded ds p \<longleftrightarrow>
     nru_candIdx p \<le> length ds \<and> (ds = [] \<longrightarrow> candVal p = 2 ^ 20) \<and> (ds \<noteq> [] \<longrightarrow> 0 < nru_candIdx p) \<and>
     (\<forall>k<nru_candIdx p. nru_candArray p ! k \<in> set ds \<and> nru_array p ! (nru_candArray p ! k) = candVal p) \<and>
     (\<forall>d\<in>set ds. candVal p \<le> nru_array p ! d)"

lemma nru_record_step:
  assumes inv: "nru_inv p" and rec: "nru_recorded ds p" and c: "c < nru_numLines p"
    and room: "length ds < length (nru_candArray p)"
  shows "\<exists>p'. nru_recordCandidate c p = Some p' \<and> nru_recorded (ds @ [c]) p' \<and>
    nru_array p' = nru_array p \<and> nru_numLines p' = nru_numLines p \<and> youngLines p' = youngLines p \<and>
    length (nru_candArray p') = length (nru_candArray p)"
proof -
  let ?v = "nru_array p ! c"
  have cl: "c < length (nru_array p)" and v4: "?v < 4"
    using inv c by (auto simp: nru_inv_def)
  have idx: "nru_candIdx p < length (nru_candArray p)" "0 < length (nru_candArray p)"
    using rec room by (auto simp: nru_recorded_def)
  consider "?v < candVal p" | "?v = candVal p" "ds \<noteq> []" | "candVal p < ?v" "ds \<noteq> []"
  proof -
    have "ds = [] \<Longrightarrow> ?v < candVal p"
      using rec v4 by (auto simp: nru_recorded_def intro: less_trans)
    then show thesis using that by (meson linorder_cases)
  qed
  then show ?thesis
  proof cases
    case 1
    with rec cl idx show ?thesis
      by (auto simp: nru_recordCandidate_def read_at_def write_at_def nru_recorded_def intro: less_imp_le order_trans)
  next
    case 2
    with rec cl idx show ?thesis
      by (auto simp: nru_recordCandidate_def read_at_def write_at_def nru_recorded_def nth_list_update less_Suc_eq)
  next
    case 3
    then have "\<not> ?v < candVal p" "?v \<noteq> candVal p" by auto
    with 3 rec cl show ?thesis
      by (auto simp: nru_recordCandidate_def read_at_def nru_recorded_def)
  qed
qed

lemma nru_record_all:
  assumes "nru_inv p" "nru_recorded ds p" "\<forall>c\<in>set cs. c < nru_numLines p"
    "length ds + length cs \<le> length (nru_candArray p)"
  shows "\<exists>p'. record_all nru_recordCandidate cs p = Some p' \<and> nru_recorded (ds @ cs) p' \<and>
    nru_array p' = nru_array p \<and> nru_numLines p' = nru_numLines p \<and> youngLines p' = youngLines p \<and>
    length (nru_candArray p') = length (nru_candArray p)"
  using assms
proof (induction cs arbitrary: ds p)
  case (Cons c cs)
  obtain p1 where p1: "nru_recordCandidate c p = Some p1" "nru_recorded (ds @ [c]) p1"
    "nru_array p1 = nru_array p" "nru_numLines p1 = nru_numLines p" "youngLines p1 = youngLines p"
    "length (nru_candArray p1) = length (nru_candArray p)"
    using nru_record_step [OF Cons.prems(1,2), of c] Cons.prems(3,4) by auto
  have "nru_inv p1" using Cons.prems(1) p1(3,4) by (simp add: nru_inv_def)
  from Cons.IH [OF this p1(2)] Cons.prems(3,4) p1 show ?case by auto
qed simp

lemma nru_rank_correct:
  assumes "nru_ready p" "cands \<noteq> []" "\<forall>c\<in>set cands. c < nru_numLines p" "nru_fits p cands"
  shows "\<exists>c p'. nru_rank cc req cands p = Some (c, p') \<and> c \<in> set cands \<and>
    (\<forall>d\<in>set cands. nru_array p ! c \<le> nru_array p ! d) \<and> nru_array p' = nru_array p \<and>
    nru_numLines p' = nru_numLines p \<and> youngLines p' = youngLines p \<and>
    length (nru_candArray p') = length (nru_candArray p)"
proof -
  have "nru_recorded [] p" using assms(1) by (simp add: nru_recorded_def nru_ready_def)
  from nru_record_all [OF _ this assms(3)] assms(1,4) obtain p' where
    p': "record_all nru_recordCandidate cands p = Some p'" "nru_recorded cands p'"
    "nru_array p' = nru_array p" "nru_numLines p' = nru_numLines p" "youngLines p' = youngLines p"
    "length (nru_candArray p') = length (nru_candArray p)"
    by (auto simp: nru_ready_def nru_fits_def)
  have pos: "0 < nru_candIdx p'" using p'(2) assms(2) by (simp add: nru_recorded_def)
  define k where "k = unat (youngLines p') mod nru_candIdx p'"
  have k: "k < nru_candIdx p'" using pos by (simp add: k_def)
  also have "\<dots> \<le> length (nru_candArray p')"
    using p'(2,6) assms(4) by (auto simp: nru_recorded_def nru_fits_def)
  finally have len: "k < length (nru_candArray p')" .
  define c where "c = nru_candArray p' ! k"
  have best: "nru_getBestCandidate p' = Some c"
    using pos len by (simp add: nru_getBestCandidate_def k_def [symmetric] read_at_def c_def)
  have "c \<in> set cands" "\<forall>d\<in>set cands. nru_array p ! c \<le> nru_array p ! d"
    using p'(2,3) k by (auto simp: nru_recorded_def c_def)
  with p' best show ?thesis by (simp add: nru_rank_def)
qed

interpretation nru: replacement NRUReplPolicy nru_inv nru_ready nru_numLines nru_fits
proof (unfold_locales, goal_cases)
  case (1 p)
  then show ?case by (simp add: nru_ready_def)
next
  case (2 p i req)
  from nru_update_fields [OF this, of req] show ?case
    by (auto simp: NRUReplPolicy_def nru_ready_def fun_eq_iff nru_fits_def)
next
  case (3 p i)
  then show ?case
    by (auto simp: NRUReplPolicy_def nru_replaced_def write_at_def nru_ready_def nru_inv_def fun_eq_iff nru_fits_def
        dest!: set_update_subset_insert [THEN subsetD])
next
  case (4 p cands cc req)
  from nru_rank_correct [OF this, of cc req] 4(1) show ?case
    by (auto simp: NRUReplPolicy_def nru_ready_def nru_inv_def fun_eq_iff nru_fits_def)
qed

text \<open>
  The lines with the upper bit set are young. \<^verbatim>\<open>youngLines\<close> never undercounts them, and stays below
  half of the lines.
\<close>

definition young_count :: "u32 list \<Rightarrow> nat" where
  "young_count a = length (filter (\<lambda>v. 2 \<le> v) a)"

definition nru_bounded :: "nru \<Rightarrow> bool" where
  "nru_bounded p \<longleftrightarrow> nru_inv p \<and> nru_numLines p < 2 ^ 32 \<and> young_count (nru_array p) \<le> unat (youngLines p) \<and>
     (unat (youngLines p) < nru_numLines p div 2 \<or> youngLines p = 0)"

lemma young_count_update:
  "i < length a \<Longrightarrow> young_count (a[i := v]) + (if 2 \<le> a ! i then 1 else 0) = young_count a + (if 2 \<le> v then 1 else 0)"
proof (induction a arbitrary: i)
  case (Cons x xs)
  then show ?case by (cases i) (auto simp: young_count_def split: if_splits)
qed simp

lemma young_count_shift: "\<forall>v\<in>set a. v < 4 \<Longrightarrow> young_count (map (drop_bit 1) a) = 0"
  by (auto simp: young_count_def filter_empty_conv not_le two_bits_simps(3))

lemma nru_update_bounded:
  assumes b: "nru_bounded p" and i: "i < nru_numLines p"
  shows "\<exists>p'. nru_update req i p = Some p' \<and> nru_bounded p'"
proof -
  let ?v = "nru_array p ! i" and ?a = "(nru_array p)[i := nru_array p ! i OR 2]"
  have il: "i < length (nru_array p)" and v: "?v < 4" using b i by (auto simp: nru_bounded_def nru_inv_def)
  obtain p' where p': "nru_update req i p = Some p'" "nru_inv p'" "nru_numLines p' = nru_numLines p"
    using nru_update_fields [of p i req] b i by (auto simp: nru_bounded_def)
  define y where "y = youngLines p + (1 - drop_bit 1 ?v)"
  have small: "unat (youngLines p) + 1 < 2 ^ 32"
    using b i by (auto simp: nru_bounded_def)
  have y: "unat y = unat (youngLines p) + (if 2 \<le> ?v then 0 else 1)"
    using small unat_add_small [of "youngLines p" 1] by (auto simp: y_def two_bits_simps(4) [OF v])
  have "young_count ?a + (if 2 \<le> ?v then 1 else 0) = young_count (nru_array p) + 1"
    using young_count_update [OF il, of "?v OR 2"] two_bits_simps(5) [OF v] by simp
  then have cnt: "young_count ?a \<le> unat y"
    using b unfolding y by (auto simp: nru_bounded_def split: if_splits)
  have a4: "\<forall>x\<in>set ?a. x < 4"
    using b two_bits_simps(1) [OF v]
    by (auto simp: nru_bounded_def nru_inv_def dest!: set_update_subset_insert [THEN subsetD])
  have "nru_numLines p < 2 ^ LENGTH(32)" using b by (simp add: nru_bounded_def)
  then have "nru_numLines p div 2 < 2 ^ LENGTH(32)" by (rule le_less_trans [OF div_le_dividend])
  then have half: "unat (of_nat (nru_numLines p div 2) :: u32) = nru_numLines p div 2"
    by (simp only: unsigned_of_nat take_bit_eq_mod of_nat_id mod_less)
  have res: "p' = (if y \<ge> of_nat (nru_numLines p div 2)
           then p\<lparr>nru_array := map (drop_bit 1) ?a, youngLines := 0\<rparr>
           else p\<lparr>nru_array := ?a, youngLines := y\<rparr>)"
    using p'(1) il by (auto simp: nru_update_def read_at_def Let_def y_def)
  show ?thesis
  proof (cases "y \<ge> of_nat (nru_numLines p div 2)")
    case True
    with p' res young_count_shift [OF a4] b show ?thesis by (simp add: nru_bounded_def)
  next
    case False
    then have "unat y < nru_numLines p div 2" by (simp add: word_le_nat_alt half)
    with False p' res cnt b show ?thesis by (simp add: nru_bounded_def)
  qed
qed

lemma nru_replaced_bounded:
  assumes b: "nru_bounded p" and i: "i < nru_numLines p"
  shows "\<exists>p'. nru_replaced i p = Some p' \<and> nru_bounded p'"
proof -
  have il: "i < length (nru_array p)" using b i by (auto simp: nru_bounded_def nru_inv_def)
  have "young_count ((nru_array p)[i := 0]) \<le> young_count (nru_array p)"
    using young_count_update [OF il, of 0] by auto
  with b il show ?thesis
    by (auto simp: nru_replaced_def write_at_def nru_bounded_def nru_inv_def
        dest!: set_update_subset_insert [THEN subsetD])
qed

subsection \<open>Random replacement\<close>

definition rand_inv :: "'s rand_policy \<Rightarrow> bool" where
  "rand_inv p \<longleftrightarrow> length (rand_candArray p) = rand_numCands p"

definition rand_ready :: "'s rand_policy \<Rightarrow> bool" where
  "rand_ready p \<longleftrightarrow> rand_inv p \<and> rand_candIdx p = 0"

definition rand_fits :: "'s rand_policy \<Rightarrow> nat list \<Rightarrow> bool" where
  "rand_fits p cands \<longleftrightarrow> length cands = rand_numCands p"

lemma rand_record_all:
  assumes "take (rand_candIdx p) (rand_candArray p) = ds" "length ds = rand_candIdx p"
    "rand_candIdx p + length cs \<le> length (rand_candArray p)"
  shows "\<exists>p'. record_all rand_recordCandidate cs p = Some p' \<and>
    take (rand_candIdx p') (rand_candArray p') = ds @ cs \<and> rand_candIdx p' = rand_candIdx p + length cs \<and>
    length (rand_candArray p') = length (rand_candArray p) \<and> rand_numCands p' = rand_numCands p \<and> rnd p' = rnd p"
  using assms
proof (induction cs arbitrary: ds p)
  case (Cons c cs)
  let ?p = "p\<lparr>rand_candArray := (rand_candArray p)[rand_candIdx p := c], rand_candIdx := rand_candIdx p + 1\<rparr>"
  have idx: "rand_candIdx p < length (rand_candArray p)" using Cons.prems(3) by simp
  have "take (rand_candIdx ?p) (rand_candArray ?p) = ds @ [c]"
    using Cons.prems(1) idx by (simp add: take_Suc_conv_app_nth)
  from Cons.IH [OF this] Cons.prems idx show ?case
    by (auto simp: rand_recordCandidate_def write_at_def)
qed simp

lemma rand_rank_correct:
  assumes r: "rand_ready p" and ne: "cands \<noteq> []" and fit: "rand_fits p cands"
    and gen: "\<And>s n. fst (randInt s n) \<le> n"
  shows "\<exists>c p'. rand_rank randInt cc req cands p = Some (c, p') \<and> c \<in> set cands \<and> rand_inv p' \<and>
    rand_numCands p' = rand_numCands p"
proof -
  obtain p' where p': "record_all rand_recordCandidate cands p = Some p'"
    "take (rand_candIdx p') (rand_candArray p') = cands" "rand_candIdx p' = length cands"
    "length (rand_candArray p') = length (rand_candArray p)" "rand_numCands p' = rand_numCands p"
    using rand_record_all [of p "[]" cands] r fit by (auto simp: rand_ready_def rand_inv_def rand_fits_def)
  obtain j s where j: "randInt (rnd p') (rand_numCands p' - 1) = (j, s)" by (cases "randInt (rnd p') (rand_numCands p' - 1)")
  have "j \<le> rand_numCands p' - 1" using gen [of "rnd p'" "rand_numCands p' - 1"] j by simp
  moreover have n: "rand_numCands p' = length cands" using p'(5) fit by (simp add: rand_fits_def)
  ultimately have jl: "j < length cands" using ne by (cases cands) auto
  have len: "length (rand_candArray p') = length cands"
    using p'(4,5) n r by (simp add: rand_ready_def rand_inv_def)
  then have arr: "rand_candArray p' = cands" using p'(2,3) by simp
  have "rand_getBestCandidate randInt p' = Some (cands ! j, p'\<lparr>rnd := s\<rparr>)"
    using p'(3) n j jl by (simp add: rand_getBestCandidate_def arr read_at_def)
  with p' len n jl show ?thesis by (simp add: rand_rank_def rand_inv_def)
qed

text \<open>\<open>clamp\<close> makes a generator satisfy the documented range of \<^verbatim>\<open>randInt\<close>; it is the identity on one that does.\<close>

definition clamp :: "('s \<Rightarrow> nat \<Rightarrow> nat \<times> 's) \<Rightarrow> 's \<Rightarrow> nat \<Rightarrow> nat \<times> 's" where
  "clamp randInt s n = (min n (fst (randInt s n)), snd (randInt s n))"

interpretation rand: replacement "RandReplPolicy (clamp randInt)" rand_inv rand_ready "\<lambda>_. numLines" rand_fits
  for randInt numLines
proof (unfold_locales, goal_cases)
  case 4
  have "\<And>s n. fst (clamp randInt s n) \<le> n" by (simp add: clamp_def)
  from rand_rank_correct [OF 4(1,2,4) this] show ?case
    by (fastforce simp: RandReplPolicy_def fun_eq_iff rand_fits_def)
qed (auto simp: RandReplPolicy_def rand_ready_def rand_inv_def fun_eq_iff rand_fits_def)

subsection \<open>LFU\<close>

text \<open>
  The order in which LFU evicts: lines that are not valid first, and among lines of the same
  validity those without sharers first.
\<close>

definition lfu_class :: "cc_view \<Rightarrow> nat \<Rightarrow> nat" where
  "lfu_class cc i = (if cc_isValid cc i then 2 else 0) + (if cc_numSharers cc i = 0 then 0 else 1)"

definition lfu_recorded :: "cc_view \<Rightarrow> nat list \<Rightarrow> lfu \<Rightarrow> bool" where
  "lfu_recorded cc ds p \<longleftrightarrow>
     (if ds = [] then bestCandidate p = -1
      else \<exists>c\<in>set ds. bestCandidate p = int c \<and> rank_sharers (bestRank p) = cc_numSharers cc c \<and>
        rank_valid (bestRank p) = cc_isValid cc c \<and> (\<forall>d\<in>set ds. lfu_class cc c \<le> lfu_class cc d))"

lemma lessThan_class:
  fixes cc c e
  defines "r \<equiv> \<lparr>lfuInfo = e, rank_sharers = cc_numSharers cc c, rank_valid = cc_isValid cc c\<rparr>"
  assumes "rank_sharers b = cc_numSharers cc d" "rank_valid b = cc_isValid cc d"
  shows "lessThan r b ts \<Longrightarrow> lfu_class cc c \<le> lfu_class cc d"
    and "\<not> lessThan r b ts \<Longrightarrow> lfu_class cc d \<le> lfu_class cc c"
  using assms by (auto simp: lessThan_def lfu_class_def word_gt_0 split: if_splits)

lemma lfu_record_step:
  assumes rec: "lfu_recorded cc ds p" and c: "c < length (lfu_array p)"
  shows "\<exists>p'. lfu_recordCandidate cc c p = Some p' \<and> lfu_recorded cc (ds @ [c]) p' \<and> lfu_array p' = lfu_array p"
proof -
  define r where "r = \<lparr>lfuInfo = lfu_array p ! c, rank_sharers = cc_numSharers cc c, rank_valid = cc_isValid cc c\<rparr>"
  define take_it where "take_it \<longleftrightarrow> bestCandidate p = -1 \<or> lessThan r (bestRank p) (lfu_timestamp p)"
  have step: "lfu_recordCandidate cc c p =
      Some (if take_it then p\<lparr>bestCandidate := int c, bestRank := r\<rparr> else p)"
    using c by (simp add: lfu_recordCandidate_def read_at_def Let_def r_def take_it_def)
  show ?thesis
  proof (cases "ds = []")
    case True
    then have "take_it" using rec by (simp add: lfu_recorded_def take_it_def)
    with True step show ?thesis by (simp add: lfu_recorded_def r_def)
  next
    case False
    then obtain d where d: "d \<in> set ds" "bestCandidate p = int d" "rank_sharers (bestRank p) = cc_numSharers cc d"
      "rank_valid (bestRank p) = cc_isValid cc d" "\<forall>x\<in>set ds. lfu_class cc d \<le> lfu_class cc x"
      using rec by (auto simp: lfu_recorded_def)
    have it: "take_it \<longleftrightarrow> lessThan r (bestRank p) (lfu_timestamp p)"
      by (simp add: take_it_def d(2))
    show ?thesis
    proof (cases take_it)
      case True
      have "lfu_class cc c \<le> lfu_class cc d"
        using lessThan_class(1) [OF d(3,4)] True it unfolding r_def by blast
      with d(5) have "\<forall>x\<in>set (ds @ [c]). lfu_class cc c \<le> lfu_class cc x" by force
      with True step show ?thesis by (simp add: lfu_recorded_def r_def)
    next
      case no: False
      have "lfu_class cc d \<le> lfu_class cc c"
        using lessThan_class(2) [OF d(3,4)] no it unfolding r_def by blast
      with d have "\<exists>x\<in>set (ds @ [c]). bestCandidate p = int x \<and> rank_sharers (bestRank p) = cc_numSharers cc x \<and>
          rank_valid (bestRank p) = cc_isValid cc x \<and> (\<forall>y\<in>set (ds @ [c]). lfu_class cc x \<le> lfu_class cc y)"
        by (intro bexI [of _ d]) auto
      with no step show ?thesis by (simp add: lfu_recorded_def)
    qed
  qed
qed

lemma lfu_record_all:
  assumes "lfu_recorded cc ds p" and "\<forall>c\<in>set cs. c < length (lfu_array p)"
  shows "\<exists>p'. record_all (lfu_recordCandidate cc) cs p = Some p' \<and> lfu_recorded cc (ds @ cs) p'"
  using assms
proof (induction cs arbitrary: ds p)
  case (Cons c cs)
  obtain p1 where "lfu_recordCandidate cc c p = Some p1" "lfu_recorded cc (ds @ [c]) p1" "lfu_array p1 = lfu_array p"
    using lfu_record_step [OF Cons.prems(1), of c] Cons.prems(2) by auto
  with Cons.IH [of "ds @ [c]" p1] Cons.prems(2) show ?case by auto
qed simp

lemma lfu_rank_correct:
  assumes "bestCandidate p = -1" "cands \<noteq> []" "\<forall>c\<in>set cands. c < length (lfu_array p)"
  shows "\<exists>c p'. lfu_rank cc req cands p = Some (c, p') \<and> c \<in> set cands \<and>
    (\<forall>d\<in>set cands. lfu_class cc c \<le> lfu_class cc d)"
proof -
  obtain p' where "record_all (lfu_recordCandidate cc) cands p = Some p'" "lfu_recorded cc cands p'"
    using lfu_record_all [of cc "[]" p cands] assms by (auto simp: lfu_recorded_def)
  with assms(2) show ?thesis
    by (auto simp: lfu_rank_def lfu_recorded_def lfu_getBestCandidate_def)
qed

subsection \<open>What LRU evicts\<close>

text \<open>
  The history of a policy, latest event first, and the number of the latest touch of a line since
  its last replacement (0 when there is none).
\<close>

datatype lru_event = Touch nat | Replaced nat

fun touches :: "lru_event list \<Rightarrow> nat" where
  "touches [] = 0"
| "touches (Touch i # es) = Suc (touches es)"
| "touches (Replaced i # es) = touches es"

fun last_use :: "lru_event list \<Rightarrow> nat \<Rightarrow> nat" where
  "last_use [] i = 0"
| "last_use (Touch j # es) i = (if i = j then Suc (touches es) else last_use es i)"
| "last_use (Replaced j # es) i = (if i = j then 0 else last_use es i)"

fun lru_run :: "nat \<Rightarrow> lru_event list \<Rightarrow> lru option" where
  "lru_run n [] = Some (lru_new n)"
| "lru_run n (Touch i # es) = do { p \<leftarrow> lru_run n es; lru_update None i p }"
| "lru_run n (Replaced i # es) = do { p \<leftarrow> lru_run n es; lru_replaced i p }"

lemma last_use_le: "last_use es i \<le> touches es"
  by (induction es i rule: last_use.induct) auto

lemma touches_le: "touches es \<le> length es"
  by (induction es rule: touches.induct) auto

lemma lru_run_spec:
  assumes "lru_run n es = Some p" and "length es < 2 ^ 32 - 1"
  shows "length (lru_array p) = n \<and> unat (timestamp p) = Suc (touches es) \<and>
    (\<forall>i<n. unat (lru_array p ! i) = last_use es i)"
  using assms
proof (induction n es arbitrary: p rule: lru_run.induct)
  case (1 n)
  then show ?case by (auto simp: lru_new_def)
next
  case (2 n i es)
  then obtain q where q: "lru_run n es = Some q" "lru_update None i q = Some p"
    by (auto simp: bind_eq_Some_conv)
  have IH: "length (lru_array q) = n" "unat (timestamp q) = Suc (touches es)"
    "\<forall>i<n. unat (lru_array q ! i) = last_use es i"
    using "2.IH" [OF q(1)] "2.prems"(2) by auto
  have "touches es < 2 ^ 32 - 1" using touches_le [of es] "2.prems"(2) by simp
  then have "unat (timestamp q + 1) = Suc (Suc (touches es))"
    using unat_add_small [of "timestamp q" 1] IH(2) by simp
  with q(2) IH show ?case
    by (auto simp: lru_update_def bind_eq_Some_conv nth_list_update)
next
  case (3 n i es)
  then obtain q where q: "lru_run n es = Some q" "lru_replaced i q = Some p"
    by (auto simp: bind_eq_Some_conv)
  have "length (lru_array q) = n \<and> unat (timestamp q) = Suc (touches es) \<and>
    (\<forall>i<n. unat (lru_array q ! i) = last_use es i)"
    using "3.IH" [OF q(1)] "3.prems"(2) by auto
  with q(2) show ?case by (auto simp: lru_replaced_def bind_eq_Some_conv nth_list_update)
qed

lemma lru_run_total: "\<forall>e\<in>set es. (case e of Touch i \<Rightarrow> i < n | Replaced i \<Rightarrow> i < n) \<Longrightarrow>
  \<exists>p. lru_run n es = Some p \<and> length (lru_array p) = n"
proof (induction es)
  case (Cons e es)
  then show ?case
    by (cases e) (auto simp: lru_update_def lru_replaced_def write_at_def)
qed (simp add: lru_new_def)

lemma unat_trunc: "unat s < 2 ^ 32 \<Longrightarrow> unat (trunc s) = unat s"
proof -
  assume s: "unat s < 2 ^ 32"
  have "unat (trunc s) = unat (ucast s :: u32)" by (simp add: trunc_def unat_widen)
  also have "\<dots> = unat s"
    using s by (simp only: unsigned_ucast_eq take_bit_eq_mod) simp
  finally show ?thesis .
qed

lemma lex_score:
  assumes "a < t" "b < (t::nat)"
  shows "n * t + a \<le> m * t + b \<longleftrightarrow> n < m \<or> n = m \<and> a \<le> b"
proof -
  have less: "x * t + c < y * t + d" if "x < y" "c < t" for x y c d
  proof -
    have "x * t + c < Suc x * t" using that(2) by simp
    also have "\<dots> \<le> y * t" using that(1) by (intro mult_le_mono1) simp
    finally show ?thesis by simp
  qed
  consider "n < m" | "n = m" | "m < n" by (rule linorder_cases)
  then show ?thesis
  proof cases
    case 3
    with less [of m n b a] assms(2) show ?thesis by simp
  qed (use less [of n m a b] assms(1) in auto)
qed

text \<open>The order of the comment above \<^verbatim>\<open>score\<close>: sharers, then the time of the last use, where a line that is
  not valid counts as never used.\<close>

definition lru_before :: "cc_view \<Rightarrow> lru_event list \<Rightarrow> nat \<Rightarrow> nat \<Rightarrow> bool" where
  "lru_before cc es c d \<longleftrightarrow>
     (let use = (\<lambda>i. if cc_isValid cc i then last_use es i else 0);
          sh = (\<lambda>i. unat (cc_numSharers cc i))
      in sh c < sh d \<or> sh c = sh d \<and> use c \<le> use d)"

lemma lru_score_value:
  assumes run: "lru_run n es = Some p" and i: "i < n"
    and sh: "(unat (cc_numSharers cc i) + 1) * Suc (length es) < 2 ^ 32"
  shows "\<exists>s. lru_score True cc p i = Some s \<and>
    unat (trunc s) = unat (cc_numSharers cc i) * Suc (touches es) + (if cc_isValid cc i then last_use es i else 0)"
proof -
  have few: "length es < 2 ^ 32 - 1" using sh by simp
  note sp = lru_run_spec [OF run few]
  let ?n = "unat (cc_numSharers cc i)" and ?a = "if cc_isValid cc i then last_use es i else 0"
  have "?n * Suc (touches es) + ?a \<le> ?n * Suc (length es) + Suc (length es)"
    using touches_le [of es] last_use_le [of es i] by (intro add_mono mult_le_mono2) auto
  with sh have tot: "?n * Suc (touches es) + ?a < 2 ^ 32" by simp
  have w: "unat (ucast (cc_numSharers cc i) :: u64) = ?n" by (simp add: unat_widen)
  have m: "unat (shared_part True cc i p) = ?n * Suc (touches es)"
    using tot sp unat_mult_small [of "ucast (cc_numSharers cc i)" "timestamp p"]
    by (simp add: shared_part_def w)
  have a: "unat (lru_array p ! i * (if cc_isValid cc i then 1 else 0)) = ?a"
    using sp i by simp
  have "unat (shared_part True cc i p + lru_array p ! i * (if cc_isValid cc i then 1 else 0)) =
      ?n * Suc (touches es) + ?a"
    using tot unat_add_small [of "shared_part True cc i p" "lru_array p ! i * (if cc_isValid cc i then 1 else 0)"]
    by (simp only: m a) simp
  with tot unat_trunc sp i show ?thesis
    by (simp add: lru_score_def read_at_def)
qed

lemma lru_rank_order:
  assumes run: "lru_run n es = Some p" and ne: "cands \<noteq> []" and in_n: "\<forall>c\<in>set cands. c < n"
    and sh: "\<forall>c\<in>set cands. (unat (cc_numSharers cc c) + 1) * Suc (length es) < 2 ^ 32"
  shows "\<exists>c. rp_rankCands (LRUReplPolicy True) cc req cands p = Some (c, p) \<and> c \<in> set cands \<and>
    (\<forall>d\<in>set cands. lru_before cc es c d)"
proof -
  let ?k = "\<lambda>i. unat (cc_numSharers cc i) * Suc (touches es) + (if cc_isValid cc i then last_use es i else 0)"
  have val: "\<forall>c\<in>set cands. \<exists>s. lru_score True cc p c = Some s \<and> unat (trunc s) = ?k c"
    using lru_score_value [OF run] in_n sh by blast
  then have some: "\<forall>c\<in>set cands. lru_score True cc p c \<noteq> None" by auto
  obtain c ys zs where c: "rank_by (lru_score True) cc req cands p = Some (c, p)" "cands = ys @ c # zs"
    "\<forall>d\<in>set ys. trunc (the (lru_score True cc p c)) < trunc (the (lru_score True cc p d))"
    "\<forall>d\<in>set zs. trunc (the (lru_score True cc p c)) \<le> trunc (the (lru_score True cc p d))"
    using rank_by_first_min [of cands "lru_score True" cc p req, OF some ne] by blast
  have key: "\<And>d. d \<in> set cands \<Longrightarrow> unat (trunc (the (lru_score True cc p d))) = ?k d"
    using val by fastforce
  have min: "?k c \<le> ?k d" if d: "d \<in> set cands" for d
  proof -
    have "trunc (the (lru_score True cc p c)) \<le> trunc (the (lru_score True cc p d))"
      using d c(2,3,4) less_imp_le by auto
    then show ?thesis using key [OF d] key [of c] c(2) by (simp add: word_le_nat_alt)
  qed
  have lt: "(if cc_isValid cc i then last_use es i else 0) < Suc (touches es)" for i
    using last_use_le [of es i] by auto
  have "\<forall>d\<in>set cands. lru_before cc es c d"
    using min lex_score [OF lt lt] unfolding lru_before_def Let_def by blast
  with c(1,2) show ?thesis by (auto simp: LRUReplPolicy_def)
qed

subsection \<open>The profiling wrapper\<close>

definition prof_total :: "'p prof_viol \<Rightarrow> u64" where
  "prof_total p = profRAW p + profWAR p + profRAR p + profWAW p + profNoViolAcc p"

lemma prof_record_total:
  "\<exists>p'. prof_record rd cycle t p = Some p' \<and> prof_total p' = prof_total p + 1 \<and>
     (profNoViolAcc p' = profNoViolAcc p + 1 \<longleftrightarrow> acc_read t \<le> cycle \<and> acc_write t \<le> cycle) \<and>
     prof_base p' = prof_base p \<and> accTimes p' = accTimes p \<and> replCycle p' = replCycle p \<and>
     profAAE p' = profAAE p \<and> profNoViolEv p' = profNoViolEv p"
proof -
  have viol: "cycle < MAX2 (acc_read t) (acc_write t) \<longleftrightarrow> \<not> (acc_read t \<le> cycle \<and> acc_write t \<le> cycle)"
    by (simp add: MAX2_max less_max_iff_disj not_le)
  show ?thesis
  proof (cases "acc_read t \<le> cycle \<and> acc_write t \<le> cycle")
    case True
    then show ?thesis by (simp add: prof_record_def viol prof_total_def)
  next
    case False
    then have "\<not> cycle < acc_read t \<Longrightarrow> cycle < acc_write t" by (simp add: not_le)
    then have "\<exists>rv. (if cycle < MIN2 (acc_read t) (acc_write t) then Some (acc_read t < acc_write t)
        else if cycle < acc_read t then Some True else do { assert_that (cycle < acc_write t); Some False }) = Some rv"
      by (simp add: assert_that_def) blast
    then obtain rv where rv: "(if cycle < MIN2 (acc_read t) (acc_write t) then Some (acc_read t < acc_write t)
        else if cycle < acc_read t then Some True else do { assert_that (cycle < acc_write t); Some False }) = Some rv" ..
    let ?q = "if rd then (if rv then p\<lparr>profRAR := profRAR p + 1\<rparr> else p\<lparr>profRAW := profRAW p + 1\<rparr>)
              else (if rv then p\<lparr>profWAR := profWAR p + 1\<rparr> else p\<lparr>profWAW := profWAW p + 1\<rparr>)"
    have "prof_record rd cycle t p = Some ?q"
      using False by (simp only: prof_record_def viol rv if_True bind.bind_lunit not_False_eq_True)
    moreover have "prof_total ?q = prof_total p + 1"
      by (cases rd; cases rv) (simp_all add: prof_total_def add_ac)
    ultimately show ?thesis using False by simp
  qed
qed

lemma prof_replaced_AAE:
  assumes "replCycle p = 0" and "rp_replaced T i (prof_base p) \<noteq> None" and "i < length (accTimes p)"
  shows "\<exists>p'. prof_replaced T i p = Some p' \<and> replCycle p' = 0 \<and>
    (profAAE p' = profAAE p + 1 \<longleftrightarrow> acc_read (accTimes p ! i) \<noteq> 0 \<or> acc_write (accTimes p ! i) \<noteq> 0)"
  using assms by (auto simp: prof_replaced_def read_at_def Let_def MAX2_def word_gt_0 split: if_splits)

subsection \<open>Properties\<close>

text \<open>C37: After any history of touches and replacements, the sharers-aware LRU policy evicts one of the
  candidates it is given: one of those with the fewest sharers and, among these, the one whose
  last use is the longest ago, where lines that are not valid count as never used. This needs the
  scores to fit the 32 bits of the variable they are compared in.\<close>
theorem lru_evicts_least_recent:
  assumes "lru_run n es = Some p" and "cands \<noteq> []" and "\<forall>c\<in>set cands. c < n"
    and "\<forall>c\<in>set cands. (unat (cc_numSharers cc c) + 1) * Suc (length es) < 2 ^ 32"
  shows "\<exists>c. rp_rankCands (LRUReplPolicy True) cc req cands p = Some (c, p) \<and> c \<in> set cands \<and>
    (\<forall>d\<in>set cands. lru_before cc es c d)"
  by (rule lru_rank_order [OF assms])

definition all_valid :: cc_view where
  "all_valid = \<lparr>cc_numSharers = (\<lambda>_. 0), cc_isValid = (\<lambda>_. True)\<rparr>"

theorem lru_evicts_least_recent_witness:
  "\<exists>p. lru_run 4 [Touch 0, Touch 2, Touch 3, Touch 1, Touch 0] = Some p \<and>
     rp_rankCands (LRUReplPolicy True) all_valid None [0, 1, 2, 3] p = Some (1, p)"
proof -
  let ?es = "[Touch 0, Touch 2, Touch 3, Touch 1, Touch 0]"
  obtain p where p: "lru_run 4 ?es = Some p" using lru_run_total [of ?es 4] by auto
  obtain c where c: "rp_rankCands (LRUReplPolicy True) all_valid None [0, 1, 2, 3] p = Some (c, p)"
    "c \<in> set [0, 1, 2, 3]" "\<forall>d\<in>set [0, 1, 2, 3]. lru_before all_valid ?es c d"
    using lru_evicts_least_recent [OF p, of "[0, 1, 2, 3]" all_valid None] by (auto simp: all_valid_def)
  have "c = 1" using c(2,3) by (auto simp: lru_before_def all_valid_def Let_def)
  with p c(1) show ?thesis by blast
qed

text \<open>the score of a line is cut to 32 bits before it is compared, so that after 2^32 accesses the LRU
  policy evicts the line used last instead of the one used first.\<close>
theorem lru_score_truncated:
  "rp_rankCands (LRUReplPolicy False) all_valid None [0, 1]
     \<lparr>timestamp = 2 ^ 32 + 1, lru_array = [2 ^ 32, 5], lru_numLines = 2\<rparr> =
   Some (0, \<lparr>timestamp = 2 ^ 32 + 1, lru_array = [2 ^ 32, 5], lru_numLines = 2\<rparr>)"
  by (simp add: LRUReplPolicy_def rank_by_def lru_score_def shared_part_def all_valid_def read_at_def MIN2_def Let_def word_gt_0)

text \<open>The NRU policy evicts a candidate of least age class, never fails an assert and never writes
  beyond its candidate buffer.\<close>
theorem nru_evicts_old:
  assumes "nru_ready p" and "cands \<noteq> []" and "\<forall>c\<in>set cands. c < nru_numLines p" and "nru_fits p cands"
  shows "\<exists>c p'. rp_rankCands NRUReplPolicy cc req cands p = Some (c, p') \<and> c \<in> set cands \<and>
    (\<forall>d\<in>set cands. nru_array p ! c \<le> nru_array p ! d)"
  using nru_rank_correct [OF assms, of cc req] by (auto simp: NRUReplPolicy_def)

theorem nru_evicts_old_witness:
  "\<exists>c p'. rp_rankCands NRUReplPolicy all_valid None [1, 2] (nru_new 8 4) = Some (c, p') \<and> c \<in> {1, 2}"
  using nru_evicts_old [of "nru_new 8 4" "[1, 2]" all_valid None]
  by (auto simp: nru_new_def nru_ready_def nru_inv_def nru_fits_def)

text \<open>The states of an NRU policy after any sequence of touches and replacements.\<close>

fun nru_run :: "nat \<Rightarrow> nat \<Rightarrow> lru_event list \<Rightarrow> nru option" where
  "nru_run n k [] = Some (nru_new n k)"
| "nru_run n k (Touch i # es) = do { p \<leftarrow> nru_run n k es; nru_update None i p }"
| "nru_run n k (Replaced i # es) = do { p \<leftarrow> nru_run n k es; nru_replaced i p }"

lemma nru_run_bounded:
  assumes "n < 2 ^ 32" and "\<forall>e\<in>set es. (case e of Touch i \<Rightarrow> i < n | Replaced i \<Rightarrow> i < n)"
  shows "\<exists>p. nru_run n k es = Some p \<and> nru_bounded p \<and> nru_numLines p = n"
  using assms(2)
proof (induction es)
  case Nil
  then show ?case
    using assms(1) by (simp add: nru_new_def nru_bounded_def nru_inv_def young_count_def)
next
  case (Cons e es)
  then obtain p where p: "nru_run n k es = Some p" "nru_bounded p" "nru_numLines p = n" by auto
  show ?case
  proof (cases e)
    case (Touch i)
    with Cons.prems p nru_update_bounded [OF p(2), of i None] nru_update_fields [of p i None] show ?thesis
      by (auto simp: nru_bounded_def)
  next
    case (Replaced i)
    with Cons.prems p nru_replaced_bounded [OF p(2), of i] show ?thesis
      by (auto simp: nru_replaced_def bind_eq_Some_conv)
  qed
qed

text \<open>after any history of touches and replacements fewer than half of the lines of the NRU policy are
  young (none when there are fewer than four lines), so that an old line can be found.\<close>
theorem nru_young_minority:
  assumes "n < 2 ^ 32" and "\<forall>e\<in>set es. (case e of Touch i \<Rightarrow> i < n | Replaced i \<Rightarrow> i < n)"
  shows "\<exists>p. nru_run n k es = Some p \<and>
    (young_count (nru_array p) < n div 2 \<or> young_count (nru_array p) = 0)"
  using nru_run_bounded [OF assms, of k] by (auto simp: nru_bounded_def)

theorem nru_young_minority_witness:
  "\<exists>p. nru_run 8 4 [Touch 1, Replaced 3, Touch 3, Touch 0, Touch 7] = Some p \<and> young_count (nru_array p) < 4"
  using nru_young_minority [of 8 "[Touch 1, Replaced 3, Touch 3, Touch 0, Touch 7]" 4] by auto

text \<open>the LFU policy evicts a candidate that is not valid when there is one, and prefers, among
  candidates of the same validity, one without sharers.\<close>
theorem lfu_evicts_class:
  assumes "bestCandidate p = -1" and "cands \<noteq> []" and "\<forall>c\<in>set cands. c < length (lfu_array p)"
  shows "\<exists>c p'. rp_rankCands LFUReplPolicy cc req cands p = Some (c, p') \<and> c \<in> set cands \<and>
    (\<forall>d\<in>set cands. lfu_class cc c \<le> lfu_class cc d)"
  using lfu_rank_correct [OF assms, of cc req] by (simp add: LFUReplPolicy_def)

theorem lfu_evicts_class_witness:
  "\<exists>c p'. rp_rankCands LFUReplPolicy \<lparr>cc_numSharers = (\<lambda>_. 0), cc_isValid = (\<lambda>i. i \<noteq> 2)\<rparr> None [1, 2, 3] (lfu_new 4) = Some (c, p') \<and>
     c = 2"
  using lfu_evicts_class [of "lfu_new 4" "[1, 2, 3]" "\<lparr>cc_numSharers = (\<lambda>_. 0), cc_isValid = (\<lambda>i. i \<noteq> 2)\<rparr>" None]
  by (auto simp: lfu_new_def lfu_class_def)

text \<open>the profiling wrapper calls an eviction a violation whenever the line was accessed at a nonzero
  cycle, because no replacement sets \<^verbatim>\<open>replCycle\<close>, which stays at the 0 that \<^verbatim>\<open>init\<close> gives it.\<close>
theorem prof_every_eviction_violates:
  assumes "replCycle p = 0" and "rp_replaced T i (prof_base p) \<noteq> None" and "i < length (accTimes p)"
  shows "\<exists>p'. rp_replaced (ProfViolReplPolicy T) i p = Some p' \<and> replCycle p' = 0 \<and>
    (profAAE p' = profAAE p + 1 \<longleftrightarrow> acc_read (accTimes p ! i) \<noteq> 0 \<or> acc_write (accTimes p ! i) \<noteq> 0)"
  using prof_replaced_AAE [OF assms] by (simp add: ProfViolReplPolicy_def)

theorem prof_every_eviction_violates_witness:
  "\<exists>p'. rp_replaced (ProfViolReplPolicy (LRUReplPolicy False)) 1
      ((prof_new 2 (lru_new 2))\<lparr>accTimes := [\<lparr>acc_read = 0, acc_write = 0\<rparr>, \<lparr>acc_read = 7, acc_write = 0\<rparr>]\<rparr>) = Some p' \<and>
     profAAE p' = 1"
  using prof_every_eviction_violates [of "(prof_new 2 (lru_new 2))\<lparr>accTimes := [\<lparr>acc_read = 0, acc_write = 0\<rparr>, \<lparr>acc_read = 7, acc_write = 0\<rparr>]\<rparr>" "LRUReplPolicy False" 1]
  by (auto simp: prof_new_def lru_new_def LRUReplPolicy_def lru_replaced_def write_at_def)

end
