(* ===== verification/Cache_Arrays.thy ===== *)
theory Cache_Arrays imports Hash_Family Repl_Policies begin

text \<open>
  The cache arrays of \<^verbatim>\<open>zsim/src/cache_arrays.h\<close> and \<^verbatim>\<open>cache_arrays.cpp\<close>: the set-associative array
  and the zcache. An array translates line addresses to line ids; address 0 marks an empty line.
  The replacement policy and the hash family are arguments of the operations; the state of the
  policy is part of the state of the array.
\<close>

text \<open>\<^verbatim>\<open>hf->hash(w, addr) & setMask\<close>, stored in a 32-bit variable.\<close>

definition set_index :: "hash_fn \<Rightarrow> u32 \<Rightarrow> u32 \<Rightarrow> address \<Rightarrow> nat option" where
  "set_index hf msk w a = do {
     h \<leftarrow> hf w a;
     Some (unat (ucast (h AND ucast msk) :: u32))
   }"

subsection \<open>Set-associative array\<close>

record 'p SetAssocArray =
  sa_array :: "address list"
  sa_rp :: 'p
  sa_numLines :: nat
  sa_numSets :: nat
  sa_assoc :: nat
  sa_setMask :: u32

definition sa_new :: "nat \<Rightarrow> nat \<Rightarrow> 'p \<Rightarrow> 'p SetAssocArray option" where
  "sa_new numLines assoc rp = do {
     assert_that (assoc \<noteq> 0);
     let numSets = numLines div assoc;
     assert_that (isPow2 (of_nat numSets :: u32));
     Some \<lparr>sa_array = replicate numLines 0, sa_rp = rp, sa_numLines = numLines, sa_numSets = numSets,
           sa_assoc = assoc, sa_setMask = of_nat numSets - 1\<rparr>
   }"

fun find_line :: "address list \<Rightarrow> address \<Rightarrow> nat \<Rightarrow> nat \<Rightarrow> int option" where
  "find_line a line i 0 = Some (-1)"
| "find_line a line i (Suc n) = do {
     x \<leftarrow> read_at a i;
     (if x = line then Some (int i) else find_line a line (Suc i) n)
   }"

definition sa_lookup :: "hash_fn \<Rightarrow> 'p ReplPolicy \<Rightarrow> address \<Rightarrow> MemReq option \<Rightarrow> bool \<Rightarrow>
    'p SetAssocArray \<Rightarrow> (int \<times> 'p SetAssocArray) option" where
  "sa_lookup hf P line req updateReplacement s = do {
     set \<leftarrow> set_index hf (sa_setMask s) 0 line;
     r \<leftarrow> find_line (sa_array s) line (set * sa_assoc s) (sa_assoc s);
     (if r \<noteq> -1 \<and> updateReplacement then do {
        rp \<leftarrow> rp_update P req (nat r) (sa_rp s);
        Some (r, s\<lparr>sa_rp := rp\<rparr>)
      } else Some (r, s))
   }"

definition sa_preinsert :: "hash_fn \<Rightarrow> 'p ReplPolicy \<Rightarrow> cc_view \<Rightarrow> address \<Rightarrow> MemReq option \<Rightarrow>
    'p SetAssocArray \<Rightarrow> (nat \<times> address \<times> 'p SetAssocArray) option" where
  "sa_preinsert hf P cc line req s = do {
     set \<leftarrow> set_index hf (sa_setMask s) 0 line;
     let first = set * sa_assoc s;
     (candidate, rp) \<leftarrow> rp_rankCands P cc req [first..<first + sa_assoc s] (sa_rp s);
     wbLineAddr \<leftarrow> read_at (sa_array s) candidate;
     Some (candidate, wbLineAddr, s\<lparr>sa_rp := rp\<rparr>)
   }"

definition sa_postinsert :: "'p ReplPolicy \<Rightarrow> address \<Rightarrow> MemReq option \<Rightarrow> nat \<Rightarrow>
    'p SetAssocArray \<Rightarrow> 'p SetAssocArray option" where
  "sa_postinsert P line req candidate s = do {
     rp \<leftarrow> rp_replaced P candidate (sa_rp s);
     a \<leftarrow> write_at (sa_array s) candidate line;
     rp \<leftarrow> rp_update P req candidate rp;
     Some (s\<lparr>sa_array := a, sa_rp := rp\<rparr>)
   }"

subsection \<open>ZCache\<close>

record ZWalkInfo =
  zw_pos :: nat
  zw_lineId :: nat
  zw_parentIdx :: int

record 'p ZArray =
  z_array :: "address list"
  z_lookupArray :: "nat list"
  z_rp :: 'p
  z_numLines :: nat
  z_numSets :: nat
  z_ways :: nat
  z_cands :: nat
  z_setMask :: u32
  z_swapArray :: "nat list"
  z_swapArrayLen :: nat
  z_lastCandIdx :: nat
  z_statSwaps :: nat

definition z_new :: "nat \<Rightarrow> nat \<Rightarrow> nat \<Rightarrow> 'p \<Rightarrow> 'p ZArray option" where
  "z_new numLines ways cands rp = do {
     assert_that (ways > 1);
     assert_that (cands \<ge> ways);
     assert_that (numLines mod ways = 0);
     let numSets = numLines div ways;
     assert_that (isPow2 (of_nat numSets :: u32));
     Some \<lparr>z_array = replicate numLines 0, z_lookupArray = [0..<numLines], z_rp = rp, z_numLines = numLines,
           z_numSets = numSets, z_ways = ways, z_cands = cands, z_setMask = of_nat numSets - 1,
           z_swapArray = replicate (cands div ways + 2) 0, z_swapArrayLen = 0, z_lastCandIdx = 0,
           z_statSwaps = 0\<rparr>
   }"

text \<open>The position of way \<open>w\<close> of an address and the line that is there.\<close>

definition z_pos :: "hash_fn \<Rightarrow> 'p ZArray \<Rightarrow> nat \<Rightarrow> address \<Rightarrow> nat option" where
  "z_pos hf z w a = do {
     h \<leftarrow> set_index hf (z_setMask z) (of_nat w) a;
     Some (w * z_numSets z + h)
   }"

fun z_find :: "hash_fn \<Rightarrow> 'p ZArray \<Rightarrow> address \<Rightarrow> nat \<Rightarrow> nat \<Rightarrow> int option" where
  "z_find hf z line w 0 = Some (-1)"
| "z_find hf z line w (Suc n) = do {
     pos \<leftarrow> z_pos hf z w line;
     lineId \<leftarrow> read_at (z_lookupArray z) pos;
     x \<leftarrow> read_at (z_array z) lineId;
     (if x = line then Some (int lineId) else z_find hf z line (Suc w) n)
   }"

definition z_lookup :: "hash_fn \<Rightarrow> 'p ReplPolicy \<Rightarrow> address \<Rightarrow> MemReq option \<Rightarrow> bool \<Rightarrow>
    'p ZArray \<Rightarrow> (int \<times> 'p ZArray) option" where
  "z_lookup hf P line req updateReplacement z = do {
     assert_that (line \<noteq> 0);
     r \<leftarrow> z_find hf z line 0 (z_ways z);
     (if r \<noteq> -1 \<and> updateReplacement then do {
        rp \<leftarrow> rp_update P req (nat r) (z_rp z);
        Some (r, z\<lparr>z_rp := rp\<rparr>)
      } else Some (r, z))
   }"

text \<open>
  The walk. The buffer of candidates is a list: \<^verbatim>\<open>numCandidates\<close> is its length, and the entry that
  the code writes and then overwrites, because its line is the one being expanded, is not appended;
  it has room for \<^verbatim>\<open>cands + ways\<close> entries.
\<close>

fun z_seeds :: "hash_fn \<Rightarrow> 'p ZArray \<Rightarrow> address \<Rightarrow> nat \<Rightarrow> nat \<Rightarrow> (ZWalkInfo list \<times> bool) option" where
  "z_seeds hf z line w 0 = Some ([], True)"
| "z_seeds hf z line w (Suc n) = do {
     pos \<leftarrow> z_pos hf z w line;
     lineId \<leftarrow> read_at (z_lookupArray z) pos;
     x \<leftarrow> read_at (z_array z) lineId;
     (cs, valid) \<leftarrow> z_seeds hf z line (Suc w) n;
     Some (\<lparr>zw_pos = pos, zw_lineId = lineId, zw_parentIdx = -1\<rparr> # cs, (x \<noteq> 0) \<and> valid)
   }"

fun z_expand_ways :: "hash_fn \<Rightarrow> 'p ZArray \<Rightarrow> nat \<Rightarrow> nat \<Rightarrow> address \<Rightarrow> nat \<Rightarrow> nat \<Rightarrow>
    ZWalkInfo list \<Rightarrow> bool \<Rightarrow> (ZWalkInfo list \<times> bool) option" where
  "z_expand_ways hf z fringeStart fringeId fringeAddr w 0 cs valid = Some (cs, valid)"
| "z_expand_ways hf z fringeStart fringeId fringeAddr w (Suc n) cs valid = do {
     pos \<leftarrow> z_pos hf z w fringeAddr;
     lineId \<leftarrow> read_at (z_lookupArray z) pos;
     assert_that (length cs < z_cands z + z_ways z);
     x \<leftarrow> read_at (z_array z) lineId;
     z_expand_ways hf z fringeStart fringeId fringeAddr (Suc w) n
       (if lineId \<noteq> fringeId then cs @ [\<lparr>zw_pos = pos, zw_lineId = lineId, zw_parentIdx = int fringeStart\<rparr>] else cs)
       (valid \<and> x \<noteq> 0)
   }"

text \<open>The expansion; a step that adds no candidate would loop on the next one, and the walk ends when the
  fringe runs out of candidates (an access beyond the candidates written so far).\<close>

function z_expand :: "hash_fn \<Rightarrow> 'p ZArray \<Rightarrow> nat \<Rightarrow> ZWalkInfo list \<Rightarrow> bool \<Rightarrow> (ZWalkInfo list \<times> bool) option" where
  "z_expand hf z fringeStart cs valid =
     (if length cs < z_cands z \<and> valid then
        (if fringeStart < length cs then
           (let fringeId = zw_lineId (cs ! fringeStart) in
            case read_at (z_array z) fringeId of
              None \<Rightarrow> None
            | Some fringeAddr \<Rightarrow>
                if fringeAddr = 0 then None
                else (case z_expand_ways hf z fringeStart fringeId fringeAddr 0 (z_ways z) cs valid of
                        None \<Rightarrow> None
                      | Some (cs', valid') \<Rightarrow> z_expand hf z (Suc fringeStart) cs' valid'))
         else None)
      else Some (cs, valid))"
  by pat_completeness auto
termination
  by (relation "measure (\<lambda>(hf, z, fringeStart, cs, valid). z_cands z - fringeStart)") auto

declare z_expand.simps [simp del]

definition z_min_idx :: "nat \<Rightarrow> ZWalkInfo list \<Rightarrow> nat option" where
  "z_min_idx best cs =
     (case filter (\<lambda>i. zw_lineId (cs ! i) = best) [0..<length cs] of [] \<Rightarrow> None | i # _ \<Rightarrow> Some i)"

text \<open>The path from a candidate back to a seed; it is at most as long as its index plus one.\<close>

fun z_path :: "ZWalkInfo list \<Rightarrow> nat \<Rightarrow> int \<Rightarrow> nat list option" where
  "z_path cs 0 idx = (if idx < 0 then Some [] else None)"
| "z_path cs (Suc fuel) idx =
     (if idx < 0 then Some []
      else do {
        c \<leftarrow> read_at cs (nat idx);
        rest \<leftarrow> z_path cs fuel (zw_parentIdx c);
        Some (zw_pos c # rest)
      })"

definition z_preinsert :: "hash_fn \<Rightarrow> 'p ReplPolicy \<Rightarrow> cc_view \<Rightarrow> address \<Rightarrow> MemReq option \<Rightarrow>
    'p ZArray \<Rightarrow> (nat \<times> address \<times> 'p ZArray) option" where
  "z_preinsert hf P cc line req z = do {
     (seeds, valid) \<leftarrow> z_seeds hf z line 0 (z_ways z);
     (cs, all_valid) \<leftarrow> z_expand hf z 0 seeds valid;
     assert_that (\<not> all_valid \<or> length cs \<ge> z_cands z);
     let candidates = take (z_cands z) cs;
     (bestCandidate, rp) \<leftarrow> rp_rankCands P cc req (map zw_lineId candidates) (z_rp z);
     assert_that (bestCandidate < z_numLines z);
     minIdx \<leftarrow> z_min_idx bestCandidate candidates;
     path \<leftarrow> z_path candidates (length candidates) (int minIdx);
     assert_that (length path \<le> length (z_swapArray z));
     assert_that (length path > 0);
     wbLineAddr \<leftarrow> read_at (z_array z) bestCandidate;
     Some (bestCandidate, wbLineAddr,
       z\<lparr>z_rp := rp, z_swapArray := path @ drop (length path) (z_swapArray z),
         z_swapArrayLen := length path, z_lastCandIdx := minIdx\<rparr>)
   }"

text \<open>The swaps of \<^verbatim>\<open>postinsert\<close>: every position of the path takes the line of the next one, the last one
  the line that is replaced.\<close>

fun z_swaps :: "nat list \<Rightarrow> nat \<Rightarrow> nat list \<Rightarrow> nat list option" where
  "z_swaps [] candidate la = None"
| "z_swaps [p] candidate la = write_at la p candidate"
| "z_swaps (p # q # ps) candidate la = do {
     v \<leftarrow> read_at la q;
     la' \<leftarrow> write_at la p v;
     z_swaps (q # ps) candidate la'
   }"

definition z_postinsert :: "'p ReplPolicy \<Rightarrow> address \<Rightarrow> MemReq option \<Rightarrow> nat \<Rightarrow> 'p ZArray \<Rightarrow> 'p ZArray option" where
  "z_postinsert P line req candidate z = do {
     p0 \<leftarrow> read_at (z_swapArray z) 0;
     l0 \<leftarrow> read_at (z_lookupArray z) p0;
     assert_that (l0 = candidate);
     la \<leftarrow> z_swaps (take (z_swapArrayLen z) (z_swapArray z)) candidate (z_lookupArray z);
     rp \<leftarrow> rp_replaced P candidate (z_rp z);
     a \<leftarrow> write_at (z_array z) candidate line;
     rp \<leftarrow> rp_update P req candidate rp;
     Some (z\<lparr>z_lookupArray := la, z_array := a, z_rp := rp, z_statSwaps := z_statSwaps z + (z_swapArrayLen z - 1)\<rparr>)
   }"

end
