(* ===== verification/Dpg_Map.thy ===== *)
theory Dpg_Map imports Approx_Regions Mem_Hierarchy begin

text \<open>
  \<^verbatim>\<open>DPG_Array::get_map\<close>: the value under which the Doppelganger cache finds similar lines, computed from
  the sixteen 32-bit elements of a line.

  Integer elements are values of the C type \<^verbatim>\<open>int\<close>; an arithmetic result that does not fit is undefined
  behaviour, \<open>None\<close> here, like a division by zero. The single-precision arithmetic of the other
  branch is the parameter \<open>float_ops\<close>: the operations of the machine on its type of floats.
\<close>

definition Mbits :: nat where
  "Mbits = 12"

subsection \<open>Arithmetic of the C type int\<close>

definition fits_int :: "int \<Rightarrow> int option" where
  "fits_int v = (if - (2 ^ 31) \<le> v \<and> v < 2 ^ 31 then Some v else None)"

definition int_div :: "int \<Rightarrow> int \<Rightarrow> int option" where
  "int_div a b = (if b = 0 then None else fits_int (sgn a * sgn b * (\<bar>a\<bar> div \<bar>b\<bar>)))"

definition DATA_INT_MIN :: int where
  "DATA_INT_MIN = - (2 ^ 31)"

definition DATA_INT_MAX :: int where
  "DATA_INT_MAX = 2 ^ 31 - 1"

fun int_scan :: "int list \<Rightarrow> int \<Rightarrow> int \<Rightarrow> int \<Rightarrow> (int \<times> int \<times> int) option" where
  "int_scan [] mn mx avg = Some (mn, mx, avg)"
| "int_scan (v # vs) mn mx avg = do {
     let mn = (if v < mn then v else mn);
     let mx = (if v > mx then v else mx);
     avg \<leftarrow> fits_int (avg + v);
     int_scan vs mn mx avg
   }"

text \<open>\<^verbatim>\<open>((x - IMIN) * ((1 << Mbits) - 1))/(IMAX - IMIN)\<close>, converted to 32 bits.\<close>

definition int_hash :: "int \<Rightarrow> int \<Rightarrow> int \<Rightarrow> int option" where
  "int_hash imin imax x = do {
     d \<leftarrow> fits_int (x - imin);
     p \<leftarrow> fits_int (d * (2 ^ Mbits - 1));
     w \<leftarrow> fits_int (imax - imin);
     int_div p w
   }"

definition map_combine :: "u32 \<Rightarrow> u32 \<Rightarrow> u32" where
  "map_combine hf_range hf_avg =
     push_bit (MESIStateIndex StM) (drop_bit (MESIStateIndex StM div 2) hf_range) OR hf_avg"

definition get_map_int :: "int \<Rightarrow> int \<Rightarrow> int list \<Rightarrow> u32 option" where
  "get_map_int imin imax vals = do {
     (mn, mx, sum) \<leftarrow> int_scan vals DATA_INT_MAX DATA_INT_MIN 0;
     avg \<leftarrow> int_div sum 16;
     rng \<leftarrow> fits_int (mx - mn);
     hf_avg \<leftarrow> int_hash imin imax avg;
     hf_range \<leftarrow> int_hash imin imax rng;
     Some (map_combine (of_int hf_range) (of_int hf_avg))
   }"

subsection \<open>Floating point lines\<close>

record 'f float_ops =
  f_lt :: "'f \<Rightarrow> 'f \<Rightarrow> bool"
  f_add :: "'f \<Rightarrow> 'f \<Rightarrow> 'f"
  f_sub :: "'f \<Rightarrow> 'f \<Rightarrow> 'f"
  f_mul :: "'f \<Rightarrow> 'f \<Rightarrow> 'f"
  f_div :: "'f \<Rightarrow> 'f \<Rightarrow> 'f"
  f_of_int :: "int \<Rightarrow> 'f"
  f_neg :: "'f \<Rightarrow> 'f"
  f_max :: 'f
  f_to_u32 :: "'f \<Rightarrow> u32 option"

fun float_scan :: "'f float_ops \<Rightarrow> 'f list \<Rightarrow> 'f \<Rightarrow> 'f \<Rightarrow> 'f \<Rightarrow> 'f \<times> 'f \<times> 'f" where
  "float_scan F [] mn mx avg = (mn, mx, avg)"
| "float_scan F (v # vs) mn mx avg =
     float_scan F vs (if f_lt F v mn then v else mn) (if f_lt F mx v then v else mx) (f_add F avg v)"

definition float_hash :: "'f float_ops \<Rightarrow> 'f \<Rightarrow> 'f \<Rightarrow> 'f \<Rightarrow> u32 option" where
  "float_hash F fmin fmax x =
     f_to_u32 F (f_div F (f_mul F (f_sub F x fmin) (f_of_int F (2 ^ Mbits - 1))) (f_sub F fmax fmin))"

definition get_map_float :: "'f float_ops \<Rightarrow> 'f \<Rightarrow> 'f \<Rightarrow> 'f list \<Rightarrow> u32 option" where
  "get_map_float F fmin fmax vals = do {
     let (mn, mx, sum) = float_scan F vals (f_max F) (f_neg F (f_max F)) (f_of_int F 0);
     let rng = f_sub F mx mn;
     let avg = f_div F sum (f_of_int F 16);
     hf_avg \<leftarrow> float_hash F fmin fmax avg;
     hf_range \<leftarrow> float_hash F fmin fmax rng;
     Some (map_combine hf_range hf_avg)
   }"

subsection \<open>get_map\<close>

definition get_map :: "'t dict_info \<Rightarrow> nat \<Rightarrow> 't \<Rightarrow> (address \<Rightarrow> int) \<Rightarrow> (address \<Rightarrow> 'f) \<Rightarrow> 'f float_ops \<Rightarrow>
    int \<Rightarrow> int \<Rightarrow> 'f \<Rightarrow> 'f \<Rightarrow> address \<Rightarrow> u32 option" where
  "get_map D lineBits tree int_mem float_mem F imin imax fmin fmax line = do {
     let a = push_bit lineBits line;
     approxType \<leftarrow> find_approx_type D tree a;
     (if approxType = Approx_uint
      then get_map_int imin imax (map (\<lambda>i. int_mem (a + of_nat (4 * i))) [0..<16])
      else get_map_float F fmin fmax (map (\<lambda>i. float_mem (a + of_nat (4 * i))) [0..<16]))
   }"

subsection \<open>The range of the hash\<close>

lemma fits_int_Some [simp]: "fits_int v = Some w \<longleftrightarrow> w = v \<and> - (2 ^ 31) \<le> v \<and> v < 2 ^ 31"
  by (auto simp: fits_int_def)

lemma int_div_bounds:
  assumes "int_div a b = Some q" and "0 < b" and "0 \<le> a" and "a \<le> c * b"
  shows "0 \<le> q \<and> q \<le> c"
proof -
  have q: "q = a div b"
    using assms by (cases "a = 0") (auto simp: int_div_def sgn_if split: if_splits)
  have "a div b \<le> (c * b) div b" using assms(2,4) by (intro zdiv_mono1) auto
  with q assms(2,3) show ?thesis by (simp add: pos_imp_zdiv_nonneg_iff)
qed

lemma int_hash_range:
  assumes "int_hash imin imax x = Some h" and "imin \<le> x" and "x \<le> imax" and "imin < imax"
  shows "0 \<le> h \<and> h \<le> 4095"
proof (rule int_div_bounds)
  show "int_div ((x - imin) * 4095) (imax - imin) = Some h"
    using assms(1) by (auto simp: int_hash_def Mbits_def bind_eq_Some_conv)
qed (use assms(2-4) in auto)

lemma int_scan_sum:
  "int_scan vs mn mx a = Some (mn', mx', s) \<Longrightarrow> s = a + sum_list vs \<and> mn' \<le> mn \<and> mx \<le> mx' \<and>
     (\<forall>v\<in>set vs. mn' \<le> v \<and> v \<le> mx') \<and> (mn' = mn \<or> mn' \<in> set vs) \<and> (mx' = mx \<or> mx' \<in> set vs)"
proof (induction vs arbitrary: mn mx a)
  case (Cons v vs)
  have "int_scan vs (if v < mn then v else mn) (if v > mx then v else mx) (a + v) = Some (mn', mx', s)"
    using Cons.prems by (auto simp: Let_def bind_eq_Some_conv)
  from Cons.IH [OF this] show ?case by (auto split: if_splits)
qed simp

lemma int_div_avg:
  assumes "int_div s 16 = Some q" and "16 * lo \<le> s" and "s \<le> 16 * hi"
  shows "lo \<le> q \<and> q \<le> hi"
  using assms by (auto simp: int_div_def sgn_if split: if_splits)

lemma word_less_exp: "take_bit n w = w \<Longrightarrow> n < LENGTH('a) \<Longrightarrow> unat (w::'a::len word) < 2 ^ n"
  by (metis take_bit_nat_less_exp unsigned_take_bit_eq min.strict_order_iff)

lemma take_bit_small_word:
  assumes "unat (w::u32) < 2 ^ n"
  shows "take_bit n w = w"
proof -
  have "unat (take_bit n w) = take_bit n (unat w)" by (rule unsigned_take_bit_eq)
  also have "\<dots> = unat w" using assms by (simp add: take_bit_eq_mod)
  finally show ?thesis by (rule unsigned_word_eqI)
qed

lemma bit_small: "take_bit n w = (w::u32) \<Longrightarrow> bit w k \<Longrightarrow> k < n"
  by (metis bit_take_bit_iff)

lemma map_combine_less:
  assumes "unat hr < 2 ^ 12" and "unat ha < 2 ^ 12"
  shows "unat (map_combine hr ha) < 2 ^ 14"
proof -
  have hr: "take_bit 12 hr = hr" and ha: "take_bit 12 ha = ha"
    using assms by (simp_all only: take_bit_small_word)
  have "take_bit 14 (map_combine hr ha) = map_combine hr ha"
    by (rule bit_eqI)
      (auto simp: map_combine_def MESIStateIndex_def bit_simps dest: bit_small [OF hr] bit_small [OF ha])
  then show ?thesis by (rule word_less_exp) simp
qed

lemma unat_of_int: "0 \<le> i \<Longrightarrow> i < 2 ^ 32 \<Longrightarrow> unat (of_int i :: u32) = nat i"
  by (simp add: unsigned_of_int take_bit_eq_mod)

lemma get_map_int_less:
  assumes run: "get_map_int 0 imax vals = Some m" and ne: "vals \<noteq> []" and len: "length vals = 16"
    and box: "\<forall>v\<in>set vals. 0 \<le> v \<and> v \<le> imax" and pos: "0 < imax"
  shows "unat m < 2 ^ 14"
proof -
  obtain mn mx sm avg hr ha where
    sc: "int_scan vals DATA_INT_MAX DATA_INT_MIN 0 = Some (mn, mx, sm)" and
    av: "int_div sm 16 = Some avg" and rg: "- (2 ^ 31) \<le> mx - mn" "mx - mn < 2 ^ 31" and
    ha: "int_hash 0 imax avg = Some ha" and hr: "int_hash 0 imax (mx - mn) = Some hr" and
    m: "m = map_combine (of_int hr) (of_int ha)"
    using run by (auto simp: get_map_int_def bind_eq_Some_conv)
  note sp = int_scan_sum [OF sc]
  have w: "imax < 2 ^ 31" using ha by (auto simp: int_hash_def bind_eq_Some_conv)
  obtain v where v: "v \<in> set vals" using ne by (cases vals) auto
  have mn: "0 \<le> mn" using sp box by (auto simp: DATA_INT_MAX_def)
  have mx: "mx \<le> imax" using sp box v pos
    by (fastforce simp: DATA_INT_MIN_def)
  have le: "mn \<le> mx" using sp v by fastforce
  have "0 \<le> sum_list vals" "sum_list vals \<le> imax * int (length vals)"
    using box by (induction vals) (auto simp: algebra_simps)
  then have "0 \<le> avg \<and> avg \<le> imax"
    using int_div_avg [OF av, of 0 imax] sp len by simp
  then have "0 \<le> ha \<and> ha \<le> 4095" using int_hash_range [OF ha] pos by blast
  moreover have "0 \<le> hr \<and> hr \<le> 4095" using int_hash_range [OF hr] pos mn mx le by simp
  ultimately show ?thesis
    unfolding m by (intro map_combine_less) (auto simp: unat_of_int nat_less_iff)
qed

subsection \<open>Properties\<close>

text \<open>with the default bounds of \<^verbatim>\<open>init.cpp\<close>, INT_MIN + 10 and INT_MAX - 10, the map of every integer
  line is undefined: the subtraction IMAX - IMIN overflows the type int.\<close>
theorem default_bounds_overflow:
  "get_map_int (DATA_INT_MIN + 10) (DATA_INT_MAX - 10) vals = None"
  by (cases "int_scan vals DATA_INT_MAX DATA_INT_MIN 0")
    (auto simp: get_map_int_def int_hash_def DATA_INT_MIN_def DATA_INT_MAX_def fits_int_def split: option.splits bind_splits)

text \<open>C40: when the lower bound IMIN of the integer data is 0 and the upper bound IMAX is positive, the map of an
  integer line with elements between these bounds, when no step overflows, fits 14 bits; in particular it is
  never the -1 that marks an unused data entry. (With another IMIN the hash of the range of the elements can be
  negative, and the map of a line within the bounds does not fit.)\<close>
theorem map_fits_14_bits:
  assumes "get_map_int 0 imax vals = Some m" and "length vals = 16"
    and "\<forall>v\<in>set vals. 0 \<le> v \<and> v \<le> imax" and "0 < imax"
  shows "unat m < 2 ^ 14 \<and> m \<noteq> -1"
proof -
  have "vals \<noteq> []" using assms(2) by auto
  from get_map_int_less [OF assms(1) this assms(2,3,4)] show ?thesis
    by (auto simp: unsigned_minus_1_eq_mask mask_eq_exp_minus_1)
qed

theorem map_fits_14_bits_witness:
  "\<exists>m. get_map_int 0 1000 [7, 9, 11, 12, 13, 5, 6, 7, 8, 9, 100, 500, 3, 0, 1000, 2] = Some m \<and> unat m < 2 ^ 14"
proof -
  let ?vs = "[7, 9, 11, 12, 13, 5, 6, 7, 8, 9, 100, 500, 3, 0, 1000, 2] :: int list"
  have "get_map_int 0 1000 ?vs \<noteq> None" by code_simp
  then obtain m where m: "get_map_int 0 1000 ?vs = Some m" by blast
  from map_fits_14_bits [OF this] show ?thesis using m by auto
qed

text \<open>With the bounds 5 and 100 the map of a line of equal elements does not fit: the range 0 is below IMIN.\<close>

lemma map_with_positive_min: "(case get_map_int 5 100 (replicate 16 50) of None \<Rightarrow> False | Some m \<Rightarrow> 2 ^ 14 \<le> unat m)"
proof -
  have "map_option (\<lambda>m. 2 ^ 14 \<le> m) (get_map_int 5 100 (replicate 16 50)) = Some True" by code_simp
  then show ?thesis by (auto simp: word_le_nat_alt split: option.splits)
qed

text \<open>the shift count in the last line of \<^verbatim>\<open>get_map\<close> is the MESI state M, that is 3, and not \<^verbatim>\<open>Mbits\<close>, so
  that the bits of the range fall on those of the average: lines with different averages and
  ranges, kept apart by a shift of \<^verbatim>\<open>Mbits\<close>, get the same map.\<close>
theorem map_range_overlaps_average:
  "map_combine 2 0 = map_combine 0 8 \<and>
   (push_bit Mbits (drop_bit (Mbits div 2) 2) OR 0 :: u32) \<noteq> push_bit Mbits (drop_bit (Mbits div 2) 0) OR 8"
  by (simp add: map_combine_def MESIStateIndex_def Mbits_def)

end
