(* ===== verification/Doppelganger.thy ===== *)
theory Doppelganger imports Cache_Arrays begin

text \<open>
  The array of the Doppelganger cache, \<^verbatim>\<open>zsim/src/doppelganger_cache.cpp\<close> with the structures of
  \<^verbatim>\<open>cache_arrays.h\<close>. Tags whose lines map to the same value share one data entry: each data entry
  holds the head of a doubly linked list of tags, threaded through the tag array by index. The
  head is the tag added last; \<^verbatim>\<open>prev\<close> leads towards the older tags and \<^verbatim>\<open>next\<close> towards the head.

  Indices are integers, with -1 for none; an index out of its array is \<open>None\<close>. The 32-bit map values
  are words, and \<open>-1\<close> is the value of an unused entry. The value \<^verbatim>\<open>get_map\<close> reads from the memory of
  the simulated program is the argument \<open>gm\<close> of the operations (\<open>get_map\<close> below computes it); the
  coherence controller is the record \<open>CC_ops\<close>.
\<close>

record Tag =
  t_next :: int
  t_prev :: int
  t_addr :: address
  t_data_id :: int

record Data =
  d_map_value :: u32
  d_tag_head_id :: int

record 'p dpg =
  array_t :: "Tag list"
  array_d :: "Data list"
  rp_dpg_t :: 'p
  rp_dpg_d :: 'p
  numLines :: nat
  assoc :: nat
  numSets_t :: nat
  numSets_d :: nat
  setMask_t :: u32
  setMask_d :: u32

record 'cc CC_ops =
  cc_processEviction :: "MemReq \<Rightarrow> address \<Rightarrow> nat \<Rightarrow> u64 \<Rightarrow> 'cc \<Rightarrow> 'cc option"
  cc_see :: "'cc \<Rightarrow> cc_view"

definition DATA_SCALE :: nat where
  "DATA_SCALE = 2"

definition no_tag :: Tag where
  "no_tag = \<lparr>t_next = -1, t_prev = -1, t_addr = -1, t_data_id = -1\<rparr>"

definition dpg_new :: "nat \<Rightarrow> nat \<Rightarrow> 'p \<Rightarrow> 'p \<Rightarrow> 'p dpg option" where
  "dpg_new nLines ways rpt rpd = do {
     assert_that (ways \<noteq> 0);
     let sets_t = nLines div ways;
     let sets_d = sets_t div DATA_SCALE;
     assert_that (isPow2 (of_nat sets_t :: u32));
     assert_that (isPow2 (of_nat sets_d :: u32));
     Some \<lparr>array_t = replicate nLines no_tag,
           array_d = replicate (nLines div DATA_SCALE) \<lparr>d_map_value = -1, d_tag_head_id = -1\<rparr>,
           rp_dpg_t = rpt, rp_dpg_d = rpd, numLines = nLines, assoc = ways, numSets_t = sets_t,
           numSets_d = sets_d, setMask_t = of_nat sets_t - 1, setMask_d = of_nat sets_d - 1\<rparr>
   }"

subsection \<open>Array accesses\<close>

definition tag_at :: "'p dpg \<Rightarrow> int \<Rightarrow> Tag option" where
  "tag_at s i = (if i < 0 then None else read_at (array_t s) (nat i))"

definition mod_tag :: "int \<Rightarrow> (Tag \<Rightarrow> Tag) \<Rightarrow> 'p dpg \<Rightarrow> 'p dpg option" where
  "mod_tag i f s = do {
     t \<leftarrow> tag_at s i;
     Some (s\<lparr>array_t := (array_t s)[nat i := f t]\<rparr>)
   }"

definition data_at :: "'p dpg \<Rightarrow> int \<Rightarrow> Data option" where
  "data_at s i = (if i < 0 then None else read_at (array_d s) (nat i))"

definition mod_data :: "int \<Rightarrow> (Data \<Rightarrow> Data) \<Rightarrow> 'p dpg \<Rightarrow> 'p dpg option" where
  "mod_data i f s = do {
     d \<leftarrow> data_at s i;
     Some (s\<lparr>array_d := (array_d s)[nat i := f d]\<rparr>)
   }"

subsection \<open>The lists of tags\<close>

definition remove_tag :: "int \<Rightarrow> 'p dpg \<Rightarrow> 'p dpg option" where
  "remove_tag tag_id s = do {
     t \<leftarrow> tag_at s tag_id;
     s \<leftarrow> (if t_prev t \<noteq> -1 then
             (if t_next t \<noteq> -1 then do {
                s \<leftarrow> mod_tag (t_prev t) (\<lambda>p. p\<lparr>t_next := t_next t\<rparr>) s;
                t \<leftarrow> tag_at s tag_id;
                mod_tag (t_next t) (\<lambda>n. n\<lparr>t_prev := t_prev t\<rparr>) s
              } else do {
                s \<leftarrow> mod_tag (t_prev t) (\<lambda>p. p\<lparr>t_next := -1\<rparr>) s;
                t \<leftarrow> tag_at s tag_id;
                mod_data (t_data_id t) (\<lambda>d. d\<lparr>d_tag_head_id := t_prev t\<rparr>) s
              })
           else
             (if t_next t \<noteq> -1 then mod_tag (t_next t) (\<lambda>n. n\<lparr>t_prev := -1\<rparr>) s
              else do {
                s \<leftarrow> mod_data (t_data_id t) (\<lambda>d. d\<lparr>d_map_value := -1\<rparr>) s;
                mod_data (t_data_id t) (\<lambda>d. d\<lparr>d_tag_head_id := -1\<rparr>) s
              }));
     mod_tag tag_id (\<lambda>t. t\<lparr>t_next := -1, t_prev := -1, t_addr := -1, t_data_id := -1\<rparr>) s
   }"

definition add_tag :: "int \<Rightarrow> int \<Rightarrow> 'p dpg \<Rightarrow> 'p dpg option" where
  "add_tag tag_id data_id s = do {
     d \<leftarrow> data_at s data_id;
     let head_id = d_tag_head_id d;
     s \<leftarrow> (if head_id \<noteq> -1 then do {
             s \<leftarrow> mod_tag tag_id (\<lambda>t. t\<lparr>t_prev := head_id\<rparr>) s;
             mod_tag head_id (\<lambda>t. t\<lparr>t_next := tag_id\<rparr>) s
           } else Some s);
     s \<leftarrow> mod_tag tag_id (\<lambda>t. t\<lparr>t_data_id := data_id\<rparr>) s;
     mod_data data_id (\<lambda>d. d\<lparr>d_tag_head_id := tag_id\<rparr>) s
   }"

subsection \<open>Searching and evicting\<close>

fun find_data :: "'p dpg \<Rightarrow> u32 \<Rightarrow> nat \<Rightarrow> nat \<Rightarrow> int option" where
  "find_data s mp i 0 = Some (-1)"
| "find_data s mp i (Suc n) = do {
     d \<leftarrow> read_at (array_d s) i;
     (if d_map_value d = mp \<and> d_tag_head_id d \<noteq> -1 then Some (int i) else find_data s mp (Suc i) n)
   }"

definition data_set :: "hash_fn \<Rightarrow> 'p dpg \<Rightarrow> u32 \<Rightarrow> nat option" where
  "data_set hf s mp = set_index hf (setMask_d s) 0 (scast mp)"

definition tag_set :: "hash_fn \<Rightarrow> 'p dpg \<Rightarrow> address \<Rightarrow> nat option" where
  "tag_set hf s a = set_index hf (setMask_t s) 0 a"

definition lookup_data :: "hash_fn \<Rightarrow> u32 \<Rightarrow> 'p dpg \<Rightarrow> int option" where
  "lookup_data hf mp s = do {
     set_d \<leftarrow> data_set hf s mp;
     find_data s mp (set_d * assoc s) (assoc s)
   }"

definition evict_tag :: "'cc CC_ops \<Rightarrow> 'p ReplPolicy \<Rightarrow> int \<Rightarrow> MemReq option \<Rightarrow> u64 \<Rightarrow>
    'p dpg \<times> 'cc \<Rightarrow> ('p dpg \<times> 'cc) option" where
  "evict_tag C P tag_id req respCycle st =
     (let (s, cc) = st in
      if tag_id = -1 then Some (s, cc)
      else do {
        assert_that (tag_id > -1 \<and> tag_id < int (numLines s));
        t \<leftarrow> tag_at s tag_id;
        r \<leftarrow> req;
        cc \<leftarrow> cc_processEviction C r (t_addr t) (nat tag_id + numLines s) respCycle cc;
        rp \<leftarrow> rp_replaced P (nat tag_id) (rp_dpg_t s);
        s \<leftarrow> remove_tag tag_id (s\<lparr>rp_dpg_t := rp\<rparr>);
        Some (s, cc)
      })"

text \<open>The loop of \<^verbatim>\<open>evict_data\<close> ends when the list of tags is empty; that it ends is a theorem.\<close>

partial_function (option) evict_loop :: "'cc CC_ops \<Rightarrow> 'p ReplPolicy \<Rightarrow> int \<Rightarrow> MemReq option \<Rightarrow> u64 \<Rightarrow>
    'p dpg \<times> 'cc \<Rightarrow> ('p dpg \<times> 'cc) option" where
  "evict_loop C P data_id req respCycle st = do {
     d \<leftarrow> data_at (fst st) data_id;
     st' \<leftarrow> evict_tag C P (d_tag_head_id d) req respCycle st;
     d' \<leftarrow> data_at (fst st') data_id;
     (if d_tag_head_id d' \<noteq> -1 then evict_loop C P data_id req respCycle st' else Some st')
   }"

declare evict_loop.simps [code]

definition evict_data :: "'cc CC_ops \<Rightarrow> 'p ReplPolicy \<Rightarrow> int \<Rightarrow> MemReq option \<Rightarrow> u64 \<Rightarrow>
    'p dpg \<times> 'cc \<Rightarrow> ('p dpg \<times> 'cc) option" where
  "evict_data C P data_id req respCycle st =
     (if data_id = -1 then Some st
      else do {
        assert_that (data_id > -1 \<and> data_id < int (numLines (fst st) div DATA_SCALE));
        evict_loop C P data_id req respCycle st
      })"

fun find_free_data :: "'p dpg \<Rightarrow> nat \<Rightarrow> nat \<Rightarrow> int option" where
  "find_free_data s i 0 = Some (-1)"
| "find_free_data s i (Suc n) = do {
     d \<leftarrow> read_at (array_d s) i;
     (if d_tag_head_id d = -1 then Some (int i) else find_free_data s (Suc i) n)
   }"

definition get_free_data :: "hash_fn \<Rightarrow> 'cc CC_ops \<Rightarrow> 'p ReplPolicy \<Rightarrow> 'p ReplPolicy \<Rightarrow> u32 \<Rightarrow> MemReq option \<Rightarrow> u64 \<Rightarrow>
    'p dpg \<times> 'cc \<Rightarrow> (int \<times> 'p dpg \<times> 'cc) option" where
  "get_free_data hf C PT PD mp req respCycle st = do {
     let (s, cc) = st;
     set_d \<leftarrow> data_set hf s mp;
     let first_d = set_d * assoc s;
     r \<leftarrow> find_free_data s first_d (assoc s);
     (if r \<noteq> -1 then Some (r, s, cc)
      else do {
        (data_id, rp) \<leftarrow> rp_rankCands PD (cc_see C cc) req [first_d..<first_d + assoc s] (rp_dpg_d s);
        st' \<leftarrow> evict_data C PT (int data_id) req respCycle (s\<lparr>rp_dpg_d := rp\<rparr>, cc);
        Some (int data_id, st')
      })
   }"

fun find_free_tag :: "'p dpg \<Rightarrow> nat \<Rightarrow> nat \<Rightarrow> int option" where
  "find_free_tag s i 0 = Some (-1)"
| "find_free_tag s i (Suc n) = do {
     t \<leftarrow> read_at (array_t s) i;
     (if t_data_id t = -1 then Some (int i) else find_free_tag s (Suc i) n)
   }"

definition get_free_tag :: "hash_fn \<Rightarrow> 'cc CC_ops \<Rightarrow> 'p ReplPolicy \<Rightarrow> address \<Rightarrow> MemReq option \<Rightarrow> u64 \<Rightarrow>
    'p dpg \<times> 'cc \<Rightarrow> (int \<times> 'p dpg \<times> 'cc) option" where
  "get_free_tag hf C PT line req respCycle st = do {
     let (s, cc) = st;
     set_t \<leftarrow> tag_set hf s line;
     let first_t = set_t * assoc s;
     r \<leftarrow> find_free_tag s first_t (assoc s);
     (if r \<noteq> -1 then Some (r, s, cc)
      else do {
        (tag_id, rp) \<leftarrow> rp_rankCands PT (cc_see C cc) req [first_t..<first_t + assoc s] (rp_dpg_t s);
        st' \<leftarrow> evict_tag C PT (int tag_id) req respCycle (s\<lparr>rp_dpg_t := rp\<rparr>, cc);
        Some (int tag_id, st')
      })
   }"

subsection \<open>The operations of the array\<close>

text \<open>Makes \<open>data_id\<close> the entry of the value \<open>mp\<close> with the single tag \<open>tag_id\<close> (the three assignments in
  \<^verbatim>\<open>lookup\<close> and in \<^verbatim>\<open>preinsert\<close>).\<close>

definition set_single :: "int \<Rightarrow> int \<Rightarrow> u32 \<Rightarrow> 'p dpg \<Rightarrow> 'p dpg option" where
  "set_single tag_id data_id mp s = do {
     s \<leftarrow> mod_tag tag_id (\<lambda>t. t\<lparr>t_data_id := data_id\<rparr>) s;
     s \<leftarrow> mod_data data_id (\<lambda>d. d\<lparr>d_map_value := mp\<rparr>) s;
     mod_data data_id (\<lambda>d. d\<lparr>d_tag_head_id := tag_id\<rparr>) s
   }"

text \<open>A tag whose line has the value \<open>mp\<close> and that is in no list is put into the list of that value.\<close>

definition place_tag :: "hash_fn \<Rightarrow> 'cc CC_ops \<Rightarrow> 'p ReplPolicy \<Rightarrow> 'p ReplPolicy \<Rightarrow> int \<Rightarrow> u32 \<Rightarrow> MemReq option \<Rightarrow> u64 \<Rightarrow>
    'p dpg \<times> 'cc \<Rightarrow> ('p dpg \<times> 'cc) option" where
  "place_tag hf C PT PD tag_id mp req respCycle st = do {
     new_data \<leftarrow> lookup_data hf mp (fst st);
     (if new_data \<noteq> -1 then do {
        s \<leftarrow> add_tag tag_id new_data (fst st);
        Some (s, snd st)
      } else do {
        (new_data, s, cc) \<leftarrow> get_free_data hf C PT PD mp req respCycle st;
        s \<leftarrow> set_single tag_id new_data mp s;
        Some (s, cc)
      })
   }"

fun lookup_loop :: "hash_fn \<Rightarrow> 'cc CC_ops \<Rightarrow> 'p ReplPolicy \<Rightarrow> 'p ReplPolicy \<Rightarrow> (address \<Rightarrow> u32 option) \<Rightarrow> address \<Rightarrow>
    MemReq option \<Rightarrow> bool \<Rightarrow> u64 \<Rightarrow> nat \<Rightarrow> nat \<Rightarrow> 'p dpg \<times> 'cc \<Rightarrow> (int \<times> 'p dpg \<times> 'cc) option" where
  "lookup_loop hf C PT PD gm line req updateReplacement respCycle tag_id 0 st = Some (-1, st)"
| "lookup_loop hf C PT PD gm line req updateReplacement respCycle tag_id (Suc n) st = do {
     t \<leftarrow> tag_at (fst st) (int tag_id);
     (if t_addr t = line \<and> t_data_id t \<noteq> -1 then do {
        mp \<leftarrow> gm line;
        d \<leftarrow> data_at (fst st) (t_data_id t);
        st \<leftarrow> (if mp \<noteq> d_map_value d then do {
                 s \<leftarrow> remove_tag (int tag_id) (fst st);
                 place_tag hf C PT PD (int tag_id) mp req respCycle (s, snd st)
               } else Some st);
        t \<leftarrow> tag_at (fst st) (int tag_id);
        (if t_data_id t \<noteq> -1 then
           (if updateReplacement then do {
              rpt \<leftarrow> rp_update PT req tag_id (rp_dpg_t (fst st));
              rpd \<leftarrow> rp_update PD req (nat (t_data_id t)) (rp_dpg_d (fst st));
              Some (int (tag_id + numLines (fst st)), (fst st)\<lparr>rp_dpg_t := rpt, rp_dpg_d := rpd\<rparr>, snd st)
            } else Some (int (tag_id + numLines (fst st)), st))
         else lookup_loop hf C PT PD gm line req updateReplacement respCycle (Suc tag_id) n st)
      } else lookup_loop hf C PT PD gm line req updateReplacement respCycle (Suc tag_id) n st)
   }"

definition dpg_lookup :: "hash_fn \<Rightarrow> 'cc CC_ops \<Rightarrow> 'p ReplPolicy \<Rightarrow> 'p ReplPolicy \<Rightarrow> (address \<Rightarrow> u32 option) \<Rightarrow> address \<Rightarrow>
    MemReq option \<Rightarrow> bool \<Rightarrow> u64 \<Rightarrow> 'p dpg \<times> 'cc \<Rightarrow> (int \<times> 'p dpg \<times> 'cc) option" where
  "dpg_lookup hf C PT PD gm line req updateReplacement respCycle st = do {
     set_t \<leftarrow> tag_set hf (fst st) line;
     lookup_loop hf C PT PD gm line req updateReplacement respCycle (set_t * assoc (fst st)) (assoc (fst st)) st
   }"

definition dpg_preinsert :: "hash_fn \<Rightarrow> 'cc CC_ops \<Rightarrow> 'p ReplPolicy \<Rightarrow> 'p ReplPolicy \<Rightarrow> (address \<Rightarrow> u32 option) \<Rightarrow> address \<Rightarrow>
    MemReq option \<Rightarrow> u64 \<Rightarrow> 'p dpg \<times> 'cc \<Rightarrow> (nat \<times> 'p dpg \<times> 'cc) option" where
  "dpg_preinsert hf C PT PD gm line req respCycle st = do {
     (tag_id, st) \<leftarrow> get_free_tag hf C PT line req respCycle st;
     mp \<leftarrow> gm line;
     st \<leftarrow> place_tag hf C PT PD tag_id mp req respCycle st;
     Some (nat tag_id + numLines (fst st), st)
   }"

definition dpg_postinsert :: "'p ReplPolicy \<Rightarrow> 'p ReplPolicy \<Rightarrow> address \<Rightarrow> MemReq option \<Rightarrow> nat \<Rightarrow>
    'p dpg \<Rightarrow> 'p dpg option" where
  "dpg_postinsert PT PD line req candidate s = do {
     assert_that (numLines s \<le> candidate);
     let candidate_t = candidate - numLines s;
     t \<leftarrow> tag_at s (int candidate_t);
     let candidate_d = t_data_id t;
     rpt \<leftarrow> rp_replaced PT candidate_t (rp_dpg_t s);
     assert_that (candidate_d \<ge> 0);
     rpd \<leftarrow> rp_replaced PD (nat candidate_d) (rp_dpg_d s);
     s \<leftarrow> mod_tag (int candidate_t) (\<lambda>t. t\<lparr>t_addr := line\<rparr>) s;
     rpt \<leftarrow> rp_update PT req candidate_t rpt;
     rpd \<leftarrow> rp_update PD req (nat candidate_d) rpd;
     Some (s\<lparr>rp_dpg_t := rpt, rp_dpg_d := rpd\<rparr>)
   }"

end
