(* ===== verification/Doppelganger_Lists.thy ===== *)
theory Doppelganger_Lists imports Doppelganger Repl_Contract begin

text \<open>
  The doubly linked lists of the Doppelganger array: the abstraction of the index links to a list of
  tags per data entry, and the lemmas that \<open>remove_tag\<close>, \<open>add_tag\<close> and \<open>set_single\<close> implement the
  list operations on it.
\<close>

subsection \<open>Linked segments\<close>

text \<open>\<open>links T nx pv d xs\<close>: the tags \<open>xs\<close> are linked in this order, head side first, belong to the data entry
  \<open>d\<close>, the first one has the \<^verbatim>\<open>next\<close> index \<open>nx\<close> and the last one the \<^verbatim>\<open>prev\<close> index \<open>pv\<close>.\<close>

definition head_or :: "int \<Rightarrow> nat list \<Rightarrow> int" where
  "head_or pv xs = (case xs of [] \<Rightarrow> pv | x # _ \<Rightarrow> int x)"

definition last_or :: "int \<Rightarrow> nat list \<Rightarrow> int" where
  "last_or nx xs = (if xs = [] then nx else int (last xs))"

fun links :: "Tag list \<Rightarrow> int \<Rightarrow> int \<Rightarrow> nat \<Rightarrow> nat list \<Rightarrow> bool" where
  "links T nx pv d [] \<longleftrightarrow> True"
| "links T nx pv d (x # xs) \<longleftrightarrow>
     x < length T \<and> t_next (T ! x) = nx \<and> t_prev (T ! x) = head_or pv xs \<and> t_data_id (T ! x) = int d \<and>
     links T (int x) pv d xs"

lemma head_or_simps [simp]: "head_or pv [] = pv" "head_or pv (x # xs) = int x"
  by (simp_all add: head_or_def)

lemma head_or_append: "head_or pv (xs @ ys) = head_or (head_or pv ys) xs"
  by (cases xs) auto

lemma last_or_simps [simp]: "last_or nx [] = nx" "last_or nx (x # xs) = last_or (int x) xs" "last_or nx (xs @ [y]) = int y"
  by (auto simp: last_or_def)

lemma links_append:
  "links T nx pv d (ys @ zs) \<longleftrightarrow> links T nx (head_or pv zs) d ys \<and> links T (last_or nx ys) pv d zs"
  by (induction ys arbitrary: nx) (auto simp: head_or_append)

lemma links_frame:
  "length T' = length T \<Longrightarrow> (\<And>x. x \<in> set xs \<Longrightarrow> T' ! x = T ! x) \<Longrightarrow> links T' nx pv d xs = links T nx pv d xs"
  by (induction xs arbitrary: nx) auto

lemma links_mem: "links T nx pv d xs \<Longrightarrow> x \<in> set xs \<Longrightarrow> x < length T \<and> t_data_id (T ! x) = int d"
  by (induction xs arbitrary: nx) auto

definition set_prev :: "nat list \<Rightarrow> int \<Rightarrow> Tag list \<Rightarrow> Tag list" where
  "set_prev ys p T = (if ys = [] then T else T[last ys := (T ! last ys)\<lparr>t_prev := p\<rparr>])"

definition set_next :: "nat list \<Rightarrow> int \<Rightarrow> Tag list \<Rightarrow> Tag list" where
  "set_next zs n T = (if zs = [] then T else T[hd zs := (T ! hd zs)\<lparr>t_next := n\<rparr>])"

lemma length_set [simp]: "length (set_prev ys p T) = length T" "length (set_next zs n T) = length T"
  by (simp_all add: set_prev_def set_next_def)

lemma set_prev_other: "u \<notin> set ys \<Longrightarrow> set_prev ys p T ! u = T ! u"
  by (metis last_in_set nth_list_update_neq set_prev_def)

lemma set_next_other: "u \<notin> set zs \<Longrightarrow> set_next zs p T ! u = T ! u"
  by (metis hd_in_set nth_list_update_neq set_next_def)

lemma update_field:
  assumes "f (T ! i) = f v"
  shows "f (T[i := v] ! u) = f (T ! u)"
  using assms by (cases "i < length T") (auto simp: nth_list_update list_update_beyond)

lemma set_links_fields [simp]:
  "t_addr (set_prev ys p T ! u) = t_addr (T ! u)" "t_data_id (set_prev ys p T ! u) = t_data_id (T ! u)"
  "t_addr (set_next zs n T ! u) = t_addr (T ! u)" "t_data_id (set_next zs n T ! u) = t_data_id (T ! u)"
  by (simp_all add: set_prev_def set_next_def update_field [of t_addr] update_field [of t_data_id])

lemma links_set_prev:
  "links T nx p d ys \<Longrightarrow> distinct ys \<Longrightarrow> links (set_prev ys p' T) nx p' d ys"
proof (induction ys arbitrary: nx)
  case (Cons y ys)
  show ?case
  proof (cases ys)
    case Nil
    with Cons.prems show ?thesis by (simp add: set_prev_def)
  next
    case ne: (Cons z zs)
    have eq: "set_prev (y # ys) p' T = set_prev ys p' T" by (simp add: set_prev_def ne)
    have "set_prev ys p' T ! y = T ! y" using Cons.prems(2) by (intro set_prev_other) simp
    moreover have "head_or p' ys = head_or p ys" by (simp add: ne)
    ultimately show ?thesis using Cons.prems Cons.IH [of "int y"] unfolding eq by simp
  qed
qed simp

lemma links_set_next:
  assumes "links T n pv d zs" and "distinct zs"
  shows "links (set_next zs n' T) n' pv d zs"
proof (cases zs)
  case (Cons z zs')
  have "links (set_next zs n' T) (int z) pv d zs' = links T (int z) pv d zs'"
  proof (rule links_frame)
    fix x
    assume "x \<in> set zs'"
    then have "z \<noteq> x" using assms(2) Cons by auto
    then show "set_next zs n' T ! x = T ! x" by (simp add: set_next_def Cons)
  qed simp
  with assms Cons show ?thesis by (simp add: set_next_def)
qed simp

subsection \<open>The lists of an array\<close>

definition linked :: "'p dpg \<Rightarrow> (nat \<Rightarrow> nat list) \<Rightarrow> bool" where
  "linked s ch \<longleftrightarrow>
     length (array_t s) = numLines s \<and> length (array_d s) = numLines s div DATA_SCALE \<and>
     (\<forall>d<length (array_d s). d_tag_head_id (array_d s ! d) = head_or (-1) (ch d) \<and> distinct (ch d) \<and>
        links (array_t s) (-1) (-1) d (ch d)) \<and>
     (\<forall>u<length (array_t s).
        t_data_id (array_t s ! u) = -1 \<and> t_next (array_t s ! u) = -1 \<and> t_prev (array_t s ! u) = -1 \<or>
        (\<exists>d<length (array_d s). t_data_id (array_t s ! u) = int d \<and> u \<in> set (ch d)))"

lemma linkedD:
  assumes "linked s ch" and "d < length (array_d s)"
  shows "d_tag_head_id (array_d s ! d) = head_or (-1) (ch d)" "distinct (ch d)"
    "links (array_t s) (-1) (-1) d (ch d)"
  using assms by (auto simp: linked_def)

lemma linked_mem:
  assumes "linked s ch" and "d < length (array_d s)" and "u \<in> set (ch d)"
  shows "u < length (array_t s)" "t_data_id (array_t s ! u) = int d"
  using links_mem [OF linkedD(3) [OF assms(1,2)] assms(3)] by auto

lemma linked_free:
  assumes "linked s ch" and "u < length (array_t s)" and "t_data_id (array_t s ! u) = -1"
  shows "t_next (array_t s ! u) = -1" "t_prev (array_t s ! u) = -1"
    "\<forall>d<length (array_d s). u \<notin> set (ch d)"
  using assms linked_mem [OF assms(1)] by (fastforce simp: linked_def)+

lemma linked_used:
  assumes "linked s ch" and "u < length (array_t s)" and "t_data_id (array_t s ! u) \<noteq> -1"
  shows "\<exists>d<length (array_d s). t_data_id (array_t s ! u) = int d \<and> u \<in> set (ch d)"
  using assms by (auto simp: linked_def)

lemma linked_disjoint:
  assumes "linked s ch" and "d < length (array_d s)" "e < length (array_d s)" "u \<in> set (ch d)" "u \<in> set (ch e)"
  shows "d = e"
  using linked_mem(2) [OF assms(1,2,4)] linked_mem(2) [OF assms(1,3,5)] by simp

subsection \<open>remove_tag\<close>

definition clear_tag :: "nat \<Rightarrow> Tag list \<Rightarrow> Tag list" where
  "clear_tag t T = T[t := no_tag]"

lemma clear_tag_record: "x\<lparr>t_next := -1, t_prev := -1, t_addr := -1, t_data_id := -1\<rparr> = no_tag"
  by (simp add: no_tag_def)

lemma dpg_upd_swap: "s\<lparr>array_d := A, array_t := B\<rparr> = s\<lparr>array_t := B, array_d := A\<rparr>"
  by (rule dpg.equality) simp_all

lemma Data_upd: "x\<lparr>d_map_value := m, d_tag_head_id := h\<rparr> = \<lparr>d_map_value = m, d_tag_head_id = h\<rparr>"
  "x\<lparr>d_tag_head_id := h\<rparr> = \<lparr>d_map_value = d_map_value x, d_tag_head_id = h\<rparr>"
  by (rule Data.equality; simp)+

lemma remove_tag_run:
  assumes lk: "linked s ch" and d: "d < length (array_d s)" and ch: "ch d = ys @ t # zs"
  shows "remove_tag (int t) s = Some (s\<lparr>
     array_t := clear_tag t (set_prev ys (head_or (-1) zs) (set_next zs (last_or (-1) ys) (array_t s))),
     array_d := (if ys = [] then (array_d s)[d := \<lparr>d_map_value = (if zs = [] then -1 else d_map_value (array_d s ! d)),
                    d_tag_head_id = head_or (-1) zs\<rparr>] else array_d s)\<rparr>)"
proof -
  have dist: "distinct (ys @ t # zs)" and ln: "links (array_t s) (-1) (-1) d (ys @ t # zs)"
    using linkedD [OF lk d] by (simp_all add: ch)
  have t: "t < length (array_t s)" "t_next (array_t s ! t) = last_or (-1) ys"
    "t_prev (array_t s ! t) = head_or (-1) zs" "t_data_id (array_t s ! t) = int d"
    using ln by (auto simp: links_append)
  show ?thesis
  proof (cases "ys = []"; cases "zs = []")
    assume e: "ys = []" "zs = []"
    with t d show ?thesis
      by (simp add: remove_tag_def dpg_upd_swap Data_upd tag_at_def mod_tag_def mod_data_def data_at_def read_at_def
          set_prev_def set_next_def clear_tag_def clear_tag_record)
  next
    assume e: "ys = []" "zs \<noteq> []"
    then obtain z zs' where z: "zs = z # zs'" by (cases zs) auto
    have "z < length (array_t s)" "z \<noteq> t" using ln dist by (auto simp: links_append z)
    with t d e show ?thesis
      by (simp add: remove_tag_def dpg_upd_swap Data_upd tag_at_def mod_tag_def mod_data_def data_at_def read_at_def z
          set_prev_def set_next_def clear_tag_def clear_tag_record nth_list_update)
  next
    assume e: "ys \<noteq> []" "zs = []"
    define y where "y = last ys"
    have y: "last_or (-1) ys = int y" using e by (simp add: last_or_def y_def)
    have "y \<in> set ys" using e by (simp add: y_def)
    then have "y < length (array_t s)" "y \<noteq> t"
      using ln dist links_mem by (auto simp: links_append)
    with t d e show ?thesis
      by (simp add: remove_tag_def dpg_upd_swap Data_upd tag_at_def mod_tag_def mod_data_def data_at_def read_at_def y
          set_prev_def set_next_def clear_tag_def clear_tag_record nth_list_update y_def [symmetric])
  next
    assume e: "ys \<noteq> []" "zs \<noteq> []"
    then obtain z zs' where z: "zs = z # zs'" by (cases zs) auto
    define y where "y = last ys"
    have y: "last_or (-1) ys = int y" using e by (simp add: last_or_def y_def)
    have "y \<in> set ys" using e by (simp add: y_def)
    then have "y < length (array_t s)" "y \<noteq> t" "z < length (array_t s)" "z \<noteq> t" "y \<noteq> z"
      using ln dist links_mem by (auto simp: links_append z)
    with t d e show ?thesis
      by (simp add: remove_tag_def dpg_upd_swap Data_upd tag_at_def mod_tag_def mod_data_def data_at_def read_at_def y z
          set_prev_def set_next_def clear_tag_def clear_tag_record nth_list_update y_def [symmetric] list_update_swap)
  qed
qed

lemma remove_tag_linked:
  assumes lk: "linked s ch" and d: "d < length (array_d s)" and ch: "ch d = ys @ t # zs"
  shows "\<exists>T D. remove_tag (int t) s = Some (s\<lparr>array_t := T, array_d := D\<rparr>) \<and>
    linked (s\<lparr>array_t := T, array_d := D\<rparr>) (ch(d := ys @ zs)) \<and>
    (\<forall>u. t_addr (T ! u) = (if u = t then -1 else t_addr (array_t s ! u))) \<and>
    (\<forall>u. t_data_id (T ! u) = (if u = t then -1 else t_data_id (array_t s ! u))) \<and>
    (\<forall>e. d_map_value (D ! e) = (if e = d \<and> ys @ zs = [] then -1 else d_map_value (array_d s ! e)))"
proof -
  let ?p = "head_or (-1) zs" and ?n = "last_or (-1) ys"
  define U where "U = set_prev ys ?p (set_next zs ?n (array_t s))"
  define T where "T = clear_tag t U"
  define D where "D = (if ys = [] then (array_d s)[d := \<lparr>d_map_value = (if zs = [] then -1 else d_map_value (array_d s ! d)),
                    d_tag_head_id = ?p\<rparr>] else array_d s)"
  have dist: "distinct (ys @ t # zs)" and ln: "links (array_t s) (-1) (-1) d (ys @ t # zs)"
    using linkedD [OF lk d] by (simp_all add: ch)
  have t: "t < length (array_t s)" using ln by (auto simp: links_append)
  have lenT: "length T = length (array_t s)" by (simp add: T_def U_def clear_tag_def)
  have lenD: "length D = length (array_d s)" by (simp add: D_def)
  have U_other: "U ! u = array_t s ! u" if "u \<notin> set (ys @ zs)" for u
    using that by (simp add: U_def set_prev_other set_next_other)
  have T_t: "T ! t = no_tag" using t by (simp add: T_def clear_tag_def U_def)
  have T_U: "T ! u = U ! u" if "u \<noteq> t" for u using that by (simp add: T_def clear_tag_def)
  have addr: "\<forall>u. t_addr (T ! u) = (if u = t then -1 else t_addr (array_t s ! u))"
    using T_t T_U by (simp add: no_tag_def U_def)
  have did: "\<forall>u. t_data_id (T ! u) = (if u = t then -1 else t_data_id (array_t s ! u))"
    using T_t T_U by (simp add: no_tag_def U_def)
  have mp: "\<forall>e. d_map_value (D ! e) = (if e = d \<and> ys @ zs = [] then -1 else d_map_value (array_d s ! e))"
    using d by (auto simp: D_def nth_list_update)
  have seg: "links T (-1) (-1) d (ys @ zs)"
  proof -
    have z0: "links (array_t s) (int t) (-1) d zs" and y0: "links (array_t s) (-1) (int t) d ys"
      using ln by (auto simp: links_append)
    have "links (set_next zs ?n (array_t s)) ?n (-1) d zs" using z0 dist by (intro links_set_next) auto
    moreover have "links U ?n (-1) d zs = links (set_next zs ?n (array_t s)) ?n (-1) d zs"
      using dist unfolding U_def by (intro links_frame) (auto intro!: set_prev_other)
    ultimately have z1: "links U ?n (-1) d zs" by blast
    have "links (set_next zs ?n (array_t s)) (-1) (int t) d ys = links (array_t s) (-1) (int t) d ys"
      using dist by (intro links_frame) (auto intro!: set_next_other)
    with y0 dist have y1: "links U (-1) ?p d ys" unfolding U_def by (intro links_set_prev) auto
    have "links U (-1) (-1) d (ys @ zs)" using y1 z1 by (simp add: links_append)
    moreover have "links T (-1) (-1) d (ys @ zs) = links U (-1) (-1) d (ys @ zs)"
    proof (rule links_frame)
      show "length T = length U" by (simp add: T_def clear_tag_def)
      fix x
      assume "x \<in> set (ys @ zs)"
      then have "x \<noteq> t" using dist by auto
      then show "T ! x = U ! x" by (rule T_U)
    qed
    ultimately show ?thesis by blast
  qed
  have others: "links T (-1) (-1) e (ch e)" if e: "e < length (array_d s)" "e \<noteq> d" for e
  proof -
    have "u \<notin> set (ys @ t # zs)" if "u \<in> set (ch e)" for u
      using linked_disjoint [OF lk d e(1) _ that] e(2) ch by auto
    then have "links T (-1) (-1) e (ch e) = links (array_t s) (-1) (-1) e (ch e)"
      using U_other T_U lenT by (intro links_frame) auto
    with linkedD(3) [OF lk e(1)] show ?thesis by blast
  qed
  have head: "d_tag_head_id (D ! e) = head_or (-1) ((ch(d := ys @ zs)) e)" if e: "e < length (array_d s)" for e
    using linkedD(1) [OF lk e] d ch by (cases ys) (auto simp: D_def nth_list_update)
  have free: "t_data_id (T ! u) = -1 \<and> t_next (T ! u) = -1 \<and> t_prev (T ! u) = -1 \<or>
      (\<exists>e<length (array_d s). t_data_id (T ! u) = int e \<and> u \<in> set ((ch(d := ys @ zs)) e))"
    if u: "u < length (array_t s)" for u
  proof (cases "u = t")
    case True
    with T_t show ?thesis by (simp add: no_tag_def)
  next
    case ut: False
    show ?thesis
    proof (cases "t_data_id (array_t s ! u) = -1")
      case True
      then have "u \<notin> set (ys @ zs)" using linked_free(3) [OF lk u True] d ch by auto
      then have "T ! u = array_t s ! u" using U_other T_U ut by simp
      with linked_free(1,2) [OF lk u True] True show ?thesis by simp
    next
      case False
      from linked_used [OF lk u this] obtain e where
        "e < length (array_d s)" "t_data_id (array_t s ! u) = int e" "u \<in> set (ch e)" by blast
      with did ut ch show ?thesis by (cases "e = d") auto
    qed
  qed
  have "linked (s\<lparr>array_t := T, array_d := D\<rparr>) (ch(d := ys @ zs))"
    using lk seg others head free dist linkedD(2) [OF lk] unfolding linked_def
    by (auto simp: lenT lenD)
  moreover have "remove_tag (int t) s = Some (s\<lparr>array_t := T, array_d := D\<rparr>)"
    using remove_tag_run [OF lk d ch] by (simp add: T_def U_def D_def)
  ultimately show ?thesis using addr did mp by blast
qed

subsection \<open>add_tag and set_single\<close>

lemma add_tag_linked:
  assumes lk: "linked s ch" and d: "d < length (array_d s)" and t: "t < length (array_t s)"
    and free: "t_data_id (array_t s ! t) = -1"
  shows "\<exists>T D. add_tag (int t) (int d) s = Some (s\<lparr>array_t := T, array_d := D\<rparr>) \<and>
    linked (s\<lparr>array_t := T, array_d := D\<rparr>) (ch(d := t # ch d)) \<and>
    (\<forall>u. t_addr (T ! u) = t_addr (array_t s ! u)) \<and>
    (\<forall>u. t_data_id (T ! u) = (if u = t then int d else t_data_id (array_t s ! u))) \<and>
    (\<forall>e. d_map_value (D ! e) = d_map_value (array_d s ! e))"
proof -
  let ?p = "head_or (-1) (ch d)"
  define U where "U = set_next (ch d) (int t) ((array_t s)[t := (array_t s ! t)\<lparr>t_prev := ?p\<rparr>])"
  define T where "T = U[t := (U ! t)\<lparr>t_data_id := int d\<rparr>]"
  define D where "D = (array_d s)[d := \<lparr>d_map_value = d_map_value (array_d s ! d), d_tag_head_id = int t\<rparr>]"
  note fr = linked_free [OF lk t free]
  have tn: "t \<notin> set (ch d)" using fr(3) d by blast
  have len: "length T = length (array_t s)" "length D = length (array_d s)" by (simp_all add: T_def U_def D_def)
  have run: "add_tag (int t) (int d) s = Some (s\<lparr>array_t := T, array_d := D\<rparr>)"
  proof (cases "ch d")
    case Nil
    have same: "(array_t s)[t := (array_t s ! t)\<lparr>t_prev := -1\<rparr>] = array_t s"
      using t fr(2) by (simp add: list_update_same_conv)
    show ?thesis
      using d t linkedD(1) [OF lk d] Nil same
      by (simp add: add_tag_def data_at_def mod_tag_def mod_data_def tag_at_def read_at_def T_def U_def D_def
          set_next_def Data_upd)
  next
    case (Cons x xs)
    then have "x < length (array_t s)" "x \<noteq> t" using linked_mem(1) [OF lk d, of x] tn by auto
    then show ?thesis
      using d t linkedD(1) [OF lk d] Cons
      by (simp add: add_tag_def data_at_def mod_tag_def mod_data_def tag_at_def read_at_def T_def U_def D_def
          set_next_def Data_upd nth_list_update Let_def)
  qed
  have addr: "\<forall>u. t_addr (T ! u) = t_addr (array_t s ! u)"
    by (simp add: T_def U_def update_field [of t_addr])
  have did: "\<forall>u. t_data_id (T ! u) = (if u = t then int d else t_data_id (array_t s ! u))"
  proof
    fix u
    show "t_data_id (T ! u) = (if u = t then int d else t_data_id (array_t s ! u))"
      using t by (cases "u = t") (simp_all add: T_def U_def update_field [of t_data_id])
  qed
  have mp: "\<forall>e. d_map_value (D ! e) = d_map_value (array_d s ! e)"
    using d by (auto simp: D_def nth_list_update)
  have other: "T ! u = array_t s ! u" if "u \<noteq> t" "u \<notin> set (ch d)" for u
    using that by (simp add: T_def U_def set_next_other)
  have T_t: "t_next (T ! t) = -1" "t_prev (T ! t) = ?p" "t_data_id (T ! t) = int d"
    using t fr(1) tn by (simp_all add: T_def U_def set_next_other)
  have seg: "links T (-1) (-1) d (t # ch d)"
  proof -
    have "links ((array_t s)[t := (array_t s ! t)\<lparr>t_prev := ?p\<rparr>]) (-1) (-1) d (ch d) = links (array_t s) (-1) (-1) d (ch d)"
      using tn by (intro links_frame) (auto intro!: nth_list_update_neq)
    then have "links U (int t) (-1) d (ch d)"
      unfolding U_def using linkedD(2,3) [OF lk d] by (intro links_set_next) auto
    moreover have "links T (int t) (-1) d (ch d) = links U (int t) (-1) d (ch d)"
      using tn by (intro links_frame) (auto simp: T_def intro!: nth_list_update_neq)
    ultimately show ?thesis using T_t t len by simp
  qed
  have others: "links T (-1) (-1) e (ch e)" if e: "e < length (array_d s)" "e \<noteq> d" for e
  proof -
    have "T ! u = array_t s ! u" if u: "u \<in> set (ch e)" for u
    proof (rule other)
      show "u \<noteq> t" using fr(3) e(1) u by blast
      show "u \<notin> set (ch d)" using linked_disjoint [OF lk d e(1) _ u] e(2) by blast
    qed
    then have "links T (-1) (-1) e (ch e) = links (array_t s) (-1) (-1) e (ch e)"
      by (intro links_frame len(1))
    with linkedD(3) [OF lk e(1)] show ?thesis by blast
  qed
  have head: "d_tag_head_id (D ! e) = head_or (-1) ((ch(d := t # ch d)) e)" if e: "e < length (array_d s)" for e
    using linkedD(1) [OF lk e] d by (auto simp: D_def nth_list_update)
  have freeT: "t_data_id (T ! u) = -1 \<and> t_next (T ! u) = -1 \<and> t_prev (T ! u) = -1 \<or>
      (\<exists>e<length (array_d s). t_data_id (T ! u) = int e \<and> u \<in> set ((ch(d := t # ch d)) e))"
    if u: "u < length (array_t s)" for u
  proof (cases "u = t")
    case True
    with T_t d show ?thesis by auto
  next
    case ut: False
    show ?thesis
    proof (cases "t_data_id (array_t s ! u) = -1")
      case True
      then have "u \<notin> set (ch d)" using linked_free(3) [OF lk u True] d by auto
      then have "T ! u = array_t s ! u" using other ut by simp
      with linked_free(1,2) [OF lk u True] True show ?thesis by simp
    next
      case False
      from linked_used [OF lk u this] obtain e where
        "e < length (array_d s)" "t_data_id (array_t s ! u) = int e" "u \<in> set (ch e)" by blast
      with did ut show ?thesis by (cases "e = d") auto
    qed
  qed
  have "linked (s\<lparr>array_t := T, array_d := D\<rparr>) (ch(d := t # ch d))"
    using lk seg others head freeT linkedD(2) [OF lk] tn unfolding linked_def
    by (auto simp: len)
  with run addr did mp show ?thesis by blast
qed

lemma set_single_linked:
  assumes lk: "linked s ch" and d: "d < length (array_d s)" and t: "t < length (array_t s)"
    and free: "t_data_id (array_t s ! t) = -1" and empty: "ch d = []"
  shows "\<exists>T D. set_single (int t) (int d) mp s = Some (s\<lparr>array_t := T, array_d := D\<rparr>) \<and>
    linked (s\<lparr>array_t := T, array_d := D\<rparr>) (ch(d := [t])) \<and>
    (\<forall>u. t_addr (T ! u) = t_addr (array_t s ! u)) \<and>
    (\<forall>u. t_data_id (T ! u) = (if u = t then int d else t_data_id (array_t s ! u))) \<and>
    (\<forall>e. d_map_value (D ! e) = (if e = d then mp else d_map_value (array_d s ! e)))"
proof -
  define T where "T = (array_t s)[t := (array_t s ! t)\<lparr>t_data_id := int d\<rparr>]"
  define D where "D = (array_d s)[d := \<lparr>d_map_value = mp, d_tag_head_id = int t\<rparr>]"
  note fr = linked_free [OF lk t free]
  have run: "set_single (int t) (int d) mp s = Some (s\<lparr>array_t := T, array_d := D\<rparr>)"
    using d t by (simp add: set_single_def mod_tag_def mod_data_def tag_at_def data_at_def read_at_def T_def D_def Data_upd)
  have len: "length T = length (array_t s)" "length D = length (array_d s)" by (simp_all add: T_def D_def)
  have addr: "\<forall>u. t_addr (T ! u) = t_addr (array_t s ! u)" by (simp add: T_def update_field [of t_addr])
  have other: "T ! u = array_t s ! u" if "u \<noteq> t" for u using that by (simp add: T_def)
  have did: "\<forall>u. t_data_id (T ! u) = (if u = t then int d else t_data_id (array_t s ! u))"
    using t other by (auto simp: T_def)
  have mp: "\<forall>e. d_map_value (D ! e) = (if e = d then mp else d_map_value (array_d s ! e))"
    using d by (auto simp: D_def nth_list_update)
  have T_t: "t_next (T ! t) = -1" "t_prev (T ! t) = -1" "t_data_id (T ! t) = int d"
    using t fr by (simp_all add: T_def)
  have others: "links T (-1) (-1) e (ch e)" if e: "e < length (array_d s)" for e
  proof -
    have "T ! u = array_t s ! u" if u: "u \<in> set (ch e)" for u
      using other fr(3) e u by metis
    then have "links T (-1) (-1) e (ch e) = links (array_t s) (-1) (-1) e (ch e)"
      by (intro links_frame len(1))
    with linkedD(3) [OF lk e] show ?thesis by blast
  qed
  have head: "d_tag_head_id (D ! e) = head_or (-1) ((ch(d := [t])) e)" if e: "e < length (array_d s)" for e
    using linkedD(1) [OF lk e] d by (auto simp: D_def nth_list_update)
  have freeT: "t_data_id (T ! u) = -1 \<and> t_next (T ! u) = -1 \<and> t_prev (T ! u) = -1 \<or>
      (\<exists>e<length (array_d s). t_data_id (T ! u) = int e \<and> u \<in> set ((ch(d := [t])) e))"
    if u: "u < length (array_t s)" for u
  proof (cases "u = t")
    case True
    with T_t d show ?thesis by auto
  next
    case ut: False
    show ?thesis
    proof (cases "t_data_id (array_t s ! u) = -1")
      case True
      with other ut linked_free(1,2) [OF lk u True] show ?thesis by simp
    next
      case False
      from linked_used [OF lk u this] obtain e where
        e: "e < length (array_d s)" "t_data_id (array_t s ! u) = int e" "u \<in> set (ch e)" by blast
      then have "e \<noteq> d" using empty by auto
      with e did ut show ?thesis by auto
    qed
  qed
  have "linked (s\<lparr>array_t := T, array_d := D\<rparr>) (ch(d := [t]))"
    using lk others head freeT T_t t linkedD(2) [OF lk] unfolding linked_def
    by (auto simp: len)
  with run addr did mp show ?thesis by blast
qed

end
