(* ===== verification/Doppelganger_Ops.thy ===== *)
theory Doppelganger_Ops imports Doppelganger_Lists begin

text \<open>
  The invariant of the Doppelganger array and what its operations do, for any two replacement policies
  that satisfy the interface \<open>ready_replacement\<close> and any hash function that never fails.
\<close>

lemma set_index_bound:
  assumes "set_index hf m w a = Some k"
  shows "k \<le> unat m"
proof -
  obtain h where h: "hf w a = Some h" "k = unat (ucast (h AND ucast m) :: u32)"
    using assms by (auto simp: set_index_def bind_eq_Some_conv)
  have "k = unat (ucast h AND m :: u32)"
    unfolding h(2) by (rule arg_cong [of _ _ unat]) (rule bit_eqI, auto simp: bit_simps)
  also have "\<dots> \<le> unat m"
  proof -
    have "uint (ucast h AND m) \<le> uint m" by (simp add: unsigned_and_eq AND_upper2)
    then show ?thesis by (simp add: word_le_def [symmetric] word_le_nat_alt)
  qed
  finally show ?thesis .
qed

subsection \<open>The invariant\<close>

definition in_set :: "nat option \<Rightarrow> nat \<Rightarrow> nat \<Rightarrow> bool" where
  "in_set st ways i \<longleftrightarrow> (\<exists>k. st = Some k \<and> k * ways \<le> i \<and> i < k * ways + ways)"

definition geometry :: "'p dpg \<Rightarrow> bool" where
  "geometry s \<longleftrightarrow> 0 < assoc s \<and> 0 < numSets_t s \<and> 0 < numSets_d s \<and>
     numSets_t s * assoc s \<le> numLines s \<and> numSets_d s * assoc s \<le> numLines s div DATA_SCALE \<and>
     unat (setMask_t s) = numSets_t s - 1 \<and> unat (setMask_d s) = numSets_d s - 1"

text \<open>Every data entry in use is in the set of its map, and no map has two entries.\<close>

definition maps_ok :: "hash_fn \<Rightarrow> 'p dpg \<Rightarrow> (nat \<Rightarrow> nat list) \<Rightarrow> bool" where
  "maps_ok hf s ch \<longleftrightarrow>
     (\<forall>d<length (array_d s). ch d \<noteq> [] \<longrightarrow> in_set (data_set hf s (d_map_value (array_d s ! d))) (assoc s) d) \<and>
     (\<forall>d<length (array_d s). \<forall>e<length (array_d s). ch d \<noteq> [] \<longrightarrow> ch e \<noteq> [] \<longrightarrow>
        d_map_value (array_d s ! d) = d_map_value (array_d s ! e) \<longrightarrow> d = e)"

text \<open>Every tag that holds an address is in the set of the address, and no address has two tags; a free tag
  holds none.\<close>

definition tags_ok :: "hash_fn \<Rightarrow> 'p dpg \<Rightarrow> bool" where
  "tags_ok hf s \<longleftrightarrow>
     (\<forall>t<length (array_t s). t_addr (array_t s ! t) \<noteq> -1 \<longrightarrow>
        t_data_id (array_t s ! t) \<noteq> -1 \<and> in_set (tag_set hf s (t_addr (array_t s ! t))) (assoc s) t) \<and>
     (\<forall>t<length (array_t s). \<forall>u<length (array_t s). t_addr (array_t s ! t) \<noteq> -1 \<longrightarrow>
        t_addr (array_t s ! t) = t_addr (array_t s ! u) \<longrightarrow> t = u)"

lemma maps_okI:
  assumes "maps_ok hf s ch" and "length D = length (array_d s)" "data_set hf s' = data_set hf s" "assoc s' = assoc s"
    and "array_d s' = D"
    and "\<And>d. d < length D \<Longrightarrow> ch' d \<noteq> [] \<Longrightarrow> ch d \<noteq> [] \<and> d_map_value (D ! d) = d_map_value (array_d s ! d)"
  shows "maps_ok hf s' ch'"
  unfolding maps_ok_def
proof (intro conjI allI impI)
  fix d
  assume d: "d < length (array_d s')" "ch' d \<noteq> []"
  then have "ch d \<noteq> [] \<and> d_map_value (D ! d) = d_map_value (array_d s ! d)" using assms(5,6) by simp
  with d assms(1,2,5) have "in_set (data_set hf s (d_map_value (D ! d))) (assoc s) d" by (simp add: maps_ok_def)
  with assms(3,4,5) show "in_set (data_set hf s' (d_map_value (array_d s' ! d))) (assoc s') d" by simp
next
  fix d e
  assume d: "d < length (array_d s')" "e < length (array_d s')" "ch' d \<noteq> []" "ch' e \<noteq> []"
    "d_map_value (array_d s' ! d) = d_map_value (array_d s' ! e)"
  then have "ch d \<noteq> []" "ch e \<noteq> []" "d_map_value (array_d s ! d) = d_map_value (array_d s ! e)"
    using assms(5) assms(6) [of d] assms(6) [of e] by auto
  with d(1,2) assms(1,2,5) show "d = e" by (auto simp: maps_ok_def)
qed

lemma tags_okI:
  assumes "tags_ok hf s" and "length (array_t s') = length (array_t s)" "tag_set hf s' = tag_set hf s" "assoc s' = assoc s"
    and "\<And>t. t < length (array_t s) \<Longrightarrow> t_addr (array_t s' ! t) \<noteq> -1 \<Longrightarrow>
      t_addr (array_t s' ! t) = t_addr (array_t s ! t) \<and>
      (t_data_id (array_t s ! t) \<noteq> -1 \<longrightarrow> t_data_id (array_t s' ! t) \<noteq> -1)"
  shows "tags_ok hf s'"
  unfolding tags_ok_def
proof (intro conjI allI impI)
  fix t
  assume "t < length (array_t s')" "t_addr (array_t s' ! t) \<noteq> -1"
  with assms(1,2,5) show "t_data_id (array_t s' ! t) \<noteq> -1" unfolding tags_ok_def by metis
next
  fix t
  assume "t < length (array_t s')" "t_addr (array_t s' ! t) \<noteq> -1"
  with assms show "in_set (tag_set hf s' (t_addr (array_t s' ! t))) (assoc s') t" unfolding tags_ok_def by metis
next
  fix t u
  assume "t < length (array_t s')" "u < length (array_t s')" "t_addr (array_t s' ! t) \<noteq> -1"
    "t_addr (array_t s' ! t) = t_addr (array_t s' ! u)"
  with assms(1,2,5) show "t = u" unfolding tags_ok_def by metis
qed

lemma data_set_cong: "setMask_d s' = setMask_d s \<Longrightarrow> data_set hf s' = data_set hf s"
  by (rule ext) (simp add: data_set_def)

lemma tag_set_cong: "setMask_t s' = setMask_t s \<Longrightarrow> tag_set hf s' = tag_set hf s"
  by (rule ext) (simp add: tag_set_def)

subsection \<open>What operations leave unchanged\<close>

definition same_conf :: "'p dpg \<Rightarrow> 'p dpg \<Rightarrow> bool" where
  "same_conf s s' \<longleftrightarrow> numLines s' = numLines s \<and> assoc s' = assoc s \<and> numSets_t s' = numSets_t s \<and>
     numSets_d s' = numSets_d s \<and> setMask_t s' = setMask_t s \<and> setMask_d s' = setMask_d s \<and>
     length (array_t s') = length (array_t s) \<and> length (array_d s') = length (array_d s)"

lemma same_conf_refl [simp]: "same_conf s s"
  by (simp add: same_conf_def)

lemma same_conf_trans [trans]: "same_conf s s' \<Longrightarrow> same_conf s' s'' \<Longrightarrow> same_conf s s''"
  by (simp add: same_conf_def)

lemma same_confD:
  assumes "same_conf s s'"
  shows "numLines s' = numLines s" "assoc s' = assoc s" "length (array_t s') = length (array_t s)"
    "length (array_d s') = length (array_d s)" "geometry s' = geometry s" "tag_set hf s' = tag_set hf s"
    "data_set hf s' = data_set hf s"
  using assms by (auto simp: same_conf_def geometry_def intro: tag_set_cong data_set_cong)

text \<open>Tags outside \<open>X\<close> are unchanged or have been evicted.\<close>

definition shrinks :: "nat set \<Rightarrow> 'p dpg \<Rightarrow> 'p dpg \<Rightarrow> bool" where
  "shrinks X s s' \<longleftrightarrow>
     (\<forall>u. u \<notin> X \<longrightarrow> t_addr (array_t s' ! u) = t_addr (array_t s ! u) \<and> t_data_id (array_t s' ! u) = t_data_id (array_t s ! u) \<or>
        t_addr (array_t s' ! u) = -1 \<and> t_data_id (array_t s' ! u) = -1)"

lemma shrinks_refl [simp]: "shrinks X s s"
  by (simp add: shrinks_def)

lemma shrinks_trans:
  assumes "shrinks X s s'" and "shrinks Y s' s''" and "X \<subseteq> Z" and "Y \<subseteq> Z"
  shows "shrinks Z s s''"
  unfolding shrinks_def
proof (intro allI impI)
  fix u
  assume "u \<notin> Z"
  then have "u \<notin> X" "u \<notin> Y" using assms(3,4) by auto
  with assms(1,2) [unfolded shrinks_def, rule_format, of u]
  show "t_addr (array_t s'' ! u) = t_addr (array_t s ! u) \<and> t_data_id (array_t s'' ! u) = t_data_id (array_t s ! u) \<or>
        t_addr (array_t s'' ! u) = -1 \<and> t_data_id (array_t s'' ! u) = -1"
    by auto
qed

lemma linked_rp [simp]: "linked (s\<lparr>rp_dpg_t := p\<rparr>) ch = linked s ch" "linked (s\<lparr>rp_dpg_d := p\<rparr>) ch = linked s ch"
  by (simp_all add: linked_def)

subsection \<open>Outcomes\<close>

text \<open>An operation that evicts tags has a result unless the coherence controller fails on an eviction.
  \<open>evict_all\<close> evicts the given tags, one after the other, each with its address and line id;
  \<open>evict_fails\<close>: it fails, from the present state of the controller, on some of the tags in use.\<close>

definition outcome :: "bool \<Rightarrow> 'a option \<Rightarrow> ('a \<Rightarrow> bool) \<Rightarrow> bool" where
  "outcome F res Q \<longleftrightarrow> (case res of None \<Rightarrow> F | Some x \<Rightarrow> Q x)"

lemma outcome_Some [simp]: "outcome F (Some x) Q = Q x"
  by (simp add: outcome_def)

lemma outcome_bind:
  "outcome F res Q \<Longrightarrow> (\<And>x. Q x \<Longrightarrow> outcome F (f x) R) \<Longrightarrow> outcome F (res \<bind> f) R"
  by (cases res) (auto simp: outcome_def)

lemma outcome_mono: "outcome F res Q \<Longrightarrow> (\<And>x. Q x \<Longrightarrow> R x) \<Longrightarrow> outcome F res R"
  by (cases res) (auto simp: outcome_def)

lemma outcome_fail: "outcome F res Q \<Longrightarrow> (F \<Longrightarrow> G) \<Longrightarrow> outcome G res Q"
  by (cases res) (auto simp: outcome_def)

fun evict_all :: "'cc CC_ops \<Rightarrow> MemReq \<Rightarrow> u64 \<Rightarrow> 'p dpg \<Rightarrow> nat list \<Rightarrow> 'cc \<Rightarrow> 'cc option" where
  "evict_all C r cyc s [] cc = Some cc"
| "evict_all C r cyc s (t # ts) cc = do {
     cc' \<leftarrow> cc_processEviction C r (t_addr (array_t s ! t)) (t + numLines s) cyc cc;
     evict_all C r cyc s ts cc'
   }"

definition evict_fails :: "'cc CC_ops \<Rightarrow> MemReq \<Rightarrow> u64 \<Rightarrow> 'p dpg \<Rightarrow> 'cc \<Rightarrow> bool" where
  "evict_fails C r cyc s cc \<longleftrightarrow> (\<exists>ts. distinct ts \<and>
     (\<forall>t\<in>set ts. t < numLines s \<and> t_data_id (array_t s ! t) \<noteq> -1) \<and> evict_all C r cyc s ts cc = None)"

lemma evict_all_cong:
  "numLines s' = numLines s \<Longrightarrow> (\<And>t. t \<in> set ts \<Longrightarrow> t_addr (array_t s' ! t) = t_addr (array_t s ! t)) \<Longrightarrow>
   evict_all C r cyc s' ts cc = evict_all C r cyc s ts cc"
proof (induction ts arbitrary: cc)
  case (Cons t ts)
  have "evict_all C r cyc s' ts = evict_all C r cyc s ts" by (rule ext) (use Cons in simp)
  with Cons.prems show ?case by simp
qed simp

text \<open>A failure after tags were freed and others evicted is one of the state before.\<close>

lemma evict_fails_mono:
  assumes f: "evict_fails C r cyc s' cc" and n: "numLines s' = numLines s"
    and u: "\<And>t. t < numLines s \<Longrightarrow> t_data_id (array_t s' ! t) \<noteq> -1 \<Longrightarrow>
      t_data_id (array_t s ! t) \<noteq> -1 \<and> t_addr (array_t s' ! t) = t_addr (array_t s ! t)"
  shows "evict_fails C r cyc s cc"
proof -
  obtain ts where ts: "distinct ts" "\<forall>t\<in>set ts. t < numLines s \<and> t_data_id (array_t s' ! t) \<noteq> -1"
    "evict_all C r cyc s' ts cc = None"
    using f n by (auto simp: evict_fails_def)
  have "evict_all C r cyc s' ts cc = evict_all C r cyc s ts cc"
    by (rule evict_all_cong [OF n]) (use ts(2) u in blast)
  with ts u show ?thesis unfolding evict_fails_def by (intro exI [of _ ts]) auto
qed

lemma evict_fails_step:
  assumes f: "evict_fails C r cyc s' cc'" and n: "numLines s' = numLines s"
    and u: "\<And>v. v < numLines s \<Longrightarrow> t_data_id (array_t s' ! v) \<noteq> -1 \<Longrightarrow>
      v \<noteq> t \<and> t_data_id (array_t s ! v) \<noteq> -1 \<and> t_addr (array_t s' ! v) = t_addr (array_t s ! v)"
    and t: "t < numLines s" "t_data_id (array_t s ! t) \<noteq> -1"
      "cc_processEviction C r (t_addr (array_t s ! t)) (t + numLines s) cyc cc = Some cc'"
  shows "evict_fails C r cyc s cc"
proof -
  obtain ts where ts: "distinct ts" "\<forall>v\<in>set ts. v < numLines s \<and> t_data_id (array_t s' ! v) \<noteq> -1"
    "evict_all C r cyc s' ts cc' = None"
    using f n by (auto simp: evict_fails_def)
  have "evict_all C r cyc s' ts cc' = evict_all C r cyc s ts cc'"
    by (rule evict_all_cong [OF n]) (use ts(2) u in blast)
  with ts u t show ?thesis unfolding evict_fails_def by (intro exI [of _ "t # ts"]) auto
qed

subsection \<open>The searches\<close>

lemma find_data_spec:
  "i + n \<le> length (array_d s) \<Longrightarrow>
   (\<exists>d. find_data s mp i n = Some (int d) \<and> i \<le> d \<and> d < i + n \<and> d_map_value (array_d s ! d) = mp \<and>
      d_tag_head_id (array_d s ! d) \<noteq> -1) \<or>
   find_data s mp i n = Some (-1) \<and> (\<forall>d. i \<le> d \<longrightarrow> d < i + n \<longrightarrow>
      d_map_value (array_d s ! d) = mp \<longrightarrow> d_tag_head_id (array_d s ! d) = -1)"
proof (induction n arbitrary: i)
  case (Suc n)
  show ?case
  proof (cases "d_map_value (array_d s ! i) = mp \<and> d_tag_head_id (array_d s ! i) \<noteq> -1")
    case True
    with Suc.prems show ?thesis by (intro disjI1 exI [of _ i]) (simp add: read_at_def)
  next
    case False
    have step: "find_data s mp i (Suc n) = find_data s mp (Suc i) n"
      using Suc.prems False by (auto simp: read_at_def)
    from Suc.IH [of "Suc i"] Suc.prems have "(\<exists>d. find_data s mp (Suc i) n = Some (int d) \<and> Suc i \<le> d \<and> d < Suc i + n \<and>
        d_map_value (array_d s ! d) = mp \<and> d_tag_head_id (array_d s ! d) \<noteq> -1) \<or>
      find_data s mp (Suc i) n = Some (-1) \<and> (\<forall>d. Suc i \<le> d \<longrightarrow> d < Suc i + n \<longrightarrow>
        d_map_value (array_d s ! d) = mp \<longrightarrow> d_tag_head_id (array_d s ! d) = -1)"
      by simp
    with False show ?thesis unfolding step
      by (metis Suc_leD add_Suc_shift le_antisym not_less_eq_eq)
  qed
qed simp

lemma find_free_data_spec:
  "i + n \<le> length (array_d s) \<Longrightarrow>
   (\<exists>d. find_free_data s i n = Some (int d) \<and> i \<le> d \<and> d < i + n \<and> d_tag_head_id (array_d s ! d) = -1) \<or>
   find_free_data s i n = Some (-1) \<and> (\<forall>d. i \<le> d \<longrightarrow> d < i + n \<longrightarrow> d_tag_head_id (array_d s ! d) \<noteq> -1)"
proof (induction n arbitrary: i)
  case (Suc n)
  show ?case
  proof (cases "d_tag_head_id (array_d s ! i) = -1")
    case True
    with Suc.prems show ?thesis by (intro disjI1 exI [of _ i]) (simp add: read_at_def)
  next
    case False
    have step: "find_free_data s i (Suc n) = find_free_data s (Suc i) n"
      using Suc.prems False by (simp add: read_at_def)
    from Suc.IH [of "Suc i"] Suc.prems False show ?thesis unfolding step
      by (metis Suc_leD add_Suc_shift le_antisym not_less_eq_eq)
  qed
qed simp

lemma find_free_tag_spec:
  "i + n \<le> length (array_t s) \<Longrightarrow>
   (\<exists>t. find_free_tag s i n = Some (int t) \<and> i \<le> t \<and> t < i + n \<and> t_data_id (array_t s ! t) = -1) \<or>
   find_free_tag s i n = Some (-1) \<and> (\<forall>t. i \<le> t \<longrightarrow> t < i + n \<longrightarrow> t_data_id (array_t s ! t) \<noteq> -1)"
proof (induction n arbitrary: i)
  case (Suc n)
  show ?case
  proof (cases "t_data_id (array_t s ! i) = -1")
    case True
    with Suc.prems show ?thesis by (intro disjI1 exI [of _ i]) (simp add: read_at_def)
  next
    case False
    have step: "find_free_tag s i (Suc n) = find_free_tag s (Suc i) n"
      using Suc.prems False by (simp add: read_at_def)
    from Suc.IH [of "Suc i"] Suc.prems False show ?thesis unfolding step
      by (metis Suc_leD add_Suc_shift le_antisym not_less_eq_eq)
  qed
qed simp

text \<open>A line is held by a tag in use with its address.\<close>

definition holds :: "'p dpg \<Rightarrow> address \<Rightarrow> nat \<Rightarrow> bool" where
  "holds s line t \<longleftrightarrow> t < numLines s \<and> t_addr (array_t s ! t) = line \<and> t_data_id (array_t s ! t) \<noteq> -1"

subsection \<open>The operations\<close>

locale dpg_env =
  T: ready_replacement PT invT readyT linesT fitsT + D: ready_replacement PD invD readyD linesD fitsD
  for PT :: "'p ReplPolicy" and invT readyT linesT fitsT and PD :: "'p ReplPolicy" and invD readyD linesD fitsD +
  fixes hf :: hash_fn
  assumes hash_total: "\<exists>h. hf 0 a = Some h"
    and any_fits: "fitsT p cands" "fitsD p cands"
begin

definition wf :: "'p dpg \<Rightarrow> (nat \<Rightarrow> nat list) \<Rightarrow> bool" where
  "wf s ch \<longleftrightarrow> linked s ch \<and> geometry s \<and> maps_ok hf s ch \<and> tags_ok hf s \<and>
     invT (rp_dpg_t s) \<and> numLines s \<le> linesT (rp_dpg_t s) \<and>
     invD (rp_dpg_d s) \<and> numLines s div DATA_SCALE \<le> linesD (rp_dpg_d s)"

lemma wf_linked: "wf s ch \<Longrightarrow> linked s ch"
  by (simp add: wf_def)

lemma set_range:
  assumes "k \<le> n - 1" and "0 < n" and "n * ways \<le> m"
  shows "k * ways + ways \<le> (m::nat)"
proof -
  have "Suc k * ways \<le> n * ways" using assms(1,2) by (intro mult_le_mono1) simp
  with assms(3) show ?thesis by simp
qed

lemma tag_set_total:
  assumes "geometry s"
  shows "\<exists>k. tag_set hf s a = Some k \<and> k * assoc s + assoc s \<le> numLines s"
proof -
  obtain h where "hf 0 a = Some h" using hash_total by blast
  then obtain k where k: "tag_set hf s a = Some k" by (simp add: tag_set_def set_index_def)
  with set_index_bound [of hf "setMask_t s" 0 a k] assms show ?thesis
    by (auto simp: tag_set_def geometry_def intro!: set_range)
qed

lemma data_set_total:
  assumes "geometry s"
  shows "\<exists>k. data_set hf s mp = Some k \<and> k * assoc s + assoc s \<le> numLines s div DATA_SCALE"
proof -
  obtain h where "hf 0 (scast mp) = Some h" using hash_total by blast
  then obtain k where k: "data_set hf s mp = Some k" by (simp add: data_set_def set_index_def)
  with set_index_bound [of hf "setMask_d s" 0 "scast mp" k] assms show ?thesis
    by (auto simp: data_set_def geometry_def intro!: set_range)
qed

lemma evict_tag_run:
  assumes w: "wf s ch" and d: "d < length (array_d s)" and ch: "ch d = ys @ t # zs"
  shows "\<exists>s'. (\<forall>cc. evict_tag C PT (int t) (Some r) cyc (s, cc) =
      map_option (\<lambda>cc'. (s', cc')) (cc_processEviction C r (t_addr (array_t s ! t)) (t + numLines s) cyc cc)) \<and>
    wf s' (ch(d := ys @ zs)) \<and> same_conf s s' \<and> rp_dpg_d s' = rp_dpg_d s \<and>
    (\<forall>u. t_addr (array_t s' ! u) = (if u = t then -1 else t_addr (array_t s ! u))) \<and>
    (\<forall>u. t_data_id (array_t s' ! u) = (if u = t then -1 else t_data_id (array_t s ! u))) \<and>
    (\<forall>e. e \<noteq> d \<longrightarrow> d_map_value (array_d s' ! e) = d_map_value (array_d s ! e))"
proof -
  have lk: "linked s ch" using w by (rule wf_linked)
  have t: "t < length (array_t s)" using linked_mem(1) [OF lk d, of t] ch by simp
  then have tn: "t < numLines s" using lk by (simp add: linked_def)
  obtain rp where rp: "rp_replaced PT t (rp_dpg_t s) = Some rp" "readyT rp" "linesT rp = linesT (rp_dpg_t s)"
    using T.replaced_law [of "rp_dpg_t s" t] w tn by (auto simp: wf_def)
  let ?s0 = "s\<lparr>rp_dpg_t := rp\<rparr>"
  have lk0: "linked ?s0 ch" using lk by simp
  obtain TT DD where rm: "remove_tag (int t) ?s0 = Some (?s0\<lparr>array_t := TT, array_d := DD\<rparr>)"
    "linked (?s0\<lparr>array_t := TT, array_d := DD\<rparr>) (ch(d := ys @ zs))"
    "\<forall>u. t_addr (TT ! u) = (if u = t then -1 else t_addr (array_t s ! u))"
    "\<forall>u. t_data_id (TT ! u) = (if u = t then -1 else t_data_id (array_t s ! u))"
    "\<forall>e. d_map_value (DD ! e) = (if e = d \<and> ys @ zs = [] then -1 else d_map_value (array_d s ! e))"
    using remove_tag_linked [OF lk0, of d ys t zs] d ch by auto
  let ?s' = "?s0\<lparr>array_t := TT, array_d := DD\<rparr>"
  have len: "length TT = length (array_t s)" "length DD = length (array_d s)"
    using rm(2) lk by (simp_all add: linked_def)
  have conf: "same_conf s ?s'" using len by (simp add: same_conf_def)
  note cD = same_confD [OF conf]
  have "maps_ok hf ?s' (ch(d := ys @ zs))"
    by (rule maps_okI [of hf s ch DD]) (use w ch rm(5) len cD in \<open>auto simp: wf_def split: if_splits\<close>)
  moreover have "tags_ok hf ?s'"
    by (rule tags_okI [of hf s]) (use w rm(3,4) len cD in \<open>auto simp: wf_def split: if_splits\<close>)
  moreover have "invT rp" using T.ready_inv [OF rp(2)] .
  ultimately have "wf ?s' (ch(d := ys @ zs))"
    using rm(2) w cD rp(3) by (simp add: wf_def)
  moreover have "\<forall>cc. evict_tag C PT (int t) (Some r) cyc (s, cc) =
      map_option (\<lambda>cc'. (?s', cc')) (cc_processEviction C r (t_addr (array_t s ! t)) (t + numLines s) cyc cc)"
    using t tn rp(1) rm(1)
    by (auto simp: evict_tag_def tag_at_def read_at_def split: option.splits bind_splits)
  ultimately show ?thesis
    using rm(3,4,5) conf by (intro exI [of _ ?s']) simp
qed

lemma evict_loop_run:
  assumes "wf s ch" and "d < length (array_d s)" and "ch d = t # ts"
  shows "\<exists>s'. (\<forall>cc. evict_loop C PT (int d) (Some r) cyc (s, cc) =
      map_option (\<lambda>cc'. (s', cc')) (evict_all C r cyc s (t # ts) cc)) \<and>
    wf s' (ch(d := [])) \<and> same_conf s s' \<and>
    (\<forall>u. t_addr (array_t s' ! u) = (if u \<in> set (t # ts) then -1 else t_addr (array_t s ! u))) \<and>
    (\<forall>u. t_data_id (array_t s' ! u) = (if u \<in> set (t # ts) then -1 else t_data_id (array_t s ! u))) \<and>
    (\<forall>e. e \<noteq> d \<longrightarrow> d_map_value (array_d s' ! e) = d_map_value (array_d s ! e))"
  using assms
proof (induction ts arbitrary: s ch t)
  case Nil
  note w = Nil(1) and d = Nil(2)
  have head: "d_tag_head_id (array_d s ! d) = int t" using linkedD(1) [OF wf_linked [OF w] d] Nil(3) by simp
  obtain s' where s': "\<forall>cc. evict_tag C PT (int t) (Some r) cyc (s, cc) =
      map_option (\<lambda>cc'. (s', cc')) (cc_processEviction C r (t_addr (array_t s ! t)) (t + numLines s) cyc cc)"
    "wf s' (ch(d := []))" "same_conf s s'"
    "\<forall>u. t_addr (array_t s' ! u) = (if u = t then -1 else t_addr (array_t s ! u))"
    "\<forall>u. t_data_id (array_t s' ! u) = (if u = t then -1 else t_data_id (array_t s ! u))"
    "\<forall>e. e \<noteq> d \<longrightarrow> d_map_value (array_d s' ! e) = d_map_value (array_d s ! e)"
    using evict_tag_run [OF w d, of "[]" t "[]" C r cyc] Nil(3) by auto
  have d': "d < length (array_d s')" using d same_confD(4) [OF s'(3)] by simp
  have head': "d_tag_head_id (array_d s' ! d) = -1"
    using linkedD(1) [OF wf_linked [OF s'(2)] d'] by simp
  have run: "\<forall>cc. evict_loop C PT (int d) (Some r) cyc (s, cc) =
      map_option (\<lambda>cc'. (s', cc')) (evict_all C r cyc s [t] cc)"
    by (subst evict_loop.simps) (auto simp: data_at_def read_at_def d d' head head' s'(1) split: option.splits bind_splits)
  have "(x \<in> set [t]) = (x = t)" for x by simp
  then show ?case
    by (intro exI [of _ s'] conjI run s'(2,3,6)) (simp_all only: s'(4,5) simp_thms)
next
  case (Cons t2 ts)
  note w = Cons.prems(1) and d = Cons.prems(2)
  have head: "d_tag_head_id (array_d s ! d) = int t" using linkedD(1) [OF wf_linked [OF w] d] Cons.prems(3) by simp
  have dist: "t \<notin> set (t2 # ts)" using linkedD(2) [OF wf_linked [OF w] d] Cons.prems(3) by simp
  obtain s1 where s1: "\<forall>cc. evict_tag C PT (int t) (Some r) cyc (s, cc) =
      map_option (\<lambda>cc'. (s1, cc')) (cc_processEviction C r (t_addr (array_t s ! t)) (t + numLines s) cyc cc)"
    "wf s1 (ch(d := t2 # ts))" "same_conf s s1"
    "\<forall>u. t_addr (array_t s1 ! u) = (if u = t then -1 else t_addr (array_t s ! u))"
    "\<forall>u. t_data_id (array_t s1 ! u) = (if u = t then -1 else t_data_id (array_t s ! u))"
    "\<forall>e. e \<noteq> d \<longrightarrow> d_map_value (array_d s1 ! e) = d_map_value (array_d s ! e)"
    using evict_tag_run [OF w d, of "[]" t "t2 # ts" C r cyc] Cons.prems(3) by auto
  have d1: "d < length (array_d s1)" using d same_confD(4) [OF s1(3)] by simp
  have head1: "d_tag_head_id (array_d s1 ! d) = int t2"
    using linkedD(1) [OF wf_linked [OF s1(2)] d1] by simp
  obtain s' where s': "\<forall>cc. evict_loop C PT (int d) (Some r) cyc (s1, cc) =
      map_option (\<lambda>cc'. (s', cc')) (evict_all C r cyc s1 (t2 # ts) cc)"
    "wf s' (ch(d := []))" "same_conf s1 s'"
    "\<forall>u. t_addr (array_t s' ! u) = (if u \<in> set (t2 # ts) then -1 else t_addr (array_t s1 ! u))"
    "\<forall>u. t_data_id (array_t s' ! u) = (if u \<in> set (t2 # ts) then -1 else t_data_id (array_t s1 ! u))"
    "\<forall>e. e \<noteq> d \<longrightarrow> d_map_value (array_d s' ! e) = d_map_value (array_d s1 ! e)"
    using Cons.IH [OF s1(2) d1 fun_upd_same] unfolding fun_upd_upd by (elim exE conjE) rule
  have "evict_all C r cyc s1 (t2 # ts) cc = evict_all C r cyc s (t2 # ts) cc" for cc
    using s1(4) dist same_confD(1) [OF s1(3)] by (intro evict_all_cong) auto
  then have run: "\<forall>cc. evict_loop C PT (int d) (Some r) cyc (s, cc) =
      map_option (\<lambda>cc'. (s', cc')) (evict_all C r cyc s (t # t2 # ts) cc)"
    by (subst evict_loop.simps)
      (auto simp: data_at_def read_at_def d d1 head head1 s1(1) s'(1) simp del: evict_all.simps(2)
        simp: evict_all.simps(2) [of _ _ _ _ t] split: option.splits bind_splits)
  have conf: "same_conf s s'" using s1(3) s'(3) by (rule same_conf_trans)
  show ?case
    by (intro exI [of _ s'] conjI run s'(2) conf) (use s'(4,5,6) s1(4,5,6) in auto)
qed

lemma wf_lens: "wf s ch \<Longrightarrow> length (array_t s) = numLines s \<and> length (array_d s) = numLines s div DATA_SCALE"
  by (simp add: wf_def linked_def)

lemma head_iff:
  assumes "wf s ch" and "d < length (array_d s)"
  shows "d_tag_head_id (array_d s ! d) = -1 \<longleftrightarrow> ch d = []"
  using linkedD(1) [OF wf_linked [OF assms(1)] assms(2)] by (cases "ch d") auto

lemma wf_rp_t: "wf s ch \<Longrightarrow> invT p \<Longrightarrow> linesT p = linesT (rp_dpg_t s) \<Longrightarrow> wf (s\<lparr>rp_dpg_t := p\<rparr>) ch"
  by (simp add: wf_def geometry_def maps_ok_def tags_ok_def data_set_def tag_set_def)

lemma wf_rp_d: "wf s ch \<Longrightarrow> invD p \<Longrightarrow> linesD p = linesD (rp_dpg_d s) \<Longrightarrow> wf (s\<lparr>rp_dpg_d := p\<rparr>) ch"
  by (simp add: wf_def geometry_def maps_ok_def tags_ok_def data_set_def tag_set_def)

lemma get_free_tag_run:
  assumes w: "wf s ch"
  shows "outcome (evict_fails C r cyc s cc) (get_free_tag hf C PT line (Some r) cyc (s, cc)) (\<lambda>(tag, s', cc').
    \<exists>t ch'. tag = int t \<and> t < numLines s \<and> in_set (tag_set hf s line) (assoc s) t \<and>
      t_data_id (array_t s' ! t) = -1 \<and> wf s' ch' \<and> same_conf s s' \<and> shrinks {} s s' \<and>
      ((\<exists>u<numLines s. in_set (tag_set hf s line) (assoc s) u \<and> t_data_id (array_t s ! u) = -1) \<longrightarrow>
         s' = s \<and> cc' = cc \<and> ch' = ch) \<and>
      (evict_fails C r cyc s' cc' \<longrightarrow> evict_fails C r cyc s cc))"
proof -
  obtain k where k: "tag_set hf s line = Some k" "k * assoc s + assoc s \<le> numLines s"
    using tag_set_total w by (auto simp: wf_def)
  have lens: "length (array_t s) = numLines s" using wf_lens [OF w] by simp
  have ways: "0 < assoc s" using w by (simp add: wf_def geometry_def)
  have inset: "in_set (tag_set hf s line) (assoc s) u \<longleftrightarrow> k * assoc s \<le> u \<and> u < k * assoc s + assoc s" for u
    by (simp add: in_set_def k(1))
  from find_free_tag_spec [of "k * assoc s" "assoc s" s] k(2) lens
  consider t where "find_free_tag s (k * assoc s) (assoc s) = Some (int t)" "k * assoc s \<le> t"
      "t < k * assoc s + assoc s" "t_data_id (array_t s ! t) = -1"
    | "find_free_tag s (k * assoc s) (assoc s) = Some (-1)"
      "\<forall>t. k * assoc s \<le> t \<longrightarrow> t < k * assoc s + assoc s \<longrightarrow> t_data_id (array_t s ! t) \<noteq> -1"
    by auto
  then show ?thesis
  proof cases
    case (1 t)
    with k w inset show ?thesis
      by (simp add: get_free_tag_def) (intro exI [of _ ch], simp)
  next
    case 2
    let ?cands = "[k * assoc s..<k * assoc s + assoc s]"
    have "\<forall>c\<in>set ?cands. c < linesT (rp_dpg_t s)" using k(2) w by (auto simp: wf_def)
    moreover have "?cands \<noteq> []" using ways by simp
    moreover have "readyT (rp_dpg_t s)" using w T.always_ready by (simp add: wf_def)
    ultimately obtain t p where t: "rp_rankCands PT (cc_see C cc) (Some r) ?cands (rp_dpg_t s) = Some (t, p)"
      "t \<in> set ?cands" "invT p" "linesT p = linesT (rp_dpg_t s)"
      using T.rank_law any_fits by blast
    let ?s0 = "s\<lparr>rp_dpg_t := p\<rparr>"
    have w0: "wf ?s0 ch" by (rule wf_rp_t [OF w t(3,4)])
    have tn: "k * assoc s \<le> t" "t < k * assoc s + assoc s" using t(2) by auto
    then have tl: "t < length (array_t s)" using k(2) lens by simp
    have tnl: "t < numLines s" using tl lens by simp
    have used: "t_data_id (array_t s ! t) \<noteq> -1" using 2(2) tn by blast
    from linked_used [OF wf_linked [OF w] tl used] obtain d where d: "d < length (array_d s)" "t \<in> set (ch d)" by blast
    then obtain ys zs where "ch d = ys @ t # zs" by (auto simp: in_set_conv_decomp)
    from evict_tag_run [OF w0 _ this, of C r cyc] d(1) obtain s' where s':
      "\<forall>cc. evict_tag C PT (int t) (Some r) cyc (?s0, cc) =
        map_option (\<lambda>cc'. (s', cc')) (cc_processEviction C r (t_addr (array_t s ! t)) (t + numLines s) cyc cc)"
      "wf s' (ch(d := ys @ zs))" "same_conf ?s0 s'"
      "\<forall>u. t_addr (array_t s' ! u) = (if u = t then -1 else t_addr (array_t s ! u))"
      "\<forall>u. t_data_id (array_t s' ! u) = (if u = t then -1 else t_data_id (array_t s ! u))"
      by (auto cong: if_cong)
    have run: "get_free_tag hf C PT line (Some r) cyc (s, cc) =
        map_option (\<lambda>cc'. (int t, s', cc')) (cc_processEviction C r (t_addr (array_t s ! t)) (t + numLines s) cyc cc)"
      using 2(1) t(1) s'(1) by (simp add: get_free_tag_def k(1) Let_def split: option.splits bind_splits)
    have conf: "same_conf s s'" using s'(3) by (simp add: same_conf_def)
    have shr: "shrinks {} s s'" using s'(4,5) by (simp add: shrinks_def)
    have none: "\<not> (\<exists>u<numLines s. in_set (tag_set hf s line) (assoc s) u \<and> t_data_id (array_t s ! u) = -1)"
      using 2(2) inset by blast
    have goal: "\<exists>t' ch'. int t = int t' \<and> t' < numLines s \<and> in_set (tag_set hf s line) (assoc s) t' \<and>
      t_data_id (array_t s' ! t') = -1 \<and> wf s' ch' \<and> same_conf s s' \<and> shrinks {} s s' \<and>
      ((\<exists>u<numLines s. in_set (tag_set hf s line) (assoc s) u \<and> t_data_id (array_t s ! u) = -1) \<longrightarrow>
         s' = s \<and> cc' = cc \<and> ch' = ch) \<and> (evict_fails C r cyc s' cc' \<longrightarrow> evict_fails C r cyc s cc)"
      if "cc_processEviction C r (t_addr (array_t s ! t)) (t + numLines s) cyc cc = Some cc'" for cc'
    proof (intro exI [of _ t] exI [of _ "ch(d := ys @ zs)"] conjI s'(2) conf shr refl impI)
      assume "evict_fails C r cyc s' cc'"
      then show "evict_fails C r cyc s cc"
        by (rule evict_fails_step [OF _ same_confD(1) [OF conf] _ tnl used that]) (use s'(4,5) in \<open>auto split: if_splits\<close>)
    next
      assume "\<exists>u<numLines s. in_set (tag_set hf s line) (assoc s) u \<and> t_data_id (array_t s ! u) = -1"
      with none show "s' = s" "cc' = cc" "ch(d := ys @ zs) = ch" by blast+
    qed (use tl lens inset tn s'(5) in auto)
    show ?thesis
    proof (cases "cc_processEviction C r (t_addr (array_t s ! t)) (t + numLines s) cyc cc")
      case None
      with tnl used have "evict_fails C r cyc s cc"
        unfolding evict_fails_def by (intro exI [of _ "[t]"]) simp
      with None show ?thesis unfolding run by (simp add: outcome_def)
    next
      case (Some cc')
      with goal [OF Some] show ?thesis unfolding run by (simp add: outcome_def)
    qed
  qed
qed

lemma lookup_data_run:
  assumes w: "wf s ch"
  shows "(\<exists>d<length (array_d s). lookup_data hf mp s = Some (int d) \<and> ch d \<noteq> [] \<and> d_map_value (array_d s ! d) = mp) \<or>
    lookup_data hf mp s = Some (-1) \<and> (\<forall>d<length (array_d s). ch d \<noteq> [] \<longrightarrow> d_map_value (array_d s ! d) \<noteq> mp)"
proof -
  obtain k where k: "data_set hf s mp = Some k" "k * assoc s + assoc s \<le> numLines s div DATA_SCALE"
    using data_set_total w by (auto simp: wf_def)
  have lens: "length (array_d s) = numLines s div DATA_SCALE" using wf_lens [OF w] by simp
  have eq: "lookup_data hf mp s = find_data s mp (k * assoc s) (assoc s)"
    by (simp add: lookup_data_def k(1))
  from find_data_spec [of "k * assoc s" "assoc s" s mp] k(2) lens
  consider d where "find_data s mp (k * assoc s) (assoc s) = Some (int d)" "d < k * assoc s + assoc s"
      "d_map_value (array_d s ! d) = mp" "d_tag_head_id (array_d s ! d) \<noteq> -1"
    | "find_data s mp (k * assoc s) (assoc s) = Some (-1)"
      "\<forall>d. k * assoc s \<le> d \<longrightarrow> d < k * assoc s + assoc s \<longrightarrow> d_map_value (array_d s ! d) = mp \<longrightarrow>
        d_tag_head_id (array_d s ! d) = -1"
    by auto
  then show ?thesis
  proof cases
    case (1 d)
    then have "d < length (array_d s)" using k(2) lens by simp
    with 1 head_iff [OF w this] show ?thesis unfolding eq by auto
  next
    case 2
    have "d_map_value (array_d s ! d) \<noteq> mp" if d: "d < length (array_d s)" "ch d \<noteq> []" for d
    proof
      assume mp: "d_map_value (array_d s ! d) = mp"
      have "in_set (data_set hf s mp) (assoc s) d" using w d mp by (auto simp: wf_def maps_ok_def)
      then have "k * assoc s \<le> d" "d < k * assoc s + assoc s" by (auto simp: in_set_def k(1))
      with 2(2) mp head_iff [OF w d(1)] d(2) show False by blast
    qed
    with 2(1) show ?thesis unfolding eq by blast
  qed
qed

lemma get_free_data_run:
  assumes w: "wf s ch"
  shows "outcome (evict_fails C r cyc s cc) (get_free_data hf C PT PD mp (Some r) cyc (s, cc)) (\<lambda>(dat, s', cc').
    \<exists>d ch'. dat = int d \<and> d < length (array_d s) \<and> in_set (data_set hf s mp) (assoc s) d \<and> ch' d = [] \<and>
      wf s' ch' \<and> same_conf s s' \<and> shrinks {} s s' \<and>
      (\<forall>e<length (array_d s). ch' e \<noteq> [] \<longrightarrow> ch e \<noteq> [] \<and> d_map_value (array_d s' ! e) = d_map_value (array_d s ! e)))"
proof -
  obtain k where k: "data_set hf s mp = Some k" "k * assoc s + assoc s \<le> numLines s div DATA_SCALE"
    using data_set_total w by (auto simp: wf_def)
  have lens: "length (array_d s) = numLines s div DATA_SCALE" using wf_lens [OF w] by simp
  have ways: "0 < assoc s" using w by (simp add: wf_def geometry_def)
  have inset: "in_set (data_set hf s mp) (assoc s) u \<longleftrightarrow> k * assoc s \<le> u \<and> u < k * assoc s + assoc s" for u
    by (simp add: in_set_def k(1))
  from find_free_data_spec [of "k * assoc s" "assoc s" s] k(2) lens
  consider d where "find_free_data s (k * assoc s) (assoc s) = Some (int d)" "k * assoc s \<le> d"
      "d < k * assoc s + assoc s" "d_tag_head_id (array_d s ! d) = -1"
    | "find_free_data s (k * assoc s) (assoc s) = Some (-1)"
      "\<forall>d. k * assoc s \<le> d \<longrightarrow> d < k * assoc s + assoc s \<longrightarrow> d_tag_head_id (array_d s ! d) \<noteq> -1"
    by auto
  then show ?thesis
  proof cases
    case (1 d)
    then have "d < length (array_d s)" using k(2) lens by simp
    with 1 k w inset head_iff [OF w this] show ?thesis
      by (simp add: get_free_data_def) (intro exI [of _ ch], simp)
  next
    case 2
    let ?cands = "[k * assoc s..<k * assoc s + assoc s]"
    have "\<forall>c\<in>set ?cands. c < linesD (rp_dpg_d s)" using k(2) w by (auto simp: wf_def)
    moreover have "?cands \<noteq> []" using ways by simp
    moreover have "readyD (rp_dpg_d s)" using w D.always_ready by (simp add: wf_def)
    ultimately obtain d p where d: "rp_rankCands PD (cc_see C cc) (Some r) ?cands (rp_dpg_d s) = Some (d, p)"
      "d \<in> set ?cands" "invD p" "linesD p = linesD (rp_dpg_d s)"
      using D.rank_law any_fits by blast
    let ?s0 = "s\<lparr>rp_dpg_d := p\<rparr>"
    have w0: "wf ?s0 ch" by (rule wf_rp_d [OF w d(3,4)])
    have dn: "k * assoc s \<le> d" "d < k * assoc s + assoc s" using d(2) by auto
    then have dl: "d < length (array_d s)" using k(2) lens by simp
    then have "d_tag_head_id (array_d s ! d) \<noteq> -1" using 2(2) dn by blast
    then have "ch d \<noteq> []" using head_iff [OF w dl] by simp
    then obtain t ts where ch: "ch d = t # ts" by (cases "ch d") auto
    from evict_loop_run [OF w0 _ ch, of C r cyc] dl obtain s' where s':
      "\<forall>cc. evict_loop C PT (int d) (Some r) cyc (?s0, cc) =
        map_option (\<lambda>cc'. (s', cc')) (evict_all C r cyc ?s0 (t # ts) cc)"
      "wf s' (ch(d := []))" "same_conf ?s0 s'"
      "\<forall>u. t_addr (array_t s' ! u) = (if u \<in> set (t # ts) then -1 else t_addr (array_t s ! u))"
      "\<forall>u. t_data_id (array_t s' ! u) = (if u \<in> set (t # ts) then -1 else t_data_id (array_t s ! u))"
      "\<forall>e. e \<noteq> d \<longrightarrow> d_map_value (array_d s' ! e) = d_map_value (array_d s ! e)"
      by (auto cong: if_cong simp del: evict_all.simps)
    have run: "get_free_data hf C PT PD mp (Some r) cyc (s, cc) =
        map_option (\<lambda>cc'. (int d, s', cc')) (evict_all C r cyc ?s0 (t # ts) cc)"
      using 2(1) d(1) s'(1) dl lens
      by (simp add: get_free_data_def evict_data_def k(1) Let_def del: evict_all.simps split: option.splits bind_splits)
    have conf: "same_conf s s'" using s'(3) by (simp add: same_conf_def)
    have shr: "shrinks {} s s'" using s'(4,5) by (simp add: shrinks_def)
    have goal: "\<exists>d' ch'. int d = int d' \<and> d' < length (array_d s) \<and> in_set (data_set hf s mp) (assoc s) d' \<and> ch' d' = [] \<and>
      wf s' ch' \<and> same_conf s s' \<and> shrinks {} s s' \<and>
      (\<forall>e<length (array_d s). ch' e \<noteq> [] \<longrightarrow> ch e \<noteq> [] \<and> d_map_value (array_d s' ! e) = d_map_value (array_d s ! e))"
      by (intro exI [of _ d] exI [of _ "ch(d := [])"] conjI s'(2) conf shr refl)
        (use dl inset dn s'(6) in \<open>auto split: if_splits\<close>)
    have fails: "evict_fails C r cyc s cc" if "evict_all C r cyc ?s0 (t # ts) cc = None"
      unfolding evict_fails_def
    proof (intro exI [of _ "t # ts"] conjI ballI)
      show "distinct (t # ts)" using linkedD(2) [OF wf_linked [OF w] dl] ch by simp
      show "evict_all C r cyc s (t # ts) cc = None"
        unfolding that [symmetric] by (rule evict_all_cong) simp_all
      fix u
      assume "u \<in> set (t # ts)"
      then show "u < numLines s" "t_data_id (array_t s ! u) \<noteq> -1"
        using linked_mem [OF wf_linked [OF w] dl, of u] ch wf_lens [OF w] by simp_all
    qed
    show ?thesis unfolding run
      using goal fails by (cases "evict_all C r cyc ?s0 (t # ts) cc") (simp_all add: outcome_def)
  qed
qed

lemma place_tag_run:
  assumes w: "wf s ch" and t: "t < numLines s" and free: "t_data_id (array_t s ! t) = -1"
  shows "outcome (evict_fails C r cyc s cc) (place_tag hf C PT PD (int t) mp (Some r) cyc (s, cc)) (\<lambda>(s', cc').
    \<exists>d ch'. d < length (array_d s) \<and> t \<in> set (ch' d) \<and> wf s' ch' \<and> same_conf s s' \<and> shrinks {t} s s' \<and>
      d_map_value (array_d s' ! d) = mp \<and> t_data_id (array_t s' ! t) = int d \<and> t_addr (array_t s' ! t) = -1 \<and>
      ((\<exists>e<length (array_d s). ch e \<noteq> [] \<and> d_map_value (array_d s ! e) = mp) \<longrightarrow> cc' = cc \<and> ch' = ch(d := t # ch d) \<and> ch d \<noteq> [] \<and> d_map_value (array_d s ! d) = mp))"
proof -
  have lens: "length (array_t s) = numLines s" "length (array_d s) = numLines s div DATA_SCALE"
    using wf_lens [OF w] by simp_all
  have tl: "t < length (array_t s)" using t lens by simp
  have addr_t: "t_addr (array_t s ! t) = -1"
    using w tl free by (auto simp: wf_def tags_ok_def)
  from lookup_data_run [OF w, of mp] show ?thesis
  proof (elim disjE exE conjE)
    fix d
    assume d: "d < length (array_d s)" and ld: "lookup_data hf mp s = Some (int d)" and used: "ch d \<noteq> []"
      and mp: "d_map_value (array_d s ! d) = mp"
    obtain TT DD where a: "add_tag (int t) (int d) s = Some (s\<lparr>array_t := TT, array_d := DD\<rparr>)"
      "linked (s\<lparr>array_t := TT, array_d := DD\<rparr>) (ch(d := t # ch d))"
      "\<forall>u. t_addr (TT ! u) = t_addr (array_t s ! u)"
      "\<forall>u. t_data_id (TT ! u) = (if u = t then int d else t_data_id (array_t s ! u))"
      "\<forall>e. d_map_value (DD ! e) = d_map_value (array_d s ! e)"
      using add_tag_linked [OF wf_linked [OF w] d tl free] by blast
    let ?s' = "s\<lparr>array_t := TT, array_d := DD\<rparr>"
    have len: "length TT = length (array_t s)" "length DD = length (array_d s)"
      using a(2) lens by (simp_all add: linked_def)
    have conf: "same_conf s ?s'" using len by (simp add: same_conf_def)
    note cD = same_confD [OF conf]
    have "maps_ok hf ?s' (ch(d := t # ch d))"
      by (rule maps_okI [of hf s ch DD]) (use w a(5) used len cD in \<open>auto simp: wf_def split: if_splits\<close>)
    moreover have "tags_ok hf ?s'"
      by (rule tags_okI [of hf s]) (use w a(3,4) len cD in \<open>auto simp: wf_def split: if_splits\<close>)
    ultimately have w': "wf ?s' (ch(d := t # ch d))"
      using a(2) w cD by (simp add: wf_def)
    have run: "place_tag hf C PT PD (int t) mp (Some r) cyc (s, cc) = Some (?s', cc)"
      by (simp add: place_tag_def ld a(1))
    have shr: "shrinks {t} s ?s'" using a(3,4) by (simp add: shrinks_def)
    show ?thesis unfolding run outcome_Some prod.case
      by (intro exI [of _ d] exI [of _ "ch(d := t # ch d)"] conjI w' conf shr d impI refl)
        (use a(3,4,5) addr_t mp used in auto)
  next
    assume ld: "lookup_data hf mp s = Some (-1)"
      and none: "\<forall>d<length (array_d s). ch d \<noteq> [] \<longrightarrow> d_map_value (array_d s ! d) \<noteq> mp"
    have split: "place_tag hf C PT PD (int t) mp (Some r) cyc (s, cc) =
        get_free_data hf C PT PD mp (Some r) cyc (s, cc) \<bind>
        (\<lambda>(d, s1, cc1). set_single (int t) d mp s1 \<bind> (\<lambda>s2. Some (s2, cc1)))"
      by (simp add: place_tag_def ld)
    show ?thesis unfolding split
    proof (rule outcome_bind [OF get_free_data_run [OF w]], clarify)
      fix s1 cc1 d ch1
      assume d: "d < length (array_d s)" "in_set (data_set hf s mp) (assoc s) d" "ch1 d = []"
        and w1: "wf s1 ch1" and conf1: "same_conf s s1" and shr1: "shrinks {} s s1"
        and keep: "\<forall>e<length (array_d s). ch1 e \<noteq> [] \<longrightarrow> ch e \<noteq> [] \<and> d_map_value (array_d s1 ! e) = d_map_value (array_d s ! e)"
      note c1 = same_confD [OF conf1]
      have f1: "t_data_id (array_t s1 ! t) = -1" "t_addr (array_t s1 ! t) = -1"
        using shr1 free addr_t unfolding shrinks_def by (metis empty_iff)+
      have d1: "d < length (array_d s1)" and t1: "t < length (array_t s1)" using d(1) tl c1 by simp_all
      obtain TT DD where a: "set_single (int t) (int d) mp s1 = Some (s1\<lparr>array_t := TT, array_d := DD\<rparr>)"
        "linked (s1\<lparr>array_t := TT, array_d := DD\<rparr>) (ch1(d := [t]))"
        "\<forall>u. t_addr (TT ! u) = t_addr (array_t s1 ! u)"
        "\<forall>u. t_data_id (TT ! u) = (if u = t then int d else t_data_id (array_t s1 ! u))"
        "\<forall>e. d_map_value (DD ! e) = (if e = d then mp else d_map_value (array_d s1 ! e))"
        using set_single_linked [OF wf_linked [OF w1] d1 t1 f1(1) d(3), of mp] by blast
      let ?s' = "s1\<lparr>array_t := TT, array_d := DD\<rparr>"
      have len: "length TT = length (array_t s1)" "length DD = length (array_d s1)"
        using a(2) wf_lens [OF w1] by (simp_all add: linked_def)
      have conf: "same_conf s1 ?s'" using len by (simp add: same_conf_def)
      note cD = same_confD [OF conf]
      have other: "d_map_value (array_d s1 ! e) \<noteq> mp" if "e < length (array_d s)" "ch1 e \<noteq> []" for e
        using keep none that by metis
      have "maps_ok hf ?s' (ch1(d := [t]))"
        unfolding maps_ok_def
      proof (intro conjI allI impI)
        fix e
        assume e: "e < length (array_d ?s')" "(ch1(d := [t])) e \<noteq> []"
        show "in_set (data_set hf ?s' (d_map_value (array_d ?s' ! e))) (assoc ?s') e"
        proof (cases "e = d")
          case True
          with d(2) c1 cD a(5) show ?thesis by simp
        next
          case False
          with e w1 len a(5) cD show ?thesis by (simp add: wf_def maps_ok_def)
        qed
      next
        fix e f
        assume e: "e < length (array_d ?s')" "f < length (array_d ?s')" "(ch1(d := [t])) e \<noteq> []"
          "(ch1(d := [t])) f \<noteq> []" "d_map_value (array_d ?s' ! e) = d_map_value (array_d ?s' ! f)"
        then have lt: "e < length (array_d s1)" "f < length (array_d s1)" using len by simp_all
        show "e = f"
        proof (cases "e = d \<or> f = d")
          case True
          with e(3,4,5) a(5) other [of e] other [of f] lt c1(4) show ?thesis by (auto split: if_splits)
        next
          case False
          with e w1 lt a(5) show ?thesis by (auto simp: wf_def maps_ok_def)
        qed
      qed
      moreover have "tags_ok hf ?s'"
        by (rule tags_okI [of hf s1]) (use w1 a(3,4) len cD in \<open>auto simp: wf_def split: if_splits\<close>)
      ultimately have w': "wf ?s' (ch1(d := [t]))"
        using a(2) w1 cD by (simp add: wf_def)
      have shr': "shrinks {t} s1 ?s'" using a(3,4) by (simp add: shrinks_def)
      have shr: "shrinks {t} s ?s'" by (rule shrinks_trans [OF shr1 shr']) simp_all
      have conf': "same_conf s ?s'" using conf1 conf by (rule same_conf_trans)
      have no: "\<not> (\<exists>e<length (array_d s). ch e \<noteq> [] \<and> d_map_value (array_d s ! e) = mp)"
        using none by blast
      show "outcome (evict_fails C r cyc s cc) (set_single (int t) (int d) mp s1 \<bind> (\<lambda>s2. Some (s2, cc1))) (\<lambda>(s', cc').
        \<exists>d ch'. d < length (array_d s) \<and> t \<in> set (ch' d) \<and> wf s' ch' \<and> same_conf s s' \<and> shrinks {t} s s' \<and>
          d_map_value (array_d s' ! d) = mp \<and> t_data_id (array_t s' ! t) = int d \<and> t_addr (array_t s' ! t) = -1 \<and>
          ((\<exists>e<length (array_d s). ch e \<noteq> [] \<and> d_map_value (array_d s ! e) = mp) \<longrightarrow>
             cc' = cc \<and> ch' = ch(d := t # ch d) \<and> ch d \<noteq> [] \<and> d_map_value (array_d s ! d) = mp))"
        unfolding a(1) bind.bind_lunit outcome_Some prod.case
      proof (intro exI [of _ d] exI [of _ "ch1(d := [t])"] conjI w' conf' shr d(1))
        show "(\<exists>e<length (array_d s). ch e \<noteq> [] \<and> d_map_value (array_d s ! e) = mp) \<longrightarrow>
             cc1 = cc \<and> ch1(d := [t]) = ch(d := t # ch d) \<and> ch d \<noteq> [] \<and> d_map_value (array_d s ! d) = mp" using no by blast
      qed (use a(3,4,5) f1 in auto)
    qed
  qed
qed

lemma preinsert_run:
  assumes w: "wf s ch" and gm: "gm line = Some mp"
  shows "outcome (evict_fails C r cyc s cc) (dpg_preinsert hf C PT PD gm line (Some r) cyc (s, cc)) (\<lambda>(i, s', cc').
    \<exists>t d ch'. i = t + numLines s \<and> t < numLines s \<and> in_set (tag_set hf s line) (assoc s) t \<and>
      d < length (array_d s) \<and> t \<in> set (ch' d) \<and> wf s' ch' \<and> same_conf s s' \<and> shrinks {t} s s' \<and>
      d_map_value (array_d s' ! d) = mp \<and> t_data_id (array_t s' ! t) = int d \<and> t_addr (array_t s' ! t) = -1 \<and>
      ((\<exists>u<numLines s. in_set (tag_set hf s line) (assoc s) u \<and> t_data_id (array_t s ! u) = -1) \<and>
       (\<exists>e<length (array_d s). ch e \<noteq> [] \<and> d_map_value (array_d s ! e) = mp) \<longrightarrow>
         cc' = cc \<and> ch' = ch(d := t # ch d) \<and> ch d \<noteq> [] \<and> d_map_value (array_d s ! d) = mp))"
proof -
  have split: "dpg_preinsert hf C PT PD gm line (Some r) cyc (s, cc) =
      get_free_tag hf C PT line (Some r) cyc (s, cc) \<bind> (\<lambda>(tag, s1, cc1).
        place_tag hf C PT PD tag mp (Some r) cyc (s1, cc1) \<bind>
        (\<lambda>(s2, cc2). Some (nat tag + numLines s2, s2, cc2)))"
    by (cases "get_free_tag hf C PT line (Some r) cyc (s, cc)") (auto simp: dpg_preinsert_def gm split_def)
  show ?thesis unfolding split
  proof (rule outcome_bind [OF get_free_tag_run [OF w]], clarify)
    fix s1 cc1 t ch1
    assume t: "t < numLines s" "in_set (tag_set hf s line) (assoc s) t" "t_data_id (array_t s1 ! t) = -1"
      and w1: "wf s1 ch1" and conf1: "same_conf s s1" and shr1: "shrinks {} s s1"
      and free: "(\<exists>u<numLines s. in_set (tag_set hf s line) (assoc s) u \<and> t_data_id (array_t s ! u) = -1) \<longrightarrow>
         s1 = s \<and> cc1 = cc \<and> ch1 = ch"
      and fails: "evict_fails C r cyc s1 cc1 \<longrightarrow> evict_fails C r cyc s cc"
    note c1 = same_confD [OF conf1]
    have t1: "t < numLines s1" using t(1) c1 by simp
    show "outcome (evict_fails C r cyc s cc) (place_tag hf C PT PD (int t) mp (Some r) cyc (s1, cc1) \<bind>
        (\<lambda>(s2, cc2). Some (nat (int t) + numLines s2, s2, cc2))) (\<lambda>(i, s', cc').
      \<exists>t d ch'. i = t + numLines s \<and> t < numLines s \<and> in_set (tag_set hf s line) (assoc s) t \<and>
      d < length (array_d s) \<and> t \<in> set (ch' d) \<and> wf s' ch' \<and> same_conf s s' \<and> shrinks {t} s s' \<and>
      d_map_value (array_d s' ! d) = mp \<and> t_data_id (array_t s' ! t) = int d \<and> t_addr (array_t s' ! t) = -1 \<and>
      ((\<exists>u<numLines s. in_set (tag_set hf s line) (assoc s) u \<and> t_data_id (array_t s ! u) = -1) \<and>
       (\<exists>e<length (array_d s). ch e \<noteq> [] \<and> d_map_value (array_d s ! e) = mp) \<longrightarrow>
         cc' = cc \<and> ch' = ch(d := t # ch d) \<and> ch d \<noteq> [] \<and> d_map_value (array_d s ! d) = mp))"
    proof (rule outcome_bind [OF outcome_fail [OF place_tag_run [OF w1 t1 t(3)] fails [rule_format]]],
        assumption, simp only: split_paired_all prod.case, elim exE conjE)
      fix s2 cc2 d ch2
      assume d: "d < length (array_d s1)" "t \<in> set (ch2 d)" "d_map_value (array_d s2 ! d) = mp"
        "t_data_id (array_t s2 ! t) = int d" "t_addr (array_t s2 ! t) = -1"
        and w2: "wf s2 ch2" and conf2: "same_conf s1 s2" and shr2: "shrinks {t} s1 s2"
        and join: "(\<exists>e<length (array_d s1). ch1 e \<noteq> [] \<and> d_map_value (array_d s1 ! e) = mp) \<longrightarrow>
          cc2 = cc1 \<and> ch2 = ch1(d := t # ch1 d) \<and> ch1 d \<noteq> [] \<and> d_map_value (array_d s1 ! d) = mp"
      have conf: "same_conf s s2" using conf1 conf2 by (rule same_conf_trans)
      have shr: "shrinks {t} s s2" by (rule shrinks_trans [OF shr1 shr2]) simp_all
      have i: "nat (int t) + numLines s2 = t + numLines s" using same_confD(1) [OF conf] by simp
      have d': "d < length (array_d s)" using d(1) c1 by simp
      show "outcome (evict_fails C r cyc s cc) (Some (nat (int t) + numLines s2, s2, cc2)) (\<lambda>(i, s', cc').
        \<exists>t d ch'. i = t + numLines s \<and> t < numLines s \<and> in_set (tag_set hf s line) (assoc s) t \<and>
        d < length (array_d s) \<and> t \<in> set (ch' d) \<and> wf s' ch' \<and> same_conf s s' \<and> shrinks {t} s s' \<and>
        d_map_value (array_d s' ! d) = mp \<and> t_data_id (array_t s' ! t) = int d \<and> t_addr (array_t s' ! t) = -1 \<and>
        ((\<exists>u<numLines s. in_set (tag_set hf s line) (assoc s) u \<and> t_data_id (array_t s ! u) = -1) \<and>
         (\<exists>e<length (array_d s). ch e \<noteq> [] \<and> d_map_value (array_d s ! e) = mp) \<longrightarrow>
           cc' = cc \<and> ch' = ch(d := t # ch d) \<and> ch d \<noteq> [] \<and> d_map_value (array_d s ! d) = mp))"
        unfolding outcome_Some prod.case
      proof (rule exI [of _ t], rule exI [of _ d], rule exI [of _ ch2], intro conjI i t(1,2) d' d(2-5) w2 conf shr)
        show "(\<exists>u<numLines s. in_set (tag_set hf s line) (assoc s) u \<and> t_data_id (array_t s ! u) = -1) \<and>
         (\<exists>e<length (array_d s). ch e \<noteq> [] \<and> d_map_value (array_d s ! e) = mp) \<longrightarrow>
           cc2 = cc \<and> ch2 = ch(d := t # ch d) \<and> ch d \<noteq> [] \<and> d_map_value (array_d s ! d) = mp"
          using free join by blast
      qed
    qed
  qed
qed

lemma postinsert_run:
  assumes w: "wf s ch" and t: "t < numLines s" and d: "t_data_id (array_t s ! t) = int d"
    and inset: "in_set (tag_set hf s line) (assoc s) t"
    and fresh: "\<forall>u<numLines s. t_addr (array_t s ! u) \<noteq> line"
  shows "\<exists>s'. dpg_postinsert PT PD line req (t + numLines s) s = Some s' \<and> wf s' ch \<and> same_conf s s' \<and>
    array_d s' = array_d s \<and> t_addr (array_t s' ! t) = line \<and> t_data_id (array_t s' ! t) = int d \<and>
    (\<forall>u. u \<noteq> t \<longrightarrow> array_t s' ! u = array_t s ! u)"
proof -
  have lens: "length (array_t s) = numLines s" "length (array_d s) = numLines s div DATA_SCALE"
    using wf_lens [OF w] by simp_all
  have tl: "t < length (array_t s)" using t lens by simp
  have used: "t_data_id (array_t s ! t) \<noteq> -1" using d by simp
  have dl: "d < length (array_d s)" using linked_used [OF wf_linked [OF w] tl used] d by auto
  have t': "t < linesT (rp_dpg_t s)" using w t by (simp add: wf_def)
  have d': "d < linesD (rp_dpg_d s)" using w dl lens by (simp add: wf_def)
  obtain p1 where p1: "rp_replaced PT t (rp_dpg_t s) = Some p1" "readyT p1" "linesT p1 = linesT (rp_dpg_t s)"
    using T.replaced_law [of "rp_dpg_t s" t] w t' by (auto simp: wf_def)
  obtain p2 where p2: "rp_update PT req t p1 = Some p2" "invT p2" "linesT p2 = linesT (rp_dpg_t s)"
    using T.update_law [OF T.ready_inv [OF p1(2)], of t req] t' p1(3) by auto
  obtain q1 where q1: "rp_replaced PD d (rp_dpg_d s) = Some q1" "readyD q1" "linesD q1 = linesD (rp_dpg_d s)"
    using D.replaced_law [of "rp_dpg_d s" d] w d' by (auto simp: wf_def)
  obtain q2 where q2: "rp_update PD req d q1 = Some q2" "invD q2" "linesD q2 = linesD (rp_dpg_d s)"
    using D.update_law [OF D.ready_inv [OF q1(2)], of d req] d' q1(3) by auto
  let ?T = "(array_t s)[t := (array_t s ! t)\<lparr>t_addr := line\<rparr>]"
  let ?s1 = "s\<lparr>array_t := ?T\<rparr>"
  let ?s' = "?s1\<lparr>rp_dpg_t := p2, rp_dpg_d := q2\<rparr>"
  have run: "dpg_postinsert PT PD line req (t + numLines s) s = Some ?s'"
    using tl d by (simp add: dpg_postinsert_def tag_at_def read_at_def p1(1) p2(1) q1(1) q2(1) mod_tag_def)
  have f: "t_next (?T ! u) = t_next (array_t s ! u)" "t_prev (?T ! u) = t_prev (array_t s ! u)"
    "t_data_id (?T ! u) = t_data_id (array_t s ! u)" for u
    by (simp_all add: update_field [of t_next] update_field [of t_prev] update_field [of t_data_id])
  have ln: "links ?T nx pv e xs = links (array_t s) nx pv e xs" for nx pv e xs
    by (induction xs arbitrary: nx) (simp_all add: f)
  have lk: "linked ?s1 ch" using wf_linked [OF w] by (auto simp: linked_def f ln)
  have tg: "tags_ok hf ?s1"
    unfolding tags_ok_def
  proof (intro conjI allI impI)
    fix u
    assume u: "u < length (array_t ?s1)" "t_addr (array_t ?s1 ! u) \<noteq> -1"
    show "t_data_id (array_t ?s1 ! u) \<noteq> -1"
    proof (cases "u = t")
      case True
      then show ?thesis using used f(3) by simp
    next
      case False
      with u w show ?thesis by (simp add: wf_def tags_ok_def f)
    qed
    show "in_set (tag_set hf ?s1 (t_addr (array_t ?s1 ! u))) (assoc ?s1) u"
    proof (cases "u = t")
      case True
      with inset tl show ?thesis by (simp add: tag_set_def)
    next
      case False
      with u w show ?thesis by (simp add: wf_def tags_ok_def tag_set_def)
    qed
  next
    fix u v
    assume u: "u < length (array_t ?s1)" "v < length (array_t ?s1)" "t_addr (array_t ?s1 ! u) \<noteq> -1"
      "t_addr (array_t ?s1 ! u) = t_addr (array_t ?s1 ! v)"
    consider "u = t" "v = t" | "u = t" "v \<noteq> t" | "u \<noteq> t" "v = t" | "u \<noteq> t" "v \<noteq> t" by blast
    then show "u = v"
    proof cases
      case 2
      with u(2,4) fresh lens tl show ?thesis by auto
    next
      case 3
      with u(1,4) fresh lens tl show ?thesis by auto
    next
      case 4
      with u w show ?thesis by (simp add: wf_def tags_ok_def)
    qed simp
  qed
  have "wf ?s' ch"
    using lk tg w p2 q2 by (simp add: wf_def geometry_def maps_ok_def tags_ok_def data_set_def tag_set_def)
  moreover have "same_conf s ?s'" by (simp add: same_conf_def)
  moreover have "\<forall>u. u \<noteq> t \<longrightarrow> array_t ?s' ! u = array_t s ! u" by simp
  ultimately show ?thesis using run tl d by (intro exI [of _ ?s']) simp
qed

lemma holds_unique:
  assumes w: "wf s ch" and "line \<noteq> -1" and t: "holds s line t" and u: "holds s line u"
  shows "t = u"
proof -
  have "t < length (array_t s)" "u < length (array_t s)" "t_addr (array_t s ! t) \<noteq> -1"
    "t_addr (array_t s ! t) = t_addr (array_t s ! u)"
    using assms wf_lens [OF w] by (simp_all add: holds_def)
  moreover have "tags_ok hf s" using w by (simp add: wf_def)
  ultimately show ?thesis unfolding tags_ok_def by blast
qed

lemma holds_in_set:
  assumes w: "wf s ch" and "line \<noteq> -1" and t: "holds s line t"
  shows "in_set (tag_set hf s line) (assoc s) t"
proof -
  have "t < length (array_t s)" "t_addr (array_t s ! t) \<noteq> -1" "t_addr (array_t s ! t) = line"
    using assms wf_lens [OF w] by (simp_all add: holds_def)
  moreover have "tags_ok hf s" using w by (simp add: wf_def)
  ultimately show ?thesis unfolding tags_ok_def by metis
qed

lemma lookup_loop_skip:
  assumes "length (array_t s) = numLines s" and "i + n \<le> numLines s"
    and "\<forall>u. i \<le> u \<longrightarrow> u < i + n \<longrightarrow> \<not> holds s line u"
  shows "lookup_loop hf C PT PD gm line req upd cyc i (n + m) (s, cc) =
    lookup_loop hf C PT PD gm line req upd cyc (i + n) m (s, cc)"
  using assms(2,3)
proof (induction n arbitrary: i)
  case (Suc n)
  have "\<not> (t_addr (array_t s ! i) = line \<and> t_data_id (array_t s ! i) \<noteq> -1)"
    using Suc.prems by (auto simp: holds_def)
  then have "lookup_loop hf C PT PD gm line req upd cyc i (Suc n + m) (s, cc) =
      lookup_loop hf C PT PD gm line req upd cyc (Suc i) (n + m) (s, cc)"
    using Suc.prems(1) assms(1) by (auto simp: tag_at_def read_at_def)
  with Suc.IH [of "Suc i"] Suc.prems show ?case by simp
qed simp

lemma lookup_miss:
  assumes w: "wf s ch" and none: "\<And>t. \<not> holds s line t"
  shows "dpg_lookup hf C PT PD gm line req upd cyc (s, cc) = Some (-1, s, cc)"
proof -
  obtain k where k: "tag_set hf s line = Some k" "k * assoc s + assoc s \<le> numLines s"
    using tag_set_total w by (auto simp: wf_def)
  have "lookup_loop hf C PT PD gm line req upd cyc (k * assoc s) (assoc s + 0) (s, cc) =
    lookup_loop hf C PT PD gm line req upd cyc (k * assoc s + assoc s) 0 (s, cc)"
    using wf_lens [OF w] k(2) none by (intro lookup_loop_skip) auto
  then show ?thesis by (simp add: dpg_lookup_def k(1))
qed

lemma lookup_found:
  assumes w: "wf s ch" and line: "line \<noteq> -1" and h: "holds s line t"
  shows "\<exists>m. dpg_lookup hf C PT PD gm line req upd cyc (s, cc) =
    lookup_loop hf C PT PD gm line req upd cyc t (Suc m) (s, cc)"
proof -
  obtain k where k: "tag_set hf s line = Some k" "k * assoc s + assoc s \<le> numLines s"
    using tag_set_total w by (auto simp: wf_def)
  have t: "k * assoc s \<le> t" "t < k * assoc s + assoc s"
    using holds_in_set [OF w line h] by (auto simp: in_set_def k(1))
  have "lookup_loop hf C PT PD gm line req upd cyc (k * assoc s) ((t - k * assoc s) + (k * assoc s + assoc s - t)) (s, cc) =
    lookup_loop hf C PT PD gm line req upd cyc (k * assoc s + (t - k * assoc s)) (k * assoc s + assoc s - t) (s, cc)"
  proof (rule lookup_loop_skip)
    show "\<forall>u. k * assoc s \<le> u \<longrightarrow> u < k * assoc s + (t - k * assoc s) \<longrightarrow> \<not> holds s line u"
      using holds_unique [OF w line h] t by auto
  qed (use wf_lens [OF w] k(2) t in auto)
  moreover have "(t - k * assoc s) + (k * assoc s + assoc s - t) = assoc s" "k * assoc s + (t - k * assoc s) = t"
    using t by simp_all
  ultimately have "dpg_lookup hf C PT PD gm line req upd cyc (s, cc) =
      lookup_loop hf C PT PD gm line req upd cyc t (k * assoc s + assoc s - t) (s, cc)"
    by (simp add: dpg_lookup_def k(1))
  moreover obtain m where "k * assoc s + assoc s - t = Suc m"
    using t by (metis add_diff_inverse_nat less_imp_Suc_add diff_add_inverse less_imp_le_nat add_Suc_right not_less)
  ultimately show ?thesis by metis
qed

lemma update_both:
  assumes w: "wf s ch" and t: "t < numLines s" and d: "t_data_id (array_t s ! t) = int d" "d < length (array_d s)"
  shows "\<exists>p q. rp_update PT req t (rp_dpg_t s) = Some p \<and> rp_update PD req d (rp_dpg_d s) = Some q \<and>
    wf (s\<lparr>rp_dpg_t := p, rp_dpg_d := q\<rparr>) ch"
proof -
  have t': "t < linesT (rp_dpg_t s)" using w t by (simp add: wf_def)
  have d': "d < linesD (rp_dpg_d s)" using w d(2) wf_lens [OF w] by (simp add: wf_def)
  obtain p where p: "rp_update PT req t (rp_dpg_t s) = Some p" "invT p" "linesT p = linesT (rp_dpg_t s)"
    using T.update_law [of "rp_dpg_t s" t req] w t' by (auto simp: wf_def)
  obtain q where q: "rp_update PD req d (rp_dpg_d s) = Some q" "invD q" "linesD q = linesD (rp_dpg_d s)"
    using D.update_law [of "rp_dpg_d s" d req] w d' by (auto simp: wf_def)
  have "wf ((s\<lparr>rp_dpg_t := p\<rparr>)\<lparr>rp_dpg_d := q\<rparr>) ch"
    by (rule wf_rp_d [OF wf_rp_t [OF w p(2,3)] q(2)]) (simp add: q(3))
  with p(1) q(1) show ?thesis by auto
qed

lemma lookup_same_map:
  assumes w: "wf s ch" and line: "line \<noteq> -1" and h: "holds s line t"
    and d: "t_data_id (array_t s ! t) = int d" and gm: "gm line = Some (d_map_value (array_d s ! d))"
  shows "\<exists>s'. dpg_lookup hf C PT PD gm line req upd cyc (s, cc) = Some (int (t + numLines s), s', cc) \<and> wf s' ch \<and>
    array_t s' = array_t s \<and> array_d s' = array_d s \<and> same_conf s s'"
proof -
  obtain m where m: "dpg_lookup hf C PT PD gm line req upd cyc (s, cc) =
      lookup_loop hf C PT PD gm line req upd cyc t (Suc m) (s, cc)"
    by (rule exE [OF lookup_found [OF w line h]])
  have t: "t < numLines s" "t_addr (array_t s ! t) = line" using h by (auto simp: holds_def)
  have tl: "t < length (array_t s)" using t wf_lens [OF w] by simp
  have dl: "d < length (array_d s)" using linked_used [OF wf_linked [OF w] tl] d by auto
  obtain p q where pq: "rp_update PT req t (rp_dpg_t s) = Some p" "rp_update PD req d (rp_dpg_d s) = Some q"
    "wf (s\<lparr>rp_dpg_t := p, rp_dpg_d := q\<rparr>) ch"
    using update_both [OF w t(1) d dl] by blast
  show ?thesis
  proof (cases upd)
    case True
    with pq tl dl t d gm show ?thesis unfolding m
      by (auto simp: tag_at_def data_at_def read_at_def same_conf_def)
  next
    case False
    with w tl dl t d gm show ?thesis unfolding m
      by (auto simp: tag_at_def data_at_def read_at_def)
  qed
qed

lemma lookup_new_map:
  assumes w: "wf s ch" and line: "line \<noteq> -1" and h: "holds s line t"
    and d: "t_data_id (array_t s ! t) = int d" and gm: "gm line = Some mp" and new: "mp \<noteq> d_map_value (array_d s ! d)"
  shows "outcome (evict_fails C r cyc s cc) (dpg_lookup hf C PT PD gm line (Some r) upd cyc (s, cc)) (\<lambda>(i, s', cc').
    i = int (t + numLines s) \<and> (\<exists>e ch'. e < length (array_d s) \<and> t \<in> set (ch' e) \<and> wf s' ch' \<and> same_conf s s' \<and>
      shrinks {t} s s' \<and> d_map_value (array_d s' ! e) = mp \<and> t_data_id (array_t s' ! t) = int e \<and>
      t_addr (array_t s' ! t) = -1))"
proof -
  obtain m where m: "dpg_lookup hf C PT PD gm line (Some r) upd cyc (s, cc) =
      lookup_loop hf C PT PD gm line (Some r) upd cyc t (Suc m) (s, cc)"
    by (rule exE [OF lookup_found [OF w line h]])
  have t: "t < numLines s" "t_addr (array_t s ! t) = line" using h by (auto simp: holds_def)
  have tl: "t < length (array_t s)" using t wf_lens [OF w] by simp
  have dl: "d < length (array_d s)" and tch: "t \<in> set (ch d)"
    using linked_used [OF wf_linked [OF w] tl] d by auto
  then obtain ys zs where ch: "ch d = ys @ t # zs" by (auto simp: in_set_conv_decomp)
  obtain TT DD where rm: "remove_tag (int t) s = Some (s\<lparr>array_t := TT, array_d := DD\<rparr>)"
    "linked (s\<lparr>array_t := TT, array_d := DD\<rparr>) (ch(d := ys @ zs))"
    "\<forall>u. t_addr (TT ! u) = (if u = t then -1 else t_addr (array_t s ! u))"
    "\<forall>u. t_data_id (TT ! u) = (if u = t then -1 else t_data_id (array_t s ! u))"
    "\<forall>e. d_map_value (DD ! e) = (if e = d \<and> ys @ zs = [] then -1 else d_map_value (array_d s ! e))"
    using remove_tag_linked [OF wf_linked [OF w] dl ch] by blast
  let ?s1 = "s\<lparr>array_t := TT, array_d := DD\<rparr>"
  have len: "length TT = length (array_t s)" "length DD = length (array_d s)"
    using rm(2) wf_lens [OF w] by (simp_all add: linked_def)
  have conf1: "same_conf s ?s1" using len by (simp add: same_conf_def)
  note cD = same_confD [OF conf1]
  have "maps_ok hf ?s1 (ch(d := ys @ zs))"
    by (rule maps_okI [of hf s ch DD]) (use w ch rm(5) len cD in \<open>auto simp: wf_def split: if_splits\<close>)
  moreover have "tags_ok hf ?s1"
    by (rule tags_okI [of hf s]) (use w rm(3,4) len cD in \<open>auto simp: wf_def split: if_splits\<close>)
  ultimately have w1: "wf ?s1 (ch(d := ys @ zs))"
    using rm(2) w cD by (simp add: wf_def)
  have t1: "t < numLines ?s1" and free1: "t_data_id (array_t ?s1 ! t) = -1" using t rm(4) by simp_all
  have shr1: "shrinks {t} s ?s1" using rm(3,4) by (simp add: shrinks_def)
  have run: "lookup_loop hf C PT PD gm line (Some r) upd cyc t (Suc m) (s, cc) =
      place_tag hf C PT PD (int t) mp (Some r) cyc (?s1, cc) \<bind> (\<lambda>st.
        tag_at (fst st) (int t) \<bind> (\<lambda>tg.
        if t_data_id tg \<noteq> -1 then
          (if upd then do {
              rpt \<leftarrow> rp_update PT (Some r) t (rp_dpg_t (fst st));
              rpd \<leftarrow> rp_update PD (Some r) (nat (t_data_id tg)) (rp_dpg_d (fst st));
              Some (int (t + numLines (fst st)), (fst st)\<lparr>rp_dpg_t := rpt, rp_dpg_d := rpd\<rparr>, snd st)
            } else Some (int (t + numLines (fst st)), st))
        else lookup_loop hf C PT PD gm line (Some r) upd cyc (Suc t) m st))"
    using tl dl t d gm new by (simp add: tag_at_def data_at_def read_at_def rm(1))
  have fails: "evict_fails C r cyc s cc" if "evict_fails C r cyc ?s1 cc"
    by (rule evict_fails_mono [OF that]) (use rm(3,4) in \<open>auto split: if_splits\<close>)
  show ?thesis unfolding m run
  proof (rule outcome_bind [OF outcome_fail [OF place_tag_run [OF w1 t1 free1] fails]], assumption, simp only: split_paired_all prod.case, elim exE conjE)
    fix s2 cc2 e ch2
    assume e: "e < length (array_d ?s1)" "t \<in> set (ch2 e)" "d_map_value (array_d s2 ! e) = mp"
      "t_data_id (array_t s2 ! t) = int e" "t_addr (array_t s2 ! t) = -1"
      and w2: "wf s2 ch2" and conf2: "same_conf ?s1 s2" and shr2: "shrinks {t} ?s1 s2"
    have conf: "same_conf s s2" using conf1 conf2 by (rule same_conf_trans)
    have shr: "shrinks {t} s s2" by (rule shrinks_trans [OF shr1 shr2]) simp_all
    note c2 = same_confD [OF conf]
    have el: "e < length (array_d s)" using e(1) len by simp
    have t2: "t < length (array_t s2)" "t < numLines s2" "e < length (array_d s2)" using tl t el c2 by simp_all
    obtain p q where pq: "rp_update PT (Some r) t (rp_dpg_t s2) = Some p" "rp_update PD (Some r) e (rp_dpg_d s2) = Some q"
      "wf (s2\<lparr>rp_dpg_t := p, rp_dpg_d := q\<rparr>) ch2"
      using update_both [OF w2 t2(2) e(4) t2(3)] by blast
    have tat: "tag_at s2 (int t) = Some (array_t s2 ! t)" using t2(1) by (simp add: tag_at_def read_at_def)
    show "outcome (evict_fails C r cyc s cc) (tag_at (fst (s2, cc2)) (int t) \<bind> (\<lambda>tg.
        if t_data_id tg \<noteq> -1 then
          (if upd then do {
              rpt \<leftarrow> rp_update PT (Some r) t (rp_dpg_t (fst (s2, cc2)));
              rpd \<leftarrow> rp_update PD (Some r) (nat (t_data_id tg)) (rp_dpg_d (fst (s2, cc2)));
              Some (int (t + numLines (fst (s2, cc2))), (fst (s2, cc2))\<lparr>rp_dpg_t := rpt, rp_dpg_d := rpd\<rparr>, snd (s2, cc2))
            } else Some (int (t + numLines (fst (s2, cc2))), (s2, cc2)))
        else lookup_loop hf C PT PD gm line (Some r) upd cyc (Suc t) m (s2, cc2))) (\<lambda>(i, s', cc').
      i = int (t + numLines s) \<and> (\<exists>e ch'. e < length (array_d s) \<and> t \<in> set (ch' e) \<and> wf s' ch' \<and> same_conf s s' \<and>
        shrinks {t} s s' \<and> d_map_value (array_d s' ! e) = mp \<and> t_data_id (array_t s' ! t) = int e \<and>
        t_addr (array_t s' ! t) = -1))"
    proof (cases upd)
      case True
      let ?s3 = "s2\<lparr>rp_dpg_t := p, rp_dpg_d := q\<rparr>"
      have "same_conf s ?s3" using conf by (simp add: same_conf_def)
      moreover have "shrinks {t} s ?s3" using shr by (simp add: shrinks_def)
      ultimately have "\<exists>e ch'. e < length (array_d s) \<and> t \<in> set (ch' e) \<and> wf ?s3 ch' \<and> same_conf s ?s3 \<and>
        shrinks {t} s ?s3 \<and> d_map_value (array_d ?s3 ! e) = mp \<and> t_data_id (array_t ?s3 ! t) = int e \<and>
        t_addr (array_t ?s3 ! t) = -1"
        using pq(3) e(2,3,4,5) el by (intro exI [of _ e] exI [of _ ch2]) simp
      then show ?thesis using True by (simp add: tat e(4) pq(1,2) c2)
    next
      case False
      have "\<exists>e ch'. e < length (array_d s) \<and> t \<in> set (ch' e) \<and> wf s2 ch' \<and> same_conf s s2 \<and>
        shrinks {t} s s2 \<and> d_map_value (array_d s2 ! e) = mp \<and> t_data_id (array_t s2 ! t) = int e \<and>
        t_addr (array_t s2 ! t) = -1"
        using w2 e(2,3,4,5) el conf shr by (intro exI [of _ e] exI [of _ ch2]) simp
      then show ?thesis using False by (simp add: tat e(4) c2)
    qed
  qed
qed

lemma lookup_wf:
  assumes w: "wf s ch" and line: "line \<noteq> -1" and gm: "gm line = Some mp"
  shows "outcome (evict_fails C r cyc s cc) (dpg_lookup hf C PT PD gm line (Some r) upd cyc (s, cc)) (\<lambda>(i, s', cc').
    (\<exists>ch'. wf s' ch') \<and> same_conf s s' \<and> (i = -1 \<longleftrightarrow> (\<nexists>t. holds s line t)) \<and> (i = -1 \<longrightarrow> s' = s \<and> cc' = cc))"
proof (cases "\<exists>t. holds s line t")
  case False
  then have "dpg_lookup hf C PT PD gm line (Some r) upd cyc (s, cc) = Some (-1, s, cc)"
    by (intro lookup_miss [OF w]) blast
  with False w show ?thesis by auto
next
  case True
  then obtain t where h: "holds s line t" by blast
  then have tl: "t < length (array_t s)" using wf_lens [OF w] by (simp add: holds_def)
  obtain d where d: "t_data_id (array_t s ! t) = int d"
    using linked_used [OF wf_linked [OF w] tl] h by (auto simp: holds_def)
  show ?thesis
  proof (cases "mp = d_map_value (array_d s ! d)")
    case same: True
    obtain s' where s': "dpg_lookup hf C PT PD gm line (Some r) upd cyc (s, cc) = Some (int (t + numLines s), s', cc)"
      "wf s' ch" "same_conf s s'"
      using lookup_same_map [OF w line h d, of gm C "Some r" upd cyc cc] gm same by auto
    have ne: "int (t + numLines s) \<noteq> -1" by simp
    show ?thesis unfolding s'(1) outcome_Some prod.case using s'(2,3) True ne by blast
  next
    case False
    show ?thesis
    proof (rule outcome_mono [OF lookup_new_map [where gm = gm, OF w line h d gm False]], simp only: split_paired_all prod.case, elim exE conjE)
      fix i s' cc' e ch'
      assume w': "wf s' ch'" and c: "same_conf s s'"
      have ne: "int (t + numLines s) \<noteq> -1" by simp
      show "(\<exists>ch'. wf s' ch') \<and> same_conf s s' \<and> (int (t + numLines s) = -1 \<longleftrightarrow> (\<nexists>t. holds s line t)) \<and>
          (int (t + numLines s) = -1 \<longrightarrow> s' = s \<and> cc' = cc)"
        using w' c True ne by blast
    qed
  qed
qed

end

end
