(* ===== verification/Doppelganger_Contract.thy ===== *)
theory Doppelganger_Contract imports Doppelganger_Ops begin

text \<open>
  The contract of the Doppelganger array with the policies \<^verbatim>\<open>init.cpp\<close> gives it (the two LRU variants,
  not aware of sharers): the locale \<open>dpg_env\<close> interpreted on them, the states the array can reach,
  and the properties.
\<close>

abbreviation dpg_PT :: "lru ReplPolicy" where
  "dpg_PT \<equiv> LRUReplPolicy_DPG_t False"

abbreviation dpg_PD :: "lru ReplPolicy" where
  "dpg_PD \<equiv> LRUReplPolicy_DPG_d False"

definition hash_total :: "hash_fn \<Rightarrow> bool" where
  "hash_total hf \<longleftrightarrow> (\<forall>a. hf 0 a \<noteq> None)"

lemma dpg_lru:
  assumes "hash_total hf"
  shows "dpg_env dpg_PT lru_inv lru_inv lru_numLines (\<lambda>_ _. True)
    dpg_PD lru_inv lru_inv lru_numLines (\<lambda>_ _. True) hf"
proof -
  show ?thesis
    by (rule dpg_env.intro [OF lru_dpg_t.ready_replacement_axioms lru_dpg_d.ready_replacement_axioms])
      (use assms in \<open>auto simp: dpg_env_axioms_def hash_total_def\<close>)
qed

interpretation dpg_id: dpg_env dpg_PT lru_inv lru_inv lru_numLines "\<lambda>_ _. True"
    dpg_PD lru_inv lru_inv lru_numLines "\<lambda>_ _. True" id_hash
  by (rule dpg_lru) (simp add: hash_total_def id_hash_def)

text \<open>The invariant of an array, with the list of tags of every data entry.\<close>

definition dpg_wf :: "hash_fn \<Rightarrow> lru dpg \<Rightarrow> (nat \<Rightarrow> nat list) \<Rightarrow> bool" where
  "dpg_wf hf s ch \<longleftrightarrow> linked s ch \<and> geometry s \<and> maps_ok hf s ch \<and> tags_ok hf s \<and>
     lru_inv (rp_dpg_t s) \<and> numLines s \<le> lru_numLines (rp_dpg_t s) \<and>
     lru_inv (rp_dpg_d s) \<and> numLines s div DATA_SCALE \<le> lru_numLines (rp_dpg_d s)"

lemma dpg_wf_env:
  assumes "hash_total hf"
  shows "dpg_env.wf lru_inv lru_numLines lru_inv lru_numLines hf s ch = dpg_wf hf s ch"
  by (simp add: dpg_env.wf_def [OF dpg_lru [OF assms]] dpg_wf_def)

subsection \<open>The states of an array\<close>

text \<open>
  An array as the cache uses it: looked up at any line, and, when a line is not in the array, filled by
  \<^verbatim>\<open>preinsert\<close> and \<^verbatim>\<open>postinsert\<close>. The map of a line may be another one at every step: the program
  writes its memory.
\<close>

inductive dpg_reach :: "hash_fn \<Rightarrow> 'cc CC_ops \<Rightarrow> nat \<Rightarrow> nat \<Rightarrow> lru dpg \<times> 'cc \<Rightarrow> bool" for hf C n ways where
  reach_new: "n < 2 ^ 32 \<Longrightarrow> dpg_new n ways (lru_new n) (lru_new (n div 2)) = Some s \<Longrightarrow> dpg_reach hf C n ways (s, cc)"
| reach_lookup: "dpg_reach hf C n ways st \<Longrightarrow> line \<noteq> -1 \<Longrightarrow> gm line = Some mp \<Longrightarrow>
    dpg_lookup hf C dpg_PT dpg_PD gm line (Some r) upd cyc st = Some (i, st') \<Longrightarrow> dpg_reach hf C n ways st'"
| reach_insert: "dpg_reach hf C n ways st \<Longrightarrow> line \<noteq> -1 \<Longrightarrow> gm line = Some mp \<Longrightarrow> \<forall>t. \<not> holds (fst st) line t \<Longrightarrow>
    dpg_preinsert hf C dpg_PT dpg_PD gm line (Some r) cyc st = Some (i, st1) \<Longrightarrow>
    dpg_postinsert dpg_PT dpg_PD line (Some r) i (fst st1) = Some s2 \<Longrightarrow> dpg_reach hf C n ways (s2, snd st1)"

lemma isPow2_nonzero: "isPow2 (of_nat k :: u32) \<Longrightarrow> 0 < k"
  by (cases k) (auto simp: isPow2_def)

lemma unat_of_nat_minus_1:
  assumes "0 < k" and "k < 2 ^ 32"
  shows "unat (of_nat k - 1 :: u32) = k - 1"
proof -
  have k: "unat (of_nat k :: u32) = k"
    using assms(2) by (simp only: unsigned_of_nat take_bit_eq_mod of_nat_id) simp
  then have "(of_nat k :: u32) \<noteq> 0" using assms(1) by (metis unsigned_0 less_irrefl)
  from unat_minus_one [OF this] k show ?thesis by simp
qed

lemma dpg_new_wf:
  assumes n: "n < 2 ^ 32" and new: "dpg_new n ways (lru_new n) (lru_new (n div 2)) = Some s"
  shows "dpg_wf hf s (\<lambda>_. [])"
proof -
  define st sd where "st = n div ways" and "sd = n div ways div 2"
  have ways: "0 < ways" and p: "isPow2 (of_nat st :: u32)" "isPow2 (of_nat sd :: u32)"
    and s: "s = \<lparr>array_t = replicate n no_tag, array_d = replicate (n div 2) \<lparr>d_map_value = -1, d_tag_head_id = -1\<rparr>,
           rp_dpg_t = lru_new n, rp_dpg_d = lru_new (n div 2), numLines = n, assoc = ways, numSets_t = st,
           numSets_d = sd, setMask_t = of_nat st - 1, setMask_d = of_nat sd - 1\<rparr>"
    using new by (auto simp: dpg_new_def Let_def DATA_SCALE_def st_def sd_def)
  have pos: "0 < st" "0 < sd" using p isPow2_nonzero by blast+
  have le: "st \<le> n" "sd \<le> n" by (auto simp: st_def sd_def intro: order_trans [OF div_le_dividend])
  then have lt: "st < 2 ^ 32" "sd < 2 ^ 32" using n by linarith+
  have "st * ways \<le> n" by (simp add: st_def)
  moreover have "sd * ways \<le> n div 2"
    unfolding sd_def by (simp add: div_mult2_eq [symmetric] mult.commute [of ways 2]) (simp add: div_mult2_eq)
  ultimately have "geometry s"
    using ways pos lt by (simp add: geometry_def s DATA_SCALE_def unat_of_nat_minus_1)
  moreover have "linked s (\<lambda>_. [])" by (simp add: linked_def s no_tag_def DATA_SCALE_def)
  moreover have "tags_ok hf s" by (simp add: tags_ok_def s no_tag_def)
  ultimately show ?thesis
    by (simp add: dpg_wf_def maps_ok_def s lru_inv_def lru_new_def DATA_SCALE_def)
qed

lemma dpg_reach_wf:
  assumes tot: "hash_total hf"
  shows "dpg_reach hf C n ways st \<Longrightarrow> \<exists>ch. dpg_wf hf (fst st) ch"
proof (induction rule: dpg_reach.induct)
  case (reach_new s cc)
  from dpg_new_wf [OF this] show ?case by auto
next
  case (reach_lookup st line gm mp r upd cyc i st')
  then obtain ch where w: "dpg_wf hf (fst st) ch" by blast
  have "outcome (evict_fails C r cyc (fst st) (snd st)) (dpg_lookup hf C dpg_PT dpg_PD gm line (Some r) upd cyc (fst st, snd st)) (\<lambda>(i, s', cc').
    (\<exists>ch'. dpg_wf hf s' ch') \<and> same_conf (fst st) s' \<and> (i = -1 \<longleftrightarrow> (\<nexists>t. holds (fst st) line t)) \<and>
    (i = -1 \<longrightarrow> s' = fst st \<and> cc' = snd st))"
    by (rule dpg_env.lookup_wf [OF dpg_lru [OF tot], unfolded dpg_wf_env [OF tot], where gm = gm, OF w reach_lookup.hyps(2,3)])
  with reach_lookup.hyps(4) show ?case by (auto simp: outcome_def split: prod.splits)
next
  case (reach_insert st line gm mp r cyc i st1 s2)
  then obtain ch where w: "dpg_wf hf (fst st) ch" by blast
  have pre: "dpg_preinsert hf C dpg_PT dpg_PD gm line (Some r) cyc (fst st, snd st) = Some (i, fst st1, snd st1)"
    using reach_insert.hyps(5) by simp
  obtain t d ch1 where i: "i = t + numLines (fst st)" "t < numLines (fst st)"
    and ins: "in_set (tag_set hf (fst st) line) (assoc (fst st)) t"
    and w1: "dpg_wf hf (fst st1) ch1" and conf: "same_conf (fst st) (fst st1)"
    and shr: "shrinks {t} (fst st) (fst st1)" and did: "t_data_id (array_t (fst st1) ! t) = int d"
    and ad: "t_addr (array_t (fst st1) ! t) = -1"
    using dpg_env.preinsert_run [OF dpg_lru [OF tot], unfolded dpg_wf_env [OF tot], where gm = gm, OF w reach_insert.hyps(3), of C r cyc "snd st"]
    unfolding pre outcome_Some prod.case by blast
  have fresh: "\<forall>u<numLines (fst st1). t_addr (array_t (fst st1) ! u) \<noteq> line"
  proof (intro allI impI)
    fix u
    assume u: "u < numLines (fst st1)"
    show "t_addr (array_t (fst st1) ! u) \<noteq> line"
    proof (cases "u = t")
      case True
      with ad reach_insert.hyps(2) show ?thesis by simp
    next
      case False
      then have alt: "t_addr (array_t (fst st1) ! u) = t_addr (array_t (fst st) ! u) \<and>
          t_data_id (array_t (fst st1) ! u) = t_data_id (array_t (fst st) ! u) \<or> t_addr (array_t (fst st1) ! u) = -1"
        using shr by (auto simp: shrinks_def)
      have "t_addr (array_t (fst st1) ! u) \<noteq> -1 \<Longrightarrow> t_data_id (array_t (fst st1) ! u) \<noteq> -1"
        using w1 u by (auto simp: dpg_wf_def tags_ok_def linked_def)
      with alt u reach_insert.hyps(2,4) same_confD(1) [OF conf] show ?thesis
        by (metis holds_def)
    qed
  qed
  from dpg_env.postinsert_run [OF dpg_lru [OF tot], unfolded dpg_wf_env [OF tot], OF w1, of t d line "Some r"] i(2) did ins fresh same_confD [OF conf]
  obtain s' where "dpg_postinsert dpg_PT dpg_PD line (Some r) (t + numLines (fst st1)) (fst st1) = Some s'" "dpg_wf hf s' ch1"
    by auto
  with reach_insert.hyps(6) i same_confD(1) [OF conf] show ?case by auto
qed

subsection \<open>Lemmas for the properties\<close>

lemma insert_fresh:
  assumes w: "dpg_wf hf s ch" and t: "t < numLines s" and conf: "same_conf s s1" and shr: "shrinks {t} s s1"
    and w1: "dpg_wf hf s1 ch1" and ad: "t_addr (array_t s1 ! t) = -1" and line: "line \<noteq> -1"
    and none: "\<forall>t. \<not> holds s line t"
  shows "\<forall>u<numLines s1. t_addr (array_t s1 ! u) \<noteq> line"
proof (intro allI impI)
  fix u
  assume u: "u < numLines s1"
  show "t_addr (array_t s1 ! u) \<noteq> line"
  proof (cases "u = t")
    case True
    with ad line show ?thesis by simp
  next
    case False
    then have alt: "t_addr (array_t s1 ! u) = t_addr (array_t s ! u) \<and> t_data_id (array_t s1 ! u) = t_data_id (array_t s ! u) \<or>
        t_addr (array_t s1 ! u) = -1"
      using shr by (auto simp: shrinks_def)
    have "t_addr (array_t s1 ! u) \<noteq> -1 \<Longrightarrow> t_data_id (array_t s1 ! u) \<noteq> -1"
      using w1 u by (auto simp: dpg_wf_def tags_ok_def linked_def)
    with alt u line none same_confD(1) [OF conf] show ?thesis by (metis holds_def)
  qed
qed

lemma insert_then_lookup:
  assumes tot: "hash_total hf" and w: "dpg_wf hf s ch" and line: "line \<noteq> -1" and gm: "gm line = Some mp"
    and none: "\<forall>t. \<not> holds s line t"
  shows "outcome (evict_fails C r cyc s cc) (dpg_preinsert hf C dpg_PT dpg_PD gm line (Some r) cyc (s, cc)) (\<lambda>(i, s1, cc1).
    \<exists>s2 s3. dpg_postinsert dpg_PT dpg_PD line (Some r) i s1 = Some s2 \<and>
      dpg_lookup hf C dpg_PT dpg_PD gm line (Some r) upd cyc (s2, cc1) = Some (int i, s3, cc1) \<and>
      numLines s \<le> i \<and> i < 2 * numLines s \<and> holds s2 line (i - numLines s) \<and> (\<exists>ch2. dpg_wf hf s2 ch2))"
proof (rule outcome_mono [OF dpg_env.preinsert_run [OF dpg_lru [OF tot], unfolded dpg_wf_env [OF tot], where gm = gm, OF w gm]],
    simp only: split_paired_all prod.case, elim exE conjE)
  fix i s1 cc1 t d ch1
  assume i: "i = t + numLines s" and t: "t < numLines s" and ins: "in_set (tag_set hf s line) (assoc s) t"
    and w1: "dpg_wf hf s1 ch1" and conf: "same_conf s s1" and shr: "shrinks {t} s s1" and mp: "d_map_value (array_d s1 ! d) = mp"
    and did: "t_data_id (array_t s1 ! t) = int d" and ad: "t_addr (array_t s1 ! t) = -1"
  note c = same_confD [OF conf]
  have fresh: "\<forall>u<numLines s1. t_addr (array_t s1 ! u) \<noteq> line"
    by (rule insert_fresh [OF w t conf shr w1 ad line none])
  have t1: "t < numLines s1" and ins1: "in_set (tag_set hf s1 line) (assoc s1) t" using t ins c by simp_all
  obtain s2 where s2: "dpg_postinsert dpg_PT dpg_PD line (Some r) (t + numLines s1) s1 = Some s2" "dpg_wf hf s2 ch1"
    "same_conf s1 s2" "array_d s2 = array_d s1" "t_addr (array_t s2 ! t) = line" "t_data_id (array_t s2 ! t) = int d"
    using dpg_env.postinsert_run [OF dpg_lru [OF tot], unfolded dpg_wf_env [OF tot], OF w1 t1 did ins1 fresh] by blast
  have h: "holds s2 line t" using s2(3,5,6) t1 by (simp add: holds_def same_conf_def)
  have gm2: "gm line = Some (d_map_value (array_d s2 ! d))" using gm mp s2(4) by simp
  obtain s3 where s3: "dpg_lookup hf C dpg_PT dpg_PD gm line (Some r) upd cyc (s2, cc1) = Some (int (t + numLines s2), s3, cc1)"
    using dpg_env.lookup_same_map [OF dpg_lru [OF tot], unfolded dpg_wf_env [OF tot], where gm = gm and C = C and req = "Some r" and upd = upd and cyc = cyc and cc = cc1,
        OF s2(2) line h s2(6) gm2] by blast
  have n: "numLines s1 = numLines s" "numLines s2 = numLines s" using c s2(3) by (simp_all add: same_conf_def)
  show "\<exists>s2 s3. dpg_postinsert dpg_PT dpg_PD line (Some r) i s1 = Some s2 \<and>
      dpg_lookup hf C dpg_PT dpg_PD gm line (Some r) upd cyc (s2, cc1) = Some (int i, s3, cc1) \<and>
      numLines s \<le> i \<and> i < 2 * numLines s \<and> holds s2 line (i - numLines s) \<and> (\<exists>ch2. dpg_wf hf s2 ch2)"
    using s2(1,2) s3 h t unfolding i n
    by (intro exI [of _ s2] exI [of _ s3] conjI exI [of _ ch1]) simp_all
qed

lemma lookup_forgets_run:
  assumes tot: "hash_total hf" and w: "dpg_wf hf s ch" and line: "line \<noteq> -1" and h: "holds s line t"
    and d: "t_data_id (array_t s ! t) = int d" and gm: "gm line = Some mp" and new: "mp \<noteq> d_map_value (array_d s ! d)"
  shows "outcome (evict_fails C r cyc s cc) (dpg_lookup hf C dpg_PT dpg_PD gm line (Some r) upd cyc (s, cc)) (\<lambda>(i, s', cc').
    i = int (t + numLines s) \<and> t_data_id (array_t s' ! t) \<noteq> -1 \<and>
    dpg_lookup hf C dpg_PT dpg_PD gm' line req' upd' cyc' (s', cc') = Some (-1, s', cc'))"
proof (rule outcome_mono [OF dpg_env.lookup_new_map [OF dpg_lru [OF tot], unfolded dpg_wf_env [OF tot],
      where gm = gm, OF w line h d gm new]], simp only: split_paired_all prod.case, elim exE conjE)
  fix i s' cc' e ch'
  assume w': "dpg_wf hf s' ch'" and conf: "same_conf s s'" and shr: "shrinks {t} s s'"
    and ad: "t_addr (array_t s' ! t) = -1" and did: "t_data_id (array_t s' ! t) = int e"
  have "\<not> holds s' line u" for u
  proof
    assume u: "holds s' line u"
    then have "u \<noteq> t" using ad line by (auto simp: holds_def)
    then have "holds s line u" using shr u line same_confD(1) [OF conf] by (auto simp: shrinks_def holds_def)
    then have "u = t"
      using dpg_env.holds_unique [OF dpg_lru [OF tot], unfolded dpg_wf_env [OF tot], OF w line _ h] by blast
    with \<open>u \<noteq> t\<close> show False by blast
  qed
  from dpg_env.lookup_miss [OF dpg_lru [OF tot], unfolded dpg_wf_env [OF tot], OF w' this]
  show "int (t + numLines s) = int (t + numLines s) \<and> t_data_id (array_t s' ! t) \<noteq> -1 \<and>
    dpg_lookup hf C dpg_PT dpg_PD gm' line req' upd' cyc' (s', cc') = Some (-1, s', cc')"
    using did by simp
qed

lemma evict_data_all:
  assumes tot: "hash_total hf" and w: "dpg_wf hf s ch" and d: "d < length (array_d s)" and used: "ch d \<noteq> []"
  shows "\<exists>s'. (\<forall>cc. evict_data C dpg_PT (int d) (Some r) cyc (s, cc) =
      map_option (\<lambda>cc'. (s', cc')) (evict_all C r cyc s (ch d) cc)) \<and> dpg_wf hf s' (ch(d := [])) \<and>
    (\<forall>u. t_addr (array_t s' ! u) = (if u \<in> set (ch d) then -1 else t_addr (array_t s ! u)))"
proof -
  obtain t ts where ch: "ch d = t # ts" using used by (cases "ch d") auto
  have n: "d < numLines s div DATA_SCALE" using w d by (simp add: dpg_wf_def linked_def)
  obtain s' where s': "\<forall>cc. evict_loop C dpg_PT (int d) (Some r) cyc (s, cc) =
      map_option (\<lambda>cc'. (s', cc')) (evict_all C r cyc s (t # ts) cc)" "dpg_wf hf s' (ch(d := []))"
    "\<forall>u. t_addr (array_t s' ! u) = (if u \<in> set (t # ts) then -1 else t_addr (array_t s ! u))"
    using dpg_env.evict_loop_run [OF dpg_lru [OF tot], unfolded dpg_wf_env [OF tot], where C = C and r = r and cyc = cyc, OF w d ch]
    by blast
  have "\<forall>cc. evict_data C dpg_PT (int d) (Some r) cyc (s, cc) =
      map_option (\<lambda>cc'. (s', cc')) (evict_all C r cyc s (ch d) cc)"
    using s'(1) n unfolding ch by (simp add: evict_data_def del: evict_all.simps)
  with s'(2,3) show ?thesis unfolding ch by blast
qed

text \<open>On the path without evictions the controller is not used: the result is that under a controller that never fails.\<close>

lemma preinsert_no_eviction:
  assumes tot: "hash_total hf" and w: "dpg_wf hf s ch" and gm: "gm line = Some mp"
    and free: "\<exists>u<numLines s. in_set (tag_set hf s line) (assoc s) u \<and> t_data_id (array_t s ! u) = -1"
    and e: "e < length (array_d s)" "ch e \<noteq> []" "d_map_value (array_d s ! e) = mp"
  shows "dpg_preinsert hf C dpg_PT dpg_PD gm line (Some r) cyc (s, cc) =
    dpg_preinsert hf (C\<lparr>cc_processEviction := \<lambda>_ _ _ _ cc. Some cc\<rparr>) dpg_PT dpg_PD gm line (Some r) cyc (s, cc)"
proof -
  note env = dpg_lru [OF tot]
  have wf: "dpg_env.wf lru_inv lru_numLines lru_inv lru_numLines hf s ch" using w dpg_wf_env [OF tot] by metis
  obtain k where k: "tag_set hf s line = Some k" "k * assoc s + assoc s \<le> length (array_t s)"
    using dpg_env.tag_set_total [OF env, of s line] w by (auto simp: dpg_wf_def linked_def)
  have "\<exists>t. k * assoc s \<le> t \<and> t < k * assoc s + assoc s \<and> t_data_id (array_t s ! t) = -1"
    using free by (auto simp: in_set_def k(1))
  with find_free_tag_spec [OF k(2)] obtain t where t: "find_free_tag s (k * assoc s) (assoc s) = Some (int t)" by auto
  have tag: "get_free_tag hf C' dpg_PT line (Some r) cyc (s, cc) = Some (int t, s, cc)" for C'
    by (simp add: get_free_tag_def k(1) t)
  obtain d where "lookup_data hf mp s = Some (int d)"
    using dpg_env.lookup_data_run [OF env wf, of mp] e by blast
  then have "place_tag hf C dpg_PT dpg_PD (int t) mp (Some r) cyc (s, cc) =
      place_tag hf (C\<lparr>cc_processEviction := \<lambda>_ _ _ _ cc. Some cc\<rparr>) dpg_PT dpg_PD (int t) mp (Some r) cyc (s, cc)"
    by (simp add: place_tag_def)
  then show ?thesis by (simp add: dpg_preinsert_def tag gm)
qed

lemma preinsert_joins:
  assumes tot: "hash_total hf" and w: "dpg_wf hf s ch" and gm: "gm line = Some mp"
    and free: "\<exists>u<numLines s. in_set (tag_set hf s line) (assoc s) u \<and> t_data_id (array_t s ! u) = -1"
    and e: "e < length (array_d s)" "ch e \<noteq> []" "d_map_value (array_d s ! e) = mp"
  shows "\<exists>t s'. dpg_preinsert hf C dpg_PT dpg_PD gm line (Some r) cyc (s, cc) = Some (t + numLines s, s', cc) \<and>
    dpg_wf hf s' (ch(e := t # ch e))"
proof -
  let ?C = "C\<lparr>cc_processEviction := \<lambda>_ _ _ _ cc. Some cc\<rparr>"
  have "outcome (evict_fails ?C r cyc s cc) (dpg_preinsert hf ?C dpg_PT dpg_PD gm line (Some r) cyc (s, cc)) (\<lambda>(i, s', cc').
    \<exists>t. i = t + numLines s \<and> cc' = cc \<and> dpg_wf hf s' (ch(e := t # ch e)))"
  proof (rule outcome_mono [OF dpg_env.preinsert_run [OF dpg_lru [OF tot], unfolded dpg_wf_env [OF tot], where gm = gm, OF w gm]],
      simp only: split_paired_all prod.case, elim exE conjE)
    fix i s' cc' t d ch'
    assume i: "i = t + numLines s" and d: "d < length (array_d s)" and t: "t \<in> set (ch' d)" and w': "dpg_wf hf s' ch'"
      and conf: "same_conf s s'" and mp: "d_map_value (array_d s' ! d) = mp"
      and j: "(\<exists>u<numLines s. in_set (tag_set hf s line) (assoc s) u \<and> t_data_id (array_t s ! u) = -1) \<and>
       (\<exists>e<length (array_d s). ch e \<noteq> [] \<and> d_map_value (array_d s ! e) = mp) \<longrightarrow> cc' = cc \<and> ch' = ch(d := t # ch d) \<and> ch d \<noteq> [] \<and> d_map_value (array_d s ! d) = mp"
    have res: "cc' = cc" "ch' = ch(d := t # ch d)" "ch d \<noteq> []" "d_map_value (array_d s ! d) = mp" using j free e by blast+
    have "maps_ok hf s ch" using w by (simp add: dpg_wf_def)
    then have ed: "e = d" unfolding maps_ok_def using d e res by metis
    show "\<exists>t. i = t + numLines s \<and> cc' = cc \<and> dpg_wf hf s' (ch(e := t # ch e))"
      using i res w' ed by auto
  qed
  moreover have "evict_all ?C r cyc s ts cc \<noteq> None" for ts by (induction ts arbitrary: cc) simp_all
  ultimately show ?thesis unfolding preinsert_no_eviction [where gm = gm, OF assms(1-7), of C]
    by (auto simp: outcome_def evict_fails_def split: option.splits)
qed

text \<open>A score is below the first bound, so the first candidate is always taken: the code equations of the ranking
  for evaluation.\<close>

lemma score_below: "(ucast (ucast (sc :: u64) :: u32) :: u64) < -1"
proof -
  have "unat (ucast (ucast sc :: u32) :: u64) < 2 ^ 32"
    using unsigned_less [of "ucast sc :: u32"] by (simp add: unat_widen)
  moreover have "unat (-1 :: u64) = 2 ^ 64 - 1" by (simp add: unsigned_minus_1_eq_mask mask_eq_exp_minus_1)
  ultimately show ?thesis by (simp add: word_less_nat_alt)
qed

lemma rank_by_code [code]:
  "rank_by score cc req [] p = Some (no_id, p)"
  "rank_by score cc req (c # cands) p = do {
     sc \<leftarrow> score cc p c;
     c \<leftarrow> rank_loop (score cc p) cands c (ucast (ucast sc :: u32));
     Some (c, p)
   }"
  using score_below by (simp_all add: rank_by_def MIN2_def Let_def)

subsection \<open>Sample arrays\<close>

text \<open>A coherence controller that logs the evictions, and an array of 8 tags and 4 data entries, 2 ways, that
  holds the lines 5 and 9 with the same map 7.\<close>

definition log_ops :: "(address \<times> nat) list CC_ops" where
  "log_ops = \<lparr>cc_processEviction = (\<lambda>r a i cyc l. Some (l @ [(a, i)])),
     cc_see = (\<lambda>_. \<lparr>cc_numSharers = (\<lambda>_. 0), cc_isValid = (\<lambda>_. True)\<rparr>)\<rparr>"

definition sample_req :: MemReq where
  "sample_req = \<lparr>lineAddr = 5, req_type = GETS, childId = 0, req_state = StI, req_cycle = 0,
     initialState = StI, srcId = 0, flags = 0\<rparr>"

definition sample_insert :: "u32 \<Rightarrow> address \<Rightarrow> lru dpg \<times> (address \<times> nat) list \<Rightarrow>
    (lru dpg \<times> (address \<times> nat) list) option" where
  "sample_insert mp line st = do {
     (i, st1) \<leftarrow> dpg_preinsert id_hash log_ops dpg_PT dpg_PD (\<lambda>_. Some mp) line (Some sample_req) 0 st;
     s2 \<leftarrow> dpg_postinsert dpg_PT dpg_PD line (Some sample_req) i (fst st1);
     Some (s2, snd st1)
   }"

definition sample_new :: "lru dpg" where
  "sample_new = the (dpg_new 8 2 (lru_new 8) (lru_new 4))"

definition sample_one :: "lru dpg \<times> (address \<times> nat) list" where
  "sample_one = the (sample_insert 7 5 (sample_new, []))"

definition sample_st :: "lru dpg \<times> (address \<times> nat) list" where
  "sample_st = the (sample_insert 7 9 sample_one)"

lemma log_ops_total: "\<not> evict_fails log_ops r cyc s cc"
proof -
  have "evict_all log_ops r cyc s ts cc \<noteq> None" for ts
    by (induction ts arbitrary: cc) (simp_all add: log_ops_def)
  then show ?thesis by (simp add: evict_fails_def)
qed

lemma id_hash_total: "hash_total id_hash"
  by (simp add: hash_total_def id_hash_def)

lemma holds_none: "(\<forall>t. \<not> holds s line t) \<longleftrightarrow> list_all (\<lambda>t. \<not> holds s line t) [0..<numLines s]"
  by (auto simp: list_all_iff holds_def)

lemma reach_sample_insert:
  assumes "dpg_reach id_hash log_ops 8 2 st" and "line \<noteq> -1" and "list_all (\<lambda>t. \<not> holds (fst st) line t) [0..<numLines (fst st)]"
    and "sample_insert mp line st = Some st'"
  shows "dpg_reach id_hash log_ops 8 2 st'"
  using assms(4) reach_insert [OF assms(1,2), of "\<lambda>_. Some mp" mp sample_req 0] assms(3)
  by (auto simp: sample_insert_def holds_none bind_eq_Some_conv)

lemma sample_new_reach: "dpg_reach id_hash log_ops 8 2 (sample_new, [])"
proof -
  have "dpg_new 8 2 (lru_new 8) (lru_new (8 div 2)) = Some sample_new"
    by (simp add: sample_new_def) code_simp
  then show ?thesis by (intro reach_new) simp_all
qed

lemma sample_one_reach: "dpg_reach id_hash log_ops 8 2 sample_one"
proof (rule reach_sample_insert [OF sample_new_reach, where line = 5 and mp = 7])
  have "sample_insert 7 5 (sample_new, []) \<noteq> None" by code_simp
  then show "sample_insert 7 5 (sample_new, []) = Some sample_one" by (auto simp: sample_one_def)
qed code_simp+

lemma sample_reach: "dpg_reach id_hash log_ops 8 2 (fst sample_st, snd sample_st)"
proof (simp, rule reach_sample_insert [OF sample_one_reach, where line = 9 and mp = 7])
  have "sample_insert 7 9 sample_one \<noteq> None" by code_simp
  then show "sample_insert 7 9 sample_one = Some sample_st" by (auto simp: sample_st_def)
qed code_simp+

lemma sample_wf: "\<exists>ch. dpg_wf id_hash (fst sample_st) ch"
  using dpg_reach_wf [OF id_hash_total sample_reach] by simp

lemma sample_fresh: "\<forall>t. \<not> holds (fst sample_st) 6 t"
  unfolding holds_none by code_simp

lemma sample_holds: "holds (fst sample_st) 5 2" "t_data_id (array_t (fst sample_st) ! 2) = int 2"
  "d_map_value (array_d (fst sample_st) ! 2) = 7" "length (array_d (fst sample_st)) = 4" "numLines (fst sample_st) = 8"
  "d_tag_head_id (array_d (fst sample_st) ! 2) = 3"
  by (code_simp, code_simp, code_simp, code_simp, code_simp, code_simp)

subsection \<open>Properties\<close>

text \<open>C7: Every state the Doppelganger array can reach, from its construction through any sequence of lookups and
  insertions of absent lines, whatever values the lines have in memory, is well formed: the tags of a data entry
  form one doubly linked list, every used tag is in the list of its entry, no two entries have the same map and
  no two tags the same address, and each is in the set its hash names.\<close>

theorem dpg_invariant:
  assumes "hash_total hf" and "dpg_reach hf C n ways st"
  shows "\<exists>ch. dpg_wf hf (fst st) ch"
  by (rule dpg_reach_wf [OF assms])

theorem dpg_invariant_witness:
  "hash_total id_hash \<and> dpg_reach id_hash log_ops 8 2 sample_st \<and> (\<exists>ch. dpg_wf id_hash (fst sample_st) ch)"
  using id_hash_total sample_reach dpg_invariant [of id_hash log_ops 8 2 sample_st] by simp

text \<open>C8: In every state the Doppelganger array can reach, inserting an absent line either fails only because the
  coherence controller fails, in its present state, when tags in use of this array are evicted one after the
  other with their own addresses and line ids; or \<^verbatim>\<open>preinsert\<close> returns a line id between
  \<^verbatim>\<open>numLines\<close> and \<^verbatim>\<open>2 * numLines\<close>, \<^verbatim>\<open>postinsert\<close> accepts it, and the next \<^verbatim>\<open>lookup\<close>
  of the line, its value unchanged, returns that id and evicts nothing.\<close>

theorem dpg_insert_lookup:
  assumes "hash_total hf" and "dpg_reach hf C n ways (s, cc)" and "line \<noteq> -1" and "gm line = Some mp"
    and "\<forall>t. \<not> holds s line t"
  shows "case dpg_preinsert hf C dpg_PT dpg_PD gm line (Some r) cyc (s, cc) of
      None \<Rightarrow> \<exists>ts. distinct ts \<and> (\<forall>t\<in>set ts. t < numLines s \<and> t_data_id (array_t s ! t) \<noteq> -1) \<and>
        evict_all C r cyc s ts cc = None
    | Some (i, s1, cc1) \<Rightarrow> numLines s \<le> i \<and> i < 2 * numLines s \<and>
        (\<exists>s2 s3. dpg_postinsert dpg_PT dpg_PD line (Some r) i s1 = Some s2 \<and>
           dpg_lookup hf C dpg_PT dpg_PD gm line (Some r) upd cyc (s2, cc1) = Some (int i, s3, cc1))"
proof -
  obtain ch where w: "dpg_wf hf s ch" using dpg_reach_wf [OF assms(1,2)] by auto
  from insert_then_lookup [where gm = gm, OF assms(1) w assms(3-5), of C r cyc cc upd]
  show ?thesis by (auto simp: outcome_def evict_fails_def split: option.splits)
qed

theorem dpg_insert_lookup_witness:
  "\<exists>i s1 cc1 s2 s3. dpg_preinsert id_hash log_ops dpg_PT dpg_PD (\<lambda>_. Some 3) 6 (Some sample_req) 0 sample_st = Some (i, s1, cc1) \<and>
    dpg_postinsert dpg_PT dpg_PD 6 (Some sample_req) i s1 = Some s2 \<and>
    dpg_lookup id_hash log_ops dpg_PT dpg_PD (\<lambda>_. Some 3) 6 (Some sample_req) True 0 (s2, cc1) = Some (int i, s3, cc1) \<and>
    numLines (fst sample_st) \<le> i \<and> i < 2 * numLines (fst sample_st)"
proof -
  have "dpg_preinsert id_hash log_ops dpg_PT dpg_PD (\<lambda>_. Some 3) 6 (Some sample_req) 0 (fst sample_st, snd sample_st) \<noteq> None"
    by code_simp
  with dpg_insert_lookup [OF id_hash_total sample_reach, of 6 "\<lambda>_. Some 3" 3 sample_req 0 True] sample_fresh
  show ?thesis by (auto split: option.splits)
qed

text \<open>C32: Lines with the same value share one data entry: when the set of the line has a free tag and some entry
  in use already has the map of the line, \<^verbatim>\<open>preinsert\<close> evicts nothing and puts the new tag at the head of
  the list of that entry; every other list stays as it was.\<close>

theorem dpg_insert_shares:
  assumes "hash_total hf" and "dpg_wf hf s ch" and "gm line = Some mp"
    and "\<exists>u<numLines s. in_set (tag_set hf s line) (assoc s) u \<and> t_data_id (array_t s ! u) = -1"
    and "e < length (array_d s)" and "ch e \<noteq> []" and "d_map_value (array_d s ! e) = mp"
  shows "\<exists>t s'. dpg_preinsert hf C dpg_PT dpg_PD gm line (Some r) cyc (s, cc) = Some (t + numLines s, s', cc) \<and>
    dpg_wf hf s' (ch(e := t # ch e))"
  by (rule preinsert_joins [where gm = gm, OF assms])

theorem dpg_insert_shares_witness:
  "\<exists>ch t s'. dpg_preinsert id_hash log_ops dpg_PT dpg_PD (\<lambda>_. Some 7) 6 (Some sample_req) 0 sample_st =
    Some (t + 8, s', snd sample_st) \<and> dpg_wf id_hash s' (ch(2 := t # ch 2))"
proof -
  obtain ch where w: "dpg_wf id_hash (fst sample_st) ch" using sample_wf by blast
  have d: "2 < length (array_d (fst sample_st))" by (simp add: sample_holds)
  have "ch 2 \<noteq> []" using w sample_holds(6) d by (auto simp: dpg_wf_def linked_def)
  moreover have "in_set (tag_set id_hash (fst sample_st) 6) (assoc (fst sample_st)) 4"
  proof -
    have "tag_set id_hash (fst sample_st) 6 = Some 2" "assoc (fst sample_st) = 2" by code_simp+
    then show ?thesis by (simp add: in_set_def)
  qed
  moreover have "t_data_id (array_t (fst sample_st) ! 4) = -1" by code_simp
  ultimately show ?thesis
    using dpg_insert_shares [OF id_hash_total w, where gm = "\<lambda>_. Some 7" and line = 6 and e = 2 and C = log_ops
        and r = sample_req and cyc = 0 and cc = "snd sample_st"] d sample_holds(3,5)
    by fastforce
qed

text \<open>C9: Evicting a data entry ends and evicts exactly the tags of its list, from the one added last to the oldest,
  each with its own address and line id (\<^verbatim>\<open>tag + numLines\<close>); afterwards the entry and all these tags are free and
  the other lists are as they were. It fails only when the coherence controller fails on one of the evictions.\<close>

theorem dpg_evict_data_exact:
  assumes "hash_total hf" and "dpg_wf hf s ch" and "d < length (array_d s)" and "ch d \<noteq> []"
  shows "\<exists>s'. (\<forall>cc. evict_data C dpg_PT (int d) (Some r) cyc (s, cc) =
      map_option (\<lambda>cc'. (s', cc')) (evict_all C r cyc s (ch d) cc)) \<and> dpg_wf hf s' (ch(d := [])) \<and>
    (\<forall>u. t_addr (array_t s' ! u) = (if u \<in> set (ch d) then -1 else t_addr (array_t s ! u)))"
  by (rule evict_data_all [OF assms])

theorem dpg_evict_data_exact_witness:
  "\<exists>ch s'. (\<forall>cc. evict_data log_ops dpg_PT 2 (Some sample_req) 0 (fst sample_st, cc) =
      map_option (\<lambda>cc'. (s', cc')) (evict_all log_ops sample_req 0 (fst sample_st) (ch 2) cc)) \<and>
    dpg_wf id_hash s' (ch(2 := []))"
proof -
  obtain ch where w: "dpg_wf id_hash (fst sample_st) ch" using sample_wf by blast
  have d: "2 < length (array_d (fst sample_st))" by (simp add: sample_holds)
  have "ch 2 \<noteq> []" using w sample_holds(6) d by (auto simp: dpg_wf_def linked_def)
  with dpg_evict_data_exact [OF id_hash_total w d, of log_ops sample_req 0] show ?thesis by auto
qed

text \<open>\<^verbatim>\<open>remove_tag\<close>, run on the doubly linked lists of a well-linked array, removes exactly that tag from
  the list of its entry, wherever it stands (first, last, middle or alone), frees the entry when the list becomes
  empty, and clears the tag; addresses, entries and maps of all others stay.\<close>

theorem remove_tag_exact:
  assumes "linked s ch" and "d < length (array_d s)" and "ch d = ys @ t # zs"
  shows "\<exists>T D. remove_tag (int t) s = Some (s\<lparr>array_t := T, array_d := D\<rparr>) \<and>
    linked (s\<lparr>array_t := T, array_d := D\<rparr>) (ch(d := ys @ zs)) \<and>
    (\<forall>u. t_addr (T ! u) = (if u = t then -1 else t_addr (array_t s ! u))) \<and>
    (\<forall>u. t_data_id (T ! u) = (if u = t then -1 else t_data_id (array_t s ! u))) \<and>
    (\<forall>e. d_map_value (D ! e) = (if e = d \<and> ys @ zs = [] then -1 else d_map_value (array_d s ! e)))"
  by (rule remove_tag_linked [OF assms])

theorem remove_tag_exact_witness:
  "\<exists>ch ys zs T D. ch 2 = ys @ 2 # zs \<and>
    remove_tag 2 (fst sample_st) = Some (fst sample_st\<lparr>array_t := T, array_d := D\<rparr>) \<and>
    linked (fst sample_st\<lparr>array_t := T, array_d := D\<rparr>) (ch(2 := ys @ zs))"
proof -
  obtain ch where w: "dpg_wf id_hash (fst sample_st) ch" using sample_wf by blast
  then have lk: "linked (fst sample_st) ch" by (simp add: dpg_wf_def)
  then have "2 < length (array_t (fst sample_st))" using sample_holds(5) by (simp add: linked_def)
  then have "2 \<in> set (ch 2)" using linked_used [OF lk] sample_holds(2) by fastforce
  then obtain ys zs where ch: "ch 2 = ys @ 2 # zs" by (auto simp: in_set_conv_decomp)
  have d: "2 < length (array_d (fst sample_st))" by (simp add: sample_holds)
  from remove_tag_exact [OF lk d ch] obtain T D
    where "remove_tag (int 2) (fst sample_st) = Some (fst sample_st\<lparr>array_t := T, array_d := D\<rparr>)"
      "linked (fst sample_st\<lparr>array_t := T, array_d := D\<rparr>) (ch(2 := ys @ zs))" by blast
  with ch show ?thesis by (intro exI [of _ ch]) (rule exI [of _ ys], rule exI [of _ zs], rule exI [of _ T], rule exI [of _ D], simp)
qed

text \<open>Unless an eviction fails in the coherence controller, \<^verbatim>\<open>lookup\<close> with a request returns \<open>-1\<close>
  exactly when no tag in use holds the line, and then changes nothing; otherwise it returns an index, and it always
  leaves a well-formed array.\<close>

theorem dpg_lookup_exact:
  assumes "hash_total hf" and "dpg_reach hf C n ways (s, cc)" and "line \<noteq> -1" and "gm line = Some mp"
    and "\<not> evict_fails C r cyc s cc"
  shows "\<exists>i s' cc'. dpg_lookup hf C dpg_PT dpg_PD gm line (Some r) upd cyc (s, cc) = Some (i, s', cc') \<and>
    (i = -1 \<longleftrightarrow> (\<nexists>t. holds s line t)) \<and> (i = -1 \<longrightarrow> s' = s \<and> cc' = cc) \<and> (\<exists>ch. dpg_wf hf s' ch)"
proof -
  obtain ch where w: "dpg_wf hf s ch" using dpg_reach_wf [OF assms(1,2)] by auto
  from dpg_env.lookup_wf [OF dpg_lru [OF assms(1)], unfolded dpg_wf_env [OF assms(1)], where gm = gm,
      OF w assms(3,4), of C r cyc cc upd] assms(5)
  show ?thesis by (auto simp: outcome_def split: option.splits)
qed

theorem dpg_lookup_exact_witness:
  "\<exists>i s' cc'. dpg_lookup id_hash log_ops dpg_PT dpg_PD (\<lambda>_. Some 7) 5 (Some sample_req) True 0 sample_st = Some (i, s', cc') \<and>
    i \<noteq> -1"
proof -
  from dpg_lookup_exact [OF id_hash_total sample_reach, of 5 "\<lambda>_. Some 7" 7 sample_req 0 True] log_ops_total [of sample_req 0 "fst sample_st" "snd sample_st"]
  have "\<exists>i s' cc'. dpg_lookup id_hash log_ops dpg_PT dpg_PD (\<lambda>_. Some 7) 5 (Some sample_req) True 0 sample_st = Some (i, s', cc') \<and>
    (i = -1 \<longleftrightarrow> (\<nexists>t. holds (fst sample_st) 5 t))" by auto
  then show ?thesis using sample_holds(1) by blast
qed

text \<open>C39: When the value of a held line has changed, \<^verbatim>\<open>lookup\<close> fails only because the coherence controller
  fails, in its present state, when tags in use of this array are evicted one after the other with their own
  addresses and line ids. Otherwise it moves the tag to the entry of the new map and returns its line id, but
  \<^verbatim>\<open>remove_tag\<close> has set the address of the tag to \<open>-1\<close> and nothing restores it: the very next lookup of
  the line misses, whatever its value, while its tag stays in use.\<close>

theorem dpg_lookup_forgets:
  assumes "hash_total hf" and "dpg_wf hf s ch" and "line \<noteq> -1" and "holds s line t"
    and "t_data_id (array_t s ! t) = int d" and "gm line = Some mp" and "mp \<noteq> d_map_value (array_d s ! d)"
  shows "case dpg_lookup hf C dpg_PT dpg_PD gm line (Some r) upd cyc (s, cc) of
      None \<Rightarrow> \<exists>ts. distinct ts \<and> (\<forall>t\<in>set ts. t < numLines s \<and> t_data_id (array_t s ! t) \<noteq> -1) \<and>
        evict_all C r cyc s ts cc = None
    | Some (i, s', cc') \<Rightarrow> i = int (t + numLines s) \<and> t_data_id (array_t s' ! t) \<noteq> -1 \<and>
        dpg_lookup hf C dpg_PT dpg_PD gm' line req' upd' cyc' (s', cc') = Some (-1, s', cc')"
  using lookup_forgets_run [where gm = gm and gm' = gm', OF assms, of C r cyc cc upd req' upd' cyc']
  by (auto simp: outcome_def evict_fails_def split: option.splits)

theorem dpg_lookup_forgets_witness:
  "\<exists>s' cc'. dpg_lookup id_hash log_ops dpg_PT dpg_PD (\<lambda>_. Some 3) 5 (Some sample_req) True 0 sample_st = Some (10, s', cc') \<and>
    dpg_lookup id_hash log_ops dpg_PT dpg_PD (\<lambda>_. Some 3) 5 (Some sample_req) True 0 (s', cc') = Some (-1, s', cc')"
proof -
  obtain ch where w: "dpg_wf id_hash (fst sample_st) ch" using sample_wf by blast
  have "(3::u32) \<noteq> d_map_value (array_d (fst sample_st) ! 2)" by (simp add: sample_holds(3))
  note run = dpg_lookup_forgets [OF id_hash_total w _ sample_holds(1,2), of "\<lambda>_. Some 3", OF _ refl this,
      where r = sample_req and cyc = 0 and upd = True and cc = "snd sample_st" and C = log_ops and gm' = "\<lambda>_. Some 3"
        and req' = "Some sample_req" and upd' = True and cyc' = 0]
  have "dpg_lookup id_hash log_ops dpg_PT dpg_PD (\<lambda>_. Some 3) 5 (Some sample_req) True 0 (fst sample_st, snd sample_st) \<noteq> None"
    by code_simp
  with run sample_holds(5) show ?thesis by (auto split: option.splits)
qed

subsection \<open>The lookup of an invalidation\<close>

definition full_st :: "lru dpg \<times> (address \<times> nat) list" where
  "full_st = the (sample_insert 1 9 sample_one \<bind> sample_insert 2 4)"

lemma full_reach: "dpg_reach id_hash log_ops 8 2 full_st"
proof -
  have "sample_insert 1 9 sample_one \<noteq> None" by code_simp
  then obtain st where st: "sample_insert 1 9 sample_one = Some st" by blast
  have full: "full_st = the (sample_insert 2 4 (the (sample_insert 1 9 sample_one)))" by (simp add: full_st_def st)
  have r: "dpg_reach id_hash log_ops 8 2 (the (sample_insert 1 9 sample_one))"
    by (rule reach_sample_insert [OF sample_one_reach, where line = 9 and mp = 1]) (code_simp, code_simp, simp add: st)
  show ?thesis unfolding full
  proof (rule reach_sample_insert [OF r, where line = 4 and mp = 2])
    have "sample_insert 2 4 (the (sample_insert 1 9 sample_one)) \<noteq> None" by code_simp
    then show "sample_insert 2 4 (the (sample_insert 1 9 sample_one)) =
      Some (the (sample_insert 2 4 (the (sample_insert 1 9 sample_one))))" by auto
  qed code_simp+
qed

text \<open>\<^verbatim>\<open>finishInvalidate\<close> looks the line up with a null request and a null controller: there is a reachable
  array and a held line whose changed value needs an eviction, so that the null request is dereferenced.\<close>

theorem dpg_invalidate_null:
  "\<exists>st line gm mp. dpg_reach id_hash log_ops 8 2 st \<and> line \<noteq> -1 \<and> gm line = Some mp \<and> (\<exists>t. holds (fst st) line t) \<and>
    dpg_lookup id_hash log_ops dpg_PT dpg_PD gm line None False 0 st = None"
proof (rule exI [of _ full_st], rule exI [of _ 4], rule exI [of _ "\<lambda>_. Some 3"], rule exI [of _ 3], intro conjI full_reach refl)
  show "(4::address) \<noteq> -1" by code_simp
  have "holds (fst full_st) 4 0" by code_simp
  then show "\<exists>t. holds (fst full_st) 4 t" by blast
  show "dpg_lookup id_hash log_ops dpg_PT dpg_PD (\<lambda>_. Some 3) 4 None False 0 full_st = None" by code_simp
qed

end
