(* ===== verification/Filter_Cache.thy ===== *)
theory Filter_Cache imports Mem_Hierarchy begin

text \<open>
  The filter of \<^verbatim>\<open>zsim/src/filter_cache.h\<close>: a direct-mapped array in front of the terminal cache of a
  core, with the most recently used line of each set. A load or store that hits in it does not access
  the cache. \<open>pm\<close> is \<^verbatim>\<open>procMask\<close>; the filter holds virtual line addresses.
\<close>

record FilterEntry =
  rdAddr :: address
  wrAddr :: address
  availCycle :: u64

record FilterCache =
  filterArray :: "FilterEntry list"
  fc_setMask :: address
  fc_numSets :: nat
  fc_srcId :: u32
  reqFlags :: u32
  fGETSHit :: u64
  fGETXHit :: u64

definition FilterEntry_clear :: FilterEntry where
  "FilterEntry_clear = \<lparr>rdAddr = 0, wrAddr = 0, availCycle = 0\<rparr>"

definition fc_new :: "u32 \<Rightarrow> FilterCache" where
  "fc_new numSets = \<lparr>filterArray = replicate (unat numSets) FilterEntry_clear, fc_setMask = ucast (numSets - 1),
     fc_numSets = unat numSets, fc_srcId = -1, reqFlags = 0, fGETSHit = 0, fGETXHit = 0\<rparr>"

definition setSourceId :: "u32 \<Rightarrow> FilterCache \<Rightarrow> FilterCache" where
  "setSourceId i f = f\<lparr>fc_srcId := i\<rparr>"

definition setFlags :: "u32 \<Rightarrow> FilterCache \<Rightarrow> FilterCache" where
  "setFlags fl f = f\<lparr>reqFlags := fl\<rparr>"

definition fc_index :: "FilterCache \<Rightarrow> address \<Rightarrow> nat" where
  "fc_index f line = unat (ucast (line AND fc_setMask f) :: u32)"

text \<open>The part of \<^verbatim>\<open>replace\<close> after the access, and the part of \<^verbatim>\<open>invalidate\<close> before the cache's.\<close>

definition fc_fill :: "address \<Rightarrow> nat \<Rightarrow> bool \<Rightarrow> u64 \<Rightarrow> FilterCache \<Rightarrow> FilterCache option" where
  "fc_fill vLineAddr idx isLoad respCycle f = do {
     e \<leftarrow> read_at (filterArray f) idx;
     let oldAddr = rdAddr e;
     let e = e\<lparr>wrAddr := (if isLoad then -1 else vLineAddr), rdAddr := vLineAddr\<rparr>;
     let e = (if oldAddr \<noteq> vLineAddr then e\<lparr>availCycle := respCycle\<rparr> else e);
     a \<leftarrow> write_at (filterArray f) idx e;
     Some (f\<lparr>filterArray := a\<rparr>)
   }"

definition fc_invalidate :: "u64 \<Rightarrow> address \<Rightarrow> FilterCache \<Rightarrow> FilterCache option" where
  "fc_invalidate pm line f = do {
     let idx = fc_index f line;
     e \<leftarrow> read_at (filterArray f) idx;
     (if rdAddr e OR pm = line then do {
        a \<leftarrow> write_at (filterArray f) idx (e\<lparr>wrAddr := -1, rdAddr := -1\<rparr>);
        Some (f\<lparr>filterArray := a\<rparr>)
      } else Some f)
   }"

definition contextSwitch :: "FilterCache \<Rightarrow> FilterCache" where
  "contextSwitch f = f\<lparr>filterArray := map (\<lambda>_. FilterEntry_clear) (filterArray f)\<rparr>"

subsection \<open>What the filter holds\<close>

text \<open>A load, or a store, of the line \<open>v\<close> hits.\<close>

definition rd_hit :: "FilterCache \<Rightarrow> address \<Rightarrow> bool" where
  "rd_hit f v \<longleftrightarrow> fc_index f v < length (filterArray f) \<and> rdAddr (filterArray f ! fc_index f v) = v"

definition wr_hit :: "FilterCache \<Rightarrow> address \<Rightarrow> bool" where
  "wr_hit f v \<longleftrightarrow> fc_index f v < length (filterArray f) \<and> wrAddr (filterArray f ! fc_index f v) = v"

definition fc_ok :: "FilterCache \<Rightarrow> bool" where
  "fc_ok f \<longleftrightarrow> length (filterArray f) = fc_numSets f \<and> 0 < fc_numSets f \<and> fc_numSets f < 2 ^ 32 \<and>
     unat (fc_setMask f) = fc_numSets f - 1 \<and> (\<forall>e\<in>set (filterArray f). wrAddr e = rdAddr e \<or> wrAddr e = -1)"

text \<open>Line addresses of a process.\<close>

definition proc_line :: "u64 \<Rightarrow> address \<Rightarrow> bool" where
  "proc_line pm v \<longleftrightarrow> pm AND v = 0 \<and> pm AND 0xffffffff = 0 \<and> v \<noteq> -1"

lemma fc_index_less:
  assumes "fc_ok f"
  shows "fc_index f line < length (filterArray f)"
proof -
  have "unat (line AND fc_setMask f) \<le> unat (fc_setMask f)"
    using word_and_le1 [of line "fc_setMask f"] by (simp add: word_le_nat_alt)
  moreover have "unat (fc_setMask f) = fc_numSets f - 1" "0 < fc_numSets f" "fc_numSets f < 2 ^ 32"
    using assms by (simp_all add: fc_ok_def)
  ultimately have m: "unat (line AND fc_setMask f) < fc_numSets f" "unat (line AND fc_setMask f) < 2 ^ 32" by linarith+
  then have "fc_index f line = unat (line AND fc_setMask f)"
    using m(2) by (simp add: fc_index_def unsigned_ucast_eq take_bit_eq_mod)
  with m(1) assms show ?thesis by (simp add: fc_ok_def)
qed

lemma low_mask: "unat (m::u64) < 2 ^ 32 \<Longrightarrow> m AND 0xffffffff = m"
proof -
  assume m: "unat m < 2 ^ 32"
  have "m AND 0xffffffff = take_bit 32 m" by (simp add: take_bit_eq_mask mask_eq_exp_minus_1)
  also have "\<dots> = m"
  proof (rule word_unat_eq_iff [THEN iffD2])
    show "unat (take_bit 32 m) = unat m" by (simp only: unsigned_take_bit_eq) (rule take_bit_nat_eq_self, use m in simp)
  qed
  finally show ?thesis .
qed

lemma fc_index_proc:
  assumes "fc_ok f" and pm: "pm AND 0xffffffff = 0"
  shows "fc_index f (pm OR v) = fc_index f v"
proof -
  have "unat (fc_setMask f) = fc_numSets f - 1" "fc_numSets f < 2 ^ 32" using assms(1) by (simp_all add: fc_ok_def)
  then have "unat (fc_setMask f) < 2 ^ 32" by linarith
  then have "fc_setMask f = 0xffffffff AND fc_setMask f" using low_mask [of "fc_setMask f"] by (simp add: and.commute)
  then have "pm AND fc_setMask f = (pm AND 0xffffffff) AND fc_setMask f" by (metis and.assoc)
  also have "\<dots> = 0" by (simp add: pm)
  finally show ?thesis by (simp add: fc_index_def bit.conj_disj_distrib2)
qed

lemma or_pm_inj:
  assumes "pm AND v = 0" and "pm AND w = 0"
  shows "pm OR v = pm OR w \<longleftrightarrow> v = (w::u64)"
proof
  assume "pm OR v = pm OR w"
  moreover have "(pm OR v) AND NOT pm = v AND NOT pm" "(pm OR w) AND NOT pm = w AND NOT pm"
    by (simp_all add: bit.conj_disj_distrib2)
  moreover have "x AND NOT pm = x" if "pm AND x = 0" for x
  proof -
    have "x = (x AND pm) OR (x AND NOT pm)" by (simp add: bit.conj_disj_distrib [symmetric])
    with that show ?thesis by (simp add: and.commute)
  qed
  ultimately show "v = w" using assms by metis
qed simp

subsection \<open>Filling and invalidating\<close>

text \<open>What no access changes.\<close>

definition fc_shape :: "FilterCache \<Rightarrow> address \<times> u32 \<times> u32" where
  "fc_shape f = (fc_setMask f, fc_srcId f, reqFlags f)"

lemma fc_shape_index: "fc_shape f = fc_shape g \<Longrightarrow> fc_index f = fc_index g"
  by (simp add: fc_shape_def fc_index_def fun_eq_iff)

lemma fc_shape_fill: "fc_fill v i isLoad r f = Some f' \<Longrightarrow> fc_shape f' = fc_shape f"
  by (auto simp: fc_fill_def fc_shape_def Let_def bind_eq_Some_conv)

lemma fc_shape_invalidate: "fc_invalidate pm line f = Some f' \<Longrightarrow> fc_shape f' = fc_shape f"
  by (auto simp: fc_invalidate_def fc_shape_def Let_def bind_eq_Some_conv split: if_splits)

lemma fc_ok_upd: "fc_ok f \<Longrightarrow> wrAddr e = rdAddr e \<or> wrAddr e = -1 \<Longrightarrow> fc_ok (f\<lparr>filterArray := (filterArray f)[i := e]\<rparr>)"
  by (auto simp: fc_ok_def dest!: set_update_subset_insert [THEN subsetD])

lemma fc_index_upd [simp]: "fc_index (f\<lparr>filterArray := a\<rparr>) = fc_index f"
  by (simp add: fc_index_def fun_eq_iff)

lemma wr_rd_hit: "fc_ok f \<Longrightarrow> wr_hit f v \<Longrightarrow> v \<noteq> -1 \<Longrightarrow> rd_hit f v"
  by (auto simp: fc_ok_def wr_hit_def rd_hit_def) (metis nth_mem)

lemma fc_fill_run:
  assumes ok: "fc_ok f"
  shows "\<exists>f'. fc_fill v (fc_index f v) isLoad r f = Some f' \<and> fc_ok f' \<and> fc_index f' = fc_index f \<and> fc_setMask f' = fc_setMask f \<and>
    (\<forall>w. rd_hit f' w \<longrightarrow> w = v \<or> rd_hit f w \<and> fc_index f w \<noteq> fc_index f v) \<and>
    (\<forall>w. wr_hit f' w \<longrightarrow> w = -1 \<or> w = v \<and> \<not> isLoad \<or> wr_hit f w \<and> fc_index f w \<noteq> fc_index f v)"
proof -
  note i = fc_index_less [OF ok, of v]
  let ?e = "filterArray f ! fc_index f v"
  define e where "e = (if rdAddr ?e \<noteq> v then ?e\<lparr>wrAddr := (if isLoad then -1 else v), rdAddr := v, availCycle := r\<rparr>
    else ?e\<lparr>wrAddr := (if isLoad then -1 else v), rdAddr := v\<rparr>)"
  have run: "fc_fill v (fc_index f v) isLoad r f = Some (f\<lparr>filterArray := (filterArray f)[fc_index f v := e]\<rparr>)"
    using i by (simp add: fc_fill_def read_at_in write_at_in Let_def e_def del: read_at_Some write_at_Some)
  have e: "rdAddr e = v" "wrAddr e = (if isLoad then -1 else v)" by (simp_all add: e_def)
  have "fc_ok (f\<lparr>filterArray := (filterArray f)[fc_index f v := e]\<rparr>)" by (rule fc_ok_upd [OF ok]) (simp add: e)
  with run i e show ?thesis
    by (intro exI [of _ "f\<lparr>filterArray := (filterArray f)[fc_index f v := e]\<rparr>"])
      (auto simp: rd_hit_def wr_hit_def nth_list_update)
qed

lemma fc_invalidate_run:
  assumes ok: "fc_ok f"
  shows "\<exists>f'. fc_invalidate pm line f = Some f' \<and> fc_ok f' \<and> fc_index f' = fc_index f \<and> fc_setMask f' = fc_setMask f \<and>
    (\<forall>w. w \<noteq> -1 \<longrightarrow> rd_hit f' w \<longrightarrow> rd_hit f w \<and> (fc_index f w = fc_index f line \<longrightarrow> w OR pm \<noteq> line)) \<and>
    (\<forall>w. w \<noteq> -1 \<longrightarrow> wr_hit f' w \<longrightarrow> wr_hit f w)"
proof (cases "rdAddr (filterArray f ! fc_index f line) OR pm = line")
  case True
  note i = fc_index_less [OF ok, of line]
  let ?e = "(filterArray f ! fc_index f line)\<lparr>wrAddr := -1, rdAddr := -1\<rparr>"
  have run: "fc_invalidate pm line f = Some (f\<lparr>filterArray := (filterArray f)[fc_index f line := ?e]\<rparr>)"
    using True i by (simp add: fc_invalidate_def read_at_in write_at_in Let_def del: read_at_Some write_at_Some)
  have "fc_ok (f\<lparr>filterArray := (filterArray f)[fc_index f line := ?e]\<rparr>)" by (rule fc_ok_upd [OF ok]) simp
  with run i show ?thesis
    by (intro exI [of _ "f\<lparr>filterArray := (filterArray f)[fc_index f line := ?e]\<rparr>"])
      (auto simp: rd_hit_def wr_hit_def nth_list_update split: if_splits)
next
  case False
  note i = fc_index_less [OF ok, of line]
  have "fc_invalidate pm line f = Some f"
    using False i by (simp add: fc_invalidate_def read_at_in Let_def del: read_at_Some)
  with ok False show ?thesis by (intro exI [of _ f]) (auto simp: rd_hit_def)
qed

lemma fc_ok_switch: "fc_ok f \<Longrightarrow> fc_ok (contextSwitch f)"
  by (auto simp: fc_ok_def contextSwitch_def FilterEntry_clear_def)

lemma fc_shape_switch: "fc_shape (contextSwitch f) = fc_shape f"
  by (simp add: fc_shape_def contextSwitch_def)

lemma hit_switch: "rd_hit (contextSwitch f) v \<Longrightarrow> v = 0" "wr_hit (contextSwitch f) v \<Longrightarrow> v = 0"
  by (auto simp: rd_hit_def wr_hit_def contextSwitch_def FilterEntry_clear_def)

lemma fc_new_ok:
  assumes "0 < numSets"
  shows "fc_ok (fc_new numSets)"
proof -
  have "0 < unat numSets" using assms by (simp add: unat_gt_0)
  moreover have "unat numSets < 2 ^ 32" using unsigned_less [of numSets] by simp
  moreover have "unat (ucast (numSets - 1) :: u64) = unat (numSets - 1)" by (rule unat_widen) simp
  moreover have "unat (numSets - 1) = unat numSets - 1" using assms by (intro unat_minus_one) auto
  ultimately show ?thesis by (auto simp: fc_ok_def fc_new_def FilterEntry_clear_def)
qed

lemma hit_new: "rd_hit (fc_new m) v \<Longrightarrow> v = 0" "wr_hit (fc_new m) v \<Longrightarrow> v = 0"
  by (auto simp: rd_hit_def wr_hit_def fc_new_def FilterEntry_clear_def)

end
