(* ===== verification/Coherence.thy ===== *)
theory Coherence imports Doppelganger Filter_Cache begin

text \<open>
  The coherence controllers of \<^verbatim>\<open>zsim/src/coherence_ctrls.h\<close> and \<^verbatim>\<open>coherence_ctrls.cpp\<close>: the bottom
  controller with the MESI states of a cache's lines, the top controller with the directory of its
  children, and the two controllers made of them, \<^verbatim>\<open>MESICC\<close> (a top and a bottom) and
  \<^verbatim>\<open>MESITerminalCC\<close> (a bottom only).

  The objects of a memory hierarchy live in a heap, a list of caches and memories, and a pointer to an
  object is its index: a request a cache sends to its parent may come back as an invalidation of the
  cache that sent it. \<open>ac\<close> and \<open>iv\<close> are the virtual methods \<^verbatim>\<open>access\<close> and \<^verbatim>\<open>invalidate\<close> of the
  objects, \<open>self\<close> is \<^verbatim>\<open>this\<close>. A pointer to a state or to a flag of the caller is passed as its value
  and its last value is returned. The locks are not modelled: an access runs to its end before the next
  one starts.
\<close>

subsection \<open>Objects\<close>

record bcc_prof =
  profGETSHit :: u64
  profGETSMiss :: u64
  profGETXHit :: u64
  profGETXMissIM :: u64
  profGETXMissSM :: u64
  profPUTS :: u64
  profPUTX :: u64
  profINV :: u64
  profINVX :: u64
  profFWD :: u64
  profGETNextLevelLat :: u64
  profGETNetLat :: u64

record MESIBottomCC =
  bc_array :: "MESIState list"
  bc_parents :: "nat list"
  bc_parentRTTs :: "u32 list"
  bc_numLines :: nat
  bc_selfId :: nat
  bc_nonInclusiveHack :: bool
  bc_prof :: bcc_prof

record Entry =
  numSharers :: u32
  sharers :: "bool list"
  exclusive :: bool

record MESITopCC =
  tc_array :: "Entry list"
  tc_children :: "nat list"
  tc_childrenRTTs :: "u32 list"
  tc_numLines :: nat
  tc_nonInclusiveHack :: bool

text \<open>A cache whose \<open>c_tcc\<close> is \<open>None\<close> has a \<^verbatim>\<open>MESITerminalCC\<close>; the others have a \<^verbatim>\<open>MESICC\<close>. The last
  level cache has a Doppelganger array beside its array (\<^verbatim>\<open>array_dpg\<close>, and \<^verbatim>\<open>cc_dpg\<close>, which is the same
  controller as \<^verbatim>\<open>cc\<close>). The terminal caches are \<^verbatim>\<open>FilterCache\<close>s.\<close>

record 'a Cache =
  c_array :: 'a
  c_array_dpg :: "lru dpg option"
  c_tcc :: "MESITopCC option"
  c_bcc :: MESIBottomCC
  c_accLat :: u32
  c_invLat :: u32
  c_filter :: "FilterCache option"

datatype 'a MemObject = CacheObj "'a Cache" | SimpleMemory u32

type_synonym 'a heap = "'a MemObject list"

type_synonym 'a access_fn = "nat \<Rightarrow> MemReq \<Rightarrow> 'a heap \<Rightarrow> (u64 \<times> MESIState \<times> 'a heap) option"
type_synonym 'a invalidate_fn = "nat \<Rightarrow> InvReq \<Rightarrow> 'a heap \<Rightarrow> (u64 \<times> bool \<times> 'a heap) option"

definition MAX_CACHE_CHILDREN :: nat where
  "MAX_CACHE_CHILDREN = 256"

definition the_cache :: "'a heap \<Rightarrow> nat \<Rightarrow> 'a Cache option" where
  "the_cache h self = (case read_at h self of Some (CacheObj c) \<Rightarrow> Some c | _ \<Rightarrow> None)"

definition mod_cache :: "nat \<Rightarrow> ('a Cache \<Rightarrow> 'a Cache) \<Rightarrow> 'a heap \<Rightarrow> 'a heap option" where
  "mod_cache self f h = do {
     c \<leftarrow> the_cache h self;
     Some (h[self := CacheObj (f c)])
   }"

definition get_state :: "nat \<Rightarrow> nat \<Rightarrow> 'a heap \<Rightarrow> MESIState option" where
  "get_state self lineId h = do {
     c \<leftarrow> the_cache h self;
     read_at (bc_array (c_bcc c)) lineId
   }"

definition put_state :: "nat \<Rightarrow> nat \<Rightarrow> MESIState \<Rightarrow> 'a heap \<Rightarrow> 'a heap option" where
  "put_state self lineId st h = do {
     c \<leftarrow> the_cache h self;
     a \<leftarrow> write_at (bc_array (c_bcc c)) lineId st;
     Some (h[self := CacheObj (c\<lparr>c_bcc := (c_bcc c)\<lparr>bc_array := a\<rparr>\<rparr>)])
   }"

text \<open>\<^verbatim>\<open>Counter::inc\<close>, on the field whose update function is \<open>f\<close>.\<close>

definition prof_inc :: "((u64 \<Rightarrow> u64) \<Rightarrow> bcc_prof \<Rightarrow> bcc_prof) \<Rightarrow> u64 \<Rightarrow> nat \<Rightarrow> 'a heap \<Rightarrow> 'a heap option" where
  "prof_inc f n self h =
     mod_cache self (\<lambda>c. c\<lparr>c_bcc := (c_bcc c)\<lparr>bc_prof := f (\<lambda>x. x + n) (bc_prof (c_bcc c))\<rparr>\<rparr>) h"

definition get_tcc :: "nat \<Rightarrow> 'a heap \<Rightarrow> MESITopCC option" where
  "get_tcc self h = do {
     c \<leftarrow> the_cache h self;
     c_tcc c
   }"

definition get_entry :: "nat \<Rightarrow> nat \<Rightarrow> 'a heap \<Rightarrow> Entry option" where
  "get_entry self lineId h = do {
     t \<leftarrow> get_tcc self h;
     read_at (tc_array t) lineId
   }"

definition mod_entry :: "nat \<Rightarrow> nat \<Rightarrow> (Entry \<Rightarrow> Entry) \<Rightarrow> 'a heap \<Rightarrow> 'a heap option" where
  "mod_entry self lineId f h = do {
     c \<leftarrow> the_cache h self;
     t \<leftarrow> c_tcc c;
     e \<leftarrow> read_at (tc_array t) lineId;
     Some (h[self := CacheObj (c\<lparr>c_tcc := Some (t\<lparr>tc_array := (tc_array t)[lineId := f e]\<rparr>)\<rparr>)])
   }"

subsection \<open>Construction\<close>

definition no_prof :: bcc_prof where
  "no_prof = \<lparr>profGETSHit = 0, profGETSMiss = 0, profGETXHit = 0, profGETXMissIM = 0, profGETXMissSM = 0,
     profPUTS = 0, profPUTX = 0, profINV = 0, profINVX = 0, profFWD = 0, profGETNextLevelLat = 0, profGETNetLat = 0\<rparr>"

definition bcc_new :: "nat \<Rightarrow> nat \<Rightarrow> bool \<Rightarrow> MESIBottomCC" where
  "bcc_new nLines selfId hack = \<lparr>bc_array = replicate nLines StI, bc_parents = [], bc_parentRTTs = [],
     bc_numLines = nLines, bc_selfId = selfId, bc_nonInclusiveHack = hack, bc_prof = no_prof\<rparr>"

text \<open>\<^verbatim>\<open>init\<close>; \<open>rtt\<close> is the network's latency to an object, if there is a network.\<close>

definition bcc_init :: "nat list \<Rightarrow> (nat \<Rightarrow> u32) option \<Rightarrow> MESIBottomCC \<Rightarrow> MESIBottomCC" where
  "bcc_init parents rtt b = b\<lparr>bc_parents := parents,
     bc_parentRTTs := map (case rtt of None \<Rightarrow> \<lambda>_. 0 | Some f \<Rightarrow> f) parents\<rparr>"

definition Entry_clear :: Entry where
  "Entry_clear = \<lparr>numSharers = 0, sharers = replicate MAX_CACHE_CHILDREN False, exclusive = False\<rparr>"

definition isEmpty :: "Entry \<Rightarrow> bool" where
  "isEmpty e \<longleftrightarrow> numSharers e = 0"

definition isExclusive :: "Entry \<Rightarrow> bool" where
  "isExclusive e \<longleftrightarrow> numSharers e = 1 \<and> exclusive e"

definition tcc_new :: "nat \<Rightarrow> bool \<Rightarrow> MESITopCC" where
  "tcc_new nLines hack = \<lparr>tc_array = replicate nLines Entry_clear, tc_children = [], tc_childrenRTTs = [],
     tc_numLines = nLines, tc_nonInclusiveHack = hack\<rparr>"

definition tcc_init :: "nat list \<Rightarrow> (nat \<Rightarrow> u32) option \<Rightarrow> MESITopCC \<Rightarrow> MESITopCC option" where
  "tcc_init children rtt t = do {
     assert_that (length children \<le> MAX_CACHE_CHILDREN);
     Some (t\<lparr>tc_children := children,
       tc_childrenRTTs := map (case rtt of None \<Rightarrow> \<lambda>_. 0 | Some f \<Rightarrow> f) children\<rparr>)
   }"

subsection \<open>The bottom controller\<close>

fun parent_hash :: "nat \<Rightarrow> u64 \<Rightarrow> u32 \<Rightarrow> u32" where
  "parent_hash 0 tmp res = res"
| "parent_hash (Suc n) tmp res = parent_hash n (drop_bit 16 tmp) (res XOR ucast (0xffff AND tmp))"

definition getParentId :: "MESIBottomCC \<Rightarrow> address \<Rightarrow> nat option" where
  "getParentId b line = do {
     assert_that (bc_parents b \<noteq> []);
     Some (unat (parent_hash 4 line 0) mod length (bc_parents b))
   }"

text \<open>A request to the parent of a line; \<open>state\<close> points to the state of line \<open>lineId\<close>.\<close>

definition bcc_request :: "'a access_fn \<Rightarrow> nat \<Rightarrow> address \<Rightarrow> nat \<Rightarrow> AccessType \<Rightarrow> u64 \<Rightarrow> u32 \<Rightarrow> u32 \<Rightarrow>
    'a heap \<Rightarrow> (u64 \<times> 'a heap) option" where
  "bcc_request ac self line lineId type cyc src fl h = do {
     c \<leftarrow> the_cache h self;
     st \<leftarrow> get_state self lineId h;
     p \<leftarrow> getParentId (c_bcc c) line;
     parent \<leftarrow> read_at (bc_parents (c_bcc c)) p;
     (respCycle, st', h) \<leftarrow> ac parent \<lparr>lineAddr = line, req_type = type, childId = bc_selfId (c_bcc c),
        req_state = st, req_cycle = cyc, initialState = st, srcId = src, flags = fl\<rparr> h;
     h \<leftarrow> put_state self lineId st' h;
     Some (respCycle, h)
   }"

definition bcc_processEviction :: "'a access_fn \<Rightarrow> nat \<Rightarrow> address \<Rightarrow> nat \<Rightarrow> bool \<Rightarrow> u64 \<Rightarrow> u32 \<Rightarrow>
    'a heap \<Rightarrow> (u64 \<times> 'a heap) option" where
  "bcc_processEviction ac self wbLineAddr lineId lowerLevelWriteback cyc src h = do {
     st \<leftarrow> get_state self lineId h;
     h \<leftarrow> (if lowerLevelWriteback then do {
             assert_that (st = StM \<or> st = StE);
             put_state self lineId StM h
           } else Some h);
     st \<leftarrow> get_state self lineId h;
     (respCycle, h) \<leftarrow> (case st of
         StI \<Rightarrow> Some (cyc, h)
       | StM \<Rightarrow> bcc_request ac self wbLineAddr lineId PUTX cyc src 0 h
       | _ \<Rightarrow> bcc_request ac self wbLineAddr lineId PUTS cyc src 0 h);
     st \<leftarrow> get_state self lineId h;
     assert_that (st = StI);
     Some (respCycle, h)
   }"

text \<open>A miss: the line is fetched from the parent, the latencies are 32-bit values.\<close>

definition bcc_fetch :: "'a access_fn \<Rightarrow> nat \<Rightarrow> address \<Rightarrow> nat \<Rightarrow> AccessType \<Rightarrow> u64 \<Rightarrow> u32 \<Rightarrow> u32 \<Rightarrow>
    'a heap \<Rightarrow> (u64 \<times> 'a heap) option" where
  "bcc_fetch ac self line lineId type cyc src fl h = do {
     c \<leftarrow> the_cache h self;
     p \<leftarrow> getParentId (c_bcc c) line;
     netLat \<leftarrow> read_at (bc_parentRTTs (c_bcc c)) p;
     (resp, h) \<leftarrow> bcc_request ac self line lineId type cyc src fl h;
     let nextLevelLat = (ucast (resp - cyc) :: u32);
     h \<leftarrow> prof_inc profGETNextLevelLat_update (ucast nextLevelLat) self h;
     h \<leftarrow> prof_inc profGETNetLat_update (ucast netLat) self h;
     Some (cyc + ucast (nextLevelLat + netLat), h)
   }"

definition bcc_processAccess :: "'a access_fn \<Rightarrow> nat \<Rightarrow> address \<Rightarrow> nat \<Rightarrow> AccessType \<Rightarrow> u64 \<Rightarrow> u32 \<Rightarrow> u32 \<Rightarrow>
    'a heap \<Rightarrow> (u64 \<times> 'a heap) option" where
  "bcc_processAccess ac self line lineId type cyc src fl h = do {
     st \<leftarrow> get_state self lineId h;
     (respCycle, h) \<leftarrow> (case type of
         PUTS \<Rightarrow> do {
           assert_that (st \<noteq> StI);
           h \<leftarrow> prof_inc profPUTS_update 1 self h;
           Some (cyc, h)
         }
       | PUTX \<Rightarrow> do {
           assert_that (st = StM \<or> st = StE);
           h \<leftarrow> (if st = StE then put_state self lineId StM h else Some h);
           h \<leftarrow> prof_inc profPUTX_update 1 self h;
           Some (cyc, h)
         }
       | GETS \<Rightarrow>
           (if st = StI then do {
              (respCycle, h) \<leftarrow> bcc_fetch ac self line lineId GETS cyc src fl h;
              h \<leftarrow> prof_inc profGETSMiss_update 1 self h;
              st \<leftarrow> get_state self lineId h;
              assert_that (st = StS \<or> st = StE);
              Some (respCycle, h)
            } else do {
              h \<leftarrow> prof_inc profGETSHit_update 1 self h;
              Some (cyc, h)
            })
       | GETX \<Rightarrow> do {
           (respCycle, h) \<leftarrow>
             (if st = StI \<or> st = StS then do {
                h \<leftarrow> prof_inc (if st = StI then profGETXMissIM_update else profGETXMissSM_update) 1 self h;
                bcc_fetch ac self line lineId GETX cyc src fl h
              } else do {
                h \<leftarrow> (if st = StE then put_state self lineId StM h else Some h);
                h \<leftarrow> prof_inc profGETXHit_update 1 self h;
                Some (cyc, h)
              });
           st \<leftarrow> get_state self lineId h;
           assert_that (st = StM);
           Some (respCycle, h)
         });
     assert_that (respCycle \<ge> cyc);
     Some (respCycle, h)
   }"

definition bcc_processWritebackOnAccess :: "nat \<Rightarrow> nat \<Rightarrow> 'a heap \<Rightarrow> 'a heap option" where
  "bcc_processWritebackOnAccess self lineId h = do {
     st \<leftarrow> get_state self lineId h;
     assert_that (st = StM \<or> st = StE);
     (if st = StE then put_state self lineId StM h else Some h)
   }"

definition bcc_processInval :: "nat \<Rightarrow> nat \<Rightarrow> InvType \<Rightarrow> bool \<Rightarrow> 'a heap \<Rightarrow> (bool \<times> 'a heap) option" where
  "bcc_processInval self lineId type wb h = do {
     st \<leftarrow> get_state self lineId h;
     assert_that (st \<noteq> StI);
     (case type of
        INVX \<Rightarrow> do {
          assert_that (st = StE \<or> st = StM);
          h \<leftarrow> put_state self lineId StS h;
          h \<leftarrow> prof_inc profINVX_update 1 self h;
          Some (wb \<or> st = StM, h)
        }
      | INV \<Rightarrow> do {
          h \<leftarrow> put_state self lineId StI h;
          h \<leftarrow> prof_inc profINV_update 1 self h;
          Some (wb \<or> st = StM, h)
        }
      | FWD \<Rightarrow> do {
          assert_that (st = StS);
          h \<leftarrow> prof_inc profFWD_update 1 self h;
          Some (wb, h)
        })
   }"

text \<open>A writeback of a line the cache does not have is forwarded; its state stays the child's.\<close>

definition bcc_processNonInclusiveWriteback :: "'a access_fn \<Rightarrow> nat \<Rightarrow> address \<Rightarrow> AccessType \<Rightarrow> u64 \<Rightarrow> MESIState \<Rightarrow>
    u32 \<Rightarrow> u32 \<Rightarrow> 'a heap \<Rightarrow> (u64 \<times> MESIState \<times> 'a heap) option" where
  "bcc_processNonInclusiveWriteback ac self line type cyc st src fl h = do {
     c \<leftarrow> the_cache h self;
     assert_that (bc_nonInclusiveHack (c_bcc c));
     p \<leftarrow> getParentId (c_bcc c) line;
     parent \<leftarrow> read_at (bc_parents (c_bcc c)) p;
     ac parent \<lparr>lineAddr = line, req_type = type, childId = bc_selfId (c_bcc c), req_state = st,
       req_cycle = cyc, initialState = st, srcId = src, flags = fl OR flag_bits NONINCLWB\<rparr> h
   }"

subsection \<open>The top controller\<close>

text \<open>The loop of \<^verbatim>\<open>sendInvalidates\<close> over the children: the flag of the writeback, the latest response,
  the invalidations sent.\<close>

fun invs_loop :: "'a invalidate_fn \<Rightarrow> nat \<Rightarrow> address \<Rightarrow> nat \<Rightarrow> InvType \<Rightarrow> u64 \<Rightarrow> u32 \<Rightarrow> nat \<Rightarrow> nat \<Rightarrow>
    bool \<times> u64 \<times> u32 \<times> 'a heap \<Rightarrow> (bool \<times> u64 \<times> u32 \<times> 'a heap) option" where
  "invs_loop iv self line lineId type cyc src c 0 st = Some st"
| "invs_loop iv self line lineId type cyc src c (Suc n) (wb, maxCycle, sentInvs, h) = do {
     e \<leftarrow> get_entry self lineId h;
     shares \<leftarrow> read_at (sharers e) c;
     (if shares then do {
        t \<leftarrow> get_tcc self h;
        child \<leftarrow> read_at (tc_children t) c;
        rtt \<leftarrow> read_at (tc_childrenRTTs t) c;
        (respCycle, wb, h) \<leftarrow> iv child \<lparr>inv_lineAddr = line, inv_type = type, inv_writeback = wb,
           inv_cycle = cyc, inv_srcId = src\<rparr> h;
        let respCycle = respCycle + ucast rtt;
        h \<leftarrow> (if type = INV then mod_entry self lineId (\<lambda>e. e\<lparr>sharers := (sharers e)[c := False]\<rparr>) h else Some h);
        invs_loop iv self line lineId type cyc src (Suc c) n (wb, MAX2 respCycle maxCycle, sentInvs + 1, h)
      } else invs_loop iv self line lineId type cyc src (Suc c) n (wb, maxCycle, sentInvs, h))
   }"

definition sendInvalidates :: "'a invalidate_fn \<Rightarrow> nat \<Rightarrow> address \<Rightarrow> nat \<Rightarrow> InvType \<Rightarrow> bool \<Rightarrow> u64 \<Rightarrow> u32 \<Rightarrow>
    'a heap \<Rightarrow> (u64 \<times> bool \<times> 'a heap) option" where
  "sendInvalidates iv self line lineId type wb cyc src h = do {
     e \<leftarrow> get_entry self lineId h;
     (if type = INVX \<and> \<not> isExclusive e then Some (cyc, wb, h)
      else if isEmpty e then Some (cyc, wb, h)
      else do {
        t \<leftarrow> get_tcc self h;
        (wb, maxCycle, sentInvs, h) \<leftarrow>
          invs_loop iv self line lineId type cyc src 0 (length (tc_children t)) (wb, cyc, 0, h);
        e \<leftarrow> get_entry self lineId h;
        assert_that (sentInvs = numSharers e);
        h \<leftarrow> (if type = INV then mod_entry self lineId (\<lambda>e. e\<lparr>numSharers := 0\<rparr>) h
             else do {
               assert_that (exclusive e);
               assert_that (numSharers e = 1);
               mod_entry self lineId (\<lambda>e. e\<lparr>exclusive := False\<rparr>) h
             });
        Some (maxCycle, wb, h)
      })
   }"

definition tcc_processEviction :: "'a invalidate_fn \<Rightarrow> nat \<Rightarrow> address \<Rightarrow> nat \<Rightarrow> bool \<Rightarrow> u64 \<Rightarrow> u32 \<Rightarrow>
    'a heap \<Rightarrow> (u64 \<times> bool \<times> 'a heap) option" where
  "tcc_processEviction iv self wbLineAddr lineId wb cyc src h = do {
     t \<leftarrow> get_tcc self h;
     (if tc_nonInclusiveHack t then do {
        h \<leftarrow> mod_entry self lineId (\<lambda>_. Entry_clear) h;
        Some (cyc, wb, h)
      } else sendInvalidates iv self wbLineAddr lineId INV wb cyc src h)
   }"

text \<open>The part of \<^verbatim>\<open>processAccess\<close> that takes the child out of the sharers (\<^verbatim>\<open>PUTS\<close>, and \<^verbatim>\<open>PUTX\<close> without
  \<^verbatim>\<open>PUTX_KEEPEXCL\<close>).\<close>

definition tcc_put :: "nat \<Rightarrow> nat \<Rightarrow> nat \<Rightarrow> 'a heap \<Rightarrow> 'a heap option" where
  "tcc_put self lineId child h = do {
     e \<leftarrow> get_entry self lineId h;
     shares \<leftarrow> read_at (sharers e) child;
     assert_that shares;
     mod_entry self lineId (\<lambda>e. e\<lparr>sharers := (sharers e)[child := False], numSharers := numSharers e - 1\<rparr>) h
   }"

definition tcc_gets :: "'a invalidate_fn \<Rightarrow> nat \<Rightarrow> address \<Rightarrow> nat \<Rightarrow> nat \<Rightarrow> bool \<Rightarrow> bool \<Rightarrow> u64 \<Rightarrow> u32 \<Rightarrow> u32 \<Rightarrow>
    'a heap \<Rightarrow> (u64 \<times> MESIState \<times> bool \<times> 'a heap) option" where
  "tcc_gets iv self line lineId child haveExclusive wb cyc src fl h = do {
     e \<leftarrow> get_entry self lineId h;
     shares \<leftarrow> read_at (sharers e) child;
     (if isEmpty e \<and> haveExclusive \<and> fl AND flag_bits NOEXCL = 0 then do {
        h \<leftarrow> mod_entry self lineId (\<lambda>e. e\<lparr>exclusive := True, sharers := (sharers e)[child := True], numSharers := 1\<rparr>) h;
        Some (cyc, StE, wb, h)
      } else do {
        assert_that (\<not> shares);
        (respCycle, wb, h) \<leftarrow> (if isExclusive e then sendInvalidates iv self line lineId INVX wb cyc src h
                              else Some (cyc, wb, h));
        e \<leftarrow> get_entry self lineId h;
        assert_that (\<not> isExclusive e);
        h \<leftarrow> mod_entry self lineId (\<lambda>e. e\<lparr>sharers := (sharers e)[child := True], numSharers := numSharers e + 1,
               exclusive := False\<rparr>) h;
        Some (respCycle, StS, wb, h)
      })
   }"

definition tcc_getx :: "'a invalidate_fn \<Rightarrow> nat \<Rightarrow> address \<Rightarrow> nat \<Rightarrow> nat \<Rightarrow> bool \<Rightarrow> bool \<Rightarrow> u64 \<Rightarrow> u32 \<Rightarrow>
    'a heap \<Rightarrow> (u64 \<times> MESIState \<times> bool \<times> 'a heap) option" where
  "tcc_getx iv self line lineId child haveExclusive wb cyc src h = do {
     assert_that haveExclusive;
     e \<leftarrow> get_entry self lineId h;
     shares \<leftarrow> read_at (sharers e) child;
     h \<leftarrow> (if shares then do {
             assert_that (\<not> isExclusive e);
             mod_entry self lineId (\<lambda>e. e\<lparr>sharers := (sharers e)[child := False], numSharers := numSharers e - 1\<rparr>) h
           } else Some h);
     (respCycle, wb, h) \<leftarrow> sendInvalidates iv self line lineId INV wb cyc src h;
     h \<leftarrow> mod_entry self lineId (\<lambda>e. e\<lparr>sharers := (sharers e)[child := True], numSharers := numSharers e + 1,
            exclusive := True\<rparr>) h;
     e \<leftarrow> get_entry self lineId h;
     assert_that (numSharers e = 1);
     Some (respCycle, StM, wb, h)
   }"

definition tcc_processAccess :: "'a invalidate_fn \<Rightarrow> nat \<Rightarrow> address \<Rightarrow> nat \<Rightarrow> AccessType \<Rightarrow> nat \<Rightarrow> bool \<Rightarrow> MESIState \<Rightarrow>
    bool \<Rightarrow> u64 \<Rightarrow> u32 \<Rightarrow> u32 \<Rightarrow> 'a heap \<Rightarrow> (u64 \<times> MESIState \<times> bool \<times> 'a heap) option" where
  "tcc_processAccess iv self line lineId type child haveExclusive childState wb cyc src fl h =
     (case type of
        PUTX \<Rightarrow> do {
          e \<leftarrow> get_entry self lineId h;
          assert_that (isExclusive e);
          (if fl AND flag_bits PUTX_KEEPEXCL \<noteq> 0 then do {
             shares \<leftarrow> read_at (sharers e) child;
             assert_that shares;
             assert_that (childState = StM);
             Some (cyc, StE, wb, h)
           } else do {
             h \<leftarrow> tcc_put self lineId child h;
             Some (cyc, StI, wb, h)
           })
        }
      | PUTS \<Rightarrow> do {
          h \<leftarrow> tcc_put self lineId child h;
          Some (cyc, StI, wb, h)
        }
      | GETS \<Rightarrow> tcc_gets iv self line lineId child haveExclusive wb cyc src fl h
      | GETX \<Rightarrow> tcc_getx iv self line lineId child haveExclusive wb cyc src h)"

definition tcc_processInval :: "'a invalidate_fn \<Rightarrow> nat \<Rightarrow> address \<Rightarrow> nat \<Rightarrow> InvType \<Rightarrow> bool \<Rightarrow> u64 \<Rightarrow> u32 \<Rightarrow>
    'a heap \<Rightarrow> (u64 \<times> bool \<times> 'a heap) option" where
  "tcc_processInval iv self line lineId type wb cyc src h =
     (if type = FWD then do {
        t \<leftarrow> get_tcc self h;
        assert_that (\<not> tc_nonInclusiveHack t);
        Some (cyc, wb, h)
      } else sendInvalidates iv self line lineId type wb cyc src h)"

subsection \<open>Races\<close>

text \<open>The result: whether the access is skipped, and its type, which may change.\<close>

definition CheckForMESIRace :: "AccessType \<Rightarrow> MESIState \<Rightarrow> MESIState \<Rightarrow> (bool \<times> AccessType) option" where
  "CheckForMESIRace type st initial =
     (if st \<noteq> initial then
        (if type = PUTS \<or> type = PUTX then
           (if st = StI then Some (True, type)
            else do {
              assert_that (st = StS);
              Some (False, if type = PUTX then PUTS else type)
            })
         else if type = GETX then do {
           assert_that (initial = StS);
           assert_that (st = StI);
           Some (False, type)
         } else None)
      else Some (False, type))"

subsection \<open>The controllers of a cache\<close>

definition bcc_isExclusive :: "nat \<Rightarrow> nat \<Rightarrow> 'a heap \<Rightarrow> bool option" where
  "bcc_isExclusive self lineId h = do {
     st \<leftarrow> get_state self lineId h;
     Some (st = StE \<or> st = StM)
   }"

definition cc_of :: "'a Cache \<Rightarrow> cc_view" where
  "cc_of c = \<lparr>cc_numSharers = (\<lambda>i. case c_tcc c of None \<Rightarrow> 0 | Some t \<Rightarrow> numSharers (tc_array t ! i)),
     cc_isValid = (\<lambda>i. bc_array (c_bcc c) ! i \<noteq> StI)\<rparr>"

definition startAccess :: "'a Cache \<Rightarrow> MemReq \<Rightarrow> (bool \<times> MemReq) option" where
  "startAccess c req = do {
     assert_that (c_tcc c = None \<longrightarrow> IsGet (req_type req));
     (skipAccess, type) \<leftarrow> CheckForMESIRace (req_type req) (req_state req) (initialState req);
     Some (skipAccess, req\<lparr>req_type := type\<rparr>)
   }"

definition shouldAllocate :: "'a Cache \<Rightarrow> MemReq \<Rightarrow> bool option" where
  "shouldAllocate c req =
     (case c_tcc c of
        None \<Rightarrow> Some True
      | Some t \<Rightarrow>
          (if IsGet (req_type req) then Some True
           else do {
             assert_that (bc_nonInclusiveHack (c_bcc c));
             Some False
           }))"

definition processEviction :: "'a access_fn \<Rightarrow> 'a invalidate_fn \<Rightarrow> nat \<Rightarrow> MemReq \<Rightarrow> address \<Rightarrow> nat \<Rightarrow> u64 \<Rightarrow>
    'a heap \<Rightarrow> (u64 \<times> 'a heap) option" where
  "processEviction ac iv self triggerReq wbLineAddr lineId cyc h = do {
     c \<leftarrow> the_cache h self;
     (case c_tcc c of
        None \<Rightarrow> bcc_processEviction ac self wbLineAddr lineId False cyc (srcId triggerReq) h
      | Some _ \<Rightarrow> do {
          (evCycle, wb, h) \<leftarrow> tcc_processEviction iv self wbLineAddr lineId False cyc (srcId triggerReq) h;
          bcc_processEviction ac self wbLineAddr lineId wb evCycle (srcId triggerReq) h
        })
   }"

text \<open>\<^verbatim>\<open>processAccess\<close> of \<^verbatim>\<open>MESICC\<close>; the result holds the state the child's line gets.\<close>

definition mesi_processAccess :: "'a access_fn \<Rightarrow> 'a invalidate_fn \<Rightarrow> nat \<Rightarrow> MemReq \<Rightarrow> int \<Rightarrow> u64 \<Rightarrow>
    'a heap \<Rightarrow> (u64 \<times> MESIState \<times> 'a heap) option" where
  "mesi_processAccess ac iv self req lineId cyc h = do {
     valid \<leftarrow> (if lineId = -1 then Some False
              else do { st \<leftarrow> get_state self (nat lineId) h; Some (st \<noteq> StI) });
     (if lineId = -1 \<or> IsPut (req_type req) \<and> \<not> valid then do {
        assert_that (IsPut (req_type req));
        bcc_processNonInclusiveWriteback ac self (lineAddr req) (req_type req) cyc (req_state req) (srcId req) (flags req) h
      } else do {
        let isPrefetch = is_flag PREFETCH req;
        assert_that (\<not> isPrefetch \<or> req_type req = GETS);
        let fl = flags req AND NOT (flag_bits PREFETCH);
        (respCycle, h) \<leftarrow> bcc_processAccess ac self (lineAddr req) (nat lineId) (req_type req) cyc (srcId req) fl h;
        (if isPrefetch then Some (respCycle, req_state req, h)
         else do {
           haveExclusive \<leftarrow> bcc_isExclusive self (nat lineId) h;
           (respCycle, childState, wb, h) \<leftarrow> tcc_processAccess iv self (lineAddr req) (nat lineId) (req_type req)
              (childId req) haveExclusive (req_state req) False respCycle (srcId req) fl h;
           h \<leftarrow> (if wb then bcc_processWritebackOnAccess self (nat lineId) h else Some h);
           Some (respCycle, childState, h)
         })
      })
   }"

text \<open>\<^verbatim>\<open>processAccess\<close> of \<^verbatim>\<open>MESITerminalCC\<close> does not touch the state of the requester.\<close>

definition terminal_processAccess :: "'a access_fn \<Rightarrow> nat \<Rightarrow> MemReq \<Rightarrow> int \<Rightarrow> u64 \<Rightarrow>
    'a heap \<Rightarrow> (u64 \<times> MESIState \<times> 'a heap) option" where
  "terminal_processAccess ac self req lineId cyc h = do {
     assert_that (lineId \<noteq> -1);
     (respCycle, h) \<leftarrow> bcc_processAccess ac self (lineAddr req) (nat lineId) (req_type req) cyc (srcId req) (flags req) h;
     Some (respCycle, req_state req, h)
   }"

definition processAccess :: "'a access_fn \<Rightarrow> 'a invalidate_fn \<Rightarrow> nat \<Rightarrow> MemReq \<Rightarrow> int \<Rightarrow> u64 \<Rightarrow>
    'a heap \<Rightarrow> (u64 \<times> MESIState \<times> 'a heap) option" where
  "processAccess ac iv self req lineId cyc h = do {
     c \<leftarrow> the_cache h self;
     (case c_tcc c of
        None \<Rightarrow> terminal_processAccess ac self req lineId cyc h
      | Some _ \<Rightarrow> mesi_processAccess ac iv self req lineId cyc h)
   }"

definition processInv :: "'a invalidate_fn \<Rightarrow> nat \<Rightarrow> InvReq \<Rightarrow> nat \<Rightarrow> u64 \<Rightarrow>
    'a heap \<Rightarrow> (u64 \<times> bool \<times> 'a heap) option" where
  "processInv iv self req lineId cyc h = do {
     c \<leftarrow> the_cache h self;
     (respCycle, wb, h) \<leftarrow> (case c_tcc c of
         None \<Rightarrow> Some (cyc, inv_writeback req, h)
       | Some _ \<Rightarrow> tcc_processInval iv self (inv_lineAddr req) lineId (inv_type req) (inv_writeback req) cyc (inv_srcId req) h);
     (wb, h) \<leftarrow> bcc_processInval self lineId (inv_type req) wb h;
     Some (respCycle, wb, h)
   }"

end
