(* ===== verification/Cache_Model.thy ===== *)
theory Cache_Model imports Coherence begin

text \<open>
  \<^verbatim>\<open>Cache::access\<close> and \<^verbatim>\<open>Cache::finishInvalidate\<close> (\<^verbatim>\<open>zsim/src/cache.cpp\<close>), \<^verbatim>\<open>SimpleMemory::access\<close>
  (\<^verbatim>\<open>mem_ctrls.cpp\<close>), and the virtual methods of the objects of a hierarchy, by recursion over its depth.

  \<^verbatim>\<open>cache.cpp\<close> holds the two sides of a merge conflict; they do the same but for comments and log output.
  The timing records of contention simulation are not modelled: without an event recorder
  (\<^verbatim>\<open>zinfo->eventRecorders[req.srcId]\<close> null) that code does nothing.
\<close>

text \<open>The virtual methods of a \<^verbatim>\<open>CacheArray\<close>.\<close>

record 'a CacheArray =
  ca_lookup :: "address \<Rightarrow> MemReq option \<Rightarrow> bool \<Rightarrow> 'a \<Rightarrow> (int \<times> 'a) option"
  ca_preinsert :: "cc_view \<Rightarrow> address \<Rightarrow> MemReq option \<Rightarrow> 'a \<Rightarrow> (nat \<times> address \<times> 'a) option"
  ca_postinsert :: "address \<Rightarrow> MemReq option \<Rightarrow> nat \<Rightarrow> 'a \<Rightarrow> 'a option"

definition SetAssoc_ops :: "hash_fn \<Rightarrow> 'p ReplPolicy \<Rightarrow> 'p SetAssocArray CacheArray" where
  "SetAssoc_ops hf P = \<lparr>ca_lookup = sa_lookup hf P, ca_preinsert = sa_preinsert hf P, ca_postinsert = sa_postinsert P\<rparr>"

definition ZArray_ops :: "hash_fn \<Rightarrow> 'p ReplPolicy \<Rightarrow> 'p ZArray CacheArray" where
  "ZArray_ops hf P = \<lparr>ca_lookup = z_lookup hf P, ca_preinsert = z_preinsert hf P, ca_postinsert = z_postinsert P\<rparr>"

text \<open>What a cache is built with: its array, the test of \<^verbatim>\<open>isApprox\<close>, and for the Doppelganger array the hash
  and the values \<^verbatim>\<open>get_map\<close> computes from the memory of the program. \<^verbatim>\<open>procMask\<close> is a global variable of the
  simulator.\<close>

record 'a cache_env =
  ce_array :: "'a CacheArray"
  ce_isApprox :: "address \<Rightarrow> bool"
  ce_hash :: hash_fn
  ce_map :: "address \<Rightarrow> u32 option"
  ce_procMask :: u64

definition dpg_cc :: "'a access_fn \<Rightarrow> 'a invalidate_fn \<Rightarrow> nat \<Rightarrow> 'a heap CC_ops" where
  "dpg_cc ac iv self = \<lparr>
     cc_processEviction = (\<lambda>r a i cyc h. map_option snd (processEviction ac iv self r a i cyc h)),
     cc_see = (\<lambda>h. case the_cache h self of Some c \<Rightarrow> cc_of c
                | None \<Rightarrow> \<lparr>cc_numSharers = (\<lambda>_. 0), cc_isValid = (\<lambda>_. False)\<rparr>)\<rparr>"

subsection \<open>access\<close>

text \<open>The array access of a line that is not approximable: the line id of the line, or -1.\<close>

definition array_access :: "'a CacheArray \<Rightarrow> 'a access_fn \<Rightarrow> 'a invalidate_fn \<Rightarrow> nat \<Rightarrow> MemReq \<Rightarrow>
    'a heap \<Rightarrow> (int \<times> 'a heap) option" where
  "array_access A ac iv self req h = do {
     c \<leftarrow> the_cache h self;
     (lineId, a) \<leftarrow> ca_lookup A (lineAddr req) (Some req) (IsGet (req_type req)) (c_array c);
     h \<leftarrow> mod_cache self (\<lambda>c. c\<lparr>c_array := a\<rparr>) h;
     alloc \<leftarrow> (if lineId = -1 then shouldAllocate c req else Some False);
     (if alloc then do {
        c \<leftarrow> the_cache h self;
        (candidate, wbLineAddr, a) \<leftarrow> ca_preinsert A (cc_of c) (lineAddr req) (Some req) (c_array c);
        h \<leftarrow> mod_cache self (\<lambda>c. c\<lparr>c_array := a\<rparr>) h;
        (_, h) \<leftarrow> processEviction ac iv self req wbLineAddr candidate (req_cycle req + ucast (c_accLat c)) h;
        c \<leftarrow> the_cache h self;
        a \<leftarrow> ca_postinsert A (lineAddr req) (Some req) candidate (c_array c);
        h \<leftarrow> mod_cache self (\<lambda>c. c\<lparr>c_array := a\<rparr>) h;
        Some (int candidate, h)
      } else Some (lineId, h))
   }"

text \<open>The access of an approximable line in the Doppelganger array.\<close>

definition dpg_access :: "'a cache_env \<Rightarrow> 'a access_fn \<Rightarrow> 'a invalidate_fn \<Rightarrow> nat \<Rightarrow> MemReq \<Rightarrow>
    'a heap \<Rightarrow> (int \<times> 'a heap) option" where
  "dpg_access E ac iv self req h = do {
     c \<leftarrow> the_cache h self;
     d \<leftarrow> c_array_dpg c;
     (lineId, d, h) \<leftarrow> dpg_lookup (ce_hash E) (dpg_cc ac iv self) (LRUReplPolicy_DPG_t False) (LRUReplPolicy_DPG_d False)
        (ce_map E) (lineAddr req) (Some req) (IsGet (req_type req)) (req_cycle req) (d, h);
     h \<leftarrow> mod_cache self (\<lambda>c. c\<lparr>c_array_dpg := Some d\<rparr>) h;
     alloc \<leftarrow> (if lineId = -1 then shouldAllocate c req else Some False);
     (if alloc then do {
        (lineId, d, h) \<leftarrow> dpg_preinsert (ce_hash E) (dpg_cc ac iv self) (LRUReplPolicy_DPG_t False) (LRUReplPolicy_DPG_d False)
           (ce_map E) (lineAddr req) (Some req) (req_cycle req + ucast (c_accLat c)) (d, h);
        d \<leftarrow> dpg_postinsert (LRUReplPolicy_DPG_t False) (LRUReplPolicy_DPG_d False) (lineAddr req) (Some req) lineId d;
        h \<leftarrow> mod_cache self (\<lambda>c. c\<lparr>c_array_dpg := Some d\<rparr>) h;
        Some (int lineId, h)
      } else Some (lineId, h))
   }"

definition cache_access :: "'a cache_env \<Rightarrow> 'a access_fn \<Rightarrow> 'a invalidate_fn \<Rightarrow> 'a access_fn" where
  "cache_access E ac iv self req h = do {
     c \<leftarrow> the_cache h self;
     (skipAccess, req) \<leftarrow> startAccess c req;
     (respCycle, st, h) \<leftarrow>
       (if skipAccess then Some (req_cycle req, req_state req, h)
        else do {
          (lineId, h) \<leftarrow> (if ce_isApprox E (lineAddr req) \<and> c_array_dpg c \<noteq> None then dpg_access E ac iv self req h
                          else array_access (ce_array E) ac iv self req h);
          processAccess ac iv self req lineId (req_cycle req + ucast (c_accLat c)) h
        });
     assert_that (respCycle \<ge> req_cycle req);
     Some (respCycle, st, h)
   }"

subsection \<open>invalidate\<close>

definition finishInvalidate :: "'a cache_env \<Rightarrow> 'a invalidate_fn \<Rightarrow> 'a invalidate_fn" where
  "finishInvalidate E iv self req h = do {
     c \<leftarrow> the_cache h self;
     (lineId, h) \<leftarrow>
       (if ce_isApprox E (inv_lineAddr req) \<and> c_array_dpg c \<noteq> None then do {
          d \<leftarrow> c_array_dpg c;
          (lineId, d, h) \<leftarrow> dpg_lookup (ce_hash E) (dpg_cc (\<lambda>_ _ _. None) (\<lambda>_ _ _. None) self)
             (LRUReplPolicy_DPG_t False) (LRUReplPolicy_DPG_d False) (ce_map E) (inv_lineAddr req) None False 0 (d, h);
          h \<leftarrow> mod_cache self (\<lambda>c. c\<lparr>c_array_dpg := Some d\<rparr>) h;
          Some (lineId, h)
        } else do {
          (lineId, a) \<leftarrow> ca_lookup (ce_array E) (inv_lineAddr req) None False (c_array c);
          h \<leftarrow> mod_cache self (\<lambda>c. c\<lparr>c_array := a\<rparr>) h;
          Some (lineId, h)
        });
     assert_that (lineId \<noteq> -1);
     processInv iv self req (nat lineId) (inv_cycle req + ucast (c_invLat c)) h
   }"

text \<open>What \<^verbatim>\<open>FilterCache::invalidate\<close> does before it calls \<^verbatim>\<open>Cache::finishInvalidate\<close>; other caches have no filter.\<close>

definition filter_invalidate :: "u64 \<Rightarrow> nat \<Rightarrow> InvReq \<Rightarrow> 'a heap \<Rightarrow> 'a heap option" where
  "filter_invalidate pm self req h = do {
     c \<leftarrow> the_cache h self;
     (case c_filter c of
        None \<Rightarrow> Some h
      | Some f \<Rightarrow> do {
          f \<leftarrow> fc_invalidate pm (inv_lineAddr req) f;
          mod_cache self (\<lambda>c. c\<lparr>c_filter := Some f\<rparr>) h
        })
   }"

subsection \<open>Loads and stores\<close>

definition filter_replace :: "u64 \<Rightarrow> 'a access_fn \<Rightarrow> nat \<Rightarrow> address \<Rightarrow> nat \<Rightarrow> bool \<Rightarrow> u64 \<Rightarrow> 'a heap \<Rightarrow> (u64 \<times> 'a heap) option" where
  "filter_replace pm ac self vLineAddr idx isLoad curCycle h = do {
     c \<leftarrow> the_cache h self;
     f \<leftarrow> c_filter c;
     (respCycle, _, h) \<leftarrow> ac self \<lparr>lineAddr = pm OR vLineAddr, req_type = (if isLoad then GETS else GETX), childId = 0,
        req_state = StI, req_cycle = curCycle, initialState = StI, srcId = fc_srcId f, flags = reqFlags f\<rparr> h;
     c \<leftarrow> the_cache h self;
     f \<leftarrow> c_filter c;
     f \<leftarrow> fc_fill vLineAddr idx isLoad respCycle f;
     h \<leftarrow> mod_cache self (\<lambda>c. c\<lparr>c_filter := Some f\<rparr>) h;
     Some (respCycle, h)
   }"

definition filter_load :: "nat \<Rightarrow> u64 \<Rightarrow> 'a access_fn \<Rightarrow> nat \<Rightarrow> address \<Rightarrow> u64 \<Rightarrow> 'a heap \<Rightarrow> (u64 \<times> 'a heap) option" where
  "filter_load lineBits pm ac self vAddr curCycle h = do {
     c \<leftarrow> the_cache h self;
     f \<leftarrow> c_filter c;
     let vLineAddr = drop_bit lineBits vAddr;
     let idx = fc_index f vLineAddr;
     e \<leftarrow> read_at (filterArray f) idx;
     (if vLineAddr = rdAddr e then do {
        h \<leftarrow> mod_cache self (\<lambda>c. c\<lparr>c_filter := Some (f\<lparr>fGETSHit := fGETSHit f + 1\<rparr>)\<rparr>) h;
        Some (MAX2 curCycle (availCycle e), h)
      } else filter_replace pm ac self vLineAddr idx True curCycle h)
   }"

definition filter_store :: "nat \<Rightarrow> u64 \<Rightarrow> 'a access_fn \<Rightarrow> nat \<Rightarrow> address \<Rightarrow> u64 \<Rightarrow> 'a heap \<Rightarrow> (u64 \<times> 'a heap) option" where
  "filter_store lineBits pm ac self vAddr curCycle h = do {
     c \<leftarrow> the_cache h self;
     f \<leftarrow> c_filter c;
     let vLineAddr = drop_bit lineBits vAddr;
     let idx = fc_index f vLineAddr;
     e \<leftarrow> read_at (filterArray f) idx;
     (if vLineAddr = wrAddr e then do {
        h \<leftarrow> mod_cache self (\<lambda>c. c\<lparr>c_filter := Some (f\<lparr>fGETXHit := fGETXHit f + 1\<rparr>)\<rparr>) h;
        Some (MAX2 curCycle (availCycle e), h)
      } else filter_replace pm ac self vLineAddr idx False curCycle h)
   }"

text \<open>\<^verbatim>\<open>FilterCache::contextSwitch\<close>\<close>

definition filter_contextSwitch :: "nat \<Rightarrow> 'a heap \<Rightarrow> 'a heap option" where
  "filter_contextSwitch self h = do {
     c \<leftarrow> the_cache h self;
     f \<leftarrow> c_filter c;
     mod_cache self (\<lambda>c. c\<lparr>c_filter := Some (contextSwitch f)\<rparr>) h
   }"

subsection \<open>Memory\<close>

definition SimpleMemory_access :: "u32 \<Rightarrow> MemReq \<Rightarrow> (u64 \<times> MESIState) option" where
  "SimpleMemory_access latency req = do {
     let st = (case req_type req of
         PUTS \<Rightarrow> StI
       | PUTX \<Rightarrow> StI
       | GETS \<Rightarrow> (if is_flag NOEXCL req then StS else StE)
       | GETX \<Rightarrow> StM);
     let respCycle = req_cycle req + ucast latency;
     assert_that (respCycle > req_cycle req);
     Some (respCycle, st)
   }"

subsection \<open>The virtual methods\<close>

text \<open>The first argument after the environments bounds the depth of the hierarchy; one more than the number
  of objects on a path from a core to memory is enough.\<close>

fun invalidate :: "(nat \<Rightarrow> 'a cache_env) \<Rightarrow> nat \<Rightarrow> 'a invalidate_fn" where
  "invalidate E 0 self req h = None"
| "invalidate E (Suc n) self req h = do {
     h \<leftarrow> filter_invalidate (ce_procMask (E self)) self req h;
     finishInvalidate (E self) (invalidate E n) self req h
   }"

fun access :: "(nat \<Rightarrow> 'a cache_env) \<Rightarrow> nat \<Rightarrow> 'a access_fn" where
  "access E 0 self req h = None"
| "access E (Suc n) self req h = do {
     ob \<leftarrow> read_at h self;
     (case ob of
        CacheObj _ \<Rightarrow> cache_access (E self) (access E n) (invalidate E n) self req h
      | SimpleMemory latency \<Rightarrow> do {
          (respCycle, st) \<leftarrow> SimpleMemory_access latency req;
          Some (respCycle, st, h)
        })
   }"

end
