(* ===== verification/Array_Contract.thy ===== *)
theory Array_Contract imports Repl_Contract Cache_Model Doppelganger_Ops begin

text \<open>
  What a cache asks of its array, as the locale \<open>cache_array\<close>: the array translates line addresses to
  line ids, and a replacement gives the id of its victim to the new line. The set-associative array
  satisfies it with any policy of the interface \<open>ready_replacement\<close>.
\<close>

subsection \<open>The interface\<close>

text \<open>
  \<open>adr s i\<close> is the address in line \<open>i\<close>, \<open>fnd s a\<close> the line id \<^verbatim>\<open>lookup\<close> returns, and \<open>pend s a i\<close> holds
  between \<^verbatim>\<open>preinsert\<close> and \<^verbatim>\<open>postinsert\<close> of \<open>a\<close>. A line only replaces a line it has a \<open>clash\<close> with.
\<close>

locale cache_array =
  fixes A :: "'a CacheArray"
    and ainv :: "'a \<Rightarrow> bool"
    and lns :: "'a \<Rightarrow> nat"
    and adr :: "'a \<Rightarrow> nat \<Rightarrow> address"
    and fnd :: "'a \<Rightarrow> address \<Rightarrow> nat option"
    and pend :: "'a \<Rightarrow> address \<Rightarrow> nat \<Rightarrow> bool"
    and clash :: "'a \<Rightarrow> address \<Rightarrow> address \<Rightarrow> bool"
  assumes fnd_adr: "ainv s \<Longrightarrow> fnd s a = Some i \<Longrightarrow> i < lns s \<and> adr s i = a"
    and pend_inv: "pend s a i \<Longrightarrow> ainv s \<and> i < lns s"
    and lookup_law: "ainv s \<Longrightarrow> \<exists>s'. ca_lookup A a req upd s = Some (case fnd s a of None \<Rightarrow> -1 | Some i \<Rightarrow> int i, s') \<and>
      ainv s' \<and> lns s' = lns s \<and> adr s' = adr s \<and> fnd s' = fnd s \<and> clash s' = clash s \<and> (\<not> upd \<longrightarrow> s' = s)"
    and preinsert_law: "ainv s \<Longrightarrow> \<exists>i s'. ca_preinsert A v a req s = Some (i, adr s i, s') \<and>
      pend s' a i \<and> lns s' = lns s \<and> adr s' = adr s \<and> fnd s' = fnd s \<and> clash s' = clash s \<and>
      (fnd s (adr s i) = Some i \<longrightarrow> clash s a (adr s i))"
    and postinsert_law: "pend s a i \<Longrightarrow> fnd s a = None \<Longrightarrow> \<exists>s'. ca_postinsert A a req i s = Some s' \<and>
      ainv s' \<and> lns s' = lns s \<and> adr s' = (adr s)(i := a) \<and> fnd s' a = Some i \<and> clash s' = clash s \<and>
      (\<forall>c. c \<noteq> a \<longrightarrow> fnd s c \<noteq> Some i \<longrightarrow> fnd s' c = fnd s c)"
begin

text \<open>After a replacement a line that lost its id is only found at an id that already had its address.\<close>

lemma postinsert_lost:
  assumes "pend s a i" and "fnd s a = None" and "ca_postinsert A a req i s = Some s'"
    and "c \<noteq> a" and "fnd s' c = Some k" and "fnd s c = Some i"
  shows "k \<noteq> i \<and> k < lns s \<and> adr s k = c"
proof -
  obtain s'' where s'': "ca_postinsert A a req i s = Some s''" "ainv s''" "lns s'' = lns s" "adr s'' = (adr s)(i := a)"
    using postinsert_law [OF assms(1,2)] by metis
  with assms(3) have "s'' = s'" by simp
  with s'' have "k < lns s" "((adr s)(i := a)) k = c" using fnd_adr [of s' c k] assms(5) by auto
  with assms(4) show ?thesis by (auto split: if_splits)
qed

end

subsection \<open>The set-associative array\<close>

definition set_ids :: "hash_fn \<Rightarrow> 'p SetAssocArray \<Rightarrow> address \<Rightarrow> nat list" where
  "set_ids hf s a = (case set_index hf (sa_setMask s) 0 a of None \<Rightarrow> []
     | Some k \<Rightarrow> [k * sa_assoc s..<k * sa_assoc s + sa_assoc s])"

definition sa_find :: "hash_fn \<Rightarrow> 'p SetAssocArray \<Rightarrow> address \<Rightarrow> nat option" where
  "sa_find hf s a = List.find (\<lambda>i. sa_array s ! i = a) (set_ids hf s a)"

definition sa_adr :: "'p SetAssocArray \<Rightarrow> nat \<Rightarrow> address" where
  "sa_adr s i = sa_array s ! i"

definition sa_wf :: "hash_fn \<Rightarrow> ('p \<Rightarrow> bool) \<Rightarrow> ('p \<Rightarrow> nat) \<Rightarrow> 'p SetAssocArray \<Rightarrow> bool" where
  "sa_wf hf pinv plines s \<longleftrightarrow> length (sa_array s) = sa_numLines s \<and> 0 < sa_assoc s \<and> 0 < sa_numSets s \<and>
     sa_numSets s * sa_assoc s \<le> sa_numLines s \<and> unat (sa_setMask s) = sa_numSets s - 1 \<and>
     pinv (sa_rp s) \<and> sa_numLines s \<le> plines (sa_rp s)"

definition sa_pend :: "hash_fn \<Rightarrow> ('p \<Rightarrow> bool) \<Rightarrow> ('p \<Rightarrow> nat) \<Rightarrow> 'p SetAssocArray \<Rightarrow> address \<Rightarrow> nat \<Rightarrow> bool" where
  "sa_pend hf pinv plines s a i \<longleftrightarrow> sa_wf hf pinv plines s \<and> i \<in> set (set_ids hf s a)"

definition sa_clash :: "hash_fn \<Rightarrow> 'p SetAssocArray \<Rightarrow> address \<Rightarrow> address \<Rightarrow> bool" where
  "sa_clash hf s a c \<longleftrightarrow> set_ids hf s a = set_ids hf s c"

lemma set_ids_upd [simp]: "set_ids hf (s\<lparr>sa_rp := p\<rparr>) = set_ids hf s" "set_ids hf (s\<lparr>sa_array := x\<rparr>) = set_ids hf s"
  by (rule ext, simp add: set_ids_def split: option.split)+

lemma sa_rp_upd [simp]: "sa_find hf (s\<lparr>sa_rp := p\<rparr>) = sa_find hf s" "sa_adr (s\<lparr>sa_rp := p\<rparr>) = sa_adr s"
  "sa_clash hf (s\<lparr>sa_rp := p\<rparr>) = sa_clash hf s" "sa_clash hf (s\<lparr>sa_array := x\<rparr>) = sa_clash hf s"
  by (simp_all add: sa_find_def sa_adr_def sa_clash_def fun_eq_iff)

lemma find_changed:
  assumes "\<And>x. x \<noteq> i \<Longrightarrow> Q x = P x" and "\<not> Q i" and "List.find P xs \<noteq> Some i"
  shows "List.find Q xs = List.find P xs"
  using assms(3)
proof (induction xs)
  case (Cons x xs)
  show ?case
  proof (cases "P x")
    case True
    with Cons.prems have "x \<noteq> i" by auto
    with True assms(1) show ?thesis by simp
  next
    case False
    with assms(1,2) have "\<not> Q x" by (cases "x = i") auto
    with False Cons show ?thesis by simp
  qed
qed simp

lemma find_only:
  assumes "i \<in> set xs" and "P i" and "\<And>x. x \<in> set xs \<Longrightarrow> x \<noteq> i \<Longrightarrow> \<not> P x"
  shows "List.find P xs = Some i"
  using assms by (induction xs) auto

lemma find_line_spec:
  "i + n \<le> length xs \<Longrightarrow> find_line xs a i n =
   Some (case List.find (\<lambda>k. xs ! k = a) [i..<i + n] of None \<Rightarrow> -1 | Some k \<Rightarrow> int k)"
proof (induction n arbitrary: i)
  case (Suc n)
  have "[i..<i + Suc n] = i # [Suc i..<Suc i + n]" by (simp add: upt_conv_Cons)
  with Suc.IH [of "Suc i"] Suc.prems show ?case by (simp add: read_at_def del: upt_Suc)
qed simp

lemma set_ids_total:
  assumes tot: "\<forall>a. hf 0 a \<noteq> None" and w: "sa_wf hf pinv plines s"
  shows "\<exists>k. set_index hf (sa_setMask s) 0 a = Some k \<and> set_ids hf s a = [k * sa_assoc s..<k * sa_assoc s + sa_assoc s] \<and>
    k * sa_assoc s + sa_assoc s \<le> sa_numLines s"
proof -
  from tot obtain h where "hf 0 a = Some h" by blast
  then obtain k where k: "set_index hf (sa_setMask s) 0 a = Some k" by (simp add: set_index_def)
  have "k \<le> sa_numSets s - 1" using set_index_bound [OF k] w by (simp add: sa_wf_def)
  moreover have "0 < sa_numSets s" using w by (simp add: sa_wf_def)
  ultimately have "Suc k \<le> sa_numSets s" by linarith
  then have "Suc k * sa_assoc s \<le> sa_numSets s * sa_assoc s" by (rule mult_le_mono1)
  also have "\<dots> \<le> sa_numLines s" using w by (simp add: sa_wf_def)
  finally show ?thesis using k by (simp add: set_ids_def)
qed

context ready_replacement begin

lemma sa_cache_array:
  assumes tot: "\<forall>a. hf 0 a \<noteq> None" and any: "\<And>p cands. fits p cands"
  shows "cache_array (SetAssoc_ops hf P) (sa_wf hf inv lines) sa_numLines sa_adr (sa_find hf) (sa_pend hf inv lines)
    (sa_clash hf)"
proof (unfold_locales, goal_cases)
  case (1 s a i)
  then show ?case using set_ids_total [OF tot 1(1), of a]
    by (auto simp: sa_find_def sa_adr_def find_Some_iff)
next
  case (2 s a i)
  then have w: "sa_wf hf inv lines s" by (simp add: sa_pend_def)
  with 2 show ?case using set_ids_total [OF tot w, of a] by (auto simp: sa_pend_def)
next
  case (3 s a req upd)
  obtain k where k: "set_index hf (sa_setMask s) 0 a = Some k" "set_ids hf s a = [k * sa_assoc s..<k * sa_assoc s + sa_assoc s]"
    "k * sa_assoc s + sa_assoc s \<le> sa_numLines s"
    using set_ids_total [OF tot 3] by blast
  let ?r = "case sa_find hf s a of None \<Rightarrow> -1 | Some i \<Rightarrow> int i"
  have fl: "find_line (sa_array s) a (k * sa_assoc s) (sa_assoc s) = Some ?r"
    using find_line_spec [of "k * sa_assoc s" "sa_assoc s" "sa_array s" a] 3 k(3) by (simp add: sa_find_def k(2) sa_wf_def)
  show ?case
  proof (cases "sa_find hf s a = None \<or> \<not> upd")
    case True
    then show ?thesis using 3 fl by (auto simp: SetAssoc_ops_def sa_lookup_def k(1) sa_find_def split: option.splits)
  next
    case False
    then obtain i where i: "sa_find hf s a = Some i" and upd: "upd" by auto
    have "i < lines (sa_rp s)" using i k 3 by (auto simp: sa_find_def find_Some_iff sa_wf_def)
    then obtain p where p: "rp_update P req i (sa_rp s) = Some p" "inv p" "lines p = lines (sa_rp s)"
      using update_law [of "sa_rp s" i req] 3 by (auto simp: sa_wf_def)
    have "ca_lookup (SetAssoc_ops hf P) a req upd s = Some (int i, s\<lparr>sa_rp := p\<rparr>)"
      using fl i p(1) upd by (simp add: SetAssoc_ops_def sa_lookup_def k(1))
    moreover have "sa_wf hf inv lines (s\<lparr>sa_rp := p\<rparr>)" using 3 p by (simp add: sa_wf_def)
    ultimately show ?thesis using i upd by simp
  qed
next
  case (4 s v a req)
  obtain k where k: "set_index hf (sa_setMask s) 0 a = Some k" "set_ids hf s a = [k * sa_assoc s..<k * sa_assoc s + sa_assoc s]"
    "k * sa_assoc s + sa_assoc s \<le> sa_numLines s"
    using set_ids_total [OF tot 4] by blast
  have "ready (sa_rp s)" using 4 always_ready by (simp add: sa_wf_def)
  moreover have "[k * sa_assoc s..<k * sa_assoc s + sa_assoc s] \<noteq> []" using 4 by (simp add: sa_wf_def)
  moreover have "\<forall>c\<in>set [k * sa_assoc s..<k * sa_assoc s + sa_assoc s]. c < lines (sa_rp s)"
    using k(3) 4 by (auto simp: sa_wf_def)
  ultimately obtain i p where i: "rp_rankCands P v req [k * sa_assoc s..<k * sa_assoc s + sa_assoc s] (sa_rp s) = Some (i, p)"
    "i \<in> set [k * sa_assoc s..<k * sa_assoc s + sa_assoc s]" "inv p" "lines p = lines (sa_rp s)"
    using rank_law [of "sa_rp s" "[k * sa_assoc s..<k * sa_assoc s + sa_assoc s]" v req] any by blast
  let ?s = "s\<lparr>sa_rp := p\<rparr>"
  have "i < length (sa_array s)" using i(2) k(3) 4 by (auto simp: sa_wf_def)
  then have "ca_preinsert (SetAssoc_ops hf P) v a req s = Some (i, sa_adr s i, ?s)"
    using i(1) by (simp add: SetAssoc_ops_def sa_preinsert_def k(1) sa_adr_def read_at_def del: upt_Suc)
  moreover have "sa_pend hf inv lines ?s a i"
    using 4 i k by (simp add: sa_pend_def sa_wf_def)
  moreover have "sa_clash hf s a (sa_adr s i)" if "sa_find hf s (sa_adr s i) = Some i"
  proof -
    obtain m where m: "set_ids hf s (sa_adr s i) = [m * sa_assoc s..<m * sa_assoc s + sa_assoc s]"
      using set_ids_total [OF tot 4] by blast
    have "i \<in> set (set_ids hf s (sa_adr s i))" using that unfolding sa_find_def find_Some_iff by (metis nth_mem)
    then have "i div sa_assoc s = m" unfolding m by (auto intro!: div_nat_eqI simp: algebra_simps)
    moreover have "i div sa_assoc s = k" using i(2) by (auto intro!: div_nat_eqI simp: algebra_simps)
    ultimately show ?thesis unfolding sa_clash_def k(2) m by simp
  qed
  ultimately show ?case by auto
next
  case (5 s a i req)
  then have w: "sa_wf hf inv lines s" and i: "i \<in> set (set_ids hf s a)" by (simp_all add: sa_pend_def)
  have il: "i < sa_numLines s" using i set_ids_total [OF tot w, of a] by auto
  then have "i < lines (sa_rp s)" using w by (simp add: sa_wf_def)
  then obtain p where p: "rp_replaced P i (sa_rp s) = Some p" "inv p" "lines p = lines (sa_rp s)"
    using replaced_law [of "sa_rp s" i] ready_inv w by (auto simp: sa_wf_def)
  then obtain q where q: "rp_update P req i p = Some q" "inv q" "lines q = lines p"
    using update_law [of p i req] \<open>i < lines (sa_rp s)\<close> by auto
  let ?s = "s\<lparr>sa_array := (sa_array s)[i := a], sa_rp := q\<rparr>"
  have len: "length (sa_array s) = sa_numLines s" using w by (simp add: sa_wf_def)
  have run: "ca_postinsert (SetAssoc_ops hf P) a req i s = Some ?s"
    using p q il len by (simp add: SetAssoc_ops_def sa_postinsert_def write_at_def)
  have "sa_wf hf inv lines ?s" using w p q by (simp add: sa_wf_def)
  moreover have "sa_adr ?s = (sa_adr s)(i := a)" using il len by (auto simp: sa_adr_def fun_eq_iff)
  moreover have "sa_find hf ?s a = Some i"
    unfolding sa_find_def set_ids_upd using 5(2) i il len
    by (intro find_only) (auto simp: sa_find_def find_None_iff nth_list_update)
  moreover have "sa_find hf ?s c = sa_find hf s c" if "c \<noteq> a" "sa_find hf s c \<noteq> Some i" for c
    unfolding sa_find_def set_ids_upd using that il len
    by (intro find_changed [of i]) (auto simp: sa_find_def nth_list_update)
  ultimately show ?case using run by auto
qed

end

text \<open>The arrays \<^verbatim>\<open>init.cpp\<close> builds by default: set-associative, not hashed, LRU not aware of sharers.\<close>

abbreviation sa_lru_ops :: "lru SetAssocArray CacheArray" where
  "sa_lru_ops \<equiv> SetAssoc_ops id_hash (LRUReplPolicy False)"

abbreviation sa_lru_wf :: "lru SetAssocArray \<Rightarrow> bool" where
  "sa_lru_wf \<equiv> sa_wf id_hash lru_inv lru_numLines"

interpretation sa_lru: cache_array sa_lru_ops sa_lru_wf sa_numLines sa_adr "sa_find id_hash"
    "sa_pend id_hash lru_inv lru_numLines" "sa_clash id_hash"
  by (rule lru.sa_cache_array) (simp_all add: id_hash_def)

end
