(* ===== verification/Hierarchy.thy ===== *)
theory Hierarchy imports Array_Contract begin

text \<open>
  A hierarchy of two levels: \<open>n\<close> terminal caches under one shared, inclusive cache over memory, as the
  configuration files of the repository build it. The invariant of the coherence protocol is a
  predicate on a view of the heap: the MESI state of every line id, the directory, and what the arrays
  hold.
\<close>

declare One_nat_def [simp del] add_2_eq_Suc [simp del] add_2_eq_Suc' [simp del]

subsection \<open>Views of a heap\<close>

definition cch :: "'a heap \<Rightarrow> nat \<Rightarrow> 'a Cache" where
  "cch h k = the (the_cache h k)"

definition bst :: "'a heap \<Rightarrow> nat \<Rightarrow> nat \<Rightarrow> MESIState" where
  "bst h k i = bc_array (c_bcc (cch h k)) ! i"

definition ent :: "'a heap \<Rightarrow> nat \<Rightarrow> Entry" where
  "ent h i = tc_array (the (c_tcc (cch h 1))) ! i"

definition arrs :: "'a heap \<Rightarrow> nat \<Rightarrow> 'a" where
  "arrs h k = c_array (cch h k)"

definition flts :: "'a heap \<Rightarrow> nat \<Rightarrow> FilterCache option" where
  "flts h k = c_filter (cch h k)"

text \<open>A load, or a store, of the line \<open>v\<close> hits in the filter of cache \<open>k\<close>.\<close>

definition rdh :: "'a heap \<Rightarrow> nat \<Rightarrow> address \<Rightarrow> bool" where
  "rdh h k v \<longleftrightarrow> (case flts h k of None \<Rightarrow> False | Some f \<Rightarrow> rd_hit f v)"

definition wrh :: "'a heap \<Rightarrow> nat \<Rightarrow> address \<Rightarrow> bool" where
  "wrh h k v \<longleftrightarrow> (case flts h k of None \<Rightarrow> False | Some f \<Rightarrow> wr_hit f v)"

lemma hit_flts: "flts h' = flts h \<Longrightarrow> rdh h' = rdh h \<and> wrh h' = wrh h"
  by (simp add: rdh_def wrh_def fun_eq_iff)

text \<open>The state of an address in a cache.\<close>

definition vst :: "(nat \<Rightarrow> nat \<Rightarrow> MESIState) \<Rightarrow> (nat \<Rightarrow> address \<Rightarrow> nat option) \<Rightarrow> nat \<Rightarrow> address \<Rightarrow> MESIState" where
  "vst b f k a = (case f k a of None \<Rightarrow> StI | Some i \<Rightarrow> b k i)"

definition shr :: "Entry \<Rightarrow> nat set" where
  "shr e = {i. i < length (sharers e) \<and> sharers e ! i}"

definition near :: "u64 \<Rightarrow> u64 \<Rightarrow> nat \<Rightarrow> bool" where
  "near c r k \<longleftrightarrow> unat c \<le> unat r \<and> unat r \<le> unat c + k"

lemma near_refl [simp]: "near c c k"
  by (simp add: near_def)

lemma near_trans: "near a b j \<Longrightarrow> near b c k \<Longrightarrow> near a c (j + k)"
  by (simp add: near_def)

lemma near_mono: "near a b j \<Longrightarrow> j \<le> k \<Longrightarrow> near a b k"
  by (simp add: near_def)

lemma near_le: "near a b k \<Longrightarrow> a \<le> b"
  by (simp add: near_def word_le_nat_alt)

lemma unat_add_u32:
  assumes "unat (c::u64) + 2 ^ 32 < 2 ^ 64"
  shows "unat (c + ucast (x::u32)) = unat c + unat x"
proof -
  have "unat (ucast x :: u64) = unat x" by (rule unat_widen) simp
  moreover have "unat x < 2 ^ 32" using unsigned_less [of x] by simp
  ultimately show ?thesis using assms by (subst unat_add_small) simp_all
qed

lemma near_add:
  assumes "unat (c::u64) + 2 ^ 32 < 2 ^ 64"
  shows "near c (c + ucast (x::u32)) (2 ^ 32)"
proof -
  have "unat x < 2 ^ 32" using unsigned_less [of x] by simp
  with unat_add_u32 [OF assms, of x] show ?thesis by (simp add: near_def)
qed

lemma near_add2:
  assumes "near a c k" and "unat a + k + 2 ^ 32 < 2 ^ 64"
  shows "near a (c + ucast (x::u32)) (k + 2 ^ 32)"
  using near_trans [OF assms(1) near_add [of c x]] assms by (simp add: near_def)

lemma near_max:
  assumes "near a b k" and "near a c k"
  shows "near a (MAX2 b c) k"
  using assms by (simp add: MAX2_def)

lemma of_nat_u32_inj: "j \<le> 256 \<Longrightarrow> k \<le> 256 \<Longrightarrow> (of_nat j :: u32) = of_nat k \<longleftrightarrow> j = k"
proof -
  assume "j \<le> 256" "k \<le> 256"
  then have "unat (of_nat j :: u32) = j" "unat (of_nat k :: u32) = k"
    by (simp_all only: unsigned_of_nat take_bit_eq_mod of_nat_id) simp_all
  then show ?thesis by metis
qed

subsection \<open>The primitive steps\<close>

lemma the_cache_upd: "k < length h \<Longrightarrow> the_cache (h[k := CacheObj c]) j = (if j = k then Some c else the_cache h j)"
  by (auto simp: the_cache_def read_at_def)

lemma the_cache_len: "the_cache h k = Some c \<Longrightarrow> k < length h"
  by (auto simp: the_cache_def read_at_def split: if_splits)

subsection \<open>The hierarchy\<close>

text \<open>
  \<open>E\<close> holds the environments of the caches, \<open>n\<close> their number, \<open>lat\<close> the latency of memory, \<open>nl\<close> and \<open>bl\<close>
  the lines of the arrays and of the controllers (the controller of the last level cache has twice as
  many). Object 0 is memory, 1 the shared cache, and the terminal caches follow.
\<close>

locale two_level = cache_array A ainv lns adr fnd pend clash
  for A :: "'a CacheArray" and ainv lns adr fnd pend clash +
  fixes E :: "nat \<Rightarrow> 'a cache_env" and pm :: u64 and n :: nat and lat :: u32 and nl bl :: "nat \<Rightarrow> nat"
  assumes env_array: "ce_array (E k) = A"
    and precise: "\<not> ce_isApprox (E k) a"
    and env_mask: "ce_procMask (E k) = pm"
begin

definition tcc_ok :: "MESITopCC \<Rightarrow> bool" where
  "tcc_ok t \<longleftrightarrow> tc_children t = [2..<n + 2] \<and> length (tc_childrenRTTs t) = n \<and>
     \<not> tc_nonInclusiveHack t \<and> length (tc_array t) = bl 1 \<and> (\<forall>e\<in>set (tc_array t). length (sharers e) = 256)"

definition top_ok :: "nat \<Rightarrow> MESITopCC option \<Rightarrow> bool" where
  "top_ok k x \<longleftrightarrow> (if k = 1 then \<exists>t. x = Some t \<and> tcc_ok t else x = None)"

text \<open>The lines that can replace each other in the array have the same index in the filter.\<close>

definition filter_ok :: "'a \<Rightarrow> FilterCache option \<Rightarrow> bool" where
  "filter_ok a x \<longleftrightarrow> (case x of None \<Rightarrow> True
     | Some f \<Rightarrow> fc_ok f \<and> (\<forall>c d. clash a c d \<longrightarrow> fc_index f c = fc_index f d))"

lemma filter_ok_clash: "clash a = clash b \<Longrightarrow> filter_ok a = filter_ok b"
  by (simp add: filter_ok_def fun_eq_iff split: option.split)

definition cc_ok :: "nat \<Rightarrow> 'a Cache \<Rightarrow> bool" where
  "cc_ok k c \<longleftrightarrow>
     top_ok k (c_tcc c) \<and>
     bc_parents (c_bcc c) = [if k = 1 then 0 else 1] \<and> length (bc_parentRTTs (c_bcc c)) = 1 \<and>
     (k \<noteq> 1 \<longrightarrow> bc_selfId (c_bcc c) = k - 2) \<and> length (bc_array (c_bcc c)) = bl k \<and>
     ainv (c_array c) \<and> lns (c_array c) = nl k \<and> nl k \<le> bl k \<and>
     filter_ok (c_array c) (c_filter c)"

definition conf :: "'a heap \<Rightarrow> bool" where
  "conf h \<longleftrightarrow> n \<le> MAX_CACHE_CHILDREN \<and> lat \<noteq> 0 \<and> length h = n + 2 \<and> h ! 0 = SimpleMemory lat \<and>
     (\<forall>k. 1 \<le> k \<longrightarrow> k < n + 2 \<longrightarrow> the_cache h k = Some (cch h k) \<and> cc_ok k (cch h k))"

definition F :: "'a heap \<Rightarrow> nat \<Rightarrow> address \<Rightarrow> nat option" where
  "F h k = fnd (c_array (cch h k))"

definition D :: "'a heap \<Rightarrow> nat \<Rightarrow> nat \<Rightarrow> address" where
  "D h k = adr (c_array (cch h k))"

text \<open>The state of an address in cache \<open>k\<close>.\<close>

definition hst :: "'a heap \<Rightarrow> nat \<Rightarrow> address \<Rightarrow> MESIState" where
  "hst h = vst (bst h) (F h)"

text \<open>
  What the filters need of a step: a line that still hits hit before and kept its state, but for the
  lines \<open>P j\<close> of the cache of core \<open>j\<close>.
\<close>

definition W :: "(nat \<Rightarrow> address \<Rightarrow> bool) \<Rightarrow> 'a heap \<Rightarrow> 'a heap \<Rightarrow> bool" where
  "W P h h' \<longleftrightarrow> (\<forall>j<n. \<forall>v. proc_line pm v \<longrightarrow> \<not> P j (pm OR v) \<longrightarrow>
     (rdh h' (j + 2) v \<longrightarrow> rdh h (j + 2) v \<and> hst h' (j + 2) (pm OR v) = hst h (j + 2) (pm OR v)) \<and>
     (wrh h' (j + 2) v \<longrightarrow> wrh h (j + 2) v)) \<and>
     (\<forall>j<n. map_option fc_shape (flts h' (j + 2)) = map_option fc_shape (flts h (j + 2)))"

abbreviation W0 :: "'a heap \<Rightarrow> 'a heap \<Rightarrow> bool" where
  "W0 \<equiv> W (\<lambda>_ _. False)"

lemma W_refl [simp]: "W P h h"
  by (simp add: W_def)

lemma W_trans [trans]: "W P h h' \<Longrightarrow> W P h' h'' \<Longrightarrow> W P h h''"
  by (auto simp: W_def)

lemma W_mono: "W0 h h' \<Longrightarrow> W P h h'"
  by (simp add: W_def)

lemma W_same:
  assumes "flts h' = flts h" and "\<And>j c. j < n \<Longrightarrow> \<not> P j c \<Longrightarrow> hst h' (j + 2) c = hst h (j + 2) c"
  shows "W P h h'"
  using assms hit_flts [OF assms(1)] by (simp add: W_def)

text \<open>The caches are those with a number between 1 and \<open>n + 1\<close>.\<close>

definition isc :: "nat \<Rightarrow> bool" where
  "isc k \<longleftrightarrow> 1 \<le> k \<and> k < n + 2"

definition tm :: "nat \<Rightarrow> bool" where
  "tm k \<longleftrightarrow> 2 \<le> k \<and> k < n + 2"

lemma tm_isc: "tm k \<Longrightarrow> isc k" "tm k \<Longrightarrow> k \<noteq> 1"
  by (auto simp: tm_def isc_def)

lemma isc_simps [simp]: "isc 1" "isc (Suc 0)" "i < n \<Longrightarrow> isc (i + 2)" "i < n \<Longrightarrow> isc (Suc (Suc i))"
  by (simp_all add: isc_def)

lemma conf_cache:
  assumes "conf h" and "isc k"
  shows "the_cache h k = Some (cch h k)" "cc_ok k (cch h k)" "k < length h"
  using assms by (auto simp: conf_def isc_def)

lemma conf_upd:
  assumes "conf h" and k: "isc k" and ok: "cc_ok k c"
  shows "conf (h[k := CacheObj c])" "cch (h[k := CacheObj c]) j = (if j = k then c else cch h j)"
proof -
  have len: "k < length h" by (rule conf_cache(3) [OF assms(1,2)])
  show cch: "cch (h[k := CacheObj c]) j = (if j = k then c else cch h j)" for j
    by (simp add: cch_def the_cache_upd [OF len])
  show "conf (h[k := CacheObj c])"
    using assms by (auto simp: conf_def isc_def cch the_cache_upd [OF len])
qed

lemma conf_bounds:
  assumes "conf h"
  shows "n \<le> 256" "lat \<noteq> 0"
  using assms by (simp_all add: conf_def MAX_CACHE_CHILDREN_def)

text \<open>What a step leaves unchanged but for the states of the lines and the directory.\<close>

definition keeps :: "'a heap \<Rightarrow> 'a heap \<Rightarrow> bool" where
  "keeps h h' \<longleftrightarrow> conf h' \<and> F h' = F h \<and> D h' = D h \<and>
     (\<forall>k. c_accLat (cch h' k) = c_accLat (cch h k) \<and> c_invLat (cch h' k) = c_invLat (cch h k))"

lemma keeps_refl [simp]: "keeps h h = conf h"
  by (simp add: keeps_def)

lemma keeps_trans [trans]: "keeps h h' \<Longrightarrow> keeps h' h'' \<Longrightarrow> keeps h h''"
  by (simp add: keeps_def)

lemma get_state_run:
  assumes "conf h" and "isc k" and "i < bl k"
  shows "get_state k i h = Some (bst h k i)"
  using conf_cache [OF assms(1,2)] assms(3) by (simp add: get_state_def cc_ok_def bst_def read_at_def)

lemma put_state_run:
  assumes "conf h" and "isc k" and "i < bl k"
  shows "\<exists>h'. put_state k i st h = Some h' \<and> keeps h h' \<and> ent h' = ent h \<and>
    bst h' = (bst h)(k := (bst h k)(i := st)) \<and> arrs h' = arrs h \<and> flts h' = flts h"
proof -
  note c = conf_cache [OF assms(1,2)]
  let ?c = "(cch h k)\<lparr>c_bcc := (c_bcc (cch h k))\<lparr>bc_array := (bc_array (c_bcc (cch h k)))[i := st]\<rparr>\<rparr>"
  have ok: "cc_ok k ?c" using c(2) by (simp add: cc_ok_def)
  have len: "i < length (bc_array (c_bcc (cch h k)))" using c(2) assms(3) by (simp add: cc_ok_def)
  have run: "put_state k i st h = Some (h[k := CacheObj ?c])"
    using c len by (simp add: put_state_def write_at_def)
  note u = conf_upd [OF assms(1,2) ok]
  have "bst (h[k := CacheObj ?c]) = (bst h)(k := (bst h k)(i := st))"
    using len by (auto simp: bst_def u(2) fun_eq_iff nth_list_update)
  then show ?thesis using run u
    by (intro exI [of _ "h[k := CacheObj ?c]"]) (auto simp: keeps_def F_def D_def ent_def arrs_def flts_def fun_eq_iff)
qed

lemma prof_inc_run:
  assumes "conf h" and "isc k"
  shows "\<exists>h'. prof_inc f x k h = Some h' \<and> keeps h h' \<and> ent h' = ent h \<and> bst h' = bst h \<and>
    arrs h' = arrs h \<and> flts h' = flts h"
proof -
  note c = conf_cache [OF assms]
  let ?c = "(cch h k)\<lparr>c_bcc := (c_bcc (cch h k))\<lparr>bc_prof := f (\<lambda>y. y + x) (bc_prof (c_bcc (cch h k)))\<rparr>\<rparr>"
  have ok: "cc_ok k ?c" using c(2) by (simp add: cc_ok_def)
  have run: "prof_inc f x k h = Some (h[k := CacheObj ?c])"
    using c by (simp add: prof_inc_def mod_cache_def)
  note u = conf_upd [OF assms ok]
  show ?thesis using run u
    by (intro exI [of _ "h[k := CacheObj ?c]"]) (auto simp: keeps_def F_def D_def ent_def bst_def arrs_def flts_def fun_eq_iff)
qed

text \<open>The array of a cache is replaced by one that holds the same lines.\<close>

lemma set_array_run:
  assumes "conf h" and "isc k" and a: "ainv a" "lns a = lns (c_array (cch h k))" "adr a = adr (c_array (cch h k))"
    "fnd a = fnd (c_array (cch h k))" "clash a = clash (c_array (cch h k))"
  shows "\<exists>h'. mod_cache k (\<lambda>c. c\<lparr>c_array := a\<rparr>) h = Some h' \<and> keeps h h' \<and> ent h' = ent h \<and> bst h' = bst h \<and>
    arrs h' = (arrs h)(k := a) \<and> flts h' = flts h"
proof -
  note c = conf_cache [OF assms(1,2)]
  let ?c = "(cch h k)\<lparr>c_array := a\<rparr>"
  have ok: "cc_ok k ?c" using c(2) a filter_ok_clash [OF a(5)] by (simp add: cc_ok_def)
  have run: "mod_cache k (\<lambda>c. c\<lparr>c_array := a\<rparr>) h = Some (h[k := CacheObj ?c])"
    using c by (simp add: mod_cache_def)
  note u = conf_upd [OF assms(1,2) ok]
  show ?thesis using run u a
    by (intro exI [of _ "h[k := CacheObj ?c]"]) (auto simp: keeps_def F_def D_def ent_def bst_def arrs_def flts_def fun_eq_iff)
qed

lemma get_entry_run:
  assumes "conf h" and "i < bl 1"
  shows "get_entry 1 i h = Some (ent h i)" "length (sharers (ent h i)) = 256"
  using conf_cache [OF assms(1), of 1] assms(2)
  by (auto simp: get_entry_def get_tcc_def cc_ok_def top_ok_def tcc_ok_def ent_def read_at_def)

lemma mod_entry_run:
  assumes "conf h" and "i < bl 1" and f: "length (sharers (f (ent h i))) = 256"
  shows "\<exists>h'. mod_entry 1 i f h = Some h' \<and> keeps h h' \<and> ent h' = (ent h)(i := f (ent h i)) \<and> bst h' = bst h \<and>
    arrs h' = arrs h \<and> flts h' = flts h"
proof -
  have k: "isc 1" by simp
  note c = conf_cache [OF assms(1) k]
  obtain t where t: "c_tcc (cch h 1) = Some t" "tcc_ok t" using c(2) by (auto simp: cc_ok_def top_ok_def)
  let ?c = "(cch h 1)\<lparr>c_tcc := Some (t\<lparr>tc_array := (tc_array t)[i := f (ent h i)]\<rparr>)\<rparr>"
  have len: "i < length (tc_array t)" using t(2) assms(2) by (simp add: tcc_ok_def)
  have "tcc_ok (t\<lparr>tc_array := (tc_array t)[i := f (ent h i)]\<rparr>)"
    using t(2) f by (auto simp: tcc_ok_def dest!: set_update_subset_insert [THEN subsetD])
  then have ok: "cc_ok 1 ?c" using c(2) by (simp add: cc_ok_def top_ok_def)
  have run: "mod_entry 1 i f h = Some (h[1 := CacheObj ?c])"
    using c t len by (simp add: mod_entry_def read_at_def ent_def)
  note u = conf_upd [OF assms(1) k ok]
  have tc: "the (c_tcc (cch (h[1 := CacheObj ?c]) 1)) = t\<lparr>tc_array := (tc_array t)[i := f (ent h i)]\<rparr>"
    using u(2) [of 1] by simp
  have "ent (h[1 := CacheObj ?c]) = (ent h)(i := f (ent h i))"
  proof
    fix j
    have "ent (h[1 := CacheObj ?c]) j = (tc_array t)[i := f (ent h i)] ! j"
      unfolding ent_def [of "h[1 := CacheObj ?c]"] tc by simp
    then show "ent (h[1 := CacheObj ?c]) j = ((ent h)(i := f (ent h i))) j"
      using len t by (simp add: nth_list_update ent_def [of h j])
  qed
  then show ?thesis using run u t
    by (intro exI [of _ "h[1 := CacheObj ?c]"]) (auto simp: keeps_def F_def D_def bst_def arrs_def flts_def fun_eq_iff)
qed

lemma get_tcc_run:
  assumes "conf h"
  shows "\<exists>t. get_tcc 1 h = Some t \<and> tcc_ok t"
  using conf_cache [OF assms, of 1] by (auto simp: get_tcc_def cc_ok_def top_ok_def)

lemma F_bound:
  assumes "conf h" and "isc k" and "F h k a = Some i"
  shows "i < nl k" "i < bl k" "D h k i = a"
  using conf_cache [OF assms(1,2)] assms(3) fnd_adr [of "c_array (cch h k)" a i]
  by (auto simp: F_def D_def cc_ok_def)

lemma arrs_keeps: "keeps h h' \<Longrightarrow> conf h'"
  by (simp add: keeps_def)

lemma lookup_run:
  assumes "conf h" and "isc k"
  shows "\<exists>a' h'. ca_lookup A a req upd (c_array (cch h k)) = Some (case F h k a of None \<Rightarrow> -1 | Some i \<Rightarrow> int i, a') \<and>
    clash a' = clash (c_array (cch h k)) \<and> mod_cache k (\<lambda>c. c\<lparr>c_array := a'\<rparr>) h = Some h' \<and> keeps h h' \<and> ent h' = ent h \<and> bst h' = bst h \<and>
    flts h' = flts h \<and>
    (\<not> upd \<longrightarrow> arrs h' = arrs h)"
proof -
  have inv: "ainv (c_array (cch h k))" using conf_cache(2) [OF assms] by (simp add: cc_ok_def)
  obtain a' where a': "ca_lookup A a req upd (c_array (cch h k)) = Some (case F h k a of None \<Rightarrow> -1 | Some i \<Rightarrow> int i, a')"
    "ainv a'" "lns a' = lns (c_array (cch h k))" "adr a' = adr (c_array (cch h k))" "fnd a' = fnd (c_array (cch h k))"
    "clash a' = clash (c_array (cch h k))" "\<not> upd \<longrightarrow> a' = c_array (cch h k)"
    using lookup_law [OF inv, of a req upd] unfolding F_def by blast
  from set_array_run [OF assms a'(2-6)] obtain h' where "mod_cache k (\<lambda>c. c\<lparr>c_array := a'\<rparr>) h = Some h'" "keeps h h'"
    "ent h' = ent h" "bst h' = bst h" "arrs h' = (arrs h)(k := a')" "flts h' = flts h" by blast
  with a'(1,6,7) show ?thesis by (intro exI [of _ a'] exI [of _ h']) (auto simp: arrs_def fun_eq_iff)
qed

subsection \<open>Invalidations\<close>

lemma filter_invalidate_run:
  assumes "conf h" and "isc k"
  shows "\<exists>h'. filter_invalidate pm k req h = Some h' \<and> keeps h h' \<and> ent h' = ent h \<and> bst h' = bst h \<and> arrs h' = arrs h \<and>
    (\<forall>j. j \<noteq> k \<longrightarrow> flts h' j = flts h j) \<and> map_option fc_shape (flts h' k) = map_option fc_shape (flts h k) \<and> (\<forall>v. proc_line pm v \<longrightarrow>
      (rdh h' k v \<longrightarrow> rdh h k v \<and> pm OR v \<noteq> inv_lineAddr req) \<and> (wrh h' k v \<longrightarrow> wrh h k v))"
proof (cases "c_filter (cch h k)")
  case None
  then show ?thesis using conf_cache [OF assms] assms(1)
    by (intro exI [of _ h]) (simp add: filter_invalidate_def rdh_def wrh_def flts_def)
next
  case (Some f)
  note c = conf_cache [OF assms]
  let ?a = "inv_lineAddr req"
  have ok: "fc_ok f" and cl: "\<forall>x y. clash (c_array (cch h k)) x y \<longrightarrow> fc_index f x = fc_index f y"
    using c(2) Some by (simp_all add: cc_ok_def filter_ok_def)
  obtain g where g: "fc_invalidate pm ?a f = Some g" "fc_ok g" "fc_index g = fc_index f"
    "\<forall>w. w \<noteq> -1 \<longrightarrow> rd_hit g w \<longrightarrow> rd_hit f w \<and> (fc_index f w = fc_index f ?a \<longrightarrow> w OR pm \<noteq> ?a)"
    "\<forall>w. w \<noteq> -1 \<longrightarrow> wr_hit g w \<longrightarrow> wr_hit f w"
    using fc_invalidate_run [OF ok, of pm ?a] by blast
  let ?c = "(cch h k)\<lparr>c_filter := Some g\<rparr>"
  have okc: "cc_ok k ?c" using c(2) g(2,3) cl by (simp add: cc_ok_def filter_ok_def)
  have run: "filter_invalidate pm k req h = Some (h[k := CacheObj ?c])"
    using c Some g(1) by (simp add: filter_invalidate_def mod_cache_def)
  note u = conf_upd [OF assms okc]
  note shape = fc_shape_invalidate [OF g(1)]
  have gone: "pm OR v \<noteq> ?a" if "proc_line pm v" "rd_hit g v" for v
  proof
    assume a: "pm OR v = ?a"
    have "fc_index f ?a = fc_index f v"
      using fc_index_proc [OF ok, of pm v] that(1) unfolding a by (simp add: proc_line_def)
    with g(4) that a show False by (auto simp: proc_line_def or.commute)
  qed
  show ?thesis
  proof (intro exI [of _ "h[k := CacheObj ?c]"] conjI allI impI)
    fix v
    assume v: "proc_line pm v"
    show "rdh h k v" if "rdh (h[k := CacheObj ?c]) k v"
      using that g(4) v Some by (simp add: rdh_def flts_def u(2) proc_line_def)
    show "pm OR v \<noteq> ?a" if "rdh (h[k := CacheObj ?c]) k v"
      using that gone [OF v] by (simp add: rdh_def flts_def u(2))
    show "wrh h k v" if "wrh (h[k := CacheObj ?c]) k v"
      using that g(5) v Some by (simp add: wrh_def flts_def u(2) proc_line_def)
  qed (use run u shape Some in \<open>auto simp: keeps_def F_def D_def ent_def bst_def arrs_def flts_def fun_eq_iff\<close>)
qed

lemma inv_terminal:
  assumes c: "conf h" and i: "tm k" and f: "F h k a = Some l" and st: "bst h k l \<noteq> StI"
    and ty: "type = INV \<or> type = INVX \<and> bst h k l \<in> {StE, StM}" and cyc: "unat cyc + 2 ^ 32 < 2 ^ 64"
  shows "\<exists>r h'. invalidate E (Suc m) k \<lparr>inv_lineAddr = a, inv_type = type, inv_writeback = wb, inv_cycle = cyc,
      inv_srcId = src\<rparr> h = Some (r, wb \<or> bst h k l = StM, h') \<and> keeps h h' \<and> ent h' = ent h \<and> arrs h' = arrs h \<and>
    bst h' = (bst h)(k := (bst h k)(l := if type = INV then StI else StS)) \<and> near cyc r (2 ^ 32) \<and> W0 h h'"
proof -
  have k: "isc k" and k1: "k \<noteq> 1" using i by (auto simp: tm_def isc_def)
  let ?req = "\<lparr>inv_lineAddr = a, inv_type = type, inv_writeback = wb, inv_cycle = cyc, inv_srcId = src\<rparr>"
  note l = F_bound [OF c k f]
  obtain h0 where h0: "filter_invalidate pm k ?req h = Some h0" "keeps h h0" "ent h0 = ent h" "bst h0 = bst h" "arrs h0 = arrs h"
    "\<forall>j. j \<noteq> k \<longrightarrow> flts h0 j = flts h j" "map_option fc_shape (flts h0 k) = map_option fc_shape (flts h k)" "\<forall>v. proc_line pm v \<longrightarrow>
      (rdh h0 k v \<longrightarrow> rdh h k v \<and> pm OR v \<noteq> a) \<and> (wrh h0 k v \<longrightarrow> wrh h k v)"
    using filter_invalidate_run [OF c k, of ?req] by auto
  note c0 = arrs_keeps [OF h0(2)]
  note cc = conf_cache [OF c0 k]
  have f0: "F h0 k a = Some l" using f h0(2) by (simp add: keeps_def)
  have top: "c_tcc (cch h0 k) = None" using cc(2) k1 by (simp add: cc_ok_def top_ok_def)
  obtain a' h1 where h1: "ca_lookup A a None False (c_array (cch h0 k)) = Some (int l, a')"
    "mod_cache k (\<lambda>c. c\<lparr>c_array := a'\<rparr>) h0 = Some h1" "keeps h0 h1" "ent h1 = ent h0" "bst h1 = bst h0" "arrs h1 = arrs h0"
    "flts h1 = flts h0"
    using lookup_run [OF c0 k, of a None False] f0 by auto
  have c1: "conf h1" by (rule arrs_keeps [OF h1(3)])
  have top1: "the_cache h1 k = Some (cch h1 k)" "c_tcc (cch h1 k) = None"
    using conf_cache [OF c1 k] k1 by (simp_all add: cc_ok_def top_ok_def)
  let ?st = "if type = INV then StI else StS"
  obtain h2 where h2: "put_state k l ?st h1 = Some h2" "keeps h1 h2" "ent h2 = ent h1"
    "bst h2 = (bst h1)(k := (bst h1 k)(l := ?st))" "arrs h2 = arrs h1" "flts h2 = flts h1"
    using put_state_run [OF c1 k l(2), of ?st] by blast
  obtain h3 where h3: "prof_inc (if type = INV then profINV_update else profINVX_update) 1 k h2 = Some h3" "keeps h2 h3"
    "ent h3 = ent h2" "bst h3 = bst h2" "arrs h3 = arrs h2" "flts h3 = flts h2"
    using prof_inc_run [OF arrs_keeps [OF h2(2)] k] by blast
  have g: "get_state k l h1 = Some (bst h k l)" using get_state_run [OF c1 k l(2)] h1(5) h0(4) by simp
  have pi: "bcc_processInval k l type wb h1 = Some (wb \<or> bst h k l = StM, h3)"
    using ty st h2(1) h3(1) by (auto simp: bcc_processInval_def g)
  let ?r = "cyc + ucast (c_invLat (cch h0 k))"
  have "invalidate E (Suc m) k ?req h = Some (?r, wb \<or> bst h k l = StM, h3)"
    using cc(1) h0(1) h1(1,2) top1 pi by (simp add: finishInvalidate_def precise env_array env_mask processInv_def)
  moreover have kp: "keeps h h3" using h0(2) h1(3) h2(2) h3(2) keeps_trans by blast
  moreover have "near cyc ?r (2 ^ 32)" by (rule near_add [OF cyc])
  moreover have b3: "bst h3 = (bst h)(k := (bst h k)(l := ?st))" using h0 h1 h2 h3 by simp
  moreover have "W0 h h3"
    unfolding W_def
  proof (intro conjI allI impI)
    have fl: "flts h3 = flts h0" using h1 h2 h3 by simp
    show "map_option fc_shape (flts h3 (j + 2)) = map_option fc_shape (flts h (j + 2))" for j
      using fl h0(6,7) by (cases "j + 2 = k") simp_all
    fix j v
    assume j: "j < n" and v: "proc_line pm v"
    have F3: "F h3 = F h" using kp by (simp add: keeps_def)
    have other: "hst h3 k' x = hst h k' x" if "k' \<noteq> k \<or> x \<noteq> a" for k' x
      using that F_bound(3) [OF c k, of x l] F_bound(3) [OF c k f] by (auto simp: hst_def vst_def F3 b3 split: option.split)
    show "rdh h (j + 2) v" "hst h3 (j + 2) (pm OR v) = hst h (j + 2) (pm OR v)" if "rdh h3 (j + 2) v"
      using that hit_flts [OF fl] h0(6,8) v other [of "j + 2" "pm OR v"] by (cases "j + 2 = k"; auto simp: rdh_def wrh_def)+
    show "wrh h (j + 2) v" if "wrh h3 (j + 2) v"
      using that hit_flts [OF fl] h0(6,8) v by (cases "j + 2 = k") (auto simp: rdh_def wrh_def)
  qed
  ultimately show ?thesis using h0 h1 h2 h3 by (intro exI [of _ ?r] exI [of _ h3]) simp
qed

text \<open>The sharers among the children from \<open>c\<close> to \<open>c + m - 1\<close>, and the states after their invalidation.\<close>

definition among :: "Entry \<Rightarrow> nat \<Rightarrow> nat \<Rightarrow> nat set" where
  "among e c m = {j. c \<le> j \<and> j < c + m \<and> sharers e ! j}"

definition after_inv :: "InvType \<Rightarrow> address \<Rightarrow> nat set \<Rightarrow> (nat \<Rightarrow> address \<Rightarrow> nat option) \<Rightarrow> (nat \<Rightarrow> nat \<Rightarrow> MESIState) \<Rightarrow>
    nat \<Rightarrow> nat \<Rightarrow> MESIState" where
  "after_inv type a S f b k i = (if (\<exists>j\<in>S. k = j + 2) \<and> f k a = Some i then (if type = INV then StI else StS) else b k i)"

definition dirty :: "address \<Rightarrow> nat set \<Rightarrow> 'a heap \<Rightarrow> bool" where
  "dirty a S h \<longleftrightarrow> (\<exists>j\<in>S. \<exists>i. F h (j + 2) a = Some i \<and> bst h (j + 2) i = StM)"

definition can_inv :: "InvType \<Rightarrow> address \<Rightarrow> nat set \<Rightarrow> 'a heap \<Rightarrow> bool" where
  "can_inv type a S h \<longleftrightarrow> (\<forall>j\<in>S. \<exists>i. F h (j + 2) a = Some i \<and> bst h (j + 2) i \<noteq> StI \<and>
     (type = INVX \<longrightarrow> bst h (j + 2) i \<in> {StE, StM}))"

lemma among_finite [simp]: "finite (among e c m)"
  by (rule finite_subset [of _ "{c..<c + m}"]) (auto simp: among_def)

lemma among_0 [simp]: "among e c 0 = {}"
  by (auto simp: among_def)

lemma among_Suc:
  "among e c (Suc m) = (if sharers e ! c then insert c (among e (Suc c) m) else among e (Suc c) m)"
  by (auto simp: among_def le_Suc_eq not_less_eq_eq Suc_le_eq) (metis le_neq_implies_less)+

lemma among_upd:
  "among (e\<lparr>sharers := (sharers e)[c := x]\<rparr>) (Suc c) m = among e (Suc c) m"
  by (auto simp: among_def nth_list_update)

lemma among_less: "c \<notin> among e (Suc c) m"
  by (simp add: among_def)

lemma invs_loop_run:
  assumes "conf h" and "l < bl 1" and "c + m \<le> n" and "type \<noteq> FWD"
    and "can_inv type a (among (ent h l) c m) h"
    and "unat cyc + 2 ^ 34 < 2 ^ 64" and "near cyc mx (2 ^ 33)"
  shows "\<exists>mx' h'. invs_loop (invalidate E (Suc q)) 1 a l type cyc src c m (wb, mx, sent, h) =
      Some (wb \<or> dirty a (among (ent h l) c m) h, mx', sent + of_nat (card (among (ent h l) c m)), h') \<and>
    keeps h h' \<and> arrs h' = arrs h \<and> near cyc mx' (2 ^ 33) \<and>
    bst h' = after_inv type a (among (ent h l) c m) (F h) (bst h) \<and>
    (\<forall>x. x \<noteq> l \<longrightarrow> ent h' x = ent h x) \<and> numSharers (ent h' l) = numSharers (ent h l) \<and>
    exclusive (ent h' l) = exclusive (ent h l) \<and>
    shr (ent h' l) = shr (ent h l) - (if type = INV then among (ent h l) c m else {}) \<and> W0 h h'"
  using assms
proof (induction m arbitrary: c h wb mx sent)
  case 0
  then show ?case by (auto simp: after_inv_def dirty_def fun_eq_iff)
next
  case (Suc m)
  note conf = Suc.prems(1) and l = Suc.prems(2)
  note e = get_entry_run [OF conf l]
  have cl: "c < 256" using Suc.prems(3) conf_bounds(1) [OF conf] by simp
  show ?case
  proof (cases "sharers (ent h l) ! c")
    case False
    have am: "among (ent h l) c (Suc m) = among (ent h l) (Suc c) m" using False by (simp add: among_Suc)
    have step: "invs_loop (invalidate E (Suc q)) 1 a l type cyc src c (Suc m) (wb, mx, sent, h) =
        invs_loop (invalidate E (Suc q)) 1 a l type cyc src (Suc c) m (wb, mx, sent, h)"
      using e cl False by (simp add: read_at_def del: invalidate.simps)
    show ?thesis unfolding step am
      by (rule Suc.IH [OF conf l _ Suc.prems(4) _ Suc.prems(6,7)]) (use Suc.prems(3,5) am in auto)
  next
    case True
    let ?S = "among (ent h l) (Suc c) m"
    have am: "among (ent h l) c (Suc m) = insert c ?S" using True by (simp add: among_Suc)
    have tm: "tm (c + 2)" using Suc.prems(3) by (simp add: tm_def)
    obtain i where i: "F h (c + 2) a = Some i" "bst h (c + 2) i \<noteq> StI" "type = INVX \<longrightarrow> bst h (c + 2) i \<in> {StE, StM}"
      using Suc.prems(5) unfolding am can_inv_def by blast
    obtain t where t: "get_tcc 1 h = Some t" "tcc_ok t" using get_tcc_run [OF conf] by blast
    have child: "read_at (tc_children t) c = Some (c + 2)"
      using t(2) Suc.prems(3) by (simp add: tcc_ok_def read_at_def del: upt_Suc)
    obtain rtt where rtt: "read_at (tc_childrenRTTs t) c = Some rtt"
      using t(2) Suc.prems(3) by (simp add: tcc_ok_def read_at_def)
    obtain r h1 where r: "invalidate E (Suc q) (c + 2) \<lparr>inv_lineAddr = a, inv_type = type, inv_writeback = wb,
        inv_cycle = cyc, inv_srcId = src\<rparr> h = Some (r, wb \<or> bst h (c + 2) i = StM, h1)" "keeps h h1" "ent h1 = ent h"
        "arrs h1 = arrs h" "bst h1 = (bst h)(c + 2 := (bst h (c + 2))(i := if type = INV then StI else StS))"
        "near cyc r (2 ^ 32)" "W0 h h1"
      using inv_terminal [OF conf tm i(1,2), of type cyc q wb src] i(3) Suc.prems(4,6) by (cases type) auto
    note c1 = arrs_keeps [OF r(2)]
    let ?f = "\<lambda>e. if type = INV then e\<lparr>sharers := (sharers e)[c := False]\<rparr> else e"
    have "\<exists>h2. (if type = INV then mod_entry 1 l (\<lambda>e. e\<lparr>sharers := (sharers e)[c := False]\<rparr>) h1 else Some h1) = Some h2 \<and>
      keeps h1 h2 \<and> ent h2 = (ent h1)(l := ?f (ent h1 l)) \<and> bst h2 = bst h1 \<and> arrs h2 = arrs h1 \<and> flts h2 = flts h1"
    proof (cases "type = INV")
      case True
      with mod_entry_run [OF c1 l, of "\<lambda>e. e\<lparr>sharers := (sharers e)[c := False]\<rparr>"] get_entry_run(2) [OF c1 l] show ?thesis
        by auto
    next
      case False
      with c1 show ?thesis by simp
    qed
    then obtain h2 where h2: "(if type = INV then mod_entry 1 l (\<lambda>e. e\<lparr>sharers := (sharers e)[c := False]\<rparr>) h1 else Some h1) = Some h2"
      "keeps h1 h2" "ent h2 = (ent h1)(l := ?f (ent h1 l))" "bst h2 = bst h1" "arrs h2 = arrs h1" "flts h2 = flts h1" by blast
    have w2: "W0 h h2" by (rule W_trans [OF r(7) W_same [OF h2(6)]])
      (simp add: hst_def h2(4) keeps_def h2(2) [unfolded keeps_def])
    note c2 = arrs_keeps [OF h2(2)]
    have k2: "keeps h h2" using r(2) h2(2) by (rule keeps_trans)
    have am2: "among (ent h2 l) (Suc c) m = ?S" using h2(3) r(3) by (simp add: among_upd)
    have F2: "F h2 = F h" using k2 by (simp add: keeps_def)
    have b2: "bst h2 = (bst h)(c + 2 := (bst h (c + 2))(i := if type = INV then StI else StS))" using h2(4) r(5) by simp
    have other: "bst h2 (j + 2) = bst h (j + 2)" if "j \<in> ?S" for j
      using that b2 by (auto simp: among_def)
    let ?mx = "MAX2 (r + ucast rtt) mx"
    have near: "near cyc ?mx (2 ^ 33)"
      by (rule near_max [OF near_mono [OF near_add2 [OF r(6)]] Suc.prems(7)]) (use Suc.prems(6) in simp_all)
    have step: "invs_loop (invalidate E (Suc q)) 1 a l type cyc src c (Suc m) (wb, mx, sent, h) =
        invs_loop (invalidate E (Suc q)) 1 a l type cyc src (Suc c) m
          (wb \<or> bst h (c + 2) i = StM, ?mx, sent + 1, h2)"
      using e cl True t child rtt r(1) h2(1) by (simp add: read_at_in del: invalidate.simps)
    have can: "can_inv type a (among (ent h2 l) (Suc c) m) h2"
      using Suc.prems(5) other unfolding am am2 can_inv_def F2 by simp
    have cm: "Suc c + m \<le> n" using Suc.prems(3) by simp
    obtain mx' h' where fin: "invs_loop (invalidate E (Suc q)) 1 a l type cyc src (Suc c) m
          (wb \<or> bst h (c + 2) i = StM, ?mx, sent + 1, h2) =
        Some ((wb \<or> bst h (c + 2) i = StM) \<or> dirty a ?S h2, mx', sent + 1 + of_nat (card ?S), h')"
      "keeps h2 h'" "arrs h' = arrs h2" "near cyc mx' (2 ^ 33)" "bst h' = after_inv type a ?S (F h2) (bst h2)"
      "\<forall>x. x \<noteq> l \<longrightarrow> ent h' x = ent h2 x" "numSharers (ent h' l) = numSharers (ent h2 l)"
      "exclusive (ent h' l) = exclusive (ent h2 l)" "shr (ent h' l) = shr (ent h2 l) - (if type = INV then ?S else {})" "W0 h2 h'"
      using Suc.IH [OF c2 l cm Suc.prems(4) can Suc.prems(6) near, of "wb \<or> bst h (c + 2) i = StM" "sent + 1"]
      unfolding am2 by blast
    have "dirty a (insert c ?S) h \<longleftrightarrow> bst h (c + 2) i = StM \<or> dirty a ?S h2"
      unfolding dirty_def F2 using i(1) other by auto
    moreover have "sent + 1 + of_nat (card ?S) = sent + of_nat (card (insert c ?S))"
      using among_less by simp
    moreover have "bst h' = after_inv type a (insert c ?S) (F h) (bst h)"
      unfolding fin(5) F2 b2 after_inv_def using i(1) by (auto simp: fun_eq_iff among_def)
    moreover have "shr (ent h' l) = shr (ent h l) - (if type = INV then insert c ?S else {})"
      unfolding fin(9) h2(3) using r(3) cl e(2) by (auto simp: shr_def nth_list_update)
    ultimately show ?thesis unfolding step am fin(1)
      using keeps_trans [OF k2 fin(2)] fin(3,4,6-8) h2 r(3,4) W_trans [OF w2 fin(10)]
      by (intro exI [of _ mx'] exI [of _ h']) auto
  qed
qed

end

end
