(* ===== verification/Hierarchy_Protocol.thy ===== *)
theory Hierarchy_Protocol imports Hierarchy begin

text \<open>
  The invariant of the protocol on a view of the hierarchy, and that each change of the protocol keeps
  it: \<open>b\<close> are the states of the line ids, \<open>e\<close> the directory of the shared cache, \<open>f\<close> and \<open>d\<close> what the
  arrays hold.
\<close>

definition dir_ok :: "nat \<Rightarrow> Entry \<Rightarrow> bool" where
  "dir_ok n x \<longleftrightarrow> shr x \<subseteq> {..<n} \<and> numSharers x = of_nat (card (shr x)) \<and> (exclusive x \<longrightarrow> card (shr x) \<le> 1)"

lemma shr_finite [simp]: "finite (shr x)"
  by (simp add: shr_def)

lemma dir_ok_empty: "dir_ok n x \<Longrightarrow> n \<le> 256 \<Longrightarrow> isEmpty x \<longleftrightarrow> shr x = {}"
proof -
  assume d: "dir_ok n x" and n: "n \<le> 256"
  have "card (shr x) \<le> card {..<n}" using d by (intro card_mono) (auto simp: dir_ok_def)
  then have c: "card (shr x) \<le> 256" using n by simp
  have "isEmpty x \<longleftrightarrow> (of_nat (card (shr x)) :: u32) = of_nat 0" using d by (simp add: isEmpty_def dir_ok_def)
  also have "\<dots> \<longleftrightarrow> card (shr x) = 0" using c by (intro of_nat_u32_inj) simp_all
  also have "\<dots> \<longleftrightarrow> shr x = {}" by simp
  finally show ?thesis .
qed

lemma dir_ok_excl:
  assumes "dir_ok n x" and "n \<le> 256"
  shows "isExclusive x \<longleftrightarrow> exclusive x \<and> card (shr x) = 1"
proof -
  have "card (shr x) \<le> card {..<n}" using assms by (intro card_mono) (auto simp: dir_ok_def)
  then have c: "card (shr x) \<le> 256" using assms by simp
  have "numSharers x = 1 \<longleftrightarrow> (of_nat (card (shr x)) :: u32) = of_nat 1" using assms by (simp add: dir_ok_def)
  also have "\<dots> \<longleftrightarrow> card (shr x) = 1" using c by (intro of_nat_u32_inj) simp_all
  finally show ?thesis by (auto simp: isExclusive_def)
qed

lemma two_not_one [simp]: "j + 2 \<noteq> (1::nat)" "1 \<noteq> j + (2::nat)"
  by arith+

context two_level begin

definition Inv :: "(nat \<Rightarrow> nat \<Rightarrow> MESIState) \<Rightarrow> (nat \<Rightarrow> Entry) \<Rightarrow> (nat \<Rightarrow> address \<Rightarrow> nat option) \<Rightarrow> (nat \<Rightarrow> nat \<Rightarrow> address) \<Rightarrow> bool" where
  "Inv b e f d \<longleftrightarrow>
     (\<forall>k a i. isc k \<longrightarrow> f k a = Some i \<longrightarrow> i < nl k \<and> i < bl k \<and> d k i = a) \<and>
     (\<forall>k i. isc k \<longrightarrow> i < bl k \<longrightarrow> b k i \<noteq> StI \<longrightarrow> f k (d k i) = Some i) \<and>
     (\<forall>i<bl 1. dir_ok n (e i) \<and> (b 1 i = StI \<longrightarrow> shr (e i) = {}) \<and>
        (isExclusive (e i) \<longrightarrow> b 1 i = StE \<or> b 1 i = StM) \<and>
        (\<forall>j\<in>shr (e i). if isExclusive (e i) then vst b f (j + 2) (d 1 i) \<in> {StE, StM} else vst b f (j + 2) (d 1 i) = StS)) \<and>
     (\<forall>a. \<forall>j<n. vst b f (j + 2) a \<noteq> StI \<longrightarrow> (\<exists>i. f 1 a = Some i \<and> j \<in> shr (e i))) \<and> n \<le> 256"

lemma InvD:
  assumes "Inv b e f d"
  shows "isc k \<Longrightarrow> f k a = Some i \<Longrightarrow> i < nl k \<and> i < bl k \<and> d k i = a"
    "isc k \<Longrightarrow> i < bl k \<Longrightarrow> b k i \<noteq> StI \<Longrightarrow> f k (d k i) = Some i"
    "i < bl 1 \<Longrightarrow> dir_ok n (e i)" "i < bl 1 \<Longrightarrow> b 1 i = StI \<Longrightarrow> shr (e i) = {}"
    "i < bl 1 \<Longrightarrow> isExclusive (e i) \<Longrightarrow> b 1 i = StE \<or> b 1 i = StM"
    "i < bl 1 \<Longrightarrow> j \<in> shr (e i) \<Longrightarrow> isExclusive (e i) \<Longrightarrow> vst b f (j + 2) (d 1 i) \<in> {StE, StM}"
    "i < bl 1 \<Longrightarrow> j \<in> shr (e i) \<Longrightarrow> \<not> isExclusive (e i) \<Longrightarrow> vst b f (j + 2) (d 1 i) = StS"
    "j < n \<Longrightarrow> vst b f (j + 2) a \<noteq> StI \<Longrightarrow> \<exists>i. f 1 a = Some i \<and> j \<in> shr (e i)" "n \<le> 256"
proof -
  note I = assms [unfolded Inv_def]
  note I1 = I [THEN conjunct1, rule_format] and I2 = I [THEN conjunct2, THEN conjunct1, rule_format]
    and I3 = I [THEN conjunct2, THEN conjunct2, THEN conjunct1, rule_format]
    and I4 = I [THEN conjunct2, THEN conjunct2, THEN conjunct2, THEN conjunct1, rule_format]
    and I5 = I [THEN conjunct2, THEN conjunct2, THEN conjunct2, THEN conjunct2]
  show "isc k \<Longrightarrow> f k a = Some i \<Longrightarrow> i < nl k \<and> i < bl k \<and> d k i = a" by (rule I1)
  show "isc k \<Longrightarrow> i < bl k \<Longrightarrow> b k i \<noteq> StI \<Longrightarrow> f k (d k i) = Some i" by (rule I2)
  show "i < bl 1 \<Longrightarrow> dir_ok n (e i)" using I3 [of i] by blast
  show "i < bl 1 \<Longrightarrow> b 1 i = StI \<Longrightarrow> shr (e i) = {}" using I3 [of i] by blast
  show "i < bl 1 \<Longrightarrow> isExclusive (e i) \<Longrightarrow> b 1 i = StE \<or> b 1 i = StM" using I3 [of i] by blast
  show "i < bl 1 \<Longrightarrow> j \<in> shr (e i) \<Longrightarrow> isExclusive (e i) \<Longrightarrow> vst b f (j + 2) (d 1 i) \<in> {StE, StM}"
    using I3 [of i, THEN conjunct2, THEN conjunct2, THEN conjunct2, THEN bspec, of j] by simp
  show "i < bl 1 \<Longrightarrow> j \<in> shr (e i) \<Longrightarrow> \<not> isExclusive (e i) \<Longrightarrow> vst b f (j + 2) (d 1 i) = StS"
    using I3 [of i, THEN conjunct2, THEN conjunct2, THEN conjunct2, THEN bspec, of j] by simp
  show "j < n \<Longrightarrow> vst b f (j + 2) a \<noteq> StI \<Longrightarrow> \<exists>i. f 1 a = Some i \<and> j \<in> shr (e i)" by (rule I4)
  show "n \<le> 256" by (rule I5)
qed

text \<open>An address is found at one id only.\<close>

lemma Inv_inj: "Inv b e f d \<Longrightarrow> isc k \<Longrightarrow> f k a = Some i \<Longrightarrow> f k c = Some i \<Longrightarrow> a = c"
  using InvD(1) [of b e f d k a i] InvD(1) [of b e f d k c i] by auto

lemma vst_upd:
  assumes "Inv b e f d" and "isc k" and "f k a = Some i"
  shows "vst (b(k := (b k)(i := s))) f k' c = (if k' = k \<and> c = a then s else vst b f k' c)"
proof (cases "k' = k \<and> c \<noteq> a \<and> f k c = Some i")
  case True
  with Inv_inj [OF assms(1,2,3), of c] show ?thesis by simp
next
  case False
  with assms(3) show ?thesis by (cases "f k' c") (auto simp: vst_def)
qed

lemma Inv_sharer:
  assumes I: "Inv b e f d" and i: "f 1 a = Some i" and j: "j < n"
  shows "j \<in> shr (e i) \<longleftrightarrow> vst b f (j + 2) a \<noteq> StI"
proof
  assume "j \<in> shr (e i)"
  then show "vst b f (j + 2) a \<noteq> StI"
    using InvD(6,7) [OF I, of i j] InvD(1) [OF I, of 1 a i] i by (cases "isExclusive (e i)") auto
next
  assume "vst b f (j + 2) a \<noteq> StI"
  with InvD(8) [OF I j] i show "j \<in> shr (e i)" by fastforce
qed

text \<open>The property the protocol is for: one writer, or readers only.\<close>

lemma Inv_swmr:
  assumes I: "Inv b e f d" and "j < n" "j' < n" "j \<noteq> j'" and st: "vst b f (j + 2) a \<in> {StE, StM}"
  shows "vst b f (j' + 2) a = StI"
proof (rule ccontr)
  assume other: "vst b f (j' + 2) a \<noteq> StI"
  have "vst b f (j + 2) a \<noteq> StI" using st by auto
  from InvD(8) [OF I assms(2) this] obtain i where i: "f 1 a = Some i" "j \<in> shr (e i)" by blast
  have ib: "i < bl 1" "d 1 i = a" using InvD(1) [OF I, of 1 a i] i by auto
  have j': "j' \<in> shr (e i)" using Inv_sharer [OF I i(1) assms(3)] other by simp
  have ex: "isExclusive (e i)"
  proof (rule ccontr)
    assume "\<not> isExclusive (e i)"
    from InvD(7) [OF I ib(1) i(2) this] ib(2) st show False by auto
  qed
  then have "card (shr (e i)) = 1" using dir_ok_excl [OF InvD(3) [OF I ib(1)] InvD(9) [OF I]] by simp
  then obtain x where "shr (e i) = {x}" by (metis card_1_singletonE)
  with i(2) j' assms(4) show False by simp
qed

lemma Inv_inclusive:
  assumes I: "Inv b e f d" and "j < n" and "vst b f (j + 2) a \<noteq> StI"
  shows "vst b f 1 a \<noteq> StI"
proof -
  obtain i where i: "f 1 a = Some i" "j \<in> shr (e i)" using InvD(8) [OF I assms(2,3)] by blast
  then have "b 1 i \<noteq> StI" using InvD(4) [OF I, of i] InvD(1) [OF I, of 1 a i] by auto
  with i show ?thesis by (simp add: vst_def)
qed

subsection \<open>Insertions\<close>

lemma vst_insert:
  assumes I: "Inv b e f d" and k: "isc k" and x: "f k x = None" and l: "b k l = StI"
    and fl: "f' k x = Some l" and same: "\<And>c. c \<noteq> x \<Longrightarrow> f k c \<noteq> Some l \<Longrightarrow> f' k c = f k c"
    and lost: "\<And>c i. c \<noteq> x \<Longrightarrow> f' k c = Some i \<Longrightarrow> f k c = Some l \<Longrightarrow> i \<noteq> l \<and> i < nl k \<and> d k i = c"
    and bl: "nl k \<le> bl k" and others: "\<And>k'. k' \<noteq> k \<Longrightarrow> f' k' = f k'"
  shows "vst b f' k' c = vst b f k' c"
proof (cases "k' = k")
  case False
  then show ?thesis using others by (simp add: vst_def)
next
  case True
  show ?thesis
  proof (cases "c = x \<or> f k c \<noteq> Some l")
    case True
    then show ?thesis using \<open>k' = k\<close> x l fl same by (cases "c = x") (auto simp: vst_def)
  next
    case False
    then have c: "c \<noteq> x" "f k c = Some l" by auto
    have "b k i = StI" if "f' k c = Some i" for i
    proof (rule ccontr)
      assume "b k i \<noteq> StI"
      moreover have "i \<noteq> l" "i < bl k" "d k i = c" using lost [OF c(1) that c(2)] bl by auto
      ultimately show False using InvD(2) [OF I k, of i] c(2) by auto
    qed
    then show ?thesis using c(2) l \<open>k' = k\<close> by (auto simp: vst_def split: option.splits)
  qed
qed

lemma Inv_insert:
  assumes I: "Inv b e f d" and k: "isc k" and x: "f k x = None" and l: "b k l = StI" "l < nl k" "nl k \<le> bl k"
    and free: "k = 1 \<Longrightarrow> shr (e l) = {}"
    and fl: "f' k x = Some l" and same: "\<And>c. c \<noteq> x \<Longrightarrow> f k c \<noteq> Some l \<Longrightarrow> f' k c = f k c"
    and lost: "\<And>c i. c \<noteq> x \<Longrightarrow> f' k c = Some i \<Longrightarrow> f k c = Some l \<Longrightarrow> i \<noteq> l \<and> i < nl k \<and> d k i = c"
    and fd: "\<And>c i. f' k c = Some i \<Longrightarrow> i < nl k \<and> d' k i = c"
    and d': "d' k = (d k)(l := x)" and others: "\<And>k'. k' \<noteq> k \<Longrightarrow> f' k' = f k' \<and> d' k' = d k'"
  shows "Inv b e f' d'"
proof -
  have v: "vst b f' k' c = vst b f k' c" for k' c
    proof (rule vst_insert [where b = b and e = e and f = f and d = d and f' = f' and l = l and x = x and k = k])
    show "nl k \<le> bl k" by (rule l(3))
    show "f' c = f c" if "c \<noteq> k" for c using others [OF that] by simp
  qed (fact I k x l(1) fl | use same lost in blast)+
  have fk: "f' k (d' k i) = Some i" if "i < bl k" "b k i \<noteq> StI" for i
  proof -
    have i: "i \<noteq> l" using that l(1) by auto
    then have "f k (d k i) = Some i" "d' k i = d k i" using InvD(2) [OF I k that] d' by auto
    with i x have "d k i \<noteq> x" "f k (d k i) \<noteq> Some l" by auto
    with same \<open>f k (d k i) = Some i\<close> \<open>d' k i = d k i\<close> show ?thesis by simp
  qed
  show ?thesis
    unfolding Inv_def v
  proof (intro conjI allI impI)
    fix k' a i
    assume "isc k'" "f' k' a = Some i"
    then show "i < nl k'" "i < bl k'" "d' k' i = a"
      using fd [of a i] l(3) others [of k'] InvD(1) [OF I, of k' a i] by (cases "k' = k"; auto)+
  next
    fix k' i
    assume "isc k'" "i < bl k'" "b k' i \<noteq> StI"
    then show "f' k' (d' k' i) = Some i" using fk others [of k'] InvD(2) [OF I, of k' i] by (cases "k' = k") auto
  next
    fix i
    assume i: "i < bl 1"
    show "dir_ok n (e i)" "b 1 i = StI \<Longrightarrow> shr (e i) = {}" "isExclusive (e i) \<Longrightarrow> b 1 i = StE \<or> b 1 i = StM"
      using InvD(3-5) [OF I i] by auto
    show "\<forall>j\<in>shr (e i). if isExclusive (e i) then vst b f (j + 2) (d' 1 i) \<in> {StE, StM} else vst b f (j + 2) (d' 1 i) = StS"
    proof
      fix j
      assume j: "j \<in> shr (e i)"
      have "d' 1 i = d 1 i"
      proof (cases "k = 1")
        case True
        with free j have "i \<noteq> l" by auto
        with True d' show ?thesis by simp
      next
        case False
        with others [of 1] show ?thesis by simp
      qed
      with InvD(6,7) [OF I i j] show "if isExclusive (e i) then vst b f (j + 2) (d' 1 i) \<in> {StE, StM} else vst b f (j + 2) (d' 1 i) = StS"
        by auto
    qed
  next
    fix a j
    assume "j < n" "vst b f (j + 2) a \<noteq> StI"
    from InvD(8) [OF I this] obtain i where i: "f 1 a = Some i" "j \<in> shr (e i)" by blast
    have "f' 1 a = Some i"
    proof (cases "k = 1")
      case True
      with free i have "i \<noteq> l" by auto
      from i(1) x True have "a \<noteq> x" by auto
      with i(1) True same [of a] \<open>i \<noteq> l\<close> show ?thesis by simp
    next
      case False
      with others [of 1] i show ?thesis by simp
    qed
    with i(2) show "\<exists>i. f' 1 a = Some i \<and> j \<in> shr (e i)" by blast
  next
    show "n \<le> 256" by (rule InvD(9) [OF I])
  qed
qed

subsection \<open>Changes of one line\<close>

lemma Inv_line:
  assumes I: "Inv b e f d" and fa: "f 1 a = Some l"
    and e': "\<And>x. x \<noteq> l \<Longrightarrow> e' x = e x" and b1: "\<And>x. x \<noteq> l \<Longrightarrow> b' 1 x = b 1 x"
    and v: "\<And>j c. j < n \<Longrightarrow> c \<noteq> a \<Longrightarrow> vst b' f (j + 2) c = vst b f (j + 2) c"
    and new: "\<And>j i. j < n \<Longrightarrow> b' (j + 2) i \<noteq> StI \<Longrightarrow> b (j + 2) i \<noteq> StI \<or> f (j + 2) a = Some i"
    and dir: "dir_ok n (e' l)" and inv: "b' 1 l = StI \<Longrightarrow> shr (e' l) = {}"
    and excl: "isExclusive (e' l) \<Longrightarrow> b' 1 l = StE \<or> b' 1 l = StM"
    and sh: "\<And>j. j \<in> shr (e' l) \<Longrightarrow> if isExclusive (e' l) then vst b' f (j + 2) a \<in> {StE, StM} else vst b' f (j + 2) a = StS"
    and inc: "\<And>j. j < n \<Longrightarrow> vst b' f (j + 2) a \<noteq> StI \<Longrightarrow> j \<in> shr (e' l)"
  shows "Inv b' e' f d"
proof -
  have l: "l < bl 1" "d 1 l = a" using InvD(1) [OF I _ fa] by simp_all
  have other: "d 1 x \<noteq> a" if "x < bl 1" "x \<noteq> l" "shr (e x) \<noteq> {}" for x
  proof
    assume "d 1 x = a"
    moreover have "f 1 (d 1 x) = Some x" using InvD(2) [OF I, of 1 x] InvD(4) [OF I, of x] that by auto
    ultimately show False using fa that(2) by simp
  qed
  show ?thesis
    unfolding Inv_def
  proof (intro conjI allI impI)
    fix k a' i
    assume "isc k" "f k a' = Some i"
    from InvD(1) [OF I this] show "i < nl k" "i < bl k" "d k i = a'" by auto
  next
    fix k i
    assume k: "isc k" and i: "i < bl k" "b' k i \<noteq> StI"
    show "f k (d k i) = Some i"
    proof (cases "k = 1")
      case True
      with i b1 [of i] fa l InvD(2) [OF I, of 1 i] show ?thesis by (cases "i = l") auto
    next
      case False
      then obtain j where j: "j < n" "k = j + 2" using k by (auto simp: isc_def intro: that [of "k - 2"])
      from new [OF j(1), of i] i(2) j(2) have "b k i \<noteq> StI \<or> f k a = Some i" by simp
      with InvD(1) [OF I k, of a i] InvD(2) [OF I k i(1)] show ?thesis by auto
    qed
  next
    fix x
    assume x: "x < bl 1"
    show "dir_ok n (e' x)" using dir InvD(3) [OF I x] e' [of x] by (cases "x = l") auto
    show "shr (e' x) = {}" if "b' 1 x = StI" using that inv InvD(4) [OF I x] e' [of x] b1 [of x] by (cases "x = l") auto
    show "b' 1 x = StE \<or> b' 1 x = StM" if "isExclusive (e' x)"
      using that excl InvD(5) [OF I x] e' [of x] b1 [of x] by (cases "x = l") auto
    show "\<forall>j\<in>shr (e' x). if isExclusive (e' x) then vst b' f (j + 2) (d 1 x) \<in> {StE, StM} else vst b' f (j + 2) (d 1 x) = StS"
    proof
      fix j
      assume j: "j \<in> shr (e' x)"
      show "if isExclusive (e' x) then vst b' f (j + 2) (d 1 x) \<in> {StE, StM} else vst b' f (j + 2) (d 1 x) = StS"
      proof (cases "x = l")
        case True
        with sh [of j] j l show ?thesis by (cases "isExclusive (e' l)") simp_all
      next
        case False
        then have jx: "j \<in> shr (e x)" "e' x = e x" using j e' by auto
        have "j < n" using InvD(3) [OF I x] jx by (auto simp: dir_ok_def)
        moreover have "d 1 x \<noteq> a" using other [OF x False] jx by auto
        ultimately have "vst b' f (j + 2) (d 1 x) = vst b f (j + 2) (d 1 x)" by (rule v)
        with InvD(6,7) [OF I x jx(1)] jx(2) show ?thesis by auto
      qed
    qed
  next
    fix c j
    assume j: "j < n" "vst b' f (j + 2) c \<noteq> StI"
    show "\<exists>i. f 1 c = Some i \<and> j \<in> shr (e' i)"
    proof (cases "c = a")
      case True
      with inc j fa show ?thesis by auto
    next
      case False
      then have "vst b f (j + 2) c \<noteq> StI" using v j by simp
      from InvD(8) [OF I j(1) this] obtain i where i: "f 1 c = Some i" "j \<in> shr (e i)" by blast
      have "i \<noteq> l" using False Inv_inj [OF I _ i(1), of a] fa by auto
      with i e' show ?thesis by auto
    qed
  next
    show "n \<le> 256" by (rule InvD(9) [OF I])
  qed
qed

lemma vst_after:
  assumes I: "Inv b e f d" and k: "isc k"
  shows "vst (after_inv type a S f b) f k c = (if (\<exists>j\<in>S. k = j + 2) \<and> c = a \<and> f k a \<noteq> None
    then (if type = INV then StI else StS) else vst b f k c)"
proof (cases "f k c")
  case None
  then show ?thesis by (auto simp: vst_def)
next
  case (Some i)
  show ?thesis
  proof (cases "f k a = Some i")
    case True
    then have "c = a" using Inv_inj [OF I k Some] by simp
    with Some show ?thesis by (auto simp: vst_def after_inv_def)
  next
    case False
    then have "c \<noteq> a" using Some by auto
    with Some False show ?thesis by (auto simp: vst_def after_inv_def)
  qed
qed

lemma after_inv_1 [simp]: "after_inv type a S f b 1 = b 1"
  by (auto simp: after_inv_def fun_eq_iff)

lemma after_inv_valid: "b k i = StI \<Longrightarrow> after_inv INV a S f b k i = StI"
  by (simp add: after_inv_def)

text \<open>A state of the shared cache that is not invalid changes to another one.\<close>

lemma Inv_llc_state:
  assumes I: "Inv b e f d" and fa: "f 1 a = Some l" and s: "s \<noteq> StI" and ex: "isExclusive (e l) \<Longrightarrow> s = StE \<or> s = StM"
  shows "Inv (b(1 := (b 1)(l := s))) e f d"
proof (rule Inv_line [where e' = e, OF I fa])
  have l: "l < bl 1" "d 1 l = a" using InvD(1) [OF I _ fa] by simp_all
  have v: "vst (b(1 := (b 1)(l := s))) f (j + 2) c = vst b f (j + 2) c" for j c by (simp add: vst_def split: option.split)
  show "dir_ok n (e l)" by (rule InvD(3) [OF I l(1)])
  show "if isExclusive (e l) then vst (b(1 := (b 1)(l := s))) f (j + 2) a \<in> {StE, StM} else vst (b(1 := (b 1)(l := s))) f (j + 2) a = StS"
    if "j \<in> shr (e l)" for j using InvD(6,7) [OF I l(1) that] l(2) by (auto simp: v)
  show "j \<in> shr (e l)" if "j < n" "vst (b(1 := (b 1)(l := s))) f (j + 2) a \<noteq> StI" for j
    using Inv_sharer [OF I fa that(1)] that(2) by (simp add: v)
qed (use s ex in \<open>auto simp: vst_def split: option.split\<close>)

lemma vst_1 [simp]: "vst (b(1 := x)) f (j + 2) c = vst b f (j + 2) c"
  by (simp add: vst_def split: option.split)

text \<open>The shared cache evicts a line: all its sharers lose it.\<close>

lemma Inv_evict_llc:
  assumes I: "Inv b e f d" and fa: "f 1 a = Some l"
    and e': "\<And>x. x \<noteq> l \<Longrightarrow> e' x = e x" and el: "shr (e' l) = {}" "numSharers (e' l) = 0"
  shows "Inv ((after_inv INV a (shr (e l)) f b)(1 := (b 1)(l := StI))) e' f d"
proof (rule Inv_line [OF I fa e'])
  let ?b = "(after_inv INV a (shr (e l)) f b)(1 := (b 1)(l := StI))"
  have v: "vst ?b f (j + 2) c = (if j \<in> shr (e l) \<and> c = a \<and> f (j + 2) a \<noteq> None then StI else vst b f (j + 2) c)" if "j < n" for j c
    using vst_after [OF I, of "j + 2" INV a "shr (e l)" c] that by auto
  show "vst ?b f (j + 2) c = vst b f (j + 2) c" if "j < n" "c \<noteq> a" for j c using v that by simp
  show "j \<in> shr (e' l)" if "j < n" "vst ?b f (j + 2) a \<noteq> StI" for j
  proof -
    from v [OF that(1), of a] that(2) have nst: "vst b f (j + 2) a \<noteq> StI" "\<not> (j \<in> shr (e l) \<and> f (j + 2) a \<noteq> None)"
      by (auto split: if_splits)
    then have "j \<in> shr (e l)" using Inv_sharer [OF I fa that(1)] by simp
    with nst show ?thesis by (auto simp: vst_def split: option.splits)
  qed
  show "dir_ok n (e' l)" using el by (simp add: dir_ok_def)
  show "?b 1 l = StE \<or> ?b 1 l = StM" if "isExclusive (e' l)" using that el by (simp add: isExclusive_def)
  show "b (j + 2) i \<noteq> StI \<or> f (j + 2) a = Some i" if "?b (j + 2) i \<noteq> StI" for j i
    using that by (auto simp: after_inv_def split: if_splits)
qed (use el in auto)

text \<open>A terminal cache gives up its line, clean or dirty.\<close>

lemma Inv_put:
  assumes I: "Inv b e f d" and j: "j < n" and fa: "f 1 a = Some l" and fi: "f (j + 2) a = Some i" and jl: "j \<in> shr (e l)"
    and s: "s = b 1 l \<or> s = StM" and e': "\<And>x. x \<noteq> l \<Longrightarrow> e' x = e x"
    and el: "shr (e' l) = shr (e l) - {j}" "numSharers (e' l) = numSharers (e l) - 1" "exclusive (e' l) = exclusive (e l)"
  shows "Inv (b(1 := (b 1)(l := s), j + 2 := (b (j + 2))(i := StI))) e' f d"
proof (rule Inv_line [OF I fa e'])
  let ?b = "b(1 := (b 1)(l := s), j + 2 := (b (j + 2))(i := StI))"
  have l: "l < bl 1" "d 1 l = a" using InvD(1) [OF I _ fa] by simp_all
  note dir = InvD(3) [OF I l(1)]
  have b1: "b 1 l \<noteq> StI" using InvD(4) [OF I l(1)] jl by auto
  have k: "isc (j + 2)" using j by simp
  have "?b = (b(j + 2 := (b (j + 2))(i := StI)))(1 := (b 1)(l := s))" by (auto simp: fun_eq_iff)
  then have v: "vst ?b f (x + 2) c = (if x = j \<and> c = a then StI else vst b f (x + 2) c)" for x c
    using vst_upd [OF I k fi, of StI "x + 2" c] vst_1 [of "b(j + 2 := (b (j + 2))(i := StI))" "(b 1)(l := s)" f x c] by simp
  show "vst ?b f (x + 2) c = vst b f (x + 2) c" if "c \<noteq> a" for x c using v that by simp
  show "?b 1 x = b 1 x" if "x \<noteq> l" for x using that by simp
  show "b (x + 2) y \<noteq> StI \<or> f (x + 2) a = Some y" if "?b (x + 2) y \<noteq> StI" for x y
    using that by (auto split: if_splits)
  have "card (shr (e l)) = Suc (card (shr (e' l)))" using card.remove [OF shr_finite jl] el(1) by simp
  then have "card (shr (e' l)) \<le> card (shr (e l))" "numSharers (e' l) = of_nat (card (shr (e' l)))"
    using dir el(2) by (simp_all add: dir_ok_def)
  then show d: "dir_ok n (e' l)" using dir el(1,3) unfolding dir_ok_def by (metis Diff_subset order_trans)
  show "shr (e' l) = {}" if "?b 1 l = StI" using that b1 s by auto
  have "\<not> isExclusive (e' l)"
  proof
    assume "isExclusive (e' l)"
    then have "exclusive (e l)" "card (shr (e' l)) = 1" using dir_ok_excl [OF d InvD(9) [OF I]] el(3) by simp_all
    with dir \<open>card (shr (e l)) = Suc (card (shr (e' l)))\<close> show False by (simp add: dir_ok_def)
  qed
  then show "?b 1 l = StE \<or> ?b 1 l = StM" if "isExclusive (e' l)" using that by simp
  show "if isExclusive (e' l) then vst ?b f (x + 2) a \<in> {StE, StM} else vst ?b f (x + 2) a = StS" if "x \<in> shr (e' l)" for x
  proof -
    have x: "x \<noteq> j" "x \<in> shr (e l)" using that el(1) by auto
    have "\<not> isExclusive (e l)"
    proof
      assume "isExclusive (e l)"
      then have "card (shr (e l)) = 1" using dir_ok_excl [OF dir InvD(9) [OF I]] by simp
      with \<open>card (shr (e l)) = Suc (card (shr (e' l)))\<close> that show False by auto
    qed
    from InvD(7) [OF I l(1) x(2) this] l(2) x(1) v \<open>\<not> isExclusive (e' l)\<close> show ?thesis by simp
  qed
  show "x \<in> shr (e' l)" if "x < n" "vst ?b f (x + 2) a \<noteq> StI" for x
    using that v [of x a] Inv_sharer [OF I fa that(1)] el(1) by (auto split: if_splits)
qed

text \<open>A terminal cache gets the line as its only holder.\<close>

lemma Inv_gets_excl:
  assumes I: "Inv b e f d" and j: "j < n" and fa: "f 1 a = Some l" and fi: "f (j + 2) a = Some i" and none: "shr (e l) = {}"
    and st: "b 1 l = StE \<or> b 1 l = StM" and s: "s = StE \<or> s = StM" and e': "\<And>x. x \<noteq> l \<Longrightarrow> e' x = e x"
    and el: "shr (e' l) = {j}" "numSharers (e' l) = 1" "exclusive (e' l)"
  shows "Inv (b(j + 2 := (b (j + 2))(i := s))) e' f d"
proof (rule Inv_line [OF I fa e'])
  let ?b = "b(j + 2 := (b (j + 2))(i := s))"
  have k: "isc (j + 2)" using j by simp
  note v = vst_upd [OF I k fi, of s]
  show "vst ?b f (x + 2) c = vst b f (x + 2) c" if "c \<noteq> a" for x c using v that by simp
  show "?b 1 x = b 1 x" for x by simp
  show "b (x + 2) y \<noteq> StI \<or> f (x + 2) a = Some y" if "?b (x + 2) y \<noteq> StI" for x y
    using that fi by (auto split: if_splits)
  show "dir_ok n (e' l)" using el j by (simp add: dir_ok_def)
  show "shr (e' l) = {}" if "?b 1 l = StI" using that st by auto
  show "?b 1 l = StE \<or> ?b 1 l = StM" using st by simp
  have "isExclusive (e' l)" using el by (simp add: isExclusive_def)
  then show "if isExclusive (e' l) then vst ?b f (x + 2) a \<in> {StE, StM} else vst ?b f (x + 2) a = StS" if "x \<in> shr (e' l)" for x
    using that el(1) v s by simp
  show "x \<in> shr (e' l)" if "x < n" "vst ?b f (x + 2) a \<noteq> StI" for x
    using that v [of "x + 2" a] Inv_sharer [OF I fa that(1)] el(1) none by (auto split: if_splits)
qed

text \<open>A terminal cache gets the line as one of its readers; an exclusive holder is downgraded.\<close>

lemma Inv_gets_shared:
  assumes I: "Inv b e f d" and j: "j < n" and fa: "f 1 a = Some l" and fi: "f (j + 2) a = Some i" and jl: "j \<notin> shr (e l)"
    and st: "b 1 l \<noteq> StI" and s: "s = b 1 l \<or> s = StM" and e': "\<And>x. x \<noteq> l \<Longrightarrow> e' x = e x"
    and S: "S = (if isExclusive (e l) then shr (e l) else {})"
    and el: "shr (e' l) = insert j (shr (e l))" "numSharers (e' l) = numSharers (e l) + 1" "\<not> exclusive (e' l)"
    and b': "b' = (after_inv INVX a S f b)(1 := (b 1)(l := s), j + 2 := (after_inv INVX a S f b (j + 2))(i := StS))"
  shows "Inv b' e' f d"
proof (rule Inv_line [OF I fa e'])
  have l: "l < bl 1" "d 1 l = a" using InvD(1) [OF I _ fa] by simp_all
  note dir = InvD(3) [OF I l(1)]
  have k: "isc (j + 2)" using j by simp
  have bj: "b' (j + 2) = (after_inv INVX a S f b (j + 2))(i := StS)" "b' 1 = (b 1)(l := s)"
    "\<And>x. x \<noteq> j \<Longrightarrow> b' (x + 2) = after_inv INVX a S f b (x + 2)"
    unfolding b' by (simp_all add: fun_eq_iff)
  have v: "vst b' f (x + 2) c = (if c = a \<and> (x = j \<or> x \<in> S \<and> f (x + 2) a \<noteq> None) then StS else vst b f (x + 2) c)" if "x < n" for x c
  proof (cases "x = j")
    case True
    then have "vst b' f (x + 2) c = (if f (j + 2) c = Some i then StS else vst (after_inv INVX a S f b) f (j + 2) c)"
      using bj(1) by (simp add: vst_def split: option.split)
    also have "f (j + 2) c = Some i \<longleftrightarrow> c = a" using Inv_inj [OF I k fi, of c] fi by auto
    finally show ?thesis using vst_after [OF I k, of INVX a S c] True by auto
  next
    case False
    then have "vst b' f (x + 2) c = vst (after_inv INVX a S f b) f (x + 2) c"
      using bj(3) by (simp add: vst_def split: option.split)
    then show ?thesis using vst_after [OF I, of "x + 2" INVX a S c] that False by auto
  qed
  show "vst b' f (x + 2) c = vst b f (x + 2) c" if "x < n" "c \<noteq> a" for x c using v that by simp
  show "b' 1 x = b 1 x" if "x \<noteq> l" for x using that bj by simp
  show "b (x + 2) y \<noteq> StI \<or> f (x + 2) a = Some y" if "b' (x + 2) y \<noteq> StI" for x y
    using that fi bj by (cases "x = j") (auto simp: after_inv_def split: if_splits)
  have "card (shr (e' l)) = Suc (card (shr (e l)))" using el(1) jl by simp
  then show "dir_ok n (e' l)" using dir el j by (auto simp: dir_ok_def)
  show "shr (e' l) = {}" if "b' 1 l = StI" using that st s bj by auto
  have ne: "\<not> isExclusive (e' l)" using el(3) by (simp add: isExclusive_def)
  then show "b' 1 l = StE \<or> b' 1 l = StM" if "isExclusive (e' l)" using that by simp
  show "if isExclusive (e' l) then vst b' f (x + 2) a \<in> {StE, StM} else vst b' f (x + 2) a = StS" if "x \<in> shr (e' l)" for x
  proof (cases "x = j")
    case True
    with v [OF j, of a] ne show ?thesis by simp
  next
    case False
    then have x: "x \<in> shr (e l)" using that el(1) by simp
    then have xn: "x < n" using dir by (auto simp: dir_ok_def)
    have nst: "vst b f (x + 2) a \<noteq> StI" using Inv_sharer [OF I fa xn] x by simp
    then have some: "f (x + 2) a \<noteq> None" by (cases "f (x + 2) a") (simp_all add: vst_def)
    show ?thesis
    proof (cases "isExclusive (e l)")
      case True
      with v [OF xn, of a] x some ne S show ?thesis by simp
    next
      case False
      from InvD(7) [OF I l(1) x this] l(2) v [OF xn, of a] ne show ?thesis by simp
    qed
  qed
  show "x \<in> shr (e' l)" if "x < n" "vst b' f (x + 2) a \<noteq> StI" for x
    using that v [of x a] Inv_sharer [OF I fa that(1)] el(1) S by (auto split: if_splits)
qed

text \<open>A terminal cache gets the line to write it; every other copy is invalidated.\<close>

lemma Inv_getx:
  assumes I: "Inv b e f d" and j: "j < n" and fa: "f 1 a = Some l" and fi: "f (j + 2) a = Some i"
    and st: "b 1 l = StE \<or> b 1 l = StM" and s: "s = StE \<or> s = StM" and e': "\<And>x. x \<noteq> l \<Longrightarrow> e' x = e x"
    and el: "shr (e' l) = {j}" "numSharers (e' l) = 1" "exclusive (e' l)"
    and b': "b' = (after_inv INV a (shr (e l) - {j}) f b)(1 := (b 1)(l := s),
      j + 2 := (after_inv INV a (shr (e l) - {j}) f b (j + 2))(i := StM))"
  shows "Inv b' e' f d"
proof (rule Inv_line [OF I fa e'])
  have k: "isc (j + 2)" using j by simp
  let ?S = "shr (e l) - {j}"
  have bj: "b' (j + 2) = (b (j + 2))(i := StM)" "b' 1 = (b 1)(l := s)"
    "\<And>x. x \<noteq> j \<Longrightarrow> b' (x + 2) = after_inv INV a ?S f b (x + 2)"
    unfolding b' by (simp_all add: fun_eq_iff after_inv_def)
  have v: "vst b' f (x + 2) c = (if c = a then (if x = j then StM else StI) else vst b f (x + 2) c)" if "x < n" for x c
  proof (cases "x = j")
    case True
    then have "vst b' f (x + 2) c = (if f (j + 2) c = Some i then StM else vst b f (j + 2) c)"
      using bj(1) by (simp add: vst_def split: option.split)
    also have "f (j + 2) c = Some i \<longleftrightarrow> c = a" using Inv_inj [OF I k fi, of c] fi by auto
    finally show ?thesis using True by auto
  next
    case False
    then have "vst b' f (x + 2) c = vst (after_inv INV a ?S f b) f (x + 2) c" using bj(3) by (simp add: vst_def split: option.split)
    also have "\<dots> = (if x \<in> ?S \<and> c = a \<and> f (x + 2) a \<noteq> None then StI else vst b f (x + 2) c)"
      using vst_after [OF I, of "x + 2" INV a ?S c] that by auto
    also have "\<dots> = (if c = a then StI else vst b f (x + 2) c)"
      using Inv_sharer [OF I fa that] False by (auto simp: vst_def)
    finally show ?thesis using False by simp
  qed
  show "vst b' f (x + 2) c = vst b f (x + 2) c" if "x < n" "c \<noteq> a" for x c using v that by simp
  show "b' 1 x = b 1 x" if "x \<noteq> l" for x using that bj by simp
  show "b (x + 2) y \<noteq> StI \<or> f (x + 2) a = Some y" if "b' (x + 2) y \<noteq> StI" for x y
    using that fi bj by (cases "x = j") (auto simp: after_inv_def split: if_splits)
  show "dir_ok n (e' l)" using el j by (simp add: dir_ok_def)
  show "shr (e' l) = {}" if "b' 1 l = StI" using that s bj by auto
  show "b' 1 l = StE \<or> b' 1 l = StM" using s bj by simp
  have "isExclusive (e' l)" using el by (simp add: isExclusive_def)
  then show "if isExclusive (e' l) then vst b' f (x + 2) a \<in> {StE, StM} else vst b' f (x + 2) a = StS" if "x \<in> shr (e' l)" for x
    using that el(1) v [OF j, of a] by simp
  show "x \<in> shr (e' l)" if "x < n" "vst b' f (x + 2) a \<noteq> StI" for x
    using that v [of x a] el(1) by (auto split: if_splits)
qed

text \<open>A terminal cache writes a line it has alone.\<close>

lemma Inv_silent:
  assumes I: "Inv b e f d" and j: "j < n" and fi: "f (j + 2) a = Some i" and st: "b (j + 2) i = StE \<or> b (j + 2) i = StM"
  shows "Inv (b(j + 2 := (b (j + 2))(i := StM))) e f d"
proof -
  have vst: "vst b f (j + 2) a = b (j + 2) i" using fi by (simp add: vst_def)
  then have "vst b f (j + 2) a \<noteq> StI" using st by auto
  from InvD(8) [OF I j this] obtain l where fa: "f 1 a = Some l" and jl: "j \<in> shr (e l)" by blast
  have l: "l < bl 1" "d 1 l = a" using InvD(1) [OF I _ fa] by simp_all
  have ex: "isExclusive (e l)"
  proof (rule ccontr)
    assume "\<not> isExclusive (e l)"
    from InvD(7) [OF I l(1) jl this] l(2) st vst show False by auto
  qed
  have k: "isc (j + 2)" using j by simp
  note v = vst_upd [OF I k fi, of StM]
  show ?thesis
  proof (rule Inv_line [where e' = e, OF I fa])
    show "dir_ok n (e l)" "(b(j + 2 := (b (j + 2))(i := StM))) 1 l = StI \<Longrightarrow> shr (e l) = {}"
      "isExclusive (e l) \<Longrightarrow> (b(j + 2 := (b (j + 2))(i := StM))) 1 l = StE \<or> (b(j + 2 := (b (j + 2))(i := StM))) 1 l = StM"
      using InvD(3-5) [OF I l(1)] by auto
    show "if isExclusive (e l) then vst (b(j + 2 := (b (j + 2))(i := StM))) f (x + 2) a \<in> {StE, StM}
      else vst (b(j + 2 := (b (j + 2))(i := StM))) f (x + 2) a = StS" if "x \<in> shr (e l)" for x
      using InvD(6) [OF I l(1) that ex] l(2) ex v by auto
    show "x \<in> shr (e l)" if "x < n" "vst (b(j + 2 := (b (j + 2))(i := StM))) f (x + 2) a \<noteq> StI" for x
      using that v [of "x + 2" a] Inv_sharer [OF I fa that(1)] jl by (auto split: if_splits)
    show "b (x + 2) y \<noteq> StI \<or> f (x + 2) a = Some y" if "(b(j + 2 := (b (j + 2))(i := StM))) (x + 2) y \<noteq> StI" for x y
      using that fi by (auto split: if_splits)
  qed (use v in auto)
qed

end

end
