(* ===== verification/Hierarchy_Ops.thy ===== *)
theory Hierarchy_Ops imports Hierarchy_Protocol begin

text \<open>
  The operations of the controllers and caches of a two-level hierarchy, run on a heap that satisfies the
  invariant: they return, within a bound on the response cycle, and keep the invariant.
\<close>

context two_level begin

definition hinv :: "'a heap \<Rightarrow> bool" where
  "hinv h \<longleftrightarrow> conf h \<and> Inv (bst h) (ent h) (F h) (D h)"

lemma keepsD:
  assumes "keeps h h'"
  shows "conf h'" "F h' = F h" "D h' = D h" "c_accLat (cch h' k) = c_accLat (cch h k)"
  using assms by (simp_all add: keeps_def)

lemma bl_pos: "conf h \<Longrightarrow> isc k \<Longrightarrow> nl k \<le> bl k"
  using conf_cache(2) by (simp add: cc_ok_def)

lemma W_llc:
  assumes "keeps h h'" and "flts h' = flts h" and "\<And>j. j < n \<Longrightarrow> bst h' (j + 2) = bst h (j + 2)"
  shows "W P h h'"
  by (rule W_same [OF assms(2)]) (simp add: hst_def vst_def keepsD(2) [OF assms(1)] assms(3) split: option.split)

subsection \<open>The directory\<close>

lemma among_all:
  assumes "n \<le> 256" and "dir_ok n e" and "length (sharers e) = 256"
  shows "among e 0 n = shr e"
  using assms by (auto simp: among_def shr_def dir_ok_def)

lemma sendInvalidates_run:
  assumes c: "conf h" and l: "l < bl 1" and ty: "type = INV \<or> type = INVX \<and> isExclusive (ent h l)"
    and dir: "dir_ok n (ent h l)" and can: "can_inv type a (shr (ent h l)) h" and cyc: "unat cyc + 2 ^ 34 < 2 ^ 64"
  shows "\<exists>r h'. sendInvalidates (invalidate E (Suc q)) 1 a l type wb cyc src h =
      Some (r, wb \<or> dirty a (shr (ent h l)) h, h') \<and> keeps h h' \<and> arrs h' = arrs h \<and> near cyc r (2 ^ 33) \<and>
    bst h' = after_inv type a (shr (ent h l)) (F h) (bst h) \<and> (\<forall>x. x \<noteq> l \<longrightarrow> ent h' x = ent h x) \<and>
    (type = INV \<longrightarrow> shr (ent h' l) = {} \<and> numSharers (ent h' l) = 0 \<and> exclusive (ent h' l) = exclusive (ent h l)) \<and>
    (type = INVX \<longrightarrow> shr (ent h' l) = shr (ent h l) \<and> numSharers (ent h' l) = numSharers (ent h l) \<and> \<not> exclusive (ent h' l)) \<and> W0 h h'"
proof (cases "isEmpty (ent h l)")
  case True
  then have none: "shr (ent h l) = {}" and zero: "numSharers (ent h l) = 0"
    using dir_ok_empty [OF dir conf_bounds(1) [OF c]] by (auto simp: isEmpty_def)
  have "type = INV" using ty True by (auto simp: isEmpty_def isExclusive_def)
  then have run: "sendInvalidates (invalidate E (Suc q)) 1 a l type wb cyc src h = Some (cyc, wb, h)"
    using get_entry_run(1) [OF c l] True by (simp add: sendInvalidates_def del: invalidate.simps)
  show ?thesis unfolding run using c none zero \<open>type = INV\<close>
    by (intro exI [of _ cyc] exI [of _ h]) (auto simp: dirty_def after_inv_def fun_eq_iff)
next
  case False
  note e = get_entry_run [OF c l]
  have am: "among (ent h l) 0 n = shr (ent h l)" by (rule among_all [OF conf_bounds(1) [OF c] dir e(2)])
  obtain t where t: "get_tcc 1 h = Some t" "length (tc_children t) = n"
    using get_tcc_run [OF c] by (auto simp: tcc_ok_def simp del: upt_Suc)
  obtain r h1 where r: "invs_loop (invalidate E (Suc q)) 1 a l type cyc src 0 n (wb, cyc, 0, h) =
      Some (wb \<or> dirty a (shr (ent h l)) h, r, 0 + of_nat (card (shr (ent h l))), h1)" "keeps h h1" "arrs h1 = arrs h"
    "near cyc r (2 ^ 33)" "bst h1 = after_inv type a (shr (ent h l)) (F h) (bst h)" "\<forall>x. x \<noteq> l \<longrightarrow> ent h1 x = ent h x"
    "numSharers (ent h1 l) = numSharers (ent h l)" "exclusive (ent h1 l) = exclusive (ent h l)"
    "shr (ent h1 l) = shr (ent h l) - (if type = INV then shr (ent h l) else {})" "W0 h h1"
    using invs_loop_run [OF c l, of 0 n type a cyc cyc q src wb 0] ty can cyc unfolding am by fastforce
  note c1 = arrs_keeps [OF r(2)]
  have num: "0 + of_nat (card (shr (ent h l))) = numSharers (ent h1 l)" using dir r(7) by (simp add: dir_ok_def)
  let ?f = "\<lambda>e. if type = INV then e\<lparr>numSharers := 0\<rparr> else e\<lparr>exclusive := False\<rparr>"
  have len: "length (sharers (?f (ent h1 l))) = 256" using get_entry_run(2) [OF c1 l] by simp
  obtain h2 where h2: "mod_entry 1 l ?f h1 = Some h2" "keeps h1 h2" "ent h2 = (ent h1)(l := ?f (ent h1 l))" "bst h2 = bst h1"
    "arrs h2 = arrs h1" "flts h2 = flts h1" using mod_entry_run [where f = ?f, OF c1 l len] by blast
  have w: "W0 h h2" using W_trans [OF r(10) W_llc [OF h2(2,6)]] h2(4) by simp
  have run: "sendInvalidates (invalidate E (Suc q)) 1 a l type wb cyc src h =
      Some (r, wb \<or> dirty a (shr (ent h l)) h, h2)"
  proof (cases "type = INV")
    case True
    then show ?thesis using e(1) False t r(1) num get_entry_run(1) [OF c1 l] h2(1)
      by (simp add: sendInvalidates_def del: invalidate.simps)
  next
    case nInv: False
    then have ex: "isExclusive (ent h l)" "type = INVX" using ty by auto
    then have "exclusive (ent h1 l)" "numSharers (ent h1 l) = 1" using r(7,8) by (simp_all add: isExclusive_def)
    then show ?thesis using e(1) False t r(1) num get_entry_run(1) [OF c1 l] h2(1) ex
      by (simp add: sendInvalidates_def del: invalidate.simps)
  qed
  have "shr (?f (ent h1 l)) = shr (ent h1 l)" by (simp add: shr_def)
  then show ?thesis unfolding run using keeps_trans [OF r(2) h2(2)] r h2 ty w
    by (intro exI [of _ r] exI [of _ h2]) auto
qed

subsection \<open>Memory and the bottom of the shared cache\<close>

lemma memory_run:
  assumes c: "conf h" and cyc: "unat (req_cycle req) + 2 ^ 32 < 2 ^ 64"
  shows "access E (Suc q) 0 req h = Some (req_cycle req + ucast lat, (case req_type req of PUTS \<Rightarrow> StI | PUTX \<Rightarrow> StI
      | GETS \<Rightarrow> (if is_flag NOEXCL req then StS else StE) | GETX \<Rightarrow> StM), h)"
proof -
  have "0 < length h" "h ! 0 = SimpleMemory lat" using c by (auto simp: conf_def)
  moreover have "unat (req_cycle req) < unat (req_cycle req + ucast lat)"
    using unat_add_u32 [OF cyc, of lat] conf_bounds(2) [OF c] by (simp add: unat_gt_0)
  then have "req_cycle req < req_cycle req + ucast lat" by (simp add: word_less_nat_alt)
  ultimately show ?thesis by (simp add: SimpleMemory_access_def read_at_def)
qed

lemma parent_run:
  assumes "conf h" and "isc k"
  shows "getParentId (c_bcc (cch h k)) a = Some 0" "read_at (bc_parents (c_bcc (cch h k))) 0 = Some (if k = 1 then 0 else 1)"
    "\<exists>x. read_at (bc_parentRTTs (c_bcc (cch h k))) 0 = Some x"
  using conf_cache [OF assms] by (simp_all add: getParentId_def cc_ok_def read_at_def)

lemma llc_request_run:
  assumes c: "conf h" and l: "l < bl 1" and cyc: "unat cyc + 2 ^ 32 < 2 ^ 64"
  shows "\<exists>st h'. bcc_request (access E (Suc q)) 1 a l type cyc src fl h = Some (cyc + ucast lat, h') \<and> keeps h h' \<and>
    arrs h' = arrs h \<and> flts h' = flts h \<and> ent h' = ent h \<and> bst h' = (bst h)(1 := (bst h 1)(l := st)) \<and>
    (IsPut type \<longrightarrow> st = StI) \<and> (type = GETX \<longrightarrow> st = StM) \<and> (type = GETS \<longrightarrow> st = StS \<or> st = StE)"
proof -
  have k: "isc 1" by simp
  let ?req = "\<lparr>lineAddr = a, req_type = type, childId = bc_selfId (c_bcc (cch h 1)), req_state = bst h 1 l, req_cycle = cyc,
    initialState = bst h 1 l, srcId = src, flags = fl\<rparr>"
  let ?st = "case type of PUTS \<Rightarrow> StI | PUTX \<Rightarrow> StI | GETS \<Rightarrow> (if is_flag NOEXCL ?req then StS else StE) | GETX \<Rightarrow> StM"
  obtain h' where h': "put_state 1 l ?st h = Some h'" "keeps h h'" "ent h' = ent h" "bst h' = (bst h)(1 := (bst h 1)(l := ?st))"
    "arrs h' = arrs h" "flts h' = flts h" using put_state_run [OF c k l] by blast
  have "bcc_request (access E (Suc q)) 1 a l type cyc src fl h = Some (cyc + ucast lat, h')"
    using conf_cache(1) [OF c k] get_state_run [OF c k l] parent_run(1,2) [OF c k] memory_run [OF c, of ?req q] cyc h'(1)
    by (simp add: bcc_request_def del: access.simps read_at_Some)
  with h'(2-) show ?thesis by (intro exI [of _ ?st] exI [of _ h']) (auto split: AccessType.split)
qed

lemma llc_bcc_eviction_run:
  assumes c: "conf h" and l: "l < bl 1" and wb: "wb \<Longrightarrow> bst h 1 l = StE \<or> bst h 1 l = StM" and cyc: "unat cyc + 2 ^ 32 < 2 ^ 64"
  shows "\<exists>r h'. bcc_processEviction (access E (Suc q)) 1 b l wb cyc src h = Some (r, h') \<and> keeps h h' \<and> arrs h' = arrs h \<and>
    flts h' = flts h \<and> ent h' = ent h \<and> bst h' = (bst h)(1 := (bst h 1)(l := StI)) \<and> near cyc r (2 ^ 32)"
proof -
  have k: "isc 1" by simp
  have "\<exists>h1. (if wb then put_state 1 l StM h else Some h) = Some h1 \<and> keeps h h1 \<and> arrs h1 = arrs h \<and> flts h1 = flts h \<and>
    ent h1 = ent h \<and> bst h1 = (bst h)(1 := (bst h 1)(l := if wb then StM else bst h 1 l))"
    using put_state_run [OF c k l, of StM] c by (cases wb) auto
  then obtain h1 where h1: "(if wb then put_state 1 l StM h else Some h) = Some h1" "keeps h h1" "arrs h1 = arrs h"
    "ent h1 = ent h" "bst h1 = (bst h)(1 := (bst h 1)(l := if wb then StM else bst h 1 l))" "flts h1 = flts h" by blast
  note c1 = arrs_keeps [OF h1(2)]
  have pre: "bcc_processEviction (access E (Suc q)) 1 b l wb cyc src h = do {
      (respCycle, h) \<leftarrow> (case bst h1 1 l of
         StI \<Rightarrow> Some (cyc, h1)
       | StM \<Rightarrow> bcc_request (access E (Suc q)) 1 b l PUTX cyc src 0 h1
       | _ \<Rightarrow> bcc_request (access E (Suc q)) 1 b l PUTS cyc src 0 h1);
     st \<leftarrow> get_state 1 l h;
     assert_that (st = StI);
     Some (respCycle, h) }"
    using get_state_run [OF c k l] get_state_run [OF c1 k l] h1(1) wb
    by (cases wb) (auto simp: bcc_processEviction_def simp del: access.simps)
  show ?thesis
  proof (cases "bst h1 1 l = StI")
    case True
    then have "bst h 1 l = StI" "\<not> wb" using h1(5) by (auto split: if_splits)
    then have "bst h1 = (bst h)(1 := (bst h 1)(l := StI))" using h1(5) by (simp add: fun_eq_iff)
    with True pre get_state_run [OF c1 k l] h1 show ?thesis
      by (intro exI [of _ cyc] exI [of _ h1]) simp
  next
    case False
    let ?ty = "if bst h1 1 l = StM then PUTX else PUTS"
    have "IsPut ?ty" by simp
    then obtain h2 where h2: "bcc_request (access E (Suc q)) 1 b l ?ty cyc src 0 h1 = Some (cyc + ucast lat, h2)" "keeps h1 h2"
      "arrs h2 = arrs h1" "ent h2 = ent h1" "bst h2 = (bst h1)(1 := (bst h1 1)(l := StI))" "flts h2 = flts h1"
      using llc_request_run [OF c1 l cyc, of q b ?ty src 0] by blast
    have "bst h2 1 l = StI" using h2(5) by simp
    then have "bcc_processEviction (access E (Suc q)) 1 b l wb cyc src h = Some (cyc + ucast lat, h2)"
      unfolding pre using False h2(1) get_state_run [OF arrs_keeps [OF h2(2)] k l]
      by (cases "bst h1 1 l") (simp_all del: access.simps)
    moreover have "bst h2 = (bst h)(1 := (bst h 1)(l := StI))" using h2(5) h1(5) by (simp add: fun_eq_iff)
    ultimately show ?thesis using keeps_trans [OF h1(2) h2(2)] h1 h2 near_add [OF cyc, of lat]
      by (intro exI [of _ "cyc + ucast lat"] exI [of _ h2]) simp
  qed
qed

lemma can_inv_sharers:
  assumes I: "Inv (bst h) (ent h) (F h) (D h)" and l: "F h 1 a = Some l"
    and ty: "type = INV \<or> type = INVX \<and> isExclusive (ent h l)" and S: "S \<subseteq> shr (ent h l)"
  shows "can_inv type a S h"
  unfolding can_inv_def
proof
  fix j
  assume j: "j \<in> S"
  have lb: "l < bl 1" "D h 1 l = a" using InvD(1) [OF I _ l] by simp_all
  have js: "j \<in> shr (ent h l)" and jn: "j < n" using j S InvD(3) [OF I lb(1)] by (auto simp: dir_ok_def)
  have nst: "vst (bst h) (F h) (j + 2) a \<noteq> StI" using Inv_sharer [OF I l jn] js by simp
  then obtain i where i: "F h (j + 2) a = Some i" by (auto simp: vst_def split: option.splits)
  with nst have "bst h (j + 2) i \<noteq> StI" by (simp add: vst_def)
  moreover have "type = INVX \<longrightarrow> bst h (j + 2) i \<in> {StE, StM}"
  proof
    assume "type = INVX"
    then have "isExclusive (ent h l)" using ty by auto
    from InvD(6) [OF I lb(1) js this] lb(2) i show "bst h (j + 2) i \<in> {StE, StM}" by (simp add: vst_def)
  qed
  ultimately show "\<exists>i. F h (j + 2) a = Some i \<and> bst h (j + 2) i \<noteq> StI \<and> (type = INVX \<longrightarrow> bst h (j + 2) i \<in> {StE, StM})"
    using i by blast
qed

lemma dirty_exclusive:
  assumes I: "Inv (bst h) (ent h) (F h) (D h)" and l: "F h 1 a = Some l" and d: "dirty a S h" and S: "S \<subseteq> shr (ent h l)"
  shows "isExclusive (ent h l)" "bst h 1 l = StE \<or> bst h 1 l = StM"
proof -
  have lb: "l < bl 1" "D h 1 l = a" using InvD(1) [OF I _ l] by simp_all
  obtain j i where j: "j \<in> S" "F h (j + 2) a = Some i" "bst h (j + 2) i = StM" using d by (auto simp: dirty_def)
  then have st: "vst (bst h) (F h) (j + 2) a = StM" by (simp add: vst_def)
  have js: "j \<in> shr (ent h l)" using j(1) S by blast
  show ex: "isExclusive (ent h l)"
  proof (rule ccontr)
    assume "\<not> isExclusive (ent h l)"
    from InvD(7) [OF I lb(1) js this] lb(2) st show False by simp
  qed
  show "bst h 1 l = StE \<or> bst h 1 l = StM" by (rule InvD(5) [OF I lb(1) ex])
qed

text \<open>The shared cache evicts line \<open>l\<close>.\<close>

lemma llc_eviction_run:
  assumes h: "hinv h" and l: "l < nl 1" and cyc: "unat cyc + 2 ^ 35 < 2 ^ 64"
  shows "\<exists>r h'. processEviction (access E (Suc q)) (invalidate E (Suc q)) 1 trig (D h 1 l) l cyc h = Some (r, h') \<and>
    keeps h h' \<and> arrs h' = arrs h \<and> hinv h' \<and> bst h' 1 l = StI \<and> shr (ent h' l) = {} \<and>
    (\<forall>j<n. \<forall>c. c \<noteq> D h 1 l \<longrightarrow> hst h' (j + 2) c = hst h (j + 2) c) \<and> W0 h h'"
proof -
  have c: "conf h" and I: "Inv (bst h) (ent h) (F h) (D h)" using h by (simp_all add: hinv_def)
  have lb: "l < bl 1" using l bl_pos [OF c, of 1] by simp
  let ?a = "D h 1 l" and ?S = "shr (ent h l)"
  obtain t where t: "get_tcc 1 h = Some t" "\<not> tc_nonInclusiveHack t" using get_tcc_run [OF c] by (auto simp: tcc_ok_def)
  have top: "\<exists>x. c_tcc (cch h 1) = Some x" using conf_cache(2) [OF c, of 1] by (auto simp: cc_ok_def top_ok_def)
  have valid: "F h 1 ?a = Some l" if "bst h 1 l \<noteq> StI" using InvD(2) [OF I _ lb that] by simp
  have none: "?S = {}" if "bst h 1 l = StI" by (rule InvD(4) [OF I lb that])
  have can: "can_inv INV ?a ?S h"
    using can_inv_sharers [OF I valid, of INV ?S] none by (cases "bst h 1 l = StI") (auto simp: can_inv_def)
  obtain r1 h1 where h1: "sendInvalidates (invalidate E (Suc q)) 1 ?a l INV False cyc (srcId trig) h = Some (r1, False \<or> dirty ?a ?S h, h1)"
    "keeps h h1" "arrs h1 = arrs h" "near cyc r1 (2 ^ 33)" "bst h1 = after_inv INV ?a ?S (F h) (bst h)"
    "\<forall>x. x \<noteq> l \<longrightarrow> ent h1 x = ent h x" "shr (ent h1 l) = {}" "numSharers (ent h1 l) = 0" "W0 h h1"
    using sendInvalidates_run [OF c lb _ InvD(3) [OF I lb] can, of cyc q False "srcId trig"] cyc by auto
  note c1 = arrs_keeps [OF h1(2)]
  have wb: "bst h1 1 l = StE \<or> bst h1 1 l = StM" if "dirty ?a ?S h"
  proof -
    have "bst h 1 l \<noteq> StI" using none that by (auto simp: dirty_def)
    from dirty_exclusive(2) [OF I valid [OF this] that] h1(5) show ?thesis by simp
  qed
  have "unat r1 + 2 ^ 32 < 2 ^ 64" using h1(4) cyc by (simp add: near_def)
  then obtain r2 h2 where h2: "bcc_processEviction (access E (Suc q)) 1 ?a l (dirty ?a ?S h) r1 (srcId trig) h1 = Some (r2, h2)"
    "keeps h1 h2" "arrs h2 = arrs h1" "ent h2 = ent h1" "bst h2 = (bst h1)(1 := (bst h1 1)(l := StI))"
    "flts h2 = flts h1"
    using llc_bcc_eviction_run [where wb = "dirty ?a ?S h" and cyc = r1 and q = q and b = ?a and src = "srcId trig", OF c1 lb wb] by blast
  have run: "processEviction (access E (Suc q)) (invalidate E (Suc q)) 1 trig ?a l cyc h = Some (r2, h2)"
    using conf_cache(1) [OF c, of 1] top t h1(1) h2(1)
    by (auto simp: processEviction_def tcc_processEviction_def simp del: access.simps invalidate.simps)
  have k: "keeps h h2" by (rule keeps_trans [OF h1(2) h2(2)])
  have b2: "bst h2 = (after_inv INV ?a ?S (F h) (bst h))(1 := (bst h 1)(l := StI))" using h2(5) h1(5) by simp
  have e2: "\<And>x. x \<noteq> l \<Longrightarrow> ent h2 x = ent h x" "shr (ent h2 l) = {}" "numSharers (ent h2 l) = 0" using h1 h2(4) by auto
  have I2: "Inv (bst h2) (ent h2) (F h) (D h)"
  proof (cases "bst h 1 l = StI")
    case False
    show ?thesis unfolding b2 by (rule Inv_evict_llc [OF I valid [OF False] e2])
  next
    case True
    have "bst h2 = bst h" using b2 none [OF True] True by (auto simp: after_inv_def fun_eq_iff)
    moreover have "ent h1 = ent h"
    proof -
      have "isEmpty (ent h l)" using dir_ok_empty [OF InvD(3) [OF I lb] conf_bounds(1) [OF c]] none [OF True] by simp
      then have "sendInvalidates (invalidate E (Suc q)) 1 ?a l INV False cyc (srcId trig) h = Some (cyc, False, h)"
        using get_entry_run(1) [OF c lb] by (simp add: sendInvalidates_def del: invalidate.simps)
      with h1(1) show ?thesis by simp
    qed
    ultimately show ?thesis using I h2(4) by simp
  qed
  have v: "hst h2 (j + 2) x = hst h (j + 2) x" if "j < n" "x \<noteq> ?a" for j x
    unfolding hst_def b2 keepsD(2) [OF k] using vst_after [OF I, of "j + 2" INV ?a ?S x] that by simp
  have "hinv h2" using I2 k by (simp add: hinv_def keeps_def)
  moreover have "W0 h h2" using W_trans [OF h1(9) W_llc [OF h2(2,6)]] h2(5) by simp
  ultimately show ?thesis using run k h1(3) h2(3) e2(2) b2 v by (intro exI [of _ r2] exI [of _ h2]) simp
qed

subsection \<open>Misses and hits\<close>

text \<open>Two heaps that differ in counters and in the order of the replacement policies only.\<close>

definition same :: "'a heap \<Rightarrow> 'a heap \<Rightarrow> bool" where
  "same h h' \<longleftrightarrow> keeps h h' \<and> ent h' = ent h \<and> bst h' = bst h \<and> flts h' = flts h"

lemma sameD:
  assumes "same h h'"
  shows "keeps h h'" "conf h'" "F h' = F h" "D h' = D h" "ent h' = ent h" "bst h' = bst h" "hinv h \<Longrightarrow> hinv h'" "hst h' = hst h"
    "flts h' = flts h" "W P h h'"
  using assms by (auto simp: same_def keeps_def hinv_def hst_def intro!: W_same)

lemma same_trans: "same h h' \<Longrightarrow> same h' h'' \<Longrightarrow> same h h''"
  by (auto simp: same_def keeps_def)

lemma same_refl [simp]: "same h h = conf h"
  by (simp add: same_def)

lemma prof_run:
  assumes "conf h" and "isc k"
  shows "\<exists>h'. prof_inc f x k h = Some h' \<and> same h h'"
  using prof_inc_run [OF assms, of f x] by (auto simp: same_def)

lemma fetch_run:
  assumes c: "conf h" and k: "isc k" and req: "bcc_request ac k a l ty cyc src fl h = Some (r, h1)" and c1: "conf h1"
    and cyc: "unat cyc + 2 ^ 32 < 2 ^ 64"
  shows "\<exists>r' h2. bcc_fetch ac k a l ty cyc src fl h = Some (r', h2) \<and> same h1 h2 \<and> near cyc r' (2 ^ 32)"
proof -
  obtain x where x: "read_at (bc_parentRTTs (c_bcc (cch h k))) 0 = Some x" using parent_run(3) [OF c k] by blast
  let ?lat = "ucast (r - cyc) :: u32"
  obtain h2 where h2: "prof_inc profGETNextLevelLat_update (ucast ?lat) k h1 = Some h2" "same h1 h2"
    using prof_run [OF c1 k] by blast
  obtain h3 where h3: "prof_inc profGETNetLat_update (ucast x) k h2 = Some h3" "same h2 h3"
    using prof_run [OF sameD(2) [OF h2(2)] k] by blast
  have "bcc_fetch ac k a l ty cyc src fl h = Some (cyc + ucast (?lat + x), h3)"
    using conf_cache(1) [OF c k] parent_run(1) [OF c k] x req h2(1) h3(1)
    by (simp add: bcc_fetch_def Let_def del: read_at_Some)
  with same_trans [OF h2(2) h3(2)] near_add [OF cyc, of "?lat + x"] show ?thesis by blast
qed

text \<open>An access that needs nothing from the parent.\<close>

lemma bcc_hit_run:
  assumes c: "conf h" and k: "isc k" and l: "l < bl k"
    and hit: "ty = GETS \<and> bst h k l \<noteq> StI \<or> ty = GETX \<and> (bst h k l = StE \<or> bst h k l = StM)"
  shows "\<exists>h'. bcc_processAccess ac k a l ty cyc src fl h = Some (cyc, h') \<and> keeps h h' \<and> ent h' = ent h \<and>
    flts h' = flts h \<and> bst h' = (bst h)(k := (bst h k)(l := if ty = GETX then StM else bst h k l))"
proof (cases "ty = GETS")
  case True
  obtain h1 where h1: "prof_inc profGETSHit_update 1 k h = Some h1" "same h h1" using prof_run [OF c k] by blast
  have "bcc_processAccess ac k a l ty cyc src fl h = Some (cyc, h1)"
    using True hit get_state_run [OF c k l] h1(1) by (simp add: bcc_processAccess_def)
  with h1(2) True show ?thesis by (intro exI [of _ h1]) (simp add: same_def)
next
  case False
  then have ty: "ty = GETX" and st: "bst h k l = StE \<or> bst h k l = StM" using hit by auto
  have "\<exists>h1. (if bst h k l = StE then put_state k l StM h else Some h) = Some h1 \<and> keeps h h1 \<and> ent h1 = ent h \<and>
    flts h1 = flts h \<and> bst h1 = (bst h)(k := (bst h k)(l := StM))"
  proof (cases "bst h k l = StE")
    case True
    with put_state_run [OF c k l, of StM] show ?thesis by auto
  next
    case False
    with st c have "bst h = (bst h)(k := (bst h k)(l := StM))" by (auto simp: fun_eq_iff)
    with False c show ?thesis by simp
  qed
  then obtain h1 where h1: "(if bst h k l = StE then put_state k l StM h else Some h) = Some h1" "keeps h h1" "ent h1 = ent h"
    "bst h1 = (bst h)(k := (bst h k)(l := StM))" "flts h1 = flts h" by blast
  obtain h2 where h2: "prof_inc profGETXHit_update 1 k h1 = Some h2" "same h1 h2"
    using prof_run [OF arrs_keeps [OF h1(2)] k] by blast
  have "get_state k l h2 = Some StM" using get_state_run [OF sameD(2) [OF h2(2)] k l] sameD(6) [OF h2(2)] h1(4) by simp
  then have "bcc_processAccess ac k a l ty cyc src fl h = Some (cyc, h2)"
    using ty st get_state_run [OF c k l] h1(1) h2(1) by (auto simp: bcc_processAccess_def)
  with keeps_trans [OF h1(2) sameD(1) [OF h2(2)]] h1 sameD(5,6,9) [OF h2(2)] ty show ?thesis
    by (intro exI [of _ h2]) simp
qed

text \<open>An access that is a request to the parent.\<close>

lemma bcc_miss_run:
  assumes c: "conf h" and k: "isc k" and l: "l < bl k"
    and miss: "ty = GETS \<and> bst h k l = StI \<or> ty = GETX \<and> (bst h k l = StI \<or> bst h k l = StS)"
    and cyc: "unat cyc + 2 ^ 32 < 2 ^ 64"
    and req: "\<And>h0. same h h0 \<Longrightarrow> \<exists>r h1. bcc_request ac k a l ty cyc src fl h0 = Some (r, h1) \<and> conf h1 \<and>
      (ty = GETS \<longrightarrow> bst h1 k l = StS \<or> bst h1 k l = StE) \<and> (ty = GETX \<longrightarrow> bst h1 k l = StM) \<and> Q h1"
  shows "\<exists>r h1 h'. bcc_processAccess ac k a l ty cyc src fl h = Some (r, h') \<and> Q h1 \<and> same h1 h' \<and> near cyc r (2 ^ 32)"
proof (cases "ty = GETS")
  case True
  obtain r h1 where h1: "bcc_request ac k a l ty cyc src fl h = Some (r, h1)" "conf h1" "bst h1 k l = StS \<or> bst h1 k l = StE" "Q h1"
    using req [of h] c True by auto
  obtain r' h2 where h2: "bcc_fetch ac k a l ty cyc src fl h = Some (r', h2)" "same h1 h2" "near cyc r' (2 ^ 32)"
    using fetch_run [OF c k h1(1,2) cyc] by blast
  obtain h3 where h3: "prof_inc profGETSMiss_update 1 k h2 = Some h3" "same h2 h3"
    using prof_run [OF sameD(2) [OF h2(2)] k] by blast
  have s3: "same h1 h3" by (rule same_trans [OF h2(2) h3(2)])
  have "get_state k l h3 = Some (bst h1 k l)" using get_state_run [OF sameD(2) [OF s3] k l] sameD(6) [OF s3] by simp
  then have "bcc_processAccess ac k a l ty cyc src fl h = Some (r', h3)"
    using True miss get_state_run [OF c k l] h2(1) h3(1) h1(3) near_le [OF h2(3)] by (simp add: bcc_processAccess_def)
  with h1(4) s3 h2(3) show ?thesis by blast
next
  case False
  then have ty: "ty = GETX" using miss by auto
  obtain h0 where h0: "prof_inc (if bst h k l = StI then profGETXMissIM_update else profGETXMissSM_update) 1 k h = Some h0" "same h h0"
    using prof_run [OF c k] by blast
  obtain r h1 where h1: "bcc_request ac k a l ty cyc src fl h0 = Some (r, h1)" "conf h1" "bst h1 k l = StM" "Q h1"
    using req [OF h0(2)] ty by auto
  obtain r' h2 where h2: "bcc_fetch ac k a l ty cyc src fl h0 = Some (r', h2)" "same h1 h2" "near cyc r' (2 ^ 32)"
    using fetch_run [OF sameD(2) [OF h0(2)] k h1(1,2) cyc] by blast
  have "get_state k l h2 = Some StM" using get_state_run [OF sameD(2) [OF h2(2)] k l] sameD(6) [OF h2(2)] h1(3) by simp
  then have "bcc_processAccess ac k a l ty cyc src fl h = Some (r', h2)"
    using ty miss get_state_run [OF c k l] h0(1) h2(1) near_le [OF h2(3)] by (simp add: bcc_processAccess_def)
  with h1(4) h2(2,3) show ?thesis by blast
qed

text \<open>The shared cache makes its line ready for a request of a child.\<close>

lemma llc_bcc_run:
  assumes h: "hinv h" and fa: "F h 1 a = Some l" and ty: "IsGet ty" and cyc: "unat cyc + 2 ^ 32 < 2 ^ 64"
  shows "\<exists>r s h'. bcc_processAccess (access E (Suc q)) 1 a l ty cyc src fl h = Some (r, h') \<and> hinv h' \<and> keeps h h' \<and>
    flts h' = flts h \<and> ent h' = ent h \<and> bst h' = (bst h)(1 := (bst h 1)(l := s)) \<and> s \<noteq> StI \<and> (ty = GETX \<longrightarrow> s = StM) \<and> near cyc r (2 ^ 32)"
proof -
  have c: "conf h" and I: "Inv (bst h) (ent h) (F h) (D h)" using h by (simp_all add: hinv_def)
  have k: "isc 1" by simp
  have l: "l < bl 1" "D h 1 l = a" using InvD(1) [OF I k fa] by simp_all
  have "\<exists>r s h'. bcc_processAccess (access E (Suc q)) 1 a l ty cyc src fl h = Some (r, h') \<and> keeps h h' \<and>
    flts h' = flts h \<and> ent h' = ent h \<and> bst h' = (bst h)(1 := (bst h 1)(l := s)) \<and> s \<noteq> StI \<and> (ty = GETX \<longrightarrow> s = StM) \<and> near cyc r (2 ^ 32) \<and>
    (bst h 1 l = StE \<or> bst h 1 l = StM \<longrightarrow> s = StE \<or> s = StM)"
  proof (cases "ty = GETS \<and> bst h 1 l \<noteq> StI \<or> ty = GETX \<and> (bst h 1 l = StE \<or> bst h 1 l = StM)")
    case True
    obtain h' where "bcc_processAccess (access E (Suc q)) 1 a l ty cyc src fl h = Some (cyc, h')" "keeps h h'" "ent h' = ent h"
      "bst h' = (bst h)(1 := (bst h 1)(l := if ty = GETX then StM else bst h 1 l))" "flts h' = flts h"
      using bcc_hit_run [OF c k l(1) True] by blast
    with True show ?thesis
      by (intro exI [of _ cyc] exI [of _ "if ty = GETX then StM else bst h 1 l"] exI [of _ h']) auto
  next
    case False
    with ty have miss: "ty = GETS \<and> bst h 1 l = StI \<or> ty = GETX \<and> (bst h 1 l = StI \<or> bst h 1 l = StS)"
      by (cases "bst h 1 l") (auto simp: IsGet_def)
    let ?Q = "\<lambda>h1. keeps h h1 \<and> flts h1 = flts h \<and> ent h1 = ent h \<and> (\<exists>s. bst h1 = (bst h)(1 := (bst h 1)(l := s)) \<and> s \<noteq> StI \<and> (ty = GETX \<longrightarrow> s = StM))"
    have "\<exists>r h1. bcc_request (access E (Suc q)) 1 a l ty cyc src fl h0 = Some (r, h1) \<and> conf h1 \<and>
      (ty = GETS \<longrightarrow> bst h1 1 l = StS \<or> bst h1 1 l = StE) \<and> (ty = GETX \<longrightarrow> bst h1 1 l = StM) \<and> ?Q h1" if s0: "same h h0" for h0
    proof -
      obtain s h1 where h1: "bcc_request (access E (Suc q)) 1 a l ty cyc src fl h0 = Some (cyc + ucast lat, h1)" "keeps h0 h1"
        "ent h1 = ent h0" "bst h1 = (bst h0)(1 := (bst h0 1)(l := s))" "ty = GETX \<longrightarrow> s = StM" "ty = GETS \<longrightarrow> s = StS \<or> s = StE"
        "flts h1 = flts h0" using llc_request_run [OF sameD(2) [OF s0] l(1) cyc, of q a ty src fl] by blast
      have "s \<noteq> StI" using h1(5,6) ty by (auto simp: IsGet_def)
      with h1 keeps_trans [OF sameD(1) [OF s0] h1(2)] sameD(5,6,9) [OF s0] show ?thesis
        by (intro exI [of _ "cyc + ucast lat"] exI [of _ h1]) (auto simp: keeps_def)
    qed
    from bcc_miss_run [OF c k l(1) miss cyc this] obtain r h1 h' where
      h': "bcc_processAccess (access E (Suc q)) 1 a l ty cyc src fl h = Some (r, h')" "?Q h1" "same h1 h'" "near cyc r (2 ^ 32)"
      by blast
    then obtain s where "bst h1 = (bst h)(1 := (bst h 1)(l := s))" "s \<noteq> StI" "ty = GETX \<longrightarrow> s = StM" by blast
    moreover have "\<not> (bst h 1 l = StE \<or> bst h 1 l = StM)" using miss by auto
    ultimately show ?thesis using h' keeps_trans [OF _ sameD(1) [OF h'(3)]] sameD(5,6,9) [OF h'(3)] by auto
  qed
  then obtain r s h' where h': "bcc_processAccess (access E (Suc q)) 1 a l ty cyc src fl h = Some (r, h')" "keeps h h'"
    "ent h' = ent h" "bst h' = (bst h)(1 := (bst h 1)(l := s))" "s \<noteq> StI" "ty = GETX \<longrightarrow> s = StM" "near cyc r (2 ^ 32)"
    "bst h 1 l = StE \<or> bst h 1 l = StM \<longrightarrow> s = StE \<or> s = StM" "flts h' = flts h" by blast
  have "Inv (bst h') (ent h') (F h') (D h')"
    unfolding h'(3,4) keepsD(2,3) [OF h'(2)]
    by (rule Inv_llc_state [OF I fa h'(5)]) (use InvD(5) [OF I l(1)] h'(8) in blast)
  then have "hinv h'" using keepsD(1) [OF h'(2)] by (simp add: hinv_def)
  with h' show ?thesis by blast
qed

subsection \<open>The array of a cache\<close>

lemma mod_cache_array: "mod_cache k (\<lambda>c. c\<lparr>c_array := a\<rparr>) h = Some h' \<Longrightarrow> c_array (cch h' k) = a"
  by (auto simp: mod_cache_def cch_def the_cache_upd bind_eq_Some_conv dest!: the_cache_len)

lemma new_array_run:
  assumes "conf h" and "isc k" and a: "ainv a" "lns a = lns (c_array (cch h k))" "clash a = clash (c_array (cch h k))"
  shows "\<exists>h'. mod_cache k (\<lambda>c. c\<lparr>c_array := a\<rparr>) h = Some h' \<and> conf h' \<and> ent h' = ent h \<and> bst h' = bst h \<and>
    flts h' = flts h \<and> F h' = (F h)(k := fnd a) \<and> D h' = (D h)(k := adr a) \<and> (\<forall>j. c_accLat (cch h' j) = c_accLat (cch h j))"
proof -
  note c = conf_cache [OF assms(1,2)]
  let ?c = "(cch h k)\<lparr>c_array := a\<rparr>"
  have ok: "cc_ok k ?c" using c(2) a filter_ok_clash [OF a(3)] by (simp add: cc_ok_def)
  have run: "mod_cache k (\<lambda>c. c\<lparr>c_array := a\<rparr>) h = Some (h[k := CacheObj ?c])"
    using c by (simp add: mod_cache_def)
  note u = conf_upd [OF assms(1,2) ok]
  show ?thesis using run u a
    by (intro exI [of _ "h[k := CacheObj ?c]"]) (auto simp: F_def D_def ent_def bst_def flts_def fun_eq_iff)
qed

lemma array_access_run:
  assumes h: "hinv h" and k: "isc k" and ty: "IsGet (req_type req)" and cyc: "unat (req_cycle req) + 2 ^ 36 < 2 ^ 64"
    and evict: "\<And>h0 l cyc. same h h0 \<Longrightarrow> hinv h0 \<Longrightarrow> l < nl k \<Longrightarrow> unat cyc + 2 ^ 35 < 2 ^ 64 \<Longrightarrow>
      (F h k (D h k l) = Some l \<Longrightarrow> clash (c_array (cch h k)) (lineAddr req) (D h k l)) \<Longrightarrow>
      \<exists>r h1. processEviction ac iv k req (D h0 k l) l cyc h0 = Some (r, h1) \<and> keeps h0 h1 \<and> arrs h1 k = arrs h0 k \<and> hinv h1 \<and>
        bst h1 k l = StI \<and> (k = 1 \<longrightarrow> shr (ent h1 l) = {}) \<and> W P h0 h1"
  shows "\<exists>l h'. array_access A ac iv k req h = Some (int l, h') \<and> hinv h' \<and> F h' k (lineAddr req) = Some l \<and>
    (\<forall>k'. k' \<noteq> k \<longrightarrow> F h' k' = F h k') \<and> (\<forall>j. c_accLat (cch h' j) = c_accLat (cch h j)) \<and>
    (F h k (lineAddr req) = None \<longrightarrow> bst h' k l = StI \<and> (k = 1 \<longrightarrow> shr (ent h' l) = {})) \<and>
    (F h k (lineAddr req) \<noteq> None \<longrightarrow> same h h') \<and> W P h h'"
proof -
  let ?a = "lineAddr req"
  have c: "conf h" and I: "Inv (bst h) (ent h) (F h) (D h)" using h by (simp_all add: hinv_def)
  obtain a1 h1 where h1: "ca_lookup A ?a (Some req) (IsGet (req_type req)) (c_array (cch h k)) =
      Some (case F h k ?a of None \<Rightarrow> -1 | Some i \<Rightarrow> int i, a1)"
    "mod_cache k (\<lambda>c. c\<lparr>c_array := a1\<rparr>) h = Some h1" "keeps h h1" "ent h1 = ent h" "bst h1 = bst h"
    "flts h1 = flts h" "clash a1 = clash (c_array (cch h k))"
    using lookup_run [OF c k, of ?a "Some req" "IsGet (req_type req)"] by blast
  have s1: "same h h1" using h1 by (simp add: same_def)
  note c1 = sameD(2) [OF s1]
  show ?thesis
  proof (cases "F h k ?a")
    case (Some l)
    then have "array_access A ac iv k req h = Some (int l, h1)"
      using conf_cache(1) [OF c k] h1(1,2) by (simp add: array_access_def)
    with Some sameD [OF s1] h s1 sameD(10) [OF s1, of P] show ?thesis
      by (intro exI [of _ l] exI [of _ h1]) (auto simp: same_def keeps_def)
  next
    case None
    have alloc: "shouldAllocate (cch h k) req = Some True" using ty by (auto simp: shouldAllocate_def split: option.split)
    have inv1: "ainv (c_array (cch h1 k))" using conf_cache(2) [OF c1 k] by (simp add: cc_ok_def)
    obtain l s where pre: "ca_preinsert A (cc_of (cch h1 k)) ?a (Some req) (c_array (cch h1 k)) = Some (l, adr (c_array (cch h1 k)) l, s)"
      "pend s ?a l" "lns s = lns (c_array (cch h1 k))" "adr s = adr (c_array (cch h1 k))" "fnd s = fnd (c_array (cch h1 k))"
      "clash s = clash (c_array (cch h1 k))" "F h1 k (D h1 k l) = Some l \<longrightarrow> clash (c_array (cch h1 k)) ?a (D h1 k l)"
      using preinsert_law [OF inv1, of "cc_of (cch h1 k)" ?a "Some req"] unfolding F_def D_def by blast
    have arr1: "c_array (cch h1 k) = a1" using mod_cache_array [OF h1(2)] .
    have sinv: "ainv s" "l < nl k"
      using pend_inv [OF pre(2)] pre(3) conf_cache(2) [OF c1 k] by (auto simp: cc_ok_def)
    obtain h2 where h2: "mod_cache k (\<lambda>c. c\<lparr>c_array := s\<rparr>) h1 = Some h2" "keeps h1 h2" "ent h2 = ent h1" "bst h2 = bst h1"
      "arrs h2 = (arrs h1)(k := s)" "flts h2 = flts h1" using set_array_run [OF c1 k sinv(1) pre(3-6)] by blast
    have s2: "same h h2" using same_trans [OF s1] h2 by (simp add: same_def)
    have D2: "D h2 k l = adr (c_array (cch h1 k)) l" using h2(5) pre(4) by (simp add: D_def arrs_def fun_eq_iff)
    let ?cyc = "req_cycle req + ucast (c_accLat (cch h1 k))"
    have "near (req_cycle req) ?cyc (2 ^ 32)" by (rule near_add) (use cyc in simp)
    then have cyc2: "unat ?cyc + 2 ^ 35 < 2 ^ 64" using cyc by (simp add: near_def)
    obtain r h3 where h3: "processEviction ac iv k req (D h2 k l) l ?cyc h2 = Some (r, h3)" "keeps h2 h3" "arrs h3 k = arrs h2 k"
      "hinv h3" "bst h3 k l = StI" "k = 1 \<longrightarrow> shr (ent h3 l) = {}" "W P h2 h3"
      using evict [OF s2 sameD(7) [OF s2 h] sinv(2) cyc2] pre(7) sameD(3,4) [OF s1] arr1 h1(7) by auto
    have c3: "conf h3" and I3: "Inv (bst h3) (ent h3) (F h3) (D h3)" using h3(4) by (simp_all add: hinv_def)
    have arr3: "c_array (cch h3 k) = s" using h3(3) h2(5) by (simp add: arrs_def)
    have F3: "F h3 = F h" and D3: "D h3 = D h" using sameD(3,4) [OF s2] keepsD(2,3) [OF h3(2)] by simp_all
    have fs: "fnd s = F h k" "adr s = D h k" using arr3 F3 D3 by (auto simp: F_def D_def fun_eq_iff)
    have fresh: "fnd s ?a = None" using None fs by simp
    obtain t where t: "ca_postinsert A ?a (Some req) l s = Some t" "ainv t" "lns t = lns s" "adr t = (adr s)(l := ?a)"
      "fnd t ?a = Some l" "\<forall>x. x \<noteq> ?a \<longrightarrow> fnd s x \<noteq> Some l \<longrightarrow> fnd t x = fnd s x" "clash t = clash s"
      using postinsert_law [OF pre(2) fresh] by blast
    obtain h4 where h4: "mod_cache k (\<lambda>c. c\<lparr>c_array := t\<rparr>) h3 = Some h4" "conf h4" "ent h4 = ent h3" "bst h4 = bst h3"
      "F h4 = (F h3)(k := fnd t)" "D h4 = (D h3)(k := adr t)" "\<forall>j. c_accLat (cch h4 j) = c_accLat (cch h3 j)"
      "flts h4 = flts h3" using new_array_run [OF c3 k t(2)] t(3,7) arr3 by auto
    have "array_access A ac iv k req h = Some (int l, h4)"
      using conf_cache(1) [OF c k] conf_cache(1) [OF c1 k] conf_cache(1) [OF c3 k] h1(1,2) None alloc pre(1) h2(1) h3(1)
        t(1) h4(1) by (simp add: array_access_def D2 arr3)
    moreover have new: "F h3 k ?a = None" "F h4 k ?a = Some l" "\<And>x. x \<noteq> ?a \<Longrightarrow> F h3 k x \<noteq> Some l \<Longrightarrow> F h4 k x = F h3 k x"
      "\<And>x i. x \<noteq> ?a \<Longrightarrow> F h4 k x = Some i \<Longrightarrow> F h3 k x = Some l \<Longrightarrow> i \<noteq> l \<and> i < nl k \<and> D h3 k i = x"
      "\<And>k'. k' \<noteq> k \<Longrightarrow> F h4 k' = F h3 k'"
    proof -
      show "F h3 k ?a = None" using None F3 by simp
      show "F h4 k ?a = Some l" using h4(5) t(5) by simp
      show "F h4 k x = F h3 k x" if "x \<noteq> ?a" "F h3 k x \<noteq> Some l" for x using that t(6) h4(5) F3 fs by simp
      show "i \<noteq> l \<and> i < nl k \<and> D h3 k i = x" if "x \<noteq> ?a" "F h4 k x = Some i" "F h3 k x = Some l" for x i
      proof -
        have "i \<noteq> l \<and> i < lns s \<and> adr s i = x"
          by (rule postinsert_lost [OF pre(2) fresh t(1) that(1)]) (use that h4(5) F3 fs in simp_all)
        with fs D3 conf_cache(2) [OF c3 k] arr3 show ?thesis by (simp add: cc_ok_def)
      qed
      show "F h4 k' = F h3 k'" if "k' \<noteq> k" for k' using that h4(5) by simp
    qed
    moreover have "Inv (bst h4) (ent h4) (F h4) (D h4)"
      unfolding h4(3,4)
    proof (rule Inv_insert [where l = l and x = ?a and k = k, OF I3 k])
      show "bst h3 k l = StI" "l < nl k" "nl k \<le> bl k" by (rule h3(5) sinv(2) bl_pos [OF c k])+
      show "F h3 k ?a = None" "F h4 k ?a = Some l" by (fact new)+
      show "F h4 k x = F h3 k x" if "x \<noteq> ?a" "F h3 k x \<noteq> Some l" for x using that by (rule new(3))
      show "i \<noteq> l \<and> i < nl k \<and> D h3 k i = x" if "x \<noteq> ?a" "F h4 k x = Some i" "F h3 k x = Some l" for x i
        using that by (rule new(4))
      show "k = 1 \<Longrightarrow> shr (ent h3 l) = {}" using h3(6) by simp
      show "i < nl k \<and> D h4 k i = x" if "F h4 k x = Some i" for x i
        using fnd_adr [OF t(2), of x i] that h4(5,6) t(3) conf_cache(2) [OF c3 k] arr3 by (simp add: cc_ok_def)
      show "D h4 k = (D h3 k)(l := ?a)" using h4(6) t(4) fs D3 by simp
      show "F h4 k' = F h3 k' \<and> D h4 k' = D h3 k'" if "k' \<noteq> k" for k' using that h4(5,6) by simp
    qed
    then have "hinv h4" using h4(2) by (simp add: hinv_def)
    moreover have "hst h4 k' x = hst h3 k' x" for k' x
      unfolding hst_def h4(4) by (rule vst_insert [OF I3 k new(1) h3(5) new(2,3,4) bl_pos [OF c k] new(5)])
    then have "W P h3 h4" by (intro W_same [OF h4(8)])
    then have "W P h h4" using W_trans [OF sameD(10) [OF s2] W_trans [OF h3(7)]] by blast
    moreover have "c_accLat (cch h4 j) = c_accLat (cch h j)" for j
      using h4(7) h3(2) sameD(1) [OF s2] by (simp add: keeps_def)
    ultimately show ?thesis using h4(3-5) t(5) F3 h3(5,6) None
      by (intro exI [of _ l] exI [of _ h4]) simp
  qed
qed

lemma llc_array_run:
  assumes h: "hinv h" and ty: "IsGet (req_type req)" and cyc: "unat (req_cycle req) + 2 ^ 36 < 2 ^ 64"
  shows "\<exists>l h'. array_access A (access E (Suc q)) (invalidate E (Suc q)) 1 req h = Some (int l, h') \<and> hinv h' \<and>
    F h' 1 (lineAddr req) = Some l \<and> (\<forall>k. k \<noteq> 1 \<longrightarrow> F h' k = F h k) \<and> (\<forall>j. c_accLat (cch h' j) = c_accLat (cch h j)) \<and>
    (\<forall>j<n. hst h' (j + 2) (lineAddr req) = hst h (j + 2) (lineAddr req)) \<and> W0 h h'"
proof -
  let ?a = "lineAddr req"
  have evict: "\<exists>r h1. processEviction (access E (Suc q)) (invalidate E (Suc q)) 1 req (D h0 1 l) l cyc h0 = Some (r, h1) \<and>
      keeps h0 h1 \<and> arrs h1 1 = arrs h0 1 \<and> hinv h1 \<and> bst h1 1 l = StI \<and> (1 = (1::nat) \<longrightarrow> shr (ent h1 l) = {}) \<and>
      W0 h0 h1"
    if "same h h0" "hinv h0" "l < nl 1" "unat cyc + 2 ^ 35 < 2 ^ 64" "F h 1 (D h 1 l) = Some l \<Longrightarrow> clash (c_array (cch h 1)) ?a (D h 1 l)"
    for h0 l cyc using llc_eviction_run [OF that(2,3,4), of q req] by auto
  have "\<exists>l h'. array_access A (access E (Suc q)) (invalidate E (Suc q)) 1 req h = Some (int l, h') \<and> hinv h' \<and>
    F h' 1 ?a = Some l \<and> (\<forall>k. k \<noteq> 1 \<longrightarrow> F h' k = F h k) \<and> (\<forall>j. c_accLat (cch h' j) = c_accLat (cch h j)) \<and>
    (F h 1 ?a = None \<longrightarrow> bst h' 1 l = StI \<and> (1 = (1::nat) \<longrightarrow> shr (ent h' l) = {})) \<and> (F h 1 ?a \<noteq> None \<longrightarrow> same h h') \<and> W0 h h'"
    by (rule array_access_run [OF h isc_simps(1) ty cyc]) (rule evict)
  then obtain l h' where r: "array_access A (access E (Suc q)) (invalidate E (Suc q)) 1 req h = Some (int l, h')" "hinv h'"
    "F h' 1 ?a = Some l" "\<forall>k. k \<noteq> 1 \<longrightarrow> F h' k = F h k" "\<forall>j. c_accLat (cch h' j) = c_accLat (cch h j)"
    "F h 1 ?a = None \<longrightarrow> bst h' 1 l = StI \<and> shr (ent h' l) = {}" "F h 1 ?a \<noteq> None \<longrightarrow> same h h'" "W0 h h'"
    by (elim exE conjE) simp
  have "hst h' (j + 2) ?a = hst h (j + 2) ?a" if j: "j < n" for j
  proof (cases "F h 1 ?a")
    case None
    have I: "Inv (bst h) (ent h) (F h) (D h)" and I': "Inv (bst h') (ent h') (F h') (D h')" using h r(2) by (simp_all add: hinv_def)
    have "hst h (j + 2) ?a = StI" using InvD(8) [OF I j, of ?a] None by (auto simp: hst_def)
    moreover have "hst h' (j + 2) ?a = StI" using Inv_sharer [OF I' r(3) j] r(6) None by (simp add: hst_def)
    ultimately show ?thesis by simp
  next
    case (Some i)
    with r(7) have "same h h'" by simp
    from sameD(8) [OF this] show ?thesis by simp
  qed
  with r show ?thesis by blast
qed

end

end
