(* ===== verification/Hierarchy_Access.thy ===== *)
theory Hierarchy_Access imports Hierarchy_Ops begin

text \<open>
  Accesses of a two-level hierarchy, from the directory of the shared cache up to an access of a core:
  from a heap that satisfies the invariant they return, keep the invariant, and leave the line in the
  state the request asks for.
\<close>

lemma shr_put [simp]:
  assumes "length (sharers e) = 256" and "j < 256"
  shows "shr (e'\<lparr>sharers := (sharers e)[j := True]\<rparr>) = insert j (shr e)"
    "shr (e'\<lparr>sharers := (sharers e)[j := False]\<rparr>) = shr e - {j}"
  using assms by (auto simp: shr_def nth_list_update split: if_splits)

lemma shr_fields [simp]: "shr (e\<lparr>numSharers := x\<rparr>) = shr e" "shr (e\<lparr>exclusive := y\<rparr>) = shr e"
  by (simp_all add: shr_def)

lemma sharers_in: "length (sharers e) = 256 \<Longrightarrow> j < 256 \<Longrightarrow> sharers e ! j \<longleftrightarrow> j \<in> shr e"
  by (simp add: shr_def)

context two_level begin

text \<open>The states of the lines when the child \<open>j\<close> has got its new state and the shared cache has noted a
  writeback.\<close>

definition granted :: "nat \<Rightarrow> nat \<Rightarrow> nat \<Rightarrow> MESIState \<Rightarrow> bool \<Rightarrow> (nat \<Rightarrow> nat \<Rightarrow> MESIState) \<Rightarrow> nat \<Rightarrow> nat \<Rightarrow> MESIState" where
  "granted l j i st wb b = b(1 := (b 1)(l := if wb then StM else b 1 l), j + 2 := (b (j + 2))(i := st))"

lemma tcc_gets_run:
  assumes h: "hinv h" and fa: "F h 1 a = Some l" and st1: "bst h 1 l \<noteq> StI" and j: "j < n" and fi: "F h (j + 2) a = Some i"
    and st: "hst h (j + 2) a = StI" and cyc: "unat cyc + 2 ^ 34 < 2 ^ 64"
  shows "\<exists>r st wb h'. tcc_gets (invalidate E (Suc q)) 1 a l j (bst h 1 l = StE \<or> bst h 1 l = StM) False cyc src fl h =
      Some (r, st, wb, h') \<and> keeps h h' \<and> arrs h' = arrs h \<and> near cyc r (2 ^ 33) \<and> (st = StS \<or> st = StE) \<and>
    bst h' 1 = bst h 1 \<and> (wb \<longrightarrow> bst h 1 l = StE \<or> bst h 1 l = StM) \<and> W0 h h' \<and>
    Inv (granted l j i st wb (bst h')) (ent h') (F h) (D h)"
proof -
  have c: "conf h" and I: "Inv (bst h) (ent h) (F h) (D h)" using h by (simp_all add: hinv_def)
  have l: "l < bl 1" "D h 1 l = a" using InvD(1) [OF I _ fa] by simp_all
  note dir = InvD(3) [OF I l(1)]
  note e = get_entry_run [OF c l(1)]
  have j256: "j < 256" using j conf_bounds(1) [OF c] by simp
  have nj: "j \<notin> shr (ent h l)" using Inv_sharer [OF I fa j] st by (simp add: hst_def)
  have share: "read_at (sharers (ent h l)) j = Some False"
    using e(2) j256 nj sharers_in [of "ent h l" j] by (simp add: read_at_def)
  show ?thesis
  proof (cases "isEmpty (ent h l) \<and> (bst h 1 l = StE \<or> bst h 1 l = StM) \<and> fl AND flag_bits NOEXCL = 0")
    case True
    let ?f = "\<lambda>e. e\<lparr>exclusive := True, sharers := (sharers e)[j := True], numSharers := 1\<rparr>"
    have len: "length (sharers (?f (ent h l))) = 256" using e(2) by simp
    obtain h1 where h1: "mod_entry 1 l ?f h = Some h1" "keeps h h1" "ent h1 = (ent h)(l := ?f (ent h l))" "bst h1 = bst h"
      "arrs h1 = arrs h" "flts h1 = flts h" using mod_entry_run [where f = ?f, OF c l(1) len] by blast
    have w: "W0 h h1" by (rule W_llc [OF h1(2,6)]) (simp add: h1(4))
    have none: "shr (ent h l) = {}" using dir_ok_empty [OF dir conf_bounds(1) [OF c]] True by simp
    have e1: "shr (ent h1 l) = {j}" "numSharers (ent h1 l) = 1" "exclusive (ent h1 l)"
      using h1(3) none shr_put(1) [OF e(2) j256] by simp_all
    have "tcc_gets (invalidate E (Suc q)) 1 a l j (bst h 1 l = StE \<or> bst h 1 l = StM) False cyc src fl h =
        Some (cyc, StE, False, h1)"
      using e(1) share True h1(1) by (simp add: tcc_gets_def del: invalidate.simps read_at_Some)
    moreover have "Inv ((bst h)(j + 2 := (bst h (j + 2))(i := StE))) (ent h1) (F h) (D h)"
      by (rule Inv_gets_excl [where e' = "ent h1", OF I j fa fi none _ _ _ e1]) (use True h1(3) in auto)
    then have "Inv (granted l j i StE False (bst h1)) (ent h1) (F h) (D h)" using h1(4) by (simp add: granted_def)
    ultimately show ?thesis using h1 w by (intro exI [of _ cyc] exI [of _ StE] exI [of _ False] exI [of _ h1]) simp
  next
    case False
    let ?S = "if isExclusive (ent h l) then shr (ent h l) else {}"
    have "\<exists>r wb h1. (if isExclusive (ent h l) then sendInvalidates (invalidate E (Suc q)) 1 a l INVX False cyc src h
        else Some (cyc, False, h)) = Some (r, wb, h1) \<and> keeps h h1 \<and> arrs h1 = arrs h \<and> near cyc r (2 ^ 33) \<and>
      bst h1 = after_inv INVX a ?S (F h) (bst h) \<and> (\<forall>x. x \<noteq> l \<longrightarrow> ent h1 x = ent h x) \<and> shr (ent h1 l) = shr (ent h l) \<and>
      numSharers (ent h1 l) = numSharers (ent h l) \<and> \<not> isExclusive (ent h1 l) \<and>
      (wb \<longrightarrow> bst h 1 l = StE \<or> bst h 1 l = StM) \<and> W0 h h1"
    proof (cases "isExclusive (ent h l)")
      case ex: True
      have can: "can_inv INVX a (shr (ent h l)) h" using can_inv_sharers [OF I fa, of INVX "shr (ent h l)"] ex by simp
      obtain r h1 where "sendInvalidates (invalidate E (Suc q)) 1 a l INVX False cyc src h = Some (r, False \<or> dirty a (shr (ent h l)) h, h1)"
        "keeps h h1" "arrs h1 = arrs h" "near cyc r (2 ^ 33)" "bst h1 = after_inv INVX a (shr (ent h l)) (F h) (bst h)"
        "\<forall>x. x \<noteq> l \<longrightarrow> ent h1 x = ent h x" "shr (ent h1 l) = shr (ent h l)" "numSharers (ent h1 l) = numSharers (ent h l)"
        "\<not> exclusive (ent h1 l)" "W0 h h1"
        using sendInvalidates_run [OF c l(1) _ dir can cyc, of q False src] ex by auto
      with ex dirty_exclusive(2) [OF I fa, of "shr (ent h l)"] show ?thesis
        by (intro exI [of _ r] exI [of _ "dirty a (shr (ent h l)) h"] exI [of _ h1]) (auto simp: isExclusive_def)
    next
      case False
      have "bst h = after_inv INVX a {} (F h) (bst h)" by (auto simp: after_inv_def fun_eq_iff)
      with False c show ?thesis by (intro exI [of _ cyc] exI [of _ False] exI [of _ h]) simp
    qed
    then obtain r wb h1 where h1: "(if isExclusive (ent h l) then sendInvalidates (invalidate E (Suc q)) 1 a l INVX False cyc src h
        else Some (cyc, False, h)) = Some (r, wb, h1)" "keeps h h1" "arrs h1 = arrs h" "near cyc r (2 ^ 33)"
      "bst h1 = after_inv INVX a ?S (F h) (bst h)" "\<forall>x. x \<noteq> l \<longrightarrow> ent h1 x = ent h x" "shr (ent h1 l) = shr (ent h l)"
      "numSharers (ent h1 l) = numSharers (ent h l)" "\<not> isExclusive (ent h1 l)" "wb \<longrightarrow> bst h 1 l = StE \<or> bst h 1 l = StM" "W0 h h1" by blast
    note c1 = arrs_keeps [OF h1(2)]
    note e1 = get_entry_run [OF c1 l(1)]
    let ?f = "\<lambda>e. e\<lparr>sharers := (sharers e)[j := True], numSharers := numSharers e + 1, exclusive := False\<rparr>"
    have len: "length (sharers (?f (ent h1 l))) = 256" using e1(2) by simp
    obtain h2 where h2: "mod_entry 1 l ?f h1 = Some h2" "keeps h1 h2" "ent h2 = (ent h1)(l := ?f (ent h1 l))" "bst h2 = bst h1"
      "arrs h2 = arrs h1" "flts h2 = flts h1" using mod_entry_run [where f = ?f, OF c1 l(1) len] by blast
    have w: "W0 h h2" using W_trans [OF h1(11) W_llc [OF h2(2,6)]] h2(4) by simp
    have e2: "shr (ent h2 l) = insert j (shr (ent h l))" "numSharers (ent h2 l) = numSharers (ent h l) + 1" "\<not> exclusive (ent h2 l)"
      using h2(3) h1(7,8) shr_put(1) [OF e1(2) j256] by simp_all
    have run: "tcc_gets (invalidate E (Suc q)) 1 a l j (bst h 1 l = StE \<or> bst h 1 l = StM) False cyc src fl h = Some (r, StS, wb, h2)"
      using e(1) share False h1(1,9) e1(1) h2(1) by (simp add: tcc_gets_def del: invalidate.simps read_at_Some cong: if_cong) (metis False)
    have "Inv (granted l j i StS wb (bst h2)) (ent h2) (F h) (D h)"
      by (rule Inv_gets_shared [where e' = "ent h2" and s = "if wb then StM else bst h 1 l", OF I j fa fi nj st1 _ _ refl e2])
        (use h1(5,6) h2(3,4) in \<open>auto simp: granted_def\<close>)
    with run keeps_trans [OF h1(2) h2(2)] h1 h2 w show ?thesis
      by (intro exI [of _ r] exI [of _ StS] exI [of _ wb] exI [of _ h2]) simp
  qed
qed

lemma tcc_getx_run:
  assumes h: "hinv h" and fa: "F h 1 a = Some l" and st1: "bst h 1 l = StM" and j: "j < n" and fi: "F h (j + 2) a = Some i"
    and st: "hst h (j + 2) a = StI \<or> hst h (j + 2) a = StS" and cyc: "unat cyc + 2 ^ 34 < 2 ^ 64"
  shows "\<exists>r wb h'. tcc_getx (invalidate E (Suc q)) 1 a l j True False cyc src h = Some (r, StM, wb, h') \<and>
    keeps h h' \<and> arrs h' = arrs h \<and> near cyc r (2 ^ 33) \<and> bst h' 1 = bst h 1 \<and> W0 h h' \<and>
    Inv (granted l j i StM wb (bst h')) (ent h') (F h) (D h)"
proof -
  have c: "conf h" and I: "Inv (bst h) (ent h) (F h) (D h)" using h by (simp_all add: hinv_def)
  have l: "l < bl 1" "D h 1 l = a" using InvD(1) [OF I _ fa] by simp_all
  note dir = InvD(3) [OF I l(1)]
  note e = get_entry_run [OF c l(1)]
  have j256: "j < 256" using j conf_bounds(1) [OF c] by simp
  have share: "read_at (sharers (ent h l)) j = Some (j \<in> shr (ent h l))"
    using e(2) j256 sharers_in [of "ent h l" j] by (simp add: read_at_def)
  let ?S = "shr (ent h l) - {j}"
  let ?f = "\<lambda>e. e\<lparr>sharers := (sharers e)[j := False], numSharers := numSharers e - 1\<rparr>"
  have "\<exists>h1. (if j \<in> shr (ent h l) then do { assert_that (\<not> isExclusive (ent h l)); mod_entry 1 l ?f h } else Some h) = Some h1 \<and>
    keeps h h1 \<and> arrs h1 = arrs h \<and> bst h1 = bst h \<and> flts h1 = flts h \<and> (\<forall>x. x \<noteq> l \<longrightarrow> ent h1 x = ent h x) \<and> shr (ent h1 l) = ?S \<and> dir_ok n (ent h1 l)"
  proof (cases "j \<in> shr (ent h l)")
    case False
    with c dir show ?thesis by (intro exI [of _ h]) simp
  next
    case True
    have nex: "\<not> isExclusive (ent h l)" using InvD(6) [OF I l(1) True] l(2) st by (auto simp: hst_def)
    have len: "length (sharers (?f (ent h l))) = 256" using e(2) by simp
    obtain h1 where h1: "mod_entry 1 l ?f h = Some h1" "keeps h h1" "ent h1 = (ent h)(l := ?f (ent h l))" "bst h1 = bst h"
      "arrs h1 = arrs h" "flts h1 = flts h" using mod_entry_run [where f = ?f, OF c l(1) len] by blast
    have e1: "shr (ent h1 l) = ?S" "numSharers (ent h1 l) = numSharers (ent h l) - 1" "exclusive (ent h1 l) = exclusive (ent h l)"
      using h1(3) shr_put(2) [OF e(2) j256] by simp_all
    have "card (shr (ent h l)) = Suc (card ?S)" using card.remove [OF shr_finite True] by simp
    then have "card ?S \<le> card (shr (ent h l))" "numSharers (ent h1 l) = of_nat (card ?S)" using dir e1(2) by (simp_all add: dir_ok_def)
    then have "dir_ok n (ent h1 l)" using dir e1(1,3) unfolding dir_ok_def by (metis Diff_subset order_trans)
    with True nex h1 e1 show ?thesis by (intro exI [of _ h1]) simp
  qed
  then obtain h1 where h1: "(if j \<in> shr (ent h l) then do { assert_that (\<not> isExclusive (ent h l)); mod_entry 1 l ?f h } else Some h) = Some h1"
    "keeps h h1" "arrs h1 = arrs h" "bst h1 = bst h" "\<forall>x. x \<noteq> l \<longrightarrow> ent h1 x = ent h x" "shr (ent h1 l) = ?S" "dir_ok n (ent h1 l)" "flts h1 = flts h" by blast
  note c1 = arrs_keeps [OF h1(2)]
  have can: "can_inv INV a (shr (ent h1 l)) h1"
    using can_inv_sharers [OF I fa, of INV ?S] h1(4,6) keepsD(2) [OF h1(2)] by (simp add: can_inv_def)
  obtain r wb h2 where h2: "sendInvalidates (invalidate E (Suc q)) 1 a l INV False cyc src h1 = Some (r, wb, h2)"
    "keeps h1 h2" "arrs h2 = arrs h1" "near cyc r (2 ^ 33)" "bst h2 = after_inv INV a ?S (F h) (bst h)"
    "\<forall>x. x \<noteq> l \<longrightarrow> ent h2 x = ent h1 x" "shr (ent h2 l) = {}" "numSharers (ent h2 l) = 0" "W0 h1 h2"
    using sendInvalidates_run [where type = INV, OF c1 l(1) _ h1(7) can cyc, of q False src] h1(4,6) keepsD(2) [OF h1(2)] by auto
  note c2 = arrs_keeps [OF h2(2)]
  note e2 = get_entry_run [OF c2 l(1)]
  let ?g = "\<lambda>e. e\<lparr>sharers := (sharers e)[j := True], numSharers := numSharers e + 1, exclusive := True\<rparr>"
  have len: "length (sharers (?g (ent h2 l))) = 256" using e2(2) by simp
  obtain h3 where h3: "mod_entry 1 l ?g h2 = Some h3" "keeps h2 h3" "ent h3 = (ent h2)(l := ?g (ent h2 l))" "bst h3 = bst h2"
    "arrs h3 = arrs h2" "flts h3 = flts h2" using mod_entry_run [where f = ?g, OF c2 l(1) len] by blast
  have w: "W0 h h3" using W_trans [OF W_llc [OF h1(2,8)] W_trans [OF h2(9) W_llc [OF h3(2,6)]]] h1(4) h3(4) by simp
  have e3: "shr (ent h3 l) = {j}" "numSharers (ent h3 l) = 1" "exclusive (ent h3 l)"
    using h3(3) h2(7,8) shr_put(1) [OF e2(2) j256] by simp_all
  have run: "tcc_getx (invalidate E (Suc q)) 1 a l j True False cyc src h = Some (r, StM, wb, h3)"
    using e(1) share h1(1) h2(1) h3(1) get_entry_run(1) [OF arrs_keeps [OF h3(2)] l(1)] e3(2)
    by (simp add: tcc_getx_def del: invalidate.simps read_at_Some)
  have "Inv (granted l j i StM wb (bst h3)) (ent h3) (F h) (D h)"
    by (rule Inv_getx [where e' = "ent h3" and s = StM, OF I j fa fi _ _ _ e3])
      (use st1 h1(5) h2(5,6) h3(3,4) in \<open>auto simp: granted_def\<close>)
  with run keeps_trans [OF keeps_trans [OF h1(2) h2(2)] h3(2)] h1 h2 h3 w show ?thesis
    by (intro exI [of _ r] exI [of _ wb] exI [of _ h3]) simp
qed

lemma tcc_get_run:
  assumes h: "hinv h" and fa: "F h 1 a = Some l" and st1: "bst h 1 l \<noteq> StI" and j: "j < n" and fi: "F h (j + 2) a = Some i"
    and ty: "ty = GETS \<and> hst h (j + 2) a = StI \<or>
      ty = GETX \<and> (hst h (j + 2) a = StI \<or> hst h (j + 2) a = StS) \<and> bst h 1 l = StM"
    and cyc: "unat cyc + 2 ^ 34 < 2 ^ 64"
  shows "\<exists>r st wb h'. tcc_processAccess (invalidate E (Suc q)) 1 a l ty j (bst h 1 l = StE \<or> bst h 1 l = StM) cs False cyc src fl h =
      Some (r, st, wb, h') \<and> keeps h h' \<and> arrs h' = arrs h \<and> near cyc r (2 ^ 33) \<and>
    (ty = GETS \<longrightarrow> st = StS \<or> st = StE) \<and> (ty = GETX \<longrightarrow> st = StM) \<and>
    bst h' 1 = bst h 1 \<and> (wb \<longrightarrow> bst h 1 l = StE \<or> bst h 1 l = StM) \<and> W0 h h' \<and>
    Inv (granted l j i st wb (bst h')) (ent h') (F h) (D h)"
proof (cases "ty = GETS")
  case True
  with tcc_gets_run [OF h fa st1 j fi _ cyc, of q src fl] ty show ?thesis
    by (simp add: tcc_processAccess_def del: invalidate.simps)
next
  case False
  with tcc_getx_run [OF h fa _ j fi _ cyc, of q src] ty show ?thesis
    by (simp add: tcc_processAccess_def del: invalidate.simps)
qed

text \<open>The shared cache serves a request of the child \<open>j\<close> for line \<open>l\<close>.\<close>

lemma llc_serve_run:
  assumes h: "hinv h" and fa: "F h 1 (lineAddr req) = Some l" and j: "childId req = j" "j < n"
    and fi: "F h (j + 2) (lineAddr req) = Some i" and ty: "IsGet (req_type req)"
    and st: "if req_type req = GETS then hst h (j + 2) (lineAddr req) = StI
      else hst h (j + 2) (lineAddr req) = StI \<or> hst h (j + 2) (lineAddr req) = StS"
    and pf: "\<not> is_flag PREFETCH req" and cyc: "unat cyc + 2 ^ 35 < 2 ^ 64"
  shows "\<exists>r st h'. processAccess (access E (Suc q)) (invalidate E (Suc q)) 1 req (int l) cyc h = Some (r, st, h') \<and>
    keeps h h' \<and> near cyc r (2 ^ 34) \<and> W0 h h' \<and>
    (req_type req = GETS \<longrightarrow> st = StS \<or> st = StE) \<and> (req_type req = GETX \<longrightarrow> st = StM) \<and>
    Inv ((bst h')(j + 2 := (bst h' (j + 2))(i := st))) (ent h') (F h) (D h)"
proof -
  have c: "conf h" and I: "Inv (bst h) (ent h) (F h) (D h)" using h by (simp_all add: hinv_def)
  have k: "isc 1" by simp
  let ?a = "lineAddr req" and ?ty = "req_type req" and ?src = "srcId req" and ?fl = "flags req AND NOT (flag_bits PREFETCH)"
  have l: "l < bl 1" using InvD(1) [OF I _ fa] by simp
  have top: "\<exists>x. c_tcc (cch h 1) = Some x" using conf_cache(2) [OF c k] by (auto simp: cc_ok_def top_ok_def)
  have notput: "\<not> IsPut ?ty" using ty by (cases ?ty) (auto simp: IsGet_def IsPut_def)
  obtain r s h1 where h1: "bcc_processAccess (access E (Suc q)) 1 ?a l ?ty cyc ?src ?fl h = Some (r, h1)" "hinv h1" "keeps h h1"
    "ent h1 = ent h" "bst h1 = (bst h)(1 := (bst h 1)(l := s))" "s \<noteq> StI" "?ty = GETX \<longrightarrow> s = StM" "near cyc r (2 ^ 32)" "flts h1 = flts h"
    using llc_bcc_run [OF h fa ty, of cyc q ?src ?fl] cyc by auto
  note c1 = arrs_keeps [OF h1(3)] and f1 = keepsD(2,3) [OF h1(3)]
  have hst1: "hst h1 (j + 2) ?a = hst h (j + 2) ?a" using f1 h1(5) by (simp add: hst_def)
  have s1: "bst h1 1 l = s" using h1(5) by simp
  have cyc1: "unat r + 2 ^ 34 < 2 ^ 64" using h1(8) cyc by (simp add: near_def)
  obtain r2 st wb h2 where h2: "tcc_processAccess (invalidate E (Suc q)) 1 ?a l ?ty j (s = StE \<or> s = StM) (req_state req) False r ?src ?fl h1 =
      Some (r2, st, wb, h2)" "keeps h1 h2" "arrs h2 = arrs h1" "near r r2 (2 ^ 33)" "?ty = GETS \<longrightarrow> st = StS \<or> st = StE"
      "?ty = GETX \<longrightarrow> st = StM" "bst h2 1 = bst h1 1" "wb \<longrightarrow> s = StE \<or> s = StM" "Inv (granted l j i st wb (bst h2)) (ent h2) (F h) (D h)" "W0 h1 h2"
    using tcc_get_run [OF h1(2) _ _ j(2) _ _ cyc1, of ?a l i ?ty q "req_state req" ?src ?fl] fa fi st ty h1(6,7)
    unfolding s1 f1 hst1 by (auto simp: IsGet_def split: if_splits)
  note c2 = arrs_keeps [OF h2(2)]
  have "\<exists>h3. (if wb then bcc_processWritebackOnAccess 1 l h2 else Some h2) = Some h3 \<and> keeps h2 h3 \<and> arrs h3 = arrs h2 \<and>
      flts h3 = flts h2 \<and> ent h3 = ent h2 \<and> bst h3 = (bst h2)(1 := (bst h2 1)(l := if wb then StM else bst h2 1 l))"
  proof (cases "wb \<and> s = StE")
    case True
    with put_state_run [OF c2 k l, of StM] get_state_run [OF c2 k l] h2(7) s1 show ?thesis
      by (auto simp: bcc_processWritebackOnAccess_def)
  next
    case False
    have "bst h2 = (bst h2)(1 := (bst h2 1)(l := if wb then StM else bst h2 1 l))"
      using False h2(7,8) s1 by (auto simp: fun_eq_iff)
    with False get_state_run [OF c2 k l] c2 h2(7,8) s1 show ?thesis
      by (intro exI [of _ h2]) (auto simp: bcc_processWritebackOnAccess_def)
  qed
  then obtain h3 where h3: "(if wb then bcc_processWritebackOnAccess 1 l h2 else Some h2) = Some h3" "keeps h2 h3" "arrs h3 = arrs h2"
    "ent h3 = ent h2" "bst h3 = (bst h2)(1 := (bst h2 1)(l := if wb then StM else bst h2 1 l))" "flts h3 = flts h2" by blast
  have w: "W0 h h3" using W_trans [OF W_llc [OF h1(3,9)] W_trans [OF h2(10) W_llc [OF h3(2,6)]]] h1(5) h3(5) by simp
  have "processAccess (access E (Suc q)) (invalidate E (Suc q)) 1 req (int l) cyc h = Some (r2, st, h3)"
    using conf_cache(1) [OF c k] top get_state_run [OF c k l] notput pf h1(1) get_state_run [OF c1 k l] s1 h2(1) h3(1) j(1)
    by (auto simp: processAccess_def mesi_processAccess_def Let_def bcc_isExclusive_def simp del: access.simps invalidate.simps)
  moreover have "Inv ((bst h3)(j + 2 := (bst h3 (j + 2))(i := st))) (ent h3) (F h) (D h)"
    using h2(9) by (simp add: granted_def h3(4,5))
  ultimately show ?thesis
    using keeps_trans [OF keeps_trans [OF h1(3) h2(2)] h3(2)] near_mono [OF near_trans [OF h1(8) h2(4)]] h2(5,6) w
    by (intro exI [of _ r2] exI [of _ st] exI [of _ h3]) auto
qed

lemma the_object_run:
  assumes "conf h" and "isc k"
  shows "access E (Suc q) k req h = cache_access (E k) (access E q) (invalidate E q) k req h"
proof -
  have "read_at h k = Some (CacheObj (cch h k))"
    using conf_cache(1) [OF assms] by (auto simp: the_cache_def split: option.splits MemObject.splits)
  then show ?thesis by (simp del: read_at_Some)
qed

lemma start_run:
  assumes "conf h" and "isc k" and "k = 1 \<or> IsGet (req_type req)" and "req_state req = initialState req"
  shows "startAccess (cch h k) req = Some (False, req)"
  using assms conf_cache(2) [OF assms(1,2)]
  by (auto simp: startAccess_def CheckForMESIRace_def cc_ok_def top_ok_def)

text \<open>A request of the child \<open>j\<close> to the shared cache.\<close>

lemma llc_access_run:
  assumes h: "hinv h" and j: "childId req = j" "j < n" and fi: "F h (j + 2) (lineAddr req) = Some i"
    and ty: "IsGet (req_type req)" and rs: "req_state req = initialState req"
    and st: "if req_type req = GETS then hst h (j + 2) (lineAddr req) = StI
      else hst h (j + 2) (lineAddr req) = StI \<or> hst h (j + 2) (lineAddr req) = StS"
    and pf: "\<not> is_flag PREFETCH req" and cyc: "unat (req_cycle req) + 2 ^ 36 < 2 ^ 64"
  shows "\<exists>r st h'. access E (Suc (Suc q)) 1 req h = Some (r, st, h') \<and> conf h' \<and> (\<forall>k. k \<noteq> 1 \<longrightarrow> F h' k = F h k) \<and>
    (\<forall>k. c_accLat (cch h' k) = c_accLat (cch h k)) \<and> near (req_cycle req) r (2 ^ 35) \<and> W0 h h' \<and>
    (req_type req = GETS \<longrightarrow> st = StS \<or> st = StE) \<and> (req_type req = GETX \<longrightarrow> st = StM) \<and>
    Inv ((bst h')(j + 2 := (bst h' (j + 2))(i := st))) (ent h') (F h') (D h')"
proof -
  have c: "conf h" using h by (simp add: hinv_def)
  have k: "isc 1" by simp
  let ?a = "lineAddr req"
  obtain l h1 where h1: "array_access A (access E (Suc q)) (invalidate E (Suc q)) 1 req h = Some (int l, h1)" "hinv h1"
    "F h1 1 ?a = Some l" "\<forall>k. k \<noteq> 1 \<longrightarrow> F h1 k = F h k" "\<forall>k. c_accLat (cch h1 k) = c_accLat (cch h k)"
    "\<forall>j<n. hst h1 (j + 2) ?a = hst h (j + 2) ?a" "W0 h h1"
    using llc_array_run [OF h ty cyc] by blast
  let ?cyc = "req_cycle req + ucast (c_accLat (cch h 1))"
  have near1: "near (req_cycle req) ?cyc (2 ^ 32)" by (rule near_add) (use cyc in simp)
  then have cyc1: "unat ?cyc + 2 ^ 35 < 2 ^ 64" using cyc by (simp add: near_def)
  have fi1: "F h1 (j + 2) ?a = Some i" using h1(4) fi by simp
  have st1: "if req_type req = GETS then hst h1 (j + 2) ?a = StI else hst h1 (j + 2) ?a = StI \<or> hst h1 (j + 2) ?a = StS"
    using st h1(6) j(2) by simp
  obtain r st h2 where h2: "processAccess (access E (Suc q)) (invalidate E (Suc q)) 1 req (int l) ?cyc h1 = Some (r, st, h2)"
    "keeps h1 h2" "near ?cyc r (2 ^ 34)" "req_type req = GETS \<longrightarrow> st = StS \<or> st = StE" "req_type req = GETX \<longrightarrow> st = StM"
    "Inv ((bst h2)(j + 2 := (bst h2 (j + 2))(i := st))) (ent h2) (F h1) (D h1)" "W0 h1 h2"
    using llc_serve_run [OF h1(2,3) j fi1 ty st1 pf cyc1, of q] by blast
  have near: "near (req_cycle req) r (2 ^ 35)" using near_mono [OF near_trans [OF near1 h2(3)], of "2 ^ 35"] by simp
  have "access E (Suc (Suc q)) 1 req h = Some (r, st, h2)"
    unfolding the_object_run [OF c k]
    using conf_cache(1) [OF c k] start_run [OF c k _ rs] h1(1) h2(1) near_le [OF near]
    by (simp add: cache_access_def precise env_array del: access.simps invalidate.simps)
  moreover have "Inv ((bst h2)(j + 2 := (bst h2 (j + 2))(i := st))) (ent h2) (F h2) (D h2)"
    using h2(6) unfolding keepsD(2,3) [OF h2(2)] .
  ultimately show ?thesis using h2(2,4,5) h1(4,5) near keepsD [OF h2(2)] W_trans [OF h1(7) h2(7)]
    by (intro exI [of _ r] exI [of _ st] exI [of _ h2]) (simp add: keeps_def)
qed

subsection \<open>Writebacks\<close>

lemma bcc_put_run:
  assumes c: "conf h" and l: "l < bl 1" and st: "if ty = PUTX then bst h 1 l = StE \<or> bst h 1 l = StM else bst h 1 l \<noteq> StI"
    and ty: "IsPut ty"
  shows "\<exists>h'. bcc_processAccess ac 1 a l ty cyc src fl h = Some (cyc, h') \<and> keeps h h' \<and> arrs h' = arrs h \<and> flts h' = flts h \<and> ent h' = ent h \<and>
    bst h' = (bst h)(1 := (bst h 1)(l := if ty = PUTX then StM else bst h 1 l))"
proof -
  have k: "isc 1" by simp
  have "\<exists>h1. (if ty = PUTX \<and> bst h 1 l = StE then put_state 1 l StM h else Some h) = Some h1 \<and> keeps h h1 \<and> arrs h1 = arrs h \<and>
    flts h1 = flts h \<and> ent h1 = ent h \<and> bst h1 = (bst h)(1 := (bst h 1)(l := if ty = PUTX then StM else bst h 1 l))"
  proof (cases "ty = PUTX \<and> bst h 1 l = StE")
    case True
    with put_state_run [OF c k l, of StM] show ?thesis by auto
  next
    case False
    with st have "bst h = (bst h)(1 := (bst h 1)(l := if ty = PUTX then StM else bst h 1 l))" by (auto simp: fun_eq_iff)
    with False c show ?thesis by (intro exI [of _ h]) auto
  qed
  then obtain h1 where h1: "(if ty = PUTX \<and> bst h 1 l = StE then put_state 1 l StM h else Some h) = Some h1" "keeps h h1"
    "arrs h1 = arrs h" "ent h1 = ent h" "bst h1 = (bst h)(1 := (bst h 1)(l := if ty = PUTX then StM else bst h 1 l))" "flts h1 = flts h" by blast
  obtain h2 where h2: "prof_inc (if ty = PUTX then profPUTX_update else profPUTS_update) 1 1 h1 = Some h2" "keeps h1 h2"
    "ent h2 = ent h1" "bst h2 = bst h1" "arrs h2 = arrs h1" "flts h2 = flts h1" using prof_inc_run [OF arrs_keeps [OF h1(2)] k] by blast
  have "bcc_processAccess ac 1 a l ty cyc src fl h = Some (cyc, h2)"
    using ty st get_state_run [OF c k l] h1(1) h2(1) by (cases ty) (auto simp: bcc_processAccess_def)
  with keeps_trans [OF h1(2) h2(2)] h1 h2 show ?thesis by (intro exI [of _ h2]) simp
qed

lemma tcc_put_run:
  assumes c: "conf h" and l: "l < bl 1" and j: "j < n" "j \<in> shr (ent h l)"
  shows "\<exists>h'. tcc_put 1 l j h = Some h' \<and> keeps h h' \<and> arrs h' = arrs h \<and> flts h' = flts h \<and> bst h' = bst h \<and> (\<forall>x. x \<noteq> l \<longrightarrow> ent h' x = ent h x) \<and>
    shr (ent h' l) = shr (ent h l) - {j} \<and> numSharers (ent h' l) = numSharers (ent h l) - 1 \<and>
    exclusive (ent h' l) = exclusive (ent h l)"
proof -
  note e = get_entry_run [OF c l]
  have j256: "j < 256" using j conf_bounds(1) [OF c] by simp
  let ?f = "\<lambda>e. e\<lparr>sharers := (sharers e)[j := False], numSharers := numSharers e - 1\<rparr>"
  have len: "length (sharers (?f (ent h l))) = 256" using e(2) by simp
  obtain h1 where h1: "mod_entry 1 l ?f h = Some h1" "keeps h h1" "ent h1 = (ent h)(l := ?f (ent h l))" "bst h1 = bst h"
    "arrs h1 = arrs h" "flts h1 = flts h" using mod_entry_run [where f = ?f, OF c l len] by blast
  have "tcc_put 1 l j h = Some h1"
    using e j256 j(2) h1(1) sharers_in [OF e(2) j256] by (simp add: tcc_put_def read_at_def)
  with h1 shr_put(2) [OF e(2) j256] show ?thesis by (intro exI [of _ h1]) simp
qed

lemma llc_put_run:
  assumes h: "hinv h" and j: "childId req = j" "j < n" and fi: "F h (j + 2) (lineAddr req) = Some i"
    and st: "bst h (j + 2) i \<noteq> StI" and ty: "req_type req = (if bst h (j + 2) i = StM then PUTX else PUTS)"
    and rs: "req_state req = initialState req" and fl: "flags req = 0" and cyc: "unat (req_cycle req) + 2 ^ 32 < 2 ^ 64"
  shows "\<exists>r h'. access E (Suc (Suc q)) 1 req h = Some (r, StI, h') \<and> keeps h h' \<and> arrs h' = arrs h \<and>
    near (req_cycle req) r (2 ^ 32) \<and> W P h h' \<and> Inv ((bst h')(j + 2 := (bst h' (j + 2))(i := StI))) (ent h') (F h) (D h)"
proof -
  have c: "conf h" and I: "Inv (bst h) (ent h) (F h) (D h)" using h by (simp_all add: hinv_def)
  have k: "isc 1" by simp
  let ?a = "lineAddr req" and ?ty = "req_type req"
  have vst: "vst (bst h) (F h) (j + 2) ?a = bst h (j + 2) i" using fi by (simp add: vst_def)
  then obtain l where fa: "F h 1 ?a = Some l" and js: "j \<in> shr (ent h l)" using InvD(8) [OF I j(2), of ?a] st by auto
  have l: "l < bl 1" "D h 1 l = ?a" using InvD(1) [OF I k fa] by simp_all
  have valid: "bst h 1 l \<noteq> StI" using InvD(4) [OF I l(1)] js by auto
  have ex: "isExclusive (ent h l) \<and> (bst h 1 l = StE \<or> bst h 1 l = StM)" if "?ty = PUTX"
  proof -
    have "bst h (j + 2) i = StM" using that ty by (auto split: if_splits)
    then have "isExclusive (ent h l)" using InvD(7) [OF I l(1) js] l(2) vst by auto
    with InvD(5) [OF I l(1)] show ?thesis by blast
  qed
  have put: "IsPut ?ty" "\<not> IsGet ?ty" using ty by auto
  obtain a1 h1 where h1: "ca_lookup A ?a (Some req) False (c_array (cch h 1)) = Some (int l, a1)"
    "mod_cache 1 (\<lambda>c. c\<lparr>c_array := a1\<rparr>) h = Some h1" "keeps h h1" "ent h1 = ent h" "bst h1 = bst h" "arrs h1 = arrs h"
    "flts h1 = flts h" using lookup_run [OF c k, of ?a "Some req" False] fa by auto
  note c1 = arrs_keeps [OF h1(3)]
  have arr: "array_access A (access E (Suc q)) (invalidate E (Suc q)) 1 req h = Some (int l, h1)"
    using conf_cache(1) [OF c k] h1(1,2) put by (simp add: array_access_def)
  let ?cyc = "req_cycle req + ucast (c_accLat (cch h 1))"
  have near: "near (req_cycle req) ?cyc (2 ^ 32)" by (rule near_add) (use cyc in simp)
  have st1: "if ?ty = PUTX then bst h1 1 l = StE \<or> bst h1 1 l = StM else bst h1 1 l \<noteq> StI" using ex valid h1(5) by simp
  obtain h2 where h2: "bcc_processAccess (access E (Suc q)) 1 ?a l ?ty ?cyc (srcId req) 0 h1 = Some (?cyc, h2)" "keeps h1 h2"
    "arrs h2 = arrs h1" "ent h2 = ent h1" "bst h2 = (bst h1)(1 := (bst h1 1)(l := if ?ty = PUTX then StM else bst h1 1 l))"
    "flts h2 = flts h1" using bcc_put_run [OF c1 l(1) st1 put(1)] by blast
  note c2 = arrs_keeps [OF h2(2)]
  obtain h3 where h3: "tcc_put 1 l j h2 = Some h3" "keeps h2 h3" "arrs h3 = arrs h2" "bst h3 = bst h2"
    "\<forall>x. x \<noteq> l \<longrightarrow> ent h3 x = ent h2 x" "shr (ent h3 l) = shr (ent h2 l) - {j}"
    "numSharers (ent h3 l) = numSharers (ent h2 l) - 1" "exclusive (ent h3 l) = exclusive (ent h2 l)" "flts h3 = flts h2"
    using tcc_put_run [OF c2 l(1) j(2)] js h2(4) h1(4) by auto
  have tcc: "tcc_processAccess (invalidate E (Suc q)) 1 ?a l ?ty j x (req_state req) False ?cyc (srcId req) 0 h2 =
      Some (?cyc, StI, False, h3)" for x
    using h3(1) put(1) ex get_entry_run(1) [OF c2 l(1)] h2(4) h1(4)
    by (cases ?ty) (auto simp: tcc_processAccess_def simp del: invalidate.simps)
  have top: "\<exists>x. c_tcc (cch h1 1) = Some x" using conf_cache(2) [OF c1 k] by (auto simp: cc_ok_def top_ok_def)
  have "processAccess (access E (Suc q)) (invalidate E (Suc q)) 1 req (int l) ?cyc h1 = Some (?cyc, StI, h3)"
    using conf_cache(1) [OF c1 k] top get_state_run [OF c1 k l(1)] h1(5) valid fl h2(1) tcc j(1) get_state_run [OF c2 k l(1)]
    by (auto simp: processAccess_def mesi_processAccess_def is_flag_def Let_def bcc_isExclusive_def
      simp del: access.simps invalidate.simps)
  then have run: "access E (Suc (Suc q)) 1 req h = Some (?cyc, StI, h3)"
    unfolding the_object_run [OF c k]
    using conf_cache(1) [OF c k] start_run [OF c k _ rs] arr near_le [OF near]
    by (simp add: cache_access_def precise env_array del: access.simps invalidate.simps)
  have b3: "(bst h3)(j + 2 := (bst h3 (j + 2))(i := StI)) =
      (bst h)(1 := (bst h 1)(l := if ?ty = PUTX then StM else bst h 1 l), j + 2 := (bst h (j + 2))(i := StI))"
    using h3(4) h2(5) h1(5) by (auto simp: fun_eq_iff)
  have "Inv ((bst h3)(j + 2 := (bst h3 (j + 2))(i := StI))) (ent h3) (F h) (D h)"
    unfolding b3 by (rule Inv_put [OF I j(2) fa fi js]) (use h1(4) h2(4) h3(5-8) in auto)
  moreover have "W P h h3" by (rule W_llc [OF keeps_trans [OF keeps_trans [OF h1(3) h2(2)] h3(2)]])
    (simp_all add: h1(5,7) h2(5,6) h3(4,9))
  ultimately show ?thesis using run near keeps_trans [OF keeps_trans [OF h1(3) h2(2)] h3(2)] h1 h2 h3
    by (intro exI [of _ ?cyc] exI [of _ h3]) simp
qed

subsection \<open>Terminal caches\<close>

lemma terminal_facts:
  assumes c: "conf h" and j: "j < n"
  shows "c_tcc (cch h (j + 2)) = None" "bc_selfId (c_bcc (cch h (j + 2))) = j"
  using conf_cache(2) [OF c isc_simps(3) [OF j]] by (simp_all add: cc_ok_def top_ok_def)

text \<open>A change of the state of the line of the address \<open>a\<close> in a terminal cache.\<close>

lemma W_state:
  assumes c: "conf h" and j: "j < n" and k: "keeps h h'" and f: "flts h' = flts h"
    and b: "bst h' = (bst h)(j + 2 := (bst h (j + 2))(l := s))" and P: "F h (j + 2) (D h (j + 2) l) = Some l \<Longrightarrow> P j (D h (j + 2) l)"
  shows "W P h h'"
proof (rule W_same [OF f])
  fix i x
  assume i: "i < n" and x: "\<not> P i x"
  have "F h (j + 2) x \<noteq> Some l" if "i = j"
  proof
    assume fx: "F h (j + 2) x = Some l"
    then have "D h (j + 2) l = x" by (rule F_bound(3) [OF c isc_simps(3) [OF j]])
    with fx P x that show False by simp
  qed
  then show "hst h' (i + 2) x = hst h (i + 2) x"
    using keepsD(2) [OF k] b by (auto simp: hst_def vst_def split: option.split)
qed

lemma terminal_eviction_run:
  assumes h: "hinv h" and j: "j < n" and l: "l < nl (j + 2)" and cyc: "unat cyc + 2 ^ 32 < 2 ^ 64"
    and P: "F h (j + 2) (D h (j + 2) l) = Some l \<Longrightarrow> P j (D h (j + 2) l)"
  shows "\<exists>r h'. processEviction (access E (Suc (Suc q))) iv (j + 2) trig (D h (j + 2) l) l cyc h = Some (r, h') \<and>
    keeps h h' \<and> arrs h' (j + 2) = arrs h (j + 2) \<and> hinv h' \<and> bst h' (j + 2) l = StI \<and> W P h h'"
proof -
  have c: "conf h" and I: "Inv (bst h) (ent h) (F h) (D h)" using h by (simp_all add: hinv_def)
  have k: "isc (j + 2)" using j by simp
  have lb: "l < bl (j + 2)" using l bl_pos [OF c k] by simp
  let ?a = "D h (j + 2) l" and ?b = "bst h (j + 2) l"
  have unf: "processEviction ac iv (j + 2) trig ?a l cyc h = bcc_processEviction ac (j + 2) ?a l False cyc (srcId trig) h" for ac
    using conf_cache(1) [OF c k] terminal_facts(1) [OF c j] by (simp add: processEviction_def)
  show ?thesis
  proof (cases "?b = StI")
    case True
    then have "bcc_processEviction (access E (Suc (Suc q))) (j + 2) ?a l False cyc (srcId trig) h = Some (cyc, h)"
      using get_state_run [OF c k lb] by (simp add: bcc_processEviction_def del: access.simps)
    with True h c show ?thesis unfolding unf by (intro exI [of _ cyc] exI [of _ h]) simp
  next
    case False
    have fi: "F h (j + 2) ?a = Some l" by (rule InvD(2) [OF I k lb False])
    let ?ty = "if ?b = StM then PUTX else PUTS"
    let ?req = "\<lparr>lineAddr = ?a, req_type = ?ty, childId = j, req_state = ?b, req_cycle = cyc,
      initialState = ?b, srcId = srcId trig, flags = 0\<rparr>"
    obtain r h1 where h1: "access E (Suc (Suc q)) 1 ?req h = Some (r, StI, h1)" "keeps h h1" "arrs h1 = arrs h"
      "Inv ((bst h1)(j + 2 := (bst h1 (j + 2))(l := StI))) (ent h1) (F h) (D h)" "W P h h1"
      using llc_put_run [where req = ?req and j = j and i = l and q = q and P = P, OF h] j fi False cyc
      by (auto simp del: access.simps invalidate.simps)
    note c1 = arrs_keeps [OF h1(2)]
    obtain h2 where h2: "put_state (j + 2) l StI h1 = Some h2" "keeps h1 h2" "ent h2 = ent h1"
      "bst h2 = (bst h1)(j + 2 := (bst h1 (j + 2))(l := StI))" "arrs h2 = arrs h1" "flts h2 = flts h1"
      using put_state_run [OF c1 k lb, of StI] by blast
    have "W P h1 h2" by (rule W_state [OF c1 j h2(2,6,4)]) (use P keepsD(2,3) [OF h1(2)] in simp)
    with h1(5) have w: "W P h h2" by (rule W_trans)
    have "bcc_request (access E (Suc (Suc q))) (j + 2) ?a l ?ty cyc (srcId trig) 0 h = Some (r, h2)"
      using conf_cache(1) [OF c k] get_state_run [OF c k lb] parent_run(1,2) [OF c k] terminal_facts(2) [OF c j] h1(1) h2(1)
      by (simp add: bcc_request_def del: access.simps read_at_Some)
    then have "bcc_processEviction (access E (Suc (Suc q))) (j + 2) ?a l False cyc (srcId trig) h = Some (r, h2)"
      using False get_state_run [OF c k lb] get_state_run [OF arrs_keeps [OF h2(2)] k lb] h2(4)
      by (cases ?b) (simp_all add: bcc_processEviction_def del: access.simps)
    moreover have "hinv h2" using h1(4) h2 keepsD [OF h1(2)] keepsD [OF h2(2)] by (simp add: hinv_def)
    ultimately show ?thesis unfolding unf using keeps_trans [OF h1(2) h2(2)] h1(3) h2(4,5) w
      by (intro exI [of _ r] exI [of _ h2]) simp
  qed
qed

text \<open>A miss of a terminal cache whose array holds the line at \<open>l\<close>.\<close>

lemma terminal_request_run:
  assumes h: "hinv h" and j: "j < n" and fi: "F h (j + 2) a = Some l"
    and st: "ty = GETS \<and> bst h (j + 2) l = StI \<or> ty = GETX \<and> (bst h (j + 2) l = StI \<or> bst h (j + 2) l = StS)"
    and pf: "fl AND flag_bits PREFETCH = 0" and cyc: "unat cyc + 2 ^ 36 < 2 ^ 64" and P: "P j a"
  shows "\<exists>r h'. bcc_request (access E (Suc (Suc q))) (j + 2) a l ty cyc src fl h = Some (r, h') \<and> hinv h' \<and>
    F h' (j + 2) a = Some l \<and> (ty = GETS \<longrightarrow> bst h' (j + 2) l = StS \<or> bst h' (j + 2) l = StE) \<and>
    (ty = GETX \<longrightarrow> bst h' (j + 2) l = StM) \<and> W P h h'"
proof -
  have c: "conf h" using h by (simp add: hinv_def)
  have k: "isc (j + 2)" using j by simp
  have lb: "l < bl (j + 2)" using F_bound [OF c k fi] by simp
  let ?b = "bst h (j + 2) l"
  let ?req = "\<lparr>lineAddr = a, req_type = ty, childId = j, req_state = ?b, req_cycle = cyc, initialState = ?b, srcId = src, flags = fl\<rparr>"
  have hst: "hst h (j + 2) a = ?b" using fi by (simp add: hst_def vst_def)
  obtain r st h1 where h1: "access E (Suc (Suc q)) 1 ?req h = Some (r, st, h1)" "conf h1" "\<forall>k. k \<noteq> 1 \<longrightarrow> F h1 k = F h k"
    "ty = GETS \<longrightarrow> st = StS \<or> st = StE" "ty = GETX \<longrightarrow> st = StM"
    "Inv ((bst h1)(j + 2 := (bst h1 (j + 2))(l := st))) (ent h1) (F h1) (D h1)" "W0 h h1"
    using llc_access_run [where req = ?req and j = j and i = l and q = q, OF h] j fi st pf cyc hst
    by (auto simp: is_flag_def simp del: access.simps invalidate.simps)
  obtain h2 where h2: "put_state (j + 2) l st h1 = Some h2" "keeps h1 h2" "ent h2 = ent h1"
    "bst h2 = (bst h1)(j + 2 := (bst h1 (j + 2))(l := st))" "arrs h2 = arrs h1" "flts h2 = flts h1"
    using put_state_run [OF h1(2) k lb, of st] by blast
  have f1: "F h1 (j + 2) a = Some l" using h1(3) fi by simp
  have "W P h1 h2" by (rule W_state [OF h1(2) j h2(2,6,4)]) (simp add: F_bound(3) [OF h1(2) k f1] P)
  with W_mono [OF h1(7)] have w: "W P h h2" by (rule W_trans)
  have "bcc_request (access E (Suc (Suc q))) (j + 2) a l ty cyc src fl h = Some (r, h2)"
    using conf_cache(1) [OF c k] get_state_run [OF c k lb] parent_run(1,2) [OF c k] terminal_facts(2) [OF c j] h1(1) h2(1)
    by (simp add: bcc_request_def del: access.simps read_at_Some)
  moreover have "hinv h2" using h1(6) h2 keepsD [OF h2(2)] by (simp add: hinv_def)
  ultimately show ?thesis using h1(3-5) h2(4) keepsD(2) [OF h2(2)] fi w
    by (intro exI [of _ r] exI [of _ h2]) simp
qed

lemma terminal_bcc_run:
  assumes h: "hinv h" and j: "j < n" and fi: "F h (j + 2) a = Some l" and ty: "IsGet ty"
    and pf: "fl AND flag_bits PREFETCH = 0" and cyc: "unat cyc + 2 ^ 36 < 2 ^ 64" and P: "P j a"
  shows "\<exists>r h'. bcc_processAccess (access E (Suc (Suc q))) (j + 2) a l ty cyc src fl h = Some (r, h') \<and> hinv h' \<and>
    hst h' (j + 2) a \<noteq> StI \<and> (ty = GETX \<longrightarrow> hst h' (j + 2) a = StM) \<and> near cyc r (2 ^ 32) \<and> W P h h'"
proof -
  have c: "conf h" and I: "Inv (bst h) (ent h) (F h) (D h)" using h by (simp_all add: hinv_def)
  have k: "isc (j + 2)" using j by simp
  have lb: "l < bl (j + 2)" using F_bound [OF c k fi] by simp
  show ?thesis
  proof (cases "ty = GETS \<and> bst h (j + 2) l \<noteq> StI \<or> ty = GETX \<and> (bst h (j + 2) l = StE \<or> bst h (j + 2) l = StM)")
    case True
    obtain h1 where h1: "bcc_processAccess (access E (Suc (Suc q))) (j + 2) a l ty cyc src fl h = Some (cyc, h1)" "keeps h h1"
      "ent h1 = ent h" "bst h1 = (bst h)(j + 2 := (bst h (j + 2))(l := if ty = GETX then StM else bst h (j + 2) l))"
      "flts h1 = flts h" using bcc_hit_run [OF c k lb True] by blast
    have w: "W P h h1" by (rule W_state [OF c j h1(2,5,4)]) (simp add: F_bound(3) [OF c k fi] P)
    have "Inv (bst h1) (ent h1) (F h1) (D h1)"
    proof (cases "ty = GETX")
      case X: True
      have "Inv ((bst h)(j + 2 := (bst h (j + 2))(l := StM))) (ent h) (F h) (D h)"
        by (rule Inv_silent [OF I j fi]) (use True X in simp)
      with X h1(3,4) keepsD(2,3) [OF h1(2)] show ?thesis by simp
    next
      case False
      with I h1(3,4) keepsD(2,3) [OF h1(2)] show ?thesis by simp
    qed
    then have "hinv h1" using keepsD(1) [OF h1(2)] by (simp add: hinv_def)
    moreover have "hst h1 (j + 2) a = (if ty = GETX then StM else bst h (j + 2) l)"
      using fi h1(4) keepsD(2) [OF h1(2)] by (simp add: hst_def vst_def)
    ultimately show ?thesis using h1(1) True w by (intro exI [of _ cyc] exI [of _ h1]) auto
  next
    case False
    with ty have miss: "ty = GETS \<and> bst h (j + 2) l = StI \<or> ty = GETX \<and> (bst h (j + 2) l = StI \<or> bst h (j + 2) l = StS)"
      by (cases "bst h (j + 2) l") (auto simp: IsGet_def)
    let ?Q = "\<lambda>h1. hinv h1 \<and> F h1 (j + 2) a = Some l \<and> bst h1 (j + 2) l \<noteq> StI \<and> (ty = GETX \<longrightarrow> bst h1 (j + 2) l = StM) \<and> W P h h1"
    have req: "\<exists>r h1. bcc_request (access E (Suc (Suc q))) (j + 2) a l ty cyc src fl h0 = Some (r, h1) \<and> conf h1 \<and>
      (ty = GETS \<longrightarrow> bst h1 (j + 2) l = StS \<or> bst h1 (j + 2) l = StE) \<and> (ty = GETX \<longrightarrow> bst h1 (j + 2) l = StM) \<and> ?Q h1" if s0: "same h h0" for h0
    proof -
      have m0: "ty = GETS \<and> bst h0 (j + 2) l = StI \<or> ty = GETX \<and> (bst h0 (j + 2) l = StI \<or> bst h0 (j + 2) l = StS)"
        and f0: "F h0 (j + 2) a = Some l" using miss fi sameD(3,6) [OF s0] by simp_all
      obtain r h1 where "bcc_request (access E (Suc (Suc q))) (j + 2) a l ty cyc src fl h0 = Some (r, h1)" "hinv h1"
        "F h1 (j + 2) a = Some l" "ty = GETS \<longrightarrow> bst h1 (j + 2) l = StS \<or> bst h1 (j + 2) l = StE" "ty = GETX \<longrightarrow> bst h1 (j + 2) l = StM" "W P h0 h1"
        using terminal_request_run [where P = P, OF sameD(7) [OF s0 h] j f0 m0 pf cyc, of q src] P by blast
      moreover from this ty have "bst h1 (j + 2) l \<noteq> StI" by (auto simp: IsGet_def)
      moreover have "W P h h1" by (rule W_trans [OF sameD(10) [OF s0] calculation(6)])
      ultimately show ?thesis by (auto simp: hinv_def simp del: access.simps)
    qed
    have cyc32: "unat cyc + 2 ^ 32 < 2 ^ 64" using cyc by simp
    from bcc_miss_run [OF c k lb miss cyc32 req] obtain r h1 h' where
      h': "bcc_processAccess (access E (Suc (Suc q))) (j + 2) a l ty cyc src fl h = Some (r, h')" "?Q h1" "same h1 h'" "near cyc r (2 ^ 32)"
      by blast
    from h'(2) have q1: "hinv h1" "F h1 (j + 2) a = Some l" "bst h1 (j + 2) l \<noteq> StI" "ty = GETX \<longrightarrow> bst h1 (j + 2) l = StM" "W P h h1" by auto
    have "hst h' (j + 2) a = bst h1 (j + 2) l" using q1(2) sameD(8) [OF h'(3)] by (simp add: hst_def vst_def)
    with h'(1,4) q1 sameD(7) [OF h'(3) q1(1)] W_trans [OF q1(5) sameD(10) [OF h'(3)]] show ?thesis by (intro exI [of _ r] exI [of _ h']) simp
  qed
qed

text \<open>An access of a core: the terminal cache \<open>j + 2\<close> ends up with the line, to write it if it was a write.\<close>

lemma core_access_run:
  assumes h: "hinv h" and j: "j < n" and ty: "IsGet (req_type req)" and rs: "req_state req = initialState req"
    and pf: "\<not> is_flag PREFETCH req" and cyc: "unat (req_cycle req) + 2 ^ 37 < 2 ^ 64"
  shows "\<exists>r h'. access E (Suc (Suc (Suc q))) (j + 2) req h = Some (r, req_state req, h') \<and> hinv h' \<and>
    hst h' (j + 2) (lineAddr req) \<noteq> StI \<and> (req_type req = GETX \<longrightarrow> hst h' (j + 2) (lineAddr req) = StM) \<and>
    near (req_cycle req) r (2 ^ 33) \<and>
    W (\<lambda>i x. i = j \<and> (x = lineAddr req \<or> clash (c_array (cch h (j + 2))) (lineAddr req) x)) h h'"
proof -
  have c: "conf h" using h by (simp add: hinv_def)
  have k: "isc (j + 2)" using j by simp
  let ?P = "\<lambda>i x. i = j \<and> (x = lineAddr req \<or> clash (c_array (cch h (j + 2))) (lineAddr req) x)"
  let ?a = "lineAddr req" and ?ac = "access E (Suc (Suc q))" and ?iv = "invalidate E (Suc (Suc q))"
  have evict: "\<exists>r h1. processEviction ?ac ?iv (j + 2) req (D h0 (j + 2) l) l cyc h0 = Some (r, h1) \<and>
      keeps h0 h1 \<and> arrs h1 (j + 2) = arrs h0 (j + 2) \<and> hinv h1 \<and> bst h1 (j + 2) l = StI \<and> (j + 2 = 1 \<longrightarrow> shr (ent h1 l) = {}) \<and> W ?P h0 h1"
    if "same h h0" "hinv h0" "l < nl (j + 2)" "unat cyc + 2 ^ 35 < 2 ^ 64"
      "F h (j + 2) (D h (j + 2) l) = Some l \<Longrightarrow> clash (c_array (cch h (j + 2))) (lineAddr req) (D h (j + 2) l)" for h0 l cyc
  proof -
    have cyc: "unat cyc + 2 ^ 32 < 2 ^ 64" using that(4) by simp
    have fd: "F h0 (j + 2) (D h0 (j + 2) l) = F h (j + 2) (D h (j + 2) l)" "D h0 (j + 2) l = D h (j + 2) l"
      using that(1) by (simp_all add: same_def keeps_def)
    have P: "?P j (D h0 (j + 2) l)" if "F h0 (j + 2) (D h0 (j + 2) l) = Some l"
      using that fd \<open>F h (j + 2) (D h (j + 2) l) = Some l \<Longrightarrow> _\<close> by simp
    have "j + 2 \<noteq> 1" by presburger
    with terminal_eviction_run [where P = ?P and q = q and iv = ?iv and trig = req, OF that(2) j that(3) cyc P] show ?thesis
      by (simp del: access.simps invalidate.simps)
  qed
  have cyc36: "unat (req_cycle req) + 2 ^ 36 < 2 ^ 64" using cyc by simp
  have "\<exists>l h'. array_access A ?ac ?iv (j + 2) req h = Some (int l, h') \<and> hinv h' \<and> F h' (j + 2) ?a = Some l \<and>
    (\<forall>k'. k' \<noteq> j + 2 \<longrightarrow> F h' k' = F h k') \<and> (\<forall>x. c_accLat (cch h' x) = c_accLat (cch h x)) \<and>
    (F h (j + 2) ?a = None \<longrightarrow> bst h' (j + 2) l = StI \<and> (j + 2 = 1 \<longrightarrow> shr (ent h' l) = {})) \<and>
    (F h (j + 2) ?a \<noteq> None \<longrightarrow> same h h') \<and> W ?P h h'"
    by (rule array_access_run [OF h k ty cyc36]) (rule evict)
  then obtain l h1 where h1: "array_access A ?ac ?iv (j + 2) req h = Some (int l, h1)" "hinv h1" "F h1 (j + 2) ?a = Some l"
    "W ?P h h1" by (elim exE conjE) simp
  have c1: "conf h1" using h1(2) by (simp add: hinv_def)
  let ?cyc = "req_cycle req + ucast (c_accLat (cch h (j + 2)))"
  have near1: "near (req_cycle req) ?cyc (2 ^ 32)" by (rule near_add) (use cyc in simp)
  then have cyc1: "unat ?cyc + 2 ^ 36 < 2 ^ 64" using cyc by (simp add: near_def)
  have fl: "flags req AND flag_bits PREFETCH = 0" using pf by (simp add: is_flag_def)
  obtain r h2 where h2: "bcc_processAccess ?ac (j + 2) ?a l (req_type req) ?cyc (srcId req) (flags req) h1 = Some (r, h2)" "hinv h2"
    "hst h2 (j + 2) ?a \<noteq> StI" "req_type req = GETX \<longrightarrow> hst h2 (j + 2) ?a = StM" "near ?cyc r (2 ^ 32)"
    "W ?P h1 h2" using terminal_bcc_run [where P = ?P and q = q and src = "srcId req", OF h1(2) j h1(3) ty fl cyc1] by blast
  have pa: "processAccess ?ac ?iv (j + 2) req (int l) ?cyc h1 = Some (r, req_state req, h2)"
    using conf_cache(1) [OF c1 k] terminal_facts(1) [OF c1 j] h2(1)
    by (simp add: processAccess_def terminal_processAccess_def del: access.simps invalidate.simps)
  have near: "near (req_cycle req) r (2 ^ 33)" using near_mono [OF near_trans [OF near1 h2(5)], of "2 ^ 33"] by simp
  have "access E (Suc (Suc (Suc q))) (j + 2) req h = Some (r, req_state req, h2)"
    unfolding the_object_run [OF c k]
    using conf_cache(1) [OF c k] start_run [OF c k _ rs] ty h1(1) pa near_le [OF near]
    by (simp add: cache_access_def precise env_array del: access.simps invalidate.simps)
  with h2 near W_trans [OF h1(4) h2(6)] show ?thesis by blast
qed

end

end
