(* ===== verification/Hierarchy_Filter.thy ===== *)
theory Hierarchy_Filter imports Hierarchy_Access begin

text \<open>
  Loads and stores of the cores of a two-level hierarchy, through the filters of their terminal caches.
  A line that hits in a filter for a load is valid in its cache, and one that hits for a store is there
  in state M; so a hit is one the cache would have had too. The line 0 is an exception: a cleared entry
  holds its address.
\<close>

context two_level begin

definition finv :: "'a heap \<Rightarrow> bool" where
  "finv h \<longleftrightarrow> hinv h \<and> (\<forall>j<n. \<exists>f. flts h (j + 2) = Some f \<and> reqFlags f AND flag_bits PREFETCH = 0) \<and>
     (\<forall>j<n. \<forall>v. proc_line pm v \<longrightarrow> v \<noteq> 0 \<longrightarrow>
       (rdh h (j + 2) v \<longrightarrow> hst h (j + 2) (pm OR v) \<noteq> StI) \<and> (wrh h (j + 2) v \<longrightarrow> hst h (j + 2) (pm OR v) = StM))"

lemma finvD:
  assumes "finv h" and "j < n"
  shows "hinv h" "\<exists>f. flts h (j + 2) = Some f \<and> reqFlags f AND flag_bits PREFETCH = 0"
    "proc_line pm v \<Longrightarrow> v \<noteq> 0 \<Longrightarrow> rdh h (j + 2) v \<Longrightarrow> hst h (j + 2) (pm OR v) \<noteq> StI"
    "proc_line pm v \<Longrightarrow> v \<noteq> 0 \<Longrightarrow> wrh h (j + 2) v \<Longrightarrow> hst h (j + 2) (pm OR v) = StM"
  using assms by (auto simp: finv_def)

lemma set_filter_run:
  assumes "conf h" and "isc k" and f: "flts h k = Some f" and ok: "fc_ok g" and sh: "fc_shape g = fc_shape f"
  shows "\<exists>h'. mod_cache k (\<lambda>c. c\<lparr>c_filter := Some g\<rparr>) h = Some h' \<and> keeps h h' \<and> ent h' = ent h \<and> bst h' = bst h \<and>
    flts h' = (flts h)(k := Some g)"
proof -
  note c = conf_cache [OF assms(1,2)]
  let ?c = "(cch h k)\<lparr>c_filter := Some g\<rparr>"
  have okc: "cc_ok k ?c"
    using c(2) ok f fc_shape_index [OF sh] by (simp add: cc_ok_def filter_ok_def flts_def)
  have run: "mod_cache k (\<lambda>c. c\<lparr>c_filter := Some g\<rparr>) h = Some (h[k := CacheObj ?c])"
    using c by (simp add: mod_cache_def)
  note u = conf_upd [OF assms(1,2) okc]
  show ?thesis using run u
    by (intro exI [of _ "h[k := CacheObj ?c]"]) (auto simp: keeps_def F_def D_def ent_def bst_def flts_def fun_eq_iff)
qed

lemma the_filter:
  assumes "hinv h" and "j < n" and "flts h (j + 2) = Some f"
  shows "the_cache h (j + 2) = Some (cch h (j + 2))" "c_filter (cch h (j + 2)) = Some f" "fc_ok f"
    "clash (c_array (cch h (j + 2))) c d \<Longrightarrow> fc_index f c = fc_index f d"
  using conf_cache [of h "j + 2"] assms by (auto simp: hinv_def flts_def cc_ok_def filter_ok_def)

lemma line_index:
  assumes "hinv h" and "j < n" and "flts h (j + 2) = Some f" and "proc_line pm v"
  shows "fc_index f (pm OR v) = fc_index f v"
  using fc_index_proc [OF the_filter(3) [OF assms(1-3)]] assms(4) by (simp add: proc_line_def)

text \<open>A filter is replaced by one in which only lines hit for which the invariant holds.\<close>

lemma finv_filter:
  assumes i: "finv h" and j: "j < n" and f: "flts h (j + 2) = Some f" and g: "fc_ok g" "fc_shape g = fc_shape f"
    and hits: "\<And>v. proc_line pm v \<Longrightarrow> v \<noteq> 0 \<Longrightarrow> rd_hit g v \<Longrightarrow> rd_hit f v"
      "\<And>v. proc_line pm v \<Longrightarrow> v \<noteq> 0 \<Longrightarrow> wr_hit g v \<Longrightarrow> wr_hit f v"
  shows "\<exists>h'. mod_cache (j + 2) (\<lambda>c. c\<lparr>c_filter := Some g\<rparr>) h = Some h' \<and> finv h' \<and> hst h' = hst h"
proof -
  have hi: "hinv h" and c: "conf h" using i by (simp_all add: finv_def hinv_def)
  obtain h' where h': "mod_cache (j + 2) (\<lambda>c. c\<lparr>c_filter := Some g\<rparr>) h = Some h'" "keeps h h'" "ent h' = ent h" "bst h' = bst h"
    "flts h' = (flts h)(j + 2 := Some g)"
    using set_filter_run [OF c isc_simps(3) [OF j] f g] by blast
  note k = keepsD [OF h'(2)]
  have hst: "hst h' = hst h" using k(2) h'(4) by (simp add: hst_def)
  have "hinv h'" using hi k(1-3) h'(3,4) by (simp add: hinv_def)
  moreover have "\<exists>f. flts h' (i + 2) = Some f \<and> reqFlags f AND flag_bits PREFETCH = 0" if "i < n" for i
    using finvD(2) [OF i that] h'(5) f g(2) by (auto simp: fc_shape_def)
  moreover have "rdh h (i + 2) v" if "rdh h' (i + 2) v" "proc_line pm v" "v \<noteq> 0" for i v
    using that hits(1) [of v] h'(5) f by (auto simp: rdh_def split: if_splits)
  moreover have "wrh h (i + 2) v" if "wrh h' (i + 2) v" "proc_line pm v" "v \<noteq> 0" for i v
    using that hits(2) [of v] h'(5) f by (auto simp: wrh_def split: if_splits)
  ultimately have "finv h'" using finvD(3,4) [OF i] by (auto simp: finv_def hst)
  with h'(1) hst show ?thesis by blast
qed

lemma filter_replace_run:
  assumes i: "finv h" and j: "j < n" and f: "flts h (j + 2) = Some f" and v: "proc_line pm v" and cyc: "unat cyc + 2 ^ 37 < 2 ^ 64"
  shows "\<exists>r h'. filter_replace pm (access E (Suc (Suc (Suc q)))) (j + 2) v (fc_index f v) isLoad cyc h = Some (r, h') \<and> finv h' \<and>
    near cyc r (2 ^ 33) \<and> hst h' (j + 2) (pm OR v) \<noteq> StI \<and> (\<not> isLoad \<longrightarrow> hst h' (j + 2) (pm OR v) = StM)"
proof -
  have hi: "hinv h" using i by (simp add: finv_def)
  note tf = the_filter [OF hi j f]
  let ?req = "\<lparr>lineAddr = pm OR v, req_type = (if isLoad then GETS else GETX), childId = 0, req_state = StI, req_cycle = cyc,
    initialState = StI, srcId = fc_srcId f, flags = reqFlags f\<rparr>"
  let ?P = "\<lambda>i x. i = j \<and> (x = pm OR v \<or> clash (c_array (cch h (j + 2))) (pm OR v) x)"
  have "IsGet (req_type ?req)" "req_state ?req = initialState ?req" "\<not> is_flag PREFETCH ?req" "unat (req_cycle ?req) + 2 ^ 37 < 2 ^ 64"
    using finvD(2) [OF i j] f cyc by (auto simp: is_flag_def)
  from core_access_run [OF hi j this, of q]
  obtain r h1 where h1: "access E (Suc (Suc (Suc q))) (j + 2) ?req h = Some (r, StI, h1)" "hinv h1" "hst h1 (j + 2) (pm OR v) \<noteq> StI"
    "\<not> isLoad \<longrightarrow> hst h1 (j + 2) (pm OR v) = StM" "near cyc r (2 ^ 33)" "W ?P h h1"
    by (cases isLoad) (auto simp del: access.simps)
  have shape: "map_option fc_shape (flts h1 (x + 2)) = map_option fc_shape (flts h (x + 2))" if "x < n" for x
    using h1(6) that by (simp add: W_def)
  obtain f1 where f1: "flts h1 (j + 2) = Some f1" "fc_shape f1 = fc_shape f" using shape [OF j] f by auto
  note tf1 = the_filter [OF h1(2) j f1(1)] and idx = fc_shape_index [OF f1(2)]
  obtain f2 where f2: "fc_fill v (fc_index f v) isLoad r f1 = Some f2" "fc_ok f2"
    "\<forall>w. rd_hit f2 w \<longrightarrow> w = v \<or> rd_hit f1 w \<and> fc_index f w \<noteq> fc_index f v"
    "\<forall>w. wr_hit f2 w \<longrightarrow> w = -1 \<or> w = v \<and> \<not> isLoad \<or> wr_hit f1 w \<and> fc_index f w \<noteq> fc_index f v"
    using fc_fill_run [OF tf1(3), of v isLoad r] unfolding idx by blast
  have c1: "conf h1" using h1(2) by (simp add: hinv_def)
  obtain h2 where h2: "mod_cache (j + 2) (\<lambda>c. c\<lparr>c_filter := Some f2\<rparr>) h1 = Some h2" "keeps h1 h2" "ent h2 = ent h1" "bst h2 = bst h1"
    "flts h2 = (flts h1)(j + 2 := Some f2)"
    using set_filter_run [OF c1 isc_simps(3) [OF j] f1(1) f2(2) fc_shape_fill [OF f2(1)]] by blast
  note k = keepsD [OF h2(2)]
  have hst: "hst h2 = hst h1" using k(2) h2(4) by (simp add: hst_def)
  have run: "filter_replace pm (access E (Suc (Suc (Suc q)))) (j + 2) v (fc_index f v) isLoad cyc h = Some (r, h2)"
    using tf(1,2) h1(1) tf1(1,2) f2(1) h2(1) by (simp add: filter_replace_def del: access.simps)
  have free: "\<not> ?P x (pm OR w)" if "x \<noteq> j \<or> fc_index f w \<noteq> fc_index f v" "proc_line pm w" for x w
    using that tf(4) [of "pm OR v" "pm OR w"] line_index [OF hi j f v] line_index [OF hi j f that(2)] by auto
  have old: "rdh h (x + 2) w \<and> hst h1 (x + 2) (pm OR w) = hst h (x + 2) (pm OR w)" "wrh h1 (x + 2) w \<Longrightarrow> wrh h (x + 2) w"
    if "rdh h1 (x + 2) w" "x < n" "x \<noteq> j \<or> fc_index f w \<noteq> fc_index f v" "proc_line pm w" for x w
    using h1(6) that free [OF that(3,4)] unfolding W_def by blast+
  have wr: "rdh h1 (x + 2) w" if "wrh h1 (x + 2) w" "x < n" "proc_line pm w" for x w
    using that shape [OF that(2)] finvD(2) [OF i that(2)] the_filter(3) [OF h1(2) that(2)] wr_rd_hit
    by (auto simp: rdh_def wrh_def proc_line_def split: option.splits)
  have "hinv h2" using h1(2) k(1-3) h2(3,4) by (simp add: hinv_def)
  moreover have "\<exists>g. flts h2 (x + 2) = Some g \<and> reqFlags g AND flag_bits PREFETCH = 0" if "x < n" for x
    using finvD(2) [OF i that] shape [OF that] h2(5) fc_shape_fill [OF f2(1)] f f1 by (auto simp: fc_shape_def)
  moreover have "hst h2 (x + 2) (pm OR w) \<noteq> StI" if x: "x < n" and w: "proc_line pm w" "w \<noteq> 0" "rdh h2 (x + 2) w" for x w
  proof (cases "x = j \<and> w = v")
    case True
    with h1(3) hst show ?thesis by simp
  next
    case False
    have "rdh h1 (x + 2) w" "x \<noteq> j \<or> fc_index f w \<noteq> fc_index f v"
      using False w(3) f2(3) h2(5) f1(1) by (auto simp: rdh_def split: if_splits)
    from old(1) [OF this(1) x this(2) w(1)] finvD(3) [OF i x w(1,2)] show ?thesis by (simp add: hst)
  qed
  moreover have "hst h2 (x + 2) (pm OR w) = StM" if x: "x < n" and w: "proc_line pm w" "w \<noteq> 0" "wrh h2 (x + 2) w" for x w
  proof (cases "x = j \<and> w = v \<and> \<not> isLoad")
    case True
    with h1(4) hst show ?thesis by simp
  next
    case False
    have w1: "wrh h1 (x + 2) w" "x \<noteq> j \<or> fc_index f w \<noteq> fc_index f v"
      using False w f2(4) h2(5) f1(1) by (auto simp: wrh_def proc_line_def split: if_splits)
    note r1 = wr [OF w1(1) x w(1)]
    from old(1) [OF r1 x w1(2) w(1)] old(2) [OF r1 x w1(2) w(1) w1(1)] finvD(4) [OF i x w(1,2)] show ?thesis by (simp add: hst)
  qed
  ultimately have "finv h2" by (auto simp: finv_def)
  with run h1(3-5) hst show ?thesis by (intro exI [of _ r] exI [of _ h2]) simp
qed

lemma filter_access_run:
  assumes i: "finv h" and j: "j < n" and v: "proc_line pm (drop_bit lb a)" and cyc: "unat cyc + 2 ^ 37 < 2 ^ 64"
  shows "\<exists>r h'. filter_load lb pm (access E (Suc (Suc (Suc q)))) (j + 2) a cyc h = Some (r, h') \<and> finv h' \<and> cyc \<le> r \<and>
      (drop_bit lb a \<noteq> 0 \<longrightarrow> hst h' (j + 2) (pm OR drop_bit lb a) \<noteq> StI)"
    "\<exists>r h'. filter_store lb pm (access E (Suc (Suc (Suc q)))) (j + 2) a cyc h = Some (r, h') \<and> finv h' \<and> cyc \<le> r \<and>
      (drop_bit lb a \<noteq> 0 \<longrightarrow> hst h' (j + 2) (pm OR drop_bit lb a) = StM)"
proof -
  have hi: "hinv h" using i by (simp add: finv_def)
  obtain f where f: "flts h (j + 2) = Some f" using finvD(2) [OF i j] by blast
  note tf = the_filter [OF hi j f]
  let ?v = "drop_bit lb a" and ?ac = "access E (Suc (Suc (Suc q)))"
  note idx = fc_index_less [OF tf(3), of ?v]
  let ?e = "filterArray f ! fc_index f ?v"
  have e: "read_at (filterArray f) (fc_index f ?v) = Some ?e" using idx by (simp add: read_at_in)
  have le: "cyc \<le> MAX2 cyc x" for x by (auto simp: MAX2_def linorder_not_less)
  show "\<exists>r h'. filter_load lb pm ?ac (j + 2) a cyc h = Some (r, h') \<and> finv h' \<and> cyc \<le> r \<and>
    (?v \<noteq> 0 \<longrightarrow> hst h' (j + 2) (pm OR ?v) \<noteq> StI)"
  proof (cases "?v = rdAddr ?e")
    case True
    let ?g = "f\<lparr>fGETSHit := fGETSHit f + 1\<rparr>"
    have hits: "fc_ok ?g" "fc_shape ?g = fc_shape f" "rd_hit ?g = rd_hit f" "wr_hit ?g = wr_hit f"
      using tf(3) by (simp_all add: fc_ok_def fc_shape_def rd_hit_def wr_hit_def fc_index_def fun_eq_iff)
    obtain h' where h': "mod_cache (j + 2) (\<lambda>c. c\<lparr>c_filter := Some ?g\<rparr>) h = Some h'" "finv h'" "hst h' = hst h"
      using finv_filter [OF i j f hits(1,2), unfolded hits(3,4)] by blast
    have "rdh h (j + 2) ?v" using True idx f by (simp add: rdh_def rd_hit_def)
    then have "?v \<noteq> 0 \<longrightarrow> hst h (j + 2) (pm OR ?v) \<noteq> StI" using finvD(3) [OF i j v] by blast
    moreover have "filter_load lb pm ?ac (j + 2) a cyc h = Some (MAX2 cyc (availCycle ?e), h')"
      using tf(1,2) e True h'(1) by (simp add: filter_load_def Let_def del: read_at_Some access.simps)
    ultimately show ?thesis using h'(2,3) le by metis
  next
    case False
    have "filter_load lb pm ?ac (j + 2) a cyc h = filter_replace pm ?ac (j + 2) ?v (fc_index f ?v) True cyc h"
      using tf(1,2) e False by (simp add: filter_load_def Let_def del: read_at_Some access.simps)
    with filter_replace_run [OF i j f v cyc, of q True] near_le show ?thesis by (auto simp del: access.simps)
  qed
  show "\<exists>r h'. filter_store lb pm ?ac (j + 2) a cyc h = Some (r, h') \<and> finv h' \<and> cyc \<le> r \<and>
    (?v \<noteq> 0 \<longrightarrow> hst h' (j + 2) (pm OR ?v) = StM)"
  proof (cases "?v = wrAddr ?e")
    case True
    let ?g = "f\<lparr>fGETXHit := fGETXHit f + 1\<rparr>"
    have hits: "fc_ok ?g" "fc_shape ?g = fc_shape f" "rd_hit ?g = rd_hit f" "wr_hit ?g = wr_hit f"
      using tf(3) by (simp_all add: fc_ok_def fc_shape_def rd_hit_def wr_hit_def fc_index_def fun_eq_iff)
    obtain h' where h': "mod_cache (j + 2) (\<lambda>c. c\<lparr>c_filter := Some ?g\<rparr>) h = Some h'" "finv h'" "hst h' = hst h"
      using finv_filter [OF i j f hits(1,2), unfolded hits(3,4)] by blast
    have "wrh h (j + 2) ?v" using True idx f by (simp add: wrh_def wr_hit_def)
    then have "?v \<noteq> 0 \<longrightarrow> hst h (j + 2) (pm OR ?v) = StM" using finvD(4) [OF i j v] by blast
    moreover have "filter_store lb pm ?ac (j + 2) a cyc h = Some (MAX2 cyc (availCycle ?e), h')"
      using tf(1,2) e True h'(1) by (simp add: filter_store_def Let_def del: read_at_Some access.simps)
    ultimately show ?thesis using h'(2,3) le by metis
  next
    case False
    have "filter_store lb pm ?ac (j + 2) a cyc h = filter_replace pm ?ac (j + 2) ?v (fc_index f ?v) False cyc h"
      using tf(1,2) e False by (simp add: filter_store_def Let_def del: read_at_Some access.simps)
    with filter_replace_run [OF i j f v cyc, of q False] near_le show ?thesis by (auto simp del: access.simps)
  qed
qed

lemma filter_switch_run:
  assumes i: "finv h" and j: "j < n"
  shows "\<exists>h'. filter_contextSwitch (j + 2) h = Some h' \<and> finv h'"
proof -
  have hi: "hinv h" using i by (simp add: finv_def)
  obtain f where f: "flts h (j + 2) = Some f" using finvD(2) [OF i j] by blast
  note tf = the_filter [OF hi j f]
  obtain h' where "mod_cache (j + 2) (\<lambda>c. c\<lparr>c_filter := Some (contextSwitch f)\<rparr>) h = Some h'" "finv h'"
    using finv_filter [OF i j f fc_ok_switch [OF tf(3)] fc_shape_switch] hit_switch by blast
  with tf(1,2) show ?thesis by (simp add: filter_contextSwitch_def)
qed

subsection \<open>Accesses of any process\<close>

text \<open>Without a claim on which lines hit: the accesses of every process, whatever the entries of the filters.\<close>

definition ginv :: "'a heap \<Rightarrow> bool" where
  "ginv h \<longleftrightarrow> hinv h \<and> (\<forall>j<n. \<exists>f. flts h (j + 2) = Some f \<and> reqFlags f AND flag_bits PREFETCH = 0)"

lemma ginv_upd:
  assumes i: "hinv h" and fl: "\<forall>i<n. \<exists>f. flts h (i + 2) = Some f \<and> reqFlags f AND flag_bits PREFETCH = 0"
    and j: "j < n" and f: "flts h (j + 2) = Some f" and g: "fc_ok g" "fc_shape g = fc_shape f"
  shows "\<exists>h'. mod_cache (j + 2) (\<lambda>c. c\<lparr>c_filter := Some g\<rparr>) h = Some h' \<and> ginv h'"
proof -
  have c: "conf h" using i by (simp add: hinv_def)
  obtain h' where h': "mod_cache (j + 2) (\<lambda>c. c\<lparr>c_filter := Some g\<rparr>) h = Some h'" "keeps h h'" "ent h' = ent h" "bst h' = bst h"
    "flts h' = (flts h)(j + 2 := Some g)"
    using set_filter_run [OF c isc_simps(3) [OF j] f g] by blast
  note k = keepsD [OF h'(2)]
  have "hinv h'" using i k(1-3) h'(3,4) by (simp add: hinv_def)
  moreover have "\<exists>f. flts h' (i + 2) = Some f \<and> reqFlags f AND flag_bits PREFETCH = 0" if "i < n" for i
    using fl that h'(5) f g(2) by (auto simp: fc_shape_def)
  ultimately show ?thesis using h'(1) by (auto simp: ginv_def)
qed

lemma any_replace_run:
  assumes i: "ginv h" and j: "j < n" and f: "flts h (j + 2) = Some f" and cyc: "unat cyc + 2 ^ 37 < 2 ^ 64"
  shows "\<exists>r h'. filter_replace pm (access E (Suc (Suc (Suc q)))) (j + 2) v (fc_index f v) isLoad cyc h = Some (r, h') \<and> ginv h' \<and>
    near cyc r (2 ^ 33)"
proof -
  have hi: "hinv h" and fl: "\<forall>j<n. \<exists>f. flts h (j + 2) = Some f \<and> reqFlags f AND flag_bits PREFETCH = 0"
    using i by (simp_all add: ginv_def)
  note tf = the_filter [OF hi j f]
  let ?req = "\<lparr>lineAddr = pm OR v, req_type = (if isLoad then GETS else GETX), childId = 0, req_state = StI, req_cycle = cyc,
    initialState = StI, srcId = fc_srcId f, flags = reqFlags f\<rparr>"
  have "IsGet (req_type ?req)" "req_state ?req = initialState ?req" "\<not> is_flag PREFETCH ?req" "unat (req_cycle ?req) + 2 ^ 37 < 2 ^ 64"
    using fl j f cyc by (auto simp: is_flag_def)
  from core_access_run [OF hi j this, of q]
  obtain r h1 P where h1: "access E (Suc (Suc (Suc q))) (j + 2) ?req h = Some (r, StI, h1)" "hinv h1" "near cyc r (2 ^ 33)" "W P h h1"
    by (auto simp del: access.simps)
  have shape: "map_option fc_shape (flts h1 (x + 2)) = map_option fc_shape (flts h (x + 2))" if "x < n" for x
    using h1(4) that by (simp add: W_def)
  obtain f1 where f1: "flts h1 (j + 2) = Some f1" "fc_shape f1 = fc_shape f" using shape [OF j] f by auto
  have fl1: "\<forall>i<n. \<exists>f. flts h1 (i + 2) = Some f \<and> reqFlags f AND flag_bits PREFETCH = 0"
  proof (intro allI impI)
    fix i
    assume x: "i < n"
    then obtain g where g: "flts h (i + 2) = Some g" "reqFlags g AND flag_bits PREFETCH = 0" using fl by blast
    with shape [OF x] obtain g' where "flts h1 (i + 2) = Some g'" "fc_shape g' = fc_shape g" by auto
    with g(2) show "\<exists>f. flts h1 (i + 2) = Some f \<and> reqFlags f AND flag_bits PREFETCH = 0" by (auto simp: fc_shape_def)
  qed
  note tf1 = the_filter [OF h1(2) j f1(1)] and idx = fc_shape_index [OF f1(2)]
  obtain f2 where f2: "fc_fill v (fc_index f v) isLoad r f1 = Some f2" "fc_ok f2"
    using fc_fill_run [OF tf1(3), of v isLoad r] unfolding idx by blast
  obtain h2 where h2: "mod_cache (j + 2) (\<lambda>c. c\<lparr>c_filter := Some f2\<rparr>) h1 = Some h2" "ginv h2"
    using ginv_upd [OF h1(2) fl1 j f1(1) f2(2) fc_shape_fill [OF f2(1)]] by blast
  have "filter_replace pm (access E (Suc (Suc (Suc q)))) (j + 2) v (fc_index f v) isLoad cyc h = Some (r, h2)"
    using tf(1,2) h1(1) tf1(1,2) f2(1) h2(1) by (simp add: filter_replace_def del: access.simps)
  with h1(3) h2(2) show ?thesis by blast
qed

lemma any_access_run:
  assumes i: "ginv h" and j: "j < n" and cyc: "unat cyc + 2 ^ 37 < 2 ^ 64"
  shows "\<exists>r h'. filter_load lb pm (access E (Suc (Suc (Suc q)))) (j + 2) a cyc h = Some (r, h') \<and> ginv h' \<and> cyc \<le> r"
    "\<exists>r h'. filter_store lb pm (access E (Suc (Suc (Suc q)))) (j + 2) a cyc h = Some (r, h') \<and> ginv h' \<and> cyc \<le> r"
proof -
  have hi: "hinv h" and fl: "\<forall>j<n. \<exists>f. flts h (j + 2) = Some f \<and> reqFlags f AND flag_bits PREFETCH = 0"
    using i by (simp_all add: ginv_def)
  obtain f where f: "flts h (j + 2) = Some f" using fl j by blast
  note tf = the_filter [OF hi j f]
  let ?v = "drop_bit lb a" and ?ac = "access E (Suc (Suc (Suc q)))"
  note idx = fc_index_less [OF tf(3), of ?v]
  let ?e = "filterArray f ! fc_index f ?v"
  have e: "read_at (filterArray f) (fc_index f ?v) = Some ?e" using idx by (simp add: read_at_in)
  have le: "cyc \<le> MAX2 cyc x" for x by (auto simp: MAX2_def linorder_not_less)
  note run = any_replace_run [OF i j f cyc, of q ?v]
  have ok: "fc_ok (f\<lparr>fGETSHit := fGETSHit f + 1\<rparr>)" "fc_shape (f\<lparr>fGETSHit := fGETSHit f + 1\<rparr>) = fc_shape f"
    "fc_ok (f\<lparr>fGETXHit := fGETXHit f + 1\<rparr>)" "fc_shape (f\<lparr>fGETXHit := fGETXHit f + 1\<rparr>) = fc_shape f"
    using tf(3) by (simp_all add: fc_ok_def fc_shape_def)
  note upd = ginv_upd [OF hi fl j f]
  show "\<exists>r h'. filter_load lb pm ?ac (j + 2) a cyc h = Some (r, h') \<and> ginv h' \<and> cyc \<le> r"
    using tf(1,2) e upd [OF ok(1,2)] le run [of True] near_le
    by (cases "?v = rdAddr ?e") (auto simp: filter_load_def Let_def simp del: read_at_Some access.simps)
  show "\<exists>r h'. filter_store lb pm ?ac (j + 2) a cyc h = Some (r, h') \<and> ginv h' \<and> cyc \<le> r"
    using tf(1,2) e upd [OF ok(3,4)] le run [of False] near_le
    by (cases "?v = wrAddr ?e") (auto simp: filter_store_def Let_def simp del: read_at_Some access.simps)
qed

lemma any_switch_run:
  assumes i: "ginv h" and j: "j < n"
  shows "\<exists>h'. filter_contextSwitch (j + 2) h = Some h' \<and> ginv h'"
proof -
  have hi: "hinv h" and fl: "\<forall>j<n. \<exists>f. flts h (j + 2) = Some f \<and> reqFlags f AND flag_bits PREFETCH = 0"
    using i by (simp_all add: ginv_def)
  obtain f where f: "flts h (j + 2) = Some f" using fl j by blast
  note tf = the_filter [OF hi j f]
  from ginv_upd [OF hi fl j f fc_ok_switch [OF tf(3)] fc_shape_switch] tf(1,2) show ?thesis by (auto simp: filter_contextSwitch_def)
qed

lemma finv_ginv: "finv h \<Longrightarrow> ginv h"
  by (simp add: finv_def ginv_def)

end

end
