(* ===== verification/Two_Level.thy ===== *)
theory Two_Level imports Hierarchy_Filter Doppelganger_Contract begin

text \<open>
  The two-level hierarchy \<^verbatim>\<open>init.cpp\<close> builds from a configuration with one group of terminal caches
  under a last level cache of one bank and one simple memory, the loads and stores of its cores, and the
  properties of its protocol, for lines that are not approximable.
\<close>

declare One_nat_def [simp del] add_2_eq_Suc [simp del] add_2_eq_Suc' [simp del]

subsection \<open>Construction\<close>

text \<open>
  The parts of \<^verbatim>\<open>BuildCacheBank\<close> for a set-associative array that is not hashed and has LRU. A \<^verbatim>\<open>panic\<close> is
  \<open>None\<close>, and so is a bank without sets (\<^verbatim>\<open>__builtin_clz(0)\<close>).
\<close>

record bank_config =
  bk_size :: u32
  bk_ways :: u32
  bk_latency :: u32

definition bank_lines :: "bank_config \<Rightarrow> u32 \<Rightarrow> u32 option" where
  "bank_lines g lineSize = do {
     assert_that (lineSize > 0);
     assert_that (bk_size g mod lineSize = 0);
     Some (bk_size g div lineSize)
   }"

text \<open>\<^verbatim>\<open>31 - __builtin_clz(n)\<close>\<close>

fun set_bits :: "nat \<Rightarrow> nat" where
  "set_bits n = (if n < 2 then 0 else Suc (set_bits (n div 2)))"

declare set_bits.simps [simp del]

definition bank_sets :: "bank_config \<Rightarrow> u32 \<Rightarrow> u32 option" where
  "bank_sets g nl = do {
     assert_that (bk_ways g \<noteq> 0);
     let numSets = nl div bk_ways g;
     assert_that (numSets \<noteq> 0);
     assert_that (push_bit (set_bits (unat numSets)) 1 = numSets);
     Some numSets
   }"

definition bank_array :: "bank_config \<Rightarrow> u32 \<Rightarrow> lru SetAssocArray option" where
  "bank_array g lineSize = do {
     nl \<leftarrow> bank_lines g lineSize;
     bank_sets g nl;
     sa_new (unat nl) (unat (bk_ways g)) (lru_new (unat nl))
   }"

definition bank_array_dpg :: "bank_config \<Rightarrow> u32 \<Rightarrow> lru dpg option" where
  "bank_array_dpg g lineSize = do {
     nl \<leftarrow> bank_lines g lineSize;
     dpg_new (unat nl) (unat (bk_ways g)) (lru_new (unat nl)) (lru_new (unat (nl div 2)))
   }"

text \<open>
  A terminal cache and a last level cache, with their parents and children. A terminal cache has a filter,
  and the core that uses it: its index and whether this is its instruction cache.
\<close>

definition core_filter :: "u32 \<times> bool \<Rightarrow> FilterCache \<Rightarrow> FilterCache" where
  "core_filter core f = (let f = setSourceId (fst core) f in
     if snd core then setFlags (flag_bits IFETCH OR flag_bits NOEXCL) f else f)"

definition terminal_cache :: "bank_config \<Rightarrow> u32 \<Rightarrow> nat \<Rightarrow> nat list \<Rightarrow> (nat \<Rightarrow> u32) option \<Rightarrow>
    u32 \<times> bool \<Rightarrow> lru SetAssocArray Cache option" where
  "terminal_cache g lineSize selfId parents rtt core = do {
     nl \<leftarrow> bank_lines g lineSize;
     a \<leftarrow> bank_array g lineSize;
     numSets \<leftarrow> bank_sets g nl;
     Some \<lparr>c_array = a, c_array_dpg = None, c_tcc = None,
       c_bcc = bcc_init parents rtt (bcc_new (unat nl) selfId False), c_accLat = 0, c_invLat = bk_latency g,
       c_filter = Some (core_filter core (fc_new numSets))\<rparr>
   }"

definition last_level_cache :: "bank_config \<Rightarrow> u32 \<Rightarrow> nat \<Rightarrow> nat list \<Rightarrow> nat list \<Rightarrow> (nat \<Rightarrow> u32) option \<Rightarrow>
    lru SetAssocArray Cache option" where
  "last_level_cache g lineSize selfId parents children rtt = do {
     nl \<leftarrow> bank_lines g lineSize;
     a \<leftarrow> bank_array g lineSize;
     d \<leftarrow> bank_array_dpg g lineSize;
     t \<leftarrow> tcc_init children rtt (tcc_new (unat (nl * 2)) False);
     Some \<lparr>c_array = a, c_array_dpg = Some d, c_tcc = Some t,
       c_bcc = bcc_init parents rtt (bcc_new (unat (nl * 2)) selfId False),
       c_accLat = bk_latency g, c_invLat = bk_latency g, c_filter = None\<rparr>
   }"

text \<open>\<^verbatim>\<open>InitSystem\<close>: memory is object 0, the last level cache object 1, and the terminal cache of core \<open>j\<close> is
  object \<open>j + 2\<close>; \<open>network\<close> holds the latencies of the network file, \<open>cores j\<close> the core of cache \<open>j\<close>.\<close>

definition two_level_system :: "u32 \<Rightarrow> bank_config \<Rightarrow> bank_config \<Rightarrow> nat \<Rightarrow> u32 \<Rightarrow> (nat \<Rightarrow> nat \<Rightarrow> u32) option \<Rightarrow>
    (nat \<Rightarrow> u32 \<times> bool) \<Rightarrow> lru SetAssocArray heap option" where
  "two_level_system lineSize llc l1 n lat network cores = do {
     c \<leftarrow> last_level_cache llc lineSize 0 [0] [2..<n + 2] (map_option (\<lambda>f. f 1) network);
     ts \<leftarrow> those (map (\<lambda>j. terminal_cache l1 lineSize j [1] (map_option (\<lambda>f. f (j + 2)) network) (cores j)) [0..<n]);
     Some (SimpleMemory lat # CacheObj c # map CacheObj ts)
   }"

subsection \<open>The environment of a run without approximable regions\<close>

text \<open>\<^verbatim>\<open>lineBits\<close> and \<^verbatim>\<open>procMask\<close>: a line address of the caches is the number of the process in the high bits over
  the virtual line address.\<close>

definition ilog2 :: "u32 \<Rightarrow> nat" where
  "ilog2 val = (if val \<noteq> 0 then set_bits (unat val) else 0)"

definition procMask :: "u32 \<Rightarrow> u32 \<Rightarrow> u64" where
  "procMask lineSize procIdx = push_bit (64 - ilog2 lineSize) (ucast procIdx)"

definition precise_env :: "u64 \<Rightarrow> lru SetAssocArray cache_env" where
  "precise_env pm = \<lparr>ce_array = sa_lru_ops, ce_isApprox = (\<lambda>_. False), ce_hash = id_hash, ce_map = (\<lambda>_. None), ce_procMask = pm\<rparr>"

interpretation sys: two_level sa_lru_ops sa_lru_wf sa_numLines sa_adr "sa_find id_hash" "sa_pend id_hash lru_inv lru_numLines"
    "sa_clash id_hash" "\<lambda>_. precise_env pm" pm n lat nl bl for pm n lat nl bl
  by unfold_locales (simp_all add: precise_env_def)

lemma set_bits_power: "0 < m \<Longrightarrow> 2 ^ set_bits m \<le> m"
proof (induction m rule: set_bits.induct)
  case (1 m)
  show ?case
  proof (cases "m < 2")
    case False
    then have "2 ^ set_bits (m div 2) \<le> m div 2" using 1 by simp
    with False show ?thesis by (subst set_bits.simps) simp
  qed (use 1 in \<open>simp add: set_bits.simps\<close>)
qed

lemma ilog2_bounds: "1 < lineSize \<Longrightarrow> 1 \<le> ilog2 lineSize \<and> ilog2 lineSize < 32"
proof -
  assume "1 < lineSize"
  then have m: "2 \<le> unat lineSize" and nz: "lineSize \<noteq> 0" by (auto simp: word_less_nat_alt)
  have "2 ^ set_bits (unat lineSize) \<le> unat lineSize" by (rule set_bits_power) (use m in simp)
  also have "\<dots> < 2 ^ 32" using unsigned_less [of lineSize] by simp
  finally have "(2::nat) ^ set_bits (unat lineSize) < 2 ^ 32" .
  then have "set_bits (unat lineSize) < 32" by (rule power_less_imp_less_exp [rotated]) simp
  moreover have "1 \<le> set_bits (unat lineSize)" using m by (subst set_bits.simps) simp
  ultimately show ?thesis using nz by (simp add: ilog2_def)
qed

lemma proc_line_addr:
  assumes "1 < lineSize"
  shows "proc_line (procMask lineSize procIdx) (drop_bit (ilog2 lineSize) a)"
proof -
  note lb = ilog2_bounds [OF assms]
  let ?p = "procMask lineSize procIdx" and ?v = "drop_bit (ilog2 lineSize) (a::u64)"
  have high: "\<not> bit a i" if "64 \<le> i" for i using that bit_imp_le_length [of a i] by auto
  have p: "64 - ilog2 lineSize \<le> i" if "bit ?p i" for i using that by (auto simp: procMask_def bit_push_bit_iff)
  have "?p AND ?v = 0"
  proof (rule bit_eqI)
    fix i
    show "bit (?p AND ?v) i = bit 0 i"
    proof (cases "bit ?p i")
      case True
      from p [OF this] lb have "64 \<le> ilog2 lineSize + i" by linarith
      from high [OF this] show ?thesis by (simp add: bit_and_iff bit_drop_bit_eq)
    qed (simp add: bit_and_iff)
  qed
  moreover have "?p AND 0xffffffff = 0"
  proof (rule bit_eqI)
    fix i
    have "(0xffffffff::u64) = mask 32" by (simp add: mask_eq_exp_minus_1)
    then have "bit (0xffffffff::u64) i \<Longrightarrow> i < 32" by (simp add: bit_mask_iff)
    with p [of i] lb show "bit (?p AND 0xffffffff) i = bit 0 i" by (auto simp: bit_and_iff)
  qed
  moreover have "?v \<noteq> -1"
  proof
    assume v: "?v = -1"
    have "bit ?v 63" unfolding v by simp
    then show False using high [of "ilog2 lineSize + 63"] lb by (simp add: bit_drop_bit_eq)
  qed
  ultimately show ?thesis by (simp add: proc_line_def)
qed

subsection \<open>Runs\<close>

text \<open>The state of a line in the cache \<open>k\<close>.\<close>

definition line_state :: "lru SetAssocArray heap \<Rightarrow> nat \<Rightarrow> address \<Rightarrow> MESIState option" where
  "line_state h k a = do {
     c \<leftarrow> the_cache h k;
     (i, _) \<leftarrow> ca_lookup sa_lru_ops a None False (c_array c);
     (if i = -1 then Some StI else read_at (bc_array (c_bcc c)) (nat i))
   }"

text \<open>A load and a store of the core with the cache \<open>j + 2\<close>, at a virtual address.\<close>

definition core_load :: "lru SetAssocArray cache_env \<Rightarrow> u32 \<Rightarrow> nat \<Rightarrow> address \<Rightarrow> u64 \<Rightarrow>
    lru SetAssocArray heap \<Rightarrow> (u64 \<times> lru SetAssocArray heap) option" where
  "core_load E lineSize j = filter_load (ilog2 lineSize) (ce_procMask E) (access (\<lambda>_. E) 3) (j + 2)"

definition core_store :: "lru SetAssocArray cache_env \<Rightarrow> u32 \<Rightarrow> nat \<Rightarrow> address \<Rightarrow> u64 \<Rightarrow>
    lru SetAssocArray heap \<Rightarrow> (u64 \<times> lru SetAssocArray heap) option" where
  "core_store E lineSize j = filter_store (ilog2 lineSize) (ce_procMask E) (access (\<lambda>_. E) 3) (j + 2)"

definition core_op :: "bool \<Rightarrow> lru SetAssocArray cache_env \<Rightarrow> u32 \<Rightarrow> nat \<Rightarrow> address \<Rightarrow> u64 \<Rightarrow>
    lru SetAssocArray heap \<Rightarrow> (u64 \<times> lru SetAssocArray heap) option" where
  "core_op isLoad = (if isLoad then core_load else core_store)"

text \<open>The steps of a run of the processes \<open>procs\<close>, with no approximable region: accesses, each by one of the
  processes on some core and at a cycle with room for its latencies, and context switches of cores.\<close>

inductive core_step :: "u32 \<Rightarrow> u32 set \<Rightarrow> nat \<Rightarrow> lru SetAssocArray heap \<Rightarrow> lru SetAssocArray heap \<Rightarrow> bool"
  for lineSize procs n where
  access: "procIdx \<in> procs \<Longrightarrow> j < n \<Longrightarrow> unat cyc + 2 ^ 37 < 2 ^ 64 \<Longrightarrow>
    core_op isLoad (precise_env (procMask lineSize procIdx)) lineSize j a cyc h = Some (r, h') \<Longrightarrow> core_step lineSize procs n h h'"
| switch: "j < n \<Longrightarrow> filter_contextSwitch (j + 2) h = Some h' \<Longrightarrow> core_step lineSize procs n h h'"

inductive_cases core_stepE: "core_step lineSize procs n h h'"

text \<open>The request of \<^verbatim>\<open>FilterCache::replace\<close> to the cache.\<close>

definition core_req :: "bool \<Rightarrow> address \<Rightarrow> u64 \<Rightarrow> u32 \<Rightarrow> u32 \<Rightarrow> MemReq" where
  "core_req isLoad line cyc src fl = \<lparr>lineAddr = line, req_type = (if isLoad then GETS else GETX), childId = 0,
     req_state = StI, req_cycle = cyc, initialState = StI, srcId = src, flags = fl\<rparr>"

subsection \<open>The invariant of a new system\<close>

lemma bank_array_wf:
  assumes a: "bank_array g lineSize = Some a"
  shows "\<exists>nl. bank_lines g lineSize = Some nl \<and> sa_lru_wf a \<and> sa_numLines a = unat nl"
proof -
  obtain nl where nl: "bank_lines g lineSize = Some nl" "bk_ways g \<noteq> 0"
    "sa_new (unat nl) (unat (bk_ways g)) (lru_new (unat nl)) = Some a"
    using a by (auto simp: bank_array_def bank_sets_def bind_eq_Some_conv)
  let ?m = "unat nl div unat (bk_ways g)"
  have a: "a = \<lparr>sa_array = replicate (unat nl) 0, sa_rp = lru_new (unat nl), sa_numLines = unat nl, sa_numSets = ?m,
      sa_assoc = unat (bk_ways g), sa_setMask = of_nat ?m - 1\<rparr>" and pow: "(of_nat ?m :: u32) \<noteq> 0"
    using nl(3) by (auto simp: sa_new_def Let_def bind_eq_Some_conv isPow2_def split: if_splits)
  have "?m \<le> unat nl" by (rule div_le_dividend)
  also have "unat nl < 2 ^ 32" using unsigned_less [of nl] by simp
  finally have m: "unat (of_nat ?m :: u32) = ?m" by (simp add: unsigned_of_nat take_bit_nat_eq_self)
  have mask: "unat ((of_nat ?m :: u32) - 1) = ?m - 1" using unat_minus_one [OF pow] m by simp
  have "0 < unat (of_nat ?m :: u32)" using pow by (rule unat_gt_0 [THEN iffD2])
  then have "0 < ?m" unfolding m .
  moreover have "0 < unat (bk_ways g)" using nl(2) by (simp add: unat_gt_0)
  moreover have "?m * unat (bk_ways g) \<le> unat nl" by simp
  ultimately have "sa_lru_wf a" using mask unfolding sa_wf_def a by (simp only: SetAssocArray.simps length_replicate lru_inv_def lru_new_def lru.simps simp_thms order_refl)
  with nl(1) a show ?thesis by simp
qed

lemma filter_of_bank:
  assumes m: "bank_lines g lineSize = Some m" and a: "bank_array g lineSize = Some a" and s: "bank_sets g m = Some k"
  shows "sys.filter_ok a (Some (core_filter core (fc_new k)))"
proof -
  let ?f = "core_filter core (fc_new k)"
  have f: "filterArray ?f = filterArray (fc_new k)" "fc_setMask ?f = ucast (k - 1)" "fc_numSets ?f = unat k"
    by (simp_all add: core_filter_def setSourceId_def setFlags_def fc_new_def Let_def)
  have k: "k = m div bk_ways g" "k \<noteq> 0" using s by (auto simp: bank_sets_def Let_def split: if_splits)
  have "0 < k" using k(2) by (simp add: word_gt_0)
  from fc_new_ok [OF this] f have ok: "fc_ok ?f" by (simp add: fc_ok_def fc_new_def FilterEntry_clear_def)
  have "sa_setMask a = of_nat (unat m div unat (bk_ways g)) - 1" "sa_assoc a \<noteq> 0"
    using a m by (auto simp: bank_array_def bank_sets_def sa_new_def Let_def bind_eq_Some_conv unat_gt_0 split: if_splits)
  moreover have "(of_nat (unat m div unat (bk_ways g)) :: u32) = m div bk_ways g"
    by (simp add: word_arith_nat_div)
  ultimately have a: "sa_setMask a = k - 1" "sa_assoc a \<noteq> 0" using k(1) by simp_all
  have "fc_index ?f c = fc_index ?f d" if "sa_clash id_hash a c d" for c d
  proof -
    let ?k = "\<lambda>c. unat (ucast (c AND ucast (k - 1)) :: u32)"
    have ids: "set_ids id_hash a c = [?k c * sa_assoc a..<?k c * sa_assoc a + sa_assoc a]" for c
      by (simp add: set_ids_def set_index_def id_hash_def a(1))
    have "[?k c * sa_assoc a..<?k c * sa_assoc a + sa_assoc a] = [?k d * sa_assoc a..<?k d * sa_assoc a + sa_assoc a]"
      using that unfolding sa_clash_def ids .
    then have "?k c * sa_assoc a = ?k d * sa_assoc a" using a(2) by (metis add_gr_0 less_add_same_cancel1 hd_upt not_gr_zero)
    then show ?thesis using a(2) by (simp add: fc_index_def f(2))
  qed
  with ok show ?thesis by (simp add: sys.filter_ok_def)
qed

definition cfg_lines :: "u32 \<Rightarrow> bank_config \<Rightarrow> bank_config \<Rightarrow> nat \<Rightarrow> nat" where
  "cfg_lines lineSize llc l1 k = unat (bk_size (if k = 1 then llc else l1) div lineSize)"

definition cfg_states :: "u32 \<Rightarrow> bank_config \<Rightarrow> bank_config \<Rightarrow> nat \<Rightarrow> nat" where
  "cfg_states lineSize llc l1 k = (if k = 1 then unat (bk_size llc div lineSize * 2) else unat (bk_size l1 div lineSize))"

lemma double_lines: "1 < (s::u32) \<Longrightarrow> unat (x div s) \<le> unat (x div s * 2)"
proof -
  assume "1 < s"
  then have "2 \<le> unat s" by (simp add: word_less_nat_alt)
  then have "unat x div unat s \<le> unat x div 2" by (rule div_le_mono2 [rotated]) simp
  moreover have "unat x < 2 ^ 32" using unsigned_less [of x] by simp
  ultimately have "unat (x div s) * 2 < 2 ^ 32" by (simp add: unat_div)
  then have "unat (x div s * 2) = unat (x div s) * 2"
    by (simp add: unat_word_ariths)
  then show ?thesis by simp
qed

lemma those_length: "those xs = Some ys \<Longrightarrow> length ys = length xs"
  by (induction xs arbitrary: ys) (auto split: option.splits)

lemma those_nth: "those xs = Some ys \<Longrightarrow> i < length xs \<Longrightarrow> xs ! i = Some (ys ! i)"
  by (induction xs arbitrary: ys i) (auto simp: nth_Cons split: option.splits nat.splits)

lemma new_system_objects:
  assumes "two_level_system lineSize llc l1 n lat network cores = Some h"
  shows "length h = n + 2" "h ! 0 = SimpleMemory lat"
    "\<exists>c. h ! 1 = CacheObj c \<and> last_level_cache llc lineSize 0 [0] [2..<n + 2] (map_option (\<lambda>f. f 1) network) = Some c"
    "j < n \<Longrightarrow> \<exists>c. h ! (j + 2) = CacheObj c \<and>
      terminal_cache l1 lineSize j [1] (map_option (\<lambda>f. f (j + 2)) network) (cores j) = Some c"
proof -
  obtain c ts where c: "last_level_cache llc lineSize 0 [0] [2..<n + 2] (map_option (\<lambda>f. f 1) network) = Some c"
    "those (map (\<lambda>j. terminal_cache l1 lineSize j [1] (map_option (\<lambda>f. f (j + 2)) network) (cores j)) [0..<n]) = Some ts"
    "h = SimpleMemory lat # CacheObj c # map CacheObj ts"
    using assms by (auto simp: two_level_system_def bind_eq_Some_conv)
  have len: "length ts = n" using those_length [OF c(2)] by simp
  show "length h = n + 2" "h ! 0 = SimpleMemory lat" using c(3) len by simp_all
  show "\<exists>c. h ! 1 = CacheObj c \<and> last_level_cache llc lineSize 0 [0] [2..<n + 2] (map_option (\<lambda>f. f 1) network) = Some c"
    using c(1,3) by (simp add: nth_Cons' One_nat_def)
  show "\<exists>c. h ! (j + 2) = CacheObj c \<and> terminal_cache l1 lineSize j [1] (map_option (\<lambda>f. f (j + 2)) network) (cores j) = Some c" if "j < n"
    using those_nth [OF c(2), of j] that c(3) len by (simp add: nth_append numeral_2_eq_2)
qed

lemma new_system_hinv:
  assumes sys: "two_level_system lineSize llc l1 n lat network cores = Some h" and lat: "lat \<noteq> 0" and ls: "1 < lineSize"
  shows "sys.hinv n lat (cfg_lines lineSize llc l1) (cfg_states lineSize llc l1) h"
proof -
  note o = new_system_objects [OF sys]
  let ?nl = "cfg_lines lineSize llc l1" and ?bl = "cfg_states lineSize llc l1"
  obtain c where c: "h ! 1 = CacheObj c" "last_level_cache llc lineSize 0 [0] [2..<n + 2] (map_option (\<lambda>f. f 1) network) = Some c"
    using o(3) by blast
  obtain a t nl where a: "bank_lines llc lineSize = Some nl" "bank_array llc lineSize = Some a"
    "tcc_init [2..<n + 2] (map_option (\<lambda>f. f 1) network) (tcc_new (unat (nl * 2)) False) = Some t"
    "c_array c = a" "c_tcc c = Some t" "c_bcc c = bcc_init [0] (map_option (\<lambda>f. f 1) network) (bcc_new (unat (nl * 2)) 0 False)" "c_filter c = None"
    using c(2) by (auto simp: last_level_cache_def bind_eq_Some_conv)
  have n: "n \<le> MAX_CACHE_CHILDREN" using a(3) by (auto simp: tcc_init_def)
  have nl: "nl = bk_size llc div lineSize" using a(1) by (auto simp: bank_lines_def)
  have wf: "sa_lru_wf a" "sa_numLines a = unat nl" using bank_array_wf [OF a(2)] a(1) by auto
  have le: "unat nl \<le> unat (nl * 2)" unfolding nl by (rule double_lines [OF ls])
  have t: "sys.tcc_ok n ?bl t" and te: "tc_array t = replicate (unat (nl * 2)) Entry_clear"
    using a(3) nl by (auto simp: tcc_init_def tcc_new_def sys.tcc_ok_def cfg_states_def Entry_clear_def MAX_CACHE_CHILDREN_def
      simp del: upt_Suc)
  have ok1: "sys.cc_ok n ?nl ?bl 1 c"
    using a wf le t nl by (simp add: sys.cc_ok_def sys.top_ok_def sys.filter_ok_def bcc_init_def bcc_new_def cfg_lines_def cfg_states_def)
  have ok2: "\<exists>x. h ! k = CacheObj x \<and> sys.cc_ok n ?nl ?bl k x \<and> bc_array (c_bcc x) = replicate (?bl k) StI"
    if k: "2 \<le> k" "k < n + 2" for k
  proof -
    obtain j where j: "k = j + 2" "j < n" using k by (metis add_less_cancel_right le_add_diff_inverse2)
    obtain x where x: "h ! k = CacheObj x" "terminal_cache l1 lineSize j [1] (map_option (\<lambda>f. f (j + 2)) network) (cores j) = Some x"
      using o(4) [OF j(2)] j(1) by blast
    obtain m b sets where b: "bank_lines l1 lineSize = Some m" "bank_array l1 lineSize = Some b" "bank_sets l1 m = Some sets"
      "x = \<lparr>c_array = b, c_array_dpg = None, c_tcc = None,
         c_bcc = bcc_init [1] (map_option (\<lambda>f. f (j + 2)) network) (bcc_new (unat m) j False), c_accLat = 0, c_invLat = bk_latency l1,
         c_filter = Some (core_filter (cores j) (fc_new sets))\<rparr>"
      using x(2) by (auto simp: terminal_cache_def bind_eq_Some_conv)
    have "m = bk_size l1 div lineSize" using b(1) by (auto simp: bank_lines_def)
    with x(1) b bank_array_wf [OF b(2)] filter_of_bank [OF b(1-3)] j show ?thesis
      by (auto simp: sys.cc_ok_def sys.top_ok_def bcc_init_def bcc_new_def cfg_lines_def cfg_states_def)
  qed
  have obj: "\<exists>x. the_cache h k = Some x \<and> cch h k = x \<and> sys.cc_ok n ?nl ?bl k x \<and> bc_array (c_bcc x) = replicate (?bl k) StI"
    if "sys.isc n k" for k
  proof (cases "k = 1")
    case True
    with c(1) o(1) ok1 a(6) nl show ?thesis
      by (simp add: the_cache_def cch_def read_at_def bcc_init_def bcc_new_def cfg_states_def)
  next
    case False
    with that have "2 \<le> k" "k < n + 2" by (auto simp: sys.isc_def)
    with ok2 [OF this] o(1) show ?thesis by (auto simp: the_cache_def cch_def read_at_def)
  qed
  have conf: "sys.conf n lat ?nl ?bl h"
    using n lat o(1,2) obj by (auto simp: sys.conf_def sys.isc_def)
  have inval: "bst h k i = StI" if "sys.isc n k" "i < ?bl k" for k i
    using obj [OF that(1)] that(2) by (auto simp: bst_def)
  have clear: "ent h i = Entry_clear" if "i < ?bl 1" for i
    using that te a(5) c(1) o(1) nl by (simp add: ent_def cch_def the_cache_def read_at_def cfg_states_def)
  have vst: "vst (bst h) (sys.F h) (j + 2) x = StI" if "j < n" for j x
    using inval [of "j + 2"] sys.F_bound(2) [OF conf, of "j + 2" x] that by (auto simp: vst_def split: option.split)
  have "sys.Inv n ?nl ?bl (bst h) (ent h) (sys.F h) (sys.D h)"
    unfolding sys.Inv_def
  proof (intro conjI allI impI)
    fix k x i
    assume "sys.isc n k" "sys.F h k x = Some i"
    then show "i < ?nl k" "i < ?bl k" "sys.D h k i = x" using sys.F_bound [OF conf, of k x i] by simp_all
  next
    show "n \<le> 256" by (rule sys.conf_bounds(1) [OF conf])
  next
    fix i
    assume "i < ?bl 1"
    have none: "shr Entry_clear = {}" by (auto simp: shr_def Entry_clear_def)
    from \<open>i < ?bl 1\<close> clear sys.conf_bounds(1) [OF conf] none show "dir_ok n (ent h i)" "shr (ent h i) = {}"
      "isExclusive (ent h i) \<Longrightarrow> bst h 1 i = StE \<or> bst h 1 i = StM"
      "\<forall>j\<in>shr (ent h i). if isExclusive (ent h i) then vst (bst h) (sys.F h) (j + 2) (sys.D h 1 i) \<in> {StE, StM}
         else vst (bst h) (sys.F h) (j + 2) (sys.D h 1 i) = StS"
      by (auto simp: dir_ok_def Entry_clear_def isExclusive_def)
  qed (use inval vst in auto)
  with conf show ?thesis by (simp add: sys.hinv_def)
qed

text \<open>In the filters of a new system only the line 0 hits.\<close>

lemma new_filters:
  assumes "two_level_system lineSize llc l1 n lat network cores = Some h" and j: "j < n"
  shows "\<exists>f. flts h (j + 2) = Some f \<and> reqFlags f AND flag_bits PREFETCH = 0" "rdh h (j + 2) v \<Longrightarrow> v = 0" "wrh h (j + 2) v \<Longrightarrow> v = 0"
proof -
  note o = new_system_objects [OF assms(1)]
  obtain x where x: "h ! (j + 2) = CacheObj x" "terminal_cache l1 lineSize j [1] (map_option (\<lambda>f. f (j + 2)) network) (cores j) = Some x"
    using o(4) [OF j] by blast
  obtain k where k: "c_filter x = Some (core_filter (cores j) (fc_new k))"
    using x(2) by (auto simp: terminal_cache_def bind_eq_Some_conv)
  let ?f = "core_filter (cores j) (fc_new k)"
  have f: "flts h (j + 2) = Some ?f" using x(1) k o(1) j by (simp add: flts_def cch_def the_cache_def read_at_def)
  have "reqFlags ?f AND flag_bits PREFETCH = 0"
    by (simp add: core_filter_def setSourceId_def setFlags_def fc_new_def flag_bits_def Let_def)
  with f show "\<exists>f. flts h (j + 2) = Some f \<and> reqFlags f AND flag_bits PREFETCH = 0" by blast
  have "rd_hit ?f = rd_hit (fc_new k)" "wr_hit ?f = wr_hit (fc_new k)"
    by (simp_all add: core_filter_def setSourceId_def setFlags_def rd_hit_def wr_hit_def fc_index_def Let_def fun_eq_iff)
  with f hit_new show "rdh h (j + 2) v \<Longrightarrow> v = 0" "wrh h (j + 2) v \<Longrightarrow> v = 0" by (simp_all add: rdh_def wrh_def)
qed

lemma new_system_inv:
  assumes "two_level_system lineSize llc l1 n lat network cores = Some h" and "lat \<noteq> 0" and "1 < lineSize"
  shows "sys.finv pm n lat (cfg_lines lineSize llc l1) (cfg_states lineSize llc l1) h"
  using new_system_hinv [OF assms] new_filters [OF assms(1)] by (auto simp: sys.finv_def)

subsection \<open>Properties of every run\<close>

lemma line_state_hst:
  assumes c: "sys.conf n lat nl bl h" and k: "sys.isc n k"
  shows "line_state h k a = Some (sys.hst h k a)"
proof -
  note x = sys.conf_cache [OF c k]
  have inv: "sa_lru_wf (c_array (cch h k))" using x(2) by (simp add: sys.cc_ok_def)
  obtain s where s: "ca_lookup sa_lru_ops a None False (c_array (cch h k)) =
      Some (case sa_find id_hash (c_array (cch h k)) a of None \<Rightarrow> -1 | Some i \<Rightarrow> int i, s)"
    using sa_lru.lookup_law [OF inv, of a None False] by blast
  show ?thesis
  proof (cases "sys.F h k a")
    case None
    then show ?thesis using x(1) s by (simp add: line_state_def sys.hst_def vst_def sys.F_def)
  next
    case (Some i)
    have "i < length (bc_array (c_bcc (cch h k)))" using sys.F_bound(2) [OF c k Some] x(2) by (simp add: sys.cc_ok_def)
    with Some show ?thesis using x(1) s by (simp add: line_state_def sys.hst_def vst_def sys.F_def bst_def read_at_def)
  qed
qed

lemma core_op_run:
  assumes i: "sys.finv (procMask lineSize procIdx) n lat nl bl h" and "1 < lineSize" and "j < n" and cyc: "unat cyc + 2 ^ 37 < 2 ^ 64"
  shows "\<exists>r h'. core_op isLoad (precise_env (procMask lineSize procIdx)) lineSize j a cyc h = Some (r, h') \<and>
    sys.finv (procMask lineSize procIdx) n lat nl bl h' \<and> cyc \<le> r \<and>
    (drop_bit (ilog2 lineSize) a \<noteq> 0 \<longrightarrow> (let s = sys.hst h' (j + 2) (procMask lineSize procIdx OR drop_bit (ilog2 lineSize) a) in
      if isLoad then s \<noteq> StI else s = StM))"
  using sys.filter_access_run [OF i \<open>j < n\<close> proc_line_addr [OF \<open>1 < lineSize\<close>] cyc, of 0 a]
  by (cases isLoad) (simp_all add: core_op_def core_load_def core_store_def precise_env_def [of "procMask lineSize procIdx", THEN
    arg_cong [where f = ce_procMask]] numeral_3_eq_3 Let_def del: access.simps)

lemma any_op_run:
  assumes i: "sys.ginv n lat nl bl h" and "j < n" and cyc: "unat cyc + 2 ^ 37 < 2 ^ 64"
  shows "\<exists>r h'. core_op isLoad (precise_env (procMask lineSize procIdx)) lineSize j a cyc h = Some (r, h') \<and>
    sys.ginv n lat nl bl h' \<and> cyc \<le> r"
  using sys.any_access_run [OF i \<open>j < n\<close> cyc, where lb = "ilog2 lineSize" and pm = "procMask lineSize procIdx" and q = 0 and a = a]
  by (cases isLoad) (simp_all add: core_op_def core_load_def core_store_def precise_env_def [of "procMask lineSize procIdx", THEN
    arg_cong [where f = ce_procMask]] numeral_3_eq_3 Let_def del: access.simps)

lemma core_step_ginv:
  assumes "core_step lineSize procs n h h'" and i: "sys.ginv n lat nl bl h"
  shows "sys.ginv n lat nl bl h'"
proof -
  have op: "sys.ginv n lat nl bl h'"
    if "j < n" "unat cyc + 2 ^ 37 < 2 ^ 64" "core_op isLoad (precise_env (procMask lineSize procIdx)) lineSize j a cyc h = Some (r, h')"
    for j cyc isLoad a r procIdx
    using any_op_run [OF i that(1,2), of isLoad lineSize procIdx a] that(3) by auto
  have switch: "sys.ginv n lat nl bl h'" if "j < n" "filter_contextSwitch (j + 2) h = Some h'" for j
    using sys.any_switch_run [OF i that(1)] that(2) by auto
  from assms(1) show ?thesis by (rule core_stepE) (rule op switch; simp)+
qed

lemma core_step_finv:
  assumes "core_step lineSize {procIdx} n h h'" and i: "sys.finv (procMask lineSize procIdx) n lat nl bl h" and "1 < lineSize"
  shows "sys.finv (procMask lineSize procIdx) n lat nl bl h'"
proof -
  have op: "sys.finv (procMask lineSize procIdx) n lat nl bl h'"
    if "p \<in> {procIdx}" "j < n" "unat cyc + 2 ^ 37 < 2 ^ 64" "core_op isLoad (precise_env (procMask lineSize p)) lineSize j a cyc h = Some (r, h')"
    for j cyc isLoad a r p
    using core_op_run [OF i \<open>1 < lineSize\<close> that(2,3), of isLoad a] that(1,4) by auto
  have switch: "sys.finv (procMask lineSize procIdx) n lat nl bl h'" if "j < n" "filter_contextSwitch (j + 2) h = Some h'" for j
    using sys.filter_switch_run [OF i that(1)] that(2) by auto
  from assms(1) show ?thesis by (rule core_stepE) (rule op switch; simp)+
qed

lemma run_ginv:
  assumes "two_level_system lineSize llc l1 n lat network cores = Some h0" and "lat \<noteq> 0" and "1 < lineSize"
    and run: "(core_step lineSize procs n)\<^sup>*\<^sup>* h0 h"
  shows "sys.ginv n lat (cfg_lines lineSize llc l1) (cfg_states lineSize llc l1) h"
  using run
proof (induction rule: rtranclp_induct)
  case base
  show ?case by (rule sys.finv_ginv [OF new_system_inv [OF assms(1-3), of 0]])
next
  case (step y z)
  from core_step_ginv [OF step(2,3)] show ?case .
qed

lemma run_finv:
  assumes "two_level_system lineSize llc l1 n lat network cores = Some h0" and "lat \<noteq> 0" and "1 < lineSize"
    and run: "(core_step lineSize {procIdx} n)\<^sup>*\<^sup>* h0 h"
  shows "sys.finv (procMask lineSize procIdx) n lat (cfg_lines lineSize llc l1) (cfg_states lineSize llc l1) h"
  using run
proof (induction rule: rtranclp_induct)
  case base
  show ?case by (rule new_system_inv [OF assms(1-3)])
next
  case (step y z)
  from core_step_finv [OF step(2,3) assms(3)] show ?case .
qed

lemmas run_inv = run_ginv [unfolded sys.ginv_def, THEN conjunct1]

lemma run_states:
  assumes "two_level_system lineSize llc l1 n lat network cores = Some h0" and "lat \<noteq> 0" and "1 < lineSize"
    and run: "(core_step lineSize procs n)\<^sup>*\<^sup>* h0 h"
  shows "j < n \<Longrightarrow> line_state h (j + 2) a = Some (sys.hst h (j + 2) a)" "line_state h 1 a = Some (sys.hst h 1 a)"
proof -
  have c: "sys.conf n lat (cfg_lines lineSize llc l1) (cfg_states lineSize llc l1) h"
    using run_inv [OF assms] by (simp add: sys.hinv_def)
  show "j < n \<Longrightarrow> line_state h (j + 2) a = Some (sys.hst h (j + 2) a)" by (rule line_state_hst [OF c]) simp
  show "line_state h 1 a = Some (sys.hst h 1 a)" by (rule line_state_hst [OF c]) simp
qed

text \<open>A small system of two cores, for the concrete runs below.\<close>

definition small_bank :: "u32 \<Rightarrow> u32 \<Rightarrow> u32 \<Rightarrow> bank_config" where
  "small_bank lines ways latency = \<lparr>bk_size = lines * 64, bk_ways = ways, bk_latency = latency\<rparr>"

definition small_system :: "u32 \<Rightarrow> lru SetAssocArray heap option" where
  "small_system ways = two_level_system 64 (small_bank (2 * ways) ways 10) (small_bank 1 1 3) 2 100 None (\<lambda>j. (of_nat j, False))"

text \<open>A store of core 0 to line 5.\<close>

lemma small_run:
  assumes "0 \<in> procs"
  shows "\<exists>h0 h. small_system 1 = Some h0 \<and> (core_step 64 procs 2)\<^sup>*\<^sup>* h0 h \<and> line_state h 2 5 = Some StM"
proof -
  have "(do { h0 \<leftarrow> small_system 1; (_, h) \<leftarrow> core_op False (precise_env (procMask 64 0)) 64 0 320 1000 h0; line_state h 2 5 }) = Some StM"
    by code_simp
  then obtain h0 h r where h: "small_system 1 = Some h0" "core_op False (precise_env (procMask 64 0)) 64 0 320 1000 h0 = Some (r, h)"
    "line_state h 2 5 = Some StM"
    by (auto simp: bind_eq_Some_conv)
  have "core_step 64 procs 2 h0 h" by (rule core_step.access [OF assms _ _ h(2)]) simp_all
  with h show ?thesis by blast
qed

text \<open>C1: In a program without approximable regions the coherence protocol keeps a line that a core may write out
  of every other core: in every state a two-level hierarchy of the configuration files can reach from its start
  by loads and stores of any number of processes on its cores, none of them at an approximable line, and by
  context switches, a line that is in state E or M in the cache of a core is invalid in the caches of all other
  cores. Each access starts at a cycle below 2^64 - 2^37. Runs in which some line is approximable are not
  covered.\<close>

theorem cores_swmr:
  assumes sys: "two_level_system lineSize llc l1 n lat network cores = Some h0" and "lat \<noteq> 0" and "1 < lineSize"
    and run: "(core_step lineSize procs n)\<^sup>*\<^sup>* h0 h" and "i < n" and "j < n" and "i \<noteq> j"
    and st: "line_state h (i + 2) a = Some StE \<or> line_state h (i + 2) a = Some StM"
  shows "line_state h (j + 2) a = Some StI"
proof -
  note I = run_inv [OF assms(1-4), unfolded sys.hinv_def, THEN conjunct2]
  note ls = run_states(1) [OF assms(1-4)]
  have "sys.hst h (i + 2) a \<in> {StE, StM}" using st ls [OF \<open>i < n\<close>] by auto
  from sys.Inv_swmr [OF I \<open>i < n\<close> \<open>j < n\<close> \<open>i \<noteq> j\<close> this [unfolded sys.hst_def]] show ?thesis
    using ls [OF \<open>j < n\<close>] by (simp add: sys.hst_def)
qed

theorem cores_swmr_witness:
  "\<exists>h0 h. small_system 1 = Some h0 \<and> (core_step 64 {0, 1} 2)\<^sup>*\<^sup>* h0 h \<and> line_state h 2 5 = Some StM \<and> line_state h 3 5 = Some StI"
proof -
  obtain h0 h where h: "small_system 1 = Some h0" "(core_step 64 {0, 1} 2)\<^sup>*\<^sup>* h0 h" "line_state h 2 5 = Some StM"
    using small_run [of "{0, 1}"] by auto
  have "line_state h (1 + 2) 5 = Some StI"
    by (rule cores_swmr [OF h(1) [unfolded small_system_def] _ _ h(2), of 0 1]) (use h(3) in simp_all)
  with h show ?thesis by (intro exI [of _ h0] exI [of _ h]) simp
qed

text \<open>C3: In a program without approximable regions the last level cache is inclusive and has at least the rights
  of its children: in every state reached by accesses of any number of processes, none of them at an
  approximable line, and by context switches, a line that is valid in the cache of a core is valid in the last
  level cache, and one that a core may write is in state E or M there, so that a writeback never finds its line
  missing. (With approximable lines it does not hold: the last level cache can lose a tag its children still
  hold.)\<close>

theorem llc_covers_cores:
  assumes sys: "two_level_system lineSize llc l1 n lat network cores = Some h0" and "lat \<noteq> 0" and "1 < lineSize"
    and run: "(core_step lineSize procs n)\<^sup>*\<^sup>* h0 h" and j: "j < n" and st: "line_state h (j + 2) a = Some s" and "s \<noteq> StI"
  shows "\<exists>t. line_state h 1 a = Some t \<and> t \<noteq> StI \<and> (s = StE \<or> s = StM \<longrightarrow> t = StE \<or> t = StM)"
proof -
  note I = run_inv [OF assms(1-4), unfolded sys.hinv_def, THEN conjunct2]
  note ls = run_states [OF assms(1-4)]
  have s: "vst (bst h) (sys.F h) (j + 2) a = s" using st ls(1) [OF j] by (simp add: sys.hst_def)
  obtain i where i: "sys.F h 1 a = Some i" "j \<in> shr (ent h i)" using sys.InvD(8) [OF I j, of a] s \<open>s \<noteq> StI\<close> by auto
  have b: "i < cfg_states lineSize llc l1 1" "sys.D h 1 i = a" using sys.InvD(1) [OF I _ i(1)] by simp_all
  have t: "line_state h 1 a = Some (bst h 1 i)" using ls(2) i(1) by (simp add: sys.hst_def vst_def)
  have "bst h 1 i \<noteq> StI" using sys.InvD(4) [OF I b(1)] i(2) by auto
  moreover have "bst h 1 i = StE \<or> bst h 1 i = StM" if "s = StE \<or> s = StM"
  proof -
    have "isExclusive (ent h i)"
    proof (rule ccontr)
      assume "\<not> isExclusive (ent h i)"
      from sys.InvD(7) [OF I b(1) i(2) this] b(2) s that show False by auto
    qed
    then show ?thesis by (rule sys.InvD(5) [OF I b(1)])
  qed
  ultimately show ?thesis using t by blast
qed

theorem llc_covers_cores_witness:
  "\<exists>h0 h t. small_system 1 = Some h0 \<and> (core_step 64 {0, 1} 2)\<^sup>*\<^sup>* h0 h \<and> line_state h 2 5 = Some StM \<and>
     line_state h 1 5 = Some t \<and> (t = StE \<or> t = StM)"
proof -
  obtain h0 h where h: "small_system 1 = Some h0" "(core_step 64 {0, 1} 2)\<^sup>*\<^sup>* h0 h" "line_state h 2 5 = Some StM"
    using small_run [of "{0, 1}"] by auto
  from llc_covers_cores [OF h(1) [unfolded small_system_def] _ _ h(2), of 0 5 StM] h(3)
  obtain t where "line_state h 1 5 = Some t" "t = StE \<or> t = StM" by auto
  with h show ?thesis by blast
qed

text \<open>C2: In a program without approximable regions a load or a store of a core always returns: from every
  state reached by accesses of any number of processes, none of them at an approximable line, and by context
  switches, an access at a cycle below 2^64 - 2^37 fails no assertion of the caches and controllers, and its
  response is not before the request. When all accesses of the run and this one are of the same process, the
  core's cache then holds the line, in state M after a store, so that also an access that hits in the filter is
  one the cache itself would have served without a miss; this second part leaves out the first line of the
  virtual address space, since a cleared filter entry holds its address.\<close>

theorem core_access_returns:
  assumes sys: "two_level_system lineSize llc l1 n lat network cores = Some h0" and "lat \<noteq> 0" and "1 < lineSize"
    and run: "(core_step lineSize procs n)\<^sup>*\<^sup>* h0 h" and p: "procIdx \<in> procs" and j: "j < n"
    and cyc: "unat cyc + 2 ^ 37 < 2 ^ 64"
  shows "\<exists>r h'. core_op isLoad (precise_env (procMask lineSize procIdx)) lineSize j a cyc h = Some (r, h') \<and> cyc \<le> r \<and>
    core_step lineSize procs n h h' \<and>
    (procs = {procIdx} \<and> drop_bit (ilog2 lineSize) a \<noteq> 0 \<longrightarrow>
      (\<exists>s. line_state h' (j + 2) (procMask lineSize procIdx OR drop_bit (ilog2 lineSize) a) = Some s \<and>
        (if isLoad then s \<noteq> StI else s = StM)))"
proof -
  let ?line = "procMask lineSize procIdx OR drop_bit (ilog2 lineSize) a"
  from any_op_run [OF run_ginv [OF assms(1-4)] j cyc, of isLoad lineSize procIdx a]
  obtain r h' where r: "core_op isLoad (precise_env (procMask lineSize procIdx)) lineSize j a cyc h = Some (r, h')" "cyc \<le> r" by blast
  have step: "core_step lineSize procs n h h'" by (rule core_step.access [OF p j cyc r(1)])
  have st: "line_state h' (j + 2) ?line = Some (sys.hst h' (j + 2) ?line)"
    by (rule run_states(1) [OF assms(1-3) rtranclp.rtrancl_into_rtrancl [OF run step] j])
  have "if isLoad then sys.hst h' (j + 2) ?line \<noteq> StI else sys.hst h' (j + 2) ?line = StM"
    if "procs = {procIdx}" "drop_bit (ilog2 lineSize) a \<noteq> 0"
    using core_op_run [OF run_finv [OF assms(1-3) run [unfolded that(1)]] assms(3) j cyc, of isLoad a] that(2) r(1)
    by (auto simp: Let_def)
  with r step st show ?thesis by blast
qed

theorem core_access_returns_witness:
  "\<exists>h0 h r h'. small_system 1 = Some h0 \<and> (core_step 64 {0} 2)\<^sup>*\<^sup>* h0 h \<and> line_state h 2 5 = Some StM \<and>
     core_op False (precise_env (procMask 64 0)) 64 1 320 2000 h = Some (r, h') \<and> line_state h' 3 5 = Some StM"
proof -
  obtain h0 h where h: "small_system 1 = Some h0" "(core_step 64 {0} 2)\<^sup>*\<^sup>* h0 h" "line_state h 2 5 = Some StM"
    using small_run [of "{0}"] by auto
  have lb: "drop_bit (ilog2 64) (320::u64) = 5" "procMask 64 0 OR 5 = 5" by code_simp+
  have p: "(0::u32) \<in> {0}" "(1::nat) < 2" "unat (2000::u64) + 2 ^ 37 < 2 ^ 64" by simp_all
  obtain r h' where "core_op False (precise_env (procMask 64 0)) 64 1 320 2000 h = Some (r, h')" "line_state h' 3 5 = Some StM"
    using core_access_returns [where isLoad = False and a = 320, OF h(1) [unfolded small_system_def] _ _ h(2) p, unfolded lb]
    by (auto simp: lb)
  with h show ?thesis by auto
qed

text \<open>C29: In a program without approximable regions an access that reaches the terminal cache of a core is
  bounded: in every state reached by accesses of any number of processes, none of them at an approximable line,
  and by context switches, a request for a line that is not approximable, without the flag PREFETCH and at a
  cycle below 2^64 - 2^37, returns; the response is not before the request and at most 2^33 cycles after it,
  and the state the request carries is unchanged.\<close>

theorem terminal_access_bound:
  assumes sys: "two_level_system lineSize llc l1 n lat network cores = Some h0" and "lat \<noteq> 0" and "1 < lineSize"
    and run: "(core_step lineSize procs n)\<^sup>*\<^sup>* h0 h" and j: "j < n" and fl: "fl AND flag_bits PREFETCH = 0"
    and cyc: "unat cyc + 2 ^ 37 < 2 ^ 64"
  shows "\<exists>r h'. access (\<lambda>_. precise_env pm) 3 (j + 2) (core_req isLoad line cyc src fl) h = Some (r, StI, h') \<and>
    cyc \<le> r \<and> unat r \<le> unat cyc + 2 ^ 33"
proof -
  note I = run_inv [OF assms(1-4)]
  let ?req = "core_req isLoad line cyc src fl"
  have "IsGet (req_type ?req)" "req_state ?req = initialState ?req" "\<not> is_flag PREFETCH ?req" "unat (req_cycle ?req) + 2 ^ 37 < 2 ^ 64"
    using fl cyc by (simp_all add: core_req_def is_flag_def)
  from sys.core_access_run [OF I j this, of pm 0] obtain r h' where r: "access (\<lambda>_. precise_env pm) 3 (j + 2) ?req h = Some (r, StI, h')"
    "near cyc r (2 ^ 33)"
    by (auto simp: numeral_3_eq_3 core_req_def simp del: access.simps)
  with near_le [OF r(2)] show ?thesis by (auto simp: near_def)
qed

theorem terminal_access_bound_witness:
  "\<exists>h0 h r h'. small_system 1 = Some h0 \<and> (core_step 64 {0, 1} 2)\<^sup>*\<^sup>* h0 h \<and>
     access (\<lambda>_. precise_env 0) 3 3 (core_req False 5 2000 0 0) h = Some (r, StI, h') \<and> 2000 \<le> r"
proof -
  obtain h0 h where h: "small_system 1 = Some h0" "(core_step 64 {0, 1} 2)\<^sup>*\<^sup>* h0 h" "line_state h 2 5 = Some StM"
    using small_run [of "{0, 1}"] by auto
  obtain r h' where "access (\<lambda>_. precise_env 0) 3 (1 + 2) (core_req False 5 2000 0 0) h = Some (r, StI, h')" "2000 \<le> r"
    using terminal_access_bound [where j = 1 and isLoad = False and line = 5 and cyc = 2000 and src = 0 and fl = 0 and pm = 0,
      OF h(1) [unfolded small_system_def] _ _ h(2)] by auto
  with h show ?thesis by auto
qed

subsection \<open>Filter hits outside these runs\<close>

text \<open>A load of the first line of the address space hits in a filter that was never filled.\<close>

lemma cleared_filter_hits:
  "(do { h0 \<leftarrow> small_system 1; (r, h) \<leftarrow> core_op True (precise_env (procMask 64 0)) 64 0 0 1000 h0; s \<leftarrow> line_state h 2 0; Some (r, s) }) =
    Some (1000, StI)"
  by code_simp

text \<open>With two processes a filter keeps a line its cache has lost: core 0 of process 0 stores to a
  line, an access of core 1 by process 1 makes the last level cache evict that line and invalidate it in
  the cache of core 0, but under the mask of process 1 the entry of the filter does not match, and the
  next store of core 0 hits in the filter, in the cycle it was sent, while the line is in state I.\<close>

lemma stale_filter_hit:
  "(do { h \<leftarrow> small_system 1;
         (_, h) \<leftarrow> core_op False (precise_env (procMask 64 0)) 64 0 320 1000 h;
         (_, h) \<leftarrow> core_op True (precise_env (procMask 64 1)) 64 1 64 2000 h;
         (r, h) \<leftarrow> core_op False (precise_env (procMask 64 0)) 64 0 320 3000 h;
         s \<leftarrow> line_state h 2 5;
         Some (r, s) }) = Some (3000, StI)"
  by code_simp

subsection \<open>Approximable lines\<close>

text \<open>Every line is approximable; the program's memory gives the lines the map \<open>m\<close>.\<close>

definition approx_env :: "u32 \<Rightarrow> lru SetAssocArray cache_env" where
  "approx_env m = \<lparr>ce_array = sa_lru_ops, ce_isApprox = (\<lambda>_. True), ce_hash = id_hash, ce_map = (\<lambda>_. Some m),
     ce_procMask = procMask 64 0\<rparr>"

text \<open>Core 0 stores to the line 5, which changes its map from 7 to 8, core 1 loads it, and core 0 stores again.\<close>

definition approx_sharing :: "u32 \<Rightarrow> (lru SetAssocArray heap \<times> lru SetAssocArray heap option) option" where
  "approx_sharing ways = do {
     h \<leftarrow> small_system ways;
     (_, h) \<leftarrow> core_store (approx_env 7) 64 0 320 1000 h;
     (_, h) \<leftarrow> core_load (approx_env 8) 64 1 320 2000 h;
     Some (h, map_option snd (core_store (approx_env 8) 64 0 320 3000 h))
   }"

text \<open>For an approximable line the guarantee of the protocol is lost: when the map of a line
  changes while it is cached, the last level cache forgets its tag, the next store fetches the line a
  second time under a new tag with an empty directory, and then one core has the line in state M while
  another still has it in state S (two cores over an LLC of two sets and two ways).\<close>

lemma approx_writer_and_reader:
  "(do { (_, h) \<leftarrow> approx_sharing 2; h \<leftarrow> h; Some (line_state h 2 5, line_state h 3 5) }) = Some (Some StM, Some StS)"
  by code_simp

text \<open>When the forgotten tag is the victim of the replacement instead (one way), the last level
  cache invalidates the sharers at the address the tag was given, which none of them has: the assertion
  of \<^verbatim>\<open>finishInvalidate\<close> fails and the simulation aborts, although both cores held the line in state S.\<close>

lemma approx_eviction_aborts:
  "(do { (h, h') \<leftarrow> approx_sharing 1; Some (line_state h 2 5, line_state h 3 5, h' = None) }) =
    Some (Some StS, Some StS, True)"
  by code_simp

subsection \<open>Races\<close>

text \<open>The race check of the controllers: given an access and the states of the requester's line when
  it was sent and now, it either fails, or skips a writeback of a line that is gone, or hands on an access
  that fits the present state: a writeback of a valid line, dirty only if the line did not change, and a
  store unless the line changed otherwise than from S to I.\<close>

theorem CheckForMESIRace_outcomes:
  assumes "CheckForMESIRace ty st initial = Some (skip, ty')"
  shows "(skip \<longrightarrow> IsPut ty \<and> st = StI) \<and> IsPut ty' = IsPut ty \<and> (ty' \<noteq> ty \<longrightarrow> ty = PUTX \<and> st = StS) \<and>
    (\<not> skip \<and> st \<noteq> initial \<longrightarrow> ty' = PUTS \<and> st = StS \<or> ty' = GETX \<and> initial = StS \<and> st = StI)"
  using assms by (cases ty) (auto simp: CheckForMESIRace_def IsGet_def IsPut_def split: if_splits)

theorem CheckForMESIRace_outcomes_witness:
  "CheckForMESIRace PUTX StS StM = Some (False, PUTS) \<and> IsPut PUTS = IsPut PUTX"
  using CheckForMESIRace_outcomes [of PUTX StS StM False PUTS] by (simp add: CheckForMESIRace_def)

end
