(* ===== verification/Barrier.thy ===== *)
theory Barrier imports Prelude begin

text \<open>
  The phase barrier of \<^verbatim>\<open>zsim/src/barrier.h\<close>, with join and leave and a limit on the threads that run at
  the same time.

  Each operation holds the lock of the scheduler up to the point where its thread may have to wait; that
  part is one atomic step here. A thread that waits is one in state \<open>WAITING\<close>, with futex word 1, and its
  operation returns when another thread has made it \<open>RUNNING\<close>. The random number generator is the
  argument \<open>rand\<close>, where \<open>rand r i\<close> is a number up to \<open>i\<close> and the next state; \<open>cb\<close> is the callback of the
  scheduler at the end of a phase, on its state. The field \<^verbatim>\<open>lastIdx\<close> is not initialised by the
  constructor, so the initial values are an argument.
\<close>

definition MAX_THREADS :: nat where
  "MAX_THREADS = 2048"

datatype BarState = OFFLINE | WAITING | RUNNING | LEFT

record ThreadSyncInfo =
  bs_state :: BarState
  futexWord :: u32
  lastIdx :: nat

record 'r Barrier =
  parallelThreads :: u32
  threadList :: "ThreadSyncInfo list"
  runList :: "nat list"
  runListSize :: nat
  curThreadIdx :: nat
  runningThreads :: u32
  leftThreads :: u32
  phaseCount :: u32
  bar_rnd :: 'r

definition Barrier_new :: "u32 \<Rightarrow> (nat \<Rightarrow> nat) \<Rightarrow> 'r \<Rightarrow> 'r Barrier" where
  "Barrier_new par idx rnd = \<lparr>parallelThreads = par,
     threadList = map (\<lambda>t. \<lparr>bs_state = OFFLINE, futexWord = 0, lastIdx = idx t\<rparr>) [0..<MAX_THREADS],
     runList = replicate MAX_THREADS 0, runListSize = 0, curThreadIdx = 0, runningThreads = 0, leftThreads = 0,
     phaseCount = 0, bar_rnd = rnd\<rparr>"

subsection \<open>Accesses to the lists\<close>

definition upd_thread :: "nat \<Rightarrow> (ThreadSyncInfo \<Rightarrow> ThreadSyncInfo) \<Rightarrow> 'r Barrier \<Rightarrow> 'r Barrier option" where
  "upd_thread tid f b = do {
     t \<leftarrow> read_at (threadList b) tid;
     Some (b\<lparr>threadList := (threadList b)[tid := f t]\<rparr>)
   }"

definition set_run :: "nat \<Rightarrow> nat \<Rightarrow> 'r Barrier \<Rightarrow> 'r Barrier option" where
  "set_run i tid b = do {
     l \<leftarrow> write_at (runList b) i tid;
     Some (b\<lparr>runList := l\<rparr>)
   }"

subsection \<open>checkRunList\<close>

function checkRunList :: "'r Barrier \<Rightarrow> 'r Barrier option" where
  "checkRunList b =
     (if runningThreads b < parallelThreads b \<and> curThreadIdx b < runListSize b then do {
        let idx = curThreadIdx b;
        wtid \<leftarrow> read_at (runList b) idx;
        t \<leftarrow> read_at (threadList b) wtid;
        (if bs_state t = WAITING then do {
           assert_that (futexWord t = 1);
           checkRunList (b\<lparr>curThreadIdx := Suc idx, runningThreads := runningThreads b + 1,
             threadList := (threadList b)[wtid := \<lparr>bs_state = RUNNING, futexWord = 0, lastIdx = idx\<rparr>]\<rparr>)
         } else checkRunList (b\<lparr>curThreadIdx := Suc idx\<rparr>))
      } else Some b)"
  by pat_completeness auto
termination by (relation "measure (\<lambda>b. runListSize b - curThreadIdx b)") auto

declare checkRunList.simps [simp del]

subsection \<open>checkEndPhase\<close>

text \<open>The pass over the run list that takes the threads that left offline; it returns the new size.\<close>

function offline_left :: "nat \<Rightarrow> nat \<Rightarrow> 'r Barrier \<Rightarrow> (nat \<times> 'r Barrier) option" where
  "offline_left idx newSize b =
     (if idx < newSize then do {
        wtid \<leftarrow> read_at (runList b) idx;
        t \<leftarrow> read_at (threadList b) wtid;
        (if bs_state t = LEFT then do {
           b \<leftarrow> upd_thread wtid (\<lambda>t. t\<lparr>bs_state := OFFLINE\<rparr>) b;
           stid \<leftarrow> read_at (runList b) (newSize - 1);
           b \<leftarrow> set_run idx stid b;
           b \<leftarrow> upd_thread stid (\<lambda>t. t\<lparr>lastIdx := idx\<rparr>) b;
           offline_left idx (newSize - 1) b
         } else offline_left (Suc idx) newSize b)
      } else Some (newSize, b))"
  by pat_completeness auto
termination by (relation "measure (\<lambda>(idx, newSize, b). newSize - idx)") auto

declare offline_left.simps [simp del]

definition cleanup :: "'r Barrier \<Rightarrow> 'r Barrier option" where
  "cleanup b = do {
     assert_that (runListSize b > 0);
     (newSize, b) \<leftarrow> offline_left 0 (runListSize b) b;
     assert_that (of_nat (runListSize b - newSize) = leftThreads b);
     Some (b\<lparr>leftThreads := 0, runListSize := newSize\<rparr>)
   }"

text \<open>The Fisher-Yates shuffle, from index \<open>i\<close> down to 1.\<close>

fun shuffle :: "('r \<Rightarrow> nat \<Rightarrow> nat \<times> 'r) \<Rightarrow> nat \<Rightarrow> 'r Barrier \<Rightarrow> 'r Barrier option" where
  "shuffle rand 0 b = Some b"
| "shuffle rand (Suc i) b = do {
     let (j, r) = rand (bar_rnd b) (Suc i);
     itid \<leftarrow> read_at (runList b) (Suc i);
     jtid \<leftarrow> read_at (runList b) j;
     b \<leftarrow> set_run (Suc i) jtid (b\<lparr>bar_rnd := r\<rparr>);
     b \<leftarrow> set_run j itid b;
     b \<leftarrow> upd_thread itid (\<lambda>t. t\<lparr>lastIdx := j\<rparr>) b;
     b \<leftarrow> upd_thread jtid (\<lambda>t. t\<lparr>lastIdx := Suc i\<rparr>) b;
     shuffle rand i b
   }"

definition endPhase :: "('r \<Rightarrow> nat \<Rightarrow> nat \<times> 'r) \<Rightarrow> 'r Barrier \<Rightarrow> 'r Barrier option" where
  "endPhase rand b = do {
     let b = b\<lparr>curThreadIdx := 0\<rparr>;
     let clean = (phaseCount b AND (32 - 1) = 0);
     let b = b\<lparr>phaseCount := phaseCount b + 1\<rparr>;
     b \<leftarrow> (if clean then cleanup b else Some b);
     (if parallelThreads b < of_nat (runListSize b) then shuffle rand (runListSize b - 1) b else Some b)
   }"

definition checkEndPhase :: "('r \<Rightarrow> nat \<Rightarrow> nat \<times> 'r) \<Rightarrow> ('s \<Rightarrow> 's option) \<Rightarrow> 'r Barrier \<times> 's \<Rightarrow> ('r Barrier \<times> 's) option" where
  "checkEndPhase rand cb = (\<lambda>(b, s).
     (if curThreadIdx b = runListSize b \<and> runningThreads b = 0 then
        (if leftThreads b = of_nat (runListSize b) then Some (b, s)
         else do {
           s \<leftarrow> cb s;
           b \<leftarrow> endPhase rand b;
           Some (b, s)
         })
      else Some (b, s)))"

definition tryWakeNext :: "('r \<Rightarrow> nat \<Rightarrow> nat \<times> 'r) \<Rightarrow> ('s \<Rightarrow> 's option) \<Rightarrow> 'r Barrier \<times> 's \<Rightarrow> ('r Barrier \<times> 's) option" where
  "tryWakeNext rand cb = (\<lambda>(b, s). do {
     b \<leftarrow> checkRunList b;
     (b, s) \<leftarrow> checkEndPhase rand cb (b, s);
     b \<leftarrow> checkRunList b;
     Some (b, s)
   })"

subsection \<open>join, leave and sync\<close>

text \<open>The swap of a thread that left and joins again with the last thread that had its turn.\<close>

definition reschedule :: "nat \<Rightarrow> 'r Barrier \<Rightarrow> 'r Barrier option" where
  "reschedule tid b = do {
     t \<leftarrow> read_at (threadList b) tid;
     let last = lastIdx t;
     (if curThreadIdx b > last then do {
        let cur = curThreadIdx b - 1;
        me \<leftarrow> read_at (runList b) last;
        assert_that (tid = me);
        otherTid \<leftarrow> read_at (runList b) cur;
        b \<leftarrow> set_run last otherTid (b\<lparr>curThreadIdx := cur\<rparr>);
        b \<leftarrow> set_run cur tid b;
        b \<leftarrow> upd_thread otherTid (\<lambda>t. t\<lparr>lastIdx := last\<rparr>) b;
        upd_thread tid (\<lambda>t. t\<lparr>lastIdx := cur\<rparr>) b
      } else Some b)
   }"

definition bar_join :: "('r \<Rightarrow> nat \<Rightarrow> nat \<times> 'r) \<Rightarrow> ('s \<Rightarrow> 's option) \<Rightarrow> nat \<Rightarrow> 'r Barrier \<times> 's \<Rightarrow> ('r Barrier \<times> 's) option" where
  "bar_join rand cb tid = (\<lambda>(b, s). do {
     t \<leftarrow> read_at (threadList b) tid;
     assert_that (bs_state t = LEFT \<or> bs_state t = OFFLINE);
     b \<leftarrow> (if bs_state t = OFFLINE then do {
             b \<leftarrow> set_run (runListSize b) tid b;
             Some (b\<lparr>runListSize := Suc (runListSize b)\<rparr>)
           } else reschedule tid (b\<lparr>leftThreads := leftThreads b - 1\<rparr>));
     b \<leftarrow> upd_thread tid (\<lambda>t. t\<lparr>bs_state := WAITING, futexWord := 1\<rparr>) b;
     tryWakeNext rand cb (b, s)
   })"

definition bar_leave :: "('r \<Rightarrow> nat \<Rightarrow> nat \<times> 'r) \<Rightarrow> ('s \<Rightarrow> 's option) \<Rightarrow> nat \<Rightarrow> 'r Barrier \<times> 's \<Rightarrow> ('r Barrier \<times> 's) option" where
  "bar_leave rand cb tid = (\<lambda>(b, s). do {
     t \<leftarrow> read_at (threadList b) tid;
     (if bs_state t = RUNNING then do {
        b \<leftarrow> upd_thread tid (\<lambda>t. t\<lparr>bs_state := LEFT\<rparr>) b;
        tryWakeNext rand cb (b\<lparr>leftThreads := leftThreads b + 1, runningThreads := runningThreads b - 1\<rparr>, s)
      } else do {
        assert_that (bs_state t = WAITING);
        b \<leftarrow> upd_thread tid (\<lambda>t. t\<lparr>bs_state := LEFT\<rparr>) b;
        Some (b\<lparr>leftThreads := leftThreads b + 1\<rparr>, s)
      })
   })"

definition bar_sync :: "('r \<Rightarrow> nat \<Rightarrow> nat \<times> 'r) \<Rightarrow> ('s \<Rightarrow> 's option) \<Rightarrow> nat \<Rightarrow> 'r Barrier \<times> 's \<Rightarrow> ('r Barrier \<times> 's) option" where
  "bar_sync rand cb tid = (\<lambda>(b, s). do {
     t \<leftarrow> read_at (threadList b) tid;
     assert_that (bs_state t = RUNNING);
     b \<leftarrow> upd_thread tid (\<lambda>t. t\<lparr>futexWord := 1, bs_state := WAITING\<rparr>) b;
     tryWakeNext rand cb (b\<lparr>runningThreads := runningThreads b - 1\<rparr>, s)
   })"

end
