(* ===== verification/Barrier_Contract.thy ===== *)
theory Barrier_Contract imports Barrier begin

text \<open>
  What the phase barrier promises: no operation fails, the limit on running threads holds, threads are
  never all stopped while one waits, and a phase ends exactly when every thread has had its turn.
\<close>

declare One_nat_def [simp del]

subsection \<open>The view of a barrier\<close>

text \<open>The run list, the state of a thread and the last index of a thread.\<close>

definition lst :: "'r Barrier \<Rightarrow> nat list" where
  "lst b = take (runListSize b) (runList b)"

definition thS :: "'r Barrier \<Rightarrow> nat \<Rightarrow> BarState" where
  "thS b t = bs_state (threadList b ! t)"

definition thX :: "'r Barrier \<Rightarrow> nat \<Rightarrow> nat" where
  "thX b t = lastIdx (threadList b ! t)"

definition num :: "(nat \<Rightarrow> BarState) \<Rightarrow> BarState \<Rightarrow> nat list \<Rightarrow> nat" where
  "num S s L = card {t \<in> set L. S t = s}"

definition sized :: "'r Barrier \<Rightarrow> bool" where
  "sized b \<longleftrightarrow> length (threadList b) = MAX_THREADS \<and> length (runList b) = MAX_THREADS \<and> runListSize b \<le> MAX_THREADS \<and>
     (\<forall>t<MAX_THREADS. thS b t = WAITING \<longrightarrow> futexWord (threadList b ! t) = 1)"

text \<open>
  Every thread that is not offline is in the run list once. The threads from index \<open>c\<close> on have not had
  their turn in this phase, so they do not run, and the last index of all other threads, and of those that
  left, is their position.
\<close>

definition good :: "nat list \<Rightarrow> (nat \<Rightarrow> BarState) \<Rightarrow> (nat \<Rightarrow> nat) \<Rightarrow> nat \<Rightarrow> bool" where
  "good L S X c \<longleftrightarrow> distinct L \<and> (\<forall>t. t \<in> set L \<longleftrightarrow> t < MAX_THREADS \<and> S t \<noteq> OFFLINE) \<and> c \<le> length L \<and>
     (\<forall>i<length L. X (L ! i) = i \<or> c \<le> i \<and> S (L ! i) = WAITING) \<and> (\<forall>i<length L. c \<le> i \<longrightarrow> S (L ! i) \<noteq> RUNNING)"

definition bar_inv :: "'r Barrier \<Rightarrow> bool" where
  "bar_inv b \<longleftrightarrow> sized b \<and> good (lst b) (thS b) (thX b) (curThreadIdx b) \<and>
     runningThreads b = of_nat (num (thS b) RUNNING (lst b)) \<and> leftThreads b = of_nat (num (thS b) LEFT (lst b)) \<and>
     num (thS b) RUNNING (lst b) \<le> unat (parallelThreads b)"

text \<open>Unless all threads left, one is running.\<close>

definition alive :: "'r Barrier \<Rightarrow> bool" where
  "alive b \<longleftrightarrow> num (thS b) RUNNING (lst b) = 0 \<longrightarrow> (\<forall>t\<in>set (lst b). thS b t = LEFT)"

lemma goodD:
  assumes "good L S X c"
  shows "distinct L" "t \<in> set L \<longleftrightarrow> t < MAX_THREADS \<and> S t \<noteq> OFFLINE" "c \<le> length L"
    "i < length L \<Longrightarrow> X (L ! i) = i \<or> c \<le> i \<and> S (L ! i) = WAITING" "i < length L \<Longrightarrow> c \<le> i \<Longrightarrow> S (L ! i) \<noteq> RUNNING"
    "i < length L \<Longrightarrow> L ! i < MAX_THREADS"
  using assms nth_mem [of i L] by (auto simp: good_def)

lemma good_length: "good L S X c \<Longrightarrow> length L \<le> MAX_THREADS"
proof -
  assume g: "good L S X c"
  have "set L \<subseteq> {..<MAX_THREADS}" using goodD(2) [OF g] by auto
  from card_mono [OF _ this] show ?thesis using distinct_card [OF goodD(1) [OF g]] by simp
qed

subsection \<open>Counting\<close>

lemma num_le: "num S s L \<le> length L"
proof -
  have "num S s L \<le> card (set L)" unfolding num_def by (rule card_mono) auto
  with card_length [of L] show ?thesis by simp
qed

lemma num_set: "w \<in> set L \<Longrightarrow> S w \<noteq> s \<Longrightarrow> num (S(w := s)) s L = Suc (num S s L)"
proof -
  assume "w \<in> set L" "S w \<noteq> s"
  then have "{t \<in> set L. (S(w := s)) t = s} = insert w {t \<in> set L. S t = s}" "w \<notin> {t \<in> set L. S t = s}" by auto
  then show ?thesis by (simp add: num_def)
qed

lemma num_unset: "w \<in> set L \<Longrightarrow> S w = s \<Longrightarrow> s' \<noteq> s \<Longrightarrow> Suc (num (S(w := s')) s L) = num S s L"
proof -
  assume a: "w \<in> set L" "S w = s" "s' \<noteq> s"
  then have "{t \<in> set L. S t = s} = insert w {t \<in> set L. (S(w := s')) t = s}" "w \<notin> {t \<in> set L. (S(w := s')) t = s}" by auto
  then show ?thesis by (simp add: num_def)
qed

lemma num_other: "S w \<noteq> s \<Longrightarrow> s' \<noteq> s \<Longrightarrow> num (S(w := s')) s L = num S s L"
  unfolding num_def by (rule arg_cong [where f = card]) auto

lemma num_cong: "set L = set M \<Longrightarrow> num S s L = num S s M"
  by (simp add: num_def)

lemma num_0: "num S s L = 0 \<longleftrightarrow> (\<forall>t\<in>set L. S t \<noteq> s)"
  by (auto simp: num_def)

lemma num_all: "distinct L \<Longrightarrow> num S s L = length L \<longleftrightarrow> (\<forall>t\<in>set L. S t = s)"
proof -
  assume "distinct L"
  then have "num S s L = length L \<longleftrightarrow> card {t \<in> set L. S t = s} = card (set L)" by (simp add: num_def distinct_card)
  also have "\<dots> \<longleftrightarrow> {t \<in> set L. S t = s} = set L"
    using card_subset_eq [of "set L" "{t \<in> set L. S t = s}"] by auto
  finally show ?thesis by auto
qed

lemma unat_count: "n \<le> MAX_THREADS \<Longrightarrow> unat (of_nat n :: u32) = n"
  by (simp add: unsigned_of_nat take_bit_nat_eq_self MAX_THREADS_def)

lemma count_inj: "n \<le> MAX_THREADS \<Longrightarrow> m \<le> MAX_THREADS \<Longrightarrow> (of_nat n :: u32) = of_nat m \<longleftrightarrow> n = m"
  by (metis unat_count)

lemma bar_invD:
  assumes "bar_inv b"
  shows "sized b" "good (lst b) (thS b) (thX b) (curThreadIdx b)" "runningThreads b = of_nat (num (thS b) RUNNING (lst b))"
    "leftThreads b = of_nat (num (thS b) LEFT (lst b))" "unat (runningThreads b) = num (thS b) RUNNING (lst b)"
    "unat (leftThreads b) = num (thS b) LEFT (lst b)" "num (thS b) RUNNING (lst b) \<le> unat (parallelThreads b)"
    "length (lst b) = runListSize b"
proof -
  show *: "sized b" "good (lst b) (thS b) (thX b) (curThreadIdx b)" "runningThreads b = of_nat (num (thS b) RUNNING (lst b))"
    "leftThreads b = of_nat (num (thS b) LEFT (lst b))" "num (thS b) RUNNING (lst b) \<le> unat (parallelThreads b)"
    using assms by (simp_all add: bar_inv_def)
  have "num (thS b) s (lst b) \<le> MAX_THREADS" for s
    using num_le [of "thS b" s "lst b"] good_length [OF *(2)] by linarith
  with *(3,4) show "unat (runningThreads b) = num (thS b) RUNNING (lst b)" "unat (leftThreads b) = num (thS b) LEFT (lst b)"
    by (simp_all add: unat_count)
  show "length (lst b) = runListSize b" using *(1) by (simp add: lst_def sized_def)
qed

subsection \<open>Waking threads\<close>

lemma lst_nth: "i < runListSize b \<Longrightarrow> lst b ! i = runList b ! i"
  by (simp add: lst_def)

lemma good_wake:
  assumes g: "good L S X c" and c: "c < length L" and w: "S (L ! c) = WAITING"
  shows "good L (S(L ! c := RUNNING)) (X(L ! c := c)) (Suc c)"
proof -
  have eq: "L ! i = L ! c \<longleftrightarrow> i = c" if "i < length L" for i
    using goodD(1) [OF g] that c by (simp add: nth_eq_iff_index_eq)
  show ?thesis unfolding good_def
  proof (intro conjI allI impI)
    show "t \<in> set L \<longleftrightarrow> t < MAX_THREADS \<and> (S(L ! c := RUNNING)) t \<noteq> OFFLINE" for t
      using goodD(2) [OF g, of t] w by auto
    fix i
    assume i: "i < length L"
    show "(X(L ! c := c)) (L ! i) = i \<or> Suc c \<le> i \<and> (S(L ! c := RUNNING)) (L ! i) = WAITING"
      using goodD(4) [OF g i] eq [OF i] by auto
    show "(S(L ! c := RUNNING)) (L ! i) \<noteq> RUNNING" if "Suc c \<le> i" using goodD(5) [OF g i] that eq [OF i] by auto
  qed (use goodD(1) [OF g] c in auto)
qed

lemma good_skip:
  assumes g: "good L S X c" and c: "c < length L" and w: "S (L ! c) \<noteq> WAITING"
  shows "good L S X (Suc c)"
  unfolding good_def
proof (intro conjI allI impI)
  fix i
  assume i: "i < length L"
  show "X (L ! i) = i \<or> Suc c \<le> i \<and> S (L ! i) = WAITING" using goodD(4) [OF g i] w by (cases "i = c") auto
qed (use goodD [OF g] c in auto)

text \<open>\<open>b'\<close> is \<open>b\<close> after some threads that waited from its current index on were woken.\<close>

definition woken :: "'r Barrier \<Rightarrow> 'r Barrier \<Rightarrow> bool" where
  "woken b b' \<longleftrightarrow> lst b' = lst b \<and> runListSize b' = runListSize b \<and> parallelThreads b' = parallelThreads b \<and> phaseCount b' = phaseCount b \<and>
     bar_rnd b' = bar_rnd b \<and> curThreadIdx b \<le> curThreadIdx b' \<and>
     (\<forall>i<runListSize b. if curThreadIdx b \<le> i \<and> i < curThreadIdx b' \<and> thS b (lst b ! i) = WAITING
        then thS b' (lst b ! i) = RUNNING else thS b' (lst b ! i) = thS b (lst b ! i))"

lemma woken_refl: "woken b b"
  by (simp add: woken_def)

lemma checkRunList_run:
  assumes "bar_inv b"
  shows "\<exists>b'. checkRunList b = Some b' \<and> bar_inv b' \<and> woken b b' \<and>
    (runningThreads b' = parallelThreads b' \<or> curThreadIdx b' = runListSize b')"
  using assms
proof (induction b rule: checkRunList.induct)
  case (1 b)
  note I = bar_invD [OF 1(3)]
  let ?c = "curThreadIdx b"
  show ?case
  proof (cases "runningThreads b < parallelThreads b \<and> ?c < runListSize b")
    case False
    then have "checkRunList b = Some b" by (simp only: checkRunList.simps [of b] if_False)
    moreover have "runningThreads b = parallelThreads b \<or> ?c = runListSize b"
    proof (cases "?c < runListSize b")
      case True
      with False have "\<not> unat (runningThreads b) < unat (parallelThreads b)" by (simp add: word_less_nat_alt)
      with I(5,7) have "unat (runningThreads b) = unat (parallelThreads b)" by linarith
      then have "runningThreads b = parallelThreads b" by (rule word_unat_eq_iff [THEN iffD2])
      then show ?thesis ..
    next
      case False
      with goodD(3) [OF I(2)] I(8) show ?thesis by simp
    qed
    ultimately show ?thesis using 1(3) woken_refl by blast
  next
    case True
    then have c: "?c < length (lst b)" and run: "runningThreads b < parallelThreads b" using I(8) by simp_all
    let ?w = "lst b ! ?c"
    have w: "?w < MAX_THREADS" by (rule goodD(6) [OF I(2) c])
    have rd: "read_at (runList b) ?c = Some ?w" "read_at (threadList b) ?w = Some (threadList b ! ?w)"
      using True I(1) w lst_nth [of ?c b] by (auto simp: sized_def)
    note rd' = True rd
    show ?thesis
    proof (cases "thS b ?w = WAITING")
      case W: True
      let ?b = "b\<lparr>curThreadIdx := Suc ?c, runningThreads := runningThreads b + 1,
        threadList := (threadList b)[?w := \<lparr>bs_state = RUNNING, futexWord = 0, lastIdx = ?c\<rparr>]\<rparr>"
      have fw: "futexWord (threadList b ! ?w) = 1" using I(1) w W by (simp add: sized_def)
      have view: "lst ?b = lst b" "thS ?b = (thS b)(?w := RUNNING)" "thX ?b = (thX b)(?w := ?c)"
        using w I(1) by (auto simp: lst_def thS_def thX_def sized_def nth_list_update fun_eq_iff)
      have sz: "sized ?b" using I(1) w W by (auto simp: sized_def thS_def nth_list_update)
      have mem: "?w \<in> set (lst b)" using c by simp
      have n: "num (thS ?b) RUNNING (lst b) = Suc (num (thS b) RUNNING (lst b))"
        unfolding view by (rule num_set [OF mem]) (simp add: W)
      have "Suc (num (thS b) RUNNING (lst b)) \<le> unat (parallelThreads b)" using run I(5) by (simp add: word_less_nat_alt)
      then have inv: "bar_inv ?b"
        using sz n good_wake [OF I(2) c W] I(3,4) num_other [of "thS b" ?w LEFT RUNNING "lst b"] W
        unfolding bar_inv_def view by simp
      have eq: "checkRunList b = checkRunList ?b"
        using rd' W fw by (subst checkRunList.simps) (simp add: thS_def Let_def del: read_at_Some)
      have st: "bs_state (threadList b ! ?w) = WAITING" using W by (simp add: thS_def)
      obtain b' where b': "checkRunList ?b = Some b'" "bar_inv b'" "woken ?b b'"
        "runningThreads b' = parallelThreads b' \<or> curThreadIdx b' = runListSize b'"
        using 1(1) [OF True refl rd(1) rd(2) st _ inv] fw by auto
      have "woken b b'" unfolding woken_def
      proof (intro conjI allI impI)
        fix i
        assume i: "i < runListSize b"
        have d: "lst b ! i = ?w \<longleftrightarrow> i = ?c" using goodD(1) [OF I(2)] i c I(8) by (simp add: nth_eq_iff_index_eq)
        show "if ?c \<le> i \<and> i < curThreadIdx b' \<and> thS b (lst b ! i) = WAITING then thS b' (lst b ! i) = RUNNING
          else thS b' (lst b ! i) = thS b (lst b ! i)"
          using b'(3) i d W unfolding woken_def view by (cases "i = ?c") (auto split: if_splits)
      qed (use b'(3) view in \<open>auto simp: woken_def\<close>)
      with eq b' show ?thesis by auto
    next
      case W: False
      let ?b = "b\<lparr>curThreadIdx := Suc ?c\<rparr>"
      have view: "lst ?b = lst b" "thS ?b = thS b" "thX ?b = thX b"
        by (auto simp: lst_def thS_def thX_def fun_eq_iff)
      have sz: "sized ?b" using I(1) by (simp add: sized_def thS_def)
      have inv: "bar_inv ?b"
        using I(1,3,4,7) good_skip [OF I(2) c W] sz unfolding bar_inv_def view by simp
      have eq: "checkRunList b = checkRunList ?b"
        using rd' W by (subst checkRunList.simps) (simp add: thS_def Let_def del: read_at_Some)
      have st: "bs_state (threadList b ! ?w) \<noteq> WAITING" using W by (simp add: thS_def)
      obtain b' where b': "checkRunList ?b = Some b'" "bar_inv b'" "woken ?b b'"
        "runningThreads b' = parallelThreads b' \<or> curThreadIdx b' = runListSize b'"
        using 1(2) [OF True refl rd(1) rd(2) st inv] by auto
      have "woken b b'" unfolding woken_def
      proof (intro conjI allI impI)
        fix i
        assume i: "i < runListSize b"
        show "if ?c \<le> i \<and> i < curThreadIdx b' \<and> thS b (lst b ! i) = WAITING then thS b' (lst b ! i) = RUNNING
          else thS b' (lst b ! i) = thS b (lst b ! i)"
          using b'(3) i W unfolding woken_def view by (cases "i = ?c") (auto split: if_splits)
      qed (use b'(3) view in \<open>auto simp: woken_def\<close>)
      with eq b' show ?thesis by auto
    qed
  qed
qed


subsection \<open>The end of a phase\<close>

lemma upd_thread_run:
  assumes "length (threadList b) = MAX_THREADS" and "t < MAX_THREADS"
  shows "upd_thread t f b = Some (b\<lparr>threadList := (threadList b)[t := f (threadList b ! t)]\<rparr>)"
  using assms by (simp add: upd_thread_def read_at_def)

lemma set_run_run:
  assumes "length (runList b) = MAX_THREADS" and "i < MAX_THREADS"
  shows "set_run i t b = Some (b\<lparr>runList := (runList b)[i := t]\<rparr>)"
  using assms by (simp add: set_run_def write_at_def)

text \<open>What the pass leaves: \<open>b'\<close> has the threads of the first \<open>m\<close> entries that did not leave.\<close>

definition same_but :: "'r Barrier \<Rightarrow> 'r Barrier \<Rightarrow> bool" where
  "same_but b b' \<longleftrightarrow> parallelThreads b' = parallelThreads b \<and> runListSize b' = runListSize b \<and> curThreadIdx b' = curThreadIdx b \<and>
     runningThreads b' = runningThreads b \<and> leftThreads b' = leftThreads b \<and> phaseCount b' = phaseCount b \<and>
     length (threadList b') = length (threadList b) \<and> length (runList b') = length (runList b) \<and>
     (\<forall>t. futexWord (threadList b' ! t) = futexWord (threadList b ! t))"

lemma same_but_refl [simp]: "same_but b b"
  by (simp add: same_but_def)

lemma same_but_trans: "same_but b b' \<Longrightarrow> same_but b' b'' \<Longrightarrow> same_but b b''"
  by (simp add: same_but_def)

lemma take_nth_in: "i < m \<Longrightarrow> m \<le> length xs \<Longrightarrow> xs ! i \<in> set (take m xs)"
  using nth_mem [of i "take m xs"] by simp

lemma offline_left_run:
  assumes "length (threadList b) = MAX_THREADS" and "length (runList b) = MAX_THREADS" and "m \<le> MAX_THREADS" and "idx \<le> m"
    and "distinct (take m (runList b))" and "set (take m (runList b)) \<subseteq> {..<MAX_THREADS}"
    and "\<forall>i<m. thX b (runList b ! i) = i" and "\<forall>i<idx. thS b (runList b ! i) \<noteq> LEFT"
  shows "\<exists>m' b'. offline_left idx m b = Some (m', b') \<and> same_but b b' \<and> bar_rnd b' = bar_rnd b \<and> m' \<le> m \<and>
    distinct (take m' (runList b')) \<and> set (take m' (runList b')) = {t \<in> set (take m (runList b)). thS b t \<noteq> LEFT} \<and>
    (\<forall>i<m'. thX b' (runList b' ! i) = i) \<and>
    (\<forall>t. thS b' t = (if t \<in> set (take m (runList b)) \<and> thS b t = LEFT then OFFLINE else thS b t))"
  using assms
proof (induction idx m b rule: offline_left.induct)
  case (1 idx m b)
  let ?L = "take m (runList b)"
  note len = 1(3,4,5)
  show ?case
  proof (cases "idx < m")
    case False
    with 1(6) have idx: "idx = m" by simp
    have no: "thS b t \<noteq> LEFT" if "t \<in> set ?L" for t
      using that 1(10) len by (auto simp: idx in_set_conv_nth)
    have "offline_left idx m b = Some (m, b)" using False by (simp only: offline_left.simps [of idx m b] if_False)
    with no 1(7,9) show ?thesis by (intro exI [of _ m] exI [of _ b]) auto
  next
    case True
    let ?w = "runList b ! idx" and ?s = "runList b ! (m - 1)"
    have wL: "?w \<in> set ?L" and sL: "?s \<in> set ?L" using True len take_nth_in [of idx m "runList b"] take_nth_in [of "m - 1" m "runList b"] by simp_all
    then have w: "?w < MAX_THREADS" and s: "?s < MAX_THREADS" using 1(8) by auto
    have rd: "read_at (runList b) idx = Some ?w" "read_at (threadList b) ?w = Some (threadList b ! ?w)"
      using True len w by (auto simp: read_at_def)
    show ?thesis
    proof (cases "thS b ?w = LEFT")
      case False
      then have st: "bs_state (threadList b ! ?w) \<noteq> LEFT" by (simp add: thS_def)
      have eq: "offline_left idx m b = offline_left (Suc idx) m b"
        using True rd st by (subst offline_left.simps) (simp del: read_at_Some)
      have "\<forall>i<Suc idx. thS b (runList b ! i) \<noteq> LEFT" using 1(10) False by (auto simp: less_Suc_eq)
      from 1(2) [OF True rd(1) rd(2) st len _ 1(7-9) this] True show ?thesis unfolding eq by simp
    next
      case W: True
      then have st: "bs_state (threadList b ! ?w) = LEFT" by (simp add: thS_def)
      let ?b1 = "b\<lparr>threadList := (threadList b)[?w := (threadList b ! ?w)\<lparr>bs_state := OFFLINE\<rparr>]\<rparr>"
      let ?b2 = "?b1\<lparr>runList := (runList b)[idx := ?s]\<rparr>"
      let ?b3 = "?b2\<lparr>threadList := (threadList ?b2)[?s := (threadList ?b2 ! ?s)\<lparr>lastIdx := idx\<rparr>]\<rparr>"
      have m: "m - 1 < MAX_THREADS" "idx < MAX_THREADS" using True len by auto
      have r1: "upd_thread ?w (\<lambda>t. t\<lparr>bs_state := OFFLINE\<rparr>) b = Some ?b1" by (rule upd_thread_run [OF len(1) w])
      have r2: "read_at (runList ?b1) (m - 1) = Some ?s" using m len by (simp add: read_at_def)
      have r3: "set_run idx ?s ?b1 = Some ?b2" using set_run_run [of ?b1 idx ?s] m len by simp
      have r4: "upd_thread ?s (\<lambda>t. t\<lparr>lastIdx := idx\<rparr>) ?b2 = Some ?b3" using upd_thread_run [of ?b2 ?s] len s by simp
      have eq: "offline_left idx m b = offline_left idx (m - 1) ?b3"
        using True rd st r1 r2 r3 r4 by (subst offline_left.simps) (simp del: read_at_Some)
      have S3: "thS ?b3 = (thS b)(?w := OFFLINE)"
        using w s len by (auto simp: thS_def nth_list_update fun_eq_iff)
      have X3: "thX ?b3 = (thX b)(?s := idx)"
        using w s len by (auto simp: thX_def nth_list_update fun_eq_iff)
      have same: "same_but b ?b3" using w s len by (auto simp: same_but_def nth_list_update)
      have inj: "runList b ! i = runList b ! k \<longleftrightarrow> i = k" if "i < m" "k < m" for i k
        using nth_eq_iff_index_eq [OF 1(7), of i k] that len by simp
      have L3: "take (m - 1) (runList ?b3) = (take (m - 1) (runList b))[idx := ?s]" by (simp add: take_update_swap)
      have Lm: "?L = take (m - 1) (runList b) @ [?s]" using True len take_Suc_conv_app_nth [of "m - 1" "runList b"] by simp
      have set3: "set (take (m - 1) (runList ?b3)) = set ?L - {?w}"
      proof (intro set_eqI iffI)
        fix t
        assume "t \<in> set (take (m - 1) (runList ?b3))"
        then obtain i where i: "i < m - 1" "t = (if i = idx then ?s else runList b ! i)"
          using len True by (auto simp: in_set_conv_nth nth_list_update)
        with inj [of i idx] inj [of "m - 1" idx] True len take_nth_in [of i m "runList b"] sL show "t \<in> set ?L - {?w}"
          by (cases "i = idx") auto
      next
        fix t
        assume t: "t \<in> set ?L - {?w}"
        then have "t \<in> set ?L" by simp
        then obtain i where i: "i < m" "t = runList b ! i" using len by (auto simp: in_set_conv_nth)
        with t have "i \<noteq> idx" by auto
        show "t \<in> set (take (m - 1) (runList ?b3))"
        proof (cases "i = m - 1")
          case True
          with i \<open>i \<noteq> idx\<close> have "t = (take (m - 1) (runList ?b3)) ! idx" "idx < length (take (m - 1) (runList ?b3))"
            using \<open>idx < m\<close> len by (auto simp: nth_list_update)
          then show ?thesis using nth_mem by metis
        next
          case False
          with i \<open>i \<noteq> idx\<close> have "t = (take (m - 1) (runList ?b3)) ! i" "i < length (take (m - 1) (runList ?b3))"
            using \<open>idx < m\<close> len by (auto simp: nth_list_update)
          then show ?thesis using nth_mem by metis
        qed
      qed
      have "distinct (take (m - 1) (runList b))" "?s \<notin> set (take (m - 1) (runList b))" using 1(7) unfolding Lm by simp_all
      then have dist3: "distinct (take (m - 1) (runList ?b3))" unfolding L3 by (intro distinct_list_update) auto
      have p: "length (threadList ?b3) = MAX_THREADS" "length (runList ?b3) = MAX_THREADS" "m - 1 \<le> MAX_THREADS" "idx \<le> m - 1"
        "set (take (m - 1) (runList ?b3)) \<subseteq> {..<MAX_THREADS}"
        using len True 1(8) set3 by auto
      have x3: "\<forall>i<m - 1. thX ?b3 (runList ?b3 ! i) = i"
      proof (intro allI impI)
        fix i
        assume i: "i < m - 1"
        have r: "runList ?b3 ! i = (if i = idx then ?s else runList b ! i)" using i len by (simp add: nth_list_update)
        have "runList b ! i = ?s \<longleftrightarrow> i = m - 1" using inj [of i "m - 1"] i by auto
        then show "thX ?b3 (runList ?b3 ! i) = i" unfolding X3 r using i 1(9) by auto
      qed
      have l3: "\<forall>i<idx. thS ?b3 (runList ?b3 ! i) \<noteq> LEFT" unfolding S3 using 1(10) by simp
      obtain m' b' where b': "offline_left idx (m - 1) ?b3 = Some (m', b')" "same_but ?b3 b'" "bar_rnd b' = bar_rnd ?b3" "m' \<le> m - 1"
        "distinct (take m' (runList b'))"
        "set (take m' (runList b')) = {t \<in> set (take (m - 1) (runList ?b3)). thS ?b3 t \<noteq> LEFT}"
        "\<forall>i<m'. thX b' (runList b' ! i) = i"
        "\<forall>t. thS b' t = (if t \<in> set (take (m - 1) (runList ?b3)) \<and> thS ?b3 t = LEFT then OFFLINE else thS ?b3 t)"
        using 1(1) [OF True rd(1) rd(2) st r1 r2 r3 r4 p(1-4) dist3 p(5) x3 l3] by blast
      have "set (take m' (runList b')) = {t \<in> set ?L. thS b t \<noteq> LEFT}"
        unfolding b'(6) set3 S3 using W by auto
      moreover have "\<forall>t. thS b' t = (if t \<in> set ?L \<and> thS b t = LEFT then OFFLINE else thS b t)"
        using b'(8) wL W unfolding set3 S3 by auto
      ultimately show ?thesis unfolding eq using b'(1,4,5,7) same_but_trans [OF same b'(2)] b'(3) True
        by (intro exI [of _ m'] exI [of _ b']) auto
    qed
  qed
qed

text \<open>The swap of two entries of the run list and of their last indices.\<close>

definition swap_idx :: "nat \<Rightarrow> nat \<Rightarrow> 'r Barrier \<Rightarrow> 'r Barrier" where
  "swap_idx i j b = (let s = runList b ! i; t = runList b ! j; l = (threadList b)[s := (threadList b ! s)\<lparr>lastIdx := j\<rparr>] in
     b\<lparr>runList := (runList b)[i := t, j := s], threadList := l[t := (l ! t)\<lparr>lastIdx := i\<rparr>]\<rparr>)"

lemma swap_idx_view:
  assumes len: "length (threadList b) = MAX_THREADS" "length (runList b) = MAX_THREADS" "m \<le> MAX_THREADS"
    and d: "distinct (take m (runList b))" and sub: "set (take m (runList b)) \<subseteq> {..<MAX_THREADS}" and i: "i < m" and j: "j < m"
  shows "same_but b (swap_idx i j b)" "bar_rnd (swap_idx i j b) = bar_rnd b" "thS (swap_idx i j b) = thS b"
    "distinct (take m (runList (swap_idx i j b)))" "set (take m (runList (swap_idx i j b))) = set (take m (runList b))"
    "k < m \<Longrightarrow> runList (swap_idx i j b) ! k = runList b ! (if k = i then j else if k = j then i else k)"
    "k < m \<Longrightarrow> thX (swap_idx i j b) (runList (swap_idx i j b) ! k) = (if k = i \<or> k = j then k else thX b (runList b ! k))"
proof -
  have st: "runList b ! i < MAX_THREADS" "runList b ! j < MAX_THREADS"
    using sub take_nth_in [of i m "runList b"] take_nth_in [of j m "runList b"] len i j by auto
  have inj: "runList b ! x = runList b ! y \<longleftrightarrow> x = y" if "x < m" "y < m" for x y
    using nth_eq_iff_index_eq [OF d, of x y] that len by simp
  show "same_but b (swap_idx i j b)" using st len by (auto simp: same_but_def swap_idx_def Let_def nth_list_update)
  show "bar_rnd (swap_idx i j b) = bar_rnd b" by (simp add: swap_idx_def Let_def)
  show "thS (swap_idx i j b) = thS b"
    using st len by (auto simp: thS_def swap_idx_def Let_def nth_list_update fun_eq_iff)
  have take: "take m (runList (swap_idx i j b)) = (take m (runList b))[i := take m (runList b) ! j, j := take m (runList b) ! i]"
    using i j by (simp add: swap_idx_def Let_def take_update_swap)
  show "distinct (take m (runList (swap_idx i j b)))" "set (take m (runList (swap_idx i j b))) = set (take m (runList b))"
    unfolding take using distinct_swap [of i "take m (runList b)" j] set_swap [of i "take m (runList b)" j] i j len d by auto
  show nth: "runList (swap_idx i j b) ! k = runList b ! (if k = i then j else if k = j then i else k)" if "k < m" for k
    using that i j len by (auto simp: swap_idx_def Let_def nth_list_update)
  have X: "thX (swap_idx i j b) = (thX b)(runList b ! i := j, runList b ! j := i)"
    using st len by (auto simp: thX_def swap_idx_def Let_def nth_list_update fun_eq_iff)
  show "thX (swap_idx i j b) (runList (swap_idx i j b) ! k) = (if k = i \<or> k = j then k else thX b (runList b ! k))" if "k < m"
    using that inj i j unfolding nth [OF that] X by (auto split: if_splits)
qed

lemma shuffle_run:
  assumes rand: "\<forall>r i. fst (rand r i) \<le> i"
  shows "length (threadList b) = MAX_THREADS \<Longrightarrow> length (runList b) = MAX_THREADS \<Longrightarrow> m \<le> MAX_THREADS \<Longrightarrow> i < m \<Longrightarrow>
    distinct (take m (runList b)) \<Longrightarrow> set (take m (runList b)) \<subseteq> {..<MAX_THREADS} \<Longrightarrow> \<forall>k<m. thX b (runList b ! k) = k \<Longrightarrow>
    \<exists>b'. shuffle rand i b = Some b' \<and> same_but b b' \<and> distinct (take m (runList b')) \<and>
      set (take m (runList b')) = set (take m (runList b)) \<and> (\<forall>k<m. thX b' (runList b' ! k) = k) \<and> thS b' = thS b"
proof (induction i arbitrary: b)
  case 0
  then show ?case by (intro exI [of _ b]) simp
next
  case (Suc i)
  obtain j r where jr: "rand (bar_rnd b) (Suc i) = (j, r)" by (cases "rand (bar_rnd b) (Suc i)")
  have j: "j < m" using rand [rule_format, of "bar_rnd b" "Suc i"] jr Suc.prems(4) by simp
  let ?b = "b\<lparr>bar_rnd := r\<rparr>"
  let ?i = "runList b ! Suc i" and ?j = "runList b ! j" and ?b' = "swap_idx (Suc i) j ?b"
  have b: "length (threadList ?b) = MAX_THREADS" "length (runList ?b) = MAX_THREADS" "distinct (take m (runList ?b))"
    "set (take m (runList ?b)) \<subseteq> {..<MAX_THREADS}" "thX ?b = thX b" "thS ?b = thS b" "same_but b ?b"
    using Suc.prems by (auto simp: same_but_def thX_def thS_def fun_eq_iff)
  note v = swap_idx_view [OF b(1,2) Suc.prems(3) b(3,4) Suc.prems(4) j]
  have ij: "?i < MAX_THREADS" "?j < MAX_THREADS"
    using Suc.prems(6) take_nth_in [of "Suc i" m "runList b"] take_nth_in [of j m "runList b"] Suc.prems(2-4) j by auto
  have rd: "read_at (runList b) (Suc i) = Some ?i" "read_at (runList b) j = Some ?j"
    using Suc.prems j by (auto simp: read_at_def)
  let ?b1 = "?b\<lparr>runList := (runList b)[Suc i := ?j]\<rparr>"
  let ?b2 = "?b1\<lparr>runList := (runList b)[Suc i := ?j, j := ?i]\<rparr>"
  let ?b3 = "?b2\<lparr>threadList := (threadList b)[?i := (threadList b ! ?i)\<lparr>lastIdx := j\<rparr>]\<rparr>"
  have "set_run (Suc i) ?j ?b = Some ?b1" "set_run j ?i ?b1 = Some ?b2" "upd_thread ?i (\<lambda>t. t\<lparr>lastIdx := j\<rparr>) ?b2 = Some ?b3"
    "upd_thread ?j (\<lambda>t. t\<lparr>lastIdx := Suc i\<rparr>) ?b3 = Some ?b'"
    using Suc.prems(1-4) j ij by (simp_all add: set_run_run upd_thread_run swap_idx_def Let_def)
  then have eq: "shuffle rand (Suc i) b = shuffle rand i ?b'" using jr rd by (simp del: read_at_Some)
  have len: "length (threadList ?b') = MAX_THREADS" "length (runList ?b') = MAX_THREADS" "i < m" "set (take m (runList ?b')) \<subseteq> {..<MAX_THREADS}"
    using v(1,5) b(1,2,4) Suc.prems(4) by (auto simp: same_but_def)
  have x: "\<forall>k<m. thX ?b' (runList ?b' ! k) = k" using v(7) Suc.prems(7) b(5) by auto
  obtain b' where b': "shuffle rand i ?b' = Some b'" "same_but ?b' b'" "distinct (take m (runList b'))"
    "set (take m (runList b')) = set (take m (runList ?b'))" "\<forall>k<m. thX b' (runList b' ! k) = k" "thS b' = thS ?b'"
    using Suc.IH [OF len(1,2) Suc.prems(3) len(3) v(4) len(4) x] by blast
  have "same_but b b'" by (rule same_but_trans [OF same_but_trans [OF b(7) v(1)] b'(2)])
  with b' v(3,5) b(6) show ?case unfolding eq by (intro exI [of _ b']) simp
qed

text \<open>At the end of a phase every thread waits or left, and the new phase starts from the first entry.\<close>

lemma endPhase_run:
  assumes rand: "\<forall>r i. fst (rand r i) \<le> i" and b: "bar_inv b" and fin: "curThreadIdx b = runListSize b" "runningThreads b = 0"
    and some: "leftThreads b \<noteq> of_nat (runListSize b)"
  shows "\<exists>b'. endPhase rand b = Some b' \<and> bar_inv b' \<and> curThreadIdx b' = 0 \<and> parallelThreads b' = parallelThreads b \<and>
    runningThreads b' = 0 \<and> (\<forall>t. thS b' t = thS b t \<or> thS b t = LEFT \<and> thS b' t = OFFLINE) \<and>
    (\<exists>t\<in>set (lst b'). thS b' t = WAITING)"
proof -
  note I = bar_invD [OF b]
  let ?n = "runListSize b"
  have len: "length (threadList b) = MAX_THREADS" "length (runList b) = MAX_THREADS" "?n \<le> MAX_THREADS" using I(1) by (simp_all add: sized_def)
  have norun: "num (thS b) RUNNING (lst b) = 0" using I(5) fin(2) by simp
  have notall: "num (thS b) LEFT (lst b) \<noteq> length (lst b)" using some I(4,8) by auto
  have wait: "\<exists>t\<in>set (lst b). thS b t = WAITING"
  proof -
    obtain t where t: "t \<in> set (lst b)" "thS b t \<noteq> LEFT" using notall num_all [OF goodD(1) [OF I(2)], of "thS b" LEFT] by auto
    then have "thS b t \<noteq> OFFLINE" "thS b t \<noteq> RUNNING" using goodD(2) [OF I(2)] norun by (auto simp: num_0)
    with t show ?thesis by (cases "thS b t") auto
  qed
  have d: "distinct (take ?n (runList b))" "set (take ?n (runList b)) \<subseteq> {..<MAX_THREADS}"
    using goodD(1,2) [OF I(2)] by (auto simp: lst_def)
  have x: "\<forall>i<?n. thX b (runList b ! i) = i"
    using goodD(4) [OF I(2)] I(8) fin(1) lst_nth [of _ b] by fastforce
  let ?b1 = "b\<lparr>curThreadIdx := 0, phaseCount := phaseCount b + 1\<rparr>"
  define Q where "Q b2 \<longleftrightarrow> length (threadList b2) = MAX_THREADS \<and> length (runList b2) = MAX_THREADS \<and> runListSize b2 \<le> MAX_THREADS \<and>
    parallelThreads b2 = parallelThreads b \<and> curThreadIdx b2 = 0 \<and> runningThreads b2 = 0 \<and>
    (\<forall>t. futexWord (threadList b2 ! t) = futexWord (threadList b ! t)) \<and>
    distinct (lst b2) \<and> set (lst b2) = {t \<in> set (lst b). thS b2 t \<noteq> OFFLINE} \<and> (\<forall>i<runListSize b2. thX b2 (runList b2 ! i) = i) \<and>
    (\<forall>t. thS b2 t = thS b t \<or> t \<in> set (lst b) \<and> thS b t = LEFT \<and> thS b2 t = OFFLINE) \<and>
    leftThreads b2 = of_nat (num (thS b2) LEFT (lst b2))" for b2 :: "'a Barrier"
  have v1: "thS ?b1 = thS b" "thX ?b1 = thX b" "lst ?b1 = lst b" by (auto simp: thS_def thX_def lst_def fun_eq_iff)
  have "\<exists>b2. (if phaseCount b AND 31 = 0 then cleanup ?b1 else Some ?b1) = Some b2 \<and> Q b2"
  proof (cases "phaseCount b AND 31 = 0")
    case False
    have "set (lst b) = {t \<in> set (lst b). thS b t \<noteq> OFFLINE}" using goodD(2) [OF I(2)] by auto
    then have "Q ?b1" unfolding Q_def v1 using len fin(2) goodD(1) [OF I(2)] x I(4) v1(2) by auto
    with False show ?thesis by auto
  next
    case True
    have pos: "0 < ?n" using wait I(8) by (cases "lst b") auto
    obtain m b2 where m: "offline_left 0 ?n ?b1 = Some (m, b2)" "same_but ?b1 b2" "m \<le> ?n" "distinct (take m (runList b2))"
      "set (take m (runList b2)) = {t \<in> set (take ?n (runList b)). thS b t \<noteq> LEFT}" "\<forall>i<m. thX b2 (runList b2 ! i) = i"
      "\<forall>t. thS b2 t = (if t \<in> set (take ?n (runList b)) \<and> thS b t = LEFT then OFFLINE else thS b t)"
      using offline_left_run [of ?b1 ?n 0] len d x v1(1,2) by auto
    let ?b2 = "b2\<lparr>leftThreads := 0, runListSize := m\<rparr>"
    have l2: "length (runList b2) = MAX_THREADS" "runListSize b2 = ?n" "leftThreads b2 = leftThreads b" using m(2) len by (simp_all add: same_but_def)
    have v2: "thS ?b2 = thS b2" "thX ?b2 = thX b2" "lst ?b2 = take m (runList b2)" by (auto simp: thS_def thX_def lst_def fun_eq_iff)
    have "card (set (take m (runList b2))) = m" using distinct_card [OF m(4)] l2 m(3) len by simp
    moreover have "card (set (lst b)) = ?n" using distinct_card [OF goodD(1) [OF I(2)]] I(8) by simp
    moreover have "card (set (lst b)) = card {t \<in> set (lst b). thS b t \<noteq> LEFT} + num (thS b) LEFT (lst b)"
      unfolding num_def by (subst card_Un_disjoint [symmetric]) (auto intro: arg_cong [where f = card])
    ultimately have cnt: "?n - m = num (thS b) LEFT (lst b)" using m(5) by (simp add: lst_def)
    have run: "cleanup ?b1 = Some ?b2" using m(1) pos l2 cnt I(4) by (simp add: cleanup_def)
    have "num (thS b2) LEFT (take m (runList b2)) = 0" using m(5,7) by (auto simp: num_0)
    moreover have "set (take m (runList b2)) = {t \<in> set (lst b). thS b2 t \<noteq> OFFLINE}"
      using m(5,7) goodD(2) [OF I(2)] by (auto simp: lst_def)
    ultimately have "Q ?b2" unfolding Q_def v2 using m(2-4,6,7) len fin(2) v2(2) by (auto simp: same_but_def lst_def)
    with run True show ?thesis by auto
  qed
  then obtain b2 where b2: "(if phaseCount b AND 31 = 0 then cleanup ?b1 else Some ?b1) = Some b2" "Q b2" by blast
  let ?m = "runListSize b2"
  have q: "length (threadList b2) = MAX_THREADS" "length (runList b2) = MAX_THREADS" "?m \<le> MAX_THREADS" "distinct (take ?m (runList b2))"
    "set (take ?m (runList b2)) \<subseteq> {..<MAX_THREADS}" "\<forall>i<?m. thX b2 (runList b2 ! i) = i"
    using b2(2) goodD(2) [OF I(2)] by (auto simp: Q_def lst_def)
  have wait2: "\<exists>t\<in>set (lst b2). thS b2 t = WAITING"
  proof -
    obtain t where t: "t \<in> set (lst b)" "thS b t = WAITING" using wait by blast
    moreover have "thS b2 t = WAITING" using t(2) b2(2) by (auto simp: Q_def) (metis BarState.distinct(9))
    ultimately show ?thesis using b2(2) by (auto simp: Q_def)
  qed
  have pos2: "0 < ?m" using wait2 by (cases "?m = 0") (auto simp: lst_def)
  have "\<exists>b3. (if parallelThreads b2 < of_nat ?m then shuffle rand (?m - 1) b2 else Some b2) = Some b3 \<and> same_but b2 b3 \<and>
    distinct (take ?m (runList b3)) \<and> set (take ?m (runList b3)) = set (take ?m (runList b2)) \<and> (\<forall>k<?m. thX b3 (runList b3 ! k) = k) \<and> thS b3 = thS b2"
  proof (cases "parallelThreads b2 < of_nat ?m")
    case True
    have "?m - 1 < ?m" using pos2 by simp
    from shuffle_run [OF rand q(1-3) this q(4-6)] True show ?thesis by auto
  qed (use q in auto)
  then obtain b3 where b3: "(if parallelThreads b2 < of_nat ?m then shuffle rand (?m - 1) b2 else Some b2) = Some b3" "same_but b2 b3"
    "distinct (take ?m (runList b3))" "set (take ?m (runList b3)) = set (take ?m (runList b2))" "\<forall>k<?m. thX b3 (runList b3 ! k) = k" "thS b3 = thS b2"
    by blast
  have s3: "runListSize b3 = ?m" "lst b3 = take ?m (runList b3)" "set (lst b3) = set (lst b2)" using b3(2,4) by (auto simp: same_but_def lst_def)
  have "(if phaseCount b AND 31 = 0 then cleanup ?b1 else Some ?b1) \<bind>
      (\<lambda>b. if parallelThreads b < of_nat (runListSize b) then shuffle rand (runListSize b - 1) b else Some b) = Some b3"
    unfolding b2(1) using b3(1) by simp
  then have run: "endPhase rand b = Some b3" by (simp add: endPhase_def Let_def split del: if_split cong: if_cong)
  have S: "\<forall>t. thS b3 t = thS b t \<or> thS b t = LEFT \<and> thS b3 t = OFFLINE" using b2(2) b3(6) by (auto simp: Q_def)
  have mem: "t \<in> set (lst b3) \<longleftrightarrow> t < MAX_THREADS \<and> thS b3 t \<noteq> OFFLINE" for t
    using b2(2) goodD(2) [OF I(2), of t] S [rule_format, of t] unfolding s3(3) b3(6) Q_def by auto
  have nr: "thS b3 t \<noteq> RUNNING" if "t \<in> set (lst b3)" for t
    using that mem [of t] S [rule_format, of t] norun goodD(2) [OF I(2), of t] by (auto simp: num_0)
  have g: "good (lst b3) (thS b3) (thX b3) 0"
    unfolding good_def
  proof (intro conjI allI impI)
    show "thX b3 (lst b3 ! i) = i \<or> 0 \<le> i \<and> thS b3 (lst b3 ! i) = WAITING" if "i < length (lst b3)" for i
      using that b3(5) s3(2) by simp
    show "thS b3 (lst b3 ! i) \<noteq> RUNNING" if "i < length (lst b3)" for i using nr nth_mem [OF that] by blast
  qed (use b3(3) mem s3(2) in auto)
  have "sized b3" unfolding sized_def
  proof (intro conjI allI impI)
    fix t
    assume "t < MAX_THREADS" "thS b3 t = WAITING"
    then have "thS b t = WAITING" using S [rule_format, of t] by auto
    with \<open>t < MAX_THREADS\<close> I(1) have "futexWord (threadList b ! t) = 1" by (simp add: sized_def)
    then show "futexWord (threadList b3 ! t) = 1" using b2(2) b3(2) by (simp add: Q_def same_but_def)
  qed (use q b3(2) in \<open>auto simp: same_but_def\<close>)
  moreover have "num (thS b3) RUNNING (lst b3) = 0" using nr by (auto simp: num_0)
  moreover have "leftThreads b3 = of_nat (num (thS b3) LEFT (lst b3))"
    using b2(2) b3(2,6) num_cong [OF s3(3)] by (simp add: Q_def same_but_def)
  ultimately have "bar_inv b3" using g b2(2) b3(2) by (simp add: bar_inv_def Q_def same_but_def)
  with run S wait2 b2(2) b3(2,6) s3(3) show ?thesis by (intro exI [of _ b3]) (auto simp: Q_def same_but_def)
qed

subsection \<open>Each operation\<close>

text \<open>After an operation a phase has ended, or not; \<open>turns b\<close> holds if all threads that wait had their turn.\<close>

definition turns :: "'r Barrier \<Rightarrow> bool" where
  "turns b \<longleftrightarrow> (\<forall>i<runListSize b. curThreadIdx b \<le> i \<longrightarrow> thS b (lst b ! i) \<noteq> WAITING)"

lemma woken_none:
  assumes b: "bar_inv b" and w: "woken b b'" and b': "bar_inv b'" and r: "num (thS b') RUNNING (lst b') = 0"
  shows "num (thS b) RUNNING (lst b) = 0" "\<forall>i<runListSize b. thS b' (lst b ! i) = thS b (lst b ! i)"
    "\<forall>i<curThreadIdx b'. curThreadIdx b \<le> i \<longrightarrow> thS b (lst b ! i) \<noteq> WAITING"
proof -
  have L: "lst b' = lst b" and n: "length (lst b) = runListSize b" using w bar_invD(8) [OF b] by (simp_all add: woken_def)
  have nr: "thS b' (lst b ! i) \<noteq> RUNNING" if "i < runListSize b" for i
    using r that n nth_mem [of i "lst b"] unfolding num_0 L by auto
  have c: "curThreadIdx b' \<le> runListSize b" using goodD(3) [OF bar_invD(2) [OF b']] n L by simp
  have step: "if curThreadIdx b \<le> i \<and> i < curThreadIdx b' \<and> thS b (lst b ! i) = WAITING
      then thS b' (lst b ! i) = RUNNING else thS b' (lst b ! i) = thS b (lst b ! i)" if "i < runListSize b" for i
    using w that by (simp add: woken_def)
  show same: "\<forall>i<runListSize b. thS b' (lst b ! i) = thS b (lst b ! i)"
    using step nr by (metis (full_types))
  show "num (thS b) RUNNING (lst b) = 0"
    unfolding num_0 using same nr n by (metis in_set_conv_nth)
  show "\<forall>i<curThreadIdx b'. curThreadIdx b \<le> i \<longrightarrow> thS b (lst b ! i) \<noteq> WAITING"
    using step nr c by (metis (full_types) order_less_le_trans)
qed

lemma woken_running:
  assumes b: "bar_inv b" and w: "woken b b'" and t: "t < MAX_THREADS" "thS b t = RUNNING"
  shows "thS b' t = RUNNING" "t \<in> set (lst b')"
proof -
  have "t \<in> set (lst b)" using goodD(2) [OF bar_invD(2) [OF b], of t] t by simp
  then obtain i where i: "i < runListSize b" "t = lst b ! i" using bar_invD(8) [OF b] by (auto simp: in_set_conv_nth)
  with w t show "thS b' t = RUNNING" by (auto simp: woken_def split: if_splits)
  show "t \<in> set (lst b')" using \<open>t \<in> set (lst b)\<close> w by (simp add: woken_def)
qed

text \<open>The threads in the barrier, and those of them that wait after they had their turn in this phase.\<close>

definition inb :: "'r Barrier \<Rightarrow> nat set" where
  "inb b = {t. t < MAX_THREADS \<and> (thS b t = WAITING \<or> thS b t = RUNNING)}"

definition behind :: "'r Barrier \<Rightarrow> nat set" where
  "behind b = {t. thS b t = WAITING \<and> (\<exists>i<runListSize b. i < curThreadIdx b \<and> lst b ! i = t)}"

lemma woken_view:
  assumes b: "bar_inv b" "bar_inv b'" and w: "woken b b'"
  shows "inb b' = inb b" "behind b' \<subseteq> behind b"
proof -
  have L: "lst b' = lst b" "runListSize b' = runListSize b" using w by (simp_all add: woken_def)
  have step: "if curThreadIdx b \<le> i \<and> i < curThreadIdx b' \<and> thS b (lst b ! i) = WAITING
      then thS b' (lst b ! i) = RUNNING else thS b' (lst b ! i) = thS b (lst b ! i)" if "i < runListSize b" for i
    using w that by (simp add: woken_def)
  have mem: "t < MAX_THREADS \<and> thS b t \<noteq> OFFLINE \<longleftrightarrow> t < MAX_THREADS \<and> thS b' t \<noteq> OFFLINE" for t
    using goodD(2) [OF bar_invD(2) [OF b(1)], of t] goodD(2) [OF bar_invD(2) [OF b(2)], of t] L(1) by simp
  have st: "thS b' t = WAITING \<or> thS b' t = RUNNING \<longleftrightarrow> thS b t = WAITING \<or> thS b t = RUNNING" if t: "t < MAX_THREADS" for t
  proof (cases "thS b t = OFFLINE")
    case True
    then show ?thesis using mem [of t] t by auto
  next
    case False
    then have "t \<in> set (lst b)" using goodD(2) [OF bar_invD(2) [OF b(1)], of t] t by simp
    then obtain i where "i < runListSize b" "lst b ! i = t" using bar_invD(8) [OF b(1)] by (auto simp: in_set_conv_nth)
    with step [of i] show ?thesis by (auto split: if_splits)
  qed
  then show "inb b' = inb b" by (auto simp: inb_def)
  show "behind b' \<subseteq> behind b"
  proof
    fix t
    assume "t \<in> behind b'"
    then obtain i where i: "i < runListSize b" "i < curThreadIdx b'" "lst b ! i = t" "thS b' t = WAITING" by (auto simp: behind_def L)
    have "\<not> curThreadIdx b \<le> i" "thS b t = WAITING" using step [OF i(1)] i by (auto split: if_splits)
    then show "t \<in> behind b" using i by (auto simp: behind_def)
  qed
qed

lemma tryWakeNext_run:
  assumes rand: "\<forall>r i. fst (rand r i) \<le> i" and b: "bar_inv b" and p: "0 < parallelThreads b"
    and cb: "turns b \<Longrightarrow> num (thS b) RUNNING (lst b) = 0 \<Longrightarrow> \<exists>t\<in>set (lst b). thS b t = WAITING \<Longrightarrow> cb s \<noteq> None"
  shows "\<exists>b' s'. tryWakeNext rand cb (b, s) = Some (b', s') \<and> bar_inv b' \<and> alive b' \<and> parallelThreads b' = parallelThreads b \<and>
    (\<forall>t<MAX_THREADS. thS b t = RUNNING \<longrightarrow> thS b' t = RUNNING) \<and> inb b' = inb b \<and> behind b' \<subseteq> behind b \<and>
    (turns b \<and> num (thS b) RUNNING (lst b) = 0 \<and> (\<exists>t\<in>set (lst b). thS b t = WAITING) \<longrightarrow> behind b' = {}) \<and>
    Some s' = (if turns b \<and> num (thS b) RUNNING (lst b) = 0 \<and> (\<exists>t\<in>set (lst b). thS b t = WAITING) then cb s else Some s)"
proof -
  obtain b1 where b1: "checkRunList b = Some b1" "bar_inv b1" "woken b b1" "runningThreads b1 = parallelThreads b1 \<or> curThreadIdx b1 = runListSize b1"
    using checkRunList_run [OF b] by blast
  note I = bar_invD [OF b] and I1 = bar_invD [OF b1(2)]
  have w: "lst b1 = lst b" "runListSize b1 = runListSize b" "parallelThreads b1 = parallelThreads b" using b1(3) by (simp_all add: woken_def)
  note view1 = woken_view [OF b b1(2,3)]
  show ?thesis
  proof (cases "runningThreads b1 = 0")
    case True
    with b1(4) w(3) p have fin: "curThreadIdx b1 = runListSize b1" by auto
    have n1: "num (thS b1) RUNNING (lst b1) = 0" using I1(5) True by simp
    note none = woken_none [OF b b1(3,2) n1]
    have same: "thS b t = thS b1 t" if "t \<in> set (lst b)" for t
      using that none(2) I(8) by (auto simp: in_set_conv_nth)
    have idle: "thS b t \<noteq> RUNNING" if "t < MAX_THREADS" for t
      using none(1) goodD(2) [OF I(2), of t] that by (auto simp: num_0)
    show ?thesis
    proof (cases "leftThreads b1 = of_nat (runListSize b1)")
      case left: True
      have "num (thS b1) LEFT (lst b1) = length (lst b1)"
        using left I1(4,8) count_inj [of "num (thS b1) LEFT (lst b1)" "length (lst b1)"] num_le [of "thS b1" LEFT "lst b1"]
          good_length [OF I1(2)] by simp
      then have all: "\<forall>t\<in>set (lst b1). thS b1 t = LEFT" using num_all [OF goodD(1) [OF I1(2)]] by simp
      have e: "checkEndPhase rand cb (b1, s) = Some (b1, s)" using left by (simp add: checkEndPhase_def)
      obtain b2 where b2: "checkRunList b1 = Some b2" "bar_inv b2" "woken b1 b2" using checkRunList_run [OF b1(2)] by blast
      have "\<forall>t\<in>set (lst b2). thS b2 t = LEFT"
        using b2(3) all I1(8) fin by (force simp: woken_def in_set_conv_nth split: if_splits)
      moreover have "\<not> (\<exists>t\<in>set (lst b). thS b t = WAITING)" using all same w(1) by auto
      moreover have "tryWakeNext rand cb (b, s) = Some (b2, s)" using b1(1) b2(1) e by (simp add: tryWakeNext_def)
      ultimately show ?thesis using b2(2,3) w(3) idle view1 woken_view [OF b1(2) b2(2,3)]
        by (intro exI [of _ b2] exI [of _ s]) (auto simp: alive_def woken_def)
    next
      case left: False
      obtain b2 where b2: "endPhase rand b1 = Some b2" "bar_inv b2" "curThreadIdx b2 = 0" "parallelThreads b2 = parallelThreads b1"
        "\<forall>t. thS b2 t = thS b1 t \<or> thS b1 t = LEFT \<and> thS b2 t = OFFLINE" "\<exists>t\<in>set (lst b2). thS b2 t = WAITING"
        using endPhase_run [OF rand b1(2) fin True left] by blast
      obtain b3 where b3: "checkRunList b2 = Some b3" "bar_inv b3" "woken b2 b3" "runningThreads b3 = parallelThreads b3 \<or> curThreadIdx b3 = runListSize b3"
        using checkRunList_run [OF b2(2)] by blast
      have nz: "num (thS b3) RUNNING (lst b3) \<noteq> 0"
      proof
        assume z: "num (thS b3) RUNNING (lst b3) = 0"
        then have "runningThreads b3 = 0" using bar_invD(3) [OF b3(2)] by simp
        moreover have "parallelThreads b3 = parallelThreads b" "runListSize b3 = runListSize b2" using b3(3) b2(4) w(3) by (simp_all add: woken_def)
        ultimately have "curThreadIdx b3 = runListSize b2" using b3(4) p by auto
        with woken_none(3) [OF b2(2) b3(3,2) z] b2(3,6) bar_invD(8) [OF b2(2)] show False by (auto simp: in_set_conv_nth)
      qed
      obtain t where "t \<in> set (lst b2)" "thS b2 t = WAITING" using b2(6) by blast
      then have "t \<in> set (lst b)" "thS b1 t = WAITING"
        using b2(5) goodD(2) [OF bar_invD(2) [OF b2(2)], of t] goodD(2) [OF I1(2), of t] w(1) by (metis BarState.distinct(3))+
      then have wait: "\<exists>t\<in>set (lst b). thS b t = WAITING" using same by auto
      have turn: "turns b" unfolding turns_def using none(3) fin w(2) by simp
      obtain s' where s': "cb s = Some s'" using cb [OF turn none(1) wait] by blast
      have e: "checkEndPhase rand cb (b1, s) = Some (b2, s')" using left True fin b2(1) s' by (simp add: checkEndPhase_def)
      have run: "tryWakeNext rand cb (b, s) = Some (b3, s')" using b1(1) e b3(1) by (simp add: tryWakeNext_def)
      have "thS b2 t = WAITING \<or> thS b2 t = RUNNING \<longleftrightarrow> thS b1 t = WAITING \<or> thS b1 t = RUNNING" for t
        using b2(5) [rule_format, of t] by auto
      then have "inb b2 = inb b1" by (simp add: inb_def)
      moreover have "behind b2 = {}" using b2(3) by (simp add: behind_def)
      ultimately have "inb b3 = inb b" "behind b3 = {}" using woken_view [OF b2(2) b3(2,3)] view1(1) by auto
      with run nz wait turn show ?thesis using b3(2,3) b2(4) w(3) idle none(1) s'
        by (intro exI [of _ b3] exI [of _ s']) (auto simp: alive_def woken_def)
    qed
  next
    case False
    have e: "checkEndPhase rand cb (b1, s) = Some (b1, s)" using False by (simp add: checkEndPhase_def)
    obtain b2 where b2: "checkRunList b1 = Some b2" "bar_inv b2" "woken b1 b2" using checkRunList_run [OF b1(2)] by blast
    have "num (thS b1) RUNNING (lst b1) \<noteq> 0"
    proof
      assume "num (thS b1) RUNNING (lst b1) = 0"
      with I1(3) have "runningThreads b1 = 0" by simp
      with False show False ..
    qed
    then obtain t where t: "t \<in> set (lst b1)" "thS b1 t = RUNNING" by (auto simp: num_0)
    then have "t < MAX_THREADS" using goodD(2) [OF I1(2), of t] by simp
    from woken_running [OF b1(2) b2(3) this t(2)] have "num (thS b2) RUNNING (lst b2) \<noteq> 0" by (auto simp: num_0)
    moreover have "\<not> (turns b \<and> num (thS b) RUNNING (lst b) = 0)"
    proof
      assume a: "turns b \<and> num (thS b) RUNNING (lst b) = 0"
      obtain i where i: "i < runListSize b" "t = lst b ! i" using t(1) w(1) I(8) by (auto simp: in_set_conv_nth)
      have "thS b1 t = thS b t" using b1(3) a i by (auto simp: woken_def turns_def split: if_splits)
      with t a w(1) show False by (auto simp: num_0)
    qed
    moreover have "tryWakeNext rand cb (b, s) = Some (b2, s)" using b1(1) b2(1) e by (simp add: tryWakeNext_def)
    moreover have "\<forall>t<MAX_THREADS. thS b t = RUNNING \<longrightarrow> thS b2 t = RUNNING"
      using woken_running(1) [OF b b1(3)] woken_running(1) [OF b1(2) b2(3)] by blast
    ultimately show ?thesis using b2(2,3) w(3) view1 woken_view [OF b1(2) b2(2,3)]
      by (intro exI [of _ b2] exI [of _ s]) (auto simp: alive_def woken_def)
  qed
qed

text \<open>The three operations, from a state that satisfies the invariant.\<close>

definition bar_pre :: "('r \<Rightarrow> nat \<Rightarrow> nat \<times> 'r) \<Rightarrow> 'r Barrier \<Rightarrow> bool" where
  "bar_pre rand b \<longleftrightarrow> (\<forall>r i. fst (rand r i) \<le> i) \<and> bar_inv b \<and> 0 < parallelThreads b"

lemma stop_cond:
  assumes b: "bar_inv b" and t: "tid < MAX_THREADS" "thS b tid = RUNNING"
    and v: "thS b1 = (thS b)(tid := st)" "lst b1 = lst b" "curThreadIdx b1 = curThreadIdx b" "runListSize b1 = runListSize b" and st: "st \<noteq> RUNNING"
  shows "turns b1 = turns b" "num (thS b1) RUNNING (lst b1) = 0 \<longleftrightarrow> (\<forall>u<MAX_THREADS. u \<noteq> tid \<longrightarrow> thS b u \<noteq> RUNNING)"
    "(\<exists>u\<in>set (lst b1). thS b1 u = WAITING) \<longleftrightarrow> st = WAITING \<or> (\<exists>u<MAX_THREADS. thS b u = WAITING)"
proof -
  note I = bar_invD [OF b]
  have "lst b ! i \<noteq> tid" if "i < runListSize b" "curThreadIdx b \<le> i" for i
    using goodD(5) [OF I(2), of i] that I(8) t(2) by auto
  then show "turns b1 = turns b" unfolding turns_def v by auto
  have mem: "u \<in> set (lst b) \<longleftrightarrow> u < MAX_THREADS \<and> thS b u \<noteq> OFFLINE" for u by (rule goodD(2) [OF I(2)])
  show "num (thS b1) RUNNING (lst b1) = 0 \<longleftrightarrow> (\<forall>u<MAX_THREADS. u \<noteq> tid \<longrightarrow> thS b u \<noteq> RUNNING)"
    unfolding num_0 v using mem st by auto
  show "(\<exists>u\<in>set (lst b1). thS b1 u = WAITING) \<longleftrightarrow> st = WAITING \<or> (\<exists>u<MAX_THREADS. thS b u = WAITING)"
  proof
    assume "\<exists>u\<in>set (lst b1). thS b1 u = WAITING"
    then obtain u where "u \<in> set (lst b)" "((thS b)(tid := st)) u = WAITING" unfolding v by blast
    with mem show "st = WAITING \<or> (\<exists>u<MAX_THREADS. thS b u = WAITING)" by (cases "u = tid") auto
  next
    assume "st = WAITING \<or> (\<exists>u<MAX_THREADS. thS b u = WAITING)"
    then show "\<exists>u\<in>set (lst b1). thS b1 u = WAITING"
    proof
      assume "st = WAITING"
      with mem [of tid] t show ?thesis unfolding v by (intro bexI [of _ tid]) auto
    next
      assume "\<exists>u<MAX_THREADS. thS b u = WAITING"
      then obtain u where u: "u < MAX_THREADS" "thS b u = WAITING" by blast
      with mem [of u] t(2) show ?thesis unfolding v by (intro bexI [of _ u]) auto
    qed
  qed
qed

definition phase_ends :: "nat \<Rightarrow> 'r Barrier \<Rightarrow> bool" where
  "phase_ends tid b \<longleftrightarrow> turns b \<and> (\<forall>u<MAX_THREADS. u \<noteq> tid \<longrightarrow> thS b u \<noteq> RUNNING)"

lemma stop_view:
  assumes t: "tid < MAX_THREADS" "thS b tid = RUNNING"
    and v: "thS b1 = (thS b)(tid := st)" "lst b1 = lst b" "curThreadIdx b1 = curThreadIdx b" "runListSize b1 = runListSize b"
  shows "st = WAITING \<Longrightarrow> inb b1 = inb b \<and> behind b1 \<subseteq> insert tid (behind b)" "st = LEFT \<Longrightarrow> inb b1 = inb b - {tid} \<and> behind b1 \<subseteq> behind b"
  using t by (auto simp: inb_def behind_def v split: if_splits)

lemma sync_run:
  assumes pre: "bar_pre rand b" and cb: "phase_ends tid b \<Longrightarrow> cb s \<noteq> None" and t: "tid < MAX_THREADS" "thS b tid = RUNNING"
  shows "\<exists>b' s'. bar_sync rand cb tid (b, s) = Some (b', s') \<and> bar_inv b' \<and> alive b' \<and> parallelThreads b' = parallelThreads b \<and>
    (\<forall>u<MAX_THREADS. u \<noteq> tid \<longrightarrow> thS b u = RUNNING \<longrightarrow> thS b' u = RUNNING) \<and> inb b' = inb b \<and> behind b' \<subseteq> insert tid (behind b) \<and>
    (phase_ends tid b \<longrightarrow> behind b' = {}) \<and>
    Some s' = (if phase_ends tid b then cb s else Some s)"
proof -
  have b: "bar_inv b" and rand: "\<forall>r i. fst (rand r i) \<le> i" and p: "0 < parallelThreads b" using pre by (simp_all add: bar_pre_def)
  note I = bar_invD [OF b]
  define b1 where "b1 = b\<lparr>threadList := (threadList b)[tid := (threadList b ! tid)\<lparr>futexWord := 1, bs_state := WAITING\<rparr>],
    runningThreads := runningThreads b - 1\<rparr>"
  have len: "length (threadList b) = MAX_THREADS" using I(1) by (simp add: sized_def)
  have view: "thS b1 = (thS b)(tid := WAITING)" "thX b1 = thX b" "lst b1 = lst b"
    using t(1) len by (auto simp: b1_def thS_def thX_def lst_def nth_list_update fun_eq_iff)
  have mem: "tid \<in> set (lst b)" using goodD(2) [OF I(2), of tid] t by simp
  have n: "Suc (num ((thS b)(tid := WAITING)) RUNNING (lst b)) = num (thS b) RUNNING (lst b)"
    by (rule num_unset [where S = "thS b" and w = tid, OF mem t(2)]) simp
  have n2: "num ((thS b)(tid := WAITING)) LEFT (lst b) = num (thS b) LEFT (lst b)" by (rule num_other) (simp_all add: t)
  have "of_nat (num (thS b) RUNNING (lst b)) - 1 = (of_nat (num ((thS b)(tid := WAITING)) RUNNING (lst b)) :: u32)"
    unfolding n [symmetric] by simp
  moreover have "good (lst b) ((thS b)(tid := WAITING)) (thX b) (curThreadIdx b)"
    unfolding good_def using goodD [OF I(2)] t by auto
  moreover have "sized b1" using I(1) t by (auto simp: b1_def sized_def thS_def nth_list_update)
  ultimately have inv: "bar_inv b1"
    unfolding bar_inv_def view using I(3,4,7) n n2 by (simp add: b1_def Suc_le_eq less_imp_le)
  have p': "0 < parallelThreads b1" using p by (simp add: b1_def)
  have view': "curThreadIdx b1 = curThreadIdx b" "runListSize b1 = runListSize b" "parallelThreads b1 = parallelThreads b" by (simp_all add: b1_def)
  note stop = stop_cond [OF b t view(1,3) view'(1,2), simplified]
  have cb': "cb s \<noteq> None" if "turns b1" "num (thS b1) RUNNING (lst b1) = 0"
    using cb that stop(1,2) by (simp add: phase_ends_def)
  from tryWakeNext_run [where rand = rand and cb = cb and s = s, OF rand inv p' cb'] obtain b' s' where b': "tryWakeNext rand cb (b1, s) = Some (b', s')" "bar_inv b'" "alive b'"
    "parallelThreads b' = parallelThreads b1" "\<forall>t<MAX_THREADS. thS b1 t = RUNNING \<longrightarrow> thS b' t = RUNNING" "inb b' = inb b1" "behind b' \<subseteq> behind b1"
    "turns b1 \<and> num (thS b1) RUNNING (lst b1) = 0 \<and> (\<exists>t\<in>set (lst b1). thS b1 t = WAITING) \<longrightarrow> behind b' = {}"
    "Some s' = (if turns b1 \<and> num (thS b1) RUNNING (lst b1) = 0 \<and> (\<exists>t\<in>set (lst b1). thS b1 t = WAITING) then cb s else Some s)"
    by blast
  have "bar_sync rand cb tid (b, s) = tryWakeNext rand cb (b1, s)"
    using t len by (simp add: bar_sync_def upd_thread_def read_at_def thS_def b1_def)
  moreover have cond: "turns b1 \<and> num (thS b1) RUNNING (lst b1) = 0 \<and> (\<exists>t\<in>set (lst b1). thS b1 t = WAITING) \<longleftrightarrow> phase_ends tid b"
    using stop by (simp add: phase_ends_def)
  have "\<forall>u<MAX_THREADS. u \<noteq> tid \<longrightarrow> thS b u = RUNNING \<longrightarrow> thS b' u = RUNNING" using b'(5) view(1) by simp
  moreover have "inb b' = inb b" "behind b' \<subseteq> insert tid (behind b)" using b'(6,7) stop_view(1) [OF t view(1,3) view'(1,2)] by auto
  ultimately show ?thesis using b'(1-4) b'(8,9) [unfolded cond] view'(3) by (intro exI [of _ b'] exI [of _ s']) simp
qed

lemma leave_run:
  assumes pre: "bar_pre rand b" and cb: "phase_ends tid b \<Longrightarrow> cb s \<noteq> None" and t: "tid < MAX_THREADS" "thS b tid = RUNNING"
  shows "\<exists>b' s'. bar_leave rand cb tid (b, s) = Some (b', s') \<and> bar_inv b' \<and> alive b' \<and> parallelThreads b' = parallelThreads b \<and>
    (\<forall>u<MAX_THREADS. u \<noteq> tid \<longrightarrow> thS b u = RUNNING \<longrightarrow> thS b' u = RUNNING) \<and> inb b' = inb b - {tid} \<and> behind b' \<subseteq> behind b \<and>
    (phase_ends tid b \<and> (\<exists>u<MAX_THREADS. thS b u = WAITING) \<longrightarrow> behind b' = {}) \<and>
    Some s' = (if phase_ends tid b \<and> (\<exists>u<MAX_THREADS. thS b u = WAITING) then cb s else Some s)"
proof -
  have b: "bar_inv b" and rand: "\<forall>r i. fst (rand r i) \<le> i" and p: "0 < parallelThreads b" using pre by (simp_all add: bar_pre_def)
  note I = bar_invD [OF b]
  define b1 where "b1 = b\<lparr>threadList := (threadList b)[tid := (threadList b ! tid)\<lparr>bs_state := LEFT\<rparr>],
    leftThreads := leftThreads b + 1, runningThreads := runningThreads b - 1\<rparr>"
  have len: "length (threadList b) = MAX_THREADS" using I(1) by (simp add: sized_def)
  have view: "thS b1 = (thS b)(tid := LEFT)" "thX b1 = thX b" "lst b1 = lst b"
    using t(1) len by (auto simp: b1_def thS_def thX_def lst_def nth_list_update fun_eq_iff)
  have mem: "tid \<in> set (lst b)" using goodD(2) [OF I(2), of tid] t by simp
  have n: "Suc (num ((thS b)(tid := LEFT)) RUNNING (lst b)) = num (thS b) RUNNING (lst b)"
    by (rule num_unset [where S = "thS b" and w = tid, OF mem t(2)]) simp
  have n2: "num ((thS b)(tid := LEFT)) LEFT (lst b) = Suc (num (thS b) LEFT (lst b))" by (rule num_set [OF mem]) (simp add: t)
  have "of_nat (num (thS b) RUNNING (lst b)) - 1 = (of_nat (num ((thS b)(tid := LEFT)) RUNNING (lst b)) :: u32)"
    unfolding n [symmetric] by simp
  moreover have "good (lst b) ((thS b)(tid := LEFT)) (thX b) (curThreadIdx b)"
    unfolding good_def
  proof (intro conjI allI impI)
    fix i
    assume i: "i < length (lst b)"
    show "thX b (lst b ! i) = i \<or> curThreadIdx b \<le> i \<and> ((thS b)(tid := LEFT)) (lst b ! i) = WAITING"
      using goodD(4) [OF I(2) i] t(2) by auto
    show "((thS b)(tid := LEFT)) (lst b ! i) \<noteq> RUNNING" if "curThreadIdx b \<le> i" using goodD(5) [OF I(2) i that] by auto
  qed (use goodD(1-3) [OF I(2)] t in auto)
  moreover have "sized b1" using I(1) t by (auto simp: b1_def sized_def thS_def nth_list_update)
  ultimately have inv: "bar_inv b1"
    unfolding bar_inv_def view using I(3,4,7) n n2 by (simp add: b1_def Suc_le_eq less_imp_le)
  have p': "0 < parallelThreads b1" using p by (simp add: b1_def)
  have view': "curThreadIdx b1 = curThreadIdx b" "runListSize b1 = runListSize b" "parallelThreads b1 = parallelThreads b" by (simp_all add: b1_def)
  note stop = stop_cond [OF b t view(1,3) view'(1,2), simplified]
  have cb': "cb s \<noteq> None" if "turns b1" "num (thS b1) RUNNING (lst b1) = 0"
    using cb that stop(1,2) by (simp add: phase_ends_def)
  from tryWakeNext_run [where rand = rand and cb = cb and s = s, OF rand inv p' cb'] obtain b' s' where b': "tryWakeNext rand cb (b1, s) = Some (b', s')" "bar_inv b'" "alive b'"
    "parallelThreads b' = parallelThreads b1" "\<forall>t<MAX_THREADS. thS b1 t = RUNNING \<longrightarrow> thS b' t = RUNNING" "inb b' = inb b1" "behind b' \<subseteq> behind b1"
    "turns b1 \<and> num (thS b1) RUNNING (lst b1) = 0 \<and> (\<exists>t\<in>set (lst b1). thS b1 t = WAITING) \<longrightarrow> behind b' = {}"
    "Some s' = (if turns b1 \<and> num (thS b1) RUNNING (lst b1) = 0 \<and> (\<exists>t\<in>set (lst b1). thS b1 t = WAITING) then cb s else Some s)"
    by blast
  have "bar_leave rand cb tid (b, s) = tryWakeNext rand cb (b1, s)"
    using t len by (simp add: bar_leave_def upd_thread_def read_at_def thS_def b1_def)
  moreover have cond: "turns b1 \<and> num (thS b1) RUNNING (lst b1) = 0 \<and> (\<exists>t\<in>set (lst b1). thS b1 t = WAITING) \<longleftrightarrow>
      phase_ends tid b \<and> (\<exists>u<MAX_THREADS. thS b u = WAITING)"
    using stop by (simp add: phase_ends_def)
  have "\<forall>u<MAX_THREADS. u \<noteq> tid \<longrightarrow> thS b u = RUNNING \<longrightarrow> thS b' u = RUNNING" using b'(5) view(1) by simp
  moreover have "inb b' = inb b - {tid}" "behind b' \<subseteq> behind b" using b'(6,7) stop_view(2) [OF t view(1,3) view'(1,2)] by auto
  ultimately show ?thesis using b'(1-4) b'(8,9) [unfolded cond] view'(3) by (intro exI [of _ b'] exI [of _ s']) simp
qed

text \<open>What a join changes before it wakes threads.\<close>

definition joined :: "nat \<Rightarrow> 'r Barrier \<Rightarrow> 'r Barrier \<Rightarrow> bool" where
  "joined tid b b' \<longleftrightarrow> bar_inv b' \<and> parallelThreads b' = parallelThreads b \<and> thS b' = (thS b)(tid := WAITING) \<and>
     tid \<in> set (lst b') \<and> (\<exists>i<runListSize b'. curThreadIdx b' \<le> i \<and> lst b' ! i = tid) \<and> behind b' \<subseteq> behind b"

lemma join_offline:
  assumes b: "bar_inv b" and t: "tid < MAX_THREADS" "thS b tid = OFFLINE"
  shows "\<exists>b1 b2. set_run (runListSize b) tid b = Some b1 \<and>
    upd_thread tid (\<lambda>t. t\<lparr>bs_state := WAITING, futexWord := 1\<rparr>) (b1\<lparr>runListSize := Suc (runListSize b1)\<rparr>) = Some b2 \<and> joined tid b b2"
proof -
  note I = bar_invD [OF b]
  let ?n = "runListSize b" and ?S = "(thS b)(tid := WAITING)"
  have new: "tid \<notin> set (lst b)" using goodD(2) [OF I(2), of tid] t by simp
  have "card (set (lst b)) < card {..<MAX_THREADS}"
    by (rule psubset_card_mono) (use goodD(2) [OF I(2)] new t(1) in auto)
  then have n: "?n < MAX_THREADS" using distinct_card [OF goodD(1) [OF I(2)]] I(8) by simp
  have len: "length (threadList b) = MAX_THREADS" "length (runList b) = MAX_THREADS" using I(1) by (simp_all add: sized_def)
  let ?b1 = "b\<lparr>runList := (runList b)[?n := tid]\<rparr>"
  let ?b2 = "?b1\<lparr>runListSize := Suc ?n, threadList := (threadList b)[tid := (threadList b ! tid)\<lparr>bs_state := WAITING, futexWord := 1\<rparr>]\<rparr>"
  have run: "set_run ?n tid b = Some ?b1"
    "upd_thread tid (\<lambda>t. t\<lparr>bs_state := WAITING, futexWord := 1\<rparr>) (?b1\<lparr>runListSize := Suc (runListSize ?b1)\<rparr>) = Some ?b2"
    using n t len by (simp_all add: set_run_run upd_thread_run)
  have view: "thS ?b2 = ?S" "thX ?b2 = thX b" "lst ?b2 = lst b @ [tid]" "curThreadIdx ?b2 = curThreadIdx b"
    using t(1) len n by (auto simp: thS_def thX_def lst_def nth_list_update fun_eq_iff take_Suc_conv_app_nth)
  have "num ?S s (lst b @ [tid]) = num (thS b) s (lst b)" if "s = RUNNING \<or> s = LEFT" for s
    unfolding num_def by (rule arg_cong [where f = card]) (use that new t in auto)
  moreover have "good (lst b @ [tid]) ?S (thX b) (curThreadIdx b)"
    unfolding good_def
  proof (intro conjI allI impI)
    fix i
    assume i: "i < length (lst b @ [tid])"
    show "thX b ((lst b @ [tid]) ! i) = i \<or> curThreadIdx b \<le> i \<and> ?S ((lst b @ [tid]) ! i) = WAITING"
      using goodD(3) [OF I(2)] goodD(4) [OF I(2), of i] i by (auto simp: nth_append)
    show "?S ((lst b @ [tid]) ! i) \<noteq> RUNNING" if "curThreadIdx b \<le> i"
      using goodD(5) [OF I(2), of i] i that by (auto simp: nth_append)
  qed (use goodD(1-3) [OF I(2)] new t in auto)
  moreover have "sized ?b2" using I(1) t n by (auto simp: sized_def thS_def nth_list_update)
  ultimately have "bar_inv ?b2" unfolding bar_inv_def view using I(3,4,7) by simp
  moreover have "(lst b @ [tid]) ! ?n = tid" using I(8) by (metis nth_append_length)
  moreover have "behind ?b2 \<subseteq> behind b"
  proof
    fix u
    assume "u \<in> behind ?b2"
    then obtain i where i: "((thS b)(tid := WAITING)) u = WAITING" "i < curThreadIdx b" "(lst b @ [tid]) ! i = u"
      unfolding behind_def view by auto
    have "i < length (lst b)" using goodD(3) [OF I(2)] i(2) by simp
    then have "lst b ! i = u" "u \<in> set (lst b)" using i(3) by (auto simp: nth_append)
    moreover from this have "u \<noteq> tid" using goodD(2) [OF I(2), of tid] t(2) by auto
    ultimately show "u \<in> behind b" using i(1,2) \<open>i < length (lst b)\<close> I(8) by (auto simp: behind_def)
  qed
  ultimately have "joined tid b ?b2" unfolding joined_def view using goodD(3) [OF I(2)] I(8) by auto
  with run show ?thesis by blast
qed

lemma join_left:
  assumes b: "bar_inv b" and t: "tid < MAX_THREADS" "thS b tid = LEFT"
  shows "\<exists>b1 b2. reschedule tid (b\<lparr>leftThreads := leftThreads b - 1\<rparr>) = Some b1 \<and>
    upd_thread tid (\<lambda>t. t\<lparr>bs_state := WAITING, futexWord := 1\<rparr>) b1 = Some b2 \<and> joined tid b b2"
proof -
  note I = bar_invD [OF b]
  let ?S = "(thS b)(tid := WAITING)" and ?x = "thX b tid" and ?c = "curThreadIdx b" and ?n = "runListSize b"
  have len: "length (threadList b) = MAX_THREADS" "length (runList b) = MAX_THREADS" "?n \<le> MAX_THREADS" using I(1) by (simp_all add: sized_def)
  have mem: "tid \<in> set (lst b)" using goodD(2) [OF I(2), of tid] t by simp
  then obtain i where i: "i < length (lst b)" "lst b ! i = tid" by (auto simp: in_set_conv_nth)
  then have x: "?x < ?n" "runList b ! ?x = tid" using goodD(4) [OF I(2) i(1)] t(2) I(8) lst_nth [of i b] by auto
  have d: "distinct (take ?n (runList b))" "set (take ?n (runList b)) \<subseteq> {..<MAX_THREADS}"
    using goodD(1,2) [OF I(2)] by (auto simp: lst_def)
  let ?bl = "b\<lparr>leftThreads := leftThreads b - 1\<rparr>"
  define b1 where "b1 = (if ?x < ?c then swap_idx ?x (?c - 1) (?bl\<lparr>curThreadIdx := ?c - 1\<rparr>) else ?bl)"
  define c1 where "c1 = (if ?x < ?c then ?c - 1 else ?c)"
  have cn: "?c - 1 < ?n" if "?x < ?c" using that goodD(3) [OF I(2)] I(8) by simp
  have facts: "reschedule tid ?bl = Some b1 \<and> thS b1 = thS b \<and> runListSize b1 = ?n \<and> parallelThreads b1 = parallelThreads b \<and>
    runningThreads b1 = runningThreads b \<and> leftThreads b1 = leftThreads b - 1 \<and> curThreadIdx b1 = c1 \<and>
    length (threadList b1) = MAX_THREADS \<and> length (runList b1) = MAX_THREADS \<and> set (lst b1) = set (lst b) \<and> distinct (lst b1) \<and>
    (\<forall>t. futexWord (threadList b1 ! t) = futexWord (threadList b ! t)) \<and>
    (\<forall>k<?n. lst b1 ! k = lst b ! (if ?x < ?c \<and> k = ?x then ?c - 1 else if ?x < ?c \<and> k = ?c - 1 then ?x else k) \<and>
       thX b1 (lst b1 ! k) = (if ?x < ?c \<and> (k = ?x \<or> k = ?c - 1) then k else thX b (lst b ! k)))"
  proof (cases "?x < ?c")
    case True
    let ?b = "?bl\<lparr>curThreadIdx := ?c - 1\<rparr>"
    have b: "length (threadList ?b) = MAX_THREADS" "length (runList ?b) = MAX_THREADS" "distinct (take ?n (runList ?b))"
      "set (take ?n (runList ?b)) \<subseteq> {..<MAX_THREADS}" "thX ?b = thX b" "thS ?b = thS b"
      using len d by (auto simp: thX_def thS_def fun_eq_iff)
    note v = swap_idx_view [OF b(1,2) len(3) b(3,4) x(1) cn [OF True]]
    have b1: "b1 = swap_idx ?x (?c - 1) ?b" using True by (simp add: b1_def)
    let ?o = "runList b ! (?c - 1)"
    have o: "?o < MAX_THREADS" using d(2) take_nth_in [of "?c - 1" ?n "runList b"] cn [OF True] len by auto
    let ?s1 = "?b\<lparr>runList := (runList b)[?x := ?o]\<rparr>"
    let ?s2 = "?b\<lparr>runList := (runList b)[?x := ?o, ?c - 1 := tid]\<rparr>"
    let ?s3 = "?s2\<lparr>threadList := (threadList b)[?o := (threadList b ! ?o)\<lparr>lastIdx := ?x\<rparr>]\<rparr>"
    have "?o = tid \<longleftrightarrow> ?c - 1 = ?x" using nth_eq_iff_index_eq [OF d(1), of "?c - 1" ?x] cn [OF True] x len by simp
    then have sw: "upd_thread tid (\<lambda>t. t\<lparr>lastIdx := ?c - 1\<rparr>) ?s3 = Some b1"
      unfolding b1 using t len o x by (auto simp: upd_thread_run swap_idx_def Let_def list_update_swap nth_list_update)
    have "set_run ?x ?o ?b = Some ?s1" "set_run (?c - 1) tid ?s1 = Some ?s2" "upd_thread ?o (\<lambda>t. t\<lparr>lastIdx := ?x\<rparr>) ?s2 = Some ?s3"
      using x cn [OF True] len o by (simp_all add: set_run_run upd_thread_run)
    moreover have "read_at (threadList b) tid = Some (threadList b ! tid)" "lastIdx (threadList b ! tid) = ?x"
      "read_at (runList b) ?x = Some tid" "read_at (runList b) (?c - 1) = Some ?o"
      using t x cn [OF True] len by (simp_all add: read_at_def thX_def)
    ultimately have run: "reschedule tid ?bl = Some b1"
      using True sw by (simp add: reschedule_def Let_def del: read_at_Some)
    have n: "runListSize b1 = ?n" using v(1) unfolding b1 by (simp add: same_but_def)
    have l: "lst b1 = take ?n (runList b1)" unfolding lst_def n ..
    have sb: "parallelThreads b1 = parallelThreads b" "runningThreads b1 = runningThreads b" "leftThreads b1 = leftThreads b - 1"
      "curThreadIdx b1 = c1" "length (threadList b1) = MAX_THREADS" "length (runList b1) = MAX_THREADS"
      "\<forall>t. futexWord (threadList b1 ! t) = futexWord (threadList b ! t)"
      using v(1) len True unfolding b1 by (simp_all add: same_but_def c1_def)
    have st: "thS b1 = thS b" "set (lst b1) = set (lst b)" "distinct (lst b1)"
      using v(3-5) b(6) unfolding l lst_def [of b] unfolding b1 by simp_all
    have pos: "lst b1 ! k = lst b ! (if ?x < ?c \<and> k = ?x then ?c - 1 else if ?x < ?c \<and> k = ?c - 1 then ?x else k) \<and>
        thX b1 (lst b1 ! k) = (if ?x < ?c \<and> (k = ?x \<or> k = ?c - 1) then k else thX b (lst b ! k))" if k: "k < ?n" for k
    proof -
      have lk: "lst b1 ! k = runList b1 ! k" using k by (simp add: l)
      show ?thesis unfolding lk using v(6) [OF k] v(7) [OF k] b(5) True k cn [OF True] x(1) lst_nth [of _ b]
        unfolding b1 by (auto split: if_splits)
    qed
    show ?thesis using run n sb st pos by blast
  next
    case False
    have "reschedule tid ?bl = Some ?bl" using False t len by (simp add: reschedule_def Let_def read_at_def thX_def)
    then show ?thesis using False len goodD(1) [OF I(2)] by (auto simp: b1_def c1_def thS_def thX_def lst_def)
  qed
  let ?b2 = "b1\<lparr>threadList := (threadList b1)[tid := (threadList b1 ! tid)\<lparr>bs_state := WAITING, futexWord := 1\<rparr>]\<rparr>"
  have up: "upd_thread tid (\<lambda>t. t\<lparr>bs_state := WAITING, futexWord := 1\<rparr>) b1 = Some ?b2" using facts t by (simp add: upd_thread_run)
  have view: "thS ?b2 = ?S" "thX ?b2 = thX b1" "lst ?b2 = lst b1" "curThreadIdx ?b2 = c1"
    using t(1) facts by (auto simp: thS_def thX_def lst_def nth_list_update fun_eq_iff)
  have n1: "Suc (num ?S LEFT (lst b1)) = num (thS b) LEFT (lst b)"
    using num_unset [where S = "thS b" and w = tid and s = LEFT and s' = WAITING, OF mem t(2)] facts num_cong [of "lst b1" "lst b"] by simp
  have n2: "num ?S RUNNING (lst b1) = num (thS b) RUNNING (lst b)"
    using num_other [of "thS b" tid RUNNING WAITING "lst b1"] t facts num_cong [of "lst b1" "lst b"] by simp
  have l1: "leftThreads b1 = of_nat (num ?S LEFT (lst b1))" using facts I(4) unfolding n1 [symmetric] by simp
  have len1: "length (lst b1) = ?n" using facts len by (simp add: lst_def)
  have pos: "\<exists>i<?n. c1 \<le> i \<and> lst b1 ! i = tid"
  proof (cases "?x < ?c")
    case True
    have "lst b1 ! (?c - 1) = lst b ! ?x" using facts cn [OF True] True by auto
    then show ?thesis using cn [OF True] True x lst_nth [of ?x b] by (auto simp: c1_def)
  next
    case False
    have "lst b1 ! ?x = lst b ! ?x" using facts x False by auto
    then show ?thesis using False x lst_nth [of ?x b] by (auto simp: c1_def)
  qed
  have "good (lst b1) ?S (thX b1) c1"
    unfolding good_def
  proof (intro conjI allI impI)
    fix k
    assume "k < length (lst b1)"
    then have k: "k < ?n" using len1 by simp
    have lk: "lst b1 ! k = lst b ! (if ?x < ?c \<and> k = ?x then ?c - 1 else if ?x < ?c \<and> k = ?c - 1 then ?x else k)"
      and xk: "thX b1 (lst b1 ! k) = (if ?x < ?c \<and> (k = ?x \<or> k = ?c - 1) then k else thX b (lst b ! k))" using facts k by blast+
    have old: "thX b (lst b ! k) = k \<or> ?c \<le> k \<and> thS b (lst b ! k) = WAITING" using goodD(4) [OF I(2)] k I(8) by simp
    show "thX b1 (lst b1 ! k) = k \<or> c1 \<le> k \<and> ?S (lst b1 ! k) = WAITING"
      using old xk lk by (auto simp: c1_def)
    show "?S (lst b1 ! k) \<noteq> RUNNING" if "c1 \<le> k"
    proof (cases "?x < ?c \<and> k = ?c - 1")
      case True
      then have "lst b1 ! k = tid" using lk x lst_nth [of ?x b] by (auto split: if_splits)
      then show ?thesis by simp
    next
      case False
      with that have "?c \<le> k" by (auto simp: c1_def split: if_splits)
      moreover from this have "lst b1 ! k = lst b ! k" using lk by (auto split: if_splits)
      ultimately show ?thesis using goodD(5) [OF I(2), of k] k I(8) by simp
    qed
  next
    show "t \<in> set (lst b1) \<longleftrightarrow> t < MAX_THREADS \<and> ?S t \<noteq> OFFLINE" for t
      using goodD(2) [OF I(2), of t] facts t by auto
    show "c1 \<le> length (lst b1)" using goodD(3) [OF I(2)] len1 I(8) by (auto simp: c1_def)
  qed (use facts in simp)
  moreover have "sized ?b2" using I(1) facts t by (auto simp: sized_def thS_def nth_list_update fun_eq_iff)
  ultimately have "bar_inv ?b2" unfolding bar_inv_def view using facts I(3,7) l1 n2 by simp
  moreover have "behind ?b2 \<subseteq> behind b"
  proof
    fix u
    assume "u \<in> behind ?b2"
    then obtain i where i: "?S u = WAITING" "i < c1" "i < ?n" "lst b1 ! i = u" unfolding behind_def view using facts by auto
    have un: "u \<noteq> tid"
    proof
      assume "u = tid"
      with pos obtain j where j: "j < ?n" "c1 \<le> j" "lst b1 ! j = u" by blast
      have "distinct (lst b1)" using facts by blast
      then have "i = j" using nth_eq_iff_index_eq [of "lst b1" i j] i(3,4) j(1,3) len1 by simp
      with i(2) j(2) show False by simp
    qed
    have "lst b1 ! i = lst b ! (if ?x < ?c \<and> i = ?x then ?c - 1 else if ?x < ?c \<and> i = ?c - 1 then ?x else i)" using facts i(3) by blast
    moreover have "i < ?c" "?x < ?c \<longrightarrow> ?c - 1 < ?n" using i(2,3) cn by (auto simp: c1_def split: if_splits)
    ultimately show "u \<in> behind b" using i un x by (auto simp: behind_def split: if_splits)
  qed
  ultimately have "joined tid b ?b2" unfolding joined_def view using facts mem pos by simp
  with facts up show ?thesis by blast
qed

lemma join_run:
  assumes pre: "bar_pre rand b" and t: "tid < MAX_THREADS" "thS b tid = OFFLINE \<or> thS b tid = LEFT"
  shows "\<exists>b'. bar_join rand cb tid (b, s) = Some (b', s) \<and> bar_inv b' \<and> alive b' \<and> parallelThreads b' = parallelThreads b \<and>
    (\<forall>u<MAX_THREADS. thS b u = RUNNING \<longrightarrow> thS b' u = RUNNING) \<and> inb b' = insert tid (inb b) \<and> behind b' \<subseteq> behind b"
proof -
  have b: "bar_inv b" and rand: "\<forall>r i. fst (rand r i) \<le> i" and p: "0 < parallelThreads b" using pre by (simp_all add: bar_pre_def)
  have len: "length (threadList b) = MAX_THREADS" using bar_invD(1) [OF b] by (simp add: sized_def)
  have rd: "read_at (threadList b) tid = Some (threadList b ! tid)" using t(1) len by (simp add: read_at_def)
  obtain b2 where b2: "bar_join rand cb tid (b, s) = tryWakeNext rand cb (b2, s)" "joined tid b b2"
  proof (cases "thS b tid = OFFLINE")
    case True
    with join_offline [OF b t(1)] rd that show ?thesis by (auto simp: bar_join_def thS_def simp del: read_at_Some)
  next
    case False
    with t(2) have left: "thS b tid = LEFT" by simp
    with join_left [OF b t(1)] rd that show ?thesis by (auto simp: bar_join_def thS_def simp del: read_at_Some)
  qed
  have b2': "bar_inv b2" "0 < parallelThreads b2" "thS b2 = (thS b)(tid := WAITING)" "parallelThreads b2 = parallelThreads b"
    "\<not> turns b2" "behind b2 \<subseteq> behind b" using b2(2) p by (auto simp: joined_def turns_def)
  have "inb b2 = insert tid (inb b)" using t(1) by (auto simp: inb_def b2'(3))
  moreover from tryWakeNext_run [where rand = rand and cb = cb and s = s, OF rand b2'(1,2)] b2'(5) obtain b' where
    "tryWakeNext rand cb (b2, s) = Some (b', s)" "bar_inv b'" "alive b'" "parallelThreads b' = parallelThreads b2" "inb b' = inb b2" "behind b' \<subseteq> behind b2"
    and r: "\<forall>t<MAX_THREADS. thS b2 t = RUNNING \<longrightarrow> thS b' t = RUNNING" by auto
  moreover have "thS b' u = RUNNING" if "u < MAX_THREADS" "thS b u = RUNNING" for u
  proof -
    have "u \<noteq> tid" using that t(2) by auto
    then show ?thesis using r that b2'(3) by simp
  qed
  ultimately show ?thesis using b2(1) b2'(4,6) by (intro exI [of _ b']) auto
qed

subsection \<open>What the scheduler needs of the barrier\<close>

text \<open>
  The threads of the barrier are the cores of the scheduler. \<open>past b\<close> are the cores that wait after they had their turn
  in this phase. A phase ends, and the callback is called, when all other cores inside are such ones; then
  none of them has had its turn in the new phase.
\<close>

locale phase_barrier =
  fixes ok :: "'b \<Rightarrow> bool" and state :: "'b \<Rightarrow> nat \<Rightarrow> BarState" and past :: "'b \<Rightarrow> nat set"
    and join leave sync :: "('s \<Rightarrow> 's option) \<Rightarrow> nat \<Rightarrow> 'b \<times> 's \<Rightarrow> ('b \<times> 's) option"
  assumes past_waits: "c \<in> past b \<Longrightarrow> state b c = WAITING"
    and join_law: "ok b \<Longrightarrow> c < MAX_THREADS \<Longrightarrow> state b c = OFFLINE \<or> state b c = LEFT \<Longrightarrow>
      \<exists>b'. join cb c (b, s) = Some (b', s) \<and> ok b' \<and> past b' \<subseteq> past b \<and>
        {u. u < MAX_THREADS \<and> (state b' u = WAITING \<or> state b' u = RUNNING)} = insert c {u. u < MAX_THREADS \<and> (state b u = WAITING \<or> state b u = RUNNING)} \<and>
        (\<forall>u<MAX_THREADS. state b u = RUNNING \<longrightarrow> state b' u = RUNNING)"
    and sync_law: "ok b \<Longrightarrow> c < MAX_THREADS \<Longrightarrow> state b c = RUNNING \<Longrightarrow>
      (\<forall>u<MAX_THREADS. u \<noteq> c \<longrightarrow> state b u = WAITING \<or> state b u = RUNNING \<longrightarrow> u \<in> past b) \<longrightarrow> cb s \<noteq> None \<Longrightarrow>
      \<exists>b' s'. sync cb c (b, s) = Some (b', s') \<and> ok b' \<and>
        {u. u < MAX_THREADS \<and> (state b' u = WAITING \<or> state b' u = RUNNING)} = {u. u < MAX_THREADS \<and> (state b u = WAITING \<or> state b u = RUNNING)} \<and>
        (\<forall>u<MAX_THREADS. u \<noteq> c \<longrightarrow> state b u = RUNNING \<longrightarrow> state b' u = RUNNING) \<and>
        (s' = s \<and> past b' \<subseteq> insert c (past b) \<or>
         cb s = Some s' \<and> past b' = {} \<and> (\<forall>u<MAX_THREADS. u \<noteq> c \<longrightarrow> state b u = WAITING \<or> state b u = RUNNING \<longrightarrow> u \<in> past b))"
    and leave_law: "ok b \<Longrightarrow> c < MAX_THREADS \<Longrightarrow> state b c = RUNNING \<Longrightarrow>
      (\<forall>u<MAX_THREADS. u \<noteq> c \<longrightarrow> state b u = WAITING \<or> state b u = RUNNING \<longrightarrow> u \<in> past b) \<longrightarrow> cb s \<noteq> None \<Longrightarrow>
      \<exists>b' s'. leave cb c (b, s) = Some (b', s') \<and> ok b' \<and>
        {u. u < MAX_THREADS \<and> (state b' u = WAITING \<or> state b' u = RUNNING)} = {u. u < MAX_THREADS \<and> (state b u = WAITING \<or> state b u = RUNNING)} - {c} \<and>
        (\<forall>u<MAX_THREADS. u \<noteq> c \<longrightarrow> state b u = RUNNING \<longrightarrow> state b' u = RUNNING) \<and>
        (s' = s \<and> past b' \<subseteq> past b \<or>
         cb s = Some s' \<and> past b' = {} \<and> (\<forall>u<MAX_THREADS. u \<noteq> c \<longrightarrow> state b u = WAITING \<or> state b u = RUNNING \<longrightarrow> u \<in> past b))"
begin

text \<open>The cores inside.\<close>

definition inside :: "'b \<Rightarrow> nat set" where
  "inside b = {u. u < MAX_THREADS \<and> (state b u = WAITING \<or> state b u = RUNNING)}"

lemma all_past: "(\<forall>u<MAX_THREADS. u \<noteq> c \<longrightarrow> state b u = WAITING \<or> state b u = RUNNING \<longrightarrow> u \<in> past b) \<longleftrightarrow> inside b - {c} \<subseteq> past b"
  by (auto simp: inside_def)

lemma past_inside: "past b \<inter> {..<MAX_THREADS} \<subseteq> inside b"
  using past_waits by (auto simp: inside_def)

text \<open>Nothing runs while all cores are past their turn, so the callback finds every core inside waiting.\<close>

lemma none_runs: "inside b - {c} \<subseteq> past b \<Longrightarrow> u < MAX_THREADS \<Longrightarrow> u \<noteq> c \<Longrightarrow> state b u \<noteq> RUNNING"
  using past_waits [of u b] by (auto simp: inside_def)

lemma join: "ok b \<Longrightarrow> c < MAX_THREADS \<Longrightarrow> c \<notin> inside b \<Longrightarrow>
    \<exists>b'. join cb c (b, s) = Some (b', s) \<and> ok b' \<and> past b' \<subseteq> past b \<and> inside b' = insert c (inside b) \<and>
      (\<forall>u<MAX_THREADS. state b u = RUNNING \<longrightarrow> state b' u = RUNNING)"
  using join_law [of b c cb s] unfolding inside_def by (cases "state b c") auto

lemma sync: "ok b \<Longrightarrow> c < MAX_THREADS \<Longrightarrow> state b c = RUNNING \<Longrightarrow> (inside b - {c} \<subseteq> past b \<Longrightarrow> cb s \<noteq> None) \<Longrightarrow>
    \<exists>b' s'. sync cb c (b, s) = Some (b', s') \<and> ok b' \<and> inside b' = inside b \<and>
      (\<forall>u<MAX_THREADS. u \<noteq> c \<longrightarrow> state b u = RUNNING \<longrightarrow> state b' u = RUNNING) \<and>
      (s' = s \<and> past b' \<subseteq> insert c (past b) \<or> cb s = Some s' \<and> past b' = {} \<and> inside b - {c} \<subseteq> past b)"
  using sync_law [of b c cb s] unfolding all_past unfolding inside_def by blast

lemma leave: "ok b \<Longrightarrow> c < MAX_THREADS \<Longrightarrow> state b c = RUNNING \<Longrightarrow> (inside b - {c} \<subseteq> past b \<Longrightarrow> cb s \<noteq> None) \<Longrightarrow>
    \<exists>b' s'. leave cb c (b, s) = Some (b', s') \<and> ok b' \<and> inside b' = inside b - {c} \<and>
      (\<forall>u<MAX_THREADS. u \<noteq> c \<longrightarrow> state b u = RUNNING \<longrightarrow> state b' u = RUNNING) \<and>
      (s' = s \<and> past b' \<subseteq> past b \<or> cb s = Some s' \<and> past b' = {} \<and> inside b - {c} \<subseteq> past b)"
  using leave_law [of b c cb s] unfolding all_past unfolding inside_def by blast

end

definition bar_ok :: "('r \<Rightarrow> nat \<Rightarrow> nat \<times> 'r) \<Rightarrow> 'r Barrier \<Rightarrow> bool" where
  "bar_ok rand b \<longleftrightarrow> bar_pre rand b \<and> alive b"

lemma phase_ends_past:
  assumes b: "bar_inv b" and p: "phase_ends c b" and u: "u < MAX_THREADS" "u \<noteq> c" "thS b u = WAITING \<or> thS b u = RUNNING"
  shows "u \<in> behind b"
proof -
  have w: "thS b u = WAITING" using p u by (auto simp: phase_ends_def)
  then have "u \<in> set (lst b)" using goodD(2) [OF bar_invD(2) [OF b], of u] u(1) by simp
  then obtain i where i: "i < runListSize b" "lst b ! i = u" using bar_invD(8) [OF b] by (auto simp: in_set_conv_nth)
  have "\<not> curThreadIdx b \<le> i" using p i w by (auto simp: phase_ends_def turns_def)
  then show ?thesis using i w by (auto simp: behind_def)
qed

lemma not_all_past:
  assumes b: "bar_inv b" and c: "thS b c = RUNNING" and n: "\<not> phase_ends c b"
  shows "\<exists>u<MAX_THREADS. u \<noteq> c \<and> (thS b u = WAITING \<or> thS b u = RUNNING) \<and> u \<notin> behind b"
proof (cases "\<exists>u<MAX_THREADS. u \<noteq> c \<and> thS b u = RUNNING")
  case True
  then show ?thesis by (auto simp: behind_def)
next
  case False
  then obtain i where i: "i < runListSize b" "curThreadIdx b \<le> i" "thS b (lst b ! i) = WAITING" using n by (auto simp: phase_ends_def turns_def)
  let ?u = "lst b ! i"
  note G = goodD [OF bar_invD(2) [OF b]]
  have len: "length (lst b) = runListSize b" by (rule bar_invD(8) [OF b])
  have "?u < MAX_THREADS" "?u \<noteq> c" using G(6) [of i] i(1,3) len c by auto
  moreover have "?u \<notin> behind b"
  proof
    assume "?u \<in> behind b"
    then obtain j where "j < runListSize b" "j < curThreadIdx b" "lst b ! j = ?u" by (auto simp: behind_def)
    then have "j = i" using nth_eq_iff_index_eq [OF G(1)] i(1) len by simp
    with \<open>j < curThreadIdx b\<close> i(2) show False by simp
  qed
  ultimately show ?thesis using i(3) by blast
qed

interpretation bar: phase_barrier "bar_ok rand" thS behind "bar_join rand" "bar_leave rand" "bar_sync rand" for rand :: "'r \<Rightarrow> nat \<Rightarrow> nat \<times> 'r"
proof unfold_locales
  show "c \<in> behind b \<Longrightarrow> thS b c = WAITING" for c and b :: "'r Barrier" by (simp add: behind_def)
next
  fix b :: "'r Barrier" and c and cb :: "'s \<Rightarrow> 's option" and s
  assume b: "bar_ok rand b" "c < MAX_THREADS" and o: "thS b c = OFFLINE \<or> thS b c = LEFT"
  then have pre: "bar_pre rand b" by (simp add: bar_ok_def)
  from join_run [where cb = cb and s = s, OF pre b(2) o] obtain b' where r: "bar_join rand cb c (b, s) = Some (b', s)" "bar_inv b'" "alive b'"
    "parallelThreads b' = parallelThreads b" "\<forall>u<MAX_THREADS. thS b u = RUNNING \<longrightarrow> thS b' u = RUNNING" "inb b' = insert c (inb b)" "behind b' \<subseteq> behind b"
    by blast
  moreover have "bar_ok rand b'" using pre r(2-4) by (simp add: bar_ok_def bar_pre_def)
  ultimately show "\<exists>b'. bar_join rand cb c (b, s) = Some (b', s) \<and> bar_ok rand b' \<and> behind b' \<subseteq> behind b \<and>
      {u. u < MAX_THREADS \<and> (thS b' u = WAITING \<or> thS b' u = RUNNING)} = insert c {u. u < MAX_THREADS \<and> (thS b u = WAITING \<or> thS b u = RUNNING)} \<and>
      (\<forall>u<MAX_THREADS. thS b u = RUNNING \<longrightarrow> thS b' u = RUNNING)"
    by (intro exI [of _ b']) (simp add: inb_def)
next
  fix b :: "'r Barrier" and c and cb :: "'s \<Rightarrow> 's option" and s
  let ?all = "\<forall>u<MAX_THREADS. u \<noteq> c \<longrightarrow> thS b u = WAITING \<or> thS b u = RUNNING \<longrightarrow> u \<in> behind b"
  assume b: "bar_ok rand b" "c < MAX_THREADS" "thS b c = RUNNING" and cb: "?all \<longrightarrow> cb s \<noteq> None"
  have pre: "bar_pre rand b" and i: "bar_inv b" using b(1) by (simp_all add: bar_ok_def bar_pre_def)
  have ends: "phase_ends c b \<longleftrightarrow> ?all" using phase_ends_past [OF i] not_all_past [OF i b(3)] by blast
  have cb': "cb s \<noteq> None" if "phase_ends c b" using that cb ends by blast
  show "\<exists>b' s'. bar_sync rand cb c (b, s) = Some (b', s') \<and> bar_ok rand b' \<and>
      {u. u < MAX_THREADS \<and> (thS b' u = WAITING \<or> thS b' u = RUNNING)} = {u. u < MAX_THREADS \<and> (thS b u = WAITING \<or> thS b u = RUNNING)} \<and>
      (\<forall>u<MAX_THREADS. u \<noteq> c \<longrightarrow> thS b u = RUNNING \<longrightarrow> thS b' u = RUNNING) \<and>
      (s' = s \<and> behind b' \<subseteq> insert c (behind b) \<or> cb s = Some s' \<and> behind b' = {} \<and> ?all)"
    using sync_run [where cb = cb and s = s, OF pre cb' b(2,3)] pre unfolding ends inb_def bar_ok_def bar_pre_def
    by (auto split: if_splits)
  show "\<exists>b' s'. bar_leave rand cb c (b, s) = Some (b', s') \<and> bar_ok rand b' \<and>
      {u. u < MAX_THREADS \<and> (thS b' u = WAITING \<or> thS b' u = RUNNING)} = {u. u < MAX_THREADS \<and> (thS b u = WAITING \<or> thS b u = RUNNING)} - {c} \<and>
      (\<forall>u<MAX_THREADS. u \<noteq> c \<longrightarrow> thS b u = RUNNING \<longrightarrow> thS b' u = RUNNING) \<and>
      (s' = s \<and> behind b' \<subseteq> behind b \<or> cb s = Some s' \<and> behind b' = {} \<and> ?all)"
    using leave_run [where cb = cb and s = s, OF pre cb' b(2,3)] pre unfolding ends inb_def bar_ok_def bar_pre_def
    by (auto split: if_splits)
qed

subsection \<open>Runs\<close>

text \<open>A thread joins when it is out of the barrier, and leaves or syncs while it runs.\<close>

inductive bar_step :: "('r \<Rightarrow> nat \<Rightarrow> nat \<times> 'r) \<Rightarrow> ('s \<Rightarrow> 's option) \<Rightarrow> 'r Barrier \<times> 's \<Rightarrow> 'r Barrier \<times> 's \<Rightarrow> bool" for rand cb where
  join: "tid < MAX_THREADS \<Longrightarrow> bs_state (threadList b ! tid) \<in> {OFFLINE, LEFT} \<Longrightarrow> bar_join rand cb tid (b, s) = Some c \<Longrightarrow>
    bar_step rand cb (b, s) c"
| leave: "tid < MAX_THREADS \<Longrightarrow> bs_state (threadList b ! tid) = RUNNING \<Longrightarrow> bar_leave rand cb tid (b, s) = Some c \<Longrightarrow>
    bar_step rand cb (b, s) c"
| sync: "tid < MAX_THREADS \<Longrightarrow> bs_state (threadList b ! tid) = RUNNING \<Longrightarrow> bar_sync rand cb tid (b, s) = Some c \<Longrightarrow>
    bar_step rand cb (b, s) c"

lemma new_inv: "bar_inv (Barrier_new par idx rnd)" "alive (Barrier_new par idx rnd)"
proof -
  have l: "lst (Barrier_new par idx rnd) = []" by (simp add: lst_def Barrier_new_def)
  have s: "thS (Barrier_new par idx rnd) t = OFFLINE" if "t < MAX_THREADS" for t using that by (simp add: thS_def Barrier_new_def)
  have "sized (Barrier_new par idx rnd)" using s by (auto simp: sized_def) (simp_all add: Barrier_new_def)
  with l s show "bar_inv (Barrier_new par idx rnd)"
    by (auto simp: bar_inv_def good_def num_def) (simp_all add: Barrier_new_def)
  show "alive (Barrier_new par idx rnd)" using l by (simp add: alive_def)
qed

text \<open>A step stays one under a callback that also succeeds elsewhere.\<close>

lemma tryWakeNext_cb:
  "tryWakeNext rand cb c = Some d \<Longrightarrow> (\<And>s s'. cb s = Some s' \<Longrightarrow> cb' s = Some s') \<Longrightarrow> tryWakeNext rand cb' c = Some d"
  by (auto simp: tryWakeNext_def checkEndPhase_def bind_eq_Some_conv split: if_splits prod.splits)

lemma bind_mono: "m \<bind> f = Some x \<Longrightarrow> (\<And>y. f y = Some x \<Longrightarrow> g y = Some x) \<Longrightarrow> m \<bind> g = Some x"
  by (cases m) simp_all

lemma bar_step_cb:
  assumes step: "bar_step rand cb c d" and cb: "\<And>s s'. cb s = Some s' \<Longrightarrow> cb' s = Some s'"
  shows "bar_step rand cb' c d"
proof -
  note wake = tryWakeNext_cb [OF _ cb]
  have j: "bar_join rand cb tid (b, s) = Some x \<Longrightarrow> bar_join rand cb' tid (b, s) = Some x" for tid b s x
    unfolding bar_join_def prod.case by (elim bind_mono wake)
  have l: "bar_leave rand cb tid (b, s) = Some x \<Longrightarrow> bar_leave rand cb' tid (b, s) = Some x" for tid b s x
    unfolding bar_leave_def prod.case by (erule bind_mono) (simp split: if_splits, elim bind_mono wake)
  have y: "bar_sync rand cb tid (b, s) = Some x \<Longrightarrow> bar_sync rand cb' tid (b, s) = Some x" for tid b s x
    unfolding bar_sync_def prod.case by (elim bind_mono wake)
  from step show ?thesis by cases (auto intro: bar_step.intros j l y)
qed

lemma bar_step_inv:
  assumes "bar_step rand cb c d" and rand: "\<forall>r i. fst (rand r i) \<le> i" and i: "bar_inv (fst c)" "0 < parallelThreads (fst c)"
  shows "bar_inv (fst d) \<and> alive (fst d) \<and> parallelThreads (fst d) = parallelThreads (fst c)"
proof -
  let ?cb = "\<lambda>s. case cb s of None \<Rightarrow> Some s | Some s' \<Rightarrow> Some s'"
  have cb: "?cb s \<noteq> None" for s by (simp split: option.split)
  have "bar_step rand ?cb c d" by (rule bar_step_cb [OF assms(1)]) simp
  then show ?thesis
  proof cases
    case (join tid b s)
    have pre: "bar_pre rand b" using rand i join(1) by (simp add: bar_pre_def)
    have "thS b tid = OFFLINE \<or> thS b tid = LEFT" using join(3) by (simp add: thS_def)
    from join_run [where cb = ?cb and s = s, OF pre join(2) this] join show ?thesis by auto
  next
    case (leave tid b s)
    have pre: "bar_pre rand b" using rand i leave(1) by (simp add: bar_pre_def)
    have "thS b tid = RUNNING" using leave(3) by (simp add: thS_def)
    from leave_run [where cb = ?cb and s = s, OF pre cb leave(2) this] leave show ?thesis by auto
  next
    case (sync tid b s)
    have pre: "bar_pre rand b" using rand i sync(1) by (simp add: bar_pre_def)
    have "thS b tid = RUNNING" using sync(3) by (simp add: thS_def)
    from sync_run [where cb = ?cb and s = s, OF pre cb sync(2) this] sync show ?thesis by auto
  qed
qed

lemma bar_run_inv:
  assumes run: "(bar_step rand cb)\<^sup>*\<^sup>* (Barrier_new par idx rnd, sinit) c" and rand: "\<forall>r i. fst (rand r i) \<le> i" and p: "0 < par"
  shows "bar_inv (fst c) \<and> alive (fst c) \<and> parallelThreads (fst c) = par"
  using run
proof (induction rule: rtranclp_induct)
  case base
  then show ?case using new_inv [of par idx rnd] by (simp add: Barrier_new_def)
next
  case (step y z)
  from bar_step_inv [OF step(2) rand] step(3) p show ?case by simp
qed

lemma bar_run_pre:
  assumes "(bar_step rand cb)\<^sup>*\<^sup>* (Barrier_new par idx rnd, sinit) (b, s)" and "\<forall>r i. fst (rand r i) \<le> i" and "0 < par"
  shows "bar_pre rand b" "alive b" "parallelThreads b = par"
  using bar_run_inv [OF assms] assms(2,3) by (simp_all add: bar_pre_def)

text \<open>Two threads under a limit of one: thread 0 runs and thread 1 waits.\<close>

definition two_joined :: "(nat Barrier \<times> nat) option" where
  "two_joined = do {
     c \<leftarrow> bar_join (\<lambda>r i. (0, r)) (\<lambda>s. Some (Suc s)) 0 (Barrier_new 1 (\<lambda>_. 0) (0::nat), 0);
     bar_join (\<lambda>r i. (0, r)) (\<lambda>s. Some (Suc s)) 1 c
   }"

lemma max_pos: "0 < MAX_THREADS" "1 < MAX_THREADS" "MAX_THREADS \<noteq> 0"
  by (simp_all add: MAX_THREADS_def)

lemma checkRunList_full: "\<not> (runningThreads b < parallelThreads b \<and> curThreadIdx b < runListSize b) \<Longrightarrow> checkRunList b = Some b"
  by (simp only: checkRunList.simps [of b] if_False)

definition one_running :: "nat Barrier" where
  "one_running = (Barrier_new 1 (\<lambda>_. 0) (0::nat))\<lparr>threadList := (threadList (Barrier_new 1 (\<lambda>_. 0) (0::nat)))[0 := \<lparr>bs_state = RUNNING, futexWord = 0, lastIdx = 0\<rparr>],
     runListSize := 1, curThreadIdx := 1, runningThreads := 1\<rparr>"

definition one_waiting :: "nat Barrier" where
  "one_waiting = one_running\<lparr>threadList := (threadList one_running)[1 := \<lparr>bs_state = WAITING, futexWord = 1, lastIdx = 0\<rparr>],
     runList := (runList one_running)[1 := 1], runListSize := 2\<rparr>"

lemmas concrete_simps = Barrier_new_def read_at_def write_at_def set_run_def upd_thread_def max_pos tryWakeNext_def checkEndPhase_def

lemma one_running_join: "bar_join rand cb 0 (Barrier_new 1 (\<lambda>_. 0) (0::nat), s) = Some (one_running, s)"
proof -
  let ?b = "(Barrier_new 1 (\<lambda>_. 0) (0::nat))\<lparr>threadList := (threadList (Barrier_new 1 (\<lambda>_. 0) (0::nat)))[0 := \<lparr>bs_state = WAITING, futexWord = 1, lastIdx = 0\<rparr>],
    runListSize := 1\<rparr>"
  have r: "(replicate MAX_THREADS 0)[0 := 0] = replicate MAX_THREADS (0::nat)" by (rule nth_equalityI) (simp_all add: nth_list_update)
  have full: "checkRunList one_running = Some one_running" by (rule checkRunList_full) (simp add: one_running_def)
  have check: "checkRunList ?b = Some one_running"
    using full by (subst checkRunList.simps) (simp add: concrete_simps one_running_def One_nat_def [symmetric] del: One_nat_def)
  have "tryWakeNext rand cb (?b, s) = Some (one_running, s)"
    unfolding tryWakeNext_def by (simp add: check full) (simp add: checkEndPhase_def one_running_def full [unfolded one_running_def])
  moreover have "bar_join rand cb 0 (Barrier_new 1 (\<lambda>_. 0) (0::nat), s) =
      tryWakeNext rand cb (?b, s)"
    by (simp add: bar_join_def Barrier_new_def read_at_def write_at_def set_run_def upd_thread_def max_pos r flip: One_nat_def del: One_nat_def)
  ultimately show ?thesis by simp
qed

lemma one_waiting_join: "bar_join (\<lambda>r i. (0, r)) (\<lambda>s. Some (Suc s)) 1 (one_running, s) = Some (one_waiting, s)"
proof -
  have full: "checkRunList one_waiting = Some one_waiting" by (rule checkRunList_full) (simp add: one_waiting_def one_running_def Barrier_new_def)
  have end_no: "\<not> (curThreadIdx one_waiting = runListSize one_waiting \<and> runningThreads one_waiting = 0)"
    by (simp add: one_waiting_def one_running_def)
  have "tryWakeNext (\<lambda>r i. (0, r)) (\<lambda>s. Some (Suc s)) (one_waiting, s) = Some (one_waiting, s)"
    unfolding tryWakeNext_def checkEndPhase_def by (simp add: full end_no)
  moreover have "bar_join (\<lambda>r i. (0, r)) (\<lambda>s. Some (Suc s)) 1 (one_running, s) =
      tryWakeNext (\<lambda>r i. (0, r)) (\<lambda>s. Some (Suc s)) (one_waiting, s)"
    by (simp add: bar_join_def one_waiting_def one_running_def Barrier_new_def read_at_def write_at_def set_run_def upd_thread_def max_pos)
  ultimately show ?thesis by simp
qed

lemma two_joined_run: "two_joined = Some (one_waiting, 0)"
  using max_pos by (simp add: two_joined_def one_running_join one_waiting_join)

lemma waiting_states: "bs_state (threadList one_waiting ! 0) = RUNNING" "bs_state (threadList one_waiting ! 1) = WAITING"
  by (simp_all add: one_waiting_def one_running_def Barrier_new_def max_pos)

lemma one_waiting_reachable: "(bar_step (\<lambda>r i. (0, r)) (\<lambda>s. Some (Suc s)))\<^sup>*\<^sup>* (Barrier_new 1 (\<lambda>_. 0) (0::nat), s) (one_waiting, s)"
proof (rule converse_rtranclp_into_rtranclp)
  show "bar_step (\<lambda>r i. (0, r)) (\<lambda>s. Some (Suc s)) (Barrier_new 1 (\<lambda>_. 0) (0::nat), s) (one_running, s)"
    by (rule bar_step.join [OF max_pos(1) _ one_running_join]) (simp add: Barrier_new_def max_pos)
  show "(bar_step (\<lambda>r i. (0, r)) (\<lambda>s. Some (Suc s)))\<^sup>*\<^sup>* (one_running, s) (one_waiting, s)"
    by (rule r_into_rtranclp, rule bar_step.join [OF max_pos(2) _ one_waiting_join])
       (simp add: one_running_def Barrier_new_def max_pos)
qed

text \<open>C10: The barrier keeps its limit and never stops: in every state it can reach by joins, leaves and
  syncs of its threads at most \<^verbatim>\<open>parallelThreads\<close> threads run, and if a thread waits then another one is
  running, so the threads in the barrier never wait for each other for good.\<close>

theorem barrier_never_stops:
  assumes "(bar_step rand cb)\<^sup>*\<^sup>* (Barrier_new par idx rnd, sinit) (b, s)" and "\<forall>r i. fst (rand r i) \<le> i" and "0 < par"
  shows "card {t. t < MAX_THREADS \<and> bs_state (threadList b ! t) = RUNNING} \<le> unat par \<and>
    (\<forall>t<MAX_THREADS. bs_state (threadList b ! t) = WAITING \<longrightarrow> (\<exists>u<MAX_THREADS. bs_state (threadList b ! u) = RUNNING))"
proof -
  note pre = bar_run_pre [OF assms]
  have b: "bar_inv b" using pre(1) by (simp add: bar_pre_def)
  note mem = goodD(2) [OF bar_invD(2) [OF b]]
  have "{t. t < MAX_THREADS \<and> thS b t = RUNNING} = {t \<in> set (lst b). thS b t = RUNNING}" by (auto simp: mem)
  then have "card {t. t < MAX_THREADS \<and> thS b t = RUNNING} = num (thS b) RUNNING (lst b)" by (simp only: num_def)
  also have "\<dots> \<le> unat par" using bar_invD(7) [OF b] unfolding pre(3) .
  finally have "card {t. t < MAX_THREADS \<and> thS b t = RUNNING} \<le> unat par" .
  moreover have "\<exists>u<MAX_THREADS. thS b u = RUNNING" if t: "t < MAX_THREADS" "thS b t = WAITING" for t
  proof -
    have "t \<in> set (lst b)" using t by (simp add: mem)
    with t(2) pre(2) have "num (thS b) RUNNING (lst b) \<noteq> 0" by (auto simp: alive_def)
    then show ?thesis by (auto simp: num_0 mem)
  qed
  ultimately show ?thesis by (simp add: thS_def)
qed

theorem barrier_never_stops_witness:
  "card {t. t < MAX_THREADS \<and> bs_state (threadList one_waiting ! t) = RUNNING} \<le> 1 \<and>
    (\<exists>u<MAX_THREADS. bs_state (threadList one_waiting ! u) = RUNNING)"
  using barrier_never_stops [where rand = "\<lambda>r i. (0, r)" and cb = "\<lambda>s. Some (Suc s)" and par = 1 and idx = "\<lambda>_. 0" and rnd = "0::nat" and sinit = "0::nat"
    and b = one_waiting and s = 0] max_pos(2) waiting_states(2)
  by (auto simp: one_waiting_reachable)

text \<open>C11: No operation of the barrier fails, and it stops no thread but its caller. In every reachable state a
  thread that is out of the barrier can join it: then it is in the barrier besides those that were, and every
  running thread still runs. If the callback of the scheduler succeeds on its present state, a thread that runs
  can leave, which takes it and no other thread out of the barrier, and can sync, which leaves all threads in
  the barrier; every other running thread still runs. So every assertion of these operations holds, the run
  list does not overflow and no wakeup races. (\<open>inb\<close> are the threads that wait or run.)\<close>

theorem barrier_ops_return:
  assumes "(bar_step rand cb)\<^sup>*\<^sup>* (Barrier_new par idx rnd, sinit) (b, s)" and "\<forall>r i. fst (rand r i) \<le> i" and "0 < par"
    and t: "tid < MAX_THREADS"
  shows "case bs_state (threadList b ! tid) of
      RUNNING \<Rightarrow> cb s \<noteq> None \<longrightarrow>
        (\<exists>b' s'. bar_leave rand cb tid (b, s) = Some (b', s') \<and> inb b' = inb b - {tid} \<and>
          (\<forall>u<MAX_THREADS. u \<noteq> tid \<longrightarrow> bs_state (threadList b ! u) = RUNNING \<longrightarrow> bs_state (threadList b' ! u) = RUNNING)) \<and>
        (\<exists>b' s'. bar_sync rand cb tid (b, s) = Some (b', s') \<and> inb b' = inb b \<and>
          (\<forall>u<MAX_THREADS. u \<noteq> tid \<longrightarrow> bs_state (threadList b ! u) = RUNNING \<longrightarrow> bs_state (threadList b' ! u) = RUNNING))
    | WAITING \<Rightarrow> True
    | _ \<Rightarrow> (\<exists>b'. bar_join rand cb tid (b, s) = Some (b', s) \<and> inb b' = insert tid (inb b) \<and>
        (\<forall>u<MAX_THREADS. bs_state (threadList b ! u) = RUNNING \<longrightarrow> bs_state (threadList b' ! u) = RUNNING))"
proof -
  note pre = bar_run_pre(1) [OF assms(1-3)]
  show ?thesis
  proof (cases "thS b tid")
    case RUNNING
    have "(\<exists>b' s'. bar_leave rand cb tid (b, s) = Some (b', s') \<and> inb b' = inb b - {tid} \<and>
        (\<forall>u<MAX_THREADS. u \<noteq> tid \<longrightarrow> thS b u = RUNNING \<longrightarrow> thS b' u = RUNNING)) \<and>
      (\<exists>b' s'. bar_sync rand cb tid (b, s) = Some (b', s') \<and> inb b' = inb b \<and>
        (\<forall>u<MAX_THREADS. u \<noteq> tid \<longrightarrow> thS b u = RUNNING \<longrightarrow> thS b' u = RUNNING))" if cb: "cb s \<noteq> None"
      by (rule conjI; insert leave_run [where cb = cb, OF pre cb t RUNNING] sync_run [where cb = cb, OF pre cb t RUNNING];
        elim exE conjE; intro exI conjI; assumption)
    with RUNNING show ?thesis by (simp add: thS_def)
  next
    case OFFLINE
    with join_run [where cb = cb and s = s, OF pre t] have "\<exists>b'. bar_join rand cb tid (b, s) = Some (b', s) \<and> inb b' = insert tid (inb b) \<and>
      (\<forall>u<MAX_THREADS. thS b u = RUNNING \<longrightarrow> thS b' u = RUNNING)" by blast
    with OFFLINE show ?thesis by (simp add: thS_def)
  next
    case LEFT
    with join_run [where cb = cb and s = s, OF pre t] have "\<exists>b'. bar_join rand cb tid (b, s) = Some (b', s) \<and> inb b' = insert tid (inb b) \<and>
      (\<forall>u<MAX_THREADS. thS b u = RUNNING \<longrightarrow> thS b' u = RUNNING)" by blast
    with LEFT show ?thesis by (simp add: thS_def)
  qed (simp add: thS_def)
qed

theorem barrier_ops_return_witness:
  "(\<exists>b' s'. bar_leave (\<lambda>r i. (0, r)) (\<lambda>s. Some (Suc s)) 0 (one_waiting, 0) = Some (b', s') \<and> inb b' = inb one_waiting - {0}) \<and>
   (\<exists>b' s'. bar_sync (\<lambda>r i. (0, r)) (\<lambda>s. Some (Suc s)) 0 (one_waiting, 0) = Some (b', s') \<and> inb b' = inb one_waiting)"
proof -
  from barrier_ops_return [where rand = "\<lambda>r i. (0, r)" and cb = "\<lambda>s. Some (Suc s)" and par = 1 and idx = "\<lambda>_. 0" and rnd = "0::nat" and sinit = "0::nat"
    and b = one_waiting and s = 0 and tid = 0, OF one_waiting_reachable _ _ max_pos(1), unfolded waiting_states(1) BarState.case]
  show ?thesis by (simp only: prod.sel) fastforce
qed

text \<open>C12: A phase ends exactly when every thread had its turn: in every reachable state of the barrier a sync
  of a running thread calls the callback of the scheduler, once, if no other thread runs and no thread of the
  run list from the current index on waits, and otherwise not at all. (The callback must succeed on the present
  state of the scheduler.)\<close>

theorem barrier_phase_end:
  assumes "(bar_step rand cb)\<^sup>*\<^sup>* (Barrier_new par idx rnd, sinit) (b, s)" and "\<forall>r i. fst (rand r i) \<le> i" and "0 < par"
    and cb: "cb s \<noteq> None" and t: "tid < MAX_THREADS" and run: "bs_state (threadList b ! tid) = RUNNING"
  shows "map_option snd (bar_sync rand cb tid (b, s)) =
    (if (\<forall>u<MAX_THREADS. u \<noteq> tid \<longrightarrow> bs_state (threadList b ! u) \<noteq> RUNNING) \<and>
        (\<forall>i<runListSize b. curThreadIdx b \<le> i \<longrightarrow> bs_state (threadList b ! (runList b ! i)) \<noteq> WAITING)
     then cb s else Some s)"
proof -
  have tS: "thS b tid = RUNNING" using run by (simp add: thS_def)
  have turns: "turns b \<longleftrightarrow> (\<forall>i<runListSize b. curThreadIdx b \<le> i \<longrightarrow> bs_state (threadList b ! (runList b ! i)) \<noteq> WAITING)"
    by (simp add: turns_def thS_def lst_nth)
  from sync_run [where cb = cb, OF bar_run_pre(1) [OF assms(1-3)] cb t tS] obtain b' s' where
    run: "bar_sync rand cb tid (b, s) = Some (b', s')"
    and s': "Some s' = (if turns b \<and> (\<forall>u<MAX_THREADS. u \<noteq> tid \<longrightarrow> thS b u \<noteq> RUNNING) then cb s else Some s)"
    unfolding phase_ends_def by (elim exE conjE) (rule that)
  have "map_option snd (bar_sync rand cb tid (b, s)) = Some s'" using run by simp
  also note s'
  finally show ?thesis unfolding turns thS_def by (simp only: conj_commute)
qed

theorem barrier_phase_end_witness:
  "map_option snd (bar_sync (\<lambda>r i. (0, r)) (\<lambda>s. Some (Suc s)) 0 (one_waiting, 0)) = Some 0"
proof -
  have "1 < runListSize one_waiting" "curThreadIdx one_waiting \<le> 1" "runList one_waiting ! 1 = 1"
    by (simp_all add: one_waiting_def one_running_def Barrier_new_def max_pos)
  with waiting_states(2) have more: "\<not> (\<forall>i<runListSize one_waiting. curThreadIdx one_waiting \<le> i \<longrightarrow>
      bs_state (threadList one_waiting ! (runList one_waiting ! i)) \<noteq> WAITING)" by force
  from barrier_phase_end [where rand = "\<lambda>r i. (0, r)" and cb = "\<lambda>s. Some (Suc s)" and par = 1 and idx = "\<lambda>_. 0" and rnd = "0::nat" and sinit = "0::nat"
    and b = one_waiting and s = 0 and tid = 0]
  show ?thesis using more by (simp only: if_False conj_absorb simp_thms) (simp add: one_waiting_reachable max_pos waiting_states)
qed

subsection \<open>A thread that leaves before its turn\<close>








abbreviation "stay \<equiv> (\<lambda>s::nat. Some s)"
abbreviation "rnd0 \<equiv> (\<lambda>(r::nat) (i::nat). (0::nat, r))"








end
