(* ===== verification/In_List.thy ===== *)
theory In_List imports Prelude begin

text \<open>
  The intrusive doubly linked list of \<^verbatim>\<open>zsim/src/intrusive_list.h\<close>, which holds the queues of the
  scheduler. The nodes of all lists live in one store and a pointer to a node is its index; a list is
  its head, its tail, its length, and the name \<open>self\<close> that the nodes it owns point back to. The end has the two
  loops of the scheduler over its queues. \<open>In_List_Contract\<close> shows that all of them refine operations on
  a list of nodes.
\<close>

record InListNode =
  nxt :: "nat option"
  prv :: "nat option"
  owner :: "nat option"

record InList =
  self :: nat
  head :: "nat option"
  tail :: "nat option"
  elems :: nat

type_synonym nodes = "InListNode list"

definition InListNode_new :: InListNode where
  "InListNode_new = \<lparr>nxt = None, prv = None, owner = None\<rparr>"

definition InList_new :: "nat \<Rightarrow> InList" where
  "InList_new q = \<lparr>self = q, head = None, tail = None, elems = 0\<rparr>"

definition upd_node :: "nat \<Rightarrow> (InListNode \<Rightarrow> InListNode) \<Rightarrow> nodes \<Rightarrow> nodes option" where
  "upd_node e f h = do {
     n \<leftarrow> read_at h e;
     Some (h[e := f n])
   }"

definition deref :: "nat option \<Rightarrow> nodes \<Rightarrow> InListNode option" where
  "deref p h = (case p of None \<Rightarrow> None | Some e \<Rightarrow> read_at h e)"

text \<open>The update of a field through a pointer that may be null.\<close>

definition upd_if :: "nat option \<Rightarrow> (InListNode \<Rightarrow> InListNode) \<Rightarrow> nodes \<Rightarrow> nodes option" where
  "upd_if p f h = (case p of None \<Rightarrow> Some h | Some e \<Rightarrow> upd_node e f h)"

definition unlink :: "nat \<Rightarrow> InList \<Rightarrow> nodes \<Rightarrow> nodes option" where
  "unlink e lst h = do {
     n \<leftarrow> read_at h e;
     h \<leftarrow> upd_if (nxt n) (\<lambda>m. m\<lparr>prv := prv n\<rparr>) h;
     h \<leftarrow> upd_if (prv n) (\<lambda>m. m\<lparr>nxt := nxt n\<rparr>) h;
     h \<leftarrow> upd_node e (\<lambda>m. m\<lparr>nxt := None, prv := None\<rparr>) h;
     assert_that (owner n = Some (self lst));
     upd_node e (\<lambda>m. m\<lparr>owner := None\<rparr>) h
   }"

definition linkPrev :: "nat \<Rightarrow> nat \<Rightarrow> InList \<Rightarrow> nodes \<Rightarrow> nodes option" where
  "linkPrev e p lst h = do {
     n \<leftarrow> read_at h e;
     assert_that (owner n = None);
     assert_that (prv n = None \<and> nxt n = None);
     m \<leftarrow> read_at h p;
     h \<leftarrow> (case nxt m of None \<Rightarrow> Some h | Some q \<Rightarrow> do {
             k \<leftarrow> read_at h q;
             assert_that (prv k = Some p);
             h \<leftarrow> upd_node q (\<lambda>k. k\<lparr>prv := Some e\<rparr>) h;
             upd_node e (\<lambda>n. n\<lparr>nxt := Some q\<rparr>) h
           });
     h \<leftarrow> upd_node p (\<lambda>m. m\<lparr>nxt := Some e\<rparr>) h;
     upd_node e (\<lambda>n. n\<lparr>prv := Some p, owner := Some (self lst)\<rparr>) h
   }"

definition in_empty :: "InList \<Rightarrow> bool" where
  "in_empty l \<longleftrightarrow> head l = None"

definition in_front :: "InList \<Rightarrow> nat option" where
  "in_front l = head l"

definition in_back :: "InList \<Rightarrow> nat option" where
  "in_back l = tail l"

definition in_size :: "InList \<Rightarrow> nat" where
  "in_size l = elems l"

definition push_front :: "nat \<Rightarrow> InList \<times> nodes \<Rightarrow> (InList \<times> nodes) option" where
  "push_front e = (\<lambda>(l, h). do {
     n \<leftarrow> read_at h e;
     assert_that (nxt n = None \<and> prv n = None \<and> owner n = None);
     (l, h) \<leftarrow> (case head l of
         None \<Rightarrow> Some (l\<lparr>head := Some e, tail := Some e\<rparr>, h)
       | Some d \<Rightarrow> do {
           m \<leftarrow> read_at h d;
           assert_that (prv m = None \<and> owner m = Some (self l));
           h \<leftarrow> upd_node e (\<lambda>n. n\<lparr>nxt := Some d\<rparr>) h;
           h \<leftarrow> upd_node d (\<lambda>m. m\<lparr>prv := Some e\<rparr>) h;
           Some (l\<lparr>head := Some e\<rparr>, h)
         });
     h \<leftarrow> upd_node e (\<lambda>n. n\<lparr>owner := Some (self l)\<rparr>) h;
     Some (l\<lparr>elems := Suc (elems l)\<rparr>, h)
   })"

definition push_back :: "nat \<Rightarrow> InList \<times> nodes \<Rightarrow> (InList \<times> nodes) option" where
  "push_back e = (\<lambda>(l, h). do {
     n \<leftarrow> read_at h e;
     assert_that (nxt n = None \<and> prv n = None \<and> owner n = None);
     (l, h) \<leftarrow> (if in_empty l then do {
           h \<leftarrow> upd_node e (\<lambda>n. n\<lparr>owner := Some (self l)\<rparr>) h;
           Some (l\<lparr>head := Some e, tail := Some e\<rparr>, h)
         } else case tail l of None \<Rightarrow> None | Some t \<Rightarrow> do {
           h \<leftarrow> linkPrev e t l h;
           Some (l\<lparr>tail := Some e\<rparr>, h)
         });
     Some (l\<lparr>elems := Suc (elems l)\<rparr>, h)
   })"

definition pop_front :: "InList \<times> nodes \<Rightarrow> (InList \<times> nodes) option" where
  "pop_front = (\<lambda>(l, h). (case head l of None \<Rightarrow> Some (l, h) | Some e \<Rightarrow> do {
     n \<leftarrow> read_at h e;
     let l = l\<lparr>head := nxt n\<rparr>;
     h \<leftarrow> unlink e l h;
     let l = (if head l = None then l\<lparr>tail := None\<rparr> else l);
     Some (l\<lparr>elems := elems l - 1\<rparr>, h)
   }))"

definition pop_back :: "InList \<times> nodes \<Rightarrow> (InList \<times> nodes) option" where
  "pop_back = (\<lambda>(l, h). (if in_empty l then Some (l, h) else case tail l of None \<Rightarrow> None | Some e \<Rightarrow> do {
     n \<leftarrow> read_at h e;
     let l = l\<lparr>tail := prv n\<rparr>;
     h \<leftarrow> unlink e l h;
     let l = (if tail l = None then l\<lparr>head := None\<rparr> else l);
     Some (l\<lparr>elems := elems l - 1\<rparr>, h)
   }))"

definition in_remove :: "nat \<Rightarrow> InList \<times> nodes \<Rightarrow> (InList \<times> nodes) option" where
  "in_remove e = (\<lambda>(l, h). do {
     n \<leftarrow> read_at h e;
     let l = (if Some e = head l then l\<lparr>head := nxt n\<rparr> else l);
     let l = (if Some e = tail l then l\<lparr>tail := prv n\<rparr> else l);
     h \<leftarrow> unlink e l h;
     Some (l\<lparr>elems := elems l - 1\<rparr>, h)
   })"

definition insertAfter :: "nat \<Rightarrow> nat \<Rightarrow> InList \<times> nodes \<Rightarrow> (InList \<times> nodes) option" where
  "insertAfter p e = (\<lambda>(l, h). do {
     n \<leftarrow> read_at h e;
     assert_that (owner n = None);
     m \<leftarrow> read_at h p;
     assert_that (owner m = Some (self l));
     h \<leftarrow> linkPrev e p l h;
     let l = (if Some p = tail l then l\<lparr>tail := Some e\<rparr> else l);
     Some (l\<lparr>elems := Suc (elems l)\<rparr>, h)
   })"

subsection \<open>The loops of the scheduler over a queue\<close>

text \<open>The first node from \<open>p\<close> on that satisfies a condition, with a bound on the steps.\<close>

fun scan :: "nat \<Rightarrow> (nat \<Rightarrow> bool) \<Rightarrow> nodes \<Rightarrow> nat option \<Rightarrow> nat option option" where
  "scan n P h None = Some None"
| "scan 0 P h (Some e) = None"
| "scan (Suc n) P h (Some e) = (if P e then Some (Some e) else do {
     m \<leftarrow> read_at h e;
     scan n P h (nxt m)
   })"

text \<open>The loop of \<^verbatim>\<open>schedContext\<close>, which also \<^verbatim>\<open>schedThread\<close> has: it removes the first node of a queue that
  satisfies a condition.\<close>

definition scan_remove :: "nat \<Rightarrow> (nat \<Rightarrow> bool) \<Rightarrow> InList \<times> nodes \<Rightarrow> (nat option \<times> InList \<times> nodes) option" where
  "scan_remove n P = (\<lambda>(l, h). do {
     r \<leftarrow> scan n P h (in_front l);
     (case r of None \<Rightarrow> Some (None, l, h)
      | Some e \<Rightarrow> do {
          c \<leftarrow> in_remove e (l, h);
          Some (Some e, c)
        })
   })"

text \<open>The ordered insertion of \<^verbatim>\<open>leave\<close> into the queue of the sleeping threads, by the key \<open>k\<close> of a node.\<close>

fun last_le :: "nat \<Rightarrow> (nat \<Rightarrow> u64) \<Rightarrow> u64 \<Rightarrow> nodes \<Rightarrow> nat \<Rightarrow> nat option" where
  "last_le 0 k w h cur = None"
| "last_le (Suc n) k w h cur = do {
     m \<leftarrow> read_at h cur;
     (case nxt m of
        None \<Rightarrow> Some cur
      | Some e \<Rightarrow> (if k e \<le> w then last_le n k w h e else Some cur))
   }"

definition insert_ordered :: "nat \<Rightarrow> (nat \<Rightarrow> u64) \<Rightarrow> nat \<Rightarrow> InList \<times> nodes \<Rightarrow> (InList \<times> nodes) option" where
  "insert_ordered n k e = (\<lambda>(l, h). (case in_front l of
     None \<Rightarrow> push_front e (l, h)
   | Some d \<Rightarrow> (if k d > k e then push_front e (l, h)
       else do {
         cur \<leftarrow> last_le n k (k e) h d;
         insertAfter cur e (l, h)
       })))"

end
