(* ===== verification/In_List_Contract.thy ===== *)
theory In_List_Contract imports In_List begin

text \<open>
  The intrusive list implements a list of nodes. \<open>rep l h xs\<close> reads a list in the store \<open>h\<close> as the list
  \<open>xs\<close> of its nodes; every operation keeps the reading up to date and changes no node outside of it, so
  several lists with different nodes live in one store.
\<close>

definition first_of :: "nat list \<Rightarrow> nat option \<Rightarrow> nat option" where
  "first_of xs n = (case xs of [] \<Rightarrow> n | x # _ \<Rightarrow> Some x)"

definition last_of :: "nat option \<Rightarrow> nat list \<Rightarrow> nat option" where
  "last_of p xs = (if xs = [] then p else Some (last xs))"

lemma first_of_simps [simp]: "first_of [] n = n" "first_of (x # xs) n = Some x" "first_of (xs @ ys) n = first_of xs (first_of ys n)"
  by (simp_all add: first_of_def split: list.splits)

lemma last_of_simps [simp]: "last_of p [] = p" "last_of p (x # xs) = last_of (Some x) xs" "last_of p (xs @ ys) = last_of (last_of p xs) ys"
  by (simp_all add: last_of_def)

lemma ends_nonempty: "xs \<noteq> [] \<Longrightarrow> first_of xs n = Some (hd xs)" "xs \<noteq> [] \<Longrightarrow> last_of p xs = Some (last xs)"
  by (simp_all add: first_of_def last_of_def split: list.splits)

text \<open>The doubly linked segment of the nodes \<open>xs\<close> of list \<open>q\<close>, between the pointers \<open>p\<close> and \<open>n\<close>.\<close>

fun dll :: "nodes \<Rightarrow> nat \<Rightarrow> nat option \<Rightarrow> nat list \<Rightarrow> nat option \<Rightarrow> bool" where
  "dll h q p [] n \<longleftrightarrow> True"
| "dll h q p (x # xs) n \<longleftrightarrow> x < length h \<and> h ! x = \<lparr>nxt = first_of xs n, prv = p, owner = Some q\<rparr> \<and> dll h q (Some x) xs n"

definition rep :: "InList \<Rightarrow> nodes \<Rightarrow> nat list \<Rightarrow> bool" where
  "rep l h xs \<longleftrightarrow> dll h (self l) None xs None \<and> distinct xs \<and> head l = first_of xs None \<and> tail l = last_of None xs \<and> elems l = length xs"

text \<open>A store that differs from another in the nodes of a set only.\<close>

definition same_outside :: "nat set \<Rightarrow> nodes \<Rightarrow> nodes \<Rightarrow> bool" where
  "same_outside X h h' \<longleftrightarrow> length h' = length h \<and> (\<forall>i. i \<notin> X \<longrightarrow> h' ! i = h ! i)"

lemma dll_append: "dll h q p (xs @ ys) n \<longleftrightarrow> dll h q p xs (first_of ys n) \<and> dll h q (last_of p xs) ys n"
  by (induction xs arbitrary: p) auto

lemma dll_frame: "same_outside X h h' \<Longrightarrow> X \<inter> set xs = {} \<Longrightarrow> dll h q p xs n \<Longrightarrow> dll h' q p xs n"
  by (induction xs arbitrary: p) (auto simp: same_outside_def)

lemma dll_update: "e \<notin> set xs \<Longrightarrow> dll (h[e := v]) q p xs n = dll h q p xs n"
  by (induction xs arbitrary: p) auto

lemma dll_in: "dll h q p xs n \<Longrightarrow> x \<in> set xs \<Longrightarrow> x < length h \<and> owner (h ! x) = Some q"
  by (induction xs arbitrary: p) auto

lemma rep_frame: "rep l h xs \<Longrightarrow> same_outside X h h' \<Longrightarrow> X \<inter> set xs = {} \<Longrightarrow> rep l h' xs"
  using dll_frame by (simp add: rep_def)

lemma rep_owner: "rep l h xs \<Longrightarrow> x \<in> set xs \<Longrightarrow> x < length h \<and> owner (h ! x) = Some (self l)"
  using dll_in by (auto simp: rep_def)

lemma rep_new: "rep (InList_new q) h []"
  by (simp add: rep_def InList_new_def)

lemma rep_fun: "rep l h xs \<Longrightarrow> rep l h ys \<Longrightarrow> xs = ys"
proof -
  have "dll h q p xs n \<Longrightarrow> dll h q p ys n \<Longrightarrow> first_of xs n = first_of ys n \<Longrightarrow> length xs = length ys \<Longrightarrow> xs = ys" for q p n
  proof (induction xs arbitrary: p ys)
    case (Cons x xs)
    then show ?case by (cases ys) auto
  qed simp
  then show "rep l h xs \<Longrightarrow> rep l h ys \<Longrightarrow> xs = ys" unfolding rep_def by metis
qed

text \<open>The end pointer of a segment and the pointer before it are fields of its last and its first node.\<close>

lemma dll_set_nxt:
  assumes "dll h q p xs n" "distinct xs" "xs \<noteq> []"
  shows "dll (h[last xs := (h ! last xs)\<lparr>nxt := m\<rparr>]) q p xs m"
proof -
  obtain ys e where xs: "xs = ys @ [e]" using assms(3) by (metis append_butlast_last_id)
  show ?thesis using assms(1,2) unfolding xs by (simp add: dll_append dll_update)
qed

lemma dll_set_prv:
  assumes "dll h q p (x # xs) n" "distinct (x # xs)"
  shows "dll (h[x := (h ! x)\<lparr>prv := m\<rparr>]) q m (x # xs) n"
  using assms by (simp add: dll_update)

lemmas op_simps = upd_node_def upd_if_def read_at_def assert_that_def

subsection \<open>remove\<close>

text \<open>The nodes before and after an unlinked node become neighbours.\<close>

lemma unlink_run:
  assumes d: "dll h q None (xs @ e # ys) None" "distinct (xs @ e # ys)" and q: "self l = q"
  shows "\<exists>h'. unlink e l h = Some h' \<and> dll h' q None (xs @ ys) None \<and> h' ! e = InListNode_new \<and> same_outside (set (xs @ e # ys)) h h'"
proof -
  have e: "e < length h" "h ! e = \<lparr>nxt = first_of ys None, prv = last_of None xs, owner = Some q\<rparr>"
    and xs: "dll h q None xs (Some e)" and ys: "dll h q (Some e) ys None" using d(1) by (auto simp: dll_append)
  define h1 where "h1 = (case ys of [] \<Rightarrow> h | y # _ \<Rightarrow> h[y := (h ! y)\<lparr>prv := last_of None xs\<rparr>])"
  have len1: "length h1 = length h" by (simp add: h1_def split: list.splits)
  have 1: "upd_if (first_of ys None) (\<lambda>m. m\<lparr>prv := last_of None xs\<rparr>) h = Some h1"
    using ys by (cases ys) (simp_all add: op_simps h1_def)
  have xs1: "dll h1 q None xs (Some e)" "dll h1 q (last_of None xs) ys None" "h1 ! e = h ! e"
    using xs ys d(2) dll_set_prv [of h q "Some e" _ _ None] by (auto simp: h1_def dll_update split: list.splits)
  define h2 where "h2 = (if xs = [] then h1 else h1[last xs := (h1 ! last xs)\<lparr>nxt := first_of ys None\<rparr>])"
  have lastxs: "xs \<noteq> [] \<Longrightarrow> last xs < length h" using dll_in [OF xs] by simp
  have 2: "upd_if (last_of None xs) (\<lambda>m. m\<lparr>nxt := first_of ys None\<rparr>) h1 = Some h2"
    using lastxs len1 by (auto simp: op_simps h2_def last_of_def)
  have out: "xs \<noteq> [] \<Longrightarrow> last xs \<notin> set ys \<and> last xs \<noteq> e" using d(2) last_in_set by fastforce
  have xs2: "dll h2 q None xs (first_of ys None)" "dll h2 q (last_of None xs) ys None" "h2 ! e = h ! e" "length h2 = length h"
    using xs1 d(2) dll_set_nxt [OF xs1(1)] out len1 by (auto simp: h2_def dll_update)
  have notin: "e \<notin> set xs" "e \<notin> set ys" using d(2) by auto
  have "unlink e l h = Some (h2[e := InListNode_new])"
    using e xs2(3,4) q by (simp add: unlink_def 1 2 upd_node_def read_at_def InListNode_new_def)
  moreover have "dll (h2[e := InListNode_new]) q None (xs @ ys) None" using xs2 notin by (simp add: dll_append dll_update)
  moreover have "same_outside (set (xs @ e # ys)) h (h2[e := InListNode_new])"
    by (auto simp: same_outside_def h2_def h1_def split: list.splits) (metis last_in_set nth_list_update_neq)+
  ultimately show ?thesis using e(1) xs2(4) by auto
qed

lemma rep_split: "rep l h (xs @ e # ys) \<Longrightarrow> dll h (self l) None (xs @ e # ys) None \<and> distinct (xs @ e # ys)"
  by (simp add: rep_def)

lemma node_at: "rep l h (xs @ e # ys) \<Longrightarrow> e < length h \<and> h ! e = \<lparr>nxt = first_of ys None, prv = last_of None xs, owner = Some (self l)\<rparr>"
  by (simp add: rep_def dll_append)

theorem remove_refines:
  assumes "rep l h xs" "e \<in> set xs"
  shows "\<exists>l' h'. in_remove e (l, h) = Some (l', h') \<and> self l' = self l \<and> rep l' h' (remove1 e xs) \<and> h' ! e = InListNode_new \<and>
    same_outside (set xs) h h'"
proof -
  obtain as bs where xs: "xs = as @ e # bs" using assms(2) by (meson split_list)
  note r = assms(1) [unfolded xs]
  have d: "e \<notin> set as" "e \<notin> set bs" using r by (simp_all add: rep_def)
  have hd: "Some e = first_of (as @ e # bs) None \<longleftrightarrow> as = []" using d by (cases as) auto
  have tl: "Some e = last_of None (as @ e # bs) \<longleftrightarrow> bs = []" using d by (auto simp: last_of_def)
  define l' where "l' = l\<lparr>head := first_of (as @ bs) None, tail := last_of None (as @ bs), elems := length (as @ bs)\<rparr>"
  obtain h' where u0: "unlink e l h = Some h'" and h': "dll h' (self l) None (as @ bs) None" "h' ! e = InListNode_new"
      "same_outside (set (as @ e # bs)) h h'"
    using unlink_run [of h "self l" as e bs l] rep_split [OF r] by auto
  have u: "unlink e k h = Some h'" if "self k = self l" for k using u0 that by (simp add: unlink_def)
  have "in_remove e (l, h) = Some (l', h')"
    using r node_at [OF r] hd tl d
    by (cases "as = []"; cases "bs = []") (auto simp: in_remove_def u l'_def rep_def read_at_def ends_nonempty intro!: InList.equality)
  moreover have "rep l' h' (as @ bs)" using h' r by (simp add: rep_def l'_def)
  moreover have "remove1 e xs = as @ bs" using d by (simp add: xs remove1_append)
  ultimately show ?thesis using h' by (auto simp: l'_def xs)
qed

subsection \<open>Insertions\<close>

text \<open>A free node is linked behind node \<open>p\<close> of a list.\<close>

lemma linkPrev_run:
  assumes d: "dll h q None (xs @ p # ys) None" "distinct (xs @ p # ys)" and q: "self l = q"
    and e: "e < length h" "h ! e = InListNode_new"
  shows "\<exists>h'. linkPrev e p l h = Some h' \<and> dll h' q None (xs @ p # e # ys) None \<and> same_outside (insert e (set (xs @ p # ys))) h h'"
proof -
  have fresh: "e \<notin> set (xs @ p # ys)" using dll_in [OF d(1), of e] e by (auto simp: InListNode_new_def)
  have p: "p < length h" "h ! p = \<lparr>nxt = first_of ys None, prv = last_of None xs, owner = Some q\<rparr>"
    and xs: "dll h q None xs (Some p)" and ys: "dll h q (Some p) ys None" using d(1) by (auto simp: dll_append)
  show ?thesis
  proof (cases ys)
    case Nil
    let ?h = "h[p := (h ! p)\<lparr>nxt := Some e\<rparr>, e := \<lparr>nxt = None, prv = Some p, owner = Some q\<rparr>]"
    have "linkPrev e p l h = Some ?h"
      using e p fresh Nil q by (simp add: linkPrev_def upd_node_def read_at_def InListNode_new_def)
    moreover have "dll ?h q None (xs @ p # e # ys) None"
      using xs p e fresh d(2) Nil by (auto simp: dll_append dll_update)
    ultimately show ?thesis using Nil by (auto simp: same_outside_def)
  next
    case (Cons y zs)
    let ?h = "h[y := (h ! y)\<lparr>prv := Some e\<rparr>, p := (h ! p)\<lparr>nxt := Some e\<rparr>, e := \<lparr>nxt = Some y, prv = Some p, owner = Some q\<rparr>]"
    have neq: "e \<noteq> y" "e \<noteq> p" "p \<noteq> y" using fresh d(2) Cons by auto
    have y: "y < length h" "prv (h ! y) = Some p" using ys Cons by simp_all
    have "linkPrev e p l h = Some ?h"
      using e p fresh Cons q y neq
      by (simp add: linkPrev_def upd_node_def read_at_def InListNode_new_def list_update_swap [of e p] list_update_swap [of e y])
    moreover have "dll ?h q None (xs @ p # e # ys) None"
      using xs ys p e fresh d(2) Cons by (auto simp: dll_append dll_update)
    ultimately show ?thesis using Cons by (auto simp: same_outside_def)
  qed
qed

lemma push_front_run:
  assumes r: "rep l h xs" and e: "e < length h" "h ! e = InListNode_new"
  shows "\<exists>l' h'. push_front e (l, h) = Some (l', h') \<and> self l' = self l \<and> rep l' h' (e # xs) \<and> same_outside (insert e (set xs)) h h'"
proof (cases xs)
  case Nil
  with r e show ?thesis
    by (auto simp: push_front_def rep_def read_at_def upd_node_def InListNode_new_def same_outside_def)
next
  case (Cons x ys)
  have fresh: "e \<notin> set xs" using rep_owner [OF r, of e] e by (auto simp: InListNode_new_def)
  let ?h = "h[e := \<lparr>nxt = Some x, prv = None, owner = Some (self l)\<rparr>, x := (h ! x)\<lparr>prv := Some e\<rparr>]"
  let ?l = "l\<lparr>head := Some e, elems := Suc (elems l)\<rparr>"
  have x: "x < length h" "prv (h ! x) = None" "owner (h ! x) = Some (self l)" using r Cons by (simp_all add: rep_def)
  have "push_front e (l, h) = Some (?l, ?h)"
    using r e x fresh Cons
    by (auto simp: push_front_def rep_def read_at_def upd_node_def InListNode_new_def list_update_swap [of x e])
  moreover have "rep ?l ?h (e # xs)" using r e x fresh Cons by (auto simp: rep_def dll_update)
  ultimately show ?thesis using Cons by (auto simp: same_outside_def)
qed

lemma push_back_run:
  assumes r: "rep l h xs" and e: "e < length h" "h ! e = InListNode_new"
  shows "\<exists>l' h'. push_back e (l, h) = Some (l', h') \<and> self l' = self l \<and> rep l' h' (xs @ [e]) \<and> same_outside (insert e (set xs)) h h'"
proof (cases "xs = []")
  case True
  with r e show ?thesis
    by (auto simp: push_back_def rep_def in_empty_def read_at_def upd_node_def InListNode_new_def same_outside_def)
next
  case False
  then obtain ys t where xs: "xs = ys @ [t]" by (metis append_butlast_last_id)
  have fresh: "e \<notin> set xs" using rep_owner [OF r, of e] e by (auto simp: InListNode_new_def)
  obtain h' where "linkPrev e t l h = Some h'" "dll h' (self l) None (xs @ [e]) None" "same_outside (insert e (set xs)) h h'"
    using linkPrev_run [of h "self l" ys t "[]" l e] r e xs by (auto simp: rep_def)
  moreover from r xs have "tail l = Some t" "head l \<noteq> None" "head l = first_of xs None" "elems l = length xs" "distinct xs"
    by (auto simp: rep_def first_of_def split: list.splits)
  ultimately show ?thesis using e fresh
    by (auto simp: push_back_def rep_def in_empty_def read_at_def InListNode_new_def xs)
qed

lemma insertAfter_run:
  assumes r: "rep l h (xs @ p # ys)" and e: "e < length h" "h ! e = InListNode_new"
  shows "\<exists>l' h'. insertAfter p e (l, h) = Some (l', h') \<and> self l' = self l \<and> rep l' h' (xs @ p # e # ys) \<and>
    same_outside (insert e (set (xs @ p # ys))) h h'"
proof -
  have fresh: "e \<notin> set (xs @ p # ys)" using rep_owner [OF r, of e] e by (auto simp: InListNode_new_def)
  obtain h' where h': "linkPrev e p l h = Some h'" "dll h' (self l) None (xs @ p # e # ys) None"
      "same_outside (insert e (set (xs @ p # ys))) h h'"
    using linkPrev_run [OF _ _ refl e, of l xs p ys] rep_split [OF r] by blast
  let ?l = "l\<lparr>tail := last_of None (xs @ p # e # ys), elems := Suc (elems l)\<rparr>"
  have "Some p = tail l \<longleftrightarrow> ys = []" using r by (auto simp: rep_def last_of_def)
  then have "insertAfter p e (l, h) = Some (?l, h')"
    using h'(1) node_at [OF r] e r
    by (cases "ys = []") (auto simp: insertAfter_def read_at_def InListNode_new_def rep_def ends_nonempty intro!: InList.equality)
  moreover have "rep ?l h' (xs @ p # e # ys)" using h'(2) r fresh by (auto simp: rep_def)
  ultimately show ?thesis using h'(3) by auto
qed

subsection \<open>Pops and the loops\<close>

lemma unlink_self: "unlink e (l\<lparr>head := p\<rparr>) h = unlink e l h" "unlink e (l\<lparr>tail := p\<rparr>) h = unlink e l h"
  by (simp_all add: unlink_def)

lemma pop_front_remove: "rep l h xs \<Longrightarrow> pop_front (l, h) = (case xs of [] \<Rightarrow> Some (l, h) | e # _ \<Rightarrow> in_remove e (l, h))"
proof (cases xs)
  case (Cons e ys)
  moreover assume r: "rep l h xs"
  ultimately have "head l = Some e" "tail l = Some e \<longleftrightarrow> ys = []" "Some e = tail l \<longleftrightarrow> ys = []" "nxt (h ! e) = first_of ys None" "prv (h ! e) = None" "e < length h"
    by (auto simp: rep_def last_of_def)
  then show ?thesis unfolding Cons
    by (cases ys; cases "unlink e l h") (simp_all add: pop_front_def in_remove_def read_at_def Let_def unlink_self)
qed (simp add: pop_front_def rep_def)

lemma pop_back_remove: "rep l h xs \<Longrightarrow> pop_back (l, h) = (if xs = [] then Some (l, h) else in_remove (last xs) (l, h))"
proof (cases "xs = []")
  case False
  then obtain ys e where xs: "xs = ys @ [e]" by (metis append_butlast_last_id)
  assume r: "rep l h xs"
  then have "tail l = Some e" "head l = first_of ys (Some e)" "Some e = head l \<longleftrightarrow> ys = []" "nxt (h ! e) = None" "prv (h ! e) = last_of None ys" "e < length h"
    using xs by (cases ys; auto simp: rep_def dll_append)+
  then show ?thesis unfolding xs
    by (cases "ys = []"; cases "unlink e l h") (simp_all add: pop_back_def in_remove_def in_empty_def read_at_def Let_def ends_nonempty unlink_self)
qed (simp add: pop_back_def in_empty_def rep_def)

lemma scan_run: "dll h q p xs None \<Longrightarrow> length xs \<le> n \<Longrightarrow> scan n P h (first_of xs None) = Some (List.find P xs)"
proof (induction xs arbitrary: n p)
  case (Cons x xs)
  then obtain m where "n = Suc m" by (cases n) auto
  with Cons.prems Cons.IH [of "Some x" m] show ?case by (simp add: read_at_def)
qed simp

lemma last_le_run:
  "dll h q p (x # xs) None \<Longrightarrow> length xs < n \<Longrightarrow> last_le n k w h x = Some (last (x # takeWhile (\<lambda>e. k e \<le> w) xs))"
proof (induction xs arbitrary: n p x)
  case Nil
  then show ?case by (cases n) (simp_all add: read_at_def)
next
  case (Cons y ys)
  then obtain m where "n = Suc m" by (cases n) auto
  with Cons show ?case by (simp add: read_at_def)
qed

subsection \<open>Runs on several queues\<close>

datatype QOp = PUSH_FRONT nat | PUSH_BACK nat | POP_FRONT | POP_BACK | REMOVE nat | INSERT_AFTER nat nat

fun q_exec :: "QOp \<Rightarrow> InList \<times> nodes \<Rightarrow> (InList \<times> nodes) option" where
  "q_exec (PUSH_FRONT e) = push_front e"
| "q_exec (PUSH_BACK e) = push_back e"
| "q_exec POP_FRONT = pop_front"
| "q_exec POP_BACK = pop_back"
| "q_exec (REMOVE e) = in_remove e"
| "q_exec (INSERT_AFTER p e) = insertAfter p e"

fun insert_after :: "nat \<Rightarrow> nat \<Rightarrow> nat list \<Rightarrow> nat list" where
  "insert_after p e [] = []"
| "insert_after p e (x # xs) = (if x = p then x # e # xs else x # insert_after p e xs)"

lemma insert_after_app: "p \<notin> set xs \<Longrightarrow> insert_after p e (xs @ p # ys) = xs @ p # e # ys"
  by (induction xs) auto

lemma insert_after_set: "p \<in> set xs \<Longrightarrow> set (insert_after p e xs) = insert e (set xs)"
  by (induction xs) auto

fun q_spec :: "QOp \<Rightarrow> nat list \<Rightarrow> nat list" where
  "q_spec (PUSH_FRONT e) xs = e # xs"
| "q_spec (PUSH_BACK e) xs = xs @ [e]"
| "q_spec POP_FRONT xs = tl xs"
| "q_spec POP_BACK xs = butlast xs"
| "q_spec (REMOVE e) xs = remove1 e xs"
| "q_spec (INSERT_AFTER p e) xs = insert_after p e xs"

text \<open>An operation is allowed when the node it adds is free, that is in no queue, and the node it names is
  in its queue.\<close>

fun q_ok :: "QOp \<Rightarrow> nat list \<Rightarrow> nat set \<Rightarrow> bool" where
  "q_ok (PUSH_FRONT e) xs F \<longleftrightarrow> e \<in> F"
| "q_ok (PUSH_BACK e) xs F \<longleftrightarrow> e \<in> F"
| "q_ok (REMOVE e) xs F \<longleftrightarrow> e \<in> set xs"
| "q_ok (INSERT_AFTER p e) xs F \<longleftrightarrow> p \<in> set xs \<and> e \<in> F"
| "q_ok _ xs F \<longleftrightarrow> True"

definition q_done :: "InList \<Rightarrow> nodes \<Rightarrow> nat list \<Rightarrow> nat list \<Rightarrow> InList \<times> nodes \<Rightarrow> bool" where
  "q_done l h xs ys = (\<lambda>(l', h'). self l' = self l \<and> rep l' h' ys \<and> same_outside (set xs \<union> set ys) h h' \<and>
    (\<forall>e\<in>set xs - set ys. h' ! e = InListNode_new))"

lemma remove_done: "rep l h xs \<Longrightarrow> e \<in> set xs \<Longrightarrow> \<exists>c. in_remove e (l, h) = Some c \<and> q_done l h xs (remove1 e xs) c"
proof -
  assume r: "rep l h xs" "e \<in> set xs"
  have "distinct xs" using r(1) by (simp add: rep_def)
  with remove_refines [OF r] show ?thesis by (auto simp: q_done_def same_outside_def)
qed

lemma q_exec_done:
  assumes r: "rep l h xs" and ok: "q_ok x xs F" and F: "\<And>e. e \<in> F \<Longrightarrow> e < length h \<and> h ! e = InListNode_new"
  shows "\<exists>c. q_exec x (l, h) = Some c \<and> q_done l h xs (q_spec x xs) c"
proof (cases x)
  case (PUSH_FRONT e)
  with push_front_run [OF r, of e] ok F [of e] show ?thesis by (auto simp: q_done_def)
next
  case (PUSH_BACK e)
  with push_back_run [OF r, of e] ok F [of e] show ?thesis by (auto simp: q_done_def)
next
  case POP_FRONT
  have "xs \<noteq> [] \<Longrightarrow> remove1 (hd xs) xs = tl xs" by (cases xs) simp_all
  with POP_FRONT pop_front_remove [OF r] remove_done [OF r, of "hd xs"] r show ?thesis
    by (cases xs) (auto simp: q_done_def same_outside_def)
next
  case POP_BACK
  have "xs \<noteq> [] \<Longrightarrow> remove1 (last xs) xs = butlast xs"
    using r by (cases xs rule: rev_cases) (auto simp: rep_def remove1_append)
  with POP_BACK pop_back_remove [OF r] remove_done [OF r, of "last xs"] r show ?thesis
    by (cases "xs = []") (auto simp: q_done_def same_outside_def)
next
  case (REMOVE e)
  with remove_done [OF r] ok show ?thesis by simp
next
  case (INSERT_AFTER p e)
  then have p: "p \<in> set xs" "e < length h" "h ! e = InListNode_new" using ok F [of e] by simp_all
  then obtain as bs where xs: "xs = as @ p # bs" by (meson split_list)
  have "p \<notin> set as" using r xs by (simp add: rep_def)
  with insertAfter_run [of l h as p bs, folded xs, OF r p(2,3)] obtain l' h' where
    "insertAfter p e (l, h) = Some (l', h')" "self l' = self l" "rep l' h' (insert_after p e xs)" "same_outside (insert e (set xs)) h h'"
    by (auto simp: xs insert_after_app)
  then show ?thesis using INSERT_AFTER insert_after_set [OF p(1), of e] by (auto simp: q_done_def Un_absorb1)
qed

text \<open>Queues \<open>xss\<close> in one store of \<open>n\<close> nodes: list number \<open>q\<close> reads as \<open>xss ! q\<close>, and the nodes in no queue
  are free.\<close>

definition queues :: "nat \<Rightarrow> InList list \<times> nodes \<Rightarrow> nat list list \<Rightarrow> bool" where
  "queues n = (\<lambda>(ls, h) xss. length h = n \<and> length ls = length xss \<and>
     (\<forall>q<length ls. self (ls ! q) = q \<and> rep (ls ! q) h (xss ! q)) \<and>
     (\<forall>e<n. (\<forall>q<length xss. e \<notin> set (xss ! q)) \<longrightarrow> h ! e = InListNode_new))"

definition free_in :: "nat \<Rightarrow> nat list list \<Rightarrow> nat set" where
  "free_in n xss = {e. e < n \<and> (\<forall>q<length xss. e \<notin> set (xss ! q))}"

fun qs_exec :: "nat \<times> QOp \<Rightarrow> InList list \<times> nodes \<Rightarrow> (InList list \<times> nodes) option" where
  "qs_exec (q, x) (ls, h) = do {
     l \<leftarrow> read_at ls q;
     (l, h) \<leftarrow> q_exec x (l, h);
     Some (ls[q := l], h)
   }"

fun qs_spec :: "nat \<times> QOp \<Rightarrow> nat list list \<Rightarrow> nat list list" where
  "qs_spec (q, x) xss = xss[q := q_spec x (xss ! q)]"

fun qs_ok :: "nat \<Rightarrow> nat \<times> QOp \<Rightarrow> nat list list \<Rightarrow> bool" where
  "qs_ok n (q, x) xss \<longleftrightarrow> q < length xss \<and> q_ok x (xss ! q) (free_in n xss)"

lemma queues_disjoint: "queues n (ls, h) xss \<Longrightarrow> q < length xss \<Longrightarrow> p < length xss \<Longrightarrow> p \<noteq> q \<Longrightarrow> set (xss ! p) \<inter> set (xss ! q) = {}"
proof (rule ccontr)
  assume q: "queues n (ls, h) xss" "q < length xss" "p < length xss" "p \<noteq> q" and "set (xss ! p) \<inter> set (xss ! q) \<noteq> {}"
  then obtain e where e: "e \<in> set (xss ! p)" "e \<in> set (xss ! q)" by blast
  have "owner (h ! e) = Some i" if "i < length xss" "e \<in> set (xss ! i)" for i
    using q(1) that rep_owner [of "ls ! i" h "xss ! i" e] by (auto simp: queues_def)
  from this [OF q(2) e(2)] this [OF q(3) e(1)] q(4) show False by simp
qed

lemma q_spec_set: "q_ok x xs F \<Longrightarrow> set (q_spec x xs) \<subseteq> set xs \<union> F"
proof (cases x)
  case (REMOVE e)
  then show ?thesis using set_remove1_subset [of e xs] by auto
qed (auto simp: insert_after_set dest: in_set_butlastD list.set_sel(2) [rotated] intro: list.set_sel(2))

lemma queues_step:
  assumes R: "queues n s xss" and ok: "qs_ok n x xss"
  shows "\<exists>s'. qs_exec x s = Some s' \<and> queues n s' (qs_spec x xss)"
proof -
  obtain ls h q y where s: "s = (ls, h)" "x = (q, y)" by (cases s, cases x)
  note R' = R [unfolded s(1)]
  have q: "q < length xss" "q_ok y (xss ! q) (free_in n xss)" using ok s by simp_all
  have l: "length ls = length xss" "length h = n" "self (ls ! q) = q" "rep (ls ! q) h (xss ! q)"
    using R' q(1) by (auto simp: queues_def)
  have free: "e < length h \<and> h ! e = InListNode_new" if "e \<in> free_in n xss" for e
    using R' that by (auto simp: queues_def free_in_def)
  let ?xs = "xss ! q" and ?ys = "q_spec y (xss ! q)"
  from q_exec_done [OF l(4) q(2) free] obtain l' h' where run: "q_exec y (ls ! q, h) = Some (l', h')"
    and d: "self l' = q" "rep l' h' ?ys" "same_outside (set ?xs \<union> set ?ys) h h'" "\<forall>e\<in>set ?xs - set ?ys. h' ! e = InListNode_new"
    using l(3) by (auto simp: q_done_def)
  have ys: "set ?ys \<subseteq> set ?xs \<union> free_in n xss" by (rule q_spec_set [OF q(2)])
  have other: "(set ?xs \<union> set ?ys) \<inter> set (xss ! p) = {}" if p: "p < length xss" "p \<noteq> q" for p
    using queues_disjoint [OF R' q(1) p(1,2)] ys p(1) by (auto simp: free_in_def)
  have "queues n (ls[q := l'], h') (xss[q := ?ys])"
    unfolding queues_def prod.case
  proof (intro conjI allI impI)
    show "length h' = n" using d(3) l(2) by (simp add: same_outside_def)
    show "length (ls[q := l']) = length (xss[q := ?ys])" using l(1) by simp
    fix p
    assume p: "p < length (ls[q := l'])"
    show "self (ls[q := l'] ! p) = p" using R' p d(1) by (cases "p = q") (simp_all add: queues_def)
    show "rep (ls[q := l'] ! p) h' (xss[q := ?ys] ! p)"
    proof (cases "p = q")
      case True
      then show ?thesis using d(2) q(1) l(1) by simp
    next
      case False
      have "rep (ls ! p) h (xss ! p)" using R' p by (simp add: queues_def)
      from rep_frame [OF this d(3)] other [of p] False p l(1) show ?thesis by simp
    qed
  next
    fix e
    assume e: "e < n" "\<forall>p<length (xss[q := ?ys]). e \<notin> set (xss[q := ?ys] ! p)"
    have nin: "e \<notin> set ?ys" "\<And>p. p < length xss \<Longrightarrow> p \<noteq> q \<Longrightarrow> e \<notin> set (xss ! p)" using e(2) q(1) by fastforce+
    show "h' ! e = InListNode_new"
    proof (cases "e \<in> set ?xs")
      case True
      then show ?thesis using d(4) nin(1) by blast
    next
      case False
      then have "h ! e = InListNode_new" using R' e(1) nin(2) by (auto simp: queues_def)
      then show ?thesis using d(3) False nin(1) by (simp add: same_outside_def)
    qed
  qed
  then show ?thesis using run q(1) l(1) by (auto simp: s read_at_def)
qed

interpretation in_list: simulation "queues n" qs_exec qs_spec "qs_ok n" for n
  by unfold_locales (rule queues_step)

text \<open>C20: The intrusive lists implement lists: any number of queues that share the nodes of one store,
  through any run of operations that add nodes of no queue and name nodes of their queue, never fail an
  assertion, and each reads as the list that the operations on lists give.\<close>

theorem in_list_run_refines:
  assumes "length ls = m" "\<forall>q<m. ls ! q = InList_new q" "run_ok (qs_ok n) qs_spec xs (replicate m [])"
  shows "\<exists>s'. run_ops qs_exec xs (ls, replicate n InListNode_new) = Some s' \<and> queues n s' (fold qs_spec xs (replicate m []))"
proof -
  have "queues n (ls, replicate n InListNode_new) (replicate m [])"
    using assms(1,2) by (auto simp: queues_def rep_new) (simp add: InList_new_def)
  from in_list.run_refines [OF this assms(3)] show ?thesis .
qed

theorem in_list_run_refines_witness:
  "\<exists>s'. run_ops qs_exec [(0, PUSH_BACK 2), (1, PUSH_BACK 0), (0, PUSH_FRONT 1), (0, REMOVE 2), (1, INSERT_AFTER 0 2), (0, POP_FRONT)]
      ([InList_new 0, InList_new 1], replicate 3 InListNode_new) = Some s' \<and> queues 3 s' [[], [0, 2]]"
  using in_list_run_refines [of "[InList_new 0, InList_new 1]" 2 3 "[(0, PUSH_BACK 2), (1, PUSH_BACK 0), (0, PUSH_FRONT 1), (0, REMOVE 2), (1, INSERT_AFTER 0 2), (0, POP_FRONT)]"]
  by (simp add: numeral_2_eq_2 numeral_3_eq_3 less_Suc_eq all_conj_distrib free_in_def)

subsection \<open>The loops of the scheduler\<close>

text \<open>What the two loops do to the list of a queue.\<close>

definition take_first :: "(nat \<Rightarrow> bool) \<Rightarrow> nat list \<Rightarrow> nat option \<times> nat list" where
  "take_first P xs = (case List.find P xs of None \<Rightarrow> (None, xs) | Some e \<Rightarrow> (Some e, remove1 e xs))"

definition insert_by :: "(nat \<Rightarrow> u64) \<Rightarrow> nat \<Rightarrow> nat list \<Rightarrow> nat list" where
  "insert_by k e xs = takeWhile (\<lambda>x. k x \<le> k e) xs @ e # dropWhile (\<lambda>x. k x \<le> k e) xs"

text \<open>The search of the scheduler in a queue ends after as many steps as the queue has threads, takes
  out the first one that satisfies the condition, and leaves the queue as it is when there is none.\<close>

theorem scan_remove_first:
  assumes "rep l h xs" "length xs \<le> n"
  shows "\<exists>l' h'. scan_remove n P (l, h) = Some (fst (take_first P xs), l', h') \<and> rep l' h' (snd (take_first P xs)) \<and>
    (\<forall>e. List.find P xs = Some e \<longrightarrow> h' ! e = InListNode_new)"
proof -
  have run: "scan n P h (in_front l) = Some (List.find P xs)"
    using scan_run [of h "self l" None xs n P] assms by (simp add: rep_def in_front_def)
  show ?thesis
  proof (cases "List.find P xs")
    case None
    then show ?thesis using run assms(1) by (simp add: scan_remove_def take_first_def)
  next
    case (Some e)
    then have "e \<in> set xs" by (auto simp: find_Some_iff)
    from remove_refines [OF assms(1) this] Some run show ?thesis by (auto simp: scan_remove_def take_first_def)
  qed
qed

theorem scan_remove_first_witness:
  "\<exists>l' h'. scan_remove 2 (\<lambda>e. e = 1) (\<lparr>self = 0, head = Some 0, tail = Some 1, elems = 2\<rparr>,
      [\<lparr>nxt = Some 1, prv = None, owner = Some 0\<rparr>, \<lparr>nxt = None, prv = Some 0, owner = Some 0\<rparr>]) = Some (Some 1, l', h') \<and> rep l' h' [0]"
  using scan_remove_first [of "\<lparr>self = 0, head = Some 0, tail = Some 1, elems = 2\<rparr>"
      "[\<lparr>nxt = Some 1, prv = None, owner = Some 0\<rparr>, \<lparr>nxt = None, prv = Some 0, owner = Some 0\<rparr>]" "[0, 1]" 2 "\<lambda>e. e = 1"]
  by (auto simp: rep_def take_first_def)

lemma insert_by_set [simp]: "set (insert_by k e xs) = insert e (set xs)"
  unfolding insert_by_def by (metis Un_insert_right list.simps(15) set_append takeWhile_dropWhile_id)

lemma insert_by_sorted: "sorted (map k xs) \<Longrightarrow> sorted (map k (insert_by k e xs))"
proof (induction xs)
  case (Cons x xs)
  show ?case
  proof (cases "k x \<le> k e")
    case True
    then have "insert_by k e (x # xs) = x # insert_by k e xs" by (simp add: insert_by_def)
    with Cons True show ?thesis by auto
  next
    case False
    then have "insert_by k e (x # xs) = e # x # xs" by (simp add: insert_by_def)
    with Cons False show ?thesis by fastforce
  qed
qed (simp add: insert_by_def)

lemma insert_by_distinct: "distinct xs \<Longrightarrow> e \<notin> set xs \<Longrightarrow> distinct (insert_by k e xs)"
  unfolding insert_by_def
  by (auto simp: distinct_takeWhile distinct_dropWhile dest: set_takeWhileD set_dropWhileD)
     (metis disjoint_iff distinct_append takeWhile_dropWhile_id)

text \<open>The insertion of a sleeping thread ends, puts it behind all threads that wake up no later, and
  keeps the queue ordered.\<close>

theorem insert_ordered_sorted:
  assumes r: "rep l h xs" and n: "length xs \<le> n" and e: "e < length h" "h ! e = InListNode_new" and s: "sorted (map k xs)"
  shows "\<exists>l' h'. insert_ordered n k e (l, h) = Some (l', h') \<and> rep l' h' (insert_by k e xs) \<and> sorted (map k (insert_by k e xs))"
proof -
  let ?T = "\<lambda>x. k x \<le> k e"
  have "\<exists>l' h'. insert_ordered n k e (l, h) = Some (l', h') \<and> rep l' h' (insert_by k e xs)"
  proof (cases "\<exists>d ys. xs = d # ys \<and> ?T d")
    case False
    then have "insert_by k e xs = e # xs" by (cases xs) (auto simp: insert_by_def)
    moreover from False r have "insert_ordered n k e (l, h) = push_front e (l, h)"
      by (cases xs) (auto simp: insert_ordered_def in_front_def rep_def)
    ultimately show ?thesis using push_front_run [OF r e] by auto
  next
    case True
    then obtain d ys where xs: "xs = d # ys" "?T d" by blast
    then have nk: "\<not> k e < k d" by simp
    let ?cur = "last (d # takeWhile ?T ys)"
    have "insert_ordered n k e (l, h) = insertAfter ?cur e (l, h)"
      using last_le_run [of h "self l" None d ys n k "k e"] r n xs nk by (simp add: insert_ordered_def in_front_def rep_def)
    moreover obtain b c where t: "d # takeWhile ?T ys = b @ [c]" by (metis list.distinct(1) rev_exhaust)
    have "xs = (d # takeWhile ?T ys) @ dropWhile ?T ys" using xs(1) by simp
    then have "xs = b @ c # dropWhile ?T ys" unfolding t by simp
    moreover have "insert_by k e xs = (d # takeWhile ?T ys) @ e # dropWhile ?T ys" using xs by (simp add: insert_by_def)
    then have "insert_by k e xs = b @ c # e # dropWhile ?T ys" unfolding t by simp
    moreover have "?cur = c" unfolding t by simp
    ultimately show ?thesis using insertAfter_run [of l h b c "dropWhile ?T ys" e] r e by auto
  qed
  with insert_by_sorted [OF s] show ?thesis by blast
qed

theorem insert_ordered_sorted_witness:
  "\<exists>l' h'. insert_ordered 1 (\<lambda>e. if e = 0 then 5 else 7) 1 (\<lparr>self = 0, head = Some 0, tail = Some 0, elems = 1\<rparr>,
      [\<lparr>nxt = None, prv = None, owner = Some 0\<rparr>, InListNode_new]) = Some (l', h') \<and> rep l' h' [0, 1]"
  using insert_ordered_sorted [of "\<lparr>self = 0, head = Some 0, tail = Some 0, elems = 1\<rparr>"
      "[\<lparr>nxt = None, prv = None, owner = Some 0\<rparr>, InListNode_new]" "[0]" 1 1 "\<lambda>e. if e = 0 then 5 else 7"]
  by (auto simp: rep_def insert_by_def)

end
