(* ===== verification/Prio_Queue.thy ===== *)
theory Prio_Queue imports Prelude "HOL-Library.Monad_Syntax" begin

text \<open>
  The calendar queue of \<^verbatim>\<open>zsim/src/prio_queue.h\<close>, which holds the events of a domain of the contention
  simulation by the cycle they happen at.

  The queue is a ring of \<open>B\<close> blocks of 64 cycles, from block number \<^verbatim>\<open>curBlock\<close> on, and a map of the
  elements that are further away. The elements of one cycle are chained through their own field \<^verbatim>\<open>next\<close>:
  the elements are numbers, and \<open>next\<close> is the store of their fields. The multimap is the list of its pairs in
  key order, as the standard library keeps it. Cycles and block numbers are counted in natural numbers:
  the queue does no subtraction on them, and its sums stay below the cycle count of the simulation by
  \<open>64 * B\<close>.
\<close>

type_synonym nexts = "nat option list"

record PQBlock =
  pq_array :: "nat option list"
  occ :: u64

record PrioQueue =
  blocks :: "PQBlock list"
  feMap :: "(nat \<times> nat) list"
  curBlock :: nat
  pq_elems :: nat

definition PQBlock_new :: PQBlock where
  "PQBlock_new = \<lparr>pq_array = replicate 64 None, occ = 0\<rparr>"

definition PrioQueue_new :: "nat \<Rightarrow> PrioQueue" where
  "PrioQueue_new B = \<lparr>blocks = replicate B PQBlock_new, feMap = [], curBlock = 0, pq_elems = 0\<rparr>"

text \<open>\<^verbatim>\<open>__builtin_ctzl\<close>: the number of zero bits below the lowest bit that is set.\<close>

definition ctz :: "u64 \<Rightarrow> nat" where
  "ctz w = length (takeWhile (\<lambda>i. \<not> bit w i) [0..<64])"

subsection \<open>A block\<close>

definition block_dequeue :: "PQBlock \<times> nexts \<Rightarrow> (nat \<times> nat \<times> PQBlock \<times> nexts) option" where
  "block_dequeue = (\<lambda>(b, nx). do {
     assert_that (occ b \<noteq> 0);
     let pos = ctz (occ b);
     slot \<leftarrow> read_at (pq_array b) pos;
     res \<leftarrow> slot;
     nxt \<leftarrow> read_at nx res;
     let b = b\<lparr>pq_array := (pq_array b)[pos := nxt]\<rparr>;
     let b = (if nxt = None then b\<lparr>occ := occ b XOR push_bit pos 1\<rparr> else b);
     Some (res, pos, b, nx[res := None])
   })"

definition block_enqueue :: "nat \<Rightarrow> nat \<Rightarrow> PQBlock \<times> nexts \<Rightarrow> (PQBlock \<times> nexts) option" where
  "block_enqueue obj pos = (\<lambda>(b, nx). do {
     let b = b\<lparr>occ := occ b OR push_bit pos 1\<rparr>;
     nxt \<leftarrow> read_at nx obj;
     assert_that (nxt = None);
     slot \<leftarrow> read_at (pq_array b) pos;
     Some (b\<lparr>pq_array := (pq_array b)[pos := Some obj]\<rparr>, nx[obj := slot])
   })"

subsection \<open>The map of the far elements\<close>

definition fe_insert :: "nat \<times> nat \<Rightarrow> (nat \<times> nat) list \<Rightarrow> (nat \<times> nat) list" where
  "fe_insert e m = takeWhile (\<lambda>x. fst x \<le> fst e) m @ e # dropWhile (\<lambda>x. fst x \<le> fst e) m"

subsection \<open>The queue\<close>

definition enq_block :: "nat \<Rightarrow> nat \<Rightarrow> PrioQueue \<times> nexts \<Rightarrow> (PrioQueue \<times> nexts) option" where
  "enq_block obj cycle = (\<lambda>(q, nx). do {
     let i = cycle div 64 mod length (blocks q);
     b \<leftarrow> read_at (blocks q) i;
     (b, nx) \<leftarrow> block_enqueue obj (cycle mod 64) (b, nx);
     Some (q\<lparr>blocks := (blocks q)[i := b]\<rparr>, nx)
   })"

definition pq_enqueue :: "nat \<Rightarrow> nat \<Rightarrow> PrioQueue \<times> nexts \<Rightarrow> (PrioQueue \<times> nexts) option" where
  "pq_enqueue obj cycle = (\<lambda>(q, nx). do {
     let absBlock = cycle div 64;
     assert_that (absBlock \<ge> curBlock q);
     (q, nx) \<leftarrow> (if absBlock < curBlock q + length (blocks q) then enq_block obj cycle (q, nx)
        else Some (q\<lparr>feMap := fe_insert (cycle, obj) (feMap q)\<rparr>, nx));
     Some (q\<lparr>pq_elems := Suc (pq_elems q)\<rparr>, nx)
   })"

text \<open>The loop that moves the far elements below \<open>topCycle\<close> into the blocks; it returns the elements left.\<close>

fun pull_far :: "nat \<Rightarrow> (nat \<times> nat) list \<Rightarrow> PrioQueue \<times> nexts \<Rightarrow> ((nat \<times> nat) list \<times> PrioQueue \<times> nexts) option" where
  "pull_far topCycle [] s = Some ([], s)"
| "pull_far topCycle ((cycle, obj) # m) s =
     (if cycle < topCycle then do {
        assert_that (cycle div 64 \<ge> curBlock (fst s));
        assert_that (cycle div 64 < curBlock (fst s) + length (blocks (fst s)));
        s \<leftarrow> enq_block obj cycle s;
        pull_far topCycle m s
      } else Some ((cycle, obj) # m, s))"

definition next_block :: "PrioQueue \<times> nexts \<Rightarrow> (PrioQueue \<times> nexts) option" where
  "next_block = (\<lambda>(q, nx). do {
     let q = q\<lparr>curBlock := Suc (curBlock q)\<rparr>;
     (if curBlock q mod (length (blocks q) div 2) = 0 \<and> feMap q \<noteq> [] then do {
        (m, q, nx) \<leftarrow> pull_far ((curBlock q + length (blocks q)) * 64) (feMap q) (q, nx);
        Some (q\<lparr>feMap := m\<rparr>, nx)
      } else Some (q, nx))
   })"

text \<open>The loop to the first populated block.\<close>

partial_function (option) skip_empty :: "PrioQueue \<times> nexts \<Rightarrow> (PrioQueue \<times> nexts) option" where
  "skip_empty s = do {
     b \<leftarrow> read_at (blocks (fst s)) (curBlock (fst s) mod length (blocks (fst s)));
     (if occ b = 0 then do {
        s \<leftarrow> next_block s;
        skip_empty s
      } else Some s)
   }"

definition pq_dequeue :: "PrioQueue \<times> nexts \<Rightarrow> (nat \<times> nat \<times> PrioQueue \<times> nexts) option" where
  "pq_dequeue = (\<lambda>(q, nx). do {
     assert_that (pq_elems q \<noteq> 0);
     (q, nx) \<leftarrow> skip_empty (q, nx);
     let i = curBlock q mod length (blocks q);
     b \<leftarrow> read_at (blocks q) i;
     (obj, offset, b, nx) \<leftarrow> block_dequeue (b, nx);
     Some (obj, curBlock q * 64 + offset, q\<lparr>blocks := (blocks q)[i := b], pq_elems := pq_elems q - 1\<rparr>, nx)
   })"

definition pq_size :: "PrioQueue \<Rightarrow> nat" where
  "pq_size q = pq_elems q"

text \<open>The first cycle of the blocks \<open>i\<close> to \<open>j\<close> after the current one that have an element.\<close>

definition first_in :: "nat \<Rightarrow> nat \<Rightarrow> PrioQueue \<Rightarrow> nat option" where
  "first_in i j q = map_option (\<lambda>k. (curBlock q + k) * 64 + ctz (occ (blocks q ! ((curBlock q + k) mod length (blocks q)))))
     (List.find (\<lambda>k. occ (blocks q ! ((curBlock q + k) mod length (blocks q))) \<noteq> 0) [i..<j])"

definition firstCycle :: "PrioQueue \<Rightarrow> nat option" where
  "firstCycle q = do {
     assert_that (pq_elems q \<noteq> 0);
     let B = length (blocks q);
     (case first_in 0 (B div 2) q of
        Some c \<Rightarrow> Some c
      | None \<Rightarrow> (case first_in (B div 2) B q of
          Some c \<Rightarrow> Some (case feMap q of [] \<Rightarrow> c | e # _ \<Rightarrow> MIN2 c (fst e))
        | None \<Rightarrow> (case feMap q of [] \<Rightarrow> None | e # _ \<Rightarrow> Some (fst e))))
   }"

end
