(* ===== verification/Prio_Contract.thy ===== *)
theory Prio_Contract imports Prio_Queue begin

text \<open>
  The calendar queue implements a priority queue: the map \<open>Q\<close> from the queued elements to their cycles.
  \<open>D c\<close> is the chain of the elements of cycle \<open>c\<close> in the blocks.
\<close>

subsection \<open>Bits\<close>

lemma ctz_bit:
  assumes "w \<noteq> 0"
  shows "ctz w < 64 \<and> bit w (ctz w) \<and> (\<forall>j<ctz w. \<not> bit w j)"
proof -
  obtain n where n: "bit w n" "n < 64" using assms bit_imp_le_length [of w] by (auto simp: bit_eq_iff)
  let ?t = "takeWhile (\<lambda>i. \<not> bit w i) [0..<64]"
  have le: "length ?t \<le> n" using n length_takeWhile_le [of "\<lambda>i. \<not> bit w i" "[0..<64]"]
    by (metis (mono_tags, lifting) diff_zero length_upt linorder_not_le nth_mem nth_upt plus_nat.add_0 set_takeWhileD takeWhile_nth)
  then have "bit w ([0..<64] ! length ?t)" using nth_length_takeWhile [of "\<lambda>i. \<not> bit w i" "[0..<64]"] n(2) by simp
  moreover have "\<not> bit w j" if "j < length ?t" for j
    using takeWhile_nth [OF that] nth_mem [OF that] le n(2) that by (auto dest: set_takeWhileD)
  ultimately show ?thesis using le n(2) by (simp add: ctz_def)
qed

lemma bit_flag: "i < 64 \<Longrightarrow> bit (push_bit p (1 :: u64)) i \<longleftrightarrow> i = p"
  by (auto simp only: bit_push_bit_iff bit_1_iff word_size) auto

subsection \<open>Chains\<close>

fun chain :: "nexts \<Rightarrow> nat option \<Rightarrow> nat list \<Rightarrow> bool" where
  "chain nx p [] \<longleftrightarrow> p = None"
| "chain nx p (x # xs) \<longleftrightarrow> p = Some x \<and> x < length nx \<and> chain nx (nx ! x) xs"

lemma chain_frame: "x \<notin> set xs \<Longrightarrow> chain (nx[x := v]) p xs = chain nx p xs"
  by (induction xs arbitrary: p) auto

lemma chain_None [simp]: "chain nx None xs \<longleftrightarrow> xs = []"
  by (cases xs) auto

lemma chain_lt: "chain nx p xs \<Longrightarrow> x \<in> set xs \<Longrightarrow> x < length nx"
  by (induction xs arbitrary: p) auto

subsection \<open>The ring of blocks\<close>

definition window :: "PrioQueue \<Rightarrow> nat \<Rightarrow> bool" where
  "window q c \<longleftrightarrow> curBlock q \<le> c div 64 \<and> c div 64 < curBlock q + length (blocks q)"

definition slot :: "PrioQueue \<Rightarrow> nat \<Rightarrow> nat option" where
  "slot q c = pq_array (blocks q ! (c div 64 mod length (blocks q))) ! (c mod 64)"

definition block_ok :: "PQBlock \<Rightarrow> bool" where
  "block_ok b \<longleftrightarrow> length (pq_array b) = 64 \<and> (\<forall>i<64. bit (occ b) i \<longleftrightarrow> pq_array b ! i \<noteq> None)"

definition ring :: "PrioQueue \<Rightarrow> nexts \<Rightarrow> (nat \<Rightarrow> nat list) \<Rightarrow> bool" where
  "ring q nx D \<longleftrightarrow> 2 \<le> length (blocks q) \<and> (\<forall>i<length (blocks q). block_ok (blocks q ! i)) \<and>
     (\<forall>c. window q c \<longrightarrow> chain nx (slot q c) (D c) \<and> distinct (D c)) \<and> (\<forall>c. \<not> window q c \<longrightarrow> D c = [])"

lemma ringD:
  assumes "ring q nx D"
  shows "2 \<le> length (blocks q)" "\<And>i. i < length (blocks q) \<Longrightarrow> block_ok (blocks q ! i)"
    "\<And>c. window q c \<Longrightarrow> chain nx (slot q c) (D c)" "\<And>c. window q c \<Longrightarrow> distinct (D c)" "\<And>c. \<not> window q c \<Longrightarrow> D c = []"
  using assms by (auto simp: ring_def)

text \<open>Two cycles of the window have the same slot only when they are equal.\<close>

lemma mod_window:
  assumes "a \<le> i" "i < a + B" "a \<le> j" "j < a + B" "i mod B = (j::nat) mod B"
  shows "i = j"
proof -
  have *: "i = j" if "i \<le> j" "a \<le> i" "j < a + B" "i mod B = j mod B" for i j :: nat
  proof -
    have "B dvd j - i" using that(1,4) by (metis mod_eq_dvd_iff_nat)
    moreover have "j - i < B" using that(1-3) by linarith
    ultimately have "j - i = 0" by (meson dvd_imp_le not_le not_gr_zero)
    with that(1) show ?thesis by simp
  qed
  show ?thesis
  proof (cases "i \<le> j")
    case True
    then show ?thesis using * assms by blast
  next
    case False
    then show ?thesis using * [of j i] assms by simp
  qed
qed

lemma same_slot:
  assumes w: "window q c" "window q d" and m: "c div 64 mod length (blocks q) = d div 64 mod length (blocks q)" "c mod 64 = d mod 64"
  shows "c = d"
proof -
  have "c div 64 = d div 64"
    using mod_window [of "curBlock q" "c div 64" "length (blocks q)" "d div 64"] w m(1) by (simp only: window_def)
  then have "c div 64 * 64 + c mod 64 = d div 64 * 64 + d mod 64" by (simp only: m(2))
  then show ?thesis by (simp only: div_mult_mod_eq)
qed

lemma slot_update:
  assumes w: "window q c" "window q d" and q: "blocks q \<noteq> []" and b: "\<And>i. i < 64 \<Longrightarrow> i \<noteq> c mod 64 \<Longrightarrow> pq_array b ! i = pq_array (blocks q ! (c div 64 mod length (blocks q))) ! i"
  shows "slot (q\<lparr>blocks := (blocks q)[c div 64 mod length (blocks q) := b]\<rparr>) d = (if d = c then pq_array b ! (c mod 64) else slot q d)"
proof (cases "d div 64 mod length (blocks q) = c div 64 mod length (blocks q)")
  case True
  have "d \<noteq> c \<Longrightarrow> d mod 64 \<noteq> c mod 64" using same_slot [OF w(1,2)] True by metis
  then show ?thesis using q True b [of "d mod 64"] by (auto simp: slot_def)
next
  case False
  then show ?thesis using q by (auto simp: slot_def)
qed

lemma block_enqueue_run:
  assumes "block_ok b" "pos < 64" "x < length nx" "nx ! x = None"
  shows "\<exists>b'. block_enqueue x pos (b, nx) = Some (b', nx[x := pq_array b ! pos]) \<and> block_ok b' \<and> pq_array b' = (pq_array b)[pos := Some x]"
  using assms
  by (auto simp: block_enqueue_def block_ok_def read_at_def bit_or_iff bit_flag nth_list_update simp del: push_bit_of_1 not_None_eq)

lemma enq_block_run:
  assumes r: "ring q nx D" and c: "window q c" and x: "x < length nx" "nx ! x = None" "\<And>d. x \<notin> set (D d)"
  shows "\<exists>bs. enq_block x c (q, nx) = Some (q\<lparr>blocks := bs\<rparr>, nx[x := slot q c]) \<and> length bs = length (blocks q) \<and>
    ring (q\<lparr>blocks := bs\<rparr>) (nx[x := slot q c]) (D(c := x # D c))"
proof -
  let ?i = "c div 64 mod length (blocks q)"
  note R = ringD [OF r]
  have i: "?i < length (blocks q)" using R(1) by (intro mod_less_divisor) linarith
  obtain b' where b': "block_enqueue x (c mod 64) (blocks q ! ?i, nx) = Some (b', nx[x := slot q c])" "block_ok b'"
      "pq_array b' = (pq_array (blocks q ! ?i))[c mod 64 := Some x]"
    using block_enqueue_run [OF R(2) [OF i] _ x(1,2), of "c mod 64"] by (auto simp: slot_def)
  let ?q = "q\<lparr>blocks := (blocks q)[?i := b']\<rparr>"
  have len: "length (pq_array (blocks q ! ?i)) = 64" using R(2) [OF i] by (simp add: block_ok_def)
  have s: "slot ?q d = (if d = c then Some x else slot q d)" if "window q d" for d
    using slot_update [OF c that, of b'] i b'(3) len by (force simp: nth_list_update)
  have w: "window ?q = window q" by (simp add: window_def fun_eq_iff)
  have "ring ?q (nx[x := slot q c]) (D(c := x # D c))"
    unfolding ring_def w
    using R b'(2) s x(3) c x(1) i by (auto simp: nth_list_update chain_frame)
  moreover have "enq_block x c (q, nx) = Some (?q, nx[x := slot q c])"
    using i b'(1) by (simp add: enq_block_def read_at_def Let_def)
  ultimately show ?thesis by (intro exI [of _ "(blocks q)[?i := b']"]) simp
qed

lemma block_dequeue_run:
  assumes b: "block_ok b" "occ b \<noteq> 0" and ch: "chain nx (pq_array b ! ctz (occ b)) (x # xs)"
  shows "\<exists>b'. block_dequeue (b, nx) = Some (x, ctz (occ b), b', nx[x := None]) \<and> block_ok b' \<and>
    pq_array b' = (pq_array b)[ctz (occ b) := nx ! x]"
  using b ch ctz_bit [OF b(2)]
  by (auto simp: block_dequeue_def block_ok_def read_at_def bit_xor_iff bit_flag nth_list_update Let_def simp del: push_bit_of_1 not_None_eq)

lemma cur_window: "ring q nx D \<Longrightarrow> c div 64 = curBlock q \<Longrightarrow> window q c"
  by (auto simp: ring_def window_def)

lemma cur_block:
  assumes r: "ring q nx D"
  shows "curBlock q mod length (blocks q) < length (blocks q)"
    "occ (blocks q ! (curBlock q mod length (blocks q))) = 0 \<Longrightarrow> c div 64 = curBlock q \<Longrightarrow> D c = []"
proof -
  note R = ringD [OF r]
  show i: "curBlock q mod length (blocks q) < length (blocks q)" using R(1) by (intro mod_less_divisor) linarith
  show "D c = []" if "occ (blocks q ! (curBlock q mod length (blocks q))) = 0" "c div 64 = curBlock q"
  proof -
    have "slot q c = None" using R(2) [OF i] that by (simp add: slot_def block_ok_def)
    with R(3) [OF cur_window [OF r that(2)]] show ?thesis by simp
  qed
qed

text \<open>The first element of the first populated block.\<close>

lemma first_run:
  assumes r: "ring q nx D" and k: "k < length (blocks q)" and o: "occ (blocks q ! ((curBlock q + k) mod length (blocks q))) \<noteq> 0"
  defines "c \<equiv> (curBlock q + k) * 64 + ctz (occ (blocks q ! ((curBlock q + k) mod length (blocks q))))"
  shows "window q c" "D c \<noteq> []" "c div 64 = curBlock q + k" "\<And>d. d div 64 = curBlock q + k \<Longrightarrow> D d \<noteq> [] \<Longrightarrow> c \<le> d"
proof -
  let ?i = "(curBlock q + k) mod length (blocks q)"
  note R = ringD [OF r]
  have i: "?i < length (blocks q)" using R(1) by (intro mod_less_divisor) linarith
  note z = ctz_bit [OF o]
  have "(a * 64 + b) div 64 = a" "(a * 64 + b) mod 64 = b" if "b < 64" for a b :: nat using that by simp_all
  from this [of "ctz (occ (blocks q ! ?i))" "curBlock q + k"] z
  have dm: "c div 64 = curBlock q + k" "c mod 64 = ctz (occ (blocks q ! ?i))" unfolding c_def by blast+
  show "c div 64 = curBlock q + k" by (rule dm(1))
  show w: "window q c" using dm(1) k by (simp add: window_def)
  have "slot q c \<noteq> None" using R(2) [OF i] z dm by (simp add: slot_def block_ok_def del: not_None_eq)
  then show "D c \<noteq> []" using R(3) [OF w] by auto
  fix d
  assume d: "d div 64 = curBlock q + k" "D d \<noteq> []"
  then have "window q d" using k by (simp add: window_def)
  then have "slot q d \<noteq> None" using R(3) [of d] d(2) by (metis chain_None)
  then have "bit (occ (blocks q ! ?i)) (d mod 64)" using R(2) [OF i] d(1) by (simp add: slot_def block_ok_def)
  then have "\<not> d mod 64 < c mod 64" using z unfolding dm(2) by blast
  then have "c mod 64 \<le> d mod 64" by simp
  then show "c \<le> d" using div_mult_mod_eq [of c 64] div_mult_mod_eq [of d 64] d(1) dm(1) by linarith
qed

text \<open>The ring moves on by a block when its current block is empty.\<close>

lemma ring_shift:
  assumes r: "ring q nx D" and e: "\<And>c. c div 64 = curBlock q \<Longrightarrow> D c = []"
  shows "ring (q\<lparr>curBlock := Suc (curBlock q)\<rparr>) nx D"
proof -
  let ?B = "length (blocks q)" and ?q = "q\<lparr>curBlock := Suc (curBlock q)\<rparr>"
  note R = ringD [OF r]
  have "chain nx (slot q c) (D c) \<and> distinct (D c)" if w: "window ?q c" for c
  proof (cases "c div 64 = curBlock q + ?B")
    case True
    let ?d = "curBlock q * 64 + c mod 64"
    have d: "?d div 64 = curBlock q" "?d mod 64 = c mod 64" by simp_all
    have "c div 64 mod ?B = ?d div 64 mod ?B" using True d(1) by simp
    then have "slot q c = slot q ?d" unfolding slot_def d(2) by (simp only:)
    moreover have "D ?d = []" by (rule e [OF d(1)])
    moreover have "D c = []" using True R(5) [of c] by (simp add: window_def)
    ultimately show ?thesis using R(3) [OF cur_window [OF r d(1)]] by simp
  next
    case False
    then have "window q c" using w by (auto simp: window_def)
    then show ?thesis using R(3,4) by simp
  qed
  moreover have "D c = []" if "\<not> window ?q c" for c
    using that R(5) [of c] e [of c] by (cases "c div 64 = curBlock q") (auto simp: window_def)
  moreover have "slot ?q = slot q" by (simp add: slot_def fun_eq_iff)
  ultimately show ?thesis using R(1,2) by (simp add: ring_def)
qed

subsection \<open>The queue\<close>

definition stored :: "PrioQueue \<Rightarrow> nexts \<Rightarrow> (nat \<Rightarrow> nat list) \<Rightarrow> (nat \<times> nat) list \<Rightarrow> (nat \<rightharpoonup> nat) \<Rightarrow> bool" where
  "stored q nx D m Q \<longleftrightarrow> ring q nx D \<and> sorted (map fst m) \<and> distinct (map snd m) \<and> (\<forall>c. \<forall>x\<in>set (D c). Q x = Some c) \<and>
     (\<forall>c x. (c, x) \<in> set m \<longrightarrow> Q x = Some c \<and> x < length nx \<and> nx ! x = None \<and> x \<notin> set (D c) \<and> curBlock q \<le> c div 64) \<and>
     (\<forall>x c. Q x = Some c \<longrightarrow> x \<in> set (D c) \<or> (c, x) \<in> set m) \<and> (\<forall>x<length nx. Q x = None \<longrightarrow> nx ! x = None)"

lemma storedD:
  assumes "stored q nx D m Q"
  shows "ring q nx D" "sorted (map fst m)" "distinct (map snd m)" "\<And>c x. x \<in> set (D c) \<Longrightarrow> Q x = Some c"
    "\<And>c x. (c, x) \<in> set m \<Longrightarrow> Q x = Some c \<and> x < length nx \<and> nx ! x = None \<and> x \<notin> set (D c) \<and> curBlock q \<le> c div 64"
    "\<And>x c. Q x = Some c \<Longrightarrow> x \<in> set (D c) \<or> (c, x) \<in> set m" "\<And>x. x < length nx \<Longrightarrow> Q x = None \<Longrightarrow> nx ! x = None"
  using assms by (auto simp: stored_def)

definition halfway :: "PrioQueue \<Rightarrow> nat" where
  "halfway q = length (blocks q) div 2"

text \<open>The far elements start at least as far as the window did when it was at the last multiple of half
  of its blocks.\<close>

definition far :: "PrioQueue \<Rightarrow> bool" where
  "far q \<longleftrightarrow> (\<forall>c x. (c, x) \<in> set (feMap q) \<longrightarrow> curBlock q div halfway q * halfway q + length (blocks q) \<le> c div 64)"

definition pq_inv :: "PrioQueue \<times> nexts \<Rightarrow> (nat \<rightharpoonup> nat) \<Rightarrow> bool" where
  "pq_inv = (\<lambda>(q, nx) Q. (\<exists>D. stored q nx D (feMap q) Q) \<and> far q \<and> finite (dom Q) \<and> pq_elems q = card (dom Q))"

lemma far_beyond:
  assumes "far q" "2 \<le> length (blocks q)" "(c, x) \<in> set (feMap q)"
  shows "curBlock q + halfway q < c div 64"
proof -
  let ?h = "halfway q"
  have h: "0 < ?h" "?h + ?h \<le> length (blocks q)" using assms(2) by (auto simp: halfway_def)
  have "curBlock q < curBlock q div ?h * ?h + ?h" using dividend_less_div_times [OF h(1), of "curBlock q"] by (simp add: add.commute)
  moreover have "curBlock q div ?h * ?h + length (blocks q) \<le> c div 64" using assms(1,3) by (auto simp: far_def)
  ultimately show ?thesis using h(2) by linarith
qed

lemma stored_bounds: "stored q nx D m Q \<Longrightarrow> Q x = Some c \<Longrightarrow> x < length nx \<and> curBlock q \<le> c div 64"
proof -
  assume s: "stored q nx D m Q" and x: "Q x = Some c"
  note S = storedD [OF s]
  show ?thesis
  proof (cases "x \<in> set (D c)")
    case True
    then have "window q c" using ringD(5) [OF S(1), of c] by fastforce
    then show ?thesis using chain_lt [OF ringD(3) [OF S(1)] True] by (simp add: window_def)
  next
    case False
    then show ?thesis using S(6) [OF x] S(5) by blast
  qed
qed

subsection \<open>enqueue\<close>

text \<open>A block takes in an element that is fresh or is the first of the far ones.\<close>

lemma stored_enq_block:
  assumes s: "stored q nx D m Q" and c: "window q c" and x: "x < length nx" "Q x = None" "Q' = Q(x \<mapsto> c)"
  shows "\<exists>bs nx'. enq_block x c (q, nx) = Some (q\<lparr>blocks := bs\<rparr>, nx') \<and> length bs = length (blocks q) \<and> length nx' = length nx \<and>
    stored (q\<lparr>blocks := bs\<rparr>) nx' (D(c := x # D c)) m Q'"
proof -
  note S = storedD [OF s]
  have fresh: "x \<notin> set (D d)" for d using S(4) [of x d] x(2) by auto
  from enq_block_run [OF S(1) c x(1) S(7) [OF x(1,2)] fresh] obtain bs where
    run: "enq_block x c (q, nx) = Some (q\<lparr>blocks := bs\<rparr>, nx[x := slot q c])" "length bs = length (blocks q)"
    and r: "ring (q\<lparr>blocks := bs\<rparr>) (nx[x := slot q c]) (D(c := x # D c))" by blast
  have "d \<noteq> x" if "(e, d) \<in> set m" for d e using S(5) [OF that] x(2) by auto
  then have "stored (q\<lparr>blocks := bs\<rparr>) (nx[x := slot q c]) (D(c := x # D c)) m Q'"
    using r S(2,3) S(4-7) x by (fastforce simp: stored_def nth_list_update)
  with run show ?thesis by auto
qed

lemma stored_pull:
  assumes s: "stored q nx D ((c, x) # m) Q" and c: "window q c"
  shows "\<exists>bs nx'. enq_block x c (q, nx) = Some (q\<lparr>blocks := bs\<rparr>, nx') \<and> length bs = length (blocks q) \<and> length nx' = length nx \<and>
    stored (q\<lparr>blocks := bs\<rparr>) nx' (D(c := x # D c)) m Q"
proof -
  note S = storedD [OF s]
  have x: "Q x = Some c" "x < length nx" "nx ! x = None" "x \<notin> set (D c)" "x \<notin> snd ` set m" using S(5) [of c x] S(3) by auto
  have "stored q nx D m (Q(x := None))"
    unfolding stored_def
  proof (intro conjI allI impI ballI)
    show "ring q nx D" by (rule S(1))
    show "sorted (map fst m)" "distinct (map snd m)" using S(2,3) by simp_all
    show "(Q(x := None)) y = Some d" if "y \<in> set (D d)" for d y using S(4) [OF that] x(1,4) that by auto
  next
    fix d y
    assume y: "(d, y) \<in> set m"
    then have "y \<noteq> x" using x(5) by force
    then show "(Q(x := None)) y = Some d" "y < length nx" "nx ! y = None" "y \<notin> set (D d)" "curBlock q \<le> d div 64"
      using S(5) [of d y] y by simp_all
  next
    show "y \<in> set (D d) \<or> (d, y) \<in> set m" if "(Q(x := None)) y = Some d" for y d
      using S(6) [of y d] that by (auto split: if_splits)
    show "nx ! y = None" if "y < length nx" "(Q(x := None)) y = None" for y
      using S(7) [of y] that x(3) by (cases "y = x") simp_all
  qed
  from stored_enq_block [OF this c x(2) _ refl] x(1) show ?thesis by (auto simp: fun_upd_idem)
qed

lemma pull_far_run:
  assumes "stored q nx D m Q"
  shows "\<exists>m' bs nx' D'. pull_far ((curBlock q + length (blocks q)) * 64) m (q, nx) = Some (m', q\<lparr>blocks := bs\<rparr>, nx') \<and>
    length bs = length (blocks q) \<and> length nx' = length nx \<and> stored (q\<lparr>blocks := bs\<rparr>) nx' D' m' Q \<and>
    (\<forall>c x. (c, x) \<in> set m' \<longrightarrow> curBlock q + length (blocks q) \<le> c div 64)"
  using assms
proof (induction m arbitrary: q nx D)
  case Nil
  then show ?case by (intro exI [of _ "[]"] exI [of _ "blocks q"] exI [of _ nx] exI [of _ D]) simp
next
  case (Cons e m)
  obtain c x where e: "e = (c, x)" by (cases e)
  note s = Cons.prems [unfolded e]
  let ?top = "(curBlock q + length (blocks q)) * 64"
  show ?case
  proof (cases "c < ?top")
    case True
    then have w: "window q c" using storedD(5) [OF s, of c x] by (auto simp: window_def less_mult_imp_div_less)
    obtain bs nx' where run: "enq_block x c (q, nx) = Some (q\<lparr>blocks := bs\<rparr>, nx')" "length bs = length (blocks q)" "length nx' = length nx"
      and s': "stored (q\<lparr>blocks := bs\<rparr>) nx' (D(c := x # D c)) m Q" using stored_pull [OF s w] by blast
    from Cons.IH [OF s'] run w True show ?thesis by (auto simp: e window_def)
  next
    case False
    then have "curBlock q + length (blocks q) \<le> d div 64" if "(d, y) \<in> set (e # m)" for d y
      using storedD(2) [OF s] that e by (force simp: less_eq_div_iff_mult_less_eq)
    then show ?thesis using s False
      by (intro exI [of _ "e # m"] exI [of _ "blocks q"] exI [of _ nx] exI [of _ D]) (simp add: e)
  qed
qed

lemma fe_insert_set [simp]: "set (fe_insert e m) = insert e (set m)"
  unfolding fe_insert_def by (metis Un_insert_right list.simps(15) set_append takeWhile_dropWhile_id)

lemma fe_insert_sorted: "sorted (map fst m) \<Longrightarrow> sorted (map fst (fe_insert e m))"
proof (induction m)
  case (Cons x m)
  show ?case
  proof (cases "fst x \<le> fst e")
    case True
    then have "fe_insert e (x # m) = x # fe_insert e m" by (simp add: fe_insert_def)
    with Cons True show ?thesis by auto
  next
    case False
    then have "fe_insert e (x # m) = e # x # m" by (simp add: fe_insert_def)
    with Cons False show ?thesis by fastforce
  qed
qed (simp add: fe_insert_def)

lemma fe_insert_distinct: "distinct (map snd m) \<Longrightarrow> snd e \<notin> snd ` set m \<Longrightarrow> distinct (map snd (fe_insert e m))"
proof (induction m)
  case (Cons x m)
  show ?case
  proof (cases "fst x \<le> fst e")
    case True
    then have "fe_insert e (x # m) = x # fe_insert e m" by (simp add: fe_insert_def)
    with Cons show ?thesis by auto
  next
    case False
    then have "fe_insert e (x # m) = e # x # m" by (simp add: fe_insert_def)
    with Cons show ?thesis by simp
  qed
qed (simp add: fe_insert_def)

lemma enqueue_run:
  assumes i: "pq_inv (q, nx) Q" and x: "x < length nx" "Q x = None" and c: "curBlock q \<le> c div 64"
  shows "\<exists>q' nx'. pq_enqueue x c (q, nx) = Some (q', nx') \<and> pq_inv (q', nx') (Q(x \<mapsto> c)) \<and> curBlock q' = curBlock q \<and> length nx' = length nx"
proof -
  obtain D where s: "stored q nx D (feMap q) Q" and f: "far q" and fin: "finite (dom Q)" and n: "pq_elems q = card (dom Q)"
    using i by (auto simp: pq_inv_def)
  note S = storedD [OF s]
  have card: "card (dom (Q(x \<mapsto> c))) = Suc (pq_elems q)" using n fin x(2) by (simp add: card_insert_if domIff)
  show ?thesis
  proof (cases "c div 64 < curBlock q + length (blocks q)")
    case True
    then have w: "window q c" using c by (simp add: window_def)
    from stored_enq_block [OF s w x refl] obtain bs nx' where run: "enq_block x c (q, nx) = Some (q\<lparr>blocks := bs\<rparr>, nx')"
      "length bs = length (blocks q)" "length nx' = length nx"
      and s': "stored (q\<lparr>blocks := bs\<rparr>) nx' (D(c := x # D c)) (feMap q) (Q(x \<mapsto> c))" by blast
    let ?q = "q\<lparr>blocks := bs, pq_elems := Suc (pq_elems q)\<rparr>"
    have "stored ?q nx' (D(c := x # D c)) (feMap ?q) (Q(x \<mapsto> c))"
      using s' by (simp add: stored_def ring_def window_def slot_def)
    moreover have "far ?q" using f run(2) by (simp add: far_def halfway_def)
    ultimately have "pq_inv (?q, nx') (Q(x \<mapsto> c))" using fin card by (auto simp: pq_inv_def)
    then show ?thesis using run c True by (simp add: pq_enqueue_def)
  next
    case False
    let ?m = "fe_insert (c, x) (feMap q)"
    let ?q = "q\<lparr>feMap := ?m, pq_elems := Suc (pq_elems q)\<rparr>"
    have xm: "x \<notin> snd ` set (feMap q)" using S(5) x(2) by fastforce
    have xD: "x \<notin> set (D d)" for d using S(4) [of x d] x(2) by auto
    have "stored q nx D ?m (Q(x \<mapsto> c))"
      unfolding stored_def
    proof (intro conjI allI impI ballI)
      show "ring q nx D" by (rule S(1))
      show "sorted (map fst ?m)" by (rule fe_insert_sorted [OF S(2)])
      show "distinct (map snd ?m)" using fe_insert_distinct [OF S(3), of "(c, x)"] xm by simp
      show "(Q(x \<mapsto> c)) y = Some d" if "y \<in> set (D d)" for d y using S(4) [OF that] xD that by auto
      fix d y
      assume y: "(d, y) \<in> set ?m"
      then have "y = x \<and> d = c \<or> y \<noteq> x \<and> (d, y) \<in> set (feMap q)" using xm by force
      then show "(Q(x \<mapsto> c)) y = Some d" "y < length nx" "nx ! y = None" "y \<notin> set (D d)" "curBlock q \<le> d div 64"
        using S(5) [of d y] x S(7) [OF x] xD c by auto
    next
      show "y \<in> set (D d) \<or> (d, y) \<in> set ?m" if "(Q(x \<mapsto> c)) y = Some d" for y d
        using S(6) [of y d] that by (auto split: if_splits)
      show "nx ! y = None" if "y < length nx" "(Q(x \<mapsto> c)) y = None" for y
        using S(7) [of y] that by (auto split: if_splits)
    qed
    then have "stored ?q nx D (feMap ?q) (Q(x \<mapsto> c))" by (simp add: stored_def ring_def window_def slot_def)
    moreover have "curBlock q div halfway q * halfway q + length (blocks q) \<le> c div 64"
      using False div_times_less_eq_dividend [of "curBlock q" "halfway q"] by linarith
    then have "far ?q" using f by (auto simp: far_def halfway_def)
    ultimately have "pq_inv (?q, nx) (Q(x \<mapsto> c))" using fin card by (auto simp: pq_inv_def)
    then show ?thesis using c False by (simp add: pq_enqueue_def)
  qed
qed

subsection \<open>dequeue\<close>

lemma next_block_run:
  assumes i: "pq_inv (q, nx) Q" and e: "occ (blocks q ! (curBlock q mod length (blocks q))) = 0"
  shows "\<exists>q' nx'. next_block (q, nx) = Some (q', nx') \<and> pq_inv (q', nx') Q \<and> curBlock q' = Suc (curBlock q) \<and> length nx' = length nx"
proof -
  obtain D where s: "stored q nx D (feMap q) Q" and f: "far q" and fin: "finite (dom Q)" and n: "pq_elems q = card (dom Q)"
    using i by (auto simp: pq_inv_def)
  note S = storedD [OF s]
  let ?B = "length (blocks q)" and ?q = "q\<lparr>curBlock := Suc (curBlock q)\<rparr>"
  have B: "2 \<le> ?B" by (rule ringD(1) [OF S(1)])
  have "ring ?q nx D" by (rule ring_shift [OF S(1) cur_block(2) [OF S(1) e]])
  then have s': "stored ?q nx D (feMap ?q) Q"
    using s far_beyond [OF f B] by (fastforce simp: stored_def)
  show ?thesis
  proof (cases "Suc (curBlock q) mod halfway q = 0 \<and> feMap q \<noteq> []")
    case True
    from pull_far_run [OF s'] obtain m' bs nx' D' where run:
      "pull_far ((Suc (curBlock q) + ?B) * 64) (feMap q) (?q, nx) = Some (m', ?q\<lparr>blocks := bs\<rparr>, nx')" "length bs = ?B" "length nx' = length nx"
      and s'': "stored (?q\<lparr>blocks := bs\<rparr>) nx' D' m' Q" and far': "\<forall>c x. (c, x) \<in> set m' \<longrightarrow> Suc (curBlock q) + ?B \<le> c div 64" by auto
    let ?r = "?q\<lparr>blocks := bs, feMap := m'\<rparr>"
    have "Suc (curBlock q) div halfway q * halfway q = Suc (curBlock q)" using True by (metis add.right_neutral div_mult_mod_eq)
    then have "far ?r" using far' run(2) by (simp add: far_def halfway_def)
    moreover have "stored ?r nx' D' (feMap ?r) Q" using s'' by (simp add: stored_def ring_def window_def slot_def)
    ultimately have "pq_inv (?r, nx') Q" using fin n by (auto simp: pq_inv_def)
    moreover have "next_block (q, nx) = Some (?r, nx')" using True run by (simp add: next_block_def halfway_def add.assoc)
    ultimately show ?thesis using run(3) by simp
  next
    case False
    then have "Suc (curBlock q) div halfway q = curBlock q div halfway q \<or> feMap q = []" by (auto simp: div_Suc)
    then have "far ?q" using f by (auto simp: far_def halfway_def)
    then have "pq_inv (?q, nx) Q" using s' fin n by (auto simp: pq_inv_def)
    moreover have "next_block (q, nx) = Some (?q, nx)" using False by (auto simp: next_block_def halfway_def)
    ultimately show ?thesis by simp
  qed
qed

lemma skip_empty_run:
  assumes "pq_inv (q, nx) Q" "Q x = Some c"
  shows "\<exists>q' nx'. skip_empty (q, nx) = Some (q', nx') \<and> pq_inv (q', nx') Q \<and> length nx' = length nx \<and>
    occ (blocks q' ! (curBlock q' mod length (blocks q'))) \<noteq> 0"
  using assms(1)
proof (induction "c div 64 - curBlock q" arbitrary: q nx rule: less_induct)
  case less
  obtain D where s: "stored q nx D (feMap q) Q" and f: "far q" using less.prems by (auto simp: pq_inv_def)
  note S = storedD [OF s]
  let ?b = "blocks q ! (curBlock q mod length (blocks q))"
  have rd: "read_at (blocks q) (curBlock q mod length (blocks q)) = Some ?b" using cur_block(1) [OF S(1)] by (simp add: read_at_def)
  show ?case
  proof (cases "occ ?b = 0")
    case False
    then show ?thesis using less.prems by (subst skip_empty.simps) (simp add: rd del: read_at_Some)
  next
    case True
    have "c div 64 \<noteq> curBlock q"
    proof
      assume c: "c div 64 = curBlock q"
      have "D c = []" by (rule cur_block(2) [OF S(1) True c])
      then have "(c, x) \<in> set (feMap q)" using S(6) [OF assms(2)] by simp
      from far_beyond [OF f ringD(1) [OF S(1)] this] c show False by simp
    qed
    then have lt: "curBlock q < c div 64" using stored_bounds [OF s assms(2)] by simp
    from next_block_run [OF less.prems True] obtain q1 nx1 where run: "next_block (q, nx) = Some (q1, nx1)" "pq_inv (q1, nx1) Q"
      "curBlock q1 = Suc (curBlock q)" "length nx1 = length nx" by blast
    have "c div 64 - curBlock q1 < c div 64 - curBlock q" using lt run(3) by simp
    from less.hyps [OF this run(2)] run(4) obtain q' nx' where r: "skip_empty (q1, nx1) = Some (q', nx')" "pq_inv (q', nx') Q"
      "length nx' = length nx" "occ (blocks q' ! (curBlock q' mod length (blocks q'))) \<noteq> 0" by auto
    have "skip_empty (q, nx) = skip_empty (q1, nx1)" using True run(1) by (subst skip_empty.simps) (simp add: rd del: read_at_Some)
    with r show ?thesis by auto
  qed
qed

lemma dequeue_run:
  assumes i: "pq_inv (q, nx) Q" and Q: "Q \<noteq> Map.empty"
  shows "\<exists>x c q' nx'. pq_dequeue (q, nx) = Some (x, c, q', nx') \<and> Q x = Some c \<and> (\<forall>y d. Q y = Some d \<longrightarrow> c \<le> d) \<and>
    pq_inv (q', nx') (Q(x := None)) \<and> curBlock q' = c div 64 \<and> length nx' = length nx"
proof -
  obtain y d where "Q y = Some d" using Q by (metis not_None_eq ext)
  from skip_empty_run [OF i this] obtain q1 nx1 where skip: "skip_empty (q, nx) = Some (q1, nx1)" "length nx1 = length nx"
    and i1: "pq_inv (q1, nx1) Q" and o: "occ (blocks q1 ! (curBlock q1 mod length (blocks q1))) \<noteq> 0" by blast
  obtain D where s: "stored q1 nx1 D (feMap q1) Q" and f: "far q1" and fin: "finite (dom Q)" and n: "pq_elems q1 = card (dom Q)"
    using i1 by (auto simp: pq_inv_def)
  note S = storedD [OF s]
  note R = ringD [OF S(1)]
  let ?B = "length (blocks q1)" and ?i = "curBlock q1 mod length (blocks q1)"
  let ?b = "blocks q1 ! ?i"
  define c where "c = curBlock q1 * 64 + ctz (occ ?b)"
  have F: "window q1 c" "D c \<noteq> []" "c div 64 = curBlock q1" "\<And>d. d div 64 = curBlock q1 \<Longrightarrow> D d \<noteq> [] \<Longrightarrow> c \<le> d"
  proof -
    have "0 < ?B" using R(1) by linarith
    from first_run [OF S(1) this, unfolded add_0_right, OF o, folded c_def]
    show "window q1 c" "D c \<noteq> []" "c div 64 = curBlock q1" "\<And>d. d div 64 = curBlock q1 \<Longrightarrow> D d \<noteq> [] \<Longrightarrow> c \<le> d" by blast+
  qed
  have ib: "?i < ?B" by (rule cur_block(1) [OF S(1)])
  have cz: "ctz (occ ?b) < 64" "c mod 64 = ctz (occ ?b)" using ctz_bit [OF o] by (auto simp: c_def)
  obtain x xs where xs: "D c = x # xs" using F(2) by (cases "D c") auto
  have sl: "slot q1 c = pq_array ?b ! ctz (occ ?b)" by (simp add: slot_def F(3) cz(2))
  have ch: "chain nx1 (pq_array ?b ! ctz (occ ?b)) (x # xs)" using R(3) [OF F(1)] by (simp add: sl xs)
  from block_dequeue_run [OF R(2) [OF ib] o ch] obtain b' where
    run: "block_dequeue (?b, nx1) = Some (x, ctz (occ ?b), b', nx1[x := None])" "block_ok b'" "pq_array b' = (pq_array ?b)[ctz (occ ?b) := nx1 ! x]"
    by blast
  let ?q = "q1\<lparr>blocks := (blocks q1)[?i := b'], pq_elems := pq_elems q1 - 1\<rparr>"
  have Qx: "Q x = Some c" using S(4) [of x c] xs by simp
  have least: "c \<le> d" if "Q y = Some d" for y d
  proof (cases "d div 64 = curBlock q1")
    case True
    have "(d, y) \<notin> set (feMap q1)" using far_beyond [OF f R(1), of d y] True by auto
    then have "D d \<noteq> []" using S(6) [OF that] by auto
    then show ?thesis using F(4) True by blast
  next
    case False
    then have "c div 64 < d div 64" using stored_bounds [OF s that] F(3) by simp
    then have "\<not> d \<le> c" using div_le_mono [of d c 64] by linarith
    then show ?thesis by simp
  qed
  have fresh: "x \<notin> set (D d)" if "d \<noteq> c" for d using S(4) [of x d] Qx that by auto
  have xlt: "x < length nx1" using ch by simp
  have dist: "distinct (x # xs)" using R(4) [OF F(1)] xs by simp
  have w: "window ?q = window q1" by (simp add: window_def fun_eq_iff)
  have slot': "slot ?q d = (if d = c then nx1 ! x else slot q1 d)" if "window q1 d" for d
  proof -
    have "length (pq_array ?b) = 64" using R(2) [OF ib] by (simp add: block_ok_def)
    then have "slot (q1\<lparr>blocks := (blocks q1)[?i := b']\<rparr>) d = (if d = c then nx1 ! x else slot q1 d)"
      using slot_update [OF F(1) that, of b'] ib cz run(3) F(3) by (force simp: nth_list_update)
    then show ?thesis by (simp add: slot_def)
  qed
  have ring': "ring ?q (nx1[x := None]) (D(c := xs))"
    unfolding ring_def w
  proof (intro conjI allI impI)
    show "2 \<le> length (blocks ?q)" using R(1) by simp
    show "block_ok (blocks ?q ! j)" if "j < length (blocks ?q)" for j
      using that run(2) R(2) [of j] ib by (cases "j = ?i") simp_all
    fix d
    show "(D(c := xs)) d = []" if "\<not> window q1 d" using that R(5) [OF that] F(1) by auto
    assume d: "window q1 d"
    show "chain (nx1[x := None]) (slot ?q d) ((D(c := xs)) d)"
      using slot' [OF d] R(3) [OF d] ch dist fresh [of d] by (cases "d = c") (simp_all add: chain_frame)
    show "distinct ((D(c := xs)) d)" using R(4) [OF d] dist by simp
  qed
  have "stored ?q (nx1[x := None]) (D(c := xs)) (feMap q1) (Q(x := None))"
    unfolding stored_def
  proof (intro conjI allI impI ballI)
    show "ring ?q (nx1[x := None]) (D(c := xs))" by (rule ring')
    show "sorted (map fst (feMap q1))" "distinct (map snd (feMap q1))" by (rule S(2), rule S(3))
    fix d y
    have in_old: "y \<in> set (D d) \<and> y \<noteq> x" if "y \<in> set ((D(c := xs)) d)" using that fresh [of d] dist xs by (cases "d = c") auto
    show "(Q(x := None)) y = Some d" if "y \<in> set ((D(c := xs)) d)" using in_old [OF that] S(4) [of y d] by simp
    assume y: "(d, y) \<in> set (feMap q1)"
    have yx: "y \<noteq> x" using S(5) [OF y] Qx xs by auto
    then show "(Q(x := None)) y = Some d" "y < length (nx1[x := None])" "nx1[x := None] ! y = None" "curBlock ?q \<le> d div 64"
      using S(5) [OF y] by simp_all
    show "y \<notin> set ((D(c := xs)) d)" using S(5) [OF y] in_old by blast
  next
    fix y d
    assume y: "(Q(x := None)) y = Some d"
    then have "y \<noteq> x" "Q y = Some d" by (auto split: if_splits)
    then show "y \<in> set ((D(c := xs)) d) \<or> (d, y) \<in> set (feMap q1)" using S(6) [of y d] xs by (cases "d = c") auto
  next
    fix y
    assume "y < length (nx1[x := None])" "(Q(x := None)) y = None"
    then show "nx1[x := None] ! y = None" using S(7) [of y] xlt by (cases "y = x") simp_all
  qed
  then have "stored ?q (nx1[x := None]) (D(c := xs)) (feMap ?q) (Q(x := None))" by simp
  moreover have "far ?q" using f by (simp add: far_def halfway_def)
  moreover have "card (dom (Q(x := None))) = pq_elems q1 - 1" using n fin Qx by (simp add: card_Diff_singleton domIff)
  ultimately have "pq_inv (?q, nx1[x := None]) (Q(x := None))" using fin by (auto simp: pq_inv_def)
  moreover have "pq_dequeue (q, nx) = Some (x, c, ?q, nx1[x := None])"
  proof -
    have "pq_elems q \<noteq> 0" using i Q by (auto simp: pq_inv_def)
    moreover have "read_at (blocks q1) ?i = Some ?b" using ib by (simp add: read_at_def)
    ultimately show ?thesis using run(1) by (simp add: pq_dequeue_def skip(1) c_def Let_def del: read_at_Some)
  qed
  ultimately show ?thesis using Qx least F(3) skip(2) by (intro exI [of _ x] exI [of _ c] exI [of _ ?q] exI [of _ "nx1[x := None]"]) auto
qed

subsection \<open>firstCycle\<close>

definition least_cycle :: "(nat \<rightharpoonup> nat) \<Rightarrow> nat \<Rightarrow> bool" where
  "least_cycle Q c \<longleftrightarrow> (\<exists>x. Q x = Some c) \<and> (\<forall>y d. Q y = Some d \<longrightarrow> c \<le> d)"

lemma occ_nonempty: "ring q nx D \<Longrightarrow> window q d \<Longrightarrow> D d \<noteq> [] \<Longrightarrow> occ (blocks q ! (d div 64 mod length (blocks q))) \<noteq> 0"
proof -
  assume r: "ring q nx D" and w: "window q d" and d: "D d \<noteq> []"
  note R = ringD [OF r]
  have "d div 64 mod length (blocks q) < length (blocks q)" using R(1) by (intro mod_less_divisor) linarith
  moreover have "slot q d \<noteq> None" using R(3) [OF w] d by (metis chain_None)
  ultimately have "bit (occ (blocks q ! (d div 64 mod length (blocks q)))) (d mod 64)" using R(2) by (simp add: slot_def block_ok_def)
  then show ?thesis by auto
qed

lemma find_upt_Some: "List.find P [i..<j] = Some k \<Longrightarrow> i \<le> k \<and> k < j \<and> P k \<and> (\<forall>l. i \<le> l \<longrightarrow> l < k \<longrightarrow> \<not> P l)"
proof -
  assume "List.find P [i..<j] = Some k"
  then obtain n where n: "n < j - i" "P (i + n)" "k = i + n" "\<And>m. m < n \<Longrightarrow> \<not> P (i + m)" by (auto simp: find_Some_iff)
  have "\<not> P l" if "i \<le> l" "l < k" for l using n(4) [of "l - i"] n(3) that by simp
  then show ?thesis using n by auto
qed

lemma find_upt_None: "List.find P [i..<j] = None \<Longrightarrow> i \<le> l \<Longrightarrow> l < j \<Longrightarrow> \<not> P l"
  by (auto simp: find_None_iff)

lemma first_in_Some:
  assumes s: "stored q nx D m Q" and f: "first_in i j q = Some c" and j: "j \<le> length (blocks q)"
    and none: "\<And>l. l < i \<Longrightarrow> occ (blocks q ! ((curBlock q + l) mod length (blocks q))) = 0"
  shows "(\<exists>x. Q x = Some c) \<and> c div 64 < curBlock q + j \<and> (\<forall>d. D d \<noteq> [] \<longrightarrow> c \<le> d)"
proof -
  note S = storedD [OF s]
  let ?P = "\<lambda>k. occ (blocks q ! ((curBlock q + k) mod length (blocks q))) \<noteq> 0"
  from f obtain k where k: "List.find ?P [i..<j] = Some k" "c = (curBlock q + k) * 64 + ctz (occ (blocks q ! ((curBlock q + k) mod length (blocks q))))"
    by (auto simp: first_in_def)
  note K = find_upt_Some [OF k(1)]
  have kB: "k < length (blocks q)" using K j by simp
  note F = first_run [OF S(1) kB, folded k(2)]
  have "c \<le> d" if "D d \<noteq> []" for d
  proof -
    have w: "window q d" using ringD(5) [OF S(1), of d] that by auto
    define l where "l = d div 64 - curBlock q"
    have l: "d div 64 = curBlock q + l" using w by (simp add: window_def l_def)
    have "?P l" using occ_nonempty [OF S(1) w that] by (simp add: l)
    then have "\<not> l < k" using K none by (meson not_le)
    then show ?thesis
    proof (cases "l = k")
      case True
      then show ?thesis using F(4) K l that by simp
    next
      case False
      then have "c div 64 < d div 64" using F(3) K l \<open>\<not> l < k\<close> by simp
      then have "\<not> d \<le> c" using div_le_mono [of d c 64] by linarith
      then show ?thesis by simp
    qed
  qed
  moreover have "\<exists>x. Q x = Some c" using F(2) K S(4) [of _ c] by (metis list.set_intros(1) neq_Nil_conv)
  moreover have "c div 64 < curBlock q + j" using F(3) K by simp
  ultimately show ?thesis by blast
qed

lemma first_in_None: "first_in i j q = None \<Longrightarrow> i \<le> l \<Longrightarrow> l < j \<Longrightarrow> occ (blocks q ! ((curBlock q + l) mod length (blocks q))) = 0"
  using find_upt_None [of "\<lambda>k. occ (blocks q ! ((curBlock q + k) mod length (blocks q))) \<noteq> 0" i j l] by (simp add: first_in_def)

lemma feMap_least:
  assumes "stored q nx D (feMap q) Q" "feMap q = e # m"
  shows "(\<exists>x. Q x = Some (fst e)) \<and> (\<forall>d y. (d, y) \<in> set (feMap q) \<longrightarrow> fst e \<le> d)"
  using storedD(2,5) [OF assms(1)] assms(2) by (cases e) (auto simp: assms(2))

lemma firstCycle_run:
  assumes i: "pq_inv (q, nx) Q" and Q: "Q \<noteq> Map.empty"
  shows "\<exists>c. firstCycle q = Some c \<and> least_cycle Q c"
proof -
  obtain D where s: "stored q nx D (feMap q) Q" and f: "far q" and n: "pq_elems q \<noteq> 0"
    using i Q by (auto simp: pq_inv_def card_gt_0_iff)
  note S = storedD [OF s]
  have B: "2 \<le> length (blocks q)" by (rule ringD(1) [OF S(1)])
  let ?h = "length (blocks q) div 2"
  consider (near) c where "first_in 0 ?h q = Some c" | (mid) c where "first_in 0 ?h q = None" "first_in ?h (length (blocks q)) q = Some c"
    | (none) "first_in 0 ?h q = None" "first_in ?h (length (blocks q)) q = None" by (metis not_None_eq)
  then show ?thesis
  proof cases
    case near
    note N = first_in_Some [OF s near]
    have "c \<le> d" if "Q y = Some d" for y d
    proof (cases "y \<in> set (D d)")
      case False
      then have "curBlock q + halfway q < d div 64" using far_beyond [OF f B] S(6) [OF that] by blast
      then have "c div 64 < d div 64" using N by (simp add: halfway_def)
      then have "\<not> d \<le> c" using div_le_mono [of d c 64] by linarith
      then show ?thesis by simp
    qed (use N in force)
    then show ?thesis using near n N by (auto simp: firstCycle_def least_cycle_def Let_def)
  next
    case mid
    note N = first_in_Some [OF s mid(2) order_refl first_in_None [OF mid(1)]]
    let ?r = "case feMap q of [] \<Rightarrow> c | e # _ \<Rightarrow> MIN2 c (fst e)"
    have "firstCycle q = Some ?r" using mid n by (simp add: firstCycle_def Let_def)
    moreover have "least_cycle Q ?r"
    proof (cases "feMap q")
      case Nil
      have "c \<le> d" if "Q y = Some d" for y d using S(6) [OF that] N Nil by force
      then show ?thesis using N Nil by (auto simp: least_cycle_def)
    next
      case (Cons e m)
      note L = feMap_least [OF s Cons]
      have "MIN2 c (fst e) \<le> d" if "Q y = Some d" for y d
      proof (cases "y \<in> set (D d)")
        case True
        then have "c \<le> d" using N by force
        then show ?thesis by (simp add: MIN2_min min.coboundedI1)
      next
        case False
        then have "fst e \<le> d" using S(6) [OF that] L by blast
        then show ?thesis by (simp add: MIN2_min min.coboundedI2)
      qed
      moreover have "\<exists>x. Q x = Some (MIN2 c (fst e))" using N L by (simp add: MIN2_def)
      ultimately show ?thesis using Cons by (simp add: least_cycle_def)
    qed
    ultimately show ?thesis by blast
  next
    case none
    have empty: "D d = []" for d
    proof (rule ccontr)
      assume d: "D d \<noteq> []"
      then have w: "window q d" using ringD(5) [OF S(1), of d] by auto
      then have l: "d div 64 = curBlock q + (d div 64 - curBlock q)" "d div 64 - curBlock q < length (blocks q)" by (auto simp: window_def)
      then have "occ (blocks q ! ((curBlock q + (d div 64 - curBlock q)) mod length (blocks q))) = 0"
        using first_in_None [OF none(1)] first_in_None [OF none(2)] by (meson not_le zero_le)
      then show False using occ_nonempty [OF S(1) w d] l(1) by simp
    qed
    obtain y d where "Q y = Some d" using Q by (metis not_None_eq ext)
    then obtain e m where e: "feMap q = e # m" using S(6) [of y d] empty by (cases "feMap q") auto
    have "firstCycle q = Some (fst e)" using none n e by (simp add: firstCycle_def Let_def)
    moreover have "least_cycle Q (fst e)" using feMap_least [OF s e] S(6) empty by (force simp: least_cycle_def)
    ultimately show ?thesis by blast
  qed
qed

subsection \<open>Runs\<close>

text \<open>What the contention simulation needs of its queue: an element is stored at a cycle the queue has not
  passed, and an element of the least cycle comes out.\<close>

locale priority_queue =
  fixes inv :: "'s \<Rightarrow> (nat \<rightharpoonup> nat) \<Rightarrow> bool" and enq :: "nat \<Rightarrow> nat \<Rightarrow> 's \<Rightarrow> 's option" and deq :: "'s \<Rightarrow> (nat \<times> nat \<times> 's) option"
    and fresh :: "'s \<Rightarrow> nat \<Rightarrow> bool" and passed :: "'s \<Rightarrow> nat \<Rightarrow> bool"
  assumes enq_law: "inv s Q \<Longrightarrow> fresh s x \<Longrightarrow> Q x = None \<Longrightarrow> \<not> passed s c \<Longrightarrow>
      \<exists>s'. enq x c s = Some s' \<and> inv s' (Q(x \<mapsto> c)) \<and> fresh s' = fresh s \<and> passed s' = passed s"
    and deq_law: "inv s Q \<Longrightarrow> Q \<noteq> Map.empty \<Longrightarrow>
      \<exists>x c s'. deq s = Some (x, c, s') \<and> Q x = Some c \<and> (\<forall>y d. Q y = Some d \<longrightarrow> c \<le> d) \<and> inv s' (Q(x := None))"
    and finite: "inv s Q \<Longrightarrow> finite (dom Q)"

fun enq_all :: "(nat \<Rightarrow> nat \<Rightarrow> 's \<Rightarrow> 's option) \<Rightarrow> (nat \<times> nat) list \<Rightarrow> 's \<Rightarrow> 's option" where
  "enq_all enq [] s = Some s"
| "enq_all enq ((x, c) # es) s = do {
     s \<leftarrow> enq x c s;
     enq_all enq es s
   }"

fun deq_all :: "('s \<Rightarrow> (nat \<times> nat \<times> 's) option) \<Rightarrow> nat \<Rightarrow> 's \<Rightarrow> ((nat \<times> nat) list \<times> 's) option" where
  "deq_all deq 0 s = Some ([], s)"
| "deq_all deq (Suc n) s = do {
     (x, c, s) \<leftarrow> deq s;
     (es, s) \<leftarrow> deq_all deq n s;
     Some ((x, c) # es, s)
   }"

context priority_queue begin

lemma enq_all_run:
  "inv s Q \<Longrightarrow> distinct (map fst es) \<Longrightarrow> (\<And>x c. (x, c) \<in> set es \<Longrightarrow> fresh s x \<and> Q x = None \<and> \<not> passed s c) \<Longrightarrow>
    \<exists>s'. enq_all enq es s = Some s' \<and> inv s' (Q ++ map_of es)"
proof (induction es arbitrary: s Q)
  case (Cons e es)
  obtain x c where e: "e = (x, c)" by (cases e)
  from enq_law [OF Cons.prems(1), of x c] Cons.prems(3) [of x c] e obtain s1 where
    s1: "enq x c s = Some s1" "inv s1 (Q(x \<mapsto> c))" "fresh s1 = fresh s" "passed s1 = passed s" by auto
  have "fresh s1 y \<and> (Q(x \<mapsto> c)) y = None \<and> \<not> passed s1 d" if "(y, d) \<in> set es" for y d
    using Cons.prems(2) Cons.prems(3) [of y d] that s1(3,4) e by force
  moreover have "distinct (map fst es)" using Cons.prems(2) by simp
  ultimately obtain s' where s': "enq_all enq es s1 = Some s'" "inv s' (Q(x \<mapsto> c) ++ map_of es)"
    using Cons.IH [OF s1(2)] by blast
  have "x \<notin> dom (map_of es)" using Cons.prems(2) e by (auto simp: dom_map_of_conv_image_fst)
  then have eq: "Q(x \<mapsto> c) ++ map_of es = Q ++ map_of (e # es)"
    by (auto simp: e map_add_def fun_eq_iff domIff split: option.splits)
  have "enq_all enq (e # es) s = Some s'" using s1(1) s'(1) by (simp add: e)
  then show ?case using s'(2) unfolding eq by blast
qed simp

lemma deq_all_run:
  "inv s Q \<Longrightarrow> n = card (dom Q) \<Longrightarrow>
    \<exists>es s'. deq_all deq n s = Some (es, s') \<and> sorted (map snd es) \<and> distinct (map fst es) \<and> map_of es = Q \<and> inv s' Map.empty"
proof (induction n arbitrary: s Q)
  case 0
  then have "Q = Map.empty" using finite [OF 0(1)] by simp
  with 0 show ?case by simp
next
  case (Suc n)
  then have "Q \<noteq> Map.empty" by auto
  from deq_law [OF Suc.prems(1) this] obtain x c s1 where s1: "deq s = Some (x, c, s1)" "Q x = Some c" "inv s1 (Q(x := None))"
    and least: "\<forall>y d. Q y = Some d \<longrightarrow> c \<le> d" by blast
  have "n = card (dom (Q(x := None)))" using Suc.prems s1(2) finite [OF Suc.prems(1)] by (simp add: card_Diff_singleton domIff)
  from Suc.IH [OF s1(3) this] obtain es s' where es: "deq_all deq n s1 = Some (es, s')" "sorted (map snd es)" "distinct (map fst es)"
    "map_of es = Q(x := None)" "inv s' Map.empty" by blast
  have "x \<notin> fst ` set es" using es(4) by (metis fun_upd_same map_of_eq_None_iff)
  moreover have "c \<le> snd e" if "e \<in> set es" for e
  proof -
    have "map_of es (fst e) = Some (snd e)" using es(3) that by simp
    then show ?thesis using es(4) least by (metis fun_upd_apply option.distinct(1))
  qed
  moreover have "map_of ((x, c) # es) = Q" using es(4) s1(2) by (auto simp: fun_eq_iff)
  ultimately show ?case using s1(1) es by auto
qed

lemma sorts:
  assumes i: "inv s Map.empty" and es: "distinct (map fst es)" "\<And>x c. (x, c) \<in> set es \<Longrightarrow> fresh s x \<and> \<not> passed s c"
  shows "\<exists>s1 fs s2. enq_all enq es s = Some s1 \<and> deq_all deq (length es) s1 = Some (fs, s2) \<and> sorted (map snd fs) \<and> set fs = set es"
proof -
  from enq_all_run [OF i es(1)] es(2) obtain s1 where s1: "enq_all enq es s = Some s1" "inv s1 (map_of es)" by auto
  have "card (dom (map_of es)) = length es"
    using distinct_card [OF es(1)] by (simp add: dom_map_of_conv_image_fst)
  with deq_all_run [OF s1(2)] obtain fs s2 where fs: "deq_all deq (length es) s1 = Some (fs, s2)" "sorted (map snd fs)"
    "distinct (map fst fs)" "map_of fs = map_of es" by metis
  have "set fs = set es" using map_of_eq_Some_iff [OF fs(3)] map_of_eq_Some_iff [OF es(1)] fs(4) by auto
  with s1 fs show ?thesis by blast
qed

end

interpretation pq: priority_queue pq_inv pq_enqueue pq_dequeue "\<lambda>s x. x < length (snd s)" "\<lambda>s c. c div 64 < curBlock (fst s)"
proof unfold_locales
  fix s Q x c
  assume "pq_inv s Q" "x < length (snd s)" "Q x = None" "\<not> c div 64 < curBlock (fst s)"
  then show "\<exists>s'. pq_enqueue x c s = Some s' \<and> pq_inv s' (Q(x \<mapsto> c)) \<and> (\<lambda>x. x < length (snd s')) = (\<lambda>x. x < length (snd s)) \<and>
      (\<lambda>c. c div 64 < curBlock (fst s')) = (\<lambda>c. c div 64 < curBlock (fst s))"
    using enqueue_run [of "fst s" "snd s" Q x c] by force
next
  fix s :: "PrioQueue \<times> nexts" and Q :: "nat \<rightharpoonup> nat"
  assume "pq_inv s Q" "Q \<noteq> Map.empty"
  then show "\<exists>x c s'. pq_dequeue s = Some (x, c, s') \<and> Q x = Some c \<and> (\<forall>y d. Q y = Some d \<longrightarrow> c \<le> d) \<and> pq_inv s' (Q(x := None))"
    using dequeue_run [of "fst s" "snd s" Q] by force
qed (auto simp: pq_inv_def)

lemma pq_inv_new: "2 \<le> B \<Longrightarrow> pq_inv (PrioQueue_new B, replicate n None) Map.empty"
proof -
  assume B: "2 \<le> B"
  have "ring (PrioQueue_new B) (replicate n None) (\<lambda>_. [])"
    using B by (auto simp: ring_def PrioQueue_new_def PQBlock_new_def block_ok_def slot_def)
  then show ?thesis unfolding pq_inv_def prod.case
    by (intro conjI exI [of _ "\<lambda>_. []"]) (auto simp: stored_def far_def PrioQueue_new_def)
qed

text \<open>The queues that operations lead to from an empty one, for \<open>n\<close> elements; the second argument is the
  map of what has been put in and not taken out.\<close>

inductive pq_reach :: "nat \<Rightarrow> nat \<Rightarrow> PrioQueue \<times> nexts \<Rightarrow> (nat \<rightharpoonup> nat) \<Rightarrow> bool" for B n where
  new: "pq_reach B n (PrioQueue_new B, replicate n None) Map.empty"
| enq: "pq_reach B n s Q \<Longrightarrow> x < n \<Longrightarrow> Q x = None \<Longrightarrow> pq_enqueue x c s = Some s' \<Longrightarrow> pq_reach B n s' (Q(x \<mapsto> c))"
| deq: "pq_reach B n s Q \<Longrightarrow> pq_dequeue s = Some (x, c, s') \<Longrightarrow> pq_reach B n s' (Q(x := None))"

lemma pq_reach_inv: "pq_reach B n s Q \<Longrightarrow> 2 \<le> B \<Longrightarrow> pq_inv s Q \<and> length (snd s) = n"
proof (induction rule: pq_reach.induct)
  case new
  then show ?case using pq_inv_new by simp
next
  case (enq s Q x c s')
  then have "curBlock (fst s) \<le> c div 64" by (auto simp: pq_enqueue_def split_beta Let_def)
  with enq obtain q' nx' where "pq_enqueue x c s = Some (q', nx')" "pq_inv (q', nx') (Q(x \<mapsto> c))" "length nx' = n"
    using enqueue_run [of "fst s" "snd s" Q x c] by (metis prod.collapse)
  with enq(4) show ?case by (metis option.inject snd_conv)
next
  case (deq s Q x c s')
  then have "Q \<noteq> Map.empty" by (auto simp: pq_dequeue_def pq_inv_def split_beta)
  with deq obtain x' c' q' nx' where "pq_dequeue s = Some (x', c', q', nx')" "pq_inv (q', nx') (Q(x' := None))" "length nx' = n"
    using dequeue_run [of "fst s" "snd s" Q] by (metis prod.collapse)
  with deq(2) show ?case by (metis option.inject prod.inject snd_conv)
qed

text \<open>C19: The calendar queue is a priority queue: in every reachable state an element that is not queued can be
  stored at any cycle of the current block or a later one, \<^verbatim>\<open>dequeue\<close> returns and takes out an element of
  the least cycle, \<^verbatim>\<open>firstCycle\<close> is that cycle, and no assertion fails.\<close>

theorem prio_queue_refines:
  assumes "pq_reach B n (q, nx) Q" "2 \<le> B"
  shows "pq_size q = card (dom Q) \<and>
    (\<forall>x<n. \<forall>c. Q x = None \<and> curBlock q \<le> c div 64 \<longrightarrow> pq_enqueue x c (q, nx) \<noteq> None) \<and>
    (Q \<noteq> Map.empty \<longrightarrow> (\<exists>x c s'. pq_dequeue (q, nx) = Some (x, c, s') \<and> Q x = Some c \<and> (\<forall>y d. Q y = Some d \<longrightarrow> c \<le> d) \<and>
       firstCycle q = Some c))"
proof -
  have i: "pq_inv (q, nx) Q" "length nx = n" using pq_reach_inv [OF assms] by simp_all
  have "\<exists>x c s'. pq_dequeue (q, nx) = Some (x, c, s') \<and> Q x = Some c \<and> (\<forall>y d. Q y = Some d \<longrightarrow> c \<le> d) \<and> firstCycle q = Some c"
    if Q: "Q \<noteq> Map.empty"
  proof -
    from dequeue_run [OF i(1) Q] obtain x c s' where d: "pq_dequeue (q, nx) = Some (x, c, s')" "Q x = Some c" "\<forall>y d. Q y = Some d \<longrightarrow> c \<le> d"
      by blast
    from firstCycle_run [OF i(1) Q] obtain f where f: "firstCycle q = Some f" "least_cycle Q f" by blast
    then have "f = c" using d(2,3) by (auto simp: least_cycle_def intro: antisym)
    with d f(1) show ?thesis by blast
  qed
  moreover have "pq_enqueue x c (q, nx) \<noteq> None" if "x < n" "Q x = None" "curBlock q \<le> c div 64" for x c
    using enqueue_run [OF i(1), of x c] that i(2) by auto
  ultimately show ?thesis using i(1) by (auto simp: pq_size_def pq_inv_def)
qed

theorem prio_queue_refines_witness:
  "\<exists>q nx x s'. pq_enqueue 1 200 (PrioQueue_new 2, replicate 2 None) = Some (q, nx) \<and> pq_dequeue (q, nx) = Some (x, 200, s') \<and>
    firstCycle q = Some 200 \<and> pq_size q = 1"
proof -
  have new: "pq_reach 2 2 (PrioQueue_new 2, replicate 2 None) Map.empty" by (rule pq_reach.new)
  obtain q nx where q: "pq_enqueue 1 200 (PrioQueue_new 2, replicate 2 None) = Some (q, nx)"
    using prio_queue_refines [OF new] by (force simp: PrioQueue_new_def)
  from pq_reach.enq [OF new _ _ this] have "pq_reach 2 2 (q, nx) [1 \<mapsto> 200]" by simp
  from prio_queue_refines [OF this] show ?thesis using q by (auto split: if_splits)
qed

text \<open>What goes in comes out in order: elements stored at any cycles, near or far, are taken out with
  cycles that never decrease, each once, and every operation returns.\<close>

theorem prio_queue_sorts:
  assumes "2 \<le> B" "distinct (map fst es)" "\<forall>x\<in>fst ` set es. x < n"
  shows "\<exists>s fs s'. enq_all pq_enqueue es (PrioQueue_new B, replicate n None) = Some s \<and>
    deq_all pq_dequeue (length es) s = Some (fs, s') \<and> sorted (map snd fs) \<and> set fs = set es"
  by (rule pq.sorts [OF pq_inv_new [OF assms(1)] assms(2)]) (use assms(3) in \<open>force simp: PrioQueue_new_def\<close>)

theorem prio_queue_sorts_witness:
  "\<exists>s fs s'. enq_all pq_enqueue [(0, 70000), (1, 3), (2, 64)] (PrioQueue_new 1024, replicate 3 None) = Some s \<and>
    deq_all pq_dequeue (length [(0::nat, 70000::nat), (1, 3), (2, 64)]) s = Some (fs, s') \<and> sorted (map snd fs) \<and> set fs = set [(0, 70000), (1, 3), (2, 64)]"
  by (rule prio_queue_sorts) auto

end
