(* ===== verification/Scheduler.thy ===== *)
theory Scheduler imports Barrier In_List_Contract begin

text \<open>
  The scheduler of \<^verbatim>\<open>zsim/src/scheduler.h\<close> and \<^verbatim>\<open>scheduler.cpp\<close>: it assigns the threads of the simulated
  programs to the cores (contexts) and runs the phase barrier.

  A pointer to a thread is a number, the contexts are the indices of their vector, and a queue is the list of its
  nodes: \<open>In_List_Contract\<close> shows that the intrusive lists implement these lists, where the owner of a node
  is the queue that holds it. The lock is held through every definition that the code runs under it; an
  operation that gives it up to wait is split there. The notifications of the cores are recorded in
  \<open>core_log\<close>, the newest first, and so is the call of \<^verbatim>\<open>atSyncFunc\<close>. Statistics are left out, and so are
  \<^verbatim>\<open>linuxPid\<close>, \<^verbatim>\<open>linuxTid\<close> and \<^verbatim>\<open>waitUntilQueued\<close>, which delay a wakeup until the host has run the thread.
\<close>

datatype ThreadState = STARTED | RUNNING | OUT | BLOCKED | SLEEPING | QUEUED

datatype ContextState = IDLE | USED

datatype FutexJoinAction = FJA_NONE | FJA_WAKE | FJA_WAIT

record FutexJoinInfo =
  fj_action :: FutexJoinAction
  maxWakes :: u32
  wokenUp :: u32

record FakeLeaveInfo =
  fl_pc :: u64
  syscallNumber :: int
  fl_arg0 :: u64
  fl_arg1 :: u64

record ThreadInfo =
  th_gid :: u32
  th_state :: ThreadState
  th_cid :: nat
  handoffThread :: "nat option"
  th_futexWord :: u32
  needsJoin :: bool
  markedForSleep :: bool
  wakeupPhase :: u64
  th_mask :: "bool list"
  fakeLeave :: "FakeLeaveInfo option"
  futexJoin :: FutexJoinInfo

record ContextInfo =
  ctx_state :: ContextState
  curThread :: "nat option"

datatype CoreEvent = CORE_JOIN nat | CORE_LEAVE nat | CONTEXT_SWITCH nat "u32 option" | AT_SYNC

record 'r Sched =
  numCores :: nat
  schedQuantum :: u32
  gidMap :: "(u32 \<times> nat) list"
  threads :: "nat \<rightharpoonup> ThreadInfo"
  nextThread :: nat
  contexts :: "ContextInfo list"
  freeList :: "nat list"
  runQueue :: "nat list"
  outQueue :: "nat list"
  sleepQueue :: "nat list"
  curPhase :: u64
  sched_rnd :: 'r
  pendingPidCleanups :: "(u32 \<times> u32) list"
  scheduledThreads :: u32
  blockingSyscalls :: "u64 set list"
  fakeLeaves :: "nat list"
  maxAllowedFutexWakeups :: u32
  unmatchedFutexWakeups :: u32
  numPhases :: u64
  globPhaseCycles :: u64
  phaseLength :: u32
  core_log :: "CoreEvent list"

definition Sched_new :: "nat \<Rightarrow> u32 \<Rightarrow> u32 \<Rightarrow> 'r \<Rightarrow> 'r Sched" where
  "Sched_new cores quantum len rnd = \<lparr>numCores = cores, schedQuantum = quantum, gidMap = [], threads = Map.empty, nextThread = 0,
     contexts = replicate cores \<lparr>ctx_state = IDLE, curThread = None\<rparr>, freeList = [0..<cores], runQueue = [], outQueue = [], sleepQueue = [],
     curPhase = 0, sched_rnd = rnd, pendingPidCleanups = [], scheduledThreads = 0, blockingSyscalls = replicate MAX_THREADS {},
     fakeLeaves = [], maxAllowedFutexWakeups = 0, unmatchedFutexWakeups = 0, numPhases = 0, globPhaseCycles = 0, phaseLength = len,
     core_log = []\<rparr>"

definition getGid :: "u32 \<Rightarrow> u32 \<Rightarrow> u32" where
  "getGid pid tid = push_bit 16 pid OR tid"

definition getPid :: "u32 \<Rightarrow> u32" where
  "getPid gid = drop_bit 16 gid"

definition getTid :: "u32 \<Rightarrow> u32" where
  "getTid gid = gid AND 0x0FFFF"

subsection \<open>Threads and queues\<close>

definition mod_th :: "nat \<Rightarrow> (ThreadInfo \<Rightarrow> ThreadInfo) \<Rightarrow> 'r Sched \<Rightarrow> 'r Sched option" where
  "mod_th t f s = do {
     th \<leftarrow> threads s t;
     Some (s\<lparr>threads := (threads s)(t \<mapsto> f th)\<rparr>)
   }"

definition log_core :: "CoreEvent \<Rightarrow> 'r Sched \<Rightarrow> 'r Sched" where
  "log_core e s = s\<lparr>core_log := e # core_log s\<rparr>"

definition unqueued :: "nat \<Rightarrow> 'r Sched \<Rightarrow> bool" where
  "unqueued t s \<longleftrightarrow> t \<notin> set (runQueue s) \<and> t \<notin> set (outQueue s) \<and> t \<notin> set (sleepQueue s)"

definition run_push :: "nat \<Rightarrow> 'r Sched \<Rightarrow> 'r Sched option" where
  "run_push t s = do {
     assert_that (unqueued t s);
     Some (s\<lparr>runQueue := runQueue s @ [t]\<rparr>)
   }"

definition run_remove :: "nat \<Rightarrow> 'r Sched \<Rightarrow> 'r Sched option" where
  "run_remove t s = do {
     assert_that (t \<in> set (runQueue s));
     Some (s\<lparr>runQueue := remove1 t (runQueue s)\<rparr>)
   }"

definition out_push :: "nat \<Rightarrow> 'r Sched \<Rightarrow> 'r Sched option" where
  "out_push t s = do {
     assert_that (unqueued t s);
     Some (s\<lparr>outQueue := outQueue s @ [t]\<rparr>)
   }"

definition out_remove :: "nat \<Rightarrow> 'r Sched \<Rightarrow> 'r Sched option" where
  "out_remove t s = do {
     assert_that (t \<in> set (outQueue s));
     Some (s\<lparr>outQueue := remove1 t (outQueue s)\<rparr>)
   }"

definition sleep_remove :: "nat \<Rightarrow> 'r Sched \<Rightarrow> 'r Sched option" where
  "sleep_remove t s = do {
     assert_that (t \<in> set (sleepQueue s));
     Some (s\<lparr>sleepQueue := remove1 t (sleepQueue s)\<rparr>)
   }"

definition wakeup_of :: "'r Sched \<Rightarrow> nat \<Rightarrow> u64" where
  "wakeup_of s t = (case threads s t of None \<Rightarrow> 0 | Some th \<Rightarrow> wakeupPhase th)"

definition sleep_insert :: "nat \<Rightarrow> 'r Sched \<Rightarrow> 'r Sched option" where
  "sleep_insert t s = do {
     assert_that (unqueued t s);
     Some (s\<lparr>sleepQueue := insert_by (wakeup_of s) t (sleepQueue s)\<rparr>)
   }"

definition free_push :: "nat \<Rightarrow> 'r Sched \<Rightarrow> 'r Sched option" where
  "free_push c s = do {
     assert_that (c \<notin> set (freeList s));
     Some (s\<lparr>freeList := freeList s @ [c]\<rparr>)
   }"

definition free_remove :: "nat \<Rightarrow> 'r Sched \<Rightarrow> 'r Sched option" where
  "free_remove c s = do {
     assert_that (c \<in> set (freeList s));
     Some (s\<lparr>freeList := remove1 c (freeList s)\<rparr>)
   }"

text \<open>The search of a queue for a thread that satisfies a condition; a null pointer fails.\<close>

fun find_th :: "(ThreadInfo \<Rightarrow> bool) \<Rightarrow> 'r Sched \<Rightarrow> nat list \<Rightarrow> nat option option" where
  "find_th P s [] = Some None"
| "find_th P s (t # ts) = do {
     th \<leftarrow> threads s t;
     (if P th then Some (Some t) else find_th P s ts)
   }"

subsection \<open>Contexts\<close>

definition schedule :: "nat \<Rightarrow> nat \<Rightarrow> 'r Sched \<Rightarrow> 'r Sched option" where
  "schedule t c s = do {
     th \<leftarrow> threads s t;
     ctx \<leftarrow> read_at (contexts s) c;
     assert_that (th_state th = STARTED \<or> th_state th = BLOCKED \<or> th_state th = QUEUED);
     assert_that (ctx_state ctx = IDLE);
     assert_that (curThread ctx = None);
     Some (log_core (CONTEXT_SWITCH c (Some (th_gid th)))
       (s\<lparr>threads := (threads s)(t \<mapsto> th\<lparr>th_state := RUNNING, th_cid := c\<rparr>),
          contexts := (contexts s)[c := \<lparr>ctx_state = USED, curThread = Some t\<rparr>],
          scheduledThreads := scheduledThreads s + 1\<rparr>))
   }"

definition deschedule :: "nat \<Rightarrow> nat \<Rightarrow> ThreadState \<Rightarrow> 'r Sched \<Rightarrow> 'r Sched option" where
  "deschedule t c target s = do {
     th \<leftarrow> threads s t;
     ctx \<leftarrow> read_at (contexts s) c;
     assert_that (th_state th = RUNNING \<or> th_state th = OUT);
     assert_that (ctx_state ctx = USED);
     assert_that (c = th_cid th);
     assert_that (curThread ctx = Some t);
     assert_that (target = BLOCKED \<or> target = QUEUED \<or> target = SLEEPING);
     Some (log_core (CONTEXT_SWITCH c None)
       (s\<lparr>threads := (threads s)(t \<mapsto> th\<lparr>th_state := target\<rparr>),
          contexts := (contexts s)[c := \<lparr>ctx_state = IDLE, curThread = None\<rparr>],
          scheduledThreads := scheduledThreads s - 1\<rparr>))
   }"

text \<open>The part of \<^verbatim>\<open>waitForContext\<close> before the thread waits, and what it does when it goes on.\<close>

definition wait_start :: "nat \<Rightarrow> 'r Sched \<Rightarrow> 'r Sched option" where
  "wait_start t s = mod_th t (\<lambda>th. th\<lparr>th_futexWord := 1\<rparr>) s"

definition wakeup :: "nat \<Rightarrow> bool \<Rightarrow> 'r Sched \<Rightarrow> 'r Sched option" where
  "wakeup t join s = do {
     th \<leftarrow> threads s t;
     assert_that (th_futexWord th = 1);
     mod_th t (\<lambda>th. th\<lparr>needsJoin := join, th_futexWord := 0\<rparr>) s
   }"

definition schedThread :: "nat \<Rightarrow> 'r Sched \<Rightarrow> (nat option \<times> 'r Sched) option" where
  "schedThread t s = do {
     th \<leftarrow> threads s t;
     assert_that (th_cid th < numCores s);
     own \<leftarrow> read_at (contexts s) (th_cid th);
     (r, s) \<leftarrow> (if ctx_state own = IDLE \<and> th_mask th ! th_cid th then do {
            s \<leftarrow> free_remove (th_cid th) s;
            Some (Some (th_cid th), s)
          } else case List.find (\<lambda>c. th_mask th ! c) (freeList s) of
            Some c \<Rightarrow> do {
              s \<leftarrow> free_remove c s;
              Some (Some c, s)
            }
          | None \<Rightarrow> do {
              out \<leftarrow> find_th (\<lambda>outTh. th_mask th ! th_cid outTh) s (outQueue s);
              (case out of
                 None \<Rightarrow> Some (None, s)
               | Some o1 \<Rightarrow> do {
                   outTh \<leftarrow> threads s o1;
                   s \<leftarrow> out_remove o1 s;
                   s \<leftarrow> deschedule o1 (th_cid outTh) BLOCKED s;
                   Some (Some (th_cid outTh), s)
                 })
            });
     assert_that (case r of None \<Rightarrow> True | Some c \<Rightarrow> th_mask th ! c);
     Some (r, s)
   }"

definition schedContext :: "nat \<Rightarrow> 'r Sched \<Rightarrow> (nat option \<times> 'r Sched) option" where
  "schedContext c s = do {
     r \<leftarrow> find_th (\<lambda>th. th_mask th ! c) s (runQueue s);
     (case r of
        None \<Rightarrow> Some (None, s)
      | Some t \<Rightarrow> do {
          s \<leftarrow> run_remove t s;
          Some (Some t, s)
        })
   }"

subsection \<open>The end of a quantum and of a phase\<close>

fun shuffle_vec :: "('r \<Rightarrow> nat \<Rightarrow> nat \<times> 'r) \<Rightarrow> nat \<Rightarrow> nat list \<Rightarrow> 'r \<Rightarrow> nat list \<times> 'r" where
  "shuffle_vec rand 0 xs r = (xs, r)"
| "shuffle_vec rand (Suc i) xs r =
     (let (j, r) = rand r (Suc i) in shuffle_vec rand i (xs[Suc i := xs ! j, j := xs ! Suc i]) r)"

text \<open>The loop over the run queue, which is here the queue at its start: \<^verbatim>\<open>th->next\<close> is read before
  \<open>th\<close> is removed.\<close>

fun tick_loop :: "nat list \<Rightarrow> nat list \<Rightarrow> 'r Sched \<Rightarrow> 'r Sched option" where
  "tick_loop [] avail s = Some s"
| "tick_loop (t # ts) avail s = (if avail = [] then Some s else do {
     th \<leftarrow> threads s t;
     (case List.find (\<lambda>c. th_mask th ! c) avail of
        None \<Rightarrow> tick_loop ts avail s
      | Some c \<Rightarrow> do {
          ctx \<leftarrow> read_at (contexts s) c;
          victimTh \<leftarrow> curThread ctx;
          s \<leftarrow> mod_th victimTh (\<lambda>th. th\<lparr>handoffThread := Some t\<rparr>) s;
          s \<leftarrow> run_remove t s;
          tick_loop ts (remove1 c avail) s
        })
   })"

text \<open>\<^verbatim>\<open>printState\<close> stops the simulator when a used context has a thread in another state.\<close>

definition state_printable :: "'r Sched \<Rightarrow> bool" where
  "state_printable s \<longleftrightarrow> list_all (\<lambda>ctx. ctx_state ctx = IDLE \<or>
     (case Option.bind (curThread ctx) (threads s) of None \<Rightarrow> False | Some th \<Rightarrow> th_state th = RUNNING \<or> th_state th = OUT)) (contexts s)"

definition schedTick :: "('r \<Rightarrow> nat \<Rightarrow> nat \<times> 'r) \<Rightarrow> 'r Sched \<Rightarrow> 'r Sched option" where
  "schedTick rand s = do {
     let (avail, r) = shuffle_vec rand (numCores s - 1) [0..<numCores s] (sched_rnd s);
     s \<leftarrow> tick_loop (runQueue s) avail (s\<lparr>sched_rnd := r\<rparr>);
     assert_that (state_printable s);
     Some s
   }"

fun wake_sleepers :: "nat list \<Rightarrow> 'r Sched \<Rightarrow> 'r Sched option" where
  "wake_sleepers [] s = Some s"
| "wake_sleepers (t # ts) s = do {
     th \<leftarrow> threads s t;
     (if wakeupPhase th \<le> curPhase s then do {
        assert_that (wakeupPhase th = curPhase s);
        s \<leftarrow> mod_th t (\<lambda>th. th\<lparr>th_state := BLOCKED\<rparr>) s;
        s \<leftarrow> wakeup t False s;
        wake_sleepers ts (s\<lparr>sleepQueue := ts\<rparr>)
      } else Some s)
   }"

definition callback :: "('r \<Rightarrow> nat \<Rightarrow> nat \<times> 'r) \<Rightarrow> 'r Sched \<Rightarrow> 'r Sched option" where
  "callback rand s = do {
     assert_that (scheduledThreads s \<le> of_nat (numCores s));
     let s = log_core AT_SYNC s;
     let s = s\<lparr>numPhases := numPhases s + 1, globPhaseCycles := globPhaseCycles s + ucast (phaseLength s), curPhase := curPhase s + 1\<rparr>;
     assert_that (curPhase s = numPhases s);
     s \<leftarrow> wake_sleepers (sleepQueue s) s;
     (if runQueue s = [] then Some s
      else do {
        assert_that (schedQuantum s \<noteq> 0);
        (if curPhase s mod ucast (schedQuantum s) = 0 then schedTick rand s else Some s)
      })
   }"

subsection \<open>start, leave and sync\<close>

definition sched_start :: "u32 \<Rightarrow> u32 \<Rightarrow> bool list \<Rightarrow> 'r Sched \<Rightarrow> 'r Sched option" where
  "sched_start pid tid cmask s = do {
     let gid = getGid pid tid;
     assert_that (map_of (gidMap s) gid = None);
     assert_that (length cmask = numCores s);
     assert_that (\<exists>x\<in>set cmask. x);
     let t = nextThread s;
     Some (s\<lparr>gidMap := (gid, t) # gidMap s, nextThread := Suc t,
       threads := (threads s)(t \<mapsto> \<lparr>th_gid = gid, th_state = STARTED, th_cid = 0, handoffThread = None, th_futexWord = 0,
         needsJoin = False, markedForSleep = False, wakeupPhase = 0, th_mask = cmask, fakeLeave = None,
         futexJoin = \<lparr>fj_action = FJA_NONE, maxWakes = 0, wokenUp = 0\<rparr>\<rparr>)\<rparr>)
   }"

text \<open>The thread that takes over the context of one that leaves.\<close>

definition give_context :: "nat \<Rightarrow> nat \<Rightarrow> 'r Sched \<Rightarrow> 'r Sched option" where
  "give_context inTh c s = do {
     s \<leftarrow> schedule inTh c s;
     wakeup inTh False (log_core (CORE_JOIN c) s)
   }"

definition sched_leave :: "('r \<Rightarrow> nat \<Rightarrow> nat \<times> 'r) \<Rightarrow> u32 \<Rightarrow> u32 \<Rightarrow> nat \<Rightarrow> 'r Barrier \<times> 'r Sched \<Rightarrow> ('r Barrier \<times> 'r Sched) option" where
  "sched_leave rand pid tid cid = (\<lambda>(b, s). do {
     ctx \<leftarrow> read_at (contexts s) cid;
     t \<leftarrow> curThread ctx;
     th \<leftarrow> threads s t;
     assert_that (th_gid th = getGid pid tid);
     assert_that (th_state th = RUNNING);
     let s = log_core (CORE_LEAVE cid) s;
     (if markedForSleep th then do {
        s \<leftarrow> mod_th t (\<lambda>th. th\<lparr>markedForSleep := False\<rparr>) s;
        s \<leftarrow> deschedule t cid SLEEPING s;
        s \<leftarrow> sleep_insert t s;
        (r, s) \<leftarrow> schedContext cid s;
        (case r of
           Some inTh \<Rightarrow> do {
             s \<leftarrow> give_context inTh cid s;
             Some (b, s)
           }
         | None \<Rightarrow> do {
             s \<leftarrow> free_push cid s;
             bar_leave rand (callback rand) cid (b, s)
           })
      } else do {
        (r, s) \<leftarrow> schedContext cid s;
        (case r of
           Some inTh \<Rightarrow> do {
             s \<leftarrow> deschedule t cid BLOCKED s;
             s \<leftarrow> give_context inTh cid s;
             Some (b, s)
           }
         | None \<Rightarrow> do {
             s \<leftarrow> mod_th t (\<lambda>th. th\<lparr>th_state := OUT\<rparr>) s;
             s \<leftarrow> out_push t s;
             bar_leave rand (callback rand) cid (b, s)
           })
      })
   })"

text \<open>\<^verbatim>\<open>sync\<close> up to the wait in the barrier, and from the point where the barrier has let the thread go on.\<close>

definition sched_sync :: "('r \<Rightarrow> nat \<Rightarrow> nat \<times> 'r) \<Rightarrow> nat \<Rightarrow> 'r Barrier \<times> 'r Sched \<Rightarrow> ('r Barrier \<times> 'r Sched) option" where
  "sched_sync rand cid = (\<lambda>(b, s). do {
     ctx \<leftarrow> read_at (contexts s) cid;
     t \<leftarrow> curThread ctx;
     th \<leftarrow> threads s t;
     assert_that (\<not> markedForSleep th);
     bar_sync rand (callback rand) cid (b, s)
   })"

text \<open>The join of a core and its context to the barrier.\<close>

definition enter_barrier :: "('r \<Rightarrow> nat \<Rightarrow> nat \<times> 'r) \<Rightarrow> nat \<Rightarrow> 'r Barrier \<times> 'r Sched \<Rightarrow> ('r Barrier \<times> 'r Sched) option" where
  "enter_barrier rand c = (\<lambda>(b, s). bar_join rand (callback rand) c (b, log_core (CORE_JOIN c) s))"

definition sched_sync_end :: "('r \<Rightarrow> nat \<Rightarrow> nat \<times> 'r) \<Rightarrow> nat \<Rightarrow> 'r Barrier \<times> 'r Sched \<Rightarrow> ('r Barrier \<times> 'r Sched) option" where
  "sched_sync_end rand t = (\<lambda>(b, s). do {
     th \<leftarrow> threads s t;
     (case handoffThread th of
        None \<Rightarrow> do {
          assert_that (th_state th = RUNNING);
          Some (b, s)
        }
      | Some dst \<Rightarrow> do {
          s \<leftarrow> mod_th t (\<lambda>th. th\<lparr>handoffThread := None\<rparr>) s;
          s \<leftarrow> deschedule t (th_cid th) QUEUED s;
          s \<leftarrow> schedule dst (th_cid th) s;
          s \<leftarrow> wakeup dst False s;
          (r, s) \<leftarrow> schedThread t s;
          (case r of
             Some c \<Rightarrow> do {
               s \<leftarrow> schedule t c s;
               enter_barrier rand c (b, s)
             }
           | None \<Rightarrow> do {
               s \<leftarrow> run_push t s;
               s \<leftarrow> wait_start t s;
               Some (b, s)
             })
        })
   })"

text \<open>The end of \<^verbatim>\<open>waitForContext\<close>, when another thread has woken this one.\<close>

definition wait_end :: "('r \<Rightarrow> nat \<Rightarrow> nat \<times> 'r) \<Rightarrow> nat \<Rightarrow> 'r Barrier \<times> 'r Sched \<Rightarrow> ('r Barrier \<times> 'r Sched) option" where
  "wait_end rand t = (\<lambda>(b, s). do {
     th \<leftarrow> threads s t;
     assert_that (th_futexWord th \<noteq> 1);
     (if needsJoin th then enter_barrier rand (th_cid th) (b, s) else Some (b, s))
   })"

subsection \<open>join\<close>

definition finishFakeLeave :: "nat \<Rightarrow> 'r Sched \<Rightarrow> 'r Sched option" where
  "finishFakeLeave t s = do {
     th \<leftarrow> threads s t;
     assert_that (fakeLeave th \<noteq> None);
     assert_that (th_state th = RUNNING);
     assert_that (t \<in> set (fakeLeaves s));
     mod_th t (\<lambda>th. th\<lparr>fakeLeave := None\<rparr>) (s\<lparr>fakeLeaves := remove1 t (fakeLeaves s)\<rparr>)
   }"

definition futexWaitJoin :: "nat \<Rightarrow> 'r Sched \<Rightarrow> 'r Sched option" where
  "futexWaitJoin t s = do {
     th \<leftarrow> threads s t;
     assert_that (fj_action (futexJoin th) = FJA_WAIT);
     Some (if unmatchedFutexWakeups s \<ge> maxAllowedFutexWakeups s then s
       else s\<lparr>unmatchedFutexWakeups := unmatchedFutexWakeups s + 1\<rparr>)
   }"

text \<open>\<^verbatim>\<open>futexWakeJoin\<close> up to its wait for the threads it woke, and after it, when they have come or time is over.\<close>

definition futexWakeJoin :: "nat \<Rightarrow> 'r Sched \<Rightarrow> 'r Sched option" where
  "futexWakeJoin t s = do {
     th \<leftarrow> threads s t;
     let j = futexJoin th;
     assert_that (fj_action j = FJA_WAKE);
     assert_that (maxWakes j \<le> maxAllowedFutexWakeups s);
     assert_that (wokenUp j \<le> maxWakes j);
     let s = s\<lparr>maxAllowedFutexWakeups := maxAllowedFutexWakeups s - (maxWakes j - wokenUp j)\<rparr>;
     assert_that (unmatchedFutexWakeups s \<le> maxAllowedFutexWakeups s);
     Some s
   }"

definition futexWakeJoin_end :: "nat \<Rightarrow> bool \<Rightarrow> 'r Sched \<Rightarrow> 'r Sched option" where
  "futexWakeJoin_end t timeout s = do {
     th \<leftarrow> threads s t;
     let n = wokenUp (futexJoin th);
     assert_that (timeout \<or> n \<le> unmatchedFutexWakeups s);
     Some (s\<lparr>unmatchedFutexWakeups := (if timeout then 0 else unmatchedFutexWakeups s - n),
       maxAllowedFutexWakeups := maxAllowedFutexWakeups s - n\<rparr>)
   }"

definition clear_action :: "nat \<Rightarrow> 'r Sched \<Rightarrow> 'r Sched option" where
  "clear_action t s = mod_th t (\<lambda>th. th\<lparr>futexJoin := (futexJoin th)\<lparr>fj_action := FJA_NONE\<rparr>\<rparr>) s"

text \<open>\<^verbatim>\<open>join\<close> after the matching of futex wakes, up to the wait in the barrier or for a context.\<close>

definition join_rest :: "('r \<Rightarrow> nat \<Rightarrow> nat \<times> 'r) \<Rightarrow> nat \<Rightarrow> 'r Barrier \<times> 'r Sched \<Rightarrow> ('r Barrier \<times> 'r Sched) option" where
  "join_rest rand t = (\<lambda>(b, s). do {
     th \<leftarrow> threads s t;
     (if fakeLeave th \<noteq> None then do {
        s \<leftarrow> finishFakeLeave t s;
        Some (b, s)
      } else do {
        assert_that (\<not> markedForSleep th);
        s \<leftarrow> (if th_state th = SLEEPING then do {
               s \<leftarrow> sleep_remove t s;
               mod_th t (\<lambda>th. th\<lparr>th_state := BLOCKED\<rparr>) s
             } else Some s);
        th \<leftarrow> threads s t;
        (if th_state th = OUT then do {
           s \<leftarrow> mod_th t (\<lambda>th. th\<lparr>th_state := RUNNING\<rparr>) s;
           s \<leftarrow> out_remove t s;
           enter_barrier rand (th_cid th) (b, s)
         } else do {
           assert_that (th_state th = BLOCKED \<or> th_state th = STARTED);
           (r, s) \<leftarrow> schedThread t s;
           (case r of
              Some c \<Rightarrow> do {
                s \<leftarrow> schedule t c s;
                enter_barrier rand c (b, s)
              }
            | None \<Rightarrow> do {
                s \<leftarrow> mod_th t (\<lambda>th. th\<lparr>th_state := QUEUED\<rparr>) s;
                s \<leftarrow> run_push t s;
                s \<leftarrow> wait_start t s;
                Some (b, s)
              })
         })
      })
   })"

definition sched_join :: "('r \<Rightarrow> nat \<Rightarrow> nat \<times> 'r) \<Rightarrow> u32 \<Rightarrow> u32 \<Rightarrow> 'r Barrier \<times> 'r Sched \<Rightarrow> ('r Barrier \<times> 'r Sched) option" where
  "sched_join rand pid tid = (\<lambda>(b, s). do {
     t \<leftarrow> map_of (gidMap s) (getGid pid tid);
     th \<leftarrow> threads s t;
     (case fj_action (futexJoin th) of
        FJA_NONE \<Rightarrow> join_rest rand t (b, s)
      | FJA_WAIT \<Rightarrow> do {
          s \<leftarrow> futexWaitJoin t s;
          s \<leftarrow> clear_action t s;
          join_rest rand t (b, s)
        }
      | FJA_WAKE \<Rightarrow> do {
          s \<leftarrow> futexWakeJoin t s;
          Some (b, s)
        })
   })"

definition sched_join_woken :: "('r \<Rightarrow> nat \<Rightarrow> nat \<times> 'r) \<Rightarrow> nat \<Rightarrow> bool \<Rightarrow> 'r Barrier \<times> 'r Sched \<Rightarrow> ('r Barrier \<times> 'r Sched) option" where
  "sched_join_woken rand t timeout = (\<lambda>(b, s). do {
     s \<leftarrow> futexWakeJoin_end t timeout s;
     s \<leftarrow> clear_action t s;
     join_rest rand t (b, s)
   })"

subsection \<open>finish, and the cleanup of a process\<close>

text \<open>\<^verbatim>\<open>finish\<close> gives up the lock around the calls of \<^verbatim>\<open>leave\<close> (a \<^verbatim>\<open>FIXME\<close> in the source says it may be racy);
  here the operation runs to its end.\<close>

definition finish_rest :: "nat \<Rightarrow> 'r Sched \<Rightarrow> 'r Sched option" where
  "finish_rest t s = do {
     th \<leftarrow> threads s t;
     assert_that (th_state th = STARTED \<or> th_state th = OUT \<or> th_state th = BLOCKED \<or> th_state th = QUEUED);
     s \<leftarrow> (if th_state th = QUEUED then run_remove t s
        else if \<not> unqueued t s then do {
          s \<leftarrow> out_remove t s;
          s \<leftarrow> deschedule t (th_cid th) BLOCKED s;
          free_push (th_cid th) s
        } else Some s);
     Some (s\<lparr>threads := (threads s)(t := None)\<rparr>)
   }"

definition sched_finish :: "('r \<Rightarrow> nat \<Rightarrow> nat \<times> 'r) \<Rightarrow> u32 \<Rightarrow> u32 \<Rightarrow> 'r Barrier \<times> 'r Sched \<Rightarrow> ('r Barrier \<times> 'r Sched) option" where
  "sched_finish rand pid tid = (\<lambda>(b, s). do {
     let gid = getGid pid tid;
     t \<leftarrow> map_of (gidMap s) gid;
     let s = s\<lparr>gidMap := filter (\<lambda>e. fst e \<noteq> gid) (gidMap s)\<rparr>;
     th \<leftarrow> threads s t;
     (b, s) \<leftarrow> (if fakeLeave th \<noteq> None then do {
            s \<leftarrow> finishFakeLeave t s;
            sched_leave rand pid tid (th_cid th) (b, s)
          } else Some (b, s));
     th \<leftarrow> threads s t;
     (b, s) \<leftarrow> (if th_state th = RUNNING then sched_leave rand pid tid (th_cid th) (b, s) else Some (b, s));
     s \<leftarrow> finish_rest t s;
     Some (b, s)
   })"

definition isSleeping :: "u32 \<Rightarrow> u32 \<Rightarrow> 'r Sched \<Rightarrow> bool option" where
  "isSleeping pid tid s = do {
     t \<leftarrow> map_of (gidMap s) (getGid pid tid);
     th \<leftarrow> threads s t;
     Some (th_state th = SLEEPING)
   }"

definition markForSleep :: "u32 \<Rightarrow> u32 \<Rightarrow> u64 \<Rightarrow> 'r Sched \<Rightarrow> 'r Sched option" where
  "markForSleep pid tid phase s = do {
     t \<leftarrow> map_of (gidMap s) (getGid pid tid);
     th \<leftarrow> threads s t;
     assert_that (\<not> markedForSleep th);
     mod_th t (\<lambda>th. th\<lparr>markedForSleep := True, wakeupPhase := phase, th_futexWord := 1\<rparr>) s
   }"

definition notifySleepEnd :: "u32 \<Rightarrow> u32 \<Rightarrow> 'r Sched \<Rightarrow> 'r Sched option" where
  "notifySleepEnd pid tid s = do {
     t \<leftarrow> map_of (gidMap s) (getGid pid tid);
     th \<leftarrow> threads s t;
     assert_that (\<not> markedForSleep th);
     assert_that (th_state th = SLEEPING \<or> th_state th = BLOCKED);
     (if th_state th = BLOCKED then Some s
      else do {
        s \<leftarrow> sleep_remove t s;
        mod_th t (\<lambda>th. th\<lparr>th_state := BLOCKED\<rparr>) s
      })
   }"

fun cleanup_tids :: "('r \<Rightarrow> nat \<Rightarrow> nat \<times> 'r) \<Rightarrow> u32 \<Rightarrow> u32 list \<Rightarrow> 'r Barrier \<times> 'r Sched \<Rightarrow> ('r Barrier \<times> 'r Sched) option" where
  "cleanup_tids rand pid [] c = Some c"
| "cleanup_tids rand pid (tid # tids) (b, s) = do {
     sleeping \<leftarrow> isSleeping pid tid s;
     s \<leftarrow> (if sleeping then notifySleepEnd pid tid s else Some s);
     c \<leftarrow> sched_finish rand pid tid (b, s);
     cleanup_tids rand pid tids c
   }"

text \<open>The order of the hash map is the order of the list \<open>gidMap\<close> here.\<close>

definition processCleanup :: "('r \<Rightarrow> nat \<Rightarrow> nat \<times> 'r) \<Rightarrow> u32 \<Rightarrow> 'r Barrier \<times> 'r Sched \<Rightarrow> ('r Barrier \<times> 'r Sched) option" where
  "processCleanup rand pid = (\<lambda>(b, s).
     cleanup_tids rand pid (map (\<lambda>e. getTid (fst e)) (filter (\<lambda>e. getPid (fst e) = pid) (gidMap s))) (b, s))"

definition queueProcessCleanup :: "u32 \<Rightarrow> u32 \<Rightarrow> 'r Sched \<Rightarrow> 'r Sched" where
  "queueProcessCleanup pid osPid s = s\<lparr>pendingPidCleanups := pendingPidCleanups s @ [(pid, osPid)]\<rparr>"

definition getScheduledPid :: "nat \<Rightarrow> 'r Sched \<Rightarrow> u32 option" where
  "getScheduledPid cid s = do {
     ctx \<leftarrow> read_at (contexts s) cid;
     (if ctx_state ctx = USED then do {
        t \<leftarrow> curThread ctx;
        th \<leftarrow> threads s t;
        Some (getPid (th_gid th))
      } else Some (- 1))
   }"

subsection \<open>Accurate join and leave\<close>

definition syscallLeave :: "('r \<Rightarrow> nat \<Rightarrow> nat \<times> 'r) \<Rightarrow> u32 \<Rightarrow> u32 \<Rightarrow> nat \<Rightarrow> FakeLeaveInfo \<Rightarrow> 'r Barrier \<times> 'r Sched \<Rightarrow>
    ('r Barrier \<times> 'r Sched) option" where
  "syscallLeave rand pid tid cid si = (\<lambda>(b, s). do {
     ctx \<leftarrow> read_at (contexts s) cid;
     t \<leftarrow> curThread ctx;
     th \<leftarrow> threads s t;
     assert_that (th_gid th = getGid pid tid);
     assert_that (th_cid th = cid);
     assert_that (th_state th = RUNNING);
     black \<leftarrow> read_at (blockingSyscalls s) (unat pid);
     (if fl_pc si \<in> black \<or> markedForSleep th then sched_leave rand pid tid cid (b, s)
      else do {
        assert_that (fakeLeave th = None);
        s \<leftarrow> mod_th t (\<lambda>th. th\<lparr>fakeLeave := Some si\<rparr>) s;
        Some (b, s\<lparr>fakeLeaves := fakeLeaves s @ [t]\<rparr>)
      })
   })"

definition notifyFutexWakeStart :: "u32 \<Rightarrow> u32 \<Rightarrow> u32 \<Rightarrow> 'r Sched \<Rightarrow> 'r Sched option" where
  "notifyFutexWakeStart pid tid n s = do {
     t \<leftarrow> map_of (gidMap s) (getGid pid tid);
     th \<leftarrow> threads s t;
     assert_that (fj_action (futexJoin th) = FJA_NONE);
     let n = MIN2 n (2 ^ 24);
     mod_th t (\<lambda>th. th\<lparr>futexJoin := (futexJoin th)\<lparr>maxWakes := n\<rparr>\<rparr>) (s\<lparr>maxAllowedFutexWakeups := maxAllowedFutexWakeups s + n\<rparr>)
   }"

definition notifyFutexWakeEnd :: "u32 \<Rightarrow> u32 \<Rightarrow> u32 \<Rightarrow> 'r Sched \<Rightarrow> 'r Sched option" where
  "notifyFutexWakeEnd pid tid n s = do {
     t \<leftarrow> map_of (gidMap s) (getGid pid tid);
     mod_th t (\<lambda>th. th\<lparr>futexJoin := (futexJoin th)\<lparr>fj_action := FJA_WAKE, wokenUp := n\<rparr>\<rparr>) s
   }"

definition notifyFutexWaitWoken :: "u32 \<Rightarrow> u32 \<Rightarrow> 'r Sched \<Rightarrow> 'r Sched option" where
  "notifyFutexWaitWoken pid tid s = do {
     t \<leftarrow> map_of (gidMap s) (getGid pid tid);
     mod_th t (\<lambda>th. th\<lparr>futexJoin := \<lparr>fj_action = FJA_WAIT, maxWakes = 0, wokenUp = 0\<rparr>\<rparr>) s
   }"

subsection \<open>The watchdog\<close>

text \<open>The do-while loop that turns fake leaves of one system call into real ones. As in the source, the process
  of the next thread is read from the previous one.\<close>

partial_function (option) real_leaves :: "('r \<Rightarrow> nat \<Rightarrow> nat \<times> 'r) \<Rightarrow> u32 \<Rightarrow> u64 \<Rightarrow> nat \<Rightarrow> u32 \<Rightarrow> nat \<Rightarrow> 'r Barrier \<times> 'r Sched \<Rightarrow>
    ('r Barrier \<times> 'r Sched) option" where
  "real_leaves rand pid pc t tid cid c = do {
     s \<leftarrow> finishFakeLeave t (snd c);
     c \<leftarrow> sched_leave rand pid tid cid (fst c, s);
     (case fakeLeaves (snd c) of
        [] \<Rightarrow> Some c
      | u # us \<Rightarrow> do {
          th \<leftarrow> threads (snd c) t;
          fl_th \<leftarrow> threads (snd c) u;
          si \<leftarrow> fakeLeave fl_th;
          (if getPid (th_gid th) \<noteq> pid \<or> fl_pc si \<noteq> pc then Some c
           else if length (u # us) > 8 then real_leaves rand pid pc u (getTid (th_gid fl_th)) (th_cid fl_th) c
           else Some c)
        })
   }"

text \<open>What the watchdog does when it finds that no phase passes while threads are in a fake leave: \<open>blacklisted\<close> says
  whether the name of a system call matches the expression of the process.\<close>

definition break_fake_leaves :: "('r \<Rightarrow> nat \<Rightarrow> nat \<times> 'r) \<Rightarrow> (u32 \<Rightarrow> int \<Rightarrow> bool) \<Rightarrow> 'r Barrier \<times> 'r Sched \<Rightarrow> ('r Barrier \<times> 'r Sched) option" where
  "break_fake_leaves rand blacklisted = (\<lambda>(b, s). do {
     t \<leftarrow> (case fakeLeaves s of [] \<Rightarrow> None | t # _ \<Rightarrow> Some t);
     th \<leftarrow> threads s t;
     si \<leftarrow> fakeLeave th;
     let pid = getPid (th_gid th);
     (if blacklisted pid (syscallNumber si) then do {
        s \<leftarrow> (if length (fakeLeaves s) = 1 then do {
               black \<leftarrow> read_at (blockingSyscalls s) (unat pid);
               Some (s\<lparr>blockingSyscalls := (blockingSyscalls s)[unat pid := insert (fl_pc si) black]\<rparr>)
             } else Some s);
        real_leaves rand pid (fl_pc si) t (getTid (th_gid th)) (th_cid th) (b, s)
      } else Some (b, s))
   })"

text \<open>A step of the loop that drives time forward when no thread runs and one sleeps.\<close>

definition drive_time :: "('r \<Rightarrow> nat \<Rightarrow> nat \<times> 'r) \<Rightarrow> 'r Barrier \<times> 'r Sched \<Rightarrow> ('r Barrier \<times> 'r Sched) option" where
  "drive_time rand = (\<lambda>(b, s).
     if scheduledThreads s = of_nat (length (outQueue s)) \<and> sleepQueue s \<noteq> [] then do {
       s \<leftarrow> callback rand s;
       Some (b, s)
     } else Some (b, s))"

end
