(* ===== verification/Sched_Inv.thy ===== *)
theory Sched_Inv imports Scheduler begin

text \<open>
  The invariant of the scheduler, and what its small steps do to it. Between the steps of an operation some
  contexts and threads are in transit: \<open>F\<close> are the idle contexts that are not in the free list, and \<open>U\<close> the
  threads that are not in the queue of their state.
\<close>

definition active :: "ThreadInfo \<Rightarrow> bool" where
  "active th \<longleftrightarrow> th_state th = RUNNING \<or> th_state th = OUT"

definition cur :: "'r Sched \<Rightarrow> nat \<Rightarrow> nat option" where
  "cur s c = (if c < length (contexts s) then curThread (contexts s ! c) else None)"

definition runs :: "'r Sched \<Rightarrow> nat \<Rightarrow> bool" where
  "runs s c \<longleftrightarrow> (\<exists>v th. cur s c = Some v \<and> threads s v = Some th \<and> th_state th = RUNNING)"

definition in_state :: "'r Sched \<Rightarrow> ThreadState \<Rightarrow> nat set" where
  "in_state s st = {t. \<exists>th. threads s t = Some th \<and> th_state th = st}"

definition targets :: "'r Sched \<Rightarrow> nat set" where
  "targets s = {t. \<exists>v th. threads s v = Some th \<and> handoffThread th = Some t}"

text \<open>A context is used exactly by the running or leaving thread that has it.\<close>

definition ctx_inv :: "nat set \<Rightarrow> 'r Sched \<Rightarrow> bool" where
  "ctx_inv F s \<longleftrightarrow> length (contexts s) = numCores s \<and> numCores s \<le> MAX_THREADS \<and>
     (\<forall>c<numCores s. ctx_state (contexts s ! c) = (if curThread (contexts s ! c) = None then IDLE else USED)) \<and>
     (\<forall>c t. cur s c = Some t \<longleftrightarrow> (\<exists>th. threads s t = Some th \<and> active th \<and> th_cid th = c)) \<and>
     distinct (freeList s) \<and> set (freeList s) = {c. c < numCores s \<and> cur s c = None \<and> c \<notin> F} \<and>
     (\<forall>c\<in>F. c < numCores s \<and> cur s c = None) \<and> scheduledThreads s = of_nat (card {c. cur s c \<noteq> None})"

definition th_ok :: "'r Sched \<Rightarrow> nat \<Rightarrow> ThreadInfo \<Rightarrow> bool" where
  "th_ok s t th \<longleftrightarrow> t < nextThread s \<and> th_cid th < numCores s \<and> length (th_mask th) = numCores s \<and>
     (active th \<longrightarrow> th_mask th ! th_cid th) \<and> (markedForSleep th \<longrightarrow> th_state th = RUNNING \<and> th_futexWord th = 1) \<and>
     (fakeLeave th \<noteq> None \<longrightarrow> th_state th = RUNNING)"

definition thr_inv :: "nat set \<Rightarrow> 'r Sched \<Rightarrow> bool" where
  "thr_inv U s \<longleftrightarrow> (\<forall>t th. threads s t = Some th \<longrightarrow> th_ok s t th \<and>
      ((th_state th = QUEUED \<or> th_state th = SLEEPING) \<and> t \<notin> U \<longrightarrow> th_futexWord th = 1)) \<and>
     distinct (fakeLeaves s) \<and> set (fakeLeaves s) = {t. \<exists>th. threads s t = Some th \<and> fakeLeave th \<noteq> None}"

definition queue_inv :: "nat set \<Rightarrow> 'r Sched \<Rightarrow> bool" where
  "queue_inv U s \<longleftrightarrow> distinct (runQueue s) \<and> distinct (outQueue s) \<and> distinct (sleepQueue s) \<and>
     set (outQueue s) = in_state s OUT - U \<and> set (runQueue s) = in_state s QUEUED - U - targets s \<and>
     set (sleepQueue s) = in_state s SLEEPING - U \<and> sorted (map (wakeup_of s) (sleepQueue s)) \<and>
     (\<forall>t\<in>set (sleepQueue s). curPhase s < wakeup_of s t)"

text \<open>A thread that is to take over the context of another one is queued, but no longer in the run queue.\<close>

definition hand_inv :: "nat set \<Rightarrow> 'r Sched \<Rightarrow> bool" where
  "hand_inv U s \<longleftrightarrow> (\<forall>v th t. threads s v = Some th \<longrightarrow> handoffThread th = Some t \<longrightarrow>
      th_state th = RUNNING \<and> t \<notin> U \<and> (\<exists>th'. threads s t = Some th' \<and> th_state th' = QUEUED \<and> th_mask th' ! th_cid th)) \<and>
     (\<forall>v w th th' t. threads s v = Some th \<longrightarrow> threads s w = Some th' \<longrightarrow> handoffThread th = Some t \<longrightarrow> handoffThread th' = Some t \<longrightarrow> v = w)"

text \<open>No queued thread could use a context that is free or whose thread is out.\<close>

definition work_inv :: "nat set \<Rightarrow> 'r Sched \<Rightarrow> bool" where
  "work_inv F s \<longleftrightarrow> (\<forall>t th c. t \<in> set (runQueue s) \<longrightarrow> threads s t = Some th \<longrightarrow> c < numCores s \<longrightarrow> th_mask th ! c \<longrightarrow> c \<notin> F \<longrightarrow> runs s c)"

definition phase_inv :: "'r Sched \<Rightarrow> bool" where
  "phase_inv s \<longleftrightarrow> schedQuantum s \<noteq> 0 \<and> curPhase s = numPhases s"

definition sched_inv :: "nat set \<Rightarrow> nat set \<Rightarrow> 'r Sched \<Rightarrow> bool" where
  "sched_inv F U s \<longleftrightarrow> ctx_inv F s \<and> thr_inv U s \<and> queue_inv U s \<and> hand_inv U s \<and> work_inv F s \<and> phase_inv s"

lemma sched_invD:
  assumes "sched_inv F U s"
  shows "ctx_inv F s" "thr_inv U s" "queue_inv U s" "hand_inv U s" "work_inv F s" "phase_inv s"
  using assms by (simp_all add: sched_inv_def)

lemma ctxD:
  assumes "ctx_inv F s"
  shows "length (contexts s) = numCores s" "numCores s \<le> MAX_THREADS"
    "\<And>c. c < numCores s \<Longrightarrow> contexts s ! c = \<lparr>ctx_state = (if cur s c = None then IDLE else USED), curThread = cur s c\<rparr>"
    "\<And>c t. cur s c = Some t \<longleftrightarrow> (\<exists>th. threads s t = Some th \<and> active th \<and> th_cid th = c)"
    "distinct (freeList s)" "set (freeList s) = {c. c < numCores s \<and> cur s c = None \<and> c \<notin> F}"
    "\<And>c. c \<in> F \<Longrightarrow> c < numCores s \<and> cur s c = None" "scheduledThreads s = of_nat (card {c. cur s c \<noteq> None})"
proof -
  show "length (contexts s) = numCores s" "numCores s \<le> MAX_THREADS" "distinct (freeList s)"
    "set (freeList s) = {c. c < numCores s \<and> cur s c = None \<and> c \<notin> F}" "scheduledThreads s = of_nat (card {c. cur s c \<noteq> None})"
    using assms unfolding ctx_inv_def by blast+
  show "contexts s ! c = \<lparr>ctx_state = (if cur s c = None then IDLE else USED), curThread = cur s c\<rparr>" if "c < numCores s" for c
    using assms that by (intro ContextInfo.equality) (simp_all add: ctx_inv_def cur_def)
  show "cur s c = Some t \<longleftrightarrow> (\<exists>th. threads s t = Some th \<and> active th \<and> th_cid th = c)" for c t
    using assms unfolding ctx_inv_def by blast
  show "c < numCores s \<and> cur s c = None" if "c \<in> F" for c using assms that unfolding ctx_inv_def by blast
qed

lemma thrD:
  assumes "thr_inv U s"
  shows "\<And>t th. threads s t = Some th \<Longrightarrow> th_ok s t th"
    "\<And>t th. threads s t = Some th \<Longrightarrow> th_state th = QUEUED \<or> th_state th = SLEEPING \<Longrightarrow> t \<notin> U \<Longrightarrow> th_futexWord th = 1"
    "distinct (fakeLeaves s)" "set (fakeLeaves s) = {t. \<exists>th. threads s t = Some th \<and> fakeLeave th \<noteq> None}"
  using assms by (auto simp: thr_inv_def)

lemma queueD:
  assumes "queue_inv U s"
  shows "distinct (runQueue s)" "distinct (outQueue s)" "distinct (sleepQueue s)" "set (outQueue s) = in_state s OUT - U"
    "set (runQueue s) = in_state s QUEUED - U - targets s" "set (sleepQueue s) = in_state s SLEEPING - U"
    "sorted (map (wakeup_of s) (sleepQueue s))" "\<And>t. t \<in> set (sleepQueue s) \<Longrightarrow> curPhase s < wakeup_of s t"
  using assms by (auto simp: queue_inv_def)

lemma handD:
  assumes "hand_inv U s"
  shows "\<And>v th t. threads s v = Some th \<Longrightarrow> handoffThread th = Some t \<Longrightarrow>
      th_state th = RUNNING \<and> t \<notin> U \<and> (\<exists>th'. threads s t = Some th' \<and> th_state th' = QUEUED \<and> th_mask th' ! th_cid th)"
    "\<And>v w th th' t. threads s v = Some th \<Longrightarrow> threads s w = Some th' \<Longrightarrow> handoffThread th = Some t \<Longrightarrow> handoffThread th' = Some t \<Longrightarrow> v = w"
  using assms unfolding hand_inv_def by blast+

lemma workD: "work_inv F s \<Longrightarrow> t \<in> set (runQueue s) \<Longrightarrow> threads s t = Some th \<Longrightarrow> c < numCores s \<Longrightarrow> th_mask th ! c \<Longrightarrow> c \<notin> F \<Longrightarrow> runs s c"
  unfolding work_inv_def by blast

subsection \<open>Updates\<close>

named_theorems sched_upd \<open>effects of an update on the views of the state\<close>

lemma log_core_fields [simp]:
  "threads (log_core e s) = threads s" "contexts (log_core e s) = contexts s" "numCores (log_core e s) = numCores s"
  "freeList (log_core e s) = freeList s" "runQueue (log_core e s) = runQueue s" "outQueue (log_core e s) = outQueue s"
  "sleepQueue (log_core e s) = sleepQueue s" "curPhase (log_core e s) = curPhase s" "numPhases (log_core e s) = numPhases s"
  "scheduledThreads (log_core e s) = scheduledThreads s" "fakeLeaves (log_core e s) = fakeLeaves s" "nextThread (log_core e s) = nextThread s"
  "schedQuantum (log_core e s) = schedQuantum s" "gidMap (log_core e s) = gidMap s" "blockingSyscalls (log_core e s) = blockingSyscalls s"
  "maxAllowedFutexWakeups (log_core e s) = maxAllowedFutexWakeups s" "unmatchedFutexWakeups (log_core e s) = unmatchedFutexWakeups s"
  "globPhaseCycles (log_core e s) = globPhaseCycles s" "phaseLength (log_core e s) = phaseLength s" "sched_rnd (log_core e s) = sched_rnd s"
  by (simp_all add: log_core_def)

text \<open>The invariant reads these fields only.\<close>

lemma sched_inv_cong:
  assumes "threads s' = threads s" "contexts s' = contexts s" "numCores s' = numCores s" "freeList s' = freeList s" "runQueue s' = runQueue s"
    "outQueue s' = outQueue s" "sleepQueue s' = sleepQueue s" "curPhase s' = curPhase s" "numPhases s' = numPhases s"
    "scheduledThreads s' = scheduledThreads s" "fakeLeaves s' = fakeLeaves s" "nextThread s' = nextThread s" "schedQuantum s' = schedQuantum s"
  shows "sched_inv F U s' = sched_inv F U s"
proof -
  have "cur s' = cur s" "in_state s' = in_state s" "targets s' = targets s" "wakeup_of s' = wakeup_of s"
    using assms by (auto simp: cur_def in_state_def targets_def wakeup_of_def fun_eq_iff)
  moreover have "runs s' = runs s" using calculation assms by (simp add: runs_def fun_eq_iff)
  moreover have "th_ok s' = th_ok s" using assms by (simp add: th_ok_def fun_eq_iff)
  ultimately show ?thesis using assms
    by (simp only: sched_inv_def ctx_inv_def thr_inv_def queue_inv_def hand_inv_def work_inv_def phase_inv_def)
qed

lemma sched_inv_log [simp]: "sched_inv F U (log_core e s) = sched_inv F U s"
  by (rule sched_inv_cong) simp_all

lemma in_state_upd: "threads s' = (threads s)(t \<mapsto> th) \<Longrightarrow> in_state s' st = (if th_state th = st then insert t (in_state s st) else in_state s st - {t})"
  by (auto simp: in_state_def)

lemma targets_upd: "threads s t = Some th \<Longrightarrow> threads s' = (threads s)(t \<mapsto> th') \<Longrightarrow> handoffThread th' = handoffThread th \<Longrightarrow> targets s' = targets s"
proof (rule set_eqI)
  fix x
  assume t: "threads s t = Some th" "threads s' = (threads s)(t \<mapsto> th')" "handoffThread th' = handoffThread th"
  have "(\<exists>u. threads s' v = Some u \<and> handoffThread u = Some x) \<longleftrightarrow> (\<exists>u. threads s v = Some u \<and> handoffThread u = Some x)" for v
    using t by (cases "v = t") simp_all
  then show "x \<in> targets s' \<longleftrightarrow> x \<in> targets s" by (simp add: targets_def)
qed

lemma cur_upd: "contexts s' = (contexts s)[c := x] \<Longrightarrow> c < length (contexts s) \<Longrightarrow> cur s' = (cur s)(c := curThread x)"
  by (auto simp: cur_def fun_eq_iff)

lemma cur_same: "contexts s' = contexts s \<Longrightarrow> cur s' = cur s"
  by (simp add: cur_def fun_eq_iff)

lemma wakeup_of_upd: "threads s t = Some th \<Longrightarrow> threads s' = (threads s)(t \<mapsto> th') \<Longrightarrow> wakeupPhase th' = wakeupPhase th \<Longrightarrow> wakeup_of s' = wakeup_of s"
  by (auto simp: wakeup_of_def fun_eq_iff)

subsection \<open>schedule\<close>

definition sched_st :: "nat \<Rightarrow> nat \<Rightarrow> ThreadInfo \<Rightarrow> 'r Sched \<Rightarrow> 'r Sched" where
  "sched_st t c th s = log_core (CONTEXT_SWITCH c (Some (th_gid th)))
     (s\<lparr>threads := (threads s)(t \<mapsto> th\<lparr>th_state := RUNNING, th_cid := c\<rparr>),
        contexts := (contexts s)[c := \<lparr>ctx_state = USED, curThread = Some t\<rparr>],
        scheduledThreads := scheduledThreads s + 1\<rparr>)"

lemma sched_st_fields [simp]:
  "threads (sched_st t c th s) = (threads s)(t \<mapsto> th\<lparr>th_state := RUNNING, th_cid := c\<rparr>)"
  "contexts (sched_st t c th s) = (contexts s)[c := \<lparr>ctx_state = USED, curThread = Some t\<rparr>]"
  "scheduledThreads (sched_st t c th s) = scheduledThreads s + 1"
  "numCores (sched_st t c th s) = numCores s" "freeList (sched_st t c th s) = freeList s" "runQueue (sched_st t c th s) = runQueue s"
  "outQueue (sched_st t c th s) = outQueue s" "sleepQueue (sched_st t c th s) = sleepQueue s" "curPhase (sched_st t c th s) = curPhase s"
  "numPhases (sched_st t c th s) = numPhases s" "fakeLeaves (sched_st t c th s) = fakeLeaves s" "nextThread (sched_st t c th s) = nextThread s"
  "schedQuantum (sched_st t c th s) = schedQuantum s" "gidMap (sched_st t c th s) = gidMap s" "blockingSyscalls (sched_st t c th s) = blockingSyscalls s"
  "maxAllowedFutexWakeups (sched_st t c th s) = maxAllowedFutexWakeups s" "unmatchedFutexWakeups (sched_st t c th s) = unmatchedFutexWakeups s"
  by (simp_all add: sched_st_def)

lemma schedule_run:
  assumes i: "sched_inv F U s" and c: "c \<in> F" and t: "threads s t = Some th" and st: "th_state th = STARTED \<or> th_state th = BLOCKED \<or> th_state th = QUEUED"
    and q: "th_state th = QUEUED \<Longrightarrow> t \<in> U" and m: "th_mask th ! c"
  shows "schedule t c s = Some (sched_st t c th s)" "sched_inv (F - {c}) (U - {t}) (sched_st t c th s)"
proof -
  note I = sched_invD [OF i]
  note C = ctxD [OF I(1)] and T = thrD [OF I(2)] and Q = queueD [OF I(3)] and H = handD [OF I(4)]
  have cn: "c < numCores s" "cur s c = None" using C(7) [OF c] by simp_all
  have rd: "read_at (contexts s) c = Some \<lparr>ctx_state = IDLE, curThread = None\<rparr>" using C(1,3) cn by (simp add: read_at_def)
  show "schedule t c s = Some (sched_st t c th s)" using t st by (simp add: schedule_def rd sched_st_def del: read_at_Some)
  let ?s = "sched_st t c th s" and ?th = "th\<lparr>th_state := RUNNING, th_cid := c\<rparr>"
  have cur': "cur ?s = (cur s)(c := Some t)" using cur_upd [of ?s s c] cn(1) C(1) by simp
  have tn: "cur s d \<noteq> Some t" for d using C(4) [of d t] t st by (auto simp: active_def)
  have okt: "th_ok s t th" by (rule T(1) [OF t])
  have flags: "\<not> markedForSleep th" "fakeLeave th = None" "handoffThread th = None"
    using okt st H(1) [OF t] by (auto simp: th_ok_def)
  have tU: "t \<notin> targets s" using H(1) q t by (fastforce simp: targets_def)
  have tq: "t \<notin> set (runQueue s)" "t \<notin> set (outQueue s)" "t \<notin> set (sleepQueue s)"
    using Q(4-6) q t st by (auto simp: in_state_def)
  have st': "in_state ?s x = (if x = RUNNING then insert t (in_state s x) else in_state s x - {t})" for x
    by (auto simp: in_state_def)
  have tg: "targets ?s = targets s" by (rule targets_upd [OF t, of ?s ?th]) simp_all
  have wk: "wakeup_of ?s = wakeup_of s" by (rule wakeup_of_upd [OF t, of ?s ?th]) simp_all
  have "ctx_inv (F - {c}) ?s"
    unfolding ctx_inv_def
  proof (intro conjI allI impI ballI)
    show "ctx_state (contexts ?s ! d) = (if curThread (contexts ?s ! d) = None then IDLE else USED)" if "d < numCores ?s" for d
      using C(1) C(3) [of d] that by (cases "d = c") simp_all
    show "cur ?s d = Some u \<longleftrightarrow> (\<exists>th. threads ?s u = Some th \<and> active th \<and> th_cid th = d)" for d u
      unfolding cur' using C(4) [of d u] C(4) [of c u] cn tn [of d] by (cases "u = t") (auto simp: active_def)
    show "set (freeList ?s) = {d. d < numCores ?s \<and> cur ?s d = None \<and> d \<notin> F - {c}}" unfolding cur' using C(6) c by auto
    show "d < numCores ?s" "cur ?s d = None" if "d \<in> F - {c}" for d unfolding cur' using C(7) [of d] that by simp_all
    have "{d. cur ?s d \<noteq> None} = insert c {d. cur s d \<noteq> None}" unfolding cur' by auto
    moreover have "finite {d. cur s d \<noteq> None}" by (rule finite_subset [of _ "{..<length (contexts s)}"]) (auto simp: cur_def split: if_splits)
    ultimately show "scheduledThreads ?s = of_nat (card {d. cur ?s d \<noteq> None})" using C(8) cn(2) by simp
  qed (use C(1,2,5) in simp_all)
  moreover have "thr_inv (U - {t}) ?s"
    unfolding thr_inv_def
  proof (intro conjI allI impI)
    fix u uh
    assume u: "threads ?s u = Some uh"
    show "th_ok ?s u uh"
      using u T(1) [of u uh] okt flags cn m by (cases "u = t") (auto simp: th_ok_def active_def)
    show "th_futexWord uh = 1" if "(th_state uh = QUEUED \<or> th_state uh = SLEEPING) \<and> u \<notin> U - {t}"
      using u T(2) [of u uh] that by (cases "u = t") auto
  qed (use T(3,4) flags t in auto)
  moreover have "queue_inv (U - {t}) ?s"
    unfolding queue_inv_def st' tg wk using Q(1-8) tq by auto
  moreover have "hand_inv (U - {t}) ?s"
    unfolding hand_inv_def
  proof (intro conjI allI impI)
    fix v vh u
    assume v: "threads ?s v = Some vh" "handoffThread vh = Some u"
    have "v \<noteq> t" using v flags by auto
    then have old: "threads s v = Some vh" using v by simp
    show "th_state vh = RUNNING" "u \<notin> U - {t}" using H(1) [OF old v(2)] by simp_all
    have "u \<noteq> t" using tU old v(2) by (auto simp: targets_def)
    then show "\<exists>th'. threads ?s u = Some th' \<and> th_state th' = QUEUED \<and> th_mask th' ! th_cid vh" using H(1) [OF old v(2)] by simp
  next
    fix v w vh wh u
    assume "threads ?s v = Some vh" "threads ?s w = Some wh" "handoffThread vh = Some u" "handoffThread wh = Some u"
    moreover from this have "v \<noteq> t" "w \<noteq> t" using flags by auto
    ultimately show "v = w" using H(2) [of v vh w wh u] by simp
  qed
  moreover have "work_inv (F - {c}) ?s"
    unfolding work_inv_def
  proof (intro allI impI)
    fix u uh d
    assume u: "u \<in> set (runQueue ?s)" "threads ?s u = Some uh" "d < numCores ?s" "th_mask uh ! d" "d \<notin> F - {c}"
    then have "threads s u = Some uh" using tq by (auto split: if_splits)
    then have "d \<noteq> c \<Longrightarrow> runs s d" using workD [OF I(5), of u uh d] u by auto
    moreover have "runs ?s d" if r: "runs s d" "d \<noteq> c"
    proof -
      from r(1) obtain v vh where v: "cur s d = Some v" "threads s v = Some vh" "th_state vh = RUNNING" by (auto simp: runs_def)
      have "v \<noteq> t" using v(1) tn [of d] by auto
      then show ?thesis using v r(2) by (auto simp: runs_def cur')
    qed
    moreover have "runs ?s c" by (simp add: runs_def cur')
    ultimately show "runs ?s d" by (cases "d = c") auto
  qed
  moreover have "phase_inv ?s" using I(6) by (simp add: phase_inv_def)
  ultimately show "sched_inv (F - {c}) (U - {t}) ?s" by (simp add: sched_inv_def)
qed

end
