(* ===== verification/Sched_Steps.thy ===== *)
theory Sched_Steps imports Sched_Inv begin

text \<open>
  The small steps of the scheduler on its invariant: the change of one thread, the move of a context in and out of
  the free list, \<^verbatim>\<open>deschedule\<close>, and the choices of \<^verbatim>\<open>schedContext\<close> and \<^verbatim>\<open>schedThread\<close>.
\<close>

subsection \<open>The change of one thread\<close>

text \<open>The fields that a step on threads and queues leaves alone.\<close>

definition same_rest :: "'r Sched \<Rightarrow> 'r Sched \<Rightarrow> bool" where
  "same_rest s s' \<longleftrightarrow> contexts s' = contexts s \<and> numCores s' = numCores s \<and> freeList s' = freeList s \<and> curPhase s' = curPhase s \<and>
     numPhases s' = numPhases s \<and> scheduledThreads s' = scheduledThreads s \<and> nextThread s' = nextThread s \<and> schedQuantum s' = schedQuantum s"

lemma runs_upd:
  assumes "contexts s' = contexts s" "threads s' = (threads s)(t \<mapsto> th')" "threads s t = Some th"
    and "runs s c" "th_state th = RUNNING \<Longrightarrow> th_state th' = RUNNING \<or> cur s c \<noteq> Some t"
  shows "runs s' c"
proof -
  from assms(4) obtain v vh where "cur s c = Some v" "threads s v = Some vh" "th_state vh = RUNNING" by (auto simp: runs_def)
  then show ?thesis using assms(2,3,5) cur_same [OF assms(1)] by (cases "v = t") (auto simp: runs_def)
qed

lemma thread_step:
  assumes i: "sched_inv F U s" and r: "same_rest s s'" and t: "threads s t = Some th" and t': "threads s' = (threads s)(t \<mapsto> th')"
    and act: "active th' = active th" "th_cid th' = th_cid th" "th_mask th' = th_mask th" "handoffThread th' = handoffThread th"
    and ok: "th_ok s t th'" and U: "U' - {t} = U - {t}"
    and fake: "distinct (fakeLeaves s')" "set (fakeLeaves s') = (if fakeLeave th' = None then set (fakeLeaves s) - {t} else insert t (set (fakeLeaves s)))"
    and tgt: "t \<in> targets s \<Longrightarrow> th_state th' = QUEUED \<and> t \<notin> U'" "handoffThread th \<noteq> None \<Longrightarrow> th_state th' = RUNNING"
    and fw: "th_state th' = QUEUED \<or> th_state th' = SLEEPING \<Longrightarrow> t \<notin> U' \<Longrightarrow> th_futexWord th' = 1"
    and d: "distinct (runQueue s')" "distinct (outQueue s')" "distinct (sleepQueue s')"
    and q: "set (runQueue s') - {t} = set (runQueue s) - {t}" "t \<in> set (runQueue s') \<longleftrightarrow> th_state th' = QUEUED \<and> t \<notin> U' \<and> t \<notin> targets s"
    and o: "set (outQueue s') - {t} = set (outQueue s) - {t}" "t \<in> set (outQueue s') \<longleftrightarrow> th_state th' = OUT \<and> t \<notin> U'"
    and z: "set (sleepQueue s') - {t} = set (sleepQueue s) - {t}" "t \<in> set (sleepQueue s') \<longleftrightarrow> th_state th' = SLEEPING \<and> t \<notin> U'"
    and zs: "sorted (map (wakeup_of s') (sleepQueue s'))" "t \<in> set (sleepQueue s') \<Longrightarrow> curPhase s < wakeupPhase th'"
    and w: "t \<in> set (runQueue s') \<Longrightarrow> t \<in> set (runQueue s) \<or> (\<forall>c<numCores s. th_mask th ! c \<longrightarrow> c \<notin> F \<longrightarrow> runs s c)"
    and w': "th_state th = RUNNING \<Longrightarrow> th_state th' \<noteq> RUNNING \<Longrightarrow>
      \<forall>u\<in>set (runQueue s'). \<forall>uh. threads s u = Some uh \<longrightarrow> \<not> th_mask uh ! th_cid th"
  shows "sched_inv F U' s'"
proof -
  note I = sched_invD [OF i]
  note C = ctxD [OF I(1)] and T = thrD [OF I(2)] and Q = queueD [OF I(3)] and H = handD [OF I(4)]
  have R: "contexts s' = contexts s" "numCores s' = numCores s" "freeList s' = freeList s" "curPhase s' = curPhase s"
    "numPhases s' = numPhases s" "scheduledThreads s' = scheduledThreads s" "nextThread s' = nextThread s" "schedQuantum s' = schedQuantum s"
    using r by (simp_all add: same_rest_def)
  have cur': "cur s' = cur s" by (rule cur_same [OF R(1)])
  have tg: "targets s' = targets s" by (rule targets_upd [OF t t' act(4)])
  have tok: "th_ok s' u uh = th_ok s u uh" for u uh by (simp add: th_ok_def R)
  have st: "u \<in> in_state s' x \<longleftrightarrow> (if u = t then th_state th' = x else u \<in> in_state s x)" for u x
    unfolding in_state_upd [OF t'] by auto
  have wk: "wakeup_of s' u = (if u = t then wakeupPhase th' else wakeup_of s u)" for u using t' by (simp add: wakeup_of_def)
  have "ctx_inv F s'"
    unfolding ctx_inv_def cur' R
  proof (intro conjI allI impI ballI)
    show "ctx_state (contexts s ! d) = (if curThread (contexts s ! d) = None then IDLE else USED)" if "d < numCores s" for d
      using C(3) [OF that] by simp
    show "cur s d = Some u \<longleftrightarrow> (\<exists>th. threads s' u = Some th \<and> active th \<and> th_cid th = d)" for d u
      using C(4) [of d u] t act(1,2) by (cases "u = t") (auto simp: t')
    show "d < numCores s" "cur s d = None" if "d \<in> F" for d using C(7) [OF that] by simp_all
  qed (use C in simp_all)
  moreover have "thr_inv U' s'"
    unfolding thr_inv_def tok
  proof (intro conjI allI impI)
    fix u uh
    assume u: "threads s' u = Some uh"
    show "th_ok s u uh" using u T(1) [of u uh] ok by (cases "u = t") (auto simp: t')
    show "th_futexWord uh = 1" if q: "(th_state uh = QUEUED \<or> th_state uh = SLEEPING) \<and> u \<notin> U'"
    proof (cases "u = t")
      case False
      then show ?thesis using u T(2) [of u uh] q U by (auto simp: t')
    qed (use u q fw in \<open>auto simp: t'\<close>)
  next
    show "set (fakeLeaves s') = {u. \<exists>th. threads s' u = Some th \<and> fakeLeave th \<noteq> None}"
      unfolding fake(2) T(4) t' by (cases "fakeLeave th' = None") auto
  qed (rule fake(1))
  moreover have "queue_inv U' s'"
    unfolding queue_inv_def tg
  proof (intro conjI d)
    have U': "u \<in> U' \<longleftrightarrow> u \<in> U" if "u \<noteq> t" for u using U that by blast
    have oth: "u \<in> A \<longleftrightarrow> u \<in> B" if "u \<noteq> t" "A - {t} = B - {t}" for u and A B :: "nat set" using that by blast
    have other: "u \<in> in_state s' x - U' \<longleftrightarrow> u \<in> in_state s x - U" if "u \<noteq> t" for u x using that U' st by simp
    show "set (outQueue s') = in_state s' OUT - U'"
    proof (rule set_eqI)
      show "u \<in> set (outQueue s') \<longleftrightarrow> u \<in> in_state s' OUT - U'" for u
        using o(2) st oth [OF _ o(1)] other Q(4) by (cases "u = t") simp_all
    qed
    show "set (sleepQueue s') = in_state s' SLEEPING - U'"
    proof (rule set_eqI)
      show "u \<in> set (sleepQueue s') \<longleftrightarrow> u \<in> in_state s' SLEEPING - U'" for u
        using z(2) st oth [OF _ z(1)] other Q(6) by (cases "u = t") simp_all
    qed
    show "set (runQueue s') = in_state s' QUEUED - U' - targets s"
    proof (rule set_eqI)
      show "u \<in> set (runQueue s') \<longleftrightarrow> u \<in> in_state s' QUEUED - U' - targets s" for u
        using q(2) st oth [OF _ q(1)] other Q(5) by (cases "u = t") simp_all
    qed
    show "\<forall>u\<in>set (sleepQueue s'). curPhase s' < wakeup_of s' u"
    proof
      show "curPhase s' < wakeup_of s' u" if "u \<in> set (sleepQueue s')" for u
        unfolding wk R using that zs(2) Q(8) [of u] oth [OF _ z(1), of u] by (cases "u = t") simp_all
    qed
  qed (rule zs(1))
  moreover have "hand_inv U' s'"
    unfolding hand_inv_def
  proof (intro conjI allI impI)
    have old: "\<exists>vo. threads s v = Some vo \<and> handoffThread vo = handoffThread vh \<and> th_cid vo = th_cid vh \<and>
        (handoffThread vh \<noteq> None \<longrightarrow> th_state vh = RUNNING)" if "threads s' v = Some vh" for v vh
    proof (cases "v = t")
      case True
      then show ?thesis using that t act tgt(2) by (simp add: t')
    next
      case False
      then have vo: "threads s v = Some vh" using that by (simp add: t')
      show ?thesis using vo H(1) [OF vo, of "the (handoffThread vh)"] by (intro exI [of _ vh]) auto
    qed
    fix v vh u
    assume v: "threads s' v = Some vh" "handoffThread vh = Some u"
    obtain vo where vo: "threads s v = Some vo" "handoffThread vo = Some u" "th_cid vo = th_cid vh" "th_state vh = RUNNING"
      using old [OF v(1)] v(2) by auto
    show "th_state vh = RUNNING" by (rule vo(4))
    have ut: "u \<in> targets s" using vo(1,2) by (auto simp: targets_def)
    have hu: "u \<notin> U" "\<exists>th'. threads s u = Some th' \<and> th_state th' = QUEUED \<and> th_mask th' ! th_cid vh"
      using H(1) [OF vo(1,2)] vo(3) by simp_all
    have "u \<in> U' \<longleftrightarrow> u \<in> U" if "u \<noteq> t" using U that by blast
    then show "u \<notin> U'" using tgt(1) ut hu(1) by (cases "u = t") simp_all
    show "\<exists>th'. threads s' u = Some th' \<and> th_state th' = QUEUED \<and> th_mask th' ! th_cid vh"
      using hu(2) tgt(1) ut t act(3) by (cases "u = t") (simp_all add: t')
    fix w wh
    assume w: "threads s' w = Some wh" "handoffThread wh = Some u"
    obtain wo where "threads s w = Some wo" "handoffThread wo = Some u" using old [OF w(1)] w(2) by auto
    then show "v = w" using H(2) vo(1,2) by blast
  qed
  moreover have "work_inv F s'"
    unfolding work_inv_def R
  proof (intro allI impI)
    fix u uh c
    assume u: "u \<in> set (runQueue s')" "threads s' u = Some uh" "c < numCores s" "th_mask uh ! c" "c \<notin> F"
    obtain uo where uo: "threads s u = Some uo" "th_mask uo = th_mask uh" using u(2) t act(3) by (cases "u = t") (auto simp: t')
    have rc: "runs s c"
    proof (cases "u \<in> set (runQueue s)")
      case True
      then show ?thesis using workD [OF I(5)] uo u by metis
    next
      case False
      then have "u = t" using u(1) q(1) by blast
      then show ?thesis using w u False t uo by auto
    qed
    show "runs s' c"
    proof (rule runs_upd [OF R(1) t' t rc])
      assume tr: "th_state th = RUNNING"
      show "th_state th' = RUNNING \<or> cur s c \<noteq> Some t"
      proof (rule ccontr)
        assume no: "\<not> (th_state th' = RUNNING \<or> cur s c \<noteq> Some t)"
        then have "th_cid th = c" using C(4) [of c t] t by auto
        then show False using w' [OF tr] no u(1,4) uo by auto
      qed
    qed
  qed
  moreover have "phase_inv s'" using I(6) by (simp add: phase_inv_def R)
  ultimately show ?thesis by (simp add: sched_inv_def)
qed

subsection \<open>deschedule\<close>

definition desched_st :: "nat \<Rightarrow> nat \<Rightarrow> ThreadState \<Rightarrow> ThreadInfo \<Rightarrow> 'r Sched \<Rightarrow> 'r Sched" where
  "desched_st t c target th s = log_core (CONTEXT_SWITCH c None)
     (s\<lparr>threads := (threads s)(t \<mapsto> th\<lparr>th_state := target\<rparr>),
        contexts := (contexts s)[c := \<lparr>ctx_state = IDLE, curThread = None\<rparr>],
        scheduledThreads := scheduledThreads s - 1\<rparr>)"

lemma desched_st_fields [simp]:
  "threads (desched_st t c g th s) = (threads s)(t \<mapsto> th\<lparr>th_state := g\<rparr>)"
  "contexts (desched_st t c g th s) = (contexts s)[c := \<lparr>ctx_state = IDLE, curThread = None\<rparr>]"
  "scheduledThreads (desched_st t c g th s) = scheduledThreads s - 1"
  "numCores (desched_st t c g th s) = numCores s" "freeList (desched_st t c g th s) = freeList s" "runQueue (desched_st t c g th s) = runQueue s"
  "outQueue (desched_st t c g th s) = outQueue s" "sleepQueue (desched_st t c g th s) = sleepQueue s" "curPhase (desched_st t c g th s) = curPhase s"
  "numPhases (desched_st t c g th s) = numPhases s" "fakeLeaves (desched_st t c g th s) = fakeLeaves s" "nextThread (desched_st t c g th s) = nextThread s"
  "schedQuantum (desched_st t c g th s) = schedQuantum s" "gidMap (desched_st t c g th s) = gidMap s" "blockingSyscalls (desched_st t c g th s) = blockingSyscalls s"
  "maxAllowedFutexWakeups (desched_st t c g th s) = maxAllowedFutexWakeups s" "unmatchedFutexWakeups (desched_st t c g th s) = unmatchedFutexWakeups s"
  by (simp_all add: desched_st_def)

lemma deschedule_run:
  assumes i: "sched_inv F U s" and t: "threads s t = Some th" "active th" and g: "g = BLOCKED \<or> g = QUEUED \<or> g = SLEEPING"
    and o: "th_state th = OUT \<Longrightarrow> t \<in> U" and flags: "\<not> markedForSleep th" "fakeLeave th = None" "handoffThread th = None"
    and c: "th_cid th = c" and U': "U' = (if g = BLOCKED then U - {t} else insert t U)"
  shows "deschedule t c g s = Some (desched_st t c g th s)" "sched_inv (insert c F) U' (desched_st t c g th s)"
proof -
  note I = sched_invD [OF i]
  note C = ctxD [OF I(1)] and T = thrD [OF I(2)] and Q = queueD [OF I(3)] and H = handD [OF I(4)]
  have cc: "cur s c = Some t" using C(4) [of c t] t c by auto
  have cn: "c < numCores s" using cc C(1) by (simp add: cur_def split: if_splits)
  have rd: "read_at (contexts s) c = Some \<lparr>ctx_state = USED, curThread = Some t\<rparr>" using C(1,3) cn cc by (simp add: read_at_def)
  have act: "th_state th = RUNNING \<or> th_state th = OUT" using t(2) by (simp add: active_def)
  show "deschedule t c g s = Some (desched_st t c g th s)" using t(1) act g c by (simp add: deschedule_def rd desched_st_def del: read_at_Some)
  let ?s = "desched_st t c g th s" and ?th = "th\<lparr>th_state := g\<rparr>"
  have cur': "cur ?s = (cur s)(c := None)" using cur_upd [of ?s s c] cn C(1) by simp
  have only: "d = c" if "cur s d = Some t" for d using C(4) [of d t] that t c by auto
  have okt: "th_ok s t th" by (rule T(1) [OF t(1)])
  have tU: "t \<notin> targets s"
  proof
    assume "t \<in> targets s"
    then obtain v vh where "threads s v = Some vh" "handoffThread vh = Some t" by (auto simp: targets_def)
    then show False using H(1) [of v vh t] t act by auto
  qed
  have tq: "t \<notin> set (runQueue s)" "t \<notin> set (outQueue s)" "t \<notin> set (sleepQueue s)"
    using Q(4-6) t act o by (auto simp: in_state_def)
  have st': "in_state ?s x - U' = in_state s x - U" if x: "x = OUT \<or> x = QUEUED \<or> x = SLEEPING" for x
  proof (rule set_eqI)
    fix u
    have "t \<notin> in_state s x - U" using act o x t(1) by (auto simp: in_state_def)
    moreover have "t \<notin> in_state ?s x - U'" using g x by (auto simp: in_state_def U')
    moreover have "u \<in> in_state ?s x - U' \<longleftrightarrow> u \<in> in_state s x - U" if "u \<noteq> t" using that by (simp add: in_state_def U')
    ultimately show "u \<in> in_state ?s x - U' \<longleftrightarrow> u \<in> in_state s x - U" by blast
  qed
  have tg: "targets ?s = targets s" by (rule targets_upd [OF t(1), of ?s ?th]) simp_all
  have wk: "wakeup_of ?s = wakeup_of s" by (rule wakeup_of_upd [OF t(1), of ?s ?th]) simp_all
  have na: "\<not> active ?th" using g by (auto simp: active_def)
  have "ctx_inv (insert c F) ?s"
    unfolding ctx_inv_def
  proof (intro conjI allI impI ballI)
    show "ctx_state (contexts ?s ! d) = (if curThread (contexts ?s ! d) = None then IDLE else USED)" if "d < numCores ?s" for d
      using C(1) C(3) [of d] that by (cases "d = c") simp_all
    show "cur ?s d = Some u \<longleftrightarrow> (\<exists>th. threads ?s u = Some th \<and> active th \<and> th_cid th = d)" for d u
    proof (cases "u = t")
      case True
      have "cur ?s d \<noteq> Some t" unfolding cur' using only [of d] by auto
      then show ?thesis using na True by simp
    next
      case False
      then have "cur ?s d = Some u \<longleftrightarrow> cur s d = Some u" unfolding cur' using cc by auto
      then show ?thesis using C(4) [of d u] False by simp
    qed
    show "set (freeList ?s) = {d. d < numCores ?s \<and> cur ?s d = None \<and> d \<notin> insert c F}" by (simp add: cur' C(6)) (use cc in auto)
    show "d < numCores ?s" "cur ?s d = None" if "d \<in> insert c F" for d using C(7) [of d] that cn by (cases "d = c"; simp add: cur')+
    have s1: "{d. cur ?s d \<noteq> None} = {d. cur s d \<noteq> None} - {c}" unfolding cur' by auto
    have fin: "finite {d. cur s d \<noteq> None}" by (rule finite_subset [of _ "{..<length (contexts s)}"]) (auto simp: cur_def split: if_splits)
    have "card {d. cur s d \<noteq> None} = Suc (card ({d. cur s d \<noteq> None} - {c}))" by (rule card.remove [OF fin]) (simp add: cc)
    then show "scheduledThreads ?s = of_nat (card {d. cur ?s d \<noteq> None})" unfolding s1 using C(8) by simp
  qed (use C(1,2,5) in simp_all)
  moreover have "thr_inv U' ?s"
    unfolding thr_inv_def
  proof (intro conjI allI impI)
    fix u uh
    assume u: "threads ?s u = Some uh"
    show "th_ok ?s u uh" using u T(1) [of u uh] okt flags na by (cases "u = t") (auto simp: th_ok_def)
    show "th_futexWord uh = 1" if "(th_state uh = QUEUED \<or> th_state uh = SLEEPING) \<and> u \<notin> U'"
      using u T(2) [of u uh] that by (cases "u = t") (auto simp: U' split: if_splits)
  qed (use T(3,4) flags t in auto)
  moreover have "queue_inv U' ?s" unfolding queue_inv_def tg wk using Q(1-8) st' by simp
  moreover have "hand_inv U' ?s"
    unfolding hand_inv_def
  proof (intro conjI allI impI)
    fix v vh u
    assume v: "threads ?s v = Some vh" "handoffThread vh = Some u"
    have "v \<noteq> t" using v flags by auto
    then have old: "threads s v = Some vh" using v by simp
    have "u \<noteq> t" using tU old v(2) by (auto simp: targets_def)
    then show "th_state vh = RUNNING" "u \<notin> U'" "\<exists>th'. threads ?s u = Some th' \<and> th_state th' = QUEUED \<and> th_mask th' ! th_cid vh"
      using H(1) [OF old v(2)] by (simp_all add: U')
  next
    fix v w vh wh u
    assume "threads ?s v = Some vh" "threads ?s w = Some wh" "handoffThread vh = Some u" "handoffThread wh = Some u"
    moreover from this have "v \<noteq> t" "w \<noteq> t" using flags by auto
    ultimately show "v = w" using H(2) [of v vh w wh u] by simp
  qed
  moreover have "work_inv (insert c F) ?s"
    unfolding work_inv_def
  proof (intro allI impI)
    fix u uh d
    assume u: "u \<in> set (runQueue ?s)" "threads ?s u = Some uh" "d < numCores ?s" "th_mask uh ! d" "d \<notin> insert c F"
    then have "threads s u = Some uh" using tq by (auto split: if_splits)
    then have "runs s d" using workD [OF I(5), of u uh d] u by auto
    then obtain v vh where v: "cur s d = Some v" "threads s v = Some vh" "th_state vh = RUNNING" by (auto simp: runs_def)
    have "v \<noteq> t" using v(1) only [of d] u(5) by auto
    then show "runs ?s d" using v u(5) by (auto simp: runs_def cur')
  qed
  moreover have "phase_inv ?s" using I(6) by (simp add: phase_inv_def)
  ultimately show "sched_inv (insert c F) U' ?s" by (simp add: sched_inv_def)
qed

subsection \<open>Free contexts\<close>

lemma free_step:
  assumes i: "sched_inv F U s" and fl: "distinct fl" "set fl = {c. c < numCores s \<and> cur s c = None \<and> c \<notin> F'}"
    and F': "\<And>c. c \<in> F' \<Longrightarrow> c < numCores s \<and> cur s c = None"
    and w: "\<And>c t th. c \<in> F \<Longrightarrow> c \<notin> F' \<Longrightarrow> t \<in> set (runQueue s) \<Longrightarrow> threads s t = Some th \<Longrightarrow> \<not> th_mask th ! c"
  shows "sched_inv F' U (s\<lparr>freeList := fl\<rparr>)"
proof -
  note I = sched_invD [OF i]
  let ?s = "s\<lparr>freeList := fl\<rparr>"
  have v: "cur ?s = cur s" "in_state ?s = in_state s" "targets ?s = targets s" "wakeup_of ?s = wakeup_of s" "th_ok ?s = th_ok s"
    by (simp_all add: cur_def in_state_def targets_def wakeup_of_def th_ok_def fun_eq_iff)
  have rn: "runs ?s = runs s" by (simp add: runs_def v fun_eq_iff)
  have "ctx_inv F' ?s" using I(1) fl F' unfolding ctx_inv_def v by simp
  moreover have "work_inv F' ?s"
    unfolding work_inv_def rn
  proof (intro allI impI)
    fix t th c
    assume t: "t \<in> set (runQueue ?s)" "threads ?s t = Some th" "c < numCores ?s" "th_mask th ! c" "c \<notin> F'"
    then show "runs s c" using workD [OF I(5), of t th c] w [of c t th] by (cases "c \<in> F") simp_all
  qed
  ultimately show ?thesis using I unfolding sched_inv_def thr_inv_def queue_inv_def hand_inv_def phase_inv_def v by simp
qed

lemma free_remove_run:
  assumes i: "sched_inv F U s" and c: "c \<in> set (freeList s)"
  shows "free_remove c s = Some (s\<lparr>freeList := remove1 c (freeList s)\<rparr>)" "sched_inv (insert c F) U (s\<lparr>freeList := remove1 c (freeList s)\<rparr>)"
proof -
  note C = ctxD [OF sched_invD(1) [OF i]]
  show "free_remove c s = Some (s\<lparr>freeList := remove1 c (freeList s)\<rparr>)" using c by (simp add: free_remove_def)
  show "sched_inv (insert c F) U (s\<lparr>freeList := remove1 c (freeList s)\<rparr>)"
    by (rule free_step [OF i]) (use C(5,6,7) c in auto)
qed

lemma free_push_run:
  assumes i: "sched_inv F U s" and c: "c \<in> F" and w: "\<And>t th. t \<in> set (runQueue s) \<Longrightarrow> threads s t = Some th \<Longrightarrow> \<not> th_mask th ! c"
  shows "free_push c s = Some (s\<lparr>freeList := freeList s @ [c]\<rparr>)" "sched_inv (F - {c}) U (s\<lparr>freeList := freeList s @ [c]\<rparr>)"
proof -
  note C = ctxD [OF sched_invD(1) [OF i]]
  have nc: "c \<notin> set (freeList s)" using C(6) c by simp
  then show "free_push c s = Some (s\<lparr>freeList := freeList s @ [c]\<rparr>)" by (simp add: free_push_def)
  show "sched_inv (F - {c}) U (s\<lparr>freeList := freeList s @ [c]\<rparr>)"
    by (rule free_step [OF i]) (use C(5,6,7) c nc w in auto)
qed

subsection \<open>Handoffs\<close>

lemma handoff_parts:
  fixes h :: "nat option"
  assumes i: "sched_inv F U s" and v: "threads s v = Some vh" "th_state vh = RUNNING" and U: "U \<subseteq> U'"
    and rq: "set rq \<subseteq> set (runQueue s)"
  defines "s' \<equiv> s\<lparr>threads := (threads s)(v \<mapsto> vh\<lparr>handoffThread := h\<rparr>), runQueue := rq\<rparr>"
  shows "ctx_inv F s'" "thr_inv U' s'" "work_inv F s'" "phase_inv s'" "in_state s' = in_state s" "wakeup_of s' = wakeup_of s" "runs s' = runs s"
proof -
  note I = sched_invD [OF i]
  note C = ctxD [OF I(1)] and T = thrD [OF I(2)]
  have th: "threads s' = (threads s)(v \<mapsto> vh\<lparr>handoffThread := h\<rparr>)" by (simp add: s'_def)
  have eq: "contexts s' = contexts s" "numCores s' = numCores s" "freeList s' = freeList s" "scheduledThreads s' = scheduledThreads s"
    "fakeLeaves s' = fakeLeaves s" "nextThread s' = nextThread s" by (simp_all add: s'_def)
  have cur': "cur s' = cur s" by (rule cur_same) (rule eq)
  show ins: "in_state s' = in_state s" using v by (auto simp: in_state_def th fun_eq_iff)
  show "wakeup_of s' = wakeup_of s" by (rule wakeup_of_upd [OF v(1) th]) simp
  have rn: "runs s' c \<longleftrightarrow> runs s c" for c
    unfolding runs_def cur' th using v by (metis (no_types, lifting) ThreadInfo.simps(2) ThreadInfo.surjective ThreadInfo.update_convs(4) fun_upd_apply option.inject)
  then show "runs s' = runs s" by (simp add: fun_eq_iff)
  have old: "\<exists>uo. threads s u = Some uo \<and> th_mask uo = th_mask uh" if "threads s' u = Some uh" for u uh
    using that v by (cases "u = v") (auto simp: th)
  show "work_inv F s'"
    unfolding work_inv_def rn eq
  proof (intro allI impI)
    fix u uh c
    assume u: "u \<in> set (runQueue s')" "threads s' u = Some uh" "c < numCores s" "th_mask uh ! c" "c \<notin> F"
    obtain uo where uo: "threads s u = Some uo" "th_mask uo = th_mask uh" using old [OF u(2)] by blast
    have "u \<in> set (runQueue s)" using u(1) rq by (auto simp: s'_def)
    then show "runs s c" using workD [OF I(5) _ uo(1) u(3)] u(4,5) uo(2) by simp
  qed
  show "phase_inv s'" using I(6) by (simp add: phase_inv_def s'_def)
  have tok: "th_ok s' = th_ok s" by (simp add: th_ok_def eq fun_eq_iff)
  show "thr_inv U' s'"
    unfolding thr_inv_def tok
  proof (intro conjI allI impI)
    fix u uh
    assume u: "threads s' u = Some uh"
    show "th_ok s u uh" using u T(1) [of u uh] T(1) [OF v(1)] by (cases "u = v") (auto simp: th th_ok_def active_def)
    show "th_futexWord uh = 1" if "(th_state uh = QUEUED \<or> th_state uh = SLEEPING) \<and> u \<notin> U'"
      using u T(2) [of u uh] that v(2) U by (cases "u = v") (auto simp: th)
  next
    show "distinct (fakeLeaves s')" using T(3) by (simp add: eq)
    show "set (fakeLeaves s') = {t. \<exists>th. threads s' t = Some th \<and> fakeLeave th \<noteq> None}"
      unfolding eq T(4) th using v(1) by auto
  qed
  show "ctx_inv F s'"
    unfolding ctx_inv_def cur' eq
  proof (intro conjI allI impI ballI)
    show "ctx_state (contexts s ! d) = (if curThread (contexts s ! d) = None then IDLE else USED)" if "d < numCores s" for d
      using C(3) [OF that] by simp
    show "cur s d = Some u \<longleftrightarrow> (\<exists>th. threads s' u = Some th \<and> active th \<and> th_cid th = d)" for d u
      using C(4) [of d u] v by (cases "u = v") (auto simp: th active_def)
    show "d < numCores s" "cur s d = None" if "d \<in> F" for d using C(7) [OF that] by simp_all
  qed (use C in simp_all)
qed

lemma handoff_set:
  assumes i: "sched_inv F U s" and v: "threads s v = Some vh" "th_state vh = RUNNING" "handoffThread vh = None"
    and t: "t \<in> set (runQueue s)" "threads s t = Some th" "th_mask th ! th_cid vh"
  shows "sched_inv F U (s\<lparr>threads := (threads s)(v \<mapsto> vh\<lparr>handoffThread := Some t\<rparr>), runQueue := remove1 t (runQueue s)\<rparr>)"
proof -
  note I = sched_invD [OF i]
  note Q = queueD [OF I(3)] and H = handD [OF I(4)]
  let ?s = "s\<lparr>threads := (threads s)(v \<mapsto> vh\<lparr>handoffThread := Some t\<rparr>), runQueue := remove1 t (runQueue s)\<rparr>"
  note P = handoff_parts [OF i v(1,2) order_refl, of "remove1 t (runQueue s)" "Some t", OF set_remove1_subset]
  have tq: "th_state th = QUEUED" "t \<notin> U" "t \<notin> targets s" using t(1,2) Q(5) by (auto simp: in_state_def)
  have vt: "v \<noteq> t" using v tq t(2) by auto
  have tg: "targets ?s = insert t (targets s)"
  proof (intro set_eqI iffI)
    fix x
    assume "x \<in> targets ?s"
    then obtain w wh where w: "threads ?s w = Some wh" "handoffThread wh = Some x" by (auto simp: targets_def)
    then show "x \<in> insert t (targets s)" by (cases "w = v") (auto simp: targets_def)
  next
    fix x
    assume x: "x \<in> insert t (targets s)"
    show "x \<in> targets ?s"
    proof (cases "x = t")
      case True
      have "threads ?s v = Some (vh\<lparr>handoffThread := Some t\<rparr>)" "handoffThread (vh\<lparr>handoffThread := Some t\<rparr>) = Some x" using True by simp_all
      then show ?thesis unfolding targets_def by blast
    next
      case False
      then obtain w wh where w: "threads s w = Some wh" "handoffThread wh = Some x" using x by (auto simp: targets_def)
      then have "w \<noteq> v" using v by auto
      then have "threads ?s w = Some wh" using w by simp
      then show ?thesis using w(2) unfolding targets_def by blast
    qed
  qed
  have "queue_inv U ?s" unfolding queue_inv_def P(5,6) tg using Q by auto
  moreover have "hand_inv U ?s"
    unfolding hand_inv_def
  proof (intro conjI allI impI)
    have new: "x = t \<and> w = v \<or> w \<noteq> v \<and> threads s w = Some wh" if "threads ?s w = Some wh" "handoffThread wh = Some x" for w wh x
      using that v(3) by (cases "w = v") auto
    fix w wh x
    assume w: "threads ?s w = Some wh" "handoffThread wh = Some x"
    have xt: "w \<noteq> v \<Longrightarrow> x \<noteq> t" using new [OF w] w(2) tq(3) by (auto simp: targets_def)
    have "\<exists>th'. threads s x = Some th' \<and> th_state th' = QUEUED \<and> th_mask th' ! th_cid wh" "th_state wh = RUNNING" "x \<notin> U"
      using new [OF w] w t tq v H(1) [of w wh x] by auto
    then show "th_state wh = RUNNING" "x \<notin> U" "\<exists>th'. threads ?s x = Some th' \<and> th_state th' = QUEUED \<and> th_mask th' ! th_cid wh"
      using v(1,2) by (cases "x = v"; auto)+
    fix u uh
    assume u: "threads ?s u = Some uh" "handoffThread uh = Some x"
    show "w = u"
    proof (cases "x = t")
      case True
      have "w = v" using xt True by blast
      moreover have "u = v" using new [OF u] u(2) tq(3) True by (auto simp: targets_def)
      ultimately show ?thesis by simp
    next
      case False
      then have "threads s w = Some wh" "threads s u = Some uh" using new [OF w] new [OF u] by auto
      then show ?thesis using H(2) w(2) u(2) by blast
    qed
  qed
  ultimately show ?thesis using P(1-4) by (simp add: sched_inv_def)
qed

lemma handoff_clear:
  assumes i: "sched_inv F U s" and v: "threads s v = Some vh" "handoffThread vh = Some t"
  shows "sched_inv F (insert t U) (s\<lparr>threads := (threads s)(v \<mapsto> vh\<lparr>handoffThread := None\<rparr>)\<rparr>)"
proof -
  note I = sched_invD [OF i]
  note Q = queueD [OF I(3)] and H = handD [OF I(4)]
  let ?s = "s\<lparr>threads := (threads s)(v \<mapsto> vh\<lparr>handoffThread := None\<rparr>), runQueue := runQueue s\<rparr>"
  have vr: "th_state vh = RUNNING" using H(1) [OF v] by simp
  obtain th where th: "threads s t = Some th" "th_state th = QUEUED" using H(1) [OF v] by blast
  note P = handoff_parts [OF i v(1) vr, of "insert t U" "runQueue s" None, OF _ order_refl]
  have new: "threads s w = Some wh \<and> x \<noteq> t" if "threads ?s w = Some wh" "handoffThread wh = Some x" for w wh x
  proof -
    have "w \<noteq> v" using that by auto
    then have "threads s w = Some wh" using that by simp
    then show ?thesis using H(2) [OF v(1) _ v(2)] that(2) \<open>w \<noteq> v\<close> by auto
  qed
  have tg: "targets ?s = targets s - {t}"
  proof (rule set_eqI)
    fix x
    show "x \<in> targets ?s \<longleftrightarrow> x \<in> targets s - {t}"
    proof
      assume "x \<in> targets ?s"
      then obtain w wh where w: "threads ?s w = Some wh" "handoffThread wh = Some x" by (auto simp: targets_def)
      then show "x \<in> targets s - {t}" using new [OF w] by (auto simp: targets_def)
    next
      assume "x \<in> targets s - {t}"
      then obtain w wh where w: "threads s w = Some wh" "handoffThread wh = Some x" "x \<noteq> t" by (auto simp: targets_def)
      then have "w \<noteq> v" using v by auto
      then have "threads ?s w = Some wh" using w by simp
      then show "x \<in> targets ?s" using w(2) unfolding targets_def by blast
    qed
  qed
  have st: "x \<noteq> QUEUED \<Longrightarrow> in_state s x - insert t U = in_state s x - U" for x using th by (auto simp: in_state_def)
  have "set (runQueue s) = in_state s QUEUED - insert t U - (targets s - {t})"
  proof -
    have "t \<in> targets s" using v by (auto simp: targets_def)
    then show ?thesis using Q(5) by blast
  qed
  then have "queue_inv (insert t U) ?s" unfolding queue_inv_def P(5,6) [OF subset_insertI] tg using Q st by simp
  moreover have "hand_inv (insert t U) ?s"
    unfolding hand_inv_def
  proof (intro conjI allI impI)
    fix w wh x
    assume w: "threads ?s w = Some wh" "handoffThread wh = Some x"
    note o = new [OF w]
    obtain xh where x: "threads s x = Some xh" "th_state xh = QUEUED" "th_mask xh ! th_cid wh" "x \<notin> U" "th_state wh = RUNNING"
      using H(1) [of w wh x] o w(2) by blast
    then have "x \<noteq> v" using v vr by auto
    then show "th_state wh = RUNNING" "x \<notin> insert t U" "\<exists>th'. threads ?s x = Some th' \<and> th_state th' = QUEUED \<and> th_mask th' ! th_cid wh"
      using x o by auto
    fix u uh
    assume u: "threads ?s u = Some uh" "handoffThread uh = Some x"
    show "w = u" using new [OF w] new [OF u] H(2) w(2) u(2) by blast
  qed
  ultimately have "sched_inv F (insert t U) ?s" using P(1-4) [OF subset_insertI] by (simp add: sched_inv_def)
  then show ?thesis by simp
qed

subsection \<open>Steps of one thread\<close>

lemma in_queues:
  assumes "sched_inv F U s" "threads s t = Some th"
  shows "t \<in> set (runQueue s) \<longleftrightarrow> th_state th = QUEUED \<and> t \<notin> U \<and> t \<notin> targets s"
    "t \<in> set (outQueue s) \<longleftrightarrow> th_state th = OUT \<and> t \<notin> U" "t \<in> set (sleepQueue s) \<longleftrightarrow> th_state th = SLEEPING \<and> t \<notin> U"
  using queueD(4-6) [OF sched_invD(3) [OF assms(1)]] assms(2) by (auto simp: in_state_def)

lemma target_queued:
  assumes "sched_inv F U s" "t \<in> targets s" "threads s t = Some th"
  shows "th_state th = QUEUED" "t \<notin> U"
proof -
  from assms(2) obtain v vh where v: "threads s v = Some vh" "handoffThread vh = Some t" by (auto simp: targets_def)
  show "th_state th = QUEUED" "t \<notin> U" using handD(1) [OF sched_invD(4) [OF assms(1)] v] assms(3) by auto
qed

lemma handoff_runs:
  assumes "sched_inv F U s" "threads s t = Some th" "handoffThread th \<noteq> None"
  shows "th_state th = RUNNING"
  using assms(3) handD(1) [OF sched_invD(4) [OF assms(1)] assms(2)] by auto

lemma thread_ok:
  assumes "sched_inv F U s" "threads s t = Some th"
  shows "th_ok s t th" "th_state th = QUEUED \<or> th_state th = SLEEPING \<Longrightarrow> t \<notin> U \<Longrightarrow> th_futexWord th = 1"
    "t \<in> set (fakeLeaves s) \<longleftrightarrow> fakeLeave th \<noteq> None"
  using thrD [OF sched_invD(2) [OF assms(1)]] assms(2) by (blast | auto)+

lemma quiet:
  assumes "sched_inv F U s" "threads s t = Some th" "th_state th \<noteq> RUNNING"
  shows "\<not> markedForSleep th" "fakeLeave th = None" "handoffThread th = None"
  using thread_ok(1) [OF assms(1,2)] assms(3) handoff_runs [OF assms(1,2)] by (cases "handoffThread th"; auto simp: th_ok_def)+

lemma not_target:
  assumes "sched_inv F U s" "threads s t = Some th" "th_state th \<noteq> QUEUED \<or> t \<in> U"
  shows "t \<notin> targets s"
  using target_queued [OF assms(1) _ assms(2)] assms(3) by blast

lemma wakeup_of_other:
  assumes "threads s' = (threads s)(t \<mapsto> th')" "t \<notin> set q"
  shows "map (wakeup_of s') q = map (wakeup_of s) q"
  using assms by (auto simp: wakeup_of_def)

text \<open>Flags of a thread that keeps its state.\<close>

lemma flag_step:
  assumes i: "sched_inv F U s" and t: "threads s t = Some th"
    and keep: "th_state th' = th_state th" "th_cid th' = th_cid th" "th_mask th' = th_mask th" "handoffThread th' = handoffThread th"
    and ok: "th_ok s t th'" and fw: "th_state th = QUEUED \<or> th_state th = SLEEPING \<Longrightarrow> t \<notin> U \<Longrightarrow> th_futexWord th' = 1"
    and wk: "wakeupPhase th' = wakeupPhase th \<or> th_state th \<noteq> SLEEPING"
    and fl: "distinct fl" "set fl = (if fakeLeave th' = None then set (fakeLeaves s) - {t} else insert t (set (fakeLeaves s)))"
  shows "sched_inv F U (s\<lparr>threads := (threads s)(t \<mapsto> th'), fakeLeaves := fl\<rparr>)"
proof (rule thread_step [OF i _ t, of _ th'])
  let ?s = "s\<lparr>threads := (threads s)(t \<mapsto> th'), fakeLeaves := fl\<rparr>"
  note Q = queueD [OF sched_invD(3) [OF i]] and q = in_queues [OF i t]
  have "map (wakeup_of ?s) (sleepQueue s) = map (wakeup_of s) (sleepQueue s)"
    using wk
  proof
    assume "wakeupPhase th' = wakeupPhase th"
    then show ?thesis using wakeup_of_upd [OF t, of ?s th'] by simp
  next
    assume "th_state th \<noteq> SLEEPING"
    then show ?thesis using q(3) by (intro wakeup_of_other [of _ _ t th']) simp_all
  qed
  then show "sorted (map (wakeup_of ?s) (sleepQueue ?s))" using Q(7) by (simp del: map_eq_conv)
  show "curPhase s < wakeupPhase th'" if "t \<in> set (sleepQueue ?s)"
    using Q(8) [of t] that q(3) wk t by (auto simp: wakeup_of_def)
  show "handoffThread th \<noteq> None \<Longrightarrow> th_state th' = RUNNING" using handoff_runs [OF i t] keep(1) by simp
  show "t \<in> targets s \<Longrightarrow> th_state th' = QUEUED \<and> t \<notin> U" using target_queued [OF i _ t] keep(1) by simp
qed (use queueD(1-3) [OF sched_invD(3) [OF i]] in_queues [OF i t] keep ok fw fl in \<open>simp_all add: same_rest_def active_def\<close>)

lemma set_thread_step:
  assumes "sched_inv F U s" "threads s t = Some th" "th_state th' = th_state th" "th_cid th' = th_cid th" "th_mask th' = th_mask th"
    "handoffThread th' = handoffThread th" "th_ok s t th'" "th_state th = QUEUED \<or> th_state th = SLEEPING \<Longrightarrow> t \<notin> U \<Longrightarrow> th_futexWord th' = 1"
    "wakeupPhase th' = wakeupPhase th \<or> th_state th \<noteq> SLEEPING" "fakeLeave th' = fakeLeave th"
  shows "sched_inv F U (s\<lparr>threads := (threads s)(t \<mapsto> th')\<rparr>)"
proof -
  have "sched_inv F U (s\<lparr>threads := (threads s)(t \<mapsto> th'), fakeLeaves := fakeLeaves s\<rparr>)"
    using assms thrD(3) [OF sched_invD(2) [OF assms(1)]] thread_ok(3) [OF assms(1,2)] by (intro flag_step [OF assms(1,2)]) auto
  then show ?thesis by simp
qed

text \<open>A thread that leaves its queue for a moment.\<close>

lemma unqueue_step:
  assumes i: "sched_inv F U s" and t: "threads s t = Some th" and nt: "t \<notin> targets s" and U: "t \<notin> U"
    and q: "th_state th = QUEUED \<Longrightarrow> rq = remove1 t (runQueue s)" "th_state th \<noteq> QUEUED \<Longrightarrow> rq = runQueue s"
    and o: "th_state th = OUT \<Longrightarrow> oq = remove1 t (outQueue s)" "th_state th \<noteq> OUT \<Longrightarrow> oq = outQueue s" and z: "th_state th \<noteq> SLEEPING"
  shows "sched_inv F (insert t U) (s\<lparr>runQueue := rq, outQueue := oq\<rparr>)"
proof (rule thread_step [OF i _ t, of _ th])
  note Q = queueD [OF sched_invD(3) [OF i]] and iq = in_queues [OF i t]
  let ?s = "s\<lparr>runQueue := rq, outQueue := oq\<rparr>"
  have rq: "distinct rq" "set rq = set (runQueue s) - {t}" using q Q(1) iq(1) by (cases "th_state th = QUEUED"; auto)+
  have oq: "distinct oq" "set oq = set (outQueue s) - {t}" using o Q(2) iq(2) by (cases "th_state th = OUT"; auto)+
  show "distinct (runQueue ?s)" "distinct (outQueue ?s)" "distinct (sleepQueue ?s)" using rq(1) oq(1) Q(3) by simp_all
  show "set (runQueue ?s) - {t} = set (runQueue s) - {t}" "set (outQueue ?s) - {t} = set (outQueue s) - {t}" using rq(2) oq(2) by auto
  show "t \<in> set (runQueue ?s) \<longleftrightarrow> th_state th = QUEUED \<and> t \<notin> insert t U \<and> t \<notin> targets s" "t \<in> set (outQueue ?s) \<longleftrightarrow> th_state th = OUT \<and> t \<notin> insert t U"
    using rq(2) oq(2) by simp_all
  show "t \<in> set (sleepQueue ?s) \<longleftrightarrow> th_state th = SLEEPING \<and> t \<notin> insert t U" using iq(3) z by simp
  have "wakeup_of ?s = wakeup_of s" by (simp add: wakeup_of_def fun_eq_iff)
  then show "sorted (map (wakeup_of ?s) (sleepQueue ?s))" using Q(7) by simp
  show "t \<in> set (runQueue ?s) \<Longrightarrow> t \<in> set (runQueue s) \<or> (\<forall>c<numCores s. th_mask th ! c \<longrightarrow> c \<notin> F \<longrightarrow> runs s c)" using rq(2) by simp
  show "th_state th \<noteq> RUNNING \<Longrightarrow> P" if "th_state th = RUNNING" for P using that by simp
  show "set (fakeLeaves ?s) = (if fakeLeave th = None then set (fakeLeaves s) - {t} else insert t (set (fakeLeaves s)))"
    using thread_ok(3) [OF i t] by auto
  show "threads ?s = (threads s)(t \<mapsto> th)" using t by auto
qed (use thread_ok(1) [OF i t] thrD(3) [OF sched_invD(2) [OF i]] nt handoff_runs [OF i t] in_queues(3) [OF i t] z in \<open>simp_all add: same_rest_def\<close>)

text \<open>A thread that queues up for a context.\<close>

lemma enqueue_step:
  assumes i: "sched_inv F U s" and t: "threads s t = Some th"
    and st: "th_state th = BLOCKED \<or> th_state th = STARTED \<or> th_state th = QUEUED \<and> t \<in> U"
    and w: "\<And>c. c < numCores s \<Longrightarrow> th_mask th ! c \<Longrightarrow> c \<notin> F \<Longrightarrow> runs s c"
  shows "unqueued t s" "sched_inv F (U - {t}) (s\<lparr>threads := (threads s)(t \<mapsto> th\<lparr>th_state := QUEUED, th_futexWord := 1\<rparr>), runQueue := runQueue s @ [t]\<rparr>)"
proof -
  note Q = queueD [OF sched_invD(3) [OF i]] and iq = in_queues [OF i t]
  have nq: "t \<notin> set (runQueue s)" "t \<notin> set (outQueue s)" "t \<notin> set (sleepQueue s)" using iq st by auto
  then show "unqueued t s" by (simp add: unqueued_def)
  have flags: "\<not> markedForSleep th" "fakeLeave th = None" "handoffThread th = None" "\<not> active th" "t \<notin> targets s"
    using quiet [OF i t] not_target [OF i t] st by (auto simp: active_def)
  let ?th = "th\<lparr>th_state := QUEUED, th_futexWord := 1\<rparr>"
  let ?s = "s\<lparr>threads := (threads s)(t \<mapsto> ?th), runQueue := runQueue s @ [t]\<rparr>"
  have "wakeup_of ?s = wakeup_of s" by (rule wakeup_of_upd [OF t, of ?s ?th]) simp_all
  then have "sorted (map (wakeup_of ?s) (sleepQueue ?s))" using Q(7) by simp
  then show "sched_inv F (U - {t}) ?s"
    by (intro thread_step [OF i _ t, of ?s ?th])
      (use flags nq Q(1-3) w st thread_ok(1,3) [OF i t] thrD(3) [OF sched_invD(2) [OF i]] in \<open>auto simp: same_rest_def active_def th_ok_def\<close>)
qed

lemma go_out_step:
  assumes i: "sched_inv F U s" and t: "threads s t = Some th" "th_state th = RUNNING" "\<not> markedForSleep th" "fakeLeave th = None"
      "handoffThread th = None" and U: "t \<notin> U"
    and w: "\<And>u uh. u \<in> set (runQueue s) \<Longrightarrow> threads s u = Some uh \<Longrightarrow> \<not> th_mask uh ! th_cid th"
  shows "unqueued t s" "sched_inv F U (s\<lparr>threads := (threads s)(t \<mapsto> th\<lparr>th_state := OUT\<rparr>), outQueue := outQueue s @ [t]\<rparr>)"
proof -
  note Q = queueD [OF sched_invD(3) [OF i]] and iq = in_queues [OF i t(1)]
  have nq: "t \<notin> set (runQueue s)" "t \<notin> set (outQueue s)" "t \<notin> set (sleepQueue s)" using iq t(2) by auto
  then show "unqueued t s" by (simp add: unqueued_def)
  have nt: "t \<notin> targets s" using t(2) target_queued [OF i _ t(1)] by auto
  let ?th = "th\<lparr>th_state := OUT\<rparr>"
  let ?s = "s\<lparr>threads := (threads s)(t \<mapsto> ?th), outQueue := outQueue s @ [t]\<rparr>"
  have "wakeup_of ?s = wakeup_of s" by (rule wakeup_of_upd [OF t(1), of ?s ?th]) simp_all
  then have "sorted (map (wakeup_of ?s) (sleepQueue ?s))" using Q(7) by simp
  then show "sched_inv F U ?s"
    by (intro thread_step [OF i _ t(1), of ?s ?th])
      (use t(2-) nt U nq Q(1-3) w thread_ok(1,3) [OF i t(1)] thrD(3) [OF sched_invD(2) [OF i]] in \<open>auto simp: same_rest_def active_def th_ok_def\<close>)
qed

lemma rejoin_step:
  assumes i: "sched_inv F U s" and t: "threads s t = Some th" "th_state th = OUT" and U: "t \<notin> U"
  shows "t \<in> set (outQueue s)" "sched_inv F U (s\<lparr>threads := (threads s)(t \<mapsto> th\<lparr>th_state := RUNNING\<rparr>), outQueue := remove1 t (outQueue s)\<rparr>)"
proof -
  note Q = queueD [OF sched_invD(3) [OF i]] and iq = in_queues [OF i t(1)]
  show nq: "t \<in> set (outQueue s)" using iq t(2) U by auto
  have nq': "t \<notin> set (runQueue s)" "t \<notin> set (sleepQueue s)" using iq t(2) by auto
  have flags: "\<not> markedForSleep th" "fakeLeave th = None" "handoffThread th = None" "t \<notin> targets s"
    using quiet [OF i t(1)] not_target [OF i t(1)] t(2) by simp_all
  let ?th = "th\<lparr>th_state := RUNNING\<rparr>"
  let ?s = "s\<lparr>threads := (threads s)(t \<mapsto> ?th), outQueue := remove1 t (outQueue s)\<rparr>"
  have "wakeup_of ?s = wakeup_of s" by (rule wakeup_of_upd [OF t(1), of ?s ?th]) simp_all
  then have "sorted (map (wakeup_of ?s) (sleepQueue ?s))" using Q(7) by simp
  then show "sched_inv F U ?s"
    by (intro thread_step [OF i _ t(1), of ?s ?th])
      (use t(2) flags U nq nq' Q(1-3) thread_ok(1,3) [OF i t(1)] thrD(3) [OF sched_invD(2) [OF i]] in \<open>auto simp: same_rest_def active_def th_ok_def\<close>)
qed

lemma awake_step:
  assumes i: "sched_inv F U s" and t: "threads s t = Some th" "th_state th = SLEEPING" and U: "t \<notin> U"
  shows "t \<in> set (sleepQueue s)" "sched_inv F U (s\<lparr>threads := (threads s)(t \<mapsto> th\<lparr>th_state := BLOCKED\<rparr>), sleepQueue := remove1 t (sleepQueue s)\<rparr>)"
proof -
  note Q = queueD [OF sched_invD(3) [OF i]] and iq = in_queues [OF i t(1)]
  show nq: "t \<in> set (sleepQueue s)" using iq t(2) U by auto
  have nq': "t \<notin> set (runQueue s)" "t \<notin> set (outQueue s)" using iq t(2) by auto
  have flags: "\<not> markedForSleep th" "fakeLeave th = None" "handoffThread th = None" "t \<notin> targets s"
    using quiet [OF i t(1)] not_target [OF i t(1)] t(2) by simp_all
  let ?th = "th\<lparr>th_state := BLOCKED\<rparr>"
  let ?s = "s\<lparr>threads := (threads s)(t \<mapsto> ?th), sleepQueue := remove1 t (sleepQueue s)\<rparr>"
  have wk: "wakeup_of ?s = wakeup_of s" by (rule wakeup_of_upd [OF t(1), of ?s ?th]) simp_all
  have "sorted (map (wakeup_of ?s) (sleepQueue ?s))"
    unfolding wk using sorted_map_remove1 [OF Q(7)] by simp
  then show "sched_inv F U ?s"
    by (intro thread_step [OF i _ t(1), of ?s ?th])
      (use t(2) flags U nq nq' Q(1-3) thread_ok(1,3) [OF i t(1)] thrD(3) [OF sched_invD(2) [OF i]] in \<open>auto simp: same_rest_def active_def th_ok_def\<close>)
qed

lemma sleep_insert_step:
  assumes i: "sched_inv F U s" and t: "threads s t = Some th" "th_state th = SLEEPING" "th_futexWord th = 1" "curPhase s < wakeupPhase th" and U: "t \<in> U"
  shows "sleep_insert t s = Some (s\<lparr>sleepQueue := insert_by (wakeup_of s) t (sleepQueue s)\<rparr>)"
    "sched_inv F (U - {t}) (s\<lparr>sleepQueue := insert_by (wakeup_of s) t (sleepQueue s)\<rparr>)"
proof -
  note Q = queueD [OF sched_invD(3) [OF i]] and iq = in_queues [OF i t(1)]
  have nq: "t \<notin> set (runQueue s)" "t \<notin> set (outQueue s)" "t \<notin> set (sleepQueue s)" using iq t(2) U by auto
  then show "sleep_insert t s = Some (s\<lparr>sleepQueue := insert_by (wakeup_of s) t (sleepQueue s)\<rparr>)" by (simp add: sleep_insert_def unqueued_def)
  have flags: "\<not> markedForSleep th" "fakeLeave th = None" "handoffThread th = None" "t \<notin> targets s"
    using quiet [OF i t(1)] not_target [OF i t(1)] t(2) by simp_all
  let ?s = "s\<lparr>sleepQueue := insert_by (wakeup_of s) t (sleepQueue s)\<rparr>"
  have wk: "wakeup_of ?s = wakeup_of s" by (simp add: wakeup_of_def fun_eq_iff)
  have "sorted (map (wakeup_of ?s) (sleepQueue ?s))"
    unfolding wk using insert_by_sorted [OF Q(7), of t] by simp
  then show "sched_inv F (U - {t}) ?s"
    by (intro thread_step [OF i _ t(1), of ?s th])
      (use t flags nq Q(1-3) insert_by_distinct [OF Q(3) nq(3)] thread_ok(1,3) [OF i t(1)] thrD(3) [OF sched_invD(2) [OF i]]
        in \<open>auto simp: same_rest_def active_def\<close>)
qed

subsection \<open>The choices of schedContext and schedThread\<close>

lemma find_th_run:
  assumes "\<forall>t\<in>set ts. threads s t \<noteq> None"
  shows "(find_th P s ts = Some None \<and> (\<forall>t\<in>set ts. \<forall>th. threads s t = Some th \<longrightarrow> \<not> P th)) \<or>
    (\<exists>t th. find_th P s ts = Some (Some t) \<and> t \<in> set ts \<and> threads s t = Some th \<and> P th)"
  using assms
proof (induction ts)
  case (Cons t ts)
  then obtain th where t: "threads s t = Some th" by force
  show ?case
  proof (cases "P th")
    case False
    then show ?thesis using Cons.IH Cons.prems t by (simp, blast)
  qed (use t in simp)
qed simp

lemma run_remove_step:
  assumes i: "sched_inv F U s" and q: "t \<in> set (runQueue s)" and t: "threads s t = Some th"
  shows "run_remove t s = Some (s\<lparr>runQueue := remove1 t (runQueue s)\<rparr>)" "sched_inv F (insert t U) (s\<lparr>runQueue := remove1 t (runQueue s)\<rparr>)"
    "th_state th = QUEUED" "th_futexWord th = 1" "t \<notin> U"
proof -
  have st: "th_state th = QUEUED" "t \<notin> U" "t \<notin> targets s" using q in_queues(1) [OF i t] by simp_all
  show "th_state th = QUEUED" "t \<notin> U" by (rule st)+
  show "th_futexWord th = 1" using thread_ok(2) [OF i t] st by simp
  show "run_remove t s = Some (s\<lparr>runQueue := remove1 t (runQueue s)\<rparr>)" using q by (simp add: run_remove_def)
  have "sched_inv F (insert t U) (s\<lparr>runQueue := remove1 t (runQueue s), outQueue := outQueue s\<rparr>)"
    by (rule unqueue_step [OF i t st(3,2)]) (use st in simp_all)
  then show "sched_inv F (insert t U) (s\<lparr>runQueue := remove1 t (runQueue s)\<rparr>)" by simp
qed

lemma queued_known: "sched_inv F U s \<Longrightarrow> t \<in> set (runQueue s) \<or> t \<in> set (outQueue s) \<or> t \<in> set (sleepQueue s) \<Longrightarrow> threads s t \<noteq> None"
  using queueD(4-6) [OF sched_invD(3), of F U s] by (auto simp: in_state_def)

lemma schedContext_run:
  assumes i: "sched_inv F U s"
  shows "(schedContext c s = Some (None, s) \<and> (\<forall>t\<in>set (runQueue s). \<forall>th. threads s t = Some th \<longrightarrow> \<not> th_mask th ! c)) \<or>
    (\<exists>t th. schedContext c s = Some (Some t, s\<lparr>runQueue := remove1 t (runQueue s)\<rparr>) \<and> t \<in> set (runQueue s) \<and> threads s t = Some th \<and> th_mask th ! c \<and>
       th_state th = QUEUED \<and> th_futexWord th = 1 \<and> sched_inv F (insert t U) (s\<lparr>runQueue := remove1 t (runQueue s)\<rparr>))"
proof -
  have known: "\<forall>t\<in>set (runQueue s). threads s t \<noteq> None" using queued_known [OF i] by blast
  from find_th_run [of "runQueue s" s "\<lambda>th. th_mask th ! c", OF known] show ?thesis
  proof (elim disjE exE conjE)
    fix t th
    assume f: "find_th (\<lambda>th. th_mask th ! c) s (runQueue s) = Some (Some t)" "t \<in> set (runQueue s)" "threads s t = Some th" "th_mask th ! c"
    note r = run_remove_step [OF i f(2,3)]
    show ?thesis using f r by (intro disjI2 exI [of _ t] exI [of _ th]) (simp add: schedContext_def)
  qed (simp add: schedContext_def)
qed

text \<open>The threads that run, as the barrier sees them.\<close>

definition rth :: "'r Sched \<Rightarrow> nat \<rightharpoonup> ThreadInfo" where
  "rth s v = (case threads s v of None \<Rightarrow> None | Some th \<Rightarrow> if th_state th = RUNNING then Some th else None)"

lemma rth_Some [simp]: "rth s v = Some th \<longleftrightarrow> threads s v = Some th \<and> th_state th = RUNNING"
  by (auto simp: rth_def split: option.splits)

lemma rth_upd: "threads s' = (threads s)(t \<mapsto> th) \<Longrightarrow> rth s' = (if th_state th = RUNNING then (rth s)(t \<mapsto> th) else (rth s)(t := None))"
  by (auto simp: rth_def fun_eq_iff)

lemma rth_same: "threads s' = threads s \<Longrightarrow> rth s' = rth s"
  by (simp add: rth_def fun_eq_iff)

lemma runs_rth:
  assumes "ctx_inv F s"
  shows "runs s c \<longleftrightarrow> (\<exists>v th. rth s v = Some th \<and> th_cid th = c)"
  using ctxD(4) [OF assms] by (force simp: runs_def active_def)

text \<open>Nothing happens to the names of threads.\<close>

definition same_ids :: "'r Sched \<Rightarrow> 'r Sched \<Rightarrow> bool" where
  "same_ids s s' \<longleftrightarrow> gidMap s' = gidMap s \<and> (\<forall>v. map_option th_gid (threads s' v) = map_option th_gid (threads s v))"

lemma same_ids_refl [simp]: "same_ids s s"
  by (simp add: same_ids_def)

lemma same_ids_trans: "same_ids s s' \<Longrightarrow> same_ids s' s'' \<Longrightarrow> same_ids s s''"
  by (simp add: same_ids_def)

lemma same_ids_upd: "threads s t = Some th \<Longrightarrow> threads s' = (threads s)(t \<mapsto> th') \<Longrightarrow> gidMap s' = gidMap s \<Longrightarrow> th_gid th' = th_gid th \<Longrightarrow> same_ids s s'"
  by (simp add: same_ids_def)

lemma same_ids_same: "threads s' = threads s \<Longrightarrow> gidMap s' = gidMap s \<Longrightarrow> same_ids s s'"
  by (simp add: same_ids_def)

lemma schedThread_run:
  assumes i: "sched_inv {} U s" and t: "threads s t = Some th" "th_state th = BLOCKED \<or> th_state th = STARTED \<or> th_state th = QUEUED"
    and U: "U \<subseteq> {t}"
  shows "(schedThread t s = Some (None, s) \<and> (\<forall>c<numCores s. th_mask th ! c \<longrightarrow> runs s c)) \<or>
    (\<exists>c s'. schedThread t s = Some (Some c, s') \<and> sched_inv {c} U s' \<and> threads s' t = Some th \<and> th_mask th ! c \<and> c < numCores s \<and> \<not> runs s c \<and>
       rth s' = rth s \<and> curPhase s' = curPhase s \<and> numCores s' = numCores s \<and> same_ids s s')"
proof -
  note C = ctxD [OF sched_invD(1) [OF i]]
  have ok: "th_cid th < numCores s" "length (th_mask th) = numCores s" using thread_ok(1) [OF i t(1)] by (simp_all add: th_ok_def)
  have rd: "read_at (contexts s) (th_cid th) = Some \<lparr>ctx_state = (if cur s (th_cid th) = None then IDLE else USED), curThread = cur s (th_cid th)\<rparr>"
    using C(1,3) ok(1) by (simp add: read_at_def)
  have free: "(\<exists>c s'. schedThread t s = Some (Some c, s') \<and> sched_inv {c} U s' \<and> threads s' t = Some th \<and> th_mask th ! c \<and> c < numCores s \<and> \<not> runs s c \<and>
       rth s' = rth s \<and> curPhase s' = curPhase s \<and> numCores s' = numCores s \<and> same_ids s s')"
    if c: "c \<in> set (freeList s)" "th_mask th ! c" and d: "schedThread t s = do { s \<leftarrow> free_remove c s; Some (Some c, s) }" for c
  proof -
    note r = free_remove_run [OF i c(1)]
    have n: "\<not> runs s c" "c < numCores s" using C(6) c(1) by (simp_all add: runs_def)
    let ?s = "s\<lparr>freeList := remove1 c (freeList s)\<rparr>"
    have "rth ?s = rth s" by (rule rth_same) simp
    moreover have "same_ids s ?s" by (rule same_ids_same) simp_all
    moreover have "schedThread t s = Some (Some c, ?s)" unfolding d r(1) by simp
    ultimately show ?thesis using r(2) n c(2) t(1) by (intro exI [of _ c] exI [of _ ?s]) simp
  qed
  show ?thesis
  proof (cases "cur s (th_cid th) = None \<and> th_mask th ! th_cid th")
    case True
    then have "th_cid th \<in> set (freeList s)" using C(6) ok(1) by simp
    moreover have "schedThread t s = do { s \<leftarrow> free_remove (th_cid th) s; Some (Some (th_cid th), s) }"
      using True t(1) ok(1) by (cases "free_remove (th_cid th) s") (simp_all add: schedThread_def rd del: read_at_Some)
    ultimately show ?thesis using free [of "th_cid th"] True by blast
  next
    case own: False
    show ?thesis
    proof (cases "List.find (\<lambda>c. th_mask th ! c) (freeList s)")
      case (Some c)
      then have "c \<in> set (freeList s)" "th_mask th ! c" by (auto simp: find_Some_iff)
      moreover have "schedThread t s = do { s \<leftarrow> free_remove c s; Some (Some c, s) }"
        using own t(1) ok(1) Some calculation(2) by (cases "free_remove c s") (auto simp: schedThread_def rd simp del: read_at_Some)
      ultimately show ?thesis using free [of c] by blast
    next
      case none: None
      let ?P = "\<lambda>o1. th_mask th ! th_cid o1"
      have d: "schedThread t s = do {
          out \<leftarrow> find_th ?P s (outQueue s);
          (r, s) \<leftarrow> (case out of None \<Rightarrow> Some (None, s)
             | Some o1 \<Rightarrow> do { outTh \<leftarrow> threads s o1; s \<leftarrow> out_remove o1 s; s \<leftarrow> deschedule o1 (th_cid outTh) BLOCKED s; Some (Some (th_cid outTh), s) });
          assert_that (case r of None \<Rightarrow> True | Some c \<Rightarrow> th_mask th ! c);
          Some (r, s) }"
        using own t(1) ok(1) none by (auto simp: schedThread_def rd simp del: read_at_Some)
      have known: "\<forall>t\<in>set (outQueue s). threads s t \<noteq> None" using queued_known [OF i] by blast
      from find_th_run [of "outQueue s" s ?P, OF known] show ?thesis
      proof (elim disjE exE conjE)
        assume f: "find_th ?P s (outQueue s) = Some None" "\<forall>u\<in>set (outQueue s). \<forall>uh. threads s u = Some uh \<longrightarrow> \<not> th_mask th ! th_cid uh"
        have "runs s c" if c: "c < numCores s" "th_mask th ! c" for c
        proof -
          have "c \<notin> set (freeList s)" using none c(2) by (auto simp: find_None_iff)
          then obtain v where v: "cur s c = Some v" using C(6) c(1) by auto
          then obtain vh where vh: "threads s v = Some vh" "active vh" "th_cid vh = c" using C(4) by blast
          have "v \<noteq> t" using vh t by (auto simp: active_def)
          then have "th_state vh \<noteq> OUT" using f(2) in_queues(2) [OF i vh(1)] vh c(2) U by auto
          then show ?thesis using v vh by (auto simp: runs_def active_def)
        qed
        then show ?thesis by (simp add: d f(1))
      next
        fix o1 oh
        assume f: "find_th ?P s (outQueue s) = Some (Some o1)" "o1 \<in> set (outQueue s)" "threads s o1 = Some oh" "th_mask th ! th_cid oh"
        let ?c = "th_cid oh" and ?s = "s\<lparr>outQueue := remove1 o1 (outQueue s)\<rparr>"
        have o: "th_state oh = OUT" "o1 \<notin> U" using in_queues(2) [OF i f(3)] f(2) by simp_all
        have ot: "o1 \<noteq> t" using o t f(3) by auto
        have rem: "out_remove o1 s = Some ?s" using f(2) by (simp add: out_remove_def)
        have "sched_inv {} (insert o1 U) (s\<lparr>runQueue := runQueue s, outQueue := remove1 o1 (outQueue s)\<rparr>)"
          by (rule unqueue_step [OF i f(3) not_target [OF i f(3)] o(2)]) (use o in simp_all)
        then have i1: "sched_inv {} (insert o1 U) ?s" by simp
        have act: "active oh" using o by (simp add: active_def)
        have oh: "threads ?s o1 = Some oh" using f(3) by simp
        have U': "U = insert o1 U - {o1}" using o(2) by simp
        note r = deschedule_run [OF i1 oh act, of BLOCKED ?c U]
        have r1: "deschedule o1 ?c BLOCKED ?s = Some (desched_st o1 ?c BLOCKED oh ?s)" "sched_inv {?c} U (desched_st o1 ?c BLOCKED oh ?s)"
          using r quiet [OF i f(3)] o U' by simp_all
        have "rth (desched_st o1 ?c BLOCKED oh ?s) = rth s"
          using o f(3) by (auto simp: rth_def fun_eq_iff)
        moreover have "same_ids s (desched_st o1 ?c BLOCKED oh ?s)"
          by (rule same_ids_upd [OF f(3), of _ "oh\<lparr>th_state := BLOCKED\<rparr>"]) simp_all
        moreover have "\<not> runs s ?c"
        proof -
          have "cur s ?c = Some o1" using C(4) [of ?c o1] f(3) act by blast
          then show ?thesis using f(3) o by (simp add: runs_def)
        qed
        moreover have "?c < numCores s" using thread_ok(1) [OF i f(3)] by (simp add: th_ok_def)
        moreover have "schedThread t s = Some (Some ?c, desched_st o1 ?c BLOCKED oh ?s)" using f r1(1) by (simp add: d rem)
        ultimately show ?thesis using r1(2) ot t(1) f(4)
          by (intro disjI2 exI [of _ ?c] exI [of _ "desched_st o1 ?c BLOCKED oh ?s"]) simp
      qed
    qed
  qed
qed

end
