(* ===== verification/Sched_Phase.thy ===== *)
theory Sched_Phase imports Sched_Steps "HOL-Library.Multiset" begin

text \<open>
  The end of a phase: \<^verbatim>\<open>callback\<close> wakes the threads whose sleep is over and, at the end of a quantum, chooses the threads
  that take over a context. It fails in no state that satisfies the invariant and has no handoff pending.
\<close>

text \<open>What a phase end may do to a thread: a sleeping one may wake, a running one may get a handoff.\<close>

definition th_frame :: "ThreadInfo \<Rightarrow> ThreadInfo \<Rightarrow> bool" where
  "th_frame th th' \<longleftrightarrow> th_gid th' = th_gid th \<and>
     (if th_state th = SLEEPING then th_state th' = SLEEPING \<or> th_state th' = BLOCKED
      else th' = th\<lparr>handoffThread := handoffThread th'\<rparr> \<and> (th_state th \<noteq> RUNNING \<longrightarrow> handoffThread th' = handoffThread th))"

definition phase_frame :: "'r Sched \<Rightarrow> 'r Sched \<Rightarrow> bool" where
  "phase_frame s s' \<longleftrightarrow> gidMap s' = gidMap s \<and> numCores s' = numCores s \<and> nextThread s' = nextThread s \<and> blockingSyscalls s' = blockingSyscalls s \<and>
     (\<forall>v. rel_option th_frame (threads s v) (threads s' v))"

lemma th_frame_refl [simp]: "th_frame th th"
  by (simp add: th_frame_def)

lemma th_frame_state: "th_frame th th' \<Longrightarrow> th_state th \<noteq> SLEEPING \<Longrightarrow> th_state th' = th_state th"
  unfolding th_frame_def by (metis ThreadInfo.simps(2) ThreadInfo.simps(15) ThreadInfo.select_convs(2) ThreadInfo.surjective ThreadInfo.update_convs(4))

lemma th_frame_trans:
  assumes "th_frame a b" "th_frame b c"
  shows "th_frame a c"
proof (cases "th_state a = SLEEPING")
  case True
  then show ?thesis using assms th_frame_state [OF assms(2)] unfolding th_frame_def by (auto split: if_splits)
next
  case False
  have b: "b = a\<lparr>handoffThread := handoffThread b\<rparr>" "th_state b = th_state a" using assms(1) False th_frame_state [OF assms(1)] by (simp_all add: th_frame_def)
  have c: "c = b\<lparr>handoffThread := handoffThread c\<rparr>" using assms(2) False b(2) by (simp add: th_frame_def)
  have "c = a\<lparr>handoffThread := handoffThread c\<rparr>" using b(1) c by (metis ThreadInfo.fold_congs(4) ThreadInfo.update_convs(4) ThreadInfo.surjective)
  then show ?thesis using assms False b(2) unfolding th_frame_def by simp
qed

lemma phase_frame_refl [simp]: "phase_frame s s"
  by (simp add: phase_frame_def option.rel_refl)

lemma phase_frame_trans:
  assumes "phase_frame a b" "phase_frame b c"
  shows "phase_frame a c"
proof -
  have "rel_option th_frame (threads a v) (threads c v)" for v
  proof -
    have "rel_option th_frame (threads a v) (threads b v)" "rel_option th_frame (threads b v) (threads c v)" using assms by (simp_all add: phase_frame_def)
    then show ?thesis by (cases "threads a v"; cases "threads b v"; cases "threads c v") (auto intro: th_frame_trans)
  qed
  then show ?thesis using assms by (simp add: phase_frame_def)
qed

lemma phase_frame_upd:
  assumes "threads s t = Some th" "threads s' = (threads s)(t \<mapsto> th')" "th_frame th th'"
    and "gidMap s' = gidMap s" "numCores s' = numCores s" "nextThread s' = nextThread s" "blockingSyscalls s' = blockingSyscalls s"
  shows "phase_frame s s'"
  using assms by (simp add: phase_frame_def option.rel_refl)

lemma phase_frameD:
  assumes "phase_frame s s'" "threads s v = Some th"
  shows "\<exists>th'. threads s' v = Some th' \<and> th_frame th th'"
proof -
  have "rel_option th_frame (threads s v) (threads s' v)" using assms(1) by (simp add: phase_frame_def)
  then show ?thesis using assms(2) by (cases "threads s' v") simp_all
qed

lemma phase_frame_back:
  assumes "phase_frame s s'" "threads s' v = Some th'"
  shows "\<exists>th. threads s v = Some th \<and> th_frame th th'"
proof -
  have "rel_option th_frame (threads s v) (threads s' v)" using assms(1) by (simp add: phase_frame_def)
  then show ?thesis using assms(2) by (cases "threads s v") simp_all
qed

subsection \<open>Sleeping threads\<close>

text \<open>The invariant with the phase number of before the callback.\<close>

lemma awake_old:
  assumes "sched_inv F U (s\<lparr>curPhase := p, numPhases := p\<rparr>)" "threads s t = Some th" "th_state th = SLEEPING" "t \<notin> U"
  shows "sched_inv F U (s\<lparr>threads := (threads s)(t \<mapsto> th\<lparr>th_state := BLOCKED, needsJoin := False, th_futexWord := 0\<rparr>),
      sleepQueue := remove1 t (sleepQueue s), curPhase := p, numPhases := p\<rparr>)"
proof -
  let ?o = "s\<lparr>curPhase := p, numPhases := p\<rparr>"
  have t: "threads ?o t = Some th" using assms(2) by simp
  let ?s1 = "?o\<lparr>threads := (threads ?o)(t \<mapsto> th\<lparr>th_state := BLOCKED\<rparr>), sleepQueue := remove1 t (sleepQueue ?o)\<rparr>"
  have i1: "sched_inv F U ?s1" by (rule awake_step(2) [OF assms(1) t assms(3,4)])
  have t1: "threads ?s1 t = Some (th\<lparr>th_state := BLOCKED\<rparr>)" by simp
  have "sched_inv F U (?s1\<lparr>threads := (threads ?s1)(t \<mapsto> th\<lparr>th_state := BLOCKED, needsJoin := False, th_futexWord := 0\<rparr>)\<rparr>)"
    by (rule set_thread_step [OF i1 t1]) (use thread_ok(1) [OF i1 t1] in \<open>simp_all add: th_ok_def active_def\<close>)
  moreover have "?s1\<lparr>threads := (threads ?s1)(t \<mapsto> th\<lparr>th_state := BLOCKED, needsJoin := False, th_futexWord := 0\<rparr>)\<rparr> =
      s\<lparr>threads := (threads s)(t \<mapsto> th\<lparr>th_state := BLOCKED, needsJoin := False, th_futexWord := 0\<rparr>),
      sleepQueue := remove1 t (sleepQueue s), curPhase := p, numPhases := p\<rparr>"
    by (rule Sched.equality) simp_all
  ultimately show ?thesis by (simp only:)
qed

lemma wake_sleepers_run:
  assumes "sched_inv F {} (s\<lparr>curPhase := p, numPhases := p\<rparr>)" "\<forall>t\<in>set (sleepQueue s). curPhase s \<le> wakeup_of s t"
  shows "\<exists>s'. wake_sleepers (sleepQueue s) s = Some s' \<and> sched_inv F {} (s'\<lparr>curPhase := p, numPhases := p\<rparr>) \<and>
    (\<forall>t\<in>set (sleepQueue s'). curPhase s < wakeup_of s' t) \<and> curPhase s' = curPhase s \<and> numPhases s' = numPhases s \<and> schedQuantum s' = schedQuantum s \<and>
    phase_frame s s' \<and> targets s' = targets s"
  using assms
proof (induction "sleepQueue s" arbitrary: s)
  case Nil
  then show ?case by (intro exI [of _ s]) simp
next
  case (Cons t ts)
  let ?o = "s\<lparr>curPhase := p, numPhases := p\<rparr>"
  note i = Cons.prems(1)
  note q = Cons.hyps(2) [symmetric]
  have "threads ?o t \<noteq> None" using queued_known [OF i, of t] by (simp add: q)
  then obtain th where t: "threads s t = Some th" by auto
  then have to: "threads ?o t = Some th" by simp
  have st: "th_state th = SLEEPING" using in_queues(3) [OF i to] by (simp add: q)
  have fw: "th_futexWord th = 1" using thread_ok(2) [OF i to] st by simp
  have ge: "curPhase s \<le> wakeupPhase th" using Cons.prems(2) t by (simp add: q wakeup_of_def)
  show ?case
  proof (cases "wakeupPhase th \<le> curPhase s")
    case True
    let ?th = "th\<lparr>th_state := BLOCKED, needsJoin := False, th_futexWord := 0\<rparr>"
    let ?s = "s\<lparr>threads := (threads s)(t \<mapsto> ?th), sleepQueue := ts\<rparr>"
    have step: "wake_sleepers (sleepQueue s) s = wake_sleepers (sleepQueue ?s) ?s"
      using t True ge fw by (simp add: q mod_th_def wakeup_def)
    have nt: "t \<notin> set ts" using queueD(3) [OF sched_invD(3) [OF i]] by (simp add: q)
    have i': "sched_inv F {} (?s\<lparr>curPhase := p, numPhases := p\<rparr>)" using awake_old [OF i t st] by (simp add: q)
    have wk: "wakeup_of ?s u = wakeup_of s u" for u using t by (simp add: wakeup_of_def)
    have "\<forall>u\<in>set (sleepQueue ?s). curPhase ?s \<le> wakeup_of ?s u" using Cons.prems(2) unfolding wk by (simp add: q)
    from Cons.hyps(1) [of ?s, OF _ i' this] obtain s' where s': "wake_sleepers (sleepQueue ?s) ?s = Some s'"
      "sched_inv F {} (s'\<lparr>curPhase := p, numPhases := p\<rparr>)" "\<forall>t\<in>set (sleepQueue s'). curPhase s < wakeup_of s' t" "curPhase s' = curPhase s"
      "numPhases s' = numPhases s" "schedQuantum s' = schedQuantum s" "phase_frame ?s s'" "targets s' = targets ?s" by auto
    have "targets ?s = targets s" by (rule targets_upd [OF t, of ?s ?th]) simp_all
    then have tg: "targets s' = targets s" using s'(8) by simp
    have "phase_frame s ?s" by (rule phase_frame_upd [OF t, of ?s ?th]) (use st in \<open>simp_all add: th_frame_def\<close>)
    then have "phase_frame s s'" using s'(7) by (rule phase_frame_trans)
    then show ?thesis using s' tg step by (intro exI [of _ s']) simp
  next
    case False
    have srt: "sorted (map (wakeup_of s) (t # ts))"
    proof -
      have "wakeup_of ?o = wakeup_of s" by (simp add: wakeup_of_def fun_eq_iff)
      then show ?thesis using queueD(7) [OF sched_invD(3) [OF i]] by (simp add: q)
    qed
    have "curPhase s < wakeup_of s u" if "u \<in> set (sleepQueue s)" for u
    proof -
      have "wakeupPhase th \<le> wakeup_of s u" using srt that t by (auto simp: q wakeup_of_def)
      then show ?thesis using False by simp
    qed
    moreover have "wake_sleepers (sleepQueue s) s = Some s" using t False by (simp add: q)
    ultimately show ?thesis using i by (intro exI [of _ s]) simp
  qed
qed

subsection \<open>The end of a quantum\<close>

lemma shuffle_vec_mset:
  assumes rand: "\<forall>r i. fst (rand r i) \<le> i"
  shows "i < length xs \<Longrightarrow> mset (fst (shuffle_vec rand i xs r)) = mset xs"
proof (induction i arbitrary: xs r)
  case (Suc i)
  obtain j r' where j: "rand r (Suc i) = (j, r')" by fastforce
  have "j \<le> Suc i" using rand [rule_format, of r "Suc i"] j by simp
  then have "mset (xs[Suc i := xs ! j, j := xs ! Suc i]) = mset xs" using Suc.prems by (intro mset_swap) auto
  then show ?case using Suc.IH [of "xs[Suc i := xs ! j, j := xs ! Suc i]" r'] Suc.prems j by simp
qed simp

definition no_handoff :: "'r Sched \<Rightarrow> nat \<Rightarrow> bool" where
  "no_handoff s c \<longleftrightarrow> (\<forall>v th. threads s v = Some th \<longrightarrow> cur s c = Some v \<longrightarrow> handoffThread th = None)"

lemma tick_loop_run:
  assumes "sched_inv {} {} s" "distinct ts" "set ts \<subseteq> set (runQueue s)" "distinct avail" "set avail \<subseteq> {..<numCores s}" "\<forall>c\<in>set avail. no_handoff s c"
  shows "\<exists>s'. tick_loop ts avail s = Some s' \<and> sched_inv {} {} s' \<and> phase_frame s s' \<and> curPhase s' = curPhase s"
  using assms
proof (induction ts arbitrary: avail s)
  case Nil
  then show ?case by simp
next
  case (Cons t ts)
  note i = Cons.prems(1)
  note C = ctxD [OF sched_invD(1) [OF i]]
  have tq: "t \<in> set (runQueue s)" using Cons.prems(3) by simp
  then obtain th where t: "threads s t = Some th" using queued_known [OF i, of t] by blast
  show ?case
  proof (cases "avail = []")
    case False
    show ?thesis
    proof (cases "List.find (\<lambda>c. th_mask th ! c) avail")
      case None
      have "\<exists>s'. tick_loop ts avail s = Some s' \<and> sched_inv {} {} s' \<and> phase_frame s s' \<and> curPhase s' = curPhase s"
        by (rule Cons.IH) (use Cons.prems in simp_all)
      then show ?thesis using False t None by simp
    next
      case (Some c)
      then have c: "c \<in> set avail" "th_mask th ! c" by (auto simp: find_Some_iff)
      have cn: "c < numCores s" using c(1) Cons.prems(5) by auto
      have "runs s c" using workD [OF sched_invD(5) [OF i] tq t cn c(2)] by simp
      then obtain v vh where v: "cur s c = Some v" "threads s v = Some vh" "th_state vh = RUNNING" by (auto simp: runs_def)
      have vc: "th_cid vh = c" using C(4) [of c v] v by auto
      have none: "handoffThread vh = None" using Cons.prems(6) c(1) v(1,2) by (simp add: no_handoff_def)
      have rd: "read_at (contexts s) c = Some \<lparr>ctx_state = USED, curThread = Some v\<rparr>" using C(1,3) cn v(1) by (simp add: read_at_def)
      let ?vh = "vh\<lparr>handoffThread := Some t\<rparr>"
      let ?s = "s\<lparr>threads := (threads s)(v \<mapsto> ?vh), runQueue := remove1 t (runQueue s)\<rparr>"
      have "th_mask th ! th_cid vh" using c(2) vc by simp
      then have i': "sched_inv {} {} ?s" by (rule handoff_set [OF i v(2,3) none tq t])
      have step: "tick_loop (t # ts) avail s = tick_loop ts (remove1 c avail) ?s"
        using False t Some v tq by (simp add: rd mod_th_def run_remove_def del: read_at_Some)
      have dq: "distinct (runQueue s)" by (rule queueD(1) [OF sched_invD(3) [OF i]])
      have hs: "\<forall>d\<in>set (remove1 c avail). no_handoff ?s d"
      proof
        fix d
        assume "d \<in> set (remove1 c avail)"
        then have d: "d \<in> set avail" "d \<noteq> c" using Cons.prems(4) by simp_all
        have cu: "cur ?s = cur s" by (rule cur_same) simp
        have "cur s d \<noteq> Some v" using C(4) [of d v] v vc d(2) by auto
        then show "no_handoff ?s d" using Cons.prems(6) d(1) unfolding no_handoff_def cu by auto
      qed
      have ex: "\<exists>s'. tick_loop ts (remove1 c avail) ?s = Some s' \<and> sched_inv {} {} s' \<and> phase_frame ?s s' \<and> curPhase s' = curPhase ?s"
        by (rule Cons.IH [OF i' _ _ _ _ hs]) (use Cons.prems dq in auto)
      have fr: "phase_frame s ?s" by (rule phase_frame_upd [OF v(2), of ?s ?vh]) (use v(3) in \<open>simp_all add: th_frame_def\<close>)
      show ?thesis using ex phase_frame_trans [OF fr] unfolding step by auto
    qed
  qed (use i in simp)
qed

lemma printable:
  assumes "ctx_inv F s"
  shows "state_printable s"
  unfolding state_printable_def list_all_length
proof (intro allI impI)
  fix c
  assume c: "c < length (contexts s)"
  note C = ctxD [OF assms]
  show "ctx_state (contexts s ! c) = IDLE \<or>
      (case Option.bind (curThread (contexts s ! c)) (threads s) of None \<Rightarrow> False | Some th \<Rightarrow> th_state th = RUNNING \<or> th_state th = OUT)"
  proof (cases "cur s c")
    case (Some t)
    then obtain th where "threads s t = Some th" "active th" using C(4) by blast
    then show ?thesis using C(1) C(3) [of c] c Some by (simp add: active_def)
  qed (use C(1) C(3) [of c] c in simp)
qed

lemma schedTick_run:
  assumes i: "sched_inv {} {} s" and rand: "\<forall>r i. fst (rand r i) \<le> i" and h: "\<forall>c<numCores s. no_handoff s c"
  shows "\<exists>s'. schedTick rand s = Some s' \<and> sched_inv {} {} s' \<and> phase_frame s s' \<and> curPhase s' = curPhase s"
proof -
  obtain avail r where sh: "shuffle_vec rand (numCores s - 1) [0..<numCores s] (sched_rnd s) = (avail, r)" by fastforce
  have "mset avail = mset [0..<numCores s]"
  proof (cases "numCores s")
    case (Suc n)
    then show ?thesis using shuffle_vec_mset [where rand = rand and i = "numCores s - 1" and xs = "[0..<numCores s]" and r = "sched_rnd s", OF rand] sh by simp
  qed (use sh in simp)
  then have av: "distinct avail" "set avail = {..<numCores s}" by (metis distinct_upt mset_eq_imp_distinct_iff, metis atLeast0LessThan set_mset_mset set_upt)
  let ?s = "s\<lparr>sched_rnd := r\<rparr>"
  have i': "sched_inv {} {} ?s" using i by (subst sched_inv_cong) simp_all
  have h': "\<forall>c\<in>set avail. no_handoff ?s c" using h av(2) by (simp add: no_handoff_def cur_def)
  have "\<exists>s'. tick_loop (runQueue s) avail ?s = Some s' \<and> sched_inv {} {} s' \<and> phase_frame ?s s' \<and> curPhase s' = curPhase ?s"
    by (rule tick_loop_run [OF i' _ _ av(1) _ h']) (use queueD(1) [OF sched_invD(3) [OF i]] av(2) in simp_all)
  moreover have "phase_frame s ?s" by (simp add: phase_frame_def option.rel_refl)
  ultimately obtain s' where "tick_loop (runQueue s) avail ?s = Some s'" "sched_inv {} {} s'" "phase_frame s s'" "curPhase s' = curPhase s"
    using phase_frame_trans by fastforce
  moreover from this have "state_printable s'" using printable sched_invD(1) by blast
  ultimately show ?thesis unfolding schedTick_def Let_def sh prod.case by (intro exI [of _ s']) simp
qed

subsection \<open>callback\<close>

lemma scheduled_le:
  assumes "ctx_inv F s"
  shows "scheduledThreads s \<le> of_nat (numCores s)"
proof -
  note C = ctxD [OF assms]
  have "card {c. cur s c \<noteq> None} \<le> card {..<numCores s}" by (rule card_mono) (auto simp: cur_def C(1) split: if_splits)
  then have "card {c. cur s c \<noteq> None} \<le> numCores s" by simp
  then show ?thesis using C(2,8) by (simp add: word_le_nat_alt unat_of_nat MAX_THREADS_def)
qed

lemma callback_run:
  assumes i: "sched_inv {} {} s" and rand: "\<forall>r i. fst (rand r i) \<le> i" and h: "\<forall>v th. threads s v = Some th \<longrightarrow> handoffThread th = None"
  shows "\<exists>s'. callback rand s = Some s' \<and> sched_inv {} {} s' \<and> phase_frame s s' \<and> curPhase s' = curPhase s + 1"
proof -
  note I = sched_invD [OF i]
  let ?s = "(log_core AT_SYNC s)\<lparr>numPhases := numPhases s + 1, globPhaseCycles := globPhaseCycles s + ucast (phaseLength s), curPhase := curPhase s + 1\<rparr>"
  have ph: "curPhase s = numPhases s" "schedQuantum s \<noteq> 0" using I(6) by (simp_all add: phase_inv_def)
  let ?old = "\<lambda>x. x\<lparr>curPhase := curPhase s, numPhases := curPhase s\<rparr>"
  have old: "sched_inv {} {} (?old ?s)" using i by (subst sched_inv_cong [of _ s]) (simp_all add: ph(1))
  have wk: "wakeup_of ?s = wakeup_of s" by (simp add: wakeup_of_def fun_eq_iff)
  have "\<forall>t\<in>set (sleepQueue ?s). curPhase ?s \<le> wakeup_of ?s t"
    unfolding wk using queueD(8) [OF I(3)] by (simp add: inc_le)
  from wake_sleepers_run [OF old this] obtain s1 where s1: "wake_sleepers (sleepQueue ?s) ?s = Some s1" "sched_inv {} {} (?old s1)"
    "\<forall>t\<in>set (sleepQueue s1). curPhase ?s < wakeup_of s1 t" "curPhase s1 = curPhase s + 1" "numPhases s1 = numPhases s + 1" "phase_frame ?s s1" "targets s1 = targets ?s"
    by auto
  have fr: "phase_frame s s1"
    by (rule phase_frame_trans [OF _ s1(6)]) (simp add: phase_frame_def option.rel_refl log_core_def)
  have i1: "sched_inv {} {} s1"
  proof -
    have v: "cur (?old s1) = cur s1" "in_state (?old s1) = in_state s1" "targets (?old s1) = targets s1" "wakeup_of (?old s1) = wakeup_of s1" "th_ok (?old s1) = th_ok s1"
      by (simp_all add: cur_def in_state_def targets_def wakeup_of_def th_ok_def fun_eq_iff)
    have rn: "runs (?old s1) = runs s1" by (simp add: runs_def v fun_eq_iff)
    show ?thesis using s1(2-5) ph unfolding sched_inv_def ctx_inv_def thr_inv_def queue_inv_def hand_inv_def work_inv_def phase_inv_def v rn by simp
  qed
  have start: "callback rand s = (if runQueue s1 = [] then Some s1
      else do {
        assert_that (schedQuantum s1 \<noteq> 0);
        (if curPhase s1 mod ucast (schedQuantum s1) = 0 then schedTick rand s1 else Some s1)
      })"
    using scheduled_le [OF I(1)] s1(1) by (simp add: callback_def ph(1) Let_def)
  have q: "schedQuantum s1 \<noteq> 0" using sched_invD(6) [OF i1] by (simp add: phase_inv_def)
  have nh: "\<forall>c<numCores s1. no_handoff s1 c"
  proof (intro allI impI)
    fix c
    have "targets s = {}" using h by (auto simp: targets_def)
    moreover have "targets ?s = targets s" by (simp add: targets_def)
    ultimately have none: "targets s1 = {}" using s1(7) by simp
    have "handoffThread th = None" if "threads s1 v = Some th" for v th
    proof (cases "handoffThread th")
      case (Some x)
      then have "x \<in> targets s1" using that unfolding targets_def by blast
      then show ?thesis using none by simp
    qed
    then show "no_handoff s1 c" by (simp add: no_handoff_def)
  qed
  show ?thesis
  proof (cases "runQueue s1 \<noteq> [] \<and> curPhase s1 mod ucast (schedQuantum s1) = 0")
    case True
    then have "callback rand s = schedTick rand s1" using start q by simp
    then show ?thesis using schedTick_run [OF i1 rand nh] phase_frame_trans [OF fr] s1(4) by auto
  next
    case False
    have "assert_that (schedQuantum s1 \<noteq> 0) = Some ()" using q by simp
    then have "callback rand s = Some s1" using start False by (cases "runQueue s1 = []") (simp_all only: if_True if_False Option.bind.simps simp_thms)
    then show ?thesis using i1 fr s1(4) by (intro exI [of _ s1]) simp
  qed
qed

end
