(* ===== verification/Sched_Joint.thy ===== *)
theory Sched_Joint imports Barrier_Contract Sched_Phase begin

text \<open>
  The scheduler and the barrier together: the barrier holds exactly the contexts whose thread runs. The set \<open>Y\<close>
  are the threads inside \<^verbatim>\<open>sync\<close>; it is not in the code, where a thread is there by its program counter.
\<close>

subsection \<open>The joint invariant\<close>

definition gid_ok :: "'r Sched \<Rightarrow> bool" where
  "gid_ok s \<longleftrightarrow> (\<forall>gid t. map_of (gidMap s) gid = Some t \<longrightarrow> (\<exists>th. threads s t = Some th \<and> th_gid th = gid))"

text \<open>A thread with nothing pending.\<close>

definition fresh :: "ThreadInfo \<Rightarrow> bool" where
  "fresh th \<longleftrightarrow> \<not> markedForSleep th \<and> fakeLeave th = None \<and> handoffThread th = None"

definition pending_ok :: "'r Barrier \<Rightarrow> u64 \<Rightarrow> nat set \<Rightarrow> nat \<Rightarrow> ThreadInfo \<Rightarrow> bool" where
  "pending_ok b ph Y v th \<longleftrightarrow> (handoffThread th \<noteq> None \<longrightarrow> v \<in> Y \<and> th_cid th \<notin> behind b) \<and>
     (markedForSleep th \<longrightarrow> v \<notin> Y \<and> ph < wakeupPhase th \<and> thS b (th_cid th) = BarState.RUNNING) \<and>
     (fakeLeave th \<noteq> None \<longrightarrow> v \<notin> Y \<and> thS b (th_cid th) = BarState.RUNNING)"

definition cids :: "(nat \<rightharpoonup> ThreadInfo) \<Rightarrow> nat set" where
  "cids R = {c. \<exists>v th. R v = Some th \<and> th_cid th = c}"

definition joint :: "('r \<Rightarrow> nat \<Rightarrow> nat \<times> 'r) \<Rightarrow> 'r Barrier \<Rightarrow> (nat \<rightharpoonup> ThreadInfo) \<Rightarrow> u64 \<Rightarrow> nat set \<Rightarrow> bool" where
  "joint rand b R ph Y \<longleftrightarrow> bar_ok rand b \<and> inb b = cids R \<and> (\<forall>c\<in>behind b. \<exists>v\<in>Y. \<exists>th. R v = Some th \<and> th_cid th = c) \<and> Y \<subseteq> dom R \<and>
     (\<forall>v th. R v = Some th \<longrightarrow> pending_ok b ph Y v th)"

definition one_each :: "(nat \<rightharpoonup> ThreadInfo) \<Rightarrow> bool" where
  "one_each R \<longleftrightarrow> (\<forall>v w th wh. R v = Some th \<longrightarrow> R w = Some wh \<longrightarrow> th_cid th = th_cid wh \<longrightarrow> v = w) \<and> (\<forall>v th. R v = Some th \<longrightarrow> th_cid th < MAX_THREADS)"

definition sys_inv :: "('r \<Rightarrow> nat \<Rightarrow> nat \<times> 'r) \<Rightarrow> 'r Barrier \<Rightarrow> 'r Sched \<Rightarrow> nat set \<Rightarrow> bool" where
  "sys_inv rand b s Y \<longleftrightarrow> sched_inv {} {} s \<and> gid_ok s \<and> joint rand b (rth s) (curPhase s) Y"

lemma sys_invD:
  assumes "sys_inv rand b s Y"
  shows "sched_inv {} {} s" "gid_ok s" "joint rand b (rth s) (curPhase s) Y"
  using assms by (simp_all add: sys_inv_def)

lemma jointD:
  assumes "joint rand b R ph Y"
  shows "bar_ok rand b" "inb b = cids R" "\<And>c. c \<in> behind b \<Longrightarrow> \<exists>v\<in>Y. \<exists>th. R v = Some th \<and> th_cid th = c" "Y \<subseteq> dom R"
    "\<And>v th. R v = Some th \<Longrightarrow> pending_ok b ph Y v th"
  using assms unfolding joint_def by blast+

lemma one_each_rth:
  assumes "ctx_inv F s"
  shows "one_each (rth s)"
  unfolding one_each_def
proof (intro conjI allI impI)
  note C = ctxD [OF assms]
  have cur: "cur s (th_cid th) = Some v" if "rth s v = Some th" for v th
    using C(4) [of "th_cid th" v] that by (auto simp: active_def)
  fix v th
  assume v: "rth s v = Some th"
  have "th_cid th < length (contexts s)" using cur [OF v] by (simp add: cur_def split: if_splits)
  then show "th_cid th < MAX_THREADS" using C(1,2) by simp
  fix w wh
  assume "rth s w = Some wh" "th_cid th = th_cid wh"
  then show "v = w" using cur [OF v] cur [of w wh] by simp
qed

lemma one_eachD:
  assumes "one_each R"
  shows "\<And>v w th wh. R v = Some th \<Longrightarrow> R w = Some wh \<Longrightarrow> th_cid th = th_cid wh \<Longrightarrow> v = w" "\<And>v th. R v = Some th \<Longrightarrow> th_cid th < MAX_THREADS"
  using assms unfolding one_each_def by blast+

lemma rand_ok: "bar_ok rand b \<Longrightarrow> \<forall>r i. fst (rand r i) \<le> i"
  by (simp add: bar_ok_def bar_pre_def)

lemma inside_inb: "bar.inside b = inb b"
  by (auto simp: bar.inside_def inb_def)

lemma behind_waits: "c \<in> behind b \<Longrightarrow> thS b c = BarState.WAITING"
  by (simp add: behind_def)

lemma fresh_pending: "fresh th \<Longrightarrow> pending_ok b ph Y v th"
  by (simp add: fresh_def pending_ok_def)

lemma cids_upd: "R u = None \<Longrightarrow> cids (R(u \<mapsto> uh)) = insert (th_cid uh) (cids R)"
  by (auto simp: cids_def split: if_splits) (metis option.distinct(1))

lemma cids_del:
  assumes "one_each R" "R t = Some th"
  shows "cids (R(t := None)) = cids R - {th_cid th}"
proof (intro set_eqI iffI)
  fix c
  assume "c \<in> cids (R(t := None))"
  then obtain v vh where v: "v \<noteq> t" "R v = Some vh" "th_cid vh = c" by (auto simp: cids_def split: if_splits)
  then show "c \<in> cids R - {th_cid th}" using one_eachD(1) [OF assms(1) v(2) assms(2)] by (auto simp: cids_def)
next
  fix c
  assume "c \<in> cids R - {th_cid th}"
  then obtain v vh where v: "R v = Some vh" "th_cid vh = c" "c \<noteq> th_cid th" by (auto simp: cids_def)
  then have "(R(t := None)) v = Some vh" using assms(2) by auto
  then show "c \<in> cids (R(t := None))" using v(2) unfolding cids_def by blast
qed

text \<open>A context that changes its thread.\<close>

lemma joint_swap:
  assumes j: "joint rand b R ph Y" and o: "one_each R" and t: "R t = Some th" "t \<notin> Y" "thS b (th_cid th) = BarState.RUNNING"
    and u: "u = t \<or> R u = None" "th_cid uh = th_cid th" "fresh uh"
  shows "joint rand b ((R(t := None))(u \<mapsto> uh)) ph Y"
proof -
  note J = jointD [OF j]
  let ?R = "(R(t := None))(u \<mapsto> uh)"
  have "cids ?R = insert (th_cid uh) (cids (R(t := None)))" using u(1) by (intro cids_upd) auto
  also have "\<dots> = cids R" using u(2) t(1) unfolding cids_del [OF o t(1)] by (auto simp: cids_def)
  finally have c: "cids ?R = cids R" .
  have uY: "u \<notin> Y" using u(1) t(2) J(4) by auto
  show ?thesis
    unfolding joint_def c
  proof (intro conjI allI impI ballI)
    fix d
    assume d: "d \<in> behind b"
    then obtain v vh where v: "v \<in> Y" "R v = Some vh" "th_cid vh = d" using J(3) by blast
    then have "?R v = Some vh" using t(2) uY by auto
    then show "\<exists>v\<in>Y. \<exists>th. ?R v = Some th \<and> th_cid th = d" using v by blast
  next
    show "Y \<subseteq> dom ?R" using J(4) t(2) by auto
    show "pending_ok b ph Y v vh" if "?R v = Some vh" for v vh
      using that J(5) [of v vh] fresh_pending [OF u(3)] by (auto split: if_splits)
  qed (use J(1,2) in simp_all)
qed

text \<open>A context that joins the barrier.\<close>

lemma joint_join:
  assumes j: "joint rand b (R(u := None)) ph Y" and R: "R u = Some uh" "one_each R" "fresh uh" "th_cid uh \<notin> cids (R(u := None))" and u: "u \<notin> Y"
  shows "\<exists>b'. bar_join rand cb (th_cid uh) (b, s) = Some (b', s) \<and> joint rand b' R ph Y"
proof -
  note J = jointD [OF j]
  let ?c = "th_cid uh"
  have c: "?c < MAX_THREADS" by (rule one_eachD(2) [OF R(2,1)])
  have "?c \<notin> bar.inside b" using R(4) J(2) by (simp add: inside_inb)
  from bar.join [where cb = cb and s = s, OF J(1) c this] obtain b' where b': "bar_join rand cb ?c (b, s) = Some (b', s)" "bar_ok rand b'"
    "behind b' \<subseteq> behind b" "inb b' = insert ?c (inb b)" "\<forall>u<MAX_THREADS. thS b u = BarState.RUNNING \<longrightarrow> thS b' u = BarState.RUNNING"
    by (auto simp: inside_inb)
  have "R = (R(u := None))(u \<mapsto> uh)" using R(1) by auto
  then have ci: "cids R = insert ?c (cids (R(u := None)))" using cids_upd [of "R(u := None)" u uh] by simp
  have "joint rand b' R ph Y"
    unfolding joint_def ci
  proof (intro conjI allI impI ballI)
    fix d
    assume "d \<in> behind b'"
    then obtain v vh where v: "v \<in> Y" "(R(u := None)) v = Some vh" "th_cid vh = d" using J(3) b'(3) by blast
    then have "R v = Some vh" by (auto split: if_splits)
    then show "\<exists>v\<in>Y. \<exists>th. R v = Some th \<and> th_cid th = d" using v by blast
  next
    show "Y \<subseteq> dom R" using J(4) R(1) by auto
    fix v vh
    assume v: "R v = Some vh"
    show "pending_ok b' ph Y v vh"
    proof (cases "v = u")
      case True
      then show ?thesis using v R(1,3) fresh_pending by simp
    next
      case False
      then have "pending_ok b ph Y v vh" using v J(5) [of v vh] by simp
      then show ?thesis using b'(3,5) one_eachD(2) [OF R(2) v] by (auto simp: pending_ok_def)
    qed
  qed (use b' J(2) in simp_all)
  then show ?thesis using b'(1) by blast
qed

lemma hand_only: "th' = th\<lparr>handoffThread := h\<rparr> \<Longrightarrow> markedForSleep th' = markedForSleep th \<and> fakeLeave th' = fakeLeave th \<and> th_cid th' = th_cid th"
  by simp

text \<open>The end of a phase, with every running thread inside \<^verbatim>\<open>sync\<close>.\<close>

lemma frame_rth:
  assumes f: "phase_frame s s'"
  shows "rth s' v = Some th' \<Longrightarrow> \<exists>th. rth s v = Some th \<and> th' = th\<lparr>handoffThread := handoffThread th'\<rparr>"
    "rth s v = Some th \<Longrightarrow> \<exists>th'. rth s' v = Some th' \<and> th' = th\<lparr>handoffThread := handoffThread th'\<rparr>"
proof -
  show "\<exists>th. rth s v = Some th \<and> th' = th\<lparr>handoffThread := handoffThread th'\<rparr>" if r: "rth s' v = Some th'"
  proof -
    obtain th where th: "threads s v = Some th" "th_frame th th'" using phase_frame_back [OF f] r by auto
    have "th_state th \<noteq> SLEEPING" using th(2) r by (auto simp: th_frame_def)
    then show ?thesis using th th_frame_state [OF th(2)] r by (simp add: th_frame_def)
  qed
  show "\<exists>th'. rth s' v = Some th' \<and> th' = th\<lparr>handoffThread := handoffThread th'\<rparr>" if r: "rth s v = Some th"
  proof -
    obtain th' where th: "threads s' v = Some th'" "th_frame th th'" using phase_frameD [OF f] r by auto
    then show ?thesis using th_frame_state [OF th(2)] r by (simp add: th_frame_def)
  qed
qed

lemma frame_cids:
  assumes "phase_frame s s'"
  shows "cids (rth s') = cids (rth s)" "dom (rth s') = dom (rth s)"
proof -
  show "cids (rth s') = cids (rth s)"
  proof (intro set_eqI iffI)
    fix c
    assume "c \<in> cids (rth s')"
    then obtain v vh where v: "rth s' v = Some vh" "th_cid vh = c" unfolding cids_def by blast
    obtain vo where vo: "rth s v = Some vo" "vh = vo\<lparr>handoffThread := handoffThread vh\<rparr>" using frame_rth(1) [OF assms v(1)] by blast
    then have "th_cid vo = c" using hand_only [OF vo(2)] v(2) by simp
    then show "c \<in> cids (rth s)" using vo(1) unfolding cids_def by blast
  next
    fix c
    assume "c \<in> cids (rth s)"
    then obtain v vh where v: "rth s v = Some vh" "th_cid vh = c" unfolding cids_def by blast
    obtain vo where vo: "rth s' v = Some vo" "vo = vh\<lparr>handoffThread := handoffThread vo\<rparr>" using frame_rth(2) [OF assms v(1)] by blast
    then have "th_cid vo = c" using hand_only [OF vo(2)] v(2) by simp
    then show "c \<in> cids (rth s')" using vo(1) unfolding cids_def by blast
  qed
  show "dom (rth s') = dom (rth s)" using frame_rth [OF assms] unfolding dom_def by (metis option.distinct(1) option.exhaust)
qed

lemma frame_gid:
  assumes "phase_frame s s'" "gid_ok s"
  shows "gid_ok s'"
  unfolding gid_ok_def
proof (intro allI impI)
  fix gid t
  assume "map_of (gidMap s') gid = Some t"
  then have "map_of (gidMap s) gid = Some t" using assms(1) by (simp add: phase_frame_def)
  then obtain th where th: "threads s t = Some th" "th_gid th = gid" using assms(2) by (auto simp: gid_ok_def)
  then show "\<exists>th. threads s' t = Some th \<and> th_gid th = gid" using phase_frameD [OF assms(1) th(1)] by (auto simp: th_frame_def)
qed

lemma phase_end_sys:
  assumes i: "sched_inv {} {} s" "gid_ok s" and b: "bar_ok rand b" "inb b = cids (rth s)" "behind b = {}"
    and Y: "Y = dom (rth s)" and f: "\<And>v th. rth s v = Some th \<Longrightarrow> fresh th"
  shows "\<exists>s'. callback rand s = Some s' \<and> sys_inv rand b s' Y \<and> phase_frame s s'"
proof -
  have "\<forall>v th. threads s v = Some th \<longrightarrow> handoffThread th = None"
  proof (intro allI impI)
    fix v th
    assume v: "threads s v = Some th"
    show "handoffThread th = None" using f [of v th] v quiet(3) [OF i(1) v] by (auto simp: fresh_def)
  qed
  from callback_run [OF i(1) rand_ok [OF b(1)] this] obtain s' where s': "callback rand s = Some s'" "sched_inv {} {} s'" "phase_frame s s'" by blast
  have "joint rand b (rth s') (curPhase s') Y"
    unfolding joint_def
  proof (intro conjI allI impI ballI)
    show "inb b = cids (rth s')" "Y \<subseteq> dom (rth s')" using b(2) Y frame_cids [OF s'(3)] by simp_all
    fix v th'
    assume v: "rth s' v = Some th'"
    obtain th where th: "rth s v = Some th" "th' = th\<lparr>handoffThread := handoffThread th'\<rparr>" using frame_rth(1) [OF s'(3) v] by blast
    have "\<not> markedForSleep th'" "fakeLeave th' = None"
      using f [OF th(1)] hand_only [OF th(2)] by (simp_all add: fresh_def)
    moreover have "v \<in> Y" using v Y frame_cids(2) [OF s'(3)] by blast
    ultimately show "pending_ok b (curPhase s') Y v th'" using b(3) by (simp add: pending_ok_def)
  qed (use b in simp_all)
  then show ?thesis using s' frame_gid [OF s'(3) i(2)] by (auto simp: sys_inv_def)
qed

subsection \<open>Leaving the barrier and waiting in it\<close>

lemma all_inside:
  assumes j: "joint rand b R ph Y" and o: "one_each R" and t: "R t = Some th" and a: "inb b - {th_cid th} \<subseteq> behind b" and v: "v \<noteq> t" "R v = Some vh"
  shows "v \<in> Y" "fresh vh"
proof -
  note J = jointD [OF j]
  have "th_cid vh \<noteq> th_cid th" using one_eachD(1) [OF o v(2) t] v(1) by blast
  moreover have "th_cid vh \<in> inb b" using J(2) v(2) by (auto simp: cids_def)
  ultimately have d: "th_cid vh \<in> behind b" using a by blast
  then obtain w wh where w: "w \<in> Y" "R w = Some wh" "th_cid wh = th_cid vh" using J(3) by blast
  then show "v \<in> Y" using one_eachD(1) [OF o w(2) v(2)] by simp
  then show "fresh vh" using J(5) [OF v(2)] d by (auto simp: pending_ok_def fresh_def)
qed

lemma fresh_callback:
  assumes "sched_inv {} {} s" "\<forall>r i. fst (rand r i) \<le> i" "\<And>v th. rth s v = Some th \<Longrightarrow> fresh th"
  shows "callback rand s \<noteq> None"
proof -
  have "\<forall>v th. threads s v = Some th \<longrightarrow> handoffThread th = None"
  proof (intro allI impI)
    fix v th
    assume v: "threads s v = Some th"
    show "handoffThread th = None" using assms(3) [of v th] v quiet(3) [OF assms(1) v] by (auto simp: fresh_def)
  qed
  from callback_run [OF assms(1,2) this] show ?thesis by auto
qed

lemma leave_sys:
  assumes i: "sched_inv {} {} s" "gid_ok s" and j: "joint rand b R (curPhase s) Y" and o: "one_each R" and R: "rth s = R(t := None)"
    and t: "R t = Some th" "t \<notin> Y" "thS b (th_cid th) = BarState.RUNNING"
  shows "\<exists>b' s'. bar_leave rand (callback rand) (th_cid th) (b, s) = Some (b', s') \<and> sys_inv rand b' s' Y \<and> phase_frame s s'"
proof -
  note J = jointD [OF j]
  let ?c = "th_cid th"
  have c: "?c < MAX_THREADS" by (rule one_eachD(2) [OF o t(1)])
  have all: "v \<in> Y \<and> fresh vh" if "inb b - {?c} \<subseteq> behind b" "rth s v = Some vh" for v vh
  proof -
    have v: "v \<noteq> t" "R v = Some vh" using that(2) R by (auto split: if_splits)
    show ?thesis using all_inside [OF j o t(1) that(1) v] by simp
  qed
  have cb: "callback rand s \<noteq> None" if "bar.inside b - {?c} \<subseteq> behind b"
    using fresh_callback [OF i(1) rand_ok [OF J(1)]] all that by (auto simp: inside_inb)
  have ci: "cids (rth s) = cids R - {?c}" unfolding R by (rule cids_del [OF o t(1)])
  from bar.leave [where cb = "callback rand" and s = s, OF J(1) c t(3) cb] obtain b' s' where
    b': "bar_leave rand (callback rand) ?c (b, s) = Some (b', s')" "bar_ok rand b'" "inb b' = inb b - {?c}"
    "\<forall>u<MAX_THREADS. u \<noteq> ?c \<longrightarrow> thS b u = BarState.RUNNING \<longrightarrow> thS b' u = BarState.RUNNING"
    "s' = s \<and> behind b' \<subseteq> behind b \<or> callback rand s = Some s' \<and> behind b' = {} \<and> inb b - {?c} \<subseteq> behind b"
    by (auto simp: inside_inb)
  have inb': "inb b' = cids (rth s)" using b'(3) J(2) ci by simp
  from b'(5) show ?thesis
  proof (elim disjE conjE)
    assume s': "s' = s" "behind b' \<subseteq> behind b"
    have "joint rand b' (rth s) (curPhase s) Y"
      unfolding joint_def
    proof (intro conjI allI impI ballI)
      fix d
      assume "d \<in> behind b'"
      then obtain v vh where v: "v \<in> Y" "R v = Some vh" "th_cid vh = d" using J(3) s'(2) by blast
      then have "rth s v = Some vh" using t(2) unfolding R by auto
      then show "\<exists>v\<in>Y. \<exists>th. rth s v = Some th \<and> th_cid th = d" using v by blast
    next
      show "Y \<subseteq> dom (rth s)" using J(4) t(2) unfolding R by auto
      fix v vh
      assume "rth s v = Some vh"
      then have v: "v \<noteq> t" "R v = Some vh" using R by (auto split: if_splits)
      have "th_cid vh \<noteq> ?c" using one_eachD(1) [OF o v(2) t(1)] v(1) by blast
      then show "pending_ok b' (curPhase s) Y v vh"
        using J(5) [OF v(2)] s'(2) b'(4) one_eachD(2) [OF o v(2)] by (auto simp: pending_ok_def)
    qed (use b'(2) inb' in simp_all)
    then have "sys_inv rand b' s Y" using i by (simp add: sys_inv_def)
    then show ?thesis using b'(1) s'(1) by (intro exI [of _ b'] exI [of _ s]) simp
  next
    assume s': "callback rand s = Some s'" "behind b' = {}" "inb b - {?c} \<subseteq> behind b"
    have "Y = dom (rth s)"
    proof
      show "Y \<subseteq> dom (rth s)" using J(4) t(2) unfolding R by auto
      show "dom (rth s) \<subseteq> Y" using all [OF s'(3)] by auto
    qed
    from phase_end_sys [OF i b'(2) inb' s'(2) this] all [OF s'(3)] obtain s2 where "callback rand s = Some s2" "sys_inv rand b' s2 Y" "phase_frame s s2"
      by auto
    then show ?thesis using b'(1) s'(1) by (intro exI [of _ b'] exI [of _ s']) simp
  qed
qed

lemma sync_sys:
  assumes y: "sys_inv rand b s Y" and t: "rth s t = Some th" "t \<notin> Y" "thS b (th_cid th) = BarState.RUNNING" "fresh th"
  shows "\<exists>b' s'. bar_sync rand (callback rand) (th_cid th) (b, s) = Some (b', s') \<and> sys_inv rand b' s' (insert t Y) \<and> phase_frame s s'"
proof -
  note i = sys_invD [OF y]
  note J = jointD [OF i(3)]
  let ?c = "th_cid th"
  have o: "one_each (rth s)" by (rule one_each_rth [OF sched_invD(1) [OF i(1)]])
  have c: "?c < MAX_THREADS" by (rule one_eachD(2) [OF o t(1)])
  have all: "v \<in> insert t Y \<and> fresh vh" if "inb b - {?c} \<subseteq> behind b" "rth s v = Some vh" for v vh
    using all_inside [OF i(3) o t(1) that(1) _ that(2)] that(2) t(1,4) by (cases "v = t") auto
  have cb: "callback rand s \<noteq> None" if "bar.inside b - {?c} \<subseteq> behind b"
    using fresh_callback [OF i(1) rand_ok [OF J(1)]] all that by (auto simp: inside_inb)
  from bar.sync [where cb = "callback rand" and s = s, OF J(1) c t(3) cb] obtain b' s' where
    b': "bar_sync rand (callback rand) ?c (b, s) = Some (b', s')" "bar_ok rand b'" "inb b' = inb b"
    "\<forall>u<MAX_THREADS. u \<noteq> ?c \<longrightarrow> thS b u = BarState.RUNNING \<longrightarrow> thS b' u = BarState.RUNNING"
    "s' = s \<and> behind b' \<subseteq> insert ?c (behind b) \<or> callback rand s = Some s' \<and> behind b' = {} \<and> inb b - {?c} \<subseteq> behind b"
    by (auto simp: inside_inb)
  have inb': "inb b' = cids (rth s)" using b'(3) J(2) by simp
  have tY: "insert t Y \<subseteq> dom (rth s)" using J(4) t(1) by auto
  from b'(5) show ?thesis
  proof (elim disjE conjE)
    assume s': "s' = s" "behind b' \<subseteq> insert ?c (behind b)"
    have "joint rand b' (rth s) (curPhase s) (insert t Y)"
      unfolding joint_def
    proof (intro conjI allI impI ballI)
      show "\<exists>v\<in>insert t Y. \<exists>th. rth s v = Some th \<and> th_cid th = d" if "d \<in> behind b'" for d
        using that s'(2) J(3) [of d] t(1) by blast
      fix v vh
      assume v: "rth s v = Some vh"
      show "pending_ok b' (curPhase s) (insert t Y) v vh"
      proof (cases "v = t")
        case True
        then show ?thesis using v t(1,4) fresh_pending by simp
      next
        case False
        then have "th_cid vh \<noteq> ?c" using one_eachD(1) [OF o v t(1)] by blast
        then show ?thesis using False J(5) [OF v] s'(2) b'(4) one_eachD(2) [OF o v] by (auto simp: pending_ok_def)
      qed
    qed (use b'(2) inb' tY in simp_all)
    then have "sys_inv rand b' s (insert t Y)" using i by (simp add: sys_inv_def)
    then show ?thesis using b'(1) s'(1) by (intro exI [of _ b'] exI [of _ s]) simp
  next
    assume s': "callback rand s = Some s'" "behind b' = {}" "inb b - {?c} \<subseteq> behind b"
    have "insert t Y = dom (rth s)" using tY all [OF s'(3)] by blast
    from phase_end_sys [OF i(1,2) b'(2) inb' s'(2) this] all [OF s'(3)] obtain s2 where
      "callback rand s = Some s2" "sys_inv rand b' s2 (insert t Y)" "phase_frame s s2" by auto
    then show ?thesis using b'(1) s'(1) by (intro exI [of _ b'] exI [of _ s']) simp
  qed
qed

lemma rth_log [simp]: "rth (log_core e s) = rth s"
  by (rule rth_same) simp

lemma gid_ok_log [simp]: "gid_ok (log_core e s) = gid_ok s"
  by (simp add: gid_ok_def)

lemma enter_sys:
  assumes i: "sched_inv {} {} s" "gid_ok s" and j: "joint rand b R (curPhase s) Y" and u: "rth s = R(u \<mapsto> uh)" "R u = None" "fresh uh" "th_cid uh \<notin> cids R"
  shows "\<exists>b' s'. enter_barrier rand (th_cid uh) (b, s) = Some (b', s') \<and> sys_inv rand b' s' Y"
proof -
  have R: "R = (rth s)(u := None)" using u(1,2) by (auto simp: fun_eq_iff)
  have ru: "rth s u = Some uh" using u(1) by simp
  have uY: "u \<notin> Y" using jointD(4) [OF j] u(2) by auto
  have o: "one_each (rth s)" by (rule one_each_rth [OF sched_invD(1) [OF i(1)]])
  let ?s = "log_core (CORE_JOIN (th_cid uh)) s"
  from joint_join [where cb = "callback rand" and s = ?s, OF j [unfolded R] ru o u(3) u(4) [unfolded R] uY]
  obtain b' where "bar_join rand (callback rand) (th_cid uh) (b, ?s) = Some (b', ?s)" "joint rand b' (rth s) (curPhase s) Y" by blast
  then show ?thesis using i by (intro exI [of _ b'] exI [of _ ?s]) (simp add: enter_barrier_def sys_inv_def)
qed

end
