(* ===== verification/Sched_Ops.thy ===== *)
theory Sched_Ops imports Sched_Joint begin

text \<open>
  Each operation of the scheduler on a state that satisfies the joint invariant: it returns, and the invariant
  holds again.
\<close>

subsection \<open>Names of threads\<close>

lemma gid_ok_alt: "gid_ok s \<longleftrightarrow> (\<forall>gid t. map_of (gidMap s) gid = Some t \<longrightarrow> map_option th_gid (threads s t) = Some gid)"
  by (simp add: gid_ok_def)

lemma same_ids_gid: "same_ids s s' \<Longrightarrow> gid_ok s' = gid_ok s"
  unfolding gid_ok_alt by (simp only: same_ids_def)

lemma frame_ids: "phase_frame s s' \<Longrightarrow> same_ids s s'"
  unfolding same_ids_def
proof (intro conjI allI)
  assume f: "phase_frame s s'"
  show "gidMap s' = gidMap s" using f by (simp add: phase_frame_def)
  fix v
  have "rel_option th_frame (threads s v) (threads s' v)" using f by (simp add: phase_frame_def)
  then show "map_option th_gid (threads s' v) = map_option th_gid (threads s v)"
    by (cases "threads s v"; cases "threads s' v") (simp_all add: th_frame_def)
qed

text \<open>No thread gets a fake leave.\<close>

definition fake_from :: "'r Sched \<Rightarrow> 'r Sched \<Rightarrow> bool" where
  "fake_from s s' \<longleftrightarrow> (\<forall>v vh si. threads s' v = Some vh \<longrightarrow> fakeLeave vh = Some si \<longrightarrow> (\<exists>vo. threads s v = Some vo \<and> fakeLeave vo = Some si))"

lemma fake_from_trans: "fake_from s s' \<Longrightarrow> fake_from s' s'' \<Longrightarrow> fake_from s s''"
  unfolding fake_from_def by metis

lemma fake_from_upd: "threads s' = (threads s)(t \<mapsto> th') \<Longrightarrow> fakeLeave th' = None \<Longrightarrow> fake_from s s'"
  by (auto simp: fake_from_def)

lemma frame_fake:
  assumes f: "phase_frame s s'" and i: "sched_inv F U s'"
  shows "fake_from s s'"
  unfolding fake_from_def
proof (intro allI impI)
  fix v vh si
  assume v: "threads s' v = Some vh" "fakeLeave vh = Some si"
  then have "th_state vh = RUNNING" using thread_ok(1) [OF i v(1)] by (simp add: th_ok_def)
  then have "rth s' v = Some vh" using v by simp
  then obtain vo where vo: "rth s v = Some vo" "vh = vo\<lparr>handoffThread := handoffThread vh\<rparr>" using frame_rth(1) [OF f] by blast
  then show "\<exists>vo. threads s v = Some vo \<and> fakeLeave vo = Some si" using hand_only [OF vo(2)] v(2) by auto
qed

subsection \<open>A thread that gets a context\<close>

lemma wakeup_run:
  assumes i: "sched_inv F U s" and t: "threads s t = Some th" "th_futexWord th = 1" "th_state th = RUNNING" "\<not> markedForSleep th"
  shows "wakeup t j s = Some (s\<lparr>threads := (threads s)(t \<mapsto> th\<lparr>needsJoin := j, th_futexWord := 0\<rparr>)\<rparr>)"
    "sched_inv F U (s\<lparr>threads := (threads s)(t \<mapsto> th\<lparr>needsJoin := j, th_futexWord := 0\<rparr>)\<rparr>)"
proof -
  show "wakeup t j s = Some (s\<lparr>threads := (threads s)(t \<mapsto> th\<lparr>needsJoin := j, th_futexWord := 0\<rparr>)\<rparr>)"
    using t(1,2) by (simp add: wakeup_def mod_th_def)
  show "sched_inv F U (s\<lparr>threads := (threads s)(t \<mapsto> th\<lparr>needsJoin := j, th_futexWord := 0\<rparr>)\<rparr>)"
    by (rule set_thread_step [OF i t(1)]) (use thread_ok(1) [OF i t(1)] t(3,4) in \<open>simp_all add: th_ok_def active_def\<close>)
qed

definition given :: "nat \<Rightarrow> nat \<Rightarrow> ThreadInfo \<Rightarrow> 'r Sched \<Rightarrow> 'r Sched \<Rightarrow> bool" where
  "given t c th s s' \<longleftrightarrow> threads s' = (threads s)(t \<mapsto> th) \<and> th_state th = RUNNING \<and> th_cid th = c \<and> fresh th \<and> curPhase s' = curPhase s \<and>
     same_ids s s' \<and> runQueue s' = runQueue s \<and> numCores s' = numCores s"

lemma given_rth: "given t c th s s' \<Longrightarrow> rth s' = (rth s)(t \<mapsto> th)"
  unfolding given_def using rth_upd by metis

lemma schedule_given:
  assumes i: "sched_inv F U s" and c: "c \<in> F" and t: "threads s t = Some th" and st: "th_state th = STARTED \<or> th_state th = BLOCKED \<or> th_state th = QUEUED"
    and q: "th_state th = QUEUED \<Longrightarrow> t \<in> U" and m: "th_mask th ! c"
  shows "schedule t c s = Some (sched_st t c th s)" "sched_inv (F - {c}) (U - {t}) (sched_st t c th s)"
    "given t c (th\<lparr>th_state := RUNNING, th_cid := c\<rparr>) s (sched_st t c th s)"
proof -
  have "fresh (th\<lparr>th_state := RUNNING, th_cid := c\<rparr>)" using quiet [OF i t] st by (auto simp: fresh_def)
  then show "given t c (th\<lparr>th_state := RUNNING, th_cid := c\<rparr>) s (sched_st t c th s)"
    using same_ids_upd [OF t, of "sched_st t c th s" "th\<lparr>th_state := RUNNING, th_cid := c\<rparr>"] by (simp add: given_def)
qed (rule schedule_run [OF assms]; assumption)+

lemma sched_wakeup_run:
  assumes i: "sched_inv F U s" and c: "c \<in> F" and t: "threads s t = Some th" "th_state th = QUEUED" "t \<in> U" "th_futexWord th = 1" "th_mask th ! c"
    and log: "\<And>x. threads (l x) = threads x" "\<And>x. sched_inv F' U' (l x) = sched_inv F' U' x" "\<And>x. gidMap (l x) = gidMap x" "\<And>x. curPhase (l x) = curPhase x"
      "\<And>x. runQueue (l x) = runQueue x" "\<And>x. numCores (l x) = numCores x"
    and F': "F' = F - {c}" "U' = U - {t}"
  shows "\<exists>s1 s' th'. schedule t c s = Some s1 \<and> wakeup t False (l s1) = Some s' \<and> sched_inv F' U' s' \<and> given t c th' s s'"
proof -
  have st: "th_state th = STARTED \<or> th_state th = BLOCKED \<or> th_state th = QUEUED" using t(2) by simp
  note r = schedule_given [OF i c t(1) st t(3) t(5)]
  let ?s = "l (sched_st t c th s)" and ?th = "th\<lparr>th_state := RUNNING, th_cid := c\<rparr>"
  have i1: "sched_inv F' U' ?s" unfolding log(2) using r(2) by (simp add: F')
  have t1: "threads ?s t = Some ?th" by (simp add: log(1))
  have th: "th_futexWord ?th = 1" "th_state ?th = RUNNING" "\<not> markedForSleep ?th" using t quiet(1) [OF i t(1)] by simp_all
  note w = wakeup_run [OF i1 t1 th, of False]
  let ?s' = "?s\<lparr>threads := (threads ?s)(t \<mapsto> ?th\<lparr>needsJoin := False, th_futexWord := 0\<rparr>)\<rparr>"
  have "given t c (?th\<lparr>needsJoin := False, th_futexWord := 0\<rparr>) s ?s'"
    using r(3) same_ids_upd [OF t(1), of ?s' "?th\<lparr>needsJoin := False, th_futexWord := 0\<rparr>"]
    by (simp add: given_def log fresh_def)
  then show ?thesis using r(1) w by blast
qed

lemma give_run:
  assumes "sched_inv F U s" "c \<in> F" "threads s t = Some th" "th_state th = QUEUED" "t \<in> U" "th_futexWord th = 1" "th_mask th ! c"
  shows "\<exists>s' th'. give_context t c s = Some s' \<and> sched_inv (F - {c}) (U - {t}) s' \<and> given t c th' s s'"
proof -
  have "\<exists>s1 s' th'. schedule t c s = Some s1 \<and> wakeup t False (log_core (CORE_JOIN c) s1) = Some s' \<and> sched_inv (F - {c}) (U - {t}) s' \<and> given t c th' s s'"
    by (rule sched_wakeup_run [OF assms]) simp_all
  then show ?thesis by (auto simp: give_context_def)
qed

subsection \<open>leave\<close>

text \<open>What \<^verbatim>\<open>leave\<close> does to the thread that calls it.\<close>

definition left_thread :: "nat \<Rightarrow> ThreadInfo \<Rightarrow> 'r Sched \<Rightarrow> bool" where
  "left_thread t th s \<longleftrightarrow> (\<exists>th'. threads s t = Some th' \<and> th_gid th' = th_gid th \<and>
     (if markedForSleep th then th_state th' = SLEEPING \<or> th_state th' = BLOCKED else th_state th' = OUT \<or> th_state th' = BLOCKED))"

lemma left_frame:
  assumes "left_thread t th s" "phase_frame s s'"
  shows "left_thread t th s'"
proof -
  obtain th' where t: "threads s t = Some th'" "th_gid th' = th_gid th"
    "if markedForSleep th then th_state th' = SLEEPING \<or> th_state th' = BLOCKED else th_state th' = OUT \<or> th_state th' = BLOCKED"
    using assms(1) unfolding left_thread_def by blast
  obtain th2 where t2: "threads s' t = Some th2" "th_frame th' th2" using phase_frameD [OF assms(2) t(1)] by blast
  have g: "th_gid th2 = th_gid th" using t2(2) t(2) by (simp add: th_frame_def)
  show ?thesis
  proof (cases "th_state th' = SLEEPING")
    case True
    then have "th_state th2 = SLEEPING \<or> th_state th2 = BLOCKED" using t2(2) by (simp add: th_frame_def)
    then show ?thesis using t(3) True t2(1) g by (auto simp: left_thread_def split: if_splits)
  next
    case False
    then have "th_state th2 = th_state th'" by (rule th_frame_state [OF t2(2)])
    then show ?thesis using t(3) t2(1) g by (auto simp: left_thread_def split: if_splits)
  qed
qed

lemma cur_of:
  assumes "ctx_inv F s" "threads s t = Some th" "active th" "th_cid th = c"
  shows "read_at (contexts s) c = Some \<lparr>ctx_state = USED, curThread = Some t\<rparr>" "c < numCores s" "cur s c = Some t"
proof -
  note C = ctxD [OF assms(1)]
  show cc: "cur s c = Some t" using C(4) [of c t] assms(2-4) by auto
  then show cn: "c < numCores s" using C(1) by (simp add: cur_def split: if_splits)
  show "read_at (contexts s) c = Some \<lparr>ctx_state = USED, curThread = Some t\<rparr>" using C(1,3) cn cc by (simp add: read_at_def)
qed

text \<open>The end of \<^verbatim>\<open>leave\<close> with a thread that takes over the context.\<close>

lemma hand_over:
  assumes j: "joint rand b (rth s) (curPhase s) Y" and o: "one_each (rth s)" and t: "rth s t = Some th" "t \<notin> Y" "thS b (th_cid th) = BarState.RUNNING"
    and i: "sched_inv {th_cid th} {u} s1" "gid_ok s1" and s1: "rth s1 = (rth s)(t := None)" "curPhase s1 = curPhase s"
    and u: "threads s1 u = Some uh" "th_state uh = QUEUED" "th_futexWord uh = 1" "th_mask uh ! th_cid th"
  shows "\<exists>s'. give_context u (th_cid th) s1 = Some s' \<and> sys_inv rand b s' Y \<and> same_ids s1 s' \<and> (\<forall>v\<noteq>u. threads s' v = threads s1 v) \<and> fake_from s1 s'"
proof -
  have "\<exists>s' th'. give_context u (th_cid th) s1 = Some s' \<and> sched_inv ({th_cid th} - {th_cid th}) ({u} - {u}) s' \<and> given u (th_cid th) th' s1 s'"
    by (rule give_run [OF i(1) _ u(1,2) _ u(3,4)]) simp_all
  then obtain s' th' where s': "give_context u (th_cid th) s1 = Some s'" "sched_inv {} {} s'" "given u (th_cid th) th' s1 s'" by auto
  have g: "threads s' = (threads s1)(u \<mapsto> th')" "th_cid th' = th_cid th" "fresh th'" "curPhase s' = curPhase s1" "same_ids s1 s'"
    using s'(3) by (simp_all add: given_def)
  have ru: "rth s1 u = None" using u(1,2) by (simp add: rth_def)
  then have "u = t \<or> rth s u = None" unfolding s1(1) by (simp split: if_splits)
  from joint_swap [OF j o t this g(2,3)] have "joint rand b (rth s') (curPhase s') Y"
    using given_rth [OF s'(3)] s1 g(4) by simp
  then have "sys_inv rand b s' Y" using s'(2) i(2) same_ids_gid [OF g(5)] by (simp add: sys_inv_def)
  moreover have "fake_from s1 s'" using fake_from_upd [OF g(1)] g(3) by (simp add: fresh_def)
  ultimately show ?thesis using s'(1) g(1,5) by (intro exI [of _ s']) simp
qed

lemma leave_op:
  assumes y: "sys_inv rand b s Y" and t: "threads s t = Some th" "th_state th = RUNNING" "fakeLeave th = None" "th_gid th = getGid pid tid" "th_cid th = c"
    and tY: "t \<notin> Y" and r: "thS b c = BarState.RUNNING"
  shows "\<exists>b' s'. sched_leave rand pid tid c (b, s) = Some (b', s') \<and> sys_inv rand b' s' Y \<and> same_ids s s' \<and> left_thread t th s' \<and> fake_from s s'"
proof -
  note i = sys_invD [OF y]
  note I = sched_invD [OF i(1)]
  note J = jointD [OF i(3)]
  have o: "one_each (rth s)" by (rule one_each_rth [OF I(1)])
  have act: "active th" using t(2) by (simp add: active_def)
  note rd = cur_of [OF I(1) t(1) act t(5)]
  have rt: "rth s t = Some th" using t by simp
  have pend: "handoffThread th = None" "markedForSleep th \<Longrightarrow> curPhase s < wakeupPhase th"
    using J(5) [OF rt] tY by (auto simp: pending_ok_def)
  have fw: "markedForSleep th \<Longrightarrow> th_futexWord th = 1" using thread_ok(1) [OF i(1) t(1)] by (simp add: th_ok_def)
  let ?s = "log_core (CORE_LEAVE c) s"
  have i0: "sched_inv {} {} ?s" using i(1) by simp
  have t0: "threads ?s t = Some th" using t(1) by simp
  show ?thesis
  proof (cases "markedForSleep th")
    case True
    let ?th1 = "th\<lparr>markedForSleep := False\<rparr>"
    let ?s1 = "?s\<lparr>threads := (threads ?s)(t \<mapsto> ?th1)\<rparr>"
    have i1: "sched_inv {} {} ?s1" by (rule set_thread_step [OF i0 t0]) (use thread_ok(1) [OF i0 t0] t(2) in \<open>simp_all add: th_ok_def active_def\<close>)
    have t1: "threads ?s1 t = Some ?th1" "active ?th1" using act by (simp_all add: active_def)
    let ?s2 = "desched_st t c SLEEPING ?th1 ?s1" and ?th2 = "th\<lparr>markedForSleep := False, th_state := SLEEPING\<rparr>"
    have d: "deschedule t c SLEEPING ?s1 = Some ?s2" "sched_inv {c} {t} ?s2"
      using deschedule_run [OF i1 t1, of SLEEPING c "{t}"] t pend by simp_all
    have t2: "threads ?s2 t = Some ?th2" by simp
    let ?s3 = "?s2\<lparr>sleepQueue := insert_by (wakeup_of ?s2) t (sleepQueue ?s2)\<rparr>"
    have si: "sleep_insert t ?s2 = Some ?s3" "sched_inv {c} {} ?s3"
      using sleep_insert_step [OF d(2) t2] True fw pend(2) by simp_all
    have th3: "threads ?s3 = (threads s)(t \<mapsto> ?th2)" by simp
    have rth3: "rth ?s3 = (rth s)(t := None)" unfolding rth_upd [OF th3] by simp
    have id3: "same_ids s ?s3" by (rule same_ids_upd [OF t(1) th3]) simp_all
    have run: "sched_leave rand pid tid c (b, s) = do {
         (r, s) \<leftarrow> schedContext c ?s3;
         (case r of Some inTh \<Rightarrow> do { s \<leftarrow> give_context inTh c s; Some (b, s) }
          | None \<Rightarrow> do { s \<leftarrow> free_push c s; bar_leave rand (callback rand) c (b, s) }) }"
      using t True d(1) si(1) by (simp add: sched_leave_def rd(1) mod_th_def Let_def del: read_at_Some)
    have left3: "left_thread t th ?s3" unfolding left_thread_def th3 using True by simp
    from schedContext_run [OF si(2), of c] show ?thesis
    proof (elim disjE exE conjE)
      assume n: "schedContext c ?s3 = Some (None, ?s3)" "\<forall>t\<in>set (runQueue ?s3). \<forall>th. threads ?s3 t = Some th \<longrightarrow> \<not> th_mask th ! c"
      let ?s4 = "?s3\<lparr>freeList := freeList ?s3 @ [c]\<rparr>"
      have f: "free_push c ?s3 = Some ?s4" "sched_inv {} {} ?s4"
        using free_push_run [OF si(2), of c] n(2) by simp_all
      have th4: "threads ?s4 = threads ?s3" by simp
      have id4: "same_ids s ?s4" using id3 by (simp add: same_ids_def)
      have r4: "rth ?s4 = (rth s)(t := None)" using rth3 rth_same [OF th4] by simp
      have j4: "joint rand b (rth s) (curPhase ?s4) Y" using i(3) by simp
      have g4: "gid_ok ?s4" using same_ids_gid [OF id4] i(2) by simp
      from leave_sys [OF f(2) g4 j4 o r4 rt tY] r t(5) obtain b' s' where
        s': "bar_leave rand (callback rand) c (b, ?s4) = Some (b', s')" "sys_inv rand b' s' Y" "phase_frame ?s4 s'" by auto
      have "left_thread t th ?s4" using left3 by (simp add: left_thread_def)
      then have "left_thread t th s'" using left_frame s'(3) by blast
      moreover have "fake_from s ?s4" by (rule fake_from_upd [of _ _ t ?th2]) (use t(3) in simp_all)
      then have "fake_from s s'" using frame_fake [OF s'(3) sys_invD(1) [OF s'(2)]] by (rule fake_from_trans)
      ultimately show ?thesis using s' n(1) f(1) run same_ids_trans [OF id4 frame_ids [OF s'(3)]] by simp
    next
      fix u uh
      let ?s4 = "?s3\<lparr>runQueue := remove1 u (runQueue ?s3)\<rparr>"
      assume u: "schedContext c ?s3 = Some (Some u, ?s4)" "u \<in> set (runQueue ?s3)" "threads ?s3 u = Some uh" "th_mask uh ! c" "th_state uh = QUEUED"
        "th_futexWord uh = 1" "sched_inv {c} (insert u {}) ?s4"
      have ut: "u \<noteq> t" using u(3,5) t2 by auto
      have th4: "threads ?s4 = threads ?s3" by simp
      have id4: "same_ids s ?s4" using id3 by (simp add: same_ids_def)
      have r4: "rth ?s4 = (rth s)(t := None)" using rth3 rth_same [OF th4] by simp
      have g4: "gid_ok ?s4" using same_ids_gid [OF id4] i(2) by simp
      have "\<exists>s'. give_context u (th_cid th) ?s4 = Some s' \<and> sys_inv rand b s' Y \<and> same_ids ?s4 s' \<and> (\<forall>v\<noteq>u. threads s' v = threads ?s4 v) \<and> fake_from ?s4 s'"
        by (rule hand_over [OF i(3) o rt tY _ _ g4 r4]) (use u r t(5) in simp_all)
      then obtain s' where s': "give_context u c ?s4 = Some s'" "sys_inv rand b s' Y" "same_ids ?s4 s'" "\<forall>v\<noteq>u. threads s' v = threads ?s4 v" "fake_from ?s4 s'"
        using t(5) by auto
      have "fake_from s ?s4" by (rule fake_from_upd [of _ _ t ?th2]) (use t(3) in simp_all)
      then have "fake_from s s'" using s'(5) by (rule fake_from_trans)
      moreover have "left_thread t th s'" using left3 s'(4) ut by (simp add: left_thread_def)
      ultimately show ?thesis using s' u(1) run same_ids_trans [OF id4 s'(3)] by simp
    qed
  next
    case False
    have run: "sched_leave rand pid tid c (b, s) = do {
         (r, s) \<leftarrow> schedContext c ?s;
         (case r of Some inTh \<Rightarrow> do { s \<leftarrow> deschedule t c BLOCKED s; s \<leftarrow> give_context inTh c s; Some (b, s) }
          | None \<Rightarrow> do { s \<leftarrow> mod_th t (\<lambda>th. th\<lparr>th_state := OUT\<rparr>) s; s \<leftarrow> out_push t s; bar_leave rand (callback rand) c (b, s) }) }"
      using t False by (simp add: sched_leave_def rd(1) Let_def del: read_at_Some)
    from schedContext_run [OF i0, of c] show ?thesis
    proof (elim disjE exE conjE)
      assume n: "schedContext c ?s = Some (None, ?s)" "\<forall>t\<in>set (runQueue ?s). \<forall>th. threads ?s t = Some th \<longrightarrow> \<not> th_mask th ! c"
      let ?th1 = "th\<lparr>th_state := OUT\<rparr>"
      let ?m = "?s\<lparr>threads := (threads ?s)(t \<mapsto> ?th1)\<rparr>"
      let ?s1 = "?s\<lparr>threads := (threads ?s)(t \<mapsto> ?th1), outQueue := outQueue ?s @ [t]\<rparr>"
      have go: "unqueued t ?s" "sched_inv {} {} ?s1" using go_out_step [OF i0 t0 t(2) False t(3) pend(1)] n(2) t(5) by simp_all
      have m: "mod_th t (\<lambda>th. th\<lparr>th_state := OUT\<rparr>) ?s = Some ?m" using t0 by (simp add: mod_th_def)
      have p: "out_push t ?m = Some ?s1" using go(1) by (simp add: out_push_def unqueued_def)
      have th1: "threads ?s1 = (threads s)(t \<mapsto> ?th1)" by simp
      have r1: "rth ?s1 = (rth s)(t := None)" unfolding rth_upd [OF th1] by simp
      have id1: "same_ids s ?s1" by (rule same_ids_upd [OF t(1) th1]) simp_all
      have g1: "gid_ok ?s1" using same_ids_gid [OF id1] i(2) by simp
      have j1: "joint rand b (rth s) (curPhase ?s1) Y" using i(3) by simp
      from leave_sys [OF go(2) g1 j1 o r1 rt tY] r t(5) obtain b' s' where
        s': "bar_leave rand (callback rand) c (b, ?s1) = Some (b', s')" "sys_inv rand b' s' Y" "phase_frame ?s1 s'" by auto
      have "left_thread t th ?s1" using False by (simp add: left_thread_def)
      then have l: "left_thread t th s'" using left_frame s'(3) by blast
      have "fake_from s ?s1" by (rule fake_from_upd [OF th1]) (use t(3) in simp)
      then have fk: "fake_from s s'" using frame_fake [OF s'(3) sys_invD(1) [OF s'(2)]] by (rule fake_from_trans)
      have "sched_leave rand pid tid c (b, s) = Some (b', s')" unfolding run n(1) using m p s'(1) by simp
      then show ?thesis using l fk s'(2) same_ids_trans [OF id1 frame_ids [OF s'(3)]] by blast
    next
      fix u uh
      let ?s1 = "?s\<lparr>runQueue := remove1 u (runQueue ?s)\<rparr>"
      assume u: "schedContext c ?s = Some (Some u, ?s1)" "u \<in> set (runQueue ?s)" "threads ?s u = Some uh" "th_mask uh ! c" "th_state uh = QUEUED"
        "th_futexWord uh = 1" "sched_inv {} (insert u {}) ?s1"
      have ut: "u \<noteq> t" using u(3,5) t by auto
      have t1: "threads ?s1 t = Some th" using t(1) by simp
      let ?s2 = "desched_st t c BLOCKED th ?s1"
      have d: "deschedule t c BLOCKED ?s1 = Some ?s2" "sched_inv {c} {u} ?s2"
        using deschedule_run [OF u(7) t1 act, of BLOCKED c "{u}"] t(2,3,5) False pend(1) ut by simp_all
      have th2: "threads ?s2 = (threads s)(t \<mapsto> th\<lparr>th_state := BLOCKED\<rparr>)" by simp
      have r2: "rth ?s2 = (rth s)(t := None)" unfolding rth_upd [OF th2] by simp
      have id2: "same_ids s ?s2" by (rule same_ids_upd [OF t(1) th2]) simp_all
      have g2: "gid_ok ?s2" using same_ids_gid [OF id2] i(2) by simp
      have "\<exists>s'. give_context u (th_cid th) ?s2 = Some s' \<and> sys_inv rand b s' Y \<and> same_ids ?s2 s' \<and> (\<forall>v\<noteq>u. threads s' v = threads ?s2 v) \<and> fake_from ?s2 s'"
        by (rule hand_over [OF i(3) o rt tY _ _ g2 r2]) (use u r t(5) d(2) ut in simp_all)
      then obtain s' where s': "give_context u c ?s2 = Some s'" "sys_inv rand b s' Y" "same_ids ?s2 s'" "\<forall>v\<noteq>u. threads s' v = threads ?s2 v" "fake_from ?s2 s'"
        using t(5) by auto
      have "fake_from s ?s2" by (rule fake_from_upd [OF th2]) (use t(3) in simp)
      then have fk: "fake_from s s'" using s'(5) by (rule fake_from_trans)
      have l: "left_thread t th s'" using False s'(4) ut by (simp add: left_thread_def)
      have "sched_leave rand pid tid c (b, s) = Some (b, s')" unfolding run u(1) using d(1) s'(1) by simp
      then show ?thesis using l fk s'(2) same_ids_trans [OF id2 s'(3)] by blast
    qed
  qed
qed

subsection \<open>sync\<close>

lemma sync_op:
  assumes y: "sys_inv rand b s Y" and t: "threads s t = Some th" "th_state th = RUNNING" "fakeLeave th = None" "\<not> markedForSleep th" "th_cid th = c"
    and tY: "t \<notin> Y" and r: "thS b c = BarState.RUNNING"
  shows "\<exists>b' s'. sched_sync rand c (b, s) = Some (b', s') \<and> sys_inv rand b' s' (insert t Y) \<and> phase_frame s s'"
proof -
  note i = sys_invD [OF y]
  note I = sched_invD [OF i(1)]
  have act: "active th" using t(2) by (simp add: active_def)
  note rd = cur_of [OF I(1) t(1) act t(5)]
  have rt: "rth s t = Some th" using t by simp
  have "handoffThread th = None" using jointD(5) [OF i(3) rt] tY by (auto simp: pending_ok_def)
  then have "fresh th" using t by (simp add: fresh_def)
  moreover have "thS b (th_cid th) = BarState.RUNNING" using r t(5) by simp
  ultimately have "\<exists>b' s'. bar_sync rand (callback rand) c (b, s) = Some (b', s') \<and> sys_inv rand b' s' (insert t Y) \<and> phase_frame s s'"
    using sync_sys [OF y rt tY] t(5) by simp
  then show ?thesis using t by (simp add: sched_sync_def rd(1) del: read_at_Some)
qed

text \<open>A thread that the barrier lets go on.\<close>

lemma joint_flag:
  assumes j: "joint rand b R ph Y" and t: "R t = Some th" "th_cid th' = th_cid th" "pending_ok b ph Y t th'"
  shows "joint rand b (R(t \<mapsto> th')) ph Y"
proof -
  note J = jointD [OF j]
  have c: "cids (R(t \<mapsto> th')) = cids R"
  proof (intro set_eqI iffI)
    fix c
    assume "c \<in> cids (R(t \<mapsto> th'))"
    then obtain v vh where "(R(t \<mapsto> th')) v = Some vh" "th_cid vh = c" unfolding cids_def by blast
    then show "c \<in> cids R" using t by (cases "v = t") (auto simp: cids_def)
  next
    fix c
    assume "c \<in> cids R"
    then obtain v vh where v: "R v = Some vh" "th_cid vh = c" unfolding cids_def by blast
    have "\<exists>wh. (R(t \<mapsto> th')) v = Some wh \<and> th_cid wh = c" using v t by (cases "v = t") auto
    then show "c \<in> cids (R(t \<mapsto> th'))" unfolding cids_def by blast
  qed
  show ?thesis
    unfolding joint_def c
  proof (intro conjI allI impI ballI)
    fix d
    assume "d \<in> behind b"
    then obtain v vh where v: "v \<in> Y" "R v = Some vh" "th_cid vh = d" using J(3) by blast
    have "\<exists>wh. (R(t \<mapsto> th')) v = Some wh \<and> th_cid wh = d" using v(2,3) t by (cases "v = t") auto
    then show "\<exists>v\<in>Y. \<exists>th. (R(t \<mapsto> th')) v = Some th \<and> th_cid th = d" using v(1) by blast
  next
    show "Y \<subseteq> dom (R(t \<mapsto> th'))" using J(4) by auto
    show "pending_ok b ph Y v vh" if "(R(t \<mapsto> th')) v = Some vh" for v vh
      using that J(5) [of v vh] t(3) by (cases "v = t") simp_all
  qed (use J(1,2) in simp_all)
qed

lemma joint_unsync:
  assumes j: "joint rand b R ph Y" and t: "R t = Some th" "thS b (th_cid th) = BarState.RUNNING" "handoffThread th = None"
  shows "joint rand b R ph (Y - {t})"
proof -
  note J = jointD [OF j]
  show ?thesis
    unfolding joint_def
  proof (intro conjI allI impI ballI)
    fix d
    assume d: "d \<in> behind b"
    then obtain v vh where v: "v \<in> Y" "R v = Some vh" "th_cid vh = d" using J(3) by blast
    have "v \<noteq> t" using v t(1,2) behind_waits [OF d] by auto
    then show "\<exists>v\<in>Y - {t}. \<exists>th. R v = Some th \<and> th_cid th = d" using v by blast
  next
    show "Y - {t} \<subseteq> dom R" using J(4) by auto
    show "pending_ok b ph (Y - {t}) v vh" if "R v = Some vh" for v vh
      using that J(5) [OF that] t(1,3) by (cases "v = t") (auto simp: pending_ok_def)
  qed (use J(1,2) in simp_all)
qed

text \<open>A thread without a context that asks for one: it gets one and joins the barrier, or it queues up.\<close>

lemma sched_new_context:
  assumes i: "sched_inv {} U s" "gid_ok s" and j: "joint rand b (rth s) (curPhase s) Y" and t: "threads s t = Some th"
    and st: "th_state th = BLOCKED \<or> th_state th = STARTED \<or> th_state th = QUEUED \<and> t \<in> U" and U: "U \<subseteq> {t}"
  shows "(\<exists>c s' b2 s2. schedThread t s = Some (Some c, s') \<and> schedule t c s' = Some (sched_st t c th s') \<and>
      enter_barrier rand c (b, sched_st t c th s') = Some (b2, s2) \<and> sys_inv rand b2 s2 Y) \<or>
    (schedThread t s = Some (None, s) \<and> unqueued t s \<and>
      sys_inv rand b (s\<lparr>threads := (threads s)(t \<mapsto> th\<lparr>th_state := QUEUED, th_futexWord := 1\<rparr>), runQueue := runQueue s @ [t]\<rparr>) Y)"
proof -
  have st': "th_state th = BLOCKED \<or> th_state th = STARTED \<or> th_state th = QUEUED" using st by blast
  have nr: "rth s t = None" using t st' by (auto simp: rth_def)
  from schedThread_run [OF i(1) t st' U] show ?thesis
  proof (elim disjE exE conjE)
    assume n: "schedThread t s = Some (None, s)" "\<forall>c<numCores s. th_mask th ! c \<longrightarrow> runs s c"
    let ?s = "s\<lparr>threads := (threads s)(t \<mapsto> th\<lparr>th_state := QUEUED, th_futexWord := 1\<rparr>), runQueue := runQueue s @ [t]\<rparr>"
    have e: "unqueued t s" "sched_inv {} (U - {t}) ?s" using enqueue_step [OF i(1) t st] n(2) by simp_all
    have th': "threads ?s = (threads s)(t \<mapsto> th\<lparr>th_state := QUEUED, th_futexWord := 1\<rparr>)" by simp
    have rq: "rth ?s = rth s" unfolding rth_upd [OF th'] using nr by auto
    have "same_ids s ?s" by (rule same_ids_upd [OF t th']) simp_all
    then have "gid_ok ?s" using same_ids_gid i(2) by blast
    moreover have "sched_inv {} {} ?s" using e(2) Diff_eq_empty_iff [THEN iffD2, OF U] by (simp only:)
    moreover have "joint rand b (rth ?s) (curPhase ?s) Y" unfolding rq using j by simp
    ultimately have "sys_inv rand b ?s Y" by (simp add: sys_inv_def)
    then show ?thesis using n(1) e(1) by blast
  next
    fix c s'
    assume f: "schedThread t s = Some (Some c, s')" "sched_inv {c} U s'" "threads s' t = Some th" "th_mask th ! c" "c < numCores s" "\<not> runs s c"
      "rth s' = rth s" "curPhase s' = curPhase s" "numCores s' = numCores s" "same_ids s s'"
    have q: "th_state th = QUEUED \<Longrightarrow> t \<in> U" using st by auto
    have st2: "th_state th = STARTED \<or> th_state th = BLOCKED \<or> th_state th = QUEUED" using st' by blast
    have g: "schedule t c s' = Some (sched_st t c th s')" "sched_inv ({c} - {c}) (U - {t}) (sched_st t c th s')"
      "given t c (th\<lparr>th_state := RUNNING, th_cid := c\<rparr>) s' (sched_st t c th s')"
      by (rule schedule_given [OF f(2) _ f(3) st2 q f(4)]; simp)+
    let ?s = "sched_st t c th s'" and ?th = "th\<lparr>th_state := RUNNING, th_cid := c\<rparr>"
    have i2: "sched_inv {} {} ?s" using g(2) unfolding Diff_eq_empty_iff [THEN iffD2, OF U] by simp
    have gv: "fresh ?th" "same_ids s' ?s" using g(3) by (simp_all add: given_def)
    have g2: "gid_ok ?s" using same_ids_gid [OF f(10)] same_ids_gid [OF gv(2)] i(2) by simp
    have r2: "rth ?s = (rth s)(t \<mapsto> ?th)" using given_rth [OF g(3)] f(7) by simp
    have nc: "th_cid ?th \<notin> cids (rth s)" using f(6) runs_rth [OF sched_invD(1) [OF i(1)], of c] by (auto simp: cids_def)
    have j2: "joint rand b (rth s) (curPhase ?s) Y" using j f(8) by simp
    from enter_sys [OF i2 g2 j2 r2 nr gv(1) nc] show ?thesis using f(1) g(1) by fastforce
  qed
qed

lemma sync_end_op:
  assumes y: "sys_inv rand b s Y" and t: "threads s t = Some th" "th_cid th = c" "t \<in> Y" and r: "thS b c = BarState.RUNNING"
  shows "\<exists>b' s'. sched_sync_end rand t (b, s) = Some (b', s') \<and> sys_inv rand b' s' (Y - {t})"
proof -
  note i = sys_invD [OF y]
  note I = sched_invD [OF i(1)]
  note J = jointD [OF i(3)]
  have o: "one_each (rth s)" by (rule one_each_rth [OF I(1)])
  have rt: "rth s t = Some th" using J(4) t(1,3) by (auto simp: rth_def split: option.splits if_splits)
  then have run: "th_state th = RUNNING" by simp
  have act: "active th" using run by (simp add: active_def)
  have flags: "\<not> markedForSleep th" "fakeLeave th = None" using J(5) [OF rt] t(3) by (auto simp: pending_ok_def)
  show ?thesis
  proof (cases "handoffThread th")
    case None
    have "thS b (th_cid th) = BarState.RUNNING" using r t(2) by simp
    from joint_unsync [OF i(3) rt this None] have "sys_inv rand b s (Y - {t})" using i by (simp add: sys_inv_def)
    then show ?thesis using t run None by (simp add: sched_sync_end_def)
  next
    case (Some d)
    obtain dh where d: "threads s d = Some dh" "th_state dh = QUEUED" "th_mask dh ! c" using handD(1) [OF I(4) t(1) Some] t(2) by auto
    have dfw: "th_futexWord dh = 1" using thread_ok(2) [OF i(1) d(1)] d(2) by simp
    have dt: "d \<noteq> t" using d run t(1) by auto
    let ?th1 = "th\<lparr>handoffThread := None\<rparr>"
    let ?s1 = "s\<lparr>threads := (threads s)(t \<mapsto> ?th1)\<rparr>"
    have i1: "sched_inv {} {d} ?s1" using handoff_clear [OF i(1) t(1) Some] by simp
    have t1: "threads ?s1 t = Some ?th1" "active ?th1" using act by (simp_all add: active_def)
    have j1: "joint rand b ((rth s)(t \<mapsto> ?th1)) (curPhase s) (Y - {t})"
      by (rule joint_unsync [where t = t and th = ?th1, OF joint_flag [where th' = ?th1, OF i(3) rt]]) (use flags r t(2) in \<open>simp_all add: pending_ok_def\<close>)
    let ?s2 = "desched_st t c QUEUED ?th1 ?s1" and ?th2 = "th\<lparr>handoffThread := None, th_state := QUEUED\<rparr>"
    have ds: "deschedule t c QUEUED ?s1 = Some ?s2" "sched_inv {c} {t, d} ?s2"
      using deschedule_run [OF i1 t1, of QUEUED c "{t, d}"] flags t(2) run by simp_all
    have d2: "threads ?s2 d = Some dh" using d(1) dt by simp
    have ex: "\<exists>s3 s4 th'. schedule d c ?s2 = Some s3 \<and> wakeup d False s3 = Some s4 \<and> sched_inv {} {t} s4 \<and> given d c th' ?s2 s4"
      by (rule sched_wakeup_run [where l = "\<lambda>x. x", OF ds(2) _ d2 d(2) _ dfw d(3)]) (use dt in auto)
    then obtain s3 s4 dh' where s4: "schedule d c ?s2 = Some s3" "wakeup d False s3 = Some s4" "sched_inv {} {t} s4" "given d c dh' ?s2 s4" by blast
    have g: "threads s4 = (threads ?s2)(d \<mapsto> dh')" "th_cid dh' = c" "fresh dh'" "curPhase s4 = curPhase s" "same_ids ?s2 s4"
      using s4(4) by (simp_all add: given_def)
    have th2: "threads ?s2 = (threads s)(t \<mapsto> ?th2)" by simp
    have r2: "rth ?s2 = (rth s)(t := None)" unfolding rth_upd [OF th2] by simp
    have id: "same_ids s s4" by (rule same_ids_trans [OF same_ids_upd [OF t(1) th2] g(5)]) simp_all
    have g4: "gid_ok s4" using same_ids_gid [OF id] i(2) by simp
    have j4: "joint rand b (rth s4) (curPhase s4) (Y - {t})"
    proof -
      have o1: "one_each ((rth s)(t \<mapsto> ?th1))"
      proof -
        have "rth ?s1 = (rth s)(t \<mapsto> ?th1)" using rth_upd [of ?s1 s t ?th1] run by simp
        then show ?thesis using one_each_rth [OF sched_invD(1) [OF i1]] by simp
      qed
      have ru: "d = t \<or> ((rth s)(t \<mapsto> ?th1)) d = None" using d dt by (simp add: rth_def)
      have "joint rand b ((((rth s)(t \<mapsto> ?th1))(t := None))(d \<mapsto> dh')) (curPhase s) (Y - {t})"
        by (rule joint_swap [where t = t and th = ?th1, OF j1 o1 _ _ _ ru _ g(3)]) (use g(2) t(2) r in simp_all)
      then show ?thesis using given_rth [OF s4(4)] r2 g(4) by simp
    qed
    have t4: "threads s4 t = Some ?th2" using g(1) dt by simp
    have start: "sched_sync_end rand t (b, s) = do {
        (r, s) \<leftarrow> schedThread t s4;
        (case r of
           Some c \<Rightarrow> do { s \<leftarrow> schedule t c s; enter_barrier rand c (b, s) }
         | None \<Rightarrow> do { s \<leftarrow> run_push t s; s \<leftarrow> wait_start t s; Some (b, s) }) }"
      using t(1,2) Some ds(1) s4(1,2) by (simp add: sched_sync_end_def mod_th_def)
    have q4: "th_state ?th2 = BLOCKED \<or> th_state ?th2 = STARTED \<or> th_state ?th2 = QUEUED \<and> t \<in> {t}" by simp
    from sched_new_context [OF s4(3) g4 j4 t4 q4 order_refl] show ?thesis
    proof (elim disjE exE conjE)
      fix c' s' b2 s2
      assume "schedThread t s4 = Some (Some c', s')" "schedule t c' s' = Some (sched_st t c' ?th2 s')"
        "enter_barrier rand c' (b, sched_st t c' ?th2 s') = Some (b2, s2)" "sys_inv rand b2 s2 (Y - {t})"
      then show ?thesis unfolding start by simp
    next
      let ?f = "s4\<lparr>threads := (threads s4)(t \<mapsto> ?th2\<lparr>th_state := QUEUED, th_futexWord := 1\<rparr>), runQueue := runQueue s4 @ [t]\<rparr>"
      assume n: "schedThread t s4 = Some (None, s4)" "unqueued t s4" "sys_inv rand b ?f (Y - {t})"
      have "do { s \<leftarrow> run_push t s4; s \<leftarrow> wait_start t s; Some (b, s) } = Some (b, ?f)"
        using n(2) t4 by (auto simp: run_push_def wait_start_def mod_th_def intro!: Sched.equality)
      then show ?thesis using n(1,3) unfolding start by simp
    qed
  qed
qed

subsection \<open>Flags and counters\<close>

lemma sys_inv_cong:
  assumes "threads s' = threads s" "contexts s' = contexts s" "numCores s' = numCores s" "freeList s' = freeList s" "runQueue s' = runQueue s"
    "outQueue s' = outQueue s" "sleepQueue s' = sleepQueue s" "curPhase s' = curPhase s" "numPhases s' = numPhases s"
    "scheduledThreads s' = scheduledThreads s" "fakeLeaves s' = fakeLeaves s" "nextThread s' = nextThread s" "schedQuantum s' = schedQuantum s"
    "gidMap s' = gidMap s"
  shows "sys_inv rand b s' Y = sys_inv rand b s Y"
  using sched_inv_cong [OF assms(1-13), of "{}" "{}"] rth_same [OF assms(1)] assms(1,8,14) by (simp add: sys_inv_def gid_ok_def)

lemma sys_counters [simp]:
  "sys_inv rand b (s\<lparr>maxAllowedFutexWakeups := x\<rparr>) Y = sys_inv rand b s Y"
  "sys_inv rand b (s\<lparr>unmatchedFutexWakeups := x\<rparr>) Y = sys_inv rand b s Y"
  "sys_inv rand b (s\<lparr>blockingSyscalls := l\<rparr>) Y = sys_inv rand b s Y"
  "sys_inv rand b (s\<lparr>pendingPidCleanups := q\<rparr>) Y = sys_inv rand b s Y"
  by (rule sys_inv_cong; simp)+

lemma sys_flag:
  assumes y: "sys_inv rand b s Y" and t: "threads s t = Some th"
    and keep: "th_gid th' = th_gid th" "th_state th' = th_state th" "th_cid th' = th_cid th" "th_mask th' = th_mask th" "handoffThread th' = handoffThread th"
    and ok: "th_ok s t th'" and fw: "th_state th = QUEUED \<or> th_state th = SLEEPING \<Longrightarrow> th_futexWord th' = 1"
    and wk: "wakeupPhase th' = wakeupPhase th \<or> th_state th \<noteq> SLEEPING"
    and fl: "distinct fl" "set fl = (if fakeLeave th' = None then set (fakeLeaves s) - {t} else insert t (set (fakeLeaves s)))"
    and p: "th_state th = RUNNING \<Longrightarrow> pending_ok b (curPhase s) Y t th'"
  shows "sys_inv rand b (s\<lparr>threads := (threads s)(t \<mapsto> th'), fakeLeaves := fl\<rparr>) Y"
proof -
  note i = sys_invD [OF y]
  let ?s = "s\<lparr>threads := (threads s)(t \<mapsto> th'), fakeLeaves := fl\<rparr>"
  have "sched_inv {} {} ?s" by (rule flag_step [OF i(1) t keep(2-5) ok fw wk fl])
  moreover have th': "threads ?s = (threads s)(t \<mapsto> th')" by simp
  moreover have "gid_ok ?s" using same_ids_gid [OF same_ids_upd [OF t th' _ keep(1)]] i(2) by simp
  moreover have "joint rand b (rth ?s) (curPhase s) Y"
  proof (cases "th_state th = RUNNING")
    case True
    then have rt: "rth s t = Some th" using t by simp
    have "rth ?s = (rth s)(t \<mapsto> th')" unfolding rth_upd [OF th'] using True keep(2) by simp
    then show ?thesis using joint_flag [OF i(3) rt keep(3) p [OF True]] by simp
  next
    case False
    then have "rth s t = None" using t by (simp add: rth_def)
    then have "rth ?s = rth s" unfolding rth_upd [OF th'] using False keep(2) by auto
    then show ?thesis using i(3) by simp
  qed
  ultimately show ?thesis by (simp add: sys_inv_def)
qed

text \<open>A change of the fields no invariant reads.\<close>

lemma sys_mod:
  assumes y: "sys_inv rand b s Y" and t: "threads s t = Some th"
    and keep: "th_gid th' = th_gid th" "th_state th' = th_state th" "th_cid th' = th_cid th" "th_mask th' = th_mask th" "handoffThread th' = handoffThread th"
      "th_futexWord th' = th_futexWord th" "markedForSleep th' = markedForSleep th" "wakeupPhase th' = wakeupPhase th" "fakeLeave th' = fakeLeave th"
  shows "sys_inv rand b (s\<lparr>threads := (threads s)(t \<mapsto> th')\<rparr>) Y"
proof -
  note i = sys_invD [OF y]
  have "sys_inv rand b (s\<lparr>threads := (threads s)(t \<mapsto> th'), fakeLeaves := fakeLeaves s\<rparr>) Y"
  proof (rule sys_flag [OF y t keep(1-5)])
    show "th_ok s t th'" using thread_ok(1) [OF i(1) t] keep by (simp add: th_ok_def active_def)
    show "th_state th = QUEUED \<or> th_state th = SLEEPING \<Longrightarrow> th_futexWord th' = 1" using thread_ok(2) [OF i(1) t] keep(6) by simp
    show "distinct (fakeLeaves s)" by (rule thrD(3) [OF sched_invD(2) [OF i(1)]])
    show "set (fakeLeaves s) = (if fakeLeave th' = None then set (fakeLeaves s) - {t} else insert t (set (fakeLeaves s)))"
      using thread_ok(3) [OF i(1) t] keep(9) by auto
    show "th_state th = RUNNING \<Longrightarrow> pending_ok b (curPhase s) Y t th'"
      using jointD(5) [OF i(3), of t th] t keep by (simp add: pending_ok_def)
  qed (simp add: keep)
  then show ?thesis by simp
qed

lemma finishFakeLeave_op:
  assumes y: "sys_inv rand b s Y" and t: "threads s t = Some th" "fakeLeave th \<noteq> None"
  shows "finishFakeLeave t s = Some (s\<lparr>threads := (threads s)(t \<mapsto> th\<lparr>fakeLeave := None\<rparr>), fakeLeaves := remove1 t (fakeLeaves s)\<rparr>)"
    "sys_inv rand b (s\<lparr>threads := (threads s)(t \<mapsto> th\<lparr>fakeLeave := None\<rparr>), fakeLeaves := remove1 t (fakeLeaves s)\<rparr>) Y"
    "th_state th = RUNNING" "t \<notin> Y" "thS b (th_cid th) = BarState.RUNNING"
proof -
  note i = sys_invD [OF y]
  have ok: "th_ok s t th" and q: "t \<in> set (fakeLeaves s)" using thread_ok(1,3) [OF i(1) t(1)] t(2) by simp_all
  show run: "th_state th = RUNNING" using ok t(2) by (simp add: th_ok_def)
  have p: "pending_ok b (curPhase s) Y t th" using jointD(5) [OF i(3), of t th] t(1) run by simp
  show "t \<notin> Y" "thS b (th_cid th) = BarState.RUNNING" using p t(2) by (simp_all add: pending_ok_def)
  show "finishFakeLeave t s = Some (s\<lparr>threads := (threads s)(t \<mapsto> th\<lparr>fakeLeave := None\<rparr>), fakeLeaves := remove1 t (fakeLeaves s)\<rparr>)"
    using t run q by (auto simp: finishFakeLeave_def mod_th_def intro!: Sched.equality)
  show "sys_inv rand b (s\<lparr>threads := (threads s)(t \<mapsto> th\<lparr>fakeLeave := None\<rparr>), fakeLeaves := remove1 t (fakeLeaves s)\<rparr>) Y"
    by (rule sys_flag [OF y t(1)])
      (use ok p run thrD(3) [OF sched_invD(2) [OF i(1)]] in \<open>simp_all add: th_ok_def active_def pending_ok_def\<close>)
qed

lemma syscallLeave_op:
  assumes y: "sys_inv rand b s Y" and t: "threads s t = Some th" "th_state th = RUNNING" "fakeLeave th = None" "th_gid th = getGid pid tid" "th_cid th = c"
    and tY: "t \<notin> Y" and r: "thS b c = BarState.RUNNING" and pid: "unat pid < length (blockingSyscalls s)"
  shows "\<exists>b' s'. syscallLeave rand pid tid c si (b, s) = Some (b', s') \<and> sys_inv rand b' s' Y"
proof -
  note i = sys_invD [OF y]
  have act: "active th" using t(2) by (simp add: active_def)
  note rd = cur_of [OF sched_invD(1) [OF i(1)] t(1) act t(5)]
  have run: "syscallLeave rand pid tid c si (b, s) = (if fl_pc si \<in> blockingSyscalls s ! unat pid \<or> markedForSleep th then sched_leave rand pid tid c (b, s)
      else Some (b, s\<lparr>threads := (threads s)(t \<mapsto> th\<lparr>fakeLeave := Some si\<rparr>), fakeLeaves := fakeLeaves s @ [t]\<rparr>))"
    using t pid by (simp add: syscallLeave_def rd(1) read_at_in mod_th_def del: read_at_Some)
  show ?thesis
  proof (cases "fl_pc si \<in> blockingSyscalls s ! unat pid \<or> markedForSleep th")
    case True
    then show ?thesis using leave_op [OF y t tY r] run by auto
  next
    case False
    have p: "pending_ok b (curPhase s) Y t th" using jointD(5) [OF i(3), of t th] t(1,2) by simp
    have "sys_inv rand b (s\<lparr>threads := (threads s)(t \<mapsto> th\<lparr>fakeLeave := Some si\<rparr>), fakeLeaves := fakeLeaves s @ [t]\<rparr>) Y"
      by (rule sys_flag [OF y t(1)])
        (use thread_ok(1,3) [OF i(1) t(1)] p t tY r thrD(3) [OF sched_invD(2) [OF i(1)]] in \<open>auto simp: th_ok_def active_def pending_ok_def\<close>)
    then show ?thesis using False run by simp
  qed
qed

lemma markForSleep_op:
  assumes y: "sys_inv rand b s Y" and t: "threads s t = Some th" "th_state th = RUNNING" "\<not> markedForSleep th"
    and n: "map_of (gidMap s) (getGid pid tid) = Some t" and tY: "t \<notin> Y" and r: "thS b (th_cid th) = BarState.RUNNING" and ph: "curPhase s < phase"
  shows "\<exists>s'. markForSleep pid tid phase s = Some s' \<and> sys_inv rand b s' Y"
proof -
  note i = sys_invD [OF y]
  let ?th = "th\<lparr>markedForSleep := True, wakeupPhase := phase, th_futexWord := 1\<rparr>"
  have p: "pending_ok b (curPhase s) Y t th" using jointD(5) [OF i(3), of t th] t(1,2) by simp
  have "sys_inv rand b (s\<lparr>threads := (threads s)(t \<mapsto> ?th), fakeLeaves := fakeLeaves s\<rparr>) Y"
  proof (rule sys_flag [OF y t(1)])
    show "set (fakeLeaves s) = (if fakeLeave ?th = None then set (fakeLeaves s) - {t} else insert t (set (fakeLeaves s)))"
      using thread_ok(3) [OF i(1) t(1)] by auto
  qed (use thread_ok(1) [OF i(1) t(1)] p t tY r ph thrD(3) [OF sched_invD(2) [OF i(1)]] in \<open>simp_all add: th_ok_def active_def pending_ok_def\<close>)
  then show ?thesis using t n by (simp add: markForSleep_def mod_th_def)
qed

lemma sys_awake:
  assumes y: "sys_inv rand b s Y" and t: "threads s t = Some th" "th_state th = SLEEPING"
  shows "sleep_remove t s = Some (s\<lparr>sleepQueue := remove1 t (sleepQueue s)\<rparr>)"
    "sys_inv rand b (s\<lparr>threads := (threads s)(t \<mapsto> th\<lparr>th_state := BLOCKED\<rparr>), sleepQueue := remove1 t (sleepQueue s)\<rparr>) Y"
proof -
  note i = sys_invD [OF y]
  note a = awake_step [OF i(1) t, OF empty_iff [THEN iffD1, THEN notI]]
  show "sleep_remove t s = Some (s\<lparr>sleepQueue := remove1 t (sleepQueue s)\<rparr>)" using a(1) by (simp add: sleep_remove_def)
  let ?th = "th\<lparr>th_state := BLOCKED\<rparr>"
  let ?s = "s\<lparr>threads := (threads s)(t \<mapsto> ?th), sleepQueue := remove1 t (sleepQueue s)\<rparr>"
  have th': "threads ?s = (threads s)(t \<mapsto> ?th)" by simp
  have "rth s t = None" using t by (simp add: rth_def)
  then have "rth ?s = rth s" unfolding rth_upd [OF th'] by auto
  moreover have "gid_ok ?s" using same_ids_gid [OF same_ids_upd [OF t(1) th']] i(2) by simp
  ultimately show "sys_inv rand b ?s Y" using a(2) i(3) by (simp add: sys_inv_def)
qed

lemma notifySleepEnd_op:
  assumes y: "sys_inv rand b s Y" and t: "threads s t = Some th" "th_state th = SLEEPING \<or> th_state th = BLOCKED"
    and n: "map_of (gidMap s) (getGid pid tid) = Some t"
  shows "\<exists>s'. notifySleepEnd pid tid s = Some s' \<and> sys_inv rand b s' Y"
proof -
  note i = sys_invD [OF y]
  have nm: "\<not> markedForSleep th" using quiet(1) [OF i(1) t(1)] t(2) by auto
  show ?thesis
  proof (cases "th_state th = BLOCKED")
    case True
    then show ?thesis using y t n nm by (simp add: notifySleepEnd_def)
  next
    case False
    then have sl: "th_state th = SLEEPING" using t(2) by simp
    note a = sys_awake [OF y t(1) sl]
    have "notifySleepEnd pid tid s = Some (s\<lparr>threads := (threads s)(t \<mapsto> th\<lparr>th_state := BLOCKED\<rparr>), sleepQueue := remove1 t (sleepQueue s)\<rparr>)"
      using t(1) n nm sl a(1) by (auto simp: notifySleepEnd_def mod_th_def intro!: Sched.equality)
    then show ?thesis using a(2) by simp
  qed
qed

subsection \<open>join\<close>

text \<open>A thread calls \<^verbatim>\<open>join\<close> when it does not run and does not wait for a context.\<close>

definition joinable :: "ThreadInfo \<Rightarrow> bool" where
  "joinable th \<longleftrightarrow> th_state th \<noteq> QUEUED \<and> (th_state th = RUNNING \<longrightarrow> fakeLeave th \<noteq> None)"

lemma join_context:
  assumes y: "sys_inv rand b s Y" and t: "threads s t = Some th" "th_state th = BLOCKED \<or> th_state th = STARTED"
  shows "\<exists>b' s'. do {
      (r, s) \<leftarrow> schedThread t s;
      (case r of
         Some c \<Rightarrow> do { s \<leftarrow> schedule t c s; enter_barrier rand c (b, s) }
       | None \<Rightarrow> do { s \<leftarrow> mod_th t (\<lambda>th. th\<lparr>th_state := QUEUED\<rparr>) s; s \<leftarrow> run_push t s; s \<leftarrow> wait_start t s; Some (b, s) })
    } = Some (b', s') \<and> sys_inv rand b' s' Y"
proof -
  note i = sys_invD [OF y]
  have st: "th_state th = BLOCKED \<or> th_state th = STARTED \<or> th_state th = QUEUED \<and> t \<in> {}" using t(2) by simp
  from sched_new_context [OF i t(1) st empty_subsetI] show ?thesis
  proof (elim disjE exE conjE)
    let ?f = "s\<lparr>threads := (threads s)(t \<mapsto> th\<lparr>th_state := QUEUED, th_futexWord := 1\<rparr>), runQueue := runQueue s @ [t]\<rparr>"
    assume n: "schedThread t s = Some (None, s)" "unqueued t s" "sys_inv rand b ?f Y"
    have "do { s \<leftarrow> mod_th t (\<lambda>th. th\<lparr>th_state := QUEUED\<rparr>) s; s \<leftarrow> run_push t s; s \<leftarrow> wait_start t s; Some (b, s) } = Some (b, ?f)"
      using n(2) t(1) by (auto simp: run_push_def wait_start_def mod_th_def unqueued_def intro!: Sched.equality)
    then show ?thesis using n(1,3) by simp
  qed auto
qed

lemma join_rest_op:
  assumes y: "sys_inv rand b s Y" and t: "threads s t = Some th" and j: "joinable th"
  shows "\<exists>b' s'. join_rest rand t (b, s) = Some (b', s') \<and> sys_inv rand b' s' Y"
proof (cases "fakeLeave th = None")
  case False
  then show ?thesis using finishFakeLeave_op [OF y t] t by (auto simp: join_rest_def)
next
  case True
  note i = sys_invD [OF y]
  have nr: "th_state th \<noteq> RUNNING" "th_state th \<noteq> QUEUED" using j True by (auto simp: joinable_def)
  have nm: "\<not> markedForSleep th" by (rule quiet(1) [OF i(1) t nr(1)])
  consider "th_state th = OUT" | "th_state th = SLEEPING" | "th_state th = BLOCKED \<or> th_state th = STARTED" using nr by (cases "th_state th") auto
  then show ?thesis
  proof cases
    case 1
    let ?th = "th\<lparr>th_state := RUNNING\<rparr>" and ?m = "s\<lparr>threads := (threads s)(t \<mapsto> th\<lparr>th_state := RUNNING\<rparr>)\<rparr>"
    let ?s = "s\<lparr>threads := (threads s)(t \<mapsto> ?th), outQueue := remove1 t (outQueue s)\<rparr>"
    have r: "t \<in> set (outQueue s)" "sched_inv {} {} ?s" using rejoin_step [OF i(1) t 1] by simp_all
    have th': "threads ?s = (threads s)(t \<mapsto> ?th)" by simp
    have r1: "rth ?s = (rth s)(t \<mapsto> ?th)" unfolding rth_upd [OF th'] by simp
    have nt: "rth s t = None" using t 1 by (simp add: rth_def)
    have f: "fresh ?th" using quiet [OF i(1) t] 1 by (simp add: fresh_def)
    have g: "gid_ok ?s" using same_ids_gid [OF same_ids_upd [OF t th']] i(2) by simp
    have act: "active th" using 1 by (simp add: active_def)
    have "cur s (th_cid th) = Some t" by (rule cur_of(3) [OF sched_invD(1) [OF i(1)] t act refl])
    then have "\<not> runs s (th_cid th)" using t 1 by (simp add: runs_def)
    then have nc: "th_cid ?th \<notin> cids (rth s)" using runs_rth [OF sched_invD(1) [OF i(1)], of "th_cid th"] by (auto simp: cids_def)
    have j': "joint rand b (rth s) (curPhase ?s) Y" using i(3) by simp
    from enter_sys [OF r(2) g j' r1 nt f nc] obtain b' s' where e: "enter_barrier rand (th_cid th) (b, ?s) = Some (b', s')" "sys_inv rand b' s' Y" by auto
    have "out_remove t ?m = Some ?s" using r(1) by (simp add: out_remove_def)
    then have "join_rest rand t (b, s) = Some (b', s')" using t True nm 1 e(1) by (simp add: join_rest_def mod_th_def)
    then show ?thesis using e(2) by simp
  next
    case 2
    note a = sys_awake [OF y t 2]
    let ?th = "th\<lparr>th_state := BLOCKED\<rparr>"
    let ?s = "s\<lparr>threads := (threads s)(t \<mapsto> ?th), sleepQueue := remove1 t (sleepQueue s)\<rparr>"
    have t': "threads ?s t = Some ?th" "th_state ?th = BLOCKED \<or> th_state ?th = STARTED" by simp_all
    have m: "do { s \<leftarrow> sleep_remove t s; mod_th t (\<lambda>th. th\<lparr>th_state := BLOCKED\<rparr>) s } = Some ?s"
      using t a(1) by (auto simp: mod_th_def intro!: Sched.equality)
    show ?thesis using join_context [OF a(2) t'] t True nm 2 m by (simp add: join_rest_def)
  next
    case 3
    then have st: "th_state th \<noteq> OUT" "th_state th \<noteq> SLEEPING" by auto
    show ?thesis using join_context [OF y t 3] t True nm 3 st by (simp add: join_rest_def)
  qed
qed

lemma clear_action_op:
  assumes y: "sys_inv rand b s Y" and t: "threads s t = Some th"
  shows "\<exists>s' th'. clear_action t s = Some s' \<and> sys_inv rand b s' Y \<and> threads s' t = Some th' \<and> joinable th' = joinable th"
proof -
  let ?th = "th\<lparr>futexJoin := (futexJoin th)\<lparr>fj_action := FJA_NONE\<rparr>\<rparr>"
  have "sys_inv rand b (s\<lparr>threads := (threads s)(t \<mapsto> ?th)\<rparr>) Y" by (rule sys_mod [OF y t]) simp_all
  then show ?thesis using t by (simp add: clear_action_def mod_th_def joinable_def)
qed

lemma join_op:
  assumes y: "sys_inv rand b s Y" and t: "threads s t = Some th" and n: "map_of (gidMap s) (getGid pid tid) = Some t" and j: "joinable th"
    and a: "fj_action (futexJoin th) \<noteq> FJA_WAKE"
  shows "\<exists>b' s'. sched_join rand pid tid (b, s) = Some (b', s') \<and> sys_inv rand b' s' Y"
proof (cases "fj_action (futexJoin th)")
  case FJA_NONE
  then show ?thesis using join_rest_op [OF y t j] t n by (simp add: sched_join_def)
next
  case FJA_WAIT
  let ?s1 = "if unmatchedFutexWakeups s \<ge> maxAllowedFutexWakeups s then s else s\<lparr>unmatchedFutexWakeups := unmatchedFutexWakeups s + 1\<rparr>"
  have s1: "futexWaitJoin t s = Some ?s1" "sys_inv rand b ?s1 Y" "threads ?s1 t = Some th"
    using t y FJA_WAIT by (simp_all add: futexWaitJoin_def)
  obtain s2 th2 where s2: "clear_action t ?s1 = Some s2" "sys_inv rand b s2 Y" "threads s2 t = Some th2" "joinable th2"
    using clear_action_op [OF s1(2,3)] j by auto
  have "sched_join rand pid tid (b, s) = join_rest rand t (b, s2)"
    unfolding sched_join_def prod.case n Option.bind.simps t FJA_WAIT FutexJoinAction.case s1(1) s2(1) ..
  then show ?thesis using join_rest_op [OF s2(2-4)] by simp
qed (use a in simp)

text \<open>The wait of a thread that has woken others may fail in its assertions, but it keeps the invariant.\<close>

lemma futexWakeJoin_keeps: "futexWakeJoin t s = Some s' \<Longrightarrow> sys_inv rand b s Y \<Longrightarrow> sys_inv rand b s' Y"
  by (auto simp: futexWakeJoin_def Let_def bind_eq_Some_conv)

lemma futexWakeJoin_end_shape: "futexWakeJoin_end t timeout s = Some s' \<Longrightarrow>
    s' = s\<lparr>unmatchedFutexWakeups := unmatchedFutexWakeups s', maxAllowedFutexWakeups := maxAllowedFutexWakeups s'\<rparr>"
  by (cases "threads s t") (auto simp: futexWakeJoin_end_def Let_def)

lemma futexWakeJoin_end_keeps:
  assumes "futexWakeJoin_end t timeout s = Some s'" "sys_inv rand b s Y"
  shows "sys_inv rand b s' Y" "threads s' = threads s"
proof -
  note s' = futexWakeJoin_end_shape [OF assms(1)]
  show "sys_inv rand b s' Y" by (subst s') (simp add: assms(2))
  show "threads s' = threads s" by (subst s') simp
qed

lemma join_woken_op:
  assumes y: "sys_inv rand b s Y" and t: "threads s t = Some th" and j: "joinable th" and w: "timeout \<or> wokenUp (futexJoin th) \<le> unmatchedFutexWakeups s"
  shows "\<exists>b' s'. sched_join_woken rand t timeout (b, s) = Some (b', s') \<and> sys_inv rand b' s' Y"
proof -
  obtain s1 where s1: "futexWakeJoin_end t timeout s = Some s1" using t w by (auto simp: futexWakeJoin_end_def Let_def)
  note k = futexWakeJoin_end_keeps [OF s1 y]
  obtain s2 th2 where s2: "clear_action t s1 = Some s2" "sys_inv rand b s2 Y" "threads s2 t = Some th2" "joinable th2"
    using clear_action_op [of rand b s1 Y t th] k t j by auto
  show ?thesis using join_rest_op [OF s2(2-4)] s1 s2(1) by (simp add: sched_join_woken_def)
qed

lemma futex_notify_op:
  assumes y: "sys_inv rand b s Y"
  shows "notifyFutexWakeStart pid tid n s = Some s' \<Longrightarrow> sys_inv rand b s' Y" "notifyFutexWakeEnd pid tid n s = Some s' \<Longrightarrow> sys_inv rand b s' Y"
    "notifyFutexWaitWoken pid tid s = Some s' \<Longrightarrow> sys_inv rand b s' Y"
proof -
  assume "notifyFutexWakeStart pid tid n s = Some s'"
  then obtain t th where t: "threads s t = Some th" and s': "s' = s\<lparr>maxAllowedFutexWakeups := maxAllowedFutexWakeups s + MIN2 n (2 ^ 24),
      threads := (threads s)(t \<mapsto> th\<lparr>futexJoin := (futexJoin th)\<lparr>maxWakes := MIN2 n (2 ^ 24)\<rparr>\<rparr>)\<rparr>"
    by (auto simp: notifyFutexWakeStart_def mod_th_def Let_def bind_eq_Some_conv)
  let ?s = "s\<lparr>maxAllowedFutexWakeups := maxAllowedFutexWakeups s + MIN2 n (2 ^ 24)\<rparr>"
  have y1: "sys_inv rand b ?s Y" using y by (subst sys_inv_cong) simp_all
  have t1: "threads ?s t = Some th" using t by simp
  have "sys_inv rand b (?s\<lparr>threads := (threads ?s)(t \<mapsto> th\<lparr>futexJoin := (futexJoin th)\<lparr>maxWakes := MIN2 n (2 ^ 24)\<rparr>\<rparr>)\<rparr>) Y"
    by (rule sys_mod [OF y1 t1]) simp_all
  then show "sys_inv rand b s' Y" using s' by simp
next
  assume "notifyFutexWakeEnd pid tid n s = Some s'"
  then obtain t th where t: "threads s t = Some th" and s': "s' = s\<lparr>threads := (threads s)(t \<mapsto> th\<lparr>futexJoin := (futexJoin th)\<lparr>fj_action := FJA_WAKE, wokenUp := n\<rparr>\<rparr>)\<rparr>"
    by (auto simp: notifyFutexWakeEnd_def mod_th_def bind_eq_Some_conv)
  show "sys_inv rand b s' Y" unfolding s' by (rule sys_mod [OF y t]) simp_all
next
  assume "notifyFutexWaitWoken pid tid s = Some s'"
  then obtain t th where t: "threads s t = Some th" and s': "s' = s\<lparr>threads := (threads s)(t \<mapsto> th\<lparr>futexJoin := \<lparr>fj_action = FJA_WAIT, maxWakes = 0, wokenUp = 0\<rparr>\<rparr>)\<rparr>"
    by (auto simp: notifyFutexWaitWoken_def mod_th_def bind_eq_Some_conv)
  show "sys_inv rand b s' Y" unfolding s' by (rule sys_mod [OF y t]) simp_all
qed

subsection \<open>start and finish\<close>

text \<open>A thread that comes or goes, outside every queue and context.\<close>

lemma domain_step:
  assumes i: "sched_inv F U s"
    and old: "\<And>th. threads s t = Some th \<Longrightarrow> th_state th = STARTED \<or> th_state th = BLOCKED \<or> th_state th = QUEUED \<and> t \<in> U" and nt: "t \<notin> targets s"
    and new: "\<And>th. x = Some th \<Longrightarrow> th_state th = STARTED \<and> fresh th \<and> t < n \<and> th_cid th < numCores s \<and> length (th_mask th) = numCores s" and n: "nextThread s \<le> n"
  shows "sched_inv F (U - {t}) (s\<lparr>gidMap := g, nextThread := n, threads := (threads s)(t := x)\<rparr>)"
proof -
  note I = sched_invD [OF i]
  note C = ctxD [OF I(1)] and T = thrD [OF I(2)] and Q = queueD [OF I(3)] and H = handD [OF I(4)]
  let ?s = "s\<lparr>gidMap := g, nextThread := n, threads := (threads s)(t := x)\<rparr>"
  have cur': "cur ?s = cur s" by (rule cur_same) simp
  have na: "\<not> active th \<and> handoffThread th = None \<and> fakeLeave th = None" if "threads s t = Some th" for th
    using old [OF that] quiet [OF i that] by (auto simp: active_def)
  have na': "\<not> active th \<and> handoffThread th = None \<and> fakeLeave th = None \<and> th_state th = STARTED" if "x = Some th" for th
    using new [OF that] by (simp add: active_def fresh_def)
  have nq: "t \<notin> set (runQueue s)" "t \<notin> set (outQueue s)" "t \<notin> set (sleepQueue s)"
    using Q(4-6) old by (auto simp: in_state_def)
  have nc: "cur s c \<noteq> Some t" for c using C(4) [of c t] na by auto
  have st: "in_state ?s z - (U - {t}) = in_state s z - U" if "z = OUT \<or> z = QUEUED \<or> z = SLEEPING" for z
  proof (rule set_eqI)
    fix u
    have "t \<notin> in_state ?s z" using na' that by (auto simp: in_state_def)
    moreover have "t \<notin> in_state s z - U" using old that by (auto simp: in_state_def)
    moreover have "u \<noteq> t \<Longrightarrow> u \<in> in_state ?s z - (U - {t}) \<longleftrightarrow> u \<in> in_state s z - U" by (simp add: in_state_def)
    ultimately show "u \<in> in_state ?s z - (U - {t}) \<longleftrightarrow> u \<in> in_state s z - U" by blast
  qed
  have keep: "threads ?s v = Some vh \<and> handoffThread vh = Some u \<longleftrightarrow> threads s v = Some vh \<and> handoffThread vh = Some u" for v vh u
    using na [of vh] na' [of vh] by (cases "v = t") auto
  have tg: "targets ?s = targets s" unfolding targets_def keep ..
  have wk: "wakeup_of ?s u = wakeup_of s u" if "u \<in> set (sleepQueue s)" for u
    using that nq(3) by (auto simp: wakeup_of_def)
  have rn: "runs ?s c" if r: "runs s c" for c
  proof -
    obtain v vh where "cur s c = Some v" "threads s v = Some vh" "th_state vh = RUNNING" using r by (auto simp: runs_def)
    then show ?thesis using nc [of c] by (auto simp: runs_def cur')
  qed
  have "ctx_inv F ?s"
    unfolding ctx_inv_def cur'
  proof (intro conjI allI impI ballI)
    show "ctx_state (contexts ?s ! d) = (if curThread (contexts ?s ! d) = None then IDLE else USED)" if "d < numCores ?s" for d
      using C(3) [of d] that by simp
    show "cur s d = Some u \<longleftrightarrow> (\<exists>th. threads ?s u = Some th \<and> active th \<and> th_cid th = d)" for d u
      using C(4) [of d u] nc [of d] na' by (cases "u = t") auto
    show "d < numCores ?s" "cur s d = None" if "d \<in> F" for d using C(7) [OF that] by simp_all
  qed (use C in simp_all)
  moreover have "thr_inv (U - {t}) ?s"
    unfolding thr_inv_def
  proof (intro conjI allI impI)
    fix u uh
    assume u: "threads ?s u = Some uh"
    show "th_ok ?s u uh"
    proof (cases "u = t")
      case True
      then show ?thesis using new [of uh] u by (simp add: th_ok_def fresh_def active_def)
    next
      case False
      then show ?thesis using T(1) [of u uh] u n by (simp add: th_ok_def)
    qed
    show "th_futexWord uh = 1" if "(th_state uh = QUEUED \<or> th_state uh = SLEEPING) \<and> u \<notin> U - {t}"
      using u T(2) [of u uh] that na' [of uh] by (cases "u = t") auto
  next
    show "set (fakeLeaves ?s) = {u. \<exists>th. threads ?s u = Some th \<and> fakeLeave th \<noteq> None}"
    proof (rule set_eqI)
      show "u \<in> set (fakeLeaves ?s) \<longleftrightarrow> u \<in> {u. \<exists>th. threads ?s u = Some th \<and> fakeLeave th \<noteq> None}" for u
        using T(4) na na' by (cases "u = t") auto
    qed
  qed (use T(3) in simp)
  moreover have "queue_inv (U - {t}) ?s"
  proof -
    have m: "map (wakeup_of ?s) (sleepQueue s) = map (wakeup_of s) (sleepQueue s)" using wk by simp
    have stQ: "in_state ?s QUEUED - (U - {t}) = in_state s QUEUED - U" and stO: "in_state ?s OUT - (U - {t}) = in_state s OUT - U"
      and stS: "in_state ?s SLEEPING - (U - {t}) = in_state s SLEEPING - U" by (rule st; simp)+
    show ?thesis unfolding queue_inv_def tg
    proof (intro conjI ballI)
      show "sorted (map (wakeup_of ?s) (sleepQueue ?s))" using Q(7) m by (simp del: map_eq_conv)
      show "curPhase ?s < wakeup_of ?s u" if "u \<in> set (sleepQueue ?s)" for u using that Q(8) [of u] wk [of u] by simp
      show "set (runQueue ?s) = in_state ?s QUEUED - (U - {t}) - targets s" using Q(5) stQ by simp
      show "set (outQueue ?s) = in_state ?s OUT - (U - {t})" using Q(4) stO by simp
      show "set (sleepQueue ?s) = in_state ?s SLEEPING - (U - {t})" using Q(6) stS by simp
    qed (use Q(1-3) in simp_all)
  qed
  moreover have "hand_inv (U - {t}) ?s"
    unfolding hand_inv_def
  proof (intro conjI allI impI)
    fix v vh u
    assume v: "threads ?s v = Some vh" "handoffThread vh = Some u"
    have old: "threads s v = Some vh" using keep v by blast
    have "u \<noteq> t" using old v(2) nt by (auto simp: targets_def)
    then show "th_state vh = RUNNING" "u \<notin> U - {t}" "\<exists>th'. threads ?s u = Some th' \<and> th_state th' = QUEUED \<and> th_mask th' ! th_cid vh"
      using H(1) [OF old v(2)] by simp_all
  next
    fix v w vh wh u
    assume "threads ?s v = Some vh" "threads ?s w = Some wh" "handoffThread vh = Some u" "handoffThread wh = Some u"
    then have "threads s v = Some vh" "threads s w = Some wh" "handoffThread vh = Some u" "handoffThread wh = Some u" using keep by blast+
    then show "v = w" using H(2) by blast
  qed
  moreover have "work_inv F ?s"
    unfolding work_inv_def
  proof (intro allI impI)
    fix u uh d
    assume u: "u \<in> set (runQueue ?s)" "threads ?s u = Some uh" "d < numCores ?s" "th_mask uh ! d" "d \<notin> F"
    then have "threads s u = Some uh" using nq by (auto split: if_splits)
    then show "runs ?s d" using workD [OF I(5), of u uh d] u rn by simp
  qed
  moreover have "phase_inv ?s" using I(6) by (simp add: phase_inv_def)
  ultimately show ?thesis by (simp add: sched_inv_def)
qed

lemma rth_domain: "threads s' = (threads s)(t := x) \<Longrightarrow> rth s t = None \<Longrightarrow> (\<And>th. x = Some th \<Longrightarrow> th_state th \<noteq> RUNNING) \<Longrightarrow> rth s' = rth s"
  by (cases x) (auto simp: rth_def fun_eq_iff)

lemma start_op:
  assumes y: "sys_inv rand b s Y" and g: "map_of (gidMap s) (getGid pid tid) = None" and m: "length cmask = numCores s" "True \<in> set cmask"
  shows "\<exists>s'. sched_start pid tid cmask s = Some s' \<and> sys_inv rand b s' Y"
proof -
  note i = sys_invD [OF y]
  let ?t = "nextThread s" and ?gid = "getGid pid tid"
  let ?th = "\<lparr>th_gid = ?gid, th_state = STARTED, th_cid = 0, handoffThread = None, th_futexWord = 0, needsJoin = False, markedForSleep = False,
    wakeupPhase = 0, th_mask = cmask, fakeLeave = None, futexJoin = \<lparr>fj_action = FJA_NONE, maxWakes = 0, wokenUp = 0\<rparr>\<rparr>"
  let ?s = "s\<lparr>gidMap := (?gid, ?t) # gidMap s, nextThread := Suc ?t, threads := (threads s)(?t := Some ?th)\<rparr>"
  have new: "threads s ?t = None"
  proof (cases "threads s ?t")
    case (Some th)
    then show ?thesis using thread_ok(1) [OF i(1) Some] by (simp add: th_ok_def)
  qed
  have nt: "?t \<notin> targets s"
  proof
    assume "?t \<in> targets s"
    then obtain v vh where v: "threads s v = Some vh" "handoffThread vh = Some ?t" by (auto simp: targets_def)
    then show False using handD(1) [OF sched_invD(4) [OF i(1)] v] new by auto
  qed
  have nc: "0 < numCores s" using m by (cases cmask) auto
  have "sched_inv {} ({} - {?t}) ?s" by (rule domain_step [OF i(1) _ nt]) (use new m nc in \<open>auto simp: fresh_def\<close>)
  moreover have "rth ?s = rth s" by (rule rth_domain) (use new in \<open>auto simp: rth_def\<close>)
  moreover have "gid_ok ?s"
    unfolding gid_ok_def
  proof (intro allI impI)
    fix gid u
    assume u: "map_of (gidMap ?s) gid = Some u"
    show "\<exists>th. threads ?s u = Some th \<and> th_gid th = gid"
    proof (cases "gid = ?gid")
      case False
      then obtain uh where "threads s u = Some uh" "th_gid uh = gid" using u i(2) by (auto simp: gid_ok_def)
      then show ?thesis using new by auto
    qed (use u in simp)
  qed
  ultimately have "sys_inv rand b ?s Y" using i(3) by (simp add: sys_inv_def)
  moreover have "sched_start pid tid cmask s = Some ?s" using g m by (auto simp: sched_start_def Let_def)
  ultimately show ?thesis by blast
qed

text \<open>The end of \<^verbatim>\<open>finish\<close>, when the name of the thread is gone.\<close>

lemma finish_rest_op:
  assumes i: "sched_inv {} {} s" and j: "joint rand b (rth s) (curPhase s) Y" and t: "threads s t = Some th"
    and st: "th_state th = STARTED \<or> th_state th = OUT \<or> th_state th = BLOCKED \<or> th_state th = QUEUED" and nt: "t \<notin> targets s"
  shows "\<exists>s'. finish_rest t s = Some s' \<and> sched_inv {} {} s' \<and> joint rand b (rth s') (curPhase s') Y \<and> threads s' = (threads s)(t := None) \<and> gidMap s' = gidMap s"
proof -
  have nr: "rth s t = None" using t st by (auto simp: rth_def)
  consider "th_state th = QUEUED" | "th_state th = OUT" | "th_state th = STARTED \<or> th_state th = BLOCKED" using st by blast
  then show ?thesis
  proof cases
    case 1
    have tq: "t \<in> set (runQueue s)" using in_queues(1) [OF i t] 1 nt by simp
    note r = run_remove_step [OF i tq t]
    let ?s1 = "s\<lparr>runQueue := remove1 t (runQueue s)\<rparr>"
    let ?s2 = "?s1\<lparr>threads := (threads s)(t := None)\<rparr>"
    have nt1: "t \<notin> targets ?s1" using nt by (simp add: targets_def)
    have "sched_inv {} (insert t {} - {t}) (?s1\<lparr>gidMap := gidMap ?s1, nextThread := nextThread ?s1, threads := (threads ?s1)(t := None)\<rparr>)"
      by (rule domain_step [OF r(2) _ nt1]) (use t 1 in simp_all)
    then have "sched_inv {} {} ?s2" by simp
    moreover have "rth ?s2 = rth s" by (rule rth_domain [where x = None]) (use nr in simp_all)
    moreover have "finish_rest t s = Some ?s2" using t 1 r(1) by (simp add: finish_rest_def)
    ultimately show ?thesis using j by simp
  next
    case 2
    let ?c = "th_cid th" and ?s1 = "s\<lparr>outQueue := remove1 t (outQueue s)\<rparr>"
    have tq: "t \<in> set (outQueue s)" using in_queues(2) [OF i t] 2 by simp
    have nq: "\<not> unqueued t s" using tq by (simp add: unqueued_def)
    have act: "active th" using 2 by (simp add: active_def)
    have "sched_inv {} (insert t {}) (s\<lparr>runQueue := runQueue s, outQueue := remove1 t (outQueue s)\<rparr>)"
      by (rule unqueue_step [OF i t nt]) (use 2 in simp_all)
    then have i1: "sched_inv {} {t} ?s1" by simp
    have t1: "threads ?s1 t = Some th" using t by simp
    let ?s2 = "desched_st t ?c BLOCKED th ?s1"
    have d: "deschedule t ?c BLOCKED ?s1 = Some ?s2" "sched_inv {?c} {} ?s2"
      using deschedule_run [OF i1 t1 act, of BLOCKED ?c "{}"] quiet [OF i t] 2 by simp_all
    have cu: "cur s ?c = Some t" "?c < numCores s" using cur_of [OF sched_invD(1) [OF i] t act refl] by simp_all
    have nrun: "\<not> runs s ?c" using cu(1) t 2 by (simp add: runs_def)
    have w: "\<not> th_mask uh ! ?c" if u: "u \<in> set (runQueue ?s2)" "threads ?s2 u = Some uh" for u uh
    proof
      assume m: "th_mask uh ! ?c"
      have "u \<noteq> t" using u(1) in_queues(1) [OF i t] 2 by auto
      then have "threads s u = Some uh" using u(2) by simp
      then show False using workD [OF sched_invD(5) [OF i], of u uh ?c] u(1) cu(2) m nrun by simp
    qed
    let ?s3 = "?s2\<lparr>freeList := freeList ?s2 @ [?c]\<rparr>"
    have f: "free_push ?c ?s2 = Some ?s3" "sched_inv {} {} ?s3" using free_push_run [OF d(2), of ?c] w by simp_all
    let ?s4 = "?s3\<lparr>threads := (threads ?s3)(t := None)\<rparr>"
    have t3: "threads ?s3 t = Some (th\<lparr>th_state := BLOCKED\<rparr>)" by simp
    have "t \<notin> targets ?s3" by (rule not_target [OF f(2) t3]) simp
    then have "sched_inv {} ({} - {t}) (?s3\<lparr>gidMap := gidMap ?s3, nextThread := nextThread ?s3, threads := (threads ?s3)(t := None)\<rparr>)"
      by (intro domain_step [OF f(2)]) (use t3 in auto)
    moreover have "?s3\<lparr>gidMap := gidMap ?s3, nextThread := nextThread ?s3, threads := (threads ?s3)(t := None)\<rparr> = ?s4"
      by (rule Sched.equality) simp_all
    ultimately have i4: "sched_inv {} {} ?s4" by (simp only: empty_Diff)
    have th4: "threads ?s4 = (threads s)(t := None)" by simp
    have "rth ?s4 = rth s" by (rule rth_domain [OF th4 nr]) simp
    moreover have "finish_rest t s = Some ?s4" using t 2 nq tq d(1) f(1) by (simp add: finish_rest_def out_remove_def)
    ultimately show ?thesis using i4 th4 j by simp
  next
    case 3
    then have uq: "unqueued t s" using in_queues [OF i t] by (auto simp: unqueued_def)
    let ?s = "s\<lparr>threads := (threads s)(t := None)\<rparr>"
    have "sched_inv {} ({} - {t}) (s\<lparr>gidMap := gidMap s, nextThread := nextThread s, threads := (threads s)(t := None)\<rparr>)"
      by (rule domain_step [OF i _ nt]) (use t 3 in simp_all)
    then have "sched_inv {} {} ?s" by simp
    moreover have "rth ?s = rth s" by (rule rth_domain [where x = None]) (use nr in simp_all)
    moreover have "finish_rest t s = Some ?s" using t 3 uq by (auto simp: finish_rest_def)
    ultimately show ?thesis using j by simp
  qed
qed

lemma gid_ok_filter: "gid_ok s \<Longrightarrow> gid_ok (s\<lparr>gidMap := filter (\<lambda>e. fst e \<noteq> g) (gidMap s)\<rparr>)"
proof -
  have "map_of (filter (\<lambda>e. fst e \<noteq> g) xs) k = (if k = g then None else map_of xs k)" for xs :: "(u32 \<times> nat) list" and k
    by (induction xs) auto
  then show "gid_ok s \<Longrightarrow> ?thesis" by (simp add: gid_ok_def)
qed

lemma finish_op:
  assumes y: "sys_inv rand b s Y" and t: "threads s t = Some th" and n: "map_of (gidMap s) (getGid pid tid) = Some t"
    and st: "th_state th \<noteq> SLEEPING" "t \<notin> targets s" "th_state th = RUNNING \<Longrightarrow> \<not> markedForSleep th \<and> t \<notin> Y \<and> thS b (th_cid th) = BarState.RUNNING"
  shows "\<exists>b' s'. sched_finish rand pid tid (b, s) = Some (b', s') \<and> sys_inv rand b' s' Y"
proof -
  let ?g = "getGid pid tid"
  note i = sys_invD [OF y]
  let ?s0 = "s\<lparr>gidMap := filter (\<lambda>e. fst e \<noteq> ?g) (gidMap s)\<rparr>"
  have gid: "th_gid th = ?g" using i(2) n t unfolding gid_ok_def by fastforce
  have lookup: "map_of (filter (\<lambda>e. fst e \<noteq> ?g) xs) k = (if k = ?g then None else map_of xs k)" for xs :: "(u32 \<times> nat) list" and k
    by (induction xs) auto
  have y0: "sys_inv rand b ?s0 Y"
  proof -
    have "sched_inv {} {} ?s0" using i(1) by (subst sched_inv_cong [of _ s]) simp_all
    moreover have "rth ?s0 = rth s" by (rule rth_same) simp
    ultimately show ?thesis using gid_ok_filter [OF i(2)] i(3) by (simp add: sys_inv_def)
  qed
  have t0: "threads ?s0 t = Some th" using t by simp
  text \<open>The call of \<^verbatim>\<open>leave\<close> of a thread that still runs.\<close>
  have leave: "\<exists>b2 s2 th2. sched_leave rand pid tid (th_cid th) (b, s1) = Some (b2, s2) \<and> sys_inv rand b2 s2 Y \<and> gidMap s2 = gidMap ?s0 \<and>
      threads s2 t = Some th2 \<and> (th_state th2 = OUT \<or> th_state th2 = BLOCKED) \<and> th_gid th2 = ?g"
    if s1: "sys_inv rand b s1 Y" "gidMap s1 = gidMap ?s0" "threads s1 t = Some th1" "th1 = th\<lparr>fakeLeave := None\<rparr>" and r: "th_state th = RUNNING" for s1 th1
  proof -
    have "th_state th1 = RUNNING" "fakeLeave th1 = None" "th_gid th1 = getGid pid tid" "th_cid th1 = th_cid th" using s1(4) r gid by simp_all
    from leave_op [OF s1(1,3) this] st(3) [OF r] obtain b2 s2 where
      l: "sched_leave rand pid tid (th_cid th) (b, s1) = Some (b2, s2)" "sys_inv rand b2 s2 Y" "same_ids s1 s2" "left_thread t th1 s2" by auto
    have nm: "\<not> markedForSleep th1" using st(3) [OF r] s1(4) by simp
    obtain th2 where th2: "threads s2 t = Some th2" "th_gid th2 = th_gid th1" "th_state th2 = OUT \<or> th_state th2 = BLOCKED"
      using l(4) nm by (auto simp: left_thread_def)
    have "gidMap s2 = gidMap ?s0" using l(3) s1(2) by (simp add: same_ids_def)
    moreover have "th_gid th2 = ?g" using th2(2) s1(4) gid by simp
    ultimately show ?thesis using l(1,2) th2(1,3) by blast
  qed
  have fin: "\<exists>s3. finish_rest t s2 = Some s3 \<and> sys_inv rand b2 s3 Y"
    if s2: "sys_inv rand b2 s2 Y" "gidMap s2 = gidMap ?s0" "threads s2 t = Some th2" "t \<notin> targets s2" "th_gid th2 = ?g"
      and r: "th_state th2 = STARTED \<or> th_state th2 = OUT \<or> th_state th2 = BLOCKED \<or> th_state th2 = QUEUED" for b2 s2 th2
  proof -
    note k = sys_invD [OF s2(1)]
    obtain s3 where s3: "finish_rest t s2 = Some s3" "sched_inv {} {} s3" "joint rand b2 (rth s3) (curPhase s3) Y" "threads s3 = (threads s2)(t := None)" "gidMap s3 = gidMap s2"
      using finish_rest_op [OF k(1,3) s2(3) r s2(4)] by blast
    have "gid_ok s3"
      unfolding gid_ok_def
    proof (intro allI impI)
      fix gid u
      assume "map_of (gidMap s3) gid = Some u"
      then have m: "map_of (gidMap s2) gid = Some u" using s3(5) by simp
      have "gid \<noteq> ?g" using m s2(2) lookup by (auto split: if_splits)
      moreover obtain uh where uh: "threads s2 u = Some uh" "th_gid uh = gid" using m k(2) by (auto simp: gid_ok_def)
      ultimately have "u \<noteq> t" using s2(3,5) by auto
      then show "\<exists>th. threads s3 u = Some th \<and> th_gid th = gid" using uh s3(4) by simp
    qed
    then show ?thesis using s3 by (auto simp: sys_inv_def)
  qed
  show ?thesis
  proof (cases "fakeLeave th = None")
    case False
    note f = finishFakeLeave_op [OF y0 t0 False]
    let ?s1 = "?s0\<lparr>threads := (threads ?s0)(t \<mapsto> th\<lparr>fakeLeave := None\<rparr>), fakeLeaves := remove1 t (fakeLeaves ?s0)\<rparr>"
    have "gidMap ?s1 = gidMap ?s0" "threads ?s1 t = Some (th\<lparr>fakeLeave := None\<rparr>)" by simp_all
    from leave [OF f(2) this refl f(3)] obtain b2 s2 th2 where l: "sched_leave rand pid tid (th_cid th) (b, ?s1) = Some (b2, s2)" "sys_inv rand b2 s2 Y"
      "gidMap s2 = gidMap ?s0" "threads s2 t = Some th2" "th_state th2 = OUT \<or> th_state th2 = BLOCKED" "th_gid th2 = ?g" by blast
    have nt: "t \<notin> targets s2" by (rule not_target [OF sys_invD(1) [OF l(2)] l(4)]) (use l(5) in auto)
    obtain s3 where s3: "finish_rest t s2 = Some s3" "sys_inv rand b2 s3 Y" using fin [OF l(2-4) nt l(6)] l(5) by auto
    have nr: "th_state th2 \<noteq> RUNNING" using l(5) by auto
    have "sched_finish rand pid tid (b, s) = Some (b2, s3)"
      unfolding sched_finish_def prod.case Let_def n Option.bind.simps t0 f(1) l(1)
      using False nr l(1,4) s3(1) by (simp add: f(1))
    then show ?thesis using s3(2) by blast
  next
    case None: True
    show ?thesis
    proof (cases "th_state th = RUNNING")
      case True
      have "th = th\<lparr>fakeLeave := None\<rparr>" using None by simp
      from leave [OF y0 refl t0 this True] obtain b2 s2 th2 where l: "sched_leave rand pid tid (th_cid th) (b, ?s0) = Some (b2, s2)" "sys_inv rand b2 s2 Y"
        "gidMap s2 = gidMap ?s0" "threads s2 t = Some th2" "th_state th2 = OUT \<or> th_state th2 = BLOCKED" "th_gid th2 = ?g" by blast
      have nt: "t \<notin> targets s2" by (rule not_target [OF sys_invD(1) [OF l(2)] l(4)]) (use l(5) in auto)
      obtain s3 where s3: "finish_rest t s2 = Some s3" "sys_inv rand b2 s3 Y" using fin [OF l(2-4) nt l(6)] l(5) by auto
      have "sched_finish rand pid tid (b, s) = Some (b2, s3)"
        using None True n t l(1) s3(1) by (simp add: sched_finish_def Let_def)
      then show ?thesis using s3(2) by blast
    next
      case False
      have r: "th_state th = STARTED \<or> th_state th = OUT \<or> th_state th = BLOCKED \<or> th_state th = QUEUED" using False st(1) by (cases "th_state th") auto
      have nt: "t \<notin> targets ?s0" using st(2) by (simp add: targets_def)
      obtain s3 where s3: "finish_rest t ?s0 = Some s3" "sys_inv rand b s3 Y" using fin [OF y0 refl t0 nt gid r] by blast
      have "sched_finish rand pid tid (b, s) = Some (b, s3)"
        using None False n t s3(1) by (simp add: sched_finish_def Let_def)
      then show ?thesis using s3(2) by blast
    qed
  qed
qed

subsection \<open>The watchdog and the end of a wait\<close>

lemma wait_end_op:
  assumes t: "threads s t = Some th" "th_futexWord th \<noteq> 1" "\<not> needsJoin th"
  shows "wait_end rand t (b, s) = Some (b, s)"
  using t by (simp add: wait_end_def)

lemma drive_time_op:
  assumes y: "sys_inv rand b s Y"
  shows "\<exists>s'. drive_time rand (b, s) = Some (b, s') \<and> sys_inv rand b s' Y"
proof (cases "scheduledThreads s = of_nat (length (outQueue s)) \<and> sleepQueue s \<noteq> []")
  case True
  note i = sys_invD [OF y]
  note I = sched_invD [OF i(1)]
  note C = ctxD [OF I(1)] and Q = queueD [OF I(3)]
  let ?used = "{c. cur s c \<noteq> None}"
  have sub: "?used \<subseteq> {..<numCores s}" using C(1) by (auto simp: cur_def split: if_splits)
  then have fin: "finite ?used" using finite_subset by blast
  have le: "card ?used \<le> numCores s" using card_mono [OF _ sub] by simp
  have out: "\<exists>th. threads s t = Some th \<and> th_state th = OUT" if "t \<in> set (outQueue s)" for t using Q(4) that by (auto simp: in_state_def)
  define cid where "cid t = th_cid (the (threads s t))" for t
  have cur: "cur s (cid t) = Some t" if "t \<in> set (outQueue s)" for t
    using out [OF that] C(4) [of "cid t" t] by (auto simp: cid_def active_def)
  have inj: "inj_on cid (set (outQueue s))" using cur by (intro inj_onI) (metis option.inject)
  have img: "cid ` set (outQueue s) \<subseteq> ?used" using cur by auto
  have len: "length (outQueue s) = card (cid ` set (outQueue s))" using inj Q(2) by (simp add: card_image distinct_card)
  have "length (outQueue s) \<le> card ?used" unfolding len by (rule card_mono [OF fin img])
  then have small: "length (outQueue s) < 2 ^ 32" "card ?used < 2 ^ 32" using le C(2) by (simp_all add: MAX_THREADS_def)
  have inv32: "unat (of_nat n :: u32) = n" if "n < 2 ^ 32" for n using that by (intro of_nat_inverse [OF refl]) simp
  have "(of_nat (card ?used) :: u32) = of_nat (length (outQueue s))" using True C(8) by simp
  then have "unat (of_nat (card ?used) :: u32) = unat (of_nat (length (outQueue s)) :: u32)" by (rule arg_cong)
  then have "card ?used = length (outQueue s)" unfolding inv32 [OF small(1)] inv32 [OF small(2)] .
  then have "card (cid ` set (outQueue s)) = card ?used" unfolding len by (rule sym)
  then have eq: "cid ` set (outQueue s) = ?used" by (rule card_subset_eq [OF fin img])
  have none: "rth s v = None" for v
  proof (cases "rth s v")
    case (Some th)
    then have "cur s (th_cid th) = Some v" using C(4) [of "th_cid th" v] by (auto simp: active_def)
    then have "th_cid th \<in> cid ` set (outQueue s)" unfolding eq by simp
    then obtain t where t: "t \<in> set (outQueue s)" "cid t = th_cid th" by (elim imageE) simp
    then have "t = v" using cur [OF t(1)] \<open>cur s (th_cid th) = Some v\<close> by simp
    then show ?thesis using out [OF t(1)] Some by auto
  qed
  have Y: "Y = dom (rth s)" using jointD(4) [OF i(3)] none by auto
  have "behind b = {}" using jointD(3) [OF i(3)] none by auto
  from phase_end_sys [OF i(1,2) jointD(1,2) [OF i(3)] this Y] none obtain s' where "callback rand s = Some s'" "sys_inv rand b s' Y" by auto
  then show ?thesis using True by (simp add: drive_time_def)
next
  case False
  then show ?thesis using y by (auto simp: drive_time_def)
qed

subsection \<open>The watchdog turns fake leaves into real ones\<close>

lemma gid_split: "getGid (getPid g) (getTid g) = g"
proof (rule bit_eqI)
  fix n
  assume n: "possible_bit TYPE(u32) n"
  then have "n < 32" by simp
  moreover have m: "(0x0FFFF :: u32) = Bit_Operations.mask 16" by (simp add: mask_eq_exp_minus_1)
  ultimately show "bit (getGid (getPid g) (getTid g)) n = bit g n"
    unfolding getGid_def getPid_def getTid_def m
    by (cases "n < 16") (auto simp: bit_simps)
qed

definition same_process :: "u32 \<Rightarrow> u64 \<Rightarrow> 'r Sched \<Rightarrow> bool" where
  "same_process pid pc s \<longleftrightarrow> (\<forall>u uh si. threads s u = Some uh \<longrightarrow> fakeLeave uh = Some si \<longrightarrow> fl_pc si = pc \<longrightarrow> getPid (th_gid uh) = pid)"

lemma real_leaves_op:
  assumes "sys_inv rand b s Y" "threads s t = Some th" "fakeLeave th \<noteq> None" "th_gid th = getGid pid tid" "th_cid th = cid" "same_process pid pc s"
  shows "\<exists>b' s'. real_leaves rand pid pc t tid cid (b, s) = Some (b', s') \<and> sys_inv rand b' s' Y"
  using assms
proof (induction "length (fakeLeaves s)" arbitrary: b s t th tid cid rule: less_induct)
  case less
  note y = less.prems(1) and t = less.prems(2) and fl = less.prems(3)
  note i = sys_invD [OF y]
  note f = finishFakeLeave_op [OF y t fl]
  let ?th1 = "th\<lparr>fakeLeave := None\<rparr>"
  let ?s1 = "s\<lparr>threads := (threads s)(t \<mapsto> ?th1), fakeLeaves := remove1 t (fakeLeaves s)\<rparr>"
  have t1: "threads ?s1 t = Some ?th1" "th_state ?th1 = RUNNING" "fakeLeave ?th1 = None" "th_gid ?th1 = getGid pid tid" "th_cid ?th1 = cid"
    using f(3) less.prems(4,5) by simp_all
  have r: "thS b cid = BarState.RUNNING" using f(5) less.prems(5) by simp
  from leave_op [OF f(2) t1 f(4) r] obtain b2 s2 where l: "sched_leave rand pid tid cid (b, ?s1) = Some (b2, s2)" "sys_inv rand b2 s2 Y"
    "same_ids ?s1 s2" "fake_from ?s1 s2" by blast
  note i2 = sys_invD(1) [OF l(2)]
  have ids: "same_ids s s2" by (rule same_ids_trans [OF same_ids_upd [OF t, of ?s1 ?th1] l(3)]) simp_all
  have from_s: "v \<noteq> t \<and> (\<exists>vo. threads s v = Some vo \<and> fakeLeave vo = Some si)" if v: "threads s2 v = Some vh" "fakeLeave vh = Some si" for v vh si
  proof -
    obtain vo where vo: "threads ?s1 v = Some vo" "fakeLeave vo = Some si" using l(4) v unfolding fake_from_def by blast
    then have "v \<noteq> t" by auto
    then show ?thesis using vo by simp
  qed
  have gid_same: "th_gid vh = th_gid vo" if "threads s2 v = Some vh" "threads s v = Some vo" for v vh vo
  proof -
    have "map_option th_gid (threads s2 v) = map_option th_gid (threads s v)" using ids by (simp add: same_ids_def)
    then show ?thesis using that by simp
  qed
  have proc: "same_process pid pc s2"
    unfolding same_process_def
  proof (intro allI impI)
    fix u uh si
    assume u: "threads s2 u = Some uh" "fakeLeave uh = Some si" "fl_pc si = pc"
    obtain uo where uo: "threads s u = Some uo" "fakeLeave uo = Some si" using from_s [OF u(1,2)] by blast
    show "getPid (th_gid uh) = pid" using less.prems(6) uo u(3) gid_same [OF u(1) uo(1)] unfolding same_process_def by auto
  qed
  have less_len: "length (fakeLeaves s2) < length (fakeLeaves s)"
  proof -
    note T = thrD(3,4) [OF sched_invD(2) [OF i(1)]] and T2 = thrD(3,4) [OF sched_invD(2) [OF i2]]
    have "set (fakeLeaves s2) \<subseteq> set (fakeLeaves s) - {t}"
    proof
      fix v
      assume "v \<in> set (fakeLeaves s2)"
      then obtain vh si where v: "threads s2 v = Some vh" "fakeLeave vh = Some si" unfolding T2(2) by auto
      then show "v \<in> set (fakeLeaves s) - {t}" using from_s [OF v] unfolding T(2) by auto
    qed
    moreover have "t \<in> set (fakeLeaves s)" using t fl unfolding T(2) by auto
    ultimately have "set (fakeLeaves s2) \<subset> set (fakeLeaves s)" by blast
    then have "card (set (fakeLeaves s2)) < card (set (fakeLeaves s))" by (intro psubset_card_mono) simp_all
    then show ?thesis using T(1) T2(1) by (simp add: distinct_card)
  qed
  have unfold: "real_leaves rand pid pc t tid cid (b, s) = (case fakeLeaves s2 of
        [] \<Rightarrow> Some (b2, s2)
      | u # us \<Rightarrow> do {
          th \<leftarrow> threads s2 t;
          fl_th \<leftarrow> threads s2 u;
          si \<leftarrow> fakeLeave fl_th;
          (if getPid (th_gid th) \<noteq> pid \<or> fl_pc si \<noteq> pc then Some (b2, s2)
           else if length (u # us) > 8 then real_leaves rand pid pc u (getTid (th_gid fl_th)) (th_cid fl_th) (b2, s2)
           else Some (b2, s2))
        })"
    by (subst real_leaves.simps) (simp only: fst_conv snd_conv f(1) l(1) Option.bind.simps)
  have stop: ?case if "real_leaves rand pid pc t tid cid (b, s) = Some (b2, s2)" using that l(2) by blast
  show ?case
  proof (cases "fakeLeaves s2")
    case Nil
    then show ?thesis using stop unfold by simp
  next
    case (Cons u us)
    have "u \<in> set (fakeLeaves s2)" using Cons by simp
    then obtain uh si where u: "threads s2 u = Some uh" "fakeLeave uh = Some si" unfolding thrD(4) [OF sched_invD(2) [OF i2]] by auto
    have "map_option th_gid (threads s2 t) = map_option th_gid (threads s t)" using ids by (simp add: same_ids_def)
    then obtain th2 where t2: "threads s2 t = Some th2" using t by auto
    show ?thesis
    proof (cases "getPid (th_gid th2) \<noteq> pid \<or> fl_pc si \<noteq> pc \<or> \<not> length (u # us) > 8")
      case True
      then have "real_leaves rand pid pc t tid cid (b, s) = Some (b2, s2)" using unfold Cons u t2 by auto
      then show ?thesis by (rule stop)
    next
      case False
      then have "getPid (th_gid uh) = pid" using proc u unfolding same_process_def by blast
      then have g: "th_gid uh = getGid pid (getTid (th_gid uh))" using gid_split [of "th_gid uh"] by simp
      have "\<exists>b' s'. real_leaves rand pid pc u (getTid (th_gid uh)) (th_cid uh) (b2, s2) = Some (b', s') \<and> sys_inv rand b' s' Y"
        by (rule less.hyps [OF less_len l(2) u(1) _ g refl proc]) (simp add: u(2))
      then show ?thesis using unfold Cons u t2 False by simp
    qed
  qed
qed

lemma break_fake_leaves_op:
  assumes y: "sys_inv rand b s Y" and ne: "fakeLeaves s \<noteq> []" and pid: "\<And>t th. threads s t = Some th \<Longrightarrow> unat (getPid (th_gid th)) < length (blockingSyscalls s)"
    and p: "\<And>t th si. t = hd (fakeLeaves s) \<Longrightarrow> threads s t = Some th \<Longrightarrow> fakeLeave th = Some si \<Longrightarrow> same_process (getPid (th_gid th)) (fl_pc si) s"
  shows "\<exists>b' s'. break_fake_leaves rand black (b, s) = Some (b', s') \<and> sys_inv rand b' s' Y"
proof -
  note i = sys_invD [OF y]
  obtain t us where fl: "fakeLeaves s = t # us" using ne by (cases "fakeLeaves s") auto
  then have "t \<in> set (fakeLeaves s)" by simp
  then obtain th si where t: "threads s t = Some th" "fakeLeave th = Some si" unfolding thrD(4) [OF sched_invD(2) [OF i(1)]] by auto
  let ?pid = "getPid (th_gid th)" and ?tid = "getTid (th_gid th)"
  let ?s1 = "if length (fakeLeaves s) = 1 then s\<lparr>blockingSyscalls := (blockingSyscalls s)[unat ?pid := insert (fl_pc si) (blockingSyscalls s ! unat ?pid)]\<rparr> else s"
  show ?thesis
  proof (cases "black ?pid (syscallNumber si)")
    case True
    have y1: "sys_inv rand b ?s1 Y" using y by simp
    have t1: "threads ?s1 t = Some th" using t by simp
    have g: "th_gid th = getGid ?pid ?tid" by (simp add: gid_split)
    have p1: "same_process ?pid (fl_pc si) ?s1" using p [OF _ t] fl by (simp add: same_process_def)
    have "\<exists>b' s'. real_leaves rand ?pid (fl_pc si) t ?tid (th_cid th) (b, ?s1) = Some (b', s') \<and> sys_inv rand b' s' Y"
      by (rule real_leaves_op [OF y1 t1 _ g refl p1]) (simp add: t(2))
    moreover have "break_fake_leaves rand black (b, s) = real_leaves rand ?pid (fl_pc si) t ?tid (th_cid th) (b, ?s1)"
      using True t fl pid [OF t(1)] by (simp add: break_fake_leaves_def Let_def read_at_in del: read_at_Some)
    ultimately show ?thesis by simp
  next
    case False
    then show ?thesis using t fl y by (simp add: break_fake_leaves_def Let_def)
  qed
qed

end
