(* ===== verification/Sched_Contract.thy ===== *)
theory Sched_Contract imports Sched_Ops begin

text \<open>
  The calls of the scheduler with their calling conventions, and the properties of every run of calls. A thread
  calls \<^verbatim>\<open>leave\<close>, \<^verbatim>\<open>sync\<close> and \<^verbatim>\<open>markForSleep\<close> while it runs and the barrier has let it go on; \<^verbatim>\<open>join\<close> when it does
  not run. Between \<^verbatim>\<open>sync\<close> and \<^verbatim>\<open>SyncEnd\<close> it waits in the barrier.
\<close>

datatype sched_call =
    Start u32 u32 "bool list" | Join u32 u32 | JoinWoken nat bool | Leave u32 u32 nat | SyscallLeave u32 u32 nat FakeLeaveInfo
  | Sync nat | SyncEnd nat | Finish u32 u32 | MarkForSleep u32 u32 u64 | NotifySleepEnd u32 u32
  | FutexWakeStart u32 u32 u32 | FutexWakeEnd u32 u32 u32 | FutexWaitWoken u32 u32
  | QueueCleanup u32 u32 | BreakFakeLeaves | DriveTime

type_synonym 'r sched_conf = "'r Barrier \<times> 'r Sched \<times> nat set"

definition on_sched :: "('r Sched \<Rightarrow> 'r Sched option) \<Rightarrow> 'r sched_conf \<Rightarrow> 'r sched_conf option" where
  "on_sched f = (\<lambda>(b, s, Y). map_option (\<lambda>s. (b, s, Y)) (f s))"

definition on_both :: "('r Barrier \<times> 'r Sched \<Rightarrow> ('r Barrier \<times> 'r Sched) option) \<Rightarrow> (nat set \<Rightarrow> nat set) \<Rightarrow> 'r sched_conf \<Rightarrow> 'r sched_conf option" where
  "on_both f g = (\<lambda>(b, s, Y). map_option (\<lambda>(b, s). (b, s, g Y)) (f (b, s)))"

fun exec_call :: "('r \<Rightarrow> nat \<Rightarrow> nat \<times> 'r) \<Rightarrow> (u32 \<Rightarrow> int \<Rightarrow> bool) \<Rightarrow> sched_call \<Rightarrow> 'r sched_conf \<Rightarrow> 'r sched_conf option" where
  "exec_call rand black (Start pid tid cmask) c = on_sched (sched_start pid tid cmask) c"
| "exec_call rand black (Join pid tid) c = on_both (sched_join rand pid tid) (\<lambda>Y. Y) c"
| "exec_call rand black (JoinWoken t timeout) c = on_both (sched_join_woken rand t timeout) (\<lambda>Y. Y) c"
| "exec_call rand black (Leave pid tid cid) c = on_both (sched_leave rand pid tid cid) (\<lambda>Y. Y) c"
| "exec_call rand black (SyscallLeave pid tid cid si) c = on_both (syscallLeave rand pid tid cid si) (\<lambda>Y. Y) c"
| "exec_call rand black (Sync cid) c = on_both (sched_sync rand cid) (\<lambda>Y. Y \<union> set_option (cur (fst (snd c)) cid)) c"
| "exec_call rand black (SyncEnd t) c = on_both (sched_sync_end rand t) (\<lambda>Y. Y - {t}) c"
| "exec_call rand black (Finish pid tid) c = on_both (sched_finish rand pid tid) (\<lambda>Y. Y) c"
| "exec_call rand black (MarkForSleep pid tid phase) c = on_sched (markForSleep pid tid phase) c"
| "exec_call rand black (NotifySleepEnd pid tid) c = on_sched (notifySleepEnd pid tid) c"
| "exec_call rand black (FutexWakeStart pid tid n) c = on_sched (notifyFutexWakeStart pid tid n) c"
| "exec_call rand black (FutexWakeEnd pid tid n) c = on_sched (notifyFutexWakeEnd pid tid n) c"
| "exec_call rand black (FutexWaitWoken pid tid) c = on_sched (notifyFutexWaitWoken pid tid) c"
| "exec_call rand black (QueueCleanup pid osPid) c = on_sched (\<lambda>s. Some (queueProcessCleanup pid osPid s)) c"
| "exec_call rand black BreakFakeLeaves c = on_both (break_fake_leaves rand black) (\<lambda>Y. Y) c"
| "exec_call rand black DriveTime c = on_both (drive_time rand) (\<lambda>Y. Y) c"

subsection \<open>Calling conventions\<close>

definition named :: "u32 \<Rightarrow> u32 \<Rightarrow> 'r Sched \<Rightarrow> (nat \<times> ThreadInfo) option" where
  "named pid tid s = do {
     t \<leftarrow> map_of (gidMap s) (getGid pid tid);
     th \<leftarrow> threads s t;
     Some (t, th)
   }"

definition with_thread :: "(nat \<times> ThreadInfo) option \<Rightarrow> (nat \<Rightarrow> ThreadInfo \<Rightarrow> bool) \<Rightarrow> bool" where
  "with_thread x P = (case x of None \<Rightarrow> False | Some (t, th) \<Rightarrow> P t th)"

lemma with_thread_iff: "with_thread x P \<longleftrightarrow> (\<exists>t th. x = Some (t, th) \<and> P t th)"
  by (auto simp: with_thread_def split: option.splits)

lemma named_Some: "named pid tid s = Some (t, th) \<longleftrightarrow> map_of (gidMap s) (getGid pid tid) = Some t \<and> threads s t = Some th"
  by (auto simp: named_def bind_eq_Some_conv)

text \<open>The thread executes simulated code.\<close>

definition in_code :: "'r Barrier \<Rightarrow> nat set \<Rightarrow> nat \<Rightarrow> ThreadInfo \<Rightarrow> bool" where
  "in_code b Y t th \<longleftrightarrow> th_state th = RUNNING \<and> fakeLeave th = None \<and> t \<notin> Y \<and> thS b (th_cid th) = BarState.RUNNING"

fun call_ok :: "sched_call \<Rightarrow> 'r sched_conf \<Rightarrow> bool" where
  "call_ok (Start pid tid cmask) (b, s, Y) \<longleftrightarrow> map_of (gidMap s) (getGid pid tid) = None \<and> length cmask = numCores s \<and> True \<in> set cmask"
| "call_ok (Join pid tid) (b, s, Y) \<longleftrightarrow> with_thread (named pid tid s) (\<lambda>t th. joinable th)"
| "call_ok (JoinWoken t timeout) (b, s, Y) \<longleftrightarrow> (\<exists>th. threads s t = Some th \<and> joinable th \<and> (timeout \<or> wokenUp (futexJoin th) \<le> unmatchedFutexWakeups s))"
| "call_ok (Leave pid tid cid) (b, s, Y) \<longleftrightarrow> with_thread (named pid tid s) (\<lambda>t th. in_code b Y t th \<and> th_cid th = cid)"
| "call_ok (SyscallLeave pid tid cid si) (b, s, Y) \<longleftrightarrow>
     with_thread (named pid tid s) (\<lambda>t th. in_code b Y t th \<and> th_cid th = cid \<and> unat pid < length (blockingSyscalls s))"
| "call_ok (Sync cid) (b, s, Y) \<longleftrightarrow> (\<exists>t th. cur s cid = Some t \<and> threads s t = Some th \<and> in_code b Y t th \<and> \<not> markedForSleep th)"
| "call_ok (SyncEnd t) (b, s, Y) \<longleftrightarrow> t \<in> Y \<and> (\<exists>th. threads s t = Some th \<and> thS b (th_cid th) = BarState.RUNNING)"
| "call_ok (Finish pid tid) (b, s, Y) \<longleftrightarrow> with_thread (named pid tid s) (\<lambda>t th. th_state th \<noteq> SLEEPING \<and> t \<notin> targets s \<and>
     (th_state th = RUNNING \<longrightarrow> \<not> markedForSleep th \<and> t \<notin> Y \<and> thS b (th_cid th) = BarState.RUNNING))"
| "call_ok (MarkForSleep pid tid phase) (b, s, Y) \<longleftrightarrow>
     with_thread (named pid tid s) (\<lambda>t th. in_code b Y t th \<and> \<not> markedForSleep th \<and> curPhase s < phase)"
| "call_ok (NotifySleepEnd pid tid) (b, s, Y) \<longleftrightarrow> with_thread (named pid tid s) (\<lambda>t th. th_state th = SLEEPING \<or> th_state th = BLOCKED)"
| "call_ok (FutexWakeStart pid tid n) (b, s, Y) \<longleftrightarrow> with_thread (named pid tid s) (\<lambda>t th. fj_action (futexJoin th) = FJA_NONE)"
| "call_ok (FutexWakeEnd pid tid n) (b, s, Y) \<longleftrightarrow> named pid tid s \<noteq> None"
| "call_ok (FutexWaitWoken pid tid) (b, s, Y) \<longleftrightarrow> named pid tid s \<noteq> None"
| "call_ok (QueueCleanup pid osPid) (b, s, Y) \<longleftrightarrow> True"
| "call_ok BreakFakeLeaves (b, s, Y) \<longleftrightarrow> fakeLeaves s \<noteq> [] \<and> (\<forall>t th. threads s t = Some th \<longrightarrow> unat (getPid (th_gid th)) < length (blockingSyscalls s)) \<and>
     (\<forall>th si. threads s (hd (fakeLeaves s)) = Some th \<longrightarrow> fakeLeave th = Some si \<longrightarrow> same_process (getPid (th_gid th)) (fl_pc si) s)"
| "call_ok DriveTime (b, s, Y) \<longleftrightarrow> True"

subsection \<open>Which calls fail\<close>

text \<open>\<^verbatim>\<open>futexWakeJoin\<close> asserts this.\<close>

definition wakes_ok :: "'r Sched \<Rightarrow> FutexJoinInfo \<Rightarrow> bool" where
  "wakes_ok s j \<longleftrightarrow> fj_action j = FJA_WAKE \<longrightarrow> maxWakes j \<le> maxAllowedFutexWakeups s \<and> wokenUp j \<le> maxWakes j \<and>
     unmatchedFutexWakeups s \<le> maxAllowedFutexWakeups s - (maxWakes j - wokenUp j)"

text \<open>A \<^verbatim>\<open>join\<close> after a futex wake whose assertions do not hold.\<close>

fun wake_fails :: "sched_call \<Rightarrow> 'r sched_conf \<Rightarrow> bool" where
  "wake_fails (Join pid tid) (b, s, Y) \<longleftrightarrow> with_thread (named pid tid s) (\<lambda>t th. \<not> wakes_ok s (futexJoin th))"
| "wake_fails _ _ \<longleftrightarrow> False"

definition conf_inv :: "('r \<Rightarrow> nat \<Rightarrow> nat \<times> 'r) \<Rightarrow> 'r sched_conf \<Rightarrow> bool" where
  "conf_inv rand = (\<lambda>(b, s, Y). sys_inv rand b s Y)"

lemma named_gid: "sys_inv rand b s Y \<Longrightarrow> named pid tid s = Some (t, th) \<Longrightarrow> th_gid th = getGid pid tid"
  using sys_invD(2) [of rand b s Y] unfolding gid_ok_def named_Some by fastforce

lemma on_sched_ok: "\<exists>s'. f s = Some s' \<and> sys_inv rand b s' Y \<Longrightarrow> \<exists>c'. on_sched f (b, s, Y) = Some c' \<and> conf_inv rand c'"
  by (auto simp: on_sched_def conf_inv_def)

lemma on_both_ok: "\<exists>b' s'. f (b, s) = Some (b', s') \<and> sys_inv rand b' s' (g Y) \<Longrightarrow> \<exists>c'. on_both f g (b, s, Y) = Some c' \<and> conf_inv rand c'"
  by (auto simp: on_both_def conf_inv_def)

lemma call_returns:
  assumes y: "sys_inv rand b s Y" and ok: "call_ok x (b, s, Y)" and wk: "\<not> wake_fails x (b, s, Y)"
  shows "\<exists>c'. exec_call rand black x (b, s, Y) = Some c' \<and> conf_inv rand c'"
proof (cases x)
  case (Start pid tid cmask)
  then have "\<exists>s'. sched_start pid tid cmask s = Some s' \<and> sys_inv rand b s' Y" using start_op [OF y] ok by simp
  then show ?thesis using Start by (simp add: on_sched_ok del: split_paired_Ex)
next
  case (Join pid tid)
  then obtain t th where n: "named pid tid s = Some (t, th)" "joinable th" "wakes_ok s (futexJoin th)" using ok wk by (auto simp: with_thread_iff)
  then have t: "map_of (gidMap s) (getGid pid tid) = Some t" "threads s t = Some th" by (simp_all add: named_Some)
  have "\<exists>b' s'. sched_join rand pid tid (b, s) = Some (b', s') \<and> sys_inv rand b' s' Y"
  proof (cases "fj_action (futexJoin th) = FJA_WAKE")
    case True
    then obtain s' where s': "futexWakeJoin t s = Some s'" using n(3) t(2) by (auto simp: futexWakeJoin_def wakes_ok_def Let_def)
    then have "sched_join rand pid tid (b, s) = Some (b, s')" using t True by (simp add: sched_join_def)
    then show ?thesis using futexWakeJoin_keeps [OF s' y] by simp
  next
    case False
    then show ?thesis by (rule join_op [OF y t(2,1) n(2)])
  qed
  then show ?thesis using Join by (simp add: on_both_ok del: split_paired_Ex)
next
  case (JoinWoken t timeout)
  then obtain th where t: "threads s t = Some th" "joinable th" "timeout \<or> wokenUp (futexJoin th) \<le> unmatchedFutexWakeups s" using ok by auto
  show ?thesis using join_woken_op [OF y t] JoinWoken by (simp add: on_both_ok del: split_paired_Ex)
next
  case (Leave pid tid cid)
  then obtain t th where n: "named pid tid s = Some (t, th)" "in_code b Y t th" "th_cid th = cid" using ok by (auto simp: with_thread_iff)
  have "\<exists>b' s'. sched_leave rand pid tid cid (b, s) = Some (b', s') \<and> sys_inv rand b' s' Y"
    using leave_op [OF y, of t th pid tid cid] n named_gid [OF y n(1)] by (auto simp: named_Some in_code_def)
  then show ?thesis using Leave by (simp add: on_both_ok del: split_paired_Ex)
next
  case (SyscallLeave pid tid cid si)
  then obtain t th where n: "named pid tid s = Some (t, th)" "in_code b Y t th" "th_cid th = cid" "unat pid < length (blockingSyscalls s)"
    using ok by (auto simp: with_thread_iff)
  have "\<exists>b' s'. syscallLeave rand pid tid cid si (b, s) = Some (b', s') \<and> sys_inv rand b' s' Y"
    using syscallLeave_op [OF y, of t th pid tid cid si] n named_gid [OF y n(1)] by (simp add: named_Some in_code_def)
  then show ?thesis using SyscallLeave by (simp add: on_both_ok del: split_paired_Ex)
next
  case (Sync cid)
  then obtain t th where t: "cur s cid = Some t" "threads s t = Some th" "in_code b Y t th" "\<not> markedForSleep th" using ok by auto
  have c: "th_cid th = cid" using ctxD(4) [OF sched_invD(1) [OF sys_invD(1) [OF y]], of cid t] t(1,2) by auto
  have "\<exists>b' s'. sched_sync rand cid (b, s) = Some (b', s') \<and> sys_inv rand b' s' (insert t Y)"
    using sync_op [OF y t(2), of cid] t(3,4) c by (auto simp: in_code_def)
  then show ?thesis using Sync t(1) by (simp add: on_both_ok del: split_paired_Ex)
next
  case (SyncEnd t)
  then obtain th where t: "t \<in> Y" "threads s t = Some th" "thS b (th_cid th) = BarState.RUNNING" using ok by auto
  show ?thesis using sync_end_op [OF y t(2) refl t(1,3)] SyncEnd by (simp add: on_both_ok del: split_paired_Ex)
next
  case (Finish pid tid)
  then obtain t th where n: "named pid tid s = Some (t, th)" "th_state th \<noteq> SLEEPING" "t \<notin> targets s"
    "th_state th = RUNNING \<longrightarrow> \<not> markedForSleep th \<and> t \<notin> Y \<and> thS b (th_cid th) = BarState.RUNNING" using ok by (auto simp: with_thread_iff)
  have "\<exists>b' s'. sched_finish rand pid tid (b, s) = Some (b', s') \<and> sys_inv rand b' s' Y"
    using finish_op [OF y, of t th pid tid] n by (simp add: named_Some)
  then show ?thesis using Finish by (simp add: on_both_ok del: split_paired_Ex)
next
  case (MarkForSleep pid tid phase)
  then obtain t th where n: "named pid tid s = Some (t, th)" "in_code b Y t th" "\<not> markedForSleep th" "curPhase s < phase" using ok by (auto simp: with_thread_iff)
  have "\<exists>s'. markForSleep pid tid phase s = Some s' \<and> sys_inv rand b s' Y"
    using markForSleep_op [OF y, of t th pid tid phase] n by (simp add: named_Some in_code_def)
  then show ?thesis using MarkForSleep by (simp add: on_sched_ok del: split_paired_Ex)
next
  case (NotifySleepEnd pid tid)
  then obtain t th where n: "named pid tid s = Some (t, th)" "th_state th = SLEEPING \<or> th_state th = BLOCKED" using ok by (auto simp: with_thread_iff)
  have "\<exists>s'. notifySleepEnd pid tid s = Some s' \<and> sys_inv rand b s' Y"
    using notifySleepEnd_op [OF y, of t th pid tid] n by (simp add: named_Some)
  then show ?thesis using NotifySleepEnd by (simp add: on_sched_ok del: split_paired_Ex)
next
  case (FutexWakeStart pid tid n)
  then obtain t th where t: "named pid tid s = Some (t, th)" "fj_action (futexJoin th) = FJA_NONE" using ok by (auto simp: with_thread_iff)
  then have "notifyFutexWakeStart pid tid n s \<noteq> None" by (simp add: named_Some notifyFutexWakeStart_def mod_th_def Let_def)
  then have "\<exists>s'. notifyFutexWakeStart pid tid n s = Some s' \<and> sys_inv rand b s' Y" using futex_notify_op(1) [OF y] by blast
  then show ?thesis using FutexWakeStart by (simp add: on_sched_ok del: split_paired_Ex)
next
  case (FutexWakeEnd pid tid n)
  then obtain t th where "named pid tid s = Some (t, th)" using ok by auto
  then have "notifyFutexWakeEnd pid tid n s \<noteq> None" by (simp add: named_Some notifyFutexWakeEnd_def mod_th_def)
  then have "\<exists>s'. notifyFutexWakeEnd pid tid n s = Some s' \<and> sys_inv rand b s' Y" using futex_notify_op(2) [OF y] by blast
  then show ?thesis using FutexWakeEnd by (simp add: on_sched_ok del: split_paired_Ex)
next
  case (FutexWaitWoken pid tid)
  then obtain t th where "named pid tid s = Some (t, th)" using ok by auto
  then have "notifyFutexWaitWoken pid tid s \<noteq> None" by (simp add: named_Some notifyFutexWaitWoken_def mod_th_def)
  then have "\<exists>s'. notifyFutexWaitWoken pid tid s = Some s' \<and> sys_inv rand b s' Y" using futex_notify_op(3) [OF y] by blast
  then show ?thesis using FutexWaitWoken by (simp add: on_sched_ok del: split_paired_Ex)
next
  case (QueueCleanup pid osPid)
  have "\<exists>s'. Some (queueProcessCleanup pid osPid s) = Some s' \<and> sys_inv rand b s' Y" using y by (simp add: queueProcessCleanup_def)
  then show ?thesis using QueueCleanup on_sched_ok [of "\<lambda>s. Some (queueProcessCleanup pid osPid s)"] by simp
next
  case BreakFakeLeaves
  have "\<exists>b' s'. break_fake_leaves rand black (b, s) = Some (b', s') \<and> sys_inv rand b' s' Y"
    by (rule break_fake_leaves_op [OF y]) (use ok BreakFakeLeaves in auto)
  then show ?thesis using BreakFakeLeaves by (simp add: on_both_ok del: split_paired_Ex)
next
  case DriveTime
  have "\<exists>b' s'. drive_time rand (b, s) = Some (b', s') \<and> sys_inv rand b' s' Y" using drive_time_op [OF y] by blast
  then show ?thesis using DriveTime by (simp add: on_both_ok del: split_paired_Ex)
qed

lemma wake_fails_stops:
  assumes "wake_fails x (b, s, Y)"
  shows "exec_call rand black x (b, s, Y) = None"
proof (cases x)
  case (Join pid tid)
  then obtain t th where n: "named pid tid s = Some (t, th)" "\<not> wakes_ok s (futexJoin th)" using assms by (auto simp: with_thread_iff)
  then have a: "fj_action (futexJoin th) = FJA_WAKE" by (simp add: wakes_ok_def)
  have "futexWakeJoin t s = None"
    using n by (auto simp: named_Some futexWakeJoin_def wakes_ok_def Let_def assert_that_def)
  with n a have "sched_join rand pid tid (b, s) = None" by (simp add: named_Some sched_join_def)
  then show ?thesis using Join by (simp add: on_both_def)
qed (use assms in simp_all)

interpretation sched_sys: guarded_calls "conf_inv rand" "exec_call rand black" call_ok wake_fails for rand :: "'r \<Rightarrow> nat \<Rightarrow> nat \<times> 'r" and black
proof unfold_locales
  show "\<exists>c'. exec_call rand black x c = Some c' \<and> conf_inv rand c'" if "conf_inv rand c" "call_ok x c" "\<not> wake_fails x c"
    for c :: "'r sched_conf" and x
    using call_returns that by (cases c) (simp add: conf_inv_def)
  show "exec_call rand black x c = None" if "wake_fails x c" for c :: "'r sched_conf" and x
    using wake_fails_stops that by (cases c) simp
qed

subsection \<open>The start of the simulator\<close>

definition sched_init :: "u32 \<Rightarrow> (nat \<Rightarrow> nat) \<Rightarrow> 'r \<Rightarrow> nat \<Rightarrow> u32 \<Rightarrow> u32 \<Rightarrow> 'r \<Rightarrow> 'r sched_conf" where
  "sched_init par idx brnd cores quantum len srnd = (Barrier_new par idx brnd, Sched_new cores quantum len srnd, {})"

text \<open>A run of the scheduler.\<close>

definition sched_run :: "('r \<Rightarrow> nat \<Rightarrow> nat \<times> 'r) \<Rightarrow> (u32 \<Rightarrow> int \<Rightarrow> bool) \<Rightarrow> 'r sched_conf \<Rightarrow> 'r sched_conf \<Rightarrow> bool" where
  "sched_run rand black = call_run (exec_call rand black) call_ok"

text \<open>The conditions on the configuration: the barrier lets some thread run, the cores fit into the barrier, a quantum
  has a phase, and a random number is in its range.\<close>

definition good_config :: "('r \<Rightarrow> nat \<Rightarrow> nat \<times> 'r) \<Rightarrow> u32 \<Rightarrow> nat \<Rightarrow> u32 \<Rightarrow> bool" where
  "good_config rand par cores quantum \<longleftrightarrow> (\<forall>r i. fst (rand r i) \<le> i) \<and> 0 < par \<and> cores \<le> MAX_THREADS \<and> quantum \<noteq> 0"

lemma init_inv:
  assumes "good_config rand par cores quantum"
  shows "conf_inv rand (sched_init par idx brnd cores quantum len srnd)"
proof -
  let ?s = "Sched_new cores quantum len srnd" and ?b = "Barrier_new par idx brnd"
  have g: "\<forall>r i. fst (rand r i) \<le> i" "0 < par" "cores \<le> MAX_THREADS" "quantum \<noteq> 0" using assms by (simp_all add: good_config_def)
  have n: "threads ?s = Map.empty" "cur ?s = (\<lambda>c. None)" by (auto simp: Sched_new_def cur_def fun_eq_iff)
  have v: "in_state ?s = (\<lambda>st. {})" "targets ?s = {}" "rth ?s = Map.empty" by (auto simp: in_state_def targets_def rth_def n fun_eq_iff)
  have "ctx_inv {} ?s" unfolding ctx_inv_def n using g(3) by (auto simp: Sched_new_def)
  moreover have "thr_inv {} ?s" "queue_inv {} ?s" "hand_inv {} ?s" "work_inv {} ?s" "phase_inv ?s"
    using g(4) by (simp_all add: thr_inv_def queue_inv_def hand_inv_def work_inv_def phase_inv_def v n) (simp_all add: Sched_new_def)
  ultimately have "sched_inv {} {} ?s" by (simp add: sched_inv_def)
  moreover have "gid_ok ?s" by (simp add: gid_ok_def Sched_new_def)
  moreover have "joint rand ?b (rth ?s) (curPhase ?s) {}"
  proof -
    have p: "parallelThreads ?b = par" by (simp add: Barrier_new_def)
    have ok: "bar_ok rand ?b" using new_inv [of par idx brnd] g p by (simp add: bar_ok_def bar_pre_def)
    have s: "thS ?b t = OFFLINE" if "t < MAX_THREADS" for t using that by (simp add: thS_def Barrier_new_def)
    have "inb ?b = {}" using s by (auto simp: inb_def)
    moreover have "behind ?b = {}"
      by (simp add: behind_def Barrier_new_def)
    ultimately show ?thesis using ok by (simp add: joint_def v cids_def)
  qed
  ultimately show ?thesis by (simp add: conf_inv_def sched_init_def sys_inv_def)
qed

lemma run_sys_inv:
  assumes "sched_run rand black (sched_init par idx brnd cores quantum len srnd) (b, s, Y)" "good_config rand par cores quantum"
  shows "sys_inv rand b s Y"
  using sched_sys.call_run_inv [OF assms(1) [unfolded sched_run_def] init_inv [OF assms(2)]] by (simp add: conf_inv_def)

subsection \<open>A run on one core\<close>

text \<open>Thread 0 gets the core, thread 1 queues up for it.\<close>

definition demo_rand :: "nat \<Rightarrow> nat \<Rightarrow> nat \<times> nat" where
  "demo_rand r i = (0, r)"

definition demo_black :: "u32 \<Rightarrow> int \<Rightarrow> bool" where
  "demo_black pid n = False"

definition demo_new :: "u32 \<Rightarrow> ThreadInfo" where
  "demo_new gid = \<lparr>th_gid = gid, th_state = STARTED, th_cid = 0, handoffThread = None, th_futexWord = 0, needsJoin = False, markedForSleep = False,
     wakeupPhase = 0, th_mask = [True], fakeLeave = None, futexJoin = \<lparr>fj_action = FJA_NONE, maxWakes = 0, wokenUp = 0\<rparr>\<rparr>"

definition demo1 :: "nat Sched" where
  "demo1 = (Sched_new 1 1 1000 0)\<lparr>gidMap := [(0, 0)], nextThread := 1, threads := [0 \<mapsto> demo_new 0]\<rparr>"

definition demo2 :: "nat Sched" where
  "demo2 = log_core (CORE_JOIN 0) (sched_st 0 0 (demo_new 0) (demo1\<lparr>freeList := []\<rparr>))"

definition demo3 :: "nat Sched" where
  "demo3 = demo2\<lparr>gidMap := [(1, 1), (0, 0)], nextThread := 2, threads := (threads demo2)(1 \<mapsto> demo_new 1)\<rparr>"

definition demo4 :: "nat Sched" where
  "demo4 = demo3\<lparr>threads := (threads demo3)(1 \<mapsto> (demo_new 1)\<lparr>th_state := QUEUED, th_futexWord := 1\<rparr>), runQueue := [1]\<rparr>"

lemma demo_gids: "getGid 0 0 = 0" "getGid 0 1 = 1"
  by (simp_all add: getGid_def)

lemma demo_start1: "exec_call demo_rand demo_black (Start 0 0 [True]) (sched_init 1 (\<lambda>_. 0) 0 1 1 1000 0) = Some (Barrier_new 1 (\<lambda>_. 0) 0, demo1, {})"
  by (simp add: on_sched_def sched_init_def sched_start_def demo_gids demo1_def demo_new_def Sched_new_def)

lemma demo_join1: "exec_call demo_rand demo_black (Join 0 0) (Barrier_new 1 (\<lambda>_. 0) 0, demo1, {}) = Some (one_running, demo2, {})"
proof -
  have f: "threads demo1 0 = Some (demo_new 0)" "map_of (gidMap demo1) 0 = Some 0" "numCores demo1 = 1" "freeList demo1 = [0]"
    "contexts demo1 = [\<lparr>ctx_state = IDLE, curThread = None\<rparr>]" by (simp_all add: demo1_def Sched_new_def)
  have n: "th_state (demo_new g) = STARTED" "th_cid (demo_new g) = 0" "th_mask (demo_new g) = [True]" "fakeLeave (demo_new g) = None"
    "markedForSleep (demo_new g) = False" "fj_action (futexJoin (demo_new g)) = FJA_NONE" for g by (simp_all add: demo_new_def)
  have s1: "schedThread 0 demo1 = Some (Some 0, demo1\<lparr>freeList := []\<rparr>)" by (simp add: schedThread_def free_remove_def read_at_def f n)
  have s2: "schedule 0 0 (demo1\<lparr>freeList := []\<rparr>) = Some (sched_st 0 0 (demo_new 0) (demo1\<lparr>freeList := []\<rparr>))"
    by (simp add: schedule_def sched_st_def read_at_def f n)
  have "join_rest demo_rand 0 (Barrier_new 1 (\<lambda>_. 0) 0, demo1) = Some (one_running, demo2)"
    by (simp add: join_rest_def f n s1 s2 enter_barrier_def one_running_join flip: demo2_def)
  then show ?thesis by (simp add: on_both_def sched_join_def demo_gids f n)
qed

lemma demo2_fields: "threads demo2 0 = Some ((demo_new 0)\<lparr>th_state := RUNNING, th_cid := 0\<rparr>)" "gidMap demo2 = [(0, 0)]" "numCores demo2 = 1" "freeList demo2 = []"
  "contexts demo2 = [\<lparr>ctx_state = USED, curThread = Some 0\<rparr>]" "nextThread demo2 = 1" "outQueue demo2 = []" "runQueue demo2 = []" "sleepQueue demo2 = []"
  by (simp_all add: demo2_def demo1_def Sched_new_def)

lemma demo_start2: "exec_call demo_rand demo_black (Start 0 1 [True]) (one_running, demo2, {}) = Some (one_running, demo3, {})"
  by (simp add: on_sched_def sched_start_def demo_gids demo3_def demo_new_def demo2_fields)

lemma demo3_fields: "threads demo3 0 = Some ((demo_new 0)\<lparr>th_state := RUNNING, th_cid := 0\<rparr>)" "threads demo3 1 = Some (demo_new 1)" "gidMap demo3 = [(1, 1), (0, 0)]"
  "numCores demo3 = 1" "freeList demo3 = []" "contexts demo3 = [\<lparr>ctx_state = USED, curThread = Some 0\<rparr>]" "outQueue demo3 = []" "runQueue demo3 = []" "sleepQueue demo3 = []"
  by (simp_all add: demo3_def demo2_fields)

lemma demo_join2: "exec_call demo_rand demo_black (Join 0 1) (one_running, demo3, {}) = Some (one_running, demo4, {})"
proof -
  note f = demo3_fields
  have n: "th_state (demo_new g) = STARTED" "th_cid (demo_new g) = 0" "th_mask (demo_new g) = [True]" "fakeLeave (demo_new g) = None"
    "markedForSleep (demo_new g) = False" "fj_action (futexJoin (demo_new g)) = FJA_NONE" for g by (simp_all add: demo_new_def)
  have s1: "schedThread 1 demo3 = Some (None, demo3)" by (simp add: schedThread_def read_at_def f [unfolded One_nat_def] f n)
  have s2: "do { s \<leftarrow> mod_th 1 (\<lambda>th. th\<lparr>th_state := QUEUED\<rparr>) demo3; s \<leftarrow> run_push 1 s; s \<leftarrow> wait_start 1 s; Some (one_running, s) } = Some (one_running, demo4)"
    by (auto simp: mod_th_def run_push_def wait_start_def unqueued_def f [unfolded One_nat_def] f demo4_def intro!: Sched.equality)
  have "join_rest demo_rand 1 (one_running, demo3) = Some (one_running, demo4)"
    using s2 by (simp add: join_rest_def f [unfolded One_nat_def] n s1 [unfolded One_nat_def])
  then show ?thesis by (simp add: on_both_def sched_join_def demo_gids f [unfolded One_nat_def] n)
qed

lemma demo_run3: "sched_run demo_rand demo_black (sched_init 1 (\<lambda>_. 0) 0 1 1 1000 0) (one_running, demo3, {})"
proof -
  let ?r = "call_run (exec_call demo_rand demo_black) call_ok (sched_init 1 (\<lambda>_. 0) 0 1 1 1000 0)"
  have n: "joinable (demo_new g)" "fj_action (futexJoin (demo_new g)) = FJA_NONE" for g by (simp_all add: demo_new_def joinable_def)
  have "?r (Barrier_new 1 (\<lambda>_. 0) 0, demo1, {})"
    by (rule call_run.call [where exec = "exec_call demo_rand demo_black" and ok = call_ok and x = "Start 0 0 [True]", OF _ _ demo_start1], rule call_run.none) (simp add: sched_init_def Sched_new_def)
  then have "?r (one_running, demo2, {})"
    by (rule call_run.call [where exec = "exec_call demo_rand demo_black" and ok = call_ok and x = "Join 0 0", OF _ _ demo_join1]) (simp add: with_thread_iff named_def demo_gids demo1_def n)
  then have "?r (one_running, demo3, {})"
    by (rule call_run.call [where exec = "exec_call demo_rand demo_black" and ok = call_ok and x = "Start 0 1 [True]", OF _ _ demo_start2]) (simp add: demo_gids demo2_fields)
  then show ?thesis by (simp add: sched_run_def)
qed

lemma demo_run: "sched_run demo_rand demo_black (sched_init 1 (\<lambda>_. 0) 0 1 1 1000 0) (one_running, demo4, {})"
proof -
  let ?r = "call_run (exec_call demo_rand demo_black) call_ok (sched_init 1 (\<lambda>_. 0) 0 1 1 1000 0)"
  have n: "joinable (demo_new g)" "fj_action (futexJoin (demo_new g)) = FJA_NONE" for g by (simp_all add: demo_new_def joinable_def)
  have "?r (one_running, demo3, {})" using demo_run3 by (simp add: sched_run_def)
  then have "?r (one_running, demo4, {})"
    by (rule call_run.call [where exec = "exec_call demo_rand demo_black" and ok = call_ok and x = "Join 0 1", OF _ _ demo_join2]) (simp add: with_thread_iff named_def demo_gids demo3_fields [unfolded One_nat_def] n)
  then show ?thesis by (simp add: sched_run_def)
qed

lemma demo_config: "good_config demo_rand 1 1 1"
  by (simp add: good_config_def demo_rand_def max_pos MAX_THREADS_def)

subsection \<open>Properties of every run\<close>

lemma not_used: "ctx_inv {} s \<Longrightarrow> c < length (contexts s) \<Longrightarrow> contexts s ! c = \<lparr>ctx_state = (if cur s c = None then IDLE else USED), curThread = cur s c\<rparr>"
  using ctxD(1,3) by metis

text \<open>C14: In every run of the scheduler its tables agree. A context is in use exactly when it has a thread, and this
  thread is running or out, names the context as its own and may run there by its mask; every other context
  is in the free list, once. A running thread and one that is out has a context. No thread is in two queues or
  twice in one; the threads that are out and those that sleep are the ones in the queues of these states, those in
  the run queue are queued; the sleeping threads are in the order of their wakeup phases, which are all to come.\<close>

theorem sched_well_formed:
  assumes "sched_run rand black (sched_init par idx brnd cores quantum len srnd) (b, s, Y)" and "good_config rand par cores quantum"
  shows "(\<forall>c<length (contexts s). case curThread (contexts s ! c) of
        None \<Rightarrow> ctx_state (contexts s ! c) = IDLE \<and> c \<in> set (freeList s)
      | Some t \<Rightarrow> ctx_state (contexts s ! c) = USED \<and> c \<notin> set (freeList s) \<and>
          (\<exists>th. threads s t = Some th \<and> th_cid th = c \<and> (th_state th = RUNNING \<or> th_state th = OUT) \<and> th_mask th ! c)) \<and>
    (\<forall>t th. threads s t = Some th \<and> (th_state th = RUNNING \<or> th_state th = OUT) \<longrightarrow>
        th_cid th < length (contexts s) \<and> curThread (contexts s ! th_cid th) = Some t) \<and>
    distinct (freeList s) \<and> distinct (runQueue s @ outQueue s @ sleepQueue s) \<and>
    set (outQueue s) = {t. \<exists>th. threads s t = Some th \<and> th_state th = OUT} \<and>
    set (sleepQueue s) = {t. \<exists>th. threads s t = Some th \<and> th_state th = SLEEPING} \<and>
    set (runQueue s) \<subseteq> {t. \<exists>th. threads s t = Some th \<and> th_state th = QUEUED} \<and>
    sorted (map (wakeup_of s) (sleepQueue s)) \<and> (\<forall>t\<in>set (sleepQueue s). curPhase s < wakeup_of s t)"
proof -
  note i = sys_invD(1) [OF run_sys_inv [OF assms]]
  note I = sched_invD [OF i]
  note C = ctxD [OF I(1)] and Q = queueD [OF I(3)]
  have q: "set (outQueue s) = {t. \<exists>th. threads s t = Some th \<and> th_state th = OUT}"
    "set (sleepQueue s) = {t. \<exists>th. threads s t = Some th \<and> th_state th = SLEEPING}"
    "set (runQueue s) \<subseteq> {t. \<exists>th. threads s t = Some th \<and> th_state th = QUEUED}" using Q(4-6) by (auto simp: in_state_def)
  then have d: "distinct (runQueue s @ outQueue s @ sleepQueue s)" using Q(1-3) by fastforce
  have "case curThread (contexts s ! c) of
        None \<Rightarrow> ctx_state (contexts s ! c) = IDLE \<and> c \<in> set (freeList s)
      | Some t \<Rightarrow> ctx_state (contexts s ! c) = USED \<and> c \<notin> set (freeList s) \<and>
          (\<exists>th. threads s t = Some th \<and> th_cid th = c \<and> (th_state th = RUNNING \<or> th_state th = OUT) \<and> th_mask th ! c)"
    if c: "c < length (contexts s)" for c
  proof (cases "cur s c")
    case None
    then show ?thesis using not_used [OF I(1) c] C(1,6) c by simp
  next
    case (Some t)
    then obtain th where th: "threads s t = Some th" "active th" "th_cid th = c" using C(4) by blast
    then have "th_mask th ! c" using thread_ok(1) [OF i th(1)] by (auto simp: th_ok_def)
    then show ?thesis using not_used [OF I(1) c] C(6) Some th by (auto simp: active_def)
  qed
  moreover have "th_cid th < length (contexts s) \<and> curThread (contexts s ! th_cid th) = Some t"
    if "threads s t = Some th" "th_state th = RUNNING \<or> th_state th = OUT" for t th
    using cur_of [OF I(1) that(1) _ refl] that(2) C(1) not_used [OF I(1), of "th_cid th"] by (simp add: active_def)
  ultimately show ?thesis using q d C(5) Q(7,8) by blast
qed

theorem sched_well_formed_witness:
  "(\<exists>th. threads demo4 0 = Some th \<and> th_cid th = 0 \<and> (th_state th = RUNNING \<or> th_state th = OUT) \<and> th_mask th ! 0) \<and>
    distinct (runQueue demo4 @ outQueue demo4 @ sleepQueue demo4) \<and> runQueue demo4 = [1]"
proof -
  have c: "contexts demo4 = [\<lparr>ctx_state = USED, curThread = Some 0\<rparr>]" "runQueue demo4 = [1]" by (simp_all add: demo4_def demo3_fields)
  note w = sched_well_formed [OF demo_run demo_config]
  from w [THEN conjunct1] have "\<exists>th. threads demo4 0 = Some th \<and> th_cid th = 0 \<and> (th_state th = RUNNING \<or> th_state th = OUT) \<and> th_mask th ! 0"
    using c(1) by simp
  then show ?thesis using w [THEN conjunct2, THEN conjunct2, THEN conjunct2, THEN conjunct1] c(2) by blast
qed

text \<open>C13: In every run of the scheduler, a call that keeps to its calling convention (\<open>call_ok\<close>) returns, with one
  exception: \<^verbatim>\<open>join\<close> of a thread that comes back from a futex wake stops the simulator exactly when one of
  the assertions of \<^verbatim>\<open>futexWakeJoin\<close> on the counters of futex wakeups fails. No other assertion fails, no null
  pointer is read and no wakeup races, in the scheduler, in the barrier it calls and in the callback at the end
  of a phase, whichever threads it wakes and hands contexts to. That it happens in a run is shown below.
  (The convention on fake leaves asks that the threads at one pc belong to one process.)\<close>

theorem sched_calls_return:
  assumes "sched_run rand black (sched_init par idx brnd cores quantum len srnd) (b, s, Y)" and "good_config rand par cores quantum"
    and "call_ok x (b, s, Y)"
  shows "exec_call rand black x (b, s, Y) = None \<longleftrightarrow>
    (\<exists>pid tid t th. x = Join pid tid \<and> named pid tid s = Some (t, th) \<and> fj_action (futexJoin th) = FJA_WAKE \<and>
       \<not> (maxWakes (futexJoin th) \<le> maxAllowedFutexWakeups s \<and> wokenUp (futexJoin th) \<le> maxWakes (futexJoin th) \<and>
          unmatchedFutexWakeups s \<le> maxAllowedFutexWakeups s - (maxWakes (futexJoin th) - wokenUp (futexJoin th))))"
proof -
  have "exec_call rand black x (b, s, Y) = None \<longleftrightarrow> wake_fails x (b, s, Y)"
    by (rule sched_sys.run_returns [OF assms(1) [unfolded sched_run_def] init_inv [OF assms(2)] assms(3)])
  then show ?thesis by (cases x) (simp_all add: with_thread_iff wakes_ok_def)
qed

theorem sched_calls_return_witness:
  "exec_call demo_rand demo_black (Sync 0) (one_running, demo4, {}) \<noteq> None"
proof -
  have t: "cur demo4 0 = Some 0" "threads demo4 0 = Some ((demo_new 0)\<lparr>th_state := RUNNING, th_cid := 0\<rparr>)"
    by (simp_all add: cur_def demo4_def demo3_fields)
  have "thS one_running 0 = BarState.RUNNING" by (simp add: thS_def one_running_def Barrier_new_def max_pos)
  then have "call_ok (Sync 0) (one_running, demo4, {})" using t by (simp add: in_code_def) (simp add: demo_new_def)
  from sched_calls_return [OF demo_run demo_config this] show ?thesis by simp
qed

text \<open>C15: The scheduler is work conserving: while a thread waits in the run queue, every core that its mask allows has
  a running thread; no core is idle and no thread keeps one while it is out.\<close>

theorem sched_work_conserving:
  assumes "sched_run rand black (sched_init par idx brnd cores quantum len srnd) (b, s, Y)" and "good_config rand par cores quantum"
    and "t \<in> set (runQueue s)" and "threads s t = Some th" and "c < length (contexts s)" and "th_mask th ! c"
  shows "\<exists>v vh. curThread (contexts s ! c) = Some v \<and> threads s v = Some vh \<and> th_state vh = RUNNING"
proof -
  note I = sched_invD [OF sys_invD(1) [OF run_sys_inv [OF assms(1,2)]]]
  have "runs s c" using workD [OF I(5) assms(3,4) _ assms(6)] assms(5) ctxD(1) [OF I(1)] by simp
  then show ?thesis using assms(5) by (auto simp: runs_def cur_def)
qed

theorem sched_work_conserving_witness:
  "\<exists>v vh. curThread (contexts demo4 ! 0) = Some v \<and> threads demo4 v = Some vh \<and> th_state vh = RUNNING"
  by (rule sched_work_conserving [OF demo_run demo_config, of 1 "(demo_new 1)\<lparr>th_state := QUEUED, th_futexWord := 1\<rparr>"])
    (simp_all add: demo4_def demo3_fields demo_new_def)

text \<open>C17: The barrier and the scheduler agree: the barrier counts a core as inside, waiting or running, exactly when the
  context of the core has a running thread, although contexts pass from thread to thread without a leave and a join.\<close>

theorem barrier_holds_running:
  assumes "sched_run rand black (sched_init par idx brnd cores quantum len srnd) (b, s, Y)" and "good_config rand par cores quantum"
    and "c < MAX_THREADS"
  shows "bs_state (threadList b ! c) \<in> {WAITING, BarState.RUNNING} \<longleftrightarrow>
    c < length (contexts s) \<and> (\<exists>v vh. curThread (contexts s ! c) = Some v \<and> threads s v = Some vh \<and> th_state vh = RUNNING)"
proof -
  note y = sys_invD [OF run_sys_inv [OF assms(1,2)]]
  have "bs_state (threadList b ! c) \<in> {WAITING, BarState.RUNNING} \<longleftrightarrow> c \<in> inb b" using assms(3) by (auto simp: inb_def thS_def)
  also have "\<dots> \<longleftrightarrow> runs s c" using jointD(2) [OF y(3)] runs_rth [OF sched_invD(1) [OF y(1)], of c] by (simp add: cids_def)
  also have "\<dots> \<longleftrightarrow> c < length (contexts s) \<and> (\<exists>v vh. curThread (contexts s ! c) = Some v \<and> threads s v = Some vh \<and> th_state vh = RUNNING)"
    by (auto simp: runs_def cur_def split: if_splits)
  finally show ?thesis .
qed

theorem barrier_holds_running_witness:
  "bs_state (threadList one_running ! 0) \<in> {WAITING, BarState.RUNNING} \<longleftrightarrow>
    0 < length (contexts demo4) \<and> (\<exists>v vh. curThread (contexts demo4 ! 0) = Some v \<and> threads demo4 v = Some vh \<and> th_state vh = RUNNING)"
  by (rule barrier_holds_running [OF demo_run demo_config max_pos(1)])

text \<open>C16: No queued thread is lost: it waits on its futex, so that its wakeup cannot race, and either it is in
  the run queue or exactly one running thread, which is in \<^verbatim>\<open>sync\<close> and has a context the queued thread may
  use, is going to hand this context to it.\<close>

theorem queued_thread_served:
  assumes "sched_run rand black (sched_init par idx brnd cores quantum len srnd) (b, s, Y)" and "good_config rand par cores quantum"
    and "threads s t = Some th" and "th_state th = QUEUED"
  shows "th_futexWord th = 1 \<and> ((t \<in> set (runQueue s)) \<noteq>
    (\<exists>!v. v \<in> Y \<and> (\<exists>vh. threads s v = Some vh \<and> th_state vh = RUNNING \<and> handoffThread vh = Some t \<and> th_mask th ! th_cid vh)))"
proof -
  note y = sys_invD [OF run_sys_inv [OF assms(1,2)]]
  note I = sched_invD [OF y(1)]
  let ?P = "\<lambda>v. v \<in> Y \<and> (\<exists>vh. threads s v = Some vh \<and> th_state vh = RUNNING \<and> handoffThread vh = Some t \<and> th_mask th ! th_cid vh)"
  have q: "t \<in> set (runQueue s) \<longleftrightarrow> t \<notin> targets s" using in_queues(1) [OF y(1) assms(3)] assms(4) by simp
  have "(\<exists>!v. ?P v) \<longleftrightarrow> t \<in> targets s"
  proof
    assume "\<exists>!v. ?P v"
    then show "t \<in> targets s" unfolding targets_def by blast
  next
    assume "t \<in> targets s"
    then obtain v vh where v: "threads s v = Some vh" "handoffThread vh = Some t" by (auto simp: targets_def)
    have h: "th_state vh = RUNNING" "th_mask th ! th_cid vh" using handD(1) [OF I(4) v] assms(3) by auto
    then have "rth s v = Some vh" using v by simp
    then have "v \<in> Y" using jointD(5) [OF y(3), of v vh] v(2) by (simp add: pending_ok_def)
    show "\<exists>!v. ?P v"
    proof (rule ex1I [of _ v])
      show "?P v" using \<open>v \<in> Y\<close> v h by blast
      show "w = v" if "?P w" for w using that handD(2) [OF I(4) v(1) _ v(2)] by blast
    qed
  qed
  then show ?thesis using q thread_ok(2) [OF y(1) assms(3)] assms(4) by simp
qed

theorem queued_thread_served_witness:
  "th_futexWord (the (threads demo4 1)) = 1 \<and> ((1 \<in> set (runQueue demo4)) \<noteq>
    (\<exists>!v. v \<in> {} \<and> (\<exists>vh. threads demo4 v = Some vh \<and> th_state vh = RUNNING \<and> handoffThread vh = Some 1 \<and> th_mask (the (threads demo4 1)) ! th_cid vh)))"
proof (rule queued_thread_served [OF demo_run demo_config])
  show "threads demo4 1 = Some (the (threads demo4 1))" "th_state (the (threads demo4 1)) = QUEUED" by (simp_all add: demo4_def)
qed

subsection \<open>A wake from outside\<close>

definition ext_si :: FakeLeaveInfo where
  "ext_si = \<lparr>fl_pc = 0, syscallNumber = 202, fl_arg0 = 0, fl_arg1 = 0\<rparr>"

definition ext_waker :: "FutexJoinAction \<Rightarrow> FakeLeaveInfo option \<Rightarrow> ThreadInfo" where
  "ext_waker a f = (demo_new 0)\<lparr>th_state := RUNNING, fakeLeave := f, futexJoin := \<lparr>fj_action = a, maxWakes = 1, wokenUp = 0\<rparr>\<rparr>"

definition ext1 :: "nat Sched" where
  "ext1 = demo3\<lparr>maxAllowedFutexWakeups := 1, threads := (threads demo3)(0 \<mapsto> ext_waker FJA_NONE None)\<rparr>"

definition ext2 :: "nat Sched" where
  "ext2 = ext1\<lparr>threads := (threads ext1)(0 \<mapsto> ext_waker FJA_NONE (Some ext_si)), fakeLeaves := [0]\<rparr>"

definition ext3 :: "nat Sched" where
  "ext3 = ext2\<lparr>threads := (threads ext2)(1 \<mapsto> (demo_new 1)\<lparr>futexJoin := \<lparr>fj_action = FJA_WAIT, maxWakes = 0, wokenUp = 0\<rparr>\<rparr>)\<rparr>"

definition ext4 :: "nat Sched" where
  "ext4 = ext3\<lparr>unmatchedFutexWakeups := 1, threads := (threads ext3)(1 \<mapsto> (demo_new 1)\<lparr>th_state := QUEUED, th_futexWord := 1\<rparr>), runQueue := [1]\<rparr>"

definition ext5 :: "nat Sched" where
  "ext5 = ext4\<lparr>threads := (threads ext4)(0 \<mapsto> ext_waker FJA_WAKE (Some ext_si))\<rparr>"

lemmas ext_defs = ext1_def ext2_def ext3_def ext4_def ext5_def

lemma ext_gid: "gidMap ext1 = [(1, 1), (0, 0)]" "gidMap ext2 = [(1, 1), (0, 0)]" "gidMap ext3 = [(1, 1), (0, 0)]" "gidMap ext4 = [(1, 1), (0, 0)]" "gidMap ext5 = [(1, 1), (0, 0)]"
  by (simp_all add: ext_defs demo3_fields)

lemma ext_threads: "threads ext1 = [0 \<mapsto> ext_waker FJA_NONE None, 1 \<mapsto> demo_new 1]" "threads ext2 = [0 \<mapsto> ext_waker FJA_NONE (Some ext_si), 1 \<mapsto> demo_new 1]"
  "threads ext3 = [0 \<mapsto> ext_waker FJA_NONE (Some ext_si), 1 \<mapsto> (demo_new 1)\<lparr>futexJoin := \<lparr>fj_action = FJA_WAIT, maxWakes = 0, wokenUp = 0\<rparr>\<rparr>]"
  "threads ext4 = [0 \<mapsto> ext_waker FJA_NONE (Some ext_si), 1 \<mapsto> (demo_new 1)\<lparr>th_state := QUEUED, th_futexWord := 1\<rparr>]"
  "threads ext5 = [0 \<mapsto> ext_waker FJA_WAKE (Some ext_si), 1 \<mapsto> (demo_new 1)\<lparr>th_state := QUEUED, th_futexWord := 1\<rparr>]"
  by (auto simp: ext_defs demo3_def demo2_def demo1_def Sched_new_def fun_eq_iff)

lemma ext_step1: "exec_call demo_rand demo_black (FutexWakeStart 0 0 1) (one_running, demo3, {}) = Some (one_running, ext1, {})"
  by (simp add: on_sched_def notifyFutexWakeStart_def demo_gids demo3_fields mod_th_def MIN2_def Let_def)
     (simp add: ext1_def ext_waker_def demo_new_def demo3_def demo2_def demo1_def Sched_new_def)

lemma ext_step2: "exec_call demo_rand demo_black (SyscallLeave 0 0 0 ext_si) (one_running, ext1, {}) = Some (one_running, ext2, {})"
proof -
  have c: "contexts ext1 = [\<lparr>ctx_state = USED, curThread = Some 0\<rparr>]" "blockingSyscalls ext1 = replicate MAX_THREADS {}" "fakeLeaves ext1 = []"
    by (simp_all add: ext1_def demo3_def demo2_def demo1_def Sched_new_def)
  have w: "th_gid (ext_waker a f) = 0" "th_state (ext_waker a f) = RUNNING" "th_cid (ext_waker a f) = 0" "markedForSleep (ext_waker a f) = False"
    "fakeLeave (ext_waker a f) = f" "(ext_waker a f)\<lparr>fakeLeave := Some ext_si\<rparr> = ext_waker a (Some ext_si)" for a f
    by (simp_all add: ext_waker_def demo_new_def)
  show ?thesis
    by (simp add: on_both_def syscallLeave_def c read_at_def ext_threads demo_gids w mod_th_def max_pos) (simp add: ext2_def ext_threads w)
qed

lemma ext_step3: "exec_call demo_rand demo_black (FutexWaitWoken 0 1) (one_running, ext2, {}) = Some (one_running, ext3, {})"
  by (simp add: on_sched_def notifyFutexWaitWoken_def demo_gids ext_gid mod_th_def ext_threads ext3_def)

lemma ext_step5: "exec_call demo_rand demo_black (FutexWakeEnd 0 0 0) (one_running, ext4, {}) = Some (one_running, ext5, {})"
  by (simp add: on_sched_def notifyFutexWakeEnd_def demo_gids ext_gid mod_th_def ext_threads) (simp add: ext5_def ext_threads ext_waker_def)

lemma ext_step4: "exec_call demo_rand demo_black (Join 0 1) (one_running, ext3, {}) = Some (one_running, ext4, {})"
proof -
  let ?w = "(demo_new 1)\<lparr>futexJoin := \<lparr>fj_action = FJA_WAIT, maxWakes = 0, wokenUp = 0\<rparr>\<rparr>"
  have f: "threads ext3 1 = Some ?w" "gidMap ext3 = [(1, 1), (0, 0)]" "numCores ext3 = 1" "freeList ext3 = []"
    "contexts ext3 = [\<lparr>ctx_state = USED, curThread = Some 0\<rparr>]" "outQueue ext3 = []" "runQueue ext3 = []" "sleepQueue ext3 = []"
    "unmatchedFutexWakeups ext3 = 0" "maxAllowedFutexWakeups ext3 = 1"
    by (simp_all add: ext_threads ext_gid) (simp_all add: ext_defs demo3_fields, simp_all add: demo3_def demo2_def demo1_def Sched_new_def)
  define s where "s = ext3\<lparr>unmatchedFutexWakeups := 1, threads := (threads ext3)(1 \<mapsto> demo_new 1)\<rparr>"
  have n: "th_state (demo_new g) = STARTED" "th_cid (demo_new g) = 0" "th_mask (demo_new g) = [True]" "fakeLeave (demo_new g) = None"
    "markedForSleep (demo_new g) = False" "futexJoin (demo_new g) = \<lparr>fj_action = FJA_NONE, maxWakes = 0, wokenUp = 0\<rparr>" for g by (simp_all add: demo_new_def)
  have c: "?w\<lparr>futexJoin := (futexJoin ?w)\<lparr>fj_action := FJA_NONE\<rparr>\<rparr> = demo_new 1" by (simp add: demo_new_def)
  have a: "futexWaitJoin 1 ext3 = Some (ext3\<lparr>unmatchedFutexWakeups := 1\<rparr>)" using f(1) by (simp add: futexWaitJoin_def f(9,10))
  have d: "clear_action 1 (ext3\<lparr>unmatchedFutexWakeups := 1\<rparr>) = Some s" using f(1) c by (simp add: clear_action_def mod_th_def s_def)
  have g: "threads s 1 = Some (demo_new 1)" "numCores s = 1" "freeList s = []" "contexts s = [\<lparr>ctx_state = USED, curThread = Some 0\<rparr>]"
    "outQueue s = []" "runQueue s = []" "sleepQueue s = []" by (simp_all add: s_def f)
  have s1: "schedThread 1 s = Some (None, s)" by (simp add: schedThread_def read_at_def g [unfolded One_nat_def] g n)
  have s2: "do { s \<leftarrow> mod_th 1 (\<lambda>th. th\<lparr>th_state := QUEUED\<rparr>) s; s \<leftarrow> run_push 1 s; s \<leftarrow> wait_start 1 s; Some (one_running, s) } = Some (one_running, ext4)"
    by (auto simp: mod_th_def run_push_def wait_start_def unqueued_def g [unfolded One_nat_def] g ext4_def f s_def intro!: Sched.equality)
  have "join_rest demo_rand 1 (one_running, s) = Some (one_running, ext4)"
    using s2 by (simp add: join_rest_def g [unfolded One_nat_def] n s1 [unfolded One_nat_def])
  then show ?thesis using a d by (simp add: on_both_def sched_join_def demo_gids f [unfolded One_nat_def])
qed

lemma ext_run: "sched_run demo_rand demo_black (sched_init 1 (\<lambda>_. 0) 0 1 1 1000 0) (one_running, ext5, {})"
proof -
  let ?r = "call_run (exec_call demo_rand demo_black) call_ok (sched_init 1 (\<lambda>_. 0) 0 1 1 1000 0)"
  note step = call_run.call [where exec = "exec_call demo_rand demo_black" and ok = call_ok]
  have k: "thS one_running 0 = BarState.RUNNING" by (simp add: thS_def one_running_def Barrier_new_def max_pos)
  have w: "th_gid (ext_waker a f) = 0" "th_state (ext_waker a f) = RUNNING" "th_cid (ext_waker a f) = 0" "fakeLeave (ext_waker a f) = f"
    "fj_action (futexJoin (ext_waker a f)) = a" for a f by (simp_all add: ext_waker_def demo_new_def)
  have b: "length (blockingSyscalls ext1) = MAX_THREADS" by (simp add: ext1_def demo3_def demo2_def demo1_def Sched_new_def)
  have "?r (one_running, demo3, {})" using demo_run3 by (simp add: sched_run_def)
  then have "?r (one_running, ext1, {})"
    by (rule step [where x = "FutexWakeStart 0 0 1", OF _ _ ext_step1]) (simp add: with_thread_iff named_def demo_gids demo3_fields, simp add: demo_new_def)
  then have "?r (one_running, ext2, {})"
    by (rule step [where x = "SyscallLeave 0 0 0 ext_si", OF _ _ ext_step2]) (simp add: with_thread_iff named_def demo_gids ext_gid ext_threads in_code_def w b k max_pos)
  then have "?r (one_running, ext3, {})"
    by (rule step [where x = "FutexWaitWoken 0 1", OF _ _ ext_step3]) (simp add: named_def demo_gids ext_gid ext_threads)
  then have "?r (one_running, ext4, {})"
    by (rule step [where x = "Join 0 1", OF _ _ ext_step4]) (simp add: with_thread_iff named_def demo_gids ext_gid ext_threads joinable_def, simp add: demo_new_def)
  then have "?r (one_running, ext5, {})"
    by (rule step [where x = "FutexWakeEnd 0 0 0", OF _ _ ext_step5]) (simp add: named_def demo_gids ext_gid ext_threads)
  then show ?thesis by (simp add: sched_run_def)
qed

text \<open>C18: A futex wake from outside the simulated processes stops the simulator. One core; thread 0 runs and calls
  \<^verbatim>\<open>FUTEX_WAKE\<close> for one waiter; while it does, thread 1 reports that it was woken, by a process the scheduler does not know, and
  \<^verbatim>\<open>join\<close> counts the wakeup against the allowance of thread 0. When thread 0 returns, having woken nobody, its \<^verbatim>\<open>join\<close>
  takes its allowance back and fails the assertion that the unmatched wakeups are within the allowance.\<close>

theorem external_wake_stops:
  "\<exists>b s. sched_run demo_rand demo_black (sched_init 1 (\<lambda>_. 0) 0 1 1 1000 0) (b, s, {}) \<and> good_config demo_rand 1 1 1 \<and>
    with_thread (named 0 0 s) (\<lambda>t th. joinable th \<and> th_state th = RUNNING \<and> maxWakes (futexJoin th) \<le> maxAllowedFutexWakeups s \<and>
      wokenUp (futexJoin th) \<le> maxWakes (futexJoin th)) \<and>
    exec_call demo_rand demo_black (Join 0 0) (b, s, {}) = None"
proof (intro exI conjI)
  show "sched_run demo_rand demo_black (sched_init 1 (\<lambda>_. 0) 0 1 1 1000 0) (one_running, ext5, {})" by (rule ext_run)
  have u: "unmatchedFutexWakeups ext5 = 1" "maxAllowedFutexWakeups ext5 = 1" by (simp_all add: ext_defs)
  have j: "futexJoin (ext_waker FJA_WAKE (Some ext_si)) = \<lparr>fj_action = FJA_WAKE, maxWakes = 1, wokenUp = 0\<rparr>" by (simp add: ext_waker_def)
  show "with_thread (named 0 0 ext5) (\<lambda>t th. joinable th \<and> th_state th = RUNNING \<and> maxWakes (futexJoin th) \<le> maxAllowedFutexWakeups ext5 \<and>
      wokenUp (futexJoin th) \<le> maxWakes (futexJoin th))"
    by (simp add: with_thread_iff named_def demo_gids ext_gid ext_threads u j) (simp add: ext_waker_def joinable_def)
  show "exec_call demo_rand demo_black (Join 0 0) (one_running, ext5, {}) = None"
    by (simp add: on_both_def sched_join_def demo_gids ext_gid ext_threads futexWakeJoin_def Let_def u j assert_that_def)
qed (rule demo_config)

end
