(* ===== verification/Prefetcher.thy ===== *)
theory Prefetcher imports Mem_Hierarchy begin

text \<open>
  \<^verbatim>\<open>zsim/src/prefetcher.h\<close> and \<^verbatim>\<open>prefetcher.cpp\<close>: the stream prefetcher, which stands between two levels of
  the hierarchy, sends every request on to its parent, and sends loads of further lines of the page
  when it has seen a stride twice.

  An \<^verbatim>\<open>int32_t\<close> is the 32-bit word with the same bits; where the code compares it with its sign, the model
  uses \<open>sint\<close>. The code mixes it with \<^verbatim>\<open>uint32_t\<close>, so sums and the quotient are those of words. The objects of
  the hierarchy are named by numbers, and \<open>acc\<close> and \<open>iv\<close> are their methods \<^verbatim>\<open>access\<close> and \<^verbatim>\<open>invalidate\<close>, on a
  state that the prefetcher does not look at.
\<close>

subsection \<open>The confidence counter\<close>

text \<open>\<^verbatim>\<open>SatCounter<3, 2, 1>\<close>\<close>

definition sat_reset :: int where "sat_reset = 1"

definition sat_dec :: "int \<Rightarrow> int" where "sat_dec count = MAX2 (count - 1) 0"

definition sat_inc :: "int \<Rightarrow> int" where "sat_inc count = MIN2 (count + 1) 3"

definition sat_pred :: "int \<Rightarrow> bool" where "sat_pred count \<longleftrightarrow> count \<ge> 2"

subsection \<open>State\<close>

record AccessTimes =
  startCycle :: u64
  respCycle :: u64

definition times_fill :: "u32 \<Rightarrow> u64 \<Rightarrow> AccessTimes" where
  "times_fill s r = \<lparr>startCycle = ucast s, respCycle = r\<rparr>"

record StreamEntry =
  stride :: u32
  conf :: int
  times :: "AccessTimes list"
  valid :: "bool list"
  lastPos :: u32
  lastLastPos :: u32
  lastPrefetchPos :: u32
  lastCycle :: u64
  ts :: u64

definition entry_alloc :: "u64 \<Rightarrow> StreamEntry \<Rightarrow> StreamEntry" where
  "entry_alloc curCycle e = e\<lparr>stride := 1, lastPos := 0, lastLastPos := 0, lastPrefetchPos := 0, conf := sat_reset,
     valid := replicate 64 False, lastCycle := curCycle\<rparr>"

record StreamPrefetcher =
  timestamp :: u64
  tag :: "address list"
  entries :: "StreamEntry list"
  profAccesses :: u64
  profPrefetches :: u64
  profDoublePrefetches :: u64
  profPageHits :: u64
  profHits :: u64
  profShortHits :: u64
  profStrideSwitches :: u64
  profLowConfAccs :: u64
  pf_parent :: nat
  pf_child :: nat
  pf_childId :: nat

text \<open>The constructor sets the time stamp and the counters, and those of the entries set \<open>conf\<close> and \<open>valid\<close>; the
  rest of the object is what the memory held.\<close>

definition StreamPrefetcher_new :: "address list \<Rightarrow> StreamEntry list \<Rightarrow> nat \<Rightarrow> nat \<Rightarrow> nat \<Rightarrow> StreamPrefetcher" where
  "StreamPrefetcher_new tags es p c cid = \<lparr>timestamp = 0, tag = tags, entries = map (\<lambda>e. e\<lparr>conf := 1, valid := replicate 64 False\<rparr>) es,
     profAccesses = 0, profPrefetches = 0, profDoublePrefetches = 0, profPageHits = 0, profHits = 0, profShortHits = 0,
     profStrideSwitches = 0, profLowConfAccs = 0, pf_parent = p, pf_child = c, pf_childId = cid\<rparr>"

definition pf_setParents :: "nat \<Rightarrow> nat list \<Rightarrow> bool \<Rightarrow> StreamPrefetcher \<Rightarrow> StreamPrefetcher option" where
  "pf_setParents cid parents network pf = do {
     let pf = pf\<lparr>pf_childId := cid\<rparr>;
     assert_that (length parents = 1);
     assert_that (\<not> network);
     parent \<leftarrow> read_at parents 0;
     Some (pf\<lparr>pf_parent := parent\<rparr>)
   }"

definition pf_setChildren :: "nat list \<Rightarrow> bool \<Rightarrow> StreamPrefetcher \<Rightarrow> StreamPrefetcher option" where
  "pf_setChildren children network pf = do {
     assert_that (length children = 1);
     assert_that (\<not> network);
     child \<leftarrow> read_at children 0;
     Some (pf\<lparr>pf_child := child\<rparr>)
   }"

subsection \<open>The entry of a page\<close>

text \<open>The last entry with the tag wins.\<close>

fun find_tag :: "address \<Rightarrow> address list \<Rightarrow> nat \<Rightarrow> nat \<Rightarrow> nat" where
  "find_tag pageAddr [] i idx = idx"
| "find_tag pageAddr (t # tgs) i idx = find_tag pageAddr tgs (Suc i) (if pageAddr = t then i else idx)"

text \<open>An entry whose prefetches are still on their way is no candidate.\<close>

fun find_cand :: "u64 \<Rightarrow> StreamEntry list \<Rightarrow> nat \<Rightarrow> nat \<Rightarrow> u64 \<Rightarrow> nat" where
  "find_cand reqCycle [] i cand candScore = cand"
| "find_cand reqCycle (e # es) i cand candScore =
     (if lastCycle e > reqCycle + 500 then find_cand reqCycle es (Suc i) cand candScore
      else if ts e < candScore then find_cand reqCycle es (Suc i) i (ts e)
      else find_cand reqCycle es (Suc i) cand candScore)"

definition page_miss :: "address \<Rightarrow> u32 \<Rightarrow> u64 \<Rightarrow> StreamPrefetcher \<Rightarrow> StreamPrefetcher option" where
  "page_miss pageAddr pos reqCycle pf = (let cand = find_cand reqCycle (entries pf) 0 16 (-1) in
     if cand < 16 then do {
       e \<leftarrow> read_at (entries pf) cand;
       let e = entry_alloc reqCycle e;
       es \<leftarrow> write_at (entries pf) cand (e\<lparr>lastPos := pos, ts := timestamp pf\<rparr>);
       tags \<leftarrow> write_at (tag pf) cand pageAddr;
       Some (pf\<lparr>timestamp := timestamp pf + 1, entries := es, tag := tags\<rparr>)
     } else Some pf)"

subsection \<open>The steps of a page hit\<close>

text \<open>1. Did we prefetch-hit?\<close>

definition demand_hit :: "u32 \<Rightarrow> u64 \<Rightarrow> StreamEntry \<Rightarrow> StreamPrefetcher \<Rightarrow> (bool \<times> u64 \<times> StreamEntry \<times> StreamPrefetcher) option" where
  "demand_hit pos resp e pf = do {
     v \<leftarrow> read_at (valid e) (unat pos);
     (if v then do {
        t \<leftarrow> read_at (times e) (unat pos);
        let pfRespCycle = respCycle t;
        let shortPrefetch = pfRespCycle > resp;
        vs \<leftarrow> write_at (valid e) (unat pos) False;
        let resp = MAX2 pfRespCycle resp;
        Some (shortPrefetch, resp, e\<lparr>valid := vs, lastCycle := MAX2 resp (lastCycle e)\<rparr>,
          pf\<lparr>profHits := profHits pf + 1, profShortHits := profShortHits pf + (if shortPrefetch then 1 else 0)\<rparr>)
      } else Some (False, resp, e, pf))
   }"

text \<open>\<^verbatim>\<open>(e.lastPrefetchPos - e.lastPos)/stride\<close>: the difference is unsigned, so the quotient is, too.\<close>

definition fetch_depth :: "u32 \<Rightarrow> u32 \<Rightarrow> u32 \<Rightarrow> u32 option" where
  "fetch_depth lpp lp st = (if st = 0 then None else Some ((lpp - lp) div st))"

type_synonym 'p pf_access_fn = "nat \<Rightarrow> MemReq \<Rightarrow> 'p \<Rightarrow> (u64 \<times> MESIState \<times> 'p) option"

text \<open>\<^verbatim>\<open>fill\<close> is called with the cycle of the request, which its 32-bit parameter cuts off.\<close>

definition mark_prefetched :: "u32 \<Rightarrow> u64 \<Rightarrow> u64 \<Rightarrow> StreamEntry \<Rightarrow> StreamEntry option" where
  "mark_prefetched prefetchPos reqCycle pfRespCycle e = do {
     vs \<leftarrow> write_at (valid e) (unat prefetchPos) True;
     tms \<leftarrow> write_at (times e) (unat prefetchPos) (times_fill (ucast reqCycle) pfRespCycle);
     Some (e\<lparr>valid := vs, times := tms\<rparr>)
   }"

definition second_prefetch :: "'p pf_access_fn \<Rightarrow> MemReq \<Rightarrow> u32 \<Rightarrow> u32 \<Rightarrow> StreamEntry \<times> StreamPrefetcher \<times> 'p \<Rightarrow>
    (MESIState \<times> StreamEntry \<times> StreamPrefetcher \<times> 'p) option" where
  "second_prefetch acc pfReq prefetchPos st = (\<lambda>(e, pf, p). do {
     let pfReq = pfReq\<lparr>lineAddr := lineAddr pfReq + scast st\<rparr>;
     (pfRespCycle, state, p) \<leftarrow> acc (pf_parent pf) pfReq p;
     e \<leftarrow> mark_prefetched prefetchPos (req_cycle pfReq) pfRespCycle e;
     Some (state, e, pf\<lparr>profPrefetches := profPrefetches pf + 1, profDoublePrefetches := profDoublePrefetches pf + 1\<rparr>, p)
   })"

definition prefetch_req :: "MemReq \<Rightarrow> u32 \<Rightarrow> u32 \<Rightarrow> MemReq" where
  "prefetch_req req prefetchPos pos = \<lparr>lineAddr = lineAddr req + ucast prefetchPos - ucast pos, req_type = GETS, childId = childId req,
     req_state = StI, req_cycle = req_cycle req, initialState = StI, srcId = srcId req, flags = flag_bits PREFETCH\<rparr>"

definition do_prefetch :: "'p pf_access_fn \<Rightarrow> MemReq \<Rightarrow> u32 \<Rightarrow> u32 \<Rightarrow> bool \<Rightarrow> u32 \<Rightarrow> u32 \<Rightarrow> StreamEntry \<times> StreamPrefetcher \<times> 'p \<Rightarrow>
    (StreamEntry \<times> StreamPrefetcher \<times> 'p) option" where
  "do_prefetch acc req pos st shortPrefetch fetchDepth prefetchPos = (\<lambda>(e, pf, p).
     if prefetchPos < 64 then do {
       v \<leftarrow> read_at (valid e) (unat prefetchPos);
       (if \<not> v then do {
          let pfReq = prefetch_req req prefetchPos pos;
          (pfRespCycle, state, p) \<leftarrow> acc (pf_parent pf) pfReq p;
          e \<leftarrow> mark_prefetched prefetchPos (req_cycle req) pfRespCycle e;
          let pf = pf\<lparr>profPrefetches := profPrefetches pf + 1\<rparr>;
          let next = prefetchPos + st;
          more \<leftarrow> (if shortPrefetch \<and> sint fetchDepth < 8 \<and> next < 64
                  then do { w \<leftarrow> read_at (valid e) (unat next); Some (\<not> w) } else Some False);
          (state, e, pf, p) \<leftarrow> (if more then second_prefetch acc (pfReq\<lparr>req_state := state\<rparr>) next st (e, pf, p)
                               else Some (state, e, pf, p));
          let e = e\<lparr>lastPrefetchPos := (if more then next else prefetchPos)\<rparr>;
          assert_that (state = StI);
          Some (e, pf, p)
        } else Some (e, pf, p))
     } else Some (e, pf, p))"

text \<open>2. Update predictors, issue prefetches. First when the stride is the one of the entry.\<close>

definition same_stride :: "'p pf_access_fn \<Rightarrow> MemReq \<Rightarrow> u32 \<Rightarrow> u32 \<Rightarrow> bool \<Rightarrow> StreamEntry \<times> StreamPrefetcher \<times> 'p \<Rightarrow>
    (StreamEntry \<times> StreamPrefetcher \<times> 'p) option" where
  "same_stride acc req pos st shortPrefetch = (\<lambda>(e, pf, p). do {
     let e = e\<lparr>conf := sat_inc (conf e)\<rparr>;
     (if sat_pred (conf e) then do {
        fetchDepth \<leftarrow> fetch_depth (lastPrefetchPos e) (lastPos e) st;
        (if sint fetchDepth < 1 then do_prefetch acc req pos st shortPrefetch 1 (pos + st) (e, pf, p)
         else do_prefetch acc req pos st shortPrefetch fetchDepth (lastPrefetchPos e + st) (e, pf, p))
      } else Some (e, pf\<lparr>profLowConfAccs := profLowConfAccs pf + 1\<rparr>, p))
   })"

definition other_stride :: "u32 \<Rightarrow> u32 \<Rightarrow> StreamEntry \<times> StreamPrefetcher \<Rightarrow> StreamEntry \<times> StreamPrefetcher" where
  "other_stride pos st = (\<lambda>(e, pf).
     let e = e\<lparr>conf := sat_dec (conf e)\<rparr>;
         lastStride = lastPos e - lastLastPos e;
         switch = (\<not> sat_pred (conf e) \<and> st \<noteq> 0 \<and> st \<noteq> stride e \<and> st = lastStride);
         e = (if switch then e\<lparr>conf := sat_reset, stride := st\<rparr> else e);
         pf = (if switch then pf\<lparr>profStrideSwitches := profStrideSwitches pf + 1\<rparr> else pf)
     in (e\<lparr>lastPrefetchPos := pos\<rparr>, pf))"

definition page_hit :: "'p pf_access_fn \<Rightarrow> MemReq \<Rightarrow> nat \<Rightarrow> u32 \<Rightarrow> u64 \<Rightarrow> StreamPrefetcher \<times> 'p \<Rightarrow>
    (u64 \<times> StreamPrefetcher \<times> 'p) option" where
  "page_hit acc req idx pos resp = (\<lambda>(pf, p). do {
     e \<leftarrow> read_at (entries pf) idx;
     let e = e\<lparr>ts := timestamp pf\<rparr>;
     let pf = pf\<lparr>profPageHits := profPageHits pf + 1, timestamp := timestamp pf + 1\<rparr>;
     (shortPrefetch, resp, e, pf) \<leftarrow> demand_hit pos resp e pf;
     let st = pos - lastPos e;
     (e, pf, p) \<leftarrow> (if stride e = st then same_stride acc req pos st shortPrefetch (e, pf, p)
                    else let (e, pf) = other_stride pos st (e, pf) in Some (e, pf, p));
     es \<leftarrow> write_at (entries pf) idx (e\<lparr>lastLastPos := lastPos e, lastPos := pos\<rparr>);
     Some (resp, pf\<lparr>entries := es\<rparr>, p)
   })"

subsection \<open>access and invalidate\<close>

text \<open>The request is a reference, so the result holds it as \<^verbatim>\<open>access\<close> leaves it, after the cycle of the response.\<close>

definition pf_access :: "'p pf_access_fn \<Rightarrow> MemReq \<Rightarrow> StreamPrefetcher \<times> 'p \<Rightarrow> (u64 \<times> MemReq \<times> StreamPrefetcher \<times> 'p) option" where
  "pf_access acc req = (\<lambda>(pf, p). do {
     let origChildId = childId req;
     let req = req\<lparr>childId := pf_childId pf\<rparr>;
     (if req_type req \<noteq> GETS then do {
        (resp, state, p) \<leftarrow> acc (pf_parent pf) req p;
        Some (resp, req\<lparr>req_state := state\<rparr>, pf, p)
      } else do {
        let pf = pf\<lparr>profAccesses := profAccesses pf + 1\<rparr>;
        (resp, state, p) \<leftarrow> acc (pf_parent pf) req p;
        let pageAddr = drop_bit 6 (lineAddr req);
        let pos = ucast (lineAddr req AND (64 - 1));
        let idx = find_tag pageAddr (tag pf) 0 16;
        (resp, pf, p) \<leftarrow> (if idx = 16 then do {
              pf \<leftarrow> page_miss pageAddr pos (req_cycle req) pf;
              Some (resp, pf, p)
            } else page_hit acc req idx pos resp (pf, p));
        Some (resp, req\<lparr>req_state := state, childId := origChildId\<rparr>, pf, p)
      })
   })"

definition pf_invalidate :: "(nat \<Rightarrow> InvReq \<Rightarrow> 'p \<Rightarrow> 'q option) \<Rightarrow> InvReq \<Rightarrow> StreamPrefetcher \<times> 'p \<Rightarrow> 'q option" where
  "pf_invalidate iv req = (\<lambda>(pf, p). iv (pf_child pf) req p)"

end
