(* ===== verification/Prefetcher_Contract.thy ===== *)
theory Prefetcher_Contract imports Cache_Model Prefetcher begin

text \<open>
  The stream prefetcher: its table keeps its shape, no access divides by zero or leaves an array, every prefetch is a
  load of another line of the page, and what the unsigned quotient of \<^verbatim>\<open>fetchDepth\<close> does to the distance of the prefetches.
\<close>

subsection \<open>Positions in a page\<close>

lemma nat_of_pos: "(w :: u32) < 64 \<Longrightarrow> \<exists>i<64. w = of_nat i"
  by (intro exI [of _ "unat w"]) (simp add: word_less_nat_alt)

lemma small_diff: "i < 64 \<Longrightarrow> j < 64 \<Longrightarrow> sint (of_nat i - of_nat j :: u32) = int i - int j"
proof -
  assume "i < 64" "j < 64"
  then have "signed_take_bit 31 (int i - int j) = int i - int j" by (intro signed_take_bit_int_eq_self) auto
  moreover have "(of_nat i - of_nat j :: u32) = word_of_int (int i - int j)" by simp
  moreover have "sint (word_of_int k :: u32) = signed_take_bit 31 k" for k by (simp add: sint_sbintrunc')
  ultimately show ?thesis by (simp only:)
qed
lemma low_pos: "unat (a AND 63 :: u64) = unat a mod 64" "unat (ucast (a AND 63 :: u64) :: u32) = unat a mod 64"
proof -
  have "a AND 63 = take_bit 6 a" by (simp add: take_bit_eq_mask mask_eq_exp_minus_1)
  then show u: "unat (a AND 63) = unat a mod 64" by (simp only: unsigned_take_bit_eq) (simp add: take_bit_eq_mod)
  show "unat (ucast (a AND 63) :: u32) = unat a mod 64" by (simp only: unsigned_ucast_eq u take_bit_eq_mod) simp
qed

lemma pos_less: "(ucast (a AND 63 :: u64) :: u32) < 64"
  unfolding word_less_nat_alt low_pos by simp

text \<open>The line at another position of the page of \<open>a\<close>.\<close>

lemma page_line:
  fixes a :: u64
  assumes "(p :: u32) < 64"
  shows "drop_bit 6 (a + ucast p - ucast (ucast (a AND 63) :: u32)) = drop_bit 6 a"
proof -
  have p: "unat (ucast p :: u64) < 64" using assms by (simp add: word_less_nat_alt unat_widen)
  have "unat (ucast (ucast (a AND 63) :: u32) :: u64) = unat (ucast (a AND 63) :: u32)" by (rule unat_widen) simp
  then have u: "ucast (ucast (a AND 63) :: u32) = a AND 63" by (simp only: word_unat_eq_iff low_pos)
  let ?c = "a - (a AND 63)"
  have c: "unat ?c = 64 * (unat a div 64)"
  proof -
    have "unat (a AND 63) \<le> unat a" unfolding low_pos by simp
    then have "unat ?c = unat a - unat (a AND 63)" by (simp add: unat_sub word_le_nat_alt)
    then show ?thesis unfolding low_pos by (simp add: minus_mod_eq_mult_div)
  qed
  have "unat a < 2 ^ 64" using unsigned_less [of a] by simp
  then have "64 * (unat a div 64) + 64 \<le> 2 ^ 64" by simp
  then have "unat (?c + ucast p) = 64 * (unat a div 64) + unat (ucast p :: u64)" using p c by (subst unat_add_small) auto
  then have "unat (?c + ucast p) div 64 = unat a div 64" using p by simp
  moreover have "a + ucast p - ucast (ucast (a AND 63) :: u32) = ?c + ucast p" unfolding u by simp
  ultimately show ?thesis by (simp only: word_unat_eq_iff unat_shift_right) simp
qed

lemma next_line:
  assumes "(p :: u32) < 64" and "p + st < 64"
  shows "ucast p + scast st = (ucast (p + st) :: u64)"
proof -
  obtain i where i: "i < 64" "p = of_nat i" using nat_of_pos [OF assms(1)] by auto
  obtain j where j: "j < 64" "p + st = of_nat j" using nat_of_pos [OF assms(2)] by auto
  have st: "st = of_nat j - of_nat i" using i j by (metis add_diff_cancel_left')
  have e: "ucast (of_nat n :: u32) = (of_nat n :: u64)" if "n < 64" for n
    using that by (intro word_unat_eq_iff [THEN iffD2]) (simp add: unsigned_ucast_eq unsigned_of_nat take_bit_eq_mod)
  have "scast st = (word_of_int (sint st) :: u64)" by (rule of_int_sint [symmetric])
  also have "\<dots> = of_nat j - of_nat i" using small_diff [OF j(1) i(1)] by (simp add: st)
  finally have "scast st = (of_nat j - of_nat i :: u64)" .
  moreover have "ucast p = (of_nat i :: u64)" "ucast (p + st) = (of_nat j :: u64)" using e i j by simp_all
  ultimately show ?thesis by simp
qed
lemma same_pos: "ucast p = (ucast q :: u64) \<longleftrightarrow> (p :: u32) = q"
  by (simp add: word_unat_eq_iff unat_widen)

lemma pos_diff: "(p :: u32) < 64 \<Longrightarrow> q < 64 \<Longrightarrow> unat (p - q) = (if q \<le> p then unat p - unat q else 2 ^ 32 - (unat q - unat p))"
  by (auto simp: unat_sub_if_size word_size word_le_nat_alt word_less_nat_alt)

lemma sint_small: "unat (w :: u32) < 2 ^ 31 \<Longrightarrow> sint w = int (unat w)"
proof -
  assume u: "unat w < 2 ^ 31"
  have e: "uint w = int (unat w)" by (rule uint_nat)
  have "k < 2 ^ 31 \<Longrightarrow> signed_take_bit 31 (int k) = int k" for k by (intro signed_take_bit_int_eq_self) simp_all
  note this [OF u]
  then show ?thesis unfolding sint_uint e by simp
qed

lemma descending_quotient:
  assumes "lpp < 64" and "lp < 64" and "pos < lp"
  shows "fetch_depth lpp lp (pos - lp) = Some (if lpp < lp \<and> lp - lpp \<le> lp - pos then 1 else 0)"
proof -
  have p: "pos < 64" using assms by (rule_tac order.strict_trans)
  have s: "unat (pos - lp) = 2 ^ 32 - (unat lp - unat pos)" using pos_diff [OF p assms(2)] assms(3) by simp
  have b: "unat lp < 64" "unat pos < unat lp" "unat lpp < 64" using assms by (simp_all add: word_less_nat_alt)
  have nz: "pos - lp \<noteq> 0" using assms(3) by auto
  have "unat ((lpp - lp) div (pos - lp)) = (if lpp < lp \<and> lp - lpp \<le> lp - pos then 1 else 0)"
  proof (cases "lpp < lp")
    case False
    then have "unat (lpp - lp) < 64" using pos_diff [OF assms(1,2)] b by (simp add: not_less)
    then have "unat (lpp - lp) < unat (pos - lp)" using s b by simp
    then show ?thesis using False by (simp add: unat_div)
  next
    case True
    then have d: "unat (lpp - lp) = 2 ^ 32 - (unat lp - unat lpp)" using pos_diff [OF assms(1,2)] by simp
    have "lp - lpp \<le> lp - pos \<longleftrightarrow> unat lp - unat lpp \<le> unat lp - unat pos"
      using pos_diff [OF assms(2,1)] pos_diff [OF assms(2) p] True assms(3) by (simp add: word_le_nat_alt word_less_nat_alt)
    moreover have "(2 ^ 32 - (unat lp - unat lpp)) div (2 ^ 32 - (unat lp - unat pos)) = (if unat lp - unat lpp \<le> unat lp - unat pos then 1 else (0::nat))"
    proof (cases "unat lp - unat lpp \<le> unat lp - unat pos")
      case t: True
      then show ?thesis using b by (subst div_nat_eqI [where q = 1]) simp_all
    next
      case f: False
      then show ?thesis using b by simp
    qed
    ultimately show ?thesis using True d s by (simp add: unat_div)
  qed
  then have "(lpp - lp) div (pos - lp) = (if lpp < lp \<and> lp - lpp \<le> lp - pos then 1 else 0)"
    by (simp add: word_unat_eq_iff split: if_splits)
  then show ?thesis using nz by (simp add: fetch_depth_def)
qed

lemma depth_not_behind:
  assumes "lp < 64" and "pos < 64" and st: "pos - lp = st" "st \<noteq> 0" and f: "fetch_depth (lp - st) lp st = Some d"
  shows "sint d < 1 \<or> 8 \<le> sint d"
proof -
  have d: "d = - st div st" using f st by (simp add: fetch_depth_def)
  have b: "unat lp < 64" "unat pos < 64" using assms by (simp_all add: word_less_nat_alt)
  show ?thesis
  proof (cases "lp \<le> pos")
    case True
    then have "lp < pos" using st by (auto simp: less_le)
    then have k: "unat st < 64" "0 < unat st" using pos_diff [OF assms(2,1)] st b True by (simp_all add: word_less_nat_alt)
    then have m: "unat (- st) = 2 ^ 32 - unat st" using pos_diff [of 0 st] by (simp add: word_less_nat_alt word_le_nat_alt)
    show ?thesis
    proof (cases "unat st = 1")
      case True
      then have "st = 1" by (simp add: word_unat_eq_iff)
      then show ?thesis using d by simp
    next
      case False
      with k have "2 \<le> unat st" "unat st < 64" by simp_all
      then have "(2 ^ 32 - unat st) div 64 \<le> (2 ^ 32 - unat st) div unat st" "(2 ^ 32 - unat st) div unat st \<le> (2 ^ 32 - unat st) div 2"
        by (intro div_le_mono2; simp)+
      then have "8 \<le> unat d" "unat d < 2 ^ 31" using d m k by (auto simp: unat_div)
      then have "8 \<le> int (unat d)" "sint d = int (unat d)" by (simp_all only: sint_small)
      then show ?thesis by linarith
    qed
  next
    case False
    then have "unat st = 2 ^ 32 - (unat lp - unat pos)" using pos_diff [OF assms(2,1)] st by simp
    moreover have "- st = lp - pos" using st by (simp flip: st(1))
    then have "unat (- st) < 64" using pos_diff [OF assms(1,2)] False b by (auto simp: not_le)
    ultimately have "unat (- st) < unat st" using b by simp
    then have "unat d = unat (0 :: u32)" using d by (simp add: unat_div)
    then have "d = 0" by (simp only: word_unat_eq_iff)
    then show ?thesis by simp
  qed
qed
subsection \<open>Runs\<close>

fun pf_run :: "'p pf_access_fn \<Rightarrow> MemReq list \<Rightarrow> StreamPrefetcher \<times> 'p \<Rightarrow> (StreamPrefetcher \<times> 'p) option" where
  "pf_run acc [] s = Some s"
| "pf_run acc (r # rs) s = do {
     (_, _, s) \<leftarrow> pf_access acc r s;
     pf_run acc rs s
   }"

text \<open>A parent that records the requests it gets.\<close>

definition logged :: "'p pf_access_fn \<Rightarrow> ('p \<times> MemReq list) pf_access_fn" where
  "logged acc = (\<lambda>n r (p, rs). map_option (\<lambda>(c, st, p). (c, st, p, rs @ [r])) (acc n r p))"

definition load_line :: "address \<Rightarrow> u64 \<Rightarrow> MemReq" where
  "load_line a cyc = \<lparr>lineAddr = a, req_type = GETS, childId = 0, req_state = StI, req_cycle = cyc, initialState = StI, srcId = 0, flags = 0\<rparr>"

definition blank_entry :: StreamEntry where
  "blank_entry = \<lparr>stride = 0, conf = 0, times = replicate 64 \<lparr>startCycle = 0, respCycle = 0\<rparr>, valid = replicate 64 False,
     lastPos = 0, lastLastPos = 0, lastPrefetchPos = 0, lastCycle = 0, ts = 0\<rparr>"

definition blank_pf :: StreamPrefetcher where
  "blank_pf = StreamPrefetcher_new (replicate 16 0) (replicate 16 blank_entry) 0 0 0"

definition fixed_parent :: "u64 \<Rightarrow> unit pf_access_fn" where
  "fixed_parent lat = (\<lambda>n r p. Some (req_cycle r + lat, req_state r, p))"

subsection \<open>The invariant\<close>

text \<open>The memory of the object before its constructor runs. Nothing is known of the tags and the strides.\<close>

definition raw_memory :: "address list \<Rightarrow> StreamEntry list \<Rightarrow> bool" where
  "raw_memory tags es \<longleftrightarrow> length tags = 16 \<and> length es = 16 \<and> list_all (\<lambda>e. length (times e) = 64) es"

definition entry_shape :: "StreamEntry \<Rightarrow> bool" where
  "entry_shape e \<longleftrightarrow> length (times e) = 64 \<and> length (valid e) = 64 \<and> 0 \<le> conf e \<and> conf e \<le> 3"

definition entry_used :: "StreamEntry \<Rightarrow> bool" where
  "entry_used e \<longleftrightarrow> stride e \<noteq> 0 \<and> lastPos e < 64 \<and> lastPrefetchPos e < 64"

text \<open>\<open>T\<close> are the tags in that memory: an entry with another tag has been allocated.\<close>

definition pf_inv :: "address set \<Rightarrow> StreamPrefetcher \<Rightarrow> bool" where
  "pf_inv T pf \<longleftrightarrow> length (tag pf) = 16 \<and> length (entries pf) = 16 \<and>
     (\<forall>i<16. entry_shape (entries pf ! i) \<and> (tag pf ! i \<notin> T \<longrightarrow> entry_used (entries pf ! i))) \<and>
     (\<forall>i<16. \<forall>j<16. tag pf ! i = tag pf ! j \<longrightarrow> i = j \<or> tag pf ! i \<in> T)"

lemma find_tag_absent: "a \<notin> set tgs \<Longrightarrow> find_tag a tgs i idx = idx"
  by (induction tgs arbitrary: i idx) auto

lemma find_tag_present: "a \<in> set tgs \<Longrightarrow> \<exists>k<length tgs. find_tag a tgs i idx = i + k \<and> tgs ! k = a"
proof (induction tgs arbitrary: i idx)
  case (Cons t tgs)
  show ?case
  proof (cases "a \<in> set tgs")
    case True
    from Cons.IH [OF this, of "Suc i" "if a = t then i else idx"] obtain k where
      "k < length tgs" "find_tag a tgs (Suc i) (if a = t then i else idx) = Suc i + k" "tgs ! k = a" by blast
    then show ?thesis by (intro exI [of _ "Suc k"]) simp
  next
    case False
    with Cons.prems show ?thesis by (intro exI [of _ 0]) (simp add: find_tag_absent)
  qed
qed simp

lemma find_tag_16:
  assumes "length tgs = 16"
  shows "find_tag a tgs 0 16 = 16 \<and> a \<notin> set tgs \<or> (\<exists>k<16. find_tag a tgs 0 16 = k \<and> tgs ! k = a)"
  using find_tag_absent [of a tgs 0 16] find_tag_present [of a tgs 0 16] assms by (cases "a \<in> set tgs") auto

lemma entry_shape_alloc: "entry_shape e \<Longrightarrow> l < 64 \<Longrightarrow> entry_shape ((entry_alloc c e)\<lparr>lastPos := l, ts := t\<rparr>) \<and> entry_used ((entry_alloc c e)\<lparr>lastPos := l, ts := t\<rparr>)"
  by (simp add: entry_shape_def entry_used_def entry_alloc_def sat_reset_def)

lemma new_inv_pf: "raw_memory tags es \<Longrightarrow> pf_inv (set tags) (StreamPrefetcher_new tags es p c cid)"
  by (auto simp: pf_inv_def raw_memory_def StreamPrefetcher_new_def entry_shape_def list_all_iff)

lemma page_miss_inv:
  assumes I: "pf_inv T pf" and a: "a \<notin> set (tag pf)" and pos: "pos < 64"
  shows "\<exists>pf'. page_miss a pos cyc pf = Some pf' \<and> pf_inv T pf' \<and> profPrefetches pf' = profPrefetches pf \<and> pf_parent pf' = pf_parent pf \<and> pf_childId pf' = pf_childId pf"
proof (cases "find_cand cyc (entries pf) 0 16 (-1) < 16")
  case True
  let ?k = "find_cand cyc (entries pf) 0 16 (-1)"
  have l: "?k < length (entries pf)" "?k < length (tag pf)" using True I by (simp_all add: pf_inv_def)
  have ne: "tag pf ! i \<noteq> a \<and> a \<noteq> tag pf ! i" if "i < 16" for i using that a I nth_mem [of i "tag pf"] by (auto simp: pf_inv_def)
  show ?thesis using I l True ne entry_shape_alloc [OF _ pos] by (simp add: page_miss_def Let_def array_simps pf_inv_def nth_list_update)
qed (use I in \<open>simp add: page_miss_def\<close>)

subsection \<open>A page hit\<close>

text \<open>What the parent answers. A prefetch must not change the state of the requester.\<close>

definition answers :: "'p pf_access_fn \<Rightarrow> bool" where
  "answers acc \<longleftrightarrow> (\<forall>n r p. case acc n r p of None \<Rightarrow> False | Some (c, st, p') \<Rightarrow> is_flag PREFETCH r \<longrightarrow> st = req_state r)"

lemma answersD: "answers acc \<Longrightarrow> \<exists>c st p'. acc n r p = Some (c, st, p') \<and> (is_flag PREFETCH r \<longrightarrow> st = req_state r)"
  unfolding answers_def by (drule spec [of _ n], drule spec [of _ r], drule spec [of _ p]) (auto split: option.splits)

definition same_table :: "StreamPrefetcher \<Rightarrow> StreamPrefetcher \<Rightarrow> bool" where
  "same_table pf pf' \<longleftrightarrow> tag pf' = tag pf \<and> entries pf' = entries pf \<and> pf_parent pf' = pf_parent pf \<and> pf_childId pf' = pf_childId pf"

lemma demand_hit_run:
  assumes "entry_shape e" and "pos < 64"
  shows "\<exists>sh r e' pf'. demand_hit pos resp e pf = Some (sh, r, e', pf') \<and> entry_shape e' \<and> stride e' = stride e \<and> lastPos e' = lastPos e \<and>
     lastLastPos e' = lastLastPos e \<and> lastPrefetchPos e' = lastPrefetchPos e \<and> conf e' = conf e \<and> same_table pf pf' \<and>
     profPrefetches pf' = profPrefetches pf \<and> r = (if valid e ! unat pos then max resp (respCycle (times e ! unat pos)) else resp) \<and> \<not> valid e' ! unat pos"
proof -
  have u: "unat pos < 64" using assms(2) by (simp add: word_less_nat_alt)
  then have l: "unat pos < length (valid e)" "unat pos < length (times e)" using assms(1) by (simp_all add: entry_shape_def)
  let ?r = "respCycle (times e ! unat pos)"
  have "demand_hit pos resp e pf = Some (if valid e ! unat pos then (?r > resp, max resp ?r,
      e\<lparr>valid := (valid e)[unat pos := False], lastCycle := max (max resp ?r) (lastCycle e)\<rparr>,
      pf\<lparr>profHits := profHits pf + 1, profShortHits := profShortHits pf + (if ?r > resp then 1 else 0)\<rparr>) else (False, resp, e, pf))"
    using l by (cases "valid e ! unat pos") (simp_all add: demand_hit_def array_simps MAX2_max max.commute [of ?r resp] Let_def)
  then show ?thesis using assms(1) l by (cases "valid e ! unat pos") (simp_all add: entry_shape_def same_table_def, rule exI [of Not False], simp)
qed

subsection \<open>Prefetches\<close>

fun sends :: "'p pf_access_fn \<Rightarrow> nat \<Rightarrow> MemReq list \<Rightarrow> 'p \<Rightarrow> 'p option" where
  "sends acc n [] p = Some p"
| "sends acc n (q # qs) p = do {
     (_, _, p) \<leftarrow> acc n q p;
     sends acc n qs p
   }"

text \<open>A load of another line of the page of \<open>req\<close>, at the same time, that asks for no permission.\<close>

definition prefetch_of :: "MemReq \<Rightarrow> MemReq \<Rightarrow> bool" where
  "prefetch_of req q \<longleftrightarrow> drop_bit 6 (lineAddr q) = drop_bit 6 (lineAddr req) \<and> lineAddr q \<noteq> lineAddr req \<and>
     q = \<lparr>lineAddr = lineAddr q, req_type = GETS, childId = childId req, req_state = StI, req_cycle = req_cycle req,
       initialState = StI, srcId = srcId req, flags = flag_bits PREFETCH\<rparr>"

definition keeps :: "StreamEntry \<Rightarrow> StreamEntry \<Rightarrow> bool" where
  "keeps e e' \<longleftrightarrow> stride e' = stride e \<and> lastPos e' = lastPos e \<and> lastLastPos e' = lastLastPos e \<and> conf e' = conf e"

lemma prefetch_req_of:
  assumes "p < 64" and "pos = ucast (lineAddr req AND 63)" and "p \<noteq> pos"
  shows "prefetch_of req (prefetch_req req p pos)"
proof -
  have "ucast p - ucast pos \<noteq> (0 :: u64)" using assms(3) by (simp add: same_pos)
  then have "lineAddr req + ucast p - ucast pos \<noteq> lineAddr req" by (simp add: algebra_simps)
  then show ?thesis using page_line [OF assms(1), of "lineAddr req"] assms(2) by (simp add: prefetch_of_def prefetch_req_def)
qed

lemma mark_prefetched_run:
  "entry_shape e \<Longrightarrow> p < 64 \<Longrightarrow> \<exists>e'. mark_prefetched p c r e = Some e' \<and> entry_shape e' \<and> keeps e e' \<and> lastPrefetchPos e' = lastPrefetchPos e"
proof -
  assume e: "entry_shape e" and p: "p < 64"
  from p have "unat p < 64" by (simp add: word_less_nat_alt)
  then show ?thesis using e by (simp add: mark_prefetched_def array_simps entry_shape_def keeps_def)
qed

lemma next_req:
  assumes "p < 64" and "p + st < 64"
  shows "(prefetch_req req p pos)\<lparr>lineAddr := lineAddr (prefetch_req req p pos) + scast st\<rparr> = prefetch_req req (p + st) pos"
proof -
  have "lineAddr req + ucast p - ucast pos + scast st = lineAddr req + (ucast p + scast st) - ucast pos" by simp
  also have "\<dots> = lineAddr req + ucast (p + st) - ucast pos" unfolding next_line [OF assms] ..
  finally show ?thesis by (simp add: prefetch_req_def)
qed

lemma prefetch_flag: "is_flag PREFETCH (prefetch_req req p pos)"
  by (simp add: is_flag_def prefetch_req_def flag_bits_def)

lemma do_prefetch_run:
  assumes acc: "answers acc" and e: "entry_shape e" and pos: "pos = ucast (lineAddr req AND 63)" and p: "pp \<noteq> pos"
    and n: "sint fd < 8 \<longrightarrow> pp < 64 \<longrightarrow> pp + st \<noteq> pos"
  shows "\<exists>e' pf' p' qs. do_prefetch acc req pos st sh fd pp (e, pf, p) = Some (e', pf', p') \<and> entry_shape e' \<and> keeps e e' \<and> (lastPrefetchPos e < 64 \<longrightarrow> lastPrefetchPos e' < 64) \<and>
    same_table pf pf' \<and> length qs \<le> 2 \<and> list_all (prefetch_of req) qs \<and> sends acc (pf_parent pf) qs p = Some p' \<and>
    profPrefetches pf' = profPrefetches pf + of_nat (length qs)"
proof -
  consider "\<not> pp < 64" | "pp < 64" "valid e ! unat pp" | "pp < 64" "\<not> valid e ! unat pp" by blast
  then show ?thesis
  proof cases
    case 1
    then show ?thesis using e by (intro exI [of _ e] exI [of _ pf] exI [of _ p] exI [of _ "[]"]) (simp add: do_prefetch_def keeps_def same_table_def)
  next
    case 2
    then have "unat pp < length (valid e)" using e by (simp add: entry_shape_def word_less_nat_alt)
    then show ?thesis using e 2
      by (intro exI [of _ e] exI [of _ pf] exI [of _ p] exI [of _ "[]"]) (simp add: do_prefetch_def keeps_def same_table_def array_simps)
  next
    case 3
    then have l: "unat pp < length (valid e)" using e by (simp add: entry_shape_def word_less_nat_alt)
    let ?q = "prefetch_req req pp pos" and ?n = "pp + st"
    obtain c p1 where a1: "acc (pf_parent pf) ?q p = Some (c, StI, p1)"
      using answersD [OF acc, of "pf_parent pf" ?q p] prefetch_flag by (auto simp: prefetch_req_def)
    obtain e1 where e1: "mark_prefetched pp (req_cycle req) c e = Some e1" "entry_shape e1" "keeps e e1"
      using mark_prefetched_run [OF e 3(1)] by blast
    have q: "prefetch_of req ?q" by (rule prefetch_req_of [OF 3(1) pos p])
    let ?pf1 = "pf\<lparr>profPrefetches := profPrefetches pf + 1\<rparr>"
    let ?more = "sh \<and> sint fd < 8 \<and> ?n < 64 \<and> \<not> valid e1 ! unat ?n"
    have m: "(if sh \<and> sint fd < 8 \<and> ?n < 64 then do { w \<leftarrow> read_at (valid e1) (unat ?n); Some (\<not> w) } else Some False) = Some ?more"
      using e1(2) by (auto simp: entry_shape_def word_less_nat_alt array_simps)
    have d: "do_prefetch acc req pos st sh fd pp (e, pf, p) =
      do { (state, e, pf, p) \<leftarrow> (if ?more then second_prefetch acc (?q\<lparr>req_state := StI\<rparr>) ?n st (e1, ?pf1, p1) else Some (StI, e1, ?pf1, p1));
           assert_that (state = StI);
           Some (e\<lparr>lastPrefetchPos := (if ?more then ?n else pp)\<rparr>, pf, p) }"
      using l 3 by (simp add: do_prefetch_def array_simps a1 e1(1) m Let_def)
    show ?thesis
    proof (cases ?more)
      case False
      then have "do_prefetch acc req pos st sh fd pp (e, pf, p) = Some (e1\<lparr>lastPrefetchPos := pp\<rparr>, ?pf1, p1)" unfolding d by (simp only: if_False) simp
      then show ?thesis using e1(2,3) a1 q 3(1)
        by (intro exI [of _ "e1\<lparr>lastPrefetchPos := pp\<rparr>"] exI [of _ ?pf1] exI [of _ p1] exI [of _ "[?q]"])
          (simp add: entry_shape_def keeps_def same_table_def)
    next
      case True
      let ?q2 = "prefetch_req req ?n pos"
      have n64: "?n < 64" using True by simp
      have q2: "prefetch_of req ?q2" using n 3(1) True by (intro prefetch_req_of [OF n64 pos]) simp
      have s: "?q\<lparr>req_state := StI\<rparr> = ?q" by (simp add: prefetch_req_def)
      obtain c2 p2 where a2: "acc (pf_parent pf) ?q2 p1 = Some (c2, StI, p2)"
        using answersD [OF acc, of "pf_parent pf" ?q2 p1] prefetch_flag by (auto simp: prefetch_req_def)
      obtain e2 where e2: "mark_prefetched ?n (req_cycle req) c2 e1 = Some e2" "entry_shape e2" "keeps e1 e2"
        using mark_prefetched_run [OF e1(2) n64] by blast
      let ?pf2 = "?pf1\<lparr>profPrefetches := profPrefetches ?pf1 + 1, profDoublePrefetches := profDoublePrefetches ?pf1 + 1\<rparr>"
      have cy: "req_cycle ?q2 = req_cycle req" by (simp add: prefetch_req_def)
      have "second_prefetch acc (?q\<lparr>req_state := StI\<rparr>) ?n st (e1, ?pf1, p1) = Some (StI, e2, ?pf2, p2)"
        unfolding s second_prefetch_def next_req [OF 3(1) n64] Let_def by (simp add: a2 cy e2(1))
      then have "do_prefetch acc req pos st sh fd pp (e, pf, p) = Some (e2\<lparr>lastPrefetchPos := ?n\<rparr>, ?pf2, p2)"
        unfolding d using True by (simp only: if_True) simp
      then show ?thesis using e1(3) e2(2,3) a1 a2 q q2 n64
        by (intro exI [of _ "e2\<lparr>lastPrefetchPos := ?n\<rparr>"] exI [of _ ?pf2] exI [of _ p2] exI [of _ "[?q, ?q2]"])
          (simp add: entry_shape_def keeps_def same_table_def)
    qed
  qed
qed

subsection \<open>Accesses\<close>

lemma double_step:
  assumes "p < 64" and "q < 64" and "p \<noteq> (q :: u32)"
  shows "p + (p - q) + (p - q) \<noteq> p" and "p + (p - q) \<noteq> p"
proof -
  have b: "unat p < 64" "unat q < 64" using assms by (simp_all add: word_less_nat_alt)
  show "p + (p - q) + (p - q) \<noteq> p"
  proof
    assume "p + (p - q) + (p - q) = p"
    then have "p + p = q + q" by (simp add: algebra_simps)
    then have "unat (p + p) = unat (q + q)" by simp
    moreover have "unat (p + p) = unat p + unat p" "unat (q + q) = unat q + unat q" using b by (intro unat_add_small; simp)+
    ultimately have "unat p + unat p = unat q + unat q" by (simp only:)
    then show False using assms(3) by (simp add: word_unat_eq_iff)
  qed
  show "p + (p - q) \<noteq> p" using assms(3) by simp
qed

lemma same_stride_run:
  assumes acc: "answers acc" and e: "entry_shape e" "entry_used e" and pos: "pos = ucast (lineAddr req AND 63)" and st: "stride e = pos - lastPos e"
  shows "\<exists>e' pf' p' qs. same_stride acc req pos (stride e) sh (e, pf, p) = Some (e', pf', p') \<and> entry_shape e' \<and> entry_used e' \<and>
    lastPos e' = lastPos e \<and> same_table pf pf' \<and> length qs \<le> 2 \<and> list_all (prefetch_of req) qs \<and> sends acc (pf_parent pf) qs p = Some p' \<and>
    profPrefetches pf' = profPrefetches pf + of_nat (length qs)"
proof -
  let ?e = "e\<lparr>conf := sat_inc (conf e)\<rparr>" and ?st = "stride e"
  have s: "entry_shape ?e" using e(1) by (simp add: entry_shape_def sat_inc_def MIN2_def)
  have p64: "pos < 64" using pos pos_less by simp
  have u: "?st \<noteq> 0" "lastPos e < 64" "lastPrefetchPos e < 64" using e(2) by (simp_all add: entry_used_def)
  have ne: "pos \<noteq> lastPos e" using u(1) st by auto
  have ps: "pos = lastPos e + ?st" using st by (simp add: algebra_simps)
  show ?thesis
  proof (cases "sat_pred (conf ?e)")
    case False
    then show ?thesis using s e(2)
      by (intro exI [of _ ?e] exI [of _ "pf\<lparr>profLowConfAccs := profLowConfAccs pf + 1\<rparr>"] exI [of _ p] exI [of _ "[]"])
        (simp add: same_stride_def entry_used_def same_table_def)
  next
    case True
    let ?d = "(lastPrefetchPos e - lastPos e) div ?st"
    have f: "fetch_depth (lastPrefetchPos e) (lastPos e) ?st = Some ?d" using u(1) by (simp add: fetch_depth_def)
    let ?fd = "if sint ?d < 1 then 1 else ?d" and ?pp = "if sint ?d < 1 then pos + ?st else lastPrefetchPos e + ?st"
    have r: "same_stride acc req pos ?st sh (e, pf, p) = do_prefetch acc req pos ?st sh ?fd ?pp (?e, pf, p)"
      using True by (simp add: same_stride_def f)
    have "?pp \<noteq> pos"
    proof (cases "sint ?d < 1")
      case True
      then show ?thesis using double_step(2) [OF p64 u(2) ne] st by simp
    next
      case False
      then have "lastPrefetchPos e \<noteq> lastPos e" by auto
      then show ?thesis using False st by auto
    qed
    moreover have "sint ?fd < 8 \<longrightarrow> ?pp + ?st \<noteq> pos"
    proof (cases "sint ?d < 1")
      case True
      then show ?thesis using double_step(1) [OF p64 u(2) ne] st by simp
    next
      case False
      show ?thesis
      proof
        assume l: "sint ?fd < 8"
        show "?pp + ?st \<noteq> pos"
        proof
          assume "?pp + ?st = pos"
          then have "lastPrefetchPos e + ?st + ?st = lastPos e + ?st" using False ps by (simp only: if_False)
          then have "lastPrefetchPos e + ?st = lastPos e" by (simp only: add_right_cancel)
          then have "lastPrefetchPos e = lastPos e - ?st" by (rule eq_diff_eq [THEN iffD2])
          then show False using depth_not_behind [OF u(2) p64 st [symmetric] u(1)] f False l by auto
        qed
      qed
    qed
    ultimately obtain e' pf' p' qs where d: "do_prefetch acc req pos ?st sh ?fd ?pp (?e, pf, p) = Some (e', pf', p')" "entry_shape e'" "keeps ?e e'"
      "lastPrefetchPos ?e < 64 \<longrightarrow> lastPrefetchPos e' < 64"
      "same_table pf pf' \<and> length qs \<le> 2 \<and> list_all (prefetch_of req) qs \<and> sends acc (pf_parent pf) qs p = Some p' \<and>
       profPrefetches pf' = profPrefetches pf + of_nat (length qs)"
      using do_prefetch_run [OF acc s pos, of ?pp ?fd ?st sh pf p] by blast
    moreover have "entry_used e'" "lastPos e' = lastPos e" using d(3,4) u by (simp_all add: keeps_def entry_used_def)
    ultimately show ?thesis unfolding r by blast
  qed
qed

lemma other_stride_run:
  assumes "entry_shape e" and "entry_used e" and "pos < 64" and "other_stride pos st (e, pf) = (e', pf')"
  shows "entry_shape e' \<and> entry_used e' \<and> lastPos e' = lastPos e \<and> same_table pf pf' \<and> profPrefetches pf' = profPrefetches pf"
  using assms(4) [symmetric] assms(1-3)
  by (cases "\<not> sat_pred (sat_dec (conf e)) \<and> st \<noteq> 0 \<and> st \<noteq> stride e \<and> st = lastPos e - lastLastPos e")
    (simp_all add: other_stride_def Let_def entry_shape_def entry_used_def same_table_def sat_dec_def sat_reset_def MAX2_def)

lemma page_hit_run:
  assumes acc: "answers acc" and I: "pf_inv T pf" and idx: "idx < 16" "tag pf ! idx \<notin> T" and pos: "pos = ucast (lineAddr req AND 63)"
  shows "\<exists>resp' pf' p' qs. page_hit acc req idx pos resp (pf, p) = Some (resp', pf', p') \<and> pf_inv T pf' \<and>
    resp' = (if valid (entries pf ! idx) ! unat pos then max resp (respCycle (times (entries pf ! idx) ! unat pos)) else resp) \<and>
    tag pf' = tag pf \<and> pf_parent pf' = pf_parent pf \<and> pf_childId pf' = pf_childId pf \<and> length qs \<le> 2 \<and> list_all (prefetch_of req) qs \<and>
    sends acc (pf_parent pf) qs p = Some p' \<and> profPrefetches pf' = profPrefetches pf + of_nat (length qs)"
proof -
  let ?e = "(entries pf ! idx)\<lparr>ts := timestamp pf\<rparr>"
  let ?pf = "pf\<lparr>profPageHits := profPageHits pf + 1, timestamp := timestamp pf + 1\<rparr>"
  have p64: "pos < 64" using pos pos_less by simp
  have e: "entry_shape (entries pf ! idx)" "entry_used (entries pf ! idx)" "idx < length (entries pf)" using I idx by (simp_all add: pf_inv_def)
  then have e': "entry_shape ?e" "entry_used ?e" by (simp_all add: entry_shape_def entry_used_def)
  from demand_hit_run [OF e'(1) p64, of resp ?pf] obtain sh r e1 pf1 where d: "demand_hit pos resp ?e ?pf = Some (sh, r, e1, pf1)" "entry_shape e1"
    "stride e1 = stride ?e" "lastPos e1 = lastPos ?e" "lastPrefetchPos e1 = lastPrefetchPos ?e" "same_table ?pf pf1" "profPrefetches pf1 = profPrefetches ?pf"
    "r = (if valid ?e ! unat pos then max resp (respCycle (times ?e ! unat pos)) else resp)" by blast
  then have u: "entry_used e1" using e'(2) by (simp add: entry_used_def)
  let ?st = "pos - lastPos e1"
  let ?step = "if stride e1 = ?st then same_stride acc req pos ?st sh (e1, pf1, p) else let (e, pf) = other_stride pos ?st (e1, pf1) in Some (e, pf, p)"
  have "\<exists>e2 pf2 p2 qs. ?step = Some (e2, pf2, p2) \<and> entry_shape e2 \<and> entry_used e2 \<and> same_table pf1 pf2 \<and> length qs \<le> 2 \<and>
    list_all (prefetch_of req) qs \<and> sends acc (pf_parent pf1) qs p = Some p2 \<and> profPrefetches pf2 = profPrefetches pf1 + of_nat (length qs)"
  proof (cases "stride e1 = ?st")
    case True
    then have "?step = same_stride acc req pos (stride e1) sh (e1, pf1, p)" by simp
    then show ?thesis using same_stride_run [OF acc d(2) u pos True, of sh pf1 p] by (simp only:) blast
  next
    case False
    obtain e2 pf2 where o: "other_stride pos ?st (e1, pf1) = (e2, pf2)" by (cases "other_stride pos ?st (e1, pf1)")
    show ?thesis using other_stride_run [OF d(2) u p64 o] False
      by (intro exI [of _ e2] exI [of _ pf2] exI [of _ p] exI [of _ "[]"]) (simp add: o)
  qed
  then obtain e2 pf2 p2 qs where s: "?step = Some (e2, pf2, p2)" "entry_shape e2" "entry_used e2" "same_table pf1 pf2" "length qs \<le> 2"
    "list_all (prefetch_of req) qs" "sends acc (pf_parent pf1) qs p = Some p2" "profPrefetches pf2 = profPrefetches pf1 + of_nat (length qs)" by blast
  let ?e2 = "e2\<lparr>lastLastPos := lastPos e2, lastPos := pos\<rparr>"
  let ?pf2 = "pf2\<lparr>entries := (entries pf2)[idx := ?e2]\<rparr>"
  have t: "tag pf2 = tag pf" "entries pf2 = entries pf" "pf_parent pf2 = pf_parent pf" "pf_childId pf2 = pf_childId pf" "pf_parent pf1 = pf_parent pf"
    using d(6) s(4) by (simp_all add: same_table_def)
  have "page_hit acc req idx pos resp (pf, p) = Some (r, ?pf2, p2)"
    unfolding page_hit_def using e(3) s(1) t(2) by (simp add: array_simps d(1) cong: if_cong)
  moreover have "entry_shape ?e2" "entry_used ?e2" using s(2,3) p64 by (simp_all add: entry_shape_def entry_used_def)
  then have "pf_inv T ?pf2" using I t(1,2) idx(1) unfolding pf_inv_def by (simp add: nth_list_update)
  moreover have "profPrefetches ?pf2 = profPrefetches pf + of_nat (length qs)" using s(8) d(7) by simp
  ultimately show ?thesis using d(8) s(5-7) t by (intro exI [of _ r] exI [of _ ?pf2] exI [of _ p2] exI [of _ qs]) simp
qed

abbreviation page :: "MemReq \<Rightarrow> address" where "page req \<equiv> drop_bit 6 (lineAddr req)"

text \<open>No load of a page that an entry names by chance.\<close>

definition avoids :: "address set \<Rightarrow> MemReq \<Rightarrow> bool" where
  "avoids T req \<longleftrightarrow> req_type req = GETS \<longrightarrow> page req \<notin> T"

lemma pf_access_run:
  assumes acc: "answers acc" and I: "pf_inv T pf" and T: "avoids T req"
  defines "down \<equiv> req\<lparr>childId := pf_childId pf\<rparr>"
  shows "\<exists>resp req' pf' p' c st p1 qs. pf_access acc req (pf, p) = Some (resp, req', pf', p') \<and> pf_inv T pf' \<and>
    pf_parent pf' = pf_parent pf \<and> pf_childId pf' = pf_childId pf \<and> acc (pf_parent pf) down p = Some (c, st, p1) \<and> c \<le> resp \<and>
    req_state req' = st \<and> length qs \<le> 2 \<and> list_all (prefetch_of down) qs \<and> sends acc (pf_parent pf) qs p1 = Some p' \<and>
    (req_type req \<noteq> GETS \<longrightarrow> qs = [] \<and> resp = c) \<and> profPrefetches pf' = profPrefetches pf + of_nat (length qs)"
proof -
  obtain c st p1 where a: "acc (pf_parent pf) down p = Some (c, st, p1)" using answersD [OF acc, of "pf_parent pf" down p] by blast
  show ?thesis
  proof (cases "req_type req = GETS")
    case False
    then have "pf_access acc req (pf, p) = Some (c, down\<lparr>req_state := st\<rparr>, pf, p1)" using a by (simp add: pf_access_def down_def Let_def)
    then show ?thesis using a I False
      by (intro exI [of _ c] exI [of _ "down\<lparr>req_state := st\<rparr>"] exI [of _ pf] exI [of _ p1] exI [of _ c] exI [of _ st] exI [of _ p1] exI [of _ "[]"]) simp
  next
    case True
    let ?pf = "pf\<lparr>profAccesses := profAccesses pf + 1\<rparr>" and ?pos = "ucast (lineAddr req AND 63) :: u32"
    let ?idx = "find_tag (page req) (tag pf) 0 16"
    let ?r = "down\<lparr>req_state := st, childId := childId req\<rparr>"
    have J: "pf_inv T ?pf" using I by (simp add: pf_inv_def)
    have l: "length (tag pf) = 16" using I by (simp add: pf_inv_def)
    have acc_eq: "pf_access acc req (pf, p) = do {
        (resp, pf, p) \<leftarrow> (if ?idx = 16 then do { pf \<leftarrow> page_miss (page req) ?pos (req_cycle req) ?pf; Some (c, pf, p1) }
                        else page_hit acc down ?idx ?pos c (?pf, p1));
        Some (resp, ?r, pf, p) }"
      using True a by (simp add: pf_access_def down_def Let_def cong: if_cong)
    from find_tag_16 [OF l, of "page req"] show ?thesis
    proof
      assume f: "?idx = 16 \<and> page req \<notin> set (tag pf)"
      then obtain pf' where m: "page_miss (page req) ?pos (req_cycle req) ?pf = Some pf'" "pf_inv T pf'"
        "profPrefetches pf' = profPrefetches ?pf" "pf_parent pf' = pf_parent ?pf" "pf_childId pf' = pf_childId ?pf"
        using page_miss_inv [OF J, of "page req" ?pos "req_cycle req"] pos_less by auto
      then show ?thesis using f a True unfolding acc_eq
        by (intro exI [of _ c] exI [of _ ?r] exI [of _ pf'] exI [of _ p1] exI [of _ c] exI [of _ st] exI [of _ p1] exI [of _ "[]"]) simp
    next
      assume "\<exists>k<16. ?idx = k \<and> tag pf ! k = page req"
      then have k: "?idx < 16" "tag ?pf ! ?idx \<notin> T" using T True by (auto simp: avoids_def)
      from page_hit_run [OF acc J k, of ?pos down c p1] obtain resp' pf' p' qs where h:
        "page_hit acc down ?idx ?pos c (?pf, p1) = Some (resp', pf', p')" "pf_inv T pf'" "c \<le> resp'" "pf_parent pf' = pf_parent ?pf" "pf_childId pf' = pf_childId ?pf"
        "length qs \<le> 2" "list_all (prefetch_of down) qs" "sends acc (pf_parent ?pf) qs p1 = Some p'" "profPrefetches pf' = profPrefetches ?pf + of_nat (length qs)"
        by (auto simp: down_def)
      then show ?thesis using k(1) a True unfolding acc_eq
        by (intro exI [of _ resp'] exI [of _ ?r] exI [of _ pf'] exI [of _ p'] exI [of _ c] exI [of _ st] exI [of _ p1] exI [of _ qs]) simp
    qed
  qed
qed

lemma pf_run_inv:
  assumes acc: "answers acc"
  shows "pf_inv T pf \<Longrightarrow> list_all (avoids T) rs \<Longrightarrow> \<exists>pf' p'. pf_run acc rs (pf, p) = Some (pf', p') \<and> pf_inv T pf' \<and>
    pf_parent pf' = pf_parent pf \<and> pf_childId pf' = pf_childId pf"
proof (induction rs arbitrary: pf p)
  case (Cons r rs)
  from pf_access_run [OF acc Cons.prems(1), of r p] Cons.prems(2) obtain resp req' pf1 p1 where
    "pf_access acc r (pf, p) = Some (resp, req', pf1, p1)" "pf_inv T pf1" "pf_parent pf1 = pf_parent pf" "pf_childId pf1 = pf_childId pf" by auto
  with Cons.IH [of pf1 p1] Cons.prems(2) show ?case by simp
qed simp

subsection \<open>Properties\<close>

text \<open>C21: The prefetcher never stops the simulator: for every sequence of requests, and whatever the memory of its
  table held, no access divides by zero, leaves an array or fails the assertion that a prefetch got no permission,
  if the parent answers every request, leaves the state alone in a prefetch, and no load goes to a page that a tag of the uninitialised
  table names.\<close>

theorem prefetcher_never_stops:
  assumes "answers acc" and "raw_memory tags es" and "list_all (avoids (set tags)) rs"
  shows "pf_run acc rs (StreamPrefetcher_new tags es par ch cid, p) \<noteq> None"
  using pf_run_inv [OF assms(1) new_inv_pf [OF assms(2)] assms(3), of par ch cid p] by auto

lemma fixed_answers: "answers (fixed_parent lat)"
  by (simp add: answers_def fixed_parent_def)

lemma blank_raw: "raw_memory (replicate 16 0) (replicate 16 blank_entry)"
  by (simp add: raw_memory_def blank_entry_def list_all_iff)

theorem prefetcher_never_stops_witness:
  "pf_run (fixed_parent 10) [load_line 64 0, load_line 65 100] (blank_pf, ()) \<noteq> None"
  unfolding blank_pf_def
  by (rule prefetcher_never_stops [OF fixed_answers blank_raw]) (simp add: avoids_def load_line_def)

text \<open>C22: What an access does: it sends the request on, with the prefetcher's own child id, and after a load at most two prefetches,
  each a load of another line of the same page that asks for no permission. The requester gets the state the parent
  gave and a response not earlier than the parent's.\<close>

theorem prefetches_in_page:
  assumes "answers acc" and "raw_memory tags es" and "list_all (avoids (set tags)) (req # rs)"
    and "pf_run acc rs (StreamPrefetcher_new tags es par ch cid, p0) = Some (pf, p)"
    and "pf_access acc req (pf, p) = Some (resp, req', pf', p')"
  shows "\<exists>c p1 qs. acc par (req\<lparr>childId := cid\<rparr>) p = Some (c, req_state req', p1) \<and> sends acc par qs p1 = Some p' \<and>
    length qs \<le> (if req_type req = GETS then 2 else 0) \<and> list_all (prefetch_of (req\<lparr>childId := cid\<rparr>)) qs \<and> c \<le> resp \<and>
    profPrefetches pf' = profPrefetches pf + of_nat (length qs)"
proof -
  have r: "list_all (avoids (set tags)) rs" and q: "avoids (set tags) req" using assms(3) by simp_all
  from pf_run_inv [OF assms(1) new_inv_pf [OF assms(2)] r, of par ch cid p0] assms(4)
  have I: "pf_inv (set tags) pf" "pf_parent pf = par" "pf_childId pf = cid" by (simp_all add: StreamPrefetcher_new_def)
  from pf_access_run [OF assms(1) I(1) q, of p] show ?thesis unfolding I(2,3) assms(5) by auto
qed

theorem prefetches_in_page_witness:
  "\<exists>pf resp req' pf' c p1 qs. pf_access (fixed_parent 10) (load_line 65 100) (pf, ()) = Some (resp, req', pf', ()) \<and>
     fixed_parent 10 0 ((load_line 65 100)\<lparr>childId := 0\<rparr>) () = Some (c, req_state req', p1) \<and> length qs \<le> 2 \<and>
     list_all (prefetch_of ((load_line 65 100)\<lparr>childId := 0\<rparr>)) qs \<and> c \<le> resp"
proof -
  have a: "list_all (avoids (set (replicate 16 0))) [load_line 65 100, load_line 64 0]" by (simp add: avoids_def load_line_def)
  then have b: "list_all (avoids (set (replicate 16 0))) [load_line 64 0]" and c: "avoids (set (replicate 16 0)) (load_line 65 100)" by simp_all
  obtain pf p where r: "pf_run (fixed_parent 10) [load_line 64 0] (StreamPrefetcher_new (replicate 16 0) (replicate 16 blank_entry) 0 0 0, ()) = Some (pf, p)"
    "pf_inv (set (replicate 16 0)) pf"
    using pf_run_inv [OF fixed_answers new_inv_pf [OF blank_raw] b, of 10 0 0 0 "()"] by blast
  obtain resp req' pf' p' where x: "pf_access (fixed_parent 10) (load_line 65 100) (pf, p) = Some (resp, req', pf', p')"
    using pf_access_run [OF fixed_answers r(2) c, of 10 p] by blast
  have g: "req_type (load_line 65 100) = GETS" by (simp add: load_line_def)
  from prefetches_in_page [OF fixed_answers blank_raw a r(1) x] g obtain c p1 qs where
    "fixed_parent 10 0 ((load_line 65 100)\<lparr>childId := 0\<rparr>) p = Some (c, req_state req', p1)" "length qs \<le> 2"
    "list_all (prefetch_of ((load_line 65 100)\<lparr>childId := 0\<rparr>)) qs" "c \<le> resp" by auto
  with x show ?thesis by (cases p, cases p') blast
qed

text \<open>A stream that goes down never has its prefetches ahead: the quotient is the one of unsigned words, so for a
  negative stride the depth of the prefetches is 1 when they are ahead by at most one stride, and else 0, however far they are.\<close>

theorem descending_depth:
  assumes "lpp < 64" and "lp < 64" and "pos < lp"
  shows "fetch_depth lpp lp (pos - lp) = Some (if lpp < lp \<and> lp - lpp \<le> lp - pos then 1 else 0)"
  by (rule descending_quotient [OF assms])

theorem descending_depth_witness: "fetch_depth 32 40 (38 - 40) = Some (if (32 :: u32) < 40 \<and> 40 - (32 :: u32) \<le> 40 - 38 then 1 else 0)"
  by (rule descending_depth) simp_all

text \<open>The quotient also makes prefetches fall behind: a run of five loads with stride 4 at its end prefetches, on the load
  of position 10 of the page, position 6, which was loaded just before, because the last prefetch position was below the last position.\<close>

theorem prefetch_behind:
  "map_option (\<lambda>(pf, p, rs). map lineAddr rs) (pf_run (logged (fixed_parent 10))
      [load_line 68 0, load_line 72 100, load_line 66 200, load_line 70 300, load_line 74 400] (blank_pf, ((), []))) =
    Some [68, 72, 66, 70, 74, 70]"
  by code_simp

text \<open>The first load of line 0 divides by zero in a prefetcher on zeroed memory, as the tags that the constructor does not set name
  the page of this line and its stride is 0.\<close>

theorem first_line_divides_by_zero:
  "pf_run (fixed_parent 10) [load_line 0 0] (blank_pf, ()) = None \<and> pf_run (fixed_parent 10) [load_line 64 0] (blank_pf, ()) \<noteq> None"
  by code_simp

definition memory_parent :: "u32 \<Rightarrow> unit pf_access_fn" where
  "memory_parent lat = (\<lambda>n r p. map_option (\<lambda>(c, st). (c, st, p)) (SimpleMemory_access lat r))"

text \<open>A prefetcher cannot stand directly above memory: \<^verbatim>\<open>SimpleMemory\<close> gives a prefetch the state E, so the first prefetch
  fails the assertion that it got no permission.\<close>

theorem prefetch_from_memory_stops:
  "pf_run (memory_parent 100) [load_line 64 0] (blank_pf, ()) \<noteq> None \<and> pf_run (memory_parent 100) [load_line 64 0, load_line 65 100] (blank_pf, ()) = None \<and>
   pf_run (fixed_parent 100) [load_line 64 0, load_line 65 100] (blank_pf, ()) \<noteq> None"
  by code_simp

text \<open>A cache of the hierarchy leaves the state of the requester alone in a prefetch, as \<open>answers\<close> asks.\<close>

lemma cache_prefetch_state:
  assumes "processAccess ac iv self req lineId cyc h = Some (resp, st, h')" and "is_flag PREFETCH req" and "req_type req = GETS" and "lineId \<noteq> -1"
    and "the_cache h self = Some c" and "c_tcc c \<noteq> None"
  shows "st = req_state req"
  using assms by (auto simp: processAccess_def mesi_processAccess_def Let_def bind_eq_Some_conv IsPut_def split: if_splits)

end
