(* ===== verification/Utility_Monitor.thy ===== *)
theory Utility_Monitor imports Hash_Family begin

text \<open>
  \<^verbatim>\<open>zsim/src/utility_monitor.cpp\<close>: the utility monitor, which samples accesses in small sets kept in LRU order and
  counts the hits at each depth, and \<^verbatim>\<open>monitor.cpp\<close>: the monitor of a partitioned cache, one utility monitor per
  partition, which turns these counts into miss curves.

  The nodes of a set lie in an array, and a pointer to a node is its index. Sizes are numbers, as they do not
  wrap around; the counters are words. The calls in the code that fill profiling counters are commented out there.
\<close>

record UNode =
  u_addr :: address
  u_next :: "nat option"

record UMon =
  umonLines :: nat
  samplingFactor :: nat
  u_buckets :: nat
  u_sets :: nat
  samplingFactorBits :: nat
  setsBits :: nat
  curWayHits :: "u64 list"
  curMisses :: u64
  u_array :: "UNode list list"
  u_heads :: "nat list"

text \<open>\<^verbatim>\<open>while (tmp >>= 1) bits++\<close>\<close>

fun count_bits :: "nat \<Rightarrow> nat" where
  "count_bits tmp = (if tmp div 2 = 0 then 0 else Suc (count_bits (tmp div 2)))"

declare count_bits.simps [simp del]

definition new_set :: "nat \<Rightarrow> UNode list" where
  "new_set n = map (\<lambda>j. \<lparr>u_addr = 0, u_next = (if j < n - 1 then Some (j + 1) else None)\<rparr>) [0..<n]"

definition UMon_new :: "nat \<Rightarrow> nat \<Rightarrow> nat \<Rightarrow> UMon option" where
  "UMon_new bankLines lines n = do {
     assert_that (lines \<noteq> 0);
     let factor = bankLines div lines;
     assert_that (n \<noteq> 0);
     let sets = lines div n;
     Some \<lparr>umonLines = lines, samplingFactor = factor, u_buckets = n, u_sets = sets, samplingFactorBits = count_bits factor,
       setsBits = count_bits sets, curWayHits = replicate n 0, curMisses = 0, u_array = replicate sets (new_set n), u_heads = replicate sets 0\<rparr>
   }"

subsection \<open>access\<close>

text \<open>The loop over a set, with the number of iterations left: the depth of the hit, \<^verbatim>\<open>prev\<close> and \<^verbatim>\<open>cur\<close>.\<close>

fun find_node :: "UNode list \<Rightarrow> address \<Rightarrow> nat \<Rightarrow> nat \<Rightarrow> nat option \<Rightarrow> nat \<Rightarrow> (nat option \<times> nat option \<times> nat) option" where
  "find_node nodes a 0 b prev cur = Some (None, prev, cur)"
| "find_node nodes a (Suc n) b prev cur = do {
     nd \<leftarrow> read_at nodes cur;
     (if u_addr nd = a then Some (Some b, prev, cur)
      else if n > 0 then do {
        nx \<leftarrow> u_next nd;
        find_node nodes a n (b + 1) (Some cur) nx
      } else find_node nodes a n (b + 1) prev cur)
   }"

text \<open>Move \<^verbatim>\<open>cur\<close> to MRU.\<close>

definition to_mru :: "nat option \<Rightarrow> nat \<Rightarrow> nat \<Rightarrow> UNode list \<Rightarrow> (UNode list \<times> nat) option" where
  "to_mru prev cur front nodes = (case prev of
     None \<Rightarrow> Some (nodes, front)
   | Some p \<Rightarrow> do {
       pn \<leftarrow> read_at nodes p;
       cn \<leftarrow> read_at nodes cur;
       nodes \<leftarrow> write_at nodes p (pn\<lparr>u_next := u_next cn\<rparr>);
       cn \<leftarrow> read_at nodes cur;
       nodes \<leftarrow> write_at nodes cur (cn\<lparr>u_next := Some front\<rparr>);
       Some (nodes, cur)
     })"

definition low_bits :: "nat \<Rightarrow> u64" where
  "low_bits n = NOT (push_bit n (-1))"

definition umon_access :: "hash_fn \<Rightarrow> address \<Rightarrow> UMon \<Rightarrow> UMon option" where
  "umon_access hf a u = do {
     h0 \<leftarrow> hf 0 a;
     let sampleSel = h0 AND low_bits (samplingFactorBits u);
     (if sampleSel \<noteq> 0 then Some u
      else do {
        h1 \<leftarrow> hf 1 a;
        let si = unat (h1 AND low_bits (setsBits u));
        front \<leftarrow> read_at (u_heads u) si;
        nodes \<leftarrow> read_at (u_array u) si;
        (hit, prev, cur) \<leftarrow> find_node nodes a (u_buckets u) 0 None front;
        (nodes, u) \<leftarrow> (case hit of
            Some b \<Rightarrow> do {
              w \<leftarrow> read_at (curWayHits u) b;
              ws \<leftarrow> write_at (curWayHits u) b (w + 1);
              Some (nodes, u\<lparr>curWayHits := ws\<rparr>)
            }
          | None \<Rightarrow> do {
              cn \<leftarrow> read_at nodes cur;
              assert_that (u_next cn = None);
              nodes \<leftarrow> write_at nodes cur (cn\<lparr>u_addr := a\<rparr>);
              Some (nodes, u\<lparr>curMisses := curMisses u + 1\<rparr>)
            });
        (nodes, front) \<leftarrow> to_mru prev cur front nodes;
        sets \<leftarrow> write_at (u_array u) si nodes;
        heads \<leftarrow> write_at (u_heads u) si front;
        Some (u\<lparr>u_array := sets, u_heads := heads\<rparr>)
      })
   }"

subsection \<open>Counters\<close>

text \<open>The sum of the hits at depth \<open>n - 1\<close> and below, down to \<open>n - i\<close>.\<close>

definition umon_getNumAccesses :: "UMon \<Rightarrow> u64 option" where
  "umon_getNumAccesses u = fold (\<lambda>i t. do { t \<leftarrow> t; w \<leftarrow> read_at (curWayHits u) (u_buckets u - i - 1); Some (t + w) })
     [0..<u_buckets u] (Some (curMisses u))"

fun misses_loop :: "u64 list \<Rightarrow> nat \<Rightarrow> u64 \<Rightarrow> u64 list \<Rightarrow> (u64 \<times> u64 list) option" where
  "misses_loop hits 0 tot ms = Some (tot, ms)"
| "misses_loop hits (Suc n) tot ms = do {
     ms \<leftarrow> write_at ms (Suc n) tot;
     w \<leftarrow> read_at hits n;
     misses_loop hits n (tot + w) ms
   }"

text \<open>\<^verbatim>\<open>getMisses\<close> writes to an array of its caller. Its loop index is here \<open>u_buckets u - i\<close>.\<close>

definition umon_getMisses :: "UMon \<Rightarrow> u64 list \<Rightarrow> u64 list option" where
  "umon_getMisses u ms = do {
     (tot, ms) \<leftarrow> misses_loop (curWayHits u) (u_buckets u) (curMisses u) ms;
     write_at ms 0 tot
   }"

definition umon_startNextInterval :: "UMon \<Rightarrow> UMon" where
  "umon_startNextInterval u = u\<lparr>curMisses := 0, curWayHits := replicate (u_buckets u) 0\<rparr>"

subsection \<open>The monitor of a partitioned cache\<close>

record UMonMonitor =
  mon_buckets :: nat
  missCache :: "u32 list"
  missCacheValid :: bool
  monitors :: "UMon list"

definition UMonMonitor_new :: "nat \<Rightarrow> nat \<Rightarrow> nat \<Rightarrow> nat \<Rightarrow> nat \<Rightarrow> UMonMonitor option" where
  "UMonMonitor_new numLines lines umonBuckets numPartitions n = do {
     assert_that (numPartitions > 0);
     us \<leftarrow> those (replicate numPartitions (UMon_new numLines lines umonBuckets));
     Some \<lparr>mon_buckets = n, missCache = replicate (n * numPartitions) 0, missCacheValid = False, monitors = us\<rparr>
   }"

definition mon_access :: "hash_fn \<Rightarrow> nat \<Rightarrow> address \<Rightarrow> UMonMonitor \<Rightarrow> UMonMonitor option" where
  "mon_access hf part a m = do {
     u \<leftarrow> read_at (monitors m) part;
     u \<leftarrow> umon_access hf a u;
     us \<leftarrow> write_at (monitors m) part u;
     assert_that (\<not> missCacheValid m);
     Some (m\<lparr>monitors := us, missCacheValid := False\<rparr>)
   }"

definition mon_getNumAccesses :: "nat \<Rightarrow> UMonMonitor \<Rightarrow> u32 option" where
  "mon_getNumAccesses part m = do {
     u \<leftarrow> read_at (monitors m) part;
     n \<leftarrow> umon_getNumAccesses u;
     Some (ucast n)
   }"

text \<open>The second part of \<^verbatim>\<open>getMissCurve\<close>, which writes the curve \<open>ms\<close> to \<^verbatim>\<open>missCache\<close> from \<open>base\<close> on. \<open>interp m0 m1 k r\<close> is
  the value the code computes in floating point for the \<open>k\<close>th of \<open>r\<close> steps from \<open>m0\<close> to \<open>m1\<close>.\<close>

definition downsample :: "u64 list \<Rightarrow> nat \<Rightarrow> nat \<Rightarrow> nat \<Rightarrow> u32 list \<Rightarrow> u32 list option" where
  "downsample ms n ratio base cache =
     fold (\<lambda>j c. do { c \<leftarrow> c; v \<leftarrow> read_at ms (j * ratio); write_at c (base + j) (ucast v) }) [0..<n] (Some cache)"

definition upsample_step :: "(u64 \<Rightarrow> u64 \<Rightarrow> nat \<Rightarrow> nat \<Rightarrow> u64) \<Rightarrow> u64 list \<Rightarrow> nat \<Rightarrow> nat \<Rightarrow> nat \<Rightarrow> nat \<Rightarrow> nat \<Rightarrow> u32 list \<Rightarrow> u32 list option" where
  "upsample_step interp ms umonBuckets n ratio base j c = do {
     m0 \<leftarrow> read_at ms j;
     c \<leftarrow> write_at c (base + ratio * j) (ucast m0);
     m1 \<leftarrow> read_at ms (j + 1);
     c \<leftarrow> fold (\<lambda>k c. do { c \<leftarrow> c; write_at c (base + ratio * j + k) (ucast (interp m0 m1 k ratio)) }) [1..<ratio] (Some c);
     e \<leftarrow> read_at ms umonBuckets;
     write_at c (base + n) (ucast e)
   }"

definition fill_curve :: "(u64 \<Rightarrow> u64 \<Rightarrow> nat \<Rightarrow> nat \<Rightarrow> u64) \<Rightarrow> u64 list \<Rightarrow> nat \<Rightarrow> nat \<Rightarrow> nat \<Rightarrow> u32 list \<Rightarrow> u32 list option" where
  "fill_curve interp ms umonBuckets n base cache =
     (if umonBuckets \<ge> n then do {
        assert_that (n \<noteq> 0 \<and> umonBuckets mod n = 0);
        cache \<leftarrow> downsample ms n (umonBuckets div n) base cache;
        e \<leftarrow> read_at ms umonBuckets;
        write_at cache (base + n) (ucast e)
      } else do {
        assert_that (umonBuckets \<noteq> 0 \<and> n mod umonBuckets = 0);
        fold (\<lambda>j c. do { c \<leftarrow> c; upsample_step interp ms umonBuckets n (n div umonBuckets) base j c }) [0..<umonBuckets] (Some cache)
      })"

text \<open>\<^verbatim>\<open>uint64_t umonMisses[ umonBuckets ]\<close> holds whatever the stack held.\<close>

definition getMissCurve :: "(u64 \<Rightarrow> u64 \<Rightarrow> nat \<Rightarrow> nat \<Rightarrow> u64) \<Rightarrow> (nat \<Rightarrow> u64) \<Rightarrow> nat \<Rightarrow> nat \<Rightarrow> UMonMonitor \<Rightarrow> UMonMonitor option" where
  "getMissCurve interp stack base part m = do {
     u \<leftarrow> read_at (monitors m) part;
     let umonBuckets = u_buckets u;
     ms \<leftarrow> umon_getMisses u (map stack [0..<umonBuckets]);
     c \<leftarrow> fill_curve interp ms umonBuckets (mon_buckets m) base (missCache m);
     Some (m\<lparr>missCache := c\<rparr>)
   }"

definition getMissCurves :: "(u64 \<Rightarrow> u64 \<Rightarrow> nat \<Rightarrow> nat \<Rightarrow> u64) \<Rightarrow> (nat \<Rightarrow> u64) \<Rightarrow> UMonMonitor \<Rightarrow> UMonMonitor option" where
  "getMissCurves interp stack m =
     fold (\<lambda>part m. do { m \<leftarrow> m; getMissCurve interp stack (part * mon_buckets m) part m }) [0..<length (monitors m)] (Some m)"

definition mon_get :: "(u64 \<Rightarrow> u64 \<Rightarrow> nat \<Rightarrow> nat \<Rightarrow> u64) \<Rightarrow> (nat \<Rightarrow> u64) \<Rightarrow> nat \<Rightarrow> nat \<Rightarrow> UMonMonitor \<Rightarrow> (u32 \<times> UMonMonitor) option" where
  "mon_get interp stack part bucket m = do {
     assert_that (part < length (monitors m));
     m \<leftarrow> (if \<not> missCacheValid m then map_option (\<lambda>m. m\<lparr>missCacheValid := True\<rparr>) (getMissCurves interp stack m) else Some m);
     v \<leftarrow> read_at (missCache m) (part * mon_buckets m + bucket);
     Some (v, m)
   }"

definition mon_reset :: "UMonMonitor \<Rightarrow> UMonMonitor" where
  "mon_reset m = m\<lparr>monitors := map umon_startNextInterval (monitors m), missCacheValid := False\<rparr>"

end
