(* ===== verification/LRU_Stack.thy ===== *)
theory LRU_Stack imports Prelude begin

text \<open>
  Fully associative LRU caches as lists, most recently used line first: what the utility monitors and the ideal arrays are
  compared with. A cache of \<open>k\<close> lines holds the first \<open>k\<close> lines of a larger one.
\<close>

definition lru_push :: "nat \<Rightarrow> 'a \<Rightarrow> 'a list \<Rightarrow> 'a list" where
  "lru_push k a xs = take k (a # remove1 a xs)"

definition lru_depth :: "'a \<Rightarrow> 'a list \<Rightarrow> nat" where
  "lru_depth a xs = length (takeWhile (\<lambda>x. x \<noteq> a) xs)"

text \<open>The misses of a sequence of accesses in a cache of sets of \<open>k\<close> lines, which holds \<open>c\<close> at the start.\<close>

fun misses_from :: "nat \<Rightarrow> ('a \<Rightarrow> 'i) \<Rightarrow> 'a list \<Rightarrow> ('i \<Rightarrow> 'a list) \<Rightarrow> nat" where
  "misses_from k si [] c = 0"
| "misses_from k si (a # as) c = (if a \<in> set (c (si a)) then 0 else 1) + misses_from k si as (c(si a := lru_push k a (c (si a))))"

definition lru_misses :: "nat \<Rightarrow> ('a \<Rightarrow> 'i) \<Rightarrow> 'a list \<Rightarrow> nat" where
  "lru_misses k si as = misses_from k si as (\<lambda>_. [])"

lemma take_remove1: "take m (remove1 a (take (Suc m) xs)) = take m (remove1 a xs)"
  by (induction xs arbitrary: m) (auto simp: take_Cons split: nat.splits)

lemma take_push: "k \<le> n \<Longrightarrow> lru_push k a (take k xs) = take k (lru_push n a xs)"
  by (cases k) (simp_all add: lru_push_def take_remove1 min_def)

lemma push_distinct: "distinct xs \<Longrightarrow> distinct (lru_push k a xs)"
  by (simp add: lru_push_def)

lemma push_set: "set (lru_push k a xs) \<subseteq> insert a (set xs)"
  unfolding lru_push_def using set_remove1_subset [of a xs] by (auto dest: in_set_takeD)

lemma push_length: "length (lru_push k a xs) \<le> k"
  by (simp add: lru_push_def)

lemma depth_less: "lru_depth a xs < length xs \<longleftrightarrow> a \<in> set xs"
  unfolding lru_depth_def by (induction xs) auto

lemma depth_take: "a \<in> set (take k xs) \<longleftrightarrow> a \<in> set xs \<and> lru_depth a xs < k"
  unfolding lru_depth_def
proof (induction xs arbitrary: k)
  case (Cons x xs)
  then show ?case by (cases k) auto
qed simp

lemma depth_append: "a \<in> set xs \<Longrightarrow> lru_depth a (xs @ ys) = lru_depth a xs"
  by (simp add: lru_depth_def)

text \<open>The caches of \<open>k\<close> lines are the tops of those of \<open>n\<close> lines.\<close>

lemma misses_top:
  assumes "k \<le> n"
  shows "misses_from k si (a # as) (\<lambda>i. take k (c i)) = (if a \<in> set (c (si a)) \<and> lru_depth a (c (si a)) < k then 0 else 1) +
    misses_from k si as (\<lambda>i. take k ((c(si a := lru_push n a (c (si a)))) i))"
proof -
  have "(\<lambda>i. take k (c i))(si a := lru_push k a (take k (c (si a)))) = (\<lambda>i. take k ((c(si a := lru_push n a (c (si a)))) i))"
    using take_push [OF assms] by (auto simp: fun_eq_iff)
  then show ?thesis by (simp add: depth_take)
qed

end
