(* ===== verification/Utility_Contract.thy ===== *)
theory Utility_Contract imports Utility_Monitor LRU_Stack begin

text \<open>
  The utility monitor counts exactly the misses that LRU caches of every number of ways would have, and what goes wrong
  when its counts are turned into the miss curves of a partitioned cache.
\<close>

subsection \<open>A set as a list\<close>

text \<open>The links of a list of nodes that ends before \<open>q\<close>.\<close>

fun linked_to :: "UNode list \<Rightarrow> nat option \<Rightarrow> nat list \<Rightarrow> nat option \<Rightarrow> bool" where
  "linked_to nodes p [] q \<longleftrightarrow> p = q"
| "linked_to nodes p (i # is) q \<longleftrightarrow> p = Some i \<and> i < length nodes \<and> linked_to nodes (u_next (nodes ! i)) is q"

lemma linked_append: "linked_to nodes p (is @ js) q \<longleftrightarrow> (\<exists>r. linked_to nodes p is r \<and> linked_to nodes r js q)"
  by (induction nodes p "is" q rule: linked_to.induct) auto

lemma linked_frame: "j \<notin> set is \<Longrightarrow> linked_to (nodes[j := nd]) p is q \<longleftrightarrow> linked_to nodes p is q"
  by (induction nodes p "is" q rule: linked_to.induct) auto

lemma linked_bound: "linked_to nodes p is q \<Longrightarrow> i \<in> set is \<Longrightarrow> i < length nodes"
  by (induction nodes p "is" q rule: linked_to.induct) auto

lemma linked_addr: "linked_to (nodes[j := (nodes ! j)\<lparr>u_addr := a\<rparr>]) p is q \<longleftrightarrow> linked_to nodes p is q"
proof (induction nodes p "is" q rule: linked_to.induct)
  case (2 nodes p i "is" q)
  have "i < length nodes \<Longrightarrow> u_next (nodes[j := (nodes ! j)\<lparr>u_addr := a\<rparr>] ! i) = u_next (nodes ! i)" by (cases "i = j") simp_all
  with 2 show ?case by auto
qed simp

definition addrs :: "UNode list \<Rightarrow> nat list \<Rightarrow> address list" where
  "addrs nodes is = map (\<lambda>i. u_addr (nodes ! i)) is"

lemma addrs_frame: "j \<notin> set is \<Longrightarrow> addrs (nodes[j := nd]) is = addrs nodes is"
  unfolding addrs_def by (rule map_cong [OF refl]) (metis nth_list_update_neq)

lemma addrs_next: "addrs (nodes[j := (nodes ! j)\<lparr>u_next := r\<rparr>]) is = addrs nodes is"
proof -
  have "u_addr (nodes[j := (nodes ! j)\<lparr>u_next := r\<rparr>] ! i) = u_addr (nodes ! i)" for i
    by (cases "i = j"; cases "j < length nodes") (simp_all add: list_update_beyond)
  then show ?thesis by (simp add: addrs_def)
qed

lemma addrs_simps [simp]: "addrs nodes [] = []" "addrs nodes (i # is) = u_addr (nodes ! i) # addrs nodes is"
  "addrs nodes (is @ js) = addrs nodes is @ addrs nodes js" "length (addrs nodes is) = length is"
  by (simp_all add: addrs_def)

text \<open>The node \<open>find_node\<close> stops at, and the nodes before it.\<close>

definition stop_at :: "UNode list \<Rightarrow> address \<Rightarrow> nat list \<Rightarrow> nat" where
  "stop_at nodes a is = (if a \<in> set (addrs nodes is) then lru_depth a (addrs nodes is) else length is - 1)"

lemma find_node_run:
  assumes "linked_to nodes (Some i) (i # is) None"
  shows "find_node nodes a (Suc (length is)) b prev i = Some
    (if a \<in> set (addrs nodes (i # is)) then Some (b + stop_at nodes a (i # is)) else None,
     if stop_at nodes a (i # is) = 0 then prev else Some ((i # is) ! (stop_at nodes a (i # is) - 1)), (i # is) ! stop_at nodes a (i # is))"
  using assms
proof (induction "is" arbitrary: i b prev)
  case Nil
  then show ?case by (simp add: array_simps stop_at_def lru_depth_def)
next
  case (Cons j js)
  then have i: "i < length nodes" "u_next (nodes ! i) = Some j" and l: "linked_to nodes (Some j) (j # js) None" by auto
  show ?case
  proof (cases "u_addr (nodes ! i) = a")
    case True
    then show ?thesis using i by (simp add: array_simps stop_at_def lru_depth_def)
  next
    case False
    then have s: "stop_at nodes a (i # j # js) = Suc (stop_at nodes a (j # js))" by (simp add: stop_at_def lru_depth_def)
    have "find_node nodes a (Suc (length (j # js))) b prev i = find_node nodes a (Suc (length js)) (b + 1) (Some i) j"
      using i False by (simp add: array_simps)
    then show ?thesis using Cons.IH [OF l, of "b + 1" "Some i"] s False by (simp add: nth_Cons')
  qed
qed

lemma to_mru_run:
  assumes l: "linked_to nodes (Some front) (pre @ cur # post) None" and d: "distinct (pre @ cur # post)"
  defines "prev \<equiv> (if pre = [] then None else Some (List.last pre))"
  shows "\<exists>nodes'. to_mru prev cur front nodes = Some (nodes', cur) \<and> linked_to nodes' (Some cur) (cur # pre @ post) None \<and>
    addrs nodes' (cur # pre @ post) = addrs nodes (cur # pre @ post) \<and> length nodes' = length nodes"
proof (cases pre rule: rev_cases)
  case Nil
  then show ?thesis using l by (auto simp: prev_def to_mru_def)
next
  case (snoc ps p)
  have ne: "p \<noteq> cur" "p \<notin> set ps" "p \<notin> set post" "cur \<notin> set ps" "cur \<notin> set post" using d snoc by auto
  let ?n1 = "nodes[p := (nodes ! p)\<lparr>u_next := u_next (nodes ! cur)\<rparr>]"
  let ?n2 = "?n1[cur := (?n1 ! cur)\<lparr>u_next := Some front\<rparr>]"
  from l snoc obtain r where r: "linked_to nodes (Some front) (ps @ [p]) (Some cur)" "cur < length nodes" "p < length nodes"
    "linked_to nodes (u_next (nodes ! cur)) post None" by (auto simp: linked_append)
  have "to_mru prev cur front nodes = Some (?n2, cur)" using r(2,3) snoc by (simp add: prev_def to_mru_def array_simps)
  moreover have "linked_to ?n2 (Some cur) (cur # pre @ post) None"
  proof -
    from r(1) have q: "linked_to nodes (Some front) ps (Some p)" by (auto simp: linked_append)
    have "linked_to ?n2 (Some front) ps (Some p)" using q ne by (simp add: linked_frame)
    moreover have "linked_to ?n2 (u_next (nodes ! cur)) post None" using r(4) ne by (simp add: linked_frame)
    moreover have "u_next (?n2 ! p) = u_next (nodes ! cur)" "u_next (?n2 ! cur) = Some front" using r(2,3) ne(1) by simp_all
    ultimately show ?thesis using r(2,3) snoc by (auto simp: linked_append)
  qed
  moreover have "addrs ?n2 (cur # pre @ post) = addrs nodes (cur # pre @ post)" unfolding addrs_next ..
  moreover have "length ?n2 = length nodes" by simp
  ultimately show ?thesis by (intro exI [of _ ?n2] conjI)
qed

subsection \<open>One access of a set\<close>

definition set_rep :: "nat \<Rightarrow> UNode list \<Rightarrow> nat \<Rightarrow> address list \<Rightarrow> bool" where
  "set_rep n nodes front xs \<longleftrightarrow>
     (\<exists>is. linked_to nodes (Some front) (front # is) None \<and> distinct (front # is) \<and> n = Suc (length is) \<and> xs = addrs nodes (front # is))"

text \<open>The part of \<open>umon_access\<close> that works on a set.\<close>

definition set_step :: "nat \<Rightarrow> address \<Rightarrow> UNode list \<Rightarrow> nat \<Rightarrow> (nat option \<times> UNode list \<times> nat) option" where
  "set_step n a nodes front = do {
     (hit, prev, cur) \<leftarrow> find_node nodes a n 0 None front;
     nodes \<leftarrow> (if hit = None then do {
         cn \<leftarrow> read_at nodes cur;
         assert_that (u_next cn = None);
         write_at nodes cur (cn\<lparr>u_addr := a\<rparr>)
       } else Some nodes);
     (nodes, front) \<leftarrow> to_mru prev cur front nodes;
     Some (hit, nodes, front)
   }"

lemma depth_split: "a \<in> set xs \<Longrightarrow> take (lru_depth a xs) xs @ drop (Suc (lru_depth a xs)) xs = remove1 a xs"
  unfolding lru_depth_def by (induction xs) auto

lemma depth_nth: "a \<in> set xs \<Longrightarrow> xs ! lru_depth a xs = a"
  unfolding lru_depth_def by (induction xs) auto

lemma addrs_nth: "k < length is \<Longrightarrow> addrs nodes is ! k = u_addr (nodes ! (is ! k))"
  by (simp add: addrs_def)

lemma addrs_take: "addrs nodes (take k is) = take k (addrs nodes is)" "addrs nodes (drop k is) = drop k (addrs nodes is)"
  by (simp_all add: addrs_def take_map drop_map)

lemma set_step_eq:
  assumes "find_node nodes a n 0 None front = Some (hit, prev, cur)" and "cur < length nodes" and "hit = None \<Longrightarrow> u_next (nodes ! cur) = None"
    and "to_mru prev cur front (if hit = None then nodes[cur := (nodes ! cur)\<lparr>u_addr := a\<rparr>] else nodes) = Some (nodes', front')"
  shows "set_step n a nodes front = Some (hit, nodes', front')"
  using assms(2-4) by (cases "hit = None") (auto simp: set_step_def assms(1) array_simps)

lemma set_step_run:
  assumes "set_rep n nodes front xs"
  shows "\<exists>nodes' front'. set_step n a nodes front = Some (if a \<in> set xs then Some (lru_depth a xs) else None, nodes', front') \<and>
    set_rep n nodes' front' (a # (if a \<in> set xs then remove1 a xs else butlast xs))"
proof -
  from assms obtain js where js: "linked_to nodes (Some front) (front # js) None" "distinct (front # js)" "n = Suc (length js)"
    "xs = addrs nodes (front # js)" by (auto simp: set_rep_def)
  let ?is = "front # js" and ?k = "stop_at nodes a (front # js)"
  let ?cur = "?is ! ?k" and ?prev = "if ?k = 0 then None else Some (?is ! (?k - 1))"
  have k: "?k < length ?is" using depth_less [of a "addrs nodes ?is"] by (auto simp: stop_at_def)
  have f: "find_node nodes a n 0 None front = Some (if a \<in> set xs then Some ?k else None, ?prev, ?cur)"
    using find_node_run [OF js(1), of a 0 None] js(3,4) by simp
  let ?pre = "take ?k ?is" and ?post = "drop (Suc ?k) ?is"
  have split: "?is = ?pre @ ?cur # ?post" using k by (rule id_take_nth_drop)
  let ?m = "if a \<in> set xs then nodes else nodes[?cur := (nodes ! ?cur)\<lparr>u_addr := a\<rparr>]"
  have c: "?cur < length nodes" using linked_bound [OF js(1)] k nth_mem by blast
  have "linked_to ?m (Some front) ?is None" using js(1) linked_addr [of nodes ?cur a] by (cases "a \<in> set xs") (simp_all only: if_True if_False not_False_eq_True)
  then have lm: "linked_to ?m (Some front) (?pre @ ?cur # ?post) None" by (simp only: split [symmetric])
  have dm: "distinct (?pre @ ?cur # ?post)" using js(2) split by simp
  have prev: "?prev = (if ?pre = [] then None else Some (List.last ?pre))" using k by (auto simp: last_conv_nth)
  obtain nodes' where t: "to_mru ?prev ?cur front ?m = Some (nodes', ?cur)" "linked_to nodes' (Some ?cur) (?cur # ?pre @ ?post) None"
    "addrs nodes' (?cur # ?pre @ ?post) = addrs ?m (?cur # ?pre @ ?post)"
    using to_mru_run [OF lm dm] unfolding prev [symmetric] by blast
  have last: "u_next (nodes ! ?cur) = None" if "a \<notin> set xs"
  proof -
    have "?post = []" using that js(4) by (simp add: stop_at_def)
    then show ?thesis using js(1) split by (metis linked_append linked_to.simps)
  qed
  have "set_step n a nodes front = Some (if a \<in> set xs then Some ?k else None, nodes', ?cur)"
    by (rule set_step_eq [OF f c]) (use last t(1) in \<open>cases "a \<in> set xs"; simp only: if_True if_False not_False_eq_True option.distinct simp_thms\<close>)+
  moreover have "addrs ?m (?cur # ?pre @ ?post) = a # (if a \<in> set xs then remove1 a xs else butlast xs)"
  proof (cases "a \<in> set xs")
    case True
    then have "?k = lru_depth a xs" using js(4) by (simp add: stop_at_def)
    then show ?thesis using True depth_split [OF True] depth_nth [OF True] addrs_nth [OF k, of nodes] js(4) by (simp add: addrs_take)
  next
    case False
    then have e: "?k = length js" using js(4) by (simp add: stop_at_def)
    have "addrs ?m ?pre = addrs nodes ?pre" using False dm by (simp add: addrs_frame)
    moreover have "addrs nodes ?pre = butlast xs" unfolding addrs_take js(4) [symmetric] using e js(4) by (simp add: butlast_conv_take)
    ultimately show ?thesis using False c e by simp
  qed
  moreover have "distinct (?cur # ?pre @ ?post)" using dm by auto
  moreover have "n = Suc (length (?pre @ ?post))" using k js(3) by simp
  ultimately have "set_rep n nodes' ?cur (a # (if a \<in> set xs then remove1 a xs else butlast xs))"
    using t(2,3) unfolding set_rep_def by (intro exI [of _ "?pre @ ?post"]) simp
  moreover have "a \<in> set xs \<Longrightarrow> ?k = lru_depth a xs" using js(4) by (simp add: stop_at_def)
  ultimately show ?thesis using \<open>set_step n a nodes front = _\<close> by auto
qed

subsection \<open>The lines of a set\<close>

text \<open>The nodes of a set hold the lines of an LRU cache of \<open>n\<close> lines; the nodes not used yet hold the address 0.\<close>

definition holds_lru :: "nat \<Rightarrow> address list \<Rightarrow> address list \<Rightarrow> bool" where
  "holds_lru n ys xs \<longleftrightarrow> distinct ys \<and> 0 \<notin> set ys \<and> length ys \<le> n \<and> xs = ys @ replicate (n - length ys) 0"

lemma holds_lru_step:
  assumes "holds_lru n ys xs" and "a \<noteq> 0" and n: "n \<noteq> 0"
  shows "holds_lru n (lru_push n a ys) (a # (if a \<in> set xs then remove1 a xs else butlast xs))"
    and "a \<in> set xs \<longleftrightarrow> a \<in> set ys" and "a \<in> set ys \<Longrightarrow> lru_depth a xs = lru_depth a ys"
proof -
  have y: "distinct ys" "0 \<notin> set ys" "length ys \<le> n" "xs = ys @ replicate (n - length ys) 0" using assms(1) by (simp_all add: holds_lru_def)
  show m: "a \<in> set xs \<longleftrightarrow> a \<in> set ys" using y(4) assms(2) by auto
  show "lru_depth a xs = lru_depth a ys" if "a \<in> set ys" using depth_append [OF that] y(4) by simp
  have z: "0 \<notin> set (lru_push n a ys)" using push_set [of n a ys] y(2) assms(2) by auto
  show "holds_lru n (lru_push n a ys) (a # (if a \<in> set xs then remove1 a xs else butlast xs))"
  proof (cases "a \<in> set ys")
    case True
    then have l: "length (remove1 a ys) = length ys - 1" "0 < length ys" by (auto simp: length_remove1)
    then have "lru_push n a ys = a # remove1 a ys" using y(3) by (simp add: lru_push_def)
    moreover have "remove1 a xs = remove1 a ys @ replicate (n - length ys) 0" using True y(4) by (simp add: remove1_append)
    ultimately show ?thesis using True m y l z push_distinct [OF y(1), of n a] by (simp add: holds_lru_def)
  next
    case False
    then have p: "lru_push n a ys = take n (a # ys)" by (simp add: lru_push_def remove1_idem)
    have "a # butlast xs = lru_push n a ys @ replicate (n - length (lru_push n a ys)) 0"
    proof (cases "length ys = n")
      case True
      then show ?thesis using y(4) n p by (cases n) (simp_all add: butlast_conv_take)
    next
      case l: False
      then have "Suc (length ys) \<le> n" using y(3) by simp
      moreover then have "butlast xs = ys @ replicate (n - Suc (length ys)) 0"
        using y(4) by (simp add: butlast_append) (metis Suc_diff_Suc Suc_le_lessD butlast_snoc diff_Suc_1 replicate_Suc replicate_append_same)
      ultimately show ?thesis using p by simp
    qed
    then show ?thesis using False m z push_length [of n a ys] push_distinct [OF y(1), of n a] by (simp add: holds_lru_def)
  qed
qed

subsection \<open>Masks\<close>

lemma low_bits_less: "n < 64 \<Longrightarrow> unat (x AND low_bits n) < 2 ^ n"
proof -
  assume n: "n < 64"
  have "low_bits n = mask n" by (rule bit_word_eqI) (simp add: low_bits_def bit_simps)
  then have "x AND low_bits n = take_bit n x" by (simp add: take_bit_eq_mask)
  then show ?thesis by (simp add: unsigned_take_bit_eq)
qed

lemma count_bits_le: "0 < n \<Longrightarrow> 2 ^ count_bits n \<le> n"
proof (induction n rule: count_bits.induct)
  case (1 n)
  show ?case
  proof (cases "n div 2 = 0")
    case True
    then show ?thesis using 1(2) by (subst count_bits.simps) simp
  next
    case False
    then have "2 ^ count_bits (n div 2) \<le> n div 2" using 1(1) by simp
    then show ?thesis using False by (subst count_bits.simps) simp
  qed
qed

subsection \<open>The invariant of a monitor\<close>

text \<open>\<open>c i\<close> are the lines that set \<open>i\<close> holds.\<close>

definition umon_inv :: "(nat \<Rightarrow> address list) \<Rightarrow> UMon \<Rightarrow> bool" where
  "umon_inv c u \<longleftrightarrow> length (u_heads u) = u_sets u \<and> length (u_array u) = u_sets u \<and> 2 ^ setsBits u \<le> u_sets u \<and> setsBits u < 64 \<and>
     u_buckets u \<noteq> 0 \<and> length (curWayHits u) = u_buckets u \<and>
     (\<forall>i<u_sets u. \<exists>xs. set_rep (u_buckets u) (u_array u ! i) (u_heads u ! i) xs \<and> holds_lru (u_buckets u) (c i) xs)"

definition count_hit :: "nat option \<Rightarrow> UMon \<Rightarrow> UMon" where
  "count_hit hit u = (case hit of None \<Rightarrow> u\<lparr>curMisses := curMisses u + 1\<rparr> | Some b \<Rightarrow> u\<lparr>curWayHits := (curWayHits u)[b := curWayHits u ! b + 1]\<rparr>)"

definition sampled :: "hash_fn \<Rightarrow> UMon \<Rightarrow> address \<Rightarrow> bool" where
  "sampled hf u a \<longleftrightarrow> (case hf 0 a of None \<Rightarrow> False | Some h \<Rightarrow> h AND low_bits (samplingFactorBits u) = 0)"

definition set_of :: "hash_fn \<Rightarrow> UMon \<Rightarrow> address \<Rightarrow> nat" where
  "set_of hf u a = (case hf 1 a of None \<Rightarrow> 0 | Some h \<Rightarrow> unat (h AND low_bits (setsBits u)))"

text \<open>The monitor uses the hash functions 0, to sample, and 1, for the set.\<close>

definition hash_total :: "hash_fn \<Rightarrow> bool" where
  "hash_total hf \<longleftrightarrow> (\<forall>a. hf 0 a \<noteq> None \<and> hf 1 a \<noteq> None)"

lemma umon_access_skip: "hash_total hf \<Longrightarrow> \<not> sampled hf u a \<Longrightarrow> umon_access hf a u = Some u"
  unfolding hash_total_def by (drule spec [of _ a]) (auto simp: sampled_def umon_access_def)

lemma umon_access_step:
  assumes "hash_total hf" and "sampled hf u a" and "set_of hf u a < length (u_heads u)" "set_of hf u a < length (u_array u)"
    and st: "set_step (u_buckets u) a (u_array u ! set_of hf u a) (u_heads u ! set_of hf u a) = Some (hit, nodes', front')"
    and "\<And>b. hit = Some b \<Longrightarrow> b < length (curWayHits u)"
  shows "umon_access hf a u = Some ((count_hit hit u)\<lparr>u_array := (u_array u)[set_of hf u a := nodes'], u_heads := (u_heads u)[set_of hf u a := front']\<rparr>)"
proof -
  obtain h0 h1 where h: "hf 0 a = Some h0" "hf 1 a = Some h1" using assms(1) unfolding hash_total_def by blast
  then have s: "h0 AND low_bits (samplingFactorBits u) = 0" "set_of hf u a = unat (h1 AND low_bits (setsBits u))"
    using assms(2) by (simp_all add: sampled_def set_of_def)
  let ?i = "set_of hf u a"
  let ?nodes = "u_array u ! ?i"
  from st obtain prev cur nodes1 where f: "find_node ?nodes a (u_buckets u) 0 None (u_heads u ! ?i) = Some (hit, prev, cur)"
    and n: "(if hit = None then do { cn \<leftarrow> read_at ?nodes cur; assert_that (u_next cn = None); write_at ?nodes cur (cn\<lparr>u_addr := a\<rparr>) } else Some ?nodes) = Some nodes1"
    and t: "to_mru prev cur (u_heads u ! ?i) nodes1 = Some (nodes', front')"
    by (auto simp: set_step_def bind_eq_Some_conv simp del: read_at_Some write_at_Some)
  have u: "umon_access hf a u = do {
      (nodes, v) \<leftarrow> (case hit of
            Some b \<Rightarrow> do { w \<leftarrow> read_at (curWayHits u) b; ws \<leftarrow> write_at (curWayHits u) b (w + 1); Some (?nodes, u\<lparr>curWayHits := ws\<rparr>) }
          | None \<Rightarrow> do { cn \<leftarrow> read_at ?nodes cur; assert_that (u_next cn = None); nodes \<leftarrow> write_at ?nodes cur (cn\<lparr>u_addr := a\<rparr>);
              Some (nodes, u\<lparr>curMisses := curMisses u + 1\<rparr>) });
      (nodes, front) \<leftarrow> to_mru prev cur (u_heads u ! ?i) nodes;
      sets \<leftarrow> write_at (u_array v) ?i nodes;
      heads \<leftarrow> write_at (u_heads v) ?i front;
      Some (v\<lparr>u_array := sets, u_heads := heads\<rparr>) }"
    unfolding umon_access_def using h s(1) assms(3,4) f by (simp add: array_simps Let_def flip: s(2))
  show ?thesis
  proof (cases hit)
    case None
    with n have "cur < length ?nodes" "u_next (?nodes ! cur) = None" "nodes1 = ?nodes[cur := (?nodes ! cur)\<lparr>u_addr := a\<rparr>]" by (auto simp: bind_eq_Some_conv)
    then show ?thesis using None t assms(3,4) unfolding u by (simp add: array_simps count_hit_def)
  next
    case (Some b)
    then show ?thesis using n t assms(3,4,6) unfolding u by (simp add: array_simps count_hit_def)
  qed
qed

text \<open>The misses in the caches of \<open>k\<close> lines, by the counters.\<close>

definition tail_misses :: "nat \<Rightarrow> UMon \<Rightarrow> u64" where
  "tail_misses k u = curMisses u + (\<Sum>b\<leftarrow>[k..<u_buckets u]. curWayHits u ! b)"

lemma sum_incr: "b < length (ws :: u64 list) \<Longrightarrow> n \<le> length ws \<Longrightarrow>
    (\<Sum>j\<leftarrow>[k..<n]. ws[b := ws ! b + 1] ! j) = (\<Sum>j\<leftarrow>[k..<n]. ws ! j) + (if k \<le> b \<and> b < n then 1 else 0)"
proof (induction n)
  case (Suc n)
  then show ?case by (cases "k \<le> n") (auto simp: nth_list_update algebra_simps)
qed simp

lemma umon_step:
  assumes h: "hash_total hf" and I: "umon_inv c u" and a: "a \<noteq> 0" and k: "k \<le> u_buckets u" and s: "sampled hf u a"
  defines "i \<equiv> set_of hf u a"
  shows "\<exists>u'. umon_access hf a u = Some u' \<and> umon_inv (c(i := lru_push (u_buckets u) a (c i))) u' \<and> u_buckets u' = u_buckets u \<and>
    sampled hf u' = sampled hf u \<and> set_of hf u' = set_of hf u \<and>
    tail_misses k u' = tail_misses k u + (if a \<in> set (c i) \<and> lru_depth a (c i) < k then 0 else 1)"
proof -
  let ?n = "u_buckets u"
  have l: "length (u_heads u) = u_sets u" "length (u_array u) = u_sets u" "2 ^ setsBits u \<le> u_sets u" "setsBits u < 64" "?n \<noteq> 0"
    "length (curWayHits u) = ?n" using I by (simp_all add: umon_inv_def)
  have i: "i < u_sets u"
    using low_bits_less [OF l(4)] l(3) less_le_trans [OF zero_less_power [of 2 "setsBits u"] l(3)] by (auto simp: i_def set_of_def split: option.splits intro: less_le_trans)
  then obtain xs where xs: "set_rep ?n (u_array u ! i) (u_heads u ! i) xs" "holds_lru ?n (c i) xs" using I unfolding umon_inv_def by blast
  note H = holds_lru_step [OF xs(2) a l(5)]
  let ?hit = "if a \<in> set xs then Some (lru_depth a xs) else None"
  obtain nodes' front' where st: "set_step ?n a (u_array u ! i) (u_heads u ! i) = Some (?hit, nodes', front')"
    "set_rep ?n nodes' front' (a # (if a \<in> set xs then remove1 a xs else butlast xs))"
    using set_step_run [OF xs(1), of a] by blast
  have lx: "length xs = ?n" using xs(2) by (simp add: holds_lru_def)
  have d: "\<And>b. ?hit = Some b \<Longrightarrow> b < length (curWayHits u)" using depth_less [of a xs] lx l(6) by (auto split: if_splits)
  let ?u = "(count_hit ?hit u)\<lparr>u_array := (u_array u)[i := nodes'], u_heads := (u_heads u)[i := front']\<rparr>"
  have "umon_access hf a u = Some ?u" using umon_access_step [OF h s _ _ st(1) [unfolded i_def] d] i l(1,2) by (simp add: i_def)
  moreover have "umon_inv (c(i := lru_push ?n a (c i))) ?u"
    using I i st(2) H(1) l unfolding umon_inv_def count_hit_def by (auto simp: nth_list_update split: option.splits)
  moreover have "tail_misses k ?u = tail_misses k u + (if a \<in> set (c i) \<and> lru_depth a (c i) < k then 0 else 1)"
  proof (cases "a \<in> set xs")
    case True
    then have b: "lru_depth a xs < length (curWayHits u)" using d by simp
    have "tail_misses k ?u = tail_misses k u + (if k \<le> lru_depth a xs \<and> lru_depth a xs < ?n then 1 else 0)"
      using True sum_incr [OF b, of ?n k] l(6) by (simp only: tail_misses_def count_hit_def) (simp add: add.assoc)
    then show ?thesis using True H(2,3) b l(6) by auto
  next
    case False
    then show ?thesis using H(2) by (simp add: tail_misses_def count_hit_def)
  qed
  moreover have "u_buckets ?u = ?n" "sampled hf ?u = sampled hf u" "set_of hf ?u = set_of hf u"
    by (auto simp: count_hit_def sampled_def set_of_def fun_eq_iff split: option.splits)
  ultimately show ?thesis by blast
qed

lemma umon_run:
  assumes h: "hash_total hf"
  shows "umon_inv c u \<Longrightarrow> 0 \<notin> set as \<Longrightarrow> k \<le> u_buckets u \<Longrightarrow> \<exists>u'. run_ops (umon_access hf) as u = Some u' \<and> u_buckets u' = u_buckets u \<and>
    length (curWayHits u') = u_buckets u \<and>
    tail_misses k u' = tail_misses k u + of_nat (misses_from k (set_of hf u) (filter (sampled hf u) as) (\<lambda>i. take k (c i)))"
proof (induction as arbitrary: u c)
  case Nil
  then show ?case by (simp add: umon_inv_def)
next
  case (Cons a as)
  show ?case
  proof (cases "sampled hf u a")
    case False
    then show ?thesis using Cons umon_access_skip [OF h] by simp
  next
    case True
    let ?i = "set_of hf u a"
    obtain u1 where u1: "umon_access hf a u = Some u1" "umon_inv (c(?i := lru_push (u_buckets u) a (c ?i))) u1" "u_buckets u1 = u_buckets u"
      "sampled hf u1 = sampled hf u" "set_of hf u1 = set_of hf u"
      "tail_misses k u1 = tail_misses k u + (if a \<in> set (c ?i) \<and> lru_depth a (c ?i) < k then 0 else 1)"
      using umon_step [OF h Cons.prems(1) _ Cons.prems(3) True] Cons.prems(2) by auto
    from Cons.IH [OF u1(2)] Cons.prems(2,3) u1(3) obtain u' where u': "run_ops (umon_access hf) as u1 = Some u'" "u_buckets u' = u_buckets u"
      "length (curWayHits u') = u_buckets u"
      "tail_misses k u' = tail_misses k u1 + of_nat (misses_from k (set_of hf u) (filter (sampled hf u) as) (\<lambda>i. take k ((c(?i := lru_push (u_buckets u) a (c ?i))) i)))"
      using u1(4,5) by auto
    have "tail_misses k u' = tail_misses k u + of_nat (misses_from k (set_of hf u) (a # filter (sampled hf u) as) (\<lambda>i. take k (c i)))"
      unfolding u'(4) u1(6) misses_top [OF Cons.prems(3)] by simp
    then show ?thesis using u1(1) u'(1-3) True by simp
  qed
qed

subsection \<open>Miss curves\<close>

lemma misses_loop_run:
  "n \<le> length hits \<Longrightarrow> n < length ms \<Longrightarrow> \<exists>ms'. misses_loop hits n t ms = Some (t + (\<Sum>b\<leftarrow>[0..<n]. hits ! b), ms') \<and> length ms' = length ms \<and>
    (\<forall>j. 1 \<le> j \<longrightarrow> j \<le> n \<longrightarrow> ms' ! j = t + (\<Sum>b\<leftarrow>[j..<n]. hits ! b)) \<and> (\<forall>j. n < j \<longrightarrow> ms' ! j = ms ! j)"
proof (induction n arbitrary: t ms)
  case (Suc n)
  from Suc.prems have l: "n \<le> length hits" "n < length (ms[Suc n := t])" "n < length hits" "Suc n < length ms" by simp_all
  from Suc.IH [OF l(1,2), of "t + hits ! n"] obtain ms' where ms': "misses_loop hits n (t + hits ! n) (ms[Suc n := t]) = Some (t + hits ! n + (\<Sum>b\<leftarrow>[0..<n]. hits ! b), ms')"
    "length ms' = length ms" "\<forall>j. 1 \<le> j \<longrightarrow> j \<le> n \<longrightarrow> ms' ! j = t + hits ! n + (\<Sum>b\<leftarrow>[j..<n]. hits ! b)" "\<forall>j. n < j \<longrightarrow> ms' ! j = ms[Suc n := t] ! j" by auto
  have "ms' ! j = t + (\<Sum>b\<leftarrow>[j..<Suc n]. hits ! b)" if "1 \<le> j" "j \<le> Suc n" for j
  proof (cases "j \<le> n")
    case True
    then show ?thesis using ms'(3) that(1) by (simp add: add.assoc add.commute)
  next
    case False
    then have "j = Suc n" using that(2) by simp
    then show ?thesis using ms'(4) l(4) by simp
  qed
  moreover have "misses_loop hits (Suc n) t ms = Some (t + (\<Sum>b\<leftarrow>[0..<Suc n]. hits ! b), ms')"
    using l(3,4) ms'(1) by (simp add: array_simps add.assoc add.commute)
  moreover have "\<forall>j. Suc n < j \<longrightarrow> ms' ! j = ms ! j" using ms'(4) by simp
  ultimately show ?case using ms'(2) by blast
qed simp

lemma getMisses_run:
  assumes "length (curWayHits u) = u_buckets u" and "u_buckets u < length ms" and k: "k \<le> u_buckets u"
  shows "\<exists>ms'. umon_getMisses u ms = Some ms' \<and> ms' ! k = tail_misses k u"
proof -
  let ?n = "u_buckets u"
  from misses_loop_run [of ?n "curWayHits u" ms "curMisses u"] assms obtain ms' where ms':
    "misses_loop (curWayHits u) ?n (curMisses u) ms = Some (curMisses u + (\<Sum>b\<leftarrow>[0..<?n]. curWayHits u ! b), ms')"
    "length ms' = length ms" "\<forall>j. 1 \<le> j \<longrightarrow> j \<le> ?n \<longrightarrow> ms' ! j = curMisses u + (\<Sum>b\<leftarrow>[j..<?n]. curWayHits u ! b)" by auto
  then have "umon_getMisses u ms = Some (ms'[0 := curMisses u + (\<Sum>b\<leftarrow>[0..<?n]. curWayHits u ! b)])"
    using assms(2) by (auto simp: umon_getMisses_def write_at_def)
  moreover have "ms'[0 := curMisses u + (\<Sum>b\<leftarrow>[0..<?n]. curWayHits u ! b)] ! k = tail_misses k u"
    using ms'(2,3) less_le_trans [OF le_less_trans [OF le0 assms(2)] eq_refl [OF ms'(2) [symmetric]]] k by (cases "k = 0") (simp_all add: tail_misses_def)
  ultimately show ?thesis by blast
qed

lemma getMisses_overflow:
  assumes "length ms \<le> u_buckets u"
  shows "umon_getMisses u ms = None"
proof -
  have "misses_loop hits n t ms = None" if "length ms \<le> n" "n \<noteq> 0" for hits n t
    using that by (cases n) (simp_all add: write_at_def)
  then show ?thesis using assms by (cases "u_buckets u = 0") (simp_all add: umon_getMisses_def write_at_def)
qed

lemma new_set_nth: "j < n \<Longrightarrow> new_set n ! j = \<lparr>u_addr = 0, u_next = (if j < n - 1 then Some (j + 1) else None)\<rparr>" "length (new_set n) = n"
  by (simp_all add: new_set_def)

lemma new_set_linked: "j + length is = n \<Longrightarrow> is = [j..<n] \<Longrightarrow> 0 < length is \<Longrightarrow> linked_to (new_set n) (Some j) is None"
proof (induction "is" arbitrary: j)
  case (Cons i "is")
  then have "j < n" by simp
  with Cons.prems(2) have i: "i = j" "is = [Suc j..<n]" "j < n" by (simp_all add: upt_conv_Cons)
  show ?case
  proof (cases "Suc j < n")
    case True
    then have "linked_to (new_set n) (Some (Suc j)) is None" using Cons.IH [of "Suc j"] i by simp
    moreover have "j < n - 1" using True by simp
    ultimately show ?thesis using i(1) by (simp add: new_set_nth)
  next
    case False
    then show ?thesis using i by (simp add: new_set_nth)
  qed
qed simp

lemma new_set_rep: "0 < n \<Longrightarrow> set_rep n (new_set n) 0 (replicate n 0)"
proof -
  assume n: "0 < n"
  then have "0 # [Suc 0..<n] = [0..<n]" by (simp add: upt_conv_Cons)
  moreover have "addrs (new_set n) [0..<n] = replicate n 0" unfolding addrs_def by (rule nth_equalityI) (simp_all add: new_set_def)
  ultimately show ?thesis using new_set_linked [of 0 "[0..<n]" n] n unfolding set_rep_def by (intro exI [of _ "[Suc 0..<n]"]) simp
qed

lemma umon_returns:
  assumes "hash_total hf" and "umon_inv c u" and "a \<noteq> 0"
  shows "\<exists>u' c'. umon_access hf a u = Some u' \<and> umon_inv c' u'"
proof (cases "sampled hf u a")
  case True
  from umon_step [OF assms(1-3) _ True, of 0] show ?thesis by blast
next
  case False
  with umon_access_skip [OF assms(1)] assms(2) show ?thesis by blast
qed

text \<open>The monitors of the partitions.\<close>

definition mon_ok :: "nat \<Rightarrow> UMonMonitor \<Rightarrow> bool" where
  "mon_ok parts m \<longleftrightarrow> \<not> missCacheValid m \<and> parts \<le> length (monitors m) \<and> (\<forall>u\<in>set (monitors m). \<exists>c. umon_inv c u)"

lemma mon_access_returns:
  assumes h: "hash_total hf" and m: "mon_ok parts m" and p: "p < parts" and a: "a \<noteq> 0"
  shows "\<exists>m'. mon_access hf p a m = Some m' \<and> mon_ok parts m'"
proof -
  have l: "p < length (monitors m)" using m p by (simp add: mon_ok_def)
  have "\<exists>c. umon_inv c (monitors m ! p)" using m nth_mem [OF l] by (simp add: mon_ok_def)
  then obtain c where "umon_inv c (monitors m ! p)" ..
  from umon_returns [OF h this a] obtain u' c' where u': "umon_access hf a (monitors m ! p) = Some u'" "umon_inv c' u'" by blast
  have "\<exists>c. umon_inv c u" if "u \<in> set ((monitors m)[p := u'])" for u
    using that m u'(2) by (auto simp: mon_ok_def dest!: set_update_subset_insert [THEN subsetD])
  then have "mon_ok parts (m\<lparr>monitors := (monitors m)[p := u'], missCacheValid := False\<rparr>)" using m by (simp add: mon_ok_def)
  then show ?thesis using m l u'(1) by (auto simp: mon_access_def mon_ok_def array_simps)
qed

lemma new_umon_inv:
  assumes "UMon_new bankLines lines n = Some u" and "n \<le> lines" and "lines < 2 ^ 32"
  shows "umon_inv (\<lambda>_. []) u \<and> u_buckets u = n \<and> tail_misses k u = 0"
proof -
  have nz: "lines \<noteq> 0" "n \<noteq> 0" and u: "u = \<lparr>umonLines = lines, samplingFactor = bankLines div lines, u_buckets = n, u_sets = lines div n,
      samplingFactorBits = count_bits (bankLines div lines), setsBits = count_bits (lines div n), curWayHits = replicate n 0, curMisses = 0,
      u_array = replicate (lines div n) (new_set n), u_heads = replicate (lines div n) 0\<rparr>"
    using assms(1) by (auto simp: UMon_new_def Let_def)
  have p: "0 < lines div n" using assms(2) nz by (simp add: div_greater_zero_iff)
  have b: "2 ^ count_bits (lines div n) \<le> lines div n" by (rule count_bits_le [OF p])
  also have "\<dots> \<le> lines" by (rule div_le_dividend)
  also have "\<dots> < 2 ^ 32" by (rule assms(3))
  finally have "count_bits (lines div n) < 64" by (rule_tac ccontr) (auto dest: power_increasing [of 64 _ "2 :: nat"] simp: not_less)
  moreover have "map ((!) (replicate n (0 :: u64))) [k..<n] = replicate (n - k) 0" by (rule nth_equalityI) simp_all
  ultimately show ?thesis using u b nz new_set_rep [of n] by (auto simp: umon_inv_def holds_lru_def tail_misses_def sum_list_replicate)
qed

lemma those_replicate: "those (replicate n x) = Some ys \<Longrightarrow> length ys = n \<and> (\<forall>y\<in>set ys. x = Some y)"
  by (induction n arbitrary: ys) (auto split: option.splits)

lemma new_mon_ok:
  assumes "UMonMonitor_new bankLines lines n parts k = Some m" and "n \<le> lines" and "lines < 2 ^ 32"
  shows "mon_ok parts m"
proof -
  obtain us where us: "those (replicate parts (UMon_new bankLines lines n)) = Some us" "monitors m = us" "\<not> missCacheValid m"
    using assms(1) by (auto simp: UMonMonitor_new_def bind_eq_Some_conv)
  have "\<exists>c. umon_inv c u" if "u \<in> set us" for u
    using those_replicate [OF us(1)] that new_umon_inv [OF _ assms(2,3), of bankLines u] by blast
  with those_replicate [OF us(1)] us(2,3) show ?thesis by (simp add: mon_ok_def)
qed

subsection \<open>Properties\<close>

text \<open>C23: The miss curve of the utility monitor is the one of LRU: after any sequence of accesses to lines other than 0, by a new
  monitor with at most as many buckets as lines, fewer than 2^32 lines, and hash functions 0 and 1 that give a value for
  every address, entry \<open>k\<close> of the curve is the number of misses (modulo 2 to the 64) that the sampled accesses have in caches of \<open>k\<close> lines per set
  with LRU replacement, for every \<open>k\<close> up to the number of buckets, although the monitor only keeps one list per set.\<close>

theorem umon_counts_lru_misses:
  assumes "hash_total hf" and "UMon_new bankLines lines n = Some u0" and "n \<le> lines" and "lines < 2 ^ 32" and "0 \<notin> set as" and "k \<le> n"
  shows "\<exists>u ms. run_ops (umon_access hf) as u0 = Some u \<and> umon_getMisses u (replicate (Suc n) 0) = Some ms \<and>
    ms ! k = of_nat (lru_misses k (set_of hf u0) (filter (sampled hf u0) as))"
proof -
  from new_umon_inv [OF assms(2-4)] have I: "umon_inv (\<lambda>_. []) u0" "u_buckets u0 = n" "tail_misses k u0 = 0" by simp_all
  from umon_run [OF assms(1) I(1) assms(5), of k] assms(6) I(2,3) obtain u where u: "run_ops (umon_access hf) as u0 = Some u" "u_buckets u = n"
    "length (curWayHits u) = n" "tail_misses k u = of_nat (lru_misses k (set_of hf u0) (filter (sampled hf u0) as))"
    by (auto simp: lru_misses_def)
  with getMisses_run [of u "replicate (Suc n) 0" k] assms(6) show ?thesis by auto
qed

theorem umon_counts_lru_misses_witness:
  "\<exists>u ms. run_ops (umon_access (\<lambda>_ _. Some 0)) [1, 2, 1] (the (UMon_new 2 2 2)) = Some u \<and> umon_getMisses u (replicate (Suc 2) 0) = Some ms \<and>
    ms ! 1 = of_nat (lru_misses 1 (set_of (\<lambda>_ _. Some 0) (the (UMon_new 2 2 2))) (filter (sampled (\<lambda>_ _. Some 0) (the (UMon_new 2 2 2))) [1, 2, 1]))"
  by (rule umon_counts_lru_misses [of _ 2 2]) (simp_all add: hash_total_def UMon_new_def Let_def)

lemma fold_None: "fold (\<lambda>x m. do { m \<leftarrow> m; f x m }) xs None = None"
  by (induction xs) simp_all

lemma fold_length:
  assumes "\<And>x d c. f x d = Some c \<Longrightarrow> length c = length d"
  shows "fold (\<lambda>x m. do { m \<leftarrow> m; f x m }) xs (Some d) = Some c \<Longrightarrow> length c = length d"
proof (induction xs arbitrary: d)
  case (Cons x xs)
  then show ?case using assms [of x d] by (cases "f x d") (simp_all add: fold_None)
qed simp

lemma fill_last:
  assumes "length cache \<le> base + n"
  shows "fill_curve interp ms ub n base cache = None"
proof -
  have down: "length c = length cache" if "downsample ms n r base cache = Some c" for r c
    by (rule fold_length [OF _ that [unfolded downsample_def]]) (auto simp: bind_eq_Some_conv)
  have up: "upsample_step interp ms ub n r base 0 cache = None" for r
  proof (rule ccontr)
    assume "upsample_step interp ms ub n r base 0 cache \<noteq> None"
    then obtain c where c: "fold (\<lambda>k c. do { c \<leftarrow> c; write_at c (base + r * 0 + k) (ucast (interp (ms ! 0) (ms ! 1) k r)) }) [1..<r]
      (Some (cache[base := ucast (ms ! 0)])) = Some c" "base + n < length c" by (auto simp: upsample_step_def bind_eq_Some_conv)
    have "length c = length (cache[base := ucast (ms ! 0)])" by (rule fold_length [OF _ c(1)]) auto
    then show False using c(2) assms by simp
  qed
  show ?thesis
  proof (cases "ub \<ge> n")
    case True
    show ?thesis
    proof (rule ccontr)
      assume "fill_curve interp ms ub n base cache \<noteq> None"
      then obtain c where "downsample ms n (ub div n) base cache = Some c" "base + n < length c"
        using True by (auto simp: fill_curve_def bind_eq_Some_conv)
      then show False using down assms by fastforce
    qed
  next
    case False
    show ?thesis
    proof (cases "ub = 0")
      case z: False
      then have "[0..<ub] = 0 # [1..<ub]" by (simp add: upt_conv_Cons)
      then show ?thesis using False up fold_None [of "\<lambda>j c. upsample_step interp ms ub n (n div ub) base j c"]
        by (simp add: fill_curve_def assert_that_def)
    qed (use False in \<open>simp add: fill_curve_def assert_that_def\<close>)
  qed
qed

text \<open>C38: The miss curves of a partitioned cache overflow their arrays. \<^verbatim>\<open>getMissCurve\<close> gives \<^verbatim>\<open>getMisses\<close>, which writes one entry
  per bucket and one more, an array without the last, so the stack is written past it on every call; with room there, the
  curve of the last partition is written past the end of \<^verbatim>\<open>missCache\<close>, whose curves have no room for the entry of all buckets either;
  for the other partitions it shares the place of the first entry of the next curve.\<close>

theorem miss_curves_overflow:
  "getMissCurve interp stack base part m = None \<and>
   fill_curve interp ms ub n (n * (parts - 1)) (replicate (n * parts) 0) = None \<and>
   (if missCacheValid m \<and> Suc part < length (monitors m) then mon_get interp stack part (mon_buckets m) m = mon_get interp stack (Suc part) 0 m else True)"
proof (intro conjI)
  show "getMissCurve interp stack base part m = None"
    by (simp add: getMissCurve_def Let_def getMisses_overflow bind_eq_None_conv)
  have "n * parts \<le> n * (parts - 1) + n" by (cases parts) simp_all
  then show "fill_curve interp ms ub n (n * (parts - 1)) (replicate (n * parts) 0) = None" by (intro fill_last) simp
  show "if missCacheValid m \<and> Suc part < length (monitors m) then mon_get interp stack part (mon_buckets m) m = mon_get interp stack (Suc part) 0 m else True"
    by (simp add: mon_get_def add.commute)
qed

end
