(* ===== verification/Partitioning.thy ===== *)
theory Partitioning imports Repl_Policies Utility_Monitor begin

text \<open>
  Partitioned caches: the mapping of requests to partitions (\<^verbatim>\<open>zsim/src/partition_mapper.cpp\<close>), the lookahead algorithm
  that divides the ways by the miss curves (\<^verbatim>\<open>lookahead.cpp\<close>), and way partitioning (\<^verbatim>\<open>part_repl_policies.h\<close>).
\<close>

subsection \<open>Partition mappers\<close>

text \<open>A mapper gets the request by reference; \<open>None\<close> for the request is a null pointer, which only some of them read.\<close>

type_synonym mapper = "MemReq option \<Rightarrow> nat option"

definition CorePartMapper :: mapper where
  "CorePartMapper req = map_option (\<lambda>r. unat (srcId r)) req"

definition InstrDataPartMapper :: mapper where
  "InstrDataPartMapper req = map_option (\<lambda>r. unat (flags r AND flag_bits IFETCH)) req"

definition InstrDataCorePartMapper :: "nat \<Rightarrow> mapper" where
  "InstrDataCorePartMapper numCores req = map_option (\<lambda>r. unat (srcId r) + (if is_flag IFETCH r then numCores else 0)) req"

definition ProcessPartMapper :: "nat \<Rightarrow> nat \<Rightarrow> mapper" where
  "ProcessPartMapper numProcs procIdx req = do {
     assert_that (procIdx < numProcs);
     Some procIdx
   }"

definition InstrDataProcessPartMapper :: "nat \<Rightarrow> nat \<Rightarrow> mapper" where
  "InstrDataProcessPartMapper numProcs procIdx req = do {
     assert_that (procIdx < numProcs);
     r \<leftarrow> req;
     Some (procIdx + (if is_flag IFETCH r then numProcs else 0))
   }"

definition ProcessGroupPartMapper :: "nat \<Rightarrow> nat list \<Rightarrow> nat \<Rightarrow> mapper" where
  "ProcessGroupPartMapper numProcGroups groups procIdx req = do {
     groupIdx \<leftarrow> read_at groups procIdx;
     assert_that (groupIdx < numProcGroups);
     Some groupIdx
   }"

subsection \<open>The lookahead algorithm\<close>

text \<open>
  \<open>get p b\<close> is \<^verbatim>\<open>monitor.get\<close>, the misses of partition \<open>p\<close> with \<open>b\<close> buckets. The code divides and compares in floating
  point: \<open>fdiv\<close> and \<open>gt\<close> are its quotient and its comparison, and \<open>m1\<close> is -1.0.
\<close>

type_synonym curves = "nat \<Rightarrow> u32 \<Rightarrow> u32 option"

fun mu_loop :: "(u64 \<Rightarrow> nat \<Rightarrow> 'd) \<Rightarrow> ('d \<Rightarrow> 'd \<Rightarrow> bool) \<Rightarrow> curves \<Rightarrow> nat \<Rightarrow> u32 \<Rightarrow> nat \<Rightarrow> nat \<Rightarrow> 'd \<Rightarrow> nat \<Rightarrow> ('d \<times> nat) option" where
  "mu_loop fdiv gt get part partAlloc 0 i maxMu maxMuAlloc = Some (maxMu, maxMuAlloc)"
| "mu_loop fdiv gt get part partAlloc (Suc n) i maxMu maxMuAlloc = do {
     x \<leftarrow> get part partAlloc;
     y \<leftarrow> get part (partAlloc + of_nat i);
     let mu = fdiv (ucast (x - y)) i;
     (if gt mu maxMu then mu_loop fdiv gt get part partAlloc n (i + 1) mu i
      else mu_loop fdiv gt get part partAlloc n (i + 1) maxMu maxMuAlloc)
   }"

definition getMaxMarginalUtility :: "(u64 \<Rightarrow> nat \<Rightarrow> 'd) \<Rightarrow> ('d \<Rightarrow> 'd \<Rightarrow> bool) \<Rightarrow> 'd \<Rightarrow> curves \<Rightarrow> nat \<Rightarrow> u32 \<Rightarrow> u32 \<Rightarrow> ('d \<times> nat) option" where
  "getMaxMarginalUtility fdiv gt m1 get part partAlloc balance = mu_loop fdiv gt get part partAlloc (unat balance) 1 m1 0"

definition computePartitioningTotalUtility :: "nat \<Rightarrow> u32 list \<Rightarrow> curves \<Rightarrow> u64 option" where
  "computePartitioningTotalUtility numPartitions parts get = do {
     (noCache, cur) \<leftarrow> fold (\<lambda>p s. do {
         (noCache, cur) \<leftarrow> s;
         x \<leftarrow> get p 0;
         a \<leftarrow> read_at parts p;
         y \<leftarrow> get p a;
         Some (noCache + ucast x, cur + ucast y)
       }) [0..<numPartitions] (Some (0, 0));
     Some (noCache - cur)
   }"

text \<open>One iteration of the inner loop per partition; \<open>best\<close> is \<^verbatim>\<open>maxMu\<close>, \<^verbatim>\<open>maxMuPart\<close>, \<^verbatim>\<open>maxMuAlloc\<close>.\<close>

fun best_part :: "(u64 \<Rightarrow> nat \<Rightarrow> 'd) \<Rightarrow> ('d \<Rightarrow> 'd \<Rightarrow> bool) \<Rightarrow> 'd \<Rightarrow> curves \<Rightarrow> (nat \<Rightarrow> bool) \<Rightarrow> u32 \<Rightarrow> u32 list \<Rightarrow> nat \<Rightarrow> 'd \<times> nat \<times> nat \<Rightarrow> ('d \<times> nat \<times> nat) option" where
  "best_part fdiv gt m1 get forbidden balance [] i best = Some best"
| "best_part fdiv gt m1 get forbidden balance (a # as) i best =
     (if forbidden i then best_part fdiv gt m1 get forbidden balance as (i + 1) best
      else do {
        (mu, muAlloc) \<leftarrow> getMaxMarginalUtility fdiv gt m1 get i a balance;
        best_part fdiv gt m1 get forbidden balance as (i + 1) (if gt mu (fst best) then (mu, i, muAlloc) else best)
      })"

partial_function (option) alloc_loop :: "(u64 \<Rightarrow> nat \<Rightarrow> 'd) \<Rightarrow> ('d \<Rightarrow> 'd \<Rightarrow> bool) \<Rightarrow> 'd \<Rightarrow> curves \<Rightarrow> (nat \<Rightarrow> bool) \<Rightarrow> u32 \<Rightarrow> u32 list \<Rightarrow> u32 list option" where
  "alloc_loop fdiv gt m1 get forbidden balance allocs =
     (if balance > 0 then do {
        (maxMu, maxMuPart, maxMuAlloc) \<leftarrow> best_part fdiv gt m1 get forbidden balance allocs 0 (m1, length allocs, 0);
        assert_that (maxMuPart < length allocs);
        alloc_loop fdiv gt m1 get forbidden (balance - of_nat maxMuAlloc) (allocs[maxMuPart := allocs ! maxMuPart + of_nat maxMuAlloc])
      } else Some allocs)"

definition computeBestPartitioning :: "(u64 \<Rightarrow> nat \<Rightarrow> 'd) \<Rightarrow> ('d \<Rightarrow> 'd \<Rightarrow> bool) \<Rightarrow> 'd \<Rightarrow> curves \<Rightarrow> (nat \<Rightarrow> bool) \<Rightarrow> nat \<Rightarrow> u32 \<Rightarrow> u32 \<Rightarrow> u32 list option" where
  "computeBestPartitioning fdiv gt m1 get forbidden numPartitions buckets minAlloc =
     alloc_loop fdiv gt m1 get forbidden (buckets - minAlloc) (replicate numPartitions minAlloc)"

subsection \<open>Way partitioning\<close>

record PartInfo =
  part_size :: u64
  targetSize :: u64
  partHits :: u64
  partMisses :: u64
  selfEvictions :: u64
  extEvictions :: u64

record WayPartInfo =
  wi_addr :: address
  wi_ts :: u64
  wi_p :: nat

record WayPart =
  wp_monitor :: UMonMonitor
  partInfo :: "PartInfo list"
  partitions :: nat
  totalSize :: u32
  waySize :: u32
  ways :: nat
  wp_array :: "WayPartInfo list"
  wayPartIndex :: "nat list"
  testMode :: bool
  bestId :: "nat option"
  wp_candIdx :: nat
  incomingLinePart :: nat
  incomingLineAddr :: address
  wp_timestamp :: u64

definition mod_part :: "nat \<Rightarrow> (PartInfo \<Rightarrow> PartInfo) \<Rightarrow> PartInfo list \<Rightarrow> PartInfo list option" where
  "mod_part p f ps = do {
     i \<leftarrow> read_at ps p;
     write_at ps p (f i)
   }"

lemma mod_part_Some: "mod_part p f ps = Some ps' \<longleftrightarrow> p < length ps \<and> ps' = ps[p := f (ps ! p)]"
  by (auto simp: mod_part_def bind_eq_Some_conv)

definition psize :: "PartInfo list \<Rightarrow> nat \<Rightarrow> u64" where
  "psize ps p = part_size (ps ! p)"

lemma psize_same: "p < length ps \<Longrightarrow> part_size (f (ps ! p)) = psize ps p \<Longrightarrow> q < length ps \<Longrightarrow> psize (ps[p := f (ps ! p)]) q = psize ps q"
  by (cases "p = q") (simp_all add: psize_def)

lemma psize_upd: "p < length ps \<Longrightarrow> q < length ps \<Longrightarrow> psize (ps[p := x]) q = (if p = q then part_size x else psize ps q)"
  by (simp add: psize_def)

text \<open>\<^verbatim>\<open>bestId\<close> is \<open>None\<close> for -1. The constructor gets the number of partitions from the mapper.\<close>

definition WayPart_new :: "UMonMonitor \<Rightarrow> nat \<Rightarrow> u32 \<Rightarrow> nat \<Rightarrow> bool \<Rightarrow> WayPart option" where
  "WayPart_new mon parts lines w test = do {
     assert_that (w \<noteq> 0);
     let size = lines div of_nat w;
     assert_that (size * of_nat w = lines);
     let ps = replicate parts \<lparr>part_size = 0, targetSize = 0, partHits = 0, partMisses = 0, selfEvictions = 0, extEvictions = 0\<rparr>;
     ps \<leftarrow> mod_part 0 (\<lambda>i. i\<lparr>part_size := ucast lines\<rparr>) ps;
     let idx = map (\<lambda>k. k * parts div w) [0..<w];
     ps \<leftarrow> fold (\<lambda>p ps. do { ps \<leftarrow> ps; mod_part p (\<lambda>i. i\<lparr>targetSize := targetSize i + ucast size\<rparr>) ps }) idx (Some ps);
     Some \<lparr>wp_monitor = mon, partInfo = ps, partitions = parts, totalSize = lines, waySize = size, ways = w,
       wp_array = replicate (unat lines) \<lparr>wi_addr = 0, wi_ts = 0, wi_p = 0\<rparr>, wayPartIndex = idx, testMode = test,
       bestId = None, wp_candIdx = 0, incomingLinePart = 0, incomingLineAddr = 0, wp_timestamp = 1\<rparr>
   }"

definition wp_update :: "hash_fn \<Rightarrow> MemReq option \<Rightarrow> nat \<Rightarrow> WayPart \<Rightarrow> WayPart option" where
  "wp_update hf req i s = do {
     e \<leftarrow> read_at (wp_array s) i;
     (e, ps) \<leftarrow> (if wi_ts e > 0 then do {
           ps \<leftarrow> mod_part (wi_p e) (\<lambda>x. x\<lparr>partHits := partHits x + 1\<rparr>) (partInfo s);
           Some (e, ps)
         } else do {
           let oldPart = wi_p e;
           let newPart = incomingLinePart s;
           ps \<leftarrow> (if oldPart \<noteq> newPart then do {
                 ps \<leftarrow> mod_part oldPart (\<lambda>x. x\<lparr>part_size := part_size x - 1, extEvictions := extEvictions x + 1\<rparr>) (partInfo s);
                 mod_part newPart (\<lambda>x. x\<lparr>part_size := part_size x + 1\<rparr>) ps
               } else mod_part oldPart (\<lambda>x. x\<lparr>selfEvictions := selfEvictions x + 1\<rparr>) (partInfo s));
           ps \<leftarrow> mod_part newPart (\<lambda>x. x\<lparr>partMisses := partMisses x + 1\<rparr>) ps;
           Some (e\<lparr>wi_p := newPart\<rparr>, ps)
         });
     let e = e\<lparr>wi_ts := wp_timestamp s\<rparr>;
     m \<leftarrow> mon_access hf (wi_p e) (wi_addr e) (wp_monitor s);
     a \<leftarrow> write_at (wp_array s) i e;
     Some (s\<lparr>wp_array := a, partInfo := ps, wp_timestamp := wp_timestamp s + 1, wp_monitor := m\<rparr>)
   }"

definition wp_startReplacement :: "mapper \<Rightarrow> MemReq option \<Rightarrow> WayPart \<Rightarrow> WayPart option" where
  "wp_startReplacement mapper req s = do {
     assert_that (wp_candIdx s = 0);
     assert_that (bestId s = None);
     p \<leftarrow> mapper req;
     r \<leftarrow> req;
     Some (s\<lparr>incomingLinePart := p, incomingLineAddr := lineAddr r\<rparr>)
   }"

definition wp_recordCandidate :: "nat \<Rightarrow> WayPart \<Rightarrow> WayPart option" where
  "wp_recordCandidate i s = do {
     assert_that (wp_candIdx s < ways s);
     c \<leftarrow> read_at (wp_array s) i;
     w \<leftarrow> read_at (wayPartIndex s) (wp_candIdx s);
     let p = incomingLinePart s;
     let s = s\<lparr>wp_candIdx := wp_candIdx s + 1\<rparr>;
     (if testMode s \<or> w = p then (case bestId s of
         None \<Rightarrow> Some (s\<lparr>bestId := Some i\<rparr>)
       | Some b \<Rightarrow> do {
           best \<leftarrow> read_at (wp_array s) b;
           Some (if testMode s \<or> wi_p c = p \<and> wi_p best = p then (if wi_ts c < wi_ts best then s\<lparr>bestId := Some i\<rparr> else s)
                 else if wi_p c = p \<and> wi_p best \<noteq> p then s
                 else if wi_p c \<noteq> p \<and> wi_p best = p then s\<lparr>bestId := Some i\<rparr>
                 else if wi_ts c < wi_ts best then s\<lparr>bestId := Some i\<rparr> else s)
         })
      else Some s)
   }"

definition wp_replaced :: "nat \<Rightarrow> WayPart \<Rightarrow> WayPart option" where
  "wp_replaced i s = do {
     e \<leftarrow> read_at (wp_array s) i;
     a \<leftarrow> write_at (wp_array s) i (e\<lparr>wi_ts := 0, wi_addr := incomingLineAddr s\<rparr>);
     Some (s\<lparr>wp_candIdx := 0, bestId := None, wp_array := a\<rparr>)
   }"

definition wp_rank :: "mapper \<Rightarrow> cc_view \<Rightarrow> MemReq option \<Rightarrow> nat list \<Rightarrow> WayPart \<Rightarrow> (nat \<times> WayPart) option" where
  "wp_rank mapper cc req cands s = do {
     s \<leftarrow> wp_startReplacement mapper req s;
     s \<leftarrow> record_all wp_recordCandidate cands s;
     b \<leftarrow> bestId s;
     Some (b, s)
   }"

definition WayPartReplPolicy :: "hash_fn \<Rightarrow> mapper \<Rightarrow> WayPart ReplPolicy" where
  "WayPartReplPolicy hf mapper = \<lparr>rp_update = wp_update hf, rp_replaced = wp_replaced, rp_rankCands = wp_rank mapper\<rparr>"

text \<open>\<^verbatim>\<open>setPartitionSizes\<close>: the loops over the partitions and over the ways of one.\<close>

fun fill_ways :: "nat \<Rightarrow> nat \<Rightarrow> nat \<times> nat list \<Rightarrow> (nat \<times> nat list) option" where
  "fill_ways p 0 st = Some st"
| "fill_ways p (Suc n) (curWay, idx) = do {
     idx \<leftarrow> write_at idx curWay p;
     fill_ways p n (curWay + 1, idx)
   }"

fun set_sizes :: "u32 list \<Rightarrow> u32 \<Rightarrow> nat \<Rightarrow> nat \<Rightarrow> nat \<Rightarrow> nat \<times> nat list \<times> PartInfo list \<Rightarrow> (nat \<times> nat list \<times> PartInfo list) option" where
  "set_sizes waysPart tot w 0 p st = Some st"
| "set_sizes waysPart tot w (Suc n) p (curWay, idx, ps) = do {
     k \<leftarrow> read_at waysPart p;
     ps \<leftarrow> mod_part p (\<lambda>x. x\<lparr>targetSize := ucast (tot * k div of_nat w)\<rparr>) ps;
     (curWay, idx) \<leftarrow> fill_ways p (unat k) (curWay, idx);
     set_sizes waysPart tot w n (p + 1) (curWay, idx, ps)
   }"

definition wp_setPartitionSizes :: "u32 list \<Rightarrow> WayPart \<Rightarrow> WayPart option" where
  "wp_setPartitionSizes waysPart s = do {
     (curWay, idx, ps) \<leftarrow> set_sizes waysPart (totalSize s) (ways s) (partitions s) 0 (0, wayPartIndex s, partInfo s);
     assert_that (curWay = ways s);
     Some (s\<lparr>wayPartIndex := idx, partInfo := ps\<rparr>)
   }"

subsection \<open>The partitioner\<close>

text \<open>\<^verbatim>\<open>LookaheadPartitioner::partition\<close> with way partitioning, where \<^verbatim>\<open>allocPortion\<close> is 1. \<open>get\<close> is read from the monitor of the
  policy, and \<open>curAllocs\<close> is an array of one entry per bucket and one more. The utilities it computes are not used, as
  \<^verbatim>\<open>switchAllocs\<close> is set in any case.\<close>

definition partition_ways :: "(u64 \<Rightarrow> nat \<Rightarrow> 'd) \<Rightarrow> ('d \<Rightarrow> 'd \<Rightarrow> bool) \<Rightarrow> 'd \<Rightarrow> curves \<Rightarrow> (nat \<Rightarrow> bool) \<Rightarrow> nat \<Rightarrow> u32 \<Rightarrow> u32 \<Rightarrow> u32 list \<times> WayPart \<Rightarrow> (u32 list \<times> WayPart) option" where
  "partition_ways fdiv gt m1 get forbidden numPartitions buckets minAlloc = (\<lambda>(curAllocs, s). do {
     best \<leftarrow> computeBestPartitioning fdiv gt m1 get forbidden numPartitions buckets (minAlloc * of_nat numPartitions);
     _ \<leftarrow> computePartitioningTotalUtility numPartitions best get;
     _ \<leftarrow> computePartitioningTotalUtility numPartitions curAllocs get;
     assert_that (numPartitions \<le> length curAllocs);
     let curAllocs = best @ drop numPartitions curAllocs;
     s \<leftarrow> wp_setPartitionSizes curAllocs s;
     Some (curAllocs, s\<lparr>wp_monitor := mon_reset (wp_monitor s)\<rparr>)
   })"

end
