(* ===== verification/Partition_Contract.thy ===== *)
theory Partition_Contract imports Partitioning begin

text \<open>
  Way partitioning: the lookahead algorithm always ends, and gives away more ways than there are; the victim is in a way of
  the partition of the request; the sizes of the partitions are exact.
\<close>

subsection \<open>The lookahead algorithm\<close>

text \<open>What the code relies on of floating point: a quotient of unsigned numbers is greater than -1.\<close>

definition above_m1 :: "(u64 \<Rightarrow> nat \<Rightarrow> 'd) \<Rightarrow> ('d \<Rightarrow> 'd \<Rightarrow> bool) \<Rightarrow> 'd \<Rightarrow> bool" where
  "above_m1 fdiv gt m1 \<longleftrightarrow> (\<forall>x i. 0 < i \<longrightarrow> gt (fdiv x i) m1)"

definition curves_to :: "nat \<Rightarrow> u32 \<Rightarrow> curves \<Rightarrow> bool" where
  "curves_to n buckets get \<longleftrightarrow> (\<forall>p b. p < n \<longrightarrow> b \<le> buckets \<longrightarrow> get p b \<noteq> None)"

lemma mu_loop_run:
  assumes "\<And>k. k \<le> unat a + i + n - 1 \<Longrightarrow> get p (of_nat k) \<noteq> None" and "0 < i"
  shows "\<exists>m k. mu_loop fdiv gt get p a n i mm ma = Some (m, k) \<and>
    ((m, k) = (mm, ma) \<or> i \<le> k \<and> k < i + n \<and> (\<exists>x. m = fdiv x k)) \<and> (0 < n \<longrightarrow> (\<forall>x. gt (fdiv x i) mm) \<longrightarrow> i \<le> k)"
  using assms
proof (induction n arbitrary: i mm ma)
  case (Suc n)
  have "get p a \<noteq> None" "get p (a + of_nat i) \<noteq> None" using Suc.prems(1) [of "unat a"] Suc.prems(1) [of "unat a + i"] Suc.prems(2) by auto
  then obtain x y where xy: "get p a = Some x" "get p (a + of_nat i) = Some y" by blast
  let ?v = "fdiv (ucast (x - y)) i"
  have pre: "k \<le> unat a + (i + 1) + n - 1 \<Longrightarrow> get p (of_nat k) \<noteq> None" for k using Suc.prems(1) by simp
  show ?case
  proof (cases "gt ?v mm")
    case True
    from Suc.IH [of "i + 1" ?v i, OF pre] obtain m k where mk: "mu_loop fdiv gt get p a n (i + 1) ?v i = Some (m, k)"
      "(m, k) = (?v, i) \<or> i + 1 \<le> k \<and> k < i + 1 + n \<and> (\<exists>x. m = fdiv x k)" by auto
    then show ?thesis using xy True Suc.prems(2) by (intro exI [of _ m] exI [of _ k]) auto
  next
    case False
    from Suc.IH [of "i + 1" mm ma, OF pre] obtain m k where mk: "mu_loop fdiv gt get p a n (i + 1) mm ma = Some (m, k)"
      "(m, k) = (mm, ma) \<or> i + 1 \<le> k \<and> k < i + 1 + n \<and> (\<exists>x. m = fdiv x k)" by auto
    then show ?thesis using xy False by (intro exI [of _ m] exI [of _ k]) auto
  qed
qed simp

lemma max_utility_run:
  assumes g: "above_m1 fdiv gt m1" and b: "0 < balance" and c: "curves_to n buckets get" and p: "p < n" and a: "unat a + unat balance \<le> unat buckets"
  shows "\<exists>m k. getMaxMarginalUtility fdiv gt m1 get p a balance = Some (m, k) \<and> gt m m1 \<and> 0 < k \<and> k \<le> unat balance"
proof -
  have u: "0 < unat balance" using b by (simp add: unat_gt_0)
  have "get p (of_nat k) \<noteq> None" if "k \<le> unat a + 1 + unat balance - 1" for k
  proof -
    have "k \<le> unat buckets" using that a by simp
    then have "(of_nat k :: u32) \<le> buckets" by (simp add: word_le_nat_alt unsigned_of_nat order.trans [OF take_bit_nat_less_eq_self])
    then show ?thesis using c p by (simp add: curves_to_def)
  qed
  from mu_loop_run [of a 1 "unat balance" get p fdiv gt m1 0, OF this] obtain m k where
    "mu_loop fdiv gt get p a (unat balance) 1 m1 0 = Some (m, k)" "(m, k) = (m1, 0) \<or> 1 \<le> k \<and> k < 1 + unat balance \<and> (\<exists>x. m = fdiv x k)"
    "0 < unat balance \<longrightarrow> (\<forall>x. gt (fdiv x 1) m1) \<longrightarrow> 1 \<le> k" by auto
  with u g show ?thesis by (auto simp: getMaxMarginalUtility_def above_m1_def)
qed

lemma best_part_run:
  assumes g: "above_m1 fdiv gt m1" and b: "0 < balance" and c: "curves_to n buckets get"
    and as: "i + length as = n" and a: "\<forall>a\<in>set as. unat a + unat balance \<le> unat buckets"
    and best: "best = (m1, n, 0) \<or> (\<exists>m p k. best = (m, p, k) \<and> p < n \<and> 0 < k \<and> k \<le> unat balance)"
    and free: "(\<exists>j. i \<le> j \<and> j < n \<and> \<not> forbidden j) \<or> best \<noteq> (m1, n, 0)"
  shows "\<exists>m p k. best_part fdiv gt m1 get forbidden balance as i best = Some (m, p, k) \<and> p < n \<and> 0 < k \<and> k \<le> unat balance"
  using as a best free
proof (induction as arbitrary: i best)
  case (Cons a as)
  show ?case
  proof (cases "forbidden i")
    case True
    have "(\<exists>j. i + 1 \<le> j \<and> j < n \<and> \<not> forbidden j) \<or> best \<noteq> (m1, n, 0)" using Cons.prems(4) True by (metis Suc_eq_plus1 le_antisym not_less_eq_eq)
    from Cons.IH [OF _ _ Cons.prems(3) this] Cons.prems(1,2) True show ?thesis by simp
  next
    case False
    have "i < n" "unat a + unat balance \<le> unat buckets" using Cons.prems(1,2) by simp_all
    from max_utility_run [OF g b c this] obtain m k where u: "getMaxMarginalUtility fdiv gt m1 get i a balance = Some (m, k)"
      "gt m m1" "0 < k" "k \<le> unat balance" by blast
    let ?b = "if gt m (fst best) then (m, i, k) else best"
    have "?b = (m1, n, 0) \<or> (\<exists>m p k. ?b = (m, p, k) \<and> p < n \<and> 0 < k \<and> k \<le> unat balance)" using Cons.prems(3) u \<open>i < n\<close> by auto
    moreover have "?b \<noteq> (m1, n, 0)" using u(2,3) Cons.prems(3) by auto
    ultimately show ?thesis using Cons.IH [of "i + 1" ?b] Cons.prems(1,2) u(1) False by simp
  qed
qed auto

lemma sum_list_add: "p < length as \<Longrightarrow> sum_list (map unat (as[p := x])) + unat (as ! p) = sum_list (map unat as) + unat (x :: u32)"
  by (induction as arbitrary: p) (auto split: nat.splits)

lemma alloc_loop_run:
  assumes g: "above_m1 fdiv gt m1" and c: "curves_to n buckets get" and free: "j < n" "\<not> forbidden j"
  shows "length as = n \<Longrightarrow> \<forall>a\<in>set as. unat a + unat balance \<le> unat buckets \<and> unat m \<le> unat a \<Longrightarrow>
    \<exists>as'. alloc_loop fdiv gt m1 get forbidden balance as = Some as' \<and> length as' = n \<and>
      sum_list (map unat as') = sum_list (map unat as) + unat balance \<and> (\<forall>a\<in>set as'. unat m \<le> unat a \<and> unat a \<le> unat buckets)"
proof (induction "unat balance" arbitrary: balance as rule: less_induct)
  case less
  show ?case
  proof (cases "balance = 0")
    case True
    then show ?thesis using less.prems by (subst alloc_loop.simps) simp
  next
    case False
    then have b: "0 < balance" by (simp add: word_neq_0_conv)
    from best_part_run [OF g b c, of 0 as "(m1, n, 0)" forbidden] less.prems free obtain u p k where
      bp: "best_part fdiv gt m1 get forbidden balance as 0 (m1, n, 0) = Some (u, p, k)" "p < n" "0 < k" "k \<le> unat balance" by auto
    let ?b = "balance - of_nat k" and ?as = "as[p := as ! p + of_nat k]"
    have "unat balance < 2 ^ 32" using unsigned_less [of balance, where ?'a = nat] by simp
    then have k32: "unat (of_nat k :: u32) = k" using bp(4) by (simp add: unsigned_of_nat take_bit_nat_eq_self_iff)
    have ub: "unat ?b = unat balance - k" using bp(4) k32 by (simp add: unat_sub word_le_nat_alt)
    have pa: "unat (as ! p) + unat balance \<le> unat buckets" using less.prems bp(2) by auto
    have ap: "unat (as ! p + of_nat k) = unat (as ! p) + k"
    proof -
      have "unat (as ! p) + unat (of_nat k :: u32) < 2 ^ 32" using pa bp(4) k32 unsigned_less [of buckets, where ?'a = nat] by simp
      then show ?thesis using unat_add_small [of "as ! p" "of_nat k"] k32 by simp
    qed
    have "\<forall>a\<in>set ?as. unat a + unat ?b \<le> unat buckets \<and> unat m \<le> unat a"
    proof
      fix a assume "a \<in> set ?as"
      then consider "a \<in> set as" | "a = as ! p + of_nat k" using set_update_subset_insert by fastforce
      then show "unat a + unat ?b \<le> unat buckets \<and> unat m \<le> unat a"
      proof cases
        case 1
        then have "unat a + unat balance \<le> unat buckets" "unat m \<le> unat a" using less.prems(2) by blast+
        then show ?thesis using ub by simp
      next
        case 2
        then show ?thesis using ap ub pa bp(4) less.prems bp(2) by (auto simp: trans_le_add1)
      qed
    qed
    moreover have "unat ?b < unat balance" using ub bp(3,4) by simp
    ultimately obtain as' where r: "alloc_loop fdiv gt m1 get forbidden ?b ?as = Some as'" "length as' = n"
      "sum_list (map unat as') = sum_list (map unat ?as) + unat ?b" "\<forall>a\<in>set as'. unat m \<le> unat a \<and> unat a \<le> unat buckets"
      using less.hyps [of ?b ?as] less.prems(1) by auto
    have "sum_list (map unat ?as) = sum_list (map unat as) + k" using sum_list_add [of p as "as ! p + of_nat k"] bp(2) less.prems(1) ap by simp
    then have "sum_list (map unat as') = sum_list (map unat as) + unat balance" using r(3) ub bp(4) by simp
    moreover have "alloc_loop fdiv gt m1 get forbidden balance as = Some as'"
      using b bp(1,2) less.prems(1) r(1) by (subst alloc_loop.simps) simp
    ultimately show ?thesis using r(2,4) by blast
  qed
qed

lemma compute_run:
  assumes g: "above_m1 fdiv gt m1" and c: "curves_to n buckets get" and free: "j < n" "\<not> forbidden j" and m: "minAlloc \<le> buckets"
  shows "\<exists>as. computeBestPartitioning fdiv gt m1 get forbidden n buckets minAlloc = Some as \<and> length as = n \<and>
    sum_list (map unat as) = unat buckets + (n - 1) * unat minAlloc \<and> (\<forall>a\<in>set as. minAlloc \<le> a \<and> a \<le> buckets)"
proof -
  have b: "unat (buckets - minAlloc) = unat buckets - unat minAlloc" using m by (simp add: unat_sub)
  have l: "unat minAlloc \<le> unat buckets" using m by (simp add: word_le_nat_alt)
  from alloc_loop_run [where forbidden = forbidden, OF g c free, of "replicate n minAlloc" "buckets - minAlloc" minAlloc] b l obtain as where
    "alloc_loop fdiv gt m1 get forbidden (buckets - minAlloc) (replicate n minAlloc) = Some as" "length as = n"
    "sum_list (map unat as) = sum_list (map unat (replicate n minAlloc)) + unat (buckets - minAlloc)" "\<forall>a\<in>set as. unat minAlloc \<le> unat a \<and> unat a \<le> unat buckets"
    by auto
  moreover have "sum_list (map unat (replicate n minAlloc)) + unat (buckets - minAlloc) = unat buckets + (n - 1) * unat minAlloc"
    using b l free(1) by (cases n) (simp_all add: sum_list_replicate)
  ultimately show ?thesis by (simp add: computeBestPartitioning_def word_le_nat_alt)
qed

subsection \<open>Too many ways\<close>

lemma fill_ways_count: "fill_ways p n (cur, idx) = Some (cur', idx') \<Longrightarrow> cur' = cur + n"
  by (induction n arbitrary: cur idx) (fastforce simp: bind_eq_Some_conv)+

lemma set_sizes_count:
  "set_sizes wp tot w n p (cur, idx, ps) = Some (cur', idx', ps') \<Longrightarrow> cur' = cur + sum_list (map unat (take n (drop p wp)))"
proof (induction n arbitrary: p cur idx ps)
  case (Suc n)
  then obtain k ps1 cur1 idx1 where k: "p < length wp" "wp ! p = k" and f: "fill_ways p (unat k) (cur, idx) = Some (cur1, idx1)"
    and r: "set_sizes wp tot w n (p + 1) (cur1, idx1, ps1) = Some (cur', idx', ps')"
    by (auto simp: bind_eq_Some_conv)
  have "take (Suc n) (drop p wp) = k # take n (drop (p + 1) wp)" using k by (simp add: Cons_nth_drop_Suc [symmetric])
  then show ?case using Suc.IH [OF r] fill_ways_count [OF f] by simp
qed simp

lemma too_many_ways:
  assumes "sum_list (map unat (take (partitions s) wp)) \<noteq> ways s"
  shows "wp_setPartitionSizes wp s = None"
proof (rule ccontr)
  assume "wp_setPartitionSizes wp s \<noteq> None"
  then obtain idx ps where "set_sizes wp (totalSize s) (ways s) (partitions s) 0 (0, wayPartIndex s, partInfo s) = Some (ways s, idx, ps)"
    by (auto simp: wp_setPartitionSizes_def bind_eq_Some_conv)
  from set_sizes_count [OF this] assms show False by simp
qed

subsection \<open>The choice of a victim\<close>

text \<open>The candidates that the partition of the request may replace, with the order they are compared in: lines of other
  partitions first, then by the time of the last use; in test mode only by this time.\<close>

definition allowed :: "WayPart \<Rightarrow> nat \<Rightarrow> bool" where
  "allowed s w \<longleftrightarrow> testMode s \<or> wayPartIndex s ! w = incomingLinePart s"

definition victim_before :: "WayPart \<Rightarrow> nat \<Rightarrow> nat \<Rightarrow> bool" where
  "victim_before s i j \<longleftrightarrow> (let a = wp_array s ! i; b = wp_array s ! j; p = incomingLinePart s in
     if testMode s then wi_ts a < wi_ts b
     else wi_p a \<noteq> p \<and> wi_p b = p \<or> (wi_p a = p \<longleftrightarrow> wi_p b = p) \<and> wi_ts a < wi_ts b)"

lemma before_trans: "\<not> victim_before s j i \<Longrightarrow> \<not> victim_before s k j \<Longrightarrow> \<not> victim_before s k i"
  by (auto simp: victim_before_def Let_def split: if_splits)

lemma before_asym: "victim_before s i j \<Longrightarrow> \<not> victim_before s j i"
  by (auto simp: victim_before_def Let_def split: if_splits)

text \<open>After the candidates of the ways below \<open>wp_candIdx\<close>.\<close>

definition best_of :: "WayPart \<Rightarrow> nat list \<Rightarrow> WayPart \<Rightarrow> bool" where
  "best_of s0 cs s \<longleftrightarrow> s = s0\<lparr>wp_candIdx := length cs, bestId := bestId s\<rparr> \<and>
     (case bestId s of
        None \<Rightarrow> \<forall>w<length cs. \<not> allowed s0 w
      | Some i \<Rightarrow> \<exists>w<length cs. cs ! w = i \<and> allowed s0 w \<and> (\<forall>w'<length cs. allowed s0 w' \<longrightarrow> \<not> victim_before s0 (cs ! w') i))"

lemma record_step:
  assumes b: "best_of s0 cs s" and len: "length cs < ways s0" "length (wayPartIndex s0) = ways s0"
    and c: "list_all (\<lambda>i. i < length (wp_array s0)) (cs @ [i])"
  shows "\<exists>s'. wp_recordCandidate i s = Some s' \<and> best_of s0 (cs @ [i]) s'"
proof -
  have f: "wp_candIdx s = length cs" "ways s = ways s0" "wayPartIndex s = wayPartIndex s0" "wp_array s = wp_array s0"
    "incomingLinePart s = incomingLinePart s0" "testMode s = testMode s0" "s\<lparr>wp_candIdx := n, bestId := b\<rparr> = s0\<lparr>wp_candIdx := n, bestId := b\<rparr>" for n b
    using b by (cases s; cases s0; simp add: best_of_def)+
  have i: "i < length (wp_array s0)" using c by simp
  let ?al = "allowed s0 (length cs)"
  define res where "res = (if \<not> ?al then bestId s else case bestId s of None \<Rightarrow> Some i | Some j \<Rightarrow> if victim_before s0 i j then Some i else Some j)"
  have j: "j < length (wp_array s0)" if "bestId s = Some j" for j
  proof -
    have "list_all (\<lambda>i. i < length (wp_array s0)) cs" using c by simp
    then show ?thesis using b that by (auto simp: best_of_def list_all_length)
  qed
  have "wp_recordCandidate i s = Some (s\<lparr>wp_candIdx := length cs + 1, bestId := res\<rparr>)"
    using i len j unfolding wp_recordCandidate_def f(1-6) Let_def
    by (cases "bestId s") (auto simp: array_simps f(1-6) res_def allowed_def victim_before_def Let_def intro!: WayPart.equality)
  moreover have "best_of s0 (cs @ [i]) (s\<lparr>wp_candIdx := length cs + 1, bestId := res\<rparr>)"
  proof -
    have e: "s\<lparr>wp_candIdx := length cs + 1, bestId := res\<rparr> = s0\<lparr>wp_candIdx := length (cs @ [i]), bestId := res\<rparr>" using f(7) by simp
    have n: "(cs @ [i]) ! w = cs ! w" if "w < length cs" for w using that by (simp add: nth_append)
    have d: "w < length (cs @ [i]) \<longleftrightarrow> w < length cs \<or> w = length cs" for w by auto
    have "case res of None \<Rightarrow> \<forall>w<length (cs @ [i]). \<not> allowed s0 w
        | Some k \<Rightarrow> \<exists>w<length (cs @ [i]). (cs @ [i]) ! w = k \<and> allowed s0 w \<and> (\<forall>w'<length (cs @ [i]). allowed s0 w' \<longrightarrow> \<not> victim_before s0 ((cs @ [i]) ! w') k)"
    proof (cases "bestId s")
      case None
      then have "\<forall>w<length cs. \<not> allowed s0 w" using b by (simp add: best_of_def)
      then show ?thesis using None before_asym [of s0 i i] by (auto simp: res_def d less_Suc_eq)
    next
      case (Some k)
      then obtain w where w: "w < length cs" "cs ! w = k" "allowed s0 w" "\<forall>w'<length cs. allowed s0 w' \<longrightarrow> \<not> victim_before s0 (cs ! w') k"
        using b by (auto simp: best_of_def)
      show ?thesis
      proof (cases "?al \<and> victim_before s0 i k")
        case True
        have "\<not> victim_before s0 ((cs @ [i]) ! w') i" if "w' < length (cs @ [i])" "allowed s0 w'" for w'
        proof (cases "w' = length cs")
          case False
          then have "w' < length cs" using that(1) by simp
          then have "\<not> victim_before s0 (cs ! w') k" "(cs @ [i]) ! w' = cs ! w'" using w(4) that(2) n by simp_all
          then show ?thesis using before_trans [of s0 k i "cs ! w'"] before_asym [of s0 i k] True by simp
        qed (use before_asym [of s0 i i] in auto)
        then show ?thesis using True Some by (auto simp: res_def intro!: exI [of _ "length cs"])
      next
        case False
        then have "res = Some k" using Some by (auto simp: res_def)
        moreover have "\<not> victim_before s0 ((cs @ [i]) ! w') k" if "w' < length (cs @ [i])" "allowed s0 w'" for w'
          using that w(4) n False d by (cases "w' = length cs") auto
        ultimately show ?thesis using w(1-3) n by (auto intro!: exI [of _ w])
      qed
    qed
    then show ?thesis unfolding best_of_def e by simp
  qed
  ultimately show ?thesis by blast
qed

lemma record_all_run:
  assumes "best_of s0 cs s" and "length (cs @ is) \<le> ways s0" "length (wayPartIndex s0) = ways s0" and "list_all (\<lambda>i. i < length (wp_array s0)) (cs @ is)"
  shows "\<exists>s'. record_all wp_recordCandidate is s = Some s' \<and> best_of s0 (cs @ is) s'"
  using assms
proof (induction "is" arbitrary: cs s)
  case (Cons i "is")
  from record_step [OF Cons.prems(1), of i] Cons.prems(2-4) obtain s1 where "wp_recordCandidate i s = Some s1" "best_of s0 (cs @ [i]) s1" by auto
  with Cons.IH [of "cs @ [i]" s1] Cons.prems(2-4) show ?case by simp
qed simp

subsection \<open>The sizes of the partitions\<close>

definition lines_of :: "nat \<Rightarrow> WayPart \<Rightarrow> nat" where
  "lines_of p s = length (filter (\<lambda>e. wi_p e = p) (wp_array s))"

definition sizes_exact :: "WayPart \<Rightarrow> bool" where
  "sizes_exact s \<longleftrightarrow> length (wp_array s) < 2 ^ 32 \<and> list_all (\<lambda>e. wi_p e < length (partInfo s)) (wp_array s) \<and>
     (\<forall>p<length (partInfo s). unat (part_size (partInfo s ! p)) = lines_of p s)"

lemma filter_upd: "i < length xs \<Longrightarrow> length (filter P (xs[i := e])) + (if P (xs ! i) then 1 else 0) = length (filter P xs) + (if P e then 1 else 0)"
proof (induction xs arbitrary: i)
  case (Cons x xs)
  show ?case using Cons.IH [of "i - 1"] Cons.prems by (cases i) auto
qed simp

lemma lines_of_upd:
  assumes "i < length (wp_array s)"
  shows "lines_of p (s\<lparr>wp_array := (wp_array s)[i := e]\<rparr>) + (if wi_p (wp_array s ! i) = p then 1 else 0) =
    lines_of p s + (if wi_p e = p then 1 else 0)"
  using filter_upd [OF assms, of "\<lambda>e. wi_p e = p" e] by (simp add: lines_of_def)

lemma sizes_update:
  assumes u: "wp_update hf req i s = Some s'" and I: "sizes_exact s"
  shows "sizes_exact s'"
proof -
  let ?e = "wp_array s ! i" and ?ps = "partInfo s"
  have I': "length (wp_array s) < 2 ^ 32" "\<forall>e\<in>set (wp_array s). wi_p e < length ?ps" "\<forall>p<length ?ps. unat (psize ?ps p) = lines_of p s"
    using I by (simp_all add: sizes_exact_def list_all_iff psize_def)
  from u [unfolded wp_update_def Let_def] obtain e ps m where i: "i < length (wp_array s)"
    and c: "(if wi_ts ?e > 0 then do {
           ps \<leftarrow> mod_part (wi_p ?e) (\<lambda>x. x\<lparr>partHits := partHits x + 1\<rparr>) ?ps;
           Some (?e, ps)
         } else do {
           ps \<leftarrow> (if wi_p ?e \<noteq> incomingLinePart s then do {
                 ps \<leftarrow> mod_part (wi_p ?e) (\<lambda>x. x\<lparr>part_size := part_size x - 1, extEvictions := extEvictions x + 1\<rparr>) ?ps;
                 mod_part (incomingLinePart s) (\<lambda>x. x\<lparr>part_size := part_size x + 1\<rparr>) ps
               } else mod_part (wi_p ?e) (\<lambda>x. x\<lparr>selfEvictions := selfEvictions x + 1\<rparr>) ?ps);
           ps \<leftarrow> mod_part (incomingLinePart s) (\<lambda>x. x\<lparr>partMisses := partMisses x + 1\<rparr>) ps;
           Some (?e\<lparr>wi_p := incomingLinePart s\<rparr>, ps)
         }) = Some (e, ps)"
    and s': "s' = s\<lparr>wp_array := (wp_array s)[i := e\<lparr>wi_ts := wp_timestamp s\<rparr>], partInfo := ps, wp_timestamp := wp_timestamp s + 1, wp_monitor := m\<rparr>"
    by (auto simp: bind_eq_Some_conv)
  let ?q = "incomingLinePart s"
  have pe: "wi_p ?e < length ?ps" using I'(2) i by simp
  have lo: "lines_of (wi_p ?e) s > 0" using i by (auto simp: lines_of_def filter_empty_conv)
  have lt: "lines_of p s < 2 ^ 32" for p using I'(1) le_less_trans [OF length_filter_le] by (auto simp: lines_of_def)
  have new: "length ps = length ?ps \<and> wi_p e < length ?ps \<and>
    (\<forall>p<length ?ps. unat (psize ps p) + (if wi_p ?e = p then 1 else 0) = unat (psize ?ps p) + (if wi_p e = p then 1 else 0))"
  proof (cases "wi_ts ?e > 0 \<or> wi_p ?e = ?q")
    case True
    then have "length ps = length ?ps \<and> wi_p e = wi_p ?e \<and> (\<forall>p<length ?ps. psize ps p = psize ?ps p)"
      using c by (auto simp: mod_part_Some bind_eq_Some_conv psize_def nth_list_update split: if_splits)
    then show ?thesis using pe by simp
  next
    case False
    then obtain ps1 ps2 where p1: "ps1 = ?ps[wi_p ?e := (?ps ! wi_p ?e)\<lparr>part_size := part_size (?ps ! wi_p ?e) - 1, extEvictions := extEvictions (?ps ! wi_p ?e) + 1\<rparr>]"
      and p2: "?q < length ?ps" "ps2 = ps1[?q := (ps1 ! ?q)\<lparr>part_size := part_size (ps1 ! ?q) + 1\<rparr>]"
      and p3: "ps = ps2[?q := (ps2 ! ?q)\<lparr>partMisses := partMisses (ps2 ! ?q) + 1\<rparr>]" "e = ?e\<lparr>wi_p := ?q\<rparr>"
      using c by (auto simp: mod_part_Some bind_eq_Some_conv)
    have l: "length ps1 = length ?ps" "length ps2 = length ?ps" using p1 p2 by simp_all
    have z: "psize ps p = (if p = wi_p ?e then psize ?ps p - 1 else if p = ?q then psize ?ps p + 1 else psize ?ps p)" if "p < length ?ps" for p
      using that p1 p2 p3 pe l False by (auto simp: psize_def nth_list_update)
    have a: "unat (psize ?ps (wi_p ?e) - 1) + 1 = unat (psize ?ps (wi_p ?e))"
      using I'(3) pe lo by (simp add: unat_minus_one unat_gt_0 flip: unat_gt_0)
    have b: "unat (psize ?ps ?q + 1) = unat (psize ?ps ?q) + 1" using I'(3) p2(1) lt [of ?q] by (subst unat_add_small) simp_all
    show ?thesis using False p2(1) p3 l z a b by auto
  qed
  have len: "lines_of p s' = lines_of p (s\<lparr>wp_array := (wp_array s)[i := e\<lparr>wi_ts := wp_timestamp s\<rparr>]\<rparr>)" for p by (simp add: s' lines_of_def)
  have "unat (psize ps p) = lines_of p s'" if "p < length ps" for p
  proof -
    have p: "p < length ?ps" using that new by simp
    then have "unat (psize ps p) + (if wi_p ?e = p then 1 else 0) = lines_of p s + (if wi_p e = p then 1 else 0)" using new I'(3) by simp
    moreover have "lines_of p s' + (if wi_p ?e = p then 1 else 0) = lines_of p s + (if wi_p e = p then 1 else 0)"
      unfolding len using lines_of_upd [OF i, of p "e\<lparr>wi_ts := wp_timestamp s\<rparr>"] by simp
    ultimately show ?thesis by linarith
  qed
  moreover have "\<forall>x\<in>set (wp_array s'). wi_p x < length ps"
    using I'(2) new by (auto simp: s' dest!: set_update_subset_insert [THEN subsetD])
  ultimately show ?thesis using I'(1) by (simp add: sizes_exact_def list_all_iff psize_def s')
qed

lemma sizes_cong: "wp_array s' = wp_array s \<Longrightarrow> partInfo s' = partInfo s \<Longrightarrow> sizes_exact s' = sizes_exact s"
  by (simp add: sizes_exact_def lines_of_def)

lemma sizes_replaced: "wp_replaced i s = Some s' \<Longrightarrow> sizes_exact s \<Longrightarrow> sizes_exact s'"
proof -
  assume r: "wp_replaced i s = Some s'" and I: "sizes_exact s"
  let ?e = "(wp_array s ! i)\<lparr>wi_ts := 0, wi_addr := incomingLineAddr s\<rparr>"
  from r have i: "i < length (wp_array s)" and s': "s' = s\<lparr>wp_candIdx := 0, bestId := None, wp_array := (wp_array s)[i := ?e]\<rparr>"
    by (auto simp: wp_replaced_def bind_eq_Some_conv)
  have "lines_of p s' = lines_of p (s\<lparr>wp_array := (wp_array s)[i := ?e]\<rparr>)" for p by (simp add: s' lines_of_def)
  then have "lines_of p s' = lines_of p s" for p using lines_of_upd [OF i, of p ?e] by simp
  moreover have "list_all (\<lambda>e. wi_p e < length (partInfo s)) (wp_array s')"
    using I i by (auto simp: s' sizes_exact_def list_all_length nth_list_update)
  ultimately show ?thesis using I by (simp add: sizes_exact_def s')
qed

lemma record_all_frame: "record_all wp_recordCandidate cs s = Some s' \<Longrightarrow> wp_array s' = wp_array s \<and> partInfo s' = partInfo s"
proof (induction cs arbitrary: s)
  case (Cons c cs)
  then obtain s1 where s1: "wp_recordCandidate c s = Some s1" "record_all wp_recordCandidate cs s1 = Some s'" by (auto simp: bind_eq_Some_conv)
  from s1(1) [unfolded wp_recordCandidate_def Let_def] have "wp_array s1 = wp_array s \<and> partInfo s1 = partInfo s"
    by (auto simp: bind_eq_Some_conv split: if_splits option.splits)
  with Cons.IH [OF s1(2)] show ?case by simp
qed simp

lemma sizes_rank: "wp_rank mapper cc req cands s = Some (v, s') \<Longrightarrow> sizes_exact s \<Longrightarrow> sizes_exact s'"
proof -
  assume r: "wp_rank mapper cc req cands s = Some (v, s')" and I: "sizes_exact s"
  then obtain s1 where s1: "wp_startReplacement mapper req s = Some s1" "record_all wp_recordCandidate cands s1 = Some s'"
    by (auto simp: wp_rank_def bind_eq_Some_conv)
  then have "wp_array s1 = wp_array s \<and> partInfo s1 = partInfo s" by (auto simp: wp_startReplacement_def bind_eq_Some_conv)
  with record_all_frame [OF s1(2)] I show ?thesis using sizes_cong [of s' s] by simp
qed

text \<open>A set of runs: accesses that hit and complete replacements.\<close>

datatype wp_op = Wp_hit "MemReq option" nat | Wp_miss "MemReq option" "nat list" | Wp_sizes "u32 list"

fun wp_exec :: "hash_fn \<Rightarrow> mapper \<Rightarrow> cc_view \<Rightarrow> wp_op \<Rightarrow> WayPart \<Rightarrow> WayPart option" where
  "wp_exec hf mapper cc (Wp_hit req i) s = wp_update hf req i s"
| "wp_exec hf mapper cc (Wp_miss req cands) s = do {
     (v, s) \<leftarrow> wp_rank mapper cc req cands s;
     s \<leftarrow> wp_replaced v s;
     wp_update hf req v s
   }"
| "wp_exec hf mapper cc (Wp_sizes ws) s = wp_setPartitionSizes ws s"

lemma set_sizes_psize:
  "set_sizes wp tot w n p (cur, idx, ps) = Some (cur', idx', ps') \<Longrightarrow> length ps' = length ps \<and> (\<forall>q<length ps. psize ps' q = psize ps q)"
proof (induction n arbitrary: p cur idx ps)
  case (Suc n)
  then obtain k cur1 idx1 where m: "p < length ps"
    and r: "set_sizes wp tot w n (p + 1) (cur1, idx1, ps[p := (ps ! p)\<lparr>targetSize := ucast (tot * k div of_nat w)\<rparr>]) = Some (cur', idx', ps')"
    by (auto simp: bind_eq_Some_conv mod_part_Some)
  from Suc.IH [OF r] m show ?case by (auto simp: psize_def nth_list_update)
qed simp

lemma sizes_step: "wp_exec hf mapper cc x s = Some s' \<Longrightarrow> sizes_exact s \<Longrightarrow> sizes_exact s'"
proof (cases x)
  case (Wp_miss req cands)
  assume "wp_exec hf mapper cc x s = Some s'" and I: "sizes_exact s"
  then obtain v s1 s2 where "wp_rank mapper cc req cands s = Some (v, s1)" "wp_replaced v s1 = Some s2" "wp_update hf req v s2 = Some s'"
    using Wp_miss by (auto simp: bind_eq_Some_conv)
  then show ?thesis using I sizes_rank sizes_replaced sizes_update by metis
next
  case (Wp_sizes ws)
  assume "wp_exec hf mapper cc x s = Some s'" and I: "sizes_exact s"
  then obtain idx ps where "set_sizes ws (totalSize s) (ways s) (partitions s) 0 (0, wayPartIndex s, partInfo s) = Some (ways s, idx, ps)"
    "s' = s\<lparr>wayPartIndex := idx, partInfo := ps\<rparr>" using Wp_sizes by (auto simp: wp_setPartitionSizes_def bind_eq_Some_conv)
  then show ?thesis using I set_sizes_psize by (fastforce simp: sizes_exact_def lines_of_def psize_def)
qed (simp add: sizes_update)

lemma sizes_run: "run_ops (wp_exec hf mapper cc) xs s = Some s' \<Longrightarrow> sizes_exact s \<Longrightarrow> sizes_exact s'"
  by (induction xs arbitrary: s) (auto simp: bind_eq_Some_conv dest: sizes_step)

lemma fold_targets:
  "fold (\<lambda>p ps. do { ps \<leftarrow> ps; mod_part p (\<lambda>i. i\<lparr>targetSize := targetSize i + x\<rparr>) ps }) idx (Some ps) = Some ps' \<Longrightarrow>
    length ps' = length ps \<and> (\<forall>q<length ps. psize ps' q = psize ps q)"
proof (induction idx arbitrary: ps)
  case (Cons p idx)
  have "fold (\<lambda>p ps. do { ps \<leftarrow> ps; mod_part p (\<lambda>i. i\<lparr>targetSize := targetSize i + x\<rparr>) ps }) is None = None" for "is" by (induction "is") simp_all
  then have p: "p < length ps" "fold (\<lambda>p ps. do { ps \<leftarrow> ps; mod_part p (\<lambda>i. i\<lparr>targetSize := targetSize i + x\<rparr>) ps }) idx
      (Some (ps[p := (ps ! p)\<lparr>targetSize := targetSize (ps ! p) + x\<rparr>])) = Some ps'"
    using Cons.prems by (cases "mod_part p (\<lambda>i. i\<lparr>targetSize := targetSize i + x\<rparr>) ps"; auto simp: mod_part_Some)+
  from Cons.IH [OF p(2)] p(1) show ?case by (auto simp: psize_def nth_list_update)
qed simp

lemma new_sizes: "WayPart_new mon parts lines w test = Some s \<Longrightarrow> sizes_exact s"
proof -
  assume "WayPart_new mon parts lines w test = Some s"
  then obtain ps where l: "0 < parts" and f: "fold (\<lambda>p ps. do { ps \<leftarrow> ps; mod_part p (\<lambda>i. i\<lparr>targetSize := targetSize i + ucast (lines div of_nat w)\<rparr>) ps })
      (map (\<lambda>k. k * parts div w) [0..<w]) (Some ((replicate parts \<lparr>part_size = 0, targetSize = 0, partHits = 0, partMisses = 0, selfEvictions = 0, extEvictions = 0\<rparr>)
        [0 := \<lparr>part_size = ucast lines, targetSize = 0, partHits = 0, partMisses = 0, selfEvictions = 0, extEvictions = 0\<rparr>])) = Some ps"
    and s: "partInfo s = ps" "wp_array s = replicate (unat lines) \<lparr>wi_addr = 0, wi_ts = 0, wi_p = 0\<rparr>"
    by (auto simp: WayPart_new_def Let_def bind_eq_Some_conv mod_part_Some)
  have "unat (ucast lines :: u64) = unat lines" by (rule unat_widen) simp
  moreover have "unat lines < 2 ^ 32" using unsigned_less [of lines, where ?'a = nat] by simp
  ultimately show ?thesis using fold_targets [OF f] l by (auto simp: sizes_exact_def s list_all_iff lines_of_def psize_def nth_list_update)
qed

subsection \<open>Properties\<close>

text \<open>C24: The lookahead algorithm ends, with an allocation for every partition between the minimum and all buckets, and the
  sum of the allocations is the number of buckets and, for every partition but the first, one more minimum: each partition gets the
  minimum, but it is taken off the balance once.\<close>

theorem lookahead_over_allocates:
  assumes "above_m1 fdiv gt m1" and "curves_to n buckets get" and "j < n" and "\<not> forbidden j" and "minAlloc \<le> buckets"
  shows "\<exists>as. computeBestPartitioning fdiv gt m1 get forbidden n buckets minAlloc = Some as \<and> length as = n \<and>
    sum_list (map unat as) = unat buckets + (n - 1) * unat minAlloc \<and> list_all (\<lambda>a. minAlloc \<le> a \<and> a \<le> buckets) as"
  using compute_run [where forbidden = forbidden, OF assms] by (auto simp: list_all_iff)

definition demo_div :: "u64 \<Rightarrow> nat \<Rightarrow> int" where
  "demo_div x i = int (unat x div i)"

definition demo_gt :: "int \<Rightarrow> int \<Rightarrow> bool" where
  "demo_gt x y \<longleftrightarrow> x > y"

definition demo_curve :: curves where
  "demo_curve p b = Some (100 - b)"

lemma demo_above: "above_m1 demo_div demo_gt (- 1)"
  by (simp add: above_m1_def demo_div_def demo_gt_def order.strict_trans2 [of "-1" 0])

lemma demo_curves: "curves_to 2 4 demo_curve"
  by (simp add: curves_to_def demo_curve_def)

theorem lookahead_over_allocates_witness:
  "\<exists>as. computeBestPartitioning demo_div demo_gt (- 1) demo_curve (\<lambda>_. False) 2 4 2 = Some as \<and> length as = 2 \<and>
    sum_list (map unat as) = unat (4 :: u32) + (2 - 1) * unat (2 :: u32) \<and> list_all (\<lambda>a. 2 \<le> a \<and> a \<le> 4) as"
  by (rule lookahead_over_allocates [OF demo_above demo_curves, of 0]) simp_all

text \<open>C25: Way partitioning with two or more partitions stops the simulator at the first repartitioning: the lookahead algorithm
  returns, and \<^verbatim>\<open>setPartitionSizes\<close> then assigns more ways than there are, which leaves the array \<^verbatim>\<open>wayPartIndex\<close> and
  fails its assertion, for all miss curves and whatever the sizes were.\<close>

theorem way_partitioning_stops:
  assumes "above_m1 fdiv gt m1" and "curves_to n buckets get" and "j < n" and "\<not> forbidden j" and "2 \<le> n"
    and "0 < minAlloc" and "unat minAlloc * n \<le> unat buckets" and "partitions s = n" and "ways s = unat buckets"
  shows "computeBestPartitioning fdiv gt m1 get forbidden n buckets (minAlloc * of_nat n) \<noteq> None \<and>
    partition_ways fdiv gt m1 get forbidden n buckets minAlloc (curAllocs, s) = None"
proof -
  let ?m = "minAlloc * of_nat n"
  have lt: "unat minAlloc * n < 2 ^ 32" using assms(7) unsigned_less [of buckets, where ?'a = nat] by simp
  have m0: "1 \<le> unat minAlloc" using assms(6) by (simp add: word_less_nat_alt)
  then have "n \<le> unat minAlloc * n" by simp
  then have "n < 2 ^ 32" using lt by linarith
  then have "unat (of_nat n :: u32) = n" by (simp add: unsigned_of_nat take_bit_nat_eq_self_iff)
  then have m: "unat ?m = unat minAlloc * n" using lt unat_mult_small [of minAlloc "of_nat n"] by simp
  then have "?m \<le> buckets" using assms(7) by (simp add: word_le_nat_alt)
  from compute_run [where forbidden = forbidden, OF assms(1-4) this] obtain as where as: "computeBestPartitioning fdiv gt m1 get forbidden n buckets ?m = Some as"
    "length as = n" "sum_list (map unat as) = unat buckets + (n - 1) * unat ?m" by blast
  have "0 < (n - 1) * unat ?m" using m m0 assms(5) by simp
  then have "sum_list (map unat (take (partitions s) (as @ xs))) \<noteq> ways s" for xs using as(2,3) assms(8,9) by simp
  then have "wp_setPartitionSizes (as @ xs) s = None" for xs by (rule too_many_ways)
  then show ?thesis using as(1) by (simp add: partition_ways_def bind_eq_None_conv)
qed

definition demo_ways :: WayPart where
  "demo_ways = the (WayPart_new \<lparr>mon_buckets = 4, missCache = [], missCacheValid = False, monitors = []\<rparr> 2 16 4 False)"

lemma demo_ways_fields: "partitions demo_ways = 2 \<and> ways demo_ways = 4 \<and> wp_candIdx demo_ways = 0 \<and> bestId demo_ways = None \<and> wayPartIndex demo_ways = [0, 0, 1, 1] \<and>
    length (wp_array demo_ways) = 16 \<and> sizes_exact demo_ways"
proof -
  let ?w = "WayPart_new \<lparr>mon_buckets = 4, missCache = [], missCacheValid = False, monitors = []\<rparr> 2 16 4 False"
  have "?w \<noteq> None" by code_simp
  then have "?w = Some demo_ways" by (simp add: demo_ways_def)
  moreover have "partitions (the ?w) = 2 \<and> ways (the ?w) = 4 \<and> wp_candIdx (the ?w) = 0 \<and> bestId (the ?w) = None \<and> wayPartIndex (the ?w) = [0, 0, 1, 1] \<and>
    length (wp_array (the ?w)) = 16" by code_simp
  ultimately show ?thesis using new_sizes [of _ 2 16 4 False demo_ways] by simp
qed

theorem way_partitioning_stops_witness:
  "computeBestPartitioning demo_div demo_gt (- 1) demo_curve (\<lambda>_. False) 2 4 (1 * of_nat 2) \<noteq> None \<and>
    partition_ways demo_div demo_gt (- 1) demo_curve (\<lambda>_. False) 2 4 1 (replicate 5 0, demo_ways) = None"
  by (rule way_partitioning_stops [OF demo_above demo_curves, of 0]) (simp_all add: demo_ways_fields)

text \<open>C26: The victim under way partitioning: among the candidates in the ways of the partition of the request one that
  comes first in the order \<open>victim_before\<close>; if the partition has no way among the candidates, the assertion in \<^verbatim>\<open>getBestCandidate\<close> fails.\<close>

theorem waypart_victim:
  assumes "wp_candIdx s = 0" and "bestId s = None" and "length cands \<le> ways s" and "length (wayPartIndex s) = ways s"
    and "list_all (\<lambda>i. i < length (wp_array s)) cands" and "mapper (Some r) = Some p"
  shows "let s0 = s\<lparr>incomingLinePart := p, incomingLineAddr := lineAddr r\<rparr> in (case wp_rank mapper cc (Some r) cands s of
      None \<Rightarrow> \<forall>w<length cands. \<not> allowed s0 w
    | Some (v, s') \<Rightarrow> \<exists>w<length cands. cands ! w = v \<and> allowed s0 w \<and> (\<forall>w'<length cands. allowed s0 w' \<longrightarrow> \<not> victim_before s0 (cands ! w') v))"
proof -
  let ?s0 = "s\<lparr>incomingLinePart := p, incomingLineAddr := lineAddr r\<rparr>"
  have st: "wp_startReplacement mapper (Some r) s = Some ?s0" using assms(1,2,6) by (simp add: wp_startReplacement_def)
  have "best_of ?s0 [] ?s0" using assms(1,2) by (simp add: best_of_def)
  from record_all_run [OF this, of cands] assms(3-5) obtain s' where s': "record_all wp_recordCandidate cands ?s0 = Some s'" "best_of ?s0 cands s'" by auto
  have "wp_rank mapper cc (Some r) cands s = map_option (\<lambda>b. (b, s')) (bestId s')"
    by (cases "bestId s'") (simp_all add: wp_rank_def st s'(1))
  then show ?thesis using s'(2) unfolding Let_def best_of_def by (auto split: option.splits)
qed

theorem waypart_victim_witness:
  "let s0 = demo_ways\<lparr>incomingLinePart := 1, incomingLineAddr := 7\<rparr> in (case wp_rank (\<lambda>_. Some 1) \<lparr>cc_numSharers = \<lambda>_. 0, cc_isValid = \<lambda>_. True\<rparr> (Some \<lparr>lineAddr = 7, req_type = GETS, childId = 0, req_state = StI,
      req_cycle = 0, initialState = StI, srcId = 0, flags = 0\<rparr>) [8, 9, 10, 11] demo_ways of
      None \<Rightarrow> \<not> list_ex (allowed s0) [0..<4]
    | Some (v, s') \<Rightarrow> list_ex (\<lambda>w. [8, 9, 10, 11] ! w = v \<and> allowed s0 w \<and>
        \<not> list_ex (\<lambda>w'. allowed s0 w' \<and> victim_before s0 ([8, 9, 10, 11] ! w') v) [0..<4]) [0..<4])"
  using waypart_victim [of demo_ways "[8, 9, 10, 11]" "\<lambda>_. Some 1" "\<lparr>lineAddr = 7, req_type = GETS, childId = 0, req_state = StI,
      req_cycle = 0, initialState = StI, srcId = 0, flags = 0\<rparr>" 1 "\<lparr>cc_numSharers = \<lambda>_. 0, cc_isValid = \<lambda>_. True\<rparr>"] demo_ways_fields
  unfolding Let_def list_ex_iff set_upt by (auto split: option.splits)

text \<open>C27: The sizes of the partitions stay exact: from the constructor on, through hits, complete replacements and new sizes, the
  size of a partition is the number of lines that belong to it.\<close>

theorem waypart_sizes_exact:
  assumes "WayPart_new mon parts lines w test = Some s0" and "run_ops (wp_exec hf mapper cc) xs s0 = Some s" and "p < length (partInfo s)"
  shows "unat (part_size (partInfo s ! p)) = length (filter (\<lambda>e. wi_p e = p) (wp_array s))"
  using sizes_run [OF assms(2) new_sizes [OF assms(1)]] assms(3) by (simp add: sizes_exact_def lines_of_def)

definition demo_req :: MemReq where
  "demo_req = \<lparr>lineAddr = 7, req_type = GETS, childId = 0, req_state = StI, req_cycle = 0, initialState = StI, srcId = 0, flags = 2\<rparr>"

definition demo_run :: "WayPart option" where
  "demo_run = run_ops (wp_exec (\<lambda>_ _. Some 0) (\<lambda>_. Some 1) \<lparr>cc_numSharers = \<lambda>_. 0, cc_isValid = \<lambda>_. True\<rparr>)
     [Wp_miss (Some demo_req) [8, 9, 10, 11], Wp_hit (Some demo_req) 10, Wp_sizes [3, 1]]
     (the (WayPart_new (the (UMonMonitor_new 16 8 4 2 4)) 2 16 4 False))"

theorem waypart_sizes_exact_witness:
  "unat (part_size (partInfo (the demo_run) ! 1)) = length (filter (\<lambda>e. wi_p e = 1) (wp_array (the demo_run)))"
proof (rule waypart_sizes_exact)
  have "WayPart_new (the (UMonMonitor_new 16 8 4 2 4)) 2 16 4 False \<noteq> None" by code_simp
  then show "WayPart_new (the (UMonMonitor_new 16 8 4 2 4)) 2 16 4 False = Some (the (WayPart_new (the (UMonMonitor_new 16 8 4 2 4)) 2 16 4 False))" by simp
  have "demo_run \<noteq> None" by code_simp
  then show "run_ops (wp_exec (\<lambda>_ _. Some 0) (\<lambda>_. Some 1) \<lparr>cc_numSharers = \<lambda>_. 0, cc_isValid = \<lambda>_. True\<rparr>)
     [Wp_miss (Some demo_req) [8, 9, 10, 11], Wp_hit (Some demo_req) 10, Wp_sizes [3, 1]]
     (the (WayPart_new (the (UMonMonitor_new 16 8 4 2 4)) 2 16 4 False)) = Some (the demo_run)" by (simp add: demo_run_def)
  show "1 < length (partInfo (the demo_run))" by code_simp
qed

text \<open>With separate partitions for instructions and data, an instruction fetch gets partition 2 of 2 partitions, as \<^verbatim>\<open>IFETCH\<close> is
  the bit of value 2: the line it brings in is counted in a partition that does not exist, outside the array \<^verbatim>\<open>partInfo\<close>.\<close>

theorem instruction_partition_missing:
  assumes "is_flag IFETCH r" and "i < length (wp_array s)" and "wi_ts (wp_array s ! i) = 0" and "length (partInfo s) = 2"
    and "wp_startReplacement InstrDataPartMapper (Some r) s0 = Some s1" and "incomingLinePart s = incomingLinePart s1"
  shows "incomingLinePart s1 = 2 \<and> wp_update hf (Some r) i s = None"
proof -
  have "bit (flags r) 1" using assms(1) by (simp add: is_flag_bit)
  then have "flags r AND push_bit 1 1 = push_bit 1 1" by (intro bit_word_eqI) (auto simp: bit_simps le_Suc_eq)
  then have "flags r AND flag_bits IFETCH = 2" by (simp add: flag_bits_def)
  then have p: "incomingLinePart s1 = 2" using assms(5) by (auto simp: wp_startReplacement_def InstrDataPartMapper_def)
  have "mod_part 2 f ps = None" if "length ps = 2" for f ps using that by (simp add: mod_part_def read_at_def)
  moreover have "length ps = 2" if "mod_part q f (partInfo s) = Some ps" for q f ps using that assms(4) by (auto simp: mod_part_Some)
  ultimately show ?thesis using p assms(2-4,6) unfolding wp_update_def Let_def by (auto simp: array_simps bind_eq_None_conv)
qed

theorem instruction_partition_missing_witness:
  "incomingLinePart (demo_ways\<lparr>incomingLinePart := 2, incomingLineAddr := 7\<rparr>) = 2 \<and>
    wp_update (\<lambda>_ _. Some 0) (Some demo_req) 0 (demo_ways\<lparr>incomingLinePart := 2, incomingLineAddr := 7\<rparr>) = None"
proof (rule instruction_partition_missing [where ?s0.0 = demo_ways])
  show "is_flag IFETCH demo_req" by code_simp
  show "0 < length (wp_array (demo_ways\<lparr>incomingLinePart := 2, incomingLineAddr := 7\<rparr>))"
    "wi_ts (wp_array (demo_ways\<lparr>incomingLinePart := 2, incomingLineAddr := 7\<rparr>) ! 0) = 0"
    "length (partInfo (demo_ways\<lparr>incomingLinePart := 2, incomingLineAddr := 7\<rparr>)) = 2" by code_simp+
  show "wp_startReplacement InstrDataPartMapper (Some demo_req) demo_ways = Some (demo_ways\<lparr>incomingLinePart := 2, incomingLineAddr := 7\<rparr>)"
    using demo_ways_fields by (simp add: wp_startReplacement_def InstrDataPartMapper_def demo_req_def flag_bits_def)
qed simp

end
