(* ===== verification/Ideal_Arrays.thy ===== *)
theory Ideal_Arrays imports In_List Partitioning begin

text \<open>
  \<^verbatim>\<open>zsim/src/ideal_arrays.h\<close>: the fully associative array with LRU replacement, and the one with a LRU list per partition.
  A table maps the address of a line to its id, and the ids are the nodes of intrusive lists in the order of use.

  The table is a map, and the entries are arrays by line id. The controller that the arrays keep is not used.
\<close>

subsection \<open>IdealLRUArray\<close>

record IdealLRU =
  il_addrs :: "address list"
  il_list :: InList
  il_nodes :: nodes
  il_lineMap :: "address \<rightharpoonup> nat"

definition IdealLRU_new :: "nat \<Rightarrow> IdealLRU option" where
  "IdealLRU_new numLines = do {
     (l, h) \<leftarrow> fold (\<lambda>i s. do { s \<leftarrow> s; push_front i s }) [0..<numLines] (Some (InList_new 0, replicate numLines InListNode_new));
     Some \<lparr>il_addrs = replicate numLines 0, il_list = l, il_nodes = h, il_lineMap = Map.empty\<rparr>
   }"

definition to_front :: "nat \<Rightarrow> IdealLRU \<Rightarrow> IdealLRU option" where
  "to_front lineId s = do {
     (l, h) \<leftarrow> in_remove lineId (il_list s, il_nodes s);
     (l, h) \<leftarrow> push_front lineId (l, h);
     Some (s\<lparr>il_list := l, il_nodes := h\<rparr>)
   }"

definition il_lookup :: "address \<Rightarrow> MemReq option \<Rightarrow> bool \<Rightarrow> IdealLRU \<Rightarrow> (int \<times> IdealLRU) option" where
  "il_lookup line req updateReplacement s = (case il_lineMap s line of
     None \<Rightarrow> Some (-1, s)
   | Some lineId \<Rightarrow> do {
       s \<leftarrow> (if updateReplacement then to_front lineId s else Some s);
       Some (int lineId, s)
     })"

definition il_preinsert :: "address \<Rightarrow> MemReq option \<Rightarrow> IdealLRU \<Rightarrow> (nat \<times> address \<times> IdealLRU) option" where
  "il_preinsert line req s = do {
     e \<leftarrow> in_back (il_list s);
     wbLineAddr \<leftarrow> read_at (il_addrs s) e;
     Some (e, wbLineAddr, s)
   }"

text \<open>The new mapping of a line id, in the table and the addresses of both arrays.\<close>

definition remap :: "address \<Rightarrow> nat \<Rightarrow> (address \<rightharpoonup> nat) \<times> address list \<Rightarrow> ((address \<rightharpoonup> nat) \<times> address list) option" where
  "remap line lineId = (\<lambda>(m, addrs). do {
     old \<leftarrow> read_at addrs lineId;
     let m = m(old := None);
     assert_that (m line = None);
     addrs \<leftarrow> write_at addrs lineId line;
     Some (m(line \<mapsto> lineId), addrs)
   })"

definition il_postinsert :: "address \<Rightarrow> MemReq option \<Rightarrow> nat \<Rightarrow> IdealLRU \<Rightarrow> IdealLRU option" where
  "il_postinsert line req lineId s = do {
     (m, addrs) \<leftarrow> remap line lineId (il_lineMap s, il_addrs s);
     to_front lineId (s\<lparr>il_lineMap := m, il_addrs := addrs\<rparr>)
   }"

subsection \<open>IdealLRUPartReplPolicy\<close>

record PartEntry =
  pe_p :: nat
  pe_used :: bool

record IdealPart =
  ip_monitor :: UMonMonitor
  ip_entries :: "PartEntry list"
  ip_info :: "PartInfo list"
  ip_lists :: "InList list"
  ip_nodes :: nodes
  ip_partitions :: nat
  ip_numLines :: u32
  ip_numBuckets :: u32

text \<open>The partitions are split into the fields of \<^verbatim>\<open>PartInfo\<close> and the list. An operation on the list of a partition:\<close>

definition on_list :: "nat \<Rightarrow> (InList \<times> nodes \<Rightarrow> (InList \<times> nodes) option) \<Rightarrow> InList list \<times> nodes \<Rightarrow> (InList list \<times> nodes) option" where
  "on_list p f = (\<lambda>(ls, h). do {
     l \<leftarrow> read_at ls p;
     (l, h) \<leftarrow> f (l, h);
     Some (ls[p := l], h)
   })"

text \<open>The loop over the partitions runs to \<^verbatim>\<open>p <= partitions\<close>, one too far. \<open>room\<close> is the number of elements for which there
  is memory behind the array \<^verbatim>\<open>partInfo\<close> of as many as there are partitions.\<close>

definition init_parts :: "nat \<Rightarrow> nat \<Rightarrow> u32 \<Rightarrow> (PartInfo list \<times> InList list) option" where
  "init_parts room parts numLines = (let blank = \<lparr>part_size = 0, targetSize = 0, partHits = 0, partMisses = 0, selfEvictions = 0, extEvictions = 0\<rparr> in
     fold (\<lambda>p s. do {
         (ps, ls) \<leftarrow> s;
         assert_that (parts \<noteq> 0);
         ps \<leftarrow> write_at ps p (blank\<lparr>targetSize := ucast (numLines div of_nat parts)\<rparr>);
         ls \<leftarrow> write_at ls p (InList_new p);
         Some (ps, ls)
       }) [0..<Suc parts] (Some (replicate (parts + room) blank, map InList_new [0..<parts + room])))"

definition init_entries :: "nat \<Rightarrow> PartInfo list \<times> InList list \<times> nodes \<Rightarrow> (PartInfo list \<times> InList list \<times> nodes) option" where
  "init_entries n = (\<lambda>s. fold (\<lambda>i s. do {
         (ps, ls, h) \<leftarrow> s;
         (ls, h) \<leftarrow> on_list 0 (push_front i) (ls, h);
         ps \<leftarrow> mod_part 0 (\<lambda>x. x\<lparr>part_size := part_size x + 1\<rparr>) ps;
         Some (ps, ls, h)
       }) [0..<n] (Some s))"

definition IdealPart_new :: "nat \<Rightarrow> UMonMonitor \<Rightarrow> nat \<Rightarrow> u32 \<Rightarrow> u32 \<Rightarrow> IdealPart option" where
  "IdealPart_new room mon parts numLines numBuckets = do {
     (ps, ls) \<leftarrow> init_parts room parts numLines;
     let n = unat numLines;
     (ps, ls, h) \<leftarrow> init_entries n (ps, ls, replicate n InListNode_new);
     Some \<lparr>ip_monitor = mon, ip_entries = replicate n \<lparr>pe_p = 0, pe_used = True\<rparr>, ip_info = ps, ip_lists = ls, ip_nodes = h,
       ip_partitions = parts, ip_numLines = numLines, ip_numBuckets = numBuckets\<rparr>
   }"

definition ip_setPartitionSizes :: "u32 list \<Rightarrow> IdealPart \<Rightarrow> IdealPart option" where
  "ip_setPartitionSizes sizes s = do {
     ps \<leftarrow> fold (\<lambda>p ps. do {
         ps \<leftarrow> ps;
         k \<leftarrow> read_at sizes p;
         assert_that (ip_numBuckets s \<noteq> 0);
         mod_part p (\<lambda>x. x\<lparr>targetSize := ucast (k * ip_numLines s div ip_numBuckets s)\<rparr>) ps
       }) [0..<ip_partitions s] (Some (ip_info s));
     Some (s\<lparr>ip_info := ps\<rparr>)
   }"

definition ip_update :: "hash_fn \<Rightarrow> mapper \<Rightarrow> MemReq option \<Rightarrow> nat \<Rightarrow> IdealPart \<Rightarrow> IdealPart option" where
  "ip_update hf mapper req i s = do {
     e \<leftarrow> read_at (ip_entries s) i;
     (e, ps, ls, h) \<leftarrow> (if pe_used e then do {
           ps \<leftarrow> mod_part (pe_p e) (\<lambda>x. x\<lparr>partHits := partHits x + 1\<rparr>) (ip_info s);
           (ls, h) \<leftarrow> on_list (pe_p e) (in_remove i) (ip_lists s, ip_nodes s);
           (ls, h) \<leftarrow> on_list (pe_p e) (push_front i) (ls, h);
           Some (e, ps, ls, h)
         } else do {
           let oldPart = pe_p e;
           newPart \<leftarrow> mapper req;
           ps \<leftarrow> (if oldPart \<noteq> newPart then do {
                 ps \<leftarrow> mod_part oldPart (\<lambda>x. x\<lparr>part_size := part_size x - 1, extEvictions := extEvictions x + 1\<rparr>) (ip_info s);
                 mod_part newPart (\<lambda>x. x\<lparr>part_size := part_size x + 1\<rparr>) ps
               } else mod_part oldPart (\<lambda>x. x\<lparr>selfEvictions := selfEvictions x + 1\<rparr>) (ip_info s));
           ps \<leftarrow> mod_part newPart (\<lambda>x. x\<lparr>partMisses := partMisses x + 1\<rparr>) ps;
           let e = e\<lparr>pe_p := newPart\<rparr>;
           (ls, h) \<leftarrow> on_list oldPart (in_remove i) (ip_lists s, ip_nodes s);
           (ls, h) \<leftarrow> on_list newPart (push_front i) (ls, h);
           Some (e\<lparr>pe_used := True\<rparr>, ps, ls, h)
         });
     es \<leftarrow> write_at (ip_entries s) i e;
     r \<leftarrow> req;
     m \<leftarrow> mon_access hf (pe_p e) (lineAddr r) (ip_monitor s);
     Some (s\<lparr>ip_entries := es, ip_info := ps, ip_lists := ls, ip_nodes := h, ip_monitor := m\<rparr>)
   }"

definition ip_replaced :: "nat \<Rightarrow> IdealPart \<Rightarrow> IdealPart option" where
  "ip_replaced i s = do {
     e \<leftarrow> read_at (ip_entries s) i;
     es \<leftarrow> write_at (ip_entries s) i (e\<lparr>pe_used := False\<rparr>);
     Some (s\<lparr>ip_entries := es\<rparr>)
   }"

text \<open>
  \<^verbatim>\<open>rank\<close> compares quotients in floating point: \<open>fdiv d t\<close> is the one of the \<^verbatim>\<open>int32_t\<close> with the bits of \<open>d\<close> by \<open>t\<close>, \<open>gt\<close> the
  comparison, and \<open>m2\<close> and \<open>zero\<close> are -2.0 and 0.0. The warning is left out.
\<close>

definition part_diff :: "(u32 \<Rightarrow> u64 \<Rightarrow> 'd) \<Rightarrow> PartInfo \<Rightarrow> 'd" where
  "part_diff fdiv x = fdiv (ucast (part_size x) - ucast (targetSize x)) (targetSize x + 1)"

fun worst_part :: "(u32 \<Rightarrow> u64 \<Rightarrow> 'd) \<Rightarrow> ('d \<Rightarrow> 'd \<Rightarrow> bool) \<Rightarrow> PartInfo list \<Rightarrow> nat \<Rightarrow> 'd \<times> nat \<Rightarrow> 'd \<times> nat" where
  "worst_part fdiv gt [] p best = best"
| "worst_part fdiv gt (x # ps) p (maxPartDiff, victimPart) = worst_part fdiv gt ps (p + 1)
     (if gt (part_diff fdiv x) maxPartDiff \<and> part_size x > 0 then (part_diff fdiv x, p) else (maxPartDiff, victimPart))"

definition ip_rank :: "(u32 \<Rightarrow> u64 \<Rightarrow> 'd) \<Rightarrow> ('d \<Rightarrow> 'd \<Rightarrow> bool) \<Rightarrow> 'd \<Rightarrow> 'd \<Rightarrow> mapper \<Rightarrow> MemReq option \<Rightarrow> IdealPart \<Rightarrow> nat option" where
  "ip_rank fdiv gt m2 zero mapper req s = do {
     victimPart \<leftarrow> mapper req;
     x \<leftarrow> read_at (ip_info s) victimPart;
     assert_that (ip_partitions s \<le> length (ip_info s));
     let (maxPartDiff, victimPart) = worst_part fdiv gt (take (ip_partitions s) (ip_info s)) 0 (if part_size x = 0 then m2 else zero, victimPart);
     x \<leftarrow> read_at (ip_info s) victimPart;
     assert_that (part_size x > 0);
     l \<leftarrow> read_at (ip_lists s) victimPart;
     assert_that (part_size x = of_nat (in_size l));
     in_back l
   }"

subsection \<open>IdealLRUPartArray\<close>

record IdealPartArray =
  pa_lineMap :: "address \<rightharpoonup> nat"
  pa_lineAddrs :: "address list"
  pa_rp :: IdealPart

definition IdealPartArray_new :: "nat \<Rightarrow> IdealPart \<Rightarrow> IdealPartArray" where
  "IdealPartArray_new numLines rp = \<lparr>pa_lineMap = Map.empty, pa_lineAddrs = replicate numLines 0, pa_rp = rp\<rparr>"

definition pa_lookup :: "hash_fn \<Rightarrow> mapper \<Rightarrow> address \<Rightarrow> MemReq option \<Rightarrow> bool \<Rightarrow> IdealPartArray \<Rightarrow> (int \<times> IdealPartArray) option" where
  "pa_lookup hf mapper line req updateReplacement s = (case pa_lineMap s line of
     None \<Rightarrow> Some (-1, s)
   | Some lineId \<Rightarrow> do {
       rp \<leftarrow> (if updateReplacement then ip_update hf mapper req lineId (pa_rp s) else Some (pa_rp s));
       Some (int lineId, s\<lparr>pa_rp := rp\<rparr>)
     })"

definition pa_preinsert :: "(u32 \<Rightarrow> u64 \<Rightarrow> 'd) \<Rightarrow> ('d \<Rightarrow> 'd \<Rightarrow> bool) \<Rightarrow> 'd \<Rightarrow> 'd \<Rightarrow> mapper \<Rightarrow> address \<Rightarrow> MemReq option \<Rightarrow> IdealPartArray \<Rightarrow>
    (nat \<times> address \<times> IdealPartArray) option" where
  "pa_preinsert fdiv gt m2 zero mapper line req s = do {
     lineId \<leftarrow> ip_rank fdiv gt m2 zero mapper req (pa_rp s);
     wbLineAddr \<leftarrow> read_at (pa_lineAddrs s) lineId;
     Some (lineId, wbLineAddr, s)
   }"

definition pa_postinsert :: "hash_fn \<Rightarrow> mapper \<Rightarrow> address \<Rightarrow> MemReq option \<Rightarrow> nat \<Rightarrow> IdealPartArray \<Rightarrow> IdealPartArray option" where
  "pa_postinsert hf mapper line req lineId s = do {
     (m, addrs) \<leftarrow> remap line lineId (pa_lineMap s, pa_lineAddrs s);
     rp \<leftarrow> ip_replaced lineId (pa_rp s);
     rp \<leftarrow> ip_update hf mapper req lineId rp;
     Some (s\<lparr>pa_lineMap := m, pa_lineAddrs := addrs, pa_rp := rp\<rparr>)
   }"

end
