(* ===== verification/Ideal_Contract.thy ===== *)
theory Ideal_Contract imports Ideal_Arrays In_List_Contract LRU_Stack begin

text \<open>
  The ideal LRU array holds the lines of a fully associative LRU cache, as long as no line is line 0; the lists of
  the partitioned one hold the lines of each partition, and it evicts from the partition that is most above its target.
\<close>

subsection \<open>The array as a list of lines\<close>

text \<open>\<open>il_rep n s xs\<close> reads an array of \<open>n\<close> entries as the list \<open>xs\<close> of its lines in the order of use; the entries that were never
  used stand behind them, with the address 0.\<close>

definition il_rep :: "nat \<Rightarrow> IdealLRU \<Rightarrow> address list \<Rightarrow> bool" where
  "il_rep n s xs \<longleftrightarrow> (\<exists>ids. rep (il_list s) (il_nodes s) ids \<and> set ids = {0..<n} \<and> length (il_nodes s) = n \<and> length (il_addrs s) = n \<and>
     map ((!) (il_addrs s)) ids = xs @ replicate (n - length xs) 0 \<and> distinct xs \<and> 0 \<notin> set xs \<and>
     (\<forall>a i. il_lineMap s a = Some i \<longleftrightarrow> i < n \<and> il_addrs s ! i = a \<and> a \<noteq> 0))"

lemma il_repI:
  assumes "il_list t = l" "il_nodes t = h" "il_addrs t = addrs" "il_lineMap t = m"
    and "rep l h ids" "set ids = {0..<n}" "length h = n" "length addrs = n" "map ((!) addrs) ids = xs @ replicate (n - length xs) 0"
    "distinct xs" "0 \<notin> set xs" "\<forall>a i. m a = Some i \<longleftrightarrow> i < n \<and> addrs ! i = a \<and> a \<noteq> 0"
  shows "il_rep n t xs"
  unfolding il_rep_def assms(1-4) using assms(5-12) by blast

text \<open>A lookup, and on a miss a replacement, as the cache does them.\<close>

definition il_access :: "MemReq option \<Rightarrow> address \<Rightarrow> IdealLRU \<Rightarrow> IdealLRU option" where
  "il_access req line s = do {
     (i, s) \<leftarrow> il_lookup line req True s;
     (if i = -1 then do {
        (e, wb, s) \<leftarrow> il_preinsert line req s;
        il_postinsert line req e s
      } else Some s)
   }"

lemma map_remove1: "i \<in> set ids \<Longrightarrow> \<forall>j\<in>set ids. f j = f i \<longrightarrow> j = i \<Longrightarrow> map f (remove1 i ids) = remove1 (f i) (map f ids)"
  by (induction ids) auto

lemma to_front_run:
  assumes "rep (il_list s) (il_nodes s) ids" and "i \<in> set ids"
  shows "\<exists>l h. to_front i s = Some (s\<lparr>il_list := l, il_nodes := h\<rparr>) \<and> rep l h (i # remove1 i ids) \<and> length h = length (il_nodes s)"
proof -
  from remove_refines [OF assms] obtain l h where r: "in_remove i (il_list s, il_nodes s) = Some (l, h)" "rep l h (remove1 i ids)"
    "h ! i = InListNode_new" "length h = length (il_nodes s)" by (auto simp: same_outside_def)
  moreover have "i < length h" using rep_owner [OF assms] r(4) by simp
  moreover obtain l' h' where "push_front i (l, h) = Some (l', h')" "rep l' h' (i # remove1 i ids)" "same_outside (insert i (set (remove1 i ids))) h h'"
    using push_front_run [OF r(2) \<open>i < length h\<close> r(3)] by blast
  ultimately show ?thesis by (auto simp: to_front_def same_outside_def)
qed

lemma rep_length: "il_rep n s xs \<Longrightarrow> length xs \<le> n"
proof -
  assume "il_rep n s xs"
  then obtain ids where ids: "distinct ids" "set ids = {0..<n}" "map ((!) (il_addrs s)) ids = xs @ replicate (n - length xs) 0"
    by (auto simp: il_rep_def rep_def)
  then have "length ids = n" using distinct_card [of ids] by simp
  moreover have "length ids = length xs + (n - length xs)" using arg_cong [OF ids(3), of length] by simp
  ultimately show ?thesis by simp
qed

lemma rep_map: "il_rep n s xs \<Longrightarrow> (il_lineMap s a = None \<longleftrightarrow> a \<notin> set xs)"
proof -
  assume "il_rep n s xs"
  then obtain ids where r: "set ids = {0..<n}" "map ((!) (il_addrs s)) ids = xs @ replicate (n - length xs) 0" "0 \<notin> set xs"
    "\<And>a i. il_lineMap s a = Some i \<longleftrightarrow> i < n \<and> il_addrs s ! i = a \<and> a \<noteq> 0" unfolding il_rep_def by blast
  have "((!) (il_addrs s)) ` {0..<n} = set xs \<union> (if n - length xs = 0 then {} else {0})" using arg_cong [OF r(2), of set] r(1) by (simp split: if_splits)
  moreover have "a \<in> ((!) (il_addrs s)) ` {0..<n} \<longleftrightarrow> (\<exists>i<n. il_addrs s ! i = a)" by auto
  ultimately have "a \<in> set xs \<longleftrightarrow> a \<noteq> 0 \<and> (\<exists>i<n. il_addrs s ! i = a)" using r(3) by (auto split: if_splits)
  then show ?thesis using r(4) [of a] by (cases "il_lineMap s a") auto
qed

lemma access_hit:
  assumes R: "il_rep n s xs" and a: "a \<in> set xs"
  shows "\<exists>s'. il_access req a s = Some s' \<and> il_rep n s' (lru_push n a xs)"
proof -
  obtain ids where r: "rep (il_list s) (il_nodes s) ids" "set ids = {0..<n}" "length (il_nodes s) = n" "length (il_addrs s) = n"
    "map ((!) (il_addrs s)) ids = xs @ replicate (n - length xs) 0" "distinct xs" "0 \<notin> set xs"
    "\<And>a i. il_lineMap s a = Some i \<longleftrightarrow> i < n \<and> il_addrs s ! i = a \<and> a \<noteq> 0" using R unfolding il_rep_def by blast
  obtain i where i: "il_lineMap s a = Some i" using rep_map [OF R, of a] a by auto
  then have i': "i \<in> set ids" "il_addrs s ! i = a" "a \<noteq> 0" using r(2,8) by auto
  from to_front_run [OF r(1) i'(1)] obtain l h where f: "to_front i s = Some (s\<lparr>il_list := l, il_nodes := h\<rparr>)" "rep l h (i # remove1 i ids)"
    "length h = n" using r(3) by auto
  have "\<forall>j\<in>set ids. il_addrs s ! j = il_addrs s ! i \<longrightarrow> j = i"
  proof (intro ballI impI)
    fix j assume "j \<in> set ids" "il_addrs s ! j = il_addrs s ! i"
    then have "il_lineMap s a = Some j" using r(2,8) i' by auto
    then show "j = i" using i by simp
  qed
  from map_remove1 [of i ids "(!) (il_addrs s)", OF i'(1) this] have m: "map ((!) (il_addrs s)) (remove1 i ids) = remove1 a xs @ replicate (n - length xs) 0"
    using r(5) i'(2) a by (simp add: remove1_append)
  have len: "length (a # remove1 a xs) = length xs" using a length_pos_if_in_set [OF a] by (simp add: length_remove1)
  then have p: "lru_push n a xs = a # remove1 a xs" using rep_length [OF R] by (simp add: lru_push_def)
  have "il_access req a s = Some (s\<lparr>il_list := l, il_nodes := h\<rparr>)" using i f(1) by (simp add: il_access_def il_lookup_def)
  moreover have "il_rep n (s\<lparr>il_list := l, il_nodes := h\<rparr>) (lru_push n a xs)"
  proof -
    have "distinct ids" using r(1) by (simp add: rep_def)
    then have 1: "set (i # remove1 i ids) = {0..<n}" using i'(1) unfolding r(2) [symmetric] by (simp add: insert_absorb)
    have 2: "map ((!) (il_addrs s)) (i # remove1 i ids) = lru_push n a xs @ replicate (n - length (lru_push n a xs)) 0"
      using m i'(2) len by (simp add: p)
    have 3: "distinct (lru_push n a xs)" "0 \<notin> set (lru_push n a xs)" using r(6,7) i'(3) set_remove1_subset [of a xs] by (auto simp: p)
    have "\<forall>a i. il_lineMap s a = Some i \<longleftrightarrow> i < n \<and> il_addrs s ! i = a \<and> a \<noteq> 0" using r(8) by blast
    from il_repI [OF _ _ _ _ f(2) 1 f(3) r(4) 2 3 this] show ?thesis by simp
  qed
  ultimately show ?thesis by blast
qed

text \<open>A line that is not in the array takes the place of the last one.\<close>

lemma remap_run:
  assumes "il_lineMap s a = None" "a \<noteq> 0" "e < n" "length (il_addrs s) = n"
    and m: "\<And>a i. il_lineMap s a = Some i \<longleftrightarrow> i < n \<and> il_addrs s ! i = a \<and> a \<noteq> 0"
  shows "\<exists>m'. remap a e (il_lineMap s, il_addrs s) = Some (m', (il_addrs s)[e := a]) \<and>
    (\<forall>b i. m' b = Some i \<longleftrightarrow> i < n \<and> (il_addrs s)[e := a] ! i = b \<and> b \<noteq> 0)"
proof -
  let ?m = "(il_lineMap s)(il_addrs s ! e := None, a \<mapsto> e)"
  have "remap a e (il_lineMap s, il_addrs s) = Some (?m, (il_addrs s)[e := a])"
    using assms(1,3,4) by (simp add: remap_def read_at_def write_at_def Let_def assert_that_def)
  moreover have "?m b = Some i \<longleftrightarrow> i < n \<and> (il_addrs s)[e := a] ! i = b \<and> b \<noteq> 0" for b i
  proof (cases "i = e")
    case True
    then show ?thesis using assms m [of b e] by auto
  next
    case False
    have a: "\<not> (i < n \<and> il_addrs s ! i = a)" using m [of a i] assms(1,2) by simp
    have e: "\<not> (i < n \<and> il_addrs s ! i = il_addrs s ! e \<and> il_addrs s ! e \<noteq> 0)" using m [of "il_addrs s ! e" i] m [of "il_addrs s ! e" e] assms(3) False by auto
    show ?thesis using a e False m [of b i] by auto
  qed
  ultimately show ?thesis by blast
qed

lemma front_butlast: "lru_push n a xs = a # (if length xs = n then butlast xs else xs)" if "a \<notin> set xs" "length xs \<le> n" "0 < n"
  using that by (auto simp: lru_push_def remove1_idem take_Cons' butlast_conv_take)

lemma back_run:
  assumes R: "il_rep n s xs" and n: "0 < n"
  shows "\<exists>e ids. il_preinsert b req s = Some (e, if length xs = n then last xs else 0, s) \<and> e < n \<and> rep (il_list s) (il_nodes s) (ids @ [e]) \<and>
    map ((!) (il_addrs s)) (ids @ [e]) = xs @ replicate (n - length xs) 0 \<and> set (ids @ [e]) = {0..<n}"
proof -
  obtain ids where r: "rep (il_list s) (il_nodes s) ids" "set ids = {0..<n}" "length (il_addrs s) = n"
    "map ((!) (il_addrs s)) ids = xs @ replicate (n - length xs) 0" using R unfolding il_rep_def by blast
  have "ids \<noteq> []" using r(2) n by auto
  then obtain js e where ids: "ids = js @ [e]" by (metis append_butlast_last_id)
  then have "e < n" using r(2) by auto
  have "il_addrs s ! e = last (xs @ replicate (n - length xs) 0)" using arg_cong [OF r(4), of last] ids by simp
  also have "\<dots> = (if length xs = n then last xs else 0)" using rep_length [OF R] by (auto simp: last_append)
  finally have "il_preinsert b req s = Some (e, if length xs = n then last xs else 0, s)"
    using r(1) ids r(3) \<open>e < n\<close> by (simp add: il_preinsert_def in_back_def rep_def read_at_def)
  then show ?thesis using r ids \<open>e < n\<close> by auto
qed

lemma access_miss:
  assumes R: "il_rep n s xs" and a: "a \<notin> set xs" "a \<noteq> 0" and n: "0 < n"
  shows "\<exists>s'. il_access req a s = Some s' \<and> il_rep n s' (lru_push n a xs)"
proof -
  from R have r: "length (il_nodes s) = n" "length (il_addrs s) = n" "distinct xs" "0 \<notin> set xs"
    "\<And>a i. il_lineMap s a = Some i \<longleftrightarrow> i < n \<and> il_addrs s ! i = a \<and> a \<noteq> 0" by (auto simp: il_rep_def)
  have none: "il_lineMap s a = None" using rep_map [OF R] a(1) by simp
  obtain e ids where b: "il_preinsert a req s = Some (e, if length xs = n then last xs else 0, s)" "e < n" "rep (il_list s) (il_nodes s) (ids @ [e])"
    "map ((!) (il_addrs s)) (ids @ [e]) = xs @ replicate (n - length xs) 0" "set (ids @ [e]) = {0..<n}" using back_run [OF R n] by blast
  obtain m' where m: "remap a e (il_lineMap s, il_addrs s) = Some (m', (il_addrs s)[e := a])"
    "\<forall>b i. m' b = Some i \<longleftrightarrow> i < n \<and> (il_addrs s)[e := a] ! i = b \<and> b \<noteq> 0" using remap_run [OF none a(2) b(2) r(2) r(5)] by blast
  let ?t = "s\<lparr>il_lineMap := m', il_addrs := (il_addrs s)[e := a]\<rparr>"
  have d: "e \<notin> set ids" "distinct (ids @ [e])" using b(3) by (auto simp: rep_def)
  obtain l h where f: "to_front e ?t = Some (?t\<lparr>il_list := l, il_nodes := h\<rparr>)" "rep l h (e # ids)" "length h = n"
    using to_front_run [of ?t "ids @ [e]" e] b(3) d r(1) by (auto simp: remove1_append remove1_idem)
  have "il_access req a s = Some (?t\<lparr>il_list := l, il_nodes := h\<rparr>)"
    using none b(1) m(1) f(1) by (simp add: il_access_def il_lookup_def il_postinsert_def)
  moreover have "il_rep n (?t\<lparr>il_list := l, il_nodes := h\<rparr>) (lru_push n a xs)"
  proof -
    note p = front_butlast [OF a(1) rep_length [OF R] n]
    have bl: "map ((!) (il_addrs s)) ids = butlast (xs @ replicate (n - length xs) 0)" using arg_cong [OF b(4), of butlast] by simp
    have "map ((!) ((il_addrs s)[e := a])) ids = map ((!) (il_addrs s)) ids" using d(1) by (intro map_cong refl) (auto intro!: nth_list_update_neq)
    then have "map ((!) ((il_addrs s)[e := a])) (e # ids) = a # butlast (xs @ replicate (n - length xs) 0)" using bl b(2) r(2) by simp
    also have "\<dots> = lru_push n a xs @ replicate (n - length (lru_push n a xs)) 0"
      using rep_length [OF R] n by (cases "length xs = n") (simp_all add: p butlast_append butlast_conv_take Suc_diff_le)
    finally have 1: "map ((!) ((il_addrs s)[e := a])) (e # ids) = lru_push n a xs @ replicate (n - length (lru_push n a xs)) 0" .
    have 2: "distinct (lru_push n a xs)" "0 \<notin> set (lru_push n a xs)"
      using push_distinct [OF r(3)] a r(3,4) by (auto simp: p distinct_butlast dest: in_set_butlastD)
    have 3: "set (e # ids) = {0..<n}" using b(5) by simp
    have 4: "length ((il_addrs s)[e := a]) = n" using r(2) by simp
    from il_repI [OF _ _ _ _ f(2) 3 f(3) 4 1 2 m(2)] show ?thesis by simp
  qed
  ultimately show ?thesis by blast
qed

lemma access_step: "il_rep n s xs \<Longrightarrow> 0 < n \<and> a \<noteq> 0 \<Longrightarrow> \<exists>s'. il_access req a s = Some s' \<and> il_rep n s' (lru_push n a xs)"
  using access_hit access_miss by blast

interpretation ideal: simulation "il_rep n" "il_access req" "lru_push n" "\<lambda>a xs. 0 < n \<and> a \<noteq> 0" for n req
  by unfold_locales (rule access_step)

lemma new_rep: "\<exists>s. IdealLRU_new n = Some s \<and> il_rep n s []"
proof -
  have "\<exists>l h. fold (\<lambda>i s. do { s \<leftarrow> s; push_front i s }) [0..<k] (Some (InList_new 0, replicate n InListNode_new)) = Some (l, h) \<and>
    rep l h (rev [0..<k]) \<and> length h = n \<and> (\<forall>i. k \<le> i \<and> i < n \<longrightarrow> h ! i = InListNode_new)" if "k \<le> n" for k
    using that
  proof (induction k)
    case 0
    then show ?case by (simp add: rep_new)
  next
    case (Suc k)
    then obtain l h where s: "fold (\<lambda>i s. do { s \<leftarrow> s; push_front i s }) [0..<k] (Some (InList_new 0, replicate n InListNode_new)) = Some (l, h)"
      "rep l h (rev [0..<k])" "length h = n" "\<forall>i. k \<le> i \<and> i < n \<longrightarrow> h ! i = InListNode_new" by auto
    obtain l' h' where "push_front k (l, h) = Some (l', h')" "rep l' h' (k # rev [0..<k])" "same_outside (insert k (set (rev [0..<k]))) h h'"
      using push_front_run [OF s(2), of k] s(3,4) Suc.prems by auto
    then show ?case using s by (auto simp: same_outside_def)
  qed
  from this [of n] obtain l h where "fold (\<lambda>i s. do { s \<leftarrow> s; push_front i s }) [0..<n] (Some (InList_new 0, replicate n InListNode_new)) = Some (l, h)"
    "rep l h (rev [0..<n])" "length h = n" by auto
  moreover have "map ((!) (replicate n (0 :: address))) (rev [0..<n]) = replicate n 0" by (intro nth_equalityI) (simp_all add: rev_nth)
  ultimately show ?thesis unfolding IdealLRU_new_def il_rep_def by (auto intro!: exI [of _ "rev [0..<n]"])
qed

lemma accesses_ok: "0 < n \<Longrightarrow> 0 \<notin> set as \<Longrightarrow> run_ok (\<lambda>a xs. 0 < n \<and> a \<noteq> 0) (lru_push n) as c"
  by (induction as arbitrary: c) auto

lemma il_lookup_run: "il_rep n s c \<Longrightarrow> map_option fst (il_lookup a req False s) \<noteq> Some (-1) \<longleftrightarrow> a \<in> set c"
  using rep_map [of n s c a] by (auto simp: il_lookup_def split: option.splits)

text \<open>C33: The ideal LRU array is a fully associative cache with LRU replacement: through any sequence of accesses to lines
  other than 0 no operation of the table or the list fails, a lookup finds the lines that the LRU list of the reference
  holds, and the victim of the next replacement is the last line of that list when the array is full, else an entry with the address 0.\<close>

theorem ideal_lru_exact:
  assumes "0 < n" and "0 \<notin> set as"
  shows "\<exists>s0 s e. IdealLRU_new n = Some s0 \<and> run_ops (il_access req) as s0 = Some s \<and> (let c = fold (lru_push n) as [] in
    (\<forall>a. map_option fst (il_lookup a req False s) \<noteq> Some (-1) \<longleftrightarrow> a \<in> set c) \<and>
    il_preinsert b req s = Some (e, if length c = n then last c else 0, s))"
proof -
  obtain s0 where s0: "IdealLRU_new n = Some s0" "il_rep n s0 []" using new_rep by blast
  from ideal.run_refines [OF s0(2) accesses_ok [OF assms], of req] obtain s where s: "run_ops (il_access req) as s0 = Some s" "il_rep n s (fold (lru_push n) as [])"
    by blast
  from back_run [OF s(2) assms(1), of b req] obtain e where "il_preinsert b req s = Some (e, if length (fold (lru_push n) as []) = n then last (fold (lru_push n) as []) else 0, s)"
    by blast
  then show ?thesis using s0(1) s(1) il_lookup_run [OF s(2), of _ req] unfolding Let_def by blast
qed

theorem ideal_lru_exact_witness:
  "\<exists>s0 s e. IdealLRU_new 2 = Some s0 \<and> run_ops (il_access None) [5, 7, 5, 9] s0 = Some s \<and>
    map_option fst (il_lookup 5 None False s) \<noteq> Some (-1) \<and> map_option fst (il_lookup 7 None False s) = Some (-1) \<and>
    il_preinsert 3 None s = Some (e, 5, s)"
proof -
  have "fold (lru_push 2) [5, 7, 5, 9] [] = [9, 5 :: address]" by code_simp
  with ideal_lru_exact [of 2 "[5, 7, 5, 9]" None 3] obtain s0 s e where "IdealLRU_new 2 = Some s0" "run_ops (il_access None) [5, 7, 5, 9] s0 = Some s"
    and l: "\<forall>a. map_option fst (il_lookup a None False s) \<noteq> Some (-1) \<longleftrightarrow> a \<in> set [9, 5]" and "il_preinsert 3 None s = Some (e, 5, s)"
    by (simp only: Let_def) auto
  moreover have "map_option fst (il_lookup 5 None False s) \<noteq> Some (-1)" "map_option fst (il_lookup 7 None False s) = Some (-1)"
    using l [THEN spec, of 5] l [THEN spec, of 7] by simp_all
  ultimately show ?thesis by blast
qed

text \<open>Line 0 is lost: the entries that were never used have the address 0, and the first replacement of one of them takes line 0
  out of the table, although the array has room.\<close>

theorem ideal_lru_loses_line_0:
  "map_option (\<lambda>s. (il_lineMap s 0, il_addrs s)) (Option.bind (IdealLRU_new 4) (run_ops (il_access None) [0])) = Some (Some 0, [0, 0, 0, 0]) \<and>
   map_option (\<lambda>s. (il_lineMap s 0, il_addrs s)) (Option.bind (IdealLRU_new 4) (run_ops (il_access None) [0, 5])) = Some (None, [0, 5, 0, 0])"
  by code_simp

end
