(* ===== verification/Ideal_Part_Contract.thy ===== *)
theory Ideal_Part_Contract imports Ideal_Arrays In_List_Contract Utility_Contract begin

text \<open>
  The ideal partitioned array: the intrusive lists of its partitions are lists of the lines of each, in the order of use,
  the sizes are the lengths of these lists, and the victim is the last line of the partition that is most above its target.
\<close>

subsection \<open>Lines that move between lists\<close>

definition move_line :: "nat \<Rightarrow> nat \<Rightarrow> nat \<Rightarrow> nat list list \<Rightarrow> nat list list" where
  "move_line i v q xss = (let yss = xss[v := remove1 i (xss ! v)] in yss[q := i # yss ! q])"

lemma on_list_exec: "on_list p (q_exec x) (ls, h) = qs_exec (p, x) (ls, h)"
  by (simp add: on_list_def)

lemma queues_in: "queues n (ls, h) xss \<Longrightarrow> v < length xss \<Longrightarrow> i \<in> set (xss ! v) \<Longrightarrow> i < n \<and> distinct (xss ! v)"
  using rep_owner [of "ls ! v" h "xss ! v" i] by (auto simp: queues_def rep_def)

lemma move_run:
  assumes Q: "queues n (ls, h) xss" and v: "v < length xss" "i \<in> set (xss ! v)" and q: "q < length xss"
  shows "\<exists>ls1 h1 ls2 h2. on_list v (in_remove i) (ls, h) = Some (ls1, h1) \<and> on_list q (push_front i) (ls1, h1) = Some (ls2, h2) \<and>
    queues n (ls2, h2) (move_line i v q xss)"
proof -
  let ?yss = "xss[v := remove1 i (xss ! v)]"
  obtain ls1 h1 where 1: "qs_exec (v, REMOVE i) (ls, h) = Some (ls1, h1)" "queues n (ls1, h1) ?yss"
    using queues_step [OF Q, of "(v, REMOVE i)"] v by auto
  have "i \<in> free_in n ?yss"
    unfolding free_in_def
  proof (intro CollectI conjI allI impI)
    show "i < n" using queues_in [OF Q v] by simp
    fix p assume "p < length ?yss"
    then show "i \<notin> set (?yss ! p)"
      using queues_in [OF Q v] queues_disjoint [OF Q v(1), of p] v by (cases "p = v") auto
  qed
  then obtain ls2 h2 where 2: "qs_exec (q, PUSH_FRONT i) (ls1, h1) = Some (ls2, h2)" "queues n (ls2, h2) (?yss[q := i # ?yss ! q])"
    using queues_step [OF 1(2), of "(q, PUSH_FRONT i)"] q by auto
  show ?thesis using 1 2 on_list_exec [of v "REMOVE i"] on_list_exec [of q "PUSH_FRONT i"] by (auto simp: move_line_def Let_def)
qed

lemma move_length [simp]: "length (move_line i v q xss) = length xss"
  by (simp add: move_line_def Let_def)

lemma move_sizes:
  assumes "v < length xss" "q < length xss" "i \<in> set (xss ! v)" "p < length xss"
  shows "length (move_line i v q xss ! p) + (if p = v then 1 else 0) = length (xss ! p) + (if p = q then 1 else 0)"
  using assms length_pos_if_in_set [OF assms(3)] by (auto simp: move_line_def Let_def nth_list_update length_remove1)

lemma move_sets:
  assumes "v < length xss" "q < length xss" "j \<in> set (xss ! p)" "p < length xss"
  shows "j \<noteq> i \<Longrightarrow> j \<in> set (move_line i v q xss ! p)" and "i \<in> set (move_line i v q xss ! q)"
  using assms by (auto simp: move_line_def Let_def nth_list_update)

subsection \<open>The policy as lists of lines\<close>

definition ip_rep :: "nat \<Rightarrow> IdealPart \<Rightarrow> nat list list \<Rightarrow> bool" where
  "ip_rep n s xss \<longleftrightarrow> queues n (ip_lists s, ip_nodes s) xss \<and> length (ip_info s) = length xss \<and> length (ip_entries s) = n \<and>
     ip_partitions s \<le> length xss \<and> (\<forall>p<length xss. psize (ip_info s) p = of_nat (length (xss ! p))) \<and>
     (\<forall>i<n. pe_p (ip_entries s ! i) < ip_partitions s \<and> i \<in> set (xss ! pe_p (ip_entries s ! i)))"

lemma ip_sizes_run:
  assumes ps: "length ps = length xss" "\<forall>p<length xss. psize ps p = of_nat (length (xss ! p))"
    and v: "v < length xss" "q < length xss" "i \<in> set (xss ! v)"
  shows "\<exists>ps'. (do {
      ps \<leftarrow> (if v \<noteq> q then do {
                 ps \<leftarrow> mod_part v (\<lambda>x. x\<lparr>part_size := part_size x - 1, extEvictions := extEvictions x + 1\<rparr>) ps;
                 mod_part q (\<lambda>x. x\<lparr>part_size := part_size x + 1\<rparr>) ps
               } else mod_part v (\<lambda>x. x\<lparr>selfEvictions := selfEvictions x + 1\<rparr>) ps);
      mod_part q (\<lambda>x. x\<lparr>partMisses := partMisses x + 1\<rparr>) ps }) = Some ps' \<and> length ps' = length xss \<and>
    (\<forall>p<length xss. psize ps' p = of_nat (length (move_line i v q xss ! p))) \<and> map targetSize ps' = map targetSize ps"
proof (cases "v = q")
  case True
  let ?f = "\<lambda>x. x\<lparr>selfEvictions := selfEvictions x + 1\<rparr>" and ?g = "\<lambda>x. x\<lparr>partMisses := partMisses x + 1\<rparr>"
  let ?ps = "ps[q := ?g (?f (ps ! q))]"
  have "length (move_line i v q xss ! p) = length (xss ! p)" if "p < length xss" for p
    using move_sizes [OF v(1,2,3) that] True by (auto split: if_splits)
  moreover have "psize ?ps p = psize ps p" if "p < length xss" for p using that ps(1) by (cases "p = q") (simp_all add: psize_def)
  moreover have "map targetSize ?ps = map targetSize ps" using ps(1) v(2) by (intro nth_equalityI) (simp_all add: nth_list_update)
  ultimately show ?thesis using True ps v by (simp add: mod_part_def read_at_def write_at_def)
next
  case False
  let ?x = "(ps ! v)\<lparr>part_size := part_size (ps ! v) - 1, extEvictions := extEvictions (ps ! v) + 1\<rparr>"
  let ?y = "(ps ! q)\<lparr>part_size := part_size (ps ! q) + 1, partMisses := partMisses (ps ! q) + 1\<rparr>"
  let ?ps = "ps[v := ?x, q := ?y]"
  have "psize ?ps p = of_nat (length (move_line i v q xss ! p))" if p: "p < length xss" for p
  proof -
    have "of_nat (length (move_line i v q xss ! p) + (if p = v then 1 else 0)) = (of_nat (length (xss ! p) + (if p = q then 1 else 0)) :: u64)"
      using move_sizes [OF v(1,2,3) p] by simp
    then show ?thesis using ps p v False by (cases "p = v"; cases "p = q") (auto simp: psize_def eq_diff_eq [symmetric] diff_eq_eq)
  qed
  moreover have "map targetSize ?ps = map targetSize ps" using ps(1) v(1,2) by (intro nth_equalityI) (simp_all add: nth_list_update)
  ultimately show ?thesis using False ps v by (simp add: mod_part_def read_at_def write_at_def)
qed

definition moved :: "nat \<Rightarrow> nat \<Rightarrow> PartInfo list \<Rightarrow> InList list \<Rightarrow> nodes \<Rightarrow> UMonMonitor \<Rightarrow> IdealPart \<Rightarrow> IdealPart" where
  "moved i q ps ls h m s = s\<lparr>ip_entries := (ip_entries s)[i := \<lparr>pe_p = q, pe_used = True\<rparr>], ip_info := ps, ip_lists := ls, ip_nodes := h, ip_monitor := m\<rparr>"

lemma moved_rep:
  assumes R: "ip_rep n s xss" and i: "i < n" "pe_p (ip_entries s ! i) = v" and q: "q < ip_partitions s"
    and Q: "queues n (ls, h) (move_line i v q xss)" and ps: "length ps = length xss" "\<forall>p<length xss. psize ps p = of_nat (length (move_line i v q xss ! p))"
  shows "ip_rep n (moved i q ps ls h m s) (move_line i v q xss)"
proof -
  from R have r: "length (ip_entries s) = n" "ip_partitions s \<le> length xss"
    "\<And>j. j < n \<Longrightarrow> pe_p (ip_entries s ! j) < ip_partitions s \<and> j \<in> set (xss ! pe_p (ip_entries s ! j))" by (auto simp: ip_rep_def)
  have v: "v < length xss" "i \<in> set (xss ! v)" "q < length xss" using r(2) r(3) [OF i(1)] i(2) q by auto
  have "pe_p ((ip_entries s)[i := \<lparr>pe_p = q, pe_used = True\<rparr>] ! j) < ip_partitions s \<and>
    j \<in> set (move_line i v q xss ! pe_p ((ip_entries s)[i := \<lparr>pe_p = q, pe_used = True\<rparr>] ! j))" if j: "j < n" for j
  proof (cases "j = i")
    case True
    then show ?thesis using move_sets(2) [OF v(1,3,2,1)] q j r(1) by simp
  next
    case False
    then have "(ip_entries s)[i := \<lparr>pe_p = q, pe_used = True\<rparr>] ! j = ip_entries s ! j" by simp
    moreover have "j \<in> set (move_line i v q xss ! pe_p (ip_entries s ! j))" using move_sets(1) [OF v(1,3) _ _ False] r(3) [OF j] r(2) by auto
    ultimately show ?thesis using r(3) [OF j] by simp
  qed
  then show ?thesis using Q ps r(1,2) unfolding ip_rep_def moved_def by simp
qed

text \<open>An update moves the line to the front of the list of its partition, which the mapper gives for a line that comes in.\<close>

lemma update_run:
  assumes R: "ip_rep n s xss" and i: "i < n" "ip_entries s ! i = e"
    and q: "if pe_used e then q = pe_p e else mapper (Some r) = Some q \<and> q < ip_partitions s"
  shows "\<exists>ps ls h. ip_update hf mapper (Some r) i s = map_option (\<lambda>m. moved i q ps ls h m s) (mon_access hf q (lineAddr r) (ip_monitor s)) \<and>
    (\<forall>m. ip_rep n (moved i q ps ls h m s) (move_line i (pe_p e) q xss)) \<and> map targetSize ps = map targetSize (ip_info s)"
proof -
  let ?v = "pe_p e"
  from R have r: "queues n (ip_lists s, ip_nodes s) xss" "length (ip_info s) = length xss" "length (ip_entries s) = n" "ip_partitions s \<le> length xss"
    "\<forall>p<length xss. psize (ip_info s) p = of_nat (length (xss ! p))" "?v < ip_partitions s" "i \<in> set (xss ! ?v)" using i by (auto simp: ip_rep_def)
  have v: "?v < length xss" "q < length xss" "q < ip_partitions s" using r(4,6) q by (auto split: if_splits)
  from move_run [OF r(1) v(1) r(7) v(2)] obtain ls1 h1 ls2 h2 where l: "on_list ?v (in_remove i) (ip_lists s, ip_nodes s) = Some (ls1, h1)"
    "on_list q (push_front i) (ls1, h1) = Some (ls2, h2)" "queues n (ls2, h2) (move_line i ?v q xss)" by blast
  have e: "read_at (ip_entries s) i = Some e" "\<And>x. write_at (ip_entries s) i x = Some ((ip_entries s)[i := x])"
    using i r(3) by (simp_all add: read_at_def write_at_def)
  show ?thesis
  proof (cases "pe_used e")
    case True
    then have qv: "q = ?v" and eq: "\<lparr>pe_p = ?v, pe_used = True\<rparr> = e" using q by auto
    let ?ps = "(ip_info s)[?v := (ip_info s ! ?v)\<lparr>partHits := partHits (ip_info s ! ?v) + 1\<rparr>]"
    have "mod_part ?v (\<lambda>x. x\<lparr>partHits := partHits x + 1\<rparr>) (ip_info s) = Some ?ps" using v(1) r(2) by (simp add: mod_part_Some)
    then have run: "ip_update hf mapper (Some r) i s = map_option (\<lambda>m. moved i q ?ps ls2 h2 m s) (mon_access hf q (lineAddr r) (ip_monitor s))"
      unfolding ip_update_def moved_def Let_def e(1) bind.bind_lunit if_P [OF True] qv eq using l(1,2) [unfolded qv]
      by (cases "mon_access hf ?v (lineAddr r) (ip_monitor s)") (simp_all add: e(2))
    have "length (move_line i ?v q xss ! p) = length (xss ! p)" if "p < length xss" for p
      using move_sizes [OF v(1,2) r(7) that] qv by (auto split: if_splits)
    then have "\<forall>p<length xss. psize ?ps p = of_nat (length (move_line i ?v q xss ! p))"
      using r(2,5) psize_same [of ?v "ip_info s" "\<lambda>x. x\<lparr>partHits := partHits x + 1\<rparr>"] v(1) by (simp add: psize_def)
    moreover have "map targetSize ?ps = map targetSize (ip_info s)" using r(2) v(1) by (intro nth_equalityI) (simp_all add: nth_list_update)
    ultimately show ?thesis using run moved_rep [OF R i(1) _ v(3) l(3), of ?ps] i(2) r(2)
      by (intro exI [of _ ?ps] exI [of _ ls2] exI [of _ h2]) simp
  next
    case False
    with q have m: "mapper (Some r) = Some q" by simp
    from ip_sizes_run [OF r(2,5) v(1,2) r(7)] obtain ps where ps: "(do {
      ps \<leftarrow> (if ?v \<noteq> q then do {
                 ps \<leftarrow> mod_part ?v (\<lambda>x. x\<lparr>part_size := part_size x - 1, extEvictions := extEvictions x + 1\<rparr>) (ip_info s);
                 mod_part q (\<lambda>x. x\<lparr>part_size := part_size x + 1\<rparr>) ps
               } else mod_part ?v (\<lambda>x. x\<lparr>selfEvictions := selfEvictions x + 1\<rparr>) (ip_info s));
      mod_part q (\<lambda>x. x\<lparr>partMisses := partMisses x + 1\<rparr>) ps }) = Some ps" "length ps = length xss"
      "\<forall>p<length xss. psize ps p = of_nat (length (move_line i ?v q xss ! p))" "map targetSize ps = map targetSize (ip_info s)" by blast
    from ps(1) obtain ps1 where p1: "(if ?v \<noteq> q then do {
                 ps \<leftarrow> mod_part ?v (\<lambda>x. x\<lparr>part_size := part_size x - 1, extEvictions := extEvictions x + 1\<rparr>) (ip_info s);
                 mod_part q (\<lambda>x. x\<lparr>part_size := part_size x + 1\<rparr>) ps
               } else mod_part ?v (\<lambda>x. x\<lparr>selfEvictions := selfEvictions x + 1\<rparr>) (ip_info s)) = Some ps1"
      "mod_part q (\<lambda>x. x\<lparr>partMisses := partMisses x + 1\<rparr>) ps1 = Some ps" by (auto simp only: bind_eq_Some_conv)
    have new: "e\<lparr>pe_p := q, pe_used := True\<rparr> = \<lparr>pe_p = q, pe_used = True\<rparr>" by (cases e) simp
    have "ip_update hf mapper (Some r) i s = map_option (\<lambda>m. moved i q ps ls2 h2 m s) (mon_access hf q (lineAddr r) (ip_monitor s))"
      unfolding ip_update_def moved_def Let_def e(1) m p1(1) bind.bind_lunit if_not_P [OF False]
      by (cases "mon_access hf q (lineAddr r) (ip_monitor s)") (simp_all add: p1(2) l(1,2) e(2) new)
    then show ?thesis using ps(2-4) moved_rep [OF R i(1) _ v(3) l(3) ps(2,3)] i(2) by blast
  qed
qed

lemma update_inv:
  assumes R: "ip_rep n s xss" and u: "ip_update hf mapper (Some r) i s = Some s'" and m: "\<And>p. mapper (Some r) = Some p \<Longrightarrow> p < ip_partitions s"
  shows "\<exists>xss'. ip_rep n s' xss'" and "ip_partitions s' = ip_partitions s" and "ip_numBuckets s' = ip_numBuckets s" and "map targetSize (ip_info s') = map targetSize (ip_info s)"
proof -
  have i: "i < n" using u R by (cases "i < n") (auto simp: ip_update_def read_at_def ip_rep_def)
  let ?e = "ip_entries s ! i"
  have "i < length (ip_entries s)" using i R by (simp add: ip_rep_def)
  then have "\<not> pe_used ?e \<Longrightarrow> mapper (Some r) = None \<Longrightarrow> ip_update hf mapper (Some r) i s = None" by (simp add: ip_update_def Let_def read_at_def)
  then have "\<not> pe_used ?e \<Longrightarrow> mapper (Some r) \<noteq> None" using u by (metis option.distinct(1))
  with m obtain q where q: "if pe_used ?e then q = pe_p ?e else mapper (Some r) = Some q \<and> q < ip_partitions s" by (cases "pe_used ?e") auto
  obtain ps ls h where 1: "ip_update hf mapper (Some r) i s = map_option (\<lambda>m. moved i q ps ls h m s) (mon_access hf q (lineAddr r) (ip_monitor s))"
    "\<And>m. ip_rep n (moved i q ps ls h m s) (move_line i (pe_p ?e) q xss)" "map targetSize ps = map targetSize (ip_info s)"
    using update_run [where mapper = mapper and r = r and q = q and hf = hf and e = "?e", OF R i refl q] by blast
  from 1(1) u obtain m where "s' = moved i q ps ls h m s" by (cases "mon_access hf q (lineAddr r) (ip_monitor s)") auto
  then show "\<exists>xss'. ip_rep n s' xss'" "ip_partitions s' = ip_partitions s" "ip_numBuckets s' = ip_numBuckets s"
    "map targetSize (ip_info s') = map targetSize (ip_info s)" using 1(2,3) by (auto simp: moved_def)
qed

lemma replaced_inv:
  assumes R: "ip_rep n s xss" and u: "ip_replaced i s = Some s'"
  shows "ip_rep n s' xss" and "ip_partitions s' = ip_partitions s" and "ip_numBuckets s' = ip_numBuckets s" and "ip_info s' = ip_info s"
proof -
  from u obtain e where "i < length (ip_entries s)" "e = ip_entries s ! i" and s': "s' = s\<lparr>ip_entries := (ip_entries s)[i := e\<lparr>pe_used := False\<rparr>]\<rparr>"
    by (auto simp: ip_replaced_def bind_eq_Some_conv read_at_def write_at_def split: if_splits)
  then have "pe_p (ip_entries s' ! j) = pe_p (ip_entries s ! j)" for j by (cases "j = i") simp_all
  then show "ip_rep n s' xss" using R s' by (auto simp: ip_rep_def)
qed (use u in \<open>auto simp: ip_replaced_def bind_eq_Some_conv\<close>)

lemma set_targets:
  fixes nb :: u32
  assumes "fold (\<lambda>p ps. do {
         ps \<leftarrow> ps;
         k \<leftarrow> read_at sizes p;
         assert_that (nb \<noteq> 0);
         mod_part p (\<lambda>x. x\<lparr>targetSize := ucast (k * nl div nb)\<rparr>) ps
       }) L (Some ps) = Some ps'" (is "fold ?f L (Some ps) = _")
  shows "length ps' = length ps \<and> (\<forall>p<length ps. psize ps' p = psize ps p) \<and>
    (2 \<le> nb \<longrightarrow> list_all (\<lambda>x. targetSize x < 2 ^ 31) ps \<longrightarrow> list_all (\<lambda>x. targetSize x < 2 ^ 31) ps')"
  using assms
proof (induction L arbitrary: ps)
  case (Cons p L)
  have none: "fold ?f M None = None" for M by (induction M) simp_all
  with Cons.prems obtain ps1 where 1: "?f p (Some ps) = Some ps1" "fold ?f L (Some ps1) = Some ps'" by (cases "?f p (Some ps)") auto
  then obtain k where k: "p < length ps" "ps1 = ps[p := (ps ! p)\<lparr>targetSize := ucast (k * nl div nb)\<rparr>]" by (auto simp: bind_eq_Some_conv mod_part_Some)
  have "ucast (k * nl div nb) < (2 ^ 31 :: u64)" if "2 \<le> nb"
  proof -
    have "2 \<le> unat nb" using that by (simp add: word_le_nat_alt)
    then have "unat (k * nl) div unat nb \<le> unat (k * nl) div 2" by (intro div_le_mono2) simp_all
    moreover have "unat (k * nl) < 2 ^ 32" using unsigned_less [of "k * nl", where ?'a = nat] by simp
    ultimately have "unat (k * nl div nb) < 2 ^ 31" by (simp add: unat_div_distrib)
    then show ?thesis by (simp add: word_less_nat_alt unat_widen)
  qed
  then have "length ps1 = length ps \<and> (\<forall>q<length ps. psize ps1 q = psize ps q) \<and>
    (2 \<le> nb \<longrightarrow> list_all (\<lambda>x. targetSize x < 2 ^ 31) ps \<longrightarrow> list_all (\<lambda>x. targetSize x < 2 ^ 31) ps1)"
    using k by (auto simp: psize_upd psize_def list_all_length nth_list_update)
  with Cons.IH [OF 1(2)] show ?case by auto
qed simp

subsection \<open>The victim\<close>

lemma worst_part_run:
  fixes fdiv :: "u32 \<Rightarrow> u64 \<Rightarrow> 'd :: linorder"
  assumes "worst_part fdiv (\<lambda>x y. y < x) ps k (b, q) = (m, v)"
  shows "b \<le> m \<and> (\<forall>p<length ps. part_size (ps ! p) > 0 \<longrightarrow> part_diff fdiv (ps ! p) \<le> m) \<and>
    ((m, v) = (b, q) \<or> (\<exists>p<length ps. v = k + p \<and> m = part_diff fdiv (ps ! p) \<and> b < m \<and> part_size (ps ! p) > 0))"
  using assms
proof (induction ps arbitrary: k b q)
  case (Cons x ps)
  define c where "c = (if b < part_diff fdiv x \<and> part_size x > 0 then (part_diff fdiv x, k) else (b, q))"
  have c: "worst_part fdiv (\<lambda>x y. y < x) ps (k + 1) (fst c, snd c) = (m, v)" using Cons.prems by (simp add: c_def)
  note IH = Cons.IH [OF c]
  have b: "b \<le> fst c" "part_size x > 0 \<Longrightarrow> part_diff fdiv x \<le> fst c" by (auto simp: c_def)
  have all: "part_diff fdiv ((x # ps) ! p) \<le> m" if p: "p < length (x # ps)" "part_size ((x # ps) ! p) > 0" for p
  proof (cases p)
    case 0
    then show ?thesis using IH b(2) p(2) by (auto intro: order_trans)
  qed (use IH p in auto)
  consider "(m, v) = c" | p where "p < length ps" "v = k + 1 + p" "m = part_diff fdiv (ps ! p)" "fst c < m" "part_size (ps ! p) > 0"
    using IH by fastforce
  then have "(m, v) = (b, q) \<or> (\<exists>p<length (x # ps). v = k + p \<and> m = part_diff fdiv ((x # ps) ! p) \<and> b < m \<and> part_size ((x # ps) ! p) > 0)"
  proof cases
    case 1
    show ?thesis
    proof (cases "b < part_diff fdiv x \<and> part_size x > 0")
      case True
      then show ?thesis using 1 by (intro disjI2 exI [of _ 0]) (simp add: c_def)
    next
      case False
      then have "c = (b, q)" unfolding c_def by (rule if_not_P)
      with 1 show ?thesis by simp
    qed
  next
    case 2
    then show ?thesis using b(1) by (intro disjI2 exI [of _ "Suc p"]) auto
  qed
  then show ?case using all IH b(1) by (blast intro: order_trans)
qed simp

text \<open>What the quotients of \<^verbatim>\<open>rank\<close> satisfy for sizes and targets in the range of an \<^verbatim>\<open>int32_t\<close>: they are above -2.0.\<close>

definition quotients :: "(u32 \<Rightarrow> u64 \<Rightarrow> 'd :: linorder) \<Rightarrow> 'd \<Rightarrow> 'd \<Rightarrow> bool" where
  "quotients fdiv m2 zero \<longleftrightarrow> m2 \<le> zero \<and> (\<forall>(a :: u64) t. a < 2 ^ 31 \<longrightarrow> t < 2 ^ 31 \<longrightarrow> m2 < fdiv (ucast a - ucast t) (t + 1))"

lemma line_bound: "ip_rep n s xss \<Longrightarrow> p < length xss \<Longrightarrow> length (xss ! p) \<le> n"
proof -
  assume R: "ip_rep n s xss" and p: "p < length xss"
  have "i < n \<and> distinct (xss ! p)" if "i \<in> set (xss ! p)" for i using queues_in [of n "ip_lists s" "ip_nodes s" xss p i] R p that by (auto simp: ip_rep_def)
  then have "set (xss ! p) \<subseteq> {..<n}" "distinct (xss ! p)" by (auto, cases "xss ! p") auto
  then show ?thesis using card_mono [of "{..<n}" "set (xss ! p)"] by (simp add: distinct_card)
qed

lemma owner_unique:
  assumes "ip_rep n s xss" and "p < length xss" and "i \<in> set (xss ! p)"
  shows "i < n" and "pe_p (ip_entries s ! i) = p"
proof -
  let ?v = "pe_p (ip_entries s ! i)"
  show i: "i < n" using queues_in [of n "ip_lists s" "ip_nodes s" xss p i] assms by (auto simp: ip_rep_def)
  with assms(1) have "?v < length xss" "i \<in> set (xss ! ?v)" by (auto simp: ip_rep_def intro: less_le_trans)
  then show "?v = p" using queues_disjoint [of n "ip_lists s" "ip_nodes s" xss p ?v] assms by (auto simp: ip_rep_def)
qed

lemma rank_run:
  fixes fdiv :: "u32 \<Rightarrow> u64 \<Rightarrow> 'd :: linorder"
  assumes R: "ip_rep n s xss" and n: "0 < n" "n < 2 ^ 31" and t: "list_all (\<lambda>x. targetSize x < 2 ^ 31) (ip_info s)"
    and m: "mapper req = Some q" "q < ip_partitions s" and f: "quotients fdiv m2 zero"
  shows "\<exists>v<ip_partitions s. xss ! v \<noteq> [] \<and> ip_rank fdiv (\<lambda>x y. y < x) m2 zero mapper req s = Some (last (xss ! v)) \<and>
    (v = q \<or> psize (ip_info s) q = 0 \<or> zero < part_diff fdiv (ip_info s ! v)) \<and>
    (\<forall>p<ip_partitions s. psize (ip_info s) p > 0 \<longrightarrow>
      part_diff fdiv (ip_info s ! p) \<le> part_diff fdiv (ip_info s ! v) \<or> v = q \<and> part_diff fdiv (ip_info s ! p) \<le> zero)"
proof -
  let ?ps = "ip_info s" and ?P = "ip_partitions s"
  from R have r: "queues n (ip_lists s, ip_nodes s) xss" "length ?ps = length xss" "length (ip_entries s) = n" "?P \<le> length xss"
    "\<And>p. p < length xss \<Longrightarrow> psize ?ps p = of_nat (length (xss ! p))" "\<And>i. i < n \<Longrightarrow> pe_p (ip_entries s ! i) < ?P \<and> i \<in> set (xss ! pe_p (ip_entries s ! i))"
    by (auto simp: ip_rep_def)
  have un: "unat (psize ?ps p) = length (xss ! p)" if "p < length xss" for p
    using r(5) [OF that] line_bound [OF R that] n(2) by (simp add: unsigned_of_nat take_bit_nat_eq_self_iff)
  have pos: "psize ?ps p > 0 \<longleftrightarrow> xss ! p \<noteq> []" if "p < length xss" for p using un [OF that] by (auto simp: word_less_nat_alt)
  have above: "m2 < part_diff fdiv (?ps ! p)" if p: "p < length xss" for p
  proof -
    have "part_size (?ps ! p) < 2 ^ 31" using un [OF p] line_bound [OF R p] n(2) by (simp add: psize_def word_less_nat_alt)
    moreover have "targetSize (?ps ! p) < 2 ^ 31" using t p r(2) by (simp add: list_all_length)
    ultimately show ?thesis using f by (simp add: quotients_def part_diff_def)
  qed
  let ?b = "if part_size (?ps ! q) = 0 then m2 else zero"
  obtain k v where w: "worst_part fdiv (\<lambda>x y. y < x) (take ?P ?ps) 0 (?b, q) = (k, v)" by fastforce
  note W = worst_part_run [OF w]
  have all: "part_diff fdiv (?ps ! p) \<le> k" if "p < ?P" "psize ?ps p > 0" for p using W that r(2,4) by (simp add: psize_def)
  define u where "u = pe_p (ip_entries s ! 0)"
  have u: "u < ?P" "psize ?ps u > 0" using r(6) [OF n(1)] pos [of u] r(4) by (auto simp: u_def)
  have ku: "m2 < k" using all [OF u] above [of u] u(1) r(4) by (simp add: less_le_trans)
  have cases: "(k, v) = (?b, q) \<or> v < ?P \<and> k = part_diff fdiv (?ps ! v) \<and> ?b < k \<and> psize ?ps v > 0"
    using W r(2,4) by (auto simp: psize_def)
  have v: "v < ?P" "psize ?ps v > 0" using cases ku m(2) by (auto simp: psize_def word_neq_0_conv split: if_splits)
  have vx: "v < length xss" "xss ! v \<noteq> []" using v r(4) pos [of v] by auto
  have l: "ip_lists s ! v = ip_lists s ! v" "v < length (ip_lists s)" "rep (ip_lists s ! v) (ip_nodes s) (xss ! v)" using r(1) vx(1) by (auto simp: queues_def)
  then have "in_back (ip_lists s ! v) = Some (last (xss ! v))" "in_size (ip_lists s ! v) = length (xss ! v)"
    using vx(2) by (simp_all add: rep_def in_back_def in_size_def ends_nonempty)
  moreover have "q < length ?ps" "v < length ?ps" using m(2) v(1) r(2,4) by simp_all
  ultimately have run: "ip_rank fdiv (\<lambda>x y. y < x) m2 zero mapper req s = Some (last (xss ! v))"
    using m(1) r(2,4) w v(2) l(2) r(5) [OF vx(1)] by (simp add: ip_rank_def read_at_def assert_that_def psize_def)
  have "v = q \<or> psize ?ps q = 0 \<or> zero < part_diff fdiv (?ps ! v)" using cases by (auto simp: psize_def split: if_splits)
  moreover have "part_diff fdiv (?ps ! p) \<le> part_diff fdiv (?ps ! v) \<or> v = q \<and> part_diff fdiv (?ps ! p) \<le> zero" if "p < ?P" "psize ?ps p > 0" for p
    using cases all [OF that] v(2) by (auto simp: psize_def split: if_splits)
  ultimately show ?thesis using run v(1) vx(2) by blast
qed

subsection \<open>The constructor\<close>

lemma fold_none: "fold (\<lambda>x s. do { s \<leftarrow> s; f x s }) xs None = None"
  by (induction xs) simp_all

lemma init_parts_run:
  assumes "init_parts room parts numLines = Some (ps, ls)" and "numLines < 2 ^ 31"
  shows "parts \<noteq> 0 \<and> room \<noteq> 0 \<and> length ps = parts + room \<and> ls = map InList_new [0..<parts + room] \<and>
    (\<forall>p<parts + room. psize ps p = 0) \<and> list_all (\<lambda>x. targetSize x < 2 ^ 31) ps"
proof -
  let ?blank = "\<lparr>part_size = 0, targetSize = 0, partHits = 0, partMisses = 0, selfEvictions = 0, extEvictions = 0\<rparr>"
  let ?f = "\<lambda>p (ps, ls). do {
         assert_that (parts \<noteq> 0);
         ps \<leftarrow> write_at ps p (?blank\<lparr>targetSize := ucast (numLines div of_nat parts)\<rparr>);
         ls \<leftarrow> write_at ls p (InList_new p);
         Some (ps, ls)
       }"
  let ?I = "\<lambda>ps ls. length ps = parts + room \<and> ls = map InList_new [0..<parts + room] \<and>
    (\<forall>p<parts + room. psize ps p = 0) \<and> list_all (\<lambda>x. targetSize x < 2 ^ 31) ps"
  have "unat (numLines div of_nat parts) \<le> unat numLines" by (simp add: unat_div_distrib)
  then have t: "ucast (numLines div of_nat parts) < (2 ^ 31 :: u64)" using assms(2) by (simp add: word_less_nat_alt unat_widen)
  have step: "?I ps' ls' \<and> parts \<noteq> 0 \<and> p < parts + room" if "?I ps ls" "?f p (ps, ls) = Some (ps', ls')" for p ps ls ps' ls'
  proof -
    have p: "parts \<noteq> 0" "p < parts + room" "ps' = ps[p := ?blank\<lparr>targetSize := ucast (numLines div of_nat parts)\<rparr>]" "ls' = ls[p := InList_new p]"
      using that by (auto simp: bind_eq_Some_conv write_at_def split: if_splits)
    have "ls' = ls" using that(1) p(2,4) by (intro nth_equalityI) (auto simp: nth_list_update)
    then show ?thesis using that(1) p t by (auto simp: psize_upd list_all_length nth_list_update)
  qed
  have run: "(\<forall>p\<in>set L. parts \<noteq> 0 \<and> p < parts + room) \<and> ?I ps' ls'" if "fold (\<lambda>p s. do { s \<leftarrow> s; ?f p s }) L (Some (ps, ls)) = Some (ps', ls')" "?I ps ls" for L ps ls ps' ls'
    using that
  proof (induction L arbitrary: ps ls)
    case (Cons p L)
    obtain ps1 ls1 where 1: "?f p (ps, ls) = Some (ps1, ls1)" using Cons.prems(1) fold_none [of ?f L] by (cases "?f p (ps, ls)") auto
    with Cons.prems(1) have 2: "fold (\<lambda>p s. do { s \<leftarrow> s; ?f p s }) L (Some (ps1, ls1)) = Some (ps', ls')" by simp
    show ?case using step [OF Cons.prems(2) 1] Cons.IH [OF 2] unfolding list.set by blast
  qed simp
  have "?I (replicate (parts + room) ?blank) (map InList_new [0..<parts + room])" by (simp add: psize_def list_all_length)
  moreover have "(\<lambda>p s. do { s \<leftarrow> s; ?f p s }) = (\<lambda>p s. do {
         (ps, ls) \<leftarrow> s;
         assert_that (parts \<noteq> 0);
         ps \<leftarrow> write_at ps p (?blank\<lparr>targetSize := ucast (numLines div of_nat parts)\<rparr>);
         ls \<leftarrow> write_at ls p (InList_new p);
         Some (ps, ls)
       })" by (rule refl)
  then have "fold (\<lambda>p s. do { s \<leftarrow> s; ?f p s }) [0..<Suc parts] (Some (replicate (parts + room) ?blank, map InList_new [0..<parts + room])) = Some (ps, ls)"
    using assms(1) unfolding init_parts_def Let_def by (simp only:)
  ultimately have "(\<forall>p\<in>set [0..<Suc parts]. parts \<noteq> 0 \<and> p < parts + room) \<and> ?I ps ls" using run by blast
  then show ?thesis by (auto dest: bspec [of _ _ parts])
qed

definition first_lists :: "nat \<Rightarrow> nat \<Rightarrow> nat list list" where
  "first_lists m k = (replicate m [])[0 := rev [0..<k]]"

lemma init_entries_run:
  assumes "0 < m" "length ps = m" "\<forall>p<m. psize ps p = 0" "k \<le> n"
  shows "\<exists>ps' ls' h'. init_entries k (ps, map InList_new [0..<m], replicate n InListNode_new) = Some (ps', ls', h') \<and> length ps' = m \<and>
    queues n (ls', h') (first_lists m k) \<and> (\<forall>p<m. psize ps' p = of_nat (length (first_lists m k ! p))) \<and> map targetSize ps' = map targetSize ps"
  using assms(4)
proof (induction k)
  case 0
  have "first_lists m 0 = replicate m []" by (simp add: first_lists_def list_update_same_conv assms(1))
  moreover have "queues n (map InList_new [0..<m], replicate n InListNode_new) (replicate m [])"
    by (auto simp: queues_def rep_new InList_new_def [of "_ :: nat", THEN arg_cong, of self])
  ultimately show ?case using assms by (auto simp: init_entries_def)
next
  case (Suc k)
  then obtain ps' ls' h' where s: "init_entries k (ps, map InList_new [0..<m], replicate n InListNode_new) = Some (ps', ls', h')" "length ps' = m"
    "queues n (ls', h') (first_lists m k)" "\<forall>p<m. psize ps' p = of_nat (length (first_lists m k ! p))" "map targetSize ps' = map targetSize ps" by auto
  have f: "k \<in> free_in n (first_lists m k)" using Suc.prems assms(1) by (auto simp: free_in_def first_lists_def nth_list_update)
  have nx: "(first_lists m k)[0 := k # first_lists m k ! 0] = first_lists m (Suc k)" using assms(1) by (simp add: first_lists_def)
  obtain ls2 h2 where q: "on_list 0 (push_front k) (ls', h') = Some (ls2, h2)" "queues n (ls2, h2) (first_lists m (Suc k))"
    using queues_step [OF s(3), of "(0, PUSH_FRONT k)"] f assms(1) nx on_list_exec [of 0 "PUSH_FRONT k"] by (auto simp: first_lists_def)
  let ?ps = "ps'[0 := (ps' ! 0)\<lparr>part_size := part_size (ps' ! 0) + 1\<rparr>]"
  have "ps' \<noteq> []" using s(2) assms(1) by auto
  then have "init_entries (Suc k) (ps, map InList_new [0..<m], replicate n InListNode_new) = Some (?ps, ls2, h2)"
    using s(1,2) q(1) assms(1) by (simp add: init_entries_def mod_part_def read_at_def write_at_def)
  moreover have "\<forall>p<m. psize ?ps p = of_nat (length (first_lists m (Suc k) ! p))"
    using s(2,4) assms(1) by (auto simp: psize_def first_lists_def nth_list_update)
  moreover have "map targetSize ?ps = map targetSize ps'" using s(2) assms(1) by (intro nth_equalityI) (simp_all add: nth_list_update)
  then have "map targetSize ?ps = map targetSize ps" using s(5) by (rule trans)
  ultimately show ?case using q(2) s(2) by auto
qed

lemma new_part_rep:
  assumes "IdealPart_new room mon parts numLines nb = Some s" and "numLines < 2 ^ 31"
  shows "ip_rep (unat numLines) s (first_lists (parts + room) (unat numLines))" and "ip_partitions s = parts" and "ip_numBuckets s = nb"
    and "list_all (\<lambda>x. targetSize x < 2 ^ 31) (ip_info s)"
proof -
  let ?n = "unat numLines" and ?m = "parts + room"
  from assms(1) obtain ps ls ps' ls' h' where 1: "init_parts room parts numLines = Some (ps, ls)"
    and 2: "init_entries ?n (ps, ls, replicate ?n InListNode_new) = Some (ps', ls', h')"
    and s: "s = \<lparr>ip_monitor = mon, ip_entries = replicate ?n \<lparr>pe_p = 0, pe_used = True\<rparr>, ip_info = ps', ip_lists = ls', ip_nodes = h',
       ip_partitions = parts, ip_numLines = numLines, ip_numBuckets = nb\<rparr>"
    by (auto simp: IdealPart_new_def Let_def bind_eq_Some_conv)
  from init_parts_run [OF 1 assms(2)] have p: "parts \<noteq> 0" "length ps = ?m" "ls = map InList_new [0..<?m]" "\<forall>p<?m. psize ps p = 0" "list_all (\<lambda>x. targetSize x < 2 ^ 31) ps"
    by blast+
  have m: "0 < ?m" using p(1) by simp
  from init_entries_run [OF m p(2,4) order_refl, of ?n] 2 have e: "length ps' = ?m" "queues ?n (ls', h') (first_lists ?m ?n)"
    "\<forall>p<?m. psize ps' p = of_nat (length (first_lists ?m ?n ! p))" "map targetSize ps' = map targetSize ps" by (auto simp: p(3))
  show "ip_rep ?n s (first_lists ?m ?n)" using e(1-3) p(1) m by (simp add: ip_rep_def s) (simp add: first_lists_def)
  show "list_all (\<lambda>x. targetSize x < 2 ^ 31) (ip_info s)"
    using arg_cong [OF e(4), of "list_all (\<lambda>t. t < 2 ^ 31)"] p(5) by (simp add: s list.pred_map comp_def)
qed (use assms(1) in \<open>auto simp: IdealPart_new_def Let_def bind_eq_Some_conv\<close>)

text \<open>The constructor writes one element past the array of the partitions.\<close>

lemma ideal_part_overflow: "IdealPart_new 0 mon parts numLines nb = None"
proof -
  have none: "fold (\<lambda>p s. do { (ps, ls) \<leftarrow> s; f p ps ls }) L None = None" for f L by (induction L) simp_all
  let ?I = "\<lambda>s. case s of None \<Rightarrow> True | Some (ps, ls) \<Rightarrow> length ps = parts"
  let ?b = "\<lparr>part_size = 0, targetSize = 0, partHits = 0, partMisses = 0, selfEvictions = 0, extEvictions = 0\<rparr>"
  let ?f = "\<lambda>p s. do {
         (ps, ls) \<leftarrow> s;
         assert_that (parts \<noteq> 0);
         ps \<leftarrow> write_at ps p (?b\<lparr>targetSize := ucast (numLines div of_nat parts)\<rparr>);
         ls \<leftarrow> write_at ls p (InList_new p);
         Some (ps, ls)
       }"
  have "?I (fold ?f L s)" if "?I s" for L s
    using that
  proof (induction L arbitrary: s)
    case (Cons p L)
    have "?I (?f p s)" using Cons.prems by (cases s) (auto split: option.splits if_splits simp: bind_eq_Some_conv write_at_def)
    then show ?case using Cons.IH [of "?f p s"] by simp
  qed simp
  then have I: "?I (fold ?f [0..<parts] (Some (replicate parts ?b, map InList_new [0..<parts])))" by (simp only: option.case prod.case length_replicate)
  have "?f parts s = None" if "?I s" for s using that by (cases s) (auto simp: write_at_def bind_eq_None_conv)
  from this [OF I] have "fold ?f [0..<Suc parts] (Some (replicate parts ?b, map InList_new [0..<parts])) = None"
    by (simp only: upt_Suc_append le0 fold_append fold_simps o_apply)
  then have "init_parts 0 parts numLines = None" by (simp only: init_parts_def Let_def add_0_right)
  then show ?thesis by (simp add: IdealPart_new_def)
qed

subsection \<open>Runs\<close>

text \<open>An access of the cache, with a replacement on a miss, or a new partitioning.\<close>

datatype pa_op = Pa_access MemReq | Pa_sizes "u32 list"

fun pa_exec :: "hash_fn \<Rightarrow> mapper \<Rightarrow> (u32 \<Rightarrow> u64 \<Rightarrow> 'd) \<Rightarrow> ('d \<Rightarrow> 'd \<Rightarrow> bool) \<Rightarrow> 'd \<Rightarrow> 'd \<Rightarrow> pa_op \<Rightarrow> IdealPartArray \<Rightarrow> IdealPartArray option" where
  "pa_exec hf mapper fdiv gt m2 zero (Pa_access r) s = do {
     (i, s) \<leftarrow> pa_lookup hf mapper (lineAddr r) (Some r) True s;
     (if i = -1 then do {
        (e, wb, s) \<leftarrow> pa_preinsert fdiv gt m2 zero mapper (lineAddr r) (Some r) s;
        pa_postinsert hf mapper (lineAddr r) (Some r) e s
      } else Some s)
   }"
| "pa_exec hf mapper fdiv gt m2 zero (Pa_sizes ks) s = map_option (\<lambda>rp. s\<lparr>pa_rp := rp\<rparr>) (ip_setPartitionSizes ks (pa_rp s))"

definition part_inv :: "nat \<Rightarrow> nat \<Rightarrow> u32 \<Rightarrow> IdealPart \<Rightarrow> bool" where
  "part_inv n parts nb s \<longleftrightarrow> (\<exists>xss. ip_rep n s xss) \<and> ip_partitions s = parts \<and> ip_numBuckets s = nb \<and> list_all (\<lambda>x. targetSize x < 2 ^ 31) (ip_info s)"

lemma targets_eq: "map targetSize ps' = map targetSize ps \<Longrightarrow> list_all (\<lambda>x. targetSize x < 2 ^ 31) ps' = list_all (\<lambda>x. targetSize x < 2 ^ 31) ps"
  by (drule arg_cong [of _ _ "list_all (\<lambda>t. t < 2 ^ 31)"]) (simp add: list.pred_map comp_def)

lemma update_part_inv:
  assumes "part_inv n parts nb s" and "ip_update hf mapper (Some r) i s = Some s'" and "\<And>p. mapper (Some r) = Some p \<Longrightarrow> p < parts"
  shows "part_inv n parts nb s'"
proof -
  from assms(1) obtain xss where R: "ip_rep n s xss" and P: "ip_partitions s = parts" by (auto simp: part_inv_def)
  note u = update_inv [OF R assms(2) assms(3) [folded P]]
  show ?thesis using assms(1) u(1-3) targets_eq [OF u(4)] by (simp add: part_inv_def)
qed

lemma sizes_part_inv:
  assumes I: "part_inv n parts nb s" and u: "ip_setPartitionSizes ks s = Some s'" and nb: "2 \<le> nb"
  shows "part_inv n parts nb s'"
proof -
  from u obtain ps where f: "fold (\<lambda>p ps. do {
         ps \<leftarrow> ps;
         k \<leftarrow> read_at ks p;
         assert_that (ip_numBuckets s \<noteq> 0);
         mod_part p (\<lambda>x. x\<lparr>targetSize := ucast (k * ip_numLines s div ip_numBuckets s)\<rparr>) ps
       }) [0..<ip_partitions s] (Some (ip_info s)) = Some ps" and s': "s' = s\<lparr>ip_info := ps\<rparr>"
    by (auto simp: ip_setPartitionSizes_def bind_eq_Some_conv)
  from I obtain xss where R: "ip_rep n s xss" by (auto simp: part_inv_def)
  have "ip_rep n s' xss" using R set_targets [OF f] by (simp add: ip_rep_def s')
  then show ?thesis using I set_targets [OF f] nb by (auto simp: part_inv_def s')
qed

lemma exec_part_inv:
  assumes I: "part_inv n parts nb (pa_rp s)" and u: "pa_exec hf mapper fdiv gt m2 zero x s = Some s'"
    and m: "\<And>r p. mapper (Some r) = Some p \<Longrightarrow> p < parts" and nb: "2 \<le> nb"
  shows "part_inv n parts nb (pa_rp s')"
proof (cases x)
  case (Pa_access r)
  show ?thesis
  proof (cases "pa_lineMap s (lineAddr r)")
    case (Some i)
    with u Pa_access obtain rp where "ip_update hf mapper (Some r) i (pa_rp s) = Some rp" "s' = s\<lparr>pa_rp := rp\<rparr>"
      by (auto simp: pa_lookup_def bind_eq_Some_conv)
    then show ?thesis using update_part_inv [OF I _ m] by simp
  next
    case None
    with u Pa_access obtain e wb where "pa_postinsert hf mapper (lineAddr r) (Some r) e s = Some s'"
      by (auto simp: pa_lookup_def pa_preinsert_def bind_eq_Some_conv)
    then obtain rp rp' where 1: "ip_replaced e (pa_rp s) = Some rp" and 2: "ip_update hf mapper (Some r) e rp = Some rp'" "pa_rp s' = rp'"
      by (auto simp: pa_postinsert_def bind_eq_Some_conv)
    from I obtain xss where R: "ip_rep n (pa_rp s) xss" by (auto simp: part_inv_def)
    have "part_inv n parts nb rp" using I replaced_inv [OF R 1] by (auto simp: part_inv_def)
    then show ?thesis using update_part_inv [OF _ 2(1) m] 2(2) by simp
  qed
next
  case (Pa_sizes ks)
  then show ?thesis using u sizes_part_inv [OF I _ nb] by auto
qed

lemma run_part_inv:
  assumes "\<And>r p. mapper (Some r) = Some p \<Longrightarrow> p < parts" and "2 \<le> nb"
  shows "part_inv n parts nb (pa_rp s) \<Longrightarrow> run_ops (pa_exec hf mapper fdiv gt m2 zero) xs s = Some s' \<Longrightarrow> part_inv n parts nb (pa_rp s')"
proof (induction xs arbitrary: s)
  case (Cons x xs)
  from Cons.prems(2) obtain s1 where s1: "pa_exec hf mapper fdiv gt m2 zero x s = Some s1" "run_ops (pa_exec hf mapper fdiv gt m2 zero) xs s1 = Some s'"
    by (auto simp: bind_eq_Some_conv)
  have "part_inv n parts nb (pa_rp s1)" by (rule exec_part_inv [where mapper = mapper, OF Cons.prems(1) s1(1)]) (use assms in auto)
  from Cons.IH [OF this s1(2)] show ?case .
qed simp

lemma reach_inv:
  assumes "IdealPart_new room mon parts numLines nb = Some rp" and "numLines < 2 ^ 31" and "2 \<le> nb"
    and "\<And>r p. mapper (Some r) = Some p \<Longrightarrow> p < parts"
    and "run_ops (pa_exec hf mapper fdiv gt m2 zero) xs (IdealPartArray_new (unat numLines) rp) = Some s"
  shows "part_inv (unat numLines) parts nb (pa_rp s)"
proof (rule run_part_inv [where mapper = mapper, OF _ assms(3) _ assms(5)])
  show "part_inv (unat numLines) parts nb (pa_rp (IdealPartArray_new (unat numLines) rp))"
    using new_part_rep [OF assms(1,2)] by (auto simp: part_inv_def IdealPartArray_new_def)
qed (rule assms(4))

text \<open>C35: The bookkeeping of the ideal partitioned array is exact in every run of accesses and new sizes: the size of a partition
  is the number of lines that belong to it and the length of its list, so the assertion of \<^verbatim>\<open>rank\<close> that compares them holds.
  The constructor writes one element past an array, so the memory behind it must have \<open>room\<close> for the run to begin.\<close>

theorem ideal_part_sizes:
  assumes "IdealPart_new room mon parts numLines nb = Some rp" and "numLines < 2 ^ 31" and "2 \<le> nb"
    and "\<And>r p. mapper (Some r) = Some p \<Longrightarrow> p < parts"
    and "run_ops (pa_exec hf mapper fdiv gt m2 zero) xs (IdealPartArray_new (unat numLines) rp) = Some s" and "p < parts"
  shows "unat (part_size (ip_info (pa_rp s) ! p)) = length (filter (\<lambda>e. pe_p e = p) (ip_entries (pa_rp s))) \<and>
    unat (part_size (ip_info (pa_rp s) ! p)) = in_size (ip_lists (pa_rp s) ! p)"
proof -
  let ?s = "pa_rp s" and ?n = "unat numLines"
  from reach_inv [where mapper = mapper, OF assms(1-3) _ assms(5)] assms(4) obtain xss where R: "ip_rep ?n ?s xss" and P: "ip_partitions ?s = parts"
    unfolding part_inv_def by blast
  have r: "p < length xss" "length (ip_entries ?s) = ?n" "psize (ip_info ?s) p = of_nat (length (xss ! p))" "rep (ip_lists ?s ! p) (ip_nodes ?s) (xss ! p)"
    "\<And>i. i < ?n \<Longrightarrow> i \<in> set (xss ! pe_p (ip_entries ?s ! i))"
    using R P assms(6) by (auto simp: ip_rep_def queues_def)
  have "unat numLines < 2 ^ 32" using unsigned_less [of numLines, where ?'a = nat] by simp
  then have un: "unat (psize (ip_info ?s) p) = length (xss ! p)" using line_bound [OF R r(1)] r(3) by (simp add: unsigned_of_nat take_bit_nat_eq_self_iff)
  have "{i. i < ?n \<and> pe_p (ip_entries ?s ! i) = p} = set (xss ! p)" using owner_unique [OF R r(1)] r(5) by auto
  moreover have "distinct (xss ! p)" using r(4) by (simp add: rep_def)
  ultimately have "length (filter (\<lambda>e. pe_p e = p) (ip_entries ?s)) = length (xss ! p)" by (simp add: length_filter_conv_card r(2) distinct_card)
  moreover have "in_size (ip_lists ?s ! p) = length (xss ! p)" using r(4) by (simp add: rep_def in_size_def)
  ultimately show ?thesis using un by (simp add: psize_def)
qed

text \<open>C34: The choice of a victim in the ideal partitioned array (\<^verbatim>\<open>rank\<close>) never fails, in any state of a run. The victim is the last line of
  the list of its partition; it is a line of the requester's partition, unless that is empty or another one is above its
  target, and no other partition is further above its target.\<close>

theorem ideal_part_victim:
  fixes fdiv :: "u32 \<Rightarrow> u64 \<Rightarrow> 'd :: linorder"
  assumes "IdealPart_new room mon parts numLines nb = Some rp" and "numLines < 2 ^ 31" and "2 \<le> nb"
    and "\<And>r p. mapper (Some r) = Some p \<Longrightarrow> p < parts"
    and "run_ops (pa_exec hf mapper fdiv (\<lambda>x y. y < x) m2 zero) xs (IdealPartArray_new (unat numLines) rp) = Some s"
    and "0 < numLines" and "quotients fdiv m2 zero" and "mapper (Some r) = Some q"
  shows "let info = (!) (ip_info (pa_rp s)); above = (\<lambda>p. part_diff fdiv (info p)) in
    (\<exists>i. ip_rank fdiv (\<lambda>x y. y < x) m2 zero mapper (Some r) (pa_rp s) = Some i \<and> (let v = pe_p (ip_entries (pa_rp s) ! i) in
      in_back (ip_lists (pa_rp s) ! v) = Some i \<and> (v = q \<or> part_size (info q) = 0 \<or> zero < above v) \<and>
      list_all (\<lambda>p. part_size (info p) = 0 \<or> above p \<le> above v \<or> v = q \<and> above p \<le> zero) [0..<parts]))"
proof -
  let ?s = "pa_rp s" and ?n = "unat numLines"
  from reach_inv [where mapper = mapper, OF assms(1-3) _ assms(5)] assms(4) obtain xss where R: "ip_rep ?n ?s xss" and P: "ip_partitions ?s = parts"
    and t: "list_all (\<lambda>x. targetSize x < 2 ^ 31) (ip_info ?s)" unfolding part_inv_def by blast
  have n: "0 < ?n" "?n < 2 ^ 31" using assms(2,6) by (simp_all add: word_less_nat_alt)
  have q: "q < ip_partitions ?s" using assms(4) [OF assms(8)] P by simp
  from rank_run [where mapper = mapper and req = "Some r", OF R n t assms(8) q assms(7)] obtain v where v: "v < parts" "xss ! v \<noteq> []"
    "ip_rank fdiv (\<lambda>x y. y < x) m2 zero mapper (Some r) ?s = Some (last (xss ! v))"
    "v = q \<or> psize (ip_info ?s) q = 0 \<or> zero < part_diff fdiv (ip_info ?s ! v)"
    "\<forall>p<parts. psize (ip_info ?s) p > 0 \<longrightarrow>
      part_diff fdiv (ip_info ?s ! p) \<le> part_diff fdiv (ip_info ?s ! v) \<or> v = q \<and> part_diff fdiv (ip_info ?s ! p) \<le> zero" unfolding P by blast
  have vx: "v < length xss" "rep (ip_lists ?s ! v) (ip_nodes ?s) (xss ! v)" using R P v(1) by (auto simp: ip_rep_def queues_def)
  have "pe_p (ip_entries ?s ! last (xss ! v)) = v" by (rule owner_unique(2) [OF R vx(1)]) (use v(2) in simp)
  moreover have "in_back (ip_lists ?s ! v) = Some (last (xss ! v))" using vx(2) v(2) by (simp add: rep_def in_back_def ends_nonempty)
  ultimately show ?thesis using v(3-5) by (auto simp: Let_def psize_def list_all_iff word_neq_0_conv)
qed

subsection \<open>No operation stops\<close>

definition pa_inv :: "nat \<Rightarrow> nat \<Rightarrow> u32 \<Rightarrow> IdealPartArray \<Rightarrow> bool" where
  "pa_inv n parts nb s \<longleftrightarrow> part_inv n parts nb (pa_rp s) \<and> mon_ok parts (ip_monitor (pa_rp s)) \<and> length (pa_lineAddrs s) = n \<and>
     (\<forall>a i. pa_lineMap s a = Some i \<longrightarrow> i < n \<and> pa_lineAddrs s ! i = a)"

lemma update_returns:
  assumes I: "part_inv n parts nb s" and mon: "mon_ok parts (ip_monitor s)" and i: "i < n" and h: "hash_total hf" and a: "lineAddr r \<noteq> 0"
    and m: "mapper (Some r) = Some q" "q < parts"
  shows "\<exists>s'. ip_update hf mapper (Some r) i s = Some s' \<and> part_inv n parts nb s' \<and> mon_ok parts (ip_monitor s')"
proof -
  from I obtain xss where R: "ip_rep n s xss" and P: "ip_partitions s = parts" by (auto simp: part_inv_def)
  let ?e = "ip_entries s ! i"
  define p where "p = (if pe_used ?e then pe_p ?e else q)"
  have p: "p < parts" using R i m(2) P by (auto simp: p_def ip_rep_def)
  have "if pe_used ?e then p = pe_p ?e else mapper (Some r) = Some p \<and> p < ip_partitions s" using m P by (simp add: p_def)
  from update_run [where mapper = mapper and hf = hf, OF R i refl this] obtain ps ls h' where
    u: "ip_update hf mapper (Some r) i s = map_option (\<lambda>m. moved i p ps ls h' m s) (mon_access hf p (lineAddr r) (ip_monitor s))" by blast
  obtain m' where m': "mon_access hf p (lineAddr r) (ip_monitor s) = Some m'" "mon_ok parts m'" using mon_access_returns [OF h mon p a] by blast
  have s': "ip_update hf mapper (Some r) i s = Some (moved i p ps ls h' m' s)" using u m'(1) by simp
  have "part_inv n parts nb (moved i p ps ls h' m' s)" by (rule update_part_inv [OF I s']) (use m in simp)
  with s' m'(2) show ?thesis by (simp add: moved_def)
qed

lemma sizes_return:
  fixes nb :: u32
  assumes "parts \<le> length ks" and "nb \<noteq> 0"
  shows "parts \<le> length ps \<Longrightarrow> P \<le> parts \<Longrightarrow> fold (\<lambda>p ps. do {
         ps \<leftarrow> ps;
         k \<leftarrow> read_at ks p;
         assert_that (nb \<noteq> 0);
         mod_part p (\<lambda>x. x\<lparr>targetSize := ucast (k * nl div nb)\<rparr>) ps
       }) [0..<P] (Some ps) \<noteq> None"
proof (induction P)
  case (Suc P)
  let ?f = "\<lambda>p ps. do { ps \<leftarrow> ps; k \<leftarrow> read_at ks p; assert_that (nb \<noteq> 0); mod_part p (\<lambda>x. x\<lparr>targetSize := ucast (k * nl div nb)\<rparr>) ps }"
  from Suc obtain ps1 where 1: "fold ?f [0..<P] (Some ps) = Some ps1" by auto
  have "length ps1 = length ps" using set_targets [OF 1] by simp
  then show ?case using Suc.prems assms 1 by (simp add: mod_part_Some array_simps)
qed simp

lemma exec_returns:
  fixes fdiv :: "u32 \<Rightarrow> u64 \<Rightarrow> 'd :: linorder"
  assumes I: "pa_inv n parts nb s" and n: "0 < n" "n < 2 ^ 31" and nb: "2 \<le> nb" and h: "hash_total hf" and f: "quotients fdiv m2 zero"
    and m: "\<And>r p. mapper (Some r) = Some p \<Longrightarrow> p < parts"
    and x: "case x of Pa_access r \<Rightarrow> lineAddr r \<noteq> 0 \<and> mapper (Some r) \<noteq> None | Pa_sizes ks \<Rightarrow> parts \<le> length ks"
  shows "\<exists>s'. pa_exec hf mapper fdiv (\<lambda>x y. y < x) m2 zero x s = Some s' \<and> pa_inv n parts nb s' \<and>
    (case x of Pa_access r \<Rightarrow> pa_lineMap s' (lineAddr r) \<noteq> None | Pa_sizes ks \<Rightarrow> True)"
proof -
  have P: "part_inv n parts nb (pa_rp s)" "mon_ok parts (ip_monitor (pa_rp s))" "length (pa_lineAddrs s) = n"
    "\<And>a i. pa_lineMap s a = Some i \<Longrightarrow> i < n \<and> pa_lineAddrs s ! i = a" using I by (auto simp: pa_inv_def)
  from P(1) obtain xss where R: "ip_rep n (pa_rp s) xss" and parts: "ip_partitions (pa_rp s) = parts" and nb': "ip_numBuckets (pa_rp s) = nb"
    and t: "list_all (\<lambda>x. targetSize x < 2 ^ 31) (ip_info (pa_rp s))" by (auto simp: part_inv_def)
  show ?thesis
  proof (cases x)
    case (Pa_sizes ks)
    have "parts \<le> length (ip_info (pa_rp s))" using R parts by (simp add: ip_rep_def)
    moreover have "parts \<le> length ks" "nb \<noteq> 0" using x Pa_sizes nb by auto
    ultimately obtain rp where rp: "ip_setPartitionSizes ks (pa_rp s) = Some rp"
      using sizes_return [of parts ks nb "ip_info (pa_rp s)" parts "ip_numLines (pa_rp s)"] by (auto simp: ip_setPartitionSizes_def parts nb')
    moreover have "ip_monitor rp = ip_monitor (pa_rp s)" using rp by (auto simp: ip_setPartitionSizes_def bind_eq_Some_conv)
    ultimately show ?thesis using Pa_sizes P sizes_part_inv [OF P(1) rp nb] by (auto simp: pa_inv_def)
  next
    case (Pa_access r)
    with x obtain q where q: "lineAddr r \<noteq> 0" "mapper (Some r) = Some q" "q < parts" using m by auto
    show ?thesis
    proof (cases "pa_lineMap s (lineAddr r)")
      case (Some i)
      from update_returns [where mapper = mapper, OF P(1,2) _ h q(1,2,3), of i] P(4) [OF Some] obtain rp where
        "ip_update hf mapper (Some r) i (pa_rp s) = Some rp" "part_inv n parts nb rp" "mon_ok parts (ip_monitor rp)" by blast
      then show ?thesis using Pa_access Some P by (auto simp: pa_lookup_def pa_inv_def)
    next
      case None
      obtain v where v: "v < parts" "xss ! v \<noteq> []" "ip_rank fdiv (\<lambda>x y. y < x) m2 zero mapper (Some r) (pa_rp s) = Some (last (xss ! v))"
        using rank_run [where mapper = mapper and req = "Some r", OF R n t q(2) _ f] q(3) unfolding parts by blast
      let ?i = "last (xss ! v)"
      have i: "?i < n" by (rule owner_unique(1) [OF R, of v]) (use R v parts in \<open>auto simp: ip_rep_def\<close>)
      let ?rp = "(pa_rp s)\<lparr>ip_entries := (ip_entries (pa_rp s))[?i := (ip_entries (pa_rp s) ! ?i)\<lparr>pe_used := False\<rparr>]\<rparr>"
      have rp: "ip_replaced ?i (pa_rp s) = Some ?rp" using R i by (simp add: ip_replaced_def ip_rep_def array_simps)
      have "part_inv n parts nb ?rp" using P(1) replaced_inv [OF R rp] R by (auto simp: part_inv_def)
      from update_returns [where mapper = mapper, OF this _ i h q(1,2,3)] P(2) obtain rp' where
        rp': "ip_update hf mapper (Some r) ?i ?rp = Some rp'" "part_inv n parts nb rp'" "mon_ok parts (ip_monitor rp')" by auto
      let ?old = "pa_lineAddrs s ! ?i"
      let ?m = "(pa_lineMap s)(?old := None, lineAddr r \<mapsto> ?i)" and ?addrs = "(pa_lineAddrs s)[?i := lineAddr r]"
      have "remap (lineAddr r) ?i (pa_lineMap s, pa_lineAddrs s) = Some (?m, ?addrs)" using None i P(3) by (simp add: remap_def array_simps Let_def)
      then have "pa_exec hf mapper fdiv (\<lambda>x y. y < x) m2 zero x s = Some (s\<lparr>pa_lineMap := ?m, pa_lineAddrs := ?addrs, pa_rp := rp'\<rparr>)"
        using Pa_access None v(3) i P(3) rp rp'(1) by (simp add: pa_lookup_def pa_preinsert_def pa_postinsert_def array_simps)
      moreover have "j < n \<and> ?addrs ! j = a" if "?m a = Some j" for a j
        using that P(3) P(4) [of a j] i by (auto simp: nth_list_update split: if_splits)
      ultimately show ?thesis using Pa_access P(3) rp'(2,3) by (auto simp: pa_inv_def)
    qed
  qed
qed

lemma pa_run_returns:
  fixes fdiv :: "u32 \<Rightarrow> u64 \<Rightarrow> 'd :: linorder"
  assumes n: "0 < n" "n < 2 ^ 31" and nb: "2 \<le> nb" and h: "hash_total hf" and f: "quotients fdiv m2 zero"
    and m: "\<And>r p. mapper (Some r) = Some p \<Longrightarrow> p < parts"
  shows "pa_inv n parts nb s \<Longrightarrow>
    \<forall>x\<in>set xs. case x of Pa_access r \<Rightarrow> lineAddr r \<noteq> 0 \<and> mapper (Some r) \<noteq> None | Pa_sizes ks \<Rightarrow> parts \<le> length ks \<Longrightarrow>
    \<exists>s'. run_ops (pa_exec hf mapper fdiv (\<lambda>x y. y < x) m2 zero) xs s = Some s' \<and> pa_inv n parts nb s'"
proof (induction xs arbitrary: s)
  case (Cons x xs)
  have x: "case x of Pa_access r \<Rightarrow> lineAddr r \<noteq> 0 \<and> mapper (Some r) \<noteq> None | Pa_sizes ks \<Rightarrow> parts \<le> length ks" using Cons.prems(2) by simp
  obtain s1 where s1: "pa_exec hf mapper fdiv (\<lambda>x y. y < x) m2 zero x s = Some s1" "pa_inv n parts nb s1"
    using exec_returns [where mapper = mapper, OF Cons.prems(1) n nb h f _ x] m by blast
  from Cons.IH [OF s1(2)] Cons.prems(2) obtain s' where "run_ops (pa_exec hf mapper fdiv (\<lambda>x y. y < x) m2 zero) xs s1 = Some s'" "pa_inv n parts nb s'"
    by auto
  with s1(1) show ?case by simp
qed simp

text \<open>C36: No operation of the ideal partitioned array stops the simulator: every sequence of accesses to lines other
  than 0, by requests the mapper gives a partition, and of new sizes for all partitions, runs to its end: every
  assertion holds, in the replacement, in the update and in the utility monitor, and the table and the
  addresses of the lines agree. The monitor has a utility monitor per partition, with at most as many buckets
  as lines, and hash functions 0 and 1 give a value for every address; there is memory behind the array that the
  constructor overruns (\<open>room\<close>), and the quotients of \<^verbatim>\<open>rank\<close> are above -2.0.\<close>

theorem ideal_part_returns:
  fixes fdiv :: "u32 \<Rightarrow> u64 \<Rightarrow> 'd :: linorder"
  assumes "IdealPart_new room mon parts numLines nb = Some rp" and "UMonMonitor_new bankLines lines buckets parts k = Some mon"
    and "buckets \<le> lines" and "lines < 2 ^ 32" and "0 < numLines" and "numLines < 2 ^ 31" and "2 \<le> nb"
    and "\<And>r p. mapper (Some r) = Some p \<Longrightarrow> p < parts" and "hash_total hf" and "quotients fdiv m2 zero"
    and "\<forall>x\<in>set xs. case x of Pa_access r \<Rightarrow> lineAddr r \<noteq> 0 \<and> mapper (Some r) \<noteq> None | Pa_sizes ks \<Rightarrow> parts \<le> length ks"
  shows "\<exists>s. run_ops (pa_exec hf mapper fdiv (\<lambda>x y. y < x) m2 zero) xs (IdealPartArray_new (unat numLines) rp) = Some s \<and>
    (\<forall>a i. pa_lineMap s a = Some i \<longrightarrow> i < unat numLines \<and> pa_lineAddrs s ! i = a)"
proof -
  have "part_inv (unat numLines) parts nb (pa_rp (IdealPartArray_new (unat numLines) rp))"
    using new_part_rep [OF assms(1,6)] by (auto simp: part_inv_def IdealPartArray_new_def)
  moreover have "ip_monitor rp = mon" using assms(1) by (auto simp: IdealPart_new_def bind_eq_Some_conv Let_def)
  ultimately have I: "pa_inv (unat numLines) parts nb (IdealPartArray_new (unat numLines) rp)"
    using new_mon_ok [OF assms(2-4)] by (simp add: pa_inv_def IdealPartArray_new_def)
  have n: "0 < unat numLines" "unat numLines < 2 ^ 31" using assms(5,6) by (simp_all add: word_less_nat_alt)
  obtain s where "run_ops (pa_exec hf mapper fdiv (\<lambda>x y. y < x) m2 zero) xs (IdealPartArray_new (unat numLines) rp) = Some s"
    "pa_inv (unat numLines) parts nb s"
    using pa_run_returns [where mapper = mapper, OF n assms(7,9,10) _ I assms(11)] assms(8) by blast
  then show ?thesis unfolding pa_inv_def by blast
qed

text \<open>A run with two partitions, where a partition above its target loses a line.\<close>

definition idp_req :: "address \<Rightarrow> u32 \<Rightarrow> MemReq" where
  "idp_req a c = \<lparr>lineAddr = a, req_type = GETS, childId = 0, req_state = StI, req_cycle = 0, initialState = StI, srcId = c, flags = 0\<rparr>"

definition idp_mapper :: mapper where
  "idp_mapper req = map_option (\<lambda>r. if srcId r = 0 then 0 else 1) req"

definition idp_div :: "u32 \<Rightarrow> u64 \<Rightarrow> int" where
  "idp_div d t = sint d"

definition idp_policy :: IdealPart where
  "idp_policy = the (IdealPart_new 1 (the (UMonMonitor_new 16 8 4 2 4)) 2 4 4)"

definition idp_ops :: "pa_op list" where
  "idp_ops = [Pa_access (idp_req 5 1), Pa_sizes [1, 3], Pa_access (idp_req 6 0), Pa_access (idp_req 5 1), Pa_access (idp_req 7 1)]"

definition idp_state :: IdealPartArray where
  "idp_state = the (run_ops (pa_exec (\<lambda>_ _. Some 0) idp_mapper idp_div (\<lambda>x y. y < x) (- (2 ^ 40)) 0) idp_ops (IdealPartArray_new 4 idp_policy))"

lemma idp_new: "IdealPart_new 1 (the (UMonMonitor_new 16 8 4 2 4)) 2 4 4 = Some idp_policy"
proof -
  have "IdealPart_new 1 (the (UMonMonitor_new 16 8 4 2 4)) 2 4 4 \<noteq> None" by code_simp
  then show ?thesis by (simp add: idp_policy_def)
qed

lemma idp_run: "run_ops (pa_exec (\<lambda>_ _. Some 0) idp_mapper idp_div (\<lambda>x y. y < x) (- (2 ^ 40)) 0) idp_ops (IdealPartArray_new (unat (4 :: u32)) idp_policy) = Some idp_state"
proof -
  have "run_ops (pa_exec (\<lambda>_ _. Some 0) idp_mapper idp_div (\<lambda>x y. y < x) (- (2 ^ 40)) 0) idp_ops (IdealPartArray_new 4 idp_policy) \<noteq> None" by code_simp
  then show ?thesis by (simp add: idp_state_def)
qed

lemma idp_mapper_less: "idp_mapper (Some r) = Some p \<Longrightarrow> p < 2"
  by (auto simp: idp_mapper_def split: if_splits)

lemma idp_quotients: "quotients idp_div (- (2 ^ 40)) 0"
proof -
  have "- (2 ^ 40) < sint (d :: u32)" for d using sint_ge [of d] by simp
  then show ?thesis by (simp add: quotients_def idp_div_def)
qed

lemma idp_mon: "UMonMonitor_new 16 8 4 2 4 = Some (the (UMonMonitor_new 16 8 4 2 4))"
proof -
  have "UMonMonitor_new 16 8 4 2 4 \<noteq> None" by code_simp
  then show ?thesis by simp
qed

theorem ideal_part_returns_witness:
  "\<exists>s. run_ops (pa_exec (\<lambda>_ _. Some 0) idp_mapper idp_div (\<lambda>x y. y < x) (- (2 ^ 40)) 0) [Pa_access (idp_req 5 1), Pa_sizes [1, 3], Pa_access (idp_req 6 0)]
     (IdealPartArray_new (unat (4 :: u32)) idp_policy) = Some s \<and>
   (\<forall>a i. pa_lineMap s a = Some i \<longrightarrow> i < unat (4 :: u32) \<and> pa_lineAddrs s ! i = a)"
  by (rule ideal_part_returns [where mapper = idp_mapper, OF idp_new idp_mon _ _ _ _ _ idp_mapper_less _ idp_quotients])
    (simp_all add: hash_total_def, simp_all add: idp_mapper_def idp_req_def)

theorem ideal_part_sizes_witness:
  "unat (part_size (ip_info (pa_rp idp_state) ! 1)) = length (filter (\<lambda>e. pe_p e = 1) (ip_entries (pa_rp idp_state))) \<and>
    unat (part_size (ip_info (pa_rp idp_state) ! 1)) = in_size (ip_lists (pa_rp idp_state) ! 1)"
  by (rule ideal_part_sizes [where mapper = idp_mapper, OF idp_new _ _ _ idp_run]) (simp_all add: idp_mapper_less)

theorem ideal_part_victim_witness:
  "let info = (!) (ip_info (pa_rp idp_state)); above = (\<lambda>p. part_diff idp_div (info p)) in
    (\<exists>i. ip_rank idp_div (\<lambda>x y. y < x) (- (2 ^ 40)) 0 idp_mapper (Some (idp_req 8 1)) (pa_rp idp_state) = Some i \<and> (let v = pe_p (ip_entries (pa_rp idp_state) ! i) in
      in_back (ip_lists (pa_rp idp_state) ! v) = Some i \<and> (v = 1 \<or> part_size (info 1) = 0 \<or> 0 < above v) \<and>
      list_all (\<lambda>p. part_size (info p) = 0 \<or> above p \<le> above v \<or> v = 1 \<and> above p \<le> 0) [0..<2]))"
  by (rule ideal_part_victim [where mapper = idp_mapper, OF idp_new _ _ _ idp_run _ idp_quotients])
    (simp_all add: idp_mapper_less, simp add: idp_mapper_def idp_req_def)

end
