(* ===== verification/Spec2Isabelle.thy ===== *)
theory Spec2Isabelle
  imports Tree23_Contract Approx_Contract Hash_Contract Repl_Contract Cache_Arrays Dpg_Map Doppelganger_Contract Two_Level
    Barrier_Contract In_List_Contract Prio_Contract Sched_Contract
    Prefetcher_Contract Utility_Contract Partition_Contract
    Ideal_Contract Ideal_Part_Contract
begin

text \<open>
  A verification development for the Doppelganger cache, an approximate last level cache in the zsim
  simulator. All source files are under \<^verbatim>\<open>src/zsim/src/\<close>.

  \<^bold>\<open>The program.\<close> zsim runs a program under Pin and simulates its memory accesses. A core sends a load or
  a store to its terminal cache, through a filter (\<^verbatim>\<open>filter_cache.h\<close>); a cache (\<^verbatim>\<open>cache.cpp\<close>) looks the
  line up in its array (\<^verbatim>\<open>cache_arrays.cpp\<close>), asks its replacement policy (\<^verbatim>\<open>repl_policies.h\<close>) for a
  victim on a miss, and its coherence controllers (\<^verbatim>\<open>coherence_ctrls.cpp\<close>) evict the victim, invalidate
  the copies of the children and send the request on to the parent, up to memory (\<^verbatim>\<open>mem_ctrls.cpp\<close>). The
  simulated program registers regions of approximable data, which are kept in a 2-3 tree (\<^verbatim>\<open>tree23.cpp\<close>,
  \<^verbatim>\<open>dict_info.h\<close>, \<^verbatim>\<open>zsim.cpp\<close>). The last level cache keeps lines of these regions in a second array
  (\<^verbatim>\<open>doppelganger_cache.cpp\<close>), where tags of similar lines share one data entry; lines are similar when
  \<^verbatim>\<open>get_map\<close> computes the same value from their contents.
  The scheduler (\<^verbatim>\<open>scheduler.h\<close>, \<^verbatim>\<open>scheduler.cpp\<close>) gives the cores to the threads of the simulated processes, and a
  barrier (\<^verbatim>\<open>barrier.h\<close>) lets a limited number of cores run at a time and ends a phase when all have run; at the
  end of a phase it calls the scheduler back. Both keep their threads in intrusive lists (\<^verbatim>\<open>intrusive_list.h\<close>).
  The events of the contention simulation wait in a priority queue (\<^verbatim>\<open>prio_queue.h\<close>).
  A configuration may put a stream prefetcher (\<^verbatim>\<open>prefetcher.cpp\<close>) between two levels, and may divide the ways of a cache
  among partitions (\<^verbatim>\<open>part_repl_policies.h\<close>): utility monitors (\<^verbatim>\<open>utility_monitor.cpp\<close>, \<^verbatim>\<open>monitor.cpp\<close>) estimate the misses
  of each partition for each number of ways, and a greedy algorithm (\<^verbatim>\<open>lookahead.cpp\<close>) chooses the sizes.

  \<^bold>\<open>The theories.\<close>
  \<^item> \<^verbatim>\<open>Prelude\<close>: machine words, the macros of \<^verbatim>\<open>bithacks.h\<close>, arrays with checked accesses, and the
    conventions: a failed assertion, a \<^verbatim>\<open>panic\<close>, an access out of an array or through a null pointer is
    \<open>None\<close>; a value the source keeps in w bits is a \<open>w word\<close>.
  \<^item> \<^verbatim>\<open>Tree23\<close> has the definitions of \<^verbatim>\<open>tree23.cpp\<close>, in its order, with the explicit stacks of the C code;
    \<^verbatim>\<open>Tree23_Shape\<close>, \<^verbatim>\<open>Tree23_Insert\<close> and \<^verbatim>\<open>Tree23_Delete\<close> the invariant and its preservation;
    \<^verbatim>\<open>Tree23_Contract\<close> the refinement of sorted lists of regions by every sequence of operations.
  \<^item> \<^verbatim>\<open>Approx_Regions\<close> and \<^verbatim>\<open>Approx_Contract\<close>: the dictionary interface (locale \<open>approx_dict\<close>, interpreted on
    the tree as \<open>tree_dict\<close>), registration of regions, and \<^verbatim>\<open>Cache::isApprox\<close>.
  \<^item> \<^verbatim>\<open>Mem_Hierarchy\<close>: the types of \<^verbatim>\<open>memory_hierarchy.h\<close>. \<^verbatim>\<open>Hash_Family\<close>, \<^verbatim>\<open>Hash_Contract\<close>: \<^verbatim>\<open>hash.cpp\<close>.
  \<^item> \<^verbatim>\<open>Repl_Policies\<close>, \<^verbatim>\<open>Repl_Contract\<close>: \<^verbatim>\<open>repl_policies.h\<close> and what an array needs of a policy (locales
    \<open>replacement\<close> and \<open>ready_replacement\<close>, interpreted on LRU and its two Doppelganger variants, NRU and
    random replacement).
  \<^item> \<^verbatim>\<open>Cache_Arrays\<close>: the set-associative array and the zcache. \<^verbatim>\<open>Array_Contract\<close>: what a cache needs of its
    array (locale \<open>cache_array\<close>, interpreted on the set-associative array with LRU as \<open>sa_lru\<close>).
  \<^item> \<^verbatim>\<open>Doppelganger\<close>: the Doppelganger array. \<^verbatim>\<open>Doppelganger_Lists\<close> reads its linked tags as one list per
    data entry, \<^verbatim>\<open>Doppelganger_Ops\<close> proves its operations against these lists for any two policies of the
    interface (locale \<open>dpg_env\<close>), \<^verbatim>\<open>Doppelganger_Contract\<close> interprets this on the policies of \<^verbatim>\<open>init.cpp\<close>.
    \<^verbatim>\<open>Dpg_Map\<close>: \<^verbatim>\<open>get_map\<close>.
  \<^item> \<^verbatim>\<open>Filter_Cache\<close>: the filter. \<^verbatim>\<open>Coherence\<close>: the MESI controllers. \<^verbatim>\<open>Cache_Model\<close>: \<^verbatim>\<open>Cache::access\<close>,
    \<^verbatim>\<open>Cache::finishInvalidate\<close>, the loads and stores of the filter cache, and simple memory. The objects
    of a hierarchy live in a list, and a pointer is an index, so that a request a cache sends to its
    parent can come back to it as an invalidation of its lines.
  \<^item> \<^verbatim>\<open>Hierarchy\<close> to \<^verbatim>\<open>Hierarchy_Filter\<close>: the locale \<open>two_level\<close>, \<open>n\<close> terminal caches under one inclusive
    cache over any array of the interface \<open>cache_array\<close>. \<^verbatim>\<open>Hierarchy_Protocol\<close> has the invariant on a view
    of the states, the directory and the arrays, \<^verbatim>\<open>Hierarchy_Ops\<close> and \<^verbatim>\<open>Hierarchy_Access\<close> run the
    controllers and caches on a heap that satisfies it, \<^verbatim>\<open>Hierarchy_Filter\<close> adds the filters.
  \<^item> \<^verbatim>\<open>Two_Level\<close>: the hierarchy \<^verbatim>\<open>init.cpp\<close> builds from a configuration with two levels, the runs of its
    cores without approximable lines, and the properties of every such run; the locale \<open>two_level\<close> is interpreted on it as \<open>sys\<close>.
  \<^item> \<^verbatim>\<open>In_List\<close>, \<^verbatim>\<open>In_List_Contract\<close>: the intrusive lists as nodes in a store, and their refinement of lists.
    \<^verbatim>\<open>Prio_Queue\<close>, \<^verbatim>\<open>Prio_Contract\<close>: the priority queue (locale \<open>priority_queue\<close>) and its refinement of a sorted list.
  \<^item> \<^verbatim>\<open>Barrier\<close>: the phase barrier. \<^verbatim>\<open>Barrier_Contract\<close>: its invariant, that it never stops, and what
    the scheduler needs of it for any callback (locale \<open>phase_barrier\<close>, interpreted as \<open>bar\<close>).
  \<^item> \<^verbatim>\<open>Scheduler\<close>: the scheduler, in the order of the source. A thread waits inside \<^verbatim>\<open>join\<close>, \<^verbatim>\<open>sync\<close> and the
    matching of futex wakes, so these operations are split at the wait (\<open>sched_sync\<close> and \<open>sched_sync_end\<close>). Calls into the
    cores are logged in the order they happen. \<^verbatim>\<open>Sched_Inv\<close> has the invariant of its tables, \<^verbatim>\<open>Sched_Steps\<close> its
    preservation by the steps the operations are made of, \<^verbatim>\<open>Sched_Phase\<close> the end of a phase, which the barrier's
    callback runs, \<^verbatim>\<open>Sched_Joint\<close> the invariant that joins scheduler and barrier,
    \<^verbatim>\<open>Sched_Ops\<close> its preservation by every operation, \<^verbatim>\<open>Sched_Contract\<close> the calls with their calling conventions
    and the properties of every run (locale \<open>guarded_calls\<close> of \<^verbatim>\<open>Prelude\<close>, interpreted as \<open>sched_sys\<close>).
  \<^item> \<^verbatim>\<open>Prefetcher\<close>, \<^verbatim>\<open>Prefetcher_Contract\<close>: the stream prefetcher over any parent that answers requests.
  \<^item> \<^verbatim>\<open>LRU_Stack\<close>: a reference for LRU, a list of lines in the order of their last use. \<^verbatim>\<open>Utility_Monitor\<close>,
    \<^verbatim>\<open>Utility_Contract\<close>: the utility monitors, and that they count the misses of this reference.
  \<^item> \<^verbatim>\<open>Partitioning\<close>, \<^verbatim>\<open>Partition_Contract\<close>: the mapping of requests to partitions, the lookahead algorithm and way
    partitioning.
  \<^item> \<^verbatim>\<open>Ideal_Arrays\<close>: the fully associative arrays of \<^verbatim>\<open>ideal_arrays.h\<close>, for limit studies. \<^verbatim>\<open>Ideal_Contract\<close>: the
    first refines the LRU list of \<^verbatim>\<open>LRU_Stack\<close> (locale \<open>simulation\<close>, interpreted as \<open>ideal\<close>). \<^verbatim>\<open>Ideal_Part_Contract\<close>: the
    lists, sizes and victims of the partitioned one.

  \<^bold>\<open>What is shown.\<close> The 2-3 tree never fails and behaves like a sorted list. A line is approximable exactly
  if the region with the greatest base not above it holds it. The Doppelganger array keeps its linked
  lists exact, an inserted line is found again, and an eviction of a data entry ends and removes all its
  tags; these operations fail only if the coherence controller fails to evict tags of the array. The runs of a
  two-level system are those of a program without approximable regions, with any number of processes (\<open>core_step\<close>):
  in them at most one core can write a line, the last level cache covers
  the caches of the cores, and every load and store returns, so that no assertion of the coherence
  controllers can fail; if there is one process, the filters hold only lines their caches hold. Runs with
  approximable lines are not covered; concrete ones show that these guarantees are lost there. The lists and the priority queue behave like lists of their elements. The
  barrier never stops while a thread is in it. In every run of scheduler and barrier the tables of the scheduler agree
  with each other and with the barrier, no core is idle while a queued thread may use it, no queued thread is lost, and
  no call stops the simulator, if threads call as the calling conventions \<open>call_ok\<close> say, but for one: \<^verbatim>\<open>join\<close>
  after a futex wake, which stops exactly if the assertions of \<^verbatim>\<open>futexWakeJoin\<close> on its counters do not hold, and a
  run shows that it happens. The findings of the manifest name what else the proofs showed.

  The prefetcher stays in its page and never stops, once its table is filled; its streams that go down do not get ahead. A
  utility monitor has the miss curve of LRU for every number of ways. Way partitioning keeps exact sizes and evicts the oldest
  line of the partition first, but the lookahead algorithm assigns more ways than there are, which stops the simulator.
  The ideal array is a LRU cache for lines other than line 0, and the ideal partitioned array always finds a victim, in the partition that
  is most above its target; no sequence of its accesses to such lines and of new sizes stops.

  \<^bold>\<open>Bounds.\<close> \<open>access\<close> and \<open>invalidate\<close> recurse over the depth of the hierarchy, with 3 as its bound for two
  levels and memory. The response of an access is at most \<open>2 ^ 33\<close> cycles after the request when the
  request is \<open>2 ^ 37\<close> cycles before the wrap-around of the 64-bit clock; latencies are 32-bit. A cache has
  at most \<^verbatim>\<open>MAX_CACHE_CHILDREN\<close> = 256 children.

  \<^bold>\<open>Not modelled.\<close> Locks: an access, and a call of the scheduler up to its wait, runs to its end before the next one starts
  (\<^verbatim>\<open>finish\<close> gives up the scheduler's lock for a moment, and the model does not show what other threads may do
  then). Of the scheduler, waiting in the host's futexes with its spurious wakeups, the timing of the watchdog,
  \<^verbatim>\<open>waitUntilQueued\<close> and statistics; \<^verbatim>\<open>processCleanup\<close> is defined but not a call of the runs. The weave phase but for its
  priority queue, the timing and tracing caches, and memory controllers other than \<^verbatim>\<open>SimpleMemory\<close>; Vantage, which
  computes in floating point; out-of-order cores and the instruction decoder; Pin, configuration
  files, statistics, system calls. The manifest gives the reason for each. Random numbers, the contents
  of simulated memory and floating point arithmetic are parameters of the definitions that use them.
\<close>

end
